(* ===== verification/Prelude.thy ===== *)
theory Prelude
  imports Complex_Main "HOL-Library.AList" "HOL-Library.Word"
begin

text \<open>
  Shared ground of the development: results with errors (a thrown \<^verbatim>\<open>Error\<close> is the
  left summand), loops that may throw, JavaScript numbers, array indexing, JSON values, and
  the generic list and map lemmas that the component theories use.  JavaScript \<^verbatim>\<open>Map\<close>
  objects whose iteration order matters are association lists updated with
  \<^term>\<open>AList.update\<close> (in place for a known key, at the end for a new one) and
  \<^term>\<open>AList.delete\<close>.
\<close>

named_theorems result_simps \<open>evaluation of computations that may throw\<close>
named_theorems query_simps \<open>unfolding of query predicates\<close>

section \<open>Results with errors\<close>

definition rbind :: "'e + 'a \<Rightarrow> ('a \<Rightarrow> 'e + 'b) \<Rightarrow> 'e + 'b" where
  "rbind m f = (case m of Inl e \<Rightarrow> Inl e | Inr a \<Rightarrow> f a)"

definition rcheck :: "'e \<Rightarrow> bool \<Rightarrow> 'e + unit" where
  "rcheck e b = (if b then Inr () else Inl e)"

text \<open>\<open>rcheck e b\<close> throws \<open>e\<close> unless \<open>b\<close>; \<open>rfold\<close> is a loop whose body may throw.\<close>

fun rfold :: "('s \<Rightarrow> 'a \<Rightarrow> 'e + 's) \<Rightarrow> 's \<Rightarrow> 'a list \<Rightarrow> 'e + 's" where
  "rfold f s [] = Inr s"
| "rfold f s (x # xs) = rbind (f s x) (\<lambda>s'. rfold f s' xs)"

definition is_ok :: "'e + 'a \<Rightarrow> bool" where
  "is_ok m = (case m of Inl _ \<Rightarrow> False | Inr _ \<Rightarrow> True)"

lemma rbind_Inl [simp, result_simps]: "rbind (Inl e) f = Inl e"
  by (simp add: rbind_def)

lemma rbind_Inr [simp, result_simps]: "rbind (Inr a) f = f a"
  by (simp add: rbind_def)

lemma rbind_eq_Inr [simp]: "rbind m f = Inr b \<longleftrightarrow> (\<exists>a. m = Inr a \<and> f a = Inr b)"
  by (cases m) auto

lemma rbind_eq_Inl: "rbind m f = Inl e \<longleftrightarrow> m = Inl e \<or> (\<exists>a. m = Inr a \<and> f a = Inl e)"
  by (cases m) auto

lemma rbind_assoc: "rbind (rbind m f) g = rbind m (\<lambda>x. rbind (f x) g)"
  by (cases m) auto

lemma rbind_cong [fundef_cong]:
  "m = m' \<Longrightarrow> (\<And>a. m' = Inr a \<Longrightarrow> f a = f' a) \<Longrightarrow> rbind m f = rbind m' f'"
  by (cases m') auto

lemma rcheck_True [simp, result_simps]: "rcheck e True = Inr ()"
  by (simp add: rcheck_def)

lemma rcheck_False [simp, result_simps]: "rcheck e False = Inl e"
  by (simp add: rcheck_def)

lemma rcheck_eq_Inr [simp]: "rcheck e b = Inr u \<longleftrightarrow> b"
  by (simp add: rcheck_def)

lemma rcheck_eq_Inl [simp]: "rcheck e b = Inl e' \<longleftrightarrow> \<not> b \<and> e' = e"
  by (auto simp: rcheck_def)

lemma is_ok_simps [simp, result_simps]: "is_ok (Inr a)" "\<not> is_ok (Inl e)"
  by (simp_all add: is_ok_def)

lemma is_ok_iff: "is_ok m \<longleftrightarrow> (\<exists>a. m = Inr a)"
  by (cases m) auto

lemma rfold_append: "rfold f s (xs @ ys) = rbind (rfold f s xs) (\<lambda>s'. rfold f s' ys)"
  by (induction xs arbitrary: s) (auto simp: rbind_assoc)

lemma rfold_invariant:
  assumes "rfold f s xs = Inr s'" and "P s"
    and "\<And>s x s'. P s \<Longrightarrow> x \<in> set xs \<Longrightarrow> f s x = Inr s' \<Longrightarrow> P s'"
  shows "P s'"
  using assms
proof (induction xs arbitrary: s)
  case Nil
  then show ?case by simp
next
  case (Cons x xs)
  from Cons.prems(1) obtain s1 where s1: "f s x = Inr s1" and rest: "rfold f s1 xs = Inr s'"
    by auto
  from Cons.prems(2,3) s1 have "P s1" by (meson list.set_intros(1))
  with rest show ?case using Cons.IH Cons.prems(3) by (meson list.set_intros(2))
qed

section \<open>JavaScript numbers\<close>

text \<open>
  A JavaScript number, split the way \<^verbatim>\<open>Number.isInteger\<close> and \<^verbatim>\<open>Object.is\<close> tell
  numbers apart: an integral value other than \<open>-0\<close> by its integer, negative zero, a finite
  number with a fractional part by its IEEE 754 bit pattern, and the non-finite values.
\<close>

datatype jsnum = JsInt int | JsNegZero | JsFrac "64 word" | JsPosInf | JsNegInf | JsNaN

fun js_int :: "jsnum \<Rightarrow> int option" where
  "js_int (JsInt n) = Some n"
| "js_int JsNegZero = Some 0"
| "js_int _ = None"

fun js_is_finite :: "jsnum \<Rightarrow> bool" where
  "js_is_finite JsPosInf = False"
| "js_is_finite JsNegInf = False"
| "js_is_finite JsNaN = False"
| "js_is_finite _ = True"

definition js_is_integer :: "jsnum \<Rightarrow> bool" where
  "js_is_integer x = (js_int x \<noteq> None)"

definition max_safe_integer :: int where
  "max_safe_integer = 2 ^ 53 - 1"

definition js_is_safe_integer :: "jsnum \<Rightarrow> bool" where
  "js_is_safe_integer x =
     (case js_int x of None \<Rightarrow> False | Some n \<Rightarrow> - max_safe_integer \<le> n \<and> n \<le> max_safe_integer)"

text \<open>Reading an array: \<^verbatim>\<open>undefined\<close> outside the bounds.\<close>

definition js_index :: "'a list \<Rightarrow> int \<Rightarrow> 'a option" where
  "js_index xs i = (if 0 \<le> i \<and> i < int (length xs) then Some (xs ! nat i) else None)"

lemma js_index_Some [simp]: "i < length xs \<Longrightarrow> js_index xs (int i) = Some (xs ! i)"
  by (simp add: js_index_def)

lemma js_index_SomeD: "js_index xs i = Some x \<Longrightarrow> x \<in> set xs"
  by (auto simp: js_index_def split: if_splits)

section \<open>Decimal numerals\<close>

fun nat_to_string :: "nat \<Rightarrow> string" where
  "nat_to_string n =
     (let d = char_of (48 + n mod 10) in if n < 10 then [d] else nat_to_string (n div 10) @ [d])"

declare nat_to_string.simps [simp del]

definition int_to_string :: "int \<Rightarrow> string" where
  "int_to_string n = (if n < 0 then ''-'' @ nat_to_string (nat (- n)) else nat_to_string (nat n))"

section \<open>Bytes\<close>

type_synonym byte = "8 word"

text \<open>Storing a number into a \<^verbatim>\<open>Uint8Array\<close> keeps its low eight bits.\<close>

definition u8 :: "nat \<Rightarrow> byte" where
  "u8 n = word_of_nat n"

lemma unat_u8: "unat (u8 n) = n mod 256"
  by (simp add: u8_def unat_of_nat)

lemma unat_u8_less [simp]: "n < 256 \<Longrightarrow> unat (u8 n) = n"
  by (simp add: unat_u8)

section \<open>JSON values\<close>

text \<open>
  Values of type \<^verbatim>\<open>unknown\<close>, \<^verbatim>\<open>any\<close> and \<^verbatim>\<open>JsonValue\<close> that the program stores and hands on.
  Objects keep their properties in enumeration order.
\<close>

datatype json =
    JNull
  | JBool bool
  | JNum jsnum
  | JStr string
  | JArr "json list"
  | JObj "(string \<times> json) list"

section \<open>Lists and maps\<close>

definition take_opt :: "nat option \<Rightarrow> 'a list \<Rightarrow> 'a list" where
  "take_opt n xs = (case n of None \<Rightarrow> xs | Some k \<Rightarrow> take k xs)"

lemma take_opt_simps [simp]: "take_opt None xs = xs" "take_opt (Some k) xs = take k xs"
  by (simp_all add: take_opt_def)

fun take_until :: "('a \<Rightarrow> bool) \<Rightarrow> 'a list \<Rightarrow> 'a list" where
  "take_until p [] = []"
| "take_until p (x # xs) = (if p x then [x] else x # take_until p xs)"

text \<open>\<open>take_until p\<close> keeps a prefix up to and including the first element with \<open>p\<close>.\<close>

lemma set_take_until: "set (take_until p xs) \<subseteq> set xs"
  by (induction xs) auto

lemma take_until_none: "(\<And>x. x \<in> set xs \<Longrightarrow> \<not> p x) \<Longrightarrow> take_until p xs = xs"
  by (induction xs) auto

lemma take_until_prefix: "\<exists>ys. xs = take_until p xs @ ys"
  by (induction xs) auto

lemma find_rev_Some: "List.find P (rev xs) = Some x \<Longrightarrow> x \<in> set xs \<and> P x"
  by (metis find_Some_iff nth_mem set_rev)

lemma map_of_map_key:
  "map_of (map (\<lambda>x. (f x, x)) xs) k = Some y \<Longrightarrow> y \<in> set xs \<and> f y = k"
  by (drule map_of_SomeD) auto

lemma map_of_map_key_mem:
  "distinct (map f xs) \<Longrightarrow> x \<in> set xs \<Longrightarrow> map_of (map (\<lambda>x. (f x, x)) xs) (f x) = Some x"
  by (rule map_of_is_SomeI) (auto simp: comp_def)

lemma map_of_map_key_None:
  "map_of (map (\<lambda>x. (f x, x)) xs) k = None \<longleftrightarrow> k \<notin> f ` set xs"
  by (auto simp: map_of_eq_None_iff image_iff)

lemma map_of_map_key_snoc:
  "k \<notin> f ` set xs \<Longrightarrow> f x = k \<Longrightarrow>
   map_of (map (\<lambda>x. (f x, x)) (xs @ [x])) = (map_of (map (\<lambda>x. (f x, x)) xs))(k \<mapsto> x)"
  by (induction xs) (auto simp: fun_upd_twist)

lemma card_Diff_insert_less:
  "finite A \<Longrightarrow> x \<in> A \<Longrightarrow> x \<notin> V \<Longrightarrow> card (A - insert x V) < card (A - V)"
  by (rule psubset_card_mono) auto

lemma alist_update_new: "k \<notin> fst ` set xs \<Longrightarrow> AList.update k v xs = xs @ [(k, v)]"
  by (induction xs) auto

lemma distinct_map_fst_update: "distinct (map fst xs) \<Longrightarrow> distinct (map fst (AList.update k v xs))"
  by (rule distinct_update)

section \<open>Operations that change a state\<close>

text \<open>Sequencing of operations that may fail and that change a state in any case.\<close>

definition fbind :: "('e + 'a) \<times> 's \<Rightarrow> ('a \<Rightarrow> 's \<Rightarrow> ('e + 'b) \<times> 's) \<Rightarrow> ('e + 'b) \<times> 's" where
  "fbind r k = (case r of (Inl e, s) \<Rightarrow> (Inl e, s) | (Inr a, s) \<Rightarrow> k a s)"

lemma fbind_simps [simp]: "fbind (Inl e, s) k = (Inl e, s)" "fbind (Inr a, s) k = k a s"
  by (simp_all add: fbind_def)

lemma fbind_Inr: "fbind r k = (Inr b, s') \<longleftrightarrow> (\<exists>a s. r = (Inr a, s) \<and> k a s = (Inr b, s'))"
  by (cases r; cases "fst r") (auto simp: fbind_def split: sum.splits)

section \<open>Splitting and joining\<close>

text \<open>\<^verbatim>\<open>String.split\<close> at one character and \<^verbatim>\<open>Array.join\<close>.\<close>

fun js_split :: "'a \<Rightarrow> 'a list \<Rightarrow> 'a list list" where
  "js_split sep [] = [[]]"
| "js_split sep (c # cs) =
     (if c = sep then [] # js_split sep cs
      else (case js_split sep cs of [] \<Rightarrow> [[c]] | l # ls \<Rightarrow> (c # l) # ls))"

fun js_join :: "'a list \<Rightarrow> 'a list list \<Rightarrow> 'a list" where
  "js_join sep [] = []"
| "js_join sep [l] = l"
| "js_join sep (l # m # ls) = l @ sep @ js_join sep (m # ls)"

lemma js_split_nonempty [simp]: "js_split sep xs \<noteq> []"
  by (induction xs) (auto split: list.splits)

lemma js_join_Cons: "js_join sep (l # ls) = l @ (if ls = [] then [] else sep @ js_join sep ls)"
  by (cases ls) auto

lemma js_join_split: "js_join [sep] (js_split sep xs) = xs"
  by (induction xs) (auto simp: js_join_Cons split: list.splits)

lemma js_join_snoc: "js_join sep (ls @ [l]) = (if ls = [] then l else js_join sep ls @ sep @ l)"
  by (induction ls) (auto simp: js_join_Cons)

lemma js_split_lines: "l \<in> set (js_split sep xs) \<Longrightarrow> sep \<notin> set l"
  by (induction xs arbitrary: l) (auto split: if_splits list.splits)

lemma js_split_snoc: "js_split sep (xs @ [sep]) = js_split sep xs @ [[]]"
  by (induction xs) (auto split: list.splits)

lemma js_split_plain: "sep \<notin> set xs \<Longrightarrow> js_split sep xs = [xs]"
  by (induction xs) auto

lemma js_split_append: "sep \<notin> set a \<Longrightarrow> js_split sep (a @ sep # b) = a # js_split sep b"
  by (induction a) auto

lemma js_split_join: "ls \<noteq> [] \<Longrightarrow> \<forall>l \<in> set ls. sep \<notin> set l \<Longrightarrow> js_split sep (js_join [sep] ls) = ls"
  by (induction ls) (auto simp: js_join_Cons js_split_plain js_split_append)

lemma js_split_sep: "js_split sep (xs @ sep # ys) = js_split sep xs @ js_split sep ys"
  by (induction xs) (auto split: list.splits)

lemma js_join_two: "ls \<noteq> [] \<Longrightarrow> ms \<noteq> [] \<Longrightarrow> js_join sep (ls @ ms) = js_join sep ls @ sep @ js_join sep ms"
  by (induction ls) (auto simp: js_join_Cons)

end
