(* ===== verification/Session_Types.thy ===== *)
theory Session_Types
  imports Prelude
begin

text \<open>
  The data of a session: messages (\<^verbatim>\<open>packages/ai/src/types.ts\<close>,
  \<^verbatim>\<open>packages/agent/src/types.ts\<close>, \<^verbatim>\<open>packages/agent/src/harness/messages.ts\<close>) and the
  durable log of \<^verbatim>\<open>packages/agent/src/harness/session/types.ts\<close>: tree entries, lane
  records, queries, log items, fork options and errors.  Every interface is a record or a
  datatype with the fields of the source; an optional property is an option.  Values the
  program never looks into (\<^verbatim>\<open>unknown\<close>, \<^verbatim>\<open>any\<close>) are \<open>json\<close>.  Token counts are integers and
  prices exact rationals.
\<close>

section \<open>Messages\<close>

record usage_cost =
  cost_input :: rat
  cost_output :: rat
  cost_cacheRead :: rat
  cost_cacheWrite :: rat
  cost_total :: rat

record usage =
  usage_input :: int
  usage_output :: int
  usage_cacheRead :: int
  usage_cacheWrite :: int
  usage_cacheWrite1h :: "int option"
  usage_reasoning :: "int option"
  usage_totalTokens :: int
  usage_cost :: usage_cost

datatype stop_reason =
    StopPending | StopStop | StopLength | StopToolUse | StopError | StopAborted | StopDeferred

record deferred_handle =
  dh_provider :: string
  dh_modelId :: string
  dh_api :: string
  dh_id :: string
  dh_expiresAt :: "int option"
  dh_pollAfterMs :: "int option"
  dh_data :: "json option"

record text_content =
  tc_text :: string
  tc_textSignature :: "string option"

record image_content =
  ic_data :: string
  ic_mimeType :: string

record thinking_content =
  tk_thinking :: string
  tk_thinkingSignature :: "string option"
  tk_redacted :: "bool option"

record tool_call =
  call_id :: string
  call_name :: string
  call_arguments :: json
  call_thoughtSignature :: "string option"
  call_namespace :: "string option"

datatype content_block = TextBlock text_content | ImageBlock image_content

datatype assistant_block =
    AssistantText text_content
  | AssistantThinking thinking_content
  | AssistantToolCall tool_call

datatype user_content = ContentString string | ContentBlocks "content_block list"

record assistant_message =
  am_content :: "assistant_block list"
  am_api :: string
  am_provider :: string
  am_model :: string
  am_responseModel :: "string option"
  am_responseId :: "string option"
  am_diagnostics :: "json list option"
  am_usage :: usage
  am_stopReason :: stop_reason
  am_deferred :: "deferred_handle option"
  am_errorMessage :: "string option"
  am_rawStopReason :: "string option"
  am_endTurn :: "bool option"
  am_timestamp :: nat

record tool_result_message =
  tr_toolCallId :: string
  tr_toolName :: string
  tr_content :: "content_block list"
  tr_details :: "json option"
  tr_usage :: "usage option"
  tr_addedToolNames :: "string list option"
  tr_isError :: bool
  tr_timestamp :: nat

record bash_execution_message =
  be_command :: string
  be_output :: string
  be_exitCode :: "int option"
  be_cancelled :: bool
  be_truncated :: bool
  be_fullOutputPath :: "string option"
  be_timestamp :: nat
  be_excludeFromContext :: "bool option"

record custom_message =
  cm_customType :: string
  cm_content :: user_content
  cm_display :: bool
  cm_details :: "json option"
  cm_timestamp :: nat

record branch_summary_message =
  bs_summary :: string
  bs_fromId :: string
  bs_timestamp :: nat

record compaction_summary_message =
  cs_summary :: string
  cs_tokensBefore :: int
  cs_timestamp :: nat

text \<open>
  \<^verbatim>\<open>AgentMessage\<close>: the provider messages and the custom messages.  Applications may add
  roles of their own by declaration merging; \<open>OtherMessage\<close> is such a message.
\<close>

datatype agent_message =
    SystemMessage user_content nat
  | UserMessage user_content nat
  | AssistantMessage assistant_message
  | ToolResultMessage tool_result_message
  | BashExecutionMessage bash_execution_message
  | CustomMessage custom_message
  | BranchSummaryMessage branch_summary_message
  | CompactionSummaryMessage compaction_summary_message
  | OtherMessage string json

fun message_role :: "agent_message \<Rightarrow> string" where
  "message_role (SystemMessage _ _) = ''system''"
| "message_role (UserMessage _ _) = ''user''"
| "message_role (AssistantMessage _) = ''assistant''"
| "message_role (ToolResultMessage _) = ''toolResult''"
| "message_role (BashExecutionMessage _) = ''bashExecution''"
| "message_role (CustomMessage _) = ''custom''"
| "message_role (BranchSummaryMessage _) = ''branchSummary''"
| "message_role (CompactionSummaryMessage _) = ''compactionSummary''"
| "message_role (OtherMessage r _) = r"

fun block_tool_call :: "assistant_block \<Rightarrow> tool_call option" where
  "block_tool_call (AssistantToolCall c) = Some c"
| "block_tool_call _ = None"

text \<open>\<^verbatim>\<open>message.content.filter((content) => content.type === "toolCall")\<close>\<close>

definition message_tool_calls :: "assistant_message \<Rightarrow> tool_call list" where
  "message_tool_calls m = List.map_filter block_tool_call (am_content m)"

section \<open>Entries\<close>

datatype entry_type =
    MessageType | ModelChangeType | ThinkingLevelType | ActiveToolsType
  | CompactionType | BranchSummaryType | CustomType

text \<open>
  An entry is its storage-assigned part (\<^verbatim>\<open>EntryBase\<close>) and a payload.  A provisioned entry
  has the payload and the id only.
\<close>

datatype entry_payload =
    MessagePayload agent_message bool
  | ModelChangePayload string string
  | ThinkingLevelPayload string
  | ActiveToolsPayload "string list"
  | CompactionPayload string "agent_message list" int "json option" "usage option"
  | BranchSummaryPayload string string "json option" "usage option"
  | CustomPayload string "json option"

record entry =
  entry_id :: string
  entry_seq :: nat
  entry_parentId :: "string option"
  entry_timestamp :: nat
  entry_payload :: entry_payload

record provisioned_entry =
  prov_id :: string
  prov_payload :: entry_payload

fun payload_type :: "entry_payload \<Rightarrow> entry_type" where
  "payload_type (MessagePayload _ _) = MessageType"
| "payload_type (ModelChangePayload _ _) = ModelChangeType"
| "payload_type (ThinkingLevelPayload _) = ThinkingLevelType"
| "payload_type (ActiveToolsPayload _) = ActiveToolsType"
| "payload_type (CompactionPayload _ _ _ _ _) = CompactionType"
| "payload_type (BranchSummaryPayload _ _ _ _) = BranchSummaryType"
| "payload_type (CustomPayload _ _) = CustomType"

abbreviation entry_kind :: "entry \<Rightarrow> entry_type" where
  "entry_kind e \<equiv> payload_type (entry_payload e)"

definition entry_message :: "entry \<Rightarrow> agent_message option" where
  "entry_message e = (case entry_payload e of MessagePayload m _ \<Rightarrow> Some m | _ \<Rightarrow> None)"

definition entry_assistant :: "entry \<Rightarrow> assistant_message option" where
  "entry_assistant e =
     (case entry_message e of Some (AssistantMessage m) \<Rightarrow> Some m | _ \<Rightarrow> None)"

definition entry_tool_result :: "entry \<Rightarrow> tool_result_message option" where
  "entry_tool_result e =
     (case entry_message e of Some (ToolResultMessage m) \<Rightarrow> Some m | _ \<Rightarrow> None)"

section \<open>Lane records\<close>

datatype operation_kind = RunKind | CompactionKind | NavigationKind

record run_intent =
  run_originalPrompt :: "agent_message list"
  run_initialMessages :: "provisioned_entry list"
  run_systemPromptOverride :: "string option"
  run_resumeData :: "json option"

record navigation_intent =
  nav_targetId :: "string option"
  nav_summarize :: bool
  nav_customInstructions :: "string option"
  nav_label :: "string option"
  nav_summaryEntryId :: "string option"

datatype operation_intent =
    RunIntent run_intent
  | CompactionIntent "string option" string
  | NavigationIntent navigation_intent

fun intent_kind :: "operation_intent \<Rightarrow> operation_kind" where
  "intent_kind (RunIntent _) = RunKind"
| "intent_kind (CompactionIntent _ _) = CompactionKind"
| "intent_kind (NavigationIntent _) = NavigationKind"

datatype operation_outcome = Completed | Aborted | Failed | Declined

datatype step_kind = AssistantStep | BranchSummaryStep | CompactionStep

text \<open>
  A compaction reason as read from a log: the three valid strings, or any other value, which
  \<^verbatim>\<open>validateAttemptReason\<close> rejects.
\<close>

datatype compaction_reason = Manual | Threshold | Overflow | InvalidReason json

datatype replay_mode = ReplayNever | ReplaySafe

datatype queue_kind = SteerQueue | FollowUpQueue | NextRunQueue

record step_attempt =
  sa_runId :: string
  sa_step :: step_kind
  sa_attempt :: int
  sa_resultEntryId :: string
  sa_compactionReason :: "compaction_reason option"

record tool_started =
  ts_runId :: string
  ts_assistantEntryId :: string
  ts_toolIndex :: int
  ts_toolCallId :: string
  ts_toolName :: string
  ts_effectiveArgs :: json
  ts_resultEntryId :: string
  ts_replay :: replay_mode

datatype step_usage_cause = AssistantCause | CompactionCause | BranchSummaryCause | DeferredFetchCause

datatype usage_cause =
    StepUsage step_usage_cause string string int stop_reason
  | ToolUsage string string string
  | HookUsage string string
  | AdjustmentUsage "string option" "string option" "json option"

datatype record_body =
    OperationStarted "string option" operation_intent
  | AbortRequested string
  | OperationFinished string operation_outcome "(string \<times> string) option"
  | StepAttempt step_attempt
  | ToolStarted tool_started
  | QueueEnqueued queue_kind "string option" provisioned_entry
  | QueueCancelled "string option" string
  | WriteDeferred string provisioned_entry
  | UsageRecord usage usage_cause

datatype record_type =
    OperationStartedType | AbortRequestedType | OperationFinishedType | StepAttemptType
  | ToolStartedType | QueueEnqueuedType | QueueCancelledType | WriteDeferredType | UsageType

record lane_record =
  rec_id :: string
  rec_seq :: nat
  rec_lane :: string
  rec_timestamp :: nat
  rec_body :: record_body

record new_record =
  new_id :: string
  new_lane :: string
  new_body :: record_body

fun body_type :: "record_body \<Rightarrow> record_type" where
  "body_type (OperationStarted _ _) = OperationStartedType"
| "body_type (AbortRequested _) = AbortRequestedType"
| "body_type (OperationFinished _ _ _) = OperationFinishedType"
| "body_type (StepAttempt _) = StepAttemptType"
| "body_type (ToolStarted _) = ToolStartedType"
| "body_type (QueueEnqueued _ _ _) = QueueEnqueuedType"
| "body_type (QueueCancelled _ _) = QueueCancelledType"
| "body_type (WriteDeferred _ _) = WriteDeferredType"
| "body_type (UsageRecord _ _) = UsageType"

abbreviation rec_kind :: "lane_record \<Rightarrow> record_type" where
  "rec_kind r \<equiv> body_type (rec_body r)"

fun usage_runId :: "usage_cause \<Rightarrow> string option" where
  "usage_runId (StepUsage _ r _ _ _) = Some r"
| "usage_runId (ToolUsage r _ _) = Some r"
| "usage_runId (HookUsage r _) = Some r"
| "usage_runId (AdjustmentUsage r _ _) = r"

fun usage_entryId :: "usage_cause \<Rightarrow> string option" where
  "usage_entryId (StepUsage _ _ e _ _) = Some e"
| "usage_entryId (ToolUsage _ e _) = Some e"
| "usage_entryId (HookUsage _ e) = Some e"
| "usage_entryId (AdjustmentUsage _ e _) = e"

text \<open>The \<^verbatim>\<open>runId\<close> property of a record, where it has one that is a string.\<close>

fun body_runId :: "record_body \<Rightarrow> string option" where
  "body_runId (OperationStarted _ _) = None"
| "body_runId (AbortRequested r) = Some r"
| "body_runId (OperationFinished r _ _) = Some r"
| "body_runId (StepAttempt a) = Some (sa_runId a)"
| "body_runId (ToolStarted t) = Some (ts_runId t)"
| "body_runId (QueueEnqueued _ r _) = r"
| "body_runId (QueueCancelled r _) = r"
| "body_runId (WriteDeferred r _) = Some r"
| "body_runId (UsageRecord _ c) = usage_runId c"

abbreviation rec_runId :: "lane_record \<Rightarrow> string option" where
  "rec_runId r \<equiv> body_runId (rec_body r)"

section \<open>Queries, log items, metadata\<close>

datatype entry_order = NewestFirst | OldestFirst

record entry_query =
  eq_type :: "entry_type option"
  eq_customType :: "string option"
  eq_order :: "entry_order option"
  eq_limit :: "jsnum option"
  eq_cursor :: "jsnum option"

record branch_bounds =
  bb_stopAtType :: "entry_type option"
  bb_stopAtId :: "string option"

record record_query =
  rq_lane :: "string option"
  rq_type :: "record_type option"
  rq_runId :: "string option"
  rq_operationKind :: "operation_kind option"
  rq_afterSeq :: "jsnum option"
  rq_order :: "entry_order option"
  rq_limit :: "jsnum option"

record session_metadata =
  md_id :: string
  md_createdAt :: nat
  md_parentSessionId :: "string option"

record session_stats =
  st_messageCount :: nat
  st_cachedTokens :: int
  st_uncachedTokens :: int
  st_totalTokens :: int
  st_costTotal :: rat

type_synonym lane_pointer = "string \<times> string option"

datatype log_item =
    EntryItem nat entry
  | RecordItem nat lane_record
  | LaneItem nat string "string option"
  | NameItem nat "string option"
  | LabelItem nat string "string option"

fun item_seq :: "log_item \<Rightarrow> nat" where
  "item_seq (EntryItem n _) = n"
| "item_seq (RecordItem n _) = n"
| "item_seq (LaneItem n _ _) = n"
| "item_seq (NameItem n _) = n"
| "item_seq (LabelItem n _ _) = n"

record log_options =
  lo_afterSeq :: "jsnum option"
  lo_limit :: "jsnum option"

record session_create_options =
  co_id :: "string option"
  co_parentSessionId :: "string option"

datatype fork_position = ForkBefore | ForkAt

datatype fork_options =
    ForkBranch "string option" "fork_position option"
  | ForkTree

section \<open>Errors\<close>

text \<open>A \<^verbatim>\<open>SessionError\<close> by its code; its message is for people and is not modelled.\<close>

datatype session_error =
    NotFound | AlreadyExists | InvalidEntry | InvalidPayload
  | InvalidLane | InvalidQuery | InvalidForkTarget | StorageError

type_synonym 'a session_result = "session_error + 'a"

end
