(* ===== verification/Lane_Reducer.thy ===== *)
theory Lane_Reducer
  imports Session_Types "HOL-Library.Multiset"
begin

text \<open>
  \<^verbatim>\<open>packages/agent/src/harness/reducer.ts\<close>: the validation of a lane's recovery slice
  (\<^verbatim>\<open>validateRecordLog\<close>) and the pure reconstruction of the lane's orchestration state from it
  (\<^verbatim>\<open>reduceLaneState\<close>).  A thrown \<^verbatim>\<open>RecordLogCorruption\<close> is its reason.  The deep comparison
  \<^verbatim>\<open>Guard.IsDeepEqual\<close> of the package typebox is the parameter \<open>deepEq\<close>.  \<^verbatim>\<open>Array.sort\<close> is stable:
  \<^term>\<open>sort_key\<close>.
\<close>

section \<open>Inputs and results\<close>

datatype corruption =
    MultipleOpenOperations | UnknownOperation | RecordAfterFinish | NonConsecutiveAttempt
  | InvalidCompactionReason | QueueAfterAbort | InvalidQueueCancellation | InconsistentStep
  | ToolCallMismatch | DuplicateToolInvocation | ProvisionedEntryMismatch | InvalidDeferredHandle

record operation_started =
  os_id :: string
  os_seq :: nat
  os_lane :: string
  os_timestamp :: nat
  os_sourceLeafId :: "string option"
  os_intent :: operation_intent

record record_log_slice =
  rl_lane :: string
  rl_openOperations :: "operation_started list"
  rl_records :: "lane_record list"
  rl_entries :: "entry list"

record lane_configuration =
  lc_model :: "string \<times> string"
  lc_thinkingLevel :: string
  lc_activeToolNames :: "string list"

datatype failure_source = StepSource | DeferredFetchSource

record terminal_failure =
  tf_entryId :: string
  tf_source :: failure_source
  tf_message :: assistant_message

record tool_batch_call =
  bc_toolIndex :: nat
  bc_toolCall :: tool_call
  bc_started :: "(lane_record \<times> tool_started) option"
  bc_resultExists :: bool
  bc_terminate :: bool

record tool_batch_state =
  tb_assistantEntryId :: string
  tb_calls :: "tool_batch_call list"
  tb_truncated :: bool
  tb_unresolved :: bool

record step_state =
  stp_kind :: step_kind
  stp_attempts :: int
  stp_resultEntryId :: string
  stp_compactionReason :: "compaction_reason option"

record newest_own =
  no_entryId :: string
  no_type :: entry_type
  no_role :: "string option"
  no_stopReason :: "stop_reason option"

record operation_targets =
  tg_result :: "bool option"
  tg_summary :: "bool option"

record operation_state =
  op_id :: string
  op_kind :: operation_kind
  op_intent :: operation_intent
  op_aborting :: bool
  op_step :: "step_state option"
  op_toolBatch :: "tool_batch_state option"
  op_missingInitialMessages :: "provisioned_entry list"
  op_pendingSteer :: "provisioned_entry list"
  op_pendingFollowUp :: "provisioned_entry list"
  op_pendingWrites :: "provisioned_entry list"
  op_deferred :: "deferred_handle option"
  op_overflowRecoveryUsed :: bool
  op_newestOwn :: "newest_own option"
  op_targets :: operation_targets

record lane_state =
  ls_lane :: string
  ls_leafId :: "string option"
  ls_operation :: "operation_state option"
  ls_pendingNextRun :: "provisioned_entry list"

record lane_reduction_input = record_log_slice +
  li_leafId :: "string option"
  li_ownEntries :: "entry list"
  li_configurationEntries :: "entry list"
  li_defaults :: lane_configuration

record lane_reduction_result =
  lr_laneState :: lane_state
  lr_effectiveConfiguration :: lane_configuration
  lr_terminalFailure :: "terminal_failure option"

type_synonym deep_eq = "provisioned_entry \<Rightarrow> provisioned_entry \<Rightarrow> bool"

section \<open>Validation\<close>

text \<open>\<^verbatim>\<open>new Map(entries.map((entry) => [entry.id, entry]))\<close>\<close>

definition index_entries :: "entry list \<Rightarrow> (string \<times> entry) list" where
  "index_entries es = foldl (\<lambda>m e. AList.update (entry_id e) e m) [] es"

text \<open>The entry without \<^verbatim>\<open>parentId\<close>, \<^verbatim>\<open>seq\<close> and \<^verbatim>\<open>timestamp\<close>.\<close>

definition strip_entry :: "entry \<Rightarrow> provisioned_entry" where
  "strip_entry e = \<lparr>prov_id = entry_id e, prov_payload = entry_payload e\<rparr>"

definition matchesProvisionedEntry :: "deep_eq \<Rightarrow> entry \<Rightarrow> provisioned_entry \<Rightarrow> bool" where
  "matchesProvisionedEntry deepEq e target = deepEq (strip_entry e) target"

definition validateExactProvisionedEntry ::
    "deep_eq \<Rightarrow> (string \<times> entry) list \<Rightarrow> provisioned_entry \<Rightarrow> corruption + unit" where
  "validateExactProvisionedEntry deepEq entriesById target =
     (case map_of entriesById (prov_id target) of
        None \<Rightarrow> Inr ()
      | Some e \<Rightarrow> rcheck ProvisionedEntryMismatch (matchesProvisionedEntry deepEq e target))"

definition validateResultEntry ::
    "(string \<times> entry) list \<Rightarrow> string \<Rightarrow> (entry \<Rightarrow> bool) \<Rightarrow> corruption + unit" where
  "validateResultEntry entriesById resultEntryId matches =
     (case map_of entriesById resultEntryId of
        None \<Rightarrow> Inr ()
      | Some e \<Rightarrow> rcheck ProvisionedEntryMismatch (matches e))"

definition validateAttemptReason :: "step_attempt \<Rightarrow> corruption + unit" where
  "validateAttemptReason a =
     (if sa_step a = CompactionStep
      then rcheck InvalidCompactionReason
             (sa_compactionReason a \<in> {Some Manual, Some Threshold, Some Overflow})
      else rcheck InvalidCompactionReason (sa_compactionReason a = None))"

definition continues_series :: "nat \<Rightarrow> step_attempt \<Rightarrow> step_attempt option \<Rightarrow> (string \<times> entry) list \<Rightarrow> bool" where
  "continues_series seq a previous entriesById =
     (case previous of
        None \<Rightarrow> False
      | Some p \<Rightarrow> sa_step p = sa_step a \<and>
          (case map_of entriesById (sa_resultEntryId p) of None \<Rightarrow> True | Some e \<Rightarrow> seq \<le> entry_seq e))"

definition validateAttemptSequence ::
    "nat \<Rightarrow> step_attempt \<Rightarrow> step_attempt option \<Rightarrow> (string \<times> entry) list \<Rightarrow> corruption + unit" where
  "validateAttemptSequence seq a previous entriesById =
     (let continues = continues_series seq a previous entriesById;
          expected = (case previous of Some p \<Rightarrow> if continues then sa_attempt p + 1 else 1 | None \<Rightarrow> 1)
      in rbind (rcheck NonConsecutiveAttempt (sa_attempt a = expected)) (\<lambda>_.
         case previous of
           None \<Rightarrow> Inr ()
         | Some p \<Rightarrow>
             if \<not> continues \<or> sa_step a = AssistantStep then Inr ()
             else rbind (rcheck InconsistentStep (sa_resultEntryId a = sa_resultEntryId p)) (\<lambda>_.
                  rcheck InconsistentStep (sa_compactionReason a = sa_compactionReason p))))"

definition validateAttemptResult :: "(string \<times> entry) list \<Rightarrow> step_attempt \<Rightarrow> corruption + unit" where
  "validateAttemptResult entriesById a =
     (case sa_step a of
        AssistantStep \<Rightarrow> validateResultEntry entriesById (sa_resultEntryId a) (\<lambda>e. entry_assistant e \<noteq> None)
      | CompactionStep \<Rightarrow>
          validateResultEntry entriesById (sa_resultEntryId a) (\<lambda>e. entry_kind e = CompactionType)
      | BranchSummaryStep \<Rightarrow>
          validateResultEntry entriesById (sa_resultEntryId a) (\<lambda>e. entry_kind e = BranchSummaryType))"

text \<open>
  An invocation is keyed by the assistant entry id and the tool index; the source joins them
  with a NUL character, which the decimal index does not contain.
\<close>

definition validateToolStart ::
    "tool_started \<Rightarrow> (string \<times> entry) list \<Rightarrow> (string \<times> int) set \<Rightarrow> corruption + (string \<times> int) set" where
  "validateToolStart t entriesById invocations =
     (let invocation = (ts_assistantEntryId t, ts_toolIndex t)
      in rbind (rcheck DuplicateToolInvocation (invocation \<notin> invocations)) (\<lambda>_.
         rbind (case Option.bind (map_of entriesById (ts_assistantEntryId t)) entry_assistant of
                  None \<Rightarrow> Inl ToolCallMismatch
                | Some m \<Rightarrow>
                    (case js_index (message_tool_calls m) (ts_toolIndex t) of
                       None \<Rightarrow> Inl ToolCallMismatch
                     | Some c \<Rightarrow> rcheck ToolCallMismatch
                         (call_id c = ts_toolCallId t \<and> call_name c = ts_toolName t))) (\<lambda>_.
         rbind (validateResultEntry entriesById (ts_resultEntryId t) (\<lambda>e.
                  case entry_tool_result e of
                    None \<Rightarrow> False
                  | Some m \<Rightarrow> tr_toolCallId m = ts_toolCallId t \<and> tr_toolName m = ts_toolName t)) (\<lambda>_.
         Inr (insert invocation invocations)))))"

definition validateDeferredHandles :: "entry list \<Rightarrow> corruption + unit" where
  "validateDeferredHandles es =
     rfold (\<lambda>_ e. case entry_assistant e of
                     Some m \<Rightarrow> rcheck InvalidDeferredHandle
                                 (\<not> (am_stopReason m = StopDeferred \<and> am_deferred m = None))
                   | None \<Rightarrow> Inr ()) () es"

text \<open>A string that is present and not empty, as in \<^verbatim>\<open>if (x)\<close>.\<close>

definition truthy :: "string option \<Rightarrow> string option" where
  "truthy x = (case x of Some s \<Rightarrow> if s = [] then None else Some s | None \<Rightarrow> None)"

definition validateOperationResult ::
    "deep_eq \<Rightarrow> (string \<times> entry) list \<Rightarrow> operation_intent \<Rightarrow> corruption + unit" where
  "validateOperationResult deepEq entriesById intent =
     (case intent of
        RunIntent ri \<Rightarrow>
          rfold (\<lambda>_ target. validateExactProvisionedEntry deepEq entriesById target) () (run_initialMessages ri)
      | CompactionIntent _ resultEntryId \<Rightarrow>
          validateResultEntry entriesById resultEntryId (\<lambda>e. entry_kind e = CompactionType)
      | NavigationIntent ni \<Rightarrow>
          (case truthy (nav_summaryEntryId ni) of
             None \<Rightarrow> Inr ()
           | Some i \<Rightarrow> validateResultEntry entriesById i (\<lambda>e. entry_kind e = BranchSummaryType)))"

record validation_state =
  vs_starts :: "string set"
  vs_finishedAt :: "string \<rightharpoonup> nat"
  vs_abortedAt :: "string \<rightharpoonup> nat"
  vs_queueEnqueues :: "string \<rightharpoonup> (nat \<times> string option)"
  vs_latestAttempt :: "string \<rightharpoonup> step_attempt"
  vs_toolInvocations :: "(string \<times> int) set"

definition initial_validation :: validation_state where
  "initial_validation = \<lparr>vs_starts = {}, vs_finishedAt = Map.empty, vs_abortedAt = Map.empty,
     vs_queueEnqueues = Map.empty, vs_latestAttempt = Map.empty, vs_toolInvocations = {}\<rparr>"

text \<open>The test on \<^verbatim>\<open>runId\<close> that precedes the switch.\<close>

definition validate_run_id :: "validation_state \<Rightarrow> lane_record \<Rightarrow> corruption + unit" where
  "validate_run_id vs r =
     (case rec_runId r of
        None \<Rightarrow> Inr ()
      | Some runId \<Rightarrow>
          rbind (rcheck UnknownOperation (runId \<in> vs_starts vs)) (\<lambda>_.
          case vs_finishedAt vs runId of
            None \<Rightarrow> Inr ()
          | Some finishSeq \<Rightarrow> rcheck RecordAfterFinish (\<not> rec_seq r > finishSeq)))"

definition validate_record ::
    "deep_eq \<Rightarrow> (string \<times> entry) list \<Rightarrow> validation_state \<Rightarrow> lane_record \<Rightarrow> corruption + validation_state" where
  "validate_record deepEq entriesById vs r =
     (case rec_body r of
        OperationStarted _ intent \<Rightarrow>
          rbind (validateOperationResult deepEq entriesById intent) (\<lambda>_.
          Inr (vs\<lparr>vs_starts := insert (rec_id r) (vs_starts vs)\<rparr>))
      | body \<Rightarrow>
          rbind (validate_run_id vs r) (\<lambda>_.
          case body of
            OperationFinished runId _ _ \<Rightarrow>
              Inr (vs\<lparr>vs_finishedAt := (vs_finishedAt vs)(runId \<mapsto> rec_seq r)\<rparr>)
          | AbortRequested runId \<Rightarrow>
              Inr (vs\<lparr>vs_abortedAt := (vs_abortedAt vs)(runId \<mapsto> rec_seq r)\<rparr>)
          | StepAttempt a \<Rightarrow>
              rbind (validateAttemptReason a) (\<lambda>_.
              rbind (validateAttemptSequence (rec_seq r) a (vs_latestAttempt vs (sa_runId a)) entriesById) (\<lambda>_.
              rbind (validateAttemptResult entriesById a) (\<lambda>_.
              Inr (vs\<lparr>vs_latestAttempt := (vs_latestAttempt vs)(sa_runId a \<mapsto> a)\<rparr>))))
          | ToolStarted t \<Rightarrow>
              rbind (validateToolStart t entriesById (vs_toolInvocations vs)) (\<lambda>inv.
              Inr (vs\<lparr>vs_toolInvocations := inv\<rparr>))
          | QueueEnqueued queue runId target \<Rightarrow>
              rbind (rcheck QueueAfterAbort
                      (\<not> (queue \<noteq> NextRunQueue \<and>
                          (case Option.bind runId (vs_abortedAt vs) of None \<Rightarrow> False | Some n \<Rightarrow> rec_seq r > n)))) (\<lambda>_.
              rbind (validateExactProvisionedEntry deepEq entriesById target) (\<lambda>_.
              Inr (vs\<lparr>vs_queueEnqueues := (vs_queueEnqueues vs)(prov_id target \<mapsto> (rec_seq r, runId))\<rparr>)))
          | QueueCancelled runId entryId \<Rightarrow>
              (case vs_queueEnqueues vs entryId of
                 None \<Rightarrow> Inl InvalidQueueCancellation
               | Some (enqueueSeq, enqueueRun) \<Rightarrow>
                   rbind (rcheck InvalidQueueCancellation
                           (\<not> (enqueueSeq \<ge> rec_seq r \<or> enqueueRun \<noteq> runId \<or>
                               map_of entriesById entryId \<noteq> None))) (\<lambda>_.
                   Inr vs))
          | WriteDeferred _ target \<Rightarrow>
              rbind (validateExactProvisionedEntry deepEq entriesById target) (\<lambda>_. Inr vs)
          | _ \<Rightarrow> Inr vs))"

definition validateRecordLog :: "deep_eq \<Rightarrow> 'z record_log_slice_scheme \<Rightarrow> corruption + unit" where
  "validateRecordLog deepEq input =
     rbind (rcheck MultipleOpenOperations (\<not> length (rl_openOperations input) > 1)) (\<lambda>_.
       let entriesById = index_entries (rl_entries input) in
       rbind (validateDeferredHandles (map snd entriesById)) (\<lambda>_.
       rbind (rfold (validate_record deepEq entriesById) initial_validation
               (sort_key rec_seq (rl_records input))) (\<lambda>_.
       Inr ())))"

section \<open>Reduction\<close>

definition configure :: "lane_configuration \<Rightarrow> entry \<Rightarrow> lane_configuration" where
  "configure c e =
     (case entry_payload e of
        ModelChangePayload provider modelId \<Rightarrow> c\<lparr>lc_model := (provider, modelId)\<rparr>
      | ThinkingLevelPayload level \<Rightarrow> c\<lparr>lc_thinkingLevel := level\<rparr>
      | ActiveToolsPayload names \<Rightarrow> c\<lparr>lc_activeToolNames := names\<rparr>
      | MessagePayload (AssistantMessage m) _ \<Rightarrow> c\<lparr>lc_model := (am_provider m, am_model m)\<rparr>
      | _ \<Rightarrow> c)"

definition deriveEffectiveConfiguration :: "lane_reduction_input \<Rightarrow> lane_configuration" where
  "deriveEffectiveConfiguration input =
     foldl configure (li_defaults input)
       (sort_key entry_seq (map snd (index_entries (li_configurationEntries input @ li_ownEntries input))))"

definition deriveNewestOwn :: "entry option \<Rightarrow> newest_own option" where
  "deriveNewestOwn entry =
     (case entry of
        None \<Rightarrow> None
      | Some e \<Rightarrow>
          (case entry_message e of
             None \<Rightarrow> Some \<lparr>no_entryId = entry_id e, no_type = entry_kind e, no_role = None, no_stopReason = None\<rparr>
           | Some m \<Rightarrow>
               (case m of
                  AssistantMessage a \<Rightarrow>
                    Some \<lparr>no_entryId = entry_id e, no_type = entry_kind e, no_role = Some (message_role m),
                          no_stopReason = Some (am_stopReason a)\<rparr>
                | _ \<Rightarrow>
                    Some \<lparr>no_entryId = entry_id e, no_type = entry_kind e, no_role = Some (message_role m),
                          no_stopReason = None\<rparr>)))"

fun record_tool_started :: "lane_record \<Rightarrow> (lane_record \<times> tool_started) option" where
  "record_tool_started r = (case rec_body r of ToolStarted t \<Rightarrow> Some (r, t) | _ \<Rightarrow> None)"

definition tool_starts ::
    "string \<Rightarrow> lane_record list \<Rightarrow> string \<Rightarrow> (int \<times> (lane_record \<times> tool_started)) list" where
  "tool_starts operationId records assistantEntryId =
     foldl (\<lambda>m (r, t). if ts_runId t = operationId \<and> ts_assistantEntryId t = assistantEntryId
                        then AList.update (ts_toolIndex t) (r, t) m else m) []
       (List.map_filter record_tool_started records)"

definition batch_call ::
    "entry \<Rightarrow> (int \<times> (lane_record \<times> tool_started)) list \<Rightarrow> entry list \<Rightarrow> (string \<times> entry) list \<Rightarrow> string set \<Rightarrow>
     nat \<Rightarrow> tool_call \<Rightarrow> tool_batch_call" where
  "batch_call assistantEntry starts ownEntries entriesById deferredWriteIds toolIndex toolCall =
     (let started = map_of starts (int toolIndex);
          startedResult = (case started of None \<Rightarrow> None | Some (_, t) \<Rightarrow> map_of entriesById (ts_resultEntryId t));
          blockedResult = List.find (\<lambda>e. entry_seq e > entry_seq assistantEntry \<and>
                              entry_id e \<notin> deferredWriteIds \<and>
                              (case entry_tool_result e of None \<Rightarrow> False
                               | Some m \<Rightarrow> tr_toolCallId m = call_id toolCall)) ownEntries;
          result = (case startedResult of Some e \<Rightarrow> Some e | None \<Rightarrow> blockedResult)
      in \<lparr>bc_toolIndex = toolIndex, bc_toolCall = toolCall, bc_started = started,
          bc_resultExists = (result \<noteq> None),
          bc_terminate = (case result of None \<Rightarrow> False
            | Some e \<Rightarrow> (case entry_payload e of MessagePayload _ terminate \<Rightarrow> terminate | _ \<Rightarrow> False))\<rparr>)"

definition deriveToolBatch ::
    "string \<Rightarrow> lane_record list \<Rightarrow> entry list \<Rightarrow> (string \<times> entry) list \<Rightarrow> string set \<Rightarrow> tool_batch_state option" where
  "deriveToolBatch operationId records ownEntries entriesById deferredWriteIds =
     (case List.find (\<lambda>e. case entry_assistant e of None \<Rightarrow> False | Some m \<Rightarrow> message_tool_calls m \<noteq> [])
             (rev ownEntries) of
        None \<Rightarrow> None
      | Some assistantEntry \<Rightarrow>
          (case entry_assistant assistantEntry of
             None \<Rightarrow> None
           | Some m \<Rightarrow>
               let starts = tool_starts operationId records (entry_id assistantEntry);
                   calls = map (\<lambda>(toolIndex, toolCall).
                       batch_call assistantEntry starts ownEntries entriesById deferredWriteIds toolIndex toolCall)
                     (enumerate 0 (message_tool_calls m))
               in Some \<lparr>tb_assistantEntryId = entry_id assistantEntry, tb_calls = calls,
                        tb_truncated = (am_stopReason m = StopLength),
                        tb_unresolved = list_ex (\<lambda>c. \<not> bc_resultExists c) calls\<rparr>))"

fun queue_record :: "lane_record \<Rightarrow> (queue_kind \<times> string option \<times> provisioned_entry) option" where
  "queue_record r = (case rec_body r of QueueEnqueued q i t \<Rightarrow> Some (q, i, t) | _ \<Rightarrow> None)"

fun cancelled_id :: "lane_record \<Rightarrow> string option" where
  "cancelled_id r = (case rec_body r of QueueCancelled _ i \<Rightarrow> Some i | _ \<Rightarrow> None)"

fun attempt_record :: "lane_record \<Rightarrow> (nat \<times> step_attempt) option" where
  "attempt_record r = (case rec_body r of StepAttempt a \<Rightarrow> Some (rec_seq r, a) | _ \<Rightarrow> None)"

fun deferred_write :: "lane_record \<Rightarrow> provisioned_entry option" where
  "deferred_write r = (case rec_body r of WriteDeferred _ t \<Rightarrow> Some t | _ \<Rightarrow> None)"

definition last_opt :: "'a list \<Rightarrow> 'a option" where
  "last_opt xs = (if xs = [] then None else Some (last xs))"

definition initial_messages :: "operation_intent \<Rightarrow> provisioned_entry list" where
  "initial_messages intent = (case intent of RunIntent ri \<Rightarrow> run_initialMessages ri | _ \<Rightarrow> [])"

text \<open>Enqueued, neither consumed nor cancelled.\<close>

definition pending_queue ::
    "lane_record list \<Rightarrow> (string \<times> entry) list \<Rightarrow> (queue_kind \<times> string option \<times> provisioned_entry) list" where
  "pending_queue records entriesById =
     filter (\<lambda>(q, i, target). map_of entriesById (prov_id target) = None \<and>
               prov_id target \<notin> set (List.map_filter cancelled_id records))
       (List.map_filter queue_record records)"

definition pending_next_run ::
    "(queue_kind \<times> string option \<times> provisioned_entry) list \<Rightarrow> operation_started option \<Rightarrow> provisioned_entry list" where
  "pending_next_run pending started =
     (let captured = (case started of None \<Rightarrow> [] | Some s \<Rightarrow> map prov_id (initial_messages (os_intent s)))
      in map (\<lambda>(q, i, target). target)
           (filter (\<lambda>(q, i, target). q = NextRunQueue \<and> prov_id target \<notin> set captured) pending))"

definition operation_records :: "operation_started \<Rightarrow> lane_record list \<Rightarrow> lane_record list" where
  "operation_records started records =
     filter (\<lambda>r. if rec_kind r = OperationStartedType then rec_id r = os_id started
                  else rec_runId r = Some (os_id started)) records"

definition pending_of ::
    "queue_kind \<Rightarrow> string \<Rightarrow> (queue_kind \<times> string option \<times> provisioned_entry) list \<Rightarrow> provisioned_entry list" where
  "pending_of queue operationId pending =
     map (\<lambda>(q, i, target). target) (filter (\<lambda>(q, i, target). q = queue \<and> i = Some operationId) pending)"

definition current_step :: "lane_record list \<Rightarrow> (string \<times> entry) list \<Rightarrow> step_state option" where
  "current_step operationRecords entriesById =
     (case last_opt (List.map_filter attempt_record operationRecords) of
        None \<Rightarrow> None
      | Some (_, a) \<Rightarrow>
          if map_of entriesById (sa_resultEntryId a) = None
          then Some \<lparr>stp_kind = sa_step a, stp_attempts = sa_attempt a, stp_resultEntryId = sa_resultEntryId a,
                     stp_compactionReason = (if sa_step a = CompactionStep then sa_compactionReason a else None)\<rparr>
          else None)"

text \<open>\<open>None\<close> is \<^verbatim>\<open>Number.NEGATIVE_INFINITY\<close>.\<close>

definition newest_consumed :: "string list \<Rightarrow> (string \<times> entry) list \<Rightarrow> nat option" where
  "newest_consumed ids entriesById =
     foldl (\<lambda>newest i. case map_of entriesById i of
              None \<Rightarrow> newest
            | Some e \<Rightarrow> if entry_kind e = MessageType
                         then Some (case newest of None \<Rightarrow> entry_seq e | Some n \<Rightarrow> max n (entry_seq e))
                         else newest) None ids"

definition consumed_input_ids :: "operation_started \<Rightarrow> lane_record list \<Rightarrow> string list" where
  "consumed_input_ids started operationRecords =
     map prov_id (initial_messages (os_intent started))
     @ map (\<lambda>(q, i, target). prov_id target)
         (filter (\<lambda>(q, i, target). q \<noteq> NextRunQueue) (List.map_filter queue_record operationRecords))"

definition overflow_recovery_used :: "nat option \<Rightarrow> lane_record list \<Rightarrow> bool" where
  "overflow_recovery_used newest operationRecords =
     list_ex (\<lambda>(seq, a). sa_step a = CompactionStep \<and> sa_compactionReason a = Some Overflow \<and>
                (case newest of None \<Rightarrow> True | Some n \<Rightarrow> seq > n))
       (List.map_filter attempt_record operationRecords)"

definition operation_targets_of :: "operation_intent \<Rightarrow> (string \<times> entry) list \<Rightarrow> operation_targets" where
  "operation_targets_of intent entriesById =
     (case intent of
        CompactionIntent _ resultEntryId \<Rightarrow>
          \<lparr>tg_result = Some (map_of entriesById resultEntryId \<noteq> None), tg_summary = None\<rparr>
      | NavigationIntent ni \<Rightarrow>
          \<lparr>tg_result = None,
           tg_summary = map_option (\<lambda>i. map_of entriesById i \<noteq> None) (truthy (nav_summaryEntryId ni))\<rparr>
      | RunIntent _ \<Rightarrow> \<lparr>tg_result = None, tg_summary = None\<rparr>)"

definition entry_stopped :: "stop_reason \<Rightarrow> entry option \<Rightarrow> bool" where
  "entry_stopped reason entry =
     (case Option.bind entry entry_assistant of None \<Rightarrow> False | Some m \<Rightarrow> am_stopReason m = reason)"

fun deferred_fetch_for :: "string \<Rightarrow> lane_record \<Rightarrow> bool" where
  "deferred_fetch_for i r =
     (case rec_body r of UsageRecord _ (StepUsage DeferredFetchCause _ e _ _) \<Rightarrow> e = i | _ \<Rightarrow> False)"

definition terminal_failure_of ::
    "lane_record list \<Rightarrow> entry list \<Rightarrow> string set \<Rightarrow> terminal_failure option" where
  "terminal_failure_of operationRecords ownEntries deferredWriteIds =
     (case last_opt ownEntries of
        None \<Rightarrow> None
      | Some newest \<Rightarrow>
          (case entry_assistant newest of
             None \<Rightarrow> None
           | Some m \<Rightarrow>
               if am_stopReason m = StopError \<and> entry_id newest \<notin> deferredWriteIds
               then
                 let producedByStep = list_ex (\<lambda>(_, a). sa_resultEntryId a = entry_id newest)
                                        (List.map_filter attempt_record operationRecords);
                     producedByDeferredFetch =
                       list_ex (deferred_fetch_for (entry_id newest)) operationRecords \<or>
                       entry_stopped StopDeferred (last_opt (butlast ownEntries))
                 in if producedByStep \<or> producedByDeferredFetch
                    then Some \<lparr>tf_entryId = entry_id newest,
                               tf_source = (if producedByStep then StepSource else DeferredFetchSource),
                               tf_message = m\<rparr>
                    else None
               else None))"

definition open_operation_state ::
    "operation_started \<Rightarrow> lane_record list \<Rightarrow> entry list \<Rightarrow> (string \<times> entry) list \<Rightarrow>
     (queue_kind \<times> string option \<times> provisioned_entry) list \<Rightarrow> string set \<Rightarrow> operation_state" where
  "open_operation_state started operationRecords ownEntries entriesById pending deferredWriteIds =
     (let aborting = list_ex (\<lambda>r. rec_kind r = AbortRequestedType) operationRecords;
          newestOwn = last_opt ownEntries
      in \<lparr>op_id = os_id started,
          op_kind = intent_kind (os_intent started),
          op_intent = os_intent started,
          op_aborting = aborting,
          op_step = current_step operationRecords entriesById,
          op_toolBatch = deriveToolBatch (os_id started) operationRecords ownEntries entriesById deferredWriteIds,
          op_missingInitialMessages =
            filter (\<lambda>target. map_of entriesById (prov_id target) = None) (initial_messages (os_intent started)),
          op_pendingSteer = (if aborting then [] else pending_of SteerQueue (os_id started) pending),
          op_pendingFollowUp = (if aborting then [] else pending_of FollowUpQueue (os_id started) pending),
          op_pendingWrites =
            filter (\<lambda>target. map_of entriesById (prov_id target) = None)
              (List.map_filter deferred_write operationRecords),
          op_deferred = (if entry_stopped StopDeferred newestOwn
                         then Option.bind (Option.bind newestOwn entry_assistant) am_deferred else None),
          op_overflowRecoveryUsed =
            overflow_recovery_used
              (newest_consumed (consumed_input_ids started operationRecords) entriesById) operationRecords,
          op_newestOwn = deriveNewestOwn newestOwn,
          op_targets = operation_targets_of (os_intent started) entriesById\<rparr>)"

definition reduceLaneState :: "deep_eq \<Rightarrow> lane_reduction_input \<Rightarrow> corruption + lane_reduction_result" where
  "reduceLaneState deepEq input =
     rbind (validateRecordLog deepEq input) (\<lambda>_.
       let records = sort_key rec_seq (rl_records input);
           ownEntries = sort_key entry_seq (li_ownEntries input);
           entriesById = index_entries (rl_entries input @ ownEntries);
           pending = pending_queue records entriesById;
           started = (case rl_openOperations input of [] \<Rightarrow> None | s # _ \<Rightarrow> Some s);
           pendingNextRun = pending_next_run pending started;
           configuration = deriveEffectiveConfiguration input
       in Inr (case started of
            None \<Rightarrow>
              \<lparr>lr_laneState = \<lparr>ls_lane = rl_lane input, ls_leafId = li_leafId input, ls_operation = None,
                              ls_pendingNextRun = pendingNextRun\<rparr>,
               lr_effectiveConfiguration = configuration,
               lr_terminalFailure = None\<rparr>
          | Some s \<Rightarrow>
              let operationRecords = operation_records s records;
                  deferredWriteIds = set (map prov_id (List.map_filter deferred_write operationRecords))
              in \<lparr>lr_laneState = \<lparr>ls_lane = rl_lane input, ls_leafId = li_leafId input,
                     ls_operation = Some (open_operation_state s operationRecords ownEntries entriesById pending deferredWriteIds),
                     ls_pendingNextRun = pendingNextRun\<rparr>,
                  lr_effectiveConfiguration = configuration,
                  lr_terminalFailure = terminal_failure_of operationRecords ownEntries deferredWriteIds\<rparr>))"

section \<open>What the validation has seen\<close>

fun body_attempt :: "record_body \<Rightarrow> step_attempt option" where
  "body_attempt (StepAttempt a) = Some a"
| "body_attempt _ = None"

fun body_tool :: "record_body \<Rightarrow> tool_started option" where
  "body_tool (ToolStarted t) = Some t"
| "body_tool _ = None"

definition finishes :: "string \<Rightarrow> lane_record \<Rightarrow> bool" where
  "finishes i r = (case rec_body r of OperationFinished j _ _ \<Rightarrow> j = i | _ \<Rightarrow> False)"

definition started_ids :: "lane_record list \<Rightarrow> string set" where
  "started_ids rs = rec_id ` {r \<in> set rs. rec_kind r = OperationStartedType}"

definition run_attempts :: "string \<Rightarrow> lane_record list \<Rightarrow> step_attempt list" where
  "run_attempts i rs = filter (\<lambda>a. sa_runId a = i) (List.map_filter (\<lambda>r. body_attempt (rec_body r)) rs)"

definition invocation_list :: "lane_record list \<Rightarrow> (string \<times> int) list" where
  "invocation_list rs =
     map (\<lambda>t. (ts_assistantEntryId t, ts_toolIndex t)) (List.map_filter (\<lambda>r. body_tool (rec_body r)) rs)"

lemma map_filter_snoc1: "List.map_filter f (xs @ [x]) = List.map_filter f xs @ (case f x of None \<Rightarrow> [] | Some y \<Rightarrow> [y])"
  by (induction xs) (auto simp: List.map_filter_def split: option.splits)

lemma last_opt_snoc [simp]: "last_opt (xs @ [x]) = Some x"
  by (simp add: last_opt_def)

lemma seen_snoc:
  "started_ids (rs @ [r]) = (if rec_kind r = OperationStartedType then insert (rec_id r) (started_ids rs) else started_ids rs)"
  "run_attempts i (rs @ [r]) = run_attempts i rs @
     (case body_attempt (rec_body r) of Some a \<Rightarrow> if sa_runId a = i then [a] else [] | None \<Rightarrow> [])"
  "invocation_list (rs @ [r]) = invocation_list rs @
     (case body_tool (rec_body r) of Some t \<Rightarrow> [(ts_assistantEntryId t, ts_toolIndex t)] | None \<Rightarrow> [])"
  "filter (finishes i) (rs @ [r]) = filter (finishes i) rs @ (if finishes i r then [r] else [])"
  by (auto simp: started_ids_def run_attempts_def invocation_list_def map_filter_snoc1 split: option.splits)

definition has_seen :: "lane_record list \<Rightarrow> validation_state \<Rightarrow> bool" where
  "has_seen rs vs \<longleftrightarrow>
     vs_starts vs = started_ids rs \<and>
     (\<forall>i. vs_finishedAt vs i = map_option rec_seq (last_opt (filter (finishes i) rs))) \<and>
     (\<forall>i. vs_latestAttempt vs i = last_opt (run_attempts i rs)) \<and>
     vs_toolInvocations vs = set (invocation_list rs) \<and> distinct (invocation_list rs)"

lemma has_seen_initial: "has_seen [] initial_validation"
  by (simp add: has_seen_def initial_validation_def started_ids_def run_attempts_def invocation_list_def
      last_opt_def List.map_filter_def)

lemma validateToolStart_ok:
  "validateToolStart t E invs = Inr invs' \<longleftrightarrow>
   (ts_assistantEntryId t, ts_toolIndex t) \<notin> invs \<and> invs' = insert (ts_assistantEntryId t, ts_toolIndex t) invs \<and>
   (\<exists>e m c. map_of E (ts_assistantEntryId t) = Some e \<and> entry_assistant e = Some m \<and>
      js_index (message_tool_calls m) (ts_toolIndex t) = Some c \<and>
      call_id c = ts_toolCallId t \<and> call_name c = ts_toolName t) \<and>
   (\<forall>e. map_of E (ts_resultEntryId t) = Some e \<longrightarrow>
      (\<exists>m. entry_tool_result e = Some m \<and> tr_toolCallId m = ts_toolCallId t \<and> tr_toolName m = ts_toolName t))"
  by (auto simp: validateToolStart_def validateResultEntry_def Let_def bind_eq_Some_conv split: option.splits)

lemma has_seen_step:
  assumes "has_seen rs vs" and "validate_record deepEq E vs r = Inr vs'"
  shows "has_seen (rs @ [r]) vs'"
proof (cases "rec_body r")
  case (ToolStarted t)
  with assms show ?thesis
    by (auto simp: validate_record_def has_seen_def seen_snoc finishes_def validateToolStart_ok)
qed (use assms in \<open>auto simp: validate_record_def has_seen_def seen_snoc finishes_def split: option.splits\<close>)

lemma has_seen_fold:
  "rfold (validate_record deepEq E) initial_validation rs = Inr vs \<Longrightarrow> has_seen rs vs"
proof (induction rs arbitrary: vs rule: rev_induct)
  case Nil
  then show ?case by (simp add: has_seen_initial)
next
  case (snoc r rs)
  then show ?case using has_seen_step by (auto simp: rfold_append)
qed

text \<open>The records of an accepted slice, in sequence order.\<close>

abbreviation slice_records :: "'z record_log_slice_scheme \<Rightarrow> lane_record list" where
  "slice_records input \<equiv> sort_key rec_seq (rl_records input)"

abbreviation slice_index :: "'z record_log_slice_scheme \<Rightarrow> (string \<times> entry) list" where
  "slice_index input \<equiv> index_entries (rl_entries input)"

lemma validateRecordLog_ok:
  "validateRecordLog deepEq input = Inr () \<longleftrightarrow>
   length (rl_openOperations input) \<le> 1 \<and>
   validateDeferredHandles (map snd (slice_index input)) = Inr () \<and>
   (\<exists>vs. rfold (validate_record deepEq (slice_index input)) initial_validation (slice_records input) = Inr vs)"
  by (auto simp: validateRecordLog_def Let_def)

lemma accepted_record:
  assumes "validateRecordLog deepEq input = Inr ()" and "slice_records input = pre @ r # post"
  obtains vs vs' where "has_seen pre vs" and "validate_record deepEq (slice_index input) vs r = Inr vs'"
proof -
  from assms obtain vs vs' where "rfold (validate_record deepEq (slice_index input)) initial_validation pre = Inr vs"
    and "validate_record deepEq (slice_index input) vs r = Inr vs'"
    by (auto simp: validateRecordLog_ok rfold_append)
  with that has_seen_fold show thesis by blast
qed

lemma validate_record_run_id:
  "validate_record deepEq E vs r = Inr vs' \<Longrightarrow> rec_runId r = Some i \<Longrightarrow>
   i \<in> vs_starts vs \<and> (\<forall>n. vs_finishedAt vs i = Some n \<longrightarrow> rec_seq r \<le> n)"
  by (cases "rec_body r") (auto simp: validate_record_def validate_run_id_def split: option.splits)

section \<open>Accepted slices\<close>

lemma sorted_before:
  assumes "sort_key f xs = pre @ x # post" and "y \<in> set pre"
  shows "f y \<le> f x"
proof -
  have "sorted (map f (pre @ x # post))" using assms(1) by (metis sorted_sort_key)
  with assms(2) show ?thesis by (auto simp: sorted_append)
qed

text \<open>Records of a run lie between its start and its finish.\<close>

lemma accepted_run_records:
  assumes ok: "validateRecordLog deepEq input = Inr ()" and split: "slice_records input = pre @ r # post"
    and run: "rec_runId r = Some i" and dist: "distinct (map rec_seq (rl_records input))"
  shows "i \<in> started_ids pre \<and> \<not> (\<exists>f \<in> set pre. finishes i f)"
proof -
  obtain vs vs' where seen: "has_seen pre vs" and v: "validate_record deepEq (slice_index input) vs r = Inr vs'"
    by (rule accepted_record [OF ok split])
  note rid = validate_record_run_id [OF v run]
  have "False" if f: "f \<in> set pre" "finishes i f" for f
  proof -
    let ?fs = "filter (finishes i) pre"
    have ne: "?fs \<noteq> []" using f by (auto simp: filter_empty_conv)
    then have "vs_finishedAt vs i = Some (rec_seq (last ?fs))"
      using seen by (simp add: has_seen_def last_opt_def)
    then have "rec_seq r \<le> rec_seq (last ?fs)" using rid by blast
    moreover have last: "last ?fs \<in> set pre" using last_in_set [OF ne] by auto
    then have "rec_seq (last ?fs) \<le> rec_seq r" by (rule sorted_before [OF split])
    moreover have "distinct (map rec_seq (pre @ r # post))"
      using dist by (metis distinct_map distinct_sort set_sort split)
    then have "rec_seq r \<notin> rec_seq ` set pre" by simp
    then have "rec_seq (last ?fs) \<noteq> rec_seq r" using last by (metis image_eqI)
    ultimately show False by simp
  qed
  moreover have "i \<in> started_ids pre" using rid seen by (simp add: has_seen_def)
  ultimately show ?thesis by blast
qed

text \<open>Attempts of a run count up from 1.\<close>

lemma validateAttemptSequence_ok:
  assumes "validateAttemptSequence seq a previous E = Inr ()"
  shows "sa_attempt a = 1 \<or>
    (\<exists>p. previous = Some p \<and> sa_step p = sa_step a \<and> sa_attempt a = sa_attempt p + 1)"
  using assms
  by (auto simp: validateAttemptSequence_def continues_series_def Let_def split: option.splits if_splits)

lemma accepted_attempt:
  assumes ok: "validateRecordLog deepEq input = Inr ()" and split: "slice_records input = pre @ r # post"
    and a: "rec_body r = StepAttempt a"
  shows "sa_attempt a = 1 \<or>
    (\<exists>p. last_opt (run_attempts (sa_runId a) pre) = Some p \<and> sa_step p = sa_step a \<and> sa_attempt a = sa_attempt p + 1)"
proof -
  obtain vs vs' where seen: "has_seen pre vs" and v: "validate_record deepEq (slice_index input) vs r = Inr vs'"
    by (rule accepted_record [OF ok split])
  then have "validateAttemptSequence (rec_seq r) a (last_opt (run_attempts (sa_runId a) pre)) (slice_index input) = Inr ()"
    by (auto simp: validate_record_def a has_seen_def)
  then show ?thesis by (rule validateAttemptSequence_ok)
qed

lemma attempts_bounds:
  assumes "rfold (validate_record deepEq E) initial_validation rs = Inr vs" and "last_opt (run_attempts i rs) = Some a"
  shows "1 \<le> sa_attempt a \<and> sa_attempt a \<le> int (length (run_attempts i rs))"
  using assms
proof (induction rs arbitrary: vs a rule: rev_induct)
  case Nil
  then show ?case by (simp add: run_attempts_def last_opt_def List.map_filter_def)
next
  case (snoc r rs)
  then obtain v where v: "rfold (validate_record deepEq E) initial_validation rs = Inr v"
    and r: "validate_record deepEq E v r = Inr vs" by (auto simp: rfold_append)
  show ?case
  proof (cases "\<exists>b. rec_body r = StepAttempt b \<and> sa_runId b = i")
    case True
    then obtain b where b: "rec_body r = StepAttempt b" "sa_runId b = i" by blast
    then have a: "a = b" using snoc.prems(2) by (simp add: seen_snoc)
    have "validateAttemptSequence (rec_seq r) b (last_opt (run_attempts i rs)) E = Inr ()"
      using r b has_seen_fold [OF v] by (auto simp: validate_record_def has_seen_def)
    from validateAttemptSequence_ok [OF this] snoc.IH [OF v] show ?thesis
      by (auto simp: a b seen_snoc)
  next
    case False
    then have "run_attempts i (rs @ [r]) = run_attempts i rs"
      by (cases "rec_body r") (auto simp: seen_snoc)
    with snoc.IH [OF v] snoc.prems(2) show ?thesis by simp
  qed
qed

text \<open>Tool invocations are unique and match the call they name.\<close>

lemma accepted_invocations:
  "validateRecordLog deepEq input = Inr () \<Longrightarrow> distinct (invocation_list (slice_records input))"
  using has_seen_fold by (auto simp: validateRecordLog_ok has_seen_def)

lemma accepted_tool_start:
  assumes ok: "validateRecordLog deepEq input = Inr ()" and r: "r \<in> set (rl_records input)"
    and t: "rec_body r = ToolStarted t"
  shows "\<exists>e m c. map_of (slice_index input) (ts_assistantEntryId t) = Some e \<and> entry_assistant e = Some m \<and>
     js_index (message_tool_calls m) (ts_toolIndex t) = Some c \<and>
     call_id c = ts_toolCallId t \<and> call_name c = ts_toolName t"
proof -
  have "r \<in> set (slice_records input)" using r by simp
  then obtain pre post where split: "slice_records input = pre @ r # post" by (meson split_list)
  obtain vs vs' where "validate_record deepEq (slice_index input) vs r = Inr vs'"
    by (rule accepted_record [OF ok split])
  then show ?thesis by (auto simp: validate_record_def t validateToolStart_ok)
qed

section \<open>The reduced state\<close>

lemma map_of_index: "map_of (index_entries es) i = map_of (rev (map (\<lambda>e. (entry_id e, e)) es)) i"
proof -
  have "map_of (foldl (\<lambda>m e. AList.update (entry_id e) e m) m es)
      = map_of m ++ map_of (rev (map (\<lambda>e. (entry_id e, e)) es))" for m
    by (induction es arbitrary: m) (auto simp: update_conv' map_add_def fun_eq_iff split: option.splits)
  from this [of "[]"] show ?thesis by (simp add: index_entries_def)
qed

lemma map_of_index_mem: "map_of (index_entries es) i = Some e \<Longrightarrow> e \<in> set es \<and> entry_id e = i"
  by (auto simp: map_of_index dest!: map_of_SomeD)

lemma map_of_index_None: "map_of (index_entries es) i = None \<longleftrightarrow> i \<notin> entry_id ` set es"
  by (auto simp: map_of_index map_of_eq_None_iff image_iff)

lemma map_of_index_distinct:
  assumes "distinct (map entry_id es)" and "e \<in> set es"
  shows "map_of (index_entries es) (entry_id e) = Some e"
proof -
  have "map_of (map (\<lambda>e. (entry_id e, e)) (rev es)) (entry_id e) = Some e"
    using assms by (intro map_of_map_key_mem) (simp_all add: rev_map [symmetric])
  then show ?thesis by (simp add: map_of_index rev_map)
qed

text \<open>
  A slice as the harness reads it: the open operations are among the records, and the entries
  include the operation's own ones, one entry per id.
\<close>

definition slice_consistent :: "lane_reduction_input \<Rightarrow> bool" where
  "slice_consistent input \<longleftrightarrow>
     (\<forall>s \<in> set (rl_openOperations input). \<exists>r \<in> set (rl_records input).
        rec_id r = os_id s \<and> rec_body r = OperationStarted (os_sourceLeafId s) (os_intent s)) \<and>
     set (li_ownEntries input) \<subseteq> set (rl_entries input) \<and> distinct (map entry_id (rl_entries input))"

abbreviation full_index :: "lane_reduction_input \<Rightarrow> (string \<times> entry) list" where
  "full_index input \<equiv> index_entries (rl_entries input @ sort_key entry_seq (li_ownEntries input))"

lemma full_index_eq:
  assumes "slice_consistent input"
  shows "map_of (full_index input) = map_of (slice_index input)"
proof
  fix i
  have dist: "distinct (map entry_id (rl_entries input))" and own: "set (li_ownEntries input) \<subseteq> set (rl_entries input)"
    using assms by (simp_all add: slice_consistent_def)
  show "map_of (full_index input) i = map_of (slice_index input) i"
  proof (cases "map_of (full_index input) i")
    case None
    then have "i \<notin> entry_id ` set (rl_entries input)" by (auto simp: map_of_index_None)
    with None show ?thesis by (simp add: map_of_index_None [THEN iffD2])
  next
    case (Some e)
    then have "e \<in> set (rl_entries input)" "entry_id e = i" using map_of_index_mem [OF Some] own by auto
    with Some map_of_index_distinct [OF dist] show ?thesis by auto
  qed
qed

lemma reduceLaneState_open:
  assumes "reduceLaneState deepEq input = Inr res" and "ls_operation (lr_laneState res) = Some op"
  obtains s where "rl_openOperations input = [s]" and "validateRecordLog deepEq input = Inr ()"
    and "op = open_operation_state s (operation_records s (slice_records input))
           (sort_key entry_seq (li_ownEntries input)) (full_index input)
           (pending_queue (slice_records input) (full_index input))
           (set (map prov_id (List.map_filter deferred_write (operation_records s (slice_records input)))))"
proof (cases "rl_openOperations input")
  case Nil
  then show ?thesis using assms by (auto simp: reduceLaneState_def Let_def)
next
  case (Cons s ss)
  have ok: "validateRecordLog deepEq input = Inr ()" using assms(1) by (auto simp: reduceLaneState_def)
  then have "ss = []" using Cons by (auto simp: validateRecordLog_ok)
  with that Cons ok assms show ?thesis by (auto simp: reduceLaneState_def Let_def)
qed

lemma accepted_started:
  assumes ok: "validateRecordLog deepEq input = Inr ()" and r: "r \<in> set (rl_records input)"
    and b: "rec_body r = OperationStarted src intent"
  shows "validateOperationResult deepEq (slice_index input) intent = Inr ()"
proof -
  have "r \<in> set (slice_records input)" using r by simp
  then obtain pre post where split: "slice_records input = pre @ r # post" by (meson split_list)
  obtain vs vs' where "validate_record deepEq (slice_index input) vs r = Inr vs'"
    by (rule accepted_record [OF ok split])
  then show ?thesis by (auto simp: validate_record_def b)
qed

lemma rfold_unit: "rfold (\<lambda>_ x. f x) () xs = Inr () \<longleftrightarrow> (\<forall>x \<in> set xs. f x = Inr ())"
  by (induction xs) auto

lemma initial_messages_settled:
  assumes "reduceLaneState deepEq input = Inr res" and "ls_operation (lr_laneState res) = Some op"
    and "slice_consistent input" and eq: "\<And>a b. deepEq a b \<longleftrightarrow> a = b"
    and target: "target \<in> set (initial_messages (op_intent op))"
  shows "target \<in> set (op_missingInitialMessages op) \<or>
    (\<exists>e \<in> set (rl_entries input). strip_entry e = target)"
proof -
  obtain s where s: "rl_openOperations input = [s]" "validateRecordLog deepEq input = Inr ()"
    and op: "op = open_operation_state s (operation_records s (slice_records input))
           (sort_key entry_seq (li_ownEntries input)) (full_index input)
           (pending_queue (slice_records input) (full_index input))
           (set (map prov_id (List.map_filter deferred_write (operation_records s (slice_records input)))))"
    by (rule reduceLaneState_open [OF assms(1,2)])
  have intent: "op_intent op = os_intent s" by (simp add: op open_operation_state_def Let_def)
  obtain r where "r \<in> set (rl_records input)" "rec_body r = OperationStarted (os_sourceLeafId s) (os_intent s)"
    using assms(3) s(1) by (auto simp: slice_consistent_def)
  from accepted_started [OF s(2) this]
  have "validateExactProvisionedEntry deepEq (slice_index input) target = Inr ()"
    using target intent
    by (auto simp: initial_messages_def validateOperationResult_def rfold_unit split: operation_intent.splits)
  then show ?thesis
    using target intent full_index_eq [OF assms(3)]
    by (cases "map_of (slice_index input) (prov_id target)")
      (auto simp: op open_operation_state_def Let_def validateExactProvisionedEntry_def
        matchesProvisionedEntry_def eq dest: map_of_index_mem)
qed

lemma operation_attempts:
  "map snd (List.map_filter attempt_record (operation_records s rs)) = run_attempts (os_id s) rs"
proof (induction rs)
  case Nil
  then show ?case by (simp add: operation_records_def run_attempts_def List.map_filter_def)
next
  case (Cons r rs)
  then show ?case
    by (cases "rec_body r") (auto simp: operation_records_def run_attempts_def List.map_filter_def)
qed

lemma last_opt_map: "last_opt (map f xs) = map_option f (last_opt xs)"
  by (simp add: last_opt_def last_map)

lemma step_attempts_bounds:
  assumes "reduceLaneState deepEq input = Inr res" and "ls_operation (lr_laneState res) = Some op"
    and "op_step op = Some st"
  shows "1 \<le> stp_attempts st \<and>
    stp_attempts st \<le> int (length (run_attempts (op_id op) (slice_records input)))"
proof (rule reduceLaneState_open [OF assms(1,2)])
  fix s
  assume ok: "validateRecordLog deepEq input = Inr ()"
    and op: "op = open_operation_state s (operation_records s (slice_records input))
           (sort_key entry_seq (li_ownEntries input)) (full_index input)
           (pending_queue (slice_records input) (full_index input))
           (set (map prov_id (List.map_filter deferred_write (operation_records s (slice_records input)))))"
  obtain vs where vs: "rfold (validate_record deepEq (slice_index input)) initial_validation (slice_records input) = Inr vs"
    using ok by (auto simp: validateRecordLog_ok)
  obtain n a where "last_opt (List.map_filter attempt_record (operation_records s (slice_records input))) = Some (n, a)"
    and st: "stp_attempts st = sa_attempt a"
    using assms(3)
    by (auto simp: op open_operation_state_def current_step_def Let_def split: option.splits if_splits)
  then have "last_opt (run_attempts (os_id s) (slice_records input)) = Some a"
    by (simp add: operation_attempts [symmetric] last_opt_map)
  from attempts_bounds [OF vs this] st show ?thesis by (simp add: op open_operation_state_def Let_def)
qed

text \<open>The tool calls of the current batch.\<close>

lemma tool_starts_fold:
  fixes i j
  defines "step \<equiv> \<lambda>m (r, t). if ts_runId t = i \<and> ts_assistantEntryId t = j
                        then AList.update (ts_toolIndex t) (r, t) m else m"
  assumes "map_of (foldl step m xs) k = Some (r, t)"
  shows "map_of m k = Some (r, t) \<or> (r, t) \<in> set xs \<and> ts_runId t = i \<and> ts_assistantEntryId t = j \<and> ts_toolIndex t = k"
  using assms(2)
proof (induction xs arbitrary: m)
  case Nil
  then show ?case by simp
next
  case (Cons x xs)
  obtain r' t' where x: "x = (r', t')" by (cases x)
  from Cons.IH [of "step m x"] Cons.prems
  consider "map_of (step m x) k = Some (r, t)"
    | "(r, t) \<in> set xs" "ts_runId t = i" "ts_assistantEntryId t = j" "ts_toolIndex t = k" by auto
  then show ?case
  proof cases
    case 1
    then show ?thesis by (auto simp: x step_def update_conv' split: if_splits)
  qed simp
qed

lemma tool_starts_mem:
  assumes "map_of (tool_starts i rs j) k = Some (r, t)"
  shows "r \<in> set rs \<and> rec_body r = ToolStarted t \<and> ts_runId t = i \<and> ts_assistantEntryId t = j \<and> ts_toolIndex t = k"
proof -
  have "(r, t) \<in> set (List.map_filter record_tool_started rs) \<and> ts_runId t = i \<and> ts_assistantEntryId t = j \<and> ts_toolIndex t = k"
    using tool_starts_fold [OF assms [unfolded tool_starts_def]] by simp
  then show ?thesis by (auto simp: List.map_filter_def split: record_body.splits)
qed

lemma deriveToolBatch_calls:
  assumes "deriveToolBatch i rs own E ids = Some tb" and "c \<in> set (tb_calls tb)" and "bc_started c = Some (r, t)"
  obtains e m where "e \<in> set own" and "entry_assistant e = Some m" and "entry_id e = tb_assistantEntryId tb"
    and "bc_toolIndex c < length (message_tool_calls m)"
    and "bc_toolCall c = message_tool_calls m ! bc_toolIndex c"
    and "r \<in> set rs" and "rec_body r = ToolStarted t" and "ts_runId t = i"
    and "ts_assistantEntryId t = entry_id e" and "ts_toolIndex t = int (bc_toolIndex c)"
proof -
  let ?P = "\<lambda>e. case entry_assistant e of None \<Rightarrow> False | Some m \<Rightarrow> message_tool_calls m \<noteq> []"
  from assms(1) obtain e m where e: "List.find ?P (rev own) = Some e" and m: "entry_assistant e = Some m"
    and tb: "tb_calls tb = map (\<lambda>(toolIndex, toolCall).
        batch_call e (tool_starts i rs (entry_id e)) own E ids toolIndex toolCall) (enumerate 0 (message_tool_calls m))"
      "tb_assistantEntryId tb = entry_id e"
    by (auto simp: deriveToolBatch_def Let_def split: option.splits)
  from assms(2) tb obtain k where k: "k < length (message_tool_calls m)"
    and c: "c = batch_call e (tool_starts i rs (entry_id e)) own E ids k (message_tool_calls m ! k)"
    by (auto simp: in_set_enumerate_eq)
  have "map_of (tool_starts i rs (entry_id e)) (int k) = Some (r, t)"
    using assms(3) by (simp add: c batch_call_def Let_def)
  from tool_starts_mem [OF this] that [of e m] find_rev_Some [OF e] m tb(2) k show thesis
    by (simp add: c batch_call_def Let_def)
qed

lemma tool_batch_matches:
  assumes "reduceLaneState deepEq input = Inr res" and "ls_operation (lr_laneState res) = Some op"
    and "slice_consistent input" and "op_toolBatch op = Some tb"
    and "c \<in> set (tb_calls tb)" and "bc_started c = Some (r, t)"
  shows "r \<in> set (rl_records input) \<and> rec_body r = ToolStarted t \<and> ts_runId t = op_id op \<and>
    ts_toolCallId t = call_id (bc_toolCall c) \<and> ts_toolName t = call_name (bc_toolCall c)"
proof (rule reduceLaneState_open [OF assms(1,2)])
  fix s
  assume ok: "validateRecordLog deepEq input = Inr ()"
    and op: "op = open_operation_state s (operation_records s (slice_records input))
           (sort_key entry_seq (li_ownEntries input)) (full_index input)
           (pending_queue (slice_records input) (full_index input))
           (set (map prov_id (List.map_filter deferred_write (operation_records s (slice_records input)))))"
  let ?ids = "set (map prov_id (List.map_filter deferred_write (operation_records s (slice_records input))))"
  have tb: "deriveToolBatch (os_id s) (operation_records s (slice_records input))
      (sort_key entry_seq (li_ownEntries input)) (full_index input) ?ids = Some tb"
    and id: "op_id op = os_id s"
    using assms(4) by (simp_all add: op open_operation_state_def Let_def)
  show ?thesis
  proof (rule deriveToolBatch_calls [OF tb assms(5,6)])
    fix e m
    assume e: "e \<in> set (sort_key entry_seq (li_ownEntries input))" "entry_assistant e = Some m"
      and k: "bc_toolIndex c < length (message_tool_calls m)"
        "bc_toolCall c = message_tool_calls m ! bc_toolIndex c"
      and r: "r \<in> set (operation_records s (slice_records input))" "rec_body r = ToolStarted t"
        "ts_runId t = os_id s" "ts_assistantEntryId t = entry_id e" "ts_toolIndex t = int (bc_toolIndex c)"
    have rin: "r \<in> set (rl_records input)" using r(1) by (auto simp: operation_records_def)
    have "map_of (slice_index input) (entry_id e) = Some e"
      using e(1) assms(3) by (intro map_of_index_distinct) (auto simp: slice_consistent_def)
    with accepted_tool_start [OF ok rin r(2)] e(2) k r show ?thesis
      by (auto simp: id rin)
  qed
qed

text \<open>What is pending has not been written.\<close>

lemma pending_queue_fresh:
  "(q, i, target) \<in> set (pending_queue rs E) \<Longrightarrow>
   map_of E (prov_id target) = None \<and> prov_id target \<notin> set (List.map_filter cancelled_id rs)"
  by (auto simp: pending_queue_def)

lemma pending_fresh:
  assumes "reduceLaneState deepEq input = Inr res" and "ls_operation (lr_laneState res) = Some op"
    and "target \<in> set (op_missingInitialMessages op @ op_pendingSteer op @ op_pendingFollowUp op @ op_pendingWrites op
           @ ls_pendingNextRun (lr_laneState res))"
  shows "prov_id target \<notin> entry_id ` set (rl_entries input @ li_ownEntries input)"
proof (rule reduceLaneState_open [OF assms(1,2)])
  fix s
  assume s: "rl_openOperations input = [s]" and ok: "validateRecordLog deepEq input = Inr ()"
    and op: "op = open_operation_state s (operation_records s (slice_records input))
           (sort_key entry_seq (li_ownEntries input)) (full_index input)
           (pending_queue (slice_records input) (full_index input))
           (set (map prov_id (List.map_filter deferred_write (operation_records s (slice_records input)))))"
  have "ls_pendingNextRun (lr_laneState res) = pending_next_run (pending_queue (slice_records input) (full_index input)) (Some s)"
    using assms(1) s ok by (auto simp: reduceLaneState_def Let_def)
  then have "map_of (full_index input) (prov_id target) = None"
    using assms(3)
    by (auto simp: op open_operation_state_def pending_of_def pending_next_run_def Let_def
        dest: pending_queue_fresh split: if_splits)
  then show ?thesis by (auto simp: map_of_index_None)
qed

lemma sort_key_mset:
  "mset xs = mset ys \<Longrightarrow> distinct (map f ys) \<Longrightarrow> sort_key f xs = sort_key f ys"
  by (rule sort_key_inj_key_eq) (auto simp: distinct_map dest: mset_eq_setD)

lemma validateRecordLog_mset:
  assumes "mset rs = mset (rl_records input)" and "distinct (map rec_seq (rl_records input))"
  shows "validateRecordLog deepEq (input\<lparr>rl_records := rs\<rparr>) = validateRecordLog deepEq input"
  using sort_key_mset [OF assms] by (simp add: validateRecordLog_def)

section \<open>Properties of the reducer\<close>

text \<open>
  The slice for the witnesses: a run with one initial message already written, an assistant
  message with a tool call, the attempt that produced it, and the start of the tool.
\<close>

definition zero_usage :: usage where
  "zero_usage = \<lparr>usage_input = 0, usage_output = 0, usage_cacheRead = 0, usage_cacheWrite = 0, usage_cacheWrite1h = None,
     usage_reasoning = None, usage_totalTokens = 0,
     usage_cost = \<lparr>cost_input = 0, cost_output = 0, cost_cacheRead = 0, cost_cacheWrite = 0, cost_total = 0\<rparr>\<rparr>"

definition slice_call :: tool_call where
  "slice_call = \<lparr>call_id = ''k'', call_name = ''read'', call_arguments = JObj [], call_thoughtSignature = None, call_namespace = None\<rparr>"

definition slice_assistant :: assistant_message where
  "slice_assistant = \<lparr>am_content = [AssistantToolCall slice_call], am_api = ''x'', am_provider = ''p'', am_model = ''m'',
     am_responseModel = None, am_responseId = None, am_diagnostics = None, am_usage = zero_usage, am_stopReason = StopToolUse,
     am_deferred = None, am_errorMessage = None, am_rawStopReason = None, am_endTurn = None, am_timestamp = 5\<rparr>"

definition slice_prompt :: provisioned_entry where
  "slice_prompt = \<lparr>prov_id = ''u'', prov_payload = MessagePayload (UserMessage (ContentString ''go'') 1) False\<rparr>"

definition slice_user_entry :: entry where
  "slice_user_entry = \<lparr>entry_id = ''u'', entry_seq = 2, entry_parentId = None, entry_timestamp = 1,
     entry_payload = prov_payload slice_prompt\<rparr>"

definition slice_assistant_entry :: entry where
  "slice_assistant_entry = \<lparr>entry_id = ''a'', entry_seq = 4, entry_parentId = Some ''u'', entry_timestamp = 5,
     entry_payload = MessagePayload (AssistantMessage slice_assistant) False\<rparr>"

definition slice_intent :: operation_intent where
  "slice_intent = RunIntent \<lparr>run_originalPrompt = [], run_initialMessages = [slice_prompt],
     run_systemPromptOverride = None, run_resumeData = None\<rparr>"

definition slice_attempt :: step_attempt where
  "slice_attempt = \<lparr>sa_runId = ''o'', sa_step = AssistantStep, sa_attempt = 1, sa_resultEntryId = ''a'', sa_compactionReason = None\<rparr>"

definition slice_retry :: step_attempt where
  "slice_retry = slice_attempt\<lparr>sa_resultEntryId := ''z''\<rparr>"

definition slice_tool :: tool_started where
  "slice_tool = \<lparr>ts_runId = ''o'', ts_assistantEntryId = ''a'', ts_toolIndex = 0, ts_toolCallId = ''k'', ts_toolName = ''read'',
     ts_effectiveArgs = JObj [], ts_resultEntryId = ''t'', ts_replay = ReplaySafe\<rparr>"

definition slice_record :: "string \<Rightarrow> nat \<Rightarrow> record_body \<Rightarrow> lane_record" where
  "slice_record i n b = \<lparr>rec_id = i, rec_seq = n, rec_lane = ''main'', rec_timestamp = n, rec_body = b\<rparr>"

definition sample_records :: "lane_record list" where
  "sample_records = [slice_record ''o'' 1 (OperationStarted None slice_intent),
     slice_record ''s'' 3 (StepAttempt slice_attempt), slice_record ''w'' 5 (ToolStarted slice_tool),
     slice_record ''y'' 6 (StepAttempt slice_retry)]"

definition sample_input :: lane_reduction_input where
  "sample_input = \<lparr>rl_lane = ''main'',
     rl_openOperations = [\<lparr>os_id = ''o'', os_seq = 1, os_lane = ''main'', os_timestamp = 1, os_sourceLeafId = None, os_intent = slice_intent\<rparr>],
     rl_records = sample_records, rl_entries = [slice_user_entry, slice_assistant_entry],
     li_leafId = Some ''a'', li_ownEntries = [slice_user_entry, slice_assistant_entry], li_configurationEntries = [],
     li_defaults = \<lparr>lc_model = (''p'', ''m''), lc_thinkingLevel = ''off'', lc_activeToolNames = []\<rparr>\<rparr>"

lemmas slice_defs = sample_input_def sample_records_def slice_record_def slice_tool_def slice_retry_def slice_attempt_def
  slice_intent_def slice_assistant_entry_def slice_user_entry_def slice_prompt_def slice_assistant_def slice_call_def

lemma sample_sorted: "slice_records sample_input = sample_records"
  by (simp add: slice_defs)

lemma sample_index: "slice_index sample_input = [(''u'', slice_user_entry), (''a'', slice_assistant_entry)]"
  by (simp add: sample_input_def index_entries_def slice_user_entry_def slice_assistant_entry_def)

lemma sample_accepted: "validateRecordLog (=) sample_input = Inr ()"
  unfolding validateRecordLog_ok sample_sorted sample_index
  by (simp add: sample_records_def slice_record_def validate_record_def validateOperationResult_def slice_intent_def
      validateExactProvisionedEntry_def matchesProvisionedEntry_def strip_entry_def validate_run_id_def
      validateAttemptReason_def validateAttemptSequence_def validateAttemptResult_def validateResultEntry_def
      validateToolStart_def continues_series_def validateDeferredHandles_def initial_validation_def
      slice_user_entry_def slice_assistant_entry_def slice_prompt_def slice_attempt_def slice_retry_def slice_tool_def
      entry_assistant_def entry_message_def slice_assistant_def message_tool_calls_def List.map_filter_def js_index_def
      slice_call_def sample_input_def Let_def)

lemma sample_consistent: "slice_consistent sample_input"
  by (simp add: slice_consistent_def slice_defs)

text \<open>C20: In an accepted slice with distinct sequence numbers, a record that belongs to an operation comes after the start of
  that operation and never after its finish.\<close>

theorem run_records_in_lifetime:
  assumes "validateRecordLog deepEq input = Inr ()" and "sort_key rec_seq (rl_records input) = pre @ r # post"
    and "rec_runId r = Some i" and "distinct (map rec_seq (rl_records input))"
  shows "i \<in> started_ids pre \<and> \<not> (\<exists>f \<in> set pre. finishes i f)"
  by (rule accepted_run_records [OF assms])

theorem run_records_in_lifetime_witness:
  "''o'' \<in> started_ids (take 2 sample_records) \<and> \<not> (\<exists>f \<in> set (take 2 sample_records). finishes ''o'' f)"
  by (rule run_records_in_lifetime [OF sample_accepted, of _ "sample_records ! 2" "drop 3 sample_records"])
    (simp_all add: slice_defs)

text \<open>Validation and reduction do not depend on the order in which the records of a slice are given, as long as
  their sequence numbers are distinct.\<close>

theorem reduction_order_independent:
  assumes "mset rs = mset (rl_records input)" and "distinct (map rec_seq (rl_records input))"
  shows "reduceLaneState deepEq (input\<lparr>rl_records := rs\<rparr>) = reduceLaneState deepEq input"
  using sort_key_mset [OF assms] validateRecordLog_mset [OF assms, of deepEq]
  by (cases "rl_openOperations input") (simp_all add: reduceLaneState_def deriveEffectiveConfiguration_def Let_def)

theorem reduction_order_independent_witness:
  "reduceLaneState (=) (sample_input\<lparr>rl_records := rev sample_records\<rparr>) = reduceLaneState (=) sample_input"
  by (rule reduction_order_independent) (simp_all add: slice_defs)

lemma sample_reduced:
  "\<exists>res op st tb c r. reduceLaneState (=) sample_input = Inr res \<and> ls_operation (lr_laneState res) = Some op \<and>
     op_intent op = slice_intent \<and> op_id op = ''o'' \<and> op_step op = Some st \<and>
     op_toolBatch op = Some tb \<and> c \<in> set (tb_calls tb) \<and> bc_started c = Some (r, slice_tool)"
  by (simp add: reduceLaneState_def sample_accepted Let_def)
    (simp add: slice_defs open_operation_state_def operation_records_def current_step_def last_opt_def deriveToolBatch_def
      tool_starts_def batch_call_def entry_assistant_def entry_message_def message_tool_calls_def List.map_filter_def
      index_entries_def Let_def)

text \<open>The number of attempts of the step in progress is at least one and at most the number of attempts the records of
  the operation show.\<close>

theorem attempts_bounded:
  assumes "reduceLaneState deepEq input = Inr res" and "ls_operation (lr_laneState res) = Some op"
    and "op_step op = Some st"
  shows "1 \<le> stp_attempts st \<and> stp_attempts st \<le> int (length (run_attempts (op_id op) (sort_key rec_seq (rl_records input))))"
  by (rule step_attempts_bounds [OF assms])

theorem attempts_bounded_witness:
  "\<exists>res op st. reduceLaneState (=) sample_input = Inr res \<and> ls_operation (lr_laneState res) = Some op \<and>
     op_step op = Some st \<and> 1 \<le> stp_attempts st"
proof -
  obtain res op st where ok: "reduceLaneState (=) sample_input = Inr res" "ls_operation (lr_laneState res) = Some op"
    "op_step op = Some st" using sample_reduced by blast
  from attempts_bounded [OF ok] ok show ?thesis by blast
qed

text \<open>In the tool batch reconstructed from a consistent slice, a call marked as started carries a start record of this
  operation whose call id and tool name are those of the call.\<close>

theorem started_calls_match:
  assumes "reduceLaneState deepEq input = Inr res" and "ls_operation (lr_laneState res) = Some op"
    and "slice_consistent input" and "op_toolBatch op = Some tb"
    and "c \<in> set (tb_calls tb)" and "bc_started c = Some (r, t)"
  shows "r \<in> set (rl_records input) \<and> rec_body r = ToolStarted t \<and> ts_runId t = op_id op \<and>
    ts_toolCallId t = call_id (bc_toolCall c) \<and> ts_toolName t = call_name (bc_toolCall c)"
  by (rule tool_batch_matches [OF assms])

theorem started_calls_match_witness:
  "\<exists>res op tb c r. reduceLaneState (=) sample_input = Inr res \<and> ls_operation (lr_laneState res) = Some op \<and>
     op_toolBatch op = Some tb \<and> c \<in> set (tb_calls tb) \<and> bc_started c = Some (r, slice_tool) \<and>
     ts_toolCallId slice_tool = call_id (bc_toolCall c)"
proof -
  obtain res op tb c r where ok: "reduceLaneState (=) sample_input = Inr res" "ls_operation (lr_laneState res) = Some op"
    and tb: "op_toolBatch op = Some tb" "c \<in> set (tb_calls tb)" "bc_started c = Some (r, slice_tool)"
    using sample_reduced by blast
  from started_calls_match [OF ok sample_consistent tb] ok tb show ?thesis by blast
qed

text \<open>When the deep comparison is equality, each initial message of the open run is either listed as missing or is already
  stored with exactly the intended id and content.\<close>

theorem initial_messages_accounted:
  assumes "reduceLaneState deepEq input = Inr res" and "ls_operation (lr_laneState res) = Some op"
    and "slice_consistent input" and "\<And>a b. deepEq a b \<longleftrightarrow> a = b"
    and "target \<in> set (initial_messages (op_intent op))"
  shows "target \<in> set (op_missingInitialMessages op) \<or> (\<exists>e \<in> set (rl_entries input). strip_entry e = target)"
  by (rule initial_messages_settled [OF assms])

theorem initial_messages_accounted_witness:
  "\<exists>res op. reduceLaneState (=) sample_input = Inr res \<and> ls_operation (lr_laneState res) = Some op \<and>
     (slice_prompt \<in> set (op_missingInitialMessages op) \<or> (\<exists>e \<in> set (rl_entries sample_input). strip_entry e = slice_prompt))"
proof -
  obtain res op where ok: "reduceLaneState (=) sample_input = Inr res" "ls_operation (lr_laneState res) = Some op"
    and intent: "op_intent op = slice_intent" using sample_reduced by blast
  have "slice_prompt \<in> set (initial_messages (op_intent op))" by (simp add: intent slice_intent_def initial_messages_def)
  from initial_messages_accounted [OF ok sample_consistent _ this] ok show ?thesis by blast
qed

text \<open>Whatever the reduced state lists as missing or pending, initial messages, steering, follow-ups, deferred writes and
  messages for the next run, has not been written: no entry of the slice has its id.\<close>

theorem pending_not_written:
  assumes "reduceLaneState deepEq input = Inr res" and "ls_operation (lr_laneState res) = Some op"
    and "target \<in> set (op_missingInitialMessages op @ op_pendingSteer op @ op_pendingFollowUp op @ op_pendingWrites op
           @ ls_pendingNextRun (lr_laneState res))"
  shows "prov_id target \<notin> entry_id ` set (rl_entries input @ li_ownEntries input)"
  by (rule pending_fresh [OF assms])

definition queue_target :: provisioned_entry where
  "queue_target = \<lparr>prov_id = ''q'', prov_payload = MessagePayload (UserMessage (ContentString ''wait'') 7) False\<rparr>"

definition queue_input :: lane_reduction_input where
  "queue_input = sample_input\<lparr>rl_records := [slice_record ''o'' 1 (OperationStarted None slice_intent),
     slice_record ''e'' 7 (QueueEnqueued SteerQueue (Some ''o'') queue_target)]\<rparr>"

lemma queue_reduced:
  "\<exists>res op. reduceLaneState (=) queue_input = Inr res \<and> ls_operation (lr_laneState res) = Some op \<and>
     queue_target \<in> set (op_pendingSteer op)"
  by (simp add: reduceLaneState_def validateRecordLog_def queue_input_def queue_target_def slice_defs validate_record_def
      validateOperationResult_def validateExactProvisionedEntry_def matchesProvisionedEntry_def strip_entry_def
      validate_run_id_def validateDeferredHandles_def initial_validation_def entry_assistant_def entry_message_def
      index_entries_def open_operation_state_def operation_records_def pending_of_def pending_queue_def
      List.map_filter_def Let_def) auto

theorem pending_not_written_witness:
  "\<exists>res op. reduceLaneState (=) queue_input = Inr res \<and> ls_operation (lr_laneState res) = Some op \<and>
     queue_target \<in> set (op_pendingSteer op) \<and>
     prov_id queue_target \<notin> entry_id ` set (rl_entries queue_input @ li_ownEntries queue_input)"
proof -
  obtain res op where ok: "reduceLaneState (=) queue_input = Inr res" "ls_operation (lr_laneState res) = Some op"
    and q: "queue_target \<in> set (op_pendingSteer op)" using queue_reduced by blast
  from pending_not_written [OF ok, of queue_target] ok q show ?thesis by auto
qed

text \<open>In an accepted slice no tool invocation, an assistant entry and an index of its calls, is started twice.\<close>

theorem tool_invocations_unique:
  assumes "validateRecordLog deepEq input = Inr ()"
  shows "distinct (invocation_list (sort_key rec_seq (rl_records input)))"
  by (rule accepted_invocations [OF assms])

theorem tool_invocations_unique_witness: "distinct (invocation_list (sort_key rec_seq (rl_records sample_input)))"
  by (rule tool_invocations_unique [OF sample_accepted])

text \<open>A lane whose open operation is aborting offers no steering and no follow-up message.\<close>

theorem aborting_drops_queues:
  assumes "reduceLaneState deepEq input = Inr res" and "ls_operation (lr_laneState res) = Some op" and "op_aborting op"
  shows "op_pendingSteer op = [] \<and> op_pendingFollowUp op = []"
  by (rule reduceLaneState_open [OF assms(1,2)]) (use assms(3) in \<open>simp add: open_operation_state_def Let_def\<close>)

definition abort_input :: lane_reduction_input where
  "abort_input = sample_input\<lparr>rl_records := [slice_record ''o'' 1 (OperationStarted None slice_intent),
     slice_record ''e'' 7 (QueueEnqueued SteerQueue (Some ''o'') queue_target), slice_record ''b'' 8 (AbortRequested ''o'')]\<rparr>"

lemma abort_reduced:
  "\<exists>res op. reduceLaneState (=) abort_input = Inr res \<and> ls_operation (lr_laneState res) = Some op \<and> op_aborting op"
  by (simp add: reduceLaneState_def validateRecordLog_def abort_input_def queue_target_def slice_defs validate_record_def
      validateOperationResult_def validateExactProvisionedEntry_def matchesProvisionedEntry_def strip_entry_def
      validate_run_id_def validateDeferredHandles_def initial_validation_def entry_assistant_def entry_message_def
      index_entries_def open_operation_state_def operation_records_def Let_def)

theorem aborting_drops_queues_witness:
  "\<exists>res op. reduceLaneState (=) abort_input = Inr res \<and> ls_operation (lr_laneState res) = Some op \<and> op_pendingSteer op = []"
proof -
  obtain res op where ok: "reduceLaneState (=) abort_input = Inr res" "ls_operation (lr_laneState res) = Some op" "op_aborting op"
    using abort_reduced by blast
  from aborting_drops_queues [OF ok] ok show ?thesis by blast
qed

end
