(* ===== verification/Framing.thy ===== *)
theory Framing
  imports Prelude
begin

text \<open>
  \<^verbatim>\<open>packages/protocol/src/framing.ts\<close>: length-prefixed frames.  A \<^verbatim>\<open>Uint8Array\<close> is a list of
  bytes.  The incremental \<^verbatim>\<open>FrameDecoder\<close> keeps its header buffer, its payload blocks and its
  counters; the block that is being filled is the last element of \<^verbatim>\<open>payloadBlocks\<close>.  The two
  loops of \<^verbatim>\<open>pushEach\<close> are partial functions, and they are shown to return on every decoder
  state that can arise.  A frame callback may throw; it does not call the decoder.
\<close>

section \<open>Constants, encoding\<close>

definition FRAME_HEADER_LENGTH :: nat where
  "FRAME_HEADER_LENGTH = 4"

definition MAX_UINT32 :: nat where
  "MAX_UINT32 = 0xffffffff"

definition PAYLOAD_BLOCK_SIZE :: nat where
  "PAYLOAD_BLOCK_SIZE = 64 * 1024"

definition DEFAULT_MAX_FRAME_LENGTH :: nat where
  "DEFAULT_MAX_FRAME_LENGTH = 16 * 1024 * 1024"

datatype frame_error =
    InvalidMaxFrameLength | PayloadTooLong | IncompleteHeader | FrameTooLong | NotOneFrame
  | DecoderEnded | DecoderFailed | TruncatedFrame

definition resolveMaxFrameLength :: "jsnum option \<Rightarrow> frame_error + nat" where
  "resolveMaxFrameLength maxFrameLength =
     (let value = (case maxFrameLength of Some x \<Rightarrow> x | None \<Rightarrow> JsInt (int DEFAULT_MAX_FRAME_LENGTH))
      in case js_int value of
           None \<Rightarrow> Inl InvalidMaxFrameLength
         | Some n \<Rightarrow>
             if \<not> js_is_safe_integer value \<or> n < 0 \<or> n > int MAX_UINT32 then Inl InvalidMaxFrameLength
             else Inr (nat n))"

definition u8_set :: "byte list \<Rightarrow> byte list \<Rightarrow> nat \<Rightarrow> byte list" where
  "u8_set target source offset = take offset target @ source @ drop (offset + length source) target"

definition uint32_bytes :: "nat \<Rightarrow> byte list" where
  "uint32_bytes n = [u8 (n div 2 ^ 24), u8 (n div 2 ^ 16), u8 (n div 2 ^ 8), u8 n]"

definition read_uint32 :: "byte list \<Rightarrow> nat" where
  "read_uint32 h =
     unat (h ! 0) * 0x1000000 + unat (h ! 1) * 0x10000 + unat (h ! 2) * 0x100 + unat (h ! 3)"

definition encodeFrame :: "byte list \<Rightarrow> frame_error + byte list" where
  "encodeFrame payload =
     (if length payload > MAX_UINT32 then Inl PayloadTooLong
      else Inr (u8_set (u8_set (replicate (FRAME_HEADER_LENGTH + length payload) 0)
                  (uint32_bytes (length payload)) 0) payload FRAME_HEADER_LENGTH))"

definition assertCompleteFrame :: "jsnum option \<Rightarrow> byte list \<Rightarrow> frame_error + unit" where
  "assertCompleteFrame options frame =
     rbind (rcheck IncompleteHeader (\<not> length frame < FRAME_HEADER_LENGTH)) (\<lambda>_.
     let n = read_uint32 frame in
     rbind (resolveMaxFrameLength options) (\<lambda>maxFrameLength.
     rbind (rcheck FrameTooLong (\<not> n > maxFrameLength)) (\<lambda>_.
     rcheck NotOneFrame (length frame = FRAME_HEADER_LENGTH + n))))"

section \<open>The incremental decoder\<close>

datatype decoder_status = DecOpen | DecEnded | DecFailed

record frame_decoder =
  fd_header :: "byte list"
  fd_headerLength :: nat
  fd_maxFrameLength :: nat
  fd_payloadBlocks :: "byte list list"
  fd_hasCurrentBlock :: bool
  fd_currentPayloadBlockLength :: nat
  fd_expectedPayloadLength :: "nat option"
  fd_payloadLength :: nat
  fd_state :: decoder_status

definition new_decoder :: "jsnum option \<Rightarrow> frame_error + frame_decoder" where
  "new_decoder options =
     rbind (resolveMaxFrameLength options) (\<lambda>maxFrameLength.
     Inr \<lparr>fd_header = replicate FRAME_HEADER_LENGTH 0, fd_headerLength = 0, fd_maxFrameLength = maxFrameLength,
          fd_payloadBlocks = [], fd_hasCurrentBlock = False, fd_currentPayloadBlockLength = 0,
          fd_expectedPayloadLength = None, fd_payloadLength = 0, fd_state = DecOpen\<rparr>)"

definition reset_payload :: "nat option \<Rightarrow> frame_decoder \<Rightarrow> frame_decoder" where
  "reset_payload expected d =
     d\<lparr>fd_payloadBlocks := [], fd_hasCurrentBlock := False, fd_currentPayloadBlockLength := 0,
       fd_expectedPayloadLength := expected, fd_payloadLength := 0\<rparr>"

definition decoder_fail :: "frame_decoder \<Rightarrow> frame_decoder" where
  "decoder_fail d = reset_payload None (d\<lparr>fd_state := DecFailed, fd_headerLength := 0\<rparr>)"

text \<open>One iteration of the inner loop: take a new block when there is none or it is full, and copy into it.\<close>

definition take_block :: "nat \<Rightarrow> frame_decoder \<Rightarrow> frame_decoder" where
  "take_block expected d =
     (if \<not> fd_hasCurrentBlock d \<or> fd_currentPayloadBlockLength d = length (last (fd_payloadBlocks d))
      then d\<lparr>fd_payloadBlocks := fd_payloadBlocks d @
               [replicate (min PAYLOAD_BLOCK_SIZE (expected - fd_payloadLength d)) 0],
             fd_hasCurrentBlock := True, fd_currentPayloadBlockLength := 0\<rparr>
      else d)"

definition fill_block :: "frame_decoder \<Rightarrow> byte list \<Rightarrow> frame_decoder \<times> byte list" where
  "fill_block d rest =
     (let block = last (fd_payloadBlocks d);
          payloadBytes = min (length block - fd_currentPayloadBlockLength d) (length rest)
      in (d\<lparr>fd_payloadBlocks := butlast (fd_payloadBlocks d) @
               [u8_set block (take payloadBytes rest) (fd_currentPayloadBlockLength d)],
            fd_currentPayloadBlockLength := fd_currentPayloadBlockLength d + payloadBytes,
            fd_payloadLength := fd_payloadLength d + payloadBytes\<rparr>,
          drop payloadBytes rest))"

partial_function (option) fill_loop :: "nat \<Rightarrow> frame_decoder \<Rightarrow> byte list \<Rightarrow> (frame_decoder \<times> byte list) option" where
  "fill_loop expected d rest =
     (if rest \<noteq> [] \<and> fd_payloadLength d < expected
      then (case fill_block (take_block expected d) rest of (d', rest') \<Rightarrow> fill_loop expected d' rest')
      else Some (d, rest))"

text \<open>The payload: the only block, or the blocks copied one after the other.\<close>

definition assemble :: "nat \<Rightarrow> byte list list \<Rightarrow> byte list" where
  "assemble expected blocks =
     (if length blocks = 1 then hd blocks
      else fst (foldl (\<lambda>(payload, offset) block. (u8_set payload block offset, offset + length block))
             (replicate expected 0, 0) blocks))"

text \<open>
  The callback maps its state and a frame to its new state and the error it throws, if any.
  \<open>read_header\<close> is the part of an iteration that runs when no frame is open.
\<close>

datatype 'x push_error = PushFrameError frame_error | CallbackError 'x

type_synonym ('c, 'x) on_frame = "'c \<Rightarrow> byte list \<Rightarrow> 'c \<times> 'x option"

definition read_header :: "frame_decoder \<Rightarrow> byte list \<Rightarrow> frame_decoder \<times> byte list" where
  "read_header d rest =
     (let headerBytes = min (FRAME_HEADER_LENGTH - fd_headerLength d) (length rest)
      in (d\<lparr>fd_header := u8_set (fd_header d) (take headerBytes rest) (fd_headerLength d),
            fd_headerLength := fd_headerLength d + headerBytes\<rparr>,
          drop headerBytes rest))"

datatype ('c, 'x) iteration =
    Continue frame_decoder 'c "byte list"
  | Throw frame_decoder 'c "'x push_error"

definition call_back :: "('c, 'x) on_frame \<Rightarrow> byte list \<Rightarrow> frame_decoder \<Rightarrow> 'c \<Rightarrow> byte list \<Rightarrow> ('c, 'x) iteration" where
  "call_back onFrame frame d c rest =
     (case onFrame c frame of
        (c', Some x) \<Rightarrow> Throw d c' (CallbackError x)
      | (c', None) \<Rightarrow> Continue d c' rest)"

definition payload_iteration ::
    "('c, 'x) on_frame \<Rightarrow> nat \<Rightarrow> frame_decoder \<Rightarrow> 'c \<Rightarrow> byte list \<Rightarrow> ('c, 'x) iteration option" where
  "payload_iteration onFrame expected d c rest =
     (case fill_loop expected d rest of
        None \<Rightarrow> None
      | Some (d1, rest1) \<Rightarrow>
          if fd_payloadLength d1 = expected
          then Some (call_back onFrame (assemble expected (fd_payloadBlocks d1)) (reset_payload None d1) c rest1)
          else Some (Continue d1 c rest1))"

definition push_iteration ::
    "('c, 'x) on_frame \<Rightarrow> frame_decoder \<Rightarrow> 'c \<Rightarrow> byte list \<Rightarrow> ('c, 'x) iteration option" where
  "push_iteration onFrame d c rest =
     (case fd_expectedPayloadLength d of
        Some expected \<Rightarrow> payload_iteration onFrame expected d c rest
      | None \<Rightarrow>
          (case read_header d rest of (d1, rest1) \<Rightarrow>
             if fd_headerLength d1 < FRAME_HEADER_LENGTH then Some (Continue d1 c rest1)
             else
               let frameLength = read_uint32 (fd_header d1);
                   d2 = d1\<lparr>fd_headerLength := 0\<rparr>
               in if frameLength > fd_maxFrameLength d2
                  then Some (Throw (decoder_fail d2) c (PushFrameError FrameTooLong))
                  else if frameLength = 0 then Some (call_back onFrame [] d2 c rest1)
                  else payload_iteration onFrame frameLength (reset_payload (Some frameLength) d2) c rest1))"

partial_function (option) push_loop ::
    "('c, 'x) on_frame \<Rightarrow> frame_decoder \<Rightarrow> 'c \<Rightarrow> byte list \<Rightarrow> (frame_decoder \<times> 'c \<times> 'x push_error option) option" where
  "push_loop onFrame d c rest =
     (if rest = [] then Some (d, c, None)
      else Option.bind (push_iteration onFrame d c rest) (\<lambda>it.
             case it of
               Throw d' c' err \<Rightarrow> Some (d', c', Some err)
             | Continue d' c' rest' \<Rightarrow> push_loop onFrame d' c' rest'))"

definition pushEach ::
    "('c, 'x) on_frame \<Rightarrow> frame_decoder \<Rightarrow> 'c \<Rightarrow> byte list \<Rightarrow> (frame_decoder \<times> 'c \<times> 'x push_error option) option" where
  "pushEach onFrame d c chunk =
     (case fd_state d of
        DecEnded \<Rightarrow> Some (d, c, Some (PushFrameError DecoderEnded))
      | DecFailed \<Rightarrow> Some (d, c, Some (PushFrameError DecoderFailed))
      | DecOpen \<Rightarrow> push_loop onFrame d c chunk)"

text \<open>The callback of \<^verbatim>\<open>push\<close> collects the frames and never throws.\<close>

definition collect_frame :: "(byte list list, unit) on_frame" where
  "collect_frame frames frame = (frames @ [frame], None)"

definition push :: "frame_decoder \<Rightarrow> byte list \<Rightarrow> (frame_decoder \<times> (unit push_error + byte list list)) option" where
  "push d chunk =
     map_option (\<lambda>(d', frames, err). (d', case err of None \<Rightarrow> Inr frames | Some e \<Rightarrow> Inl e))
       (pushEach collect_frame d [] chunk)"

definition decoder_end :: "frame_decoder \<Rightarrow> frame_decoder \<times> (frame_error + unit)" where
  "decoder_end d =
     (case fd_state d of
        DecEnded \<Rightarrow> (d, Inl DecoderEnded)
      | DecFailed \<Rightarrow> (d, Inl DecoderFailed)
      | DecOpen \<Rightarrow>
          if fd_headerLength d \<noteq> 0 \<or> fd_expectedPayloadLength d \<noteq> None
          then (decoder_fail d, Inl TruncatedFrame)
          else (d\<lparr>fd_state := DecEnded\<rparr>, Inr ()))"

section \<open>The byte stream a decoder stands for\<close>

datatype stream_end = Partial "byte list" | TooLong

function split_frames :: "nat \<Rightarrow> byte list \<Rightarrow> byte list list \<times> stream_end" where
  "split_frames maxLen bs =
     (if length bs < 4 then ([], Partial bs)
      else let n = read_uint32 bs
           in if n > maxLen then ([], TooLong)
              else if length bs < 4 + n then ([], Partial bs)
              else (case split_frames maxLen (drop (4 + n) bs) of
                      (fs, e) \<Rightarrow> (take n (drop 4 bs) # fs, e)))"
  by pat_completeness auto
termination by (relation "measure (length \<circ> snd)") auto

declare split_frames.simps [simp del]

lemma length_uint32_bytes [simp]: "length (uint32_bytes n) = 4"
  by (simp add: uint32_bytes_def)

lemma join_bytes:
  "n = q1 * 256 + r0 \<Longrightarrow> q1 = q2 * 256 + r1 \<Longrightarrow> q2 = q3 * 256 + r2 \<Longrightarrow>
   q3 * 16777216 + r2 * 65536 + r1 * 256 + r0 = (n :: nat)"
  by simp

lemma bytes_of_nat: "n div 16777216 * 16777216 + n div 65536 mod 256 * 65536 + n div 256 mod 256 * 256 + n mod 256 = (n :: nat)"
proof -
  have "n div 65536 = n div 256 div 256" and "n div 16777216 = n div 256 div 256 div 256"
    by (simp_all add: div_mult2_eq [symmetric])
  with join_bytes [OF div_mult_mod_eq [symmetric] div_mult_mod_eq [symmetric] div_mult_mod_eq [symmetric]]
  show ?thesis by metis
qed

lemma read_uint32_bytes:
  assumes "n < 2 ^ 32"
  shows "read_uint32 (uint32_bytes n @ xs) = n"
proof -
  have "n div 16777216 < 256" using assms by (simp add: less_mult_imp_div_less)
  then show ?thesis
    using bytes_of_nat [of n] by (simp add: read_uint32_def uint32_bytes_def unat_u8)
qed

lemma read_uint32_append: "4 \<le> length h \<Longrightarrow> read_uint32 (h @ xs) = read_uint32 h"
  by (simp add: read_uint32_def nth_append del: length_greater_0_conv)

lemma encodeFrame_eq: "length payload \<le> MAX_UINT32 \<Longrightarrow> encodeFrame payload = Inr (uint32_bytes (length payload) @ payload)"
  by (simp add: encodeFrame_def u8_set_def FRAME_HEADER_LENGTH_def)

lemma split_frames_partial_short: "length bs < 4 \<Longrightarrow> split_frames maxLen bs = ([], Partial bs)"
  by (simp add: split_frames.simps)

lemma split_frames_frame:
  assumes "length h = 4" and "read_uint32 h = length f" and "length f \<le> maxLen"
  shows "split_frames maxLen (h @ f @ rest) = (case split_frames maxLen rest of (fs, e) \<Rightarrow> (f # fs, e))"
  using assms by (subst split_frames.simps) (simp add: read_uint32_append)

lemma split_frames_partial_payload:
  assumes "length h = 4" and "length p < read_uint32 h" and "read_uint32 h \<le> maxLen"
  shows "split_frames maxLen (h @ p) = ([], Partial (h @ p))"
  using assms by (subst split_frames.simps) (simp add: read_uint32_append)

lemma split_frames_too_long:
  assumes "4 \<le> length bs" and "maxLen < read_uint32 bs"
  shows "split_frames maxLen bs = ([], TooLong)"
  using assms by (subst split_frames.simps) simp

section \<open>The inner loop\<close>

definition payload_of :: "frame_decoder \<Rightarrow> byte list" where
  "payload_of d = (if fd_hasCurrentBlock d
     then concat (butlast (fd_payloadBlocks d)) @ take (fd_currentPayloadBlockLength d) (last (fd_payloadBlocks d))
     else [])"

definition wf_blocks :: "nat \<Rightarrow> frame_decoder \<Rightarrow> bool" where
  "wf_blocks n d \<longleftrightarrow>
     (if fd_hasCurrentBlock d
      then fd_payloadBlocks d \<noteq> [] \<and>
           fd_currentPayloadBlockLength d \<le> length (last (fd_payloadBlocks d)) \<and>
           fd_payloadLength d = length (concat (butlast (fd_payloadBlocks d))) + fd_currentPayloadBlockLength d \<and>
           length (concat (fd_payloadBlocks d)) \<le> n
      else fd_payloadBlocks d = [] \<and> fd_payloadLength d = 0)"

lemma concat_butlast_last: "bs \<noteq> [] \<Longrightarrow> concat (butlast bs) @ last bs = concat bs"
  by (induction bs rule: rev_induct) auto

lemma length_concat_last: "bs \<noteq> [] \<Longrightarrow> length (concat bs) = length (concat (butlast bs)) + length (last bs)"
  by (induction bs rule: rev_induct) auto

lemma payload_of_length: "wf_blocks n d \<Longrightarrow> length (payload_of d) = fd_payloadLength d \<and> fd_payloadLength d \<le> n"
  by (auto simp: wf_blocks_def payload_of_def length_concat_last split: if_splits)

lemma take_block_wf:
  assumes "wf_blocks n d" and "fd_payloadLength d < n"
  shows "wf_blocks n (take_block n d)" and "payload_of (take_block n d) = payload_of d"
    and "fd_hasCurrentBlock (take_block n d)"
    and "fd_currentPayloadBlockLength (take_block n d) < length (last (fd_payloadBlocks (take_block n d)))"
    and "fd_payloadLength (take_block n d) = fd_payloadLength d"
proof -
  show "wf_blocks n (take_block n d)" "payload_of (take_block n d) = payload_of d"
    "fd_hasCurrentBlock (take_block n d)"
    "fd_currentPayloadBlockLength (take_block n d) < length (last (fd_payloadBlocks (take_block n d)))"
    "fd_payloadLength (take_block n d) = fd_payloadLength d"
    using assms
    by (auto simp: take_block_def wf_blocks_def payload_of_def length_concat_last concat_butlast_last
        PAYLOAD_BLOCK_SIZE_def split: if_splits)
qed

lemma fill_block_wf:
  assumes wf: "wf_blocks n d" and cur: "fd_hasCurrentBlock d"
    and k: "k = min (length (last (fd_payloadBlocks d)) - fd_currentPayloadBlockLength d) (length rest)"
    and fb: "fill_block d rest = (d', rest')"
  shows "wf_blocks n d'" and "payload_of d' = payload_of d @ take k rest" and "rest' = drop k rest"
    and "fd_payloadLength d' = fd_payloadLength d + k"
proof -
  let ?b = "last (fd_payloadBlocks d)" and ?c = "fd_currentPayloadBlockLength d"
  have ne: "fd_payloadBlocks d \<noteq> []" and c: "?c \<le> length ?b" using wf cur by (auto simp: wf_blocks_def)
  have len: "length (u8_set ?b (take k rest) ?c) = length ?b"
    using c by (auto simp: u8_set_def k)
  have "take (?c + k) (u8_set ?b (take k rest) ?c) = take ?c ?b @ take k rest"
    using c by (simp add: u8_set_def k)
  with wf cur ne fb len c show "wf_blocks n d'" "payload_of d' = payload_of d @ take k rest" "rest' = drop k rest"
    "fd_payloadLength d' = fd_payloadLength d + k"
    by (auto simp: fill_block_def Let_def wf_blocks_def payload_of_def length_concat_last k [symmetric])
      (simp add: k)
qed

text \<open>What the inner loop leaves alone.\<close>

definition same_frame :: "frame_decoder \<Rightarrow> frame_decoder \<Rightarrow> bool" where
  "same_frame d d' \<longleftrightarrow> fd_header d' = fd_header d \<and> fd_headerLength d' = fd_headerLength d \<and>
     fd_maxFrameLength d' = fd_maxFrameLength d \<and> fd_expectedPayloadLength d' = fd_expectedPayloadLength d \<and>
     fd_state d' = fd_state d"

lemma same_frame_step: "fill_block (take_block n d) rest = (d', rest') \<Longrightarrow> same_frame d d'"
proof -
  assume fb: "fill_block (take_block n d) rest = (d', rest')"
  have "same_frame d (take_block n d)" by (simp add: take_block_def same_frame_def)
  moreover have "same_frame e (fst (fill_block e rest))" for e by (simp add: fill_block_def same_frame_def Let_def)
  from this [of "take_block n d"] have "same_frame (take_block n d) d'" by (simp add: fb)
  ultimately show ?thesis by (simp add: same_frame_def)
qed

lemma fill_loop_fills:
  assumes "wf_blocks n d"
  shows "\<exists>d'. fill_loop n d rest = Some (d', drop (n - fd_payloadLength d) rest) \<and> wf_blocks n d' \<and>
    payload_of d' = payload_of d @ take (n - fd_payloadLength d) rest \<and> same_frame d d'"
  using assms
proof (induction "length rest" arbitrary: d rest rule: less_induct)
  case less
  show ?case
  proof (cases "rest \<noteq> [] \<and> fd_payloadLength d < n")
    case False
    then show ?thesis using less.prems by (subst fill_loop.simps) (auto simp: same_frame_def)
  next
    case True
    note tb = take_block_wf [OF less.prems conjunct2 [OF True]]
    obtain d1 rest1 where fb: "fill_block (take_block n d) rest = (d1, rest1)" by (cases "fill_block (take_block n d) rest")
    define k where "k = min (length (last (fd_payloadBlocks (take_block n d))) - fd_currentPayloadBlockLength (take_block n d)) (length rest)"
    note fw = fill_block_wf [OF tb(1,3) k_def fb]
    have k: "0 < k" "k \<le> length rest" using True tb(4) by (auto simp: k_def)
    have le: "fd_payloadLength d + k \<le> n"
      using payload_of_length [OF fw(1)] fw(4) tb(5) by simp
    have "length rest1 < length rest" using k fw(3) by simp
    from less.hyps [OF this fw(1)] obtain d' where d': "fill_loop n d1 rest1 = Some (d', drop (n - fd_payloadLength d1) rest1)"
      "wf_blocks n d'" "payload_of d' = payload_of d1 @ take (n - fd_payloadLength d1) rest1" "same_frame d1 d'"
      by blast
    have split: "n - fd_payloadLength d = k + (n - fd_payloadLength d1)"
      using le fw(4) tb(5) by simp
    have "fill_loop n d rest = Some (d', drop (n - fd_payloadLength d) rest)"
      using True fb d'(1) fw(3) split by (subst fill_loop.simps) (simp add: add.commute)
    moreover have "payload_of d' = payload_of d @ take (n - fd_payloadLength d) rest"
      unfolding split take_add using d'(3) fw(2,3) tb(2) by simp
    moreover have "same_frame d d'" using same_frame_step [OF fb] d'(4) by (simp add: same_frame_def)
    ultimately show ?thesis using d'(2) by blast
  qed
qed

lemma assemble_concat:
  assumes "length (concat blocks) = n"
  shows "assemble n blocks = concat blocks"
proof -
  have "fst (foldl (\<lambda>(payload, offset) block. (u8_set payload block offset, offset + length block))
      (pre @ replicate (length (concat bs)) 0, length pre) bs) = pre @ concat bs" for pre bs
  proof (induction bs arbitrary: pre)
    case (Cons b bs)
    from Cons.IH [of "pre @ b"] show ?case by (simp add: u8_set_def)
  qed simp
  from this [of "[]" blocks] assms show ?thesis
    by (cases blocks) (auto simp: assemble_def)
qed

section \<open>Decoder states between bytes\<close>

definition wf_decoder :: "frame_decoder \<Rightarrow> bool" where
  "wf_decoder d \<longleftrightarrow> length (fd_header d) = 4 \<and> fd_headerLength d < 4 \<and>
     (case fd_expectedPayloadLength d of
        None \<Rightarrow> fd_payloadBlocks d = [] \<and> \<not> fd_hasCurrentBlock d \<and> fd_payloadLength d = 0
      | Some n \<Rightarrow> fd_headerLength d = 0 \<and> read_uint32 (fd_header d) = n \<and> n \<le> fd_maxFrameLength d \<and>
          fd_payloadLength d < n \<and> wf_blocks n d)"

text \<open>The bytes of the frame that is being read.\<close>

definition pending :: "frame_decoder \<Rightarrow> byte list" where
  "pending d = (case fd_expectedPayloadLength d of
     None \<Rightarrow> take (fd_headerLength d) (fd_header d)
   | Some _ \<Rightarrow> fd_header d @ payload_of d)"

lemma pending_partial:
  assumes "wf_decoder d"
  shows "split_frames (fd_maxFrameLength d) (pending d) = ([], Partial (pending d))"
proof (cases "fd_expectedPayloadLength d")
  case None
  then show ?thesis using assms by (simp add: wf_decoder_def pending_def split_frames_partial_short)
next
  case (Some n)
  then show ?thesis
    using assms payload_of_length [of n d]
    by (simp add: wf_decoder_def pending_def split_frames_partial_payload)
qed

text \<open>
  The outcome of one iteration of the outer loop: bytes moved into the decoder, a frame
  delivered, or a length over the limit.
\<close>

definition advances :: "(('c, 'x) on_frame) \<Rightarrow> frame_decoder \<Rightarrow> 'c \<Rightarrow> byte list \<Rightarrow> ('c, 'x) iteration \<Rightarrow> bool" where
  "advances onFrame d c rest it =
     (case it of
        Continue d' c' rest' \<Rightarrow>
          wf_decoder d' \<and> fd_maxFrameLength d' = fd_maxFrameLength d \<and> fd_state d' = fd_state d \<and>
          length rest' < length rest \<and>
          (c' = c \<and> pending d' @ rest' = pending d @ rest \<or>
           (\<exists>h f. c' = fst (onFrame c f) \<and> length h = 4 \<and> read_uint32 h = length f \<and>
              length f \<le> fd_maxFrameLength d \<and> pending d' = [] \<and> pending d @ rest = h @ f @ rest'))
      | Throw d' c' err \<Rightarrow>
          c' = c \<and> err = PushFrameError FrameTooLong \<and> d' = decoder_fail d' \<and> fd_maxFrameLength d' = fd_maxFrameLength d \<and>
          4 \<le> length (pending d @ rest) \<and> fd_maxFrameLength d < read_uint32 (pending d @ rest))"

lemma payload_advances:
  assumes wf: "wf_decoder d" and n: "fd_expectedPayloadLength d = Some n" and quiet: "\<And>c f. snd (onFrame c f) = None"
  shows "\<exists>d' c' rest'. payload_iteration onFrame n d c rest = Some (Continue d' c' rest') \<and>
     wf_decoder d' \<and> fd_maxFrameLength d' = fd_maxFrameLength d \<and> fd_state d' = fd_state d \<and>
     length rest' \<le> length rest \<and> (rest \<noteq> [] \<longrightarrow> length rest' < length rest) \<and>
     (c' = c \<and> pending d' @ rest' = pending d @ rest \<or>
      (\<exists>f. c' = fst (onFrame c f) \<and> read_uint32 (fd_header d) = length f \<and>
           pending d' = [] \<and> pending d @ rest = fd_header d @ f @ rest'))"
proof -
  have wb: "wf_blocks n d" and lt: "fd_payloadLength d < n"
    and hd: "read_uint32 (fd_header d) = n" "length (fd_header d) = 4" "fd_headerLength d = 0" "n \<le> fd_maxFrameLength d"
    using wf n by (simp_all add: wf_decoder_def)
  let ?k = "n - fd_payloadLength d"
  obtain d1 where fl: "fill_loop n d rest = Some (d1, drop ?k rest)" and wb1: "wf_blocks n d1"
    and pay: "payload_of d1 = payload_of d @ take ?k rest" and same: "same_frame d d1"
    using fill_loop_fills [OF wb] by blast
  note len = payload_of_length [OF wb] payload_of_length [OF wb1]
  show ?thesis
  proof (cases "fd_payloadLength d1 = n")
    case True
    have "concat (fd_payloadBlocks d1) = payload_of d1" and blk: "length (concat (fd_payloadBlocks d1)) = n"
      using wb1 True lt
      by (auto simp: wf_blocks_def payload_of_def length_concat_last concat_butlast_last [symmetric] split: if_splits)
    then have asm: "assemble n (fd_payloadBlocks d1) = payload_of d1" using assemble_concat by metis
    obtain c' where c': "onFrame c (payload_of d1) = (c', None)" by (metis prod.collapse quiet)
    have "payload_iteration onFrame n d c rest = Some (Continue (reset_payload None d1) c' (drop ?k rest))"
      using fl True by (simp add: payload_iteration_def asm call_back_def c')
    moreover have "wf_decoder (reset_payload None d1)"
      using same hd by (simp add: wf_decoder_def reset_payload_def same_frame_def)
    moreover have "pending (reset_payload None d1) = []"
      using same hd by (simp add: pending_def reset_payload_def same_frame_def)
    moreover have "pending d @ rest = fd_header d @ payload_of d1 @ drop ?k rest"
      by (simp add: pending_def n pay)
    moreover have "read_uint32 (fd_header d) = length (payload_of d1)" using hd(1) len True by simp
    moreover have "c' = fst (onFrame c (payload_of d1))" by (simp add: c')
    moreover have "fd_maxFrameLength (reset_payload None d1) = fd_maxFrameLength d"
      "fd_state (reset_payload None d1) = fd_state d"
      using same by (simp_all add: reset_payload_def same_frame_def)
    moreover have "length (drop ?k rest) \<le> length rest"
      "rest \<noteq> [] \<longrightarrow> length (drop ?k rest) < length rest"
      using lt by (simp, cases rest) simp_all
    ultimately show ?thesis by blast
  next
    case False
    have "length (take ?k rest) < ?k" using False len lt arg_cong [OF pay, of length] by (auto simp: min_def split: if_splits)
    then have short: "drop ?k rest = []" by simp
    then have "payload_iteration onFrame n d c rest = Some (Continue d1 c [])"
      using fl False by (simp add: payload_iteration_def)
    moreover have "wf_decoder d1"
      using same hd wb1 False len n by (simp add: wf_decoder_def same_frame_def)
    moreover have "pending d1 @ [] = pending d @ rest"
      using same n pay short by (simp add: pending_def same_frame_def)
    ultimately show ?thesis using same by (intro exI [of _ d1]) (auto simp: same_frame_def)
  qed
qed

lemma read_header_bytes:
  assumes wf: "wf_decoder d" and none: "fd_expectedPayloadLength d = None"
    and rh: "read_header d rest = (d1, rest1)" and k: "k = min (4 - fd_headerLength d) (length rest)"
  shows "take (fd_headerLength d1) (fd_header d1) @ rest1 = pending d @ rest"
    and "fd_headerLength d1 = fd_headerLength d + k" and "length (fd_header d1) = 4" and "rest1 = drop k rest"
    and "fd_maxFrameLength d1 = fd_maxFrameLength d" and "fd_state d1 = fd_state d"
    and "fd_expectedPayloadLength d1 = None" and "fd_payloadBlocks d1 = []" and "\<not> fd_hasCurrentBlock d1"
    and "fd_payloadLength d1 = 0"
proof -
  have h: "length (fd_header d) = 4" "fd_headerLength d < 4" using wf by (simp_all add: wf_decoder_def)
  show "take (fd_headerLength d1) (fd_header d1) @ rest1 = pending d @ rest"
    using rh none h by (auto simp: read_header_def Let_def FRAME_HEADER_LENGTH_def u8_set_def pending_def)
  show "fd_headerLength d1 = fd_headerLength d + k" "length (fd_header d1) = 4" "rest1 = drop k rest"
    using rh h by (auto simp: read_header_def Let_def FRAME_HEADER_LENGTH_def u8_set_def k)
  show "fd_maxFrameLength d1 = fd_maxFrameLength d" "fd_state d1 = fd_state d"
    "fd_expectedPayloadLength d1 = None" "fd_payloadBlocks d1 = []" "\<not> fd_hasCurrentBlock d1"
    "fd_payloadLength d1 = 0"
    using rh wf none by (auto simp: read_header_def Let_def wf_decoder_def)
qed

lemma decoder_fail_idem [simp]: "decoder_fail (decoder_fail d) = decoder_fail d"
  by (simp add: decoder_fail_def reset_payload_def)

lemma push_iteration_advances:
  assumes wf: "wf_decoder d" and rest: "rest \<noteq> []" and quiet: "\<And>c f. snd (onFrame c f) = None"
  shows "\<exists>it. push_iteration onFrame d c rest = Some it \<and> advances onFrame d c rest it"
proof (cases "fd_expectedPayloadLength d")
  case (Some n)
  have "read_uint32 (fd_header d) \<le> fd_maxFrameLength d" "length (fd_header d) = 4"
    using wf Some by (simp_all add: wf_decoder_def)
  moreover obtain d' c' rest' where it: "payload_iteration onFrame n d c rest = Some (Continue d' c' rest')"
    and "wf_decoder d'" "fd_maxFrameLength d' = fd_maxFrameLength d" "fd_state d' = fd_state d"
      "length rest' < length rest"
    and "c' = c \<and> pending d' @ rest' = pending d @ rest \<or>
      (\<exists>f. c' = fst (onFrame c f) \<and> read_uint32 (fd_header d) = length f \<and>
           pending d' = [] \<and> pending d @ rest = fd_header d @ f @ rest')"
    using payload_advances [of d n onFrame c rest, OF wf Some quiet] rest by blast
  ultimately have "advances onFrame d c rest (Continue d' c' rest')"
    unfolding advances_def iteration.case by metis
  with it show ?thesis by (simp add: push_iteration_def Some)
next
  case None
  obtain d1 rest1 where rh: "read_header d rest = (d1, rest1)" by (cases "read_header d rest")
  define k where "k = min (4 - fd_headerLength d) (length rest)"
  note r = read_header_bytes [OF wf None rh k_def]
  have k: "0 < k" "k \<le> length rest" using rest wf by (auto simp: k_def wf_decoder_def)
  have less: "length rest1 < length rest" using k r(4) by simp
  show ?thesis
  proof (cases "fd_headerLength d1 < 4")
    case True
    have "wf_decoder d1" using True r by (simp add: wf_decoder_def)
    moreover have "pending d1 = take (fd_headerLength d1) (fd_header d1)" using r by (simp add: pending_def)
    ultimately show ?thesis
      using r(1,5,6) less True None
      by (simp add: push_iteration_def rh FRAME_HEADER_LENGTH_def advances_def)
  next
    case False
    then have four: "fd_headerLength d1 = 4" using r(2) wf by (auto simp: k_def wf_decoder_def min_def split: if_splits)
    have bytes: "pending d @ rest = fd_header d1 @ rest1" using r(1,3) four by simp
    define n where "n = read_uint32 (fd_header d1)"
    define d2 where "d2 = d1\<lparr>fd_headerLength := 0\<rparr>"
    have d2: "fd_maxFrameLength d2 = fd_maxFrameLength d" "fd_state d2 = fd_state d" "fd_header d2 = fd_header d1"
      "fd_headerLength d2 = 0" "fd_expectedPayloadLength d2 = None"
      using r by (simp_all add: d2_def)
    have it: "push_iteration onFrame d c rest =
        (if n > fd_maxFrameLength d then Some (Throw (decoder_fail d2) c (PushFrameError FrameTooLong))
         else if n = 0 then Some (call_back onFrame [] d2 c rest1)
         else payload_iteration onFrame n (reset_payload (Some n) d2) c rest1)"
      using False None r(5) by (simp add: push_iteration_def rh FRAME_HEADER_LENGTH_def n_def d2_def Let_def)
    consider "n > fd_maxFrameLength d" | "n \<le> fd_maxFrameLength d" "n = 0" | "n \<le> fd_maxFrameLength d" "0 < n" by linarith
    then show ?thesis
    proof cases
      case 1
      then show ?thesis
        using r(3) d2(1)
        by (simp add: it advances_def bytes read_uint32_append n_def [symmetric]) (simp add: decoder_fail_def reset_payload_def)
    next
      case 2
      obtain c' where c': "onFrame c [] = (c', None)" by (metis prod.collapse quiet)
      have "wf_decoder d2" "pending d2 = []" using r d2 by (simp_all add: wf_decoder_def pending_def d2_def)
      moreover have "c' = fst (onFrame c [])" "pending d @ rest = fd_header d1 @ [] @ rest1"
        "read_uint32 (fd_header d1) = length ([] :: byte list)" "length ([] :: byte list) \<le> fd_maxFrameLength d"
        using c' bytes 2 by (simp_all add: n_def)
      ultimately have "advances onFrame d c rest (Continue d2 c' rest1)"
        using r(3) d2(1,2) less unfolding advances_def iteration.case by blast
      with 2 c' show ?thesis by (simp add: it call_back_def)
    next
      case 3
      let ?d = "reset_payload (Some n) d2"
      have wf2: "wf_decoder ?d" and pend: "pending ?d = fd_header d1"
        using 3 r(3) d2 by (simp_all add: wf_decoder_def pending_def reset_payload_def n_def wf_blocks_def payload_of_def)
      have same: "fd_header ?d = fd_header d1" "fd_maxFrameLength ?d = fd_maxFrameLength d" "fd_state ?d = fd_state d"
        "fd_expectedPayloadLength ?d = Some n"
        using d2 by (simp_all add: reset_payload_def)
      from payload_advances [of ?d n onFrame c rest1, OF wf2 same(4) quiet]
      obtain d' c' rest' where p: "payload_iteration onFrame n ?d c rest1 = Some (Continue d' c' rest')"
        and d': "wf_decoder d'" "fd_maxFrameLength d' = fd_maxFrameLength ?d" "fd_state d' = fd_state ?d"
        and len: "length rest' \<le> length rest1"
        and out: "c' = c \<and> pending d' @ rest' = pending ?d @ rest1 \<or>
          (\<exists>f. c' = fst (onFrame c f) \<and> read_uint32 (fd_header ?d) = length f \<and>
               pending d' = [] \<and> pending ?d @ rest1 = fd_header ?d @ f @ rest')"
        by blast
      have "length rest' < length rest" using len less by simp
      moreover have "c' = c \<and> pending d' @ rest' = pending d @ rest \<or>
          (\<exists>f. c' = fst (onFrame c f) \<and> read_uint32 (fd_header d1) = length f \<and>
               length f \<le> fd_maxFrameLength d \<and> pending d' = [] \<and> pending d @ rest = fd_header d1 @ f @ rest')"
        using out [unfolded same pend] 3(1) [unfolded n_def] unfolding bytes by metis
      ultimately have "advances onFrame d c rest (Continue d' c' rest')"
        using d' r(3) unfolding same advances_def iteration.case by blast
      with p 3 show ?thesis by (simp add: it)
    qed
  qed
qed

section \<open>The decoder implements the byte stream\<close>

definition deliver :: "('c, 'x) on_frame \<Rightarrow> 'c \<Rightarrow> byte list list \<Rightarrow> 'c" where
  "deliver onFrame c fs = foldl (\<lambda>c f. fst (onFrame c f)) c fs"

lemma push_loop_splits:
  assumes "wf_decoder d" and quiet: "\<And>c f. snd (onFrame c f) = None"
    and "split_frames (fd_maxFrameLength d) (pending d @ rest) = (fs, e)"
  shows "\<exists>d' err. push_loop onFrame d c rest = Some (d', deliver onFrame c fs, err) \<and>
     fd_maxFrameLength d' = fd_maxFrameLength d \<and>
     (case e of
        Partial left \<Rightarrow> err = None \<and> wf_decoder d' \<and> pending d' = left \<and> fd_state d' = fd_state d
      | TooLong \<Rightarrow> err = Some (PushFrameError FrameTooLong) \<and> fd_state d' = DecFailed)"
  using assms(1,3)
proof (induction "length rest" arbitrary: d c rest fs rule: less_induct)
  case less
  show ?case
  proof (cases "rest = []")
    case True
    then show ?thesis
      using less.prems pending_partial [OF less.prems(1)] by (subst push_loop.simps) (auto simp: deliver_def)
  next
    case False
    obtain it where it: "push_iteration onFrame d c rest = Some it" and adv: "advances onFrame d c rest it"
      using push_iteration_advances [of d rest onFrame c, OF less.prems(1) False quiet] by blast
    show ?thesis
    proof (cases it)
      case (Throw d' c' err)
      with adv have "fs = []" "e = TooLong" and "d' = decoder_fail d'"
        using less.prems(2) by (auto simp: advances_def split_frames_too_long)
      moreover from \<open>d' = decoder_fail d'\<close> have "fd_state d' = DecFailed"
        by (metis decoder_fail_def frame_decoder.select_convs(9) frame_decoder.surjective
            frame_decoder.update_convs reset_payload_def)
      ultimately show ?thesis
        using Throw it False adv by (subst push_loop.simps) (simp add: advances_def deliver_def)
    next
      case (Continue d' c' rest')
      note a = adv [unfolded Continue advances_def iteration.case]
      have loop: "push_loop onFrame d c rest = push_loop onFrame d' c' rest'"
        using it Continue False by (subst push_loop.simps) simp
      obtain fs' where fs': "split_frames (fd_maxFrameLength d') (pending d' @ rest') = (fs', e)"
        and c: "deliver onFrame c fs = deliver onFrame c' fs'"
      proof (cases "c' = c \<and> pending d' @ rest' = pending d @ rest")
        case True
        with a less.prems(2) that [of fs] show thesis by simp
      next
        case ne: False
        with a obtain h f where "c' = fst (onFrame c f)" "length h = 4" "read_uint32 h = length f"
          "length f \<le> fd_maxFrameLength d" "pending d' = []" "pending d @ rest = h @ f @ rest'"
          "fd_maxFrameLength d' = fd_maxFrameLength d" by blast
        then show thesis
          using less.prems(2) that split_frames_frame [of h f "fd_maxFrameLength d" rest']
          by (auto simp: deliver_def split: prod.splits)
      qed
      have "fd_state d' = fd_state d" "fd_maxFrameLength d' = fd_maxFrameLength d" "wf_decoder d'"
        "length rest' < length rest" using a by auto
      with less.hyps [of rest' d' fs' c'] fs' show ?thesis unfolding loop c by metis
    qed
  qed
qed

lemma collect_frame_quiet: "snd (collect_frame c f) = None"
  by (simp add: collect_frame_def)

lemma deliver_collect: "deliver collect_frame fs gs = fs @ gs"
  by (induction gs arbitrary: fs) (auto simp: deliver_def collect_frame_def)

lemma push_splits:
  assumes "wf_decoder d" and "fd_state d = DecOpen"
    and "split_frames (fd_maxFrameLength d) (pending d @ chunk) = (fs, e)"
  shows "\<exists>d' r. push d chunk = Some (d', r) \<and> fd_maxFrameLength d' = fd_maxFrameLength d \<and>
     (case e of
        Partial left \<Rightarrow> r = Inr fs \<and> wf_decoder d' \<and> pending d' = left \<and> fd_state d' = DecOpen
      | TooLong \<Rightarrow> r = Inl (PushFrameError FrameTooLong) \<and> fd_state d' = DecFailed)"
  using push_loop_splits [of d collect_frame chunk fs e "[]", OF assms(1) collect_frame_quiet assms(3)] assms(2)
  by (auto simp: push_def pushEach_def deliver_collect split: stream_end.splits)

lemma new_decoder_wf:
  "new_decoder options = Inr d \<Longrightarrow>
   wf_decoder d \<and> pending d = [] \<and> fd_state d = DecOpen \<and> resolveMaxFrameLength options = Inr (fd_maxFrameLength d)"
  by (auto simp: new_decoder_def wf_decoder_def pending_def FRAME_HEADER_LENGTH_def)

text \<open>A stream cut after a whole number of frames and a partial one.\<close>

lemma split_frames_append:
  assumes "split_frames maxLen xs = (fs, Partial left)"
  shows "split_frames maxLen (xs @ ys) = (case split_frames maxLen (left @ ys) of (gs, e) \<Rightarrow> (fs @ gs, e))"
  using assms
proof (induction maxLen xs arbitrary: fs left rule: split_frames.induct)
  case (1 maxLen bs)
  let ?n = "read_uint32 bs"
  show ?case
  proof (cases "4 \<le> length bs \<and> ?n \<le> maxLen \<and> 4 + ?n \<le> length bs")
    case True
    obtain fs' where rec: "split_frames maxLen (drop (4 + ?n) bs) = (fs', Partial left)"
      and fs: "fs = take ?n (drop 4 bs) # fs'"
      using 1(2) True by (subst (asm) split_frames.simps) (auto simp: Let_def split: prod.splits)
    have eq: "bs @ ys = take 4 bs @ take ?n (drop 4 bs) @ drop (4 + ?n) bs @ ys"
      by (metis add.commute append.assoc append_take_drop_id drop_drop)
    have "read_uint32 (take 4 bs) = ?n"
      using read_uint32_append [of "take 4 bs" "drop 4 bs"] True by simp
    moreover have "length (take ?n (drop 4 bs)) = ?n" using True by auto
    ultimately have "split_frames maxLen (bs @ ys) =
        (case split_frames maxLen (drop (4 + ?n) bs @ ys) of (gs, e) \<Rightarrow> (take ?n (drop 4 bs) # gs, e))"
      using split_frames_frame [of "take 4 bs" "take ?n (drop 4 bs)" maxLen "drop (4 + ?n) bs @ ys"] True
      unfolding eq by simp
    then show ?thesis using 1(1) [of ?n] True rec fs by (auto split: prod.splits)
  next
    case False
    then have "fs = [] \<and> left = bs"
      using 1(2) by (subst (asm) split_frames.simps) (auto simp: Let_def split: if_splits)
    then show ?thesis by (simp split: prod.splits)
  qed
qed

lemma split_frames_too_long_append:
  assumes "split_frames maxLen xs = (fs, TooLong)"
  shows "split_frames maxLen (xs @ ys) = (fs, TooLong)"
  using assms
proof (induction maxLen xs arbitrary: fs rule: split_frames.induct)
  case (1 maxLen bs)
  let ?n = "read_uint32 bs"
  have four: "4 \<le> length bs" using 1(2) by (subst (asm) split_frames.simps) (auto split: if_splits)
  then have n: "read_uint32 (bs @ ys) = ?n" by (rule read_uint32_append)
  show ?case
  proof (cases "maxLen < ?n")
    case True
    then show ?thesis using four 1(2) n by (simp add: split_frames_too_long)
  next
    case False
    then have len: "4 + ?n \<le> length bs"
      using 1(2) four by (subst (asm) split_frames.simps) (auto simp: Let_def split: if_splits)
    then obtain fs' where rec: "split_frames maxLen (drop (4 + ?n) bs) = (fs', TooLong)"
      and fs: "fs = take ?n (drop 4 bs) # fs'"
      using 1(2) False four by (subst (asm) split_frames.simps) (auto simp: Let_def split: prod.splits)
    show ?thesis
      using 1(1) [of ?n] four False len rec fs n by (subst split_frames.simps) (simp add: Let_def)
  qed
qed

lemma split_encoded:
  assumes "\<forall>p \<in> set ps. length p \<le> maxLen" and "maxLen \<le> MAX_UINT32"
  shows "split_frames maxLen (concat (map (\<lambda>p. uint32_bytes (length p) @ p) ps) @ rest)
       = (case split_frames maxLen rest of (fs, e) \<Rightarrow> (ps @ fs, e))"
  using assms(1)
proof (induction ps)
  case Nil
  then show ?case by (simp split: prod.splits)
next
  case (Cons p ps)
  have "read_uint32 (uint32_bytes (length p)) = length p"
    using read_uint32_bytes [of "length p" "[]"] Cons.prems assms(2) by (simp add: MAX_UINT32_def)
  then show ?case
    using Cons by (simp add: split_frames_frame split: prod.splits)
qed

text \<open>Pushing one chunk after the other, collecting the frames; a chunk that throws ends it.\<close>

fun push_all :: "frame_decoder \<Rightarrow> byte list list \<Rightarrow> (frame_decoder \<times> byte list list \<times> unit push_error option) option" where
  "push_all d [] = Some (d, [], None)"
| "push_all d (chunk # chunks) =
     (case push d chunk of
        None \<Rightarrow> None
      | Some (d', Inl e) \<Rightarrow> Some (d', [], Some e)
      | Some (d', Inr fs) \<Rightarrow> map_option (\<lambda>(d'', gs, e). (d'', fs @ gs, e)) (push_all d' chunks))"

lemma push_all_splits:
  assumes "wf_decoder d" and "fd_state d = DecOpen"
    and "split_frames (fd_maxFrameLength d) (pending d @ concat chunks) = (fs, Partial left)"
  shows "\<exists>d'. push_all d chunks = Some (d', fs, None) \<and> wf_decoder d' \<and> fd_state d' = DecOpen \<and> pending d' = left \<and>
    fd_maxFrameLength d' = fd_maxFrameLength d"
  using assms
proof (induction chunks arbitrary: d fs)
  case Nil
  then show ?case using pending_partial [OF Nil.prems(1)] by simp
next
  case (Cons chunk chunks)
  obtain gs e where split: "split_frames (fd_maxFrameLength d) (pending d @ chunk) = (gs, e)" by fastforce
  show ?case
  proof (cases e)
    case TooLong
    then show ?thesis using split_frames_too_long_append [OF split [unfolded TooLong]] Cons.prems(3) by simp
  next
    case (Partial l)
    note sp = split [unfolded Partial]
    obtain d1 where d1: "push d chunk = Some (d1, Inr gs)" "wf_decoder d1" "pending d1 = l" "fd_state d1 = DecOpen"
      "fd_maxFrameLength d1 = fd_maxFrameLength d"
      using push_splits [OF Cons.prems(1,2) sp] by auto
    obtain hs where "split_frames (fd_maxFrameLength d1) (pending d1 @ concat chunks) = (hs, Partial left)" "fs = gs @ hs"
      using split_frames_append [OF sp, of "concat chunks"] Cons.prems(3) d1(3,5) by (auto split: prod.splits)
    with Cons.IH [OF d1(2,4)] d1(1,5) show ?thesis by fastforce
  qed
qed

lemma frames_decoded:
  assumes "new_decoder options = Inr d" and "\<forall>p \<in> set ps. length p \<le> fd_maxFrameLength d"
    and "concat chunks = concat (map (\<lambda>p. case encodeFrame p of Inr f \<Rightarrow> f | Inl _ \<Rightarrow> []) ps)"
  shows "\<exists>d'. push_all d chunks = Some (d', ps, None) \<and> snd (decoder_end d') = Inr ()"
proof -
  note new = new_decoder_wf [OF assms(1)]
  have lim: "fd_maxFrameLength d \<le> MAX_UINT32"
    using new by (auto simp: resolveMaxFrameLength_def Let_def split: option.splits if_splits)
  have eq: "map (\<lambda>p. case encodeFrame p of Inr f \<Rightarrow> f | Inl _ \<Rightarrow> []) ps = map (\<lambda>p. uint32_bytes (length p) @ p) ps"
    using assms(2) lim by (auto simp: encodeFrame_eq)
  have "split_frames (fd_maxFrameLength d) (pending d @ concat chunks) = (ps, Partial [])"
    using split_encoded [OF assms(2) lim, of "[]"] new unfolding assms(3) eq by (simp add: split_frames_partial_short)
  from push_all_splits [OF _ _ this] new obtain d' where
    d': "push_all d chunks = Some (d', ps, None)" "wf_decoder d'" "fd_state d' = DecOpen" "pending d' = []" by blast
  have "fd_headerLength d' = 0 \<and> fd_expectedPayloadLength d' = None"
    using d'(2,4) by (auto simp: wf_decoder_def pending_def split: option.splits)
  then have "snd (decoder_end d') = Inr ()" using d'(3) by (simp add: decoder_end_def)
  with d'(1) show ?thesis by blast
qed

section \<open>Properties of framing\<close>

text \<open>C4: The bytes of any sequence of frames within the limit, cut into chunks in any way, come out of a fresh decoder as
  exactly the payloads, in order, with nothing left over; ending the decoder then succeeds.\<close>

theorem frames_survive_chunking:
  assumes "new_decoder options = Inr d" and "\<forall>p \<in> set ps. length p \<le> fd_maxFrameLength d"
    and "concat chunks = concat (map (\<lambda>p. case encodeFrame p of Inr f \<Rightarrow> f | Inl _ \<Rightarrow> []) ps)"
  shows "\<exists>d'. push_all d chunks = Some (d', ps, None) \<and> snd (decoder_end d') = Inr ()"
  by (rule frames_decoded [OF assms])

lemma sample_decoder: "\<exists>d. new_decoder None = Inr d \<and> fd_maxFrameLength d = DEFAULT_MAX_FRAME_LENGTH"
  by (simp add: new_decoder_def resolveMaxFrameLength_def js_is_safe_integer_def max_safe_integer_def
      DEFAULT_MAX_FRAME_LENGTH_def MAX_UINT32_def Let_def)

theorem frames_survive_chunking_witness:
  "\<exists>d d'. new_decoder None = Inr d \<and>
     push_all d [[0, 0], [0, 2, 7], [9, 0, 0], [0, 0]] = Some (d', [[7, 9], []], None) \<and> snd (decoder_end d') = Inr ()"
proof -
  obtain d where d: "new_decoder None = Inr d" "fd_maxFrameLength d = DEFAULT_MAX_FRAME_LENGTH" using sample_decoder by blast
  have "\<exists>d'. push_all d [[0, 0], [0, 2, 7], [9, 0, 0], [0, 0]] = Some (d', [[7, 9], []], None) \<and> snd (decoder_end d') = Inr ()"
    by (rule frames_survive_chunking [OF d(1)])
      (simp_all add: d(2) DEFAULT_MAX_FRAME_LENGTH_def encodeFrame_eq MAX_UINT32_def uint32_bytes_def u8_def)
  with d(1) show ?thesis by blast
qed

text \<open>One push into a well-formed open decoder returns exactly the complete frames of the pending bytes followed by the
  chunk, and keeps the incomplete rest; a frame over the limit fails the decoder.  The loops of the push end.\<close>

theorem push_refines_stream:
  assumes "wf_decoder d" and "fd_state d = DecOpen"
    and "split_frames (fd_maxFrameLength d) (pending d @ chunk) = (fs, e)"
  shows "\<exists>d' r. push d chunk = Some (d', r) \<and> fd_maxFrameLength d' = fd_maxFrameLength d \<and>
     (case e of
        Partial left \<Rightarrow> r = Inr fs \<and> wf_decoder d' \<and> pending d' = left \<and> fd_state d' = DecOpen
      | TooLong \<Rightarrow> r = Inl (PushFrameError FrameTooLong) \<and> fd_state d' = DecFailed)"
  by (rule push_splits [OF assms])

theorem push_refines_stream_witness:
  "\<exists>d d' r. new_decoder None = Inr d \<and> push d [255, 255, 255, 255, 1] = Some (d', r) \<and>
     r = Inl (PushFrameError FrameTooLong) \<and> fd_state d' = DecFailed"
proof -
  obtain d where d: "new_decoder None = Inr d" "fd_maxFrameLength d = DEFAULT_MAX_FRAME_LENGTH" using sample_decoder by blast
  note new = new_decoder_wf [OF d(1)]
  have "split_frames (fd_maxFrameLength d) (pending d @ [255, 255, 255, 255, 1]) = ([], TooLong)"
    using new by (simp add: split_frames_too_long read_uint32_def d(2) DEFAULT_MAX_FRAME_LENGTH_def)
  from push_refines_stream [OF _ _ this] new d(1) show ?thesis by auto
qed

text \<open>A decoder that has failed or ended refuses every further push and end and stays as it is.\<close>

theorem closed_decoder_refuses:
  assumes "fd_state d \<noteq> DecOpen"
  shows "\<exists>e \<in> {DecoderEnded, DecoderFailed}.
    push d chunk = Some (d, Inl (PushFrameError e)) \<and> decoder_end d = (d, Inl e)"
  using assms by (cases "fd_state d") (simp_all add: push_def pushEach_def decoder_end_def)

definition sample_closed :: frame_decoder where
  "sample_closed = \<lparr>fd_header = [0, 0, 0, 0], fd_headerLength = 0, fd_maxFrameLength = 10, fd_payloadBlocks = [],
     fd_hasCurrentBlock = False, fd_currentPayloadBlockLength = 0, fd_expectedPayloadLength = None, fd_payloadLength = 0,
     fd_state = DecEnded\<rparr>"

theorem closed_decoder_refuses_witness:
  "\<exists>e \<in> {DecoderEnded, DecoderFailed}.
    push sample_closed [1] = Some (sample_closed, Inl (PushFrameError e)) \<and> decoder_end sample_closed = (sample_closed, Inl e)"
  by (rule closed_decoder_refuses) (simp add: sample_closed_def)

text \<open>Ending an open well-formed decoder succeeds exactly when no byte of an unfinished frame is pending; otherwise the
  truncation is reported and the decoder fails.\<close>

theorem end_detects_truncation:
  assumes "wf_decoder d" and "fd_state d = DecOpen"
  shows "snd (decoder_end d) = (if pending d = [] then Inr () else Inl TruncatedFrame)"
proof -
  have "pending d = [] \<longleftrightarrow> fd_headerLength d = 0 \<and> fd_expectedPayloadLength d = None"
    using assms(1) by (auto simp: wf_decoder_def pending_def split: option.splits)
  then show ?thesis using assms(2) by (simp add: decoder_end_def)
qed

definition sample_partial :: frame_decoder where
  "sample_partial = sample_closed\<lparr>fd_state := DecOpen, fd_headerLength := 1\<rparr>"

theorem end_detects_truncation_witness:
  "snd (decoder_end sample_partial) = (if pending sample_partial = [] then Inr () else Inl TruncatedFrame)"
  by (rule end_detects_truncation) (simp_all add: sample_partial_def sample_closed_def wf_decoder_def)

text \<open>An encoded frame is its payload after the big-endian length, and it is accepted as one complete frame by every
  limit that is at least the payload's length.\<close>

theorem encoded_frame_complete:
  assumes "encodeFrame payload = Inr frame" and "resolveMaxFrameLength options = Inr n"
  shows "drop 4 frame = payload \<and> assertCompleteFrame options frame = (if length payload \<le> n then Inr () else Inl FrameTooLong)"
proof -
  have len: "length payload \<le> MAX_UINT32" using assms(1) by (auto simp: encodeFrame_def split: if_splits)
  then have f: "frame = uint32_bytes (length payload) @ payload" using assms(1) by (simp add: encodeFrame_eq)
  have "read_uint32 frame = length payload" using len by (simp add: f read_uint32_bytes MAX_UINT32_def)
  then show ?thesis using assms(2) by (simp add: f assertCompleteFrame_def FRAME_HEADER_LENGTH_def)
qed

theorem encoded_frame_complete_witness:
  "drop 4 [0, 0, 0, 1, 5 :: byte] = [5] \<and>
   assertCompleteFrame (Some (JsInt 3)) [0, 0, 0, 1, 5] = (if length [5 :: byte] \<le> 3 then Inr () else Inl FrameTooLong)"
  by (rule encoded_frame_complete)
    (simp_all add: encodeFrame_eq MAX_UINT32_def uint32_bytes_def u8_def resolveMaxFrameLength_def js_is_safe_integer_def
      max_safe_integer_def)

end
