(* ===== verification/Utf8.thy ===== *)
theory Utf8
  imports Prelude
begin

text \<open>
  Strings as \<^verbatim>\<open>TextEncoder\<close> and \<^verbatim>\<open>TextDecoder("utf-8", { fatal: true, ignoreBOM: true })\<close> of
  \<^verbatim>\<open>packages/protocol/src/cbor/options.ts\<close> see them: a JavaScript string is a list of UTF-16 code
  units.  The encoder replaces a lone surrogate by U+FFFD; the decoder rejects every byte
  sequence that is not the UTF-8 form of Unicode scalar values.
\<close>

type_synonym code_unit = "16 word"
type_synonym js_string = "code_unit list"

section \<open>Code units and scalar values\<close>

definition is_high :: "code_unit \<Rightarrow> bool" where
  "is_high u = (0xD800 \<le> unat u \<and> unat u < 0xDC00)"

definition is_low :: "code_unit \<Rightarrow> bool" where
  "is_low u = (0xDC00 \<le> unat u \<and> unat u < 0xE000)"

definition is_scalar :: "nat \<Rightarrow> bool" where
  "is_scalar s = (s < 0xD800 \<or> (0xE000 \<le> s \<and> s < 0x110000))"

definition join_surrogates :: "code_unit \<Rightarrow> code_unit \<Rightarrow> nat" where
  "join_surrogates u v = 0x10000 + (unat u - 0xD800) * 0x400 + (unat v - 0xDC00)"

fun scalars :: "js_string \<Rightarrow> nat list" where
  "scalars [] = []"
| "scalars [u] = [if is_high u \<or> is_low u then 0xFFFD else unat u]"
| "scalars (u # v # us) =
     (if is_high u \<and> is_low v then join_surrogates u v # scalars us
      else (if is_high u \<or> is_low u then 0xFFFD else unat u) # scalars (v # us))"

definition scalar_units :: "nat \<Rightarrow> js_string" where
  "scalar_units s =
     (if s < 0x10000 then [word_of_nat s]
      else [word_of_nat (0xD800 + (s - 0x10000) div 0x400), word_of_nat (0xDC00 + (s - 0x10000) mod 0x400)])"

text \<open>A string without lone surrogates.\<close>

fun well_formed :: "js_string \<Rightarrow> bool" where
  "well_formed [] = True"
| "well_formed [u] = (\<not> is_high u \<and> \<not> is_low u)"
| "well_formed (u # v # us) =
     (if is_high u \<and> is_low v then well_formed us else \<not> is_high u \<and> \<not> is_low u \<and> well_formed (v # us))"

section \<open>UTF-8\<close>

definition scalar_bytes :: "nat \<Rightarrow> byte list" where
  "scalar_bytes s =
     map u8
       (if s < 0x80 then [s]
        else if s < 0x800 then [0xC0 + s div 0x40, 0x80 + s mod 0x40]
        else if s < 0x10000 then [0xE0 + s div 0x1000, 0x80 + s div 0x40 mod 0x40, 0x80 + s mod 0x40]
        else [0xF0 + s div 0x40000, 0x80 + s div 0x1000 mod 0x40, 0x80 + s div 0x40 mod 0x40, 0x80 + s mod 0x40])"

definition utf8_encode :: "js_string \<Rightarrow> byte list" where
  "utf8_encode us = concat (map scalar_bytes (scalars us))"

definition between :: "nat \<Rightarrow> nat \<Rightarrow> byte \<Rightarrow> bool" where
  "between lo hi b = (lo \<le> unat b \<and> unat b \<le> hi)"

definition tail_bits :: "byte \<Rightarrow> nat" where
  "tail_bits b = unat b - 0x80"

text \<open>
  One scalar value from the front of the input, with the ranges the decoder allows for the
  second byte: after E0 from A0, after ED up to 9F, after F0 from 90, after F4 up to 8F.
\<close>

fun decode_scalar :: "byte list \<Rightarrow> (nat \<times> byte list) option" where
  "decode_scalar [] = None"
| "decode_scalar (a # bs) =
     (if between 0x00 0x7F a then Some (unat a, bs)
      else if between 0xC2 0xDF a
      then (case bs of
              b # r \<Rightarrow> if between 0x80 0xBF b then Some ((unat a - 0xC0) * 0x40 + tail_bits b, r) else None
            | _ \<Rightarrow> None)
      else if between 0xE0 0xEF a
      then (case bs of
              b # c # r \<Rightarrow>
                if between (if unat a = 0xE0 then 0xA0 else 0x80) (if unat a = 0xED then 0x9F else 0xBF) b
                   \<and> between 0x80 0xBF c
                then Some ((unat a - 0xE0) * 0x1000 + tail_bits b * 0x40 + tail_bits c, r) else None
            | _ \<Rightarrow> None)
      else if between 0xF0 0xF4 a
      then (case bs of
              b # c # d # r \<Rightarrow>
                if between (if unat a = 0xF0 then 0x90 else 0x80) (if unat a = 0xF4 then 0x8F else 0xBF) b
                   \<and> between 0x80 0xBF c \<and> between 0x80 0xBF d
                then Some ((unat a - 0xF0) * 0x40000 + tail_bits b * 0x1000 + tail_bits c * 0x40 + tail_bits d, r)
                else None
            | _ \<Rightarrow> None)
      else None)"

lemma decode_scalar_shorter: "decode_scalar bs = Some (s, rest) \<Longrightarrow> length rest < length bs"
  by (cases bs) (auto split: if_splits list.splits)

function utf8_scalars :: "byte list \<Rightarrow> nat list option" where
  "utf8_scalars bs =
     (if bs = [] then Some []
      else (case decode_scalar bs of
              None \<Rightarrow> None
            | Some (s, rest) \<Rightarrow> map_option (Cons s) (utf8_scalars rest)))"
  by pat_completeness auto
termination by (relation "measure length") (auto dest: decode_scalar_shorter)

declare utf8_scalars.simps [simp del]

definition utf8_decode :: "byte list \<Rightarrow> js_string option" where
  "utf8_decode bs = map_option (\<lambda>ss. concat (map scalar_units ss)) (utf8_scalars bs)"

text \<open>A string of the session stands for its UTF-8 bytes; these are the code units JavaScript sees.\<close>

definition text_units :: "string \<Rightarrow> js_string" where
  "text_units s =
     (case utf8_decode (map (\<lambda>c. word_of_nat (of_char c)) s) of
        Some us \<Rightarrow> us
      | None \<Rightarrow> map (\<lambda>c. word_of_nat (of_char c)) s)"

section \<open>Round trip\<close>

lemma unat_unit_less: "unat (u :: 16 word) < 65536"
  using unsigned_less [of u] by simp

lemma unat_unit: "n < 65536 \<Longrightarrow> unat (word_of_nat n :: 16 word) = n"
  by (simp add: unat_of_nat)

lemma join64:
  "s = q1 * 64 + r0 \<Longrightarrow> q1 = q2 * 64 + r1 \<Longrightarrow> q2 * 4096 + r1 * 64 + r0 = (s :: nat)"
  "s = q1 * 64 + r0 \<Longrightarrow> q1 = q2 * 64 + r1 \<Longrightarrow> q2 = q3 * 64 + r2 \<Longrightarrow>
   q3 * 262144 + r2 * 4096 + r1 * 64 + r0 = (s :: nat)"
  by simp_all

lemma digits3:
  fixes s :: nat
  obtains a b c where "s div 4096 = a" "s div 64 mod 64 = b" "s mod 64 = c" "s = a * 4096 + b * 64 + c" "b < 64" "c < 64"
proof -
  have "s div 4096 = s div 64 div 64" by (simp add: div_mult2_eq [symmetric])
  with join64(1) [OF div_mult_mod_eq [symmetric] div_mult_mod_eq [symmetric]]
  have "s div 4096 * 4096 + s div 64 mod 64 * 64 + s mod 64 = s" by metis
  with that [OF refl refl refl] show thesis by simp
qed

lemma digits4:
  fixes s :: nat
  obtains a b c d where "s div 262144 = a" "s div 4096 mod 64 = b" "s div 64 mod 64 = c" "s mod 64 = d"
    "s = a * 262144 + b * 4096 + c * 64 + d" "b < 64" "c < 64" "d < 64"
proof -
  have "s div 4096 = s div 64 div 64" "s div 262144 = s div 64 div 64 div 64" by (simp_all add: div_mult2_eq [symmetric])
  with join64(2) [OF div_mult_mod_eq [symmetric] div_mult_mod_eq [symmetric] div_mult_mod_eq [symmetric]]
  have "s div 262144 * 262144 + s div 4096 mod 64 * 4096 + s div 64 mod 64 * 64 + s mod 64 = s" by metis
  with that [OF refl refl refl refl] show thesis by simp
qed

lemma decode_scalar_bytes:
  assumes "is_scalar s"
  shows "decode_scalar (scalar_bytes s @ rest) = Some (s, rest)"
proof -
  consider "s < 0x80" | "0x80 \<le> s" "s < 0x800" | "0x800 \<le> s" "s < 0x10000" | "0x10000 \<le> s" "s < 0x110000"
    using assms unfolding is_scalar_def by linarith
  then show ?thesis
  proof cases
    case 1
    then show ?thesis by (simp add: scalar_bytes_def between_def)
  next
    case 2
    then have "s div 64 < 32" "2 \<le> s div 64" "s mod 64 < 64" by auto
    with 2 show ?thesis by (simp add: scalar_bytes_def between_def tail_bits_def)
  next
    case 3
    obtain a b c where d: "s div 4096 = a" "s div 64 mod 64 = b" "s mod 64 = c"
      and s: "s = a * 4096 + b * 64 + c" "b < 64" "c < 64" by (rule digits3)
    have "a < 16" "a = 0 \<Longrightarrow> 32 \<le> b" using 3 s by auto
    moreover have "a = 13 \<Longrightarrow> b < 32" using assms s by (auto simp: is_scalar_def)
    moreover have "scalar_bytes s = [u8 (0xE0 + a), u8 (0x80 + b), u8 (0x80 + c)]"
      using 3 by (simp add: scalar_bytes_def d)
    ultimately have "decode_scalar (scalar_bytes s @ rest) = Some (a * 4096 + b * 64 + c, rest)"
      using s(2,3) by (auto simp: between_def tail_bits_def)
    then show ?thesis by (simp only: s(1) [symmetric])
  next
    case 4
    obtain a b c e where d: "s div 262144 = a" "s div 4096 mod 64 = b" "s div 64 mod 64 = c" "s mod 64 = e"
      and s: "s = a * 262144 + b * 4096 + c * 64 + e" "b < 64" "c < 64" "e < 64" by (rule digits4)
    have "a < 5" "a = 0 \<Longrightarrow> 16 \<le> b" "a = 4 \<Longrightarrow> b < 16" using 4 s by auto
    moreover have "scalar_bytes s = [u8 (0xF0 + a), u8 (0x80 + b), u8 (0x80 + c), u8 (0x80 + e)]"
      using 4 by (simp add: scalar_bytes_def d)
    ultimately have "decode_scalar (scalar_bytes s @ rest) = Some (a * 262144 + b * 4096 + c * 64 + e, rest)"
      using s(2-4) by (auto simp: between_def tail_bits_def)
    then show ?thesis by (simp only: s(1) [symmetric])
  qed
qed

lemma scalar_bytes_nonempty: "scalar_bytes s \<noteq> []"
  by (simp add: scalar_bytes_def)

lemma utf8_scalars_encoded:
  "list_all is_scalar ss \<Longrightarrow> utf8_scalars (concat (map scalar_bytes ss)) = Some ss"
proof (induction ss)
  case Nil
  then show ?case by (simp add: utf8_scalars.simps)
next
  case (Cons s ss)
  then show ?case
    by (subst utf8_scalars.simps) (simp add: decode_scalar_bytes scalar_bytes_nonempty)
qed

lemma scalars_are_scalar: "list_all is_scalar (scalars us)"
proof (induction us rule: scalars.induct)
  case (2 u)
  have "unat u < 65536" by (rule unat_unit_less)
  then show ?case by (auto simp: is_scalar_def is_high_def is_low_def)
next
  case (3 u v us)
  have "unat u < 65536" by (rule unat_unit_less)
  with 3 show ?case by (auto simp: is_scalar_def is_high_def is_low_def join_surrogates_def)
qed simp

lemma units_of_joined:
  assumes "is_high u" and "is_low v"
  shows "scalar_units (join_surrogates u v) = [u, v]"
proof -
  define a where "a = unat u - 0xD800"
  define b where "b = unat v - 0xDC00"
  have u: "unat u = 0xD800 + a" "a < 0x400" and v: "unat v = 0xDC00 + b" "b < 0x400"
    using assms by (auto simp: is_high_def is_low_def a_def b_def)
  have "(a * 0x400 + b) div 0x400 = a" "(a * 0x400 + b) mod 0x400 = b" using v(2) by simp_all
  moreover have "join_surrogates u v = 0x10000 + (a * 0x400 + b)" using u v by (simp add: join_surrogates_def)
  ultimately have "scalar_units (join_surrogates u v) = [word_of_nat (unat u), word_of_nat (unat v)]"
    unfolding u(1) v(1) by (simp add: scalar_units_def)
  then show ?thesis by simp
qed

lemma units_of_plain: "\<not> is_high u \<Longrightarrow> \<not> is_low u \<Longrightarrow> scalar_units (unat u) = [u]"
  using unat_unit_less [of u] by (simp add: scalar_units_def)

lemma scalar_units_FFFD: "scalar_units 0xFFFD = [0xFFFD]"
  by (simp add: scalar_units_def)

lemma scalar_units_scalars: "concat (map scalar_units (scalars us)) = us \<longleftrightarrow> well_formed us"
proof (induction us rule: scalars.induct)
  case 1
  then show ?case by simp
next
  case (2 u)
  then show ?case
    by (auto simp: units_of_plain scalar_units_FFFD is_high_def is_low_def)
next
  case (3 u v us)
  then show ?case
    by (auto simp: units_of_joined units_of_plain scalar_units_FFFD is_high_def is_low_def)
qed

lemma utf8_decode_encode: "utf8_decode (utf8_encode us) = Some (concat (map scalar_units (scalars us)))"
  by (simp add: utf8_decode_def utf8_encode_def utf8_scalars_encoded scalars_are_scalar)

lemma utf8_roundtrip: "utf8_decode (utf8_encode us) = Some us \<longleftrightarrow> well_formed us"
  by (simp add: utf8_decode_encode scalar_units_scalars)

section \<open>Properties of the text codec\<close>

text \<open>Encoding a JavaScript string as UTF-8 and decoding it gives the string back exactly when the string has no lone
  surrogate; the decoder never fails on what the encoder wrote.\<close>

theorem text_roundtrip:
  "utf8_decode (utf8_encode us) \<noteq> None \<and> (utf8_decode (utf8_encode us) = Some us \<longleftrightarrow> well_formed us)"
  by (simp add: utf8_decode_encode scalar_units_scalars)

end
