(* ===== verification/Cbor.thy ===== *)
theory Cbor
  imports Framing Utf8
begin

text \<open>
  The CBOR codec of \<^verbatim>\<open>packages/protocol/src/cbor\<close>: options, the writer with its growing buffer,
  the encoder on JavaScript values and the decoder to a tree of values.  Values live in a heap,
  so that sharing and cycles exist; reading a property is assumed to have no side effect.
  An object contributes its own enumerable string-keyed properties, in the order of
  \<^verbatim>\<open>Object.keys\<close>.
\<close>

section \<open>Options\<close>

datatype cbor_error =
    InvalidLimit | ByteLengthLimit | TextLengthLimit | BytesLengthLimit | ArrayLengthLimit | MapLengthLimit
  | DepthLimit | NotFinite | UnsafeInteger | InvalidUnicode | CyclicValue | ArrayHole | SymbolKey | UnsupportedType
  | TrailingData | TruncatedPayload | InvalidUtf8 | NonStringKey | DuplicateKey | UnsupportedTag
  | UnsupportedSimple | UnsupportedBreak | IndefiniteLength | MalformedInformation

definition UINT32_BASE :: nat where
  "UINT32_BASE = 0x100000000"

definition MAX_CONFIGURED_DEPTH :: nat where
  "MAX_CONFIGURED_DEPTH = 512"

definition DEFAULT_MAX_CBOR_BYTE_LENGTH :: nat where
  "DEFAULT_MAX_CBOR_BYTE_LENGTH = 16 * 1024 * 1024"

definition DEFAULT_MAX_CBOR_CONTAINER_LENGTH :: nat where
  "DEFAULT_MAX_CBOR_CONTAINER_LENGTH = 1000000"

definition DEFAULT_MAX_CBOR_DEPTH :: nat where
  "DEFAULT_MAX_CBOR_DEPTH = 64"

record cbor_options =
  opt_maxByteLength :: "jsnum option"
  opt_maxContainerLength :: "jsnum option"
  opt_maxDepth :: "jsnum option"

record resolved_options =
  maxByteLength :: nat
  maxContainerLength :: nat
  maxDepth :: nat

definition resolveLimit :: "jsnum \<Rightarrow> nat \<Rightarrow> cbor_error + nat" where
  "resolveLimit value maximum =
     (case js_int value of
        None \<Rightarrow> Inl InvalidLimit
      | Some n \<Rightarrow>
          if \<not> js_is_safe_integer value \<or> n < 0 \<or> n > int maximum then Inl InvalidLimit else Inr (nat n))"

definition or_default :: "jsnum option \<Rightarrow> nat \<Rightarrow> jsnum" where
  "or_default x d = (case x of Some v \<Rightarrow> v | None \<Rightarrow> JsInt (int d))"

definition resolveOptions :: "cbor_options option \<Rightarrow> cbor_error + resolved_options" where
  "resolveOptions options =
     rbind (resolveLimit (or_default (Option.bind options opt_maxByteLength) DEFAULT_MAX_CBOR_BYTE_LENGTH) MAX_UINT32) (\<lambda>b.
     rbind (resolveLimit (or_default (Option.bind options opt_maxContainerLength) DEFAULT_MAX_CBOR_CONTAINER_LENGTH) MAX_UINT32) (\<lambda>c.
     rbind (resolveLimit (or_default (Option.bind options opt_maxDepth) DEFAULT_MAX_CBOR_DEPTH) MAX_CONFIGURED_DEPTH) (\<lambda>d.
     Inr \<lparr>maxByteLength = b, maxContainerLength = c, maxDepth = d\<rparr>)))"

section \<open>The writer\<close>

record cbor_writer =
  wr_buffer :: "byte list"
  wr_offset :: nat
  wr_maxByteLength :: nat

definition new_writer :: "nat \<Rightarrow> cbor_writer" where
  "new_writer maxLen = \<lparr>wr_buffer = replicate (min 256 maxLen) 0, wr_offset = 0, wr_maxByteLength = maxLen\<rparr>"

text \<open>
  The doubling loop.  It runs only when \<open>required \<le> maxLen\<close>, which the caller has checked; the
  test is repeated here because without it the loop would not end.
\<close>

function grow_capacity :: "nat \<Rightarrow> nat \<Rightarrow> nat \<Rightarrow> nat" where
  "grow_capacity maxLen required capacity =
     (if capacity < required \<and> required \<le> maxLen
      then grow_capacity maxLen required (min maxLen (max required (capacity * 2))) else capacity)"
  by pat_completeness auto
termination by (relation "measure (\<lambda>(m, r, c). r - c)") auto

declare grow_capacity.simps [simp del]

definition ensureCapacity :: "cbor_writer \<Rightarrow> nat \<Rightarrow> cbor_error + cbor_writer" where
  "ensureCapacity w additionalBytes =
     (let required = wr_offset w + additionalBytes in
      if required > wr_maxByteLength w then Inl ByteLengthLimit
      else if required \<le> length (wr_buffer w) then Inr w
      else
        let capacity = grow_capacity (wr_maxByteLength w) required (max 1 (length (wr_buffer w)))
        in Inr (w\<lparr>wr_buffer := u8_set (replicate capacity 0) (wr_buffer w) 0\<rparr>))"

definition writeBytes :: "cbor_writer \<Rightarrow> byte list \<Rightarrow> cbor_error + cbor_writer" where
  "writeBytes w bytes =
     rbind (ensureCapacity w (length bytes)) (\<lambda>w.
     Inr (w\<lparr>wr_buffer := u8_set (wr_buffer w) bytes (wr_offset w), wr_offset := wr_offset w + length bytes\<rparr>))"

definition writeByte :: "cbor_writer \<Rightarrow> nat \<Rightarrow> cbor_error + cbor_writer" where
  "writeByte w value = writeBytes w [u8 value]"

definition writeUint16 :: "cbor_writer \<Rightarrow> nat \<Rightarrow> cbor_error + cbor_writer" where
  "writeUint16 w value = writeBytes w [u8 (value div 2 ^ 8), u8 value]"

definition writeUint32 :: "cbor_writer \<Rightarrow> nat \<Rightarrow> cbor_error + cbor_writer" where
  "writeUint32 w value = writeBytes w (uint32_bytes value)"

definition writeUint64 :: "cbor_writer \<Rightarrow> nat \<Rightarrow> cbor_error + cbor_writer" where
  "writeUint64 w value =
     (let high = value div UINT32_BASE; low = value - high * UINT32_BASE
      in rbind (writeUint32 w high) (\<lambda>w. writeUint32 w low))"

definition float64_bytes :: "64 word \<Rightarrow> byte list" where
  "float64_bytes b = uint32_bytes (unat b div 2 ^ 32) @ uint32_bytes (unat b mod 2 ^ 32)"

definition writeFloat64 :: "cbor_writer \<Rightarrow> 64 word \<Rightarrow> cbor_error + cbor_writer" where
  "writeFloat64 w bits = writeBytes w (u8 0xfb # float64_bytes bits)"

definition finish :: "cbor_writer \<Rightarrow> byte list" where
  "finish w = take (wr_offset w) (wr_buffer w)"

text \<open>\<^verbatim>\<open>prefix | value\<close> with the prefix in the upper three bits.\<close>

definition writeArgument :: "cbor_writer \<Rightarrow> nat \<Rightarrow> nat \<Rightarrow> cbor_error + cbor_writer" where
  "writeArgument w majorType value =
     (let prefix = majorType * 32 in
      if value < 24 then writeByte w (prefix + value)
      else if value \<le> 0xff then rbind (writeByte w (prefix + 24)) (\<lambda>w. writeByte w value)
      else if value \<le> 0xffff then rbind (writeByte w (prefix + 25)) (\<lambda>w. writeUint16 w value)
      else if value \<le> MAX_UINT32 then rbind (writeByte w (prefix + 26)) (\<lambda>w. writeUint32 w value)
      else rbind (writeByte w (prefix + 27)) (\<lambda>w. writeUint64 w value))"

section \<open>The encoder\<close>

datatype cbor_val =
    CvUndefined | CvNull | CvBool bool | CvNum jsnum | CvStr js_string | CvBigInt int | CvSymbol | CvFunction
  | CvRef nat

text \<open>An array has an element for each index, \<open>None\<close> where it has a hole; a plain object says whether
  it has an enumerable symbol-keyed property.\<close>

datatype cbor_obj =
    CoBytes "byte list"
  | CoArray "cbor_val option list"
  | CoPlain bool "(js_string \<times> cbor_val) list"
  | CoOther

type_synonym cbor_heap = "nat \<Rightarrow> cbor_obj option"

definition encodeText :: "cbor_writer \<Rightarrow> js_string \<Rightarrow> resolved_options \<Rightarrow> cbor_error + cbor_writer" where
  "encodeText w value options =
     (let bytes = utf8_encode value in
      rbind (rcheck TextLengthLimit (\<not> length bytes > maxByteLength options)) (\<lambda>_.
      rbind (rcheck InvalidUnicode (utf8_decode bytes = Some value)) (\<lambda>_.
      rbind (writeArgument w 3 (length bytes)) (\<lambda>w.
      writeBytes w bytes))))"

definition encodeNumber :: "cbor_writer \<Rightarrow> jsnum \<Rightarrow> cbor_error + cbor_writer" where
  "encodeNumber w x =
     (case x of
        JsInt n \<Rightarrow>
          if \<not> js_is_safe_integer x then Inl UnsafeInteger
          else if n \<ge> 0 then writeArgument w 0 (nat n) else writeArgument w 1 (nat (- 1 - n))
      | JsNegZero \<Rightarrow> writeFloat64 w 0x8000000000000000
      | JsFrac bits \<Rightarrow> writeFloat64 w bits
      | _ \<Rightarrow> Inl NotFinite)"

function (sequential)
  encodeValue :: "resolved_options \<Rightarrow> cbor_heap \<Rightarrow> cbor_writer \<Rightarrow> cbor_val \<Rightarrow> nat \<Rightarrow> nat set \<Rightarrow> cbor_error + cbor_writer" and
  encodeElements :: "resolved_options \<Rightarrow> cbor_heap \<Rightarrow> cbor_writer \<Rightarrow> cbor_val option list \<Rightarrow> nat \<Rightarrow> nat set \<Rightarrow> cbor_error + cbor_writer" and
  encodeEntries :: "resolved_options \<Rightarrow> cbor_heap \<Rightarrow> cbor_writer \<Rightarrow> (js_string \<times> cbor_val) list \<Rightarrow> nat \<Rightarrow> nat set \<Rightarrow> cbor_error + cbor_writer"
where
  "encodeValue options h w v depth ancestors =
     (if depth > maxDepth options then Inl DepthLimit
      else case v of
        CvNull \<Rightarrow> writeByte w 0xf6
      | CvBool b \<Rightarrow> writeByte w (if b then 0xf5 else 0xf4)
      | CvNum x \<Rightarrow> encodeNumber w x
      | CvStr s \<Rightarrow> encodeText w s options
      | CvRef l \<Rightarrow>
          (case h l of
             Some (CoBytes bytes) \<Rightarrow>
               rbind (rcheck BytesLengthLimit (\<not> length bytes > maxByteLength options)) (\<lambda>_.
               rbind (writeArgument w 2 (length bytes)) (\<lambda>w. writeBytes w bytes))
           | Some (CoArray elements) \<Rightarrow>
               if l \<in> ancestors then Inl CyclicValue
               else if length elements > maxContainerLength options then Inl ArrayLengthLimit
               else rbind (writeArgument w 4 (length elements)) (\<lambda>w.
                    encodeElements options h w elements (depth + 1) (insert l ancestors))
           | Some (CoPlain symbols properties) \<Rightarrow>
               if l \<in> ancestors then Inl CyclicValue
               else if symbols then Inl SymbolKey
               else
                 let entries = filter (\<lambda>(k, x). x \<noteq> CvUndefined) properties in
                 if length entries > maxContainerLength options then Inl MapLengthLimit
                 else rbind (writeArgument w 5 (length entries)) (\<lambda>w.
                      encodeEntries options h w entries (depth + 1) (insert l ancestors))
           | _ \<Rightarrow> Inl UnsupportedType)
      | _ \<Rightarrow> Inl UnsupportedType)"
| "encodeElements options h w [] depth ancestors = Inr w"
| "encodeElements options h w (x # xs) depth ancestors =
     (case x of
        None \<Rightarrow> Inl ArrayHole
      | Some v \<Rightarrow>
          if v = CvUndefined then Inl ArrayHole
          else rbind (encodeValue options h w v depth ancestors) (\<lambda>w.
               encodeElements options h w xs depth ancestors))"
| "encodeEntries options h w [] depth ancestors = Inr w"
| "encodeEntries options h w ((k, v) # es) depth ancestors =
     rbind (encodeText w k options) (\<lambda>w.
     rbind (encodeValue options h w v depth ancestors) (\<lambda>w.
     encodeEntries options h w es depth ancestors))"
  by pat_completeness auto
termination
  by (relation "inv_image (less_than <*lex*> less_than) (\<lambda>x. case x of
        Inl (opt, h, w, v, depth, anc) \<Rightarrow> (2 * (Suc (maxDepth opt) - depth), 0)
      | Inr (Inl (opt, h, w, xs, depth, anc)) \<Rightarrow> (2 * (Suc (maxDepth opt) - depth) + 1, length xs)
      | Inr (Inr (opt, h, w, es, depth, anc)) \<Rightarrow> (2 * (Suc (maxDepth opt) - depth) + 1, length es))") auto

declare encodeValue.simps [simp del]

definition encodeCbor :: "cbor_heap \<Rightarrow> cbor_val \<Rightarrow> cbor_options option \<Rightarrow> cbor_error + byte list" where
  "encodeCbor h value options =
     rbind (resolveOptions options) (\<lambda>resolved.
     rbind (encodeValue resolved h (new_writer (maxByteLength resolved)) value 0 {}) (\<lambda>w.
     Inr (finish w)))"

section \<open>The decoder\<close>

datatype cbor_tree =
    CtNull | CtBool bool | CtNum jsnum | CtText js_string | CtBytes "byte list"
  | CtArray "cbor_tree list" | CtMap "(js_string \<times> cbor_tree) list"

text \<open>
  A reader is the bytes it has not read; a read returns its result and the rest.  A decoded
  object is its properties in the order they are defined.
\<close>

definition readByte :: "byte list \<Rightarrow> cbor_error + nat \<times> byte list" where
  "readByte bs = (case bs of [] \<Rightarrow> Inl TruncatedPayload | b # r \<Rightarrow> Inr (unat b, r))"

definition readBytes :: "nat \<Rightarrow> byte list \<Rightarrow> cbor_error + byte list \<times> byte list" where
  "readBytes n bs = (if n > length bs then Inl TruncatedPayload else Inr (take n bs, drop n bs))"

definition readUint32 :: "byte list \<Rightarrow> cbor_error + nat \<times> byte list" where
  "readUint32 bs = rbind (readBytes 4 bs) (\<lambda>(b, r). Inr (read_uint32 b, r))"

definition readArgument :: "nat \<Rightarrow> byte list \<Rightarrow> cbor_error + nat \<times> byte list" where
  "readArgument additionalInformation bs =
     (if additionalInformation < 24 then Inr (additionalInformation, bs)
      else if additionalInformation = 24 then readByte bs
      else if additionalInformation = 25
      then rbind (readBytes 2 bs) (\<lambda>(b, r). Inr (unat (b ! 0) * 0x100 + unat (b ! 1), r))
      else if additionalInformation = 26 then readUint32 bs
      else if additionalInformation = 27
      then rbind (readUint32 bs) (\<lambda>(high, r).
           rbind (readUint32 r) (\<lambda>(low, r).
           if high > 0x1fffff then Inl UnsafeInteger else Inr (high * UINT32_BASE + low, r)))
      else if additionalInformation = 31 then Inl IndefiniteLength
      else Inl MalformedInformation)"

definition readLength :: "nat \<Rightarrow> cbor_error \<Rightarrow> nat \<Rightarrow> byte list \<Rightarrow> cbor_error + nat \<times> byte list" where
  "readLength additionalInformation exceeded limit bs =
     (if additionalInformation = 31 then Inl IndefiniteLength
      else rbind (readArgument additionalInformation bs) (\<lambda>(n, r).
           if n > limit then Inl exceeded else Inr (n, r)))"

text \<open>The number with a given IEEE 754 binary64 representation.\<close>

definition float64_value :: "64 word \<Rightarrow> jsnum" where
  "float64_value bits =
     (let n = unat bits;
          negative = (n div 2 ^ 63 = 1);
          e = n div 2 ^ 52 mod 2 ^ 11;
          m = n mod 2 ^ 52;
          integral = (\<lambda>k. JsInt (if negative then - int k else int k))
      in if e = 2047 then (if m \<noteq> 0 then JsNaN else if negative then JsNegInf else JsPosInf)
         else if e = 0 then (if m \<noteq> 0 then JsFrac bits else if negative then JsNegZero else JsInt 0)
         else if e \<ge> 1075 then integral ((2 ^ 52 + m) * 2 ^ (e - 1075))
         else if 1075 - e \<le> 52 \<and> (2 ^ 52 + m) mod 2 ^ (1075 - e) = 0
         then integral ((2 ^ 52 + m) div 2 ^ (1075 - e))
         else JsFrac bits)"

definition read_float64 :: "byte list \<Rightarrow> 64 word" where
  "read_float64 bs = word_of_nat (read_uint32 bs * 2 ^ 32 + read_uint32 (drop 4 bs))"

definition readSimple :: "nat \<Rightarrow> byte list \<Rightarrow> cbor_error + cbor_tree \<times> byte list" where
  "readSimple additionalInformation bs =
     (if additionalInformation = 20 then Inr (CtBool False, bs)
      else if additionalInformation = 21 then Inr (CtBool True, bs)
      else if additionalInformation = 22 then Inr (CtNull, bs)
      else if additionalInformation = 27
      then rbind (readBytes 8 bs) (\<lambda>(b, r).
           let value = float64_value (read_float64 b) in
           if \<not> js_is_finite value then Inl NotFinite
           else if js_is_integer value \<and> \<not> js_is_safe_integer value then Inl UnsafeInteger
           else Inr (CtNum value, r))
      else if additionalInformation = 31 then Inl UnsupportedBreak
      else Inl UnsupportedSimple)"

function (sequential)
  readItem :: "resolved_options \<Rightarrow> nat \<Rightarrow> byte list \<Rightarrow> cbor_error + cbor_tree \<times> byte list" and
  readElements :: "resolved_options \<Rightarrow> nat \<Rightarrow> nat \<Rightarrow> byte list \<Rightarrow> cbor_error + cbor_tree list \<times> byte list" and
  readEntries :: "resolved_options \<Rightarrow> nat \<Rightarrow> nat \<Rightarrow> js_string set \<Rightarrow> byte list \<Rightarrow>
    cbor_error + (js_string \<times> cbor_tree) list \<times> byte list"
where
  "readItem options depth bs =
     (if depth > maxDepth options then Inl DepthLimit
      else rbind (readByte bs) (\<lambda>(initial, r).
        let majorType = initial div 32; additionalInformation = initial mod 32 in
        if majorType = 0 then rbind (readArgument additionalInformation r) (\<lambda>(n, r). Inr (CtNum (JsInt (int n)), r))
        else if majorType = 1
        then rbind (readArgument additionalInformation r) (\<lambda>(n, r).
             let value = - 1 - int n in
             if \<not> js_is_safe_integer (JsInt value) then Inl UnsafeInteger else Inr (CtNum (JsInt value), r))
        else if majorType = 2
        then rbind (readLength additionalInformation BytesLengthLimit (maxByteLength options) r) (\<lambda>(n, r).
             rbind (readBytes n r) (\<lambda>(b, r). Inr (CtBytes b, r)))
        else if majorType = 3
        then rbind (readLength additionalInformation TextLengthLimit (maxByteLength options) r) (\<lambda>(n, r).
             rbind (readBytes n r) (\<lambda>(b, r).
             case utf8_decode b of None \<Rightarrow> Inl InvalidUtf8 | Some s \<Rightarrow> Inr (CtText s, r)))
        else if majorType = 4
        then rbind (readLength additionalInformation ArrayLengthLimit (maxContainerLength options) r) (\<lambda>(n, r).
             rbind (readElements options (depth + 1) n r) (\<lambda>(ts, r). Inr (CtArray ts, r)))
        else if majorType = 5
        then rbind (readLength additionalInformation MapLengthLimit (maxContainerLength options) r) (\<lambda>(n, r).
             rbind (readEntries options (depth + 1) n {} r) (\<lambda>(es, r). Inr (CtMap es, r)))
        else if majorType = 6 then Inl UnsupportedTag
        else readSimple additionalInformation r))"
| "readElements options depth 0 bs = Inr ([], bs)"
| "readElements options depth (Suc n) bs =
     rbind (readItem options depth bs) (\<lambda>(t, r).
     rbind (readElements options depth n r) (\<lambda>(ts, r). Inr (t # ts, r)))"
| "readEntries options depth 0 keys bs = Inr ([], bs)"
| "readEntries options depth (Suc n) keys bs =
     rbind (readItem options depth bs) (\<lambda>(k, r).
     case k of
       CtText key \<Rightarrow>
         if key \<in> keys then Inl DuplicateKey
         else rbind (readItem options depth r) (\<lambda>(t, r).
              rbind (readEntries options depth n (insert key keys) r) (\<lambda>(es, r). Inr ((key, t) # es, r)))
     | _ \<Rightarrow> Inl NonStringKey)"
  by pat_completeness auto
termination
  by (relation "inv_image (less_than <*lex*> less_than) (\<lambda>x. case x of
        Inl (opt, depth, bs) \<Rightarrow> (2 * (Suc (maxDepth opt) - depth), 0)
      | Inr (Inl (opt, depth, n, bs)) \<Rightarrow> (2 * (Suc (maxDepth opt) - depth) + 1, n)
      | Inr (Inr (opt, depth, n, keys, bs)) \<Rightarrow> (2 * (Suc (maxDepth opt) - depth) + 1, n))") auto

declare readItem.simps [simp del]

definition decodeCbor :: "byte list \<Rightarrow> cbor_options option \<Rightarrow> cbor_error + cbor_tree" where
  "decodeCbor bytes options =
     rbind (resolveOptions options) (\<lambda>resolved.
     rbind (rcheck ByteLengthLimit (\<not> length bytes > maxByteLength resolved)) (\<lambda>_.
     rbind (readItem resolved 0 bytes) (\<lambda>(value, rest).
     if rest \<noteq> [] then Inl TrailingData else Inr value)))"

end
