(* ===== verification/Cbor_Roundtrip.thy ===== *)
theory Cbor_Roundtrip
  imports Cbor
begin

text \<open>
  The CBOR codec is correct: the writer appends bytes up to its limit, the encoder writes the
  byte form of the finite tree a value stands for, and the decoder reads that form back.
\<close>

section \<open>The writer appends\<close>

definition wf_writer :: "cbor_writer \<Rightarrow> bool" where
  "wf_writer w \<longleftrightarrow> wr_offset w \<le> length (wr_buffer w) \<and> length (wr_buffer w) \<le> wr_maxByteLength w"

definition appended :: "cbor_writer \<Rightarrow> byte list \<Rightarrow> cbor_writer \<Rightarrow> bool" where
  "appended w bs w' \<longleftrightarrow> wf_writer w' \<and> finish w' = finish w @ bs \<and> wr_maxByteLength w' = wr_maxByteLength w"

lemma wf_new_writer: "wf_writer (new_writer n)" "finish (new_writer n) = []" "wr_maxByteLength (new_writer n) = n"
  by (simp_all add: wf_writer_def new_writer_def finish_def)

lemma finish_length: "wf_writer w \<Longrightarrow> length (finish w) = wr_offset w"
  by (simp add: finish_def wf_writer_def)

lemma grow_capacity_bounds:
  assumes "required \<le> maxLen" and "capacity < required"
  shows "required \<le> grow_capacity maxLen required capacity \<and> grow_capacity maxLen required capacity \<le> maxLen"
  using assms by (subst (1 2) grow_capacity.simps) (subst (1 2) grow_capacity.simps, auto)

lemma ensureCapacity_cases:
  assumes wf: "wf_writer w"
  shows "(wr_maxByteLength w < wr_offset w + n \<and> ensureCapacity w n = Inl ByteLengthLimit) \<or>
    (wr_offset w + n \<le> wr_maxByteLength w \<and>
     (\<exists>b. ensureCapacity w n = Inr (w\<lparr>wr_buffer := b\<rparr>) \<and> wr_offset w + n \<le> length b \<and>
          length b \<le> wr_maxByteLength w \<and> take (wr_offset w) b = take (wr_offset w) (wr_buffer w)))"
proof (cases "wr_maxByteLength w < wr_offset w + n \<or> wr_offset w + n \<le> length (wr_buffer w)")
  case True
  then show ?thesis using wf by (auto simp: ensureCapacity_def wf_writer_def Let_def intro!: exI [of _ "wr_buffer w"])
next
  case False
  let ?r = "wr_offset w + n"
  let ?c = "grow_capacity (wr_maxByteLength w) ?r (max 1 (length (wr_buffer w)))"
  have c: "?r \<le> ?c \<and> ?c \<le> wr_maxByteLength w"
  proof (cases "max 1 (length (wr_buffer w)) < ?r")
    case True
    with False grow_capacity_bounds show ?thesis by auto
  next
    case one: False
    with False have "?r = 1" "length (wr_buffer w) = 0" by linarith+
    with False show ?thesis by (subst (1 2) grow_capacity.simps) auto
  qed
  then have "ensureCapacity w n = Inr (w\<lparr>wr_buffer := u8_set (replicate ?c 0) (wr_buffer w) 0\<rparr>)"
    using False by (simp add: ensureCapacity_def Let_def)
  moreover have "length (u8_set (replicate ?c 0) (wr_buffer w) 0) = ?c"
    using c False by (simp add: u8_set_def)
  moreover have "take (wr_offset w) (u8_set (replicate ?c 0) (wr_buffer w) 0) = take (wr_offset w) (wr_buffer w)"
    using wf by (simp add: u8_set_def wf_writer_def)
  ultimately show ?thesis using c False by auto
qed

lemma writeBytes_cases:
  assumes "wf_writer w"
  shows "(wr_maxByteLength w < length (finish w) + length bs \<and> writeBytes w bs = Inl ByteLengthLimit) \<or>
    (length (finish w) + length bs \<le> wr_maxByteLength w \<and> (\<exists>w'. writeBytes w bs = Inr w' \<and> appended w bs w'))"
  using ensureCapacity_cases [OF assms, of "length bs"] finish_length [OF assms]
proof (elim disjE conjE exE)
  fix b
  assume b: "ensureCapacity w (length bs) = Inr (w\<lparr>wr_buffer := b\<rparr>)" "wr_offset w + length bs \<le> length b"
    "length b \<le> wr_maxByteLength w" "take (wr_offset w) b = take (wr_offset w) (wr_buffer w)"
    and le: "wr_offset w + length bs \<le> wr_maxByteLength w" and len: "length (finish w) = wr_offset w"
  let ?w = "w\<lparr>wr_buffer := u8_set b bs (wr_offset w), wr_offset := wr_offset w + length bs\<rparr>"
  have "writeBytes w bs = Inr ?w" by (simp add: writeBytes_def b(1))
  moreover have "appended w bs ?w"
    using b le assms by (auto simp: appended_def wf_writer_def finish_def u8_set_def)
  ultimately show ?thesis using le len by auto
qed (simp add: writeBytes_def)

lemma writeBytes_appends: "writeBytes w bs = Inr w' \<Longrightarrow> wf_writer w \<Longrightarrow> appended w bs w'"
  using writeBytes_cases [of w bs] by auto

lemma appended_trans: "appended w a w1 \<Longrightarrow> appended w1 b w2 \<Longrightarrow> appended w (a @ b) w2"
  by (simp add: appended_def)

lemma appended_wf: "appended w a w' \<Longrightarrow> wf_writer w'"
  by (simp add: appended_def)

lemma appended_nil: "wf_writer w \<Longrightarrow> appended w [] w"
  by (simp add: appended_def)

section \<open>The byte form of a tree\<close>

definition argument_bytes :: "nat \<Rightarrow> nat \<Rightarrow> byte list" where
  "argument_bytes major n =
     (if n < 24 then [u8 (major * 32 + n)]
      else if n \<le> 0xff then [u8 (major * 32 + 24), u8 n]
      else if n \<le> 0xffff then [u8 (major * 32 + 25), u8 (n div 2 ^ 8), u8 n]
      else if n \<le> MAX_UINT32 then u8 (major * 32 + 26) # uint32_bytes n
      else u8 (major * 32 + 27) # uint32_bytes (n div UINT32_BASE) @ uint32_bytes (n mod UINT32_BASE))"

definition text_bytes :: "js_string \<Rightarrow> byte list" where
  "text_bytes s = argument_bytes 3 (length (utf8_encode s)) @ utf8_encode s"

definition number_bytes :: "jsnum \<Rightarrow> byte list" where
  "number_bytes x =
     (case x of
        JsInt n \<Rightarrow> if n \<ge> 0 then argument_bytes 0 (nat n) else argument_bytes 1 (nat (- 1 - n))
      | JsNegZero \<Rightarrow> u8 0xfb # float64_bytes 0x8000000000000000
      | JsFrac bits \<Rightarrow> u8 0xfb # float64_bytes bits
      | _ \<Rightarrow> [])"

fun tree_bytes :: "cbor_tree \<Rightarrow> byte list" where
  "tree_bytes CtNull = [u8 0xf6]"
| "tree_bytes (CtBool b) = [u8 (if b then 0xf5 else 0xf4)]"
| "tree_bytes (CtNum x) = number_bytes x"
| "tree_bytes (CtText s) = text_bytes s"
| "tree_bytes (CtBytes bs) = argument_bytes 2 (length bs) @ bs"
| "tree_bytes (CtArray ts) = argument_bytes 4 (length ts) @ concat (map tree_bytes ts)"
| "tree_bytes (CtMap es) = argument_bytes 5 (length es) @ concat (map (\<lambda>(k, t). text_bytes k @ tree_bytes t) es)"

lemma writeArgument_appends:
  assumes "wf_writer w" and "writeArgument w major n = Inr w'"
  shows "appended w (argument_bytes major n) w'"
proof -
  have "n - n div UINT32_BASE * UINT32_BASE = n mod UINT32_BASE" by (simp add: minus_div_mult_eq_mod)
  then show ?thesis
    using assms
    by (auto simp: writeArgument_def argument_bytes_def Let_def writeByte_def writeUint16_def writeUint32_def
        writeUint64_def appended_def split: if_splits dest!: writeBytes_appends)
qed

section \<open>What a value stands for\<close>

inductive cbor_denotes :: "cbor_heap \<Rightarrow> cbor_val \<Rightarrow> cbor_tree \<Rightarrow> bool" for h where
  cd_null: "cbor_denotes h CvNull CtNull"
| cd_bool: "cbor_denotes h (CvBool b) (CtBool b)"
| cd_num: "cbor_denotes h (CvNum x) (CtNum x)"
| cd_text: "cbor_denotes h (CvStr s) (CtText s)"
| cd_bytes: "h l = Some (CoBytes bs) \<Longrightarrow> cbor_denotes h (CvRef l) (CtBytes bs)"
| cd_array: "h l = Some (CoArray (map Some vs)) \<Longrightarrow> list_all2 (cbor_denotes h) vs ts \<Longrightarrow>
    cbor_denotes h (CvRef l) (CtArray ts)"
| cd_object: "h l = Some (CoPlain False ps) \<Longrightarrow>
    list_all2 (\<lambda>p e. fst p = fst e \<and> cbor_denotes h (snd p) (snd e)) (filter (\<lambda>(k, v). v \<noteq> CvUndefined) ps) es \<Longrightarrow>
    cbor_denotes h (CvRef l) (CtMap es)"

text \<open>Fractions are given by bit patterns of fractions, and an object has each key once.\<close>

definition wf_num :: "jsnum \<Rightarrow> bool" where
  "wf_num x = (case x of JsFrac bits \<Rightarrow> float64_value bits = x | _ \<Rightarrow> True)"

definition wf_val :: "cbor_val \<Rightarrow> bool" where
  "wf_val v = (case v of CvNum x \<Rightarrow> wf_num x | _ \<Rightarrow> True)"

definition wf_cbor_heap :: "cbor_heap \<Rightarrow> bool" where
  "wf_cbor_heap h \<longleftrightarrow>
     (\<forall>l es v. h l = Some (CoArray es) \<longrightarrow> Some v \<in> set es \<longrightarrow> wf_val v) \<and>
     (\<forall>l sy ps. h l = Some (CoPlain sy ps) \<longrightarrow> distinct (map fst ps) \<and> (\<forall>v \<in> set (map snd ps). wf_val v))"

text \<open>A tree within the limits, at a nesting depth.\<close>

definition number_ok :: "jsnum \<Rightarrow> bool" where
  "number_ok x \<longleftrightarrow> js_is_finite x \<and> (js_is_integer x \<longrightarrow> js_is_safe_integer x) \<and> wf_num x"

definition text_ok :: "resolved_options \<Rightarrow> js_string \<Rightarrow> bool" where
  "text_ok opt s \<longleftrightarrow> well_formed s \<and> length (utf8_encode s) \<le> maxByteLength opt"

fun tree_ok :: "resolved_options \<Rightarrow> nat \<Rightarrow> cbor_tree \<Rightarrow> bool" where
  "tree_ok opt d CtNull = (d \<le> maxDepth opt)"
| "tree_ok opt d (CtBool b) = (d \<le> maxDepth opt)"
| "tree_ok opt d (CtNum x) = (d \<le> maxDepth opt \<and> number_ok x)"
| "tree_ok opt d (CtText s) = (d \<le> maxDepth opt \<and> text_ok opt s)"
| "tree_ok opt d (CtBytes bs) = (d \<le> maxDepth opt \<and> length bs \<le> maxByteLength opt)"
| "tree_ok opt d (CtArray ts) =
     (d \<le> maxDepth opt \<and> length ts \<le> maxContainerLength opt \<and> (\<forall>t \<in> set ts. tree_ok opt (Suc d) t))"
| "tree_ok opt d (CtMap es) =
     (d \<le> maxDepth opt \<and> length es \<le> maxContainerLength opt \<and> distinct (map fst es) \<and>
      (\<forall>e \<in> set es. text_ok opt (fst e) \<and> tree_ok opt (Suc d) (snd e)))"

lemma encodeText_ok:
  assumes "encodeText w s opt = Inr w'" and "wf_writer w"
  shows "appended w (text_bytes s) w' \<and> text_ok opt s"
  using assms
  by (auto simp: encodeText_def Let_def text_bytes_def text_ok_def utf8_roundtrip
      dest!: writeArgument_appends [rotated] writeBytes_appends dest: appended_wf appended_trans)

lemma encodeNumber_ok:
  assumes "encodeNumber w x = Inr w'" and "wf_writer w" and "wf_num x"
  shows "appended w (number_bytes x) w' \<and> number_ok x"
  using assms
  by (cases x) (auto simp: encodeNumber_def number_bytes_def number_ok_def writeFloat64_def js_is_integer_def
      js_is_safe_integer_def max_safe_integer_def wf_num_def split: if_splits
      dest!: writeBytes_appends writeArgument_appends [rotated])

abbreviation entry_bytes :: "(js_string \<times> cbor_tree) list \<Rightarrow> byte list" where
  "entry_bytes es \<equiv> concat (map (\<lambda>(k, t). text_bytes k @ tree_bytes t) es)"

abbreviation entries_denote :: "cbor_heap \<Rightarrow> (js_string \<times> cbor_val) list \<Rightarrow> (js_string \<times> cbor_tree) list \<Rightarrow> bool" where
  "entries_denote h ps es \<equiv> list_all2 (\<lambda>p e. fst p = fst e \<and> cbor_denotes h (snd p) (snd e)) ps es"

lemma entries_denote_keys: "entries_denote h ps es \<Longrightarrow> map fst es = map fst ps"
  by (induction ps es rule: list_all2_induct) auto

lemma appended_argument:
  "writeArgument w m n = Inr w1 \<Longrightarrow> wf_writer w \<Longrightarrow> wf_writer w1 \<and> (\<forall>bs w'. appended w1 bs w' \<longrightarrow> appended w (argument_bytes m n @ bs) w')"
  using writeArgument_appends appended_trans appended_wf by metis

lemma encode_appends:
  shows "encodeValue opt h w v d anc = Inr w' \<Longrightarrow> wf_writer w \<Longrightarrow> wf_cbor_heap h \<Longrightarrow> wf_val v \<Longrightarrow>
     \<exists>t. cbor_denotes h v t \<and> appended w (tree_bytes t) w' \<and> tree_ok opt d t"
    and "encodeElements opt h w xs d anc = Inr w' \<Longrightarrow> wf_writer w \<Longrightarrow> wf_cbor_heap h \<Longrightarrow>
     (\<forall>v. Some v \<in> set xs \<longrightarrow> wf_val v) \<Longrightarrow>
     \<exists>vs ts. xs = map Some vs \<and> list_all2 (cbor_denotes h) vs ts \<and> appended w (concat (map tree_bytes ts)) w' \<and>
       (\<forall>t \<in> set ts. tree_ok opt d t)"
    and "encodeEntries opt h w es d anc = Inr w' \<Longrightarrow> wf_writer w \<Longrightarrow> wf_cbor_heap h \<Longrightarrow>
     (\<forall>v \<in> set (map snd es). wf_val v) \<Longrightarrow>
     \<exists>fs. entries_denote h es fs \<and> appended w (entry_bytes fs) w' \<and>
       (\<forall>e \<in> set fs. text_ok opt (fst e) \<and> tree_ok opt d (snd e))"
proof (induction opt h w v d anc and opt h w xs d anc and opt h w es d anc arbitrary: w' and w' and w'
    rule: encodeValue_encodeElements_encodeEntries.induct)
  case (1 opt h w v d anc)
  have d: "d \<le> maxDepth opt" using 1(3) by (auto simp: encodeValue.simps split: if_splits)
  note run = 1(3) [unfolded encodeValue.simps [of opt h w v]]
  show ?case
  proof (cases v)
    case (CvNum x)
    with run d 1(4,6) encodeNumber_ok [of w x w'] show ?thesis by (auto simp: wf_val_def intro: cd_num)
  next
    case (CvStr s)
    with run d 1(4) encodeText_ok [of w s opt w'] show ?thesis by (auto intro: cd_text)
  next
    case (CvRef l)
    show ?thesis
    proof (cases "h l")
      case None
      with run d CvRef show ?thesis by simp
    next
      case (Some obj)
      show ?thesis
      proof (cases obj)
        case (CoBytes bs)
        with run d CvRef Some obtain w1 where "writeArgument w 2 (length bs) = Inr w1" "writeBytes w1 bs = Inr w'"
          and len: "length bs \<le> maxByteLength opt" by auto
        then have "appended w (tree_bytes (CtBytes bs)) w'"
          using appended_argument [OF _ 1(4)] writeBytes_appends by fastforce
        with len d CvRef Some CoBytes show ?thesis by (auto intro: cd_bytes)
      next
        case (CoArray xs)
        with run d CvRef Some obtain w1 where anc: "l \<notin> anc" and len: "\<not> length xs > maxContainerLength opt"
          and w1: "writeArgument w 4 (length xs) = Inr w1"
          and el: "encodeElements opt h w1 xs (d + 1) (insert l anc) = Inr w'"
          by (auto split: if_splits)
        have "\<forall>v. Some v \<in> set xs \<longrightarrow> wf_val v"
          using 1(5) Some CoArray unfolding wf_cbor_heap_def by blast
        from 1(1) [OF _ CvRef Some CoArray anc len w1 el conjunct1 [OF appended_argument [OF w1 1(4)]] 1(5) this] d
        obtain vs ts where vs: "xs = map Some vs" "list_all2 (cbor_denotes h) vs ts"
          "appended w1 (concat (map tree_bytes ts)) w'" "\<forall>t \<in> set ts. tree_ok opt (d + 1) t" by auto
        have "length ts = length xs" using vs(1,2) by (auto dest: list_all2_lengthD)
        with vs len d appended_argument [OF w1 1(4)] CvRef Some CoArray show ?thesis
          by (intro exI [of _ "CtArray ts"]) (auto intro: cd_array)
      next
        case (CoPlain sy ps)
        let ?es = "filter (\<lambda>(k, x). x \<noteq> CvUndefined) ps"
        from run d CvRef Some CoPlain obtain w1 where anc: "l \<notin> anc" and sy: "\<not> sy"
          and len: "\<not> length ?es > maxContainerLength opt"
          and w1: "writeArgument w 5 (length ?es) = Inr w1"
          and el: "encodeEntries opt h w1 ?es (d + 1) (insert l anc) = Inr w'"
          by (auto simp: Let_def split: if_splits)
        have wfv: "\<forall>v \<in> set (map snd ?es). wf_val v" and dist: "distinct (map fst ps)"
          using 1(5) Some CoPlain unfolding wf_cbor_heap_def by auto
        from 1(2) [OF _ CvRef Some CoPlain anc sy refl len w1 el conjunct1 [OF appended_argument [OF w1 1(4)]] 1(5) wfv] d
        obtain fs where fs: "entries_denote h ?es fs" "appended w1 (entry_bytes fs) w'"
          "\<forall>e \<in> set fs. text_ok opt (fst e) \<and> tree_ok opt (d + 1) (snd e)" by auto
        have "length fs = length ?es" using fs(1) by (auto dest: list_all2_lengthD)
        moreover have "distinct (map fst fs)"
          using entries_denote_keys [OF fs(1)] dist by (simp add: distinct_map_filter)
        ultimately show ?thesis
          using fs len d appended_argument [OF w1 1(4)] CvRef Some CoPlain sy
          by (intro exI [of _ "CtMap fs"]) (auto intro: cd_object)
      next
        case CoOther
        with run d CvRef Some show ?thesis by simp
      qed
    qed
  next
    case CvNull
    with run d 1(4) show ?thesis
      by (intro exI [of _ CtNull]) (auto simp: writeByte_def intro: cd_null dest: writeBytes_appends)
  next
    case (CvBool b)
    with run d 1(4) show ?thesis
      by (intro exI [of _ "CtBool b"]) (auto simp: writeByte_def intro: cd_bool dest: writeBytes_appends)
  qed (use run d in simp_all)
next
  case (2 opt h w d anc)
  then show ?case by (auto simp: appended_nil)
next
  case (3 opt h w x xs d anc)
  from 3(3) obtain v w1 where v: "x = Some v" "v \<noteq> CvUndefined" and w1: "encodeValue opt h w v d anc = Inr w1"
    and rest: "encodeElements opt h w1 xs d anc = Inr w'"
    by (auto split: option.splits if_splits)
  from 3(1) [OF v w1 3(4,5)] 3(6) v obtain t where t: "cbor_denotes h v t" "appended w (tree_bytes t) w1" "tree_ok opt d t"
    by auto
  from 3(2) [OF v w1 rest appended_wf [OF t(2)] 3(5)] 3(6) obtain vs ts where
    "xs = map Some vs" "list_all2 (cbor_denotes h) vs ts" "appended w1 (concat (map tree_bytes ts)) w'"
    "\<forall>t \<in> set ts. tree_ok opt d t" by auto
  with t v appended_trans [OF t(2)] show ?case
    by (intro exI [of _ "v # vs"] exI [of _ "t # ts"]) auto
next
  case (4 opt h w d anc)
  then show ?case by (auto simp: appended_nil)
next
  case (5 opt h w k v es d anc)
  from 5(3) obtain w1 w2 where w1: "encodeText w k opt = Inr w1" and w2: "encodeValue opt h w1 v d anc = Inr w2"
    and rest: "encodeEntries opt h w2 es d anc = Inr w'" by auto
  note k = encodeText_ok [OF w1 5(4)]
  from 5(1) [OF w1 w2 appended_wf [OF conjunct1 [OF k]] 5(5)] 5(6) obtain t where
    t: "cbor_denotes h v t" "appended w1 (tree_bytes t) w2" "tree_ok opt d t" by auto
  from 5(2) [OF w1 w2 rest appended_wf [OF t(2)] 5(5)] 5(6) obtain fs where
    "entries_denote h es fs" "appended w2 (entry_bytes fs) w'"
    "\<forall>e \<in> set fs. text_ok opt (fst e) \<and> tree_ok opt d (snd e)" by auto
  with t k appended_trans [OF conjunct1 [OF k] appended_trans [OF t(2)]] show ?case
    by (intro exI [of _ "(k, t) # fs"]) auto
qed

section \<open>The decoder reads the byte form back\<close>

lemma readBytes_append: "length b = n \<Longrightarrow> readBytes n (b @ r) = Inr (b, r)"
  by (auto simp: readBytes_def)

lemma readUint32_bytes: "n < 2 ^ 32 \<Longrightarrow> readUint32 (uint32_bytes n @ r) = Inr (n, r)"
  using read_uint32_bytes [of n "[]"] by (simp add: readUint32_def readBytes_append)

lemma readArgument_bytes:
  assumes "n < 2 ^ 53"
  obtains ai r where "argument_bytes m n @ rest = u8 (m * 32 + ai) # r" and "ai < 28" and "readArgument ai r = Inr (n, rest)"
proof -
  consider "n < 24" | "24 \<le> n" "n \<le> 0xff" | "0xff < n" "n \<le> 0xffff" | "0xffff < n" "n \<le> MAX_UINT32" | "MAX_UINT32 < n"
    by linarith
  then show thesis
  proof cases
    case 1
    then show ?thesis by (intro that [of n rest]) (simp_all add: argument_bytes_def readArgument_def)
  next
    case 2
    then show ?thesis
      by (intro that [of 24 "u8 n # rest"]) (simp_all add: argument_bytes_def readArgument_def readByte_def)
  next
    case 3
    have "n div 256 < 256" using 3 by auto
    moreover have "n div 256 * 256 + n mod 256 = n" by simp
    ultimately show ?thesis
      using 3 by (intro that [of 25 "u8 (n div 2 ^ 8) # u8 n # rest"])
        (simp_all add: argument_bytes_def readArgument_def readBytes_def unat_u8)
  next
    case 4
    then show ?thesis
      by (intro that [of 26 "uint32_bytes n @ rest"])
        (simp_all add: argument_bytes_def readArgument_def readUint32_bytes MAX_UINT32_def)
  next
    case 5
    have "n div UINT32_BASE < 2 ^ 32" "n mod UINT32_BASE < 2 ^ 32" "n div UINT32_BASE \<le> 0x1fffff"
      using assms by (auto simp: UINT32_BASE_def less_mult_imp_div_less)
    then show ?thesis
      using 5 by (intro that [of 27 "uint32_bytes (n div UINT32_BASE) @ uint32_bytes (n mod UINT32_BASE) @ rest"])
        (simp_all add: argument_bytes_def readArgument_def readUint32_bytes MAX_UINT32_def)
  qed
qed

lemma initial_byte:
  fixes ai :: nat
  assumes "ai < 28"
  shows "(32 + ai) div 32 = 1" "(32 + ai) mod 32 = ai" "(64 + ai) div 32 = 2" "(64 + ai) mod 32 = ai"
    "(96 + ai) div 32 = 3" "(96 + ai) mod 32 = ai" "(128 + ai) div 32 = 4" "(128 + ai) mod 32 = ai"
    "(160 + ai) div 32 = 5" "(160 + ai) mod 32 = ai"
proof -
  have g: "(k * 32 + ai) div 32 = k \<and> (k * 32 + ai) mod 32 = ai" for k using assms by simp
  show "(32 + ai) div 32 = 1" "(32 + ai) mod 32 = ai" using g [of 1] by simp_all
  show "(64 + ai) div 32 = 2" "(64 + ai) mod 32 = ai" using g [of 2] by simp_all
  show "(96 + ai) div 32 = 3" "(96 + ai) mod 32 = ai" using g [of 3] by simp_all
  show "(128 + ai) div 32 = 4" "(128 + ai) mod 32 = ai" using g [of 4] by simp_all
  show "(160 + ai) div 32 = 5" "(160 + ai) mod 32 = ai" using g [of 5] by simp_all
qed

text \<open>Reading the head of an item of each major type that carries an argument.\<close>

lemma readItem_majors:
  assumes n: "n < 2 ^ 53" and d: "d \<le> maxDepth opt"
  shows "readItem opt d (argument_bytes 0 n @ rest) = Inr (CtNum (JsInt (int n)), rest)"
    and "js_is_safe_integer (JsInt (- 1 - int n)) \<Longrightarrow>
      readItem opt d (argument_bytes 1 n @ rest) = Inr (CtNum (JsInt (- 1 - int n)), rest)"
    and "n \<le> maxByteLength opt \<Longrightarrow> readItem opt d (argument_bytes 2 n @ rest) =
      rbind (readBytes n rest) (\<lambda>(b, r). Inr (CtBytes b, r))"
    and "n \<le> maxByteLength opt \<Longrightarrow> readItem opt d (argument_bytes 3 n @ rest) =
      rbind (readBytes n rest) (\<lambda>(b, r). case utf8_decode b of None \<Rightarrow> Inl InvalidUtf8 | Some s \<Rightarrow> Inr (CtText s, r))"
    and "n \<le> maxContainerLength opt \<Longrightarrow> readItem opt d (argument_bytes 4 n @ rest) =
      rbind (readElements opt (d + 1) n rest) (\<lambda>(ts, r). Inr (CtArray ts, r))"
    and "n \<le> maxContainerLength opt \<Longrightarrow> readItem opt d (argument_bytes 5 n @ rest) =
      rbind (readEntries opt (d + 1) n {} rest) (\<lambda>(es, r). Inr (CtMap es, r))"
proof -
  have head: "\<exists>ai r. argument_bytes m n @ rest = u8 (m * 32 + ai) # r \<and> ai < 28 \<and> readArgument ai r = Inr (n, rest)" for m
    using readArgument_bytes [OF n, of m rest] by metis
  show "readItem opt d (argument_bytes 0 n @ rest) = Inr (CtNum (JsInt (int n)), rest)"
    using head [of 0] d by (elim exE conjE) (simp add: readItem.simps readByte_def initial_byte)
  show "readItem opt d (argument_bytes 1 n @ rest) = Inr (CtNum (JsInt (- 1 - int n)), rest)"
    if "js_is_safe_integer (JsInt (- 1 - int n))"
    using head [of 1] d that by (elim exE conjE) (simp add: readItem.simps readByte_def initial_byte)
  show "readItem opt d (argument_bytes 2 n @ rest) = rbind (readBytes n rest) (\<lambda>(b, r). Inr (CtBytes b, r))"
    if "n \<le> maxByteLength opt"
    using head [of 2] d that by (elim exE conjE) (simp add: readItem.simps readByte_def readLength_def initial_byte)
  show "readItem opt d (argument_bytes 3 n @ rest) =
      rbind (readBytes n rest) (\<lambda>(b, r). case utf8_decode b of None \<Rightarrow> Inl InvalidUtf8 | Some s \<Rightarrow> Inr (CtText s, r))"
    if "n \<le> maxByteLength opt"
    using head [of 3] d that by (elim exE conjE) (simp add: readItem.simps readByte_def readLength_def initial_byte)
  show "readItem opt d (argument_bytes 4 n @ rest) =
      rbind (readElements opt (d + 1) n rest) (\<lambda>(ts, r). Inr (CtArray ts, r))"
    if "n \<le> maxContainerLength opt"
    using head [of 4] d that by (elim exE conjE) (simp add: readItem.simps readByte_def readLength_def initial_byte)
  show "readItem opt d (argument_bytes 5 n @ rest) =
      rbind (readEntries opt (d + 1) n {} rest) (\<lambda>(es, r). Inr (CtMap es, r))"
    if "n \<le> maxContainerLength opt"
    using head [of 5] d that by (elim exE conjE) (simp add: readItem.simps readByte_def readLength_def initial_byte)
qed

lemma float64_roundtrip: "length (float64_bytes b) = 8" "read_float64 (float64_bytes b) = b"
proof -
  show "length (float64_bytes b) = 8" by (simp add: float64_bytes_def)
  have "unat b < 2 ^ 64" using unsigned_less [of b] by simp
  then have "unat b div 2 ^ 32 < 2 ^ 32" by (simp add: less_mult_imp_div_less)
  then have "read_float64 (float64_bytes b) = word_of_nat (unat b div 2 ^ 32 * 2 ^ 32 + unat b mod 2 ^ 32)"
    using read_uint32_bytes [of "unat b mod 2 ^ 32" "[]"] by (simp add: read_float64_def float64_bytes_def read_uint32_bytes)
  then show "read_float64 (float64_bytes b) = b" by (simp only: div_mult_mod_eq) simp
qed

lemma float64_negzero: "float64_value 0x8000000000000000 = JsNegZero"
  by (simp add: float64_value_def Let_def)

definition limits_ok :: "resolved_options \<Rightarrow> bool" where
  "limits_ok opt \<longleftrightarrow> maxByteLength opt < 2 ^ 32 \<and> maxContainerLength opt < 2 ^ 32"

lemma resolveOptions_limits: "resolveOptions options = Inr opt \<Longrightarrow> limits_ok opt"
  by (auto simp: resolveOptions_def resolveLimit_def limits_ok_def MAX_UINT32_def split: option.splits if_splits)

lemma read_float_item:
  assumes "float64_value b = x" and "number_ok x" and "d \<le> maxDepth opt"
  shows "readItem opt d (u8 0xfb # float64_bytes b @ rest) = Inr (CtNum x, rest)"
  using assms
  by (simp add: readItem.simps readByte_def readSimple_def readBytes_append float64_roundtrip number_ok_def)

lemma read_number:
  assumes "number_ok x" and "d \<le> maxDepth opt"
  shows "readItem opt d (number_bytes x @ rest) = Inr (CtNum x, rest)"
proof (cases x)
  case (JsInt n)
  then have safe: "- (2 ^ 53 - 1) \<le> n" "n \<le> 2 ^ 53 - 1"
    using assms(1) by (auto simp: number_ok_def js_is_integer_def js_is_safe_integer_def max_safe_integer_def)
  show ?thesis
  proof (cases "0 \<le> n")
    case True
    then have "nat n < 2 ^ 53" using safe by auto
    then show ?thesis using True JsInt assms(2) by (simp add: number_bytes_def readItem_majors(1))
  next
    case False
    then have "nat (- 1 - n) < 2 ^ 53" and n: "- 1 - int (nat (- 1 - n)) = n" using safe by auto
    then show ?thesis
      using readItem_majors(2) [of "nat (- 1 - n)" d opt rest] False JsInt safe assms(2)
      by (simp add: number_bytes_def js_is_safe_integer_def max_safe_integer_def)
  qed
qed (use assms in \<open>auto simp: number_bytes_def number_ok_def wf_num_def float64_negzero intro!: read_float_item\<close>)

lemma read_text:
  assumes "text_ok opt s" and "d \<le> maxDepth opt" and "limits_ok opt"
  shows "readItem opt d (text_bytes s @ rest) = Inr (CtText s, rest)"
proof -
  have "length (utf8_encode s) < 2 ^ 53" using assms by (simp add: text_ok_def limits_ok_def)
  then show ?thesis
    using assms by (simp add: text_bytes_def readItem_majors(4) text_ok_def readBytes_append utf8_roundtrip [THEN iffD2])
qed

lemma read_elements:
  assumes "\<And>t rest. t \<in> set ts \<Longrightarrow> readItem opt d (tree_bytes t @ rest) = Inr (t, rest)"
  shows "readElements opt d (length ts) (concat (map tree_bytes ts) @ rest) = Inr (ts, rest)"
  using assms by (induction ts) auto

lemma read_entries:
  assumes "\<And>e rest. e \<in> set es \<Longrightarrow> readItem opt d (tree_bytes (snd e) @ rest) = Inr (snd e, rest)"
    and "\<And>e. e \<in> set es \<Longrightarrow> text_ok opt (fst e)" and "es \<noteq> [] \<Longrightarrow> d \<le> maxDepth opt" and "limits_ok opt"
    and "distinct (map fst es)" and "keys \<inter> fst ` set es = {}"
  shows "readEntries opt d (length es) keys (entry_bytes es @ rest) = Inr (es, rest)"
  using assms
proof (induction es arbitrary: keys)
  case Nil
  then show ?case by simp
next
  case (Cons e es)
  obtain k t where e: "e = (k, t)" by (cases e)
  have "readEntries opt d (length es) (insert k keys) (entry_bytes es @ rest) = Inr (es, rest)"
    using Cons.prems by (intro Cons.IH) (auto simp: e)
  moreover have "readItem opt d (text_bytes k @ r) = Inr (CtText k, r)" for r
    using Cons.prems(2) [of e] Cons.prems(3,4) by (intro read_text) (simp_all add: e)
  moreover have "readItem opt d (tree_bytes t @ r) = Inr (t, r)" for r
    using Cons.prems(1) [of e] by (simp add: e)
  ultimately show ?case using Cons.prems(6) by (simp add: e)
qed

lemma tree_ok_depth: "tree_ok opt d t \<Longrightarrow> d \<le> maxDepth opt"
  by (cases t) auto

lemma read_tree:
  assumes "limits_ok opt"
  shows "tree_ok opt d t \<Longrightarrow> readItem opt d (tree_bytes t @ rest) = Inr (t, rest)"
proof (induction t arbitrary: d rest)
  case CtNull
  then show ?case by (simp add: readItem.simps readByte_def readSimple_def)
next
  case (CtBool b)
  then show ?case by (simp add: readItem.simps readByte_def readSimple_def)
next
  case (CtNum x)
  then show ?case by (simp add: read_number)
next
  case (CtText s)
  then show ?case using assms by (simp add: read_text)
next
  case (CtBytes bs)
  then show ?case using assms by (simp add: readItem_majors(3) readBytes_append limits_ok_def)
next
  case (CtArray ts)
  then have "readElements opt (d + 1) (length ts) (concat (map tree_bytes ts) @ rest) = Inr (ts, rest)"
    by (intro read_elements) auto
  with CtArray.prems assms show ?case by (simp add: readItem_majors(5) limits_ok_def)
next
  case (CtMap es)
  then have "readEntries opt (d + 1) (length es) {} (entry_bytes es @ rest) = Inr (es, rest)"
    using assms by (intro read_entries) (auto dest: tree_ok_depth intro!: CtMap.IH, use tree_ok_depth in \<open>fastforce simp: neq_Nil_conv\<close>)
  with CtMap.prems assms show ?case by (simp add: readItem_majors(6) limits_ok_def)
qed

text \<open>Whatever the encoder writes, the decoder reads back as the tree the value stands for.\<close>

lemma encode_decode:
  assumes "encodeCbor h v options = Inr bs" and "wf_cbor_heap h" and "wf_val v"
  shows "\<exists>t. cbor_denotes h v t \<and> bs = tree_bytes t \<and> decodeCbor bs options = Inr t"
proof -
  obtain opt w where opt: "resolveOptions options = Inr opt"
    and enc: "encodeValue opt h (new_writer (maxByteLength opt)) v 0 {} = Inr w" and bs: "bs = finish w"
    using assms(1) by (auto simp: encodeCbor_def)
  from encode_appends(1) [OF enc wf_new_writer(1) assms(2,3)] obtain t where
    t: "cbor_denotes h v t" "appended (new_writer (maxByteLength opt)) (tree_bytes t) w" "tree_ok opt 0 t" by blast
  have "finish w = tree_bytes t" and len: "length (finish w) \<le> maxByteLength opt"
    using t(2) finish_length [of w] by (auto simp: appended_def wf_new_writer wf_writer_def)
  moreover have "decodeCbor (tree_bytes t) options = Inr t"
    using read_tree [OF resolveOptions_limits [OF opt] t(3), of "[]"] len calculation(1)
    by (simp add: decodeCbor_def opt)
  ultimately show ?thesis using t(1) bs by auto
qed

section \<open>Decoded trees are within the limits\<close>

fun tree_within :: "resolved_options \<Rightarrow> nat \<Rightarrow> cbor_tree \<Rightarrow> bool" where
  "tree_within opt d CtNull = (d \<le> maxDepth opt)"
| "tree_within opt d (CtBool b) = (d \<le> maxDepth opt)"
| "tree_within opt d (CtNum x) = (d \<le> maxDepth opt \<and> js_is_finite x \<and> (js_is_integer x \<longrightarrow> js_is_safe_integer x))"
| "tree_within opt d (CtText s) = (d \<le> maxDepth opt)"
| "tree_within opt d (CtBytes bs) = (d \<le> maxDepth opt \<and> length bs \<le> maxByteLength opt)"
| "tree_within opt d (CtArray ts) =
     (d \<le> maxDepth opt \<and> length ts \<le> maxContainerLength opt \<and> (\<forall>t \<in> set ts. tree_within opt (Suc d) t))"
| "tree_within opt d (CtMap es) =
     (d \<le> maxDepth opt \<and> length es \<le> maxContainerLength opt \<and> distinct (map fst es) \<and>
      (\<forall>e \<in> set es. tree_within opt (Suc d) (snd e)))"

lemma read_uint32_less: "read_uint32 bs < 2 ^ 32"
proof -
  have "unat (bs ! k) < 256" for k using unsigned_less [of "bs ! k"] by simp
  from this [of 0] this [of 1] this [of 2] this [of 3] show ?thesis by (simp add: read_uint32_def)
qed

lemma readArgument_safe:
  assumes "readArgument ai bs = Inr (n, r)"
  shows "n \<le> 9007199254740991"
proof -
  have b: "unat (x :: byte) < 256" for x using unsigned_less [of x] by simp
  have "unat x * 256 + unat y \<le> 9007199254740991" for x y :: byte using b [of x] b [of y] by simp
  moreover have "unat x \<le> 9007199254740991" for x :: byte using b [of x] by simp
  moreover have u: "read_uint32 x \<le> 4294967295" for x using read_uint32_less [of x] by simp
  then have "read_uint32 x \<le> 9007199254740991" for x using u [of x] by linarith
  moreover have "\<not> 2097151 < read_uint32 x \<Longrightarrow> read_uint32 x * 4294967296 + read_uint32 y \<le> 9007199254740991" for x y
    using u [of y] by linarith
  ultimately show ?thesis
    using assms
    by (auto simp: readArgument_def readByte_def readUint32_def UINT32_BASE_def split: if_splits list.splits)
qed

lemma readElements_all:
  assumes "\<And>bs t r. readItem opt d bs = Inr (t, r) \<Longrightarrow> P t"
  shows "readElements opt d n bs = Inr (ts, r) \<Longrightarrow> length ts = n \<and> (\<forall>t \<in> set ts. P t)"
  using assms by (induction n arbitrary: bs ts r) fastforce+

lemma readEntries_all:
  assumes "\<And>bs t r. readItem opt d bs = Inr (t, r) \<Longrightarrow> P t"
  shows "readEntries opt d n keys bs = Inr (es, r) \<Longrightarrow>
    length es = n \<and> distinct (map fst es) \<and> fst ` set es \<inter> keys = {} \<and> (\<forall>e \<in> set es. P (snd e))"
proof (induction n arbitrary: keys bs es r)
  case 0
  then show ?case by simp
next
  case (Suc n)
  then obtain a r1 where a: "readItem opt d bs = Inr (a, r1)" by auto
  with Suc.prems obtain k t r2 es' where k: "k \<notin> keys" and t: "readItem opt d r1 = Inr (t, r2)"
    and es': "readEntries opt d n (insert k keys) r2 = Inr (es', r)" and es: "es = (k, t) # es'"
    by (cases a) (auto split: if_splits)
  from Suc.IH [OF es'] assms [OF t] k show ?case by (auto simp: es)
qed

lemma readSimple_within:
  "readSimple ai bs = Inr (t, r) \<Longrightarrow> d \<le> maxDepth opt \<Longrightarrow> tree_within opt d t"
  by (auto simp: readSimple_def Let_def split: if_splits)

lemma read_within: "readItem opt d bs = Inr (t, r) \<Longrightarrow> tree_within opt d t"
proof (induction "Suc (maxDepth opt) - d" arbitrary: d bs t r)
  case 0
  then show ?case by (simp add: readItem.simps)
next
  case (Suc k)
  have d: "d \<le> maxDepth opt" using Suc.prems by (auto simp: readItem.simps split: if_splits)
  have IH: "readItem opt (Suc d) bs' = Inr (t', r') \<Longrightarrow> tree_within opt (Suc d) t'" for bs' t' r'
    using Suc.hyps(1) [of "Suc d"] Suc.hyps(2) by simp
  have elements: "readElements opt (Suc d) n bs' = Inr (ts, r') \<Longrightarrow> length ts = n \<and> (\<forall>t \<in> set ts. tree_within opt (Suc d) t)"
    for n bs' ts r' by (rule readElements_all [where P = "tree_within opt (Suc d)"]) (rule IH)
  have entries: "readEntries opt (Suc d) n keys bs' = Inr (es, r') \<Longrightarrow>
      length es = n \<and> distinct (map fst es) \<and> fst ` set es \<inter> keys = {} \<and> (\<forall>e \<in> set es. tree_within opt (Suc d) (snd e))"
    for n keys bs' es r' by (rule readEntries_all [where P = "tree_within opt (Suc d)"]) (rule IH)
  obtain b r1 where b: "readByte bs = Inr (b, r1)" using Suc.prems d by (auto simp: readItem.simps)
  note run = Suc.prems [unfolded readItem.simps [of opt d], simplified b rbind_Inr prod.case Let_def]
  consider "b div 32 = 0" | "b div 32 = 1" | "b div 32 = 2" | "b div 32 = 3" | "b div 32 = 4" | "b div 32 = 5"
    | "b div 32 = 6" | "6 < b div 32" by linarith
  then show ?case
  proof cases
    case 1
    then show ?thesis
      using run d by (auto simp: js_is_safe_integer_def max_safe_integer_def dest!: readArgument_safe)
  next
    case 2
    then show ?thesis using run d by (auto split: if_splits)
  next
    case 3
    then show ?thesis using run d by (auto simp: readLength_def readBytes_def split: if_splits)
  next
    case 4
    then show ?thesis using run d by (auto split: option.splits)
  next
    case 5
    then show ?thesis
      using run d by (auto simp: readLength_def split: if_splits dest!: elements)
  next
    case 6
    then show ?thesis
      using run d by (auto simp: readLength_def split: if_splits dest!: entries)
  next
    case 7
    then show ?thesis using run d by simp
  next
    case 8
    then show ?thesis using run d by (auto intro: readSimple_within)
  qed
qed

section \<open>The encoder accepts every tree within the limits\<close>

lemma list_all2_determined:
  "list_all2 (\<lambda>x y. \<forall>y'. R x y' \<longrightarrow> y = y') xs ys \<Longrightarrow> list_all2 R xs ys' \<Longrightarrow> ys = ys'"
  by (induction xs ys arbitrary: ys' rule: list_all2_induct) (auto simp: list_all2_Cons1)

lemma cbor_denotes_unique: "cbor_denotes h v t \<Longrightarrow> \<forall>t'. cbor_denotes h v t' \<longrightarrow> t = t'"
proof (induction rule: cbor_denotes.induct)
  case (cd_array l vs ts)
  show ?case
  proof (intro allI impI)
    fix t' assume "cbor_denotes h (CvRef l) t'"
    then obtain vs' ts' where r: "t' = CtArray ts'" "map Some vs = map Some vs'" "list_all2 (cbor_denotes h) vs' ts'"
      by (cases rule: cbor_denotes.cases) (auto simp: cd_array.hyps)
    moreover have "vs = vs'" using r(2) by (simp add: inj_map_eq_map)
    moreover have "list_all2 (\<lambda>v t. \<forall>t'. cbor_denotes h v t' \<longrightarrow> t = t') vs ts"
      using cd_array.IH by (auto elim: list_all2_mono)
    ultimately show "CtArray ts = t'" using list_all2_determined by blast
  qed
next
  case (cd_object l ps es)
  show ?case
  proof (intro allI impI)
    fix t' assume "cbor_denotes h (CvRef l) t'"
    then obtain es' where r: "t' = CtMap es'" "entries_denote h (filter (\<lambda>(k, v). v \<noteq> CvUndefined) ps) es'"
      by (cases rule: cbor_denotes.cases) (auto simp: cd_object.hyps)
    have "list_all2 (\<lambda>p e. \<forall>e'. fst p = fst e' \<and> cbor_denotes h (snd p) (snd e') \<longrightarrow> e = e')
        (filter (\<lambda>(k, v). v \<noteq> CvUndefined) ps) es"
      using cd_object.IH by (rule list_all2_mono) (auto simp: prod_eq_iff)
    then have "es = es'" using r(2) by (rule list_all2_determined)
    then show "CtMap es = t'" using r(1) by simp
  qed
qed (auto elim: cbor_denotes.cases)

text \<open>An object whose finite tree is larger than a part of it is not itself that part, so following the references of a value
  that stands for a tree never meets an ancestor.\<close>

definition above :: "cbor_heap \<Rightarrow> nat set \<Rightarrow> cbor_tree \<Rightarrow> bool" where
  "above h anc t \<longleftrightarrow> (\<forall>l \<in> anc. \<forall>t'. cbor_denotes h (CvRef l) t' \<longrightarrow> size t < size t')"

lemma above_fresh: "above h anc t \<Longrightarrow> cbor_denotes h (CvRef l) t \<Longrightarrow> l \<notin> anc"
  by (auto simp: above_def)

lemma above_child:
  "above h anc t \<Longrightarrow> cbor_denotes h (CvRef l) t \<Longrightarrow> size t' < size t \<Longrightarrow> above h (insert l anc) t'"
  using cbor_denotes_unique [of h "CvRef l" t] unfolding above_def by (metis insert_iff less_trans)

lemma element_size: "t \<in> set ts \<Longrightarrow> size t < size (CtArray ts)"
  by (induction ts) auto

lemma entry_size: "e \<in> set es \<Longrightarrow> size (snd e) < size (CtMap es)"
  by (induction es) auto

lemma writeBytes_fits:
  assumes "wf_writer w" and "length (finish w) + length bs \<le> wr_maxByteLength w"
  shows "\<exists>w'. writeBytes w bs = Inr w' \<and> appended w bs w'"
  using writeBytes_cases [OF assms(1), of bs] assms(2) by auto

text \<open>An encoding step that appends given bytes wherever they fit.\<close>

definition writes :: "(cbor_writer \<Rightarrow> cbor_error + cbor_writer) \<Rightarrow> byte list \<Rightarrow> bool" where
  "writes f bs \<longleftrightarrow> (\<forall>w. wf_writer w \<longrightarrow> length (finish w) + length bs \<le> wr_maxByteLength w \<longrightarrow>
     (\<exists>w'. f w = Inr w' \<and> appended w bs w'))"

lemma writes_bytes [intro, simp]: "writes (\<lambda>w. writeBytes w bs) bs"
  by (simp add: writes_def writeBytes_fits)

lemma writes_nil [intro]: "writes Inr []"
  by (simp add: writes_def appended_nil)

lemma writes_seq:
  assumes f: "writes f a" and g: "writes g b"
  shows "writes (\<lambda>w. rbind (f w) g) (a @ b)"
  unfolding writes_def
proof (intro allI impI)
  fix w assume w: "wf_writer w" "length (finish w) + length (a @ b) \<le> wr_maxByteLength w"
  then obtain w1 where w1: "f w = Inr w1" "appended w a w1" using f by (auto simp: writes_def)
  then have "wf_writer w1" "length (finish w1) + length b \<le> wr_maxByteLength w1" using w by (auto simp: appended_def)
  then obtain w2 where "g w1 = Inr w2" "appended w1 b w2" using g by (auto simp: writes_def)
  with w1 show "\<exists>w'. rbind (f w) g = Inr w' \<and> appended w (a @ b) w'" using appended_trans by auto
qed

lemma writes_byte: "writes (\<lambda>w. writeByte w n) [u8 n]"
  by (simp add: writeByte_def)

lemma writes_argument: "writes (\<lambda>w. writeArgument w major n) (argument_bytes major n)"
proof -
  note seq = writes_seq [OF writes_byte, where g = "\<lambda>w. writeUint16 w n"]
  have "n - n div UINT32_BASE * UINT32_BASE = n mod UINT32_BASE" by (simp add: minus_div_mult_eq_mod)
  then have "writes (\<lambda>w. writeUint64 w n) (uint32_bytes (n div UINT32_BASE) @ uint32_bytes (n mod UINT32_BASE))"
    using writes_seq [OF writes_bytes writes_bytes, of "uint32_bytes (n div UINT32_BASE)" "uint32_bytes (n mod UINT32_BASE)"]
    by (simp add: writeUint64_def writeUint32_def)
  from writes_seq [OF writes_byte this, of "major * 32 + 27"] writes_byte [of "major * 32 + n"]
    writes_seq [OF writes_byte writes_byte, of "major * 32 + 24" n]
    writes_seq [OF writes_byte writes_bytes, of "major * 32 + 25" "[u8 (n div 2 ^ 8), u8 n]"]
    writes_seq [OF writes_byte writes_bytes, of "major * 32 + 26" "uint32_bytes n"]
  show ?thesis by (simp add: writeArgument_def argument_bytes_def Let_def writeUint16_def writeUint32_def)
qed

lemma writes_text:
  assumes "text_ok opt s"
  shows "writes (\<lambda>w. encodeText w s opt) (text_bytes s)"
  using writes_seq [OF writes_argument writes_bytes, of 3 "length (utf8_encode s)" "utf8_encode s"] assms
  by (simp add: encodeText_def text_bytes_def text_ok_def utf8_roundtrip Let_def)

lemma writes_number:
  assumes "number_ok x"
  shows "writes (\<lambda>w. encodeNumber w x) (number_bytes x)"
  using assms
  by (cases x) (auto simp: number_ok_def encodeNumber_def number_bytes_def js_is_integer_def
      writeFloat64_def writes_argument)

lemma writes_elements:
  assumes "list_all2 (\<lambda>v t. v \<noteq> CvUndefined \<and> writes (\<lambda>w. encodeValue opt h w v d anc) (tree_bytes t)) vs ts"
  shows "writes (\<lambda>w. encodeElements opt h w (map Some vs) d anc) (concat (map tree_bytes ts))"
  using assms
proof (induction vs ts rule: list_all2_induct)
  case (Cons v vs t ts)
  then show ?case using writes_seq [of "\<lambda>w. encodeValue opt h w v d anc" "tree_bytes t"] by simp
qed (simp add: writes_nil)

lemma writes_entries:
  assumes "list_all2 (\<lambda>p e. fst p = fst e \<and> text_ok opt (fst e) \<and>
    writes (\<lambda>w. encodeValue opt h w (snd p) d anc) (tree_bytes (snd e))) ps es"
  shows "writes (\<lambda>w. encodeEntries opt h w ps d anc) (entry_bytes es)"
  using assms
proof (induction ps es rule: list_all2_induct)
  case (Cons p ps e es)
  obtain k v t where [simp]: "p = (k, v)" "e = (k, t)" using Cons.hyps by (cases p; cases e) auto
  from Cons.hyps have k: "writes (\<lambda>w. encodeText w k opt) (text_bytes k)"
    and v: "writes (\<lambda>w. encodeValue opt h w v d anc) (tree_bytes t)" by (simp_all add: writes_text)
  show ?case using writes_seq [OF k writes_seq [OF v Cons.IH]] by simp
qed (simp add: writes_nil)

lemma denoting_defined: "cbor_denotes h v t \<Longrightarrow> v \<noteq> CvUndefined"
  by (auto elim: cbor_denotes.cases)

lemma list_all2_with_second: "list_all2 P xs ys \<Longrightarrow> (\<And>x y. P x y \<Longrightarrow> y \<in> set ys \<Longrightarrow> Q x y) \<Longrightarrow> list_all2 Q xs ys"
  by (auto simp: list_all2_conv_all_nth)

lemma encode_writes:
  "cbor_denotes h v t \<Longrightarrow> \<forall>d anc. tree_ok opt d t \<longrightarrow> above h anc t \<longrightarrow>
     writes (\<lambda>w. encodeValue opt h w v d anc) (tree_bytes t)"
proof (induction rule: cbor_denotes.induct)
  case (cd_bytes l bs)
  then show ?case using writes_seq [OF writes_argument writes_bytes, of 2 "length bs" bs] by (simp add: encodeValue.simps)
next
  case (cd_array l vs ts)
  have den: "cbor_denotes h (CvRef l) (CtArray ts)"
    using cd_array.hyps cd_array.IH by (auto intro!: cbor_denotes.cd_array elim: list_all2_mono)
  show ?case
  proof (intro allI impI)
    fix d anc assume ok: "tree_ok opt d (CtArray ts)" and ab: "above h anc (CtArray ts)"
    have "list_all2 (\<lambda>v t. v \<noteq> CvUndefined \<and> writes (\<lambda>w. encodeValue opt h w v (d + 1) (insert l anc)) (tree_bytes t)) vs ts"
      using cd_array.IH
    proof (rule list_all2_with_second)
      fix v t
      assume a: "cbor_denotes h v t \<and> (\<forall>d anc. tree_ok opt d t \<longrightarrow> above h anc t \<longrightarrow>
          writes (\<lambda>w. encodeValue opt h w v d anc) (tree_bytes t))" and t: "t \<in> set ts"
      show "v \<noteq> CvUndefined \<and> writes (\<lambda>w. encodeValue opt h w v (d + 1) (insert l anc)) (tree_bytes t)"
        using a ok t above_child [OF ab den element_size [OF t]] denoting_defined by auto
    qed
    from writes_seq [OF writes_argument writes_elements [OF this], of 4 "length ts"]
    show "writes (\<lambda>w. encodeValue opt h w (CvRef l) d anc) (tree_bytes (CtArray ts))"
      using ok above_fresh [OF ab den] cd_array.hyps list_all2_lengthD [OF cd_array.IH] by (simp add: encodeValue.simps)
  qed
next
  case (cd_object l ps es)
  let ?ps = "filter (\<lambda>(k, v). v \<noteq> CvUndefined) ps"
  have den: "cbor_denotes h (CvRef l) (CtMap es)"
    using cd_object.hyps cd_object.IH by (auto intro!: cbor_denotes.cd_object elim: list_all2_mono)
  show ?case
  proof (intro allI impI)
    fix d anc assume ok: "tree_ok opt d (CtMap es)" and ab: "above h anc (CtMap es)"
    have "list_all2 (\<lambda>p e. fst p = fst e \<and> text_ok opt (fst e) \<and>
        writes (\<lambda>w. encodeValue opt h w (snd p) (d + 1) (insert l anc)) (tree_bytes (snd e))) ?ps es"
      using cd_object.IH
    proof (rule list_all2_with_second)
      fix p e
      assume a: "fst p = fst e \<and> cbor_denotes h (snd p) (snd e) \<and> (\<forall>d anc. tree_ok opt d (snd e) \<longrightarrow>
          above h anc (snd e) \<longrightarrow> writes (\<lambda>w. encodeValue opt h w (snd p) d anc) (tree_bytes (snd e)))" and e: "e \<in> set es"
      show "fst p = fst e \<and> text_ok opt (fst e) \<and>
          writes (\<lambda>w. encodeValue opt h w (snd p) (d + 1) (insert l anc)) (tree_bytes (snd e))"
        using a ok e above_child [OF ab den entry_size [OF e]] by auto
    qed
    from writes_seq [OF writes_argument writes_entries [OF this], of 5 "length es"]
    show "writes (\<lambda>w. encodeValue opt h w (CvRef l) d anc) (tree_bytes (CtMap es))"
      using ok above_fresh [OF ab den] cd_object.hyps list_all2_lengthD [OF cd_object.IH]
      by (simp add: encodeValue.simps Let_def)
  qed
qed (simp_all add: encodeValue.simps writes_number writes_text writes_byte)

lemma encode_accepts:
  assumes "cbor_denotes h v t" and "tree_ok opt 0 t" and "length (tree_bytes t) \<le> maxByteLength opt"
    and "resolveOptions options = Inr opt"
  shows "encodeCbor h v options = Inr (tree_bytes t)"
proof -
  have "writes (\<lambda>w. encodeValue opt h w v 0 {}) (tree_bytes t)"
    using encode_writes [OF assms(1)] assms(2) by (simp add: above_def)
  then obtain w' where "encodeValue opt h (new_writer (maxByteLength opt)) v 0 {} = Inr w'"
      "appended (new_writer (maxByteLength opt)) (tree_bytes t) w'"
    using assms(3) unfolding writes_def by (metis wf_new_writer add_0 list.size(3))
  then show ?thesis using assms(4) by (simp add: encodeCbor_def appended_def wf_new_writer)
qed

section \<open>Properties of the codec\<close>

lemma encode_ok:
  assumes "encodeCbor h v options = Inr bs" and "wf_cbor_heap h" and "wf_val v" and "resolveOptions options = Inr opt"
  shows "\<exists>t. cbor_denotes h v t \<and> tree_ok opt 0 t \<and> length (tree_bytes t) \<le> maxByteLength opt \<and> bs = tree_bytes t"
proof -
  obtain w where enc: "encodeValue opt h (new_writer (maxByteLength opt)) v 0 {} = Inr w" and bs: "bs = finish w"
    using assms(1,4) by (auto simp: encodeCbor_def)
  from encode_appends(1) [OF enc wf_new_writer(1) assms(2,3)] obtain t where
    t: "cbor_denotes h v t" "appended (new_writer (maxByteLength opt)) (tree_bytes t) w" "tree_ok opt 0 t" by blast
  moreover from t(2) have "length (finish w) \<le> maxByteLength opt"
    using finish_length [of w] by (auto simp: appended_def wf_new_writer wf_writer_def)
  ultimately show ?thesis using bs by (auto simp: appended_def wf_new_writer)
qed

text \<open>C3: Whatever the encoder accepts is decoded, under the same options, to the finite tree the value stands for: the two
  codecs agree, for every nesting, length and number the options allow.\<close>

theorem cbor_roundtrip:
  assumes "encodeCbor h v options = Inr bs" and "wf_cbor_heap h" and "wf_val v"
  shows "\<exists>t. cbor_denotes h v t \<and> decodeCbor bs options = Inr t"
  using encode_decode [OF assms] by blast

definition sample_cbor_heap :: cbor_heap where
  "sample_cbor_heap = [0 \<mapsto> CoPlain False [([97], CvNum (JsInt 300)), ([98], CvUndefined), ([99], CvRef 1)],
     1 \<mapsto> CoArray [Some CvNull, Some (CvNum JsNegZero)]]"

lemma sample_cbor_heap_wf: "wf_cbor_heap sample_cbor_heap"
  by (auto simp: wf_cbor_heap_def sample_cbor_heap_def wf_val_def wf_num_def split: if_splits)

definition sample_cbor_options :: "cbor_options option" where
  "sample_cbor_options = Some \<lparr>opt_maxByteLength = Some (JsInt 20), opt_maxContainerLength = None, opt_maxDepth = Some (JsInt 2)\<rparr>"

definition sample_cbor_bytes :: "byte list" where
  "sample_cbor_bytes = [0xa2, 0x61, 0x61, 0x19, 0x01, 0x2c, 0x61, 0x63, 0x82, 0xf6, 0xfb, 0x80, 0, 0, 0, 0, 0, 0, 0]"

lemma sample_cbor_resolved:
  "resolveOptions sample_cbor_options = Inr \<lparr>maxByteLength = 20, maxContainerLength = 1000000, maxDepth = 2\<rparr>"
  by (simp add: sample_cbor_options_def resolveOptions_def resolveLimit_def or_default_def js_is_safe_integer_def
      max_safe_integer_def DEFAULT_MAX_CBOR_CONTAINER_LENGTH_def MAX_UINT32_def MAX_CONFIGURED_DEPTH_def)

definition sample_cbor_tree :: cbor_tree where
  "sample_cbor_tree = CtMap [([97], CtNum (JsInt 300)), ([99], CtArray [CtNull, CtNum JsNegZero])]"

lemma sample_cbor_denotes: "cbor_denotes sample_cbor_heap (CvRef 0) sample_cbor_tree"
  unfolding sample_cbor_tree_def
  by (rule cd_object, simp add: sample_cbor_heap_def, simp)
    (auto intro!: cd_num cd_null cbor_denotes.cd_array [where vs = "[CvNull, CvNum JsNegZero]"] simp: sample_cbor_heap_def)

lemma sample_cbor_ok: "tree_ok \<lparr>maxByteLength = 20, maxContainerLength = 1000000, maxDepth = 2\<rparr> 0 sample_cbor_tree"
  by (simp add: sample_cbor_tree_def text_ok_def number_ok_def wf_num_def is_high_def is_low_def utf8_encode_def
      scalar_bytes_def js_is_integer_def js_is_safe_integer_def max_safe_integer_def)

lemma sample_cbor_tree_bytes: "tree_bytes sample_cbor_tree = sample_cbor_bytes"
  by (simp add: sample_cbor_tree_def sample_cbor_bytes_def argument_bytes_def text_bytes_def number_bytes_def
      float64_bytes_def uint32_bytes_def u8_def is_high_def is_low_def utf8_encode_def scalar_bytes_def)

lemma sample_cbor_encoded: "encodeCbor sample_cbor_heap (CvRef 0) sample_cbor_options = Inr sample_cbor_bytes"
  using encode_accepts [OF sample_cbor_denotes sample_cbor_ok _ sample_cbor_resolved]
  by (simp add: sample_cbor_tree_bytes) (simp add: sample_cbor_bytes_def)

theorem cbor_roundtrip_witness:
  "\<exists>t. cbor_denotes sample_cbor_heap (CvRef 0) t \<and> decodeCbor sample_cbor_bytes sample_cbor_options = Inr t"
  by (rule cbor_roundtrip [OF sample_cbor_encoded sample_cbor_heap_wf]) (simp add: wf_val_def)

text \<open>The encoder accepts a value exactly when it stands for a finite tree (so it has no cycle, hole or unsupported part) whose
  canonical bytes fit the maximum and which respects every limit, and it then returns those bytes.\<close>

theorem cbor_encoder_exact:
  assumes "wf_cbor_heap h" and "wf_val v" and "resolveOptions options = Inr opt"
  shows "encodeCbor h v options = Inr bs \<longleftrightarrow>
    (\<exists>t. cbor_denotes h v t \<and> tree_ok opt 0 t \<and> length (tree_bytes t) \<le> maxByteLength opt \<and> bs = tree_bytes t)"
  using encode_accepts [OF _ _ _ assms(3)] encode_ok [OF _ assms] by blast

theorem cbor_encoder_exact_witness:
  "encodeCbor sample_cbor_heap (CvRef 0) sample_cbor_options = Inr sample_cbor_bytes \<longleftrightarrow>
    (\<exists>t. cbor_denotes sample_cbor_heap (CvRef 0) t \<and>
       tree_ok \<lparr>maxByteLength = 20, maxContainerLength = 1000000, maxDepth = 2\<rparr> 0 t \<and>
       length (tree_bytes t) \<le> 20 \<and> sample_cbor_bytes = tree_bytes t)"
  using cbor_encoder_exact [OF sample_cbor_heap_wf _ sample_cbor_resolved, of "CvRef 0"] by (simp add: wf_val_def)

text \<open>Whatever bytes the decoder accepts, the tree it returns respects the configured limits: its nesting, the length of
  every byte string, array and map, distinct keys in every map, and only finite numbers whose integers are safe.\<close>

theorem cbor_decoded_within_limits:
  assumes "decodeCbor bs options = Inr t" and "resolveOptions options = Inr opt"
  shows "length bs \<le> maxByteLength opt \<and> tree_within opt 0 t"
  using assms by (auto simp: decodeCbor_def rcheck_def split: if_splits dest: read_within)

lemma sample_cbor_decoded: "decodeCbor sample_cbor_bytes sample_cbor_options = Inr sample_cbor_tree"
proof -
  obtain t where "cbor_denotes sample_cbor_heap (CvRef 0) t" "decodeCbor sample_cbor_bytes sample_cbor_options = Inr t"
    using encode_decode [OF sample_cbor_encoded sample_cbor_heap_wf] by (auto simp: wf_val_def)
  with cbor_denotes_unique [OF sample_cbor_denotes] show ?thesis by blast
qed

theorem cbor_decoded_within_limits_witness:
  "length sample_cbor_bytes \<le> 20 \<and>
   tree_within \<lparr>maxByteLength = 20, maxContainerLength = 1000000, maxDepth = 2\<rparr> 0 sample_cbor_tree"
  using cbor_decoded_within_limits [OF sample_cbor_decoded sample_cbor_resolved] by simp

text \<open>The growing buffer of the writer is invisible: writing to a well-formed writer fails exactly when the total would pass
  the configured maximum, and otherwise what it will finish to is extended by exactly the bytes written.\<close>

theorem writer_appends_within_limit:
  assumes "wf_writer w"
  shows "if length (finish w) + length bs > wr_maxByteLength w then writeBytes w bs = Inl ByteLengthLimit
    else \<exists>w'. writeBytes w bs = Inr w' \<and> wf_writer w' \<and> finish w' = finish w @ bs \<and> wr_maxByteLength w' = wr_maxByteLength w"
  using writeBytes_cases [OF assms, of bs] by (auto simp: appended_def)

theorem writer_appends_within_limit_witness:
  "writeBytes (new_writer 2) [1, 2, 3] = Inl ByteLengthLimit \<and> (\<exists>w'. writeBytes (new_writer 3) [1, 2, 3] = Inr w' \<and>
     wf_writer w' \<and> finish w' = [1, 2, 3] \<and> wr_maxByteLength w' = 3)"
  using writer_appends_within_limit [OF wf_new_writer(1), of 2 "[1, 2, 3]"]
    writer_appends_within_limit [OF wf_new_writer(1), of 3 "[1, 2, 3]"] by (simp add: wf_new_writer)

end
