(* ===== verification/Truncate.thy ===== *)
theory Truncate
  imports Utf8
begin

text \<open>
  The truncation of tool output, \<^verbatim>\<open>packages/agent/src/harness/utils/truncate.ts\<close>: counting the UTF-8 bytes of a
  string, keeping the first or the last lines within a line and a byte limit, and cutting one line from its end.
  Strings are lists of UTF-16 code units.  Whether the runtime has \<^verbatim>\<open>Buffer\<close> is the parameter \<open>runtimeBuffer\<close>; the
  limits are natural numbers.
\<close>

section \<open>Counting bytes\<close>

definition newline :: code_unit where
  "newline = 10"

text \<open>The loop over the units from the first one that is not ASCII; a pair of surrogates is read in one turn.\<close>

fun count_units :: "js_string \<Rightarrow> nat \<Rightarrow> nat" where
  "count_units [] bytes = bytes"
| "count_units [u] bytes = (if unat u \<le> 0x7f then bytes + 1 else if unat u \<le> 0x7ff then bytes + 2 else bytes + 3)"
| "count_units (u # v # us) bytes =
     (if unat u \<le> 0x7f then count_units (v # us) (bytes + 1)
      else if unat u \<le> 0x7ff then count_units (v # us) (bytes + 2)
      else if unat u \<ge> 0xd800 \<and> unat u \<le> 0xdbff
      then (if unat v \<ge> 0xdc00 \<and> unat v \<le> 0xdfff then count_units us (bytes + 4)
            else count_units (v # us) (bytes + 3))
      else count_units (v # us) (bytes + 3))"

definition utf8ByteLength :: "bool \<Rightarrow> js_string \<Rightarrow> nat" where
  "utf8ByteLength runtimeBuffer content =
     (if runtimeBuffer then length (utf8_encode content)
      else
        let firstNonAscii = length (takeWhile (\<lambda>u. unat u \<le> 0x7f) content)
        in if firstNonAscii = length content then length content
           else count_units (drop firstNonAscii content) firstNonAscii)"

definition splitLinesForCounting :: "js_string \<Rightarrow> js_string list" where
  "splitLinesForCounting content =
     (if content = [] then []
      else let lines = js_split newline content
           in if last content = newline then butlast lines else lines)"

definition replacement :: code_unit where
  "replacement = 0xFFFD"

fun replaceUnpairedSurrogates :: "js_string \<Rightarrow> js_string" where
  "replaceUnpairedSurrogates [] = []"
| "replaceUnpairedSurrogates [u] = [if is_high u \<or> is_low u then replacement else u]"
| "replaceUnpairedSurrogates (u # v # us) =
     (if is_high u
      then (if is_low v then u # v # replaceUnpairedSurrogates us
            else replacement # replaceUnpairedSurrogates (v # us))
      else (if is_low u then replacement else u) # replaceUnpairedSurrogates (v # us))"

section \<open>Keeping lines\<close>

datatype truncated_by = ByLines | ByBytes

record truncation_result =
  tn_content :: js_string
  tn_truncated :: bool
  tn_truncatedBy :: "truncated_by option"
  tn_totalLines :: nat
  tn_totalBytes :: nat
  tn_outputLines :: nat
  tn_outputBytes :: nat
  tn_lastLinePartial :: bool
  tn_firstLineExceedsLimit :: bool
  tn_maxLines :: nat
  tn_maxBytes :: nat

record truncation_options =
  to_maxLines :: "nat option"
  to_maxBytes :: "nat option"

definition DEFAULT_MAX_LINES :: nat where
  "DEFAULT_MAX_LINES = 2000"

definition DEFAULT_MAX_BYTES :: nat where
  "DEFAULT_MAX_BYTES = 50 * 1024"

definition resolved_maxLines :: "truncation_options \<Rightarrow> nat" where
  "resolved_maxLines options = (case to_maxLines options of Some n \<Rightarrow> n | None \<Rightarrow> DEFAULT_MAX_LINES)"

definition resolved_maxBytes :: "truncation_options \<Rightarrow> nat" where
  "resolved_maxBytes options = (case to_maxBytes options of Some n \<Rightarrow> n | None \<Rightarrow> DEFAULT_MAX_BYTES)"

text \<open>The loop of \<^verbatim>\<open>truncateHead\<close>: \<open>i\<close> counts the lines read, the list holds the ones to come.\<close>

fun head_loop ::
    "bool \<Rightarrow> nat \<Rightarrow> nat \<Rightarrow> nat \<Rightarrow> js_string list \<Rightarrow> js_string list \<Rightarrow> nat \<Rightarrow> js_string list \<times> nat \<times> truncated_by" where
  "head_loop rb maxLines maxBytes i [] out count = (out, count, ByLines)"
| "head_loop rb maxLines maxBytes i (line # lines) out count =
     (if i < maxLines
      then let lineBytes = utf8ByteLength rb line + (if i > 0 then 1 else 0)
           in if count + lineBytes > maxBytes then (out, count, ByBytes)
              else head_loop rb maxLines maxBytes (i + 1) lines (out @ [line]) (count + lineBytes)
      else (out, count, ByLines))"

definition truncateHead :: "bool \<Rightarrow> js_string \<Rightarrow> truncation_options \<Rightarrow> truncation_result" where
  "truncateHead rb content options =
     (let maxLines = resolved_maxLines options;
          maxBytes = resolved_maxBytes options;
          totalBytes = utf8ByteLength rb content;
          lines = splitLinesForCounting content;
          totalLines = length lines
      in if totalLines \<le> maxLines \<and> totalBytes \<le> maxBytes
         then \<lparr>tn_content = content, tn_truncated = False, tn_truncatedBy = None, tn_totalLines = totalLines,
               tn_totalBytes = totalBytes, tn_outputLines = totalLines, tn_outputBytes = totalBytes,
               tn_lastLinePartial = False, tn_firstLineExceedsLimit = False, tn_maxLines = maxLines, tn_maxBytes = maxBytes\<rparr>
         else if utf8ByteLength rb (hd lines) > maxBytes
         then \<lparr>tn_content = [], tn_truncated = True, tn_truncatedBy = Some ByBytes, tn_totalLines = totalLines,
               tn_totalBytes = totalBytes, tn_outputLines = 0, tn_outputBytes = 0,
               tn_lastLinePartial = False, tn_firstLineExceedsLimit = True, tn_maxLines = maxLines, tn_maxBytes = maxBytes\<rparr>
         else
           case head_loop rb maxLines maxBytes 0 lines [] 0 of (out, count, by) \<Rightarrow>
             let truncatedBy = (if length out \<ge> maxLines \<and> count \<le> maxBytes then ByLines else by);
                 outputContent = js_join [newline] out
             in \<lparr>tn_content = outputContent, tn_truncated = True, tn_truncatedBy = Some truncatedBy,
                 tn_totalLines = totalLines, tn_totalBytes = totalBytes, tn_outputLines = length out,
                 tn_outputBytes = utf8ByteLength rb outputContent, tn_lastLinePartial = False,
                 tn_firstLineExceedsLimit = False, tn_maxLines = maxLines, tn_maxBytes = maxBytes\<rparr>)"

text \<open>
  The loop of \<^verbatim>\<open>truncateStringToBytesFromEnd\<close> reads the string backwards: its first list is what is
  left of the string, reversed, the second the part already kept.
\<close>

function (sequential) suffix_loop :: "nat \<Rightarrow> js_string \<Rightarrow> nat \<Rightarrow> js_string \<Rightarrow> bool \<Rightarrow> js_string \<times> bool" where
  "suffix_loop maxBytes [] outputBytes kept needsReplacement = (kept, needsReplacement)"
| "suffix_loop maxBytes (u # before) outputBytes kept needsReplacement =
     (let paired = (is_low u \<and> before \<noteq> [] \<and> is_high (hd before));
          unpairedSurrogate = (\<not> paired \<and> (is_high u \<or> is_low u));
          characterBytes = (if paired then 4 else if unpairedSurrogate then 3
                            else if unat u \<le> 0x7f then 1 else if unat u \<le> 0x7ff then 2 else 3)
      in if outputBytes + characterBytes > maxBytes then (kept, needsReplacement)
         else suffix_loop maxBytes (if paired then tl before else before) (outputBytes + characterBytes)
                (if paired then hd before # u # kept else u # kept) (needsReplacement \<or> unpairedSurrogate))"
  by pat_completeness auto
termination by (relation "measure (\<lambda>(m, before, b, k, n). length before)") auto

definition truncateStringToBytesFromEnd :: "js_string \<Rightarrow> nat \<Rightarrow> js_string" where
  "truncateStringToBytesFromEnd str maxBytes =
     (if maxBytes = 0 then []
      else case suffix_loop maxBytes (rev str) 0 [] False of (output, needsReplacement) \<Rightarrow>
        if needsReplacement then replaceUnpairedSurrogates output else output)"

text \<open>The loop of \<^verbatim>\<open>truncateTail\<close> over the lines from the last to the first.\<close>

fun tail_loop ::
    "bool \<Rightarrow> nat \<Rightarrow> nat \<Rightarrow> js_string list \<Rightarrow> js_string list \<Rightarrow> nat \<Rightarrow> js_string list \<times> nat \<times> truncated_by \<times> bool" where
  "tail_loop rb maxLines maxBytes [] out count = (out, count, ByLines, False)"
| "tail_loop rb maxLines maxBytes (line # before) out count =
     (if length out < maxLines
      then let lineBytes = utf8ByteLength rb line + (if length out > 0 then 1 else 0)
           in if count + lineBytes > maxBytes
              then (if length out = 0
                    then let truncatedLine = truncateStringToBytesFromEnd line maxBytes
                         in ([truncatedLine], utf8ByteLength rb truncatedLine, ByBytes, True)
                    else (out, count, ByBytes, False))
              else tail_loop rb maxLines maxBytes before (line # out) (count + lineBytes)
      else (out, count, ByLines, False))"

definition truncateTail :: "bool \<Rightarrow> js_string \<Rightarrow> truncation_options \<Rightarrow> truncation_result" where
  "truncateTail rb content options =
     (let maxLines = resolved_maxLines options;
          maxBytes = resolved_maxBytes options;
          totalBytes = utf8ByteLength rb content;
          lines = splitLinesForCounting content;
          totalLines = length lines
      in if totalLines \<le> maxLines \<and> totalBytes \<le> maxBytes
         then \<lparr>tn_content = content, tn_truncated = False, tn_truncatedBy = None, tn_totalLines = totalLines,
               tn_totalBytes = totalBytes, tn_outputLines = totalLines, tn_outputBytes = totalBytes,
               tn_lastLinePartial = False, tn_firstLineExceedsLimit = False, tn_maxLines = maxLines, tn_maxBytes = maxBytes\<rparr>
         else
           case tail_loop rb maxLines maxBytes (rev lines) [] 0 of (out, count, by, lastLinePartial) \<Rightarrow>
             let truncatedBy = (if length out \<ge> maxLines \<and> count \<le> maxBytes then ByLines else by);
                 outputContent = js_join [newline] out
             in \<lparr>tn_content = outputContent, tn_truncated = True, tn_truncatedBy = Some truncatedBy,
                 tn_totalLines = totalLines, tn_totalBytes = totalBytes, tn_outputLines = length out,
                 tn_outputBytes = utf8ByteLength rb outputContent, tn_lastLinePartial = lastLinePartial,
                 tn_firstLineExceedsLimit = False, tn_maxLines = maxLines, tn_maxBytes = maxBytes\<rparr>)"

definition ascii_units :: "string \<Rightarrow> js_string" where
  "ascii_units s = map (\<lambda>c. word_of_nat (of_char c)) s"

text \<open>
  \<^verbatim>\<open>formatSize\<close>: the quotients are exact, and \<^verbatim>\<open>toFixed(1)\<close> takes the nearest tenth, the larger of two.
\<close>

definition fixed_tenths :: "nat \<Rightarrow> string" where
  "fixed_tenths n = nat_to_string (n div 10) @ ''.'' @ nat_to_string (n mod 10)"

definition formatSize :: "nat \<Rightarrow> js_string" where
  "formatSize bytes =
     ascii_units
       (if bytes < 1024 then nat_to_string bytes @ ''B''
        else if bytes < 1024 * 1024 then fixed_tenths ((20 * bytes + 1024) div 2048) @ ''KB''
        else fixed_tenths ((20 * bytes + 1024 * 1024) div (2 * 1024 * 1024)) @ ''MB'')"

definition GREP_MAX_LINE_LENGTH :: nat where
  "GREP_MAX_LINE_LENGTH = 500"

definition truncateLine :: "js_string \<Rightarrow> nat option \<Rightarrow> js_string \<times> bool" where
  "truncateLine line limit =
     (let maxChars = (case limit of Some n \<Rightarrow> n | None \<Rightarrow> GREP_MAX_LINE_LENGTH)
      in if length line \<le> maxChars then (line, False)
         else (take maxChars line @ ascii_units ''... [truncated]'', True))"

section \<open>Byte lengths\<close>

abbreviation byte_length :: "js_string \<Rightarrow> nat" where
  "byte_length us \<equiv> length (utf8_encode us)"

text \<open>Two strings whose seam does not join two surrogates.\<close>

definition clean_seam :: "js_string \<Rightarrow> js_string \<Rightarrow> bool" where
  "clean_seam xs ys \<longleftrightarrow> \<not> (xs \<noteq> [] \<and> is_high (last xs) \<and> ys \<noteq> [] \<and> is_low (hd ys))"

lemma high_not_low: "is_high u \<Longrightarrow> \<not> is_low u"
  by (simp add: is_high_def is_low_def)

lemma scalars_Cons: "\<not> is_high u \<or> ys = [] \<or> \<not> is_low (hd ys) \<Longrightarrow>
  scalars (u # ys) = (if is_high u \<or> is_low u then 0xFFFD else unat u) # scalars ys"
  by (cases ys) auto

lemma scalars_append: "clean_seam xs ys \<Longrightarrow> scalars (xs @ ys) = scalars xs @ scalars ys"
proof (induction xs rule: scalars.induct)
  case (2 u)
  then show ?case by (auto simp: clean_seam_def scalars_Cons)
next
  case (3 u v us)
  then show ?case by (cases us) (auto simp: clean_seam_def scalars_Cons high_not_low)
qed simp

lemma utf8_encode_append: "clean_seam xs ys \<Longrightarrow> utf8_encode (xs @ ys) = utf8_encode xs @ utf8_encode ys"
  by (simp add: utf8_encode_def scalars_append)

lemma well_formed_Cons: "\<not> is_high u \<or> ys = [] \<or> \<not> is_low (hd ys) \<Longrightarrow>
  well_formed (u # ys) \<longleftrightarrow> \<not> is_high u \<and> \<not> is_low u \<and> well_formed ys"
  by (cases ys) auto

lemma scalar_bytes_length:
  "length (scalar_bytes s) = (if s < 0x80 then 1 else if s < 0x800 then 2 else if s < 0x10000 then 3 else 4)"
  by (simp add: scalar_bytes_def)

lemma unit_bytes:
  "byte_length [u] = (if unat u \<le> 0x7f then 1 else if unat u \<le> 0x7ff then 2 else 3)"
  using unat_unit_less [of u] by (auto simp: utf8_encode_def scalar_bytes_length is_high_def is_low_def)

lemma pair_bytes: "is_high u \<Longrightarrow> is_low v \<Longrightarrow> byte_length [u, v] = 4"
  by (simp add: utf8_encode_def scalar_bytes_length join_surrogates_def)

lemma byte_length_Cons: "\<not> is_high u \<or> ys = [] \<or> \<not> is_low (hd ys) \<Longrightarrow>
  byte_length (u # ys) = byte_length [u] + byte_length ys"
  using utf8_encode_append [of "[u]" ys] by (auto simp: clean_seam_def)

lemma low_not_high: "is_low u \<Longrightarrow> \<not> is_high u"
  by (simp add: is_high_def is_low_def)

lemma byte_length_pair: "is_high u \<Longrightarrow> is_low v \<Longrightarrow> byte_length (u # v # ys) = 4 + byte_length ys"
  using utf8_encode_append [of "[u, v]" ys] pair_bytes [of u v] by (simp add: clean_seam_def low_not_high)

lemma surrogate_ranges:
  "(unat u \<ge> 0xd800 \<and> unat u \<le> 0xdbff) = is_high u" "(unat u \<ge> 0xdc00 \<and> unat u \<le> 0xdfff) = is_low u"
  by (auto simp: is_high_def is_low_def)

lemma high_unit: "is_high u \<Longrightarrow> \<not> unat u \<le> 0x7f \<and> \<not> unat u \<le> 0x7ff"
  by (simp add: is_high_def)

lemma count_units_length: "count_units us n = n + byte_length us"
proof (induction us n rule: count_units.induct)
  case (1 n)
  then show ?case by (simp add: utf8_encode_def)
next
  case (2 u n)
  then show ?case by (simp add: unit_bytes)
next
  case (3 u v us n)
  note IH = 3 [unfolded surrogate_ranges]
  show ?case
  proof (cases "is_high u \<and> is_low v")
    case True
    with high_unit [of u] IH(3) show ?thesis
      unfolding count_units.simps surrogate_ranges by (simp add: byte_length_pair)
  next
    case False
    then have "byte_length (u # v # us) = byte_length [u] + byte_length (v # us)"
      by (intro byte_length_Cons) auto
    then have len: "byte_length (u # v # us) = (if unat u \<le> 0x7f then 1 else if unat u \<le> 0x7ff then 2 else 3)
        + byte_length (v # us)" by (simp only: unit_bytes)
    consider "unat u \<le> 0x7f" | "\<not> unat u \<le> 0x7f" "unat u \<le> 0x7ff" | "\<not> unat u \<le> 0x7f" "\<not> unat u \<le> 0x7ff" by blast
    then show ?thesis
    proof cases
      case 1
      then show ?thesis unfolding count_units.simps len using IH(1) [OF 1] by simp
    next
      case 2
      then show ?thesis unfolding count_units.simps len using IH(2) [OF 2] by simp
    next
      case 3
      with False show ?thesis unfolding count_units.simps surrogate_ranges len
        using IH(4) [OF 3] IH(5) [OF 3] by (cases "is_high u") simp_all
    qed
  qed
qed

lemma ascii_bytes: "(\<And>u. u \<in> set us \<Longrightarrow> unat u \<le> 0x7f) \<Longrightarrow> byte_length us = length us"
proof (induction us)
  case (Cons u us)
  then have "unat u \<le> 0x7f" "byte_length us = length us" by auto
  then show ?case by (simp add: byte_length_Cons unit_bytes is_high_def)
qed (simp add: utf8_encode_def)

lemma utf8ByteLength_eq: "utf8ByteLength rb us = byte_length us"
proof -
  let ?p = "takeWhile (\<lambda>u. unat u \<le> 0x7f) us"
  have p: "byte_length ?p = length ?p" by (rule ascii_bytes) (auto dest: set_takeWhileD)
  have "clean_seam ?p (drop (length ?p) us)"
    using set_takeWhileD [OF last_in_set, of "\<lambda>u. unat u \<le> 0x7f" us] by (auto simp: clean_seam_def is_high_def)
  from utf8_encode_append [OF this] have len: "byte_length us = length ?p + byte_length (drop (length ?p) us)"
    using p by (metis append_take_drop_id length_append takeWhile_eq_take)
  show ?thesis
  proof (cases "length ?p = length us")
    case True
    with p have "byte_length us = length us" by (metis takeWhile_eq_take take_all order_refl)
    then show ?thesis using True by (simp add: utf8ByteLength_def)
  next
    case False
    then show ?thesis using len by (simp add: utf8ByteLength_def Let_def count_units_length)
  qed
qed

section \<open>Lines\<close>

lemma newline_plain [simp]: "\<not> is_high newline" "\<not> is_low newline" "byte_length [newline] = 1"
  by (simp_all add: newline_def is_high_def is_low_def unit_bytes)

lemma byte_length_newline: "byte_length (xs @ newline # ys) = byte_length xs + 1 + byte_length ys"
  using utf8_encode_append [of xs "newline # ys"] by (simp add: clean_seam_def byte_length_Cons)

lemma utf8_encode_nil [simp]: "utf8_encode [] = []"
  by (simp add: utf8_encode_def)

definition joined_bytes :: "js_string list \<Rightarrow> nat" where
  "joined_bytes ls = byte_length (js_join [newline] ls)"

lemma joined_bytes_simps:
  "joined_bytes [] = 0" "joined_bytes (ls @ [l]) = joined_bytes ls + byte_length l + (if ls = [] then 0 else 1)"
  "joined_bytes (l # ls) = byte_length l + joined_bytes ls + (if ls = [] then 0 else 1)"
  by (auto simp: joined_bytes_def js_join_snoc js_join_Cons byte_length_newline utf8_encode_nil)

text \<open>The counted lines are the content without a final newline.\<close>

lemma split_lines_snoc: "splitLinesForCounting (xs @ [newline]) = js_split newline xs"
  by (simp add: splitLinesForCounting_def js_split_snoc)

lemma split_lines_content:
  "content = js_join [newline] (splitLinesForCounting content) @
     (if content \<noteq> [] \<and> last content = newline then [newline] else [])"
proof (cases "content \<noteq> [] \<and> last content = newline")
  case True
  then obtain xs where "content = xs @ [newline]" by (metis append_butlast_last_id)
  then show ?thesis by (simp add: split_lines_snoc js_join_split)
next
  case False
  then show ?thesis by (auto simp: splitLinesForCounting_def js_join_split)
qed

lemma split_lines_nonempty: "content \<noteq> [] \<Longrightarrow> splitLinesForCounting content \<noteq> []"
  by (cases content rule: rev_cases) (auto simp: splitLinesForCounting_def js_split_snoc Let_def)

section \<open>What the loops keep\<close>

lemma head_loop_keeps:
  assumes "head_loop rb maxLines maxBytes (length out) lines out (joined_bytes out) = (out', count', reason)"
    and "joined_bytes out \<le> maxBytes" and "length out \<le> maxLines"
  shows "\<exists>n \<le> length lines. out' = out @ take n lines \<and> count' = joined_bytes out' \<and> count' \<le> maxBytes \<and>
    length out + n \<le> maxLines \<and>
    (case reason of ByLines \<Rightarrow> n = length lines \<or> length out + n = maxLines
     | ByBytes \<Rightarrow> n < length lines \<and> length out + n < maxLines \<and> joined_bytes (out @ take (Suc n) lines) > maxBytes)"
  using assms
proof (induction lines arbitrary: out)
  case Nil
  then show ?case by auto
next
  case (Cons line lines)
  show ?case
  proof (cases "length out < maxLines \<and> joined_bytes (out @ [line]) \<le> maxBytes")
    case True
    then have "head_loop rb maxLines maxBytes (length (out @ [line])) lines (out @ [line]) (joined_bytes (out @ [line]))
        = (out', count', reason)"
      using Cons.prems(1) by (auto simp: joined_bytes_simps utf8ByteLength_eq Let_def split: if_splits)
    from Cons.IH [OF this] True obtain n where n: "n \<le> length lines" "out' = (out @ [line]) @ take n lines"
      "count' = joined_bytes out'" "count' \<le> maxBytes" "length (out @ [line]) + n \<le> maxLines"
      "case reason of ByLines \<Rightarrow> n = length lines \<or> length (out @ [line]) + n = maxLines
       | ByBytes \<Rightarrow> n < length lines \<and> length (out @ [line]) + n < maxLines \<and>
           joined_bytes ((out @ [line]) @ take (Suc n) lines) > maxBytes" by auto
    then show ?thesis by (intro exI [of _ "Suc n"]) (auto split: truncated_by.splits)
  next
    case False
    then show ?thesis using Cons.prems
      by (intro exI [of _ 0]) (auto simp: joined_bytes_simps utf8ByteLength_eq Let_def split: if_splits)
  qed
qed

lemma well_formed_append: "clean_seam xs ys \<Longrightarrow> well_formed (xs @ ys) \<longleftrightarrow> well_formed xs \<and> well_formed ys"
proof (induction xs rule: well_formed.induct)
  case (2 u)
  then show ?case by (auto simp: clean_seam_def well_formed_Cons)
next
  case (3 u v us)
  then show ?case by (cases us) (auto simp: clean_seam_def well_formed_Cons low_not_high)
qed simp

lemma suffix_loop_keeps:
  assumes "suffix_loop maxBytes before (byte_length kept) kept (\<not> well_formed kept) = (out, needs)"
    and "clean_seam (rev before) kept" and "byte_length kept \<le> maxBytes"
  shows "(\<exists>k. out = drop k (rev before @ kept)) \<and> byte_length out \<le> maxBytes \<and> needs = (\<not> well_formed out)"
  using assms
proof (induction "length before" arbitrary: before kept rule: less_induct)
  case less
  show ?case
  proof (cases before)
    case Nil
    then show ?thesis using less.prems by (auto intro: exI [of _ 0])
  next
    case (Cons u rest)
    show ?thesis
    proof (cases "is_low u \<and> rest \<noteq> [] \<and> is_high (hd rest)")
      case True
      then obtain v rest' where [simp]: "rest = v # rest'" by (cases rest) auto
      have bytes: "byte_length (v # u # kept) = byte_length kept + 4" using True by (simp add: byte_length_pair)
      have "well_formed (v # u # kept) = well_formed kept" and seam: "clean_seam (rev rest') (v # u # kept)"
        using True by (auto simp: clean_seam_def high_not_low)
      then show ?thesis
        using less.hyps [of rest' "v # u # kept"] less.prems True Cons bytes
        by (cases "byte_length kept + 4 > maxBytes") (auto intro: exI [of _ "Suc (Suc (length rest'))"])
    next
      case False
      have c: "clean_seam [u] kept" using less.prems(2) Cons by (auto simp: clean_seam_def)
      have bytes: "byte_length (u # kept) = byte_length kept + byte_length [u]"
        using utf8_encode_append [OF c] by simp
      have wf: "well_formed (u # kept) \<longleftrightarrow> \<not> is_high u \<and> \<not> is_low u \<and> well_formed kept"
        using well_formed_append [OF c] by simp
      have seam: "clean_seam (rev rest) (u # kept)" using False by (cases rest) (auto simp: clean_seam_def)
      have unit: "byte_length [u] = (if is_high u \<or> is_low u then 3 else if unat u \<le> 0x7f then 1 else if unat u \<le> 0x7ff then 2 else 3)"
        by (simp add: unit_bytes) (auto simp: is_high_def is_low_def)
      show ?thesis
      proof (cases "byte_length (u # kept) > maxBytes")
        case True
        then have "(out, needs) = (kept, \<not> well_formed kept)"
          using less.prems(1) False Cons unfolding bytes unit by (auto simp: Let_def split: if_splits)
        then show ?thesis using less.prems(3) Cons by (auto intro: exI [of _ "length before"])
      next
        case nogt: False
        then have "suffix_loop maxBytes rest (byte_length (u # kept)) (u # kept) (\<not> well_formed (u # kept)) = (out, needs)"
          using less.prems(1) False Cons unfolding bytes unit wf by (auto simp: Let_def split: if_splits)
        then show ?thesis using less.hyps [of rest "u # kept"] Cons seam nogt by auto
      qed
    qed
  qed
qed

lemma replacement_plain [simp]: "\<not> is_high replacement" "\<not> is_low replacement" "unat replacement = 0xFFFD"
  by (simp_all add: replacement_def is_high_def is_low_def)

lemma replaced_scalars: "scalars (replaceUnpairedSurrogates us) = scalars us"
proof (induction us rule: replaceUnpairedSurrogates.induct)
  case (3 u v us)
  have tail: "\<not> is_high x \<Longrightarrow> scalars (x # replaceUnpairedSurrogates (v # us)) =
      (if is_low x then 0xFFFD else unat x) # scalars (replaceUnpairedSurrogates (v # us))" for x
    by (simp add: scalars_Cons)
  show ?case using 3 tail [of replacement] tail [of u] by (auto simp: scalars_Cons)
qed auto

lemma replaced_bytes: "byte_length (replaceUnpairedSurrogates us) = byte_length us"
  by (simp add: utf8_encode_def replaced_scalars)

lemma replaced_well_formed: "well_formed us \<Longrightarrow> replaceUnpairedSurrogates us = us"
  by (induction us rule: replaceUnpairedSurrogates.induct) (auto split: if_splits)

lemma from_end_keeps:
  "\<exists>k. truncateStringToBytesFromEnd str maxBytes = replaceUnpairedSurrogates (drop k str) \<and>
     byte_length (truncateStringToBytesFromEnd str maxBytes) \<le> maxBytes"
proof (cases "maxBytes = 0")
  case True
  then show ?thesis by (auto simp: truncateStringToBytesFromEnd_def intro: exI [of _ "length str"])
next
  case False
  obtain out needs where loop: "suffix_loop maxBytes (rev str) 0 [] False = (out, needs)" by (metis surj_pair)
  then have "(\<exists>k. out = drop k str) \<and> byte_length out \<le> maxBytes \<and> needs = (\<not> well_formed out)"
    using suffix_loop_keeps [of maxBytes "rev str" "[]" out needs] by (simp add: clean_seam_def)
  then show ?thesis
    using False loop replaced_well_formed [of out]
    by (cases needs) (auto simp: truncateStringToBytesFromEnd_def replaced_bytes, metis)
qed

text \<open>What the tail loop returns: the last lines, or a cut of the very last one.\<close>

lemma tail_loop_keeps:
  assumes "tail_loop rb maxLines maxBytes (rev lines) out (joined_bytes out) = (out', count', reason, partial)"
    and "joined_bytes out \<le> maxBytes" and "length out \<le> maxLines"
  shows "count' = joined_bytes out' \<and> count' \<le> maxBytes \<and> length out' \<le> maxLines \<and>
    (if partial then out = [] \<and> lines \<noteq> [] \<and> byte_length (last lines) > maxBytes \<and>
        out' = [truncateStringToBytesFromEnd (last lines) maxBytes]
     else (\<exists>n \<le> length lines. out' = drop (length lines - n) lines @ out \<and>
        (n = length lines \<or> length out' = maxLines \<or>
         joined_bytes (drop (length lines - Suc n) lines @ out) > maxBytes)))"
  using assms
proof (induction lines arbitrary: out rule: rev_induct)
  case Nil
  then show ?case by auto
next
  case (snoc line lines)
  have grown: "joined_bytes (line # out) = joined_bytes out + (byte_length line + (if out \<noteq> [] then 1 else 0))"
    by (simp add: joined_bytes_simps)
  consider "\<not> length out < maxLines" | "length out < maxLines" "joined_bytes (line # out) \<le> maxBytes"
    | "length out < maxLines" "joined_bytes (line # out) > maxBytes" "out = []"
    | "length out < maxLines" "joined_bytes (line # out) > maxBytes" "out \<noteq> []" by linarith
  then show ?case
  proof cases
    case 1
    then show ?thesis using snoc.prems by (auto intro!: exI [of _ 0])
  next
    case 2
    then have "tail_loop rb maxLines maxBytes (rev lines) (line # out) (joined_bytes (line # out)) = (out', count', reason, partial)"
      using snoc.prems(1) grown by (auto simp: utf8ByteLength_eq Let_def)
    from snoc.IH [OF this] 2 have ih: "count' = joined_bytes out'" "count' \<le> maxBytes" "length out' \<le> maxLines" "\<not> partial"
      "\<exists>n \<le> length lines. out' = drop (length lines - n) lines @ line # out \<and>
        (n = length lines \<or> length out' = maxLines \<or> joined_bytes (drop (length lines - Suc n) lines @ line # out) > maxBytes)"
      by (auto split: if_splits)
    then obtain n where n: "n \<le> length lines" "out' = drop (length lines - n) lines @ line # out"
      "n = length lines \<or> length out' = maxLines \<or> joined_bytes (drop (length lines - Suc n) lines @ line # out) > maxBytes" by blast
    then show ?thesis using ih by (auto intro!: exI [of _ "Suc n"])
  next
    case 3
    then show ?thesis using snoc.prems grown from_end_keeps [of line maxBytes]
      by (auto simp: utf8ByteLength_eq joined_bytes_simps Let_def)
  next
    case 4
    then show ?thesis using snoc.prems grown by (auto simp: utf8ByteLength_eq Let_def intro!: exI [of _ 0])
  qed
qed

section \<open>Properties of truncation\<close>

text \<open>The byte count of a string is the length of its UTF-8 encoding, whether the runtime's \<^verbatim>\<open>Buffer\<close> or the
  hand-written scan over the code units computes it, lone surrogates included.\<close>

theorem byte_count_exact: "utf8ByteLength runtimeBuffer content = length (utf8_encode content)"
  by (rule utf8ByteLength_eq)

lemma head_keeps:
  fixes runtimeBuffer content options
  defines "r \<equiv> truncateHead runtimeBuffer content options"
    and "lines \<equiv> splitLinesForCounting content"
  shows "length (utf8_encode (tn_content r)) = tn_outputBytes r \<and> tn_outputBytes r \<le> resolved_maxBytes options \<and>
    tn_outputLines r \<le> resolved_maxLines options \<and>
    (if tn_truncated r
     then tn_content r = js_join [newline] (take (tn_outputLines r) lines) \<and>
       (tn_outputLines r = length lines \<or> tn_outputLines r = resolved_maxLines options \<or>
        length (utf8_encode (js_join [newline] (take (Suc (tn_outputLines r)) lines))) > resolved_maxBytes options)
     else tn_content r = content)"
proof (cases "length lines \<le> resolved_maxLines options \<and> byte_length content \<le> resolved_maxBytes options")
  case True
  then show ?thesis by (simp add: r_def lines_def truncateHead_def Let_def utf8ByteLength_eq)
next
  case False
  then have ne: "lines \<noteq> []" unfolding lines_def
    using split_lines_nonempty [of content] by (cases "content = []") (auto simp: splitLinesForCounting_def)
  show ?thesis
  proof (cases "byte_length (hd lines) > resolved_maxBytes options")
    case True
    then show ?thesis using False ne
      by (simp add: r_def lines_def truncateHead_def Let_def utf8ByteLength_eq take_Suc)
  next
    case fits: False
    obtain out count reason where loop: "head_loop runtimeBuffer (resolved_maxLines options) (resolved_maxBytes options) 0 lines [] 0
        = (out, count, reason)" by (metis surj_pair)
    note keeps = head_loop_keeps [of runtimeBuffer _ _ "[]" lines, unfolded joined_bytes_simps list.size append_Nil add_0, OF loop]
    then obtain n where
      n: "n \<le> length lines" "out = take n lines" "count = joined_bytes out" "count \<le> resolved_maxBytes options"
      "n \<le> resolved_maxLines options"
      "case reason of ByLines \<Rightarrow> n = length lines \<or> n = resolved_maxLines options
       | ByBytes \<Rightarrow> n < length lines \<and> n < resolved_maxLines options \<and> joined_bytes (take (Suc n) lines) > resolved_maxBytes options"
      by auto
    have "r = \<lparr>tn_content = js_join [newline] out, tn_truncated = True,
        tn_truncatedBy = Some (if length out \<ge> resolved_maxLines options \<and> count \<le> resolved_maxBytes options then ByLines else reason),
        tn_totalLines = length lines, tn_totalBytes = byte_length content, tn_outputLines = length out,
        tn_outputBytes = byte_length (js_join [newline] out), tn_lastLinePartial = False,
        tn_firstLineExceedsLimit = False, tn_maxLines = resolved_maxLines options, tn_maxBytes = resolved_maxBytes options\<rparr>"
      using False fits loop by (simp add: r_def lines_def truncateHead_def Let_def utf8ByteLength_eq)
    then show ?thesis using n by (cases reason) (auto simp: joined_bytes_def)
  qed
qed

text \<open>Head truncation keeps the content as it is when it is within both limits; otherwise it returns a run of whole lines
  from the start, within the line and the byte limit, and the longest such run: one more line would pass a limit.\<close>

theorem head_keeps_longest_prefix:
  "let r = truncateHead runtimeBuffer content options; lines = splitLinesForCounting content in
    length (utf8_encode (tn_content r)) = tn_outputBytes r \<and> tn_outputBytes r \<le> resolved_maxBytes options \<and>
    tn_outputLines r \<le> resolved_maxLines options \<and>
    (if tn_truncated r
     then tn_content r = js_join [newline] (take (tn_outputLines r) lines) \<and>
       (tn_outputLines r = length lines \<or> tn_outputLines r = resolved_maxLines options \<or>
        length (utf8_encode (js_join [newline] (take (Suc (tn_outputLines r)) lines))) > resolved_maxBytes options)
     else tn_content r = content)"
  unfolding Let_def by (rule head_keeps)

lemma tail_keeps:
  fixes runtimeBuffer content options
  defines "r \<equiv> truncateTail runtimeBuffer content options"
    and "lines \<equiv> splitLinesForCounting content"
  shows "length (utf8_encode (tn_content r)) = tn_outputBytes r \<and> tn_outputBytes r \<le> resolved_maxBytes options \<and>
    tn_outputLines r \<le> resolved_maxLines options \<and>
    (if \<not> tn_truncated r then tn_content r = content
     else if tn_lastLinePartial r
     then tn_outputLines r = 1 \<and> length (utf8_encode (last lines)) > resolved_maxBytes options \<and>
       (\<exists>k. tn_content r = replaceUnpairedSurrogates (drop k (last lines)))
     else tn_content r = js_join [newline] (drop (length lines - tn_outputLines r) lines) \<and>
       (tn_outputLines r = length lines \<or> tn_outputLines r = resolved_maxLines options \<or>
        length (utf8_encode (js_join [newline] (drop (length lines - Suc (tn_outputLines r)) lines))) > resolved_maxBytes options))"
proof (cases "length lines \<le> resolved_maxLines options \<and> byte_length content \<le> resolved_maxBytes options")
  case True
  then show ?thesis by (simp add: r_def lines_def truncateTail_def Let_def utf8ByteLength_eq)
next
  case False
  obtain out count reason partial where
    loop: "tail_loop runtimeBuffer (resolved_maxLines options) (resolved_maxBytes options) (rev lines) [] 0
      = (out, count, reason, partial)" by (metis surj_pair)
  note keeps = tail_loop_keeps [of runtimeBuffer _ _ lines "[]", unfolded joined_bytes_simps, OF loop, simplified]
  have "r = \<lparr>tn_content = js_join [newline] out, tn_truncated = True,
      tn_truncatedBy = Some (if length out \<ge> resolved_maxLines options \<and> count \<le> resolved_maxBytes options then ByLines else reason),
      tn_totalLines = length lines, tn_totalBytes = byte_length content, tn_outputLines = length out,
      tn_outputBytes = byte_length (js_join [newline] out), tn_lastLinePartial = partial,
      tn_firstLineExceedsLimit = False, tn_maxLines = resolved_maxLines options, tn_maxBytes = resolved_maxBytes options\<rparr>"
    using False loop by (simp add: r_def lines_def truncateTail_def Let_def utf8ByteLength_eq)
  then show ?thesis using keeps from_end_keeps [of "last lines" "resolved_maxBytes options"]
    by (cases partial) (auto simp: joined_bytes_def)
qed


text \<open>A content that is over the byte limit only because of its final newline is reported as truncated by its lines,
  although it has fewer lines than the line limit and all of them are returned.\<close>

theorem trailing_newline_reported_as_lines:
  assumes "newline \<notin> set line" and "length (utf8_encode line) = resolved_maxBytes options" and "resolved_maxLines options > 1"
  shows "tn_truncated (truncateHead runtimeBuffer (line @ [newline]) options) \<and>
    tn_truncatedBy (truncateHead runtimeBuffer (line @ [newline]) options) = Some ByLines \<and>
    tn_outputLines (truncateHead runtimeBuffer (line @ [newline]) options) = 1 \<and>
    tn_totalLines (truncateHead runtimeBuffer (line @ [newline]) options) = 1"
  using assms byte_length_newline [of line "[]"]
  by (simp add: truncateHead_def Let_def utf8ByteLength_eq split_lines_snoc js_split_plain)

lemma sample_line_bytes: "byte_length [97, 98] = 2"
  by (subst ascii_bytes) auto

theorem trailing_newline_reported_as_lines_witness:
  "tn_truncated (truncateHead False ([97, 98] @ [newline]) \<lparr>to_maxLines = None, to_maxBytes = Some 2\<rparr>) \<and>
    tn_truncatedBy (truncateHead False ([97, 98] @ [newline]) \<lparr>to_maxLines = None, to_maxBytes = Some 2\<rparr>) = Some ByLines \<and>
    tn_outputLines (truncateHead False ([97, 98] @ [newline]) \<lparr>to_maxLines = None, to_maxBytes = Some 2\<rparr>) = 1 \<and>
    tn_totalLines (truncateHead False ([97, 98] @ [newline]) \<lparr>to_maxLines = None, to_maxBytes = Some 2\<rparr>) = 1"
  by (rule trailing_newline_reported_as_lines)
    (simp_all add: newline_def sample_line_bytes resolved_maxBytes_def resolved_maxLines_def DEFAULT_MAX_LINES_def)

end
