(* ===== verification/Session_Context.thy ===== *)
theory Session_Context
  imports Session_Types
begin

text \<open>
  From a branch of entries to what a model sees: \<^verbatim>\<open>packages/agent/src/harness/session/context.ts\<close>
  (the entries that survive compaction, the messages they stand for, and the effective model,
  thinking level and tools) and \<^verbatim>\<open>packages/agent/src/harness/messages.ts\<close> (the conversion of
  agent messages to provider messages).
\<close>

section \<open>Messages for the provider\<close>

definition nl :: string where
  "nl = [CHR 0x0A]"

definition COMPACTION_SUMMARY_PREFIX :: string where
  "COMPACTION_SUMMARY_PREFIX =
     ''The conversation history before this point was compacted into the following summary:''
       @ nl @ nl @ ''<summary>'' @ nl"

definition COMPACTION_SUMMARY_SUFFIX :: string where
  "COMPACTION_SUMMARY_SUFFIX = nl @ ''</summary>''"

definition BRANCH_SUMMARY_PREFIX :: string where
  "BRANCH_SUMMARY_PREFIX =
     ''The following is a summary of a branch that this conversation came back from:''
       @ nl @ nl @ ''<summary>'' @ nl"

definition BRANCH_SUMMARY_SUFFIX :: string where
  "BRANCH_SUMMARY_SUFFIX = ''</summary>''"

definition bashExecutionToText :: "bash_execution_message \<Rightarrow> string" where
  "bashExecutionToText msg =
     ''Ran `'' @ be_command msg @ ''`'' @ nl
     @ (if be_output msg \<noteq> [] then ''```'' @ nl @ be_output msg @ nl @ ''```'' else ''(no output)'')
     @ (if be_cancelled msg then nl @ nl @ ''(command cancelled)''
        else (case be_exitCode msg of
                None \<Rightarrow> []
              | Some code \<Rightarrow>
                  if code \<noteq> 0 then nl @ nl @ ''Command exited with code '' @ int_to_string code else []))
     @ (case be_fullOutputPath msg of
          None \<Rightarrow> []
        | Some path \<Rightarrow>
            if be_truncated msg \<and> path \<noteq> []
            then nl @ nl @ ''[Output truncated. Full output: '' @ path @ '']'' else [])"

text \<open>Timestamps are numbers here; the source also accepts date strings, which no caller in the session passes.\<close>

definition createBranchSummaryMessage :: "string \<Rightarrow> string \<Rightarrow> nat \<Rightarrow> agent_message" where
  "createBranchSummaryMessage summary fromId timestamp =
     BranchSummaryMessage \<lparr>bs_summary = summary, bs_fromId = fromId, bs_timestamp = timestamp\<rparr>"

definition createCompactionSummaryMessage :: "string \<Rightarrow> int \<Rightarrow> nat \<Rightarrow> agent_message" where
  "createCompactionSummaryMessage summary tokensBefore timestamp =
     CompactionSummaryMessage \<lparr>cs_summary = summary, cs_tokensBefore = tokensBefore, cs_timestamp = timestamp\<rparr>"

definition createCustomMessage :: "string \<Rightarrow> user_content \<Rightarrow> bool \<Rightarrow> json option \<Rightarrow> nat \<Rightarrow> agent_message" where
  "createCustomMessage customType content display details timestamp =
     CustomMessage \<lparr>cm_customType = customType, cm_content = content, cm_display = display,
       cm_details = details, cm_timestamp = timestamp\<rparr>"

definition text_block :: "string \<Rightarrow> content_block" where
  "text_block t = TextBlock \<lparr>tc_text = t, tc_textSignature = None\<rparr>"

fun convert_message :: "agent_message \<Rightarrow> agent_message option" where
  "convert_message (BashExecutionMessage m) =
     (if be_excludeFromContext m = Some True then None
      else Some (UserMessage (ContentBlocks [text_block (bashExecutionToText m)]) (be_timestamp m)))"
| "convert_message (CustomMessage m) =
     Some (UserMessage
       (case cm_content m of ContentString t \<Rightarrow> ContentBlocks [text_block t] | ContentBlocks bs \<Rightarrow> ContentBlocks bs)
       (cm_timestamp m))"
| "convert_message (BranchSummaryMessage m) =
     Some (UserMessage (ContentBlocks
       [text_block (BRANCH_SUMMARY_PREFIX @ bs_summary m @ BRANCH_SUMMARY_SUFFIX)]) (bs_timestamp m))"
| "convert_message (CompactionSummaryMessage m) =
     Some (UserMessage (ContentBlocks
       [text_block (COMPACTION_SUMMARY_PREFIX @ cs_summary m @ COMPACTION_SUMMARY_SUFFIX)]) (cs_timestamp m))"
| "convert_message (UserMessage c t) = Some (UserMessage c t)"
| "convert_message (AssistantMessage m) = Some (AssistantMessage m)"
| "convert_message (ToolResultMessage m) = Some (ToolResultMessage m)"
| "convert_message (SystemMessage c t) = None"
| "convert_message (OtherMessage r v) = None"

definition convertToLlm :: "agent_message list \<Rightarrow> agent_message list" where
  "convertToLlm messages = List.map_filter convert_message messages"

section \<open>The context of a branch\<close>

record model_ref =
  mr_provider :: string
  mr_modelId :: string

record context_state =
  cx_thinkingLevel :: string
  cx_model :: "model_ref option"
  cx_activeToolNames :: "string list option"

record session_context = context_state +
  cx_messages :: "agent_message list"

type_synonym context_entry_transform = "entry list \<Rightarrow> entry list"
type_synonym custom_projector = "entry \<Rightarrow> nat \<Rightarrow> entry list \<Rightarrow> agent_message list option"

record build_options =
  bo_entryTransforms :: "context_entry_transform list"
  bo_entryProjectors :: "string \<rightharpoonup> custom_projector"

definition derive_step :: "context_state \<Rightarrow> entry \<Rightarrow> context_state" where
  "derive_step c e =
     (case entry_payload e of
        ThinkingLevelPayload level \<Rightarrow> c\<lparr>cx_thinkingLevel := level\<rparr>
      | ModelChangePayload provider modelId \<Rightarrow>
          c\<lparr>cx_model := Some \<lparr>mr_provider = provider, mr_modelId = modelId\<rparr>\<rparr>
      | MessagePayload (AssistantMessage m) _ \<Rightarrow>
          c\<lparr>cx_model := Some \<lparr>mr_provider = am_provider m, mr_modelId = am_model m\<rparr>\<rparr>
      | ActiveToolsPayload names \<Rightarrow> c\<lparr>cx_activeToolNames := Some names\<rparr>
      | _ \<Rightarrow> c)"

definition deriveSessionContextState :: "entry list \<Rightarrow> context_state" where
  "deriveSessionContextState pathEntries =
     foldl derive_step \<lparr>cx_thinkingLevel = ''off'', cx_model = None, cx_activeToolNames = None\<rparr> pathEntries"

text \<open>The loop that looks for the newest compaction: \<open>n\<close> is one more than \<^verbatim>\<open>index\<close>.\<close>

fun compaction_index :: "entry list \<Rightarrow> nat \<Rightarrow> nat option" where
  "compaction_index es 0 = None"
| "compaction_index es (Suc index) =
     (if entry_kind (es ! index) = CompactionType then Some index else compaction_index es index)"

definition defaultContextEntryTransform :: "entry list \<Rightarrow> entry list" where
  "defaultContextEntryTransform pathEntries =
     (case compaction_index pathEntries (length pathEntries) of
        None \<Rightarrow> pathEntries
      | Some i \<Rightarrow> pathEntries ! i # drop (i + 1) pathEntries)"

definition buildContextEntries :: "entry list \<Rightarrow> build_options \<Rightarrow> entry list" where
  "buildContextEntries pathEntries options =
     foldl (\<lambda>es transform. transform es) (defaultContextEntryTransform pathEntries) (bo_entryTransforms options)"

definition sessionEntryToContextMessages :: "entry \<Rightarrow> nat \<Rightarrow> entry list \<Rightarrow> build_options \<Rightarrow> agent_message list" where
  "sessionEntryToContextMessages e index entries options =
     (case entry_payload e of
        MessagePayload m _ \<Rightarrow>
          (case m of AssistantMessage a \<Rightarrow> if am_stopReason a = StopDeferred then [] else [m] | _ \<Rightarrow> [m])
      | CompactionPayload summary retainedTail tokensBefore _ _ \<Rightarrow>
          createCompactionSummaryMessage summary tokensBefore (entry_timestamp e) # retainedTail
      | BranchSummaryPayload fromId summary _ _ \<Rightarrow>
          if summary \<noteq> [] then [createBranchSummaryMessage summary fromId (entry_timestamp e)] else []
      | CustomPayload customType _ \<Rightarrow>
          (case bo_entryProjectors options customType of
             None \<Rightarrow> []
           | Some project \<Rightarrow> (case project e index entries of None \<Rightarrow> [] | Some ms \<Rightarrow> ms))
      | _ \<Rightarrow> [])"

definition buildSessionContext :: "entry list \<Rightarrow> build_options \<Rightarrow> session_context" where
  "buildSessionContext pathEntries options =
     (let contextEntries = buildContextEntries pathEntries options
      in context_state.extend (deriveSessionContextState pathEntries)
           (session_context.fields (concat (map (\<lambda>(index, e).
              sessionEntryToContextMessages e index contextEntries options) (enumerate 0 contextEntries)))))"

section \<open>Compaction bounds the context\<close>

definition no_compaction :: "entry list \<Rightarrow> bool" where
  "no_compaction es = list_all (\<lambda>e. entry_kind e \<noteq> CompactionType) es"

lemma compaction_index_none: "no_compaction es \<Longrightarrow> n \<le> length es \<Longrightarrow> compaction_index es n = None"
  by (induction n) (auto simp: no_compaction_def list_all_length)

lemma compaction_index_last:
  assumes "entry_kind c = CompactionType" and "no_compaction post" and "n \<le> length post"
  shows "compaction_index (pre @ c # post) (Suc (length pre + n)) = Some (length pre)"
  using assms by (induction n) (auto simp: no_compaction_def list_all_length nth_append)

lemma defaultTransform_none: "no_compaction es \<Longrightarrow> defaultContextEntryTransform es = es"
  by (simp add: defaultContextEntryTransform_def compaction_index_none)

lemma defaultTransform_last:
  assumes "entry_kind c = CompactionType" and "no_compaction post"
  shows "defaultContextEntryTransform (pre @ c # post) = c # post"
  using compaction_index_last [OF assms, of "length post" pre]
  by (simp add: defaultContextEntryTransform_def)

lemma compaction_cases:
  obtains "no_compaction es"
  | pre c post where "es = pre @ c # post" "entry_kind c = CompactionType" "no_compaction post"
proof (cases "\<exists>e \<in> set es. entry_kind e = CompactionType")
  case True
  from split_list_last_prop [OF True] that(2) show ?thesis by (auto simp: no_compaction_def list_all_iff)
next
  case False
  with that(1) show ?thesis by (auto simp: no_compaction_def list_all_iff)
qed

lemma no_compaction_snoc: "no_compaction (es @ [e]) \<longleftrightarrow> no_compaction es \<and> entry_kind e \<noteq> CompactionType"
  by (simp add: no_compaction_def)

lemma defaultTransform_snoc:
  assumes "entry_kind e \<noteq> CompactionType"
  shows "defaultContextEntryTransform (es @ [e]) = defaultContextEntryTransform es @ [e]"
proof (cases rule: compaction_cases [of es])
  case 1
  then show ?thesis using assms by (simp add: defaultTransform_none no_compaction_snoc)
next
  case (2 pre c post)
  then show ?thesis
    using defaultTransform_last [of c "post @ [e]" pre] assms by (simp add: defaultTransform_last no_compaction_snoc)
qed

lemma defaultTransform_idem: "defaultContextEntryTransform (defaultContextEntryTransform es) = defaultContextEntryTransform es"
proof (cases rule: compaction_cases [of es])
  case (2 pre c post)
  then show ?thesis using defaultTransform_last [of c post "[]"] by (simp add: defaultTransform_last)
qed (simp add: defaultTransform_none)

section \<open>The context of a growing branch\<close>

text \<open>Projectors that look only at their own entry, and no transforms: the harness defaults.\<close>

definition local_options :: "build_options \<Rightarrow> bool" where
  "local_options options \<longleftrightarrow> bo_entryTransforms options = [] \<and>
     (\<forall>t project. bo_entryProjectors options t = Some project \<longrightarrow>
        (\<forall>e i j es es'. project e i es = project e j es'))"

definition entry_messages :: "build_options \<Rightarrow> entry \<Rightarrow> agent_message list" where
  "entry_messages options e = sessionEntryToContextMessages e 0 [] options"

lemma entry_messages_local:
  "local_options options \<Longrightarrow> sessionEntryToContextMessages e i es options = entry_messages options e"
proof -
  assume "local_options options"
  then have "project e i es = project e 0 []" if "bo_entryProjectors options t = Some project" for t project
    using that unfolding local_options_def by blast
  note same = this
  show ?thesis
  proof (cases "entry_payload e")
    case (CustomPayload t d)
    then show ?thesis
      using same [of t]
      by (cases "bo_entryProjectors options t") (auto simp: entry_messages_def sessionEntryToContextMessages_def)
  qed (simp_all add: entry_messages_def sessionEntryToContextMessages_def)
qed

lemma map_enumerate_snd: "map (\<lambda>(i, x). f x) (enumerate n xs) = map f xs"
  by (induction xs arbitrary: n) auto

lemma buildSessionContext_messages:
  assumes "local_options options"
  shows "cx_messages (buildSessionContext es options)
       = concat (map (entry_messages options) (defaultContextEntryTransform es))"
  using assms
  by (simp add: buildSessionContext_def entry_messages_local buildContextEntries_def local_options_def
      context_state.defs session_context.defs map_enumerate_snd)

lemma buildSessionContext_state:
  "context_state.truncate (buildSessionContext es options) = deriveSessionContextState es"
  by (simp add: buildSessionContext_def context_state.defs session_context.defs Let_def)

lemma context_grows:
  assumes "local_options options" and "entry_kind e \<noteq> CompactionType"
  shows "cx_messages (buildSessionContext (es @ [e]) options)
       = cx_messages (buildSessionContext es options) @ entry_messages options e"
  using assms by (simp add: buildSessionContext_messages defaultTransform_snoc)

lemma context_after_compaction:
  assumes "local_options options"
    and "entry_payload c = CompactionPayload summary retainedTail tokensBefore details use"
    and "no_compaction post"
  shows "cx_messages (buildSessionContext (pre @ c # post) options)
       = createCompactionSummaryMessage summary tokensBefore (entry_timestamp c) # retainedTail
         @ concat (map (entry_messages options) post)"
  using assms
  by (simp add: buildSessionContext_messages defaultTransform_last entry_messages_def sessionEntryToContextMessages_def)

section \<open>Provider messages\<close>

lemma convertToLlm_append: "convertToLlm (xs @ ys) = convertToLlm xs @ convertToLlm ys"
  by (induction xs) (auto simp: convertToLlm_def List.map_filter_def)

lemma convertToLlm_simps [simp]:
  "convertToLlm [] = []"
  "convertToLlm (m # ms) = (case convert_message m of None \<Rightarrow> [] | Some x \<Rightarrow> [x]) @ convertToLlm ms"
  by (auto simp: convertToLlm_def List.map_filter_def split: option.splits)

lemma convert_message_role:
  "convert_message m = Some x \<Longrightarrow> message_role x \<in> {''user'', ''assistant'', ''toolResult''} \<and> convert_message x = Some x"
  by (cases m) (auto split: if_splits)

lemma convertToLlm_roles: "x \<in> set (convertToLlm ms) \<Longrightarrow> message_role x \<in> {''user'', ''assistant'', ''toolResult''}"
proof (induction ms)
  case (Cons m ms)
  then show ?case using convert_message_role [of m x] by (cases "convert_message m") auto
qed simp

lemma convertToLlm_idem: "convertToLlm (convertToLlm ms) = convertToLlm ms"
  by (induction ms) (auto dest: convert_message_role split: option.splits)

section \<open>Properties of the context\<close>

text \<open>After a compaction, the messages of a context are the compaction summary, the messages the compaction retained,
  and the messages of the entries after it; nothing before the newest compaction matters.\<close>

theorem compacted_context:
  assumes "local_options options"
    and "entry_payload c = CompactionPayload summary retainedTail tokensBefore details use"
    and "no_compaction post"
  shows "cx_messages (buildSessionContext (pre @ c # post) options)
       = createCompactionSummaryMessage summary tokensBefore (entry_timestamp c) # retainedTail
         @ concat (map (entry_messages options) post)"
  by (rule context_after_compaction [OF assms])

definition sample_options :: build_options where
  "sample_options = \<lparr>bo_entryTransforms = [], bo_entryProjectors = Map.empty\<rparr>"

definition sample_compaction :: entry where
  "sample_compaction = \<lparr>entry_id = ''c'', entry_seq = 3, entry_parentId = Some ''b'', entry_timestamp = 12,
     entry_payload = CompactionPayload ''short'' [UserMessage (ContentString ''kept'') 3] 100 None None\<rparr>"

theorem compacted_context_witness:
  "cx_messages (buildSessionContext ([] @ sample_compaction # []) sample_options)
     = createCompactionSummaryMessage ''short'' 100 (entry_timestamp sample_compaction) # [UserMessage (ContentString ''kept'') 3]
       @ concat (map (entry_messages sample_options) [])"
  by (rule compacted_context) (simp_all add: local_options_def sample_options_def sample_compaction_def no_compaction_def)

text \<open>Adding an entry that is not a compaction to a branch extends the messages of its context by the messages of that
  entry and leaves the others as they were.\<close>

theorem context_extends:
  assumes "local_options options" and "entry_kind e \<noteq> CompactionType"
  shows "cx_messages (buildSessionContext (es @ [e]) options)
       = cx_messages (buildSessionContext es options) @ entry_messages options e"
  by (rule context_grows [OF assms])

definition sample_reply :: entry where
  "sample_reply = \<lparr>entry_id = ''u'', entry_seq = 4, entry_parentId = Some ''c'', entry_timestamp = 13,
     entry_payload = MessagePayload (UserMessage (ContentString ''next'') 13) False\<rparr>"

theorem context_extends_witness:
  "cx_messages (buildSessionContext ([sample_compaction] @ [sample_reply]) sample_options)
     = cx_messages (buildSessionContext [sample_compaction] sample_options) @ entry_messages sample_options sample_reply"
  by (rule context_extends) (simp_all add: local_options_def sample_options_def sample_reply_def)

text \<open>The entries that set the model, and the model they set.\<close>

definition entry_model :: "entry \<Rightarrow> model_ref option" where
  "entry_model e =
     (case entry_payload e of
        ModelChangePayload provider modelId \<Rightarrow> Some \<lparr>mr_provider = provider, mr_modelId = modelId\<rparr>
      | MessagePayload (AssistantMessage m) _ \<Rightarrow> Some \<lparr>mr_provider = am_provider m, mr_modelId = am_model m\<rparr>
      | _ \<Rightarrow> None)"

lemma derive_model: "cx_model (foldl derive_step c es) =
    (case List.find (\<lambda>e. entry_model e \<noteq> None) (rev es) of None \<Rightarrow> cx_model c | Some e \<Rightarrow> entry_model e)"
proof (induction es rule: rev_induct)
  case (snoc e es)
  then show ?case
    by (cases "entry_payload e")
      (auto simp: derive_step_def entry_model_def split: agent_message.splits)
qed simp

text \<open>The model of a context is the one set by the last entry of the branch that sets one, by a model change or by an
  assistant message; there is none when no entry sets one.\<close>

theorem context_model_latest:
  "cx_model (buildSessionContext es options) = Option.bind (List.find (\<lambda>e. entry_model e \<noteq> None) (rev es)) entry_model"
proof -
  have "cx_model (buildSessionContext es options) = cx_model (deriveSessionContextState es)"
    by (simp add: buildSessionContext_def context_state.defs session_context.defs Let_def)
  then show ?thesis by (simp add: deriveSessionContextState_def derive_model split: option.split)
qed

text \<open>Conversion for the provider keeps the order of messages, yields user, assistant and tool-result messages only, and
  converting a converted list again changes nothing.\<close>

theorem converted_messages:
  "(\<forall>x y. convertToLlm (x @ y) = convertToLlm x @ convertToLlm y) \<and>
   set (map message_role (convertToLlm ms)) \<subseteq> {''user'', ''assistant'', ''toolResult''} \<and>
   convertToLlm (convertToLlm ms) = convertToLlm ms"
  using convertToLlm_roles [of _ ms] by (auto simp: convertToLlm_append convertToLlm_idem)

end
