(* ===== verification/Json_Text.thy ===== *)
theory Json_Text
  imports Prelude
begin

text \<open>
  JSON text as \<^verbatim>\<open>JSON.stringify\<close> prints it and \<^verbatim>\<open>JSON.parse\<close> reads it, on strings that stand for their UTF-8 bytes.
  The decimal text of a number that is not an integer below \<open>10\<^sup>2\<^sup>1\<close>, the double nearest to a decimal text, and the value of a double
  are parameters (\<open>number_format\<close>).  Shown: what is printed is read back, an unfinished object is never read as one,
  and printed text has no line break.
\<close>

section \<open>Printing\<close>

definition quote :: string where
  "quote = [CHR 0x22]"

definition hex_digit :: "nat \<Rightarrow> char" where
  "hex_digit n = char_of (if n < 10 then 48 + n else 87 + n)"

text \<open>The escapes of \<^verbatim>\<open>JSON.stringify\<close>.\<close>

definition json_escape :: "char \<Rightarrow> string" where
  "json_escape c =
     (let n = of_char c :: nat in
      if n = 0x22 \<or> n = 0x5C then [CHR 0x5C, c]
      else if n = 8 then CHR 0x5C # ''b'' else if n = 9 then CHR 0x5C # ''t''
      else if n = 10 then CHR 0x5C # ''n'' else if n = 12 then CHR 0x5C # ''f''
      else if n = 13 then CHR 0x5C # ''r''
      else if n < 0x20 then CHR 0x5C # ''u00'' @ [hex_digit (n div 16), hex_digit (n mod 16)]
      else [c])"

definition json_string :: "string \<Rightarrow> string" where
  "json_string s = quote @ concat (map json_escape s) @ quote"

fun json_number :: "(jsnum \<Rightarrow> string) \<Rightarrow> jsnum \<Rightarrow> string" where
  "json_number numText (JsInt n) = (if \<bar>n\<bar> < 10 ^ 21 then int_to_string n else numText (JsInt n))"
| "json_number numText JsNegZero = ''0''"
| "json_number numText (JsFrac b) = numText (JsFrac b)"
| "json_number numText _ = ''null''"

fun json_text :: "(jsnum \<Rightarrow> string) \<Rightarrow> json \<Rightarrow> string" where
  "json_text numText JNull = ''null''"
| "json_text numText (JBool b) = (if b then ''true'' else ''false'')"
| "json_text numText (JNum x) = json_number numText x"
| "json_text numText (JStr s) = json_string s"
| "json_text numText (JArr js) = ''['' @ js_join '','' (map (json_text numText) js) @ '']''"
| "json_text numText (JObj ps) =
     ''{'' @ js_join '','' (map (\<lambda>(k, j). json_string k @ '':'' @ json_text numText j) ps) @ ''}''"

section \<open>Reading\<close>

record number_format =
  nf_text :: "jsnum \<Rightarrow> string"
  nf_value :: "string \<Rightarrow> jsnum"
  nf_bits :: "rat \<Rightarrow> 64 word"
  nf_rat :: "64 word \<Rightarrow> rat"

definition is_ws :: "char \<Rightarrow> bool" where
  "is_ws c = (c = CHR 0x20 \<or> c = CHR 0x09 \<or> c = CHR 0x0A \<or> c = CHR 0x0D)"

definition skip_ws :: "string \<Rightarrow> string" where
  "skip_ws s = dropWhile is_ws s"

definition is_digit :: "char \<Rightarrow> bool" where
  "is_digit c = (48 \<le> (of_char c :: nat) \<and> (of_char c :: nat) \<le> 57)"

definition digits_value :: "string \<Rightarrow> nat" where
  "digits_value ds = foldl (\<lambda>n c. 10 * n + (of_char c - 48)) 0 ds"

text \<open>The parts of a number: integer digits, fraction and exponent, each with what follows it.\<close>

definition int_part :: "string \<Rightarrow> (string \<times> string) option" where
  "int_part s =
     (case s of
        [] \<Rightarrow> None
      | c # r \<Rightarrow> if c = CHR ''0'' then Some ([c], r)
                else if is_digit c then Some (c # takeWhile is_digit r, dropWhile is_digit r)
                else None)"

definition digits_after :: "string \<Rightarrow> string \<Rightarrow> (string \<times> string) option" where
  "digits_after lead r =
     (if takeWhile is_digit r = [] then None else Some (lead @ takeWhile is_digit r, dropWhile is_digit r))"

definition frac_part :: "string \<Rightarrow> (string \<times> string) option" where
  "frac_part s =
     (case s of
        c # r \<Rightarrow> if c = CHR ''.'' then digits_after [c] r else Some ([], s)
      | [] \<Rightarrow> Some ([], []))"

definition exp_part :: "string \<Rightarrow> (string \<times> string) option" where
  "exp_part s =
     (case s of
        c # r \<Rightarrow>
          if c = CHR ''e'' \<or> c = CHR ''E'' then
            (case r of
               d # r' \<Rightarrow> if d = CHR ''+'' \<or> d = CHR ''-'' then digits_after [c, d] r' else digits_after [c] r
             | [] \<Rightarrow> None)
          else Some ([], s)
      | [] \<Rightarrow> Some ([], []))"

definition number_value :: "number_format \<Rightarrow> string \<Rightarrow> string \<Rightarrow> string \<Rightarrow> string \<Rightarrow> jsnum" where
  "number_value nf sign ip fp ep =
     (if fp = [] \<and> ep = [] \<and> digits_value ip \<le> 2 ^ 53 then
        (if sign = [] then JsInt (int (digits_value ip))
         else if digits_value ip = 0 then JsNegZero else JsInt (- int (digits_value ip)))
      else nf_value nf (sign @ ip @ fp @ ep))"

definition parse_unsigned :: "number_format \<Rightarrow> string \<Rightarrow> string \<Rightarrow> (json \<times> string) option" where
  "parse_unsigned nf sign s =
     (case int_part s of None \<Rightarrow> None
      | Some (ip, r1) \<Rightarrow> (case frac_part r1 of None \<Rightarrow> None
        | Some (fp, r2) \<Rightarrow> (case exp_part r2 of None \<Rightarrow> None
          | Some (ep, r3) \<Rightarrow> Some (JNum (number_value nf sign ip fp ep), r3))))"

definition parse_number :: "number_format \<Rightarrow> string \<Rightarrow> (json \<times> string) option" where
  "parse_number nf s =
     (case s of
        c # r \<Rightarrow> if c = CHR ''-'' then parse_unsigned nf [c] r else parse_unsigned nf [] s
      | [] \<Rightarrow> None)"

definition hex_value :: "char \<Rightarrow> nat option" where
  "hex_value c =
     (let n = of_char c :: nat in
      if 48 \<le> n \<and> n \<le> 57 then Some (n - 48)
      else if 97 \<le> n \<and> n \<le> 102 then Some (n - 87)
      else if 65 \<le> n \<and> n \<le> 70 then Some (n - 55)
      else None)"

fun hex4 :: "string \<Rightarrow> (nat \<times> string) option" where
  "hex4 (a # b # c # d # r) =
     (case (hex_value a, hex_value b, hex_value c, hex_value d) of
        (Some w, Some x, Some y, Some z) \<Rightarrow> Some (4096 * w + 256 * x + 16 * y + z, r)
      | _ \<Rightarrow> None)"
| "hex4 _ = None"

text \<open>The UTF-8 bytes of a code point; a lone surrogate keeps its three bytes.\<close>

definition utf8_char :: "nat \<Rightarrow> string" where
  "utf8_char n =
     (if n < 0x80 then [char_of n]
      else if n < 0x800 then [char_of (0xC0 + n div 64), char_of (0x80 + n mod 64)]
      else if n < 0x10000 then [char_of (0xE0 + n div 4096), char_of (0x80 + n div 64 mod 64), char_of (0x80 + n mod 64)]
      else [char_of (0xF0 + n div 262144), char_of (0x80 + n div 4096 mod 64), char_of (0x80 + n div 64 mod 64),
            char_of (0x80 + n mod 64)])"

definition unicode_escape :: "string \<Rightarrow> (string \<times> string) option" where
  "unicode_escape s =
     (case hex4 s of
        None \<Rightarrow> None
      | Some (u, r) \<Rightarrow>
          (case r of
             a # b # r' \<Rightarrow>
               if 0xD800 \<le> u \<and> u < 0xDC00 \<and> a = CHR 0x5C \<and> b = CHR ''u'' then
                 (case hex4 r' of
                    None \<Rightarrow> None
                  | Some (v, r'') \<Rightarrow>
                      if 0xDC00 \<le> v \<and> v < 0xE000
                      then Some (utf8_char (0x10000 + 1024 * (u - 0xD800) + (v - 0xDC00)), r'')
                      else Some (utf8_char u, r))
               else Some (utf8_char u, r)
           | _ \<Rightarrow> Some (utf8_char u, r)))"

definition simple_escape :: "char \<Rightarrow> char option" where
  "simple_escape c =
     (if c = CHR 0x22 \<or> c = CHR 0x5C \<or> c = CHR ''/'' then Some c
      else if c = CHR ''b'' then Some (CHR 0x08) else if c = CHR ''f'' then Some (CHR 0x0C)
      else if c = CHR ''n'' then Some (CHR 0x0A) else if c = CHR ''r'' then Some (CHR 0x0D)
      else if c = CHR ''t'' then Some (CHR 0x09) else None)"

text \<open>One character of a string, after its opening quote.\<close>

definition string_char :: "char \<Rightarrow> string \<Rightarrow> (string \<times> string) option" where
  "string_char c r =
     (if c = CHR 0x5C then
        (case r of
           [] \<Rightarrow> None
         | e # r' \<Rightarrow> if e = CHR ''u'' then unicode_escape r'
                    else map_option (\<lambda>x. ([x], r')) (simple_escape e))
      else if (of_char c :: nat) < 0x20 then None
      else Some ([c], r))"

lemma hex4_length: "hex4 s = Some (u, r) \<Longrightarrow> length r < length s"
  by (induction s rule: hex4.induct) (auto split: option.splits)

lemma unicode_escape_length: "unicode_escape s = Some (u, r) \<Longrightarrow> length r < length s"
  by (auto simp: unicode_escape_def split: option.splits list.splits if_splits dest!: hex4_length)

lemma string_char_length: "string_char c s = Some (u, r) \<Longrightarrow> length r \<le> length s"
  by (auto simp: string_char_def split: if_splits list.splits dest!: unicode_escape_length)

function parse_string :: "string \<Rightarrow> (string \<times> string) option" where
  "parse_string [] = None"
| "parse_string (c # r) =
     (if c = CHR 0x22 then Some ([], r)
      else (case string_char c r of
        None \<Rightarrow> None
      | Some (u, r') \<Rightarrow> map_option (\<lambda>(s, q). (u @ s, q)) (parse_string r')))"
  by pat_completeness auto
termination
  by (relation "measure length") (auto dest: string_char_length)

declare parse_string.simps [simp del]

fun expect :: "string \<Rightarrow> json \<Rightarrow> string \<Rightarrow> (json \<times> string) option" where
  "expect [] v s = Some (v, s)"
| "expect (k # ks) v (c # s) = (if k = c then expect ks v s else None)"
| "expect (k # ks) v [] = None"

text \<open>Setting the properties of an object in order: a repeated key keeps its place and takes the new value.\<close>

definition make_object :: "(string \<times> json) list \<Rightarrow> json" where
  "make_object ps = JObj (foldl (\<lambda>ob (k, v). AList.update k v ob) [] ps)"

text \<open>The value at the head of a text, and what follows it; the fuel bounds the depth of calls.\<close>

fun parse_value :: "number_format \<Rightarrow> nat \<Rightarrow> string \<Rightarrow> (json \<times> string) option"
  and parse_elements :: "number_format \<Rightarrow> nat \<Rightarrow> string \<Rightarrow> (json list \<times> string) option"
  and parse_members :: "number_format \<Rightarrow> nat \<Rightarrow> string \<Rightarrow> ((string \<times> json) list \<times> string) option" where
  "parse_value nf 0 s = None"
| "parse_value nf (Suc n) s =
     (case skip_ws s of
        [] \<Rightarrow> None
      | c # r \<Rightarrow>
          if c = CHR ''{'' then
            (case skip_ws r of
               [] \<Rightarrow> None
             | d # r' \<Rightarrow> if d = CHR ''}'' then Some (JObj [], r')
                        else map_option (\<lambda>(ps, q). (make_object ps, q)) (parse_members nf n (d # r')))
          else if c = CHR ''['' then
            (case skip_ws r of
               [] \<Rightarrow> None
             | d # r' \<Rightarrow> if d = CHR '']'' then Some (JArr [], r')
                        else map_option (\<lambda>(vs, q). (JArr vs, q)) (parse_elements nf n (d # r')))
          else if c = CHR 0x22 then map_option (\<lambda>(t, q). (JStr t, q)) (parse_string r)
          else if c = CHR ''t'' then expect ''rue'' (JBool True) r
          else if c = CHR ''f'' then expect ''alse'' (JBool False) r
          else if c = CHR ''n'' then expect ''ull'' JNull r
          else parse_number nf (c # r))"
| "parse_elements nf 0 s = None"
| "parse_elements nf (Suc n) s =
     (case parse_value nf n s of
        None \<Rightarrow> None
      | Some (v, r) \<Rightarrow>
          (case skip_ws r of
             [] \<Rightarrow> None
           | d # r' \<Rightarrow>
               if d = CHR '','' then map_option (\<lambda>(vs, q). (v # vs, q)) (parse_elements nf n r')
               else if d = CHR '']'' then Some ([v], r')
               else None))"
| "parse_members nf 0 s = None"
| "parse_members nf (Suc n) s =
     (case skip_ws s of
        [] \<Rightarrow> None
      | c # s' \<Rightarrow>
          if c \<noteq> CHR 0x22 then None
          else (case parse_string s' of
            None \<Rightarrow> None
          | Some (k, r) \<Rightarrow>
              (case skip_ws r of
                 [] \<Rightarrow> None
               | d # r1 \<Rightarrow>
                   if d \<noteq> CHR '':'' then None
                   else (case parse_value nf n r1 of
                     None \<Rightarrow> None
                   | Some (v, r2) \<Rightarrow>
                       (case skip_ws r2 of
                          [] \<Rightarrow> None
                        | e # r3 \<Rightarrow>
                            if e = CHR '','' then map_option (\<lambda>(ps, q). ((k, v) # ps, q)) (parse_members nf n r3)
                            else if e = CHR ''}'' then Some ([(k, v)], r3)
                            else None)))))"

declare parse_value.simps [simp del] parse_elements.simps [simp del] parse_members.simps [simp del]

definition JSON_parse :: "number_format \<Rightarrow> string \<Rightarrow> json option" where
  "JSON_parse nf s =
     (case parse_value nf (2 * length s + 1) s of
        Some (j, r) \<Rightarrow> if skip_ws r = [] then Some j else None
      | None \<Rightarrow> None)"

definition JSON_stringify :: "number_format \<Rightarrow> json \<Rightarrow> string" where
  "JSON_stringify nf j = json_text (nf_text nf) j"

section \<open>Reading what was printed\<close>

subsection \<open>Digits\<close>

lemma digit_char: "n < 10 \<Longrightarrow> is_digit (char_of (48 + n)) \<and> (of_char (char_of (48 + n)) :: nat) = 48 + n"
  by (simp add: is_digit_def)

lemma nat_to_string_digits: "list_all is_digit (nat_to_string n)"
  by (induction n rule: nat_to_string.induct) (subst nat_to_string.simps, simp add: digit_char Let_def)

lemma digits_value_snoc: "digits_value (ds @ [c]) = 10 * digits_value ds + (of_char c - 48)"
  by (simp add: digits_value_def)

lemma nat_to_string_value: "digits_value (nat_to_string n) = n"
proof (induction n rule: nat_to_string.induct)
  case (1 n)
  show ?case
  proof (cases "n < 10")
    case True
    then show ?thesis
      using digit_char [of n] by (subst nat_to_string.simps) (simp add: digits_value_def Let_def)
  next
    case False
    with 1 [OF refl False] digit_char [of "n mod 10"] show ?thesis
      by (subst nat_to_string.simps) (simp add: digits_value_snoc Let_def)
  qed
qed

lemma nat_to_string_nonempty [simp]: "nat_to_string n \<noteq> []"
  by (subst nat_to_string.simps) (simp add: Let_def)

lemma nat_to_string_0: "nat_to_string 0 = ''0''"
proof -
  have "(of_char (char_of (48 + 0 :: nat)) :: nat) = of_char CHR ''0''" by simp
  then have "char_of (48 + 0 :: nat) = CHR ''0''" by (simp only: of_char_eq_iff)
  then show ?thesis by (subst nat_to_string.simps) simp
qed

lemma nat_to_string_lead: "0 < n \<Longrightarrow> hd (nat_to_string n) \<noteq> CHR ''0''"
proof (induction n rule: nat_to_string.induct)
  case (1 n)
  show ?case
  proof (cases "n < 10")
    case True
    have "(of_char (char_of (48 + n)) :: nat) \<noteq> of_char CHR ''0''" using 1 True by simp
    then have "char_of (48 + n) \<noteq> CHR ''0''" by metis
    with True show ?thesis by (subst nat_to_string.simps) (simp add: Let_def)
  next
    case False
    with 1 show ?thesis by (subst nat_to_string.simps) (simp add: Let_def)
  qed
qed

text \<open>What can follow a value: nothing, or a character no number goes on with.\<close>

definition ends_number :: "string \<Rightarrow> bool" where
  "ends_number s = (case s of [] \<Rightarrow> True | c # _ \<Rightarrow> \<not> is_digit c \<and> c \<noteq> CHR ''.'' \<and> c \<noteq> CHR ''e'' \<and> c \<noteq> CHR ''E'')"

lemma ends_number_Nil [simp]: "ends_number []"
  by (simp add: ends_number_def)

lemma takeWhile_stop: "list_all p xs \<Longrightarrow> (case ys of [] \<Rightarrow> True | y # _ \<Rightarrow> \<not> p y) \<Longrightarrow>
    takeWhile p (xs @ ys) = xs \<and> dropWhile p (xs @ ys) = ys"
  by (induction xs) (auto split: list.splits)

lemma int_part_nat: "ends_number rest \<Longrightarrow> int_part (nat_to_string n @ rest) = Some (nat_to_string n, rest)"
proof (cases "n = 0")
  case True
  then show ?thesis by (simp add: nat_to_string_0 int_part_def)
next
  case False
  assume rest: "ends_number rest"
  obtain c cs where c: "nat_to_string n = c # cs" by (cases "nat_to_string n") simp
  have "is_digit c" "list_all is_digit cs" "c \<noteq> CHR ''0''"
    using nat_to_string_digits [of n] nat_to_string_lead [of n] False by (simp_all add: c)
  moreover have "(case rest of [] \<Rightarrow> True | y # _ \<Rightarrow> \<not> is_digit y)"
    using rest by (simp add: ends_number_def split: list.splits)
  ultimately show ?thesis using takeWhile_stop [of is_digit cs rest] by (simp add: c int_part_def)
qed

lemma no_frac: "ends_number s \<Longrightarrow> frac_part s = Some ([], s)"
  by (cases s) (simp_all add: frac_part_def ends_number_def)

lemma no_exp: "ends_number s \<Longrightarrow> exp_part s = Some ([], s)"
  by (cases s) (simp_all add: exp_part_def ends_number_def)

lemma parse_safe_integer:
  assumes "\<bar>i\<bar> \<le> 2 ^ 53" "ends_number rest"
  shows "parse_number nf (int_to_string i @ rest) = Some (JNum (JsInt i), rest)"
proof (cases "i < 0")
  case True
  then have "digits_value (nat_to_string (nat (- i))) \<le> 2 ^ 53" "digits_value (nat_to_string (nat (- i))) \<noteq> 0"
    using assms(1) by (simp_all add: nat_to_string_value nat_le_iff)
  with True assms(2) show ?thesis
    by (simp add: int_to_string_def parse_number_def parse_unsigned_def int_part_nat no_frac no_exp number_value_def
        nat_to_string_value)
next
  case False
  obtain c cs where c: "nat_to_string (nat i) = c # cs" by (cases "nat_to_string (nat i)") simp
  have "is_digit c" using nat_to_string_digits [of "nat i"] by (simp add: c)
  then have "c \<noteq> CHR ''-''" by (auto simp: is_digit_def)
  moreover have "digits_value (nat_to_string (nat i)) \<le> 2 ^ 53"
    using assms(1) False by (simp add: nat_to_string_value nat_le_iff)
  ultimately show ?thesis
    using False assms(2) int_part_nat [of rest "nat i"] nat_to_string_value [of "nat i"]
    by (simp add: int_to_string_def parse_number_def parse_unsigned_def no_frac no_exp number_value_def c)
qed

subsection \<open>Strings\<close>

lemma hex_digit_value: "n < 16 \<Longrightarrow> hex_value (hex_digit n) = Some n"
  by (auto simp: hex_value_def hex_digit_def Let_def)

lemma char_is: "(of_char c :: nat) = of_char d \<Longrightarrow> c = d"
  by (simp only: of_char_eq_iff)

lemma escape_read:
  "parse_string (json_escape c @ s) = map_option (\<lambda>(t, q). (c # t, q)) (parse_string s)"
proof -
  define n where "n = (of_char c :: nat)"
  have c: "c = char_of n" by (simp add: n_def)
  have n: "n < 256" by (simp add: n_def)
  consider "n = 0x22" | "n = 0x5C" | "n = 8" | "n = 9" | "n = 10" | "n = 12" | "n = 13"
    | "n < 0x20" "n \<noteq> 8" "n \<noteq> 9" "n \<noteq> 10" "n \<noteq> 12" "n \<noteq> 13" | "0x20 \<le> n" "n \<noteq> 0x22" "n \<noteq> 0x5C"
    by linarith
  then show ?thesis
  proof cases
    case 8
    have "hex_value CHR ''0'' = Some 0" by (simp add: hex_value_def)
    then have "unicode_escape (''00'' @ [hex_digit (n div 16), hex_digit (n mod 16)] @ s) = Some ([c], s)"
      using 8 by (auto simp: unicode_escape_def hex_digit_value utf8_char_def c split: list.splits)
    with 8 show ?thesis
      by (simp add: json_escape_def Let_def parse_string.simps string_char_def flip: n_def)
  next
    case 9
    then have "c \<noteq> CHR 0x22" "c \<noteq> CHR 0x5C" by (auto simp: n_def)
    with 9 show ?thesis
      by (simp add: json_escape_def Let_def parse_string.simps string_char_def flip: n_def)
  qed (use char_is [of c "CHR 0x22"] char_is [of c "CHR 0x5C"] char_is [of c "CHR 0x08"] char_is [of c "CHR 0x09"]
      char_is [of c "CHR 0x0A"] char_is [of c "CHR 0x0C"] char_is [of c "CHR 0x0D"]
    in \<open>simp_all add: json_escape_def Let_def parse_string.simps string_char_def simple_escape_def flip: n_def\<close>)
qed

lemma parse_json_string: "parse_string (concat (map json_escape s) @ CHR 0x22 # rest) = Some (s, rest)"
  by (induction s) (simp_all add: escape_read parse_string.simps)

subsection \<open>More input\<close>

text \<open>A reader that stopped before the end of its input, or before what ends a number, does the same on a longer input.\<close>

lemma dropWhile_more: "dropWhile p s \<noteq> [] \<or> (case q of [] \<Rightarrow> True | c # _ \<Rightarrow> \<not> p c) \<Longrightarrow>
    takeWhile p (s @ q) = takeWhile p s \<and> dropWhile p (s @ q) = dropWhile p s @ q"
  by (induction s) (auto split: list.splits)

lemma ends_number_digit: "ends_number q \<Longrightarrow> (case q of [] \<Rightarrow> True | c # _ \<Rightarrow> \<not> is_digit c)"
  by (auto simp: ends_number_def split: list.splits)

lemma int_part_more:
  "int_part s = Some (ip, r) \<Longrightarrow> r \<noteq> [] \<or> ends_number q \<Longrightarrow> int_part (s @ q) = Some (ip, r @ q)"
  using dropWhile_more [of is_digit _ q] ends_number_digit [of q]
  by (cases s) (auto simp: int_part_def split: if_splits)

lemma digits_after_more:
  "digits_after lead s = Some (ds, r) \<Longrightarrow> r \<noteq> [] \<or> ends_number q \<Longrightarrow> digits_after lead (s @ q) = Some (ds, r @ q)"
  using dropWhile_more [of is_digit s q] ends_number_digit [of q]
  by (auto simp: digits_after_def split: if_splits)

lemma frac_part_more:
  "frac_part s = Some (fp, r) \<Longrightarrow> r \<noteq> [] \<or> ends_number q \<Longrightarrow> frac_part (s @ q) = Some (fp, r @ q)"
  using digits_after_more no_frac [of q] by (cases s) (auto simp: frac_part_def split: if_splits)

lemma exp_part_more:
  "exp_part s = Some (ep, r) \<Longrightarrow> r \<noteq> [] \<or> ends_number q \<Longrightarrow> exp_part (s @ q) = Some (ep, r @ q)"
proof (cases s)
  case (Cons c t)
  assume "exp_part s = Some (ep, r)" "r \<noteq> [] \<or> ends_number q"
  with Cons digits_after_more [of _ t ep r q] digits_after_more [of _ "tl t" ep r q] show ?thesis
    by (cases t) (auto simp: exp_part_def split: if_splits)
qed (use no_exp [of q] in \<open>auto simp: exp_part_def\<close>)

lemma parse_unsigned_more:
  assumes "parse_unsigned nf sign s = Some (v, r)" "r \<noteq> [] \<or> ends_number q"
  shows "parse_unsigned nf sign (s @ q) = Some (v, r @ q)"
proof -
  from assms(1) obtain ip r1 fp r2 ep where parts: "int_part s = Some (ip, r1)" "frac_part r1 = Some (fp, r2)"
      "exp_part r2 = Some (ep, r)" "v = JNum (number_value nf sign ip fp ep)"
    by (auto simp: parse_unsigned_def split: option.splits)
  have "r2 \<noteq> []" if "r \<noteq> []" using parts(3) that by (auto simp: exp_part_def)
  with assms(2) have r2: "r2 \<noteq> [] \<or> ends_number q" by blast
  moreover have "r1 \<noteq> []" if "r2 \<noteq> []" using parts(2) that by (auto simp: frac_part_def)
  ultimately have r1: "r1 \<noteq> [] \<or> ends_number q" by blast
  show ?thesis
    using int_part_more [OF parts(1) r1] frac_part_more [OF parts(2) r2] exp_part_more [OF parts(3) assms(2)]
    by (simp add: parse_unsigned_def parts(4))
qed

lemma parse_number_more:
  "parse_number nf s = Some (v, r) \<Longrightarrow> r \<noteq> [] \<or> ends_number q \<Longrightarrow> parse_number nf (s @ q) = Some (v, r @ q)"
  using parse_unsigned_more [of nf _ s v r q] parse_unsigned_more [of nf _ "tl s" v r q]
  by (cases s) (auto simp: parse_number_def split: if_splits)

lemma hex4_more: "hex4 s = Some (u, r) \<Longrightarrow> hex4 (s @ q) = Some (u, r @ q)"
  by (induction s rule: hex4.induct) (auto split: option.splits)

lemma expect_more: "expect ks v s = Some (w, r) \<Longrightarrow> expect ks v (s @ q) = Some (w, r @ q)"
  by (induction ks v s rule: expect.induct) (auto split: if_splits)

lemma skip_ws_more: "skip_ws s = c # r \<Longrightarrow> skip_ws (s @ q) = c # r @ q"
  unfolding skip_ws_def using dropWhile_more [of is_ws s q] by auto

lemma unicode_escape_more:
  assumes "unicode_escape s = Some (u, r)" "r \<noteq> []" "r \<noteq> [CHR 0x5C]"
  shows "unicode_escape (s @ q) = Some (u, r @ q)"
proof -
  from assms(1) obtain v r0 where v: "hex4 s = Some (v, r0)" by (auto simp: unicode_escape_def split: option.splits)
  show ?thesis
  proof (cases r0)
    case Nil
    with assms(1,2) v show ?thesis by (simp add: unicode_escape_def)
  next
    case (Cons a r1)
    show ?thesis
    proof (cases r1)
      case Nil
      with assms(1) v Cons have r: "r = [a]" "u = utf8_char v" by (simp_all add: unicode_escape_def)
      with assms(3) have "a \<noteq> CHR 0x5C" by simp
      with v Cons Nil r show ?thesis by (cases q) (simp_all add: unicode_escape_def hex4_more [of s v "[a]"])
    next
      case (Cons b r2)
      with assms(1) v \<open>r0 = a # r1\<close> show ?thesis
        using hex4_more [OF v, of q] hex4_more [of r2 _ _ q]
        by (auto simp: unicode_escape_def split: if_splits option.splits)
    qed
  qed
qed

lemma string_char_more:
  assumes "string_char c s = Some (u, r)" "parse_string r \<noteq> None"
  shows "string_char c (s @ q) = Some (u, r @ q)"
proof (cases "c = CHR 0x5C")
  case True
  with assms(1) obtain e s' where s: "s = e # s'" by (cases s) (auto simp: string_char_def)
  have "r \<noteq> []" "r \<noteq> [CHR 0x5C]"
    using assms(2) by (auto simp: parse_string.simps string_char_def)
  with assms(1) True s unicode_escape_more [of s' u r q] show ?thesis
    by (auto simp: string_char_def split: if_splits)
qed (use assms(1) in \<open>auto simp: string_char_def split: if_splits\<close>)

lemma parse_string_more: "parse_string s = Some (t, r) \<Longrightarrow> parse_string (s @ q) = Some (t, r @ q)"
proof (induction s arbitrary: t rule: parse_string.induct)
  case (2 c s)
  show ?case
  proof (cases "c = CHR 0x22")
    case False
    with "2.prems" obtain u r' t' where u: "string_char c s = Some (u, r')" "parse_string r' = Some (t', r)" "t = u @ t'"
      by (auto simp: parse_string.simps split: option.splits)
    then have "string_char c (s @ q) = Some (u, r' @ q)" by (intro string_char_more) auto
    with "2.IH" [OF False u(1) refl u(2)] False u(3) show ?thesis by (simp add: parse_string.simps)
  qed (use "2.prems" in \<open>simp add: parse_string.simps\<close>)
qed (simp add: parse_string.simps)

lemma parse_string_length: "parse_string s = Some (t, r) \<Longrightarrow> length r < length s"
proof (induction s arbitrary: t rule: parse_string.induct)
  case (2 c s)
  then show ?case
    by (auto simp: parse_string.simps split: if_splits option.splits dest!: string_char_length) fastforce
qed (simp add: parse_string.simps)

text \<open>What ends in a bracket or a quote cannot be continued at all.\<close>

definition self_delimiting :: "string \<Rightarrow> bool" where
  "self_delimiting s = (\<exists>c r. skip_ws s = c # r \<and> (c = CHR ''{'' \<or> c = CHR ''['' \<or> c = CHR 0x22))"

lemma parse_more:
  "parse_value nf n s = Some (v, r) \<Longrightarrow> r \<noteq> [] \<or> ends_number q \<or> self_delimiting s \<Longrightarrow> parse_value nf n (s @ q) = Some (v, r @ q)"
  "parse_elements nf n s = Some (vs, r) \<Longrightarrow> parse_elements nf n (s @ q) = Some (vs, r @ q)"
  "parse_members nf n s = Some (ps, r) \<Longrightarrow> parse_members nf n (s @ q) = Some (ps, r @ q)"
proof (induction nf n s and nf n s and nf n s arbitrary: v r and vs r and ps r
    rule: parse_value_parse_elements_parse_members.induct)
  case (2 nf n s)
  then obtain c s1 where c: "skip_ws s = c # s1" by (auto simp: parse_value.simps split: list.splits)
  note more = skip_ws_more [OF c, of q]
  show ?case
  proof (cases "c = CHR ''{'' \<or> c = CHR ''[''")
    case True
    with "2.prems"(1) c obtain d s2 where d: "skip_ws s1 = d # s2" by (auto simp: parse_value.simps split: list.splits)
    with 2 c True more skip_ws_more [OF d, of q] show ?thesis
      by (auto simp: parse_value.simps split: if_splits)
  next
    case False
    with "2.prems" c more parse_string_more [of s1 _ _ q] expect_more [of _ _ s1 _ _ q] parse_number_more [of nf "c # s1" v r q]
    show ?thesis by (auto simp: parse_value.simps self_delimiting_def split: if_splits)
  qed
next
  case (4 nf n s)
  then obtain v1 r1 d r2 where v1: "parse_value nf n s = Some (v1, r1)" and d: "skip_ws r1 = d # r2"
    by (auto simp: parse_elements.simps split: option.splits list.splits)
  then have "r1 \<noteq> []" by (auto simp: skip_ws_def)
  with "4.IH"(1) [OF v1] have "parse_value nf n (s @ q) = Some (v1, r1 @ q)" by blast
  with "4.prems" "4.IH"(2) [OF v1 refl d] v1 d skip_ws_more [OF d, of q] show ?case
    by (auto simp: parse_elements.simps split: if_splits)
next
  case (6 nf n s)
  then obtain c s1 k r0 d r1 v2 r2 e r3 where parts: "skip_ws s = c # s1" "parse_string s1 = Some (k, r0)" "skip_ws r0 = d # r1"
      "parse_value nf n r1 = Some (v2, r2)" "skip_ws r2 = e # r3" "c = CHR 0x22" "d = CHR '':''"
    by (auto simp: parse_members.simps split: option.splits list.splits if_splits)
  then have "r2 \<noteq> []" by (auto simp: skip_ws_def)
  with "6.IH"(1) parts have "parse_value nf n (r1 @ q) = Some (v2, r2 @ q)" by blast
  with "6.prems" "6.IH"(2) parts skip_ws_more [OF parts(1), of q] skip_ws_more [OF parts(3), of q] skip_ws_more [OF parts(5), of q]
    parse_string_more [OF parts(2), of q]
  show ?case by (auto simp: parse_members.simps split: if_splits)
qed (simp_all add: parse_value.simps parse_elements.simps parse_members.simps)

subsection \<open>Fuel\<close>

lemma skip_ws_length: "skip_ws s = c # r \<Longrightarrow> length r < length s"
  by (metis length_dropWhile_le length_Cons less_eq_Suc_le skip_ws_def)

lemma expect_length: "expect ks v s = Some (w, r) \<Longrightarrow> length r \<le> length s"
  by (induction ks v s rule: expect.induct) (auto split: if_splits)

lemma parse_unsigned_length: "parse_unsigned nf sign s = Some (v, r) \<Longrightarrow> length r < length s"
proof -
  have dw: "length (dropWhile p xs) \<le> length xs" for p and xs :: string by (rule length_dropWhile_le)
  assume "parse_unsigned nf sign s = Some (v, r)"
  then obtain ip r1 fp r2 ep where parts: "int_part s = Some (ip, r1)" "frac_part r1 = Some (fp, r2)" "exp_part r2 = Some (ep, r)"
    by (auto simp: parse_unsigned_def split: option.splits)
  have "length r1 < length s"
    using parts(1) dw by (auto simp: int_part_def less_Suc_eq_le split: list.splits if_splits)
  moreover have "length r2 \<le> length r1"
    using parts(2) dw by (auto simp: frac_part_def digits_after_def le_SucI split: list.splits if_splits)
  moreover have "length r \<le> length r2"
    using parts(3) dw by (auto simp: exp_part_def digits_after_def le_SucI split: list.splits if_splits)
  ultimately show ?thesis by simp
qed

lemma parse_number_length: "parse_number nf s = Some (v, r) \<Longrightarrow> length r < length s"
  by (auto simp: parse_number_def split: list.splits if_splits dest!: parse_unsigned_length)

lemma parse_length:
  "parse_value nf n s = Some (v, r) \<Longrightarrow> length r < length s"
  "parse_elements nf n s = Some (vs, r) \<Longrightarrow> length r < length s"
  "parse_members nf n s = Some (ps, r) \<Longrightarrow> length r < length s"
proof (induction nf n s and nf n s and nf n s arbitrary: v r and vs r and ps r
    rule: parse_value_parse_elements_parse_members.induct)
  case (2 nf n s)
  then show ?case
    by (fastforce simp: parse_value.simps split: list.splits if_splits
        dest!: skip_ws_length parse_string_length expect_length parse_number_length)
next
  case (4 nf n s)
  then show ?case
    by (fastforce simp: parse_elements.simps split: option.splits list.splits if_splits dest!: skip_ws_length)
next
  case (6 nf n s)
  then show ?case
    by (fastforce simp: parse_members.simps split: option.splits list.splits if_splits dest!: skip_ws_length parse_string_length)
qed (simp_all add: parse_value.simps parse_elements.simps parse_members.simps)

lemma parse_mono_Suc:
  "parse_value nf n s = Some x \<Longrightarrow> parse_value nf (Suc n) s = Some x"
  "parse_elements nf n s = Some y \<Longrightarrow> parse_elements nf (Suc n) s = Some y"
  "parse_members nf n s = Some z \<Longrightarrow> parse_members nf (Suc n) s = Some z"
proof (induction nf n s and nf n s and nf n s arbitrary: x and y and z
    rule: parse_value_parse_elements_parse_members.induct)
  case (2 nf n s)
  then obtain c s1 where c: "skip_ws s = c # s1" by (auto simp: parse_value.simps split: list.splits)
  show ?case
  proof (cases "c = CHR ''{'' \<or> c = CHR ''[''")
    case True
    with "2.prems" c obtain d s2 where d: "skip_ws s1 = d # s2" by (auto simp: parse_value.simps split: list.splits)
    with 2 c True show ?thesis by (auto simp: parse_value.simps split: if_splits)
  next
    case False
    with "2.prems" c show ?thesis by (simp add: parse_value.simps)
  qed
next
  case (4 nf n s)
  then obtain v1 r1 d r2 where v1: "parse_value nf n s = Some (v1, r1)" and d: "skip_ws r1 = d # r2"
    by (auto simp: parse_elements.simps split: option.splits list.splits)
  with "4.prems" "4.IH"(1) [OF v1] "4.IH"(2) [OF v1 refl d] show ?case
    by (auto simp: parse_elements.simps(2) split: if_splits)
next
  case (6 nf n s)
  then obtain c s1 k r0 d r1 v2 r2 e r3 where parts: "skip_ws s = c # s1" "parse_string s1 = Some (k, r0)" "skip_ws r0 = d # r1"
      "parse_value nf n r1 = Some (v2, r2)" "skip_ws r2 = e # r3" "c = CHR 0x22" "d = CHR '':''"
    by (auto simp: parse_members.simps split: option.splits list.splits if_splits)
  then have "parse_value nf (Suc n) r1 = Some (v2, r2)" using "6.IH"(1) by blast
  with "6.prems" "6.IH"(2) parts show ?case
    by (auto simp: parse_members.simps(2) split: if_splits)
qed (simp_all add: parse_value.simps parse_elements.simps parse_members.simps)

lemma parse_value_mono: "parse_value nf n s = Some x \<Longrightarrow> n \<le> m \<Longrightarrow> parse_value nf m s = Some x"
  by (induction m) (auto simp: le_Suc_eq intro: parse_mono_Suc)

text \<open>Two units of fuel for every character are enough: more fuel changes nothing.\<close>

lemma parse_fuel_Suc:
  "2 * length s < n \<Longrightarrow> parse_value nf (Suc n) s = parse_value nf n s"
  "2 * length s + 1 < n \<Longrightarrow> parse_elements nf (Suc n) s = parse_elements nf n s"
  "2 * length s + 1 < n \<Longrightarrow> parse_members nf (Suc n) s = parse_members nf n s"
proof (induction nf n s and nf n s and nf n s rule: parse_value_parse_elements_parse_members.induct)
  case (2 nf n s)
  have "parse_members nf (Suc n) (d # r') = parse_members nf n (d # r')"
    if "skip_ws s = CHR ''{'' # r" "skip_ws r = d # r'" "d \<noteq> CHR ''}''" for r d r'
    using 2 that skip_ws_length [OF that(1)] skip_ws_length [OF that(2)] by auto
  moreover have "parse_elements nf (Suc n) (d # r') = parse_elements nf n (d # r')"
    if "skip_ws s = CHR ''['' # r" "skip_ws r = d # r'" "d \<noteq> CHR '']''" for r d r'
    using 2 that skip_ws_length [OF that(1)] skip_ws_length [OF that(2)] by auto
  ultimately show ?case
    by (simp add: parse_value.simps(2) [of nf n s] parse_value.simps(2) [of nf "Suc n" s] split: list.split)
next
  case (4 nf n s)
  then have v: "parse_value nf (Suc n) s = parse_value nf n s" by simp
  have "parse_elements nf (Suc n) r' = parse_elements nf n r'"
    if "parse_value nf n s = Some (v, r)" "skip_ws r = CHR '','' # r'" for v r r'
    using 4 that parse_length(1) [OF that(1)] skip_ws_length [OF that(2)] by auto
  with v show ?case
    by (auto simp: parse_elements.simps(2) [of nf n s] parse_elements.simps(2) [of nf "Suc n" s] split: list.split option.split)
next
  case (6 nf n s)
  have v: "parse_value nf (Suc n) r1 = parse_value nf n r1"
    if "skip_ws s = CHR 0x22 # s'" "parse_string s' = Some (k, r)" "skip_ws r = CHR '':'' # r1" for s' k r r1
    using 6 that skip_ws_length [OF that(1)] parse_string_length [OF that(2)] skip_ws_length [OF that(3)] by auto
  have "parse_members nf (Suc n) r3 = parse_members nf n r3"
    if "skip_ws s = CHR 0x22 # s'" "parse_string s' = Some (k, r)" "skip_ws r = CHR '':'' # r1"
      "parse_value nf n r1 = Some (v, r2)" "skip_ws r2 = CHR '','' # r3" for s' k r r1 v r2 r3
    using 6 that skip_ws_length [OF that(1)] parse_string_length [OF that(2)] skip_ws_length [OF that(3)]
      parse_length(1) [OF that(4)] skip_ws_length [OF that(5)] by auto
  with v show ?case
    by (auto simp: parse_members.simps(2) [of nf n s] parse_members.simps(2) [of nf "Suc n" s] split: list.split option.split)
qed simp_all

lemma parse_value_fuel: "2 * length s < n \<Longrightarrow> n \<le> m \<Longrightarrow> parse_value nf m s = parse_value nf n s"
proof (induction m)
  case (Suc m)
  then show ?case using parse_fuel_Suc(1) [of s m nf] by (auto simp: le_Suc_eq)
qed simp

subsection \<open>The round trip\<close>

text \<open>
  What survives being printed: objects without repeated keys, and numbers whose text reads back.  That is so for all
  integers up to \<open>2\<^sup>5\<^sup>3\<close>, and a matter of the number format for the others.
\<close>

fun wf_json :: "number_format \<Rightarrow> json \<Rightarrow> bool" where
  "wf_json nf (JNum x) = (parse_number nf (json_number (nf_text nf) x) = Some (JNum x, []))"
| "wf_json nf (JArr js) = list_all (wf_json nf) js"
| "wf_json nf (JObj ps) = (distinct (map fst ps) \<and> list_all (\<lambda>p. wf_json nf (snd p)) ps)"
| "wf_json nf _ = True"

lemma wf_json_integer [simp]: "\<bar>i\<bar> \<le> 2 ^ 53 \<Longrightarrow> wf_json nf (JNum (JsInt i))"
  using parse_safe_integer [of i "[]" nf] by simp

lemma digit_not_ws: "is_digit c \<Longrightarrow> \<not> is_ws c"
  by (auto simp: is_digit_def is_ws_def)

lemma parse_number_head:
  assumes "parse_number nf s = Some x"
  shows "\<exists>c r. s = c # r \<and> (is_digit c \<or> c = CHR ''-'')"
proof -
  have "int_part t \<noteq> None \<Longrightarrow> \<exists>c r. t = c # r \<and> is_digit c" for t
    by (auto simp: int_part_def is_digit_def split: list.splits if_splits)
  with assms show ?thesis
    by (auto simp: parse_number_def parse_unsigned_def split: list.splits if_splits option.splits)
qed

text \<open>The first character of a printed value.\<close>

definition starts_value :: "string \<Rightarrow> bool" where
  "starts_value s = (\<exists>c r. s = c # r \<and> \<not> is_ws c \<and> c \<noteq> CHR ''}'' \<and> c \<noteq> CHR '']'')"

lemma starts_value_skip: "starts_value s \<Longrightarrow> skip_ws (s @ r) = s @ r"
  by (auto simp: starts_value_def skip_ws_def)

lemma json_text_starts: "wf_json nf j \<Longrightarrow> starts_value (json_text (nf_text nf) j)"
proof (cases j)
  case (JNum x)
  assume "wf_json nf j"
  with JNum parse_number_head obtain c r where "json_text (nf_text nf) j = c # r" "is_digit c \<or> c = CHR ''-''" by fastforce
  then show ?thesis by (auto simp: starts_value_def is_digit_def is_ws_def)
qed (auto simp: starts_value_def is_ws_def json_string_def quote_def)

definition reads_back :: "number_format \<Rightarrow> json \<Rightarrow> bool" where
  "reads_back nf j = (\<forall>n rest. 2 * length (json_text (nf_text nf) j) < n \<longrightarrow> ends_number rest \<longrightarrow>
     parse_value nf n (json_text (nf_text nf) j @ rest) = Some (j, rest))"

lemma reads_backD:
  "reads_back nf j \<Longrightarrow> 2 * length (json_text (nf_text nf) j) < n \<Longrightarrow> ends_number rest \<Longrightarrow>
   parse_value nf n (json_text (nf_text nf) j @ rest) = Some (j, rest)"
  by (simp add: reads_back_def)

lemma reads_backI:
  assumes "\<And>n rest. 2 * length (json_text (nf_text nf) j) \<le> n \<Longrightarrow> ends_number rest \<Longrightarrow>
    parse_value nf (Suc n) (json_text (nf_text nf) j @ rest) = Some (j, rest)"
  shows "reads_back nf j"
  unfolding reads_back_def
proof (intro allI impI)
  fix n rest assume "2 * length (json_text (nf_text nf) j) < n" "ends_number rest"
  with assms [of "n - 1" rest] show "parse_value nf n (json_text (nf_text nf) j @ rest) = Some (j, rest)" by (cases n) auto
qed

lemma ends_number_structural [simp]:
  "ends_number (CHR '','' # s)" "ends_number (CHR '']'' # s)" "ends_number (CHR ''}'' # s)" "ends_number (CHR 0x0A # s)"
  by (simp_all add: ends_number_def is_digit_def)

lemma skip_ws_structural [simp]:
  "skip_ws (CHR '','' # s) = CHR '','' # s" "skip_ws (CHR '']'' # s) = CHR '']'' # s" "skip_ws (CHR ''}'' # s) = CHR ''}'' # s"
  "skip_ws (CHR '':'' # s) = CHR '':'' # s" "skip_ws (CHR 0x22 # s) = CHR 0x22 # s" "skip_ws (CHR ''{'' # s) = CHR ''{'' # s"
  "skip_ws (CHR ''['' # s) = CHR ''['' # s"
  by (simp_all add: skip_ws_def is_ws_def)

lemma elements_read_back:
  assumes "js \<noteq> []" "\<forall>j \<in> set js. reads_back nf j"
    and "2 * length (js_join '','' (map (json_text (nf_text nf)) js)) + 1 < n"
  shows "parse_elements nf n (js_join '','' (map (json_text (nf_text nf)) js) @ CHR '']'' # rest) = Some (js, rest)"
  using assms
proof (induction js arbitrary: n)
  case (Cons j js)
  then obtain n' where n: "n = Suc n'" by (cases n) auto
  show ?case
  proof (cases "js = []")
    case True
    with Cons.prems n show ?thesis by (simp add: parse_elements.simps reads_backD)
  next
    case False
    with Cons.prems n have "parse_elements nf n' (js_join '','' (map (json_text (nf_text nf)) js) @ CHR '']'' # rest) = Some (js, rest)"
      by (intro Cons.IH) (auto simp: js_join_Cons)
    with False Cons.prems n show ?thesis by (simp add: js_join_Cons parse_elements.simps reads_backD)
  qed
qed simp

definition member_text :: "number_format \<Rightarrow> string \<times> json \<Rightarrow> string" where
  "member_text nf = (\<lambda>(k, j). json_string k @ '':'' @ json_text (nf_text nf) j)"

lemma members_read_back:
  assumes "ps \<noteq> []" "\<forall>p \<in> set ps. reads_back nf (snd p)"
    and "2 * length (js_join '','' (map (member_text nf) ps)) + 1 < n"
  shows "parse_members nf n (js_join '','' (map (member_text nf) ps) @ CHR ''}'' # rest) = Some (ps, rest)"
  using assms
proof (induction ps arbitrary: n)
  case (Cons p ps)
  then obtain n' where n: "n = Suc n'" by (cases n) auto
  obtain k j where p: "p = (k, j)" by (rule prod.exhaust)
  note member = member_text_def p json_string_def quote_def parse_json_string
  show ?case
  proof (cases "ps = []")
    case True
    with Cons.prems n show ?thesis by (simp add: parse_members.simps reads_backD member)
  next
    case False
    with Cons.prems n have "parse_members nf n' (js_join '','' (map (member_text nf) ps) @ CHR ''}'' # rest) = Some (ps, rest)"
      by (intro Cons.IH) (auto simp: js_join_Cons)
    with False Cons.prems n show ?thesis by (simp add: js_join_Cons parse_members.simps reads_backD member)
  qed
qed simp

lemma make_object_distinct: "distinct (map fst ps) \<Longrightarrow> make_object ps = JObj ps"
proof -
  have "foldl (\<lambda>ob (k, v). AList.update k v ob) done ps = done @ ps" if "distinct (map fst (done @ ps))" for "done"
    using that
  proof (induction ps arbitrary: "done")
    case (Cons p ps)
    obtain k v where p: "p = (k, v)" by (rule prod.exhaust)
    have "AList.update k v done = done @ [(k, v)]" using Cons.prems p by (intro alist_update_new) auto
    with Cons p show ?case by simp
  qed simp
  from this [of "[]"] show "distinct (map fst ps) \<Longrightarrow> make_object ps = JObj ps" by (simp add: make_object_def)
qed

lemma json_reads_back: "wf_json nf j \<Longrightarrow> reads_back nf j"
proof (induction j)
  case (JNum x)
  show ?case
  proof (rule reads_backI)
    fix n rest assume rest: "ends_number rest"
    have num: "parse_number nf (json_number (nf_text nf) x @ rest) = Some (JNum x, rest)"
      using JNum parse_number_more [of nf _ _ "[]" rest] rest by simp
    from parse_number_head [OF num] obtain c r where c: "json_number (nf_text nf) x @ rest = c # r" "is_digit c \<or> c = CHR ''-''"
      by blast
    then have "skip_ws (c # r) = c # r" "c \<notin> set [CHR ''{'', CHR ''['', CHR 0x22, CHR ''t'', CHR ''f'', CHR ''n'']"
      by (auto simp: skip_ws_def is_ws_def is_digit_def)
    with num c(1) show "parse_value nf (Suc n) (json_text (nf_text nf) (JNum x) @ rest) = Some (JNum x, rest)"
      by (simp add: parse_value.simps)
  qed
next
  case (JArr js)
  show ?case
  proof (rule reads_backI)
    fix n rest assume n: "2 * length (json_text (nf_text nf) (JArr js)) \<le> n"
    show "parse_value nf (Suc n) (json_text (nf_text nf) (JArr js) @ rest) = Some (JArr js, rest)"
    proof (cases js)
      case (Cons j js')
      let ?body = "js_join '','' (map (json_text (nf_text nf)) js)"
      have "parse_elements nf n (?body @ CHR '']'' # rest) = Some (js, rest)"
        using JArr n Cons by (intro elements_read_back) (auto simp: list_all_iff)
      moreover have "starts_value (?body @ CHR '']'' # rest)"
        using json_text_starts [of nf j] JArr.prems Cons by (auto simp: starts_value_def js_join_Cons)
      ultimately show ?thesis
        using starts_value_skip [of "?body @ CHR '']'' # rest" "[]"] by (auto simp: parse_value.simps starts_value_def)
    qed (simp add: parse_value.simps)
  qed
next
  case (JObj ps)
  show ?case
  proof (rule reads_backI)
    let ?body = "js_join '','' (map (member_text nf) ps)"
    have obj: "json_text (nf_text nf) (JObj ps) = CHR ''{'' # ?body @ ''}''" by (simp add: member_text_def)
    fix n rest assume n: "2 * length (json_text (nf_text nf) (JObj ps)) \<le> n"
    show "parse_value nf (Suc n) (json_text (nf_text nf) (JObj ps) @ rest) = Some (JObj ps, rest)"
    proof (cases ps)
      case (Cons p ps')
      have "reads_back nf (snd q)" if "q \<in> set ps" for q
        using JObj.IH [of q "snd q"] JObj.prems that by (cases q) (auto simp: list_all_iff)
      then have "parse_members nf n (?body @ CHR ''}'' # rest) = Some (ps, rest)"
        using Cons n unfolding obj by (intro members_read_back) simp_all
      moreover obtain r where "?body @ CHR ''}'' # rest = CHR 0x22 # r"
        using Cons by (cases p) (auto simp: js_join_Cons member_text_def json_string_def quote_def)
      ultimately show ?thesis
        unfolding obj using make_object_distinct [of ps] JObj.prems by (simp add: parse_value.simps)
    qed (simp add: parse_value.simps)
  qed
qed (auto intro!: reads_backI simp: parse_value.simps skip_ws_def is_ws_def json_string_def quote_def parse_json_string)

text \<open>A value that is printed and read is the value.\<close>

lemma JSON_roundtrip: "wf_json nf j \<Longrightarrow> JSON_parse nf (JSON_stringify nf j) = Some j"
  using json_reads_back [of nf j] by (simp add: JSON_parse_def JSON_stringify_def reads_backD [of nf j _ "[]", simplified] skip_ws_def)

subsection \<open>Unfinished text and line breaks\<close>

text \<open>No proper prefix of a printed object is a value: a torn write never reads as a complete one.\<close>

lemma JSON_prefix_error:
  assumes "wf_json nf (JObj ps)" "JSON_stringify nf (JObj ps) = p @ q" "q \<noteq> []"
  shows "JSON_parse nf p = None"
proof (rule ccontr)
  assume "JSON_parse nf p \<noteq> None"
  then obtain j r where v: "parse_value nf (2 * length p + 1) p = Some (j, r)"
    by (auto simp: JSON_parse_def split: option.splits)
  let ?line = "JSON_stringify nf (JObj ps)"
  obtain p' where p: "p = CHR ''{'' # p'"
    using v assms(2) by (cases p) (auto simp: JSON_stringify_def parse_value.simps skip_ws_def)
  then have "self_delimiting p" by (simp add: self_delimiting_def)
  with parse_more(1) [OF v, of q] have "parse_value nf (2 * length p + 1) ?line = Some (j, r @ q)" by (simp add: assms(2))
  then have "parse_value nf (2 * length ?line + 1) ?line = Some (j, r @ q)"
    by (rule parse_value_mono) (simp add: assms(2))
  moreover have "parse_value nf (2 * length ?line + 1) ?line = Some (JObj ps, [])"
    using reads_backD [OF json_reads_back [OF assms(1)], of "2 * length ?line + 1" "[]"] by (simp add: JSON_stringify_def)
  ultimately show False using assms(3) by simp
qed

lemma hex_digit_no_newline: "n < 16 \<Longrightarrow> hex_digit n \<noteq> CHR 0x0A"
proof
  assume "n < 16" "hex_digit n = CHR 0x0A"
  then have "(of_char (hex_digit n) :: nat) = 10" by simp
  with \<open>n < 16\<close> show False by (auto simp: hex_digit_def split: if_splits)
qed

lemma escape_no_newline: "CHR 0x0A \<notin> set (json_escape c)"
proof (cases "(of_char c :: nat) < 0x20")
  case True
  then have "hex_digit (of_char c div 16) \<noteq> CHR 0x0A" "hex_digit (of_char c mod 16) \<noteq> CHR 0x0A"
    by (simp_all add: hex_digit_no_newline)
  with True show ?thesis unfolding json_escape_def Let_def by (auto split: if_splits)
next
  case False
  then have "c \<noteq> CHR 0x0A" by auto
  with False show ?thesis by (auto simp: json_escape_def Let_def)
qed

lemma string_no_newline: "CHR 0x0A \<notin> set (json_string s)"
  using escape_no_newline by (auto simp: json_string_def quote_def)

lemma digits_no_newline: "CHR 0x0A \<notin> set (dropWhile is_digit s) \<Longrightarrow> CHR 0x0A \<notin> set s"
  by (induction s) (auto simp: is_digit_def split: if_splits)

lemma digits_after_no_newline: "digits_after lead s = Some (ds, r) \<Longrightarrow> CHR 0x0A \<notin> set r \<Longrightarrow> CHR 0x0A \<notin> set s"
  by (auto simp: digits_after_def dest: digits_no_newline split: if_splits)

lemma exp_part_no_newline: "exp_part s = Some (ep, r) \<Longrightarrow> CHR 0x0A \<notin> set r \<Longrightarrow> CHR 0x0A \<notin> set s"
  by (auto simp: exp_part_def split: list.splits if_splits dest: digits_after_no_newline)

lemma frac_part_no_newline: "frac_part s = Some (fp, r) \<Longrightarrow> CHR 0x0A \<notin> set r \<Longrightarrow> CHR 0x0A \<notin> set s"
  by (auto simp: frac_part_def split: list.splits if_splits dest: digits_after_no_newline)

lemma int_part_no_newline: "int_part s = Some (ip, r) \<Longrightarrow> CHR 0x0A \<notin> set r \<Longrightarrow> CHR 0x0A \<notin> set s"
  by (auto simp: int_part_def is_digit_def split: list.splits if_splits dest: digits_no_newline)

lemma number_text_no_newline: "parse_number nf s = Some (v, []) \<Longrightarrow> CHR 0x0A \<notin> set s"
  by (auto simp: parse_number_def parse_unsigned_def split: list.splits if_splits option.splits
      dest!: int_part_no_newline frac_part_no_newline exp_part_no_newline)

lemma js_join_set: "set (js_join sep ls) \<subseteq> set sep \<union> \<Union> (set ` set ls)"
  by (induction sep ls rule: js_join.induct) auto

lemma JSON_no_newline: "wf_json nf j \<Longrightarrow> CHR 0x0A \<notin> set (json_text (nf_text nf) j)"
proof (induction j)
  case (JNum x)
  then show ?case using number_text_no_newline by simp
next
  case (JArr js)
  then have "CHR 0x0A \<notin> \<Union> (set ` set (map (json_text (nf_text nf)) js))" by (auto simp: list_all_iff)
  then show ?case using js_join_set [of "'',''" "map (json_text (nf_text nf)) js"] by fastforce
next
  case (JObj ps)
  have "CHR 0x0A \<notin> set (json_string k @ '':'' @ json_text (nf_text nf) j)" if "(k, j) \<in> set ps" for k j
    using JObj.IH [OF that, of j] JObj.prems that string_no_newline [of k] by (auto simp: list_all_iff)
  then have "CHR 0x0A \<notin> \<Union> (set ` set (map (\<lambda>(k, j). json_string k @ '':'' @ json_text (nf_text nf) j) ps))" by fastforce
  then show ?case
    using js_join_set [of "'',''" "map (\<lambda>(k, j). json_string k @ '':'' @ json_text (nf_text nf) j) ps"] by fastforce
qed (simp_all add: string_no_newline)

end
