(* ===== verification/Compaction.thy ===== *)
theory Compaction
  imports Session_Context Json_Text Utf8 "HOL-Library.List_Lexorder"
begin

text \<open>
  Context compaction, the pure part of \<^verbatim>\<open>packages/agent/src/harness/compaction/compaction.ts\<close> and
  \<^verbatim>\<open>utils.ts\<close>: the token estimates, the choice of the cut point, the preparation of a compaction and the
  file lists.  A string of the session stands for its UTF-8 bytes, one character per byte, so its length in
  JavaScript is the number of code units it decodes to.  \<^verbatim>\<open>Number.prototype.toString\<close> for numbers
  that are not integers below \<open>10\<^sup>2\<^sup>1\<close> is the parameter \<open>numText\<close>.
\<close>

section \<open>Text\<close>

definition safeJsonStringify :: "(jsnum \<Rightarrow> string) \<Rightarrow> json \<Rightarrow> string" where
  "safeJsonStringify numText value = json_text numText value"

section \<open>Token estimates\<close>

definition ESTIMATED_IMAGE_CHARS :: nat where
  "ESTIMATED_IMAGE_CHARS = 4800"

definition is_cjk :: "code_unit \<Rightarrow> bool" where
  "is_cjk u = ((0x3000 \<le> unat u \<and> unat u \<le> 0x9FFF) \<or> (0xF900 \<le> unat u \<and> unat u \<le> 0xFAFF) \<or>
     (0xAC00 \<le> unat u \<and> unat u \<le> 0xD7AF))"

text \<open>\<^verbatim>\<open>Math.ceil(cjkChars * 0.75 + otherChars / 4)\<close>: quarters are exact.\<close>

definition estimateTextTokens :: "string \<Rightarrow> nat" where
  "estimateTextTokens text =
     (let units = text_units text;
          cjkChars = length (filter is_cjk units);
          otherChars = length units - cjkChars
      in (3 * cjkChars + otherChars + 3) div 4)"

fun block_tokens :: "content_block \<Rightarrow> nat" where
  "block_tokens (TextBlock t) = (if tc_text t \<noteq> [] then estimateTextTokens (tc_text t) else 0)"
| "block_tokens (ImageBlock _) = ESTIMATED_IMAGE_CHARS div 4"

fun estimateTextAndImageContentTokens :: "user_content \<Rightarrow> nat" where
  "estimateTextAndImageContentTokens (ContentString s) = estimateTextTokens s"
| "estimateTextAndImageContentTokens (ContentBlocks bs) = sum_list (map block_tokens bs)"

fun assistant_block_tokens :: "(jsnum \<Rightarrow> string) \<Rightarrow> assistant_block \<Rightarrow> nat" where
  "assistant_block_tokens numText (AssistantText t) = estimateTextTokens (tc_text t)"
| "assistant_block_tokens numText (AssistantThinking t) = estimateTextTokens (tk_thinking t)"
| "assistant_block_tokens numText (AssistantToolCall c) =
     estimateTextTokens (call_name c @ safeJsonStringify numText (call_arguments c))"

fun estimateTokens :: "(jsnum \<Rightarrow> string) \<Rightarrow> agent_message \<Rightarrow> nat" where
  "estimateTokens numText (UserMessage c _) = estimateTextAndImageContentTokens c"
| "estimateTokens numText (AssistantMessage m) = sum_list (map (assistant_block_tokens numText) (am_content m))"
| "estimateTokens numText (CustomMessage m) = estimateTextAndImageContentTokens (cm_content m)"
| "estimateTokens numText (ToolResultMessage m) = estimateTextAndImageContentTokens (ContentBlocks (tr_content m))"
| "estimateTokens numText (BashExecutionMessage m) = estimateTextTokens (be_command m @ be_output m)"
| "estimateTokens numText (BranchSummaryMessage m) = estimateTextTokens (bs_summary m)"
| "estimateTokens numText (CompactionSummaryMessage m) = estimateTextTokens (cs_summary m)"
| "estimateTokens numText (SystemMessage _ _) = 0"
| "estimateTokens numText (OtherMessage _ _) = 0"

definition calculateContextTokens :: "usage \<Rightarrow> int" where
  "calculateContextTokens u =
     (if usage_totalTokens u \<noteq> 0 then usage_totalTokens u
      else usage_input u + usage_output u + usage_cacheRead u + usage_cacheWrite u)"

definition getAssistantUsage :: "agent_message \<Rightarrow> usage option" where
  "getAssistantUsage msg =
     (case msg of
        AssistantMessage m \<Rightarrow>
          if am_stopReason m \<noteq> StopAborted \<and> am_stopReason m \<noteq> StopError \<and> calculateContextTokens (am_usage m) > 0
          then Some (am_usage m) else None
      | _ \<Rightarrow> None)"

text \<open>The loops from the last index down: \<open>n\<close> is one more than the index.\<close>

fun last_usage_entry :: "entry list \<Rightarrow> nat \<Rightarrow> usage option" where
  "last_usage_entry es 0 = None"
| "last_usage_entry es (Suc i) =
     (case Option.bind (entry_message (es ! i)) getAssistantUsage of
        Some u \<Rightarrow> Some u
      | None \<Rightarrow> last_usage_entry es i)"

definition getLastAssistantUsage :: "entry list \<Rightarrow> usage option" where
  "getLastAssistantUsage es = last_usage_entry es (length es)"

fun last_usage_info :: "agent_message list \<Rightarrow> nat \<Rightarrow> (usage \<times> nat) option" where
  "last_usage_info ms 0 = None"
| "last_usage_info ms (Suc i) =
     (case getAssistantUsage (ms ! i) of Some u \<Rightarrow> Some (u, i) | None \<Rightarrow> last_usage_info ms i)"

definition getLastAssistantUsageInfo :: "agent_message list \<Rightarrow> (usage \<times> nat) option" where
  "getLastAssistantUsageInfo ms = last_usage_info ms (length ms)"

record context_usage_estimate =
  ce_tokens :: int
  ce_usageTokens :: int
  ce_trailingTokens :: int
  ce_lastUsageIndex :: "nat option"

definition total_tokens :: "(jsnum \<Rightarrow> string) \<Rightarrow> agent_message list \<Rightarrow> nat" where
  "total_tokens numText ms = sum_list (map (estimateTokens numText) ms)"

definition estimateContextTokens :: "(jsnum \<Rightarrow> string) \<Rightarrow> agent_message list \<Rightarrow> context_usage_estimate" where
  "estimateContextTokens numText ms =
     (case getLastAssistantUsageInfo ms of
        None \<Rightarrow>
          let estimated = int (total_tokens numText ms)
          in \<lparr>ce_tokens = estimated, ce_usageTokens = 0, ce_trailingTokens = estimated, ce_lastUsageIndex = None\<rparr>
      | Some (u, index) \<Rightarrow>
          let usageTokens = calculateContextTokens u;
              trailingTokens = int (total_tokens numText (drop (index + 1) ms))
          in \<lparr>ce_tokens = usageTokens + trailingTokens, ce_usageTokens = usageTokens,
              ce_trailingTokens = trailingTokens, ce_lastUsageIndex = Some index\<rparr>)"

record compaction_settings =
  set_enabled :: bool
  set_reserveTokens :: int
  set_keepRecentTokens :: int
  set_summaryMaxTokens :: "int option"

definition DEFAULT_COMPACTION_SETTINGS :: compaction_settings where
  "DEFAULT_COMPACTION_SETTINGS = \<lparr>set_enabled = True, set_reserveTokens = 16384, set_keepRecentTokens = 20000,
     set_summaryMaxTokens = None\<rparr>"

definition shouldCompact :: "int \<Rightarrow> int \<Rightarrow> compaction_settings \<Rightarrow> bool" where
  "shouldCompact contextTokens contextWindow settings =
     (set_enabled settings \<and> contextTokens > contextWindow - set_reserveTokens settings)"

section \<open>Files touched\<close>

text \<open>The sets of paths keep the order of insertion.\<close>

record file_operations =
  fo_read :: "string list"
  fo_written :: "string list"
  fo_edited :: "string list"

definition createFileOps :: file_operations where
  "createFileOps = \<lparr>fo_read = [], fo_written = [], fo_edited = []\<rparr>"

definition set_add :: "'a \<Rightarrow> 'a list \<Rightarrow> 'a list" where
  "set_add x xs = (if x \<in> set xs then xs else xs @ [x])"

definition json_field :: "json \<Rightarrow> string \<Rightarrow> json option" where
  "json_field j k = (case j of JObj ps \<Rightarrow> map_of ps k | _ \<Rightarrow> None)"

definition call_path :: "tool_call \<Rightarrow> string option" where
  "call_path c = (case json_field (call_arguments c) ''path'' of Some (JStr p) \<Rightarrow> if p = [] then None else Some p | _ \<Rightarrow> None)"

definition add_call_path :: "file_operations \<Rightarrow> tool_call \<Rightarrow> file_operations" where
  "add_call_path ops c =
     (case call_path c of
        None \<Rightarrow> ops
      | Some p \<Rightarrow>
          if call_name c = ''read'' then ops\<lparr>fo_read := set_add p (fo_read ops)\<rparr>
          else if call_name c = ''write'' then ops\<lparr>fo_written := set_add p (fo_written ops)\<rparr>
          else if call_name c = ''edit'' then ops\<lparr>fo_edited := set_add p (fo_edited ops)\<rparr>
          else ops)"

definition extractFileOpsFromMessage :: "agent_message \<Rightarrow> file_operations \<Rightarrow> file_operations" where
  "extractFileOpsFromMessage msg ops =
     (case msg of AssistantMessage m \<Rightarrow> foldl add_call_path ops (message_tool_calls m) | _ \<Rightarrow> ops)"

text \<open>The strings of an array property of the details of an earlier summary.\<close>

definition detail_paths :: "json option \<Rightarrow> string \<Rightarrow> string list" where
  "detail_paths details k =
     (case Option.bind details (\<lambda>d. json_field d k) of
        Some (JArr js) \<Rightarrow> List.map_filter (\<lambda>j. case j of JStr s \<Rightarrow> Some s | _ \<Rightarrow> None) js
      | _ \<Rightarrow> [])"

definition add_details :: "json option \<Rightarrow> file_operations \<Rightarrow> file_operations" where
  "add_details details ops =
     ops\<lparr>fo_read := foldl (\<lambda>s p. set_add p s) (fo_read ops) (detail_paths details ''readFiles''),
         fo_edited := foldl (\<lambda>s p. set_add p s) (fo_edited ops) (detail_paths details ''modifiedFiles'')\<rparr>"

definition compaction_details :: "entry \<Rightarrow> json option" where
  "compaction_details e = (case entry_payload e of CompactionPayload _ _ _ d _ \<Rightarrow> d | _ \<Rightarrow> None)"

definition extractFileOperations :: "agent_message list \<Rightarrow> entry list \<Rightarrow> nat option \<Rightarrow> file_operations" where
  "extractFileOperations messages entries prevCompactionIndex =
     (let fileOps = (case prevCompactionIndex of
                       None \<Rightarrow> createFileOps
                     | Some i \<Rightarrow> add_details (compaction_details (entries ! i)) createFileOps)
      in foldl (\<lambda>ops msg. extractFileOpsFromMessage msg ops) fileOps messages)"

text \<open>\<^verbatim>\<open>Array.sort\<close> orders strings by their code units.\<close>

definition computeFileLists :: "file_operations \<Rightarrow> string list \<times> string list" where
  "computeFileLists ops =
     (let modified = foldl (\<lambda>s p. set_add p s) [] (fo_edited ops @ fo_written ops);
          readOnly = sort_key text_units (filter (\<lambda>f. f \<notin> set modified) (fo_read ops))
      in (readOnly, sort_key text_units modified))"

definition formatFileOperations :: "string list \<Rightarrow> string list \<Rightarrow> string" where
  "formatFileOperations readFiles modifiedFiles =
     (let sections =
            (if readFiles \<noteq> [] then [''<read-files>'' @ nl @ js_join nl readFiles @ nl @ ''</read-files>''] else [])
            @ (if modifiedFiles \<noteq> []
               then [''<modified-files>'' @ nl @ js_join nl modifiedFiles @ nl @ ''</modified-files>''] else [])
      in if sections = [] then [] else nl @ nl @ js_join (nl @ nl) sections)"

section \<open>The cut point\<close>

fun cut_message :: "agent_message \<Rightarrow> bool" where
  "cut_message (BashExecutionMessage _) = True"
| "cut_message (CustomMessage _) = True"
| "cut_message (BranchSummaryMessage _) = True"
| "cut_message (CompactionSummaryMessage _) = True"
| "cut_message (UserMessage _ _) = True"
| "cut_message (AssistantMessage _) = True"
| "cut_message _ = False"

definition valid_cut :: "entry \<Rightarrow> bool" where
  "valid_cut e = (case entry_payload e of
     MessagePayload m _ \<Rightarrow> cut_message m | BranchSummaryPayload _ _ _ _ \<Rightarrow> True | _ \<Rightarrow> False)"

definition findValidCutPoints :: "entry list \<Rightarrow> nat \<Rightarrow> nat \<Rightarrow> nat list" where
  "findValidCutPoints entries startIndex endIndex = filter (\<lambda>i. valid_cut (entries ! i)) [startIndex..<endIndex]"

fun user_or_bash :: "agent_message \<Rightarrow> bool" where
  "user_or_bash (UserMessage _ _) = True"
| "user_or_bash (BashExecutionMessage _) = True"
| "user_or_bash _ = False"

definition starts_turn :: "entry \<Rightarrow> bool" where
  "starts_turn e = (case entry_payload e of
     BranchSummaryPayload _ _ _ _ \<Rightarrow> True | MessagePayload m _ \<Rightarrow> user_or_bash m | _ \<Rightarrow> False)"

fun turn_start :: "entry list \<Rightarrow> nat \<Rightarrow> nat \<Rightarrow> nat option" where
  "turn_start entries startIndex 0 = None"
| "turn_start entries startIndex (Suc i) =
     (if i < startIndex then None
      else if starts_turn (entries ! i) then Some i else turn_start entries startIndex i)"

text \<open>\<open>None\<close> is the index \<open>-1\<close>.\<close>

definition findTurnStartIndex :: "entry list \<Rightarrow> nat \<Rightarrow> nat \<Rightarrow> nat option" where
  "findTurnStartIndex entries entryIndex startIndex = turn_start entries startIndex (Suc entryIndex)"

record cut_point_result =
  cp_firstKeptEntryIndex :: nat
  cp_turnStartIndex :: "nat option"
  cp_isSplitTurn :: bool

fun budget_cut ::
    "(jsnum \<Rightarrow> string) \<Rightarrow> entry list \<Rightarrow> nat \<Rightarrow> int \<Rightarrow> nat list \<Rightarrow> nat \<Rightarrow> int \<Rightarrow> nat \<Rightarrow> nat" where
  "budget_cut numText entries startIndex keep cutPoints 0 accumulated cutIndex = cutIndex"
| "budget_cut numText entries startIndex keep cutPoints (Suc i) accumulated cutIndex =
     (if i < startIndex then cutIndex
      else case entry_message (entries ! i) of
        None \<Rightarrow> budget_cut numText entries startIndex keep cutPoints i accumulated cutIndex
      | Some m \<Rightarrow>
          let accumulated' = accumulated + int (estimateTokens numText m)
          in if accumulated' \<ge> keep
             then (case List.find (\<lambda>c. c \<ge> i) cutPoints of Some c \<Rightarrow> c | None \<Rightarrow> cutIndex)
             else budget_cut numText entries startIndex keep cutPoints i accumulated' cutIndex)"

fun step_back :: "entry list \<Rightarrow> nat \<Rightarrow> nat \<Rightarrow> nat" where
  "step_back entries startIndex 0 = 0"
| "step_back entries startIndex (Suc i) =
     (if Suc i > startIndex
      then (if entry_kind (entries ! i) = CompactionType \<or> entry_kind (entries ! i) = MessageType then Suc i
            else step_back entries startIndex i)
      else Suc i)"

definition is_user_entry :: "entry \<Rightarrow> bool" where
  "is_user_entry e = (case entry_payload e of MessagePayload (UserMessage _ _) _ \<Rightarrow> True | _ \<Rightarrow> False)"

definition findCutPoint ::
    "(jsnum \<Rightarrow> string) \<Rightarrow> entry list \<Rightarrow> nat \<Rightarrow> nat \<Rightarrow> int \<Rightarrow> cut_point_result" where
  "findCutPoint numText entries startIndex endIndex keepRecentTokens =
     (let cutPoints = findValidCutPoints entries startIndex endIndex in
      if cutPoints = []
      then \<lparr>cp_firstKeptEntryIndex = startIndex, cp_turnStartIndex = None, cp_isSplitTurn = False\<rparr>
      else
        let cutIndex = step_back entries startIndex
              (budget_cut numText entries startIndex keepRecentTokens cutPoints endIndex 0 (hd cutPoints));
            isUserMessage = is_user_entry (entries ! cutIndex);
            turnStartIndex = (if isUserMessage then None else findTurnStartIndex entries cutIndex startIndex)
        in \<lparr>cp_firstKeptEntryIndex = cutIndex, cp_turnStartIndex = turnStartIndex,
            cp_isSplitTurn = (\<not> isUserMessage \<and> turnStartIndex \<noteq> None)\<rparr>)"

section \<open>Preparing a compaction\<close>

definition getMessageFromEntry :: "entry \<Rightarrow> agent_message option" where
  "getMessageFromEntry e =
     (case entry_payload e of
        MessagePayload m _ \<Rightarrow> Some m
      | BranchSummaryPayload fromId summary _ _ \<Rightarrow> Some (createBranchSummaryMessage summary fromId (entry_timestamp e))
      | CompactionPayload summary _ tokensBefore _ _ \<Rightarrow>
          Some (createCompactionSummaryMessage summary tokensBefore (entry_timestamp e))
      | _ \<Rightarrow> None)"

definition getMessageFromEntryForCompaction :: "entry \<Rightarrow> agent_message option" where
  "getMessageFromEntryForCompaction e = (if entry_kind e = CompactionType then None else getMessageFromEntry e)"

text \<open>The \<^verbatim>\<open>timestamp\<close> of a message; an application's own message may carry none, counted as \<open>0\<close> here.\<close>

fun message_timestamp :: "agent_message \<Rightarrow> nat" where
  "message_timestamp (SystemMessage _ t) = t"
| "message_timestamp (UserMessage _ t) = t"
| "message_timestamp (AssistantMessage m) = am_timestamp m"
| "message_timestamp (ToolResultMessage m) = tr_timestamp m"
| "message_timestamp (BashExecutionMessage m) = be_timestamp m"
| "message_timestamp (CustomMessage m) = cm_timestamp m"
| "message_timestamp (BranchSummaryMessage m) = bs_timestamp m"
| "message_timestamp (CompactionSummaryMessage m) = cs_timestamp m"
| "message_timestamp (OtherMessage _ v) = (case json_field v ''timestamp'' of Some (JNum (JsInt n)) \<Rightarrow> nat n | _ \<Rightarrow> 0)"

definition retained_entry :: "entry \<Rightarrow> nat \<Rightarrow> agent_message \<Rightarrow> entry" where
  "retained_entry c index m =
     \<lparr>entry_id = entry_id c @ '':retained:'' @ nat_to_string index, entry_seq = entry_seq c,
      entry_parentId = Some (if index = 0 then entry_id c else entry_id c @ '':retained:'' @ nat_to_string (index - 1)),
      entry_timestamp = message_timestamp m, entry_payload = MessagePayload m False\<rparr>"

definition compaction_summary :: "entry \<Rightarrow> string option" where
  "compaction_summary e = (case entry_payload e of CompactionPayload s _ _ _ _ \<Rightarrow> Some s | _ \<Rightarrow> None)"

definition compaction_tail :: "entry \<Rightarrow> agent_message list" where
  "compaction_tail e = (case entry_payload e of CompactionPayload _ t _ _ _ \<Rightarrow> t | _ \<Rightarrow> [])"

definition compactable_entries :: "entry list \<Rightarrow> nat option \<Rightarrow> entry list" where
  "compactable_entries pathEntries prevCompactionIndex =
     (case prevCompactionIndex of
        None \<Rightarrow> pathEntries
      | Some i \<Rightarrow>
          map (\<lambda>(index, m). retained_entry (pathEntries ! i) index m) (enumerate 0 (compaction_tail (pathEntries ! i)))
          @ drop (i + 1) pathEntries)"

definition messages_between :: "entry list \<Rightarrow> nat \<Rightarrow> nat \<Rightarrow> agent_message list" where
  "messages_between entries a b =
     List.map_filter (\<lambda>i. getMessageFromEntryForCompaction (entries ! i)) [a..<b]"

record compaction_preparation =
  prep_messagesToSummarize :: "agent_message list"
  prep_turnPrefixMessages :: "agent_message list"
  prep_retainedTail :: "agent_message list"
  prep_isSplitTurn :: bool
  prep_tokensBefore :: int
  prep_previousSummary :: "string option"
  prep_fileOps :: file_operations
  prep_settings :: compaction_settings

definition no_options :: build_options where
  "no_options = \<lparr>bo_entryTransforms = [], bo_entryProjectors = Map.empty\<rparr>"

text \<open>\<open>None\<close> where compaction is not applicable; no call returns an error.\<close>

definition prepareCompaction ::
    "(jsnum \<Rightarrow> string) \<Rightarrow> entry list \<Rightarrow> compaction_settings \<Rightarrow> compaction_preparation option" where
  "prepareCompaction numText pathEntries settings =
     (if pathEntries = [] \<or> entry_kind (last pathEntries) = CompactionType then None
      else
        let prevCompactionIndex = compaction_index pathEntries (length pathEntries);
            previousSummary = Option.bind prevCompactionIndex (\<lambda>i. compaction_summary (pathEntries ! i));
            compactableEntries = compactable_entries pathEntries prevCompactionIndex;
            boundaryEnd = length compactableEntries;
            tokensBefore = ce_tokens (estimateContextTokens numText (cx_messages (buildSessionContext pathEntries no_options)));
            cutPoint = findCutPoint numText compactableEntries 0 boundaryEnd (set_keepRecentTokens settings);
            firstKept = cp_firstKeptEntryIndex cutPoint;
            historyEnd = (case cp_turnStartIndex cutPoint of
                            Some t \<Rightarrow> if cp_isSplitTurn cutPoint then t else firstKept
                          | None \<Rightarrow> firstKept);
            messagesToSummarize = messages_between compactableEntries 0 historyEnd;
            turnPrefixMessages = (if cp_isSplitTurn cutPoint then messages_between compactableEntries historyEnd firstKept else []);
            retainedTail = messages_between compactableEntries firstKept boundaryEnd;
            fileOps0 = extractFileOperations messagesToSummarize pathEntries prevCompactionIndex;
            fileOps = foldl (\<lambda>ops msg. extractFileOpsFromMessage msg ops) fileOps0 turnPrefixMessages
        in if messagesToSummarize = [] \<and> int (total_tokens numText turnPrefixMessages) < set_keepRecentTokens settings
           then None
           else Some \<lparr>prep_messagesToSummarize = messagesToSummarize, prep_turnPrefixMessages = turnPrefixMessages,
             prep_retainedTail = retainedTail, prep_isSplitTurn = cp_isSplitTurn cutPoint,
             prep_tokensBefore = tokensBefore, prep_previousSummary = previousSummary, prep_fileOps = fileOps,
             prep_settings = settings\<rparr>)"

section \<open>Where the cut falls\<close>

definition entry_tokens :: "(jsnum \<Rightarrow> string) \<Rightarrow> entry \<Rightarrow> nat" where
  "entry_tokens numText e = (case entry_message e of None \<Rightarrow> 0 | Some m \<Rightarrow> estimateTokens numText m)"

definition tokens_between :: "(jsnum \<Rightarrow> string) \<Rightarrow> entry list \<Rightarrow> nat \<Rightarrow> nat \<Rightarrow> nat" where
  "tokens_between numText entries a b = sum_list (map (\<lambda>i. entry_tokens numText (entries ! i)) [a..<b])"

lemma tokens_between_down:
  "i < b \<Longrightarrow> tokens_between numText es i b = entry_tokens numText (es ! i) + tokens_between numText es (Suc i) b"
  by (simp add: tokens_between_def upt_conv_Cons)

lemma tokens_between_mono: "a \<le> a' \<Longrightarrow> tokens_between numText es a' b \<le> tokens_between numText es a b"
proof (cases "a' \<le> b")
  case True
  assume "a \<le> a'"
  with True have "[a..<b] = [a..<a'] @ [a'..<b]" by (metis le_Suc_ex upt_add_eq_append)
  then show ?thesis by (simp add: tokens_between_def)
next
  case False
  then show ?thesis by (simp add: tokens_between_def)
qed

lemma turn_start_bounds: "turn_start es s n = Some t \<Longrightarrow> s \<le> t \<and> t < n"
  by (induction n) (auto split: if_splits)

lemma turn_start_found:
  "s \<le> t \<Longrightarrow> t < n \<Longrightarrow> starts_turn (es ! t) \<Longrightarrow> (\<And>i. t < i \<Longrightarrow> i < n \<Longrightarrow> \<not> starts_turn (es ! i)) \<Longrightarrow>
   turn_start es s n = Some t"
  by (induction n) (auto simp: less_Suc_eq)

lemma step_back_range:
  "s \<le> c \<Longrightarrow> s \<le> step_back es s c \<and> step_back es s c \<le> c \<and>
   (\<forall>i. step_back es s c \<le> i \<and> i < c \<longrightarrow> entry_kind (es ! i) \<noteq> MessageType \<and> entry_kind (es ! i) \<noteq> CompactionType)"
proof (induction c)
  case (Suc c)
  then show ?case by (cases "Suc c > s") (auto simp: less_Suc_eq)
qed simp

lemma budget_cut_kept:
  assumes "acc = int (tokens_between numText es n endIndex)" and "acc < keep" and "n \<le> endIndex"
    and "budget_cut numText es s keep cps n acc d = c"
  shows "c = d \<or> (c \<in> set cps \<and> int (tokens_between numText es (Suc c) endIndex) < keep)"
  using assms
proof (induction n arbitrary: acc)
  case (Suc i)
  have step: "tokens_between numText es i endIndex = entry_tokens numText (es ! i) + tokens_between numText es (Suc i) endIndex"
    using Suc.prems(3) by (simp add: tokens_between_down)
  show ?case
  proof (cases "entry_message (es ! i)")
    case None
    then show ?thesis using Suc.IH [of acc] Suc.prems step by (auto simp: entry_tokens_def split: if_splits)
  next
    case (Some m)
    show ?thesis
    proof (cases "acc + int (estimateTokens numText m) \<ge> keep \<or> i < s")
      case True
      then have "c = d \<or> List.find (\<lambda>c. c \<ge> i) cps = Some c"
        using Suc.prems(4) Some by (auto split: if_splits option.splits)
      moreover have "List.find (\<lambda>c. c \<ge> i) cps = Some c \<Longrightarrow> c \<in> set cps \<and> i \<le> c"
        by (metis find_Some_iff nth_mem)
      moreover have "i \<le> c \<Longrightarrow> tokens_between numText es (Suc c) endIndex \<le> tokens_between numText es (Suc i) endIndex"
        by (rule tokens_between_mono) simp
      ultimately show ?thesis using Suc.prems(1,2) by linarith
    next
      case False
      then show ?thesis using Suc.IH [of "acc + int (estimateTokens numText m)"] Suc.prems Some step
        by (auto simp: entry_tokens_def)
    qed
  qed
qed simp

lemma cut_points: "c \<in> set (findValidCutPoints es s n) \<longleftrightarrow> s \<le> c \<and> c < n \<and> valid_cut (es ! c)"
  by (auto simp: findValidCutPoints_def)

text \<open>The facts on a cut that the properties share.\<close>

lemma cut_kept:
  assumes "findValidCutPoints es s n \<noteq> []" and "0 < keep"
  obtains c where "c \<in> set (findValidCutPoints es s n)"
    and "cp_firstKeptEntryIndex (findCutPoint numText es s n keep) = step_back es s c"
    and "c = hd (findValidCutPoints es s n) \<or> int (tokens_between numText es (Suc c) n) < keep"
proof -
  define c where "c = budget_cut numText es s keep (findValidCutPoints es s n) n 0 (hd (findValidCutPoints es s n))"
  from budget_cut_kept [OF _ assms(2) order_refl c_def [symmetric]]
  have "c = hd (findValidCutPoints es s n) \<or> (c \<in> set (findValidCutPoints es s n) \<and> int (tokens_between numText es (Suc c) n) < keep)"
    by (simp add: tokens_between_def)
  moreover have "cp_firstKeptEntryIndex (findCutPoint numText es s n keep) = step_back es s c"
    using assms(1) by (simp add: findCutPoint_def Let_def c_def)
  ultimately show thesis using that [of c] assms(1) by (metis list.set_sel(1))
qed

lemma cut_split_bounds:
  assumes "cp_isSplitTurn (findCutPoint numText es s n keep)"
  obtains t where "cp_turnStartIndex (findCutPoint numText es s n keep) = Some t"
    and "t \<le> cp_firstKeptEntryIndex (findCutPoint numText es s n keep)"
  using assms turn_start_bounds
  by (fastforce simp: findCutPoint_def Let_def findTurnStartIndex_def split: if_splits)

lemma first_kept_le:
  assumes "0 < keep"
  shows "cp_firstKeptEntryIndex (findCutPoint numText es 0 (length es) keep) \<le> length es"
proof (cases "findValidCutPoints es 0 (length es) = []")
  case True
  then show ?thesis by (simp add: findCutPoint_def)
next
  case False
  from cut_kept [OF False assms] obtain c where "c \<in> set (findValidCutPoints es 0 (length es))"
    "cp_firstKeptEntryIndex (findCutPoint numText es 0 (length es) keep) = step_back es 0 c" by metis
  with step_back_range [of 0 c es] show ?thesis by (auto simp: cut_points)
qed

section \<open>What a preparation keeps\<close>

lemma map_filter_append: "List.map_filter f (xs @ ys) = List.map_filter f xs @ List.map_filter f ys"
  by (simp add: List.map_filter_def)

lemma messages_between_join:
  "a \<le> b \<Longrightarrow> b \<le> c \<Longrightarrow> messages_between es a b @ messages_between es b c = messages_between es a c"
  unfolding messages_between_def map_filter_append [symmetric] by (metis le_Suc_ex upt_add_eq_append)

lemma messages_between_all:
  "messages_between es 0 (length es) = List.map_filter getMessageFromEntryForCompaction es"
proof -
  have "List.map_filter f es = List.map_filter (\<lambda>i. f (es ! i)) [0..<length es]" for f :: "entry \<Rightarrow> agent_message option"
    unfolding List.map_filter_def by (subst (3) map_nth [symmetric]) (simp add: filter_map comp_def)
  then show ?thesis by (simp add: messages_between_def)
qed

text \<open>The cut point of a compaction.  Where there is a valid cut point at all, the first entry kept lies between
  the start and some valid cut point, all that is kept before that cut point is entries without a message of their
  own, and unless it is the very first cut point, the entries after it hold fewer tokens than the budget to keep.\<close>

theorem cut_point_valid:
  assumes "findValidCutPoints es s n \<noteq> []" and "0 < keep"
  shows "\<exists>c \<in> set (findValidCutPoints es s n).
    s \<le> cp_firstKeptEntryIndex (findCutPoint numText es s n keep) \<and>
    cp_firstKeptEntryIndex (findCutPoint numText es s n keep) \<le> c \<and>
    (\<forall>i. cp_firstKeptEntryIndex (findCutPoint numText es s n keep) \<le> i \<and> i < c \<longrightarrow>
      entry_kind (es ! i) \<noteq> MessageType \<and> entry_kind (es ! i) \<noteq> CompactionType) \<and>
    (c = hd (findValidCutPoints es s n) \<or> int (tokens_between numText es (Suc c) n) < keep)"
proof -
  from cut_kept [OF assms] obtain c where c: "c \<in> set (findValidCutPoints es s n)"
      "cp_firstKeptEntryIndex (findCutPoint numText es s n keep) = step_back es s c"
      "c = hd (findValidCutPoints es s n) \<or> int (tokens_between numText es (Suc c) n) < keep" by metis
  moreover from c(1) have "s \<le> c" by (simp add: cut_points)
  note step_back_range [OF this, of es]
  ultimately show ?thesis by (intro bexI [of _ c]) simp_all
qed

abbreviation picture :: agent_message where
  "picture \<equiv> UserMessage (ContentBlocks [ImageBlock \<lparr>ic_data = [], ic_mimeType = ''image/png''\<rparr>]) 0"

definition picture_entry :: "string \<Rightarrow> entry" where
  "picture_entry i = \<lparr>entry_id = i, entry_seq = 1, entry_parentId = None, entry_timestamp = 0,
     entry_payload = MessagePayload picture False\<rparr>"

lemma picture_entry_simps [simp]:
  "entry_kind (picture_entry i) = MessageType"
  "entry_message (picture_entry i) = Some picture"
  "valid_cut (picture_entry i)"
  "is_user_entry (picture_entry i)"
  "getMessageFromEntryForCompaction (picture_entry i) = Some picture"
  by (simp_all add: picture_entry_def entry_message_def valid_cut_def is_user_entry_def
      getMessageFromEntryForCompaction_def getMessageFromEntry_def)

theorem cut_point_valid_witness:
  "\<exists>c \<in> set (findValidCutPoints [picture_entry ''a'', picture_entry ''b''] 0 2).
    0 \<le> cp_firstKeptEntryIndex (findCutPoint (\<lambda>_. []) [picture_entry ''a'', picture_entry ''b''] 0 2 1) \<and>
    cp_firstKeptEntryIndex (findCutPoint (\<lambda>_. []) [picture_entry ''a'', picture_entry ''b''] 0 2 1) \<le> c"
proof -
  have "findValidCutPoints [picture_entry ''a'', picture_entry ''b''] 0 2 \<noteq> []"
    by (simp add: findValidCutPoints_def upt_conv_Cons)
  from cut_point_valid [OF this, of 1 "\<lambda>_. []"] show ?thesis by auto
qed

text \<open>The parts of a preparation, as intervals of the entries that can be compacted.\<close>

lemma preparation_parts:
  assumes "prepareCompaction numText path settings = Some prep" and "0 < set_keepRecentTokens settings"
  defines "es \<equiv> compactable_entries path (compaction_index path (length path))"
  defines "cp \<equiv> findCutPoint numText es 0 (length es) (set_keepRecentTokens settings)"
  obtains h where "h \<le> cp_firstKeptEntryIndex cp" and "cp_firstKeptEntryIndex cp \<le> length es"
    and "prep_messagesToSummarize prep = messages_between es 0 h"
    and "prep_turnPrefixMessages prep = messages_between es h (cp_firstKeptEntryIndex cp)"
    and "prep_retainedTail prep = messages_between es (cp_firstKeptEntryIndex cp) (length es)"
proof -
  have le: "cp_firstKeptEntryIndex cp \<le> length es" unfolding cp_def by (rule first_kept_le [OF assms(2)])
  show thesis
  proof (cases "cp_isSplitTurn cp")
    case True
    with cut_split_bounds obtain t where t: "cp_turnStartIndex cp = Some t" "t \<le> cp_firstKeptEntryIndex cp"
      unfolding cp_def by metis
    show thesis
      by (rule that [of t])
        (use assms(1) t True le in \<open>auto simp: prepareCompaction_def Let_def es_def cp_def split: if_splits\<close>)
  next
    case False
    show thesis
      by (rule that [of "cp_firstKeptEntryIndex cp"])
        (use assms(1) False le in \<open>auto simp: prepareCompaction_def Let_def es_def cp_def messages_between_def
           List.map_filter_def split: if_splits option.splits\<close>)
  qed
qed

text \<open>A preparation partitions the conversation.  The messages to summarize, the prefix of the split turn and the
  retained tail are, in this order and without loss, repetition or reordering, the messages of the entries that can
  be compacted: the tail retained by the previous compaction and what follows it.\<close>

theorem preparation_partition:
  assumes "prepareCompaction numText path settings = Some prep" and "0 < set_keepRecentTokens settings"
  shows "prep_messagesToSummarize prep @ prep_turnPrefixMessages prep @ prep_retainedTail prep =
    List.map_filter getMessageFromEntryForCompaction
      (compactable_entries path (compaction_index path (length path)))"
proof -
  define es where "es = compactable_entries path (compaction_index path (length path))"
  define k where "k = cp_firstKeptEntryIndex (findCutPoint numText es 0 (length es) (set_keepRecentTokens settings))"
  from preparation_parts [OF assms] obtain h where "h \<le> k" "k \<le> length es"
    "prep_messagesToSummarize prep = messages_between es 0 h"
    "prep_turnPrefixMessages prep = messages_between es h k"
    "prep_retainedTail prep = messages_between es k (length es)" unfolding es_def k_def by metis
  then show ?thesis by (simp add: messages_between_join messages_between_all flip: es_def)
qed

definition small_budget :: compaction_settings where
  "small_budget = \<lparr>set_enabled = True, set_reserveTokens = 0, set_keepRecentTokens = 1, set_summaryMaxTokens = None\<rparr>"

lemma small_cut:
  "findCutPoint (\<lambda>_. []) [picture_entry ''a'', picture_entry ''b''] 0 (Suc (Suc 0)) 1 =
   \<lparr>cp_firstKeptEntryIndex = 1, cp_turnStartIndex = None, cp_isSplitTurn = False\<rparr>"
  by (simp add: findCutPoint_def findValidCutPoints_def upt_conv_Cons ESTIMATED_IMAGE_CHARS_def)

lemma small_preparation:
  "map_option prep_retainedTail (prepareCompaction (\<lambda>_. []) [picture_entry ''a'', picture_entry ''b''] small_budget) =
   Some [picture]"
  by (simp add: prepareCompaction_def Let_def small_budget_def compactable_entries_def messages_between_def
      upt_conv_Cons List.map_filter_def small_cut)

theorem preparation_partition_witness:
  "\<exists>prep. prepareCompaction (\<lambda>_. []) [picture_entry ''a'', picture_entry ''b''] small_budget = Some prep \<and>
     prep_messagesToSummarize prep @ prep_turnPrefixMessages prep @ prep_retainedTail prep =
     List.map_filter getMessageFromEntryForCompaction
       (compactable_entries [picture_entry ''a'', picture_entry ''b'']
         (compaction_index [picture_entry ''a'', picture_entry ''b''] 2))"
proof -
  from small_preparation obtain prep
    where "prepareCompaction (\<lambda>_. []) [picture_entry ''a'', picture_entry ''b''] small_budget = Some prep" by blast
  with preparation_partition [OF this] show ?thesis by (simp add: small_budget_def numeral_2_eq_2)
qed

fun is_tool_result :: "agent_message \<Rightarrow> bool" where
  "is_tool_result (ToolResultMessage _) = True"
| "is_tool_result _ = False"

lemma cut_message_not_result: "cut_message m \<Longrightarrow> \<not> is_tool_result m"
  by (cases m) auto

lemma valid_cut_message:
  "valid_cut e \<Longrightarrow> \<exists>m. getMessageFromEntryForCompaction e = Some m \<and> \<not> is_tool_result m"
  by (auto simp: valid_cut_def getMessageFromEntryForCompaction_def getMessageFromEntry_def 
      createBranchSummaryMessage_def cut_message_not_result split: entry_payload.splits)

lemma passed_entry_message:
  "entry_kind e \<noteq> MessageType \<Longrightarrow> getMessageFromEntryForCompaction e = Some m \<Longrightarrow> \<not> is_tool_result m"
  by (auto simp: getMessageFromEntryForCompaction_def getMessageFromEntry_def 
      createBranchSummaryMessage_def createCompactionSummaryMessage_def split: entry_payload.splits if_splits)

lemma messages_between_head:
  assumes "a \<le> c" and "c < b" and "\<And>i m. a \<le> i \<Longrightarrow> i < c \<Longrightarrow> getMessageFromEntryForCompaction (es ! i) = Some m \<Longrightarrow> P m"
    and "getMessageFromEntryForCompaction (es ! c) = Some m" and "P m"
  shows "messages_between es a b \<noteq> [] \<and> P (hd (messages_between es a b))"
proof -
  have "messages_between es a b = messages_between es a c @ m # messages_between es (Suc c) b"
    using assms(1,2,4) messages_between_join [of a c b es] by (simp add: messages_between_def upt_conv_Cons List.map_filter_def)
  moreover have "\<forall>x \<in> set (messages_between es a c). P x"
    using assms(3) by (auto simp: messages_between_def List.map_filter_def)
  ultimately show ?thesis using assms(5) by (cases "messages_between es a c") auto
qed

text \<open>The tail a compaction retains is never empty and never starts with the result of a tool, whose call would
  have been summarized, provided any entry at all is a valid cut point.\<close>

theorem retained_tail_start:
  assumes "prepareCompaction numText path settings = Some prep" and "0 < set_keepRecentTokens settings"
    and "\<exists>e \<in> set (compactable_entries path (compaction_index path (length path))). valid_cut e"
  shows "prep_retainedTail prep \<noteq> [] \<and> \<not> is_tool_result (hd (prep_retainedTail prep))"
proof -
  define es where "es = compactable_entries path (compaction_index path (length path))"
  define k where "k = cp_firstKeptEntryIndex (findCutPoint numText es 0 (length es) (set_keepRecentTokens settings))"
  have tail: "prep_retainedTail prep = messages_between es k (length es)"
    using preparation_parts [OF assms(1,2)] unfolding es_def k_def by metis
  from assms(3) have "findValidCutPoints es 0 (length es) \<noteq> []"
    by (metis cut_points empty_iff es_def in_set_conv_nth list.set(1) zero_le)
  from cut_kept [OF this assms(2)] obtain c where "c \<in> set (findValidCutPoints es 0 (length es))" "k = step_back es 0 c"
    unfolding k_def by metis
  then have c: "k \<le> c" "c < length es" "valid_cut (es ! c)" "\<And>i. k \<le> i \<Longrightarrow> i < c \<Longrightarrow> entry_kind (es ! i) \<noteq> MessageType"
    using step_back_range [of 0 c es] by (auto simp: cut_points)
  from valid_cut_message [OF c(3)] obtain m where "getMessageFromEntryForCompaction (es ! c) = Some m" "\<not> is_tool_result m"
    by blast
  from messages_between_head [OF c(1,2) _ this(1), of "\<lambda>m. \<not> is_tool_result m"] this(2) c(4) passed_entry_message
  show ?thesis unfolding tail by blast
qed

theorem retained_tail_start_witness:
  "\<exists>prep. prepareCompaction (\<lambda>_. []) [picture_entry ''a'', picture_entry ''b''] small_budget = Some prep \<and>
     prep_retainedTail prep \<noteq> [] \<and> \<not> is_tool_result (hd (prep_retainedTail prep))"
proof -
  from small_preparation obtain prep
    where p: "prepareCompaction (\<lambda>_. []) [picture_entry ''a'', picture_entry ''b''] small_budget = Some prep" by blast
  have "\<exists>e \<in> set (compactable_entries [picture_entry ''a'', picture_entry ''b'']
      (compaction_index [picture_entry ''a'', picture_entry ''b''] (length [picture_entry ''a'', picture_entry ''b'']))). valid_cut e"
    by (simp add: compactable_entries_def)
  from retained_tail_start [OF p _ this] p show ?thesis by (simp add: small_budget_def)
qed


section \<open>Two cuts that miss their purpose\<close>

lemma find_last_cut:
  assumes "valid_cut (es ! i)" and "n = Suc i" and "s \<le> i"
  shows "List.find (\<lambda>c. c \<ge> i) (findValidCutPoints es s n) = Some i"
proof -
  have "findValidCutPoints es s n = findValidCutPoints es s i @ [i]"
    using assms by (simp add: findValidCutPoints_def)
  moreover have "List.find (\<lambda>c. c \<ge> i) (findValidCutPoints es s i) = None"
    by (auto simp: find_None_iff cut_points)
  moreover have "List.find P (xs @ ys) = (case List.find P xs of None \<Rightarrow> List.find P ys | Some x \<Rightarrow> Some x)"
    for P :: "nat \<Rightarrow> bool" and xs ys by (induction xs) auto
  ultimately show ?thesis by simp
qed

lemma is_user_entryD:
  "is_user_entry e \<Longrightarrow> entry_kind e = MessageType \<and> valid_cut e \<and> starts_turn e \<and> (\<exists>m. entry_message e = Some m)"
  by (auto simp: is_user_entry_def valid_cut_def starts_turn_def entry_message_def
      split: entry_payload.splits agent_message.splits)

text \<open>The entries before the cut hide the turn boundary.  A user message that alone fills the budget is cut
  exactly at its turn, but when a change of the model was recorded just before it, the cut steps back onto that entry,
  which is no user message: the previous, complete turn is then reported as split, and its messages are summarized as
  the prefix of a turn that was too large to keep.\<close>

theorem metadata_before_user_reported_as_split:
  assumes "is_user_entry u" and "entry_message a = Some (AssistantMessage m)" and "entry_kind a = MessageType"
    and "entry_kind c = ModelChangeType" and "is_user_entry v" and "0 < keep" and "keep \<le> int (entry_tokens numText v)"
  shows "findCutPoint numText (xs @ [u, a, c, v]) 0 (length xs + 4) keep =
    \<lparr>cp_firstKeptEntryIndex = length xs + 2, cp_turnStartIndex = Some (length xs), cp_isSplitTurn = True\<rparr>"
proof -
  define es where "es = xs @ [u, a, c, v]"
  have nth: "es ! length xs = u" "es ! Suc (length xs) = a" "es ! Suc (Suc (length xs)) = c" "es ! Suc (Suc (Suc (length xs))) = v"
    by (simp_all add: es_def nth_append)
  let ?n = "Suc (Suc (Suc (Suc (length xs))))"
  obtain w where w: "entry_message v = Some w" "keep \<le> int (estimateTokens numText w)"
    using is_user_entryD [OF assms(5)] assms(7) by (auto simp: entry_tokens_def)
  have find: "List.find (\<lambda>c. c \<ge> Suc (Suc (Suc (length xs)))) (findValidCutPoints es 0 ?n) = Some (Suc (Suc (Suc (length xs))))"
    by (rule find_last_cut) (simp_all add: nth is_user_entryD [OF assms(5)])
  then have "findValidCutPoints es 0 ?n \<noteq> []" by auto
  moreover have "\<not> is_user_entry c" "\<not> starts_turn c" "\<not> starts_turn a" "starts_turn u"
    using assms(1-4) is_user_entryD [OF assms(1)]
    by (auto simp: is_user_entry_def starts_turn_def entry_message_def split: entry_payload.splits)
  ultimately show ?thesis
    using w find assms(3,4) is_user_entryD [OF assms(5)] unfolding es_def [symmetric]
    by (simp add: findCutPoint_def Let_def nth findTurnStartIndex_def eval_nat_numeral)
qed

definition silent_assistant :: assistant_message where
  "silent_assistant = \<lparr>am_content = [], am_api = [], am_provider = [], am_model = [], am_responseModel = None,
     am_responseId = None, am_diagnostics = None,
     am_usage = \<lparr>usage_input = 0, usage_output = 0, usage_cacheRead = 0, usage_cacheWrite = 0, usage_cacheWrite1h = None,
       usage_reasoning = None, usage_totalTokens = 0,
       usage_cost = \<lparr>cost_input = 0, cost_output = 0, cost_cacheRead = 0, cost_cacheWrite = 0, cost_total = 0\<rparr>\<rparr>,
     am_stopReason = StopStop, am_deferred = None, am_errorMessage = None, am_rawStopReason = None, am_endTurn = None,
     am_timestamp = 0\<rparr>"

definition payload_entry :: "entry_payload \<Rightarrow> entry" where
  "payload_entry p = \<lparr>entry_id = ''e'', entry_seq = 1, entry_parentId = None, entry_timestamp = 0, entry_payload = p\<rparr>"

theorem metadata_before_user_reported_as_split_witness:
  "findCutPoint (\<lambda>_. []) ([] @ [picture_entry ''u'', payload_entry (MessagePayload (AssistantMessage silent_assistant) False),
      payload_entry (ModelChangePayload ''p'' ''m''), picture_entry ''v'']) 0 (length ([] :: entry list) + 4) 1000 =
    \<lparr>cp_firstKeptEntryIndex = length ([] :: entry list) + 2, cp_turnStartIndex = Some (length ([] :: entry list)),
     cp_isSplitTurn = True\<rparr>"
  by (rule metadata_before_user_reported_as_split)
    (simp_all add: payload_entry_def entry_message_def is_user_entry_def picture_entry_def entry_tokens_def
      ESTIMATED_IMAGE_CHARS_def)

text \<open>A tool result larger than the budget blocks compaction.  When the last entry of a session that has not been
  compacted is the result of a tool whose estimate alone reaches the budget to keep, no cut point follows it, the cut
  falls back to the first entry, and no compaction is prepared, however long the session is.\<close>

theorem oversized_tool_result_prevents_compaction:
  assumes "is_user_entry u" and "no_compaction (u # xs @ [e])" and "entry_message e = Some (ToolResultMessage r)"
    and "0 < set_keepRecentTokens settings"
    and "set_keepRecentTokens settings \<le> int (estimateTokens numText (ToolResultMessage r))"
  shows "prepareCompaction numText (u # xs @ [e]) settings = None"
proof -
  define es where "es = u # xs @ [e]"
  have nth: "es ! 0 = u" "es ! Suc (length xs) = e" "length es = Suc (Suc (length xs))"
    by (simp_all add: es_def nth_append)
  have "\<not> valid_cut e" using assms(3) by (auto simp: valid_cut_def entry_message_def split: entry_payload.splits)
  then have "List.find (\<lambda>c. c \<ge> Suc (length xs)) (findValidCutPoints es 0 (length es)) = None"
    by (auto simp: find_None_iff cut_points nth less_Suc_eq)
  moreover have cps: "findValidCutPoints es 0 (length es) \<noteq> []" "hd (findValidCutPoints es 0 (length es)) = 0"
    using is_user_entryD [OF assms(1)] by (simp_all add: findValidCutPoints_def nth upt_conv_Cons del: upt_Suc)
  ultimately have "findCutPoint numText es 0 (length es) (set_keepRecentTokens settings) =
      \<lparr>cp_firstKeptEntryIndex = 0, cp_turnStartIndex = None, cp_isSplitTurn = False\<rparr>"
    using assms(1,3,5) by (simp add: findCutPoint_def Let_def nth)
  moreover have "compactable_entries es (compaction_index es (length es)) = es"
    using assms(2) by (simp add: es_def [symmetric] compaction_index_none compactable_entries_def)
  ultimately show ?thesis
    using assms(4) unfolding es_def [symmetric]
    by (simp add: prepareCompaction_def Let_def messages_between_def total_tokens_def List.map_filter_def)
qed

definition picture_result :: tool_result_message where
  "picture_result = \<lparr>tr_toolCallId = ''c'', tr_toolName = ''read'', tr_content = [ImageBlock \<lparr>ic_data = [], ic_mimeType = []\<rparr>],
     tr_details = None, tr_usage = None, tr_addedToolNames = None, tr_isError = False, tr_timestamp = 0\<rparr>"

lemma picture_result_tokens: "estimateTokens numText (ToolResultMessage picture_result) = 1200"
  by (simp add: picture_result_def ESTIMATED_IMAGE_CHARS_def)

theorem oversized_tool_result_prevents_compaction_witness:
  "prepareCompaction (\<lambda>_. []) (picture_entry ''u'' # [picture_entry ''v''] @
     [payload_entry (MessagePayload (ToolResultMessage picture_result) False)]) small_budget = None"
  by (rule oversized_tool_result_prevents_compaction [where r = picture_result])
    (simp_all add: payload_entry_def entry_message_def small_budget_def no_compaction_def picture_result_tokens del: estimateTokens.simps)

section \<open>The file lists\<close>

lemma set_add_set [simp]: "set (set_add x xs) = insert x (set xs)"
  by (auto simp: set_add_def)

lemma set_add_distinct: "distinct xs \<Longrightarrow> distinct (set_add x xs)"
  by (simp add: set_add_def)

lemma set_adds_set [simp]: "set (foldl (\<lambda>s p. set_add p s) xs ys) = set xs \<union> set ys"
  by (induction ys arbitrary: xs) auto

lemma set_adds_distinct: "distinct xs \<Longrightarrow> distinct (foldl (\<lambda>s p. set_add p s) xs ys)"
  by (induction ys arbitrary: xs) (auto simp: set_add_distinct)

text \<open>The calls of a tool by name and path, and the paths the operations record for it.\<close>

definition calls_on :: "string \<Rightarrow> agent_message list \<Rightarrow> string set" where
  "calls_on tool ms =
     {p. \<exists>m. AssistantMessage m \<in> set ms \<and> (\<exists>c \<in> set (message_tool_calls m). call_name c = tool \<and> call_path c = Some p)}"

lemma add_call_path_sets:
  "set (fo_read (add_call_path ops c)) = set (fo_read ops) \<union> {p. call_name c = ''read'' \<and> call_path c = Some p}"
  "set (fo_written (add_call_path ops c)) = set (fo_written ops) \<union> {p. call_name c = ''write'' \<and> call_path c = Some p}"
  "set (fo_edited (add_call_path ops c)) = set (fo_edited ops) \<union> {p. call_name c = ''edit'' \<and> call_path c = Some p}"
  by (auto simp: add_call_path_def split: option.splits)

lemma add_call_paths_sets:
  "set (fo_read (foldl add_call_path ops cs)) =
     set (fo_read ops) \<union> {p. \<exists>c \<in> set cs. call_name c = ''read'' \<and> call_path c = Some p}"
  "set (fo_written (foldl add_call_path ops cs)) =
     set (fo_written ops) \<union> {p. \<exists>c \<in> set cs. call_name c = ''write'' \<and> call_path c = Some p}"
  "set (fo_edited (foldl add_call_path ops cs)) =
     set (fo_edited ops) \<union> {p. \<exists>c \<in> set cs. call_name c = ''edit'' \<and> call_path c = Some p}"
  by (induction cs arbitrary: ops) (auto simp: add_call_path_sets)

lemma calls_on_Cons:
  "calls_on tool (m # ms) = calls_on tool [m] \<union> calls_on tool ms" "calls_on tool [] = {}"
  by (auto simp: calls_on_def)

lemma extract_message_sets:
  "set (fo_read (extractFileOpsFromMessage m ops)) = set (fo_read ops) \<union> calls_on ''read'' [m]"
  "set (fo_written (extractFileOpsFromMessage m ops)) = set (fo_written ops) \<union> calls_on ''write'' [m]"
  "set (fo_edited (extractFileOpsFromMessage m ops)) = set (fo_edited ops) \<union> calls_on ''edit'' [m]"
  by (cases m; auto simp: extractFileOpsFromMessage_def calls_on_def add_call_paths_sets)+

lemma extract_messages_sets:
  "set (fo_read (foldl (\<lambda>ops m. extractFileOpsFromMessage m ops) ops ms)) = set (fo_read ops) \<union> calls_on ''read'' ms"
  "set (fo_written (foldl (\<lambda>ops m. extractFileOpsFromMessage m ops) ops ms)) = set (fo_written ops) \<union> calls_on ''write'' ms"
  "set (fo_edited (foldl (\<lambda>ops m. extractFileOpsFromMessage m ops) ops ms)) = set (fo_edited ops) \<union> calls_on ''edit'' ms"
  by (induction ms arbitrary: ops)
    (simp_all add: extract_message_sets calls_on_Cons(2) Un_assoc calls_on_Cons(1) [of _ _ "_ # _"],
     (metis Un_assoc calls_on_Cons(1))+)

lemma calls_on_append: "calls_on tool (ms @ ns) = calls_on tool ms \<union> calls_on tool ns"
  by (auto simp: calls_on_def)

lemma file_lists_sets:
  "set (snd (computeFileLists ops)) = set (fo_edited ops) \<union> set (fo_written ops)"
  "set (fst (computeFileLists ops)) = set (fo_read ops) - (set (fo_edited ops) \<union> set (fo_written ops))"
  by (auto simp: computeFileLists_def Let_def)

lemma file_lists_sorted:
  "sorted (map text_units (fst (computeFileLists ops)))" "sorted (map text_units (snd (computeFileLists ops)))"
  by (simp_all add: computeFileLists_def Let_def)

lemma prepared_file_ops:
  assumes "prepareCompaction numText path settings = Some prep"
  defines "prev \<equiv> compaction_index path (length path)"
  defines "ms \<equiv> prep_messagesToSummarize prep @ prep_turnPrefixMessages prep"
  defines "details \<equiv> Option.bind prev (\<lambda>i. compaction_details (path ! i))"
  shows "set (fo_read (prep_fileOps prep)) = set (detail_paths details ''readFiles'') \<union> calls_on ''read'' ms"
    and "set (fo_written (prep_fileOps prep)) = calls_on ''write'' ms"
    and "set (fo_edited (prep_fileOps prep)) = set (detail_paths details ''modifiedFiles'') \<union> calls_on ''edit'' ms"
proof -
  have ops: "prep_fileOps prep = foldl (\<lambda>ops m. extractFileOpsFromMessage m ops)
      (case prev of None \<Rightarrow> createFileOps | Some i \<Rightarrow> add_details (compaction_details (path ! i)) createFileOps) ms"
    using assms(1) unfolding ms_def prev_def
    by (auto simp: prepareCompaction_def extractFileOperations_def Let_def foldl_append split: if_splits)
  show "set (fo_read (prep_fileOps prep)) = set (detail_paths details ''readFiles'') \<union> calls_on ''read'' ms"
    "set (fo_written (prep_fileOps prep)) = calls_on ''write'' ms"
    "set (fo_edited (prep_fileOps prep)) = set (detail_paths details ''modifiedFiles'') \<union> calls_on ''edit'' ms"
    unfolding ops extract_messages_sets details_def
    by (simp_all add: add_details_def createFileOps_def detail_paths_def split: option.split)
qed

text \<open>The files of a summary.  The modified files listed are exactly those the summarized messages write or edit and
  those the previous summary listed as modified; the read files are those read, now or before, and not modified; both
  lists are sorted by code units.\<close>

theorem summary_file_lists:
  assumes "prepareCompaction numText path settings = Some prep"
  shows "let (readFiles, modifiedFiles) = computeFileLists (prep_fileOps prep);
             ms = prep_messagesToSummarize prep @ prep_turnPrefixMessages prep;
             details = Option.bind (compaction_index path (length path)) (\<lambda>i. compaction_details (path ! i))
    in set modifiedFiles = calls_on ''write'' ms \<union> calls_on ''edit'' ms \<union> set (detail_paths details ''modifiedFiles'') \<and>
       set readFiles = (calls_on ''read'' ms \<union> set (detail_paths details ''readFiles'')) - set modifiedFiles \<and>
       sorted (map text_units readFiles) \<and> sorted (map text_units modifiedFiles)"
proof (cases "computeFileLists (prep_fileOps prep)")
  case (Pair r m)
  with file_lists_sets [of "prep_fileOps prep"] file_lists_sorted [of "prep_fileOps prep"]
  show ?thesis unfolding prepared_file_ops [OF assms] by (auto simp: Let_def)
qed

theorem summary_file_lists_witness:
  "\<exists>prep. prepareCompaction (\<lambda>_. []) [picture_entry ''a'', picture_entry ''b''] small_budget = Some prep \<and>
     sorted (map text_units (fst (computeFileLists (prep_fileOps prep))))"
proof -
  from small_preparation obtain prep
    where p: "prepareCompaction (\<lambda>_. []) [picture_entry ''a'', picture_entry ''b''] small_budget = Some prep" by blast
  from summary_file_lists [OF p] p show ?thesis by (auto simp: Let_def split: prod.splits)
qed

end
