(* ===== verification/Retry.thy ===== *)
theory Retry
  imports Session_Types Utf8
begin

text \<open>
  Retrying a call to a model provider, \<^verbatim>\<open>packages/ai/src/utils/retry.ts\<close>: which errors are transient
  and the loop with exponential backoff.  The provider is a function from the number of earlier calls to what
  that call gives, an exception (\<open>Inl\<close>) or a message; the signal is the predicate that tells which
  backoff is aborted.  The calls and callbacks are the events of a trace.
\<close>

section \<open>Error patterns\<close>

text \<open>The regular expressions of the module use literal characters, optional characters and \<^verbatim>\<open>.?\<close>,
  without regard to the case of ASCII letters.\<close>

datatype pattern_atom = Lit char | Maybe char | MaybeAny

fun parse_pattern :: "string \<Rightarrow> pattern_atom list" where
  "parse_pattern [] = []"
| "parse_pattern [c] = [Lit c]"
| "parse_pattern (c # d # cs) =
     (if d = CHR ''?''
      then (if c = CHR ''.'' then MaybeAny else Maybe c) # parse_pattern cs
      else Lit c # parse_pattern (d # cs))"

definition fold_case :: "nat \<Rightarrow> nat" where
  "fold_case n = (if 97 \<le> n \<and> n \<le> 122 then n - 32 else n)"

definition same_letter :: "char \<Rightarrow> code_unit \<Rightarrow> bool" where
  "same_letter c u = (fold_case (of_char c) = fold_case (unat u))"

definition line_terminator :: "code_unit \<Rightarrow> bool" where
  "line_terminator u = (u = 0x0A \<or> u = 0x0D \<or> u = 0x2028 \<or> u = 0x2029)"

fun matches_here :: "pattern_atom list \<Rightarrow> js_string \<Rightarrow> bool" where
  "matches_here [] us = True"
| "matches_here (Lit c # ps) us = (case us of [] \<Rightarrow> False | u # us' \<Rightarrow> same_letter c u \<and> matches_here ps us')"
| "matches_here (Maybe c # ps) us =
     ((case us of [] \<Rightarrow> False | u # us' \<Rightarrow> same_letter c u \<and> matches_here ps us') \<or> matches_here ps us)"
| "matches_here (MaybeAny # ps) us =
     ((case us of [] \<Rightarrow> False | u # us' \<Rightarrow> \<not> line_terminator u \<and> matches_here ps us') \<or> matches_here ps us)"

fun pattern_search :: "pattern_atom list \<Rightarrow> js_string \<Rightarrow> bool" where
  "pattern_search ps [] = matches_here ps []"
| "pattern_search ps (u # us) = (matches_here ps (u # us) \<or> pattern_search ps us)"

definition buildProviderErrorPattern :: "string list \<Rightarrow> js_string \<Rightarrow> bool" where
  "buildProviderErrorPattern patterns text = list_ex (\<lambda>p. pattern_search (parse_pattern p) text) patterns"

definition NON_RETRYABLE_PROVIDER_LIMIT_ERROR_PATTERN :: "string list" where
  "NON_RETRYABLE_PROVIDER_LIMIT_ERROR_PATTERN =
     [''GoUsageLimitError'', ''FreeUsageLimitError'', ''Monthly usage limit reached'', ''available balance'',
      ''insufficient_quota'', ''out of budget'', ''quota exceeded'', ''billing'']"

definition RETRYABLE_PROVIDER_ERROR_PATTERN :: "string list" where
  "RETRYABLE_PROVIDER_ERROR_PATTERN =
     [''overloaded'', ''rate.?limit'', ''too many requests'', ''429'', ''500'', ''502'', ''503'', ''504'', ''524'',
      ''service.?unavailable'', ''server.?error'', ''internal.?error'',
      ''provider.?returned.?error'', ''exceeded request buffer limit while retrying upstream'',
      ''network.?error'', ''connection.?error'', ''connection.?refused'', ''connection.?lost'', ''other side closed'',
      ''fetch failed'', ''getaddrinfo'', ''ENOTFOUND'', ''EAI_AGAIN'', ''upstream.?connect'', ''reset before headers'',
      ''socket hang up'', ''socket connection was closed'', ''timed? out'', ''timeout'', ''terminated'',
      ''websocket.?closed'', ''websocket.?error'',
      ''ended without'', ''stream ended before message_stop'', ''stream ended before a terminal response event'',
      ''http2 request did not get a response'',
      ''retry delay'',
      ''you can retry your request'', ''try your request again'', ''please retry your request'',
      ''ResourceExhausted'']"

definition isRetryableAssistantError :: "assistant_message \<Rightarrow> bool" where
  "isRetryableAssistantError message =
     (case am_errorMessage message of
        None \<Rightarrow> False
      | Some errorMessage \<Rightarrow>
          am_stopReason message = StopError \<and> errorMessage \<noteq> [] \<and>
          \<not> buildProviderErrorPattern NON_RETRYABLE_PROVIDER_LIMIT_ERROR_PATTERN (text_units errorMessage) \<and>
          buildProviderErrorPattern RETRYABLE_PROVIDER_ERROR_PATTERN (text_units errorMessage))"

section \<open>The retry loop\<close>

record retry_policy =
  rp_enabled :: bool
  rp_maxRetries :: nat
  rp_baseDelayMs :: nat

datatype retry_event =
    Called
  | RetryScheduled nat nat nat string
  | RetryAttemptStart
  | RetryFinished bool nat "string option"

definition error_text :: "assistant_message \<Rightarrow> string" where
  "error_text response = (case am_errorMessage response of Some e \<Rightarrow> if e = [] then ''Unknown error'' else e
     | None \<Rightarrow> ''Unknown error'')"

text \<open>\<open>lastRetry\<close> is the number and the error of the last retry scheduled.\<close>

definition finished :: "(nat \<times> string) option \<Rightarrow> bool \<Rightarrow> string option \<Rightarrow> retry_event list" where
  "finished lastRetry success finalError =
     (case lastRetry of None \<Rightarrow> [] | Some (attempt, _) \<Rightarrow> [RetryFinished success attempt finalError])"

function retry_loop ::
    "(nat \<Rightarrow> 'e + assistant_message) \<Rightarrow> (nat \<Rightarrow> bool) \<Rightarrow> nat \<Rightarrow> nat \<Rightarrow> nat \<Rightarrow> (nat \<times> string) option \<Rightarrow>
     retry_event list \<Rightarrow> ('e + assistant_message) \<times> retry_event list" where
  "retry_loop produce aborted baseDelayMs maxAttempts attempt lastRetry events =
     (case produce attempt of
        Inl e \<Rightarrow> (Inl e, events @ [Called])
      | Inr response \<Rightarrow>
          if am_stopReason response = StopAborted
          then (Inr response, events @ Called # finished lastRetry False None)
          else if am_stopReason response \<noteq> StopError
          then (Inr response, events @ Called # finished lastRetry True None)
          else if attempt \<ge> maxAttempts \<or> \<not> isRetryableAssistantError response
          then (Inr response, events @ Called # finished lastRetry False (am_errorMessage response))
          else
            let attempt' = attempt + 1;
                errorMessage = error_text response;
                delayMs = baseDelayMs * 2 ^ (attempt' - 1);
                events' = events @ [Called, RetryScheduled attempt' maxAttempts delayMs errorMessage]
            in if aborted attempt'
               then (Inr (response\<lparr>am_stopReason := StopAborted, am_errorMessage := None\<rparr>),
                     events' @ [RetryFinished False attempt' (Some errorMessage)])
               else retry_loop produce aborted baseDelayMs maxAttempts attempt' (Some (attempt', errorMessage))
                      (events' @ [RetryAttemptStart]))"
  by pat_completeness auto
termination by (relation "measure (\<lambda>(_, _, _, maxAttempts, attempt, _). maxAttempts - attempt)") auto

declare retry_loop.simps [simp del]

definition retryAssistantCall ::
    "(nat \<Rightarrow> 'e + assistant_message) \<Rightarrow> retry_policy option \<Rightarrow> (nat \<Rightarrow> bool) \<Rightarrow>
     ('e + assistant_message) \<times> retry_event list" where
  "retryAssistantCall produce policy aborted =
     (let maxAttempts = (case policy of Some p \<Rightarrow> if rp_enabled p then rp_maxRetries p else 0 | None \<Rightarrow> 0);
          baseDelayMs = (case policy of Some p \<Rightarrow> rp_baseDelayMs p | None \<Rightarrow> 0)
      in retry_loop produce aborted baseDelayMs maxAttempts 0 None [])"

section \<open>What the patterns match\<close>

fun pattern_words :: "pattern_atom list \<Rightarrow> js_string set" where
  "pattern_words [] = {[]}"
| "pattern_words (Lit c # ps) = {u # w | u w. same_letter c u \<and> w \<in> pattern_words ps}"
| "pattern_words (Maybe c # ps) = {u # w | u w. same_letter c u \<and> w \<in> pattern_words ps} \<union> pattern_words ps"
| "pattern_words (MaybeAny # ps) = {u # w | u w. \<not> line_terminator u \<and> w \<in> pattern_words ps} \<union> pattern_words ps"

lemma prefix_word_Cons:
  "(\<exists>w \<in> {u # w | u w. P u \<and> w \<in> W}. \<exists>b. us = w @ b) \<longleftrightarrow>
   (case us of [] \<Rightarrow> False | u # us' \<Rightarrow> P u \<and> (\<exists>w \<in> W. \<exists>b. us' = w @ b))"
proof (cases us)
  case (Cons u us')
  have "us = w @ b \<longleftrightarrow> w = [] \<and> b = us \<or> (\<exists>w'. w = u # w' \<and> us' = w' @ b)" for w b
    using Cons by (auto simp: Cons_eq_append_conv)
  with Cons show ?thesis by auto
qed auto

lemma matches_here_words: "matches_here ps us \<longleftrightarrow> (\<exists>w \<in> pattern_words ps. \<exists>b. us = w @ b)"
proof (induction ps arbitrary: us)
  case (Cons a ps)
  show ?case by (cases a) (simp_all only: matches_here.simps pattern_words.simps Cons.IH prefix_word_Cons bex_Un)
qed simp

lemma pattern_search_suffix: "pattern_search ps us \<longleftrightarrow> (\<exists>a b. us = a @ b \<and> matches_here ps b)"
proof (induction us)
  case (Cons u us)
  have "(\<exists>a b. u # us = a @ b \<and> matches_here ps b) \<longleftrightarrow>
      matches_here ps (u # us) \<or> (\<exists>a b. us = a @ b \<and> matches_here ps b)"
    by (metis append_eq_Cons_conv append_Nil append_Cons)
  with Cons.IH show ?case by simp
qed simp

text \<open>An error text matches a list of patterns exactly when some part of it is a word of one of the patterns:
  the backtracking search finds every occurrence, whatever the optional characters, and nothing else.\<close>

theorem error_pattern_matches:
  "buildProviderErrorPattern patterns text \<longleftrightarrow>
   (\<exists>p \<in> set patterns. \<exists>a w b. text = a @ w @ b \<and> w \<in> pattern_words (parse_pattern p))"
  unfolding buildProviderErrorPattern_def list_ex_iff pattern_search_suffix matches_here_words by blast

section \<open>The course of a retried call\<close>

definition transient :: "(nat \<Rightarrow> 'e + assistant_message) \<Rightarrow> nat \<Rightarrow> bool" where
  "transient produce n = (case produce n of Inl _ \<Rightarrow> False | Inr r \<Rightarrow> isRetryableAssistantError r)"

definition call_error :: "(nat \<Rightarrow> 'e + assistant_message) \<Rightarrow> nat \<Rightarrow> string" where
  "call_error produce n = (case produce n of Inl _ \<Rightarrow> [] | Inr r \<Rightarrow> error_text r)"

definition retry_round :: "(nat \<Rightarrow> 'e + assistant_message) \<Rightarrow> nat \<Rightarrow> nat \<Rightarrow> nat \<Rightarrow> retry_event list" where
  "retry_round produce base maxAttempts i =
     [Called, RetryScheduled (Suc i) maxAttempts (base * 2 ^ i) (call_error produce i), RetryAttemptStart]"

definition interrupted :: "(nat \<Rightarrow> 'e + assistant_message) \<Rightarrow> nat \<Rightarrow> nat \<Rightarrow> bool" where
  "interrupted produce maxAttempts k = (k < maxAttempts \<and> transient produce k)"

definition last_events :: "(nat \<Rightarrow> 'e + assistant_message) \<Rightarrow> nat \<Rightarrow> nat \<Rightarrow> nat \<Rightarrow> retry_event list" where
  "last_events produce base maxAttempts k =
     Called # (case produce k of
        Inl _ \<Rightarrow> []
      | Inr r \<Rightarrow>
          if interrupted produce maxAttempts k
          then [RetryScheduled (Suc k) maxAttempts (base * 2 ^ k) (error_text r),
                RetryFinished False (Suc k) (Some (error_text r))]
          else if k = 0 then []
          else [RetryFinished (am_stopReason r \<noteq> StopAborted \<and> am_stopReason r \<noteq> StopError) k
                  (if am_stopReason r = StopError then am_errorMessage r else None)])"

definition last_result :: "(nat \<Rightarrow> 'e + assistant_message) \<Rightarrow> nat \<Rightarrow> nat \<Rightarrow> 'e + assistant_message" where
  "last_result produce maxAttempts k =
     (if interrupted produce maxAttempts k
      then map_sum id (\<lambda>r. r\<lparr>am_stopReason := StopAborted, am_errorMessage := None\<rparr>) (produce k)
      else produce k)"

definition stops_at :: "(nat \<Rightarrow> 'e + assistant_message) \<Rightarrow> (nat \<Rightarrow> bool) \<Rightarrow> nat \<Rightarrow> nat \<Rightarrow> bool" where
  "stops_at produce aborted maxAttempts k =
     (k \<le> maxAttempts \<and> (\<forall>i < k. transient produce i \<and> \<not> aborted (Suc i)) \<and>
      (interrupted produce maxAttempts k \<longrightarrow> aborted (Suc k)))"

lemma retryable_error: "isRetryableAssistantError r \<Longrightarrow> am_stopReason r = StopError"
  by (simp add: isRetryableAssistantError_def split: option.splits)

lemma retry_loop_stop:
  assumes "n \<le> maxAttempts" and "lastRetry = None \<longleftrightarrow> n = 0" and "\<And>a e. lastRetry = Some (a, e) \<Longrightarrow> a = n"
    and "interrupted produce maxAttempts n \<longrightarrow> aborted (Suc n)"
  shows "retry_loop produce aborted base maxAttempts n lastRetry events =
    (last_result produce maxAttempts n, events @ last_events produce base maxAttempts n)"
proof (cases "produce n")
  case (Inl e)
  then show ?thesis by (subst retry_loop.simps) (simp add: last_result_def last_events_def interrupted_def transient_def)
next
  case (Inr r)
  show ?thesis
  proof (cases "interrupted produce maxAttempts n")
    case True
    then have "am_stopReason r = StopError" "isRetryableAssistantError r" "n < maxAttempts"
      using Inr retryable_error by (auto simp: interrupted_def transient_def)
    with Inr True assms(4) show ?thesis
      by (subst retry_loop.simps) (simp add: Let_def last_result_def last_events_def)
  next
    case False
    then have "n \<ge> maxAttempts \<or> \<not> isRetryableAssistantError r" using Inr by (auto simp: interrupted_def transient_def)
    with Inr False assms(2,3) show ?thesis
      by (subst retry_loop.simps) (auto simp: last_result_def last_events_def finished_def split: option.splits)
  qed
qed

lemma retry_loop_next:
  assumes "interrupted produce maxAttempts n" and "\<not> aborted (Suc n)"
  shows "retry_loop produce aborted base maxAttempts n lastRetry events =
    retry_loop produce aborted base maxAttempts (Suc n) (Some (Suc n, call_error produce n))
      (events @ retry_round produce base maxAttempts n)"
proof -
  obtain r where r: "produce n = Inr r" "isRetryableAssistantError r" "n < maxAttempts"
    using assms(1) by (auto simp: interrupted_def transient_def split: sum.splits)
  with retryable_error [OF r(2)] assms(2) show ?thesis
    by (subst retry_loop.simps) (simp add: Let_def retry_round_def call_error_def)
qed

lemma retry_loop_trace:
  assumes "n \<le> maxAttempts" and "lastRetry = None \<longleftrightarrow> n = 0" and "\<And>a e. lastRetry = Some (a, e) \<Longrightarrow> a = n"
    and "\<forall>i < n. transient produce i \<and> \<not> aborted (Suc i)"
  shows "\<exists>k. n \<le> k \<and> stops_at produce aborted maxAttempts k \<and>
    retry_loop produce aborted base maxAttempts n lastRetry events =
      (last_result produce maxAttempts k,
       events @ concat (map (retry_round produce base maxAttempts) [n..<k]) @ last_events produce base maxAttempts k)"
  using assms
proof (induction "maxAttempts - n" arbitrary: n lastRetry events)
  case 0
  then show ?case by (intro exI [of _ n]) (simp add: retry_loop_stop stops_at_def interrupted_def)
next
  case (Suc d)
  show ?case
  proof (cases "interrupted produce maxAttempts n \<and> \<not> aborted (Suc n)")
    case True
    then have "d = maxAttempts - Suc n" "Suc n \<le> maxAttempts" "\<forall>i < Suc n. transient produce i \<and> \<not> aborted (Suc i)"
      using Suc.hyps(2) Suc.prems(4) by (auto simp: interrupted_def less_Suc_eq)
    from Suc.hyps(1) [OF this(1,2) _ _ this(3), of "Some (Suc n, call_error produce n)"
        "events @ retry_round produce base maxAttempts n"]
    obtain k where "Suc n \<le> k" "stops_at produce aborted maxAttempts k"
      "retry_loop produce aborted base maxAttempts (Suc n) (Some (Suc n, call_error produce n))
         (events @ retry_round produce base maxAttempts n) =
       (last_result produce maxAttempts k, (events @ retry_round produce base maxAttempts n) @
          concat (map (retry_round produce base maxAttempts) [Suc n..<k]) @ last_events produce base maxAttempts k)"
      by auto
    then show ?thesis using True by (intro exI [of _ k]) (simp add: retry_loop_next upt_conv_Cons [of n k] del: upt_Suc)
  next
    case False
    with Suc.prems show ?thesis by (intro exI [of _ n]) (simp add: retry_loop_stop stops_at_def)
  qed
qed

definition max_attempts :: "retry_policy option \<Rightarrow> nat" where
  "max_attempts policy = (case policy of Some p \<Rightarrow> if rp_enabled p then rp_maxRetries p else 0 | None \<Rightarrow> 0)"

definition base_delay :: "retry_policy option \<Rightarrow> nat" where
  "base_delay policy = (case policy of Some p \<Rightarrow> rp_baseDelayMs p | None \<Rightarrow> 0)"

text \<open>The course of a retried call.  There is a number \<open>k\<close> of retries, at most the number the policy
  allows, such that the first \<open>k\<close> calls failed with transient errors, the next one did not, or was the last
  allowed, or its backoff was aborted; the result is that of this last call, as an aborted message in the last case;
  and the callbacks see, for each retry, the schedule with the delay doubled each time and the start, then one end.\<close>

theorem retry_course:
  "\<exists>k. stops_at produce aborted (max_attempts policy) k \<and>
    retryAssistantCall produce policy aborted =
      (last_result produce (max_attempts policy) k,
       concat (map (retry_round produce (base_delay policy) (max_attempts policy)) [0..<k]) @
       last_events produce (base_delay policy) (max_attempts policy) k)"
  using retry_loop_trace [of 0 "max_attempts policy" None produce aborted "base_delay policy" "[]"]
  unfolding retryAssistantCall_def max_attempts_def base_delay_def by (simp add: Let_def)

lemma filter_concat_none: "\<forall>x \<in> set xs. filter P (f x) = [] \<Longrightarrow> filter P (concat (map f xs)) = []"
  by (induction xs) auto

lemma filter_concat_one: "\<forall>x \<in> set xs. length (filter P (f x)) = 1 \<Longrightarrow> length (filter P (concat (map f xs))) = length xs"
  by (induction xs) auto

definition is_called :: "retry_event \<Rightarrow> bool" where
  "is_called e = (case e of Called \<Rightarrow> True | _ \<Rightarrow> False)"

definition is_scheduled :: "retry_event \<Rightarrow> bool" where
  "is_scheduled e = (case e of RetryScheduled _ _ _ _ \<Rightarrow> True | _ \<Rightarrow> False)"

definition is_finished :: "retry_event \<Rightarrow> bool" where
  "is_finished e = (case e of RetryFinished _ _ _ \<Rightarrow> True | _ \<Rightarrow> False)"

lemmas event_kinds = is_called_def is_scheduled_def is_finished_def

lemma last_events_counts:
  "length (filter is_called (last_events produce base m k)) = 1"
  "length (filter is_finished (last_events produce base m k)) =
     (case produce k of Inl _ \<Rightarrow> 0 | Inr _ \<Rightarrow> if 0 < k \<or> interrupted produce m k then 1 else 0)"
  "list_ex is_scheduled (last_events produce base m k) = interrupted produce m k"
  by (cases "k = 0"; auto simp: last_events_def event_kinds interrupted_def transient_def split: sum.splits)+

lemma rounds_counts:
  "length (filter is_called (concat (map (retry_round produce base m) [0..<k]))) = k"
  "filter is_finished (concat (map (retry_round produce base m) [0..<k])) = []"
  "list_ex is_scheduled (concat (map (retry_round produce base m) [0..<k])) = (0 < k)"
  using filter_concat_one [of "[0..<k]" is_called "retry_round produce base m"]
  by (auto simp: retry_round_def event_kinds list_ex_iff intro!: filter_concat_none)

text \<open>A retried call ends.  The provider is called at least once and at most once more often than the policy allows
  retries, and unless a call throws, the end is reported exactly once if a retry was scheduled and never otherwise.\<close>

theorem retry_bounded:
  "let (result, events) = retryAssistantCall produce policy aborted in
   1 \<le> length (filter is_called events) \<and> length (filter is_called events) \<le> max_attempts policy + 1 \<and>
   length (filter is_finished events) =
     (case result of Inl _ \<Rightarrow> 0 | Inr _ \<Rightarrow> if list_ex is_scheduled events then 1 else 0)"
proof -
  from retry_loop_trace [of 0 "max_attempts policy" None produce aborted "base_delay policy" "[]"]
  obtain k where k: "stops_at produce aborted (max_attempts policy) k"
    "retryAssistantCall produce policy aborted = (last_result produce (max_attempts policy) k,
       concat (map (retry_round produce (base_delay policy) (max_attempts policy)) [0..<k]) @
       last_events produce (base_delay policy) (max_attempts policy) k)"
    unfolding retryAssistantCall_def max_attempts_def base_delay_def by (auto simp: Let_def)
  have "(case last_result produce (max_attempts policy) k of Inl _ \<Rightarrow> a | Inr _ \<Rightarrow> b) = (case produce k of Inl _ \<Rightarrow> a | Inr _ \<Rightarrow> b)"
    for a b :: nat by (simp add: last_result_def split: sum.split)
  with k show ?thesis by (cases "k = 0") (auto simp: stops_at_def last_events_counts rounds_counts split: sum.split)
qed

end
