(* ===== verification/Summaries.thy ===== *)
theory Summaries
  imports Compaction Retry
begin

text \<open>
  Writing the summaries: the rest of \<^verbatim>\<open>packages/agent/src/harness/compaction/compaction.ts\<close> and
  \<^verbatim>\<open>utils.ts\<close>, with \<^verbatim>\<open>contentText\<close> of \<^verbatim>\<open>packages/ai/src/utils/text.ts\<close>.
  Prompts are JavaScript strings, lists of code units, since cutting a long tool result may split a character.
  The model provider is a parameter: what each attempt at a request gives, and which backoff the signal aborts.
  The fresh session identifier and the time stamp of a request are left out, as nothing reads them here.
\<close>

section \<open>Conversations as text\<close>

definition text_of :: "content_block \<Rightarrow> string option" where
  "text_of b = (case b of TextBlock t \<Rightarrow> Some (tc_text t) | ImageBlock _ \<Rightarrow> None)"

definition contentText :: "user_content \<Rightarrow> string \<Rightarrow> string" where
  "contentText content separator =
     (case content of ContentString s \<Rightarrow> s | ContentBlocks bs \<Rightarrow> js_join separator (List.map_filter text_of bs))"

definition assistant_text_of :: "assistant_block \<Rightarrow> string option" where
  "assistant_text_of b = (case b of AssistantText t \<Rightarrow> Some (tc_text t) | _ \<Rightarrow> None)"

definition assistantText :: "assistant_block list \<Rightarrow> string" where
  "assistantText bs = js_join nl (List.map_filter assistant_text_of bs)"

definition TOOL_RESULT_MAX_CHARS :: nat where
  "TOOL_RESULT_MAX_CHARS = 2000"

definition truncateForSummary :: "js_string \<Rightarrow> nat \<Rightarrow> js_string" where
  "truncateForSummary text maxChars =
     (if length text \<le> maxChars then text
      else take maxChars text @ text_units (nl @ nl @ ''[... '' @ nat_to_string (length text - maxChars)
        @ '' more characters truncated]''))"

text \<open>The arguments of a tool call are a record.\<close>

definition argument_entries :: "json \<Rightarrow> (string \<times> json) list" where
  "argument_entries args = (case args of JObj ps \<Rightarrow> ps | _ \<Rightarrow> [])"

definition call_text :: "(jsnum \<Rightarrow> string) \<Rightarrow> tool_call \<Rightarrow> string" where
  "call_text numText c =
     call_name c @ ''('' @ js_join '', ''
       (map (\<lambda>(k, v). k @ ''='' @ safeJsonStringify numText v) (argument_entries (call_arguments c))) @ '')''"

definition thinking_of :: "assistant_block \<Rightarrow> string option" where
  "thinking_of b = (case b of AssistantThinking t \<Rightarrow> Some (tk_thinking t) | _ \<Rightarrow> None)"

definition assistant_parts :: "(jsnum \<Rightarrow> string) \<Rightarrow> assistant_message \<Rightarrow> string list" where
  "assistant_parts numText m =
     (let thinkingParts = List.map_filter thinking_of (am_content m);
          toolCalls = map (call_text numText) (message_tool_calls m)
      in (if thinkingParts \<noteq> [] then [''[Assistant thinking]: '' @ js_join nl thinkingParts] else [])
         @ (if list_ex (\<lambda>b. assistant_text_of b \<noteq> None) (am_content m)
            then [''[Assistant]: '' @ assistantText (am_content m)] else [])
         @ (if toolCalls \<noteq> [] then [''[Assistant tool calls]: '' @ js_join ''; '' toolCalls] else []))"

fun message_parts :: "(jsnum \<Rightarrow> string) \<Rightarrow> agent_message \<Rightarrow> js_string list" where
  "message_parts numText (UserMessage c _) =
     (let content = contentText c [] in if content \<noteq> [] then [text_units (''[User]: '' @ content)] else [])"
| "message_parts numText (AssistantMessage m) = map text_units (assistant_parts numText m)"
| "message_parts numText (ToolResultMessage m) =
     (let content = contentText (ContentBlocks (tr_content m)) []
      in if content \<noteq> []
         then [text_units ''[Tool result]: '' @ truncateForSummary (text_units content) TOOL_RESULT_MAX_CHARS] else [])"
| "message_parts numText _ = []"

definition serializeConversation :: "(jsnum \<Rightarrow> string) \<Rightarrow> agent_message list \<Rightarrow> js_string" where
  "serializeConversation numText messages =
     js_join (text_units (nl @ nl)) (concat (map (message_parts numText) messages))"

section \<open>Requests for a summary\<close>

definition SUMMARIZATION_SYSTEM_PROMPT :: string where
  "SUMMARIZATION_SYSTEM_PROMPT = js_join nl
     [''You are a context summarization assistant. Your task is to read a conversation between a user and an AI assistant, then produce a structured summary following the exact format specified.'',
      [],
      ''Do NOT continue the conversation. Do NOT respond to any questions in the conversation. ONLY output the structured summary.'']"

definition SUMMARIZATION_PROMPT :: string where
  "SUMMARIZATION_PROMPT = js_join nl
     [''The messages above are a conversation to summarize. Create a structured context checkpoint summary that another LLM will use to continue the work.'',
      [],
      ''Use this EXACT format:'',
      [],
      ''## Goal'',
      ''[What is the user trying to accomplish? Can be multiple items if the session covers different tasks.]'',
      [],
      ''## Constraints & Preferences'',
      ''- [Any constraints, preferences, or requirements mentioned by user]'',
      ''- [Or '' @ quote @ ''(none)'' @ quote @ '' if none were mentioned]'',
      [],
      ''## Progress'',
      ''### Done'',
      ''- [x] [Completed tasks/changes]'',
      [],
      ''### In Progress'',
      ''- [ ] [Current work]'',
      [],
      ''### Blocked'',
      ''- [Issues preventing progress, if any]'',
      [],
      ''## Key Decisions'',
      ''- **[Decision]**: [Brief rationale]'',
      [],
      ''## Next Steps'',
      ''1. [Ordered list of what should happen next]'',
      [],
      ''## Critical Context'',
      ''- [Any data, examples, or references needed to continue]'',
      ''- [Or '' @ quote @ ''(none)'' @ quote @ '' if not applicable]'',
      [],
      ''Keep each section concise. Preserve exact file paths, function names, and error messages.'']"

definition UPDATE_SUMMARIZATION_PROMPT :: string where
  "UPDATE_SUMMARIZATION_PROMPT = js_join nl
     [''The messages above are NEW conversation messages to incorporate into the existing summary provided in <previous-summary> tags.'',
      [],
      ''Update the existing structured summary with new information. RULES:'',
      ''- PRESERVE all existing information from the previous summary'',
      ''- ADD new progress, decisions, and context from the new messages'',
      ''- UPDATE the Progress section: move items from '' @ quote @ ''In Progress'' @ quote @ '' to '' @ quote @ ''Done'' @ quote @ '' when completed'',
      ''- UPDATE '' @ quote @ ''Next Steps'' @ quote @ '' based on what was accomplished'',
      ''- PRESERVE exact file paths, function names, and error messages'',
      ''- If something is no longer relevant, you may remove it'',
      [],
      ''Use this EXACT format:'',
      [],
      ''## Goal'',
      ''[Preserve existing goals, add new ones if the task expanded]'',
      [],
      ''## Constraints & Preferences'',
      ''- [Preserve existing, add new ones discovered]'',
      [],
      ''## Progress'',
      ''### Done'',
      ''- [x] [Include previously done items AND newly completed items]'',
      [],
      ''### In Progress'',
      ''- [ ] [Current work - update based on progress]'',
      [],
      ''### Blocked'',
      ''- [Current blockers - remove if resolved]'',
      [],
      ''## Key Decisions'',
      ''- **[Decision]**: [Brief rationale] (preserve all previous, add new)'',
      [],
      ''## Next Steps'',
      ''1. [Update based on current state]'',
      [],
      ''## Critical Context'',
      ''- [Preserve important context, add new if needed]'',
      [],
      ''Keep each section concise. Preserve exact file paths, function names, and error messages.'']"

definition TURN_PREFIX_SUMMARIZATION_PROMPT :: string where
  "TURN_PREFIX_SUMMARIZATION_PROMPT = js_join nl
     [''This is the PREFIX of a turn that was too large to keep. The SUFFIX (recent work) is retained.'',
      [],
      ''Summarize the prefix to provide context for the retained suffix:'',
      [],
      ''## Original Request'',
      ''[What did the user ask for in this turn?]'',
      [],
      ''## Early Progress'',
      ''- [Key decisions and work done in the prefix]'',
      [],
      ''## Context for Suffix'',
      ''- [Information needed to understand the retained recent work]'',
      [],
      ''Be concise. Focus on what's needed to understand the kept suffix.'']"

record llm_model =
  mdl_maxTokens :: int
  mdl_contextWindow :: int
  mdl_reasoning :: bool

text \<open>The ratios are \<open>0.8\<close> and \<open>0.5\<close>; below \<open>2\<^sup>5\<^sup>0\<close> the floor of the floating-point
  product is that of the exact one.\<close>

definition resolveSummaryMaxTokens :: "llm_model \<Rightarrow> int \<Rightarrow> rat \<Rightarrow> int option \<Rightarrow> int" where
  "resolveSummaryMaxTokens model reserveTokens ratio summaryMaxTokens =
     (let limit = (case summaryMaxTokens of Some n \<Rightarrow> n | None \<Rightarrow> \<lfloor>ratio * of_int reserveTokens\<rfloor>)
      in if mdl_maxTokens model > 0 then min limit (mdl_maxTokens model) else limit)"

record summary_request =
  req_systemPrompt :: string
  req_prompt :: js_string
  req_maxTokens :: int
  req_reasoning :: "string option"

record 'e provider =
  pv_complete :: "summary_request \<Rightarrow> nat \<Rightarrow> 'e + assistant_message"
  pv_aborted :: "summary_request \<Rightarrow> nat \<Rightarrow> bool"

definition completeSimpleWithRetries ::
    "'e provider \<Rightarrow> summary_request \<Rightarrow> retry_policy option \<Rightarrow> 'e + assistant_message" where
  "completeSimpleWithRetries models request retry =
     fst (retryAssistantCall (pv_complete models request) retry (pv_aborted models request))"

definition request_reasoning :: "llm_model \<Rightarrow> string option \<Rightarrow> string option" where
  "request_reasoning model thinkingLevel =
     (case thinkingLevel of
        Some level \<Rightarrow> if mdl_reasoning model \<and> level \<noteq> [] \<and> level \<noteq> ''off'' then Some level else None
      | None \<Rightarrow> None)"

datatype summary_error = SummaryAborted string | SummarizationFailed string

text \<open>\<open>Inl e\<close> is an exception of the provider; the inner sum is the \<^verbatim>\<open>Result\<close> of the source.\<close>

type_synonym ('e, 'a) summary_result = "'e + (summary_error + 'a)"

definition or_text :: "string option \<Rightarrow> string \<Rightarrow> string" where
  "or_text s d = (case s of Some t \<Rightarrow> if t = [] then d else t | None \<Rightarrow> d)"

definition summary_response :: "'e + assistant_message \<Rightarrow> string \<Rightarrow> ('e, string \<times> usage) summary_result" where
  "summary_response response what =
     (case response of
        Inl e \<Rightarrow> Inl e
      | Inr r \<Rightarrow>
          if am_stopReason r = StopAborted then Inr (Inl (SummaryAborted (or_text (am_errorMessage r) (what @ '' aborted''))))
          else if am_stopReason r = StopError
          then Inr (Inl (SummarizationFailed (what @ '' failed: '' @ or_text (am_errorMessage r) ''Unknown error'')))
          else Inr (Inr (assistantText (am_content r), am_usage r)))"

definition summary_prompt ::
    "(jsnum \<Rightarrow> string) \<Rightarrow> agent_message list \<Rightarrow> string option \<Rightarrow> string option \<Rightarrow> js_string" where
  "summary_prompt numText currentMessages customInstructions previousSummary =
     (let basePrompt = (if or_text previousSummary [] \<noteq> [] then UPDATE_SUMMARIZATION_PROMPT else SUMMARIZATION_PROMPT);
          basePrompt' = (if or_text customInstructions [] \<noteq> []
            then basePrompt @ nl @ nl @ ''Additional focus: '' @ or_text customInstructions [] else basePrompt);
          conversationText = serializeConversation numText (convertToLlm currentMessages)
      in text_units (''<conversation>'' @ nl) @ conversationText @ text_units (nl @ ''</conversation>'' @ nl @ nl)
         @ (if or_text previousSummary [] \<noteq> []
            then text_units (''<previous-summary>'' @ nl @ or_text previousSummary [] @ nl @ ''</previous-summary>'' @ nl @ nl)
            else [])
         @ text_units basePrompt')"

definition generateSummaryWithUsage ::
    "(jsnum \<Rightarrow> string) \<Rightarrow> agent_message list \<Rightarrow> 'e provider \<Rightarrow> llm_model \<Rightarrow> int \<Rightarrow> string option \<Rightarrow> string option \<Rightarrow>
     string option \<Rightarrow> retry_policy option \<Rightarrow> int option \<Rightarrow> ('e, string \<times> usage) summary_result" where
  "generateSummaryWithUsage numText currentMessages models model reserveTokens customInstructions previousSummary
     thinkingLevel retry summaryMaxTokens =
     summary_response
       (completeSimpleWithRetries models
         \<lparr>req_systemPrompt = SUMMARIZATION_SYSTEM_PROMPT,
          req_prompt = summary_prompt numText currentMessages customInstructions previousSummary,
          req_maxTokens = resolveSummaryMaxTokens model reserveTokens (4 / 5) summaryMaxTokens,
          req_reasoning = request_reasoning model thinkingLevel\<rparr> retry)
       ''Summarization''"

definition generateSummary ::
    "(jsnum \<Rightarrow> string) \<Rightarrow> agent_message list \<Rightarrow> 'e provider \<Rightarrow> llm_model \<Rightarrow> int \<Rightarrow> string option \<Rightarrow> string option \<Rightarrow>
     string option \<Rightarrow> retry_policy option \<Rightarrow> int option \<Rightarrow> ('e, string) summary_result" where
  "generateSummary numText currentMessages models model reserveTokens customInstructions previousSummary
     thinkingLevel retry summaryMaxTokens =
     map_sum id (map_sum id fst)
       (generateSummaryWithUsage numText currentMessages models model reserveTokens customInstructions previousSummary
          thinkingLevel retry summaryMaxTokens)"

definition generateTurnPrefixSummary ::
    "(jsnum \<Rightarrow> string) \<Rightarrow> agent_message list \<Rightarrow> 'e provider \<Rightarrow> llm_model \<Rightarrow> int \<Rightarrow> string option \<Rightarrow>
     retry_policy option \<Rightarrow> int option \<Rightarrow> ('e, string \<times> usage) summary_result" where
  "generateTurnPrefixSummary numText messages models model reserveTokens thinkingLevel retry summaryMaxTokens =
     summary_response
       (completeSimpleWithRetries models
         \<lparr>req_systemPrompt = SUMMARIZATION_SYSTEM_PROMPT,
          req_prompt = text_units (''<conversation>'' @ nl) @ serializeConversation numText (convertToLlm messages)
            @ text_units (nl @ ''</conversation>'' @ nl @ nl @ TURN_PREFIX_SUMMARIZATION_PROMPT),
          req_maxTokens = resolveSummaryMaxTokens model reserveTokens (1 / 2) summaryMaxTokens,
          req_reasoning = request_reasoning model thinkingLevel\<rparr> retry)
       ''Turn prefix summarization''"

section \<open>Compaction\<close>

definition add_optional :: "int option \<Rightarrow> int option \<Rightarrow> int option" where
  "add_optional a b = (if a \<noteq> None \<or> b \<noteq> None then Some (case_option 0 id a + case_option 0 id b) else None)"

definition combineUsage :: "usage \<Rightarrow> usage \<Rightarrow> usage" where
  "combineUsage first second =
     \<lparr>usage_input = usage_input first + usage_input second,
      usage_output = usage_output first + usage_output second,
      usage_cacheRead = usage_cacheRead first + usage_cacheRead second,
      usage_cacheWrite = usage_cacheWrite first + usage_cacheWrite second,
      usage_cacheWrite1h = add_optional (usage_cacheWrite1h first) (usage_cacheWrite1h second),
      usage_reasoning = add_optional (usage_reasoning first) (usage_reasoning second),
      usage_totalTokens = usage_totalTokens first + usage_totalTokens second,
      usage_cost =
        \<lparr>cost_input = cost_input (usage_cost first) + cost_input (usage_cost second),
         cost_output = cost_output (usage_cost first) + cost_output (usage_cost second),
         cost_cacheRead = cost_cacheRead (usage_cost first) + cost_cacheRead (usage_cost second),
         cost_cacheWrite = cost_cacheWrite (usage_cost first) + cost_cacheWrite (usage_cost second),
         cost_total = cost_total (usage_cost first) + cost_total (usage_cost second)\<rparr>\<rparr>"

record compact_result =
  cr_summary :: string
  cr_tokensBefore :: int
  cr_usage :: usage
  cr_retainedTail :: "agent_message list"
  cr_readFiles :: "string list"
  cr_modifiedFiles :: "string list"

definition sbind :: "('e, 'a) summary_result \<Rightarrow> ('a \<Rightarrow> ('e, 'b) summary_result) \<Rightarrow> ('e, 'b) summary_result" where
  "sbind r f = (case r of Inl e \<Rightarrow> Inl e | Inr (Inl err) \<Rightarrow> Inr (Inl err) | Inr (Inr x) \<Rightarrow> f x)"

definition split_text :: string where
  "split_text = nl @ nl @ ''---'' @ nl @ nl @ ''**Turn Context (split turn):**'' @ nl @ nl"

definition compact_op ::
    "(jsnum \<Rightarrow> string) \<Rightarrow> compaction_preparation \<Rightarrow> 'e provider \<Rightarrow> llm_model \<Rightarrow> string option \<Rightarrow> string option \<Rightarrow>
     retry_policy option \<Rightarrow> ('e, compact_result) summary_result" where
  "compact_op numText preparation models model customInstructions thinkingLevel retry =
     (let settings = prep_settings preparation;
          history = (\<lambda>_ :: unit. generateSummaryWithUsage numText (prep_messagesToSummarize preparation) models model
            (set_reserveTokens settings) customInstructions (prep_previousSummary preparation) thinkingLevel retry
            (set_summaryMaxTokens settings))
      in sbind
        (if prep_isSplitTurn preparation \<and> prep_turnPrefixMessages preparation \<noteq> []
         then
           sbind (if prep_messagesToSummarize preparation \<noteq> []
                  then map_sum id (map_sum id (\<lambda>(text, u). (text, Some u))) (history ())
                  else Inr (Inr (''No prior history.'', None))) (\<lambda>(historyText, historyUsage).
           sbind (generateTurnPrefixSummary numText (prep_turnPrefixMessages preparation) models model
                    (set_reserveTokens settings) thinkingLevel retry (set_summaryMaxTokens settings)) (\<lambda>(prefixText, prefixUsage).
           Inr (Inr (historyText @ split_text @ prefixText,
             case historyUsage of Some u \<Rightarrow> combineUsage u prefixUsage | None \<Rightarrow> prefixUsage))))
         else history ())
        (\<lambda>(summary, summaryUsage).
          let (readFiles, modifiedFiles) = computeFileLists (prep_fileOps preparation)
          in Inr (Inr \<lparr>cr_summary = summary @ formatFileOperations readFiles modifiedFiles,
               cr_tokensBefore = prep_tokensBefore preparation, cr_usage = summaryUsage,
               cr_retainedTail = prep_retainedTail preparation, cr_readFiles = readFiles,
               cr_modifiedFiles = modifiedFiles\<rparr>)))"

section \<open>Providers and results\<close>

lemma sbind_simps [simp]:
  "sbind (Inl e) f = Inl e" "sbind (Inr (Inl err)) f = Inr (Inl err)" "sbind (Inr (Inr x)) f = f x"
  by (simp_all add: sbind_def)

lemma sbind_ok: "sbind r f = Inr (Inr y) \<longleftrightarrow> (\<exists>x. r = Inr (Inr x) \<and> f x = Inr (Inr y))"
  by (auto simp: sbind_def split: sum.splits)

lemma summary_response_ok:
  "summary_response response what = Inr (Inr x) \<longleftrightarrow>
   (\<exists>r. response = Inr r \<and> am_stopReason r \<notin> {StopAborted, StopError} \<and> x = (assistantText (am_content r), am_usage r))"
  by (auto simp: summary_response_def split: sum.splits)

lemma completed_call:
  assumes "completeSimpleWithRetries models request retry = Inr r" and "am_stopReason r \<noteq> StopAborted"
  obtains n where "pv_complete models request n = Inr r"
proof -
  from retry_loop_trace [of 0 "max_attempts retry" None "pv_complete models request" "pv_aborted models request" "base_delay retry" "[]"]
  obtain k where "completeSimpleWithRetries models request retry = last_result (pv_complete models request) (max_attempts retry) k"
    unfolding completeSimpleWithRetries_def retryAssistantCall_def max_attempts_def base_delay_def
    by (auto simp: Let_def)
  with assms that [of k] show thesis
    by (cases "pv_complete models request k") (auto simp: last_result_def split: if_splits)
qed

definition never_completes :: "'e provider \<Rightarrow> bool" where
  "never_completes models =
     (\<forall>request n r. pv_complete models request n = Inr r \<longrightarrow> am_stopReason r = StopError \<or> am_stopReason r = StopAborted)"

lemma never_completes_response:
  assumes "never_completes models"
  shows "summary_response (completeSimpleWithRetries models request retry) what \<noteq> Inr (Inr x)"
  using assms completed_call [of models request retry] unfolding never_completes_def summary_response_ok by blast

lemma never_completes_summary:
  assumes "never_completes models"
  shows "generateSummaryWithUsage numText ms models model reserve custom previous thinking retry limit \<noteq> Inr (Inr x)"
    and "generateTurnPrefixSummary numText ms models model reserve thinking retry limit \<noteq> Inr (Inr x)"
  using never_completes_response [OF assms]
  by (simp_all add: generateSummaryWithUsage_def generateTurnPrefixSummary_def)

text \<open>Without a completed answer there is no compaction.  When every answer of the provider is an error or an
  abort, or every call throws, compaction gives no result, whatever the preparation and the retry policy.\<close>

theorem compaction_needs_completion:
  assumes "never_completes models"
  shows "compact_op numText prep models model custom thinking retry \<noteq> Inr (Inr result)"
  unfolding compact_op_def Let_def
  by (auto simp: sbind_ok never_completes_summary [OF assms] map_sum_def split: if_splits sum.splits)

definition failing_provider :: "unit provider" where
  "failing_provider = \<lparr>pv_complete = \<lambda>_ _. Inl (), pv_aborted = \<lambda>_ _. False\<rparr>"

theorem compaction_needs_completion_witness:
  "\<forall>result. compact_op (\<lambda>_. []) \<lparr>prep_messagesToSummarize = [picture], prep_turnPrefixMessages = [], prep_retainedTail = [],
      prep_isSplitTurn = False, prep_tokensBefore = 0, prep_previousSummary = None, prep_fileOps = createFileOps,
      prep_settings = small_budget\<rparr> failing_provider
     \<lparr>mdl_maxTokens = 0, mdl_contextWindow = 0, mdl_reasoning = False\<rparr> None None None \<noteq> Inr (Inr result)"
  by (intro allI, rule compaction_needs_completion) (simp add: never_completes_def failing_provider_def)

section \<open>The output limit of the model\<close>

definition agree_within :: "int \<Rightarrow> 'e provider \<Rightarrow> 'e provider \<Rightarrow> bool" where
  "agree_within limit p q =
     (\<forall>request. req_maxTokens request \<le> limit \<longrightarrow>
        pv_complete p request = pv_complete q request \<and> pv_aborted p request = pv_aborted q request)"

lemma resolved_limit: "0 < mdl_maxTokens model \<Longrightarrow> resolveSummaryMaxTokens model reserve ratio limit \<le> mdl_maxTokens model"
  by (simp add: resolveSummaryMaxTokens_def Let_def)

lemma agree_within_complete:
  "agree_within limit p q \<Longrightarrow> req_maxTokens request \<le> limit \<Longrightarrow>
   completeSimpleWithRetries p request retry = completeSimpleWithRetries q request retry"
  by (simp add: agree_within_def completeSimpleWithRetries_def)

lemma agree_within_summary:
  assumes "agree_within (mdl_maxTokens model) p q" and "0 < mdl_maxTokens model"
  shows "generateSummaryWithUsage numText ms p model reserve custom previous thinking retry limit =
      generateSummaryWithUsage numText ms q model reserve custom previous thinking retry limit"
    and "generateTurnPrefixSummary numText ms p model reserve thinking retry limit =
      generateTurnPrefixSummary numText ms q model reserve thinking retry limit"
  unfolding generateSummaryWithUsage_def generateTurnPrefixSummary_def
  by (subst agree_within_complete [OF assms(1)]; simp add: resolved_limit [OF assms(2)])+

text \<open>No request for a summary asks for more output than the model has.  The result of a compaction depends only on
  what the provider answers to requests within the output limit of the model, however large the reserve and the
  explicit limit of the settings are.\<close>

theorem requests_within_model_limit:
  assumes "agree_within (mdl_maxTokens model) p q" and "0 < mdl_maxTokens model"
  shows "compact_op numText prep p model custom thinking retry = compact_op numText prep q model custom thinking retry"
  unfolding compact_op_def agree_within_summary [OF assms] ..

theorem requests_within_model_limit_witness:
  "compact_op (\<lambda>_. []) \<lparr>prep_messagesToSummarize = [picture], prep_turnPrefixMessages = [], prep_retainedTail = [],
      prep_isSplitTurn = False, prep_tokensBefore = 0, prep_previousSummary = None, prep_fileOps = createFileOps,
      prep_settings = small_budget\<rparr> failing_provider
     \<lparr>mdl_maxTokens = 100, mdl_contextWindow = 0, mdl_reasoning = False\<rparr> None None None =
   compact_op (\<lambda>_. []) \<lparr>prep_messagesToSummarize = [picture], prep_turnPrefixMessages = [], prep_retainedTail = [],
      prep_isSplitTurn = False, prep_tokensBefore = 0, prep_previousSummary = None, prep_fileOps = createFileOps,
      prep_settings = small_budget\<rparr>
     \<lparr>pv_complete = \<lambda>request _. if req_maxTokens request \<le> 100 then Inl () else Inr silent_assistant, pv_aborted = \<lambda>_ _. False\<rparr>
     \<lparr>mdl_maxTokens = 100, mdl_contextWindow = 0, mdl_reasoning = False\<rparr> None None None"
  by (rule requests_within_model_limit) (simp_all add: agree_within_def failing_provider_def fun_eq_iff)

lemma compact_fields:
  assumes "compact_op numText prep models model custom thinking retry = Inr (Inr r)"
  shows "cr_retainedTail r = prep_retainedTail prep" and "cr_tokensBefore r = prep_tokensBefore prep"
  using assms by (cases "computeFileLists (prep_fileOps prep)"; auto simp: compact_op_def Let_def sbind_ok)+

section \<open>A summary that is forgotten\<close>

lemma prepared_prefix:
  assumes "prepareCompaction numText path settings = Some prep" and "0 < set_keepRecentTokens settings"
    and "prep_messagesToSummarize prep = []"
  shows "prep_turnPrefixMessages prep \<noteq> []"
  using assms by (auto simp: prepareCompaction_def Let_def total_tokens_def split: if_splits)

text \<open>Compacting twice within one turn forgets the first summary.  When the cut splits the first turn after a
  compaction, there is nothing to summarize but the prefix of the turn; the new summary then says that there is no
  prior history and does not depend on the summary of the previous compaction, which it replaces in the context.\<close>

theorem split_first_turn_forgets_summary:
  assumes "prepareCompaction numText path settings = Some prep" and "0 < set_keepRecentTokens settings"
    and "prep_isSplitTurn prep" and "prep_messagesToSummarize prep = []"
    and "compact_op numText prep models model custom thinking retry = Inr (Inr result)"
  shows "compact_op numText (prep\<lparr>prep_previousSummary := other\<rparr>) models model custom thinking retry = Inr (Inr result) \<and>
    (\<exists>rest. cr_summary result = ''No prior history.'' @ split_text @ rest)"
proof -
  have prefix: "prep_turnPrefixMessages prep \<noteq> []" by (rule prepared_prefix [OF assms(1,2,4)])
  have "compact_op numText (prep\<lparr>prep_previousSummary := other\<rparr>) models model custom thinking retry =
      compact_op numText prep models model custom thinking retry"
    using assms(3,4) prefix by (simp add: compact_op_def)
  moreover have "\<exists>rest. cr_summary result = ''No prior history.'' @ split_text @ rest"
    using assms(3-5) prefix
    by (cases "computeFileLists (prep_fileOps prep)") (auto simp: compact_op_def sbind_ok Let_def)
  ultimately show ?thesis using assms(5) by simp
qed

definition compacted_entry :: entry where
  "compacted_entry = payload_entry (CompactionPayload ''the earlier work'' [picture] 0 None None)"

definition note_entry :: entry where
  "note_entry = payload_entry (MessagePayload (CustomMessage \<lparr>cm_customType = ''note'',
     cm_content = ContentBlocks [ImageBlock \<lparr>ic_data = [], ic_mimeType = []\<rparr>], cm_display = True, cm_details = None,
     cm_timestamp = 0\<rparr>) False)"

definition answering_provider :: "unit provider" where
  "answering_provider = \<lparr>pv_complete = \<lambda>_ _. Inr silent_assistant, pv_aborted = \<lambda>_ _. False\<rparr>"

lemma answering_completes: "completeSimpleWithRetries answering_provider request None = Inr silent_assistant"
  unfolding completeSimpleWithRetries_def retryAssistantCall_def answering_provider_def
  by (subst retry_loop.simps) (simp add: silent_assistant_def)

lemma compacted_twice:
  "map_option (\<lambda>p. (prep_isSplitTurn p, prep_messagesToSummarize p, prep_previousSummary p))
     (prepareCompaction (\<lambda>_. []) [compacted_entry, note_entry] small_budget) = Some (True, [], Some ''the earlier work'')"
proof -
  have es: "compactable_entries [compacted_entry, note_entry] (Some 0) = [retained_entry compacted_entry 0 picture, note_entry]"
    by (simp add: compactable_entries_def compaction_tail_def compacted_entry_def payload_entry_def)
  have cut: "findCutPoint (\<lambda>_. []) [retained_entry compacted_entry 0 picture, note_entry] 0 2 1 =
      \<lparr>cp_firstKeptEntryIndex = 1, cp_turnStartIndex = Some 0, cp_isSplitTurn = True\<rparr>"
    by (simp add: findCutPoint_def findValidCutPoints_def upt_conv_Cons ESTIMATED_IMAGE_CHARS_def note_entry_def
        payload_entry_def retained_entry_def valid_cut_def entry_message_def is_user_entry_def findTurnStartIndex_def
        starts_turn_def numeral_2_eq_2)
  have kinds: "entry_kind compacted_entry = CompactionType" "entry_kind note_entry = MessageType"
      "compaction_summary compacted_entry = Some ''the earlier work''"
    by (simp_all add: compacted_entry_def note_entry_def payload_entry_def compaction_summary_def)
  have picture: "getMessageFromEntryForCompaction (retained_entry compacted_entry 0 picture) = Some picture"
    by (simp add: getMessageFromEntryForCompaction_def getMessageFromEntry_def retained_entry_def)
  show ?thesis
    using cut by (simp add: prepareCompaction_def Let_def es small_budget_def numeral_2_eq_2 kinds picture
        messages_between_def List.map_filter_def total_tokens_def ESTIMATED_IMAGE_CHARS_def)
qed


lemma answered: "\<exists>result. compact_op numText prep answering_provider model custom thinking None = Inr (Inr result)"
proof -
  have "summary_response (completeSimpleWithRetries answering_provider request None) what =
      Inr (Inr (assistantText [], am_usage silent_assistant))" for request what
    by (simp add: summary_response_def answering_completes) (simp add: silent_assistant_def)
  then show ?thesis
    by (simp add: compact_op_def Let_def generateSummaryWithUsage_def generateTurnPrefixSummary_def split: prod.split)
qed

theorem split_first_turn_forgets_summary_witness:
  "\<exists>prep result. prepareCompaction (\<lambda>_. []) [compacted_entry, note_entry] small_budget = Some prep \<and>
     prep_previousSummary prep = Some ''the earlier work'' \<and>
     compact_op (\<lambda>_. []) prep answering_provider \<lparr>mdl_maxTokens = 0, mdl_contextWindow = 0, mdl_reasoning = False\<rparr>
       None None None = Inr (Inr result) \<and>
     (\<exists>rest. cr_summary result = ''No prior history.'' @ split_text @ rest)"
proof -
  from compacted_twice obtain prep where p: "prepareCompaction (\<lambda>_. []) [compacted_entry, note_entry] small_budget = Some prep"
    "prep_isSplitTurn prep" "prep_messagesToSummarize prep = []" "prep_previousSummary prep = Some ''the earlier work''"
    by auto
  have keep: "0 < set_keepRecentTokens small_budget" by (simp add: small_budget_def)
  from answered obtain result where
    "compact_op (\<lambda>_. []) prep answering_provider \<lparr>mdl_maxTokens = 0, mdl_contextWindow = 0, mdl_reasoning = False\<rparr>
       None None None = Inr (Inr result)" by blast
  with split_first_turn_forgets_summary [OF p(1) keep p(2,3) this] p show ?thesis by blast
qed

end
