(* ===== verification/Session_State.thy ===== *)
theory Session_State
  imports Session_Types
begin

text \<open>
  \<^verbatim>\<open>packages/agent/src/harness/session/state.ts\<close>: the in-memory session state that every
  storage backend of the harness replays its log into.  The class \<^verbatim>\<open>SessionState\<close> is the
  record \<open>session_state\<close>; each method is a function of it, and a method that throws returns
  \<open>Inl\<close> of its error.  \<^verbatim>\<open>structuredClone\<close> is the identity on these values.
\<close>

section \<open>Mutations and state\<close>

datatype session_mutation =
    EntryMutation "string option" entry
  | RecordMutation lane_record
  | LaneMutation nat string "string option"
  | NameMutation nat "string option"
  | LabelMutation nat string "string option"

record session_state =
  ss_sequence :: nat
  ss_usedIds :: "string set"
  ss_entries :: "entry list"
  ss_entriesById :: "(string \<times> entry) list"
  ss_records :: "lane_record list"
  ss_openOperationsByLane :: "string \<rightharpoonup> (string \<times> lane_record) list"
  ss_lanes :: "lane_pointer list"
  ss_log :: "log_item list"
  ss_stats :: session_stats
  ss_name :: "string option"
  ss_labels :: "string \<rightharpoonup> string"

definition initial_stats :: session_stats where
  "initial_stats = \<lparr>st_messageCount = 0, st_cachedTokens = 0, st_uncachedTokens = 0,
     st_totalTokens = 0, st_costTotal = 0\<rparr>"

definition initial_state :: session_state where
  "initial_state = \<lparr>ss_sequence = 0, ss_usedIds = {}, ss_entries = [], ss_entriesById = [],
     ss_records = [], ss_openOperationsByLane = Map.empty, ss_lanes = [(''main'', None)],
     ss_log = [], ss_stats = initial_stats, ss_name = None, ss_labels = Map.empty\<rparr>"

definition assertValidLimit :: "jsnum option \<Rightarrow> unit session_result" where
  "assertValidLimit limit =
     (case limit of None \<Rightarrow> Inr ()
      | Some x \<Rightarrow> (case js_int x of None \<Rightarrow> Inl InvalidQuery
                   | Some n \<Rightarrow> if n \<le> 0 then Inl InvalidQuery else Inr ()))"

definition assertValidCursor :: "jsnum option \<Rightarrow> unit session_result" where
  "assertValidCursor afterSeq =
     (case afterSeq of None \<Rightarrow> Inr ()
      | Some x \<Rightarrow> (case js_int x of None \<Rightarrow> Inl InvalidQuery
                   | Some n \<Rightarrow> if n < 0 then Inl InvalidQuery else Inr ()))"

definition ordered :: "'a list \<Rightarrow> entry_order option \<Rightarrow> 'a list" where
  "ordered items order = (if order = Some OldestFirst then items else rev items)"

section \<open>Lookups and validation\<close>

definition nextSequence :: "session_state \<Rightarrow> nat" where
  "nextSequence s = ss_sequence s + 1"

definition getLanes :: "session_state \<Rightarrow> lane_pointer list" where
  "getLanes s = ss_lanes s"

definition requireLane :: "session_state \<Rightarrow> string \<Rightarrow> string option session_result" where
  "requireLane s lane =
     (case map_of (ss_lanes s) lane of None \<Rightarrow> Inl InvalidLane | Some leafId \<Rightarrow> Inr leafId)"

definition hasEntry :: "session_state \<Rightarrow> string \<Rightarrow> bool" where
  "hasEntry s i = (map_of (ss_entriesById s) i \<noteq> None)"

definition validateNewLane :: "session_state \<Rightarrow> string \<Rightarrow> unit session_result" where
  "validateNewLane s lane = rcheck AlreadyExists (map_of (ss_lanes s) lane = None)"

definition validateTarget :: "session_state \<Rightarrow> string option \<Rightarrow> unit session_result" where
  "validateTarget s targetId =
     (case targetId of None \<Rightarrow> Inr () | Some i \<Rightarrow> rcheck NotFound (hasEntry s i))"

definition validateUnusedId :: "session_state \<Rightarrow> string \<Rightarrow> unit session_result" where
  "validateUnusedId s i = rcheck AlreadyExists (i \<notin> ss_usedIds s)"

definition getEntry :: "session_state \<Rightarrow> string \<Rightarrow> entry option" where
  "getEntry s i = map_of (ss_entriesById s) i"

definition getName :: "session_state \<Rightarrow> string option" where
  "getName s = ss_name s"

definition getLabel :: "session_state \<Rightarrow> string \<Rightarrow> string option" where
  "getLabel s i = ss_labels s i"

definition getStats :: "session_state \<Rightarrow> session_stats" where
  "getStats s = ss_stats s"

section \<open>Applying a mutation\<close>

fun mutation_seq :: "session_mutation \<Rightarrow> nat" where
  "mutation_seq (EntryMutation _ e) = entry_seq e"
| "mutation_seq (RecordMutation r) = rec_seq r"
| "mutation_seq (LaneMutation n _ _) = n"
| "mutation_seq (NameMutation n _) = n"
| "mutation_seq (LabelMutation n _ _) = n"

definition applyEntry :: "session_state \<Rightarrow> string option \<Rightarrow> entry \<Rightarrow> session_state session_result" where
  "applyEntry s lane e =
     rbind (rcheck InvalidEntry (entry_id e \<notin> ss_usedIds s)) (\<lambda>_.
     rbind (case lane of None \<Rightarrow> Inr ()
            | Some l \<Rightarrow> (case map_of (ss_lanes s) l of None \<Rightarrow> Inl InvalidEntry
                         | Some leafId \<Rightarrow> rcheck InvalidEntry (entry_parentId e = leafId))) (\<lambda>_.
     rbind (case entry_parentId e of None \<Rightarrow> Inr ()
            | Some p \<Rightarrow> rcheck InvalidEntry (hasEntry s p)) (\<lambda>_.
     Inr (s\<lparr>ss_sequence := entry_seq e,
            ss_usedIds := insert (entry_id e) (ss_usedIds s),
            ss_entries := ss_entries s @ [e],
            ss_entriesById := AList.update (entry_id e) e (ss_entriesById s),
            ss_lanes := (case lane of None \<Rightarrow> ss_lanes s
                         | Some l \<Rightarrow> AList.update l (Some (entry_id e)) (ss_lanes s)),
            ss_log := ss_log s @ [EntryItem (entry_seq e) e],
            ss_stats := (if entry_kind e = MessageType
                         then (ss_stats s)\<lparr>st_messageCount := st_messageCount (ss_stats s) + 1\<rparr>
                         else ss_stats s)\<rparr>))))"

definition track_operation ::
    "(string \<rightharpoonup> (string \<times> lane_record) list) \<Rightarrow> lane_record \<Rightarrow> (string \<rightharpoonup> (string \<times> lane_record) list)"
where
  "track_operation ops r =
     (case rec_body r of
        OperationStarted _ _ \<Rightarrow>
          ops(rec_lane r \<mapsto> AList.update (rec_id r) r
               (case ops (rec_lane r) of None \<Rightarrow> [] | Some m \<Rightarrow> m))
      | OperationFinished runId _ _ \<Rightarrow>
          (case ops (rec_lane r) of None \<Rightarrow> ops
           | Some m \<Rightarrow> ops(rec_lane r \<mapsto> AList.delete runId m))
      | _ \<Rightarrow> ops)"

definition add_usage :: "session_stats \<Rightarrow> lane_record \<Rightarrow> session_stats" where
  "add_usage st r =
     (case rec_body r of
        UsageRecord u _ \<Rightarrow>
          st\<lparr>st_cachedTokens := st_cachedTokens st + usage_cacheRead u,
             st_uncachedTokens := st_uncachedTokens st + (usage_input u + usage_cacheWrite u),
             st_totalTokens := st_totalTokens st + usage_totalTokens u,
             st_costTotal := st_costTotal st + cost_total (usage_cost u)\<rparr>
      | _ \<Rightarrow> st)"

definition applyRecord :: "session_state \<Rightarrow> lane_record \<Rightarrow> session_state session_result" where
  "applyRecord s r =
     rbind (rcheck InvalidEntry (map_of (ss_lanes s) (rec_lane r) \<noteq> None)) (\<lambda>_.
     rbind (rcheck InvalidEntry (rec_id r \<notin> ss_usedIds s)) (\<lambda>_.
     Inr (s\<lparr>ss_sequence := rec_seq r,
            ss_usedIds := insert (rec_id r) (ss_usedIds s),
            ss_records := ss_records s @ [r],
            ss_openOperationsByLane := track_operation (ss_openOperationsByLane s) r,
            ss_log := ss_log s @ [RecordItem (rec_seq r) r],
            ss_stats := add_usage (ss_stats s) r\<rparr>)))"

definition applyLane :: "session_state \<Rightarrow> nat \<Rightarrow> string \<Rightarrow> string option \<Rightarrow> session_state session_result" where
  "applyLane s seq lane leafId =
     rbind (case leafId of None \<Rightarrow> Inr () | Some i \<Rightarrow> rcheck InvalidEntry (hasEntry s i)) (\<lambda>_.
     Inr (s\<lparr>ss_sequence := seq,
            ss_lanes := AList.update lane leafId (ss_lanes s),
            ss_log := ss_log s @ [LaneItem seq lane leafId]\<rparr>))"

definition applyName :: "session_state \<Rightarrow> nat \<Rightarrow> string option \<Rightarrow> session_state session_result" where
  "applyName s seq name =
     Inr (s\<lparr>ss_sequence := seq, ss_name := name, ss_log := ss_log s @ [NameItem seq name]\<rparr>)"

definition applyLabel :: "session_state \<Rightarrow> nat \<Rightarrow> string \<Rightarrow> string option \<Rightarrow> session_state session_result" where
  "applyLabel s seq targetId label =
     rbind (rcheck InvalidEntry (hasEntry s targetId)) (\<lambda>_.
     Inr (s\<lparr>ss_sequence := seq,
            ss_labels := (ss_labels s)(targetId := label),
            ss_log := ss_log s @ [LabelItem seq targetId label]\<rparr>))"

definition applyMutation :: "session_state \<Rightarrow> session_mutation \<Rightarrow> session_state session_result" where
  "applyMutation s m =
     rbind (rcheck InvalidEntry (mutation_seq m = ss_sequence s + 1)) (\<lambda>_.
       case m of
         EntryMutation lane e \<Rightarrow> applyEntry s lane e
       | RecordMutation r \<Rightarrow> applyRecord s r
       | LaneMutation seq lane leafId \<Rightarrow> applyLane s seq lane leafId
       | NameMutation seq name \<Rightarrow> applyName s seq name
       | LabelMutation seq targetId label \<Rightarrow> applyLabel s seq targetId label)"

section \<open>Queries\<close>

text \<open>The test \<^verbatim>\<open>results.length === query.limit\<close>.\<close>

definition limit_reached :: "jsnum option \<Rightarrow> nat \<Rightarrow> bool" where
  "limit_reached limit n = (case limit of None \<Rightarrow> False | Some x \<Rightarrow> js_int x = Some (int n))"

text \<open>Comparison of a sequence number with a cursor that passed \<open>assertValidCursor\<close>.\<close>

definition seq_after :: "nat \<Rightarrow> jsnum \<Rightarrow> bool" where
  "seq_after seq c = (case js_int c of None \<Rightarrow> False | Some n \<Rightarrow> n < int seq)"

definition seq_before :: "nat \<Rightarrow> jsnum \<Rightarrow> bool" where
  "seq_before seq c = (case js_int c of None \<Rightarrow> False | Some n \<Rightarrow> int seq < n)"

definition matchesEntryQuery :: "entry \<Rightarrow> entry_query \<Rightarrow> bool" where
  "matchesEntryQuery e q =
     ((case eq_type q of None \<Rightarrow> True | Some t \<Rightarrow> entry_kind e = t) \<and>
      (case eq_customType q of None \<Rightarrow> True
       | Some ct \<Rightarrow> (case entry_payload e of CustomPayload ct' _ \<Rightarrow> ct' = ct | _ \<Rightarrow> False)) \<and>
      (case eq_cursor q of None \<Rightarrow> True
       | Some c \<Rightarrow> if eq_order q = Some OldestFirst then seq_after (entry_seq e) c
                   else seq_before (entry_seq e) c))"

definition matchesRecordQuery :: "lane_record \<Rightarrow> record_query \<Rightarrow> bool" where
  "matchesRecordQuery r q =
     ((case rq_lane q of None \<Rightarrow> True | Some l \<Rightarrow> rec_lane r = l) \<and>
      (case rq_type q of None \<Rightarrow> True | Some t \<Rightarrow> rec_kind r = t) \<and>
      (case rq_runId q of None \<Rightarrow> True
       | Some i \<Rightarrow> if rec_kind r = OperationStartedType then rec_id r = i else rec_runId r = Some i) \<and>
      (case rq_operationKind q of None \<Rightarrow> True
       | Some k \<Rightarrow> (case rec_body r of OperationStarted _ intent \<Rightarrow> intent_kind intent = k | _ \<Rightarrow> False)) \<and>
      (case rq_afterSeq q of None \<Rightarrow> True | Some c \<Rightarrow> seq_after (rec_seq r) c))"

text \<open>
  The collecting loops of \<^verbatim>\<open>findEntries\<close>, \<^verbatim>\<open>findRecords\<close> and \<^verbatim>\<open>getLog\<close>: skip what does not
  match, push, stop when the limit is reached.
\<close>

fun collect :: "('a \<Rightarrow> bool) \<Rightarrow> jsnum option \<Rightarrow> 'a list \<Rightarrow> 'a list \<Rightarrow> 'a list" where
  "collect p limit results [] = results"
| "collect p limit results (x # xs) =
     (if \<not> p x then collect p limit results xs
      else if limit_reached limit (length (results @ [x])) then results @ [x]
      else collect p limit (results @ [x]) xs)"

definition findEntries :: "session_state \<Rightarrow> entry_query \<Rightarrow> entry list session_result" where
  "findEntries s q =
     rbind (assertValidLimit (eq_limit q)) (\<lambda>_.
     rbind (assertValidCursor (eq_cursor q)) (\<lambda>_.
     Inr (collect (\<lambda>e. matchesEntryQuery e q) (eq_limit q) [] (ordered (ss_entries s) (eq_order q)))))"

definition findRecords :: "session_state \<Rightarrow> record_query \<Rightarrow> lane_record list session_result" where
  "findRecords s q =
     rbind (assertValidLimit (rq_limit q)) (\<lambda>_.
     rbind (assertValidCursor (rq_afterSeq q)) (\<lambda>_.
     Inr (collect (\<lambda>r. matchesRecordQuery r q) (rq_limit q) [] (ordered (ss_records s) (rq_order q)))))"

definition findOpenOperations ::
    "session_state \<Rightarrow> string \<Rightarrow> jsnum option \<Rightarrow> lane_record list session_result" where
  "findOpenOperations s lane limit =
     rbind (assertValidLimit limit) (\<lambda>_.
       let openOperations =
             (case ss_openOperationsByLane s lane of None \<Rightarrow> [] | Some m \<Rightarrow> rev (map snd m))
       in Inr (case limit of None \<Rightarrow> openOperations
               | Some x \<Rightarrow> take (nat (the (js_int x))) openOperations))"

definition getLog :: "session_state \<Rightarrow> log_options \<Rightarrow> log_item list session_result" where
  "getLog s options =
     rbind (assertValidLimit (lo_limit options)) (\<lambda>_.
     rbind (assertValidCursor (lo_afterSeq options)) (\<lambda>_.
     Inr (collect (\<lambda>item. case lo_afterSeq options of None \<Rightarrow> True | Some c \<Rightarrow> seq_after (item_seq item) c)
            (lo_limit options) [] (ss_log s))))"

text \<open>
  The generator \<^verbatim>\<open>walkToRoot\<close>: the entries it yields, and the error it throws once they are
  consumed, if it throws one.  A first id that is missing is \<open>NotFound\<close>, a missing parent or
  a cycle \<open>InvalidEntry\<close>.
\<close>

function walk_from ::
    "(string \<times> entry) list \<Rightarrow> (entry \<Rightarrow> bool) \<Rightarrow> string set \<Rightarrow> session_error \<Rightarrow> string \<Rightarrow>
     entry list \<times> session_error option" where
  "walk_from byId stop visited missing i =
     (case map_of byId i of
        None \<Rightarrow> ([], Some missing)
      | Some current \<Rightarrow>
          if entry_id current \<in> visited then ([], Some InvalidEntry)
          else if stop current then ([current], None)
          else (case entry_parentId current of
                  None \<Rightarrow> ([current], None)
                | Some parentId \<Rightarrow>
                    (let (es, err) = walk_from byId stop (insert (entry_id current) visited)
                                       InvalidEntry parentId
                     in (current # es, err))))"
  by pat_completeness auto
termination
proof (relation "measure (\<lambda>(byId, stop, visited, missing, i).
    card ((\<lambda>(k, e). entry_id e) ` set byId - visited))", goal_cases)
  case 1
  then show ?case by simp
next
  case (2 byId stop visited missing i current parentId)
  then have "(i, current) \<in> set byId" and "entry_id current \<notin> visited"
    by (simp_all add: map_of_SomeD)
  then have "entry_id current \<in> (\<lambda>(k, e). entry_id e) ` set byId"
    by (metis (no_types, lifting) case_prod_conv image_eqI)
  with \<open>entry_id current \<notin> visited\<close> show ?case
    by (simp del: card_Diff_insert add: card_Diff_insert_less)
qed

declare walk_from.simps [simp del]

definition at_bound :: "branch_bounds \<Rightarrow> entry \<Rightarrow> bool" where
  "at_bound b e = (bb_stopAtId b = Some (entry_id e) \<or> bb_stopAtType b = Some (entry_kind e))"

definition no_bounds :: branch_bounds where
  "no_bounds = \<lparr>bb_stopAtType = None, bb_stopAtId = None\<rparr>"

definition walkToRoot ::
    "session_state \<Rightarrow> string option \<Rightarrow> branch_bounds \<Rightarrow> entry list \<times> session_error option" where
  "walkToRoot s start bounds =
     (case start of None \<Rightarrow> ([], None)
      | Some i \<Rightarrow> walk_from (ss_entriesById s) (at_bound bounds) {} NotFound i)"

text \<open>
  The scanning loop of \<^verbatim>\<open>findEntriesOnBranch\<close>: results and whether the loop was left by
  \<^verbatim>\<open>break\<close>.  Leaving it early never reaches the error of the generator.
\<close>

fun scan :: "(entry \<Rightarrow> bool) \<Rightarrow> (entry \<Rightarrow> bool) \<Rightarrow> jsnum option \<Rightarrow> entry list \<Rightarrow> entry list \<Rightarrow> entry list \<times> bool" where
  "scan p bound limit results [] = (results, False)"
| "scan p bound limit results (x # xs) =
     (let results' = (if p x then results @ [x] else results)
      in if bound x \<or> limit_reached limit (length results') then (results', True)
         else scan p bound limit results' xs)"

definition findEntriesOnBranch ::
    "session_state \<Rightarrow> entry_query \<Rightarrow> branch_bounds \<Rightarrow> string \<Rightarrow> entry list session_result" where
  "findEntriesOnBranch s q b start =
     rbind (assertValidLimit (eq_limit q)) (\<lambda>_.
     rbind (assertValidCursor (eq_cursor q)) (\<lambda>_.
       if eq_order q = Some OldestFirst
       then (case walkToRoot s (Some start) no_bounds of
               (es, Some err) \<Rightarrow> Inl err
             | (es, None) \<Rightarrow>
                 Inr (fst (scan (\<lambda>e. matchesEntryQuery e q) (at_bound b) (eq_limit q) [] (rev es))))
       else (case walkToRoot s (Some start) b of
               (es, err) \<Rightarrow>
                 (case scan (\<lambda>e. matchesEntryQuery e q) (\<lambda>_. False) (eq_limit q) [] es of
                    (results, broke) \<Rightarrow>
                      (case err of None \<Rightarrow> Inr results
                       | Some e \<Rightarrow> if broke then Inr results else Inl e)))))"

section \<open>Forking\<close>

definition all_entries_query :: entry_query where
  "all_entries_query = \<lparr>eq_type = None, eq_customType = None, eq_order = Some OldestFirst,
     eq_limit = None, eq_cursor = None\<rparr>"

definition fork_target :: "session_state \<Rightarrow> string option \<Rightarrow> fork_position option \<Rightarrow> string option session_result" where
  "fork_target s entryId position =
     rbind (case entryId of Some i \<Rightarrow> Inr (Some i) | None \<Rightarrow> requireLane s ''main'') (\<lambda>selected.
       case selected of
         None \<Rightarrow> Inr None
       | Some i \<Rightarrow>
           (case getEntry s i of
              None \<Rightarrow> Inl InvalidForkTarget
            | Some e \<Rightarrow>
                if entry_kind e \<noteq> MessageType then Inl InvalidForkTarget
                else Inr (case (case position of Some p \<Rightarrow> p
                                | None \<Rightarrow> if entryId = None then ForkAt else ForkBefore) of
                            ForkAt \<Rightarrow> Some (entry_id e)
                          | ForkBefore \<Rightarrow> entry_parentId e)))"

definition fork_selection :: "session_state \<Rightarrow> fork_options \<Rightarrow> (entry list \<times> lane_pointer list) session_result" where
  "fork_selection s options =
     (case options of
        ForkTree \<Rightarrow> rbind (findEntries s all_entries_query) (\<lambda>es. Inr (es, getLanes s))
      | ForkBranch entryId position \<Rightarrow>
          rbind (fork_target s entryId position) (\<lambda>targetId.
          rbind (case targetId of None \<Rightarrow> Inr []
                 | Some i \<Rightarrow> findEntriesOnBranch s all_entries_query no_bounds i) (\<lambda>es.
          Inr (es, [(''main'', targetId)]))))"

fun fork_entries :: "nat \<Rightarrow> entry list \<Rightarrow> session_mutation list" where
  "fork_entries n [] = []"
| "fork_entries n (e # es) = EntryMutation None (e\<lparr>entry_seq := n\<rparr>) # fork_entries (Suc n) es"

fun fork_lanes :: "nat \<Rightarrow> lane_pointer list \<Rightarrow> session_mutation list" where
  "fork_lanes n [] = []"
| "fork_lanes n ((lane, leafId) # ps) = LaneMutation n lane leafId # fork_lanes (Suc n) ps"

fun fork_labels :: "nat \<Rightarrow> (string \<rightharpoonup> string) \<Rightarrow> entry list \<Rightarrow> session_mutation list" where
  "fork_labels n labels [] = []"
| "fork_labels n labels (e # es) =
     (case labels (entry_id e) of
        None \<Rightarrow> fork_labels n labels es
      | Some label \<Rightarrow> LabelMutation n (entry_id e) (Some label) # fork_labels (Suc n) labels es)"

definition createForkMutations :: "session_state \<Rightarrow> fork_options \<Rightarrow> session_mutation list session_result" where
  "createForkMutations s options =
     rbind (fork_selection s options) (\<lambda>(copied, lanes).
       let n1 = 1 + length copied;
           n2 = n1 + length lanes;
           names = (case ss_name s of None \<Rightarrow> [] | Some nm \<Rightarrow> [NameMutation n2 (Some nm)]);
           n3 = n2 + length names
       in Inr (fork_entries 1 copied @ fork_lanes n1 lanes @ names @ fork_labels n3 (ss_labels s) copied))"

section \<open>The collecting loops compute a filtered prefix\<close>

definition limit_nat :: "jsnum option \<Rightarrow> nat option" where
  "limit_nat limit = map_option (\<lambda>x. nat (the (js_int x))) limit"

lemma assertValidLimit_ok:
  "assertValidLimit limit = Inr u \<longleftrightarrow>
   (case limit of None \<Rightarrow> True | Some x \<Rightarrow> (\<exists>n. js_int x = Some n \<and> 0 < n))"
  by (auto simp: assertValidLimit_def split: option.splits)

lemma assertValidCursor_ok:
  "assertValidCursor c = Inr u \<longleftrightarrow>
   (case c of None \<Rightarrow> True | Some x \<Rightarrow> (\<exists>n. js_int x = Some n \<and> 0 \<le> n))"
  by (auto simp: assertValidCursor_def split: option.splits)

lemma assertValidLimit_None [simp]: "assertValidLimit None = Inr ()"
  by (simp add: assertValidLimit_def)

lemma assertValidCursor_None [simp]: "assertValidCursor None = Inr ()"
  by (simp add: assertValidCursor_def)

definition below_limit :: "jsnum option \<Rightarrow> nat \<Rightarrow> bool" where
  "below_limit limit n = (case limit_nat limit of None \<Rightarrow> True | Some k \<Rightarrow> n < k)"

lemma below_limit_0: "assertValidLimit limit = Inr () \<Longrightarrow> below_limit limit 0"
  by (auto simp: assertValidLimit_ok below_limit_def limit_nat_def split: option.splits)

lemma limit_reached_Suc:
  "assertValidLimit limit = Inr () \<Longrightarrow> below_limit limit n \<Longrightarrow>
   limit_reached limit (Suc n) \<longleftrightarrow> \<not> below_limit limit (Suc n)"
  by (auto simp: assertValidLimit_ok below_limit_def limit_nat_def limit_reached_def split: option.splits)

lemma limit_reached_below: "below_limit limit n \<Longrightarrow> assertValidLimit limit = Inr () \<Longrightarrow> \<not> limit_reached limit n"
  by (auto simp: assertValidLimit_ok below_limit_def limit_nat_def limit_reached_def split: option.splits)

definition rest_limit :: "jsnum option \<Rightarrow> nat \<Rightarrow> nat option" where
  "rest_limit limit n = map_option (\<lambda>k. k - n) (limit_nat limit)"

lemma rest_limit_0 [simp]: "rest_limit limit 0 = limit_nat limit"
  by (cases "limit_nat limit") (auto simp: rest_limit_def)

lemma take_rest_Cons:
  "below_limit limit n \<Longrightarrow>
   take_opt (rest_limit limit n) (x # xs) = x # take_opt (rest_limit limit (Suc n)) xs"
  by (auto simp: rest_limit_def below_limit_def take_Cons' split: option.splits)

lemma take_rest_full: "\<not> below_limit limit n \<Longrightarrow> take_opt (rest_limit limit n) xs = []"
  by (auto simp: rest_limit_def below_limit_def split: option.splits)

lemma collect_acc:
  assumes "assertValidLimit limit = Inr ()" and "below_limit limit (length acc)"
  shows "collect p limit acc xs = acc @ take_opt (rest_limit limit (length acc)) (filter p xs)"
  using assms
proof (induction xs arbitrary: acc)
  case Nil
  then show ?case by (cases "rest_limit limit (length acc)") auto
next
  case (Cons x xs)
  then show ?case
    by (auto simp: limit_reached_Suc take_rest_Cons take_rest_full)
qed

lemma collect_eq:
  "assertValidLimit limit = Inr () \<Longrightarrow>
   collect p limit [] xs = take_opt (limit_nat limit) (filter p xs)"
  by (simp add: collect_acc below_limit_0)

lemma scan_acc:
  assumes "assertValidLimit limit = Inr ()" and "below_limit limit (length acc)"
  shows "fst (scan p bound limit acc xs)
       = acc @ take_opt (rest_limit limit (length acc)) (filter p (take_until bound xs))"
  using assms
proof (induction xs arbitrary: acc)
  case Nil
  then show ?case by (cases "rest_limit limit (length acc)") auto
next
  case (Cons x xs)
  show ?case
  proof (cases "p x")
    case True
    with Cons show ?thesis
      by (auto simp: Let_def limit_reached_Suc take_rest_Cons take_rest_full)
        (cases "rest_limit limit (Suc (length acc))"; simp)+
  next
    case False
    with Cons show ?thesis
      by (auto simp: Let_def limit_reached_below)
         (cases "rest_limit limit (length acc)"; simp)
  qed
qed

lemma scan_eq:
  "assertValidLimit limit = Inr () \<Longrightarrow>
   fst (scan p bound limit [] xs) = take_opt (limit_nat limit) (filter p (take_until bound xs))"
  by (simp add: scan_acc below_limit_0)

lemma findEntries_eq:
  assumes "assertValidLimit (eq_limit q) = Inr ()" and "assertValidCursor (eq_cursor q) = Inr ()"
  shows "findEntries s q = Inr (take_opt (limit_nat (eq_limit q))
           (filter (\<lambda>e. matchesEntryQuery e q) (ordered (ss_entries s) (eq_order q))))"
  using assms by (simp add: findEntries_def collect_eq)

lemma findRecords_eq:
  assumes "assertValidLimit (rq_limit q) = Inr ()" and "assertValidCursor (rq_afterSeq q) = Inr ()"
  shows "findRecords s q = Inr (take_opt (limit_nat (rq_limit q))
           (filter (\<lambda>r. matchesRecordQuery r q) (ordered (ss_records s) (rq_order q))))"
  using assms by (simp add: findRecords_def collect_eq)

section \<open>Well-formed states\<close>

fun parents_closed :: "string set \<Rightarrow> entry list \<Rightarrow> bool" where
  "parents_closed known [] = True"
| "parents_closed known (e # es) =
     ((case entry_parentId e of None \<Rightarrow> True | Some p \<Rightarrow> p \<in> known) \<and>
      parents_closed (insert (entry_id e) known) es)"

lemma parents_closed_append:
  "parents_closed known (xs @ ys) \<longleftrightarrow>
   parents_closed known xs \<and> parents_closed (known \<union> entry_id ` set xs) ys"
  by (induction xs arbitrary: known) auto

lemma parents_closed_mono: "parents_closed known xs \<Longrightarrow> known \<subseteq> known' \<Longrightarrow> parents_closed known' xs"
  by (induction xs arbitrary: known known') (auto split: option.splits, (meson insert_mono)+)

text \<open>Started operations of a lane that no later record of the lane finishes.\<close>

definition starts_in :: "string \<Rightarrow> lane_record \<Rightarrow> bool" where
  "starts_in lane r = (rec_lane r = lane \<and> rec_kind r = OperationStartedType)"

definition finishes_in :: "string \<Rightarrow> string \<Rightarrow> lane_record \<Rightarrow> bool" where
  "finishes_in lane i r =
     (rec_lane r = lane \<and> (case rec_body r of OperationFinished runId _ _ \<Rightarrow> runId = i | _ \<Rightarrow> False))"

fun open_in :: "string \<Rightarrow> lane_record list \<Rightarrow> lane_record list" where
  "open_in lane [] = []"
| "open_in lane (r # rs) =
     (if starts_in lane r \<and> \<not> (\<exists>f \<in> set rs. finishes_in lane (rec_id r) f)
      then r # open_in lane rs else open_in lane rs)"

lemma open_in_snoc:
  "open_in lane (rs @ [r]) =
   filter (\<lambda>x. \<not> finishes_in lane (rec_id x) r) (open_in lane rs) @ (if starts_in lane r then [r] else [])"
  by (induction rs) auto

lemma set_open_in: "set (open_in lane rs) \<subseteq> {r \<in> set rs. starts_in lane r}"
  by (induction rs) auto

definition entry_ids :: "session_state \<Rightarrow> string set" where
  "entry_ids s = entry_id ` set (ss_entries s)"

fun log_entry :: "log_item \<Rightarrow> entry option" where
  "log_entry (EntryItem _ e) = Some e"
| "log_entry _ = None"

fun log_record :: "log_item \<Rightarrow> lane_record option" where
  "log_record (RecordItem _ r) = Some r"
| "log_record _ = None"

fun item_consistent :: "log_item \<Rightarrow> bool" where
  "item_consistent (EntryItem n e) = (entry_seq e = n)"
| "item_consistent (RecordItem n r) = (rec_seq r = n)"
| "item_consistent _ = True"

definition wf_ids :: "session_state \<Rightarrow> bool" where
  "wf_ids s \<longleftrightarrow> distinct (map entry_id (ss_entries s) @ map rec_id (ss_records s)) \<and>
     ss_usedIds s = entry_ids s \<union> rec_id ` set (ss_records s) \<and>
     ss_entriesById s = map (\<lambda>e. (entry_id e, e)) (ss_entries s)"

definition wf_tree :: "session_state \<Rightarrow> bool" where
  "wf_tree s \<longleftrightarrow> parents_closed {} (ss_entries s) \<and>
     distinct (map fst (ss_lanes s)) \<and> ''main'' \<in> fst ` set (ss_lanes s) \<and>
     (\<forall>i. Some i \<in> snd ` set (ss_lanes s) \<longrightarrow> i \<in> entry_ids s) \<and>
     dom (ss_labels s) \<subseteq> entry_ids s"

definition wf_log :: "session_state \<Rightarrow> bool" where
  "wf_log s \<longleftrightarrow> map item_seq (ss_log s) = [1..<Suc (ss_sequence s)] \<and>
     list_all item_consistent (ss_log s) \<and>
     List.map_filter log_entry (ss_log s) = ss_entries s \<and>
     List.map_filter log_record (ss_log s) = ss_records s"

definition wf_operations :: "session_state \<Rightarrow> bool" where
  "wf_operations s \<longleftrightarrow>
     (\<forall>lane. (case ss_openOperationsByLane s lane of None \<Rightarrow> [] | Some m \<Rightarrow> m)
             = map (\<lambda>r. (rec_id r, r)) (open_in lane (ss_records s)))"

definition wf_stats :: "session_state \<Rightarrow> bool" where
  "wf_stats s \<longleftrightarrow>
     st_messageCount (ss_stats s) = length (filter (\<lambda>e. entry_kind e = MessageType) (ss_entries s))"

definition wf_state :: "session_state \<Rightarrow> bool" where
  "wf_state s \<longleftrightarrow> wf_ids s \<and> wf_tree s \<and> wf_log s \<and> wf_operations s \<and> wf_stats s"

lemmas wf_defs = wf_ids_def wf_tree_def wf_log_def wf_operations_def wf_stats_def entry_ids_def

lemma wf_initial: "wf_state initial_state"
  by (simp add: wf_state_def wf_defs initial_state_def initial_stats_def List.map_filter_def)

lemma hasEntry_iff: "wf_ids s \<Longrightarrow> hasEntry s i \<longleftrightarrow> i \<in> entry_ids s"
  by (auto simp: hasEntry_def wf_defs map_of_map_key_None)

section \<open>Every mutation keeps the state well formed\<close>

lemma lane_update_targets:
  assumes "\<forall>i. Some i \<in> snd ` set lanes \<longrightarrow> i \<in> A" and "A \<subseteq> B" and "\<And>i. leaf = Some i \<Longrightarrow> i \<in> B"
  shows "\<forall>i. Some i \<in> snd ` set (AList.update l leaf lanes) \<longrightarrow> i \<in> B"
  using assms(1) by (induction lanes) (use assms(2,3) in auto)

lemma fst_set_update: "fst ` set (AList.update l v lanes) = insert l (fst ` set lanes)"
  by (induction lanes) auto

lemma upt_snoc_Suc: "map f xs = [1..<Suc n] \<Longrightarrow> f x = Suc n \<Longrightarrow> map f (xs @ [x]) = [1..<Suc (Suc n)]"
  by simp

lemma map_filter_snoc:
  "List.map_filter f (xs @ [x]) = List.map_filter f xs @ (case f x of None \<Rightarrow> [] | Some y \<Rightarrow> [y])"
  by (induction xs) (auto simp: List.map_filter_simps split: option.splits)

lemma applyEntry_cases:
  assumes "applyEntry s lane e = Inr s'"
  obtains "entry_id e \<notin> ss_usedIds s"
    and "\<And>l. lane = Some l \<Longrightarrow> map_of (ss_lanes s) l = Some (entry_parentId e)"
    and "\<And>p. entry_parentId e = Some p \<Longrightarrow> hasEntry s p"
    and "s' = s\<lparr>ss_sequence := entry_seq e,
            ss_usedIds := insert (entry_id e) (ss_usedIds s),
            ss_entries := ss_entries s @ [e],
            ss_entriesById := AList.update (entry_id e) e (ss_entriesById s),
            ss_lanes := (case lane of None \<Rightarrow> ss_lanes s
                         | Some l \<Rightarrow> AList.update l (Some (entry_id e)) (ss_lanes s)),
            ss_log := ss_log s @ [EntryItem (entry_seq e) e],
            ss_stats := (if entry_kind e = MessageType
                         then (ss_stats s)\<lparr>st_messageCount := st_messageCount (ss_stats s) + 1\<rparr>
                         else ss_stats s)\<rparr>"
  using assms by (auto simp: applyEntry_def split: option.splits)

lemma wf_log_snoc:
  assumes "wf_log s" and "item_seq it = Suc (ss_sequence s)" and "item_consistent it"
    and "ss_sequence s' = Suc (ss_sequence s)" and "ss_log s' = ss_log s @ [it]"
    and "ss_entries s' = ss_entries s @ (case log_entry it of None \<Rightarrow> [] | Some e \<Rightarrow> [e])"
    and "ss_records s' = ss_records s @ (case log_record it of None \<Rightarrow> [] | Some r \<Rightarrow> [r])"
  shows "wf_log s'"
  using assms by (simp add: wf_log_def map_filter_snoc)

lemma wf_parts:
  assumes "wf_state s"
  shows "wf_ids s" "wf_tree s" "wf_log s" "wf_operations s" "wf_stats s"
  using assms by (simp_all add: wf_state_def)

lemma wf_applyEntry:
  assumes wf: "wf_state s" and seq: "entry_seq e = Suc (ss_sequence s)" and ok: "applyEntry s lane e = Inr s'"
  shows "wf_state s'"
proof (rule applyEntry_cases [OF ok], goal_cases)
  case 1
  note unused = 1(1) and parent = 1(3) and s' = 1(4)
  note parts = wf_parts [OF wf]
  have new: "entry_id e \<notin> entry_id ` set (ss_entries s)" "entry_id e \<notin> rec_id ` set (ss_records s)"
    using unused parts(1) by (auto simp: wf_ids_def entry_ids_def)
  have "wf_ids s'"
    using parts(1) new by (auto simp: s' wf_ids_def entry_ids_def alist_update_new image_image)
  moreover have closed: "parents_closed {} (ss_entries s @ [e])"
    using parts(2) parent hasEntry_iff [OF parts(1)]
    by (auto simp: wf_tree_def entry_ids_def parents_closed_append split: option.splits)
  have "\<forall>i. Some i \<in> snd ` set (ss_lanes s') \<longrightarrow> i \<in> insert (entry_id e) (entry_ids s)"
  proof (cases lane)
    case None
    with parts(2) show ?thesis by (auto simp: s' wf_tree_def)
  next
    case (Some l)
    have "\<forall>i. Some i \<in> snd ` set (AList.update l (Some (entry_id e)) (ss_lanes s)) \<longrightarrow>
        i \<in> insert (entry_id e) (entry_ids s)"
      using parts(2) by (intro lane_update_targets [where A = "entry_ids s"]) (auto simp: wf_tree_def)
    with Some show ?thesis by (simp add: s')
  qed
  with closed have "wf_tree s'"
    using parts(2) by (auto simp: s' wf_tree_def entry_ids_def distinct_update fst_set_update split: option.splits)
  moreover have "wf_log s'"
    using seq by (intro wf_log_snoc [OF parts(3), of "EntryItem (entry_seq e) e"]) (simp_all add: s')
  moreover have "wf_operations s'" and "wf_stats s'"
    using parts(4,5) by (simp_all add: s' wf_operations_def wf_stats_def)
  ultimately show ?case by (simp add: wf_state_def)
qed

lemma wf_applyLane:
  assumes wf: "wf_state s" and seq: "n = Suc (ss_sequence s)" and ok: "applyLane s n lane leafId = Inr s'"
  shows "wf_state s'"
proof -
  note parts = wf_parts [OF wf]
  have leaf: "\<And>i. leafId = Some i \<Longrightarrow> i \<in> entry_ids s"
    using ok hasEntry_iff [OF parts(1)] by (auto simp: applyLane_def split: option.splits)
  have s': "s' = s\<lparr>ss_sequence := n, ss_lanes := AList.update lane leafId (ss_lanes s),
              ss_log := ss_log s @ [LaneItem n lane leafId]\<rparr>"
    using ok by (auto simp: applyLane_def)
  have "\<forall>i. Some i \<in> snd ` set (AList.update lane leafId (ss_lanes s)) \<longrightarrow> i \<in> entry_ids s"
    using parts(2) leaf by (intro lane_update_targets [where A = "entry_ids s"]) (auto simp: wf_tree_def)
  then have "wf_tree s'"
    using parts(2) by (simp add: s' wf_tree_def entry_ids_def distinct_update fst_set_update)
  moreover have "wf_log s'"
    using seq by (intro wf_log_snoc [OF parts(3), of "LaneItem n lane leafId"]) (simp_all add: s')
  moreover have "wf_ids s'" "wf_operations s'" "wf_stats s'"
    using parts by (simp_all add: s' wf_ids_def entry_ids_def wf_operations_def wf_stats_def)
  ultimately show ?thesis by (simp add: wf_state_def)
qed

lemma wf_applyName:
  assumes wf: "wf_state s" and seq: "n = Suc (ss_sequence s)" and ok: "applyName s n name = Inr s'"
  shows "wf_state s'"
proof -
  note parts = wf_parts [OF wf]
  have s': "s' = s\<lparr>ss_sequence := n, ss_name := name, ss_log := ss_log s @ [NameItem n name]\<rparr>"
    using ok by (auto simp: applyName_def)
  have "wf_log s'"
    using seq by (intro wf_log_snoc [OF parts(3), of "NameItem n name"]) (simp_all add: s')
  moreover have "wf_ids s'" "wf_tree s'" "wf_operations s'" "wf_stats s'"
    using parts by (simp_all add: s' wf_ids_def wf_tree_def entry_ids_def wf_operations_def wf_stats_def)
  ultimately show ?thesis by (simp add: wf_state_def)
qed

lemma wf_applyLabel:
  assumes wf: "wf_state s" and seq: "n = Suc (ss_sequence s)" and ok: "applyLabel s n i label = Inr s'"
  shows "wf_state s'"
proof -
  note parts = wf_parts [OF wf]
  have i: "i \<in> entry_ids s"
    using ok hasEntry_iff [OF parts(1)] by (auto simp: applyLabel_def)
  have s': "s' = s\<lparr>ss_sequence := n, ss_labels := (ss_labels s)(i := label),
              ss_log := ss_log s @ [LabelItem n i label]\<rparr>"
    using ok by (auto simp: applyLabel_def)
  have "wf_tree s'"
    using parts(2) i by (auto simp: s' wf_tree_def entry_ids_def split: if_splits)
  moreover have "wf_log s'"
    using seq by (intro wf_log_snoc [OF parts(3), of "LabelItem n i label"]) (simp_all add: s')
  moreover have "wf_ids s'" "wf_operations s'" "wf_stats s'"
    using parts by (simp_all add: s' wf_ids_def entry_ids_def wf_operations_def wf_stats_def)
  ultimately show ?thesis by (simp add: wf_state_def)
qed

lemma alist_delete_keyed:
  "AList.delete i (map (\<lambda>r. (f r, r)) rs) = map (\<lambda>r. (f r, r)) (filter (\<lambda>r. f r \<noteq> i) rs)"
  by (induction rs) auto

lemma track_operation_open:
  assumes "\<forall>lane. (case ops lane of None \<Rightarrow> [] | Some m \<Rightarrow> m) = map (\<lambda>r. (rec_id r, r)) (open_in lane rs)"
    and "rec_id r \<notin> rec_id ` set rs"
  shows "(case track_operation ops r lane of None \<Rightarrow> [] | Some m \<Rightarrow> m)
         = map (\<lambda>r. (rec_id r, r)) (open_in lane (rs @ [r]))"
proof -
  have old: "(case ops l of None \<Rightarrow> [] | Some m \<Rightarrow> m) = map (\<lambda>r. (rec_id r, r)) (open_in l rs)" for l
    using assms(1) by blast
  have fresh: "rec_id r \<notin> fst ` set (map (\<lambda>r. (rec_id r, r)) (open_in l rs))" for l
    using assms(2) set_open_in [of l rs] by (auto simp: image_iff)
  show ?thesis
  proof (cases "rec_body r")
    case (OperationStarted x1 x2)
    then show ?thesis
      using old [of lane] old [of "rec_lane r"] fresh
      by (auto simp: track_operation_def open_in_snoc starts_in_def finishes_in_def alist_update_new)
  next
    case (OperationFinished runId x2 x3)
    then have flt: "filter (\<lambda>x. \<not> finishes_in lane (rec_id x) r) xs
        = (if rec_lane r = lane then filter (\<lambda>x. rec_id x \<noteq> runId) xs else xs)" for xs
      by (auto simp: finishes_in_def intro!: filter_cong)
    from OperationFinished show ?thesis
      using old [of lane]
      by (cases "ops (rec_lane r)")
        (auto simp: track_operation_def open_in_snoc flt starts_in_def alist_delete_keyed split: option.splits)
  qed (use old [of lane] in \<open>auto simp: track_operation_def open_in_snoc starts_in_def finishes_in_def\<close>)
qed

lemma add_usage_count: "st_messageCount (add_usage st r) = st_messageCount st"
  by (simp add: add_usage_def split: record_body.splits)

lemma wf_applyRecord:
  assumes wf: "wf_state s" and seq: "rec_seq r = Suc (ss_sequence s)" and ok: "applyRecord s r = Inr s'"
  shows "wf_state s'"
proof -
  have unused: "rec_id r \<notin> ss_usedIds s" and s': "s' = s\<lparr>ss_sequence := rec_seq r,
            ss_usedIds := insert (rec_id r) (ss_usedIds s),
            ss_records := ss_records s @ [r],
            ss_openOperationsByLane := track_operation (ss_openOperationsByLane s) r,
            ss_log := ss_log s @ [RecordItem (rec_seq r) r],
            ss_stats := add_usage (ss_stats s) r\<rparr>"
    using ok by (auto simp: applyRecord_def)
  note parts = wf_parts [OF wf]
  have new: "rec_id r \<notin> entry_id ` set (ss_entries s)" "rec_id r \<notin> rec_id ` set (ss_records s)"
    using unused parts(1) by (auto simp: wf_ids_def entry_ids_def)
  have "wf_operations s'"
    using parts(4) new(2) track_operation_open by (auto simp: s' wf_operations_def)
  moreover have "wf_log s'"
    using seq by (intro wf_log_snoc [OF parts(3), of "RecordItem (rec_seq r) r"]) (simp_all add: s')
  moreover have "wf_ids s'"
    using parts(1) new by (auto simp: s' wf_ids_def entry_ids_def)
  moreover have "wf_tree s'" "wf_stats s'"
    using parts by (simp_all add: s' wf_tree_def wf_stats_def entry_ids_def add_usage_count)
  ultimately show ?thesis by (simp add: wf_state_def)
qed

lemma wf_applyMutation:
  assumes "wf_state s" and "applyMutation s m = Inr s'"
  shows "wf_state s'"
  using assms
  by (cases m) (auto simp: applyMutation_def
      intro: wf_applyEntry wf_applyRecord wf_applyLane wf_applyName wf_applyLabel)

lemma applyMutation_sequence: "applyMutation s m = Inr s' \<Longrightarrow> ss_sequence s' = Suc (ss_sequence s)"
  by (cases m) (auto simp: applyMutation_def applyEntry_def applyRecord_def applyLane_def
      applyName_def applyLabel_def)

lemma wf_replay: "rfold applyMutation s ms = Inr s' \<Longrightarrow> wf_state s \<Longrightarrow> wf_state s'"
  by (rule rfold_invariant [of applyMutation s ms s' wf_state]) (auto intro: wf_applyMutation)

section \<open>Branches: the walk to the root\<close>

fun chain :: "(string \<Rightarrow> entry option) \<Rightarrow> string option \<Rightarrow> entry list \<Rightarrow> bool" where
  "chain m None es = (es = [])"
| "chain m (Some i) [] = False"
| "chain m (Some i) (e # es) = (m i = Some e \<and> chain m (entry_parentId e) es)"

text \<open>\<open>chain m start es\<close>: \<open>es\<close> is the whole way from \<open>start\<close> over parent pointers to a root.\<close>

lemma chain_mono: "chain m start es \<Longrightarrow> m \<subseteq>\<^sub>m m' \<Longrightarrow> chain m' start es"
  by (induction m start es rule: chain.induct) (auto simp: map_le_def dom_def)

lemma chain_set: "chain m start es \<Longrightarrow> set es \<subseteq> ran m"
  by (induction m start es rule: chain.induct) (auto intro: ranI)

lemma chain_unique: "chain m start es \<Longrightarrow> chain m start es' \<Longrightarrow> es = es'"
proof (induction m start es arbitrary: es' rule: chain.induct)
  case (3 m i e es)
  then show ?case by (cases es') auto
qed auto

lemma chain_parents_closed:
  "chain m start es \<Longrightarrow> (\<And>k e. m k = Some e \<Longrightarrow> entry_id e = k) \<Longrightarrow>
   parents_closed {} (rev es) \<and> (case start of None \<Rightarrow> True | Some i \<Rightarrow> i \<in> entry_id ` set es)"
proof (induction m start es rule: chain.induct)
  case (3 m i e es)
  then show ?case
    by (auto simp: parents_closed_append split: option.splits)
qed auto

abbreviation keyed :: "entry list \<Rightarrow> string \<Rightarrow> entry option" where
  "keyed xs \<equiv> map_of (map (\<lambda>e. (entry_id e, e)) xs)"

lemma ran_keyed: "ran (keyed xs) \<subseteq> set xs"
  by (auto simp: ran_def dest: map_of_map_key)

lemma keyed_snoc_le: "entry_id e \<notin> entry_id ` set xs \<Longrightarrow> keyed xs \<subseteq>\<^sub>m keyed (xs @ [e])"
  using map_of_map_key_None [of entry_id xs "entry_id e"]
  by (simp only: map_of_map_key_snoc) (auto simp: map_le_def)

lemma chain_exists:
  assumes "parents_closed {} xs" and "distinct (map entry_id xs)"
    and "sorted_wrt (<) (map entry_seq xs)" and "i \<in> entry_id ` set xs"
  shows "\<exists>es. chain (keyed xs) (Some i) es \<and> distinct (map entry_id es) \<and> sorted_wrt (>) (map entry_seq es)"
  using assms
proof (induction xs arbitrary: i rule: rev_induct)
  case Nil
  then show ?case by simp
next
  case (snoc e xs)
  have new: "entry_id e \<notin> entry_id ` set xs" using snoc.prems(2) by auto
  have old: "\<exists>es. chain (keyed (xs @ [e])) (Some j) es \<and> distinct (map entry_id es) \<and>
      sorted_wrt (>) (map entry_seq es) \<and> set es \<subseteq> set xs" if j: "j \<in> entry_id ` set xs" for j
  proof -
    from snoc.IH [OF _ _ _ j] snoc.prems(1-3) obtain es where
      es: "chain (keyed xs) (Some j) es" "distinct (map entry_id es)" "sorted_wrt (>) (map entry_seq es)"
      by (auto simp: parents_closed_append sorted_wrt_append)
    then show ?thesis
      using chain_mono [OF es(1) keyed_snoc_le [OF new]] chain_set [OF es(1)] ran_keyed [of xs] by blast
  qed
  show ?case
  proof (cases "i \<in> entry_id ` set xs")
    case True
    with old show ?thesis by blast
  next
    case False
    with snoc.prems(4) have i: "i = entry_id e" by auto
    have look: "keyed (xs @ [e]) i = Some e"
      using new i by (simp only: map_of_map_key_snoc) simp
    show ?thesis
    proof (cases "entry_parentId e")
      case None
      with look show ?thesis by (intro exI [of _ "[e]"]) simp
    next
      case (Some p)
      with snoc.prems(1) have "p \<in> entry_id ` set xs" by (simp add: parents_closed_append)
      then obtain es where es: "chain (keyed (xs @ [e])) (Some p) es" "distinct (map entry_id es)"
          "sorted_wrt (>) (map entry_seq es)" "set es \<subseteq> set xs"
        using old by blast
      with Some look new snoc.prems(3) show ?thesis
        by (intro exI [of _ "e # es"]) (auto simp: sorted_wrt_append)
    qed
  qed
qed

lemma walk_from_chain:
  assumes "chain (map_of byId) (Some i) es" and "distinct (map entry_id es)"
    and "entry_id ` set es \<inter> visited = {}"
  shows "walk_from byId stop visited missing i = (take_until stop es, None)"
  using assms
proof (induction es arbitrary: i visited missing)
  case Nil
  then show ?case by simp
next
  case (Cons e es)
  then show ?case
    by (cases "entry_parentId e") (auto simp: walk_from.simps [of byId stop visited missing i])
qed

lemma sorted_map_filter_log:
  assumes "sorted_wrt (<) (map item_seq l)" and "list_all item_consistent l"
  shows "sorted_wrt (<) (map entry_seq (List.map_filter log_entry l)) \<and>
         (\<forall>e \<in> set (List.map_filter log_entry l). entry_seq e \<in> item_seq ` set l)"
  using assms
proof (induction l)
  case Nil
  then show ?case by (simp add: List.map_filter_simps)
next
  case (Cons it l)
  then show ?case
    by (cases it) (auto simp: List.map_filter_simps)
qed

lemma wf_entries_sorted: "wf_state s \<Longrightarrow> sorted_wrt (<) (map entry_seq (ss_entries s))"
  using sorted_map_filter_log [of "ss_log s"]
  by (metis sorted_wrt_upt wf_log_def wf_parts(3))

lemma getEntry_keyed: "wf_ids s \<Longrightarrow> getEntry s = keyed (ss_entries s)"
  by (simp add: getEntry_def wf_ids_def fun_eq_iff)

lemma getEntry_id: "wf_ids s \<Longrightarrow> getEntry s i = Some e \<Longrightarrow> entry_id e = i \<and> e \<in> set (ss_entries s)"
  by (auto simp: getEntry_keyed dest: map_of_map_key)

definition branch_path :: "session_state \<Rightarrow> string \<Rightarrow> entry list" where
  "branch_path s i = fst (walkToRoot s (Some i) no_bounds)"

lemma at_bound_none [simp]: "at_bound no_bounds e = False"
  by (simp add: at_bound_def no_bounds_def)

lemma walkToRoot_wf:
  assumes wf: "wf_state s" and i: "i \<in> entry_ids s"
  shows "chain (getEntry s) (Some i) (branch_path s i)" (is ?A)
    and "distinct (map entry_id (branch_path s i))" (is ?B)
    and "sorted_wrt (>) (map entry_seq (branch_path s i))" (is ?C)
    and "walkToRoot s (Some i) b = (take_until (at_bound b) (branch_path s i), None)" (is ?D)
proof -
  note ids = wf_parts(1) [OF wf]
  from wf_parts [OF wf] i wf_entries_sorted [OF wf] obtain es where
    es: "chain (keyed (ss_entries s)) (Some i) es" "distinct (map entry_id es)"
      "sorted_wrt (>) (map entry_seq es)"
    using chain_exists [of "ss_entries s" i] by (auto simp: wf_ids_def wf_tree_def entry_ids_def)
  have walk: "walkToRoot s (Some i) b = (take_until (at_bound b) es, None)" for b
    using es ids by (simp add: walkToRoot_def wf_ids_def walk_from_chain)
  have "branch_path s i = es"
    by (simp add: branch_path_def walk take_until_none)
  with es walk show ?A ?B ?C ?D by (simp_all add: getEntry_keyed [OF ids])
qed

lemma walk_from_missing:
  "map_of byId i = None \<Longrightarrow> walk_from byId stop visited missing i = ([], Some missing)"
  by (simp add: walk_from.simps)

lemma walkToRoot_missing: "wf_state s \<Longrightarrow> i \<notin> entry_ids s \<Longrightarrow> walkToRoot s (Some i) b = ([], Some NotFound)"
  by (auto simp: walkToRoot_def wf_state_def wf_ids_def entry_ids_def map_of_map_key_None intro!: walk_from_missing)

lemma findEntriesOnBranch_wf:
  assumes wf: "wf_state s" and i: "i \<in> entry_ids s"
    and lim: "assertValidLimit (eq_limit q) = Inr ()" and cur: "assertValidCursor (eq_cursor q) = Inr ()"
  shows "findEntriesOnBranch s q b i = Inr (take_opt (limit_nat (eq_limit q))
           (filter (\<lambda>e. matchesEntryQuery e q)
             (take_until (at_bound b) (ordered (rev (branch_path s i)) (eq_order q)))))"
proof (cases "eq_order q = Some OldestFirst")
  case True
  then show ?thesis
    using lim cur scan_eq [OF lim]
    by (simp add: findEntriesOnBranch_def walkToRoot_wf(4) [OF wf i] take_until_none ordered_def)
next
  case False
  have "fst (scan p (\<lambda>_. False) (eq_limit q) [] xs) = take_opt (limit_nat (eq_limit q)) (filter p xs)" for p xs
    by (simp add: scan_eq [OF lim] take_until_none)
  with False show ?thesis
    using lim cur
    by (simp add: findEntriesOnBranch_def walkToRoot_wf(4) [OF wf i] ordered_def split: prod.split)
      (metis fst_conv)
qed

section \<open>Forks replay\<close>

fun renumber :: "nat \<Rightarrow> entry list \<Rightarrow> entry list" where
  "renumber n [] = []"
| "renumber n (e # es) = e\<lparr>entry_seq := n\<rparr> # renumber (Suc n) es"

lemma renumber_ids [simp]: "map entry_id (renumber n es) = map entry_id es"
  by (induction es arbitrary: n) auto

lemma set_renumber_ids [simp]: "entry_id ` set (renumber n es) = entry_id ` set es"
  by (metis list.set_map renumber_ids)

lemma replay_entries:
  assumes "wf_state t" and "parents_closed (entry_ids t) es" and "distinct (map entry_id es)"
    and "entry_id ` set es \<inter> ss_usedIds t = {}"
  shows "\<exists>t'. rfold applyMutation t (fork_entries (Suc (ss_sequence t)) es) = Inr t' \<and> wf_state t' \<and>
           ss_entries t' = ss_entries t @ renumber (Suc (ss_sequence t)) es \<and>
           ss_sequence t' = ss_sequence t + length es \<and> ss_lanes t' = ss_lanes t \<and>
           ss_records t' = ss_records t \<and> ss_name t' = ss_name t \<and> ss_labels t' = ss_labels t"
  using assms
proof (induction es arbitrary: t)
  case Nil
  then show ?case by simp
next
  case (Cons e es)
  let ?e = "e\<lparr>entry_seq := Suc (ss_sequence t)\<rparr>"
  have "case entry_parentId e of None \<Rightarrow> True | Some p \<Rightarrow> hasEntry t p"
    using Cons.prems(2) hasEntry_iff [OF wf_parts(1) [OF Cons.prems(1)]] by (auto split: option.splits)
  with Cons.prems(4) obtain t1 where t1: "applyMutation t (EntryMutation None ?e) = Inr t1"
    by (auto simp: applyMutation_def applyEntry_def split: option.splits)
  note wf1 = wf_applyMutation [OF Cons.prems(1) t1]
  from t1 have t1': "ss_entries t1 = ss_entries t @ [?e]" "ss_sequence t1 = Suc (ss_sequence t)"
      "ss_lanes t1 = ss_lanes t" "ss_records t1 = ss_records t" "ss_name t1 = ss_name t"
      "ss_labels t1 = ss_labels t" "ss_usedIds t1 = insert (entry_id e) (ss_usedIds t)"
    by (auto simp: applyMutation_def applyEntry_def split: option.splits)
  have "entry_ids t1 = insert (entry_id e) (entry_ids t)"
    by (auto simp: entry_ids_def t1'(1))
  with Cons.prems have "parents_closed (entry_ids t1) es" "distinct (map entry_id es)"
      "entry_id ` set es \<inter> ss_usedIds t1 = {}"
    by (auto simp: t1')
  from Cons.IH [OF wf1 this] t1 t1' show ?case by auto
qed

lemma replay_lanes:
  assumes "wf_state t" and "\<forall>i. Some i \<in> snd ` set ps \<longrightarrow> i \<in> entry_ids t" and "distinct (map fst ps)"
  shows "\<exists>t'. rfold applyMutation t (fork_lanes (Suc (ss_sequence t)) ps) = Inr t' \<and> wf_state t' \<and>
           ss_entries t' = ss_entries t \<and> ss_sequence t' = ss_sequence t + length ps \<and>
           map_of (ss_lanes t') = map_of (ss_lanes t) ++ map_of ps \<and>
           ss_records t' = ss_records t \<and> ss_name t' = ss_name t \<and> ss_labels t' = ss_labels t"
  using assms
proof (induction ps arbitrary: t)
  case Nil
  then show ?case by simp
next
  case (Cons p ps)
  obtain l leaf where p: "p = (l, leaf)" by force
  have "case leaf of None \<Rightarrow> True | Some i \<Rightarrow> hasEntry t i"
    using Cons.prems(2) hasEntry_iff [OF wf_parts(1) [OF Cons.prems(1)]] by (auto simp: p split: option.splits)
  then obtain t1 where t1: "applyMutation t (LaneMutation (Suc (ss_sequence t)) l leaf) = Inr t1"
    by (auto simp: applyMutation_def applyLane_def split: option.splits)
  note wf1 = wf_applyMutation [OF Cons.prems(1) t1]
  from t1 have t1': "ss_entries t1 = ss_entries t" "ss_sequence t1 = Suc (ss_sequence t)"
      "ss_lanes t1 = AList.update l leaf (ss_lanes t)" "ss_records t1 = ss_records t"
      "ss_name t1 = ss_name t" "ss_labels t1 = ss_labels t"
    by (auto simp: applyMutation_def applyLane_def split: option.splits)
  have "\<forall>i. Some i \<in> snd ` set ps \<longrightarrow> i \<in> entry_ids t1"
    using Cons.prems(2) by (auto simp: p entry_ids_def t1'(1))
  from Cons.IH [OF wf1 this] Cons.prems(3) obtain t' where
    t': "rfold applyMutation t1 (fork_lanes (Suc (ss_sequence t1)) ps) = Inr t'" "wf_state t'"
      "ss_entries t' = ss_entries t1" "ss_sequence t' = ss_sequence t1 + length ps"
      "map_of (ss_lanes t') = map_of (ss_lanes t1) ++ map_of ps"
      "ss_records t' = ss_records t1" "ss_name t' = ss_name t1" "ss_labels t' = ss_labels t1"
    by (auto simp: p)
  have "l \<notin> fst ` set ps" using Cons.prems(3) by (simp add: p)
  then have "map_of ps l = None" by (simp add: map_of_eq_None_iff)
  then have lanes: "map_of (ss_lanes t') = map_of (ss_lanes t) ++ map_of (p # ps)"
    by (auto simp: t'(5) t1'(3) update_conv' map_add_def fun_eq_iff p split: option.splits)
  show ?case
    by (intro exI [of _ t'] conjI lanes) (use t1 t1' t'(1-4,6-8) in \<open>simp_all add: p\<close>)
qed

lemma replay_labels:
  assumes "wf_state t" and "entry_id ` set es \<subseteq> entry_ids t"
  shows "\<exists>t'. rfold applyMutation t (fork_labels (Suc (ss_sequence t)) labels es) = Inr t' \<and> wf_state t' \<and>
           ss_entries t' = ss_entries t \<and> ss_lanes t' = ss_lanes t \<and>
           ss_records t' = ss_records t \<and> ss_name t' = ss_name t \<and>
           ss_labels t' = ss_labels t ++ (labels |` (entry_id ` set es))"
  using assms
proof (induction es arbitrary: t)
  case Nil
  then show ?case by (simp add: restrict_map_def)
next
  case (Cons e es)
  show ?case
  proof (cases "labels (entry_id e)")
    case None
    then have "labels |` (entry_id ` set (e # es)) = labels |` (entry_id ` set es)"
      by (auto simp: restrict_map_def fun_eq_iff)
    with None Cons show ?thesis by simp
  next
    case (Some label)
    have "hasEntry t (entry_id e)"
      using Cons.prems hasEntry_iff [OF wf_parts(1) [OF Cons.prems(1)]] by auto
    then obtain t1 where t1: "applyMutation t (LabelMutation (Suc (ss_sequence t)) (entry_id e) (Some label)) = Inr t1"
      by (auto simp: applyMutation_def applyLabel_def)
    note wf1 = wf_applyMutation [OF Cons.prems(1) t1]
    from t1 have t1': "ss_entries t1 = ss_entries t" "ss_sequence t1 = Suc (ss_sequence t)"
        "ss_lanes t1 = ss_lanes t" "ss_records t1 = ss_records t" "ss_name t1 = ss_name t"
        "ss_labels t1 = (ss_labels t)(entry_id e \<mapsto> label)"
      by (auto simp: applyMutation_def applyLabel_def)
    have "entry_id ` set es \<subseteq> entry_ids t1"
      using Cons.prems(2) by (auto simp: entry_ids_def t1'(1))
    from Cons.IH [OF wf1 this] obtain t' where
      t': "rfold applyMutation t1 (fork_labels (Suc (ss_sequence t1)) labels es) = Inr t'" "wf_state t'"
        "ss_entries t' = ss_entries t1" "ss_lanes t' = ss_lanes t1"
        "ss_records t' = ss_records t1" "ss_name t' = ss_name t1"
        "ss_labels t' = ss_labels t1 ++ (labels |` (entry_id ` set es))"
      by blast
    have "ss_labels t1 ++ (labels |` (entry_id ` set es))
        = ss_labels t ++ (labels |` (entry_id ` set (e # es)))"
      using Some by (auto simp: t1'(6) restrict_map_def map_add_def fun_eq_iff split: option.split)
    with Some t1 t1' t' show ?thesis by simp
  qed
qed

lemma fork_selection_wf:
  assumes wf: "wf_state s" and sel: "fork_selection s options = Inr (copied, lanes)"
  shows "parents_closed {} copied" and "distinct (map entry_id copied)" and "distinct (map fst lanes)"
    and "''main'' \<in> fst ` set lanes" and "\<forall>i. Some i \<in> snd ` set lanes \<longrightarrow> i \<in> entry_id ` set copied"
    and "set copied \<subseteq> set (ss_entries s)"
proof -
  note parts = wf_parts [OF wf]
  have all: "matchesEntryQuery e all_entries_query" for e
    by (simp add: matchesEntryQuery_def all_entries_query_def)
  have goal: "parents_closed {} copied \<and> distinct (map entry_id copied) \<and> distinct (map fst lanes) \<and>
     ''main'' \<in> fst ` set lanes \<and> (\<forall>i. Some i \<in> snd ` set lanes \<longrightarrow> i \<in> entry_id ` set copied) \<and>
     set copied \<subseteq> set (ss_entries s)"
  proof (cases options)
    case ForkTree
    then show ?thesis
      using sel parts(1,2) findEntries_eq [of all_entries_query s]
      by (auto simp: fork_selection_def all wf_ids_def wf_tree_def entry_ids_def getLanes_def ordered_def
          all_entries_query_def limit_nat_def matchesEntryQuery_def)
  next
    case (ForkBranch entryId position)
    with sel obtain target where target: "lanes = [(''main'', target)]"
      and copied: "(case target of None \<Rightarrow> Inr [] | Some i \<Rightarrow> findEntriesOnBranch s all_entries_query no_bounds i) = Inr copied"
      by (auto simp: fork_selection_def)
    show ?thesis
    proof (cases target)
      case None
      then show ?thesis using target copied by simp
    next
      case (Some i)
      have i: "i \<in> entry_ids s"
        using copied Some walkToRoot_missing [OF wf, of i no_bounds]
        by (cases "i \<in> entry_ids s") (auto simp: findEntriesOnBranch_def all_entries_query_def)
      have c: "copied = rev (branch_path s i)"
        using copied Some findEntriesOnBranch_wf [OF wf i, of all_entries_query no_bounds]
        by (simp add: all all_entries_query_def limit_nat_def ordered_def take_until_none matchesEntryQuery_def)
      note walk = walkToRoot_wf [OF wf i]
      have "parents_closed {} copied" and "i \<in> entry_id ` set copied"
        using chain_parents_closed [OF walk(1)] getEntry_id [OF parts(1)] by (auto simp: c)
      moreover have "set copied \<subseteq> set (ss_entries s)"
        using chain_set [OF walk(1)] getEntry_id [OF parts(1)] by (auto simp: c ran_def)
      moreover have "distinct (map entry_id copied)"
        using walk(2) by (simp add: c rev_map [symmetric])
      ultimately show ?thesis by (simp add: target Some)
    qed
  qed
  then show "parents_closed {} copied" "distinct (map entry_id copied)" "distinct (map fst lanes)"
    "''main'' \<in> fst ` set lanes" "\<forall>i. Some i \<in> snd ` set lanes \<longrightarrow> i \<in> entry_id ` set copied"
    "set copied \<subseteq> set (ss_entries s)"
    by simp_all
qed

lemma applyName_replay:
  assumes "wf_state t"
  shows "\<exists>t'. rfold applyMutation t (case nm of None \<Rightarrow> [] | Some x \<Rightarrow> [NameMutation (Suc (ss_sequence t)) (Some x)]) = Inr t' \<and>
    wf_state t' \<and> ss_entries t' = ss_entries t \<and> ss_lanes t' = ss_lanes t \<and> ss_records t' = ss_records t \<and>
    ss_labels t' = ss_labels t \<and> ss_name t' = (case nm of None \<Rightarrow> ss_name t | Some x \<Rightarrow> Some x) \<and>
    ss_sequence t' = ss_sequence t + (case nm of None \<Rightarrow> 0 | Some _ \<Rightarrow> 1)"
proof (cases nm)
  case None
  with assms show ?thesis by simp
next
  case (Some x)
  let ?m = "NameMutation (Suc (ss_sequence t)) (Some x)"
  obtain t1 where t1: "applyMutation t ?m = Inr t1"
    by (simp add: applyMutation_def applyName_def)
  with wf_applyMutation [OF assms t1] Some show ?thesis
    by (auto simp: applyMutation_def applyName_def)
qed

lemma initial_parts: "ss_sequence initial_state = 0" "ss_entries initial_state = []" "ss_usedIds initial_state = {}"
  "ss_lanes initial_state = [(''main'', None)]" "ss_records initial_state = []" "ss_name initial_state = None"
  "ss_labels initial_state = Map.empty" "entry_ids initial_state = {}"
  by (simp_all add: initial_state_def entry_ids_def)

text \<open>
  The mutations of a fork replay on a fresh state without being rejected: the copy has the
  selected entries in order, renumbered from 1, the selected lanes, the name, and the labels of
  the copied entries; it has no records.
\<close>

lemma fork_replay:
  assumes wf: "wf_state s" and sel: "fork_selection s options = Inr (copied, lanes)"
    and ms: "createForkMutations s options = Inr ms"
  shows "\<exists>s'. rfold applyMutation initial_state ms = Inr s' \<and> wf_state s' \<and>
     ss_entries s' = renumber 1 copied \<and> map_of (ss_lanes s') = map_of lanes \<and>
     ss_records s' = [] \<and> ss_name s' = ss_name s \<and> ss_labels s' = ss_labels s |` (entry_id ` set copied)"
proof -
  note sw = fork_selection_wf [OF wf sel]
  obtain t1 where t1: "rfold applyMutation initial_state (fork_entries 1 copied) = Inr t1" "wf_state t1"
      "ss_entries t1 = renumber 1 copied" "ss_sequence t1 = length copied" "ss_lanes t1 = [(''main'', None)]"
      "ss_records t1 = []" "ss_name t1 = None" "ss_labels t1 = Map.empty"
    using replay_entries [OF wf_initial, of copied] sw(1,2) by (auto simp: initial_parts)
  have ids1: "entry_ids t1 = entry_id ` set copied" by (simp add: entry_ids_def t1(3))
  obtain t2 where t2: "rfold applyMutation t1 (fork_lanes (Suc (ss_sequence t1)) lanes) = Inr t2" "wf_state t2"
      "ss_entries t2 = ss_entries t1" "ss_sequence t2 = ss_sequence t1 + length lanes"
      "map_of (ss_lanes t2) = map_of (ss_lanes t1) ++ map_of lanes"
      "ss_records t2 = ss_records t1" "ss_name t2 = ss_name t1" "ss_labels t2 = ss_labels t1"
    using replay_lanes [OF t1(2), of lanes] sw(3,5) unfolding ids1 by blast
  obtain t3 where t3: "rfold applyMutation t2 (case ss_name s of None \<Rightarrow> []
        | Some x \<Rightarrow> [NameMutation (Suc (ss_sequence t2)) (Some x)]) = Inr t3" "wf_state t3"
      "ss_entries t3 = ss_entries t2" "ss_lanes t3 = ss_lanes t2" "ss_records t3 = ss_records t2"
      "ss_labels t3 = ss_labels t2" "ss_name t3 = (case ss_name s of None \<Rightarrow> ss_name t2 | Some x \<Rightarrow> Some x)"
      "ss_sequence t3 = ss_sequence t2 + (case ss_name s of None \<Rightarrow> 0 | Some _ \<Rightarrow> 1)"
    using applyName_replay [OF t2(2)] by blast
  have "entry_id ` set copied \<subseteq> entry_ids t3" by (simp add: entry_ids_def t3(3) t2(3) t1(3))
  then obtain t4 where t4: "rfold applyMutation t3 (fork_labels (Suc (ss_sequence t3)) (ss_labels s) copied) = Inr t4"
      "wf_state t4" "ss_entries t4 = ss_entries t3" "ss_lanes t4 = ss_lanes t3" "ss_records t4 = ss_records t3"
      "ss_name t4 = ss_name t3" "ss_labels t4 = ss_labels t3 ++ (ss_labels s |` (entry_id ` set copied))"
    using replay_labels [OF t3(2)] by blast
  have "rfold applyMutation initial_state ms = Inr t4"
    using ms sel t1(1,4) t2(1,4) t3(1,8) t4(1)
    by (auto simp: createForkMutations_def rfold_append Let_def split: option.splits)
  moreover have "map_of (ss_lanes t4) = map_of lanes"
    using sw(4) by (auto simp: t4(4) t3(4) t2(5) t1(5) map_add_def fun_eq_iff map_of_eq_None_iff
        intro: map_of_eq_None_iff [THEN iffD2, symmetric] split: option.splits)
  ultimately show ?thesis
    using t4 t3 t2 t1 by (auto split: option.splits)
qed

lemma createForkMutations_error:
  assumes wf: "wf_state s" and err: "createForkMutations s options = Inl e"
  shows "e = InvalidForkTarget"
proof -
  note parts = wf_parts [OF wf]
  have sel: "fork_selection s options = Inl e"
    using err by (auto simp: createForkMutations_def rbind_eq_Inl Let_def split: prod.splits)
  have main: "requireLane s ''main'' \<noteq> Inl e"
    using parts(2) by (auto simp: requireLane_def wf_tree_def map_of_eq_None_iff split: option.splits)
  have known: "i \<in> entry_ids s" if tgt: "fork_target s a b = Inr (Some i)" for a b i
  proof -
    obtain j x where "getEntry s j = Some x" "i = entry_id x \<or> entry_parentId x = Some i"
      using tgt unfolding fork_target_def rbind_eq_Inr
      by (elim exE conjE) (auto split: option.split_asm if_split_asm fork_position.split_asm)
    then show ?thesis
      using getEntry_id [OF parts(1), of j x] parts(2)
        parents_closed_append [of "{}"] in_set_conv_decomp [of x "ss_entries s"]
      by (auto simp: wf_tree_def entry_ids_def)
  qed
  show ?thesis
  proof (cases options)
    case ForkTree
    then show ?thesis
      using sel findEntries_eq [of all_entries_query s] by (simp add: fork_selection_def all_entries_query_def)
  next
    case (ForkBranch a b)
    show ?thesis
    proof (cases "fork_target s a b")
      case (Inl e')
      then show ?thesis
        using sel main ForkBranch
        by (auto simp: fork_selection_def fork_target_def rbind_eq_Inl split: option.splits if_splits)
    next
      case (Inr target)
      then show ?thesis
        using sel ForkBranch known findEntriesOnBranch_wf [OF wf, of _ all_entries_query no_bounds]
        by (auto simp: fork_selection_def rbind_eq_Inl all_entries_query_def split: option.splits)
    qed
  qed
qed

section \<open>Open operations and the log\<close>

lemma findOpenOperations_wf:
  assumes "wf_state s" and "assertValidLimit limit = Inr ()"
  shows "findOpenOperations s lane limit = Inr (take_opt (limit_nat limit) (rev (open_in lane (ss_records s))))"
proof -
  have "(case ss_openOperationsByLane s lane of None \<Rightarrow> [] | Some m \<Rightarrow> rev (map snd m))
      = rev (open_in lane (ss_records s))"
    using wf_parts(4) [OF assms(1)] unfolding wf_operations_def
    by (cases "ss_openOperationsByLane s lane") (auto dest: spec [of _ lane] simp: comp_def)
  with assms(2) show ?thesis
    by (cases limit) (simp_all add: findOpenOperations_def limit_nat_def)
qed

lemma open_in_iff:
  "distinct (map rec_id rs) \<Longrightarrow>
   r \<in> set (open_in lane rs) \<longleftrightarrow>
   (\<exists>before after. rs = before @ r # after \<and> starts_in lane r \<and> \<not> (\<exists>f \<in> set after. finishes_in lane (rec_id r) f))"
proof (induction rs)
  case Nil
  then show ?case by simp
next
  case (Cons x rs)
  show ?case (is "?L \<longleftrightarrow> ?R")
  proof (cases "r = x")
    case True
    with Cons.prems have "r \<notin> set rs" by auto
    then have "r \<notin> set (open_in lane rs)" using set_open_in by blast
    then have "?L \<longleftrightarrow> starts_in lane r \<and> \<not> (\<exists>f \<in> set rs. finishes_in lane (rec_id r) f)"
      using True by auto
    also have "\<dots> \<longleftrightarrow> ?R"
      using True \<open>r \<notin> set rs\<close> by (metis append_Nil append_eq_Cons_conv in_set_conv_decomp list.inject)
    finally show ?thesis .
  next
    case False
    then have "?L \<longleftrightarrow> r \<in> set (open_in lane rs)" by auto
    with Cons False show ?thesis by (auto simp: Cons_eq_append_conv)
  qed
qed

lemma filter_upt_after:
  "map f xs = [a..<b] \<Longrightarrow> k \<le> b \<Longrightarrow> a \<le> Suc k \<Longrightarrow> filter (\<lambda>x. k < f x) xs = drop (Suc k - a) xs"
proof (induction xs arbitrary: a)
  case Nil
  then show ?case by simp
next
  case (Cons x xs)
  then have a: "f x = a" and rest: "map f xs = [Suc a..<b]"
    using upt_eq_Cons_conv [of a b "f x" "map f xs"] by auto
  show ?case
  proof (cases "a \<le> k")
    case True
    with Cons.IH [OF rest] Cons.prems(2) a show ?thesis by (simp add: Suc_diff_le)
  next
    case False
    then have "filter (\<lambda>x. k < f x) xs = xs"
      using rest by (intro filter_True) (metis atLeastLessThan_iff image_eqI le_Suc_eq less_Suc_eq_le
          list.set_map not_le order.strict_trans2 set_upt)
    with False a Cons.prems(3) show ?thesis by simp
  qed
qed

lemma getLog_page:
  assumes wf: "wf_state s" and k: "k \<le> ss_sequence s" and lim: "assertValidLimit limit = Inr ()"
  shows "getLog s \<lparr>lo_afterSeq = Some (JsInt (int k)), lo_limit = limit\<rparr>
       = Inr (take_opt (limit_nat limit) (drop k (ss_log s)))"
proof -
  have "filter (\<lambda>it. k < item_seq it) (ss_log s) = drop k (ss_log s)"
    using filter_upt_after [of item_seq "ss_log s" 1 "Suc (ss_sequence s)" k] k wf_parts(3) [OF wf]
    by (simp add: wf_log_def del: upt_Suc)
  then show ?thesis
    using lim by (simp add: getLog_def collect_eq assertValidCursor_ok [THEN iffD2] assertValidCursor_def seq_after_def)
qed

lemma getEntry_known: "wf_state s \<Longrightarrow> getEntry s i = Some e \<Longrightarrow> i \<in> entry_ids s"
  unfolding entry_ids_def by (metis getEntry_id image_eqI wf_parts(1))

lemma requireLane_known:
  assumes "wf_state s" and "requireLane s lane = Inr (Some i)"
  shows "i \<in> entry_ids s"
proof -
  have "(lane, Some i) \<in> set (ss_lanes s)"
    using assms(2) by (auto simp: requireLane_def dest!: map_of_SomeD split: option.splits)
  then have "Some i \<in> snd ` set (ss_lanes s)" by (metis image_eqI snd_conv)
  then show ?thesis using wf_parts(2) [OF assms(1)] unfolding wf_tree_def by blast
qed

section \<open>Properties of the session state\<close>

text \<open>
  A small session for the witnesses: a user message, a thinking-level change after it, and an
  operation started on the lane.
\<close>

definition sample_message :: entry where
  "sample_message = \<lparr>entry_id = ''a'', entry_seq = 1, entry_parentId = None, entry_timestamp = 10,
     entry_payload = MessagePayload (UserMessage (ContentString ''hi'') 10) False\<rparr>"

definition sample_change :: entry where
  "sample_change = \<lparr>entry_id = ''b'', entry_seq = 2, entry_parentId = Some ''a'', entry_timestamp = 11,
     entry_payload = ThinkingLevelPayload ''high''\<rparr>"

definition sample_start :: lane_record where
  "sample_start = \<lparr>rec_id = ''r'', rec_seq = 3, rec_lane = ''main'', rec_timestamp = 12,
     rec_body = OperationStarted (Some ''b'') (CompactionIntent None ''c'')\<rparr>"

definition sample_mutations :: "session_mutation list" where
  "sample_mutations = [EntryMutation (Some ''main'') sample_message, EntryMutation (Some ''main'') sample_change,
     RecordMutation sample_start]"

definition sample_state :: session_state where
  "sample_state = \<lparr>ss_sequence = 3, ss_usedIds = {''a'', ''b'', ''r''}, ss_entries = [sample_message, sample_change],
     ss_entriesById = [(''a'', sample_message), (''b'', sample_change)], ss_records = [sample_start],
     ss_openOperationsByLane = [''main'' \<mapsto> [(''r'', sample_start)]], ss_lanes = [(''main'', Some ''b'')],
     ss_log = [EntryItem 1 sample_message, EntryItem 2 sample_change, RecordItem 3 sample_start],
     ss_stats = initial_stats\<lparr>st_messageCount := 1\<rparr>, ss_name = None, ss_labels = Map.empty\<rparr>"

lemmas sample_defs = sample_message_def sample_change_def sample_start_def

lemma sample_replay: "rfold applyMutation initial_state sample_mutations = Inr sample_state"
  by (simp add: sample_mutations_def sample_state_def applyMutation_def applyEntry_def applyRecord_def
      initial_state_def initial_stats_def sample_defs hasEntry_def track_operation_def add_usage_def insert_commute)

lemma sample_wf: "wf_state sample_state"
  using wf_replay [OF sample_replay wf_initial] .

text \<open>C1: Replaying any log of mutations onto a fresh session state, when every mutation is accepted, yields a
  well-formed state: ids are unique across entries and records, every parent, lane leaf and label refers to
  an entry, the log is numbered 1, 2, 3 and so on and lists the entries and records in order, the index of
  open operations is the set of started and unfinished ones, and the message count is right.\<close>

theorem replayed_state_wf: "rfold applyMutation initial_state ms = Inr s \<Longrightarrow> wf_state s"
  by (rule wf_replay [OF _ wf_initial])

theorem replayed_state_wf_witness:
  "rfold applyMutation initial_state sample_mutations = Inr sample_state \<and> wf_state sample_state"
  using replayed_state_wf [OF sample_replay] sample_replay by simp

text \<open>An entry mutation is accepted exactly when its number is the next one, its id was never used by an
  entry or a record, the lane it names exists with the entry's parent as its leaf, and the parent exists.\<close>

theorem applyEntry_accepts_iff:
  "is_ok (applyMutation s (EntryMutation lane e)) \<longleftrightarrow>
     entry_seq e = ss_sequence s + 1 \<and> entry_id e \<notin> ss_usedIds s \<and>
     (case lane of None \<Rightarrow> True | Some l \<Rightarrow> map_of (ss_lanes s) l = Some (entry_parentId e)) \<and>
     (case entry_parentId e of None \<Rightarrow> True | Some p \<Rightarrow> hasEntry s p)"
  by (auto simp: applyMutation_def applyEntry_def is_ok_iff split: option.splits)

text \<open>C40: In a well-formed state, walking from an entry to the root never fails and yields the entry, its parent and
  so on up to an entry without a parent, each once; no corrupt chain or cycle is ever met.\<close>

theorem walk_reaches_root:
  assumes "wf_state s" and "i \<in> entry_ids s"
  shows "\<exists>es. walkToRoot s (Some i) no_bounds = (es, None) \<and> chain (getEntry s) (Some i) es \<and>
     distinct (map entry_id es) \<and> es \<noteq> [] \<and> entry_id (hd es) = i \<and> entry_parentId (last es) = None"
proof -
  have c: "chain (getEntry s) (Some i) (branch_path s i)" by (rule walkToRoot_wf(1) [OF assms])
  then obtain e es where p: "branch_path s i = e # es" and e: "getEntry s i = Some e"
    by (cases "branch_path s i") (auto split: option.splits)
  have "entry_parentId (last (x # xs)) = None" if "chain m (Some j) (x # xs)" for m j x xs
    using that by (induction xs arbitrary: j x) (auto split: option.splits elim: chain.elims)
  with c p have "entry_parentId (last (branch_path s i)) = None" by metis
  moreover have "entry_id (hd (branch_path s i)) = i"
    using getEntry_id [OF wf_parts(1) [OF assms(1)] e] p by simp
  ultimately show ?thesis
    using c walkToRoot_wf(2) [OF assms] walkToRoot_wf(4) [OF assms, of no_bounds] p
    by (auto simp: take_until_none)
qed

theorem walk_reaches_root_witness:
  "\<exists>es. walkToRoot sample_state (Some ''b'') no_bounds = (es, None) \<and> chain (getEntry sample_state) (Some ''b'') es \<and>
     distinct (map entry_id es) \<and> es \<noteq> [] \<and> entry_id (hd es) = ''b'' \<and> entry_parentId (last es) = None"
  by (rule walk_reaches_root [OF sample_wf]) (simp add: sample_state_def entry_ids_def sample_defs)

text \<open>A branch query on a well-formed state returns what the documentation of the harness prescribes: take the
  path from the start entry, put it in the asked order, stop inclusively at the first entry that matches a
  stop bound, keep the entries that match the query, and cut to the limit.\<close>

theorem branch_query_result:
  assumes "wf_state s" and "i \<in> entry_ids s"
    and "assertValidLimit (eq_limit q) = Inr ()" and "assertValidCursor (eq_cursor q) = Inr ()"
  shows "findEntriesOnBranch s q b i = Inr (take_opt (limit_nat (eq_limit q))
           (filter (\<lambda>e. matchesEntryQuery e q)
             (take_until (at_bound b) (ordered (rev (branch_path s i)) (eq_order q)))))"
  by (rule findEntriesOnBranch_wf [OF assms])

definition sample_query :: entry_query where
  "sample_query = \<lparr>eq_type = Some MessageType, eq_customType = None, eq_order = None,
     eq_limit = Some (JsInt 5), eq_cursor = Some (JsInt 9)\<rparr>"

theorem branch_query_result_witness:
  "findEntriesOnBranch sample_state sample_query no_bounds ''b'' = Inr (take_opt (limit_nat (eq_limit sample_query))
     (filter (\<lambda>e. matchesEntryQuery e sample_query)
       (take_until (at_bound no_bounds) (ordered (rev (branch_path sample_state ''b'')) (eq_order sample_query)))))"
  by (rule branch_query_result [OF sample_wf])
    (simp_all add: sample_state_def entry_ids_def sample_defs sample_query_def assertValidLimit_def assertValidCursor_def)

text \<open>A session-wide query with a valid limit and cursor returns the matching entries of the session in the asked
  order, cut to the limit; an invalid limit or cursor is rejected as an invalid query.\<close>

theorem entry_query_result:
  "findEntries s q =
     (if is_ok (assertValidLimit (eq_limit q)) \<and> is_ok (assertValidCursor (eq_cursor q))
      then Inr (take_opt (limit_nat (eq_limit q))
                 (filter (\<lambda>e. matchesEntryQuery e q) (ordered (ss_entries s) (eq_order q))))
      else Inl InvalidQuery)"
proof (cases "is_ok (assertValidLimit (eq_limit q)) \<and> is_ok (assertValidCursor (eq_cursor q))")
  case True
  then show ?thesis by (auto simp: is_ok_iff intro!: findEntries_eq)
next
  case False
  then show ?thesis
    by (auto simp: findEntries_def assertValidLimit_def assertValidCursor_def split: option.splits if_splits)
qed

text \<open>The open operations reported for a lane of a well-formed state are exactly the operations started on the lane
  for which no later record of the lane reports the finish.\<close>

theorem open_operations_exact:
  assumes "wf_state s"
  shows "\<exists>rs. findOpenOperations s lane None = Inr rs \<and>
     (\<forall>r. r \<in> set rs \<longleftrightarrow> (\<exists>before after. ss_records s = before @ r # after \<and> starts_in lane r \<and>
        \<not> (\<exists>f \<in> set after. finishes_in lane (rec_id r) f)))"
proof -
  have "distinct (map rec_id (ss_records s))" using wf_parts(1) [OF assms] by (simp add: wf_ids_def)
  then show ?thesis
    using findOpenOperations_wf [OF assms, of None lane] open_in_iff [of "ss_records s" _ lane]
    by (simp add: limit_nat_def)
qed

theorem open_operations_exact_witness:
  "\<exists>rs. findOpenOperations sample_state ''main'' None = Inr rs \<and>
     (\<forall>r. r \<in> set rs \<longleftrightarrow> (\<exists>before after. ss_records sample_state = before @ r # after \<and> starts_in ''main'' r \<and>
        \<not> (\<exists>f \<in> set after. finishes_in ''main'' (rec_id r) f)))"
  by (rule open_operations_exact [OF sample_wf])

text \<open>Reading the log of a well-formed state after sequence number k with a limit returns the next items after the
  first k, so that pages follow one another without a gap or an overlap.\<close>

theorem log_pages:
  assumes "wf_state s" and "k \<le> ss_sequence s" and "assertValidLimit limit = Inr ()"
  shows "getLog s \<lparr>lo_afterSeq = Some (JsInt (int k)), lo_limit = limit\<rparr>
       = Inr (take_opt (limit_nat limit) (drop k (ss_log s)))"
  by (rule getLog_page [OF assms])

theorem log_pages_witness:
  "getLog sample_state \<lparr>lo_afterSeq = Some (JsInt (int 1)), lo_limit = Some (JsInt 1)\<rparr>
     = Inr (take_opt (limit_nat (Some (JsInt 1))) (drop 1 (ss_log sample_state)))"
  by (rule log_pages [OF sample_wf]) (simp_all add: sample_state_def assertValidLimit_def)

text \<open>Forking a well-formed session, when a selection exists, gives mutations that all replay on a fresh state: the copy
  is well-formed, has the selected entries in order and renumbered from 1, the selected lanes, the name and
  the labels of the copied entries, and no records.\<close>

theorem fork_is_replayable:
  assumes "wf_state s" and "fork_selection s options = Inr (copied, lanes)"
  shows "\<exists>ms s'. createForkMutations s options = Inr ms \<and> rfold applyMutation initial_state ms = Inr s' \<and> wf_state s' \<and>
     ss_entries s' = renumber 1 copied \<and> map_of (ss_lanes s') = map_of lanes \<and>
     ss_records s' = [] \<and> ss_name s' = ss_name s \<and> ss_labels s' = ss_labels s |` (entry_id ` set copied)"
proof -
  obtain ms where ms: "createForkMutations s options = Inr ms"
    using assms(2) by (auto simp: createForkMutations_def Let_def)
  with fork_replay [OF assms ms] show ?thesis by blast
qed

theorem fork_is_replayable_witness:
  "\<exists>ms s'. createForkMutations sample_state ForkTree = Inr ms \<and> rfold applyMutation initial_state ms = Inr s' \<and> wf_state s' \<and>
     ss_entries s' = renumber 1 [sample_message, sample_change] \<and> map_of (ss_lanes s') = map_of [(''main'', Some ''b'')] \<and>
     ss_records s' = [] \<and> ss_name s' = ss_name sample_state \<and>
     ss_labels s' = ss_labels sample_state |` (entry_id ` set [sample_message, sample_change])"
  by (rule fork_is_replayable [OF sample_wf])
    (simp add: fork_selection_def findEntries_def all_entries_query_def ordered_def matchesEntryQuery_def limit_reached_def
      getLanes_def sample_state_def)

text \<open>The only way a fork of a well-formed session fails is an invalid fork target: a missing entry or one that is
  not a message.\<close>

theorem fork_fails_only_on_target:
  "wf_state s \<Longrightarrow> createForkMutations s options = Inl e \<Longrightarrow> e = InvalidForkTarget"
  by (rule createForkMutations_error)

lemma sample_fork_rejected: "createForkMutations sample_state (ForkBranch (Some ''b'') None) = Inl InvalidForkTarget"
  by (simp add: createForkMutations_def fork_selection_def fork_target_def getEntry_def sample_state_def sample_defs)

theorem fork_fails_only_on_target_witness:
  "createForkMutations sample_state (ForkBranch (Some ''b'') None) = Inl InvalidForkTarget \<and>
   InvalidForkTarget \<noteq> NotFound"
  using sample_fork_rejected fork_fails_only_on_target [OF sample_wf sample_fork_rejected] by simp

end
