(* ===== verification/Session_Storage.thy ===== *)
theory Session_Storage
  imports Session_State
begin

text \<open>
  The interface \<^verbatim>\<open>SessionStorage\<close> (\<^verbatim>\<open>packages/agent/src/harness/session/types.ts\<close>) as a record
  of operations on a storage value, its contract as the locale \<open>session_storage\<close>, and the
  in-memory backend \<^verbatim>\<open>InMemorySessionStorage\<close> and \<^verbatim>\<open>InMemorySessionRepo\<close> of
  \<^verbatim>\<open>packages/agent/src/harness/session/memory.ts\<close>.  The contract: a write that succeeds is one
  accepted mutation of the viewed session state, with the storage-assigned fields filled in.
  \<^verbatim>\<open>Date.now()\<close> and \<^verbatim>\<open>uuidv7()\<close> are arguments.
\<close>

section \<open>The interface\<close>

record 'st storage_ops =
  so_getMetadata :: "'st \<Rightarrow> session_metadata"
  so_getLanes :: "'st \<Rightarrow> lane_pointer list"
  so_createLane :: "'st \<Rightarrow> string \<Rightarrow> string option \<Rightarrow> 'st session_result"
  so_moveLane :: "'st \<Rightarrow> string \<Rightarrow> string option \<Rightarrow> 'st session_result"
  so_appendEntry :: "nat \<Rightarrow> 'st \<Rightarrow> provisioned_entry \<Rightarrow> string \<Rightarrow> ('st \<times> entry) session_result"
  so_appendRecord :: "nat \<Rightarrow> 'st \<Rightarrow> new_record \<Rightarrow> ('st \<times> lane_record) session_result"
  so_getEntry :: "'st \<Rightarrow> string \<Rightarrow> entry option"
  so_findEntries :: "'st \<Rightarrow> entry_query \<Rightarrow> entry list session_result"
  so_findEntriesOnBranch :: "'st \<Rightarrow> entry_query \<Rightarrow> branch_bounds \<Rightarrow> string \<Rightarrow> entry list session_result"
  so_findRecords :: "'st \<Rightarrow> record_query \<Rightarrow> lane_record list session_result"
  so_findOpenOperations :: "'st \<Rightarrow> string \<Rightarrow> jsnum option \<Rightarrow> lane_record list session_result"
  so_getLog :: "'st \<Rightarrow> log_options \<Rightarrow> log_item list session_result"
  so_getName :: "'st \<Rightarrow> string option"
  so_setName :: "'st \<Rightarrow> string option \<Rightarrow> 'st session_result"
  so_getLabel :: "'st \<Rightarrow> string \<Rightarrow> string option"
  so_setLabel :: "'st \<Rightarrow> string \<Rightarrow> string option \<Rightarrow> 'st session_result"
  so_getStats :: "'st \<Rightarrow> session_stats"

section \<open>The in-memory backend\<close>

record memory_storage =
  ms_metadata :: session_metadata
  ms_state :: session_state

definition new_memory_storage :: "session_metadata \<Rightarrow> memory_storage" where
  "new_memory_storage metadata = \<lparr>ms_metadata = metadata, ms_state = initial_state\<rparr>"

definition mem_apply :: "memory_storage \<Rightarrow> session_mutation \<Rightarrow> memory_storage session_result" where
  "mem_apply st m = rbind (applyMutation (ms_state st) m) (\<lambda>s'. Inr (st\<lparr>ms_state := s'\<rparr>))"

definition mem_fork :: "memory_storage \<Rightarrow> session_metadata \<Rightarrow> fork_options \<Rightarrow> memory_storage session_result" where
  "mem_fork st metadata options =
     rbind (createForkMutations (ms_state st) options) (\<lambda>ms.
       rfold mem_apply (new_memory_storage metadata) ms)"

definition mem_createLane :: "memory_storage \<Rightarrow> string \<Rightarrow> string option \<Rightarrow> memory_storage session_result" where
  "mem_createLane st lane target =
     rbind (validateNewLane (ms_state st) lane) (\<lambda>_.
     rbind (validateTarget (ms_state st) target) (\<lambda>_.
     mem_apply st (LaneMutation (nextSequence (ms_state st)) lane target)))"

definition mem_moveLane :: "memory_storage \<Rightarrow> string \<Rightarrow> string option \<Rightarrow> memory_storage session_result" where
  "mem_moveLane st lane to =
     rbind (requireLane (ms_state st) lane) (\<lambda>_.
     rbind (validateTarget (ms_state st) to) (\<lambda>_.
     mem_apply st (LaneMutation (nextSequence (ms_state st)) lane to)))"

definition mem_appendEntry ::
    "nat \<Rightarrow> memory_storage \<Rightarrow> provisioned_entry \<Rightarrow> string \<Rightarrow> (memory_storage \<times> entry) session_result" where
  "mem_appendEntry now st newEntry lane =
     rbind (requireLane (ms_state st) lane) (\<lambda>parentId.
     rbind (validateUnusedId (ms_state st) (prov_id newEntry)) (\<lambda>_.
       let e = \<lparr>entry_id = prov_id newEntry, entry_seq = nextSequence (ms_state st),
                entry_parentId = parentId, entry_timestamp = now, entry_payload = prov_payload newEntry\<rparr>
       in rbind (mem_apply st (EntryMutation (Some lane) e)) (\<lambda>st'. Inr (st', e))))"

definition mem_appendRecord ::
    "nat \<Rightarrow> memory_storage \<Rightarrow> new_record \<Rightarrow> (memory_storage \<times> lane_record) session_result" where
  "mem_appendRecord now st newRecord =
     rbind (requireLane (ms_state st) (new_lane newRecord)) (\<lambda>_.
     rbind (validateUnusedId (ms_state st) (new_id newRecord)) (\<lambda>_.
     rbind (findOpenOperations (ms_state st) (new_lane newRecord) (Some (JsInt 1))) (\<lambda>current.
       if body_type (new_body newRecord) = OperationStartedType \<and> current \<noteq> [] then Inl StorageError
       else
         let r = \<lparr>rec_id = new_id newRecord, rec_seq = nextSequence (ms_state st),
                  rec_lane = new_lane newRecord, rec_timestamp = now, rec_body = new_body newRecord\<rparr>
         in rbind (mem_apply st (RecordMutation r)) (\<lambda>st'. Inr (st', r)))))"

definition mem_setName :: "memory_storage \<Rightarrow> string option \<Rightarrow> memory_storage session_result" where
  "mem_setName st name = mem_apply st (NameMutation (nextSequence (ms_state st)) name)"

definition mem_setLabel :: "memory_storage \<Rightarrow> string \<Rightarrow> string option \<Rightarrow> memory_storage session_result" where
  "mem_setLabel st i label =
     rbind (validateTarget (ms_state st) (Some i)) (\<lambda>_.
     mem_apply st (LabelMutation (nextSequence (ms_state st)) i label))"

definition memory_ops :: "memory_storage storage_ops" where
  "memory_ops = \<lparr>
     so_getMetadata = ms_metadata,
     so_getLanes = (\<lambda>st. getLanes (ms_state st)),
     so_createLane = mem_createLane,
     so_moveLane = mem_moveLane,
     so_appendEntry = mem_appendEntry,
     so_appendRecord = mem_appendRecord,
     so_getEntry = (\<lambda>st. getEntry (ms_state st)),
     so_findEntries = (\<lambda>st. findEntries (ms_state st)),
     so_findEntriesOnBranch = (\<lambda>st. findEntriesOnBranch (ms_state st)),
     so_findRecords = (\<lambda>st. findRecords (ms_state st)),
     so_findOpenOperations = (\<lambda>st. findOpenOperations (ms_state st)),
     so_getLog = (\<lambda>st. getLog (ms_state st)),
     so_getName = (\<lambda>st. getName (ms_state st)),
     so_setName = mem_setName,
     so_getLabel = (\<lambda>st. getLabel (ms_state st)),
     so_setLabel = mem_setLabel,
     so_getStats = (\<lambda>st. getStats (ms_state st))\<rparr>"

text \<open>
  \<^verbatim>\<open>InMemorySessionRepo\<close>: the sessions by id, in creation order.  A \<^verbatim>\<open>Session\<close> returned by the
  repository is named by its id; its storage is the one the map holds.
\<close>

type_synonym memory_repo = "(string \<times> memory_storage) list"

definition repo_requireStorage :: "memory_repo \<Rightarrow> string \<Rightarrow> memory_storage session_result" where
  "repo_requireStorage repo i =
     (case map_of repo i of None \<Rightarrow> Inl NotFound | Some st \<Rightarrow> Inr st)"

definition repo_create ::
    "string \<Rightarrow> nat \<Rightarrow> memory_repo \<Rightarrow> session_create_options \<Rightarrow> (memory_repo \<times> string) session_result" where
  "repo_create uuid now repo options =
     (let i = (case co_id options of Some i \<Rightarrow> i | None \<Rightarrow> uuid)
      in rbind (rcheck AlreadyExists (map_of repo i = None)) (\<lambda>_.
         Inr (AList.update i (new_memory_storage \<lparr>md_id = i, md_createdAt = now,
                md_parentSessionId = co_parentSessionId options\<rparr>) repo, i)))"

definition repo_open :: "memory_repo \<Rightarrow> session_metadata \<Rightarrow> string session_result" where
  "repo_open repo metadata = rbind (repo_requireStorage repo (md_id metadata)) (\<lambda>_. Inr (md_id metadata))"

definition repo_list :: "memory_repo \<Rightarrow> session_metadata list" where
  "repo_list repo = map (\<lambda>(_, st). ms_metadata st) repo"

definition repo_delete :: "memory_repo \<Rightarrow> session_metadata \<Rightarrow> memory_repo" where
  "repo_delete repo metadata = AList.delete (md_id metadata) repo"

definition repo_fork ::
    "string \<Rightarrow> nat \<Rightarrow> memory_repo \<Rightarrow> session_metadata \<Rightarrow> fork_options \<Rightarrow> session_create_options \<Rightarrow>
     (memory_repo \<times> string) session_result" where
  "repo_fork uuid now repo source options create =
     rbind (repo_requireStorage repo (md_id source)) (\<lambda>sourceStorage.
       let i = (case co_id create of Some i \<Rightarrow> i | None \<Rightarrow> uuid)
       in rbind (rcheck AlreadyExists (map_of repo i = None)) (\<lambda>_.
          rbind (mem_fork sourceStorage \<lparr>md_id = i, md_createdAt = now,
                   md_parentSessionId = (case co_parentSessionId create of Some p \<Rightarrow> Some p
                                         | None \<Rightarrow> Some (md_id source))\<rparr> options) (\<lambda>st.
          Inr (AList.update i st repo, i))))"

section \<open>The contract of a storage\<close>

definition lane_idle :: "session_state \<Rightarrow> string \<Rightarrow> bool" where
  "lane_idle s lane = (open_in lane (ss_records s) = [])"

definition single_open :: "session_state \<Rightarrow> bool" where
  "single_open s = (\<forall>lane. length (open_in lane (ss_records s)) \<le> 1)"

lemma single_open_snoc:
  assumes "\<forall>lane. length (open_in lane rs) \<le> 1"
    and "rec_kind r = OperationStartedType \<longrightarrow> open_in (rec_lane r) rs = []"
  shows "length (open_in lane (rs @ [r])) \<le> 1"
proof (cases "starts_in lane r")
  case True
  with assms(2) show ?thesis by (auto simp: open_in_snoc starts_in_def)
next
  case False
  have "length (filter (\<lambda>x. \<not> finishes_in lane (rec_id x) r) (open_in lane rs)) \<le> length (open_in lane rs)"
    by (rule length_filter_le)
  also have "\<dots> \<le> 1" using assms(1) by blast
  finally show ?thesis using False by (simp add: open_in_snoc)
qed

lemma applyMutation_records:
  "applyMutation s m = Inr s' \<Longrightarrow>
   ss_records s' = ss_records s @ (case m of RecordMutation r \<Rightarrow> [r] | _ \<Rightarrow> [])"
  by (cases m) (auto simp: applyMutation_def applyEntry_def applyRecord_def applyLane_def
      applyName_def applyLabel_def)

text \<open>One rule per operation that changes a storage; a failing operation is no step.\<close>

inductive storage_step :: "'st storage_ops \<Rightarrow> 'st \<Rightarrow> 'st \<Rightarrow> bool" for ops where
  step_createLane: "so_createLane ops st lane target = Inr st' \<Longrightarrow> storage_step ops st st'"
| step_moveLane: "so_moveLane ops st lane target = Inr st' \<Longrightarrow> storage_step ops st st'"
| step_appendEntry: "so_appendEntry ops now st p lane = Inr (st', e) \<Longrightarrow> storage_step ops st st'"
| step_appendRecord: "so_appendRecord ops now st r = Inr (st', x) \<Longrightarrow> storage_step ops st st'"
| step_setName: "so_setName ops st name = Inr st' \<Longrightarrow> storage_step ops st st'"
| step_setLabel: "so_setLabel ops st i label = Inr st' \<Longrightarrow> storage_step ops st st'"

inductive storage_reachable :: "'st storage_ops \<Rightarrow> 'st \<Rightarrow> 'st \<Rightarrow> bool" for ops st0 where
  reach_start: "storage_reachable ops st0 st0"
| reach_step: "storage_reachable ops st0 st \<Longrightarrow> storage_step ops st st' \<Longrightarrow> storage_reachable ops st0 st'"

inductive_cases storage_stepE: "storage_step ops st st'"

locale session_storage =
  fixes ops :: "'st storage_ops" and view :: "'st \<Rightarrow> session_state"
  assumes appendEntry_law:
      "so_appendEntry ops now st p lane = Inr (st', e) \<Longrightarrow>
       entry_id e = prov_id p \<and> entry_payload e = prov_payload p \<and> entry_timestamp e = now \<and>
       requireLane (view st) lane = Inr (entry_parentId e) \<and>
       applyMutation (view st) (EntryMutation (Some lane) e) = Inr (view st')"
    and appendRecord_law:
      "so_appendRecord ops now st r = Inr (st', x) \<Longrightarrow> wf_state (view st) \<Longrightarrow>
       rec_id x = new_id r \<and> rec_lane x = new_lane r \<and> rec_body x = new_body r \<and> rec_timestamp x = now \<and>
       (body_type (new_body r) = OperationStartedType \<longrightarrow> lane_idle (view st) (new_lane r)) \<and>
       applyMutation (view st) (RecordMutation x) = Inr (view st')"
    and createLane_law:
      "so_createLane ops st lane target = Inr st' \<Longrightarrow>
       map_of (ss_lanes (view st)) lane = None \<and>
       applyMutation (view st) (LaneMutation (nextSequence (view st)) lane target) = Inr (view st')"
    and moveLane_law:
      "so_moveLane ops st lane to = Inr st' \<Longrightarrow>
       map_of (ss_lanes (view st)) lane \<noteq> None \<and>
       applyMutation (view st) (LaneMutation (nextSequence (view st)) lane to) = Inr (view st')"
    and setName_law:
      "so_setName ops st name = Inr st' \<Longrightarrow>
       applyMutation (view st) (NameMutation (nextSequence (view st)) name) = Inr (view st')"
    and setLabel_law:
      "so_setLabel ops st i label = Inr st' \<Longrightarrow>
       applyMutation (view st) (LabelMutation (nextSequence (view st)) i label) = Inr (view st')"
    and getLanes_law: "so_getLanes ops st = ss_lanes (view st)"
    and getEntry_law: "so_getEntry ops st i = getEntry (view st) i"
    and getName_law: "so_getName ops st = ss_name (view st)"
    and getLabel_law: "so_getLabel ops st i = ss_labels (view st) i"
    and findEntries_law: "so_findEntries ops st q = findEntries (view st) q"
    and findEntriesOnBranch_law: "so_findEntriesOnBranch ops st q b i = findEntriesOnBranch (view st) q b i"
    and findRecords_law: "so_findRecords ops st rq = findRecords (view st) rq"
    and findOpenOperations_law: "so_findOpenOperations ops st lane limit = findOpenOperations (view st) lane limit"
    and getLog_law: "so_getLog ops st options = getLog (view st) options"
    and getStats_law: "so_getStats ops st = ss_stats (view st)"
begin

lemma appendEntry_wf:
  "wf_state (view st) \<Longrightarrow> so_appendEntry ops now st p lane = Inr (st', e) \<Longrightarrow> wf_state (view st')"
  using appendEntry_law wf_applyMutation by blast

lemma appendRecord_wf:
  "wf_state (view st) \<Longrightarrow> so_appendRecord ops now st r = Inr (st', x) \<Longrightarrow> wf_state (view st')"
  using appendRecord_law wf_applyMutation by blast

lemma createLane_wf:
  "wf_state (view st) \<Longrightarrow> so_createLane ops st lane target = Inr st' \<Longrightarrow> wf_state (view st')"
  using createLane_law wf_applyMutation by blast

lemma moveLane_wf:
  "wf_state (view st) \<Longrightarrow> so_moveLane ops st lane to = Inr st' \<Longrightarrow> wf_state (view st')"
  using moveLane_law wf_applyMutation by blast

lemma setName_wf:
  "wf_state (view st) \<Longrightarrow> so_setName ops st name = Inr st' \<Longrightarrow> wf_state (view st')"
  using setName_law wf_applyMutation by blast

lemma setLabel_wf:
  "wf_state (view st) \<Longrightarrow> so_setLabel ops st i label = Inr st' \<Longrightarrow> wf_state (view st')"
  using setLabel_law wf_applyMutation by blast

lemma appendEntry_leaf:
  assumes "so_appendEntry ops now st p lane = Inr (st', e)"
  shows "map_of (so_getLanes ops st') lane = Some (Some (prov_id p))"
proof -
  have "applyEntry (view st) (Some lane) e = Inr (view st')" and "entry_id e = prov_id p"
    using appendEntry_law [OF assms] by (auto simp: applyMutation_def)
  then show ?thesis
    by (auto simp: getLanes_law update_conv' elim: applyEntry_cases)
qed

lemma appendEntry_lookup:
  assumes "wf_state (view st)" and "so_appendEntry ops now st p lane = Inr (st', e)"
  shows "so_getEntry ops st' (prov_id p) = Some e \<and>
    (\<forall>i. i \<noteq> prov_id p \<longrightarrow> so_getEntry ops st' i = so_getEntry ops st i)"
proof -
  have "applyEntry (view st) (Some lane) e = Inr (view st')" and "entry_id e = prov_id p"
    using appendEntry_law [OF assms(2)] by (auto simp: applyMutation_def)
  then show ?thesis
    by (auto simp: getEntry_law getEntry_def update_conv' elim: applyEntry_cases)
qed

lemma step_is_mutation:
  assumes "storage_step ops st st'" and "wf_state (view st)"
  shows "\<exists>m. applyMutation (view st) m = Inr (view st') \<and>
    (\<forall>r. m = RecordMutation r \<longrightarrow> rec_kind r = OperationStartedType \<longrightarrow> lane_idle (view st) (rec_lane r))"
  using assms
proof (induction rule: storage_step.induct)
  case (step_appendRecord now st r st' x)
  note law = appendRecord_law [OF step_appendRecord(1,2)]
  show ?case by (rule exI [of _ "RecordMutation x"]) (use law in auto)
qed (blast dest: createLane_law moveLane_law appendEntry_law setName_law setLabel_law)+

lemma step_invariant:
  assumes "storage_step ops st st'" and "wf_state (view st)" and "single_open (view st)"
  shows "wf_state (view st') \<and> single_open (view st')"
proof -
  from step_is_mutation [OF assms(1,2)] obtain m where
    m: "applyMutation (view st) m = Inr (view st')"
    and idle: "\<And>r. m = RecordMutation r \<Longrightarrow> rec_kind r = OperationStartedType \<Longrightarrow>
                 open_in (rec_lane r) (ss_records (view st)) = []"
    by (auto simp: lane_idle_def)
  have "length (open_in lane (ss_records (view st'))) \<le> 1" for lane
    using assms(3) single_open_snoc [of "ss_records (view st)"] idle
    by (cases m) (auto simp: applyMutation_records [OF m] single_open_def)
  then show ?thesis
    using wf_applyMutation [OF assms(2) m] by (simp add: single_open_def)
qed

lemma reachable_invariant:
  assumes "storage_reachable ops st0 st" and "wf_state (view st0)" and "single_open (view st0)"
  shows "wf_state (view st) \<and> single_open (view st)"
  using assms
proof (induction rule: storage_reachable.induct)
  case reach_start
  then show ?case by simp
next
  case (reach_step st st')
  then show ?case using step_invariant by blast
qed

lemma appendEntry_branch:
  assumes wf: "wf_state (view st)" and ok: "so_appendEntry ops now st p lane = Inr (st', e)"
  shows "branch_path (view st') (prov_id p) =
    e # (case entry_parentId e of None \<Rightarrow> [] | Some i \<Rightarrow> branch_path (view st) i)"
proof -
  note law = appendEntry_law [OF ok] and wf' = appendEntry_wf [OF wf ok]
  have ent: "ss_entries (view st') = ss_entries (view st) @ [e]"
    using law by (auto simp: applyMutation_def elim: applyEntry_cases)
  have e: "getEntry (view st') (prov_id p) = Some e"
    using appendEntry_lookup [OF wf ok] by (simp add: getEntry_law)
  have "entry_id e \<notin> entry_id ` set (ss_entries (view st))"
    using wf_parts(1) [OF wf'] ent by (simp add: wf_ids_def)
  from keyed_snoc_le [OF this] have mono: "getEntry (view st) \<subseteq>\<^sub>m getEntry (view st')"
    unfolding getEntry_keyed [OF wf_parts(1) [OF wf]] getEntry_keyed [OF wf_parts(1) [OF wf']] ent .
  have "prov_id p \<in> entry_ids (view st')" by (rule getEntry_known [OF wf' e])
  note path = walkToRoot_wf(1) [OF wf' this]
  show ?thesis
  proof (cases "entry_parentId e")
    case None
    have "chain (getEntry (view st')) (Some (prov_id p)) [e]" using e None by simp
    with path chain_unique None show ?thesis by fastforce
  next
    case (Some i)
    have "i \<in> entry_ids (view st)" using law Some requireLane_known [OF wf, of lane i] by simp
    from chain_mono [OF walkToRoot_wf(1) [OF wf this] mono] e Some
    have "chain (getEntry (view st')) (Some (prov_id p)) (e # branch_path (view st) i)" by simp
    with path chain_unique Some show ?thesis by fastforce
  qed
qed

end

text \<open>The in-memory storage fulfils the contract.\<close>

lemma mem_apply_view: "mem_apply st m = Inr st' \<longleftrightarrow> (\<exists>s'. applyMutation (ms_state st) m = Inr s' \<and> st' = st\<lparr>ms_state := s'\<rparr>)"
  by (auto simp: mem_apply_def)

lemma open_limit_one:
  assumes "wf_state s" and "findOpenOperations s lane (Some (JsInt 1)) = Inr []"
  shows "lane_idle s lane"
  using assms findOpenOperations_wf [OF assms(1), of "Some (JsInt 1)" lane]
  by (simp add: assertValidLimit_def limit_nat_def lane_idle_def)

interpretation mem: session_storage memory_ops ms_state
proof (unfold_locales, goal_cases)
  case (1 now st p lane st' e)
  then show ?case by (auto simp: memory_ops_def mem_appendEntry_def mem_apply_view Let_def)
next
  case (2 now st r st' x)
  then show ?case
    by (auto simp: memory_ops_def mem_appendRecord_def mem_apply_view Let_def intro: open_limit_one split: if_splits)
next
  case (3 st lane target st')
  then show ?case by (auto simp: memory_ops_def mem_createLane_def mem_apply_view validateNewLane_def)
next
  case (4 st lane to st')
  then show ?case
    by (auto simp: memory_ops_def mem_moveLane_def mem_apply_view requireLane_def split: option.splits)
next
  case (5 st name st')
  then show ?case by (auto simp: memory_ops_def mem_setName_def mem_apply_view)
next
  case (6 st i label st')
  then show ?case by (auto simp: memory_ops_def mem_setLabel_def mem_apply_view)
qed (simp_all add: memory_ops_def getLanes_def getName_def getLabel_def getStats_def)

section \<open>Forks and the repository\<close>

lemma rfold_mem_apply:
  "rfold mem_apply st ms = rbind (rfold applyMutation (ms_state st) ms) (\<lambda>s. Inr (st\<lparr>ms_state := s\<rparr>))"
  by (induction ms arbitrary: st) (auto simp: mem_apply_def rbind_assoc)

lemma mem_fork_copies:
  assumes wf: "wf_state (ms_state st)" and sel: "fork_selection (ms_state st) options = Inr (copied, lanes)"
  shows "\<exists>st'. mem_fork st md options = Inr st' \<and> ms_metadata st' = md \<and> wf_state (ms_state st') \<and>
     ss_entries (ms_state st') = renumber 1 copied \<and> map_of (ss_lanes (ms_state st')) = map_of lanes \<and>
     ss_records (ms_state st') = [] \<and> ss_name (ms_state st') = ss_name (ms_state st) \<and>
     ss_labels (ms_state st') = ss_labels (ms_state st) |` (entry_id ` set copied)"
proof -
  obtain ms where ms: "createForkMutations (ms_state st) options = Inr ms"
    using sel by (auto simp: createForkMutations_def Let_def)
  from fork_replay [OF wf sel ms] obtain s where s: "rfold applyMutation initial_state ms = Inr s"
    "wf_state s" "ss_entries s = renumber 1 copied" "map_of (ss_lanes s) = map_of lanes" "ss_records s = []"
    "ss_name s = ss_name (ms_state st)" "ss_labels s = ss_labels (ms_state st) |` (entry_id ` set copied)" by blast
  have "mem_fork st md options = Inr (\<lparr>ms_metadata = md, ms_state = s\<rparr>)"
    by (simp add: mem_fork_def ms rfold_mem_apply new_memory_storage_def s(1))
  then show ?thesis using s by simp
qed

lemma mem_fork_error: "wf_state (ms_state st) \<Longrightarrow> mem_fork st md options = Inl e \<Longrightarrow> e = InvalidForkTarget"
proof -
  assume wf: "wf_state (ms_state st)" and err: "mem_fork st md options = Inl e"
  show ?thesis
  proof (cases "createForkMutations (ms_state st) options")
    case (Inl e')
    with err createForkMutations_error [OF wf] show ?thesis by (simp add: mem_fork_def)
  next
    case (Inr ms)
    then obtain copied lanes where "fork_selection (ms_state st) options = Inr (copied, lanes)"
      by (auto simp: createForkMutations_def)
    from mem_fork_copies [OF wf this, of md] err show ?thesis by simp
  qed
qed

definition repo_wf :: "memory_repo \<Rightarrow> bool" where
  "repo_wf repo \<longleftrightarrow> distinct (map fst repo) \<and>
     (\<forall>(i, st) \<in> set repo. md_id (ms_metadata st) = i \<and> wf_state (ms_state st) \<and> single_open (ms_state st))"

lemma single_open_no_records: "ss_records s = [] \<Longrightarrow> single_open s"
  by (simp add: single_open_def)

lemma new_memory_storage_ok:
  "wf_state (ms_state (new_memory_storage md))" "single_open (ms_state (new_memory_storage md))"
  "ms_metadata (new_memory_storage md) = md"
  by (simp_all add: new_memory_storage_def wf_initial single_open_no_records initial_parts)

lemma alist_update_mem: "x \<in> set (AList.update k v xs) \<Longrightarrow> x = (k, v) \<or> x \<in> set xs"
  by (induction xs) (auto split: if_splits)

lemma mem_step_metadata: "storage_step memory_ops st st' \<Longrightarrow> ms_metadata st' = ms_metadata st"
  by (auto simp: memory_ops_def mem_createLane_def mem_moveLane_def mem_appendEntry_def mem_appendRecord_def
      mem_setName_def mem_setLabel_def mem_apply_view Let_def elim!: storage_stepE split: if_splits)

lemma repo_wf_update:
  assumes "repo_wf repo" and "md_id (ms_metadata st) = i" "wf_state (ms_state st)" "single_open (ms_state st)"
  shows "repo_wf (AList.update i st repo)"
  using assms by (auto simp: repo_wf_def distinct_map_fst_update dest!: alist_update_mem)

text \<open>The operations of \<^verbatim>\<open>InMemorySessionRepo\<close>, and a storage step of one of its sessions.\<close>

inductive repo_step :: "memory_repo \<Rightarrow> memory_repo \<Rightarrow> bool" where
  repo_step_create: "repo_create uuid now repo options = Inr (repo', i) \<Longrightarrow> repo_step repo repo'"
| repo_step_fork: "repo_fork uuid now repo source options create = Inr (repo', i) \<Longrightarrow> repo_step repo repo'"
| repo_step_delete: "repo_step repo (repo_delete repo metadata)"
| repo_step_session: "map_of repo i = Some st \<Longrightarrow> storage_step memory_ops st st' \<Longrightarrow>
    repo_step repo (AList.update i st' repo)"

lemma repo_step_wf:
  assumes "repo_step repo repo'" and "repo_wf repo"
  shows "repo_wf repo'"
  using assms
proof (cases rule: repo_step.cases)
  case (repo_step_create uuid now options i)
  then show ?thesis
    using assms(2) new_memory_storage_ok
    by (auto simp: repo_create_def Let_def intro!: repo_wf_update)
next
  case (repo_step_fork uuid now source options create i)
  then obtain src md st' where src: "repo_requireStorage repo (md_id source) = Inr src"
    and f: "mem_fork src md options = Inr st'" and md: "md_id md = i" and repo': "repo' = AList.update i st' repo"
    by (auto simp: repo_fork_def Let_def)
  have "wf_state (ms_state src)"
    using src assms(2) by (auto simp: repo_requireStorage_def repo_wf_def dest!: map_of_SomeD split: option.splits)
  moreover obtain copied lanes where "fork_selection (ms_state src) options = Inr (copied, lanes)"
    using f by (auto simp: mem_fork_def createForkMutations_def)
  ultimately have "ms_metadata st' = md \<and> wf_state (ms_state st') \<and> single_open (ms_state st')"
    using mem_fork_copies [of src options copied lanes md] f by (auto intro: single_open_no_records)
  with assms(2) md show ?thesis unfolding repo' by (intro repo_wf_update) auto
next
  case (repo_step_delete metadata)
  then show ?thesis
    using assms(2) by (auto simp: repo_delete_def repo_wf_def AList.delete_eq distinct_map_filter)
next
  case (repo_step_session i st st')
  then have "(i, st) \<in> set repo" by (auto dest: map_of_SomeD)
  then have "md_id (ms_metadata st) = i" "wf_state (ms_state st)" "single_open (ms_state st)"
    using assms(2) by (auto simp: repo_wf_def)
  with mem.step_invariant [OF repo_step_session(3)] mem_step_metadata [OF repo_step_session(3)] show ?thesis
    unfolding repo_step_session(1) by (intro repo_wf_update assms(2)) auto
qed

section \<open>Properties of the storage\<close>

definition sample_metadata :: session_metadata where
  "sample_metadata = \<lparr>md_id = ''s'', md_createdAt = 1, md_parentSessionId = None\<rparr>"

definition sample_storage :: memory_storage where
  "sample_storage = \<lparr>ms_metadata = sample_metadata, ms_state = sample_state\<rparr>"

text \<open>C2: Every state that a sequence of successful storage operations can reach from a fresh in-memory storage is
  well-formed, and no lane of it has two open operations.\<close>

theorem memory_storage_invariant:
  assumes "storage_reachable memory_ops (new_memory_storage metadata) st"
  shows "wf_state (ms_state st) \<and> single_open (ms_state st)"
  by (rule mem.reachable_invariant [OF assms]) (rule new_memory_storage_ok)+

lemma sample_step:
  "storage_step memory_ops (new_memory_storage sample_metadata)
     ((new_memory_storage sample_metadata)\<lparr>ms_state := initial_state\<lparr>ss_sequence := 1, ss_name := Some ''n'', ss_log := [NameItem 1 (Some ''n'')]\<rparr>\<rparr>)"
  by (rule step_setName [of _ _ "Some ''n''"])
    (simp add: memory_ops_def mem_setName_def mem_apply_def applyMutation_def applyName_def new_memory_storage_def
      nextSequence_def initial_state_def)

theorem memory_storage_invariant_witness:
  "let st = (new_memory_storage sample_metadata)\<lparr>ms_state := initial_state\<lparr>ss_sequence := 1, ss_name := Some ''n'',
               ss_log := [NameItem 1 (Some ''n'')]\<rparr>\<rparr>
   in wf_state (ms_state st) \<and> single_open (ms_state st)"
  unfolding Let_def
  by (rule memory_storage_invariant [of sample_metadata]) (rule reach_step [OF reach_start sample_step])

text \<open>A successful append gives the entry the id, the payload and the time it was asked for, makes it the leaf of the
  lane, finds it by id, leaves every other lookup as it was, and the path of the new leaf is the entry
  followed by the former path of the lane.\<close>

theorem append_extends_branch:
  assumes "wf_state (ms_state st)" and "mem_appendEntry now st p lane = Inr (st', e)"
  shows "entry_id e = prov_id p \<and> entry_payload e = prov_payload p \<and> entry_timestamp e = now \<and>
    map_of (getLanes (ms_state st')) lane = Some (Some (prov_id p)) \<and>
    getEntry (ms_state st') (prov_id p) = Some e \<and>
    (\<forall>i. i \<noteq> prov_id p \<longrightarrow> getEntry (ms_state st') i = getEntry (ms_state st) i) \<and>
    branch_path (ms_state st') (prov_id p) =
      e # (case entry_parentId e of None \<Rightarrow> [] | Some i \<Rightarrow> branch_path (ms_state st) i)"
proof -
  have ok: "so_appendEntry memory_ops now st p lane = Inr (st', e)" using assms(2) by (simp add: memory_ops_def)
  show ?thesis
    using mem.appendEntry_law [OF ok] mem.appendEntry_leaf [OF ok] mem.appendEntry_lookup [OF assms(1) ok]
      mem.appendEntry_branch [OF assms(1) ok]
    by (simp add: memory_ops_def)
qed

definition sample_new :: provisioned_entry where
  "sample_new = \<lparr>prov_id = ''n'', prov_payload = ThinkingLevelPayload ''low''\<rparr>"

lemma sample_append: "\<exists>st' e. mem_appendEntry 20 sample_storage sample_new ''main'' = Inr (st', e)"
  by (simp add: mem_appendEntry_def sample_storage_def sample_new_def requireLane_def validateUnusedId_def mem_apply_def
      applyMutation_def applyEntry_def nextSequence_def hasEntry_def sample_state_def Let_def)

theorem append_extends_branch_witness:
  "\<exists>st' e. mem_appendEntry 20 sample_storage sample_new ''main'' = Inr (st', e) \<and>
    map_of (getLanes (ms_state st')) ''main'' = Some (Some ''n'') \<and> getEntry (ms_state st') ''n'' = Some e"
proof -
  obtain st' e where ok: "mem_appendEntry 20 sample_storage sample_new ''main'' = Inr (st', e)" using sample_append by blast
  have "wf_state (ms_state sample_storage)" by (simp add: sample_storage_def sample_wf)
  from append_extends_branch [OF this ok] ok show ?thesis by (auto simp: sample_new_def)
qed

text \<open>Forking a storage with a valid selection gives a storage with the given metadata whose session is a well-formed
  copy of the selected entries, lanes, name and labels, without records.\<close>

theorem storage_fork_copies:
  assumes "wf_state (ms_state st)" and "fork_selection (ms_state st) options = Inr (copied, lanes)"
  shows "\<exists>st'. mem_fork st md options = Inr st' \<and> ms_metadata st' = md \<and> wf_state (ms_state st') \<and>
     ss_entries (ms_state st') = renumber 1 copied \<and> map_of (ss_lanes (ms_state st')) = map_of lanes \<and>
     ss_records (ms_state st') = [] \<and> ss_name (ms_state st') = ss_name (ms_state st) \<and>
     ss_labels (ms_state st') = ss_labels (ms_state st) |` (entry_id ` set copied)"
  by (rule mem_fork_copies [OF assms])

theorem storage_fork_copies_witness:
  "\<exists>st'. mem_fork sample_storage sample_metadata (ForkBranch (Some ''a'') (Some ForkAt)) = Inr st' \<and>
     ss_entries (ms_state st') = renumber 1 [sample_message] \<and> ss_records (ms_state st') = []"
proof -
  have "walkToRoot sample_state (Some ''a'') no_bounds = ([sample_message], None)"
    by (simp add: walkToRoot_def walk_from.simps sample_state_def sample_defs)
  then have "fork_selection (ms_state sample_storage) (ForkBranch (Some ''a'') (Some ForkAt))
      = Inr ([sample_message], [(''main'', Some ''a'')])"
    by (simp add: fork_selection_def fork_target_def getEntry_def findEntriesOnBranch_def all_entries_query_def
        sample_storage_def matchesEntryQuery_def limit_reached_def)
      (simp add: sample_state_def sample_defs)
  from storage_fork_copies [OF _ this, of sample_metadata] sample_wf show ?thesis
    by (auto simp: sample_storage_def)
qed

text \<open>Creating, forking and deleting sessions of the in-memory repository, and operating on one of its sessions, keep
  session ids unique, every storage filed under its own id, and every session well-formed with at most one
  open operation per lane.\<close>

theorem repository_invariant: "repo_step repo repo' \<Longrightarrow> repo_wf repo \<Longrightarrow> repo_wf repo'"
  by (rule repo_step_wf)

lemma sample_create:
  "repo_create ''s'' 1 [] \<lparr>co_id = None, co_parentSessionId = None\<rparr> = Inr ([(''s'', new_memory_storage sample_metadata)], ''s'')"
  by (simp add: repo_create_def sample_metadata_def Let_def)

theorem repository_invariant_witness: "repo_wf [(''s'', new_memory_storage sample_metadata)]"
  by (rule repository_invariant [OF repo_step_create [OF sample_create]]) (simp add: repo_wf_def)

end
