(* ===== verification/Js_Value.thy ===== *)
theory Js_Value
  imports Session_Types "HOL-Library.Multiset"
begin

text \<open>
  JavaScript values as \<^verbatim>\<open>assertJsonSerializable\<close> of
  \<^verbatim>\<open>packages/agent/src/harness/session/session.ts\<close> sees them: primitives, and references into a
  heap of arrays and objects, so that sharing and cycles exist.  The validation loop keeps its
  explicit stack and its set of active objects.  It accepts a value exactly when the value
  unfolds to a finite JSON tree.
\<close>

section \<open>The heap\<close>

datatype jsval =
    VUndefined
  | VNull
  | VBool bool
  | VNum jsnum
  | VStr string
  | VBigInt int
  | VSymbol
  | VFunction
  | VRef nat

text \<open>
  A property descriptor has a value, or is an accessor (\<open>None\<close>).  An array has its slots by
  index (a hole is \<open>None\<close>), its \<^verbatim>\<open>length\<close> property and other named properties; any other object
  has its named properties in enumeration order.  Symbol-keyed properties are counted.
\<close>

record jsprop =
  prop_key :: string
  prop_enumerable :: bool
  prop_value :: "jsval option"

datatype jsproto = ArrayPrototype | ObjectPrototype | NullPrototype | OtherPrototype

datatype jsobj =
    ArrayObject jsproto nat "jsprop option list" "jsprop list"
  | OtherObject jsproto nat "jsprop list"

type_synonym jsheap = "jsobj list"

definition heap_get :: "jsheap \<Rightarrow> nat \<Rightarrow> jsobj option" where
  "heap_get h l = (if l < length h then Some (h ! l) else None)"

definition alloc :: "jsheap \<Rightarrow> jsobj \<Rightarrow> jsheap \<times> jsval" where
  "alloc h x = (h @ [x], VRef (length h))"

text \<open>An object literal: enumerable data properties, the standard prototype.\<close>

definition object_literal :: "(string \<times> jsval) list \<Rightarrow> jsobj" where
  "object_literal ps =
     OtherObject ObjectPrototype 0
       (map (\<lambda>(k, v). \<lparr>prop_key = k, prop_enumerable = True, prop_value = Some v\<rparr>) ps)"

section \<open>The validation loop\<close>

datatype validation_frame = ValueFrame jsval | ExitFrame nat

text \<open>\<^verbatim>\<open>Object.getOwnPropertyNames(candidate).length\<close> of an array: its \<^verbatim>\<open>length\<close>, the slots and the rest.\<close>

definition array_name_count :: "jsprop option list \<Rightarrow> jsprop list \<Rightarrow> nat" where
  "array_name_count slots named = 1 + length (filter (\<lambda>s. s \<noteq> None) slots) + length named"

definition push_slot :: "validation_frame list \<Rightarrow> jsprop option \<Rightarrow> validation_frame list session_result" where
  "push_slot stack slot =
     (case slot of None \<Rightarrow> Inl InvalidPayload
      | Some d \<Rightarrow> (case prop_value d of None \<Rightarrow> Inl InvalidPayload
                   | Some v \<Rightarrow> Inr (ValueFrame v # stack)))"

text \<open>The frames pushed for the contents of an object, after the checks on its shape.\<close>

definition push_contents :: "validation_frame list \<Rightarrow> jsobj \<Rightarrow> validation_frame list session_result" where
  "push_contents stack obj =
     (case obj of
        ArrayObject proto symbols slots named \<Rightarrow>
          rbind (rcheck InvalidPayload (proto = ArrayPrototype)) (\<lambda>_.
          rbind (rcheck InvalidPayload
                  (\<not> (symbols > 0 \<or> array_name_count slots named \<noteq> length slots + 1))) (\<lambda>_.
          rfold push_slot stack (rev slots)))
      | OtherObject proto symbols props \<Rightarrow>
          rbind (rcheck InvalidPayload (proto = ObjectPrototype \<or> proto = NullPrototype)) (\<lambda>_.
          rbind (rcheck InvalidPayload (\<not> symbols > 0)) (\<lambda>_.
          let keys = filter prop_enumerable props in
          rbind (rcheck InvalidPayload (length props = length keys)) (\<lambda>_.
          rfold push_slot stack (rev (map Some keys))))))"

lemma push_slot_eq:
  "push_slot stack s = Inr stack' \<longleftrightarrow>
   (\<exists>v. Option.bind s prop_value = Some v \<and> stack' = ValueFrame v # stack)"
  by (auto simp: push_slot_def bind_eq_Some_conv split: option.splits)

lemma push_slots_eq:
  "rfold push_slot stack (rev slots) = Inr stack' \<longleftrightarrow>
   (\<exists>vs. map (\<lambda>s. Option.bind s prop_value) slots = map Some vs \<and> stack' = map ValueFrame vs @ stack)"
proof (induction slots arbitrary: stack')
  case Nil
  then show ?case by auto
next
  case (Cons s slots)
  show ?case
    by (auto simp: rfold_append Cons.IH push_slot_eq Cons_eq_map_conv)
qed

lemma push_contents_frames:
  assumes "push_contents stack obj = Inr stack'"
  shows "\<exists>vs. stack' = map ValueFrame vs @ stack"
  using assms
  by (auto simp: push_contents_def push_slots_eq Let_def split: jsobj.splits)

text \<open>
  Termination: a value frame counts by the number of heap objects that are not active when it
  is reached (the exit frames above it have then been undone).  Entering an object replaces its
  frame by frames that count less; leaving one shortens the stack.
\<close>

fun stack_weight :: "jsheap \<Rightarrow> nat set \<Rightarrow> validation_frame list \<Rightarrow> nat multiset" where
  "stack_weight h active [] = {#}"
| "stack_weight h active (ValueFrame v # stack) =
     add_mset (card ({..<length h} - active)) (stack_weight h active stack)"
| "stack_weight h active (ExitFrame l # stack) = stack_weight h (active - {l}) stack"

lemma stack_weight_values:
  "stack_weight h active (map ValueFrame vs @ stack) =
   replicate_mset (length vs) (card ({..<length h} - active)) + stack_weight h active stack"
  by (induction vs) auto

lemma stack_weight_enter:
  assumes "l < length h" and "l \<notin> active" and "push_contents (ExitFrame l # stack) obj = Inr stack'"
  shows "(stack_weight h (insert l active) stack', stack_weight h active (ValueFrame v # stack)) \<in> mult less_than"
proof -
  obtain vs where vs: "stack' = map ValueFrame vs @ ExitFrame l # stack"
    using push_contents_frames [OF assms(3)] by blast
  have "card ({..<length h} - insert l active) < card ({..<length h} - active)"
    using assms(1,2) by (intro card_Diff_insert_less) auto
  then show ?thesis
    using assms(2) one_step_implies_mult [of "{#card ({..<length h} - active)#}"
        "replicate_mset (length vs) (card ({..<length h} - insert l active))" less_than
        "stack_weight h active stack"]
    by (auto simp: vs stack_weight_values add.commute in_replicate_mset)
qed

lemma mult_add_mset: "(M, add_mset x M) \<in> mult r"
  using one_step_implies_mult [of "{#x#}" "{#}" r M] by simp

function validate_loop :: "jsheap \<Rightarrow> nat set \<Rightarrow> validation_frame list \<Rightarrow> unit session_result" where
  "validate_loop h active [] = Inr ()"
| "validate_loop h active (ExitFrame l # stack) = validate_loop h (active - {l}) stack"
| "validate_loop h active (ValueFrame v # stack) =
     (case v of
        VNull \<Rightarrow> validate_loop h active stack
      | VStr _ \<Rightarrow> validate_loop h active stack
      | VBool _ \<Rightarrow> validate_loop h active stack
      | VNum x \<Rightarrow> if js_is_finite x then validate_loop h active stack else Inl InvalidPayload
      | VRef l \<Rightarrow>
          if l \<in> active then Inl InvalidPayload
          else (case heap_get h l of
                  None \<Rightarrow> Inl InvalidPayload
                | Some obj \<Rightarrow>
                    (case push_contents (ExitFrame l # stack) obj of
                       Inl e \<Rightarrow> Inl e
                     | Inr stack' \<Rightarrow> validate_loop h (insert l active) stack'))
      | _ \<Rightarrow> Inl InvalidPayload)"
  by pat_completeness auto

termination
proof (relation "inv_image (mult less_than <*lex*> less_than)
    (\<lambda>(h, active, stack). (stack_weight h active stack, length stack))", goal_cases)
  case 1
  then show ?case by (auto intro: wf_mult)
next
  case (7 h active v stack l obj stack')
  then show ?case using stack_weight_enter by (auto simp: heap_get_def split: if_splits)
qed (auto simp: mult_add_mset)

definition assertJsonSerializable :: "jsheap \<Rightarrow> jsval \<Rightarrow> unit session_result" where
  "assertJsonSerializable h v = validate_loop h {} [ValueFrame v]"

declare validate_loop.simps(3) [simp del]

section \<open>Accepted values are the finite JSON trees\<close>

text \<open>The values an object contributes to its JSON image, if its shape is a plain one.\<close>

definition plain_array :: "jsobj \<Rightarrow> jsval list \<Rightarrow> bool" where
  "plain_array obj vs = (\<exists>slots. obj = ArrayObject ArrayPrototype 0 slots [] \<and>
     map (\<lambda>s. Option.bind s prop_value) slots = map Some vs)"

definition plain_object :: "jsobj \<Rightarrow> (string \<times> jsval) list \<Rightarrow> bool" where
  "plain_object obj ps = (\<exists>proto props. obj = OtherObject proto 0 props \<and>
     proto \<in> {ObjectPrototype, NullPrototype} \<and> list_all prop_enumerable props \<and>
     map (\<lambda>p. (prop_key p, prop_value p)) props = map (\<lambda>(k, v). (k, Some v)) ps)"

inductive denotes :: "jsheap \<Rightarrow> jsval \<Rightarrow> json \<Rightarrow> bool" for h where
  denotes_null: "denotes h VNull JNull"
| denotes_bool: "denotes h (VBool b) (JBool b)"
| denotes_num: "js_is_finite x \<Longrightarrow> denotes h (VNum x) (JNum x)"
| denotes_str: "denotes h (VStr s) (JStr s)"
| denotes_array: "heap_get h l = Some obj \<Longrightarrow> plain_array obj vs \<Longrightarrow> list_all2 (denotes h) vs js \<Longrightarrow>
    denotes h (VRef l) (JArr js)"
| denotes_object: "heap_get h l = Some obj \<Longrightarrow> plain_object obj ps \<Longrightarrow>
    list_all2 (denotes h) (map snd ps) js \<Longrightarrow> denotes h (VRef l) (JObj (zip (map fst ps) js))"

lemma filter_all_length: "length (filter P xs) = length xs \<longleftrightarrow> list_all P xs"
  by (metis filter_True length_filter_less list_all_iff nat_neq_iff)

lemma push_contents_iff:
  "push_contents stack obj = Inr stack' \<longleftrightarrow>
   (\<exists>vs. plain_array obj vs \<and> stack' = map ValueFrame vs @ stack) \<or>
   (\<exists>ps. plain_object obj ps \<and> stack' = map ValueFrame (map snd ps) @ stack)"
proof (cases obj)
  case (ArrayObject proto symbols slots named)
  have "map (\<lambda>s. Option.bind s prop_value) slots = map Some vs \<Longrightarrow> list_all (\<lambda>s. s \<noteq> None) slots" for vs
    by (induction slots arbitrary: vs) (auto simp: Cons_eq_map_conv bind_eq_Some_conv)
  then have "push_contents stack obj = Inr stack' \<longleftrightarrow>
      (\<exists>vs. plain_array obj vs \<and> stack' = map ValueFrame vs @ stack)"
    using filter_all_length [of "\<lambda>s. s \<noteq> None" slots] length_filter_le [of "\<lambda>s. s \<noteq> None" slots]
    by (auto simp: ArrayObject push_contents_def push_slots_eq plain_array_def array_name_count_def)
  then show ?thesis by (simp add: ArrayObject plain_object_def)
next
  case (OtherObject proto symbols props)
  have "(\<exists>vs. map prop_value props = map Some vs \<and> stack' = map ValueFrame vs @ stack) \<longleftrightarrow>
    (\<exists>ps. map (\<lambda>p. (prop_key p, prop_value p)) props = map (\<lambda>(k, v). (k, Some v)) ps \<and>
      stack' = map ValueFrame (map snd ps) @ stack)" (is "?L \<longleftrightarrow> ?R")
  proof
    assume ?L
    then obtain vs where vs: "map prop_value props = map Some vs" "stack' = map ValueFrame vs @ stack" by blast
    from vs(1) have "map (\<lambda>p. (prop_key p, prop_value p)) props
        = map (\<lambda>(k, v). (k, Some v)) (zip (map prop_key props) vs)"
      by (induction props arbitrary: vs) (auto simp: Cons_eq_map_conv)
    moreover have "map snd (zip (map prop_key props) vs) = vs"
      using vs(1) by (metis length_map map_snd_zip)
    ultimately show ?R using vs(2) by (intro exI [of _ "zip (map prop_key props) vs"] conjI) simp_all
  next
    assume ?R
    then obtain ps where ps: "map (\<lambda>p. (prop_key p, prop_value p)) props = map (\<lambda>(k, v). (k, Some v)) ps"
      "stack' = map ValueFrame (map snd ps) @ stack" by blast
    from ps(1) have "map prop_value props = map Some (map snd ps)"
      by (induction props arbitrary: ps) (auto simp: Cons_eq_map_conv)
    with ps(2) show ?L by blast
  qed
  moreover have "push_contents stack obj = Inr stack' \<longleftrightarrow>
      proto \<in> {ObjectPrototype, NullPrototype} \<and> symbols = 0 \<and> list_all prop_enumerable props \<and>
      (\<exists>vs. map prop_value props = map Some vs \<and> stack' = map ValueFrame vs @ stack)"
  proof (cases "list_all prop_enumerable props")
    case True
    then have "filter prop_enumerable props = props" by (simp add: list_all_iff)
    with True show ?thesis by (auto simp: OtherObject push_contents_def push_slots_eq Let_def comp_def)
  next
    case False
    then have "length props \<noteq> length (filter prop_enumerable props)" by (metis filter_all_length)
    with False show ?thesis by (simp add: OtherObject push_contents_def Let_def)
  qed
  ultimately show ?thesis
    by (simp add: plain_object_def plain_array_def OtherObject) blast
qed

lemma denotes_list: "(\<And>v. v \<in> set vs \<Longrightarrow> \<exists>j. denotes h v j) \<Longrightarrow> \<exists>js. list_all2 (denotes h) vs js"
  by (induction vs) (auto simp: list_all2_Cons1)

lemma denotes_contents:
  assumes "heap_get h l = Some obj" and "push_contents stack obj = Inr stack'"
    and "\<And>v. ValueFrame v \<in> set stack' \<Longrightarrow> \<exists>j. denotes h v j"
  shows "\<exists>j. denotes h (VRef l) j"
  using assms(2) [unfolded push_contents_iff]
proof
  assume "\<exists>vs. plain_array obj vs \<and> stack' = map ValueFrame vs @ stack"
  then obtain vs where vs: "plain_array obj vs" "stack' = map ValueFrame vs @ stack" by blast
  then obtain js where "list_all2 (denotes h) vs js" using denotes_list [of vs h] assms(3) by auto
  with vs(1) assms(1) show ?thesis by (blast intro: denotes_array)
next
  assume "\<exists>ps. plain_object obj ps \<and> stack' = map ValueFrame (map snd ps) @ stack"
  then obtain ps where ps: "plain_object obj ps" "stack' = map ValueFrame (map snd ps) @ stack" by blast
  then obtain js where "list_all2 (denotes h) (map snd ps) js"
    using denotes_list [of "map snd ps" h] assms(3) by auto
  with ps(1) assms(1) show ?thesis by (blast intro: denotes_object)
qed

lemma validate_loop_sound:
  "validate_loop h active stack = Inr u \<Longrightarrow> ValueFrame v \<in> set stack \<Longrightarrow> \<exists>j. denotes h v j"
proof (induction h active stack arbitrary: v rule: validate_loop.induct)
  case (1 h active)
  then show ?case by simp
next
  case (2 h active l stack)
  then show ?case by simp
next
  case (3 h active w stack)
  show ?case
  proof (cases "w")
    case (VRef l)
    with 3(6) obtain obj stack' where obj: "l \<notin> active" "heap_get h l = Some obj"
      and push: "push_contents (ExitFrame l # stack) obj = Inr stack'"
      and run: "validate_loop h (insert l active) stack' = Inr u"
      by (auto simp: validate_loop.simps(3) split: if_splits option.splits sum.splits)
    note IH = 3(5) [OF VRef obj push run]
    have "ValueFrame x \<in> set stack \<Longrightarrow> ValueFrame x \<in> set stack'" for x
      using push_contents_frames [OF push] by auto
    then show ?thesis
      using 3(7) IH denotes_contents [OF obj(2) push] VRef by auto
  qed (use 3 in \<open>auto simp: validate_loop.simps(3) split: if_splits intro: denotes.intros\<close>)
qed

lemma size_list_mem: "j \<in> set js \<Longrightarrow> size j < size (JArr js)"
  by (induction js) auto

lemma size_zip_mem: "length ks = length js \<Longrightarrow> j \<in> set js \<Longrightarrow> size j < size (JObj (zip ks js))"
  by (induction ks js rule: list_induct2) auto

lemma validate_values:
  assumes "\<And>v. v \<in> set vs \<Longrightarrow> \<forall>stack. validate_loop h active (ValueFrame v # stack) = validate_loop h active stack"
  shows "validate_loop h active (map ValueFrame vs @ stack) = validate_loop h active stack"
  using assms by (induction vs) auto

lemma validate_enter:
  assumes "heap_get h l = Some obj" and "l \<notin> active"
    and "\<And>stack. push_contents stack obj = Inr (map ValueFrame vs @ stack)"
    and "\<And>v stack. v \<in> set vs \<Longrightarrow>
           validate_loop h (insert l active) (ValueFrame v # stack) = validate_loop h (insert l active) stack"
  shows "validate_loop h active (ValueFrame (VRef l) # stack) = validate_loop h active stack"
proof -
  have "validate_loop h active (ValueFrame (VRef l) # stack)
      = validate_loop h (insert l active) (map ValueFrame vs @ ExitFrame l # stack)"
    using assms(1-3) by (simp add: validate_loop.simps(3))
  also have "\<dots> = validate_loop h (insert l active - {l}) stack"
    using validate_values [of vs h "insert l active"] assms(4) by simp
  also have "insert l active - {l} = active" using assms(2) by blast
  finally show ?thesis .
qed

lemma plain_array_unique: "plain_array obj vs \<Longrightarrow> plain_array obj vs' \<Longrightarrow> vs' = vs"
  by (auto simp: plain_array_def inj_map_eq_map)

lemma plain_object_unique: "plain_object obj ps \<Longrightarrow> plain_object obj ps' \<Longrightarrow> ps' = ps"
  by (auto simp: plain_object_def inj_def intro!: inj_map_eq_map [THEN iffD1, of "\<lambda>(k, v). (k, Some v)" ps' ps])

lemma plain_disjoint: "plain_array obj vs \<Longrightarrow> \<not> plain_object obj ps"
  by (auto simp: plain_array_def plain_object_def)

lemma list_all2_unique:
  "list_all2 (\<lambda>v j. P v j \<and> (\<forall>j'. P v j' \<longrightarrow> j' = j)) vs js \<Longrightarrow> list_all2 P vs js' \<Longrightarrow> js' = js"
  by (induction vs js arbitrary: js' rule: list_all2_induct) (auto simp: list_all2_Cons1)

inductive_cases denotes_refE: "denotes h (VRef l) j"

lemma denotes_unique: "denotes h v j \<Longrightarrow> denotes h v j' \<Longrightarrow> j' = j"
proof (induction v j arbitrary: j' rule: denotes.induct)
  case (denotes_array l obj vs js)
  from denotes_array(4) show ?case
    by (rule denotes_refE)
      (use denotes_array(1-3) in \<open>auto dest: plain_array_unique plain_disjoint elim: list_all2_unique\<close>)
next
  case (denotes_object l obj ps js)
  from denotes_object(4) show ?case
    by (rule denotes_refE)
      (use denotes_object(1-3) in \<open>auto dest: plain_object_unique plain_disjoint list_all2_unique\<close>)
qed (auto elim: denotes.cases)

lemma validate_loop_complete:
  assumes "denotes h v j" and "\<And>l jl. l \<in> active \<Longrightarrow> denotes h (VRef l) jl \<Longrightarrow> size j < size jl"
  shows "validate_loop h active (ValueFrame v # stack) = validate_loop h active stack"
  using assms
proof (induction v j arbitrary: active stack rule: denotes.induct)
  case (denotes_array l obj vs js)
  have den: "denotes h (VRef l) (JArr js)"
    using denotes_array(1-3) by (auto intro: denotes.denotes_array elim: list_all2_mono)
  have "size x < size jl" if "x \<in> set js" "l' \<in> insert l active" "denotes h (VRef l') jl" for x l' jl
    using that denotes_array(4) den denotes_unique size_list_mem by (metis insertE order.strict_trans)
  then have "validate_loop h (insert l active) (ValueFrame w # stk) = validate_loop h (insert l active) stk"
    if "w \<in> set vs" for w stk
    using denotes_array(3) that by (fastforce simp: list_all2_conv_all_nth in_set_conv_nth)
  moreover have "l \<notin> active" using denotes_array(4) den by blast
  ultimately show ?case
    using denotes_array(1,2)
    by (intro validate_enter [of _ _ obj _ vs]) (auto simp: push_contents_iff)
next
  case (denotes_object l obj ps js)
  have den: "denotes h (VRef l) (JObj (zip (map fst ps) js))"
    using denotes_object(1-3) by (auto intro: denotes.denotes_object elim: list_all2_mono)
  have len: "length (map fst ps) = length js" using denotes_object(3) by (auto dest: list_all2_lengthD)
  have "size x < size jl" if "x \<in> set js" "l' \<in> insert l active" "denotes h (VRef l') jl" for x l' jl
    using that denotes_object(4) den denotes_unique size_zip_mem [OF len] by (metis insertE order.strict_trans)
  then have "validate_loop h (insert l active) (ValueFrame w # stk) = validate_loop h (insert l active) stk"
    if "w \<in> set (map snd ps)" for w stk
    using denotes_object(3) that by (fastforce simp: list_all2_conv_all_nth in_set_conv_nth)
  moreover have "l \<notin> active" using denotes_object(4) den by blast
  ultimately show ?case
    using denotes_object(1,2)
    by (intro validate_enter [of _ _ obj _ "map snd ps"]) (auto simp: push_contents_iff)
qed (auto simp: validate_loop.simps(3))

lemma assertJsonSerializable_ok: "assertJsonSerializable h v = Inr () \<longleftrightarrow> (\<exists>j. denotes h v j)"
  using validate_loop_sound [of h "{}" "[ValueFrame v]"] validate_loop_complete [of h v _ "{}" "[]"]
  by (auto simp: assertJsonSerializable_def)

lemma push_contents_error: "push_contents stack obj = Inl e \<Longrightarrow> e = InvalidPayload"
proof -
  have "rfold push_slot s xs = Inl e \<Longrightarrow> e = InvalidPayload" for s xs
    by (induction xs arbitrary: s) (auto simp: rbind_eq_Inl push_slot_def split: option.splits)
  moreover assume "push_contents stack obj = Inl e"
  ultimately show ?thesis by (auto simp: push_contents_def rbind_eq_Inl Let_def split: jsobj.splits)
qed

lemma validate_loop_error: "validate_loop h active stack = Inl e \<Longrightarrow> e = InvalidPayload"
proof (induction h active stack rule: validate_loop.induct)
  case (3 h active v stack)
  then show ?case
    by (cases v) (auto simp: validate_loop.simps(3) dest: push_contents_error split: if_splits option.splits sum.splits)
qed auto

section \<open>Properties of the payload check\<close>

text \<open>C39: The payload check always returns, and it accepts a JavaScript value exactly when the value unfolds to a finite JSON
  tree: only null, booleans, finite numbers, strings, dense standard arrays and plain objects with enumerable
  data properties, and no cycle.  Everything else is rejected as an invalid payload.\<close>

theorem json_payload_check:
  "assertJsonSerializable h v = (if \<exists>j. denotes h v j then Inr () else Inl InvalidPayload)"
proof (cases "assertJsonSerializable h v")
  case (Inl e)
  then have "e = InvalidPayload" by (simp add: assertJsonSerializable_def validate_loop_error)
  with Inl show ?thesis using assertJsonSerializable_ok [of h v] by auto
next
  case (Inr u)
  then show ?thesis using assertJsonSerializable_ok [of h v] by auto
qed

text \<open>A JavaScript value stands for at most one JSON tree.\<close>

theorem json_image_unique: "denotes h v j \<Longrightarrow> denotes h v j' \<Longrightarrow> j' = j"
  by (rule denotes_unique)

theorem json_image_unique_witness: "\<exists>!j. denotes [] (VBool True) j"
  using json_image_unique [OF denotes_bool] denotes_bool by blast

end
