(* ===== verification/Session_Facade.thy ===== *)
theory Session_Facade
  imports Session_Storage Js_Value
begin

text \<open>
  The class \<^verbatim>\<open>Session\<close> of \<^verbatim>\<open>packages/agent/src/harness/session/session.ts\<close>: validation in front
  of a \<^verbatim>\<open>SessionStorage\<close>, single-entry queries, lane views, and the appends that check that a
  payload is JSON before it reaches the storage.  Every method is a function of the storage
  operations and the storage value.  An object handed to an append is given twice: as the
  value in the heap, which \<^verbatim>\<open>assertJsonSerializable\<close> walks, and as its typed reading, which the
  storage keeps.  \<^verbatim>\<open>idGenerator.next()\<close> is an argument.
\<close>

section \<open>Queries\<close>

definition getLeafIdForLane :: "'st storage_ops \<Rightarrow> 'st \<Rightarrow> string \<Rightarrow> string option session_result" where
  "getLeafIdForLane ops st lane =
     (case List.find (\<lambda>p. fst p = lane) (so_getLanes ops st) of
        None \<Rightarrow> Inl InvalidLane
      | Some (_, leafId) \<Rightarrow> Inr leafId)"

definition with_limit :: "entry_query \<Rightarrow> jsnum option \<Rightarrow> entry_query" where
  "with_limit q resultLimit = (if resultLimit = eq_limit q then q else q\<lparr>eq_limit := resultLimit\<rparr>)"

definition queryEntries :: "'st storage_ops \<Rightarrow> 'st \<Rightarrow> entry_query \<Rightarrow> jsnum option \<Rightarrow> entry list session_result" where
  "queryEntries ops st q resultLimit =
     rbind (assertValidLimit (eq_limit q)) (\<lambda>_.
     rbind (assertValidCursor (eq_cursor q)) (\<lambda>_.
     so_findEntries ops st (with_limit q resultLimit)))"

definition queryBranchEntries ::
    "'st storage_ops \<Rightarrow> 'st \<Rightarrow> string \<Rightarrow> entry_query \<Rightarrow> branch_bounds \<Rightarrow> string option \<Rightarrow> jsnum option \<Rightarrow>
     entry list session_result" where
  "queryBranchEntries ops st defaultLane q b qstart resultLimit =
     rbind (assertValidLimit (eq_limit q)) (\<lambda>_.
     rbind (assertValidCursor (eq_cursor q)) (\<lambda>_.
     rbind (case qstart of Some i \<Rightarrow> Inr (Some i) | None \<Rightarrow> getLeafIdForLane ops st defaultLane) (\<lambda>start.
       case start of
         None \<Rightarrow> Inr []
       | Some i \<Rightarrow> so_findEntriesOnBranch ops st (with_limit q resultLimit) b i)))"

definition queryRecords :: "'st storage_ops \<Rightarrow> 'st \<Rightarrow> record_query \<Rightarrow> lane_record list session_result" where
  "queryRecords ops st q =
     rbind (assertValidLimit (rq_limit q)) (\<lambda>_.
     rbind (assertValidCursor (rq_afterSeq q)) (\<lambda>_.
     rbind (rcheck InvalidQuery
             (\<not> (rq_operationKind q \<noteq> None \<and> rq_type q \<noteq> Some OperationStartedType))) (\<lambda>_.
     so_findRecords ops st q)))"

definition queryLog :: "'st storage_ops \<Rightarrow> 'st \<Rightarrow> log_options \<Rightarrow> log_item list session_result" where
  "queryLog ops st options =
     rbind (assertValidLimit (lo_limit options)) (\<lambda>_.
     rbind (assertValidCursor (lo_afterSeq options)) (\<lambda>_.
     so_getLog ops st options))"

definition session_findOpenOperations ::
    "'st storage_ops \<Rightarrow> 'st \<Rightarrow> string \<Rightarrow> jsnum option \<Rightarrow> lane_record list session_result" where
  "session_findOpenOperations ops st lane limit =
     rbind (assertValidLimit limit) (\<lambda>_. so_findOpenOperations ops st lane limit)"

text \<open>The first element, \<^verbatim>\<open>undefined\<close> when there is none.\<close>

definition hd_opt :: "'a list \<Rightarrow> 'a option" where
  "hd_opt xs = (case xs of [] \<Rightarrow> None | x # _ \<Rightarrow> Some x)"

definition first :: "'a list session_result \<Rightarrow> 'a option session_result" where
  "first m = rbind m (\<lambda>xs. Inr (hd_opt xs))"

section \<open>Appends\<close>

definition commitEntry ::
    "'st storage_ops \<Rightarrow> nat \<Rightarrow> jsheap \<Rightarrow> 'st \<Rightarrow> jsval \<times> provisioned_entry \<Rightarrow> string \<Rightarrow> ('st \<times> entry) session_result" where
  "commitEntry ops now h st entry lane =
     rbind (assertJsonSerializable h (fst entry)) (\<lambda>_.
     so_appendEntry ops now st (snd entry) lane)"

definition commitRecord ::
    "'st storage_ops \<Rightarrow> nat \<Rightarrow> jsheap \<Rightarrow> 'st \<Rightarrow> jsval \<times> new_record \<Rightarrow> ('st \<times> lane_record) session_result" where
  "commitRecord ops now h st r =
     rbind (assertJsonSerializable h (fst r)) (\<lambda>_.
     so_appendRecord ops now st (snd r))"

definition message_literal :: "string \<Rightarrow> jsval \<Rightarrow> jsobj" where
  "message_literal newId m =
     object_literal [(''type'', VStr ''message''), (''id'', VStr newId), (''message'', m)]"

definition appendMessageToLane ::
    "'st storage_ops \<Rightarrow> nat \<Rightarrow> string \<Rightarrow> jsheap \<Rightarrow> 'st \<Rightarrow> string \<Rightarrow> jsval \<times> agent_message \<Rightarrow> ('st \<times> string) session_result" where
  "appendMessageToLane ops now newId h st lane message =
     (let (h', v) = alloc h (message_literal newId (fst message))
      in rbind (commitEntry ops now h' st
                 (v, \<lparr>prov_id = newId, prov_payload = MessagePayload (snd message) False\<rparr>) lane) (\<lambda>(st', e).
         Inr (st', entry_id e)))"

definition custom_literal :: "string \<Rightarrow> string \<Rightarrow> jsval option \<Rightarrow> jsobj" where
  "custom_literal newId customType data =
     object_literal ([(''type'', VStr ''custom''), (''id'', VStr newId), (''customType'', VStr customType)]
       @ (case data of None \<Rightarrow> [] | Some d \<Rightarrow> [(''data'', d)]))"

text \<open>\<^verbatim>\<open>data\<close> is \<open>None\<close> when it is \<^verbatim>\<open>undefined\<close>.\<close>

definition appendCustomEntryToLane ::
    "'st storage_ops \<Rightarrow> nat \<Rightarrow> string \<Rightarrow> jsheap \<Rightarrow> 'st \<Rightarrow> string \<Rightarrow> string \<Rightarrow> (jsval \<times> json) option \<Rightarrow>
     ('st \<times> string) session_result" where
  "appendCustomEntryToLane ops now newId h st lane customType data =
     (let (h', v) = alloc h (custom_literal newId customType (map_option fst data))
      in rbind (commitEntry ops now h' st
                 (v, \<lparr>prov_id = newId, prov_payload = CustomPayload customType (map_option snd data)\<rparr>) lane) (\<lambda>(st', e).
         Inr (st', entry_id e)))"

section \<open>Lane views\<close>

text \<open>The interface \<^verbatim>\<open>SessionTree\<close>, and \<^verbatim>\<open>Session.view(lane)\<close>.  The session itself is its view of \<^verbatim>\<open>main\<close>.\<close>

record 'st session_tree =
  tree_getLeafId :: "'st \<Rightarrow> string option session_result"
  tree_getEntry :: "'st \<Rightarrow> string \<Rightarrow> entry option"
  tree_getStats :: "'st \<Rightarrow> session_stats"
  tree_getName :: "'st \<Rightarrow> string option"
  tree_setName :: "'st \<Rightarrow> string option \<Rightarrow> 'st session_result"
  tree_getLabel :: "'st \<Rightarrow> string \<Rightarrow> string option"
  tree_setLabel :: "'st \<Rightarrow> string \<Rightarrow> string option \<Rightarrow> 'st session_result"
  tree_findEntries :: "'st \<Rightarrow> entry_query \<Rightarrow> entry list session_result"
  tree_findEntry :: "'st \<Rightarrow> entry_query \<Rightarrow> entry option session_result"
  tree_findEntriesOnBranch :: "'st \<Rightarrow> entry_query \<Rightarrow> branch_bounds \<Rightarrow> string option \<Rightarrow> entry list session_result"
  tree_findEntryOnBranch :: "'st \<Rightarrow> entry_query \<Rightarrow> branch_bounds \<Rightarrow> string option \<Rightarrow> entry option session_result"
  tree_appendMessage :: "nat \<Rightarrow> string \<Rightarrow> jsheap \<Rightarrow> 'st \<Rightarrow> jsval \<times> agent_message \<Rightarrow> ('st \<times> string) session_result"
  tree_appendCustomEntry ::
    "nat \<Rightarrow> string \<Rightarrow> jsheap \<Rightarrow> 'st \<Rightarrow> string \<Rightarrow> (jsval \<times> json) option \<Rightarrow> ('st \<times> string) session_result"

definition session_view :: "'st storage_ops \<Rightarrow> string \<Rightarrow> 'st session_tree" where
  "session_view ops lane = \<lparr>
     tree_getLeafId = (\<lambda>st. getLeafIdForLane ops st lane),
     tree_getEntry = so_getEntry ops,
     tree_getStats = so_getStats ops,
     tree_getName = so_getName ops,
     tree_setName = so_setName ops,
     tree_getLabel = so_getLabel ops,
     tree_setLabel = so_setLabel ops,
     tree_findEntries = (\<lambda>st q. queryEntries ops st q (eq_limit q)),
     tree_findEntry = (\<lambda>st q. first (queryEntries ops st q (Some (JsInt 1)))),
     tree_findEntriesOnBranch = (\<lambda>st q b s. queryBranchEntries ops st lane q b s (eq_limit q)),
     tree_findEntryOnBranch = (\<lambda>st q b s. first (queryBranchEntries ops st lane q b s (Some (JsInt 1)))),
     tree_appendMessage = (\<lambda>now newId h st m. appendMessageToLane ops now newId h st lane m),
     tree_appendCustomEntry = (\<lambda>now newId h st t d. appendCustomEntryToLane ops now newId h st lane t d)\<rparr>"

definition session_main :: "'st storage_ops \<Rightarrow> 'st session_tree" where
  "session_main ops = session_view ops ''main''"

section \<open>What the facade adds to a storage\<close>

lemma heap_get_append: "heap_get h l = Some x \<Longrightarrow> heap_get (h @ h') l = Some x"
  by (auto simp: heap_get_def nth_append split: if_splits)

lemma denotes_append: "denotes h v j \<Longrightarrow> denotes (h @ h') v j"
proof (induction v j rule: denotes.induct)
  case (denotes_array l obj vs js)
  then show ?case
    by (intro denotes.denotes_array [of _ _ obj vs]) (auto intro: heap_get_append elim: list_all2_mono)
next
  case (denotes_object l obj ps js)
  then show ?case
    by (intro denotes.denotes_object [of _ _ obj ps]) (auto intro: heap_get_append elim: list_all2_mono)
qed (auto intro: denotes.intros)

lemma plain_object_literal: "plain_object (object_literal ps) qs \<longleftrightarrow> qs = ps"
proof -
  have "inj (\<lambda>(k :: string, v :: jsval). (k, Some v))" by (auto simp: inj_def)
  then show ?thesis
    by (auto simp: plain_object_def object_literal_def list_all_iff case_prod_unfold inj_map_eq_map comp_def
        dest: sym)
qed

lemma heap_get_last: "heap_get (h @ [x]) (length h) = Some x"
  by (simp add: heap_get_def)

lemma denotes_literal:
  "denotes (h @ [object_literal ps]) (VRef (length h)) j \<longleftrightarrow>
   (\<exists>js. j = JObj (zip (map fst ps) js) \<and> list_all2 (denotes (h @ [object_literal ps])) (map snd ps) js)"
proof -
  have "\<not> plain_array (object_literal ps) vs" for vs by (simp add: plain_array_def object_literal_def)
  then show ?thesis
    by (auto simp: heap_get_last plain_object_literal elim!: denotes_refE intro: denotes_object) blast
qed

lemma find_map_of: "List.find (\<lambda>p. fst p = k) xs = map_option (Pair k) (map_of xs k)"
  by (induction xs) auto

definition default_query :: entry_query where
  "default_query = \<lparr>eq_type = None, eq_customType = None, eq_order = None, eq_limit = None, eq_cursor = None\<rparr>"

context session_storage
begin

lemma getLeafIdForLane_eq: "getLeafIdForLane ops st lane = requireLane (view st) lane"
  by (auto simp: getLeafIdForLane_def requireLane_def getLanes_law find_map_of split: option.splits)

text \<open>The facade validates once more what a storage validates.\<close>

lemma queryEntries_eq: "queryEntries ops st q (eq_limit q) = so_findEntries ops st q"
  by (cases "assertValidLimit (eq_limit q)"; cases "assertValidCursor (eq_cursor q)")
    (auto simp: queryEntries_def with_limit_def findEntries_law findEntries_def)

lemma with_limit_eq: "with_limit q x = q\<lparr>eq_limit := x\<rparr>"
  by (cases q) (simp add: with_limit_def)

lemma matches_limit [simp]: "matchesEntryQuery e (q\<lparr>eq_limit := x\<rparr>) = matchesEntryQuery e q"
  by (cases "eq_cursor q") (simp_all add: matchesEntryQuery_def)

lemma limit_one [simp]: "assertValidLimit (Some (JsInt 1)) = Inr ()"
  by (simp add: assertValidLimit_def)

lemma hd_opt_take_limit [simp]:
  assumes "assertValidLimit limit = Inr ()"
  shows "hd_opt (take_opt (limit_nat limit) xs) = hd_opt xs"
proof -
  have "hd_opt (take n xs) = hd_opt xs" if "0 < n" for n
    using that by (cases xs; cases n) (auto simp: hd_opt_def)
  then show ?thesis
    using assms by (auto simp: assertValidLimit_ok limit_nat_def split: option.splits)
qed

lemma findEntry_first:
  "first (queryEntries ops st q (Some (JsInt 1))) = first (queryEntries ops st q (eq_limit q))"
proof (cases "is_ok (assertValidLimit (eq_limit q)) \<and> is_ok (assertValidCursor (eq_cursor q))")
  case True
  then have "assertValidLimit (eq_limit q) = Inr ()" and "assertValidCursor (eq_cursor q) = Inr ()"
    by (simp_all add: is_ok_iff)
  then show ?thesis
    by (simp add: queryEntries_def with_limit_eq findEntries_law findEntries_eq first_def)
next
  case False
  then show ?thesis
    by (cases "assertValidLimit (eq_limit q)"; cases "assertValidCursor (eq_cursor q)")
      (auto simp: queryEntries_def first_def)
qed

lemma findEntryOnBranch_first:
  assumes wf: "wf_state (view st)" and start: "\<And>i. qstart = Some i \<Longrightarrow> i \<in> entry_ids (view st)"
  shows "first (queryBranchEntries ops st lane q b qstart (Some (JsInt 1))) =
         first (queryBranchEntries ops st lane q b qstart (eq_limit q))"
proof (cases "is_ok (assertValidLimit (eq_limit q)) \<and> is_ok (assertValidCursor (eq_cursor q))")
  case True
  then have ok: "assertValidLimit (eq_limit q) = Inr ()" "assertValidCursor (eq_cursor q) = Inr ()"
    by (simp_all add: is_ok_iff)
  have "first (so_findEntriesOnBranch ops st (with_limit q (Some (JsInt 1))) b i) =
        first (so_findEntriesOnBranch ops st (with_limit q (eq_limit q)) b i)" if "i \<in> entry_ids (view st)" for i
    using ok findEntriesOnBranch_wf [OF wf that]
    by (simp add: with_limit_eq findEntriesOnBranch_law first_def)
  moreover have "i \<in> entry_ids (view st)" if "getLeafIdForLane ops st lane = Inr (Some i)" for i
    using that requireLane_known [OF wf] by (simp add: getLeafIdForLane_eq)
  ultimately show ?thesis
    using ok start
    by (cases qstart; cases "getLeafIdForLane ops st lane")
      (auto simp: queryBranchEntries_def first_def split: option.splits)
next
  case False
  then show ?thesis
    by (cases "assertValidLimit (eq_limit q)"; cases "assertValidCursor (eq_cursor q)")
      (auto simp: queryBranchEntries_def first_def)
qed

text \<open>An append that succeeds is found at the lane's leaf, with the payload it was given.\<close>

lemma commitEntry_ok:
  "commitEntry ops now h st x lane = Inr r \<longleftrightarrow>
   (\<exists>j. denotes h (fst x) j) \<and> so_appendEntry ops now st (snd x) lane = Inr r"
  by (auto simp: commitEntry_def assertJsonSerializable_ok)

lemma appended_at_leaf:
  assumes wf: "wf_state (view st)" and ok: "so_appendEntry ops now st p lane = Inr (st', e)"
  shows "getLeafIdForLane ops st' lane = Inr (Some (prov_id p))"
    and "first (queryBranchEntries ops st' lane default_query no_bounds None (Some (JsInt 1))) = Inr (Some e)"
proof -
  note wf' = appendEntry_wf [OF wf ok]
  show leaf: "getLeafIdForLane ops st' lane = Inr (Some (prov_id p))"
    using appendEntry_leaf [OF ok] by (simp add: getLeafIdForLane_eq requireLane_def getLanes_law)
  have "getEntry (view st') (prov_id p) = Some e"
    using appendEntry_lookup [OF wf ok] by (simp add: getEntry_law)
  then have "prov_id p \<in> entry_ids (view st')"
    by (rule getEntry_known [OF wf'])
  then show "first (queryBranchEntries ops st' lane default_query no_bounds None (Some (JsInt 1))) = Inr (Some e)"
    using findEntriesOnBranch_wf [OF wf', of "prov_id p" "default_query\<lparr>eq_limit := Some (JsInt 1)\<rparr>" no_bounds]
      appendEntry_branch [OF wf ok] leaf
    by (simp add: queryBranchEntries_def with_limit_eq findEntriesOnBranch_law first_def default_query_def
        ordered_def take_until_none matchesEntryQuery_def hd_opt_def limit_nat_def)
qed

lemma appendMessage_found:
  assumes "wf_state (view st)" and "appendMessageToLane ops now newId h st lane m = Inr (st', i)"
  shows "i = newId \<and> wf_state (view st') \<and> getLeafIdForLane ops st' lane = Inr (Some newId) \<and>
    (\<exists>e. first (queryBranchEntries ops st' lane default_query no_bounds None (Some (JsInt 1))) = Inr (Some e) \<and>
         entry_id e = newId \<and> entry_message e = Some (snd m) \<and> entry_timestamp e = now \<and>
         requireLane (view st) lane = Inr (entry_parentId e))"
proof -
  obtain e where e: "so_appendEntry ops now st \<lparr>prov_id = newId, prov_payload = MessagePayload (snd m) False\<rparr> lane
      = Inr (st', e)" and i: "i = entry_id e"
    using assms(2) by (auto simp: appendMessageToLane_def alloc_def commitEntry_ok)
  from appended_at_leaf [OF assms(1) e] appendEntry_law [OF e] appendEntry_wf [OF assms(1) e] i
  show ?thesis by (auto simp: entry_message_def)
qed

lemma appendMessage_payload:
  "appendMessageToLane ops now newId h st lane m = Inr r \<Longrightarrow>
   \<exists>j. denotes (h @ [message_literal newId (fst m)]) (fst m) j"
  by (auto simp: appendMessageToLane_def alloc_def commitEntry_ok message_literal_def denotes_literal
      list_all2_Cons1)

lemma appendCustom_found:
  assumes "wf_state (view st)" and "appendCustomEntryToLane ops now newId h st lane ct d = Inr (st', i)"
  shows "i = newId \<and> wf_state (view st') \<and> getLeafIdForLane ops st' lane = Inr (Some newId) \<and>
    (\<exists>e. first (queryBranchEntries ops st' lane default_query no_bounds None (Some (JsInt 1))) = Inr (Some e) \<and>
         entry_id e = newId \<and> entry_payload e = CustomPayload ct (map_option snd d) \<and> entry_timestamp e = now)"
proof -
  obtain e where e: "so_appendEntry ops now st \<lparr>prov_id = newId, prov_payload = CustomPayload ct (map_option snd d)\<rparr> lane
      = Inr (st', e)" and i: "i = entry_id e"
    using assms(2) by (auto simp: appendCustomEntryToLane_def alloc_def commitEntry_ok)
  from appended_at_leaf [OF assms(1) e] appendEntry_law [OF e] appendEntry_wf [OF assms(1) e] i
  show ?thesis by auto
qed

end

section \<open>Properties of the session facade\<close>

text \<open>After \<^verbatim>\<open>appendMessage\<close> on a lane of an in-memory session has succeeded, the lane's leaf is the returned id, which is
  the generated one, and the newest entry of the lane's branch is that entry, with the message, the time of
  the append and the former leaf as its parent; the session stays well-formed.\<close>

theorem append_message_visible:
  assumes "wf_state (ms_state st)" and "tree_appendMessage (session_view memory_ops lane) now newId h st m = Inr (st', i)"
  shows "i = newId \<and> wf_state (ms_state st') \<and> tree_getLeafId (session_view memory_ops lane) st' = Inr (Some newId) \<and>
    (\<exists>e. tree_findEntryOnBranch (session_view memory_ops lane) st' default_query no_bounds None = Inr (Some e) \<and>
         entry_id e = newId \<and> entry_message e = Some (snd m) \<and> entry_timestamp e = now \<and>
         tree_getLeafId (session_view memory_ops lane) st = Inr (entry_parentId e))"
  using mem.appendMessage_found [OF assms(1), of now newId h lane m st' i] assms(2)
  by (auto simp: session_view_def mem.getLeafIdForLane_eq)

definition sample_heap :: jsheap where
  "sample_heap = [object_literal [(''role'', VStr ''user''), (''content'', VStr ''more''), (''timestamp'', VNum (JsInt 30))]]"

definition sample_user :: "jsval \<times> agent_message" where
  "sample_user = (VRef 0, UserMessage (ContentString ''more'') 30)"

lemma sample_message_append:
  "\<exists>st'. tree_appendMessage (session_view memory_ops ''main'') 30 ''m'' sample_heap sample_storage sample_user = Inr (st', ''m'')"
proof -
  have "denotes sample_heap (VRef 0) (JObj (zip (map fst
      [(''role'', VStr ''user''), (''content'', VStr ''more''), (''timestamp'', VNum (JsInt 30))])
      [JStr ''user'', JStr ''more'', JNum (JsInt 30)]))"
    by (rule denotes_object [OF _ plain_object_literal [THEN iffD2, OF refl]])
      (auto simp: sample_heap_def heap_get_def intro: denotes.intros)
  from denotes_append [OF this] obtain j where
    j: "denotes (sample_heap @ [message_literal ''m'' (VRef 0)]) (VRef 0) j" by blast
  have "list_all2 (denotes (sample_heap @ [message_literal ''m'' (VRef 0)])) [VStr ''message'', VStr ''m'', VRef 0]
      [JStr ''message'', JStr ''m'', j]" using j by (auto intro: denotes.intros)
  then have "assertJsonSerializable (sample_heap @ [message_literal ''m'' (VRef 0)]) (VRef (length sample_heap)) = Inr ()"
    unfolding assertJsonSerializable_ok message_literal_def denotes_literal by (simp only: list.map fst_conv snd_conv) blast
  then show ?thesis
    by (simp add: session_view_def appendMessageToLane_def alloc_def commitEntry_def sample_user_def memory_ops_def
        mem_appendEntry_def sample_storage_def requireLane_def validateUnusedId_def mem_apply_def applyMutation_def
        applyEntry_def nextSequence_def hasEntry_def sample_state_def Let_def)
qed

theorem append_message_visible_witness:
  "\<exists>st' e. tree_appendMessage (session_view memory_ops ''main'') 30 ''m'' sample_heap sample_storage sample_user = Inr (st', ''m'') \<and>
    tree_findEntryOnBranch (session_view memory_ops ''main'') st' default_query no_bounds None = Inr (Some e) \<and> entry_id e = ''m''"
proof -
  obtain st' where ok: "tree_appendMessage (session_view memory_ops ''main'') 30 ''m'' sample_heap sample_storage sample_user = Inr (st', ''m'')"
    using sample_message_append by blast
  have "wf_state (ms_state sample_storage)" by (simp add: sample_storage_def sample_wf)
  from append_message_visible [OF this ok] ok show ?thesis by blast
qed

text \<open>A message whose value is not the image of a finite JSON tree is rejected as an invalid payload before it reaches
  the storage, whatever the storage is.\<close>

theorem append_message_rejects:
  assumes "\<not> (\<exists>j. denotes (h @ [message_literal newId (fst m)]) (fst m) j)"
  shows "appendMessageToLane ops now newId h st lane m = Inl InvalidPayload"
proof -
  have "\<not> (\<exists>j. denotes (h @ [message_literal newId (fst m)]) (VRef (length h)) j)"
    using assms unfolding message_literal_def denotes_literal by (auto simp: list_all2_Cons1)
  then have "assertJsonSerializable (h @ [message_literal newId (fst m)]) (VRef (length h)) = Inl InvalidPayload"
    using assertJsonSerializable_ok [of "h @ [message_literal newId (fst m)]" "VRef (length h)"] validate_loop_error
    by (cases "assertJsonSerializable (h @ [message_literal newId (fst m)]) (VRef (length h))")
      (auto simp: assertJsonSerializable_def)
  then show ?thesis by (simp add: appendMessageToLane_def alloc_def commitEntry_def)
qed

theorem append_message_rejects_witness:
  "appendMessageToLane memory_ops 1 ''m'' [] sample_storage ''main'' (VFunction, UserMessage (ContentString '''') 1) = Inl InvalidPayload"
  by (rule append_message_rejects) (auto elim: denotes.cases)

text \<open>On an in-memory session, the single-entry branch query returns the first entry of the full branch query, for any
  query, bounds and known start, errors included.\<close>

theorem single_entry_query:
  assumes "wf_state (ms_state st)" and "\<And>i. qstart = Some i \<Longrightarrow> i \<in> entry_ids (ms_state st)"
  shows "tree_findEntryOnBranch (session_view memory_ops lane) st q b qstart
       = first (tree_findEntriesOnBranch (session_view memory_ops lane) st q b qstart)"
  using mem.findEntryOnBranch_first [OF assms] by (simp add: session_view_def)

theorem single_entry_query_witness:
  "tree_findEntryOnBranch (session_view memory_ops ''main'') sample_storage sample_query no_bounds (Some ''b'')
     = first (tree_findEntriesOnBranch (session_view memory_ops ''main'') sample_storage sample_query no_bounds (Some ''b''))"
proof (rule single_entry_query)
  show "wf_state (ms_state sample_storage)" by (simp add: sample_storage_def sample_wf)
qed (simp add: sample_storage_def sample_state_def entry_ids_def sample_defs)

end
