(* ===== verification/Branch_Summary.thy ===== *)
theory Branch_Summary
  imports Summaries Session_Facade
begin

text \<open>
  Summaries of abandoned branches, \<^verbatim>\<open>packages/agent/src/harness/compaction/branch-summarization.ts\<close>:
  the entries between the old leaf and the common ancestor with the target, collected through the queries of a
  session view; the messages chosen within a token budget; and the request to the provider.
\<close>

section \<open>Collecting the entries\<close>

record collect_entries_result =
  ce_entries :: "entry list"
  ce_commonAncestorId :: "string option"

text \<open>The loop over parents; \<open>None\<close> is a loop that does not end.  An empty identifier counts as none.\<close>

partial_function (option) collect_loop ::
    "(string \<Rightarrow> entry option) \<Rightarrow> string option \<Rightarrow> string option \<Rightarrow> entry list \<Rightarrow> entry list session_result option" where
  "collect_loop lookup commonAncestorId current entries =
     (case current of
        None \<Rightarrow> Some (Inr entries)
      | Some i \<Rightarrow>
          if i = [] \<or> current = commonAncestorId then Some (Inr entries)
          else (case lookup i of
                  None \<Rightarrow> Some (Inl InvalidEntry)
                | Some e \<Rightarrow> collect_loop lookup commonAncestorId (entry_parentId e) (entries @ [e])))"

definition collectEntriesForBranchSummary ::
    "'st session_tree \<Rightarrow> 'st \<Rightarrow> string option \<Rightarrow> string \<Rightarrow> collect_entries_result session_result option" where
  "collectEntriesForBranchSummary session st oldLeafId targetId =
     (case oldLeafId of
        None \<Rightarrow> Some (Inr \<lparr>ce_entries = [], ce_commonAncestorId = None\<rparr>)
      | Some old \<Rightarrow>
          if old = [] then Some (Inr \<lparr>ce_entries = [], ce_commonAncestorId = None\<rparr>)
          else (case tree_findEntriesOnBranch session st default_query no_bounds (Some old) of
                  Inl err \<Rightarrow> Some (Inl err)
                | Inr oldEntries \<Rightarrow>
                    (case tree_findEntriesOnBranch session st default_query no_bounds (Some targetId) of
                       Inl err \<Rightarrow> Some (Inl err)
                     | Inr targetPath \<Rightarrow>
                         let oldPath = set (map entry_id oldEntries);
                             commonAncestorId = map_option entry_id (List.find (\<lambda>e. entry_id e \<in> oldPath) targetPath)
                         in map_option (map_sum id (\<lambda>es. \<lparr>ce_entries = rev es, ce_commonAncestorId = commonAncestorId\<rparr>))
                              (collect_loop (tree_getEntry session st) commonAncestorId oldLeafId []))))"

section \<open>Choosing the messages\<close>

definition getBranchMessage :: "entry \<Rightarrow> agent_message option" where
  "getBranchMessage e =
     (case entry_payload e of
        MessagePayload m _ \<Rightarrow> (case m of ToolResultMessage _ \<Rightarrow> None | _ \<Rightarrow> Some m)
      | BranchSummaryPayload fromId summary _ _ \<Rightarrow> Some (createBranchSummaryMessage summary fromId (entry_timestamp e))
      | CompactionPayload summary _ tokensBefore _ _ \<Rightarrow>
          Some (createCompactionSummaryMessage summary tokensBefore (entry_timestamp e))
      | _ \<Rightarrow> None)"

record branch_preparation =
  bp_messages :: "agent_message list"
  bp_fileOps :: file_operations
  bp_totalTokens :: nat

definition branch_details :: "file_operations \<Rightarrow> entry \<Rightarrow> file_operations" where
  "branch_details ops e =
     (case entry_payload e of BranchSummaryPayload _ _ details _ \<Rightarrow> add_details details ops | _ \<Rightarrow> ops)"

definition is_summary_entry :: "entry \<Rightarrow> bool" where
  "is_summary_entry e = (entry_kind e = CompactionType \<or> entry_kind e = BranchSummaryType)"

text \<open>\<open>n\<close> is one more than the index of the loop.\<close>

fun branch_loop :: "(jsnum \<Rightarrow> string) \<Rightarrow> entry list \<Rightarrow> int \<Rightarrow> nat \<Rightarrow> branch_preparation \<Rightarrow> branch_preparation" where
  "branch_loop numText entries tokenBudget 0 p = p"
| "branch_loop numText entries tokenBudget (Suc i) p =
     (case getBranchMessage (entries ! i) of
        None \<Rightarrow> branch_loop numText entries tokenBudget i p
      | Some message \<Rightarrow>
          let p' = p\<lparr>bp_fileOps := extractFileOpsFromMessage message (bp_fileOps p)\<rparr>;
              tokens = estimateTokens numText message;
              added = p'\<lparr>bp_messages := message # bp_messages p, bp_totalTokens := bp_totalTokens p + tokens\<rparr>
          in if tokenBudget > 0 \<and> int (bp_totalTokens p + tokens) > tokenBudget
             then (if is_summary_entry (entries ! i) \<and> 10 * int (bp_totalTokens p) < 9 * tokenBudget then added else p')
             else branch_loop numText entries tokenBudget i added)"

definition prepareBranchEntries :: "(jsnum \<Rightarrow> string) \<Rightarrow> entry list \<Rightarrow> int \<Rightarrow> branch_preparation" where
  "prepareBranchEntries numText entries tokenBudget =
     branch_loop numText entries tokenBudget (length entries)
       \<lparr>bp_messages = [], bp_fileOps = foldl branch_details createFileOps entries, bp_totalTokens = 0\<rparr>"

section \<open>The summary\<close>

definition BRANCH_SUMMARY_PREAMBLE :: string where
  "BRANCH_SUMMARY_PREAMBLE = js_join nl
     [''The user explored a different conversation branch before returning here.'',
      ''Summary of that exploration:'',
      [],
      []]"

definition BRANCH_SUMMARY_PROMPT :: string where
  "BRANCH_SUMMARY_PROMPT = js_join nl
     [''Create a structured summary of this conversation branch for context when returning later.'',
      [],
      ''Use this EXACT format:'',
      [],
      ''## Goal'',
      ''[What was the user trying to accomplish in this branch?]'',
      [],
      ''## Constraints & Preferences'',
      ''- [Any constraints, preferences, or requirements mentioned]'',
      ''- [Or '' @ quote @ ''(none)'' @ quote @ '' if none were mentioned]'',
      [],
      ''## Progress'',
      ''### Done'',
      ''- [x] [Completed tasks/changes]'',
      [],
      ''### In Progress'',
      ''- [ ] [Work that was started but not finished]'',
      [],
      ''### Blocked'',
      ''- [Issues preventing progress, if any]'',
      [],
      ''## Key Decisions'',
      ''- **[Decision]**: [Brief rationale]'',
      [],
      ''## Next Steps'',
      ''1. [What should happen next to continue this work]'',
      [],
      ''Keep each section concise. Preserve exact file paths, function names, and error messages.'']"

record branch_summary_options =
  bo_customInstructions :: "string option"
  bo_replaceInstructions :: bool
  bo_reserveTokens :: "int option"
  bo_retry :: "retry_policy option"

record branch_summary_result =
  br_summary :: string
  br_usage :: "usage option"
  br_readFiles :: "string list"
  br_modifiedFiles :: "string list"

definition branch_instructions :: "branch_summary_options \<Rightarrow> string" where
  "branch_instructions options =
     (let custom = or_text (bo_customInstructions options) []
      in if bo_replaceInstructions options \<and> custom \<noteq> [] then custom
         else if custom \<noteq> [] then BRANCH_SUMMARY_PROMPT @ nl @ nl @ ''Additional focus: '' @ custom
         else BRANCH_SUMMARY_PROMPT)"

definition generateBranchSummary ::
    "(jsnum \<Rightarrow> string) \<Rightarrow> entry list \<Rightarrow> 'e provider \<Rightarrow> llm_model \<Rightarrow> branch_summary_options \<Rightarrow>
     ('e, branch_summary_result) summary_result" where
  "generateBranchSummary numText entries models model options =
     (let contextWindow = (if mdl_contextWindow model \<noteq> 0 then mdl_contextWindow model else 128000);
          tokenBudget = contextWindow - (case bo_reserveTokens options of Some n \<Rightarrow> n | None \<Rightarrow> 16384);
          p = prepareBranchEntries numText entries tokenBudget
      in if bp_messages p = []
         then Inr (Inr \<lparr>br_summary = ''No content to summarize'', br_usage = None, br_readFiles = [], br_modifiedFiles = []\<rparr>)
         else
           let promptText = text_units (''<conversation>'' @ nl) @ serializeConversation numText (convertToLlm (bp_messages p))
                 @ text_units (nl @ ''</conversation>'' @ nl @ nl @ branch_instructions options);
               response = completeSimpleWithRetries models
                 \<lparr>req_systemPrompt = SUMMARIZATION_SYSTEM_PROMPT, req_prompt = promptText, req_maxTokens = 2048,
                  req_reasoning = None\<rparr> (bo_retry options)
           in sbind (summary_response response ''Branch summary'') (\<lambda>(text, u).
             let (readFiles, modifiedFiles) = computeFileLists (bp_fileOps p);
                 summary = BRANCH_SUMMARY_PREAMBLE @ text @ formatFileOperations readFiles modifiedFiles
             in Inr (Inr \<lparr>br_summary = (if summary \<noteq> [] then summary else ''No summary generated''), br_usage = Some u,
                  br_readFiles = readFiles, br_modifiedFiles = modifiedFiles\<rparr>)))"

section \<open>The entries below the common ancestor\<close>

declare collect_loop.simps [simp del]

lemma collect_loop_chain:
  assumes "chain lookup start (xs @ ys)" and "\<And>k e. lookup k = Some e \<Longrightarrow> entry_id e = k"
    and "[] \<notin> entry_id ` set xs" and "\<And>a. anc = Some a \<Longrightarrow> a \<notin> entry_id ` set xs"
    and "ys \<noteq> [] \<Longrightarrow> anc = Some (entry_id (hd ys))"
  shows "collect_loop lookup anc start acc = Some (Inr (acc @ xs))"
  using assms(1,3,4)
proof (induction xs arbitrary: start acc)
  case Nil
  then show ?case using assms(2,5) by (cases start; cases ys) (auto simp: collect_loop.simps)
next
  case (Cons x xs)
  then obtain i where i: "start = Some i" "lookup i = Some x" "chain lookup (entry_parentId x) (xs @ ys)"
    by (cases start) auto
  with assms(2) Cons.prems(2,3) have "i \<noteq> []" "anc \<noteq> Some i" by force+
  with i(1,2) have "collect_loop lookup anc start acc = collect_loop lookup anc (entry_parentId x) (acc @ [x])"
    by (auto simp: collect_loop.simps [of _ _ "Some i"])
  with Cons.IH [OF i(3)] Cons.prems(2,3) show ?case by simp
qed

lemma chain_drop: "chain m start (xs @ x # ys) \<Longrightarrow> \<exists>i. m i = Some x \<and> chain m (Some i) (x # ys)"
proof (induction xs arbitrary: start)
  case Nil
  then show ?case by (cases start) auto
next
  case (Cons a xs)
  then show ?case by (cases start) auto
qed

text \<open>Two paths that share an entry share the rest of the way to the root.\<close>

lemma chains_join:
  assumes "chain m start (xs @ x # ys)" and "chain m start' (xs' @ x' # ys')" and "entry_id x = entry_id x'"
    and "\<And>k e. m k = Some e \<Longrightarrow> entry_id e = k"
  shows "x = x' \<and> ys = ys'"
proof -
  obtain i i' where "m i = Some x" "chain m (Some i) (x # ys)" "m i' = Some x'" "chain m (Some i') (x' # ys')"
    using chain_drop [OF assms(1)] chain_drop [OF assms(2)] by blast
  moreover from this have "i = i'" using assms(3,4) by metis
  ultimately show ?thesis using chain_unique by blast
qed

lemma find_split:
  "List.find P xs = Some x \<Longrightarrow> \<exists>us vs. xs = us @ x # vs \<and> (\<forall>u \<in> set us. \<not> P u) \<and> P x"
proof (induction xs)
  case (Cons a xs)
  show ?case
  proof (cases "P a")
    case True
    with Cons.prems have "a # xs = [] @ x # xs" "P x" by auto
    then show ?thesis by (metis empty_iff list.set(1))
  next
    case False
    with Cons obtain us vs where "xs = us @ x # vs" "\<forall>u \<in> set us. \<not> P u" "P x" by auto
    with False have "a # xs = (a # us) @ x # vs" "\<forall>u \<in> set (a # us). \<not> P u" by auto
    with \<open>P x\<close> show ?thesis by metis
  qed
qed simp

definition forks_at :: "'a list \<Rightarrow> 'a list \<Rightarrow> 'a list \<Rightarrow> 'a list \<Rightarrow> bool" where
  "forks_at common as xs ys = (xs = common @ as \<and> (\<exists>bs. ys = common @ bs \<and> (as = [] \<or> bs = [] \<or> hd as \<noteq> hd bs)))"

lemma collected_below_ancestor:
  fixes P T :: "entry list"
  assumes "chain lookup (Some old) P" and "chain lookup (Some target) T" and "distinct (map entry_id P)"
    and ids: "\<And>k e. lookup k = Some e \<Longrightarrow> entry_id e = k" and "[] \<notin> entry_id ` set P"
  defines "found \<equiv> List.find (\<lambda>e. entry_id e \<in> set (map entry_id P)) T"
  shows "\<exists>as common. collect_loop lookup (map_option entry_id found) (Some old) [] = Some (Inr (rev as)) \<and>
    forks_at common as (rev P) (rev T) \<and>
    map_option entry_id found = (if common = [] then None else Some (entry_id (last common)))"
proof (cases found)
  case None
  then have disj: "entry_id ` set T \<inter> entry_id ` set P = {}" by (auto simp: found_def find_None_iff)
  have "collect_loop lookup None (Some old) [] = Some (Inr ([] @ P))"
    by (rule collect_loop_chain [of _ _ _ "[]"]) (use assms(1,5) ids in auto)
  moreover have "rev P = [] \<or> rev T = [] \<or> hd (rev P) \<noteq> hd (rev T)"
    using disj by (cases "rev P"; cases "rev T") (auto simp: rev_eq_Cons_iff)
  ultimately show ?thesis
    using None by (intro exI [of _ "rev P"] exI [of _ "[]"]) (simp add: forks_at_def)
next
  case (Some x)
  then obtain us vs where T: "T = us @ x # vs" "\<forall>u \<in> set us. entry_id u \<notin> set (map entry_id P)" "entry_id x \<in> set (map entry_id P)"
    using find_split [of "\<lambda>e. entry_id e \<in> set (map entry_id P)" T x] unfolding found_def by blast
  then obtain y where "y \<in> set P" "entry_id y = entry_id x" by auto
  with split_list obtain us' vs' where P: "P = us' @ y # vs'" "entry_id y = entry_id x" by metis
  have join: "y = x" "vs' = vs"
    using chains_join [of lookup "Some old" us' y vs' "Some target" us x vs] assms(1,2) ids P T(1) by simp_all
  have "collect_loop lookup (Some (entry_id x)) (Some old) [] = Some (Inr ([] @ us'))"
    by (rule collect_loop_chain [of _ _ _ "x # vs"]) (use assms(1,3,5) ids P join in auto)
  moreover have "last us' \<noteq> last us" if "us' \<noteq> []" "us \<noteq> []"
  proof -
    have "entry_id (last us) \<notin> set (map entry_id P)" using T(2) last_in_set [OF that(2)] by blast
    moreover have "entry_id (last us') \<in> set (map entry_id P)" using P(1) last_in_set [OF that(1)] by simp
    ultimately show ?thesis by metis
  qed
  ultimately show ?thesis
    using Some P(1) T(1) join
    by (intro exI [of _ "rev us'"] exI [of _ "rev (x # vs)"]) (auto simp: forks_at_def hd_rev)
qed

context session_storage
begin

lemma whole_branch:
  assumes "wf_state (view st)" and "i \<in> entry_ids (view st)"
  shows "tree_findEntriesOnBranch (session_view ops lane) st default_query no_bounds (Some i) = Inr (branch_path (view st) i)"
proof -
  have "findEntriesOnBranch (view st) default_query no_bounds i = Inr (branch_path (view st) i)"
    using findEntriesOnBranch_wf [OF assms, of default_query no_bounds]
    by (simp add: default_query_def assertValidLimit_def assertValidCursor_def limit_nat_def ordered_def
        take_until_none matchesEntryQuery_def filter_True)
  then show ?thesis
    by (simp add: session_view_def queryBranchEntries_def findEntriesOnBranch_law with_limit_def)
      (simp add: default_query_def assertValidLimit_def assertValidCursor_def)
qed

lemma collected_entries:
  assumes wf: "wf_state (view st)" and old: "old \<in> entry_ids (view st)" and target: "target \<in> entry_ids (view st)"
    and nonempty: "[] \<notin> entry_ids (view st)"
  shows "\<exists>as common. collectEntriesForBranchSummary (session_view ops lane) st (Some old) target =
      Some (Inr \<lparr>ce_entries = as,
                 ce_commonAncestorId = (if common = [] then None else Some (entry_id (last common)))\<rparr>) \<and>
    forks_at common as (rev (branch_path (view st) old)) (rev (branch_path (view st) target))"
proof -
  let ?P = "branch_path (view st) old" and ?T = "branch_path (view st) target"
  have ids: "wf_ids (view st)" by (rule wf_parts(1) [OF wf])
  have "entry_id ` set ?P \<subseteq> entry_ids (view st)"
    using chain_set [OF walkToRoot_wf(1) [OF wf old]] getEntry_id [OF ids] by (auto simp: entry_ids_def ran_def)
  with nonempty have "[] \<notin> entry_id ` set ?P" by blast
  from collected_below_ancestor [OF walkToRoot_wf(1) [OF wf old] walkToRoot_wf(1) [OF wf target]
      walkToRoot_wf(2) [OF wf old] _ this] getEntry_id [OF ids]
  obtain as common where "collect_loop (getEntry (view st))
      (map_option entry_id (List.find (\<lambda>e. entry_id e \<in> set (map entry_id ?P)) ?T)) (Some old) [] = Some (Inr (rev as))"
    "forks_at common as (rev ?P) (rev ?T)"
    "map_option entry_id (List.find (\<lambda>e. entry_id e \<in> set (map entry_id ?P)) ?T) =
       (if common = [] then None else Some (entry_id (last common)))"
    by blast
  moreover have "old \<noteq> []" using old nonempty by blast
  moreover have "tree_getEntry (session_view ops lane) st = getEntry (view st)"
    by (simp add: session_view_def fun_eq_iff getEntry_law)
  ultimately show ?thesis
    using whole_branch [OF wf old] whole_branch [OF wf target]
    by (intro exI [of _ as] exI [of _ common]) (simp add: collectEntriesForBranchSummary_def Let_def)
qed

end

text \<open>What a branch summary covers.  For entries of a well-formed session whose identifiers are not empty, the loop
  over parents ends, and it collects the old branch below its common part with the path of the target, oldest first:
  both paths start with the common part, the deepest entry of which is reported as the common ancestor, and right
  after it they differ.\<close>

theorem branch_summary_entries:
  assumes "wf_state (ms_state st)" and "old \<in> entry_ids (ms_state st)" and "target \<in> entry_ids (ms_state st)"
    and "[] \<notin> entry_ids (ms_state st)"
  shows "\<exists>as common. collectEntriesForBranchSummary (session_view memory_ops lane) st (Some old) target =
      Some (Inr \<lparr>ce_entries = as,
                 ce_commonAncestorId = (if common = [] then None else Some (entry_id (last common)))\<rparr>) \<and>
    forks_at common as (rev (branch_path (ms_state st) old)) (rev (branch_path (ms_state st) target))"
  by (rule mem.collected_entries [OF assms])

theorem branch_summary_entries_witness:
  "\<exists>as common. collectEntriesForBranchSummary (session_view memory_ops ''main'') sample_storage (Some ''b'') ''a'' =
      Some (Inr \<lparr>ce_entries = as,
                 ce_commonAncestorId = (if common = [] then None else Some (entry_id (last common)))\<rparr>) \<and>
    forks_at common as (rev (branch_path (ms_state sample_storage) ''b'')) (rev (branch_path (ms_state sample_storage) ''a''))"
  by (rule branch_summary_entries)
    (simp_all add: sample_storage_def sample_wf, simp_all add: sample_state_def entry_ids_def sample_defs)

section \<open>The budget of a branch summary\<close>

fun summary_message :: "agent_message \<Rightarrow> bool" where
  "summary_message (BranchSummaryMessage _) = True"
| "summary_message (CompactionSummaryMessage _) = True"
| "summary_message _ = False"

lemma summary_entry_message: "is_summary_entry e \<Longrightarrow> getBranchMessage e = Some m \<Longrightarrow> summary_message m"
  by (auto simp: is_summary_entry_def getBranchMessage_def createBranchSummaryMessage_def createCompactionSummaryMessage_def
      split: entry_payload.splits)

definition branch_messages :: "entry list \<Rightarrow> agent_message list" where
  "branch_messages entries = List.map_filter getBranchMessage entries"

lemma branch_messages_snoc:
  "branch_messages (es @ [e]) = branch_messages es @ (case getBranchMessage e of None \<Rightarrow> [] | Some m \<Rightarrow> [m])"
  by (auto simp: branch_messages_def List.map_filter_def split: option.split)

definition within_budget :: "(jsnum \<Rightarrow> string) \<Rightarrow> int \<Rightarrow> agent_message list \<Rightarrow> bool" where
  "within_budget numText tokenBudget ms =
     (int (total_tokens numText ms) \<le> tokenBudget \<or>
      (\<exists>m rest. ms = m # rest \<and> summary_message m \<and> 10 * int (total_tokens numText rest) < 9 * tokenBudget))"

lemma branch_loop_result:
  assumes "n \<le> length entries" and "bp_totalTokens p = total_tokens numText (bp_messages p)"
    and "tokenBudget \<le> 0 \<or> int (bp_totalTokens p) \<le> tokenBudget"
  defines "q \<equiv> branch_loop numText entries tokenBudget n p"
  shows "bp_totalTokens q = total_tokens numText (bp_messages q) \<and>
    (\<exists>skipped. branch_messages (take n entries) @ bp_messages p = skipped @ bp_messages q \<and>
      (tokenBudget \<le> 0 \<longrightarrow> skipped = [])) \<and>
    (0 < tokenBudget \<longrightarrow> within_budget numText tokenBudget (bp_messages q))"
  using assms(1-3) unfolding q_def
proof (induction n arbitrary: p)
  case 0
  then show ?case by (auto simp: branch_messages_def List.map_filter_def within_budget_def)
next
  case (Suc i)
  have take: "branch_messages (take (Suc i) entries) =
      branch_messages (take i entries) @ (case getBranchMessage (entries ! i) of None \<Rightarrow> [] | Some m \<Rightarrow> [m])"
    using Suc.prems(1) by (simp add: take_Suc_conv_app_nth branch_messages_snoc)
  show ?case
  proof (cases "getBranchMessage (entries ! i)")
    case None
    with Suc.IH [of p] Suc.prems take show ?thesis by simp
  next
    case (Some m)
    define p' where "p' = p\<lparr>bp_fileOps := extractFileOpsFromMessage m (bp_fileOps p)\<rparr>"
    define added where "added = p'\<lparr>bp_messages := m # bp_messages p, bp_totalTokens := bp_totalTokens p + estimateTokens numText m\<rparr>"
    have tokens: "bp_totalTokens added = total_tokens numText (bp_messages added)"
      using Suc.prems(2) by (simp add: added_def total_tokens_def)
    consider "tokenBudget > 0 \<and> int (bp_totalTokens p + estimateTokens numText m) > tokenBudget"
      | "tokenBudget \<le> 0 \<or> int (bp_totalTokens p + estimateTokens numText m) \<le> tokenBudget" by linarith
    then show ?thesis
    proof cases
      case 1
      then have q: "branch_loop numText entries tokenBudget (Suc i) p =
          (if is_summary_entry (entries ! i) \<and> 10 * int (bp_totalTokens p) < 9 * tokenBudget then added else p')"
        by (simp add: Some Let_def p'_def added_def)
      show ?thesis
        unfolding q take using 1 Some tokens Suc.prems(2,3) summary_entry_message [OF _ Some]
        by (auto simp: p'_def added_def within_budget_def)
    next
      case 2
      then have q: "branch_loop numText entries tokenBudget (Suc i) p = branch_loop numText entries tokenBudget i added"
        by (auto simp: Some Let_def p'_def added_def)
      have "tokenBudget \<le> 0 \<or> int (bp_totalTokens added) \<le> tokenBudget" using 2 by (simp add: added_def)
      from Suc.IH [OF _ tokens this] Suc.prems(1) show ?thesis
        unfolding q take by (simp add: Some) (simp add: added_def)
    qed
  qed
qed

text \<open>The messages of a branch summary are the most recent ones.  They are what follows some skipped messages of the
  branch, tool results left out, with their estimated tokens; without a budget none is skipped, and with one the
  tokens stay within it, or exceed it only by an older summary put in front while a tenth of the budget was free.\<close>

theorem branch_messages_within_budget:
  "let p = prepareBranchEntries numText entries tokenBudget in
   bp_totalTokens p = total_tokens numText (bp_messages p) \<and>
   (\<exists>skipped. branch_messages entries = skipped @ bp_messages p \<and> (tokenBudget \<le> 0 \<longrightarrow> skipped = [])) \<and>
   (0 < tokenBudget \<longrightarrow> within_budget numText tokenBudget (bp_messages p))"
proof -
  let ?p = "\<lparr>bp_messages = [], bp_fileOps = foldl branch_details createFileOps entries, bp_totalTokens = 0\<rparr>"
  have "tokenBudget \<le> 0 \<or> int (bp_totalTokens ?p) \<le> tokenBudget" by auto
  from branch_loop_result [OF order_refl _ this, of numText] show ?thesis
    by (simp add: prepareBranchEntries_def Let_def total_tokens_def)
qed

theorem branch_messages_within_budget_witness:
  "within_budget (\<lambda>_. []) 10 (bp_messages (prepareBranchEntries (\<lambda>_. []) [picture_entry ''a''] 10))"
  using branch_messages_within_budget [of "\<lambda>_. []" "[picture_entry ''a'']" 10] by (simp add: Let_def)

text \<open>The fallback text of a branch summary is never used.  When there was something to summarize, the result starts
  with the preamble even if the provider answered with no text at all, so it is never the text that says that no
  summary was generated.\<close>

theorem empty_answer_not_reported:
  assumes "bp_messages (prepareBranchEntries numText entries
        ((if mdl_contextWindow model \<noteq> 0 then mdl_contextWindow model else 128000) -
         (case bo_reserveTokens options of Some n \<Rightarrow> n | None \<Rightarrow> 16384))) \<noteq> []"
    and "generateBranchSummary numText entries models model options = Inr (Inr result)"
  shows "(\<exists>rest. br_summary result = BRANCH_SUMMARY_PREAMBLE @ rest) \<and> br_summary result \<noteq> ''No summary generated''"
proof -
  have "BRANCH_SUMMARY_PREAMBLE @ rest \<noteq> ''No summary generated''" "BRANCH_SUMMARY_PREAMBLE \<noteq> []" for rest
    by (simp_all add: BRANCH_SUMMARY_PREAMBLE_def)
  then show ?thesis
    using assms by (fastforce simp: generateBranchSummary_def Let_def sbind_ok split: if_splits prod.splits)
qed

definition plain_options :: branch_summary_options where
  "plain_options = \<lparr>bo_customInstructions = None, bo_replaceInstructions = False, bo_reserveTokens = None, bo_retry = None\<rparr>"

definition roomy_model :: llm_model where
  "roomy_model = \<lparr>mdl_maxTokens = 0, mdl_contextWindow = 128000, mdl_reasoning = False\<rparr>"

lemma picture_branch: "bp_messages (prepareBranchEntries numText [picture_entry ''a''] 111616) = [picture]"
  by (simp add: prepareBranchEntries_def picture_entry_def getBranchMessage_def Let_def ESTIMATED_IMAGE_CHARS_def)

theorem empty_answer_not_reported_witness:
  "\<exists>result. generateBranchSummary (\<lambda>_. []) [picture_entry ''a''] answering_provider roomy_model plain_options = Inr (Inr result) \<and>
     br_summary result \<noteq> ''No summary generated''"
proof -
  have "\<exists>result. generateBranchSummary (\<lambda>_. []) [picture_entry ''a''] answering_provider roomy_model plain_options =
      Inr (Inr result)"
    by (simp add: generateBranchSummary_def roomy_model_def plain_options_def Let_def picture_branch summary_response_def
        answering_completes silent_assistant_def split: prod.split)
  then obtain result where r: "generateBranchSummary (\<lambda>_. []) [picture_entry ''a''] answering_provider roomy_model plain_options =
      Inr (Inr result)" by blast
  from empty_answer_not_reported [OF _ r] r show ?thesis
    by (simp add: roomy_model_def plain_options_def picture_branch)
qed

end
