(* ===== verification/Agent_Loop.thy ===== *)
theory Agent_Loop
  imports Session_Types
begin

text \<open>
  The agent loop, \<^verbatim>\<open>packages/agent/src/agent-loop.ts\<close>: turns of an assistant response and its tool calls,
  steering and follow-up messages, hooks around tools, and the resumption of calls left without a result.  What the
  loop calls (the provider stream, tools and their schemas, queues and hooks) is a configuration of functions over a
  world of any type, which they read and change in the order the loop calls them; a hook that is not configured is
  one that returns \<^verbatim>\<open>undefined\<close> and changes nothing.  Events go to a trace.  The concurrent executions of a
  parallel batch run as units, in an order the configuration gives.
\<close>

section \<open>Tools, configuration and events\<close>

datatype terminate_hint = TerminateFalse | TerminateTrue | TerminateAny

record agent_tool_result =
  atr_content :: "content_block list option"
  atr_details :: "json option"
  atr_structuredContent :: "json option"
  atr_isError :: "bool option"
  atr_usage :: "usage option"
  atr_addedToolNames :: "string list option"
  atr_terminate :: "terminate_hint option"

datatype execution_mode = Sequential | Parallel

record 'w agent_tool =
  tool_name :: string
  tool_executionMode :: "execution_mode option"
  tool_replaySafe :: bool
  tool_prepareArguments :: "json \<Rightarrow> string + json"
  tool_validate :: "json \<Rightarrow> string + json"
  tool_execute :: "string \<Rightarrow> json \<Rightarrow> 'w \<Rightarrow> (string + agent_tool_result) \<times> agent_tool_result list \<times> 'w"

record 'w agent_context =
  ctx_systemPrompt :: string
  ctx_messages :: "agent_message list"
  ctx_tools :: "'w agent_tool list"

record before_tool_call_result =
  btr_block :: bool
  btr_reason :: "string option"
  btr_terminate :: bool

record after_tool_call_result =
  aft_content :: "content_block list option"
  aft_details :: "json option"
  aft_isError :: "bool option"
  aft_structuredContent :: "json option"
  aft_usage :: "usage option"
  aft_terminate :: "terminate_hint option"

text \<open>Of a model, what the loop passes on and the agent records.\<close>

record loop_model =
  lm_id :: string
  lm_api :: string
  lm_provider :: string

record 'w turn_update =
  tu_context :: "'w agent_context option"
  tu_model :: "loop_model option"
  tu_thinkingLevel :: "string option"

record 'w completed_turn =
  ct_message :: assistant_message
  ct_toolResults :: "tool_result_message list"
  ct_context :: "'w agent_context"
  ct_newMessages :: "agent_message list"

datatype stream_event =
    StreamStart assistant_message
  | StreamDelta bool assistant_message
  | StreamEnd

text \<open>The flag of a delta tells an event of a tool call from one of text or thinking.\<close>

datatype agent_event =
    AgentStart
  | AgentEnd "agent_message list"
  | TurnStart
  | TurnEnd assistant_message "tool_result_message list"
  | MessageStart agent_message
  | MessageUpdate agent_message
  | MessageEnd agent_message
  | ToolExecutionStart string string json "string option"
  | ToolExecutionUpdate string string json agent_tool_result "string option"
  | ToolExecutionEnd string string agent_tool_result bool "string option"

text \<open>\<open>Inl\<close> is an exception of a hook, with its text.\<close>

record 'w loop_config =
  cfg_aborted :: "'w \<Rightarrow> bool"
  cfg_now :: "'w \<Rightarrow> nat"
  cfg_toolExecution :: execution_mode
  cfg_suppressAssistantText :: bool
  cfg_transformContext :: "agent_message list \<Rightarrow> 'w \<Rightarrow> agent_message list \<times> 'w"
  cfg_convertToLlm :: "agent_message list \<Rightarrow> agent_message list"
  cfg_stream :: "loop_model \<Rightarrow> string option \<Rightarrow> 'w agent_context \<Rightarrow> 'w \<Rightarrow> stream_event list \<times> assistant_message \<times> 'w"
  cfg_prepareInitialTurn :: "'w agent_context \<Rightarrow> 'w \<Rightarrow> 'w turn_update option \<times> 'w"
  cfg_prepareNextTurn :: "'w completed_turn \<Rightarrow> 'w \<Rightarrow> 'w turn_update option \<times> 'w"
  cfg_shouldStopAfterTurn :: "'w completed_turn \<Rightarrow> 'w \<Rightarrow> bool \<times> 'w"
  cfg_getSteeringMessages :: "'w \<Rightarrow> agent_message list \<times> 'w"
  cfg_getFollowUpMessages :: "'w \<Rightarrow> agent_message list \<times> 'w"
  cfg_onSteeringBatch :: "agent_message list \<Rightarrow> 'w \<Rightarrow> (string + agent_message list) \<times> 'w"
  cfg_beforeToolCall ::
    "assistant_message \<Rightarrow> tool_call \<Rightarrow> json \<Rightarrow> 'w agent_context \<Rightarrow> 'w \<Rightarrow> (string + before_tool_call_result option) \<times> 'w"
  cfg_afterToolCall ::
    "assistant_message \<Rightarrow> tool_call \<Rightarrow> json \<Rightarrow> agent_tool_result \<Rightarrow> bool \<Rightarrow> 'w agent_context \<Rightarrow> 'w \<Rightarrow>
     (string + after_tool_call_result option) \<times> 'w"
  cfg_resolveToolAvailability :: "string \<Rightarrow> 'w agent_context \<Rightarrow> 'w \<Rightarrow> (string + string option) \<times> 'w"
  cfg_onToolBatchCompleted :: "tool_result_message list \<Rightarrow> 'w agent_context \<Rightarrow> 'w \<Rightarrow> 'w"
  cfg_schedule :: "nat \<Rightarrow> 'w \<Rightarrow> nat list"

text \<open>The world and the events emitted so far.\<close>

type_synonym 'w run = "'w \<times> agent_event list"

definition emit :: "agent_event \<Rightarrow> 'w run \<Rightarrow> 'w run" where
  "emit e st = (fst st, snd st @ [e])"

definition emit_all :: "agent_event list \<Rightarrow> 'w run \<Rightarrow> 'w run" where
  "emit_all es st = (fst st, snd st @ es)"

definition with_world :: "('w \<Rightarrow> 'a \<times> 'w) \<Rightarrow> 'w run \<Rightarrow> 'a \<times> 'w run" where
  "with_world f st = (let (x, w) = f (fst st) in (x, (w, snd st)))"

section \<open>Pending tool calls\<close>

fun pending_calls :: "agent_message list \<Rightarrow> string set \<Rightarrow> (assistant_message \<times> tool_call list) option" where
  "pending_calls [] answered = None"
| "pending_calls (ToolResultMessage r # ms) answered = pending_calls ms (insert (tr_toolCallId r) answered)"
| "pending_calls (UserMessage _ _ # ms) answered = None"
| "pending_calls (AssistantMessage m # ms) answered =
     (if am_stopReason m \<noteq> StopToolUse then None
      else let toolCalls = filter (\<lambda>c. call_id c \<notin> answered) (message_tool_calls m)
           in if toolCalls \<noteq> [] then Some (m, toolCalls) else None)"
| "pending_calls (_ # ms) answered = pending_calls ms answered"

definition findPendingToolCalls :: "agent_message list \<Rightarrow> (assistant_message \<times> tool_call list) option" where
  "findPendingToolCalls messages = pending_calls (rev messages) {}"

section \<open>One tool call\<close>

definition createErrorToolResult :: "string \<Rightarrow> agent_tool_result" where
  "createErrorToolResult message =
     \<lparr>atr_content = Some [TextBlock \<lparr>tc_text = message, tc_textSignature = None\<rparr>], atr_details = Some (JObj []),
      atr_structuredContent = None, atr_isError = None, atr_usage = None, atr_addedToolNames = None, atr_terminate = None\<rparr>"

record finalized_call =
  fin_toolCall :: tool_call
  fin_result :: agent_tool_result
  fin_isError :: bool

definition tool_execution_end :: "finalized_call \<Rightarrow> agent_event" where
  "tool_execution_end f =
     ToolExecutionEnd (call_id (fin_toolCall f)) (call_name (fin_toolCall f)) (fin_result f) (fin_isError f) None"

definition tool_execution_start :: "tool_call \<Rightarrow> agent_event" where
  "tool_execution_start c = ToolExecutionStart (call_id c) (call_name c) (call_arguments c) None"

definition createToolResultMessage :: "finalized_call \<Rightarrow> nat \<Rightarrow> tool_result_message" where
  "createToolResultMessage f now =
     \<lparr>tr_toolCallId = call_id (fin_toolCall f), tr_toolName = call_name (fin_toolCall f),
      tr_content = (case atr_content (fin_result f) of Some bs \<Rightarrow> bs | None \<Rightarrow> []),
      tr_details = atr_details (fin_result f), tr_usage = atr_usage (fin_result f),
      tr_addedToolNames = (case atr_addedToolNames (fin_result f) of
         Some ns \<Rightarrow> if ns \<noteq> [] then Some ns else None | None \<Rightarrow> None),
      tr_isError = fin_isError f, tr_timestamp = now\<rparr>"

definition message_events :: "agent_message \<Rightarrow> agent_event list" where
  "message_events m = [MessageStart m, MessageEnd m]"

definition emit_result :: "'w loop_config \<Rightarrow> finalized_call \<Rightarrow> 'w run \<Rightarrow> tool_result_message \<times> 'w run" where
  "emit_result cfg f st =
     (let m = createToolResultMessage f (cfg_now cfg (fst st))
      in (m, emit_all (message_events (ToolResultMessage m)) st))"

definition find_tool :: "'w agent_tool list \<Rightarrow> string \<Rightarrow> 'w agent_tool option" where
  "find_tool tools name = List.find (\<lambda>t. tool_name t = name) tools"

definition prepareToolCallArguments :: "'w agent_tool \<Rightarrow> tool_call \<Rightarrow> string + tool_call" where
  "prepareToolCallArguments tool c =
     map_sum id (\<lambda>arguments. c\<lparr>call_arguments := arguments\<rparr>) (tool_prepareArguments tool (call_arguments c))"

definition checked_arguments :: "'w agent_tool \<Rightarrow> tool_call \<Rightarrow> string + json" where
  "checked_arguments tool c =
     (case prepareToolCallArguments tool c of
        Inl message \<Rightarrow> Inl message
      | Inr prepared \<Rightarrow> tool_validate tool (call_arguments prepared))"

definition resolveMissingToolResultText :: "'w loop_config \<Rightarrow> string \<Rightarrow> 'w agent_context \<Rightarrow> 'w run \<Rightarrow> string \<times> 'w run" where
  "resolveMissingToolResultText cfg toolName ctx st =
     (let (availability, st') = with_world (cfg_resolveToolAvailability cfg toolName ctx) st
      in (case availability of Inr (Some guidance) \<Rightarrow> guidance | _ \<Rightarrow> ''Tool '' @ toolName @ '' not found'', st'))"

datatype 'w preparation =
    Immediate agent_tool_result
  | Prepared "'w agent_tool" json

definition block_result :: "before_tool_call_result \<Rightarrow> agent_tool_result" where
  "block_result b =
     (let reason = (case btr_reason b of Some r \<Rightarrow> if r = [] then ''Tool execution was blocked'' else r
            | None \<Rightarrow> ''Tool execution was blocked'');
          result = createErrorToolResult reason
      in if btr_terminate b then result\<lparr>atr_terminate := Some TerminateTrue\<rparr> else result)"

definition prepareToolCall ::
    "'w loop_config \<Rightarrow> 'w agent_context \<Rightarrow> assistant_message \<Rightarrow> tool_call \<Rightarrow> 'w run \<Rightarrow> 'w preparation \<times> 'w run" where
  "prepareToolCall cfg ctx assistantMessage toolCall st =
     (case find_tool (ctx_tools ctx) (call_name toolCall) of
        None \<Rightarrow>
          let (text, st') = resolveMissingToolResultText cfg (call_name toolCall) ctx st
          in (Immediate (createErrorToolResult text), st')
      | Some tool \<Rightarrow>
          (case checked_arguments tool toolCall of
             Inl message \<Rightarrow> (Immediate (createErrorToolResult message), st)
           | Inr args \<Rightarrow>
               (case with_world (cfg_beforeToolCall cfg assistantMessage toolCall args ctx) st of
                  (Inl message, st') \<Rightarrow> (Immediate (createErrorToolResult message), st')
                | (Inr before, st') \<Rightarrow>
                    if cfg_aborted cfg (fst st') then (Immediate (createErrorToolResult ''Operation aborted''), st')
                    else (case before of
                            Some b \<Rightarrow> if btr_block b then (Immediate (block_result b), st') else (Prepared tool args, st')
                          | None \<Rightarrow> (Prepared tool args, st')))))"

definition executePreparedToolCall ::
    "'w agent_tool \<Rightarrow> json \<Rightarrow> tool_call \<Rightarrow> string option \<Rightarrow> 'w run \<Rightarrow> agent_tool_result \<times> bool \<times> 'w run" where
  "executePreparedToolCall tool args toolCall parent st =
     (let (outcome, updates, w) = tool_execute tool (call_id toolCall) args (fst st);
          st' = emit_all (map (\<lambda>partial. ToolExecutionUpdate (call_id toolCall) (call_name toolCall) (call_arguments toolCall)
                  partial parent) updates) (w, snd st)
      in case outcome of
           Inr result \<Rightarrow> (result, atr_isError result = Some True, st')
         | Inl message \<Rightarrow> (createErrorToolResult message, True, st'))"

definition or_else :: "'a option \<Rightarrow> 'a option \<Rightarrow> 'a option" where
  "or_else a b = (case a of Some x \<Rightarrow> Some x | None \<Rightarrow> b)"

text \<open>\<^verbatim>\<open>??\<close> on details also passes over an explicit \<^verbatim>\<open>null\<close>.\<close>

definition override_result :: "after_tool_call_result \<Rightarrow> agent_tool_result \<Rightarrow> agent_tool_result" where
  "override_result a result =
     result\<lparr>atr_content := or_else (aft_content a) (atr_content result),
            atr_details := (if aft_details a = None \<or> aft_details a = Some JNull then atr_details result else aft_details a),
            atr_usage := or_else (aft_usage a) (atr_usage result),
            atr_terminate := or_else (aft_terminate a) (atr_terminate result),
            atr_structuredContent := (if aft_structuredContent a \<noteq> None then aft_structuredContent a
              else if aft_content a \<noteq> None then None else atr_structuredContent result),
            atr_isError := or_else (aft_isError a) (atr_isError result)\<rparr>"

definition finalizeExecutedToolCall ::
    "'w loop_config \<Rightarrow> 'w agent_context \<Rightarrow> assistant_message \<Rightarrow> tool_call \<Rightarrow> json \<Rightarrow> agent_tool_result \<Rightarrow> bool \<Rightarrow>
     'w run \<Rightarrow> finalized_call \<times> 'w run" where
  "finalizeExecutedToolCall cfg ctx assistantMessage toolCall args result0 isError0 st =
     (let isError = (isError0 \<or> atr_isError result0 = Some True);
          (outcome, st') = with_world (cfg_afterToolCall cfg assistantMessage toolCall args result0 isError ctx) st
      in (case outcome of
            Inl message \<Rightarrow> \<lparr>fin_toolCall = toolCall, fin_result = createErrorToolResult message, fin_isError = True\<rparr>
          | Inr None \<Rightarrow> \<lparr>fin_toolCall = toolCall, fin_result = result0, fin_isError = isError\<rparr>
          | Inr (Some a) \<Rightarrow>
              \<lparr>fin_toolCall = toolCall, fin_result = override_result a result0,
               fin_isError = (case aft_isError a of Some b \<Rightarrow> b | None \<Rightarrow> isError)\<rparr>, st'))"

text \<open>Executing and finalizing a prepared call, then reporting its end.\<close>

definition run_prepared ::
    "'w loop_config \<Rightarrow> 'w agent_context \<Rightarrow> assistant_message \<Rightarrow> tool_call \<Rightarrow> 'w agent_tool \<Rightarrow> json \<Rightarrow> 'w run \<Rightarrow>
     finalized_call \<times> 'w run" where
  "run_prepared cfg ctx assistantMessage toolCall tool args st =
     (let (result, isError, st1) = executePreparedToolCall tool args toolCall None st;
          (f, st2) = finalizeExecutedToolCall cfg ctx assistantMessage toolCall args result isError st1
      in (f, emit (tool_execution_end f) st2))"

definition immediate_call :: "tool_call \<Rightarrow> agent_tool_result \<Rightarrow> finalized_call" where
  "immediate_call c result = \<lparr>fin_toolCall = c, fin_result = result, fin_isError = True\<rparr>"

section \<open>Batches of tool calls\<close>

definition shouldTerminateToolBatch :: "finalized_call list \<Rightarrow> bool" where
  "shouldTerminateToolBatch fs =
     (list_ex (\<lambda>f. atr_terminate (fin_result f) = Some TerminateAny) fs \<or>
      fs \<noteq> [] \<and> list_all (\<lambda>f. atr_terminate (fin_result f) = Some TerminateTrue) fs)"

record executed_batch =
  eb_messages :: "tool_result_message list"
  eb_terminate :: bool

definition run_call ::
    "'w loop_config \<Rightarrow> 'w agent_context \<Rightarrow> assistant_message \<Rightarrow> tool_call \<Rightarrow> 'w run \<Rightarrow> finalized_call \<times> 'w run" where
  "run_call cfg ctx am c st =
     (case prepareToolCall cfg ctx am c (emit (tool_execution_start c) st) of
        (Immediate result, st1) \<Rightarrow> (immediate_call c result, emit (tool_execution_end (immediate_call c result)) st1)
      | (Prepared tool args, st1) \<Rightarrow> run_prepared cfg ctx am c tool args st1)"

fun sequential_loop ::
    "'w loop_config \<Rightarrow> 'w agent_context \<Rightarrow> assistant_message \<Rightarrow> tool_call list \<Rightarrow> 'w run \<Rightarrow>
     (finalized_call \<times> tool_result_message) list \<times> 'w run" where
  "sequential_loop cfg ctx am [] st = ([], st)"
| "sequential_loop cfg ctx am (c # cs) st =
     (let (f, st1) = run_call cfg ctx am c st;
          (m, st2) = emit_result cfg f st1
      in if cfg_aborted cfg (fst st2) then ([(f, m)], st2)
         else let (rest, st3) = sequential_loop cfg ctx am cs st2 in ((f, m) # rest, st3))"

definition executeToolCallsSequential ::
    "'w loop_config \<Rightarrow> 'w agent_context \<Rightarrow> assistant_message \<Rightarrow> tool_call list \<Rightarrow> 'w run \<Rightarrow> executed_batch \<times> 'w run" where
  "executeToolCallsSequential cfg ctx am toolCalls st =
     (let (finalized, st') = sequential_loop cfg ctx am toolCalls st
      in (\<lparr>eb_messages = map snd finalized, eb_terminate = shouldTerminateToolBatch (map fst finalized)\<rparr>, st'))"

text \<open>An entry of a parallel batch: a call already finalized, or one still to run.\<close>

datatype 'w batch_entry = Settled finalized_call | Waiting tool_call "'w agent_tool" json

definition prepare_entry ::
    "'w loop_config \<Rightarrow> 'w agent_context \<Rightarrow> assistant_message \<Rightarrow> tool_call \<Rightarrow> 'w run \<Rightarrow> 'w batch_entry \<times> 'w run" where
  "prepare_entry cfg ctx am c st =
     (case prepareToolCall cfg ctx am c (emit (tool_execution_start c) st) of
        (Immediate result, st1) \<Rightarrow>
          (Settled (immediate_call c result), emit (tool_execution_end (immediate_call c result)) st1)
      | (Prepared tool args, st1) \<Rightarrow> (Waiting c tool args, st1))"

fun parallel_prepare ::
    "'w loop_config \<Rightarrow> 'w agent_context \<Rightarrow> assistant_message \<Rightarrow> tool_call list \<Rightarrow> 'w run \<Rightarrow> 'w batch_entry list \<times> 'w run" where
  "parallel_prepare cfg ctx am [] st = ([], st)"
| "parallel_prepare cfg ctx am (c # cs) st =
     (let (entry, st1) = prepare_entry cfg ctx am c st
      in if cfg_aborted cfg (fst st1) then ([entry], st1)
         else let (rest, st2) = parallel_prepare cfg ctx am cs st1 in (entry # rest, st2))"

definition run_order :: "nat \<Rightarrow> nat list \<Rightarrow> nat list" where
  "run_order n order = remdups (filter (\<lambda>i. i < n) order) @ filter (\<lambda>i. i \<notin> set order) [0..<n]"

definition run_entry ::
    "'w loop_config \<Rightarrow> 'w agent_context \<Rightarrow> assistant_message \<Rightarrow> 'w batch_entry list \<times> 'w run \<Rightarrow> nat \<Rightarrow>
     'w batch_entry list \<times> 'w run" where
  "run_entry cfg ctx am s i =
     (case fst s ! i of
        Settled f \<Rightarrow> s
      | Waiting c tool args \<Rightarrow>
          let (f, st') = run_prepared cfg ctx am c tool args (snd s) in ((fst s)[i := Settled f], st'))"

definition settled_calls :: "'w batch_entry list \<Rightarrow> finalized_call list" where
  "settled_calls es = List.map_filter (\<lambda>e. case e of Settled f \<Rightarrow> Some f | Waiting _ _ _ \<Rightarrow> None) es"

fun emit_results :: "'w loop_config \<Rightarrow> finalized_call list \<Rightarrow> 'w run \<Rightarrow> tool_result_message list \<times> 'w run" where
  "emit_results cfg [] st = ([], st)"
| "emit_results cfg (f # fs) st =
     (let (m, st1) = emit_result cfg f st; (ms, st2) = emit_results cfg fs st1 in (m # ms, st2))"

definition executeToolCallsParallel ::
    "'w loop_config \<Rightarrow> 'w agent_context \<Rightarrow> assistant_message \<Rightarrow> tool_call list \<Rightarrow> 'w run \<Rightarrow> executed_batch \<times> 'w run" where
  "executeToolCallsParallel cfg ctx am toolCalls st =
     (let (entries, st1) = parallel_prepare cfg ctx am toolCalls st;
          (entries', st2) = foldl (run_entry cfg ctx am) (entries, st1)
            (run_order (length entries) (cfg_schedule cfg (length entries) (fst st1)));
          (messages, st3) = emit_results cfg (settled_calls entries') st2
      in (\<lparr>eb_messages = messages, eb_terminate = shouldTerminateToolBatch (settled_calls entries')\<rparr>, st3))"

definition executeToolCalls ::
    "'w loop_config \<Rightarrow> 'w agent_context \<Rightarrow> assistant_message \<Rightarrow> tool_call list \<Rightarrow> 'w run \<Rightarrow> executed_batch \<times> 'w run" where
  "executeToolCalls cfg ctx am toolCalls st =
     (let hasSequentialToolCall = list_ex (\<lambda>c. case find_tool (ctx_tools ctx) (call_name c) of
            Some t \<Rightarrow> tool_executionMode t = Some Sequential | None \<Rightarrow> False) toolCalls
      in if cfg_toolExecution cfg = Sequential \<or> hasSequentialToolCall
         then executeToolCallsSequential cfg ctx am toolCalls st
         else executeToolCallsParallel cfg ctx am toolCalls st)"

text \<open>Calls that are answered with an error and not executed.\<close>

fun fail_calls ::
    "'w loop_config \<Rightarrow> (tool_call \<Rightarrow> string) \<Rightarrow> tool_call list \<Rightarrow> 'w run \<Rightarrow> tool_result_message list \<times> 'w run" where
  "fail_calls cfg text [] st = ([], st)"
| "fail_calls cfg text (c # cs) st =
     (let f = immediate_call c (createErrorToolResult (text c));
          (m, st1) = emit_result cfg f (emit_all [tool_execution_start c, tool_execution_end f] st);
          (ms, st2) = fail_calls cfg text cs st1
      in (m # ms, st2))"

definition quoted :: "string \<Rightarrow> string" where
  "quoted s = [CHR 0x22] @ s @ [CHR 0x22]"

definition truncated_text :: "tool_call \<Rightarrow> string" where
  "truncated_text c = ''Tool call '' @ quoted (call_name c) @
     '' was not executed: the response hit the output token limit, so its arguments may be truncated. Re-issue the tool call with complete arguments.''"

definition failToolCallsFromTruncatedMessage :: "'w loop_config \<Rightarrow> tool_call list \<Rightarrow> 'w run \<Rightarrow> executed_batch \<times> 'w run" where
  "failToolCallsFromTruncatedMessage cfg toolCalls st =
     (let (ms, st') = fail_calls cfg truncated_text toolCalls st in (\<lparr>eb_messages = ms, eb_terminate = False\<rparr>, st'))"

definition interrupted_text :: "tool_call \<Rightarrow> string" where
  "interrupted_text c = ''Tool call '' @ quoted (call_name c) @
     '' was interrupted before its result was recorded and was not re-run. Its effects, if any, are unknown; check the current state before re-issuing it.''"

definition replayable :: "'w agent_context \<Rightarrow> tool_call \<Rightarrow> bool" where
  "replayable ctx c = (case find_tool (ctx_tools ctx) (call_name c) of Some t \<Rightarrow> tool_replaySafe t | None \<Rightarrow> False)"

definition executePendingToolCalls ::
    "'w loop_config \<Rightarrow> 'w agent_context \<Rightarrow> assistant_message \<Rightarrow> tool_call list \<Rightarrow> 'w run \<Rightarrow> executed_batch \<times> 'w run" where
  "executePendingToolCalls cfg ctx am pending st =
     (let interrupted = filter (\<lambda>c. \<not> replayable ctx c) pending;
          (messages, st1) = fail_calls cfg interrupted_text interrupted st;
          replayed = filter (replayable ctx) pending
      in if replayed = [] then (\<lparr>eb_messages = messages, eb_terminate = False\<rparr>, st1)
         else let (batch, st2) = executeToolCalls cfg ctx am replayed st1
              in (\<lparr>eb_messages = messages @ eb_messages batch, eb_terminate = (interrupted = [] \<and> eb_terminate batch)\<rparr>, st2))"

section \<open>Dispatching a single tool\<close>

datatype call_status = StatusSuccess | StatusBlocked | StatusValidationError | StatusError | StatusAborted

record call_outcome =
  co_result :: agent_tool_result
  co_isError :: bool
  co_status :: call_status

definition end_outcome :: "tool_call \<Rightarrow> string option \<Rightarrow> call_outcome \<Rightarrow> 'w run \<Rightarrow> call_outcome \<times> 'w run" where
  "end_outcome c parent outcome st =
     (outcome, emit (ToolExecutionEnd (call_id c) (call_name c) (co_result outcome) (co_isError outcome) parent) st)"

definition error_outcome :: "string \<Rightarrow> call_status \<Rightarrow> call_outcome" where
  "error_outcome message status = \<lparr>co_result = createErrorToolResult message, co_isError = True, co_status = status\<rparr>"

definition runToolCall ::
    "'w loop_config \<Rightarrow> 'w agent_tool list \<Rightarrow> 'w agent_context \<Rightarrow> assistant_message \<Rightarrow> tool_call \<Rightarrow> string option \<Rightarrow>
     'w run \<Rightarrow> call_outcome \<times> 'w run" where
  "runToolCall cfg tools ctx am toolCall parent st0 =
     (let st = emit (ToolExecutionStart (call_id toolCall) (call_name toolCall) (call_arguments toolCall) parent) st0
      in case find_tool tools (call_name toolCall) of
           None \<Rightarrow> end_outcome toolCall parent
             (error_outcome (''Tool '' @ call_name toolCall @ '' not found'') StatusValidationError) st
         | Some tool \<Rightarrow>
             (case checked_arguments tool toolCall of
                Inl message \<Rightarrow> end_outcome toolCall parent (error_outcome message StatusValidationError) st
              | Inr args \<Rightarrow>
                  if cfg_aborted cfg (fst st)
                  then end_outcome toolCall parent (error_outcome ''Operation aborted'' StatusAborted) st
                  else (case with_world (cfg_beforeToolCall cfg am toolCall args ctx) st of
                    (Inl message, st') \<Rightarrow> end_outcome toolCall parent
                      (error_outcome message (if cfg_aborted cfg (fst st') then StatusAborted else StatusError)) st'
                  | (Inr before, st') \<Rightarrow>
                      if cfg_aborted cfg (fst st')
                      then end_outcome toolCall parent (error_outcome ''Operation aborted'' StatusAborted) st'
                      else if (case before of Some b \<Rightarrow> btr_block b | None \<Rightarrow> False)
                      then end_outcome toolCall parent
                        \<lparr>co_result = block_result (the before), co_isError = True, co_status = StatusBlocked\<rparr> st'
                      else
                        let (result, isError, st1) = executePreparedToolCall tool args toolCall parent st';
                            (f, st2) = finalizeExecutedToolCall cfg ctx am toolCall args result isError st1
                        in end_outcome toolCall parent
                          \<lparr>co_result = fin_result f, co_isError = fin_isError f,
                           co_status = (if cfg_aborted cfg (fst st2) then StatusAborted
                             else if fin_isError f then StatusError else StatusSuccess)\<rparr> st2)))"

section \<open>The assistant's response\<close>

text \<open>\<open>partial\<close> tells whether the last message of the context is the partial one.\<close>

fun stream_loop :: "bool \<Rightarrow> stream_event list \<Rightarrow> bool \<Rightarrow> agent_message list \<Rightarrow> 'w run \<Rightarrow> bool \<times> agent_message list \<times> 'w run" where
  "stream_loop suppress [] partial messages st = (partial, messages, st)"
| "stream_loop suppress (StreamStart p # es) partial messages st =
     stream_loop suppress es True (messages @ [AssistantMessage p]) (emit (MessageStart (AssistantMessage p)) st)"
| "stream_loop suppress (StreamDelta isToolCall p # es) partial messages st =
     (if partial
      then stream_loop suppress es True (butlast messages @ [AssistantMessage p])
             (if suppress \<and> \<not> isToolCall then st else emit (MessageUpdate (AssistantMessage p)) st)
      else stream_loop suppress es partial messages st)"
| "stream_loop suppress (StreamEnd # es) partial messages st = (partial, messages, st)"

definition is_tool_call_block :: "assistant_block \<Rightarrow> bool" where
  "is_tool_call_block b = (case b of AssistantToolCall _ \<Rightarrow> True | _ \<Rightarrow> False)"

definition final_message :: "bool \<Rightarrow> assistant_message \<Rightarrow> assistant_message" where
  "final_message suppress m =
     (if suppress then m\<lparr>am_content := filter is_tool_call_block (am_content m)\<rparr> else m)"

definition streamAssistantResponse ::
    "'w loop_config \<Rightarrow> loop_model \<Rightarrow> string option \<Rightarrow> 'w agent_context \<Rightarrow> 'w run \<Rightarrow>
     assistant_message \<times> 'w agent_context \<times> 'w run" where
  "streamAssistantResponse cfg model reasoning ctx st =
     (let (transformed, st1) = with_world (cfg_transformContext cfg (ctx_messages ctx)) st;
          llmContext = ctx\<lparr>ctx_messages := cfg_convertToLlm cfg transformed\<rparr>;
          (events, result, w) = cfg_stream cfg model reasoning llmContext (fst st1);
          (partial, messages, st2) = stream_loop (cfg_suppressAssistantText cfg) events False (ctx_messages ctx) (w, snd st1);
          finalMessage = final_message (cfg_suppressAssistantText cfg) result;
          messages' = (if partial then butlast messages @ [AssistantMessage finalMessage]
                       else messages @ [AssistantMessage finalMessage]);
          st3 = (if partial then st2 else emit (MessageStart (AssistantMessage finalMessage)) st2)
      in (finalMessage, ctx\<lparr>ctx_messages := messages'\<rparr>, emit (MessageEnd (AssistantMessage finalMessage)) st3))"

section \<open>The loop\<close>

record 'w loop_state =
  lp_context :: "'w agent_context"
  lp_model :: loop_model
  lp_reasoning :: "string option"
  lp_newMessages :: "agent_message list"
  lp_pendingMessages :: "agent_message list"
  lp_pendingAreSteering :: bool
  lp_hasMoreToolCalls :: bool
  lp_lastCompletedTurn :: "'w completed_turn option"
  lp_resume :: "(assistant_message \<times> tool_call list) option"
  lp_run :: "'w run"

definition apply_update :: "'w turn_update option \<Rightarrow> 'w loop_state \<Rightarrow> 'w loop_state" where
  "apply_update u s =
     (case u of
        None \<Rightarrow> s
      | Some t \<Rightarrow> s\<lparr>lp_context := (case tu_context t of Some c \<Rightarrow> c | None \<Rightarrow> lp_context s),
                    lp_model := (case tu_model t of Some m \<Rightarrow> m | None \<Rightarrow> lp_model s),
                    lp_reasoning := (case tu_thinkingLevel t of
                       None \<Rightarrow> lp_reasoning s | Some l \<Rightarrow> if l = ''off'' then None else Some l)\<rparr>)"

text \<open>An aborted run takes nothing from the queues.\<close>

definition take_messages :: "('w \<Rightarrow> agent_message list \<times> 'w) \<Rightarrow> 'w loop_config \<Rightarrow> 'w run \<Rightarrow> agent_message list \<times> 'w run" where
  "take_messages queue cfg st = (if cfg_aborted cfg (fst st) then ([], st) else with_world queue st)"

definition takeSteering :: "'w loop_config \<Rightarrow> 'w run \<Rightarrow> agent_message list \<times> 'w run" where
  "takeSteering cfg st = take_messages (cfg_getSteeringMessages cfg) cfg st"

definition takeFollowUps :: "'w loop_config \<Rightarrow> 'w run \<Rightarrow> agent_message list \<times> 'w run" where
  "takeFollowUps cfg st = take_messages (cfg_getFollowUpMessages cfg) cfg st"

definition begin_turn :: "'w loop_config \<Rightarrow> 'w loop_state \<Rightarrow> 'w loop_state" where
  "begin_turn cfg s =
     (case lp_lastCompletedTurn s of
        None \<Rightarrow> s
      | Some turn \<Rightarrow>
          let (u, st1) = with_world (cfg_prepareNextTurn cfg turn) (lp_run s);
              s1 = apply_update u (s\<lparr>lp_run := st1\<rparr>);
              s2 = (if lp_pendingMessages s1 = []
                    then let (ms, st2) = takeSteering cfg (lp_run s1)
                         in s1\<lparr>lp_pendingMessages := ms, lp_run := st2\<rparr>
                    else s1)
          in s2\<lparr>lp_run := emit TurnStart (lp_run s2)\<rparr>)"

definition add_messages :: "agent_message list \<Rightarrow> 'w loop_state \<Rightarrow> 'w loop_state" where
  "add_messages ms s =
     s\<lparr>lp_context := (lp_context s)\<lparr>ctx_messages := ctx_messages (lp_context s) @ ms\<rparr>,
       lp_newMessages := lp_newMessages s @ ms\<rparr>"

definition inject_pending :: "'w loop_config \<Rightarrow> 'w loop_state \<Rightarrow> 'w loop_state" where
  "inject_pending cfg s =
     (if lp_pendingMessages s = [] then s
      else
        let (extras, st1) = (if lp_pendingAreSteering s
              then (case with_world (cfg_onSteeringBatch cfg (lp_pendingMessages s)) (lp_run s) of
                      (Inr ms, st1) \<Rightarrow> (ms, st1) | (Inl _, st1) \<Rightarrow> ([], st1))
              else ([], lp_run s));
            ms = lp_pendingMessages s @ extras
        in (add_messages ms s)\<lparr>lp_run := emit_all (concat (map message_events ms)) st1,
             lp_pendingMessages := [], lp_pendingAreSteering := True\<rparr>)"

text \<open>The tools of a turn; nothing is called when the message has no tool calls.\<close>

definition run_tools ::
    "'w loop_config \<Rightarrow> (assistant_message \<times> tool_call list) option \<Rightarrow> assistant_message \<Rightarrow> 'w loop_state \<Rightarrow>
     tool_result_message list \<times> 'w loop_state" where
  "run_tools cfg resumed message s =
     (if message_tool_calls message = [] then ([], s\<lparr>lp_hasMoreToolCalls := False\<rparr>)
      else
        let (batch, st1) = (case resumed of
              Some (am, calls) \<Rightarrow> executePendingToolCalls cfg (lp_context s) am calls (lp_run s)
            | None \<Rightarrow>
                if am_stopReason message = StopLength
                then failToolCallsFromTruncatedMessage cfg (message_tool_calls message) (lp_run s)
                else executeToolCalls cfg (lp_context s) message (message_tool_calls message) (lp_run s));
            s1 = add_messages (map ToolResultMessage (eb_messages batch))
                   (s\<lparr>lp_run := st1, lp_hasMoreToolCalls := \<not> eb_terminate batch\<rparr>)
        in (eb_messages batch,
            s1\<lparr>lp_run := (cfg_onToolBatchCompleted cfg (eb_messages batch) (lp_context s1) (fst (lp_run s1)), snd (lp_run s1))\<rparr>))"

definition end_run :: "'w loop_state \<Rightarrow> 'w loop_state" where
  "end_run s = s\<lparr>lp_run := emit (AgentEnd (lp_newMessages s)) (lp_run s)\<rparr>"

text \<open>The message of a turn: the recorded one of a resumed batch, or a new response.\<close>

definition turn_response :: "'w loop_config \<Rightarrow> 'w loop_state \<Rightarrow> assistant_message \<times> 'w loop_state" where
  "turn_response cfg s =
     (case lp_resume s of
        Some (am, _) \<Rightarrow> (am, s\<lparr>lp_resume := None\<rparr>)
      | None \<Rightarrow>
          let (m, ctx, st) = streamAssistantResponse cfg (lp_model s) (lp_reasoning s) (lp_context s) (lp_run s)
          in (m, s\<lparr>lp_context := ctx, lp_run := st, lp_newMessages := lp_newMessages s @ [AssistantMessage m]\<rparr>))"

definition finish_turn ::
    "'w loop_config \<Rightarrow> assistant_message \<Rightarrow> tool_result_message list \<Rightarrow> 'w loop_state \<Rightarrow> bool \<times> 'w loop_state" where
  "finish_turn cfg message toolResults s =
     (let turn = \<lparr>ct_message = message, ct_toolResults = toolResults, ct_context = lp_context s, ct_newMessages = lp_newMessages s\<rparr>;
          (stop, st1) = with_world (cfg_shouldStopAfterTurn cfg turn) (emit (TurnEnd message toolResults) (lp_run s));
          s1 = s\<lparr>lp_lastCompletedTurn := Some turn, lp_run := st1\<rparr>
      in if stop then (True, end_run s1)
         else let (ms, st2) = takeSteering cfg st1 in (False, s1\<lparr>lp_pendingMessages := ms, lp_run := st2\<rparr>))"

text \<open>One iteration of the inner loop; the flag tells that the run has ended.\<close>

definition run_turn :: "'w loop_config \<Rightarrow> 'w loop_state \<Rightarrow> bool \<times> 'w loop_state" where
  "run_turn cfg s =
     (let s1 = inject_pending cfg (begin_turn cfg s);
          (message, s2) = turn_response cfg s1
      in if am_stopReason message = StopError \<or> am_stopReason message = StopAborted
         then (True, end_run (s2\<lparr>lp_run := emit (TurnEnd message []) (lp_run s2)\<rparr>))
         else let (toolResults, s3) = run_tools cfg (lp_resume s1) message s2 in finish_turn cfg message toolResults s3)"

partial_function (option) run_loop :: "'w loop_config \<Rightarrow> 'w loop_state \<Rightarrow> 'w loop_state option" where
  "run_loop cfg s =
     (if lp_hasMoreToolCalls s \<or> lp_pendingMessages s \<noteq> []
      then (case run_turn cfg s of (ended, s') \<Rightarrow> if ended then Some s' else run_loop cfg s')
      else (case takeFollowUps cfg (lp_run s) of
              (ms, st) \<Rightarrow>
                if ms \<noteq> []
                then run_loop cfg (s\<lparr>lp_pendingMessages := ms, lp_pendingAreSteering := False,
                                     lp_hasMoreToolCalls := True, lp_run := st\<rparr>)
                else Some (end_run (s\<lparr>lp_run := st\<rparr>))))"

definition runLoop ::
    "'w loop_config \<Rightarrow> 'w agent_context \<Rightarrow> agent_message list \<Rightarrow> loop_model \<Rightarrow> string option \<Rightarrow>
     (assistant_message \<times> tool_call list) option \<Rightarrow> 'w run \<Rightarrow> 'w loop_state option" where
  "runLoop cfg ctx newMessages model reasoning resume st =
     (let (u, st1) = with_world (cfg_prepareInitialTurn cfg ctx) st;
          s1 = apply_update u
            \<lparr>lp_context = ctx, lp_model = model, lp_reasoning = reasoning, lp_newMessages = newMessages,
             lp_pendingMessages = [], lp_pendingAreSteering = True, lp_hasMoreToolCalls = True,
             lp_lastCompletedTurn = None, lp_resume = resume, lp_run = st1\<rparr>;
          (ms, st2) = (if resume \<noteq> None then ([], lp_run s1) else takeSteering cfg (lp_run s1))
      in run_loop cfg (s1\<lparr>lp_pendingMessages := ms, lp_run := st2\<rparr>))"

definition start_events :: "agent_event list" where
  "start_events = [AgentStart, TurnStart]"

definition runAgentLoop ::
    "'w loop_config \<Rightarrow> agent_message list \<Rightarrow> 'w agent_context \<Rightarrow> loop_model \<Rightarrow> string option \<Rightarrow> 'w run \<Rightarrow>
     (agent_message list \<times> 'w run) option" where
  "runAgentLoop cfg prompts ctx model reasoning st =
     map_option (\<lambda>s. (lp_newMessages s, lp_run s))
       (runLoop cfg (ctx\<lparr>ctx_messages := ctx_messages ctx @ prompts\<rparr>) prompts model reasoning None
         (emit_all (start_events @ concat (map message_events prompts)) st))"

datatype loop_error = NoMessages | LastIsAssistant | NoPendingToolCalls

fun is_assistant :: "agent_message \<Rightarrow> bool" where
  "is_assistant (AssistantMessage _) = True"
| "is_assistant _ = False"

definition runAgentLoopContinue ::
    "'w loop_config \<Rightarrow> 'w agent_context \<Rightarrow> loop_model \<Rightarrow> string option \<Rightarrow> 'w run \<Rightarrow>
     loop_error + (agent_message list \<times> 'w run) option" where
  "runAgentLoopContinue cfg ctx model reasoning st =
     (if ctx_messages ctx = [] then Inl NoMessages
      else if is_assistant (last (ctx_messages ctx)) then Inl LastIsAssistant
      else Inr (map_option (\<lambda>s. (lp_newMessages s, lp_run s))
             (runLoop cfg ctx [] model reasoning None (emit_all start_events st))))"

definition runAgentLoopResume ::
    "'w loop_config \<Rightarrow> 'w agent_context \<Rightarrow> loop_model \<Rightarrow> string option \<Rightarrow> 'w run \<Rightarrow>
     loop_error + (agent_message list \<times> 'w run) option" where
  "runAgentLoopResume cfg ctx model reasoning st =
     (case findPendingToolCalls (ctx_messages ctx) of
        None \<Rightarrow> Inl NoPendingToolCalls
      | Some pending \<Rightarrow> Inr (map_option (\<lambda>s. (lp_newMessages s, lp_run s))
          (runLoop cfg ctx [] model reasoning (Some pending) (emit_all start_events st))))"

section \<open>Every call of a batch is answered\<close>

definition never_aborts :: "'w loop_config \<Rightarrow> bool" where
  "never_aborts cfg = (\<forall>w. \<not> cfg_aborted cfg w)"

definition answers :: "bool \<Rightarrow> string list \<Rightarrow> string list \<Rightarrow> bool" where
  "answers whole ids calls = (\<exists>k. ids = take k calls \<and> (whole \<longrightarrow> length calls \<le> k))"

lemma answers_Nil [simp]: "answers whole [] []"
  by (simp add: answers_def)

lemma answers_all: "answers whole ids ids"
  unfolding answers_def by (intro exI [of _ "length ids"]) simp

lemma answers_Cons: "answers whole ids calls \<Longrightarrow> answers whole (c # ids) (c # calls)"
  unfolding answers_def by (metis Suc_le_mono length_Cons take_Suc_Cons)

lemma answers_one: "\<not> whole \<Longrightarrow> answers whole [c] (c # calls)"
  unfolding answers_def by (intro exI [of _ 1]) simp

lemma emit_result_id: "emit_result cfg f st = (m, st') \<Longrightarrow> tr_toolCallId m = call_id (fin_toolCall f) \<and> fst st' = fst st"
  by (auto simp: emit_result_def createToolResultMessage_def emit_all_def Let_def)

lemma finalize_call: "fin_toolCall (fst (finalizeExecutedToolCall cfg ctx am c args result e st)) = c"
  by (auto simp: finalizeExecutedToolCall_def Let_def split: prod.splits sum.splits option.splits)

lemma run_prepared_call: "run_prepared cfg ctx am c tool args st = (f, st') \<Longrightarrow> fin_toolCall f = c"
  using finalize_call [of cfg ctx am c args] by (auto simp: run_prepared_def Let_def split: prod.splits) (metis fst_conv)

lemma immediate_call [simp]: "fin_toolCall (immediate_call c r) = c"
  by (simp add: immediate_call_def)

lemma run_call_call: "run_call cfg ctx am c st = (f, st') \<Longrightarrow> fin_toolCall f = c"
  by (auto simp: run_call_def dest: run_prepared_call split: prod.splits preparation.splits)

lemma sequential_calls:
  "sequential_loop cfg ctx am cs st = (fs, st') \<Longrightarrow>
   map (tr_toolCallId \<circ> snd) fs = map (call_id \<circ> fin_toolCall \<circ> fst) fs \<and>
   answers (never_aborts cfg) (map (tr_toolCallId \<circ> snd) fs) (map call_id cs)"
proof (induction cs arbitrary: st fs st')
  case (Cons c cs)
  obtain f st1 where f: "run_call cfg ctx am c st = (f, st1)" by (rule prod.exhaust)
  note call = run_call_call [OF f]
  obtain m st2 where m: "emit_result cfg f st1 = (m, st2)" by (rule prod.exhaust)
  note id = emit_result_id [OF m]
  show ?case
  proof (cases "cfg_aborted cfg (fst st2)")
    case True
    with Cons.prems f m have "fs = [(f, m)]" by simp
    moreover have "\<not> never_aborts cfg" using True by (auto simp: never_aborts_def)
    ultimately show ?thesis using id call by (simp add: answers_one)
  next
    case False
    obtain rest st3 where rest: "sequential_loop cfg ctx am cs st2 = (rest, st3)" by (rule prod.exhaust)
    with Cons.prems f m False have "fs = (f, m) # rest" by simp
    with Cons.IH [OF rest] id call show ?thesis by (simp add: answers_Cons)
  qed
qed simp

fun entry_call :: "'w batch_entry \<Rightarrow> tool_call" where
  "entry_call (Settled f) = fin_toolCall f"
| "entry_call (Waiting c _ _) = c"

fun is_settled :: "'w batch_entry \<Rightarrow> bool" where
  "is_settled (Settled _) = True"
| "is_settled (Waiting _ _ _) = False"

lemma prepare_entry_call: "prepare_entry cfg ctx am c st = (e, st') \<Longrightarrow> entry_call e = c"
  by (auto simp: prepare_entry_def split: prod.splits preparation.splits)

lemma parallel_prepare_calls:
  "parallel_prepare cfg ctx am cs st = (es, st') \<Longrightarrow>
   answers (never_aborts cfg) (map (call_id \<circ> entry_call) es) (map call_id cs)"
proof (induction cs arbitrary: st es st')
  case (Cons c cs)
  obtain e st1 where e: "prepare_entry cfg ctx am c st = (e, st1)" by (rule prod.exhaust)
  note call = prepare_entry_call [OF e]
  show ?case
  proof (cases "cfg_aborted cfg (fst st1)")
    case True
    with Cons.prems e have "es = [e]" by simp
    moreover have "\<not> never_aborts cfg" using True by (auto simp: never_aborts_def)
    ultimately show ?thesis by (simp add: answers_one call)
  next
    case False
    obtain rest st2 where rest: "parallel_prepare cfg ctx am cs st1 = (rest, st2)" by (rule prod.exhaust)
    with Cons.prems e False have "es = e # rest" by simp
    with Cons.IH [OF rest] call show ?thesis by (simp add: answers_Cons)
  qed
qed simp

lemma run_entry_keeps:
  "map entry_call (fst (run_entry cfg ctx am s i)) = map entry_call (fst s)"
  "length (fst (run_entry cfg ctx am s i)) = length (fst s)"
  "is_settled (fst s ! j) \<Longrightarrow> j < length (fst s) \<Longrightarrow> is_settled (fst (run_entry cfg ctx am s i) ! j)"
proof -
  have keep: "map entry_call ((fst s)[i := Settled f]) = map entry_call (fst s)"
    if "fst s ! i = Waiting c tool args" and "run_prepared cfg ctx am c tool args (snd s) = (f, st')" for c tool args f st'
    using that run_prepared_call [OF that(2)] by (cases "i < length (fst s)") (auto simp: map_update list_update_same_conv list_update_beyond)
  show "map entry_call (fst (run_entry cfg ctx am s i)) = map entry_call (fst s)"
    by (auto simp: run_entry_def keep split: batch_entry.splits prod.splits)
  show "length (fst (run_entry cfg ctx am s i)) = length (fst s)"
    by (auto simp: run_entry_def split: batch_entry.splits prod.splits)
  assume "is_settled (fst s ! j)" "j < length (fst s)"
  then show "is_settled (fst (run_entry cfg ctx am s i) ! j)"
    by (cases "i = j") (auto simp: run_entry_def split: batch_entry.splits prod.splits)
qed

lemma run_entry_settles: "i < length (fst s) \<Longrightarrow> is_settled (fst (run_entry cfg ctx am s i) ! i)"
  by (auto simp: run_entry_def split: batch_entry.splits prod.splits)

lemma run_entries_settle:
  "map entry_call (fst (foldl (run_entry cfg ctx am) s order)) = map entry_call (fst s) \<and>
   (\<forall>j < length (fst s). is_settled (fst s ! j) \<or> j \<in> set order \<longrightarrow> is_settled (fst (foldl (run_entry cfg ctx am) s order) ! j))"
proof (induction order arbitrary: s)
  case (Cons i order)
  show ?case
    using Cons.IH [of "run_entry cfg ctx am s i"] run_entry_keeps [where cfg = cfg and ctx = ctx and am = am and s = s and i = i]
      run_entry_settles [of i s, where cfg = cfg and ctx = ctx and am = am]
    by auto
qed simp

lemma run_order_all: "set (run_order n order) = {..<n}"
  by (auto simp: run_order_def)

lemma settled_all: "\<forall>e \<in> set es. is_settled e \<Longrightarrow> map fin_toolCall (settled_calls es) = map entry_call es"
proof (induction es)
  case (Cons e es)
  then show ?case by (cases e) (auto simp: settled_calls_def List.map_filter_simps)
qed (simp add: settled_calls_def List.map_filter_simps)

lemma emit_results_ids: "emit_results cfg fs st = (ms, st') \<Longrightarrow> map tr_toolCallId ms = map (call_id \<circ> fin_toolCall) fs"
proof (induction fs arbitrary: st ms st')
  case (Cons f fs)
  obtain m st1 where m: "emit_result cfg f st = (m, st1)" by (rule prod.exhaust)
  obtain ms' st2 where rest: "emit_results cfg fs st1 = (ms', st2)" by (rule prod.exhaust)
  have "ms = m # ms'" using Cons.prems m rest by simp
  with emit_result_id [OF m] Cons.IH [OF rest] show ?case by simp
qed simp

lemma parallel_calls:
  assumes "executeToolCallsParallel cfg ctx am cs st = (batch, st')"
  shows "answers (never_aborts cfg) (map tr_toolCallId (eb_messages batch)) (map call_id cs)"
proof -
  obtain es st1 where es: "parallel_prepare cfg ctx am cs st = (es, st1)" by (rule prod.exhaust)
  let ?order = "run_order (length es) (cfg_schedule cfg (length es) (fst st1))"
  obtain es' st2 where es': "foldl (run_entry cfg ctx am) (es, st1) ?order = (es', st2)" by (rule prod.exhaust)
  have calls: "map entry_call es' = map entry_call es" and "\<forall>j < length es. is_settled (es' ! j)"
    using run_entries_settle [of cfg ctx am "(es, st1)" ?order] es' by (auto simp: run_order_all)
  moreover from calls have "length es' = length es" by (metis length_map)
  ultimately have "\<forall>e \<in> set es'. is_settled e" by (metis in_set_conv_nth)
  then have "map fin_toolCall (settled_calls es') = map entry_call es" using settled_all calls by metis
  then have "map (call_id \<circ> fin_toolCall) (settled_calls es') = map (call_id \<circ> entry_call) es"
    by (metis list.map_comp)
  moreover obtain ms st3 where ms: "emit_results cfg (settled_calls es') st2 = (ms, st3)" by (rule prod.exhaust)
  moreover have "eb_messages batch = ms" using assms es es' ms by (auto simp: executeToolCallsParallel_def)
  ultimately show ?thesis using emit_results_ids [OF ms] parallel_prepare_calls [OF es] by simp
qed

lemma execute_calls:
  assumes "executeToolCalls cfg ctx am cs st = (batch, st')"
  shows "answers (never_aborts cfg) (map tr_toolCallId (eb_messages batch)) (map call_id cs)"
proof (cases "executeToolCalls cfg ctx am cs st = executeToolCallsParallel cfg ctx am cs st")
  case True
  with assms show ?thesis using parallel_calls by metis
next
  case False
  then have "executeToolCallsSequential cfg ctx am cs st = (batch, st')"
    using assms by (auto simp: executeToolCalls_def Let_def split: if_splits)
  then show ?thesis using sequential_calls [of cfg ctx am cs st]
    by (auto simp: executeToolCallsSequential_def comp_def split: prod.splits)
qed

lemma fail_calls_ids: "fail_calls cfg text cs st = (ms, st') \<Longrightarrow>
    map tr_toolCallId ms = map call_id cs \<and> fst st' = fst st \<and> list_all tr_isError ms"
proof (induction cs arbitrary: st ms st')
  case (Cons c cs)
  obtain m st1 where m: "emit_result cfg (immediate_call c (createErrorToolResult (text c)))
      (emit_all [tool_execution_start c, tool_execution_end (immediate_call c (createErrorToolResult (text c)))] st) = (m, st1)"
    by (rule prod.exhaust)
  obtain ms' st2 where rest: "fail_calls cfg text cs st1 = (ms', st2)" by (rule prod.exhaust)
  have "tr_isError m" using m by (auto simp: emit_result_def createToolResultMessage_def immediate_call_def Let_def)
  moreover have "ms = m # ms'" "st' = st2" using Cons.prems m rest by (auto simp: Let_def)
  ultimately show ?case using emit_result_id [OF m] Cons.IH [OF rest] by (simp add: emit_all_def)
qed simp

end
