(* ===== verification/Agent_Run.thy ===== *)
theory Agent_Run
  imports Agent_Loop "HOL-Library.Multiset"
begin

text \<open>
  Whole runs of the agent loop: what the parts of a turn keep (the locales \<open>effects\<close> and \<open>turn_effects\<close>, with
  the events as one relation they are interpreted on and a budget of the world as another), the shape of a turn, the
  messages and events a run returns, when it returns, and what resumption settles.
\<close>

section \<open>What holds across the parts of a turn\<close>

text \<open>The events of tools and messages; the others open and close turns and runs.\<close>

fun neutral :: "agent_event \<Rightarrow> bool" where
  "neutral AgentStart = False"
| "neutral (AgentEnd _) = False"
| "neutral TurnStart = False"
| "neutral (TurnEnd _ _) = False"
| "neutral _ = True"

lemma neutral_tool_events [simp]: "neutral (tool_execution_start c)" "neutral (tool_execution_end f)"
  by (simp_all add: tool_execution_start_def tool_execution_end_def)

lemma neutral_message_events [simp]: "list_all neutral (message_events m)"
  by (simp add: message_events_def)

lemma neutral_messages_events [simp]: "list_all neutral (concat (map message_events ms))"
  by (induction ms) auto

fun tool_event :: "agent_event \<Rightarrow> bool" where
  "tool_event (ToolExecutionStart _ _ _ _) = True"
| "tool_event (ToolExecutionUpdate _ _ _ _ _) = True"
| "tool_event (ToolExecutionEnd _ _ _ _ _) = True"
| "tool_event _ = False"

lemma tool_event_neutral: "tool_event e \<Longrightarrow> neutral e"
  by (cases e) auto

lemma tool_events [simp]: "tool_event (tool_execution_start c)" "tool_event (tool_execution_end f)"
  by (simp_all add: tool_execution_start_def tool_execution_end_def)

lemma emit_all_induct:
  assumes "list_all p es" and "\<And>st. rel st st" and "\<And>st st' st''. rel st st' \<Longrightarrow> rel st' st'' \<Longrightarrow> rel st st''"
    and "\<And>e st. p e \<Longrightarrow> rel st (emit e st)"
  shows "rel st (emit_all es st)"
  using assms(1)
proof (induction es rule: rev_induct)
  case Nil
  then show ?case using assms(2) by (simp add: emit_all_def)
next
  case (snoc e es)
  have "emit_all (es @ [e]) st = emit e (emit_all es st)" by (simp add: emit_all_def emit_def)
  with snoc assms(3) [OF snoc.IH assms(4), of e] show ?case by simp
qed

text \<open>A preorder on runs that the events of tools, the hooks around tools and the allowed tools respect; everything up to
  the results of a batch then respects it.\<close>

locale tool_effects =
  fixes cfg :: "'w loop_config" and rel :: "'w run \<Rightarrow> 'w run \<Rightarrow> bool" and allowed :: "'w agent_tool set"
  assumes refl_rel: "rel st st"
    and trans_rel: "rel st st' \<Longrightarrow> rel st' st'' \<Longrightarrow> rel st st''"
    and tool_event_rel: "tool_event e \<Longrightarrow> rel st (emit e st)"
    and before_rel: "cfg_beforeToolCall cfg am c args ctx w = (b, w') \<Longrightarrow> rel (w, es) (w', es)"
    and after_rel: "cfg_afterToolCall cfg am c args r err ctx w = (a, w') \<Longrightarrow> rel (w, es) (w', es)"
    and resolve_rel: "cfg_resolveToolAvailability cfg name ctx w = (x, w') \<Longrightarrow> rel (w, es) (w', es)"
    and execute_rel: "t \<in> allowed \<Longrightarrow> tool_execute t i args w = (outcome, updates, w') \<Longrightarrow> rel (w, es) (w', es)"
begin

lemma tool_events_rel: "list_all tool_event es \<Longrightarrow> rel st (emit_all es st)"
  by (rule emit_all_induct [OF _ refl_rel trans_rel tool_event_rel])

lemma world_rel: "with_world f st = (x, st') \<Longrightarrow> (\<And>w w' es. f w = (x, w') \<Longrightarrow> rel (w, es) (w', es)) \<Longrightarrow> rel st st'"
  by (cases st) (auto simp: with_world_def split: prod.splits)

lemma hook_rel:
  "with_world (cfg_beforeToolCall cfg am c args ctx) st = (b, st') \<Longrightarrow> rel st st'"
  "with_world (cfg_afterToolCall cfg am c args r err ctx) st = (a, st') \<Longrightarrow> rel st st'"
  "with_world (cfg_resolveToolAvailability cfg name ctx) st = (x, st') \<Longrightarrow> rel st st'"
  by (erule world_rel, erule before_rel after_rel resolve_rel)+

lemma prepare_rel: "prepareToolCall cfg ctx am c st = (p, st') \<Longrightarrow> rel st st'"
  by (auto simp: prepareToolCall_def resolveMissingToolResultText_def Let_def refl_rel
      dest!: hook_rel split: option.splits sum.splits prod.splits if_splits)

lemma execute_prepared_rel:
  assumes "t \<in> allowed" and "executePreparedToolCall t args c parent st = (r, e, st')"
  shows "rel st st'"
proof -
  obtain outcome updates w where x: "tool_execute t (call_id c) args (fst st) = (outcome, updates, w)" by (metis surj_pair)
  have "st' = emit_all (map (\<lambda>partial. ToolExecutionUpdate (call_id c) (call_name c) (call_arguments c) partial parent) updates) (w, snd st)"
    using assms(2) x by (auto simp: executePreparedToolCall_def Let_def split: sum.splits)
  moreover have "rel st (w, snd st)" using execute_rel [OF assms(1) x, of "snd st"] by simp
  ultimately show ?thesis by (simp add: trans_rel [OF _ tool_events_rel] list_all_iff)
qed

lemma finalize_rel: "finalizeExecutedToolCall cfg ctx am c args r e st = (f, st') \<Longrightarrow> rel st st'"
  by (auto simp: finalizeExecutedToolCall_def Let_def dest!: hook_rel split: prod.splits)

lemma run_prepared_rel:
  assumes "t \<in> allowed" and "run_prepared cfg ctx am c t args st = (f, st')"
  shows "rel st st'"
proof -
  obtain r e st1 where 1: "executePreparedToolCall t args c None st = (r, e, st1)" by (metis surj_pair)
  obtain f2 st2 where 2: "finalizeExecutedToolCall cfg ctx am c args r e st1 = (f2, st2)" by (metis surj_pair)
  from assms(2) 1 2 have "st' = emit (tool_execution_end f) st2" by (auto simp: run_prepared_def)
  with trans_rel [OF execute_prepared_rel [OF assms(1) 1] finalize_rel [OF 2]] show ?thesis
    by (metis tool_event_rel trans_rel tool_events(2))
qed

lemma prepare_allowed:
  "prepareToolCall cfg ctx am c st = (Prepared t args, st') \<Longrightarrow> set (ctx_tools ctx) \<subseteq> allowed \<Longrightarrow> t \<in> allowed"
  by (auto simp: prepareToolCall_def find_tool_def find_Some_iff Let_def dest!: nth_mem
      split: option.splits sum.splits prod.splits if_splits)

lemma run_call_rel:
  assumes "set (ctx_tools ctx) \<subseteq> allowed" and "run_call cfg ctx am c st = (f, st')"
  shows "rel st st'"
proof -
  obtain p st1 where p: "prepareToolCall cfg ctx am c (emit (tool_execution_start c) st) = (p, st1)" by (metis surj_pair)
  have "rel st st1" using trans_rel [OF _ prepare_rel [OF p]] tool_event_rel by simp
  moreover have "rel st1 st'"
    using assms p by (cases p) (auto simp: run_call_def tool_event_rel intro: run_prepared_rel [OF prepare_allowed])
  ultimately show ?thesis by (rule trans_rel)
qed

definition entry_allowed :: "'w batch_entry \<Rightarrow> bool" where
  "entry_allowed e = (case e of Settled _ \<Rightarrow> True | Waiting _ t _ \<Rightarrow> t \<in> allowed)"

lemma prepare_entry_rel:
  assumes "set (ctx_tools ctx) \<subseteq> allowed" and "prepare_entry cfg ctx am c st = (e, st')"
  shows "rel st st'" and "entry_allowed e"
proof -
  obtain p st1 where p: "prepareToolCall cfg ctx am c (emit (tool_execution_start c) st) = (p, st1)" by (metis surj_pair)
  have "rel st st1" using trans_rel [OF _ prepare_rel [OF p]] tool_event_rel by simp
  moreover have "rel st1 st'" using assms(2) p by (cases p) (auto simp: prepare_entry_def refl_rel tool_event_rel)
  ultimately show "rel st st'" by (rule trans_rel)
  show "entry_allowed e"
    using assms p by (cases p) (auto simp: prepare_entry_def entry_allowed_def intro: prepare_allowed)
qed

lemma parallel_prepare_rel:
  "set (ctx_tools ctx) \<subseteq> allowed \<Longrightarrow> parallel_prepare cfg ctx am cs st = (es, st') \<Longrightarrow> rel st st' \<and> list_all entry_allowed es"
proof (induction cs arbitrary: st es st')
  case (Cons c cs)
  obtain e st1 where e: "prepare_entry cfg ctx am c st = (e, st1)" by (rule prod.exhaust)
  obtain rest st2 where rest: "parallel_prepare cfg ctx am cs st1 = (rest, st2)" by (rule prod.exhaust)
  note first = prepare_entry_rel [OF Cons.prems(1) e]
  have "rel st1 st' \<and> list_all entry_allowed es"
    using Cons.prems e rest first(2) Cons.IH [OF _ rest] by (auto simp: refl_rel split: if_splits)
  with first(1) show ?case by (meson trans_rel)
qed (simp add: refl_rel)

lemma run_entry_rel:
  assumes "list_all entry_allowed (fst s)" and "i < length (fst s)"
  shows "rel (snd s) (snd (run_entry cfg ctx am s i))" and "list_all entry_allowed (fst (run_entry cfg ctx am s i))"
proof -
  have at: "entry_allowed (fst s ! i)" using assms by (simp add: list_all_length)
  then show "rel (snd s) (snd (run_entry cfg ctx am s i))"
    by (auto simp: run_entry_def entry_allowed_def refl_rel intro: run_prepared_rel split: batch_entry.splits prod.splits)
  show "list_all entry_allowed (fst (run_entry cfg ctx am s i))"
    using assms(1) by (auto simp: run_entry_def list_all_iff entry_allowed_def dest!: set_update_subset_insert [THEN subsetD]
        split: batch_entry.splits prod.splits)
qed

lemma run_entries_rel:
  "list_all entry_allowed (fst s) \<Longrightarrow> \<forall>i \<in> set order. i < length (fst s) \<Longrightarrow>
   rel (snd s) (snd (foldl (run_entry cfg ctx am) s order))"
proof (induction order arbitrary: s)
  case (Cons i order)
  note one = run_entry_rel [OF Cons.prems(1), of i ctx am]
  have "rel (snd (run_entry cfg ctx am s i)) (snd (foldl (run_entry cfg ctx am) (run_entry cfg ctx am s i) order))"
    using Cons.prems one(2) by (intro Cons.IH) (auto simp: run_entry_keeps)
  with trans_rel one(1) Cons.prems show ?case by auto
qed (simp add: refl_rel)

end

text \<open>The same with the events of messages.\<close>

locale effects = tool_effects +
  assumes emit_rel: "neutral e \<Longrightarrow> rel st (emit e st)"
begin

lemmas rel_rules = refl_rel emit_rel

lemma emit_all_rel: "list_all neutral es \<Longrightarrow> rel st (emit_all es st)"
  by (rule emit_all_induct [OF _ refl_rel trans_rel emit_rel])

lemma emit_result_rel: "emit_result cfg f st = (m, st') \<Longrightarrow> rel st st'"
  by (auto simp: emit_result_def Let_def emit_all_rel)

lemma sequential_rel: "set (ctx_tools ctx) \<subseteq> allowed \<Longrightarrow> sequential_loop cfg ctx am cs st = (fs, st') \<Longrightarrow> rel st st'"
proof (induction cs arbitrary: st fs st')
  case (Cons c cs)
  obtain f st1 where f: "run_call cfg ctx am c st = (f, st1)" by (rule prod.exhaust)
  obtain m st2 where m: "emit_result cfg f st1 = (m, st2)" by (rule prod.exhaust)
  obtain rest st3 where rest: "sequential_loop cfg ctx am cs st2 = (rest, st3)" by (rule prod.exhaust)
  have "rel st st2" using trans_rel [OF run_call_rel [OF Cons.prems(1) f] emit_result_rel [OF m]] .
  moreover have "rel st2 st'" using Cons.prems f m rest Cons.IH [OF _ rest] by (auto simp: refl_rel split: if_splits)
  ultimately show ?case by (rule trans_rel)
qed (simp add: refl_rel)

lemma emit_results_rel: "emit_results cfg fs st = (ms, st') \<Longrightarrow> rel st st'"
proof (induction fs arbitrary: st ms st')
  case (Cons f fs)
  obtain m st1 where m: "emit_result cfg f st = (m, st1)" by (rule prod.exhaust)
  obtain ms' st2 where rest: "emit_results cfg fs st1 = (ms', st2)" by (rule prod.exhaust)
  from Cons.prems m rest have "st' = st2" by simp
  with trans_rel [OF emit_result_rel [OF m] Cons.IH [OF rest]] show ?case by simp
qed (simp add: refl_rel)

lemma parallel_rel:
  assumes "set (ctx_tools ctx) \<subseteq> allowed" and "executeToolCallsParallel cfg ctx am cs st = (b, st')"
  shows "rel st st'"
proof -
  obtain es st1 where es: "parallel_prepare cfg ctx am cs st = (es, st1)" by (rule prod.exhaust)
  let ?order = "run_order (length es) (cfg_schedule cfg (length es) (fst st1))"
  obtain es' st2 where es': "foldl (run_entry cfg ctx am) (es, st1) ?order = (es', st2)" by (rule prod.exhaust)
  obtain ms st3 where ms: "emit_results cfg (settled_calls es') st2 = (ms, st3)" by (rule prod.exhaust)
  note prep = parallel_prepare_rel [OF assms(1) es]
  have "rel st1 st2" using run_entries_rel [of "(es, st1)" ?order ctx am] es' prep by (auto simp: run_order_all)
  then have "rel st st3" using prep emit_results_rel [OF ms] trans_rel by blast
  with assms(2) es es' ms show ?thesis by (auto simp: executeToolCallsParallel_def)
qed

lemma execute_calls_rel:
  assumes "set (ctx_tools ctx) \<subseteq> allowed" and "executeToolCalls cfg ctx am cs st = (b, st')"
  shows "rel st st'"
proof (cases "executeToolCalls cfg ctx am cs st = executeToolCallsParallel cfg ctx am cs st")
  case True
  with assms show ?thesis using parallel_rel by metis
next
  case False
  then have "snd (sequential_loop cfg ctx am cs st) = st'"
    using assms(2) by (auto simp: executeToolCalls_def executeToolCallsSequential_def Let_def split: if_splits prod.splits)
  with sequential_rel [OF assms(1)] show ?thesis by (metis prod.collapse)
qed

lemma fail_calls_rel: "fail_calls cfg text cs st = (ms, st') \<Longrightarrow> rel st st'"
proof (induction cs arbitrary: st ms st')
  case (Cons c cs)
  obtain m st1 where m: "emit_result cfg (immediate_call c (createErrorToolResult (text c)))
      (emit_all [tool_execution_start c, tool_execution_end (immediate_call c (createErrorToolResult (text c)))] st) = (m, st1)"
    by (rule prod.exhaust)
  obtain ms' st2 where rest: "fail_calls cfg text cs st1 = (ms', st2)" by (rule prod.exhaust)
  have "rel st st1" using trans_rel [OF emit_all_rel emit_result_rel [OF m]] by simp
  moreover have "st' = st2" using Cons.prems m rest by (simp add: Let_def)
  ultimately show ?case using trans_rel Cons.IH [OF rest] by metis
qed (simp add: refl_rel)

lemma pending_rel:
  assumes "set (ctx_tools ctx) \<subseteq> allowed" and "executePendingToolCalls cfg ctx am cs st = (b, st')"
  shows "rel st st'"
proof -
  obtain ms st1 where ms: "fail_calls cfg interrupted_text (filter (\<lambda>c. \<not> replayable ctx c) cs) st = (ms, st1)" by (rule prod.exhaust)
  obtain b2 st2 where b2: "executeToolCalls cfg ctx am (filter (replayable ctx) cs) st1 = (b2, st2)" by (rule prod.exhaust)
  show ?thesis
    using assms(2) ms b2 fail_calls_rel [OF ms] trans_rel [OF fail_calls_rel [OF ms] execute_calls_rel [OF assms(1) b2]]
    by (auto simp: executePendingToolCalls_def Let_def split: if_splits)
qed

lemma stream_loop_rel: "stream_loop suppress es p ms st = (p', ms', st') \<Longrightarrow> rel st st'"
proof (induction suppress es p ms st rule: stream_loop.induct)
  case (2 suppress q es partial messages st)
  from trans_rel [OF emit_rel "2.IH"] "2.prems" show ?case by simp
next
  case (3 suppress isToolCall q es partial messages st)
  have "rel st (if suppress \<and> \<not> isToolCall then st else emit (MessageUpdate (AssistantMessage q)) st)" by (simp add: rel_rules)
  from trans_rel [OF this] 3 show ?case by (simp split: if_split_asm)
qed (simp_all add: refl_rel)

end

text \<open>The same with the provider and the hooks of turns.\<close>

locale turn_effects = effects +
  assumes transform_rel: "cfg_transformContext cfg ms w = (x, w') \<Longrightarrow> rel (w, es) (w', es)"
    and stream_rel: "cfg_stream cfg model reasoning ctx w = (evs, m, w') \<Longrightarrow> rel (w, es) (w', es)"
    and steering_batch_rel: "cfg_onSteeringBatch cfg ms w = (y, w') \<Longrightarrow> rel (w, es) (w', es)"
    and batch_completed_rel: "rel (w, es) (cfg_onToolBatchCompleted cfg rs ctx w, es)"
begin

lemma response_rel:
  assumes "streamAssistantResponse cfg model reasoning ctx st = (m, ctx', st')"
  shows "rel st st'"
proof -
  obtain ms st1 where t: "with_world (cfg_transformContext cfg (ctx_messages ctx)) st = (ms, st1)" by (rule prod.exhaust)
  obtain evs result w where s: "cfg_stream cfg model reasoning (ctx\<lparr>ctx_messages := cfg_convertToLlm cfg ms\<rparr>) (fst st1) = (evs, result, w)"
    by (metis surj_pair)
  obtain p ms' st2 where l: "stream_loop (cfg_suppressAssistantText cfg) evs False (ctx_messages ctx) (w, snd st1) = (p, ms', st2)"
    by (metis surj_pair)
  have "rel st st1" using world_rel [OF t] transform_rel by metis
  moreover have "rel st1 (w, snd st1)" using stream_rel [OF s, of "snd st1"] by simp
  moreover have "rel (w, snd st1) st2" by (rule stream_loop_rel [OF l])
  ultimately have "rel st st2" using trans_rel by blast
  moreover have "rel st2 st'"
    using assms t s l
    by (auto simp: streamAssistantResponse_def Let_def emit_rel trans_rel [OF emit_rel emit_rel] split: if_splits)
  ultimately show ?thesis by (rule trans_rel)
qed

lemma inject_rel: "rel (lp_run s) (lp_run (inject_pending cfg s))"
proof (cases "lp_pendingMessages s = []")
  case False
  obtain extras st1 where e: "(if lp_pendingAreSteering s
      then (case with_world (cfg_onSteeringBatch cfg (lp_pendingMessages s)) (lp_run s) of
              (Inr ms, st1) \<Rightarrow> (ms, st1) | (Inl _, st1) \<Rightarrow> ([], st1))
      else ([], lp_run s)) = (extras, st1)" by (rule prod.exhaust)
  have "rel (lp_run s) st1"
    using e by (auto simp: refl_rel intro: world_rel steering_batch_rel split: if_splits prod.splits sum.splits)
  moreover have "lp_run (inject_pending cfg s) = emit_all (concat (map message_events (lp_pendingMessages s @ extras))) st1"
    using False e by (simp add: inject_pending_def Let_def)
  ultimately show ?thesis
    using trans_rel [OF _ emit_all_rel [OF neutral_messages_events]] by metis
qed (simp add: inject_pending_def refl_rel)

lemma run_tools_rel:
  assumes "set (ctx_tools (lp_context s)) \<subseteq> allowed" and "run_tools cfg resumed m s = (rs, s')"
  shows "rel (lp_run s) (lp_run s')"
proof (cases "message_tool_calls m = []")
  case True
  with assms(2) show ?thesis by (auto simp: run_tools_def refl_rel)
next
  case False
  obtain b st1 where b: "(case resumed of
      Some (am, calls) \<Rightarrow> executePendingToolCalls cfg (lp_context s) am calls (lp_run s)
    | None \<Rightarrow>
        if am_stopReason m = StopLength then failToolCallsFromTruncatedMessage cfg (message_tool_calls m) (lp_run s)
        else executeToolCalls cfg (lp_context s) m (message_tool_calls m) (lp_run s)) = (b, st1)" by (rule prod.exhaust)
  have "rel (lp_run s) st1"
    using b pending_rel [OF assms(1)] execute_calls_rel [OF assms(1)]
    by (auto simp: failToolCallsFromTruncatedMessage_def dest: fail_calls_rel split: option.splits if_splits prod.splits)
  moreover obtain w where "lp_run s' = (cfg_onToolBatchCompleted cfg (eb_messages b) w (fst st1), snd st1)"
    using assms(2) False b by (auto simp: run_tools_def add_messages_def Let_def)
  then have "rel st1 (lp_run s')" using batch_completed_rel [of "fst st1" "snd st1"] by simp
  ultimately show ?thesis by (rule trans_rel)
qed

end

section \<open>Which events the parts of a turn emit\<close>

definition quiet :: "'w run \<Rightarrow> 'w run \<Rightarrow> bool" where
  "quiet st st' = (\<exists>es. snd st' = snd st @ es \<and> list_all neutral es)"

interpretation quiet: turn_effects cfg quiet UNIV for cfg
proof
  show "quiet st st''" if "quiet st st'" "quiet st' st''" for st st' st'' :: "'w run"
    using that by (auto simp: quiet_def)
qed (simp_all add: quiet_def emit_def tool_event_neutral)

section \<open>One turn\<close>

fun plain_message :: "agent_message \<Rightarrow> bool" where
  "plain_message (AssistantMessage _) = False"
| "plain_message (ToolResultMessage _) = False"
| "plain_message _ = True"

text \<open>What the queues and the steering hook give are messages of a user or of the application.\<close>

definition plain_queues :: "'w loop_config \<Rightarrow> bool" where
  "plain_queues cfg =
     ((\<forall>w. list_all plain_message (fst (cfg_getSteeringMessages cfg w))) \<and>
      (\<forall>w. list_all plain_message (fst (cfg_getFollowUpMessages cfg w))) \<and>
      (\<forall>ms w extras w'. cfg_onSteeringBatch cfg ms w = (Inr extras, w') \<longrightarrow> list_all plain_message extras))"

lemma take_messages_events: "take_messages q cfg st = (ms, st') \<Longrightarrow> snd st' = snd st"
  by (auto simp: take_messages_def with_world_def split: if_splits prod.splits)

lemma take_messages_plain:
  "take_messages q cfg st = (ms, st') \<Longrightarrow> (\<And>w. list_all plain_message (fst (q w))) \<Longrightarrow> list_all plain_message ms"
  by (auto simp: take_messages_def with_world_def split: if_splits prod.splits) (metis fst_conv)

lemma takeSteering_plain:
  "plain_queues cfg \<Longrightarrow> takeSteering cfg st = (ms, st') \<Longrightarrow> list_all plain_message ms \<and> snd st' = snd st"
  unfolding takeSteering_def plain_queues_def by (metis take_messages_events take_messages_plain)

lemma takeFollowUps_plain:
  "plain_queues cfg \<Longrightarrow> takeFollowUps cfg st = (ms, st') \<Longrightarrow> list_all plain_message ms \<and> snd st' = snd st"
  unfolding takeFollowUps_def plain_queues_def by (metis take_messages_events take_messages_plain)

lemma with_world_events: "with_world f st = (x, st') \<Longrightarrow> snd st' = snd st"
  by (auto simp: with_world_def split: prod.splits)

lemma apply_update_simps [simp]:
  "lp_newMessages (apply_update u s) = lp_newMessages s" "lp_pendingMessages (apply_update u s) = lp_pendingMessages s"
  "lp_lastCompletedTurn (apply_update u s) = lp_lastCompletedTurn s" "lp_resume (apply_update u s) = lp_resume s"
  "lp_run (apply_update u s) = lp_run s" "lp_hasMoreToolCalls (apply_update u s) = lp_hasMoreToolCalls s"
  by (simp_all add: apply_update_def split: option.split)

definition turn_opening :: "'w loop_state \<Rightarrow> agent_event list" where
  "turn_opening s = (if lp_lastCompletedTurn s = None then [] else [TurnStart])"

lemma begin_turn_keeps:
  assumes "plain_queues cfg" and "list_all plain_message (lp_pendingMessages s)"
  shows "lp_newMessages (begin_turn cfg s) = lp_newMessages s" "lp_resume (begin_turn cfg s) = lp_resume s"
    "list_all plain_message (lp_pendingMessages (begin_turn cfg s))"
    "snd (lp_run (begin_turn cfg s)) = snd (lp_run s) @ turn_opening s"
proof -
  note steer = takeSteering_plain [OF assms(1)]
  show "lp_newMessages (begin_turn cfg s) = lp_newMessages s" "lp_resume (begin_turn cfg s) = lp_resume s"
    by (simp_all add: begin_turn_def Let_def split: option.split prod.split)
  show "list_all plain_message (lp_pendingMessages (begin_turn cfg s))"
    using assms(2) by (auto simp: begin_turn_def Let_def dest: steer split: option.split prod.split)
  show "snd (lp_run (begin_turn cfg s)) = snd (lp_run s) @ turn_opening s"
    by (auto simp: begin_turn_def Let_def turn_opening_def emit_def dest!: steer with_world_events split: option.split prod.split)
qed

lemma inject_pending_adds:
  assumes "plain_queues cfg" and "list_all plain_message (lp_pendingMessages s)"
  obtains ms where "list_all plain_message ms" and "lp_newMessages (inject_pending cfg s) = lp_newMessages s @ ms"
    and "quiet (lp_run s) (lp_run (inject_pending cfg s))" and "lp_resume (inject_pending cfg s) = lp_resume s"
    and "ctx_messages (lp_context (inject_pending cfg s)) = ctx_messages (lp_context s) @ ms"
proof (cases "lp_pendingMessages s = []")
  case True
  then show thesis using that [of "[]"] by (simp add: inject_pending_def quiet.refl_rel)
next
  case False
  obtain extras st1 where e: "(if lp_pendingAreSteering s
      then (case with_world (cfg_onSteeringBatch cfg (lp_pendingMessages s)) (lp_run s) of
              (Inr ms, st1) \<Rightarrow> (ms, st1) | (Inl _, st1) \<Rightarrow> ([], st1))
      else ([], lp_run s)) = (extras, st1)" by (rule prod.exhaust)
  then have "list_all plain_message extras"
    using assms(1) unfolding plain_queues_def
    by (auto simp: with_world_def split: if_splits prod.splits sum.splits, blast)
  moreover have "inject_pending cfg s = (add_messages (lp_pendingMessages s @ extras) s)
      \<lparr>lp_run := emit_all (concat (map message_events (lp_pendingMessages s @ extras))) st1,
       lp_pendingMessages := [], lp_pendingAreSteering := True\<rparr>"
    using False e by (simp add: inject_pending_def Let_def)
  ultimately show thesis
    using that [of "lp_pendingMessages s @ extras"] assms(2) quiet.inject_rel [of s cfg]
    by (simp add: add_messages_def del: map_append concat_append)
qed

lemma run_tools_results:
  assumes "run_tools cfg None m s = (rs, s')"
  shows "lp_newMessages s' = lp_newMessages s @ map ToolResultMessage rs"
    and "answers (never_aborts cfg) (map tr_toolCallId rs) (map call_id (message_tool_calls m))"
    and "quiet (lp_run s) (lp_run s')" and "lp_resume s' = lp_resume s"
    and "ctx_messages (lp_context s') = ctx_messages (lp_context s) @ map ToolResultMessage rs"
proof -
  have "lp_newMessages s' = lp_newMessages s @ map ToolResultMessage rs \<and>
    answers (never_aborts cfg) (map tr_toolCallId rs) (map call_id (message_tool_calls m)) \<and> lp_resume s' = lp_resume s \<and>
    ctx_messages (lp_context s') = ctx_messages (lp_context s) @ map ToolResultMessage rs"
  proof (cases "message_tool_calls m = []")
    case True
    with assms show ?thesis by (auto simp: run_tools_def)
  next
    case False
    obtain b st1 where b: "(if am_stopReason m = StopLength
        then failToolCallsFromTruncatedMessage cfg (message_tool_calls m) (lp_run s)
        else executeToolCalls cfg (lp_context s) m (message_tool_calls m) (lp_run s)) = (b, st1)" by (rule prod.exhaust)
    have rs: "rs = eb_messages b" and s': "lp_newMessages s' = lp_newMessages s @ map ToolResultMessage rs"
        "lp_resume s' = lp_resume s"
        "ctx_messages (lp_context s') = ctx_messages (lp_context s) @ map ToolResultMessage rs"
      using assms False b by (auto simp: run_tools_def add_messages_def Let_def)
    have "answers (never_aborts cfg) (map tr_toolCallId (eb_messages b)) (map call_id (message_tool_calls m))"
    proof (cases "am_stopReason m = StopLength")
      case True
      obtain ms st2 where f: "fail_calls cfg truncated_text (message_tool_calls m) (lp_run s) = (ms, st2)" by (rule prod.exhaust)
      with b True have "eb_messages b = ms" "st1 = st2" by (auto simp: failToolCallsFromTruncatedMessage_def)
      with fail_calls_ids [OF f] show ?thesis by (simp add: answers_all)
    next
      case False
      with b have "executeToolCalls cfg (lp_context s) m (message_tool_calls m) (lp_run s) = (b, st1)" by simp
      with execute_calls show ?thesis by metis
    qed
    with rs s' show ?thesis by simp
  qed
  then show "lp_newMessages s' = lp_newMessages s @ map ToolResultMessage rs"
    "answers (never_aborts cfg) (map tr_toolCallId rs) (map call_id (message_tool_calls m))"
    "lp_resume s' = lp_resume s"
    "ctx_messages (lp_context s') = ctx_messages (lp_context s) @ map ToolResultMessage rs" by simp_all
  show "quiet (lp_run s) (lp_run s')" by (rule quiet.run_tools_rel [OF _ assms]) simp
qed

lemma finish_turn_keeps:
  assumes "finish_turn cfg m rs s = (ended, s')"
  shows "lp_newMessages s' = lp_newMessages s" "lp_resume s' = lp_resume s" "lp_context s' = lp_context s"
    "lp_hasMoreToolCalls s' = lp_hasMoreToolCalls s" "ended \<Longrightarrow> lp_pendingMessages s' = lp_pendingMessages s"
    "\<not> ended \<Longrightarrow> lp_lastCompletedTurn s' \<noteq> None"
    "snd (lp_run s') = snd (lp_run s) @ TurnEnd m rs # (if ended then [AgentEnd (lp_newMessages s)] else [])"
proof -
  define turn where "turn = \<lparr>ct_message = m, ct_toolResults = rs, ct_context = lp_context s, ct_newMessages = lp_newMessages s\<rparr>"
  obtain stop st1 where stop: "with_world (cfg_shouldStopAfterTurn cfg turn) (emit (TurnEnd m rs) (lp_run s)) = (stop, st1)"
    by (rule prod.exhaust)
  obtain ms st2 where ms: "takeSteering cfg st1 = (ms, st2)" by (rule prod.exhaust)
  have events: "snd st1 = snd (lp_run s) @ [TurnEnd m rs]" "snd st2 = snd st1"
    using with_world_events [OF stop] take_messages_events [OF ms [unfolded takeSteering_def]] by (simp_all add: emit_def)
  have "(ended, s') = (if stop then (True, end_run (s\<lparr>lp_lastCompletedTurn := Some turn, lp_run := st1\<rparr>))
      else (False, s\<lparr>lp_lastCompletedTurn := Some turn, lp_run := st1, lp_pendingMessages := ms, lp_run := st2\<rparr>))"
    using assms stop ms by (auto simp: finish_turn_def turn_def [symmetric] Let_def split: if_splits)
  with events show "lp_newMessages s' = lp_newMessages s" "lp_resume s' = lp_resume s" "lp_context s' = lp_context s"
    "lp_hasMoreToolCalls s' = lp_hasMoreToolCalls s" "ended \<Longrightarrow> lp_pendingMessages s' = lp_pendingMessages s"
    "\<not> ended \<Longrightarrow> lp_lastCompletedTurn s' \<noteq> None"
    "snd (lp_run s') = snd (lp_run s) @ TurnEnd m rs # (if ended then [AgentEnd (lp_newMessages s)] else [])"
    by (auto simp: end_run_def emit_def split: if_splits)
qed

lemma finish_turn_plain:
  assumes "plain_queues cfg" and "finish_turn cfg m rs s = (False, s')"
  shows "list_all plain_message (lp_pendingMessages s')"
  using assms(2) takeSteering_plain [OF assms(1)] by (auto simp: finish_turn_def Let_def split: if_splits prod.splits)

text \<open>A turn of a run that resumes nothing.\<close>

lemma run_turn_shape:
  assumes "plain_queues cfg" and "list_all plain_message (lp_pendingMessages s)" and "lp_resume s = None"
    and "run_turn cfg s = (ended, s')"
  obtains ms m rs es1 es2 where "list_all plain_message ms"
    and "lp_newMessages s' = lp_newMessages s @ ms @ AssistantMessage m # map ToolResultMessage rs"
    and "list_all neutral es1" and "list_all neutral es2"
    and "snd (lp_run s') = snd (lp_run s) @ turn_opening s @ es1 @ TurnEnd m rs # es2 @
      (if ended then [AgentEnd (lp_newMessages s')] else [])"
    and "if am_stopReason m = StopError \<or> am_stopReason m = StopAborted then ended \<and> rs = []
      else answers (never_aborts cfg) (map tr_toolCallId rs) (map call_id (message_tool_calls m))"
    and "\<not> ended \<Longrightarrow> list_all plain_message (lp_pendingMessages s') \<and> lp_resume s' = None \<and> lp_lastCompletedTurn s' \<noteq> None"
proof -
  note bt = begin_turn_keeps [OF assms(1,2)]
  from inject_pending_adds [OF assms(1) bt(3)] obtain ms where ms: "list_all plain_message ms"
    "lp_newMessages (inject_pending cfg (begin_turn cfg s)) = lp_newMessages s @ ms"
    "quiet (lp_run (begin_turn cfg s)) (lp_run (inject_pending cfg (begin_turn cfg s)))"
    "lp_resume (inject_pending cfg (begin_turn cfg s)) = None" using bt(1,2) assms(3) by metis
  define s1 where "s1 = inject_pending cfg (begin_turn cfg s)"
  obtain m ctx st where m: "streamAssistantResponse cfg (lp_model s1) (lp_reasoning s1) (lp_context s1) (lp_run s1) = (m, ctx, st)"
    by (metis surj_pair)
  define s2 where "s2 = s1\<lparr>lp_context := ctx, lp_run := st, lp_newMessages := lp_newMessages s1 @ [AssistantMessage m]\<rparr>"
  have m2: "turn_response cfg s1 = (m, s2)" using m ms(4) by (simp add: turn_response_def s2_def s1_def)
  have "quiet (lp_run (begin_turn cfg s)) st" using quiet.trans_rel ms(3) quiet.response_rel [OF m] unfolding s1_def by metis
  then obtain es1 where es1: "list_all neutral es1" "snd st = snd (lp_run s) @ turn_opening s @ es1"
    using bt(4) by (auto simp: quiet_def)
  show thesis
  proof (cases "am_stopReason m = StopError \<or> am_stopReason m = StopAborted")
    case True
    then have "run_turn cfg s = (True, end_run (s2\<lparr>lp_run := emit (TurnEnd m []) (lp_run s2)\<rparr>))"
      using m2 by (simp add: run_turn_def s1_def [symmetric])
    with assms(4) True show thesis
      using that [of ms m "[]" es1 "[]"] ms es1 by (auto simp: end_run_def emit_def s2_def s1_def)
  next
    case False
    obtain rs s3 where rs: "run_tools cfg None m s2 = (rs, s3)" by (rule prod.exhaust)
    note tools = run_tools_results [OF rs]
    obtain es2 where es2: "list_all neutral es2" "snd (lp_run s3) = snd st @ es2"
      using tools(3) by (auto simp: quiet_def s2_def)
    have turn: "finish_turn cfg m rs s3 = (ended, s')"
      using assms(4) m2 False rs ms(4) by (auto simp: run_turn_def s1_def [symmetric])
    note fin = finish_turn_keeps [OF turn]
    have new: "lp_newMessages s3 = lp_newMessages s @ ms @ AssistantMessage m # map ToolResultMessage rs"
      and "lp_resume s3 = None"
      using tools(1,4) ms(2,4) by (simp_all add: s2_def s1_def)
    with False show thesis
      using that [of ms m rs "es1 @ es2" "[]"] ms(1) es1 es2 fin turn finish_turn_plain [OF assms(1)] tools(2)
      by (auto split: if_splits)
  qed
qed

section \<open>Whole runs\<close>

text \<open>A transcript: messages of users, and turns of an assistant message with the results of its calls, in their order;
  all of them when \<open>whole\<close>, otherwise the first ones.\<close>

inductive transcript :: "bool \<Rightarrow> agent_message list \<Rightarrow> bool" for whole where
  transcript_nil: "transcript whole []"
| transcript_plain: "transcript whole ms \<Longrightarrow> plain_message m \<Longrightarrow> transcript whole (ms @ [m])"
| transcript_turn: "transcript whole ms \<Longrightarrow> am_stopReason a \<noteq> StopError \<Longrightarrow> am_stopReason a \<noteq> StopAborted \<Longrightarrow>
    answers whole (map tr_toolCallId rs) (map call_id (message_tool_calls a)) \<Longrightarrow>
    transcript whole (ms @ AssistantMessage a # map ToolResultMessage rs)"

definition ended_transcript :: "bool \<Rightarrow> agent_message list \<Rightarrow> bool" where
  "ended_transcript whole ms =
     (transcript whole ms \<or>
      (\<exists>ms' a. transcript whole ms' \<and> ms = ms' @ [AssistantMessage a] \<and> am_stopReason a \<in> {StopError, StopAborted}))"

lemma transcript_plains: "transcript whole ms \<Longrightarrow> list_all plain_message ns \<Longrightarrow> transcript whole (ms @ ns)"
proof (induction ns rule: rev_induct)
  case (snoc n ns)
  then show ?case using transcript_plain [of whole "ms @ ns" n] by simp
qed simp

text \<open>Whether a turn is open after a list of events; \<open>None\<close> when turns nest, end without a start, or the run ends
  within one.\<close>

fun turn_step :: "bool option \<Rightarrow> agent_event \<Rightarrow> bool option" where
  "turn_step None e = None"
| "turn_step (Some b) TurnStart = (if b then None else Some True)"
| "turn_step (Some b) (TurnEnd _ _) = (if b then Some False else None)"
| "turn_step (Some b) (AgentEnd _) = (if b then None else Some False)"
| "turn_step (Some b) e = Some b"

definition turn_state :: "agent_event list \<Rightarrow> bool option" where
  "turn_state es = foldl turn_step (Some False) es"

lemma turn_state_append: "turn_state (es @ fs) = foldl turn_step (turn_state es) fs"
  by (simp add: turn_state_def)

lemma neutral_turns: "list_all neutral es \<Longrightarrow> foldl turn_step b es = b"
proof (induction es arbitrary: b)
  case (Cons e es)
  then show ?case by (cases b; cases e) auto
qed simp

definition is_agent_end :: "agent_event \<Rightarrow> bool" where
  "is_agent_end e = (case e of AgentEnd _ \<Rightarrow> True | _ \<Rightarrow> False)"

lemma neutral_no_end: "list_all neutral es \<Longrightarrow> \<not> list_ex is_agent_end es"
proof (induction es)
  case (Cons e es)
  then show ?case by (cases e) (auto simp: is_agent_end_def)
qed simp

text \<open>The rule for the loop: what holds before every turn and gives the result where the loop ends.\<close>

lemma run_loop_rule:
  assumes "run_loop cfg s = Some r" and "inva s"
    and "\<And>s s'. inva s \<Longrightarrow> run_turn cfg s = (False, s') \<Longrightarrow> inva s'"
    and "\<And>s s'. inva s \<Longrightarrow> run_turn cfg s = (True, s') \<Longrightarrow> post s'"
    and "\<And>s ms st. inva s \<Longrightarrow> takeFollowUps cfg (lp_run s) = (ms, st) \<Longrightarrow> ms \<noteq> [] \<Longrightarrow>
      \<not> (lp_hasMoreToolCalls s \<or> lp_pendingMessages s \<noteq> []) \<Longrightarrow>
      inva (s\<lparr>lp_pendingMessages := ms, lp_pendingAreSteering := False, lp_hasMoreToolCalls := True, lp_run := st\<rparr>)"
    and "\<And>s st. inva s \<Longrightarrow> takeFollowUps cfg (lp_run s) = ([], st) \<Longrightarrow>
      \<not> (lp_hasMoreToolCalls s \<or> lp_pendingMessages s \<noteq> []) \<Longrightarrow> post (end_run (s\<lparr>lp_run := st\<rparr>))"
  shows "post r"
proof -
  have "c = cfg \<longrightarrow> inva s \<longrightarrow> post r" if "run_loop c s = Some r" for c s r
  proof (rule run_loop.raw_induct [of "\<lambda>c s r. c = cfg \<longrightarrow> inva s \<longrightarrow> post r", OF _ that], intro impI)
    fix loop c s r
    assume IH: "\<And>c s r. loop c s = Some r \<Longrightarrow> c = cfg \<longrightarrow> inva s \<longrightarrow> post r"
      and c: "c = cfg" and inv: "inva s"
      and eq: "(if lp_hasMoreToolCalls s \<or> lp_pendingMessages s \<noteq> []
        then (case run_turn c s of (ended, s') \<Rightarrow> if ended then Some s' else loop c s')
        else (case takeFollowUps c (lp_run s) of
                (ms, st) \<Rightarrow>
                  if ms \<noteq> []
                  then loop c (s\<lparr>lp_pendingMessages := ms, lp_pendingAreSteering := False,
                               lp_hasMoreToolCalls := True, lp_run := st\<rparr>)
                  else Some (end_run (s\<lparr>lp_run := st\<rparr>)))) = Some r"
    obtain ended s' where turn: "run_turn cfg s = (ended, s')" by (rule prod.exhaust)
    obtain ms st where follow: "takeFollowUps cfg (lp_run s) = (ms, st)" by (rule prod.exhaust)
    show "post r"
    proof (cases "lp_hasMoreToolCalls s \<or> lp_pendingMessages s \<noteq> []")
      case True
      with IH eq c turn inv assms(3,4) show ?thesis by (cases ended) auto
    next
      case False
      note step = assms(5) [OF inv follow _ False] assms(6) [OF inv _ False]
      from False IH eq c follow step show ?thesis by (cases "ms = []") auto
    qed
  qed
  with assms(1,2) show ?thesis by blast
qed

definition run_inv :: "'w loop_config \<Rightarrow> 'w loop_state \<Rightarrow> bool" where
  "run_inv cfg s =
     (lp_resume s = None \<and> list_all plain_message (lp_pendingMessages s) \<and>
      transcript (never_aborts cfg) (lp_newMessages s) \<and>
      turn_state (snd (lp_run s)) = Some (lp_lastCompletedTurn s = None) \<and> \<not> list_ex is_agent_end (snd (lp_run s)) \<and>
      (lp_hasMoreToolCalls s \<or> lp_lastCompletedTurn s \<noteq> None))"

definition run_post :: "'w loop_config \<Rightarrow> 'w loop_state \<Rightarrow> bool" where
  "run_post cfg s =
     (ended_transcript (never_aborts cfg) (lp_newMessages s) \<and>
      (\<exists>es. snd (lp_run s) = es @ [AgentEnd (lp_newMessages s)] \<and> turn_state es = Some False \<and> \<not> list_ex is_agent_end es))"

lemma run_turn_inv:
  assumes "plain_queues cfg" and "run_inv cfg s" and "run_turn cfg s = (ended, s')"
  shows "if ended then run_post cfg s' else run_inv cfg s'"
proof -
  have inv: "list_all plain_message (lp_pendingMessages s)" "lp_resume s = None" "transcript (never_aborts cfg) (lp_newMessages s)"
    "turn_state (snd (lp_run s)) = Some (lp_lastCompletedTurn s = None)" "\<not> list_ex is_agent_end (snd (lp_run s))"
    using assms(2) by (auto simp: run_inv_def)
  from run_turn_shape [OF assms(1) inv(1,2) assms(3)] obtain ms m rs es1 es2 where t:
    "list_all plain_message ms" "lp_newMessages s' = lp_newMessages s @ ms @ AssistantMessage m # map ToolResultMessage rs"
    "list_all neutral es1" "list_all neutral es2"
    "snd (lp_run s') = snd (lp_run s) @ turn_opening s @ es1 @ TurnEnd m rs # es2 @
      (if ended then [AgentEnd (lp_newMessages s')] else [])"
    "if am_stopReason m = StopError \<or> am_stopReason m = StopAborted then ended \<and> rs = []
      else answers (never_aborts cfg) (map tr_toolCallId rs) (map call_id (message_tool_calls m))"
    "\<not> ended \<Longrightarrow> list_all plain_message (lp_pendingMessages s') \<and> lp_resume s' = None \<and> lp_lastCompletedTurn s' \<noteq> None"
    by metis
  define es where "es = snd (lp_run s) @ turn_opening s @ es1 @ TurnEnd m rs # es2"
  have ok: "turn_state es = Some False" "\<not> list_ex is_agent_end es"
    using inv(4,5) t(3,4) neutral_no_end
    by (auto simp: es_def turn_state_append turn_opening_def neutral_turns is_agent_end_def)
  have before: "transcript (never_aborts cfg) (lp_newMessages s @ ms)" by (rule transcript_plains [OF inv(3) t(1)])
  have "ended_transcript (never_aborts cfg) (lp_newMessages s')" "\<not> ended \<Longrightarrow> transcript (never_aborts cfg) (lp_newMessages s')"
    using before t(2,6) transcript_turn [OF before, of m rs] by (auto simp: ended_transcript_def split: if_splits)
  with ok t(5,7) show ?thesis by (auto simp: run_post_def run_inv_def es_def)
qed

lemma run_loop_post:
  assumes "plain_queues cfg" and "run_inv cfg s" and "run_loop cfg s = Some r"
  shows "run_post cfg r"
  using assms(3,2)
proof (rule run_loop_rule)
  show "run_inv cfg s'" if "run_inv cfg s" "run_turn cfg s = (False, s')" for s s'
    using run_turn_inv [OF assms(1) that] by simp
  show "run_post cfg s'" if "run_inv cfg s" "run_turn cfg s = (True, s')" for s s'
    using run_turn_inv [OF assms(1) that] by simp
  show "run_inv cfg (s\<lparr>lp_pendingMessages := ms, lp_pendingAreSteering := False, lp_hasMoreToolCalls := True, lp_run := st\<rparr>)"
    if "run_inv cfg s" "takeFollowUps cfg (lp_run s) = (ms, st)" for s ms st
    using that(1) takeFollowUps_plain [OF assms(1) that(2)] by (simp add: run_inv_def)
  show "run_post cfg (end_run (s\<lparr>lp_run := st\<rparr>))"
    if "run_inv cfg s" "takeFollowUps cfg (lp_run s) = ([], st)" "\<not> (lp_hasMoreToolCalls s \<or> lp_pendingMessages s \<noteq> [])" for s st
    using that(1,3) takeFollowUps_plain [OF assms(1) that(2)]
    by (auto simp: run_inv_def run_post_def end_run_def emit_def ended_transcript_def)
qed

lemma runLoop_post:
  assumes "plain_queues cfg" and "transcript (never_aborts cfg) newMessages" and "turn_state (snd st) = Some True"
    and "\<not> list_ex is_agent_end (snd st)" and "runLoop cfg ctx newMessages model reasoning None st = Some s"
  shows "run_post cfg s"
proof -
  obtain u st1 where u: "with_world (cfg_prepareInitialTurn cfg ctx) st = (u, st1)" by (rule prod.exhaust)
  obtain ms st2 where ms: "takeSteering cfg st1 = (ms, st2)" by (rule prod.exhaust)
  have "snd st2 = snd st" "list_all plain_message ms"
    using with_world_events [OF u] takeSteering_plain [OF assms(1) ms] by simp_all
  then show ?thesis
    using assms(2-5) u ms by (auto simp: runLoop_def Let_def run_inv_def intro!: run_loop_post [OF assms(1)])
qed

lemma runAgentLoop_post:
  assumes "plain_queues cfg" and "list_all plain_message prompts"
    and "runAgentLoop cfg prompts ctx model reasoning (w, []) = Some (newMessages, st)"
  obtains s where "run_post cfg s" and "newMessages = lp_newMessages s" and "st = lp_run s"
proof -
  let ?events = "start_events @ concat (map message_events prompts)"
  have "turn_state ?events = Some True"
    using neutral_turns [OF neutral_messages_events] by (simp add: turn_state_def start_events_def)
  moreover have "\<not> list_ex is_agent_end ?events"
    using neutral_no_end [OF neutral_messages_events] by (simp add: start_events_def is_agent_end_def)
  moreover have "transcript (never_aborts cfg) prompts"
    using transcript_plains [OF transcript_nil assms(2)] by simp
  ultimately show thesis
    using assms(3) runLoop_post [OF assms(1)] that by (fastforce simp: runAgentLoop_def emit_all_def)
qed


text \<open>The events of a run.  The trace of a run that returns ends with one \<^verbatim>\<open>agent_end\<close>, carrying the messages the
  run returns, and before it every turn that starts ends before the next one starts; no turn is open at the end.\<close>

theorem run_events_bracketed:
  assumes "plain_queues cfg" and "list_all plain_message prompts"
    and "runAgentLoop cfg prompts ctx model reasoning (w, []) = Some (newMessages, (w', events))"
  shows "\<exists>es. events = es @ [AgentEnd newMessages] \<and> turn_state es = Some False \<and> \<not> list_ex is_agent_end es"
  by (rule runAgentLoop_post [OF assms]) (auto simp: run_post_def dest: sym)

section \<open>Runs that end\<close>

definition update_tools :: "'w turn_update option \<Rightarrow> 'w agent_tool set" where
  "update_tools u =
     (case u of None \<Rightarrow> {} | Some t \<Rightarrow> (case tu_context t of None \<Rightarrow> {} | Some c \<Rightarrow> set (ctx_tools c)))"

text \<open>A relation on worlds that provider, hooks and the given tools respect; the tools are those the run may come to know.\<close>

definition hooks_respect :: "'w loop_config \<Rightarrow> ('w \<Rightarrow> 'w \<Rightarrow> bool) \<Rightarrow> 'w agent_tool set \<Rightarrow> bool" where
  "hooks_respect cfg r tools =
     ((\<forall>am c args ctx w. r w (snd (cfg_beforeToolCall cfg am c args ctx w))) \<and>
      (\<forall>am c args res e ctx w. r w (snd (cfg_afterToolCall cfg am c args res e ctx w))) \<and>
      (\<forall>name ctx w. r w (snd (cfg_resolveToolAvailability cfg name ctx w))) \<and>
      (\<forall>ms w. r w (snd (cfg_transformContext cfg ms w))) \<and>
      (\<forall>ms w. r w (snd (cfg_onSteeringBatch cfg ms w))) \<and>
      (\<forall>rs ctx w. r w (cfg_onToolBatchCompleted cfg rs ctx w)) \<and>
      (\<forall>turn w. r w (snd (cfg_shouldStopAfterTurn cfg turn w))) \<and>
      (\<forall>model reasoning ctx w. r w (snd (snd (cfg_stream cfg model reasoning ctx w)))) \<and>
      (\<forall>ctx w u w'. cfg_prepareInitialTurn cfg ctx w = (u, w') \<longrightarrow> r w w' \<and> update_tools u \<subseteq> tools) \<and>
      (\<forall>turn w u w'. cfg_prepareNextTurn cfg turn w = (u, w') \<longrightarrow> r w w' \<and> update_tools u \<subseteq> tools) \<and>
      (\<forall>t \<in> tools. \<forall>i args w. r w (snd (snd (tool_execute t i args w)))))"

definition on_worlds :: "('w \<Rightarrow> 'w \<Rightarrow> bool) \<Rightarrow> 'w run \<Rightarrow> 'w run \<Rightarrow> bool" where
  "on_worlds r st st' = r (fst st) (fst st')"

lemma hooks_effects:
  assumes "hooks_respect cfg r tools" and "\<And>w. r w w" and "\<And>w w' w''. r w w' \<Longrightarrow> r w' w'' \<Longrightarrow> r w w''"
  shows "turn_effects cfg (on_worlds r) tools"
proof
  note hook = assms(1) [unfolded hooks_respect_def]
  show "on_worlds r (w, es) (w', es)" if "cfg_beforeToolCall cfg am c args ctx w = (b, w')" for am c args ctx w b w' es
    using hook that by (metis fst_conv snd_conv on_worlds_def)
  show "on_worlds r (w, es) (w', es)" if "cfg_afterToolCall cfg am c args res err ctx w = (a, w')" for am c args res err ctx w a w' es
    using hook that by (metis fst_conv snd_conv on_worlds_def)
  show "on_worlds r (w, es) (w', es)" if "cfg_resolveToolAvailability cfg name ctx w = (x, w')" for name ctx w x w' es
    using hook that by (metis fst_conv snd_conv on_worlds_def)
  show "on_worlds r (w, es) (w', es)" if "t \<in> tools" "tool_execute t i args w = (outcome, updates, w')"
    for t i args w outcome updates w' es
    using hook that by (metis fst_conv snd_conv on_worlds_def)
  show "on_worlds r (w, es) (w', es)" if "cfg_transformContext cfg ms w = (x, w')" for ms w x w' es
    using hook that by (metis fst_conv snd_conv on_worlds_def)
  show "on_worlds r (w, es) (w', es)" if "cfg_stream cfg model reasoning ctx w = (evs, m, w')" for model reasoning ctx w evs m w' es
    using hook that by (metis fst_conv snd_conv on_worlds_def)
  show "on_worlds r (w, es) (w', es)" if "cfg_onSteeringBatch cfg ms w = (y, w')" for ms w y w' es
    using hook that by (metis fst_conv snd_conv on_worlds_def)
  show "on_worlds r (w, es) (cfg_onToolBatchCompleted cfg rs ctx w, es)" for w es rs ctx
    using hook by (simp add: on_worlds_def)
  show "on_worlds r st st''" if "on_worlds r st st'" "on_worlds r st' st''" for st st' st''
    using that assms(3) by (auto simp: on_worlds_def)
qed (auto simp: on_worlds_def emit_def assms(2))

text \<open>What the configuration uses up: a budget of the world that nothing raises, and that a response with tool calls and
  a message taken from a queue lower.\<close>

definition winds_down :: "'w loop_config \<Rightarrow> ('w \<Rightarrow> nat) \<Rightarrow> 'w agent_tool set \<Rightarrow> bool" where
  "winds_down cfg budget tools =
     (hooks_respect cfg (\<lambda>w w'. budget w' \<le> budget w) tools \<and>
      (\<forall>model reasoning ctx w es m w'. cfg_stream cfg model reasoning ctx w = (es, m, w') \<longrightarrow>
         message_tool_calls m \<noteq> [] \<longrightarrow> budget w' < budget w) \<and>
      (\<forall>w ms w'. cfg_getSteeringMessages cfg w = (ms, w') \<longrightarrow> budget w' \<le> budget w \<and> (ms \<noteq> [] \<longrightarrow> budget w' < budget w)) \<and>
      (\<forall>w ms w'. cfg_getFollowUpMessages cfg w = (ms, w') \<longrightarrow> budget w' \<le> budget w \<and> (ms \<noteq> [] \<longrightarrow> budget w' < budget w)))"

abbreviation spares :: "('w \<Rightarrow> nat) \<Rightarrow> 'w run \<Rightarrow> 'w run \<Rightarrow> bool" where
  "spares budget \<equiv> on_worlds (\<lambda>w w'. budget w' \<le> budget w)"

lemma winds_down_effects: "winds_down cfg budget tools \<Longrightarrow> turn_effects cfg (spares budget) tools"
  by (rule hooks_effects) (auto simp: winds_down_def)

lemma takeSteering_budget:
  assumes "winds_down cfg budget tools" and "takeSteering cfg st = (ms, st')"
  shows "budget (fst st') \<le> budget (fst st)" and "ms \<noteq> [] \<Longrightarrow> budget (fst st') < budget (fst st)"
  using assms(2) assms(1) [unfolded winds_down_def]
  by (auto simp: takeSteering_def take_messages_def with_world_def split: if_splits prod.splits)

lemma takeFollowUps_budget:
  assumes "winds_down cfg budget tools" and "takeFollowUps cfg st = (ms, st')"
  shows "ms \<noteq> [] \<Longrightarrow> budget (fst st') < budget (fst st)"
  using assms(2) assms(1) [unfolded winds_down_def]
  by (auto simp: takeFollowUps_def take_messages_def with_world_def split: if_splits prod.splits)

abbreviation known :: "'w agent_tool set \<Rightarrow> 'w loop_state \<Rightarrow> bool" where
  "known tools s \<equiv> set (ctx_tools (lp_context s)) \<subseteq> tools"

lemma apply_update_known: "known tools s \<Longrightarrow> update_tools u \<subseteq> tools \<Longrightarrow> known tools (apply_update u s)"
  by (auto simp: apply_update_def update_tools_def split: option.splits)

lemma begin_turn_budget:
  assumes "winds_down cfg budget tools" and "known tools s"
  shows "budget (fst (lp_run (begin_turn cfg s))) \<le> budget (fst (lp_run s)) \<and> known tools (begin_turn cfg s) \<and>
    lp_resume (begin_turn cfg s) = lp_resume s"
proof (cases "lp_lastCompletedTurn s")
  case (Some turn)
  obtain u w where u: "cfg_prepareNextTurn cfg turn (fst (lp_run s)) = (u, w)" by (rule prod.exhaust)
  define s1 where "s1 = apply_update u (s\<lparr>lp_run := (w, snd (lp_run s))\<rparr>)"
  have b: "budget w \<le> budget (fst (lp_run s))" and s1: "known tools s1" "lp_resume s1 = lp_resume s"
      "lp_run s1 = (w, snd (lp_run s))" "lp_pendingMessages s1 = lp_pendingMessages s"
    using assms(1) [unfolded winds_down_def hooks_respect_def] u apply_update_known [of "s\<lparr>lp_run := (w, snd (lp_run s))\<rparr>" tools u] assms(2)
    unfolding s1_def by auto
  obtain ms st2 where ms: "takeSteering cfg (lp_run s1) = (ms, st2)" by (rule prod.exhaust)
  have "begin_turn cfg s = (let s2 = (if lp_pendingMessages s1 = [] then s1\<lparr>lp_pendingMessages := ms, lp_run := st2\<rparr> else s1)
      in s2\<lparr>lp_run := emit TurnStart (lp_run s2)\<rparr>)"
    using Some u ms s1(4) by (simp add: begin_turn_def with_world_def s1_def [symmetric])
  with takeSteering_budget(1) [OF assms(1) ms] b s1 show ?thesis by (auto simp: Let_def emit_def)
qed (simp add: begin_turn_def assms(2))

lemma inject_pending_keeps:
  "ctx_tools (lp_context (inject_pending cfg s)) = ctx_tools (lp_context s)"
  "lp_resume (inject_pending cfg s) = lp_resume s"
  by (simp_all add: inject_pending_def add_messages_def Let_def split: prod.split)

lemma final_message_calls: "message_tool_calls (final_message suppress m) = message_tool_calls m"
proof -
  have "List.map_filter block_tool_call (filter is_tool_call_block bs) = List.map_filter block_tool_call bs" for bs
  proof (induction bs)
    case (Cons b bs)
    then show ?case by (cases b) (simp_all add: List.map_filter_simps is_tool_call_block_def)
  qed simp
  then show ?thesis by (simp add: final_message_def message_tool_calls_def)
qed

lemma stream_loop_world: "stream_loop suppress es p ms st = (p', ms', st') \<Longrightarrow> fst st' = fst st"
  by (induction suppress es p ms st rule: stream_loop.induct) (auto simp: emit_def split: if_splits)

lemma response_budget:
  assumes "winds_down cfg budget tools" and "streamAssistantResponse cfg model reasoning ctx st = (m, ctx', st')"
  shows "message_tool_calls m \<noteq> [] \<Longrightarrow> budget (fst st') < budget (fst st)" and "ctx_tools ctx' = ctx_tools ctx"
    and "budget (fst st') \<le> budget (fst st)"
proof -
  obtain ms st1 where t: "with_world (cfg_transformContext cfg (ctx_messages ctx)) st = (ms, st1)" by (rule prod.exhaust)
  obtain es result w where s: "cfg_stream cfg model reasoning (ctx\<lparr>ctx_messages := cfg_convertToLlm cfg ms\<rparr>) (fst st1) = (es, result, w)"
    by (metis surj_pair)
  obtain p ms' st2 where l: "stream_loop (cfg_suppressAssistantText cfg) es False (ctx_messages ctx) (w, snd st1) = (p, ms', st2)"
    by (metis surj_pair)
  have "fst st2 = w" using stream_loop_world [OF l] by simp
  then have w: "fst st' = w" "m = final_message (cfg_suppressAssistantText cfg) result" "ctx_tools ctx' = ctx_tools ctx"
    using assms(2) t s l by (auto simp: streamAssistantResponse_def Let_def emit_def split: if_splits)
  have "budget (fst st1) \<le> budget (fst st)"
    using assms(1) t by (auto simp: winds_down_def hooks_respect_def with_world_def split: prod.splits) (metis snd_conv)
  with assms(1) [unfolded winds_down_def] s w(1,2)
  show "message_tool_calls m \<noteq> [] \<Longrightarrow> budget (fst st') < budget (fst st)"
    by (simp add: final_message_calls) (meson order_less_le_trans)
  show "ctx_tools ctx' = ctx_tools ctx" by (fact w(3))
  show "budget (fst st') \<le> budget (fst st)"
    using turn_effects.response_rel [OF winds_down_effects [OF assms(1)] assms(2)] by (simp add: on_worlds_def)
qed

lemma run_tools_budget:
  assumes "winds_down cfg budget tools" and "known tools s" and "run_tools cfg resumed m s = (rs, s')"
  shows "budget (fst (lp_run s')) \<le> budget (fst (lp_run s))" and "known tools s'" and "lp_resume s' = lp_resume s"
    and "lp_hasMoreToolCalls s' \<Longrightarrow> message_tool_calls m \<noteq> []"
proof -
  show "budget (fst (lp_run s')) \<le> budget (fst (lp_run s))"
    using turn_effects.run_tools_rel [OF winds_down_effects [OF assms(1)] assms(2,3)] by (simp add: on_worlds_def)
  show "known tools s'" "lp_resume s' = lp_resume s" "lp_hasMoreToolCalls s' \<Longrightarrow> message_tool_calls m \<noteq> []"
    using assms(2,3) by (auto simp: run_tools_def add_messages_def Let_def split: if_splits prod.splits)
qed

text \<open>What is left of a run: the budget, the calls to resume, and whether another turn is due.\<close>

definition energy :: "('w \<Rightarrow> nat) \<Rightarrow> 'w loop_state \<Rightarrow> nat" where
  "energy budget s =
     2 * budget (fst (lp_run s)) + (if lp_resume s = None then 0 else 2) +
     (if lp_hasMoreToolCalls s \<or> lp_pendingMessages s \<noteq> [] then 1 else 0)"

lemma turn_response_budget:
  assumes "winds_down cfg budget tools" and "known tools s" and "turn_response cfg s = (m, s')"
  shows "known tools s'" and "lp_resume s' = None" and "budget (fst (lp_run s')) \<le> budget (fst (lp_run s))"
    and "lp_resume s = None \<Longrightarrow> message_tool_calls m \<noteq> [] \<Longrightarrow> budget (fst (lp_run s')) < budget (fst (lp_run s))"
proof -
  obtain qm qctx qst where q: "streamAssistantResponse cfg (lp_model s) (lp_reasoning s) (lp_context s) (lp_run s) = (qm, qctx, qst)"
    by (metis surj_pair)
  from assms(2,3) q response_budget [OF assms(1) q]
  show "known tools s'" "lp_resume s' = None" "budget (fst (lp_run s')) \<le> budget (fst (lp_run s))"
    "lp_resume s = None \<Longrightarrow> message_tool_calls m \<noteq> [] \<Longrightarrow> budget (fst (lp_run s')) < budget (fst (lp_run s))"
    by (auto simp: turn_response_def split: option.splits)
qed

lemma finish_turn_budget:
  assumes "winds_down cfg budget tools" and "finish_turn cfg m rs s = (False, s')"
  shows "budget (fst (lp_run s')) \<le> budget (fst (lp_run s))"
    and "lp_pendingMessages s' \<noteq> [] \<Longrightarrow> budget (fst (lp_run s')) < budget (fst (lp_run s))"
proof -
  define turn where "turn = \<lparr>ct_message = m, ct_toolResults = rs, ct_context = lp_context s, ct_newMessages = lp_newMessages s\<rparr>"
  obtain stop st1 where stop: "with_world (cfg_shouldStopAfterTurn cfg turn) (emit (TurnEnd m rs) (lp_run s)) = (stop, st1)"
    by (rule prod.exhaust)
  obtain ms st2 where ms: "takeSteering cfg st1 = (ms, st2)" by (rule prod.exhaust)
  have "budget (fst st1) \<le> budget (fst (lp_run s))"
    using assms(1) stop by (auto simp: winds_down_def hooks_respect_def with_world_def emit_def split: prod.splits) (metis snd_conv)
  moreover have "lp_pendingMessages s' = ms" "lp_run s' = st2"
    using assms(2) stop ms by (auto simp: finish_turn_def turn_def [symmetric] Let_def split: if_splits)
  ultimately show "budget (fst (lp_run s')) \<le> budget (fst (lp_run s))"
      "lp_pendingMessages s' \<noteq> [] \<Longrightarrow> budget (fst (lp_run s')) < budget (fst (lp_run s))"
    using takeSteering_budget [OF assms(1) ms] by auto
qed

lemma run_turn_energy:
  assumes "winds_down cfg budget tools" and "known tools s" and "run_turn cfg s = (False, s')"
    and "lp_hasMoreToolCalls s \<or> lp_pendingMessages s \<noteq> []"
  shows "known tools s' \<and> energy budget s' < energy budget s"
proof -
  define s1 where "s1 = inject_pending cfg (begin_turn cfg s)"
  have "spares budget (lp_run (begin_turn cfg s)) (lp_run s1)"
    unfolding s1_def by (rule turn_effects.inject_rel [OF winds_down_effects [OF assms(1)]])
  with begin_turn_budget [OF assms(1,2)] have s1: "budget (fst (lp_run s1)) \<le> budget (fst (lp_run s))" "known tools s1"
      "lp_resume s1 = lp_resume s"
    by (auto simp: on_worlds_def s1_def inject_pending_keeps)
  obtain m s2 where m: "turn_response cfg s1 = (m, s2)" by (rule prod.exhaust)
  note s2 = turn_response_budget [OF assms(1) s1(2) m]
  obtain rs s3 where t: "run_tools cfg (lp_resume s1) m s2 = (rs, s3)" by (rule prod.exhaust)
  note s3 = run_tools_budget [OF assms(1) s2(1) t]
  have fin: "finish_turn cfg m rs s3 = (False, s')"
    using assms(3) m t by (auto simp: run_turn_def s1_def [symmetric] split: if_splits)
  with s1 s2 s3 finish_turn_keeps [OF fin] finish_turn_budget [OF assms(1) fin] assms(4) show ?thesis
    by (auto simp: energy_def)
qed

lemma run_loop_returns:
  assumes "winds_down cfg budget tools" and "known tools s"
  shows "\<exists>r. run_loop cfg s = Some r"
  using assms(2)
proof (induction "energy budget s" arbitrary: s rule: less_induct)
  case less
  obtain ended s' where turn: "run_turn cfg s = (ended, s')" by (rule prod.exhaust)
  obtain ms st where follow: "takeFollowUps cfg (lp_run s) = (ms, st)" by (rule prod.exhaust)
  let ?next = "s\<lparr>lp_pendingMessages := ms, lp_pendingAreSteering := False, lp_hasMoreToolCalls := True, lp_run := st\<rparr>"
  show ?case
  proof (cases "lp_hasMoreToolCalls s \<or> lp_pendingMessages s \<noteq> []")
    case True
    with turn run_turn_energy [OF assms(1) less.prems _ True, of s'] less.hyps [of s'] show ?thesis
      by (subst run_loop.simps) auto
  next
    case False
    have "ms \<noteq> [] \<Longrightarrow> energy budget ?next < energy budget s"
      using False takeFollowUps_budget [OF assms(1) follow] by (auto simp: energy_def)
    with False follow less.hyps [of ?next] less.prems show ?thesis
      by (subst run_loop.simps) (cases "ms = []", auto)
  qed
qed

lemma runLoop_returns:
  assumes "winds_down cfg budget tools" and "set (ctx_tools ctx) \<subseteq> tools"
  shows "\<exists>s. runLoop cfg ctx newMessages model reasoning resume st = Some s"
proof -
  obtain u w where u: "cfg_prepareInitialTurn cfg ctx (fst st) = (u, w)" by (rule prod.exhaust)
  have "update_tools u \<subseteq> tools" using assms(1) u by (auto simp: winds_down_def hooks_respect_def)
  then have known: "known tools (apply_update u s)" if "lp_context s = ctx" for s
    using apply_update_known assms(2) that by blast
  define s1 where "s1 = apply_update u \<lparr>lp_context = ctx, lp_model = model, lp_reasoning = reasoning,
    lp_newMessages = newMessages, lp_pendingMessages = [], lp_pendingAreSteering = True, lp_hasMoreToolCalls = True,
    lp_lastCompletedTurn = None, lp_resume = resume, lp_run = (w, snd st)\<rparr>"
  obtain ms st2 where "(if resume \<noteq> None then ([], lp_run s1) else takeSteering cfg (lp_run s1)) = (ms, st2)"
    by (rule prod.exhaust)
  then have "runLoop cfg ctx newMessages model reasoning resume st = run_loop cfg (s1\<lparr>lp_pendingMessages := ms, lp_run := st2\<rparr>)"
    using u unfolding s1_def by (simp add: runLoop_def with_world_def)
  moreover have "known tools (s1\<lparr>lp_pendingMessages := ms, lp_run := st2\<rparr>)" using known by (simp add: s1_def)
  ultimately show ?thesis using run_loop_returns [OF assms(1)] by metis
qed

text \<open>C26: A run ends.  If the responses with tool calls and the queued messages are used up by a budget of the world that
  no hook and no tool raises, the loop returns, whatever the tools answer and whatever hooks fail or are aborted; so do
  the runs that continue or resume a transcript they accept.\<close>

theorem run_returns:
  assumes "winds_down cfg budget tools" and "set (ctx_tools ctx) \<subseteq> tools"
  shows "(\<exists>r. runAgentLoop cfg prompts ctx model reasoning st = Some r) \<and>
    runAgentLoopContinue cfg ctx model reasoning st \<noteq> Inr None \<and> runAgentLoopResume cfg ctx model reasoning st \<noteq> Inr None"
proof -
  have returns: "runLoop cfg c ms model reasoning resume st' \<noteq> None" if "ctx_tools c = ctx_tools ctx" for c ms resume st'
    using runLoop_returns [OF assms(1), of c ms model reasoning resume st'] assms(2) that by auto
  have "runAgentLoop cfg prompts ctx model reasoning st \<noteq> None"
    by (simp add: runAgentLoop_def returns)
  moreover have "runAgentLoopContinue cfg ctx model reasoning st \<noteq> Inr None"
    by (simp add: runAgentLoopContinue_def returns)
  moreover have "runAgentLoopResume cfg ctx model reasoning st \<noteq> Inr None"
    by (simp add: runAgentLoopResume_def returns split: option.split)
  ultimately show ?thesis by blast
qed

section \<open>Resuming a transcript\<close>

lemma pending_results:
  "pending_calls (map ToolResultMessage rs @ ms) answered = pending_calls ms (answered \<union> tr_toolCallId ` set rs)"
  by (induction rs arbitrary: answered) simp_all

lemma pending_more:
  "pending_calls ms answered = Some (am, cs) \<Longrightarrow> call_id ` set cs \<subseteq> extra \<Longrightarrow> pending_calls ms (answered \<union> extra) = None"
proof (induction ms answered rule: pending_calls.induct)
  case (4 m ms answered)
  have "filter (\<lambda>c. call_id c \<notin> answered \<union> extra) (message_tool_calls m) =
      filter (\<lambda>c. call_id c \<notin> extra) (filter (\<lambda>c. call_id c \<notin> answered) (message_tool_calls m))"
    by (simp add: conj_commute)
  moreover have "cs = filter (\<lambda>c. call_id c \<notin> answered) (message_tool_calls m)"
    using "4.prems"(1) by (auto simp: Let_def split: if_splits)
  ultimately have "filter (\<lambda>c. call_id c \<notin> answered \<union> extra) (message_tool_calls m) = filter (\<lambda>c. call_id c \<notin> extra) cs" by simp
  also have "\<dots> = []" using "4.prems"(2) by (auto simp: filter_empty_conv)
  finally show ?case by (simp add: Let_def)
qed auto

lemma pending_nonempty: "findPendingToolCalls ms = Some (am, cs) \<Longrightarrow> cs \<noteq> []"
proof -
  have "pending_calls ms' a = Some (am, cs) \<Longrightarrow> cs \<noteq> []" for ms' a
    by (induction ms' a rule: pending_calls.induct) (auto simp: Let_def split: if_splits)
  then show "findPendingToolCalls ms = Some (am, cs) \<Longrightarrow> cs \<noteq> []" by (simp add: findPendingToolCalls_def)
qed

lemma pending_calls_answered:
  assumes "never_aborts cfg" and "executePendingToolCalls cfg ctx am cs st = (b, st')"
  shows "mset (map tr_toolCallId (eb_messages b)) = mset (map call_id cs)"
proof -
  let ?no = "filter (\<lambda>c. \<not> replayable ctx c) cs" and ?yes = "filter (replayable ctx) cs"
  obtain ms st1 where ms: "fail_calls cfg interrupted_text ?no st = (ms, st1)" by (rule prod.exhaust)
  obtain b2 st2 where b2: "executeToolCalls cfg ctx am ?yes st1 = (b2, st2)" by (rule prod.exhaust)
  have "map tr_toolCallId (eb_messages b2) = map call_id ?yes"
    using execute_calls [OF b2] assms(1) by (auto simp: answers_def)
  moreover have "map tr_toolCallId ms = map call_id ?no" using fail_calls_ids [OF ms] by simp
  ultimately have "map tr_toolCallId (eb_messages b) = map call_id (?no @ ?yes)"
    using assms(2) ms b2 by (auto simp: executePendingToolCalls_def Let_def split: if_splits)
  moreover have "mset (?no @ ?yes) = mset cs" by (induction cs) auto
  then have "mset (map call_id (?no @ ?yes)) = mset (map call_id cs)" by (simp only: mset_map)
  ultimately show ?thesis by simp
qed

text \<open>C32: Resuming settles what was pending.  The calls that a transcript leaves without a result all get one when they are
  resumed without an abort, each exactly one, whether the call is run again or answered as interrupted; with these
  results appended the transcript has no pending calls left, and a second resumption is refused.\<close>

theorem resume_settles_pending:
  assumes "findPendingToolCalls (ctx_messages ctx) = Some (am, calls)" and "never_aborts cfg"
    and "executePendingToolCalls cfg ctx am calls st = (batch, st')"
  shows "mset (map tr_toolCallId (eb_messages batch)) = mset (map call_id calls) \<and> eb_messages batch \<noteq> [] \<and>
    runAgentLoopResume cfg (ctx\<lparr>ctx_messages := ctx_messages ctx @ map ToolResultMessage (eb_messages batch)\<rparr>) model reasoning st' =
      Inl NoPendingToolCalls"
proof -
  note ids = pending_calls_answered [OF assms(2,3)]
  then have "set (map tr_toolCallId (eb_messages batch)) = set (map call_id calls)" by (metis set_mset_mset)
  then have "call_id ` set calls \<subseteq> tr_toolCallId ` set (rev (eb_messages batch))" by simp
  from pending_more [OF _ this, of "rev (ctx_messages ctx)" "{}"] assms(1)
  have "findPendingToolCalls (ctx_messages ctx @ map ToolResultMessage (eb_messages batch)) = None"
    using pending_results [of "rev (eb_messages batch)" "rev (ctx_messages ctx)" "{}"]
    by (simp add: findPendingToolCalls_def rev_map)
  moreover have "eb_messages batch \<noteq> []"
    using ids pending_nonempty [OF assms(1)] by auto
  ultimately show ?thesis using ids by (simp add: runAgentLoopResume_def)
qed

text \<open>A truncated response runs no tool.  When the response hit the output limit, each of its calls is answered by an
  error, in order and even during an abort; nothing but the batch hook touches the world, and the loop goes on.\<close>

theorem truncated_calls_not_executed:
  assumes "am_stopReason m = StopLength" and "message_tool_calls m \<noteq> []" and "run_tools cfg None m s = (results, s')"
  shows "map tr_toolCallId results = map call_id (message_tool_calls m) \<and> list_all tr_isError results \<and> lp_hasMoreToolCalls s' \<and>
    fst (lp_run s') = cfg_onToolBatchCompleted cfg results (lp_context s') (fst (lp_run s))"
proof -
  obtain ms st where f: "fail_calls cfg truncated_text (message_tool_calls m) (lp_run s) = (ms, st)" by (rule prod.exhaust)
  with fail_calls_ids [OF f] assms show ?thesis
    by (auto simp: run_tools_def failToolCallsFromTruncatedMessage_def add_messages_def Let_def)
qed

section \<open>A single dispatched call\<close>

definition is_update :: "agent_event \<Rightarrow> bool" where
  "is_update e = (case e of ToolExecutionUpdate _ _ _ _ _ \<Rightarrow> True | _ \<Rightarrow> False)"

definition status_fits :: "call_outcome \<Rightarrow> bool" where
  "status_fits o' = (case co_status o' of StatusSuccess \<Rightarrow> \<not> co_isError o' | StatusAborted \<Rightarrow> True | _ \<Rightarrow> co_isError o')"

lemma execute_updates:
  assumes "executePreparedToolCall tool args c parent st = (r, e, st')"
  obtains us where "snd st' = snd st @ us" and "list_all is_update us"
proof -
  obtain out ups w where "tool_execute tool (call_id c) args (fst st) = (out, ups, w)" by (metis surj_pair)
  with assms show thesis
    by (intro that) (auto simp: executePreparedToolCall_def Let_def emit_all_def list_all_iff is_update_def split: sum.splits)
qed

text \<open>A call reported from a run on: a start, updates and an end with its result.\<close>

definition reported :: "tool_call \<Rightarrow> string option \<Rightarrow> agent_event list \<Rightarrow> call_outcome \<times> 'w run \<Rightarrow> bool" where
  "reported c parent events r =
     (status_fits (fst r) \<and>
      (\<exists>us. list_all is_update us \<and>
        snd (snd r) = events @ [ToolExecutionStart (call_id c) (call_name c) (call_arguments c) parent] @ us @
          [ToolExecutionEnd (call_id c) (call_name c) (co_result (fst r)) (co_isError (fst r)) parent]))"

lemma reported_end:
  assumes "snd st = events @ [ToolExecutionStart (call_id c) (call_name c) (call_arguments c) parent] @ us"
    and "list_all is_update us" and "status_fits out"
  shows "reported c parent events (end_outcome c parent out st)"
  using assms by (auto simp: reported_def end_outcome_def emit_def)

lemmas reported_at_once = reported_end [where us = "[]", simplified]

lemma error_fits: "status \<noteq> StatusSuccess \<Longrightarrow> status_fits (error_outcome message status)"
  by (cases status) (simp_all add: status_fits_def error_outcome_def)

lemma blocked_fits: "status_fits \<lparr>co_result = r, co_isError = True, co_status = StatusBlocked\<rparr>"
  by (simp add: status_fits_def)

lemma reported_execution:
  assumes "snd st = events @ [ToolExecutionStart (call_id c) (call_name c) (call_arguments c) parent]"
    and "executePreparedToolCall tool args c parent st = (r, e, st1)"
    and "finalizeExecutedToolCall cfg ctx am c args r e st1 = (f, st2)"
  shows "reported c parent events (end_outcome c parent \<lparr>co_result = fin_result f, co_isError = fin_isError f,
    co_status = (if cfg_aborted cfg (fst st2) then StatusAborted else if fin_isError f then StatusError else StatusSuccess)\<rparr> st2)"
proof -
  obtain us where us: "snd st1 = snd st @ us" "list_all is_update us" by (rule execute_updates [OF assms(2)])
  have "snd st2 = snd st1"
    using assms(3) by (auto simp: finalizeExecutedToolCall_def Let_def dest: with_world_events split: prod.splits)
  with us assms(1) show ?thesis by (intro reported_end) (auto simp: status_fits_def)
qed

text \<open>A dispatched call.  On every path (unknown tool, rejected arguments, a blocking or failing hook, an abort before
  or after execution, success) the call is reported by one start, then updates, then one end that carries the result it
  returns, and its status agrees with the error flag.\<close>

theorem dispatched_call_reported: "reported c parent (snd st) (runToolCall cfg tools ctx am c parent st)"
proof -
  define st0 where "st0 = emit (ToolExecutionStart (call_id c) (call_name c) (call_arguments c) parent) st"
  have st0: "snd st0 = snd st @ [ToolExecutionStart (call_id c) (call_name c) (call_arguments c) parent]"
    by (simp add: st0_def emit_def)
  note now = reported_at_once [OF st0] error_fits blocked_fits
  show ?thesis
  proof (cases "find_tool tools (call_name c)")
    case None
    then show ?thesis by (simp add: runToolCall_def st0_def [symmetric] now)
  next
    case (Some tool)
    show ?thesis
    proof (cases "checked_arguments tool c")
      case (Inl message)
      with Some show ?thesis by (simp add: runToolCall_def st0_def [symmetric] now)
    next
      case (Inr args)
      obtain before st1 where b: "with_world (cfg_beforeToolCall cfg am c args ctx) st0 = (before, st1)" by (rule prod.exhaust)
      have st1: "snd st1 = snd st @ [ToolExecutionStart (call_id c) (call_name c) (call_arguments c) parent]"
        using with_world_events [OF b] st0 by simp
      obtain r e st2 where x: "executePreparedToolCall tool args c parent st1 = (r, e, st2)" by (metis surj_pair)
      obtain f st3 where f: "finalizeExecutedToolCall cfg ctx am c args r e st2 = (f, st3)" by (rule prod.exhaust)
      note later = reported_at_once [OF st1] reported_execution [OF st1 x f]
      show ?thesis
        using Some Inr b x f
        by (simp add: runToolCall_def st0_def [symmetric] now later split: sum.split)
    qed
  qed
qed

section \<open>A run of one tool call\<close>

text \<open>A provider that asks for the tool as often as the world counts, and then answers.\<close>

definition echo_call :: tool_call where
  "echo_call = \<lparr>call_id = ''c1'', call_name = ''echo'', call_arguments = JNull, call_thoughtSignature = None, call_namespace = None\<rparr>"

definition echo_tool :: "nat agent_tool" where
  "echo_tool = \<lparr>tool_name = ''echo'', tool_executionMode = None, tool_replaySafe = True, tool_prepareArguments = Inr,
     tool_validate = Inr, tool_execute = (\<lambda>i args w. (Inr (createErrorToolResult ''echo''), [], w))\<rparr>"

definition no_usage :: usage where
  "no_usage = \<lparr>usage_input = 0, usage_output = 0, usage_cacheRead = 0, usage_cacheWrite = 0, usage_cacheWrite1h = None,
     usage_reasoning = None, usage_totalTokens = 0,
     usage_cost = \<lparr>cost_input = 0, cost_output = 0, cost_cacheRead = 0, cost_cacheWrite = 0, cost_total = 0\<rparr>\<rparr>"

definition turn_message :: "assistant_block list \<Rightarrow> stop_reason \<Rightarrow> assistant_message" where
  "turn_message blocks stop = \<lparr>am_content = blocks, am_api = ''api'', am_provider = ''p'', am_model = ''m'', am_responseModel = None,
     am_responseId = None, am_diagnostics = None, am_usage = no_usage, am_stopReason = stop, am_deferred = None,
     am_errorMessage = None, am_rawStopReason = None, am_endTurn = None, am_timestamp = 0\<rparr>"

definition echo_provider :: "nat \<Rightarrow> stream_event list \<times> assistant_message \<times> nat" where
  "echo_provider w =
     (if w = 0 then ([], turn_message [] StopStop, 0)
      else ([], turn_message [AssistantToolCall echo_call] StopToolUse, w - 1))"

definition echo_config :: "nat loop_config" where
  "echo_config = \<lparr>cfg_aborted = (\<lambda>w. False), cfg_now = (\<lambda>w. w), cfg_toolExecution = Parallel, cfg_suppressAssistantText = False,
     cfg_transformContext = Pair, cfg_convertToLlm = id, cfg_stream = (\<lambda>m r c. echo_provider),
     cfg_prepareInitialTurn = (\<lambda>c. Pair None), cfg_prepareNextTurn = (\<lambda>t. Pair None),
     cfg_shouldStopAfterTurn = (\<lambda>t. Pair False), cfg_getSteeringMessages = Pair [], cfg_getFollowUpMessages = Pair [],
     cfg_onSteeringBatch = (\<lambda>ms. Pair (Inr [])), cfg_beforeToolCall = (\<lambda>am c args ctx. Pair (Inr None)),
     cfg_afterToolCall = (\<lambda>am c args r e ctx. Pair (Inr None)), cfg_resolveToolAvailability = (\<lambda>n c. Pair (Inr None)),
     cfg_onToolBatchCompleted = (\<lambda>rs c w. w), cfg_schedule = (\<lambda>n w. [])\<rparr>"

definition echo_model :: loop_model where
  "echo_model = \<lparr>lm_id = ''m'', lm_api = ''api'', lm_provider = ''p''\<rparr>"

definition echo_context :: "nat agent_context" where
  "echo_context = \<lparr>ctx_systemPrompt = [], ctx_messages = [], ctx_tools = [echo_tool]\<rparr>"

definition echo_result :: tool_result_message where
  "echo_result = createToolResultMessage (immediate_call echo_call (createErrorToolResult ''echo'')) 0"

lemma echo_winds_down: "winds_down echo_config id {echo_tool}"
  by (auto simp: winds_down_def hooks_respect_def echo_config_def echo_tool_def echo_provider_def turn_message_def
      message_tool_calls_def update_tools_def List.map_filter_simps split: if_splits)

lemma echo_plain: "plain_queues echo_config"
  by (simp add: plain_queues_def echo_config_def)

lemma echo_never_aborts: "never_aborts echo_config"
  by (simp add: never_aborts_def echo_config_def)

lemmas echo_defs = echo_config_def echo_context_def echo_tool_def echo_call_def echo_provider_def turn_message_def echo_result_def

theorem run_returns_witness:
  "winds_down echo_config id {echo_tool} \<and> set (ctx_tools echo_context) \<subseteq> {echo_tool} \<and>
   (\<exists>r. runAgentLoop echo_config [OtherMessage ''note'' JNull] echo_context echo_model None (2, []) = Some r)"
  using run_returns [OF echo_winds_down, of echo_context] echo_winds_down by (simp add: echo_context_def)

lemmas loop_defs = with_world_def apply_update_def takeSteering_def takeFollowUps_def take_messages_def emit_all_def emit_def
  run_turn_def turn_response_def finish_turn_def begin_turn_def inject_pending_def add_messages_def streamAssistantResponse_def final_message_def
  run_tools_def end_run_def message_events_def start_events_def

lemmas tool_defs = executeToolCalls_def executeToolCallsParallel_def prepare_entry_def prepareToolCall_def find_tool_def
  checked_arguments_def prepareToolCallArguments_def run_order_def run_entry_def run_prepared_def executePreparedToolCall_def
  finalizeExecutedToolCall_def settled_calls_def emit_result_def tool_execution_start_def tool_execution_end_def
  createToolResultMessage_def immediate_call_def createErrorToolResult_def shouldTerminateToolBatch_def

lemma echo_config_simps [simp]:
  "cfg_aborted echo_config w = False" "cfg_now echo_config w = w" "cfg_toolExecution echo_config = Parallel"
  "cfg_suppressAssistantText echo_config = False" "cfg_transformContext echo_config ms = Pair ms"
  "cfg_convertToLlm echo_config ms = ms" "cfg_stream echo_config m r c = echo_provider"
  "cfg_prepareInitialTurn echo_config c = Pair None" "cfg_prepareNextTurn echo_config t = Pair None"
  "cfg_shouldStopAfterTurn echo_config t = Pair False" "cfg_getSteeringMessages echo_config = Pair []"
  "cfg_getFollowUpMessages echo_config = Pair []" "cfg_beforeToolCall echo_config am tc args c = Pair (Inr None)"
  "cfg_afterToolCall echo_config am tc args res e c = Pair (Inr None)" "cfg_onToolBatchCompleted echo_config rs c w = w"
  "cfg_schedule echo_config n w = []"
  by (simp_all add: echo_config_def)

definition echo_messages :: "agent_message list" where
  "echo_messages = [OtherMessage ''note'' JNull, AssistantMessage (turn_message [AssistantToolCall echo_call] StopToolUse),
     ToolResultMessage (echo_result\<lparr>tr_isError := False\<rparr>), AssistantMessage (turn_message [] StopStop)]"

lemma echo_run:
  "\<exists>events. runAgentLoop echo_config [OtherMessage ''note'' JNull] echo_context echo_model None (1, []) = Some (echo_messages, (0, events))"
  by (simp add: runAgentLoop_def runLoop_def echo_context_def echo_tool_def echo_call_def echo_provider_def turn_message_def
       echo_result_def echo_messages_def loop_defs tool_defs message_tool_calls_def List.map_filter_simps Let_def
       run_loop.simps [of echo_config])


theorem run_events_bracketed_witness:
  "\<exists>events es. runAgentLoop echo_config [OtherMessage ''note'' JNull] echo_context echo_model None (1, []) = Some (echo_messages, (0, events)) \<and>
     events = es @ [AgentEnd echo_messages] \<and> turn_state es = Some False"
proof -
  obtain events where run: "runAgentLoop echo_config [OtherMessage ''note'' JNull] echo_context echo_model None (1, []) = Some (echo_messages, (0, events))"
    using echo_run by blast
  from run_events_bracketed [OF echo_plain _ run] run show ?thesis by auto
qed

theorem resume_settles_pending_witness:
  "\<exists>batch st'. executePendingToolCalls echo_config (echo_context\<lparr>ctx_messages := take 2 echo_messages\<rparr>)
       (turn_message [AssistantToolCall echo_call] StopToolUse) [echo_call] (0, []) = (batch, st') \<and>
     mset (map tr_toolCallId (eb_messages batch)) = {#''c1''#}"
proof -
  let ?ctx = "echo_context\<lparr>ctx_messages := take 2 echo_messages\<rparr>"
  obtain batch st' where run: "executePendingToolCalls echo_config ?ctx
      (turn_message [AssistantToolCall echo_call] StopToolUse) [echo_call] (0, []) = (batch, st')" by (rule prod.exhaust)
  have "findPendingToolCalls (ctx_messages ?ctx) = Some (turn_message [AssistantToolCall echo_call] StopToolUse, [echo_call])"
    by (simp add: findPendingToolCalls_def echo_messages_def turn_message_def message_tool_calls_def List.map_filter_simps)
  from resume_settles_pending [OF this echo_never_aborts run] run show ?thesis by (auto simp: echo_call_def)
qed

theorem truncated_calls_not_executed_witness:
  "\<exists>results s'. run_tools echo_config None (turn_message [AssistantToolCall echo_call] StopLength)
       \<lparr>lp_context = echo_context, lp_model = echo_model, lp_reasoning = None, lp_newMessages = [], lp_pendingMessages = [],
        lp_pendingAreSteering = True, lp_hasMoreToolCalls = True, lp_lastCompletedTurn = None, lp_resume = None, lp_run = (7, [])\<rparr> =
       (results, s') \<and> map tr_toolCallId results = [''c1''] \<and> list_all tr_isError results \<and> fst (lp_run s') = 7"
proof -
  let ?m = "turn_message [AssistantToolCall echo_call] StopLength"
  let ?s = "\<lparr>lp_context = echo_context, lp_model = echo_model, lp_reasoning = None, lp_newMessages = [], lp_pendingMessages = [],
        lp_pendingAreSteering = True, lp_hasMoreToolCalls = True, lp_lastCompletedTurn = None, lp_resume = None, lp_run = (7, [])\<rparr>"
  obtain results s' where run: "run_tools echo_config None ?m ?s = (results, s')" by (rule prod.exhaust)
  have calls: "message_tool_calls ?m = [echo_call]"
    by (simp add: turn_message_def message_tool_calls_def List.map_filter_simps)
  have "am_stopReason ?m = StopLength" by (simp add: turn_message_def)
  from truncated_calls_not_executed [OF this _ run] run calls show ?thesis by (auto simp: echo_call_def)
qed

end
