(* ===== verification/Agent_Delivery.thy ===== *)
theory Agent_Delivery
  imports Agent_Run
begin

text \<open>
  What a run delivers: every message it returns is reported by one \<^verbatim>\<open>message_end\<close>, in the same order, and
  no message of a queue is lost between the queues and the messages of the run.
\<close>

section \<open>The messages the events report\<close>

definition ended_messages :: "agent_event list \<Rightarrow> agent_message list" where
  "ended_messages es = List.map_filter (\<lambda>e. case e of MessageEnd m \<Rightarrow> Some m | _ \<Rightarrow> None) es"

lemma ended_simps [simp]:
  "ended_messages [] = []" "ended_messages (es @ fs) = ended_messages es @ ended_messages fs"
  "ended_messages (MessageEnd m # es) = m # ended_messages es" "ended_messages (MessageStart m # es) = ended_messages es"
  "ended_messages (MessageUpdate m # es) = ended_messages es" "ended_messages (TurnStart # es) = ended_messages es"
  "ended_messages (TurnEnd a rs # es) = ended_messages es" "ended_messages (AgentStart # es) = ended_messages es"
  "ended_messages (AgentEnd ms # es) = ended_messages es"
  by (simp_all add: ended_messages_def List.map_filter_def)

lemma ended_tool_event [simp]: "tool_event e \<Longrightarrow> ended_messages (e # es) = ended_messages es"
  by (cases e) (simp_all add: ended_messages_def List.map_filter_simps)

lemma ended_message_events [simp]: "ended_messages (concat (map message_events ms)) = ms"
  by (induction ms) (simp_all add: message_events_def)

text \<open>A part of a run that reports no message: tools with their hooks.\<close>

definition silent :: "'w run \<Rightarrow> 'w run \<Rightarrow> bool" where
  "silent st st' = (ended_messages (snd st') = ended_messages (snd st))"

interpretation silent: tool_effects cfg silent UNIV for cfg
  by unfold_locales (simp_all add: silent_def emit_def)

text \<open>A part of a run that reports the given messages.\<close>

definition reports :: "agent_message list \<Rightarrow> 'w run \<Rightarrow> 'w run \<Rightarrow> bool" where
  "reports ms st st' = (ended_messages (snd st') = ended_messages (snd st) @ ms)"

lemma reports_trans: "reports ms st st' \<Longrightarrow> reports ns st' st'' \<Longrightarrow> reports (ms @ ns) st st''"
  by (simp add: reports_def)

lemma reports_silent: "silent st st' \<Longrightarrow> reports ms st' st'' \<Longrightarrow> reports ms st st''"
  by (simp add: reports_def silent_def)

lemma reports_nothing: "silent st st' \<Longrightarrow> reports [] st st'"
  by (simp add: reports_def silent_def)

lemma emit_result_reports: "emit_result cfg f st = (m, st') \<Longrightarrow> reports [ToolResultMessage m] st st'"
  by (auto simp: emit_result_def reports_def emit_all_def message_events_def Let_def)

lemma sequential_reports:
  "sequential_loop cfg ctx am cs st = (fs, st') \<Longrightarrow> reports (map (ToolResultMessage \<circ> snd) fs) st st'"
proof (induction cs arbitrary: st fs st')
  case (Cons c cs)
  obtain f st1 where f: "run_call cfg ctx am c st = (f, st1)" by (rule prod.exhaust)
  obtain m st2 where m: "emit_result cfg f st1 = (m, st2)" by (rule prod.exhaust)
  obtain rest st3 where rest: "sequential_loop cfg ctx am cs st2 = (rest, st3)" by (rule prod.exhaust)
  have one: "reports [ToolResultMessage m] st st2"
    by (rule reports_silent [OF silent.run_call_rel [OF _ f] emit_result_reports [OF m]]) simp
  show ?case
    using Cons.prems f m rest one reports_trans [OF one Cons.IH [OF rest]] by (auto split: if_splits)
qed (simp add: reports_def)

lemma emit_results_reports: "emit_results cfg fs st = (ms, st') \<Longrightarrow> reports (map ToolResultMessage ms) st st'"
proof (induction fs arbitrary: st ms st')
  case (Cons f fs)
  obtain m st1 where m: "emit_result cfg f st = (m, st1)" by (rule prod.exhaust)
  obtain ms' st2 where rest: "emit_results cfg fs st1 = (ms', st2)" by (rule prod.exhaust)
  from Cons.prems m rest have "st' = st2" "ms = m # ms'" by auto
  with reports_trans [OF emit_result_reports [OF m] Cons.IH [OF rest]] show ?case by simp
qed (simp add: reports_def)

lemma parallel_reports:
  assumes "executeToolCallsParallel cfg ctx am cs st = (b, st')"
  shows "reports (map ToolResultMessage (eb_messages b)) st st'"
proof -
  obtain es st1 where es: "parallel_prepare cfg ctx am cs st = (es, st1)" by (rule prod.exhaust)
  let ?order = "run_order (length es) (cfg_schedule cfg (length es) (fst st1))"
  obtain es' st2 where es': "foldl (run_entry cfg ctx am) (es, st1) ?order = (es', st2)" by (rule prod.exhaust)
  obtain ms st3 where ms: "emit_results cfg (settled_calls es') st2 = (ms, st3)" by (rule prod.exhaust)
  have prep: "silent st st1" "list_all silent.entry_allowed es" using silent.parallel_prepare_rel [OF _ es] by simp_all
  have "silent st1 st2" using silent.run_entries_rel [of "(es, st1)" ?order cfg ctx am] es' prep by (auto simp: run_order_all)
  with prep(1) have "silent st st2" by (rule silent.trans_rel)
  from reports_silent [OF this emit_results_reports [OF ms]] assms es es' ms show ?thesis
    by (auto simp: executeToolCallsParallel_def)
qed

lemma execute_reports:
  assumes "executeToolCalls cfg ctx am cs st = (b, st')"
  shows "reports (map ToolResultMessage (eb_messages b)) st st'"
proof (cases "executeToolCalls cfg ctx am cs st = executeToolCallsParallel cfg ctx am cs st")
  case True
  with assms show ?thesis using parallel_reports by metis
next
  case False
  obtain fs st1 where s: "sequential_loop cfg ctx am cs st = (fs, st1)" by (rule prod.exhaust)
  with False assms sequential_reports [OF s] show ?thesis
    by (auto simp: executeToolCalls_def executeToolCallsSequential_def Let_def comp_def split: if_splits)
qed

lemma fail_calls_reports: "fail_calls cfg text cs st = (ms, st') \<Longrightarrow> reports (map ToolResultMessage ms) st st'"
proof (induction cs arbitrary: st ms st')
  case (Cons c cs)
  let ?f = "immediate_call c (createErrorToolResult (text c))"
  let ?st = "emit_all [tool_execution_start c, tool_execution_end ?f] st"
  obtain m st1 where m: "emit_result cfg ?f ?st = (m, st1)" by (rule prod.exhaust)
  obtain ms' st2 where rest: "fail_calls cfg text cs st1 = (ms', st2)" by (rule prod.exhaust)
  have "silent st ?st" by (simp add: silent_def emit_all_def)
  from reports_trans [OF reports_silent [OF this emit_result_reports [OF m]] Cons.IH [OF rest]]
  have "reports (map ToolResultMessage (m # ms')) st st2" by simp
  moreover have "st' = st2" "ms = m # ms'" using Cons.prems m rest by (auto simp: Let_def)
  ultimately show ?case by simp
qed (simp add: reports_def)

lemma pending_reports:
  assumes "executePendingToolCalls cfg ctx am cs st = (b, st')"
  shows "reports (map ToolResultMessage (eb_messages b)) st st'"
proof -
  obtain ms st1 where ms: "fail_calls cfg interrupted_text (filter (\<lambda>c. \<not> replayable ctx c) cs) st = (ms, st1)" by (rule prod.exhaust)
  obtain b2 st2 where b2: "executeToolCalls cfg ctx am (filter (replayable ctx) cs) st1 = (b2, st2)" by (rule prod.exhaust)
  show ?thesis
    using assms ms b2 fail_calls_reports [OF ms] reports_trans [OF fail_calls_reports [OF ms] execute_reports [OF b2]]
    by (auto simp: executePendingToolCalls_def Let_def split: if_splits)
qed

lemma stream_loop_silent: "stream_loop suppress es p ms st = (p', ms', st') \<Longrightarrow> silent st st'"
  by (induction suppress es p ms st rule: stream_loop.induct) (auto simp: silent_def emit_def split: if_splits)

lemma response_reports:
  assumes "streamAssistantResponse cfg model reasoning ctx st = (m, ctx', st')"
  shows "reports [AssistantMessage m] st st'"
proof -
  obtain ms st1 where t: "with_world (cfg_transformContext cfg (ctx_messages ctx)) st = (ms, st1)" by (rule prod.exhaust)
  obtain evs result w where s: "cfg_stream cfg model reasoning (ctx\<lparr>ctx_messages := cfg_convertToLlm cfg ms\<rparr>) (fst st1) = (evs, result, w)"
    by (metis surj_pair)
  obtain p ms' st2 where l: "stream_loop (cfg_suppressAssistantText cfg) evs False (ctx_messages ctx) (w, snd st1) = (p, ms', st2)"
    by (metis surj_pair)
  have "ended_messages (snd st2) = ended_messages (snd st)"
    using stream_loop_silent [OF l] with_world_events [OF t] by (simp add: silent_def)
  with assms t s l show ?thesis
    by (auto simp: streamAssistantResponse_def Let_def emit_def reports_def split: if_splits)
qed

text \<open>The events so far report exactly the messages of the run so far.\<close>

definition synced :: "'w loop_state \<Rightarrow> bool" where
  "synced s = (ended_messages (snd (lp_run s)) = lp_newMessages s)"

lemma synced_step:
  "synced s \<Longrightarrow> reports ms (lp_run s) (lp_run s') \<Longrightarrow> lp_newMessages s' = lp_newMessages s @ ms \<Longrightarrow> synced s'"
  by (simp add: synced_def reports_def)

lemma synced_cong: "snd (lp_run s') = snd (lp_run s) \<Longrightarrow> lp_newMessages s' = lp_newMessages s \<Longrightarrow> synced s' = synced s"
  by (simp add: synced_def)

lemma takeSteering_events: "takeSteering cfg st = (ms, st') \<Longrightarrow> snd st' = snd st"
  unfolding takeSteering_def by (rule take_messages_events)

lemma takeFollowUps_events: "takeFollowUps cfg st = (ms, st') \<Longrightarrow> snd st' = snd st"
  unfolding takeFollowUps_def by (rule take_messages_events)

lemma begin_turn_synced: "synced (begin_turn cfg s) = synced s"
  by (auto simp: begin_turn_def Let_def synced_def emit_def dest!: takeSteering_events with_world_events
      split: option.split prod.split)

lemma inject_synced: "synced s \<Longrightarrow> synced (inject_pending cfg s)"
  by (auto simp: inject_pending_def Let_def synced_def add_messages_def emit_all_def
      dest!: with_world_events split: prod.splits sum.splits)

lemma turn_response_synced:
  assumes "turn_response cfg s = (m, s')" and "synced s"
  shows "synced s'"
proof (cases "lp_resume s")
  case None
  obtain qm qctx qst where q: "streamAssistantResponse cfg (lp_model s) (lp_reasoning s) (lp_context s) (lp_run s) = (qm, qctx, qst)"
    by (metis surj_pair)
  from assms(1) None q have "s' = s\<lparr>lp_context := qctx, lp_run := qst, lp_newMessages := lp_newMessages s @ [AssistantMessage qm]\<rparr>"
    by (auto simp: turn_response_def)
  with response_reports [OF q] assms(2) show ?thesis by (intro synced_step [OF assms(2)]) simp_all
next
  case (Some r)
  with assms show ?thesis by (cases r) (auto simp: turn_response_def synced_def)
qed

lemma run_tools_synced:
  assumes "run_tools cfg resumed m s = (rs, s')" and "synced s"
  shows "synced s'"
proof (cases "message_tool_calls m = []")
  case True
  with assms show ?thesis by (auto simp: run_tools_def synced_def)
next
  case False
  obtain b st1 where b: "(case resumed of
      Some (am, calls) \<Rightarrow> executePendingToolCalls cfg (lp_context s) am calls (lp_run s)
    | None \<Rightarrow>
        if am_stopReason m = StopLength then failToolCallsFromTruncatedMessage cfg (message_tool_calls m) (lp_run s)
        else executeToolCalls cfg (lp_context s) m (message_tool_calls m) (lp_run s)) = (b, st1)" by (rule prod.exhaust)
  have "reports (map ToolResultMessage (eb_messages b)) (lp_run s) st1"
    using b by (auto simp: failToolCallsFromTruncatedMessage_def dest: pending_reports execute_reports fail_calls_reports
        split: option.splits if_splits prod.splits)
  moreover have "snd (lp_run s') = snd st1" "lp_newMessages s' = lp_newMessages s @ map ToolResultMessage (eb_messages b)"
    using assms(1) False b by (auto simp: run_tools_def add_messages_def Let_def)
  ultimately show ?thesis using assms(2) by (simp add: synced_def reports_def)
qed

lemma run_turn_synced:
  assumes "run_turn cfg s = (ended, s')" and "synced s"
  shows "synced s'"
proof -
  define s1 where "s1 = inject_pending cfg (begin_turn cfg s)"
  have s1: "synced s1" using assms(2) by (simp add: s1_def inject_synced begin_turn_synced)
  obtain m s2 where m: "turn_response cfg s1 = (m, s2)" by (rule prod.exhaust)
  note s2 = turn_response_synced [OF m s1]
  obtain rs s3 where t: "run_tools cfg (lp_resume s1) m s2 = (rs, s3)" by (rule prod.exhaust)
  note s3 = run_tools_synced [OF t s2]
  show ?thesis
  proof (cases "am_stopReason m = StopError \<or> am_stopReason m = StopAborted")
    case True
    with assms(1) m s2 show ?thesis by (auto simp: run_turn_def s1_def [symmetric] end_run_def emit_def synced_def)
  next
    case False
    with assms(1) m t have "finish_turn cfg m rs s3 = (ended, s')" by (simp add: run_turn_def s1_def [symmetric])
    from finish_turn_keeps [OF this] s3 show ?thesis by (simp add: synced_def)
  qed
qed

lemma run_loop_synced:
  assumes "run_loop cfg s = Some r" and "synced s"
  shows "synced r"
  using assms
proof (rule run_loop_rule)
  show "synced (s\<lparr>lp_pendingMessages := ms, lp_pendingAreSteering := False, lp_hasMoreToolCalls := True, lp_run := st\<rparr>)"
    if "synced s" "takeFollowUps cfg (lp_run s) = (ms, st)" for s ms st
    using that(1) takeFollowUps_events [OF that(2)] by (simp add: synced_def)
  show "synced (end_run (s\<lparr>lp_run := st\<rparr>))" if "synced s" "takeFollowUps cfg (lp_run s) = ([], st)" for s st
    using that(1) takeFollowUps_events [OF that(2)] by (simp add: synced_def end_run_def emit_def)
qed (auto intro: run_turn_synced)

lemma runLoop_start:
  assumes "with_world (cfg_prepareInitialTurn cfg ctx) st = (u, st1)"
    and "(if resume \<noteq> None then ([], st1) else takeSteering cfg st1) = (ms, st2)"
  obtains s where "runLoop cfg ctx newMessages model reasoning resume st = run_loop cfg s" and "lp_newMessages s = newMessages"
    and "lp_pendingMessages s = ms" and "lp_run s = st2" and "lp_resume s = resume" and "lp_hasMoreToolCalls s"
    and "set (ctx_tools (lp_context s)) \<subseteq> set (ctx_tools ctx) \<union> update_tools u"
proof -
  let ?s = "apply_update u \<lparr>lp_context = ctx, lp_model = model, lp_reasoning = reasoning, lp_newMessages = newMessages,
    lp_pendingMessages = [], lp_pendingAreSteering = True, lp_hasMoreToolCalls = True, lp_lastCompletedTurn = None,
    lp_resume = resume, lp_run = st1\<rparr>"
  have "runLoop cfg ctx newMessages model reasoning resume st = run_loop cfg (?s\<lparr>lp_pendingMessages := ms, lp_run := st2\<rparr>)"
    using assms by (cases resume; cases u) (auto simp: runLoop_def Let_def apply_update_def)
  moreover have "set (ctx_tools (lp_context ?s)) \<subseteq> set (ctx_tools ctx) \<union> update_tools u"
    by (auto simp: apply_update_def update_tools_def split: option.splits)
  ultimately show thesis by (intro that [of "?s\<lparr>lp_pendingMessages := ms, lp_run := st2\<rparr>"]) simp_all
qed

lemma runLoop_synced:
  assumes "runLoop cfg ctx newMessages model reasoning resume st = Some s" and "ended_messages (snd st) = newMessages"
  shows "synced s"
proof -
  obtain u st1 where u: "with_world (cfg_prepareInitialTurn cfg ctx) st = (u, st1)" by (rule prod.exhaust)
  obtain ms st2 where ms: "(if resume \<noteq> None then ([], st1) else takeSteering cfg st1) = (ms, st2)" by (rule prod.exhaust)
  have "snd st2 = snd st"
    using with_world_events [OF u] ms by (auto dest: takeSteering_events split: if_splits)
  moreover obtain s0 where "runLoop cfg ctx newMessages model reasoning resume st = run_loop cfg s0"
      "lp_newMessages s0 = newMessages" "lp_run s0 = st2"
    by (rule runLoop_start [OF u ms])
  ultimately show ?thesis using assms run_loop_synced by (metis synced_def)
qed

lemma prompt_reports:
  assumes "runAgentLoop cfg prompts ctx model reasoning (w, []) = Some (newMessages, (w', events))"
  shows "ended_messages events = newMessages"
proof -
  obtain s where s: "runLoop cfg (ctx\<lparr>ctx_messages := ctx_messages ctx @ prompts\<rparr>) prompts model reasoning None
      (w, start_events @ concat (map message_events prompts)) = Some s" "newMessages = lp_newMessages s" "lp_run s = (w', events)"
    using assms by (auto simp: runAgentLoop_def emit_all_def)
  from runLoop_synced [OF s(1)] s(2,3) show ?thesis by (simp add: synced_def start_events_def)
qed

lemma start_reports:
  assumes "runLoop cfg ctx [] model reasoning resume (w, start_events) = Some s" "lp_run s = (w', events)"
  shows "ended_messages events = lp_newMessages s"
  using runLoop_synced [OF assms(1)] assms(2) by (simp add: synced_def start_events_def)

lemma continue_reports:
  "runAgentLoopContinue cfg ctx model reasoning (w, []) = Inr (Some (newMessages, (w', events))) \<Longrightarrow> ended_messages events = newMessages"
  by (auto simp: runAgentLoopContinue_def emit_all_def intro: start_reports split: if_splits)

lemma resume_reports:
  "runAgentLoopResume cfg ctx model reasoning (w, []) = Inr (Some (newMessages, (w', events))) \<Longrightarrow> ended_messages events = newMessages"
  by (auto simp: runAgentLoopResume_def emit_all_def intro: start_reports split: option.splits)

text \<open>What a run returns is what it reports.  The messages a run returns are those its \<^verbatim>\<open>message_end\<close>
  events report, in the same order: a listener that appends every reported message to its transcript, as the agent
  and the session do, ends up with the transcript of the loop.  This holds for new prompts, continuations and resumed
  batches.\<close>

theorem run_reports_messages:
  "(runAgentLoop cfg prompts ctx model reasoning (w, []) = Some (newMessages, (w', events)) \<longrightarrow> ended_messages events = newMessages) \<and>
   (runAgentLoopContinue cfg ctx model reasoning (w, []) = Inr (Some (newMessages, (w', events))) \<longrightarrow> ended_messages events = newMessages) \<and>
   (runAgentLoopResume cfg ctx model reasoning (w, []) = Inr (Some (newMessages, (w', events))) \<longrightarrow> ended_messages events = newMessages)"
  using prompt_reports continue_reports resume_reports by (intro conjI impI)

section \<open>No queued message is lost\<close>

text \<open>The messages the queues hold, as the world shows them: provider, hooks and tools may add to them, and only the two
  queue functions take from them, handing out what they take.\<close>

definition keeps_queued :: "'w loop_config \<Rightarrow> ('w \<Rightarrow> agent_message multiset) \<Rightarrow> 'w agent_tool set \<Rightarrow> bool" where
  "keeps_queued cfg queued tools =
     (hooks_respect cfg (\<lambda>w w'. queued w \<subseteq># queued w') tools \<and>
      (\<forall>w ms w'. cfg_getSteeringMessages cfg w = (ms, w') \<longrightarrow> queued w \<subseteq># mset ms + queued w') \<and>
      (\<forall>w ms w'. cfg_getFollowUpMessages cfg w = (ms, w') \<longrightarrow> queued w \<subseteq># mset ms + queued w'))"

abbreviation grows :: "('w \<Rightarrow> agent_message multiset) \<Rightarrow> 'w run \<Rightarrow> 'w run \<Rightarrow> bool" where
  "grows queued \<equiv> on_worlds (\<lambda>w w'. queued w \<subseteq># queued w')"

lemma keeps_queued_effects: "keeps_queued cfg queued tools \<Longrightarrow> turn_effects cfg (grows queued) tools"
  by (rule hooks_effects) (auto simp: keeps_queued_def intro: subset_mset.order_trans)

lemma take_queued:
  assumes "keeps_queued cfg queued tools"
  shows "takeSteering cfg st = (ms, st') \<Longrightarrow> queued (fst st) \<subseteq># mset ms + queued (fst st')"
    and "takeFollowUps cfg st = (ms, st') \<Longrightarrow> queued (fst st) \<subseteq># mset ms + queued (fst st')"
  using assms unfolding keeps_queued_def
  by (auto simp: takeSteering_def takeFollowUps_def take_messages_def with_world_def split: if_splits prod.splits)

text \<open>What a run has delivered, is about to deliver, or has left in the queues.\<close>

definition held :: "('w \<Rightarrow> agent_message multiset) \<Rightarrow> 'w loop_state \<Rightarrow> agent_message multiset" where
  "held queued s = mset (lp_newMessages s) + mset (lp_pendingMessages s) + queued (fst (lp_run s))"

lemma held_mono:
  "grows queued (lp_run s) (lp_run s') \<Longrightarrow> mset (lp_newMessages s) \<subseteq># mset (lp_newMessages s') \<Longrightarrow>
   lp_pendingMessages s' = lp_pendingMessages s \<Longrightarrow> held queued s \<subseteq># held queued s'"
  by (auto simp: held_def on_worlds_def intro: subset_mset.add_mono)

lemma begin_turn_held:
  assumes "keeps_queued cfg queued tools" and "known tools s"
  shows "held queued s \<subseteq># held queued (begin_turn cfg s) \<and> known tools (begin_turn cfg s)"
proof (cases "lp_lastCompletedTurn s")
  case (Some turn)
  obtain u w where u: "cfg_prepareNextTurn cfg turn (fst (lp_run s)) = (u, w)" by (rule prod.exhaust)
  define s1 where "s1 = apply_update u (s\<lparr>lp_run := (w, snd (lp_run s))\<rparr>)"
  have b: "queued (fst (lp_run s)) \<subseteq># queued w" "update_tools u \<subseteq> tools"
    using assms(1) u unfolding keeps_queued_def hooks_respect_def by auto
  have s1: "known tools s1" unfolding s1_def using assms(2) b(2) by (intro apply_update_known) simp_all
  obtain ms st2 where ms: "takeSteering cfg (lp_run s1) = (ms, st2)" by (rule prod.exhaust)
  define s2 where "s2 = (if lp_pendingMessages s1 = [] then s1\<lparr>lp_pendingMessages := ms, lp_run := st2\<rparr> else s1)"
  have turn: "begin_turn cfg s = s2\<lparr>lp_run := emit TurnStart (lp_run s2)\<rparr>"
    using Some u ms by (simp add: begin_turn_def with_world_def s1_def [symmetric] s2_def Let_def) (simp add: s1_def)
  have "held queued s \<subseteq># held queued s1"
    using b(1) by (simp add: held_def s1_def)
  also have "held queued s1 \<subseteq># held queued s2"
    using take_queued(1) [OF assms(1) ms] by (auto simp: held_def s2_def ac_simps)
  finally show ?thesis using s1 by (simp add: turn held_def emit_def s2_def)
qed (simp add: begin_turn_def assms(2))

lemma inject_held:
  assumes "keeps_queued cfg queued tools"
  shows "held queued s \<subseteq># held queued (inject_pending cfg s) \<and> lp_pendingMessages (inject_pending cfg s) = []"
proof (cases "lp_pendingMessages s = []")
  case False
  have "grows queued (lp_run s) (lp_run (inject_pending cfg s))"
    by (rule turn_effects.inject_rel [OF keeps_queued_effects [OF assms]])
  moreover obtain extras st1 where e: "(if lp_pendingAreSteering s
      then (case with_world (cfg_onSteeringBatch cfg (lp_pendingMessages s)) (lp_run s) of
              (Inr ms, st1) \<Rightarrow> (ms, st1) | (Inl _, st1) \<Rightarrow> ([], st1))
      else ([], lp_run s)) = (extras, st1)" by (rule prod.exhaust)
  then have "lp_newMessages (inject_pending cfg s) = lp_newMessages s @ lp_pendingMessages s @ extras"
      "lp_pendingMessages (inject_pending cfg s) = []"
    using False by (simp_all add: inject_pending_def add_messages_def Let_def)
  ultimately show ?thesis by (auto simp: held_def on_worlds_def intro: subset_mset.order_trans [OF _ mset_subset_eq_add_right])
qed (simp add: inject_pending_def)

lemma turn_response_held:
  assumes "keeps_queued cfg queued tools" and "turn_response cfg s = (m, s')" and "known tools s"
  shows "held queued s \<subseteq># held queued s' \<and> lp_pendingMessages s' = lp_pendingMessages s \<and> known tools s'"
proof -
  obtain qm qctx qst where q: "streamAssistantResponse cfg (lp_model s) (lp_reasoning s) (lp_context s) (lp_run s) = (qm, qctx, qst)"
    by (metis surj_pair)
  have "grows queued (lp_run s) qst" by (rule turn_effects.response_rel [OF keeps_queued_effects [OF assms(1)] q])
  moreover have "ctx_tools qctx = ctx_tools (lp_context s)"
    using q by (auto simp: streamAssistantResponse_def Let_def split: prod.splits)
  ultimately show ?thesis
    using assms(2,3) q by (auto simp: turn_response_def held_def on_worlds_def split: option.splits intro: subset_mset.add_mono)
qed

lemma run_tools_held:
  assumes "keeps_queued cfg queued tools" and "run_tools cfg resumed m s = (rs, s')" and "known tools s"
  shows "held queued s \<subseteq># held queued s' \<and> lp_pendingMessages s' = lp_pendingMessages s \<and> known tools s'"
proof -
  have "grows queued (lp_run s) (lp_run s')"
    by (rule turn_effects.run_tools_rel [OF keeps_queued_effects [OF assms(1)] assms(3,2)])
  moreover have "mset (lp_newMessages s) \<subseteq># mset (lp_newMessages s')" "lp_pendingMessages s' = lp_pendingMessages s" "known tools s'"
    using assms(2,3) by (auto simp: run_tools_def add_messages_def Let_def split: if_splits prod.splits)
  ultimately show ?thesis using held_mono by blast
qed

lemma finish_turn_held:
  assumes "keeps_queued cfg queued tools" and "finish_turn cfg m rs s = (ended, s')" and "lp_pendingMessages s = []"
  shows "held queued s \<subseteq># held queued s'"
proof -
  define turn where "turn = \<lparr>ct_message = m, ct_toolResults = rs, ct_context = lp_context s, ct_newMessages = lp_newMessages s\<rparr>"
  obtain stop st1 where stop: "with_world (cfg_shouldStopAfterTurn cfg turn) (emit (TurnEnd m rs) (lp_run s)) = (stop, st1)"
    by (rule prod.exhaust)
  obtain ms st2 where ms: "takeSteering cfg st1 = (ms, st2)" by (rule prod.exhaust)
  have "queued (fst (lp_run s)) \<subseteq># queued (fst st1)"
    using assms(1) stop by (auto simp: keeps_queued_def hooks_respect_def with_world_def emit_def split: prod.splits) (metis snd_conv)
  moreover have "queued (fst st1) \<subseteq># mset ms + queued (fst st2)" by (rule take_queued(1) [OF assms(1) ms])
  ultimately show ?thesis
    using assms(2,3) stop ms
    by (auto simp: finish_turn_def turn_def [symmetric] held_def end_run_def emit_def Let_def
        intro: subset_mset.order_trans split: if_splits)
qed

lemma run_turn_held:
  assumes "keeps_queued cfg queued tools" and "run_turn cfg s = (ended, s')" and "known tools s"
  shows "held queued s \<subseteq># held queued s'" and "known tools s'" and "ended \<Longrightarrow> lp_pendingMessages s' = []"
proof -
  define s1 where "s1 = inject_pending cfg (begin_turn cfg s)"
  have "held queued s \<subseteq># held queued (begin_turn cfg s)" "known tools (begin_turn cfg s)"
    using begin_turn_held [OF assms(1,3)] by auto
  with inject_held [OF assms(1), of "begin_turn cfg s"] have s1: "held queued s \<subseteq># held queued s1" "lp_pendingMessages s1 = []" "known tools s1"
    by (auto simp: s1_def inject_pending_keeps intro: subset_mset.order_trans)
  obtain m s2 where m: "turn_response cfg s1 = (m, s2)" by (rule prod.exhaust)
  note s2 = turn_response_held [OF assms(1) m s1(3)]
  then have k2: "known tools s2" by simp
  obtain rs s3 where t: "run_tools cfg (lp_resume s1) m s2 = (rs, s3)" by (rule prod.exhaust)
  note s3 = run_tools_held [OF assms(1) t k2]
  have "held queued s1 \<subseteq># held queued s' \<and> known tools s' \<and> (ended \<longrightarrow> lp_pendingMessages s' = [])"
  proof (cases "am_stopReason m = StopError \<or> am_stopReason m = StopAborted")
    case True
    with assms(2) m s1(2) s2 show ?thesis by (auto simp: run_turn_def s1_def [symmetric] end_run_def emit_def held_def)
  next
    case False
    with assms(2) m t have fin: "finish_turn cfg m rs s3 = (ended, s')" by (simp add: run_turn_def s1_def [symmetric])
    have "lp_pendingMessages s3 = []" using s1(2) s2 s3 by simp
    with finish_turn_held [OF assms(1) fin] finish_turn_keeps [OF fin] s2 s3 show ?thesis
      by (auto intro: subset_mset.order_trans)
  qed
  with s1(1) show "held queued s \<subseteq># held queued s'" "known tools s'" "ended \<Longrightarrow> lp_pendingMessages s' = []"
    by (auto intro: subset_mset.order_trans)
qed

lemma run_loop_held:
  assumes "keeps_queued cfg queued tools" and "run_loop cfg s = Some r" and "known tools s" and "ms \<subseteq># held queued s"
  shows "ms \<subseteq># mset (lp_newMessages r) + queued (fst (lp_run r))"
proof -
  have "ms \<subseteq># held queued r \<and> lp_pendingMessages r = []"
  proof (rule run_loop_rule [OF assms(2), where inva = "\<lambda>s. known tools s \<and> ms \<subseteq># held queued s"])
    show "known tools s \<and> ms \<subseteq># held queued s" using assms(3,4) by simp
    show "known tools s' \<and> ms \<subseteq># held queued s'"
      if "known tools s \<and> ms \<subseteq># held queued s" "run_turn cfg s = (False, s')" for s s'
      using that run_turn_held [OF assms(1) that(2)] by (auto intro: subset_mset.order_trans)
    show "ms \<subseteq># held queued s' \<and> lp_pendingMessages s' = []"
      if "known tools s \<and> ms \<subseteq># held queued s" "run_turn cfg s = (True, s')" for s s'
      using that run_turn_held [OF assms(1) that(2)] by (auto intro: subset_mset.order_trans)
    have follow: "held queued s \<subseteq># held queued (s\<lparr>lp_pendingMessages := ns, lp_run := st\<rparr>)"
      if "takeFollowUps cfg (lp_run s) = (ns, st)" "lp_pendingMessages s = []" for s ns st
      using take_queued(2) [OF assms(1) that(1)] that(2) by (simp add: held_def ac_simps)
    show "known tools (s\<lparr>lp_pendingMessages := ns, lp_pendingAreSteering := False, lp_hasMoreToolCalls := True, lp_run := st\<rparr>) \<and>
        ms \<subseteq># held queued (s\<lparr>lp_pendingMessages := ns, lp_pendingAreSteering := False, lp_hasMoreToolCalls := True, lp_run := st\<rparr>)"
      if "known tools s \<and> ms \<subseteq># held queued s" "takeFollowUps cfg (lp_run s) = (ns, st)"
        "\<not> (lp_hasMoreToolCalls s \<or> lp_pendingMessages s \<noteq> [])" for s ns st
      using that follow [OF that(2)] by (auto simp: held_def intro: subset_mset.order_trans)
    show "ms \<subseteq># held queued (end_run (s\<lparr>lp_run := st\<rparr>)) \<and> lp_pendingMessages (end_run (s\<lparr>lp_run := st\<rparr>)) = []"
      if "known tools s \<and> ms \<subseteq># held queued s" "takeFollowUps cfg (lp_run s) = ([], st)"
        "\<not> (lp_hasMoreToolCalls s \<or> lp_pendingMessages s \<noteq> [])" for s st
      using that follow [OF that(2)] by (auto simp: held_def end_run_def emit_def intro: subset_mset.order_trans)
  qed
  then show ?thesis by (auto simp: held_def)
qed

lemma runLoop_held:
  assumes "keeps_queued cfg queued tools" and "set (ctx_tools ctx) \<subseteq> tools"
    and "runLoop cfg ctx newMessages model reasoning resume st = Some s"
  shows "mset newMessages + queued (fst st) \<subseteq># mset (lp_newMessages s) + queued (fst (lp_run s))"
proof -
  obtain u st1 where u: "with_world (cfg_prepareInitialTurn cfg ctx) st = (u, st1)" by (rule prod.exhaust)
  obtain ms st2 where ms: "(if resume \<noteq> None then ([], st1) else takeSteering cfg st1) = (ms, st2)" by (rule prod.exhaust)
  have u': "queued (fst st) \<subseteq># queued (fst st1)" "update_tools u \<subseteq> tools"
    using assms(1) u by (auto simp: keeps_queued_def hooks_respect_def with_world_def split: prod.splits)
  have "queued (fst st1) \<subseteq># mset ms + queued (fst st2)"
    using ms take_queued(1) [OF assms(1), of st1 ms st2] by (auto split: if_splits)
  with u'(1) have start: "queued (fst st) \<subseteq># mset ms + queued (fst st2)" by (rule subset_mset.order_trans)
  obtain s0 where s0: "runLoop cfg ctx newMessages model reasoning resume st = run_loop cfg s0" "lp_pendingMessages s0 = ms"
      "lp_run s0 = st2" "lp_newMessages s0 = newMessages" "set (ctx_tools (lp_context s0)) \<subseteq> set (ctx_tools ctx) \<union> update_tools u"
    by (rule runLoop_start [OF u ms])
  show ?thesis
  proof (rule run_loop_held [OF assms(1)])
    show "run_loop cfg s0 = Some s" using assms(3) s0(1) by simp
    show "known tools s0" using s0(5) assms(2) u'(2) by blast
    show "mset newMessages + queued (fst st) \<subseteq># held queued s0"
      using start s0(2-4) by (simp add: held_def add.assoc)
  qed
qed

text \<open>No message is lost between the queues and the messages of a run, whether the run completes, fails, is aborted or is
  stopped by a hook.\<close>

lemma prompts_and_queued_not_lost:
  assumes "keeps_queued cfg queued tools" and "set (ctx_tools ctx) \<subseteq> tools"
    and "runAgentLoop cfg prompts ctx model reasoning st = Some (newMessages, st')"
  shows "mset prompts + queued (fst st) \<subseteq># mset newMessages + queued (fst st')"
proof -
  let ?ctx = "ctx\<lparr>ctx_messages := ctx_messages ctx @ prompts\<rparr>"
  let ?st = "emit_all (start_events @ concat (map message_events prompts)) st"
  obtain s where "runLoop cfg ?ctx prompts model reasoning None ?st = Some s" "newMessages = lp_newMessages s" "st' = lp_run s"
    using assms(3) by (auto simp: runAgentLoop_def)
  with runLoop_held [OF assms(1), of ?ctx prompts model reasoning None ?st s] assms(2) show ?thesis
    by (simp add: emit_all_def)
qed

lemma queued_not_lost:
  assumes "keeps_queued cfg queued tools" and "set (ctx_tools ctx) \<subseteq> tools"
    and "runAgentLoopContinue cfg ctx model reasoning st = Inr (Some (newMessages, st')) \<or>
      runAgentLoopResume cfg ctx model reasoning st = Inr (Some (newMessages, st'))"
  shows "queued (fst st) \<subseteq># mset newMessages + queued (fst st')"
proof -
  from assms(3) obtain resume s where "runLoop cfg ctx [] model reasoning resume (emit_all start_events st) = Some s"
      "newMessages = lp_newMessages s" "st' = lp_run s"
    by (auto simp: runAgentLoopContinue_def runAgentLoopResume_def split: if_splits option.splits)
  with runLoop_held [OF assms(1,2), of "[]" model reasoning resume "emit_all start_events st" s] show ?thesis
    by (simp add: emit_all_def)
qed

theorem run_reports_messages_witness:
  "\<exists>events. runAgentLoop echo_config [OtherMessage ''note'' JNull] echo_context echo_model None (1, []) = Some (echo_messages, (0, events)) \<and>
     ended_messages events = echo_messages"
proof -
  obtain events where run: "runAgentLoop echo_config [OtherMessage ''note'' JNull] echo_context echo_model None (1, []) =
      Some (echo_messages, (0, events))" using echo_run by blast
  with run_reports_messages [of echo_config "[OtherMessage ''note'' JNull]" echo_context echo_model None 1 echo_messages 0 events]
  show ?thesis by blast
qed

end
