(* ===== verification/Agent.thy ===== *)
theory Agent
  imports Agent_Delivery
begin

text \<open>
  The agent, \<^verbatim>\<open>packages/agent/src/agent.ts\<close>: its message queues, its state and how events change it, the
  configuration it gives the loop, and the life of a run.  The queues, the abort flag and whatever else hooks and tools
  can reach are the world of the loop; listeners observe events, and what they do to the queues counts as done
  by the next hook.  The state of the agent takes the events of a run in their order.
\<close>

section \<open>Message queues\<close>

datatype queue_mode = All | OneAtATime

record pending_queue_rec =
  mq_messages :: "agent_message list"
  mq_mode :: queue_mode

definition new_queue :: "queue_mode \<Rightarrow> pending_queue_rec" where
  "new_queue mode = \<lparr>mq_messages = [], mq_mode = mode\<rparr>"

definition enqueue :: "agent_message \<Rightarrow> pending_queue_rec \<Rightarrow> pending_queue_rec" where
  "enqueue m q = q\<lparr>mq_messages := mq_messages q @ [m]\<rparr>"

definition hasItems :: "pending_queue_rec \<Rightarrow> bool" where
  "hasItems q = (length (mq_messages q) > 0)"

definition drain :: "pending_queue_rec \<Rightarrow> agent_message list \<times> pending_queue_rec" where
  "drain q =
     (if mq_mode q = All then (mq_messages q, q\<lparr>mq_messages := []\<rparr>)
      else (case mq_messages q of
              [] \<Rightarrow> ([], q)
            | first # rest \<Rightarrow> ([first], q\<lparr>mq_messages := rest\<rparr>)))"

definition clear_queue :: "pending_queue_rec \<Rightarrow> pending_queue_rec" where
  "clear_queue q = q\<lparr>mq_messages := []\<rparr>"

text \<open>The contract of a queue: the messages it holds, in order; a drain takes some of the first ones, and at least one if
  there is one.\<close>

locale fifo_queue =
  fixes contents :: "'q \<Rightarrow> 'm list" and put :: "'m \<Rightarrow> 'q \<Rightarrow> 'q" and take_some :: "'q \<Rightarrow> 'm list \<times> 'q" and nonempty :: "'q \<Rightarrow> bool"
  assumes contents_put: "contents (put m q) = contents q @ [m]"
    and contents_take: "take_some q = (ms, q') \<Longrightarrow> contents q = ms @ contents q'"
    and take_progress: "take_some q = ([], q') \<Longrightarrow> contents q = []"
    and nonempty_iff: "nonempty q \<longleftrightarrow> contents q \<noteq> []"
begin

text \<open>A history of a queue: messages put, and drains (\<open>None\<close>).\<close>

fun history :: "'m option list \<Rightarrow> 'q \<Rightarrow> 'm list \<times> 'q" where
  "history [] q = ([], q)"
| "history (Some m # ops) q = history ops (put m q)"
| "history (None # ops) q =
     (let (ms, q1) = take_some q; (ns, q2) = history ops q1 in (ms @ ns, q2))"

lemma history_fifo: "history ops q = (delivered, q') \<Longrightarrow> contents q @ List.map_filter (\<lambda>m. m) ops = delivered @ contents q'"
proof (induction ops q arbitrary: delivered q' rule: history.induct)
  case (2 m ops q)
  then show ?case by (simp add: contents_put List.map_filter_simps)
next
  case (3 ops q)
  obtain ms q1 where t: "take_some q = (ms, q1)" by (rule prod.exhaust)
  obtain ns q2 where h: "history ops q1 = (ns, q2)" by (rule prod.exhaust)
  from 3 t h have "contents q1 @ List.map_filter (\<lambda>m. m) ops = ns @ contents q2" by auto
  with 3 t h contents_take [OF t] show ?case by (auto simp: List.map_filter_simps)
qed (simp add: List.map_filter_simps)

lemma drained_when_empty: "nonempty q = False \<Longrightarrow> take_some q = (ms, q') \<Longrightarrow> ms = [] \<and> contents q' = []"
  using contents_take nonempty_iff by fastforce

lemma drains_end: "length (contents q) \<le> n \<Longrightarrow> history (replicate n None) q = (ms, q') \<Longrightarrow> ms = contents q \<and> contents q' = []"
proof (induction n arbitrary: q ms q')
  case (Suc n)
  obtain ns q1 where t: "take_some q = (ns, q1)" by (rule prod.exhaust)
  obtain ks q2 where h: "history (replicate n None) q1 = (ks, q2)" by (rule prod.exhaust)
  have split: "contents q = ns @ contents q1" by (rule contents_take [OF t])
  have "length (contents q1) \<le> n"
  proof (cases ns)
    case Nil
    with t take_progress [of q q1] split show ?thesis by simp
  next
    case (Cons n' ns')
    with split Suc.prems(1) show ?thesis by simp
  qed
  from Suc.IH [OF this h] Suc.prems(2) t h split show ?case by simp
qed simp

end

interpretation pq: fifo_queue mq_messages enqueue drain hasItems
  by unfold_locales (auto simp: enqueue_def drain_def hasItems_def split: if_splits list.splits)

text \<open>The queues are first in, first out.  Over any sequence of queued messages and drains, in either mode and
  with the mode left alone, what was delivered followed by what is left is what was there followed by what was queued;
  as many drains as there are messages deliver all of them.\<close>

theorem queue_first_in_first_out:
  "(pq.history ops q = (delivered, q') \<longrightarrow> mq_messages q @ List.map_filter (\<lambda>m. m) ops = delivered @ mq_messages q') \<and>
   (pq.history (replicate (length (mq_messages q)) None) q = (drained, q'') \<longrightarrow> drained = mq_messages q \<and> \<not> hasItems q'')"
  using pq.history_fifo [of ops q delivered q'] pq.drains_end [of q "length (mq_messages q)" drained q'']
  by (auto simp: hasItems_def)

section \<open>The state of the agent\<close>

text \<open>What the loop and its hooks can change: the queues, the closure variable that skips the first poll, the abort flag and
  the rest.\<close>

record 'x agent_world =
  aw_steering :: pending_queue_rec
  aw_followUp :: pending_queue_rec
  aw_skip :: bool
  aw_aborted :: bool
  aw_ext :: 'x

record 'x agent_hooks =
  ah_convertToLlm :: "agent_message list \<Rightarrow> agent_message list"
  ah_transformContext :: "agent_message list \<Rightarrow> 'x agent_world \<Rightarrow> agent_message list \<times> 'x agent_world"
  ah_suppressAssistantText :: bool
  ah_streamFunction ::
    "loop_model \<Rightarrow> string option \<Rightarrow> 'x agent_world agent_context \<Rightarrow> 'x agent_world \<Rightarrow>
     stream_event list \<times> assistant_message \<times> 'x agent_world"
  ah_beforeToolCall ::
    "assistant_message \<Rightarrow> tool_call \<Rightarrow> json \<Rightarrow> 'x agent_world agent_context \<Rightarrow> 'x agent_world \<Rightarrow>
     (string + before_tool_call_result option) \<times> 'x agent_world"
  ah_afterToolCall ::
    "assistant_message \<Rightarrow> tool_call \<Rightarrow> json \<Rightarrow> agent_tool_result \<Rightarrow> bool \<Rightarrow> 'x agent_world agent_context \<Rightarrow> 'x agent_world \<Rightarrow>
     (string + after_tool_call_result option) \<times> 'x agent_world"
  ah_resolveToolAvailability ::
    "string \<Rightarrow> 'x agent_world agent_context \<Rightarrow> 'x agent_world \<Rightarrow> (string + string option) \<times> 'x agent_world"
  ah_onToolBatchCompleted ::
    "tool_result_message list \<Rightarrow> 'x agent_world agent_context \<Rightarrow> 'x agent_world \<Rightarrow> 'x agent_world"
  ah_shouldStopAfterTurn :: "'x agent_world completed_turn \<Rightarrow> 'x agent_world \<Rightarrow> bool \<times> 'x agent_world"
  ah_prepareNextTurn :: "('x agent_world \<Rightarrow> 'x agent_world turn_update option \<times> 'x agent_world) option"
  ah_prepareNextTurnWithContext ::
    "('x agent_world completed_turn \<Rightarrow> 'x agent_world \<Rightarrow> 'x agent_world turn_update option \<times> 'x agent_world) option"
  ah_prepareInitialTurnWithContext ::
    "'x agent_world agent_context \<Rightarrow> 'x agent_world \<Rightarrow> 'x agent_world turn_update option \<times> 'x agent_world"
  ah_onSteeringBatch :: "agent_message list \<Rightarrow> 'x agent_world \<Rightarrow> (string + agent_message list) \<times> 'x agent_world"
  ah_toolExecution :: execution_mode
  ah_now :: "'x agent_world \<Rightarrow> nat"
  ah_schedule :: "nat \<Rightarrow> 'x agent_world \<Rightarrow> nat list"

text \<open>\<open>ag_activeRun\<close> is the abort flag of the active run.\<close>

record 'x agent =
  ag_systemPrompt :: string
  ag_model :: loop_model
  ag_thinkingLevel :: string
  ag_tools :: "'x agent_world agent_tool list"
  ag_messages :: "agent_message list"
  ag_isStreaming :: bool
  ag_streamingMessage :: "agent_message option"
  ag_pendingToolCalls :: "string set"
  ag_errorMessage :: "string option"
  ag_steeringQueue :: pending_queue_rec
  ag_followUpQueue :: pending_queue_rec
  ag_activeRun :: "bool option"
  ag_ext :: 'x

datatype agent_error =
    AlreadyProcessing
  | NoMessagesToContinue
  | CannotContinueFromAssistant
  | ListenerOutsideRun

definition defaultConvertToLlm :: "agent_message list \<Rightarrow> agent_message list" where
  "defaultConvertToLlm messages =
     filter (\<lambda>m. message_role m = ''user'' \<or> message_role m = ''assistant'' \<or> message_role m = ''toolResult'') messages"

definition EMPTY_USAGE :: usage where
  "EMPTY_USAGE = \<lparr>usage_input = 0, usage_output = 0, usage_cacheRead = 0, usage_cacheWrite = 0, usage_cacheWrite1h = None,
     usage_reasoning = None, usage_totalTokens = 0,
     usage_cost = \<lparr>cost_input = 0, cost_output = 0, cost_cacheRead = 0, cost_cacheWrite = 0, cost_total = 0\<rparr>\<rparr>"

definition DEFAULT_MODEL :: loop_model where
  "DEFAULT_MODEL = \<lparr>lm_id = ''unknown'', lm_api = ''unknown'', lm_provider = ''unknown''\<rparr>"

record 'x initial_state =
  in_systemPrompt :: "string option"
  in_model :: "loop_model option"
  in_thinkingLevel :: "string option"
  in_tools :: "'x agent_world agent_tool list option"
  in_messages :: "agent_message list option"

definition with_default :: "'a \<Rightarrow> 'a option \<Rightarrow> 'a" where
  "with_default d x = (case x of Some a \<Rightarrow> a | None \<Rightarrow> d)"

definition new_agent :: "'x initial_state \<Rightarrow> queue_mode option \<Rightarrow> queue_mode option \<Rightarrow> 'x \<Rightarrow> 'x agent" where
  "new_agent i steeringMode followUpMode ext =
     \<lparr>ag_systemPrompt = with_default [] (in_systemPrompt i), ag_model = with_default DEFAULT_MODEL (in_model i),
      ag_thinkingLevel = with_default ''off'' (in_thinkingLevel i), ag_tools = with_default [] (in_tools i),
      ag_messages = with_default [] (in_messages i), ag_isStreaming = False, ag_streamingMessage = None,
      ag_pendingToolCalls = {}, ag_errorMessage = None,
      ag_steeringQueue = new_queue (with_default OneAtATime steeringMode),
      ag_followUpQueue = new_queue (with_default OneAtATime followUpMode), ag_activeRun = None, ag_ext = ext\<rparr>"

section \<open>Queues and control\<close>

definition set_steeringMode :: "queue_mode \<Rightarrow> 'x agent \<Rightarrow> 'x agent" where
  "set_steeringMode mode a = a\<lparr>ag_steeringQueue := (ag_steeringQueue a)\<lparr>mq_mode := mode\<rparr>\<rparr>"

definition set_followUpMode :: "queue_mode \<Rightarrow> 'x agent \<Rightarrow> 'x agent" where
  "set_followUpMode mode a = a\<lparr>ag_followUpQueue := (ag_followUpQueue a)\<lparr>mq_mode := mode\<rparr>\<rparr>"

definition steer :: "agent_message \<Rightarrow> 'x agent \<Rightarrow> 'x agent" where
  "steer m a = a\<lparr>ag_steeringQueue := enqueue m (ag_steeringQueue a)\<rparr>"

definition followUp :: "agent_message \<Rightarrow> 'x agent \<Rightarrow> 'x agent" where
  "followUp m a = a\<lparr>ag_followUpQueue := enqueue m (ag_followUpQueue a)\<rparr>"

definition clearSteeringQueue :: "'x agent \<Rightarrow> 'x agent" where
  "clearSteeringQueue a = a\<lparr>ag_steeringQueue := clear_queue (ag_steeringQueue a)\<rparr>"

definition clearFollowUpQueue :: "'x agent \<Rightarrow> 'x agent" where
  "clearFollowUpQueue a = a\<lparr>ag_followUpQueue := clear_queue (ag_followUpQueue a)\<rparr>"

definition clearAllQueues :: "'x agent \<Rightarrow> 'x agent" where
  "clearAllQueues a = clearFollowUpQueue (clearSteeringQueue a)"

definition hasQueuedMessages :: "'x agent \<Rightarrow> bool" where
  "hasQueuedMessages a = (hasItems (ag_steeringQueue a) \<or> hasItems (ag_followUpQueue a))"

definition abort_agent :: "'x agent \<Rightarrow> 'x agent" where
  "abort_agent a = a\<lparr>ag_activeRun := map_option (\<lambda>_. True) (ag_activeRun a)\<rparr>"

definition reset_agent :: "'x agent \<Rightarrow> agent_error + 'x agent" where
  "reset_agent a =
     (if ag_activeRun a \<noteq> None then Inl AlreadyProcessing
      else Inr (clearSteeringQueue (clearFollowUpQueue
             (a\<lparr>ag_messages := [], ag_isStreaming := False, ag_streamingMessage := None, ag_pendingToolCalls := {},
                ag_errorMessage := None\<rparr>))))"

section \<open>Events\<close>

definition reduce_event :: "agent_event \<Rightarrow> 'x agent \<Rightarrow> 'x agent" where
  "reduce_event e a =
     (case e of
        MessageStart m \<Rightarrow> a\<lparr>ag_streamingMessage := Some m\<rparr>
      | MessageUpdate m \<Rightarrow> a\<lparr>ag_streamingMessage := Some m\<rparr>
      | MessageEnd m \<Rightarrow> a\<lparr>ag_streamingMessage := None, ag_messages := ag_messages a @ [m]\<rparr>
      | ToolExecutionStart i _ _ _ \<Rightarrow> a\<lparr>ag_pendingToolCalls := insert i (ag_pendingToolCalls a)\<rparr>
      | ToolExecutionEnd i _ _ _ _ \<Rightarrow> a\<lparr>ag_pendingToolCalls := ag_pendingToolCalls a - {i}\<rparr>
      | TurnEnd m _ \<Rightarrow> (case am_errorMessage m of
            Some text \<Rightarrow> if text \<noteq> [] then a\<lparr>ag_errorMessage := Some text\<rparr> else a
          | None \<Rightarrow> a)
      | AgentEnd _ \<Rightarrow> a\<lparr>ag_streamingMessage := None\<rparr>
      | _ \<Rightarrow> a)"

definition processEvents :: "agent_event \<Rightarrow> 'x agent \<Rightarrow> (agent_error + unit) \<times> 'x agent" where
  "processEvents e a =
     (let a' = reduce_event e a
      in (if ag_activeRun a' = None then Inl ListenerOutsideRun else Inr (), a'))"

section \<open>Runs\<close>

definition createContextSnapshot :: "'x agent \<Rightarrow> 'x agent_world agent_context" where
  "createContextSnapshot a =
     \<lparr>ctx_systemPrompt = ag_systemPrompt a, ctx_messages = ag_messages a, ctx_tools = ag_tools a\<rparr>"

definition getSteeringMessages :: "'x agent_world \<Rightarrow> agent_message list \<times> 'x agent_world" where
  "getSteeringMessages w =
     (if aw_skip w then ([], w\<lparr>aw_skip := False\<rparr>)
      else let (ms, q) = drain (aw_steering w) in (ms, w\<lparr>aw_steering := q\<rparr>))"

definition getFollowUpMessages :: "'x agent_world \<Rightarrow> agent_message list \<times> 'x agent_world" where
  "getFollowUpMessages w = (let (ms, q) = drain (aw_followUp w) in (ms, w\<lparr>aw_followUp := q\<rparr>))"

definition prepare_next :: "'x agent_hooks \<Rightarrow> 'x agent_world completed_turn \<Rightarrow> 'x agent_world \<Rightarrow>
    'x agent_world turn_update option \<times> 'x agent_world" where
  "prepare_next h turn w =
     (case ah_prepareNextTurnWithContext h of
        Some f \<Rightarrow> f turn w
      | None \<Rightarrow> (case ah_prepareNextTurn h of Some f \<Rightarrow> f w | None \<Rightarrow> (None, w)))"

definition createLoopConfig :: "'x agent_hooks \<Rightarrow> 'x agent_world loop_config" where
  "createLoopConfig h =
     \<lparr>cfg_aborted = aw_aborted, cfg_now = ah_now h, cfg_toolExecution = ah_toolExecution h,
      cfg_suppressAssistantText = ah_suppressAssistantText h, cfg_transformContext = ah_transformContext h,
      cfg_convertToLlm = ah_convertToLlm h, cfg_stream = ah_streamFunction h,
      cfg_prepareInitialTurn = ah_prepareInitialTurnWithContext h, cfg_prepareNextTurn = prepare_next h,
      cfg_shouldStopAfterTurn = ah_shouldStopAfterTurn h, cfg_getSteeringMessages = getSteeringMessages,
      cfg_getFollowUpMessages = getFollowUpMessages, cfg_onSteeringBatch = ah_onSteeringBatch h,
      cfg_beforeToolCall = ah_beforeToolCall h, cfg_afterToolCall = ah_afterToolCall h,
      cfg_resolveToolAvailability = ah_resolveToolAvailability h, cfg_onToolBatchCompleted = ah_onToolBatchCompleted h,
      cfg_schedule = ah_schedule h\<rparr>"

definition loop_reasoning :: "'x agent \<Rightarrow> string option" where
  "loop_reasoning a = (if ag_thinkingLevel a = ''off'' then None else Some (ag_thinkingLevel a))"

definition handleRunFailure :: "nat \<Rightarrow> string \<Rightarrow> bool \<Rightarrow> 'x agent \<Rightarrow> 'x agent" where
  "handleRunFailure now text aborted a =
     (let failureMessage =
        \<lparr>am_content = [AssistantText \<lparr>tc_text = [], tc_textSignature = None\<rparr>], am_api = lm_api (ag_model a),
         am_provider = lm_provider (ag_model a), am_model = lm_id (ag_model a), am_responseModel = None, am_responseId = None,
         am_diagnostics = None, am_usage = EMPTY_USAGE, am_stopReason = (if aborted then StopAborted else StopError),
         am_deferred = None, am_errorMessage = Some text, am_rawStopReason = None, am_endTurn = None, am_timestamp = now\<rparr>
      in fold reduce_event
           [MessageStart (AssistantMessage failureMessage), MessageEnd (AssistantMessage failureMessage),
            TurnEnd failureMessage [], AgentEnd [AssistantMessage failureMessage]] a)"

definition finishRun :: "'x agent \<Rightarrow> 'x agent" where
  "finishRun a =
     a\<lparr>ag_isStreaming := False, ag_streamingMessage := None, ag_pendingToolCalls := {}, ag_activeRun := None\<rparr>"

definition start_run :: "'x agent \<Rightarrow> 'x agent" where
  "start_run a = a\<lparr>ag_activeRun := Some False, ag_isStreaming := True, ag_streamingMessage := None, ag_errorMessage := None\<rparr>"

text \<open>The executor changes the agent and may throw, with the text of the error; \<open>None\<close> is one that never settles.\<close>

definition runWithLifecycle ::
    "nat \<Rightarrow> ('x agent \<Rightarrow> ((string + unit) \<times> 'x agent) option) \<Rightarrow> 'x agent \<Rightarrow> agent_error + 'x agent option" where
  "runWithLifecycle now executor a =
     (if ag_activeRun a \<noteq> None then Inl AlreadyProcessing
      else Inr (case executor (start_run a) of
                  None \<Rightarrow> None
                | Some (Inr _, a') \<Rightarrow> Some (finishRun a')
                | Some (Inl text, a') \<Rightarrow> Some (finishRun (handleRunFailure now text (ag_activeRun a' = Some True) a'))))"

text \<open>The world a run starts in, and the agent after the events of the run.\<close>

definition run_world :: "bool \<Rightarrow> 'x agent \<Rightarrow> 'x agent_world" where
  "run_world skip a =
     \<lparr>aw_steering = ag_steeringQueue a, aw_followUp = ag_followUpQueue a, aw_skip = skip,
      aw_aborted = (ag_activeRun a = Some True), aw_ext = ag_ext a\<rparr>"

definition take_run :: "'x agent_world \<Rightarrow> agent_event list \<Rightarrow> 'x agent \<Rightarrow> 'x agent" where
  "take_run w events a =
     fold reduce_event events
       (a\<lparr>ag_steeringQueue := aw_steering w, ag_followUpQueue := aw_followUp w, ag_ext := aw_ext w,
          ag_activeRun := Some (aw_aborted w)\<rparr>)"

fun loop_error_text :: "loop_error \<Rightarrow> string" where
  "loop_error_text NoMessages = ''Cannot continue: no messages in context''"
| "loop_error_text LastIsAssistant = ''Cannot continue from message role: assistant''"
| "loop_error_text NoPendingToolCalls = ''Cannot resume: no pending tool calls''"

definition settle_run ::
    "loop_error + (agent_message list \<times> 'x agent_world run) option \<Rightarrow> 'x agent \<Rightarrow> ((string + unit) \<times> 'x agent) option" where
  "settle_run outcome a =
     (case outcome of
        Inl e \<Rightarrow> Some (Inl (loop_error_text e), a)
      | Inr None \<Rightarrow> None
      | Inr (Some (_, (w, events))) \<Rightarrow> Some (Inr (), take_run w events a))"

definition runPromptMessages ::
    "'x agent_hooks \<Rightarrow> nat \<Rightarrow> agent_message list \<Rightarrow> bool \<Rightarrow> 'x agent \<Rightarrow> agent_error + 'x agent option" where
  "runPromptMessages h now messages skipInitialSteeringPoll a =
     runWithLifecycle now (\<lambda>a. settle_run (Inr (runAgentLoop (createLoopConfig h) messages (createContextSnapshot a)
       (ag_model a) (loop_reasoning a) (run_world skipInitialSteeringPoll a, []))) a) a"

definition runContinuation :: "'x agent_hooks \<Rightarrow> nat \<Rightarrow> 'x agent \<Rightarrow> agent_error + 'x agent option" where
  "runContinuation h now a =
     runWithLifecycle now (\<lambda>a. settle_run (runAgentLoopContinue (createLoopConfig h) (createContextSnapshot a)
       (ag_model a) (loop_reasoning a) (run_world False a, [])) a) a"

datatype prompt_input = PromptText string "image_content list" | PromptMessages "agent_message list"

definition normalizePromptInput :: "nat \<Rightarrow> prompt_input \<Rightarrow> agent_message list" where
  "normalizePromptInput now input =
     (case input of
        PromptMessages ms \<Rightarrow> ms
      | PromptText text images \<Rightarrow>
          [UserMessage (ContentBlocks (TextBlock \<lparr>tc_text = text, tc_textSignature = None\<rparr> # map ImageBlock images)) now])"

definition prompt :: "'x agent_hooks \<Rightarrow> nat \<Rightarrow> prompt_input \<Rightarrow> 'x agent \<Rightarrow> agent_error + 'x agent option" where
  "prompt h now input a =
     (if ag_activeRun a \<noteq> None then Inl AlreadyProcessing
      else runPromptMessages h now (normalizePromptInput now input) False a)"

definition getPendingToolCalls :: "'x agent \<Rightarrow> (assistant_message \<times> tool_call list) option" where
  "getPendingToolCalls a = findPendingToolCalls (ag_messages a)"

definition resumePendingToolCalls :: "'x agent_hooks \<Rightarrow> nat \<Rightarrow> 'x agent \<Rightarrow> agent_error + (bool \<times> 'x agent) option" where
  "resumePendingToolCalls h now a =
     (if ag_activeRun a \<noteq> None then Inl AlreadyProcessing
      else if getPendingToolCalls a = None then Inr (Some (False, a))
      else map_sum id (map_option (Pair True))
        (runWithLifecycle now (\<lambda>a. settle_run (runAgentLoopResume (createLoopConfig h) (createContextSnapshot a)
           (ag_model a) (loop_reasoning a) (run_world False a, [])) a) a))"

text \<open>The drained steering messages with what the hook adds, and the agent while \<^verbatim>\<open>continue\<close> awaits the hook.\<close>

definition steering_prompts :: "'x agent_hooks \<Rightarrow> agent_message list \<Rightarrow> 'x agent \<Rightarrow> agent_message list \<times> 'x agent" where
  "steering_prompts h batch a =
     (let (extras, w) = ah_onSteeringBatch h batch (run_world False a)
      in (case extras of Inr ms \<Rightarrow> batch @ ms | Inl _ \<Rightarrow> batch,
          a\<lparr>ag_steeringQueue := aw_steering w, ag_followUpQueue := aw_followUp w, ag_ext := aw_ext w\<rparr>))"

text \<open>\<open>meanwhile\<close> is what other code does to the agent during this wait.\<close>

definition continue_agent ::
    "'x agent_hooks \<Rightarrow> nat \<Rightarrow> ('x agent \<Rightarrow> 'x agent) \<Rightarrow> 'x agent \<Rightarrow> agent_error + 'x agent option" where
  "continue_agent h now meanwhile a =
     (if ag_activeRun a \<noteq> None then Inl AlreadyProcessing
      else if ag_messages a = [] then Inl NoMessagesToContinue
      else if is_assistant (last (ag_messages a)) then
        (case drain (ag_steeringQueue a) of
           (batch, q) \<Rightarrow>
             if batch \<noteq> [] then
               (case steering_prompts h batch (a\<lparr>ag_steeringQueue := q\<rparr>) of
                  (prompts, a1) \<Rightarrow> runPromptMessages h now prompts True (meanwhile a1))
             else
               (case drain (ag_followUpQueue a) of
                  (queued, q') \<Rightarrow>
                    if queued \<noteq> [] then runPromptMessages h now queued False (a\<lparr>ag_steeringQueue := q, ag_followUpQueue := q'\<rparr>)
                    else Inl CannotContinueFromAssistant))
      else runContinuation h now a)"

section \<open>Events and the transcript\<close>

lemma reduce_event_keeps [simp]:
  "ag_steeringQueue (reduce_event e a) = ag_steeringQueue a" "ag_followUpQueue (reduce_event e a) = ag_followUpQueue a"
  "ag_activeRun (reduce_event e a) = ag_activeRun a" "ag_isStreaming (reduce_event e a) = ag_isStreaming a"
  "ag_tools (reduce_event e a) = ag_tools a" "ag_ext (reduce_event e a) = ag_ext a" "ag_model (reduce_event e a) = ag_model a"
  by (cases e; simp add: reduce_event_def split: option.split)+

lemma reduce_events_keep [simp]:
  "ag_steeringQueue (fold reduce_event es a) = ag_steeringQueue a" "ag_followUpQueue (fold reduce_event es a) = ag_followUpQueue a"
  "ag_activeRun (fold reduce_event es a) = ag_activeRun a" "ag_tools (fold reduce_event es a) = ag_tools a"
  "ag_ext (fold reduce_event es a) = ag_ext a" "ag_model (fold reduce_event es a) = ag_model a"
  by (induction es arbitrary: a) simp_all

lemma reduce_event_messages: "ag_messages (reduce_event e a) = ag_messages a @ ended_messages [e]"
  by (cases e) (simp_all add: reduce_event_def split: option.split)

lemma reduce_events_messages: "ag_messages (fold reduce_event es a) = ag_messages a @ ended_messages es"
proof (induction es arbitrary: a)
  case (Cons e es)
  have "ended_messages (e # es) = ended_messages [e] @ ended_messages es" by (metis append_Cons append_Nil ended_simps(2))
  with Cons show ?case by (simp add: reduce_event_messages)
qed simp

lemma take_run_simps [simp]:
  "ag_messages (take_run w events a) = ag_messages a @ ended_messages events"
  "ag_steeringQueue (take_run w events a) = aw_steering w" "ag_followUpQueue (take_run w events a) = aw_followUp w"
  "ag_activeRun (take_run w events a) = Some (aw_aborted w)" "ag_tools (take_run w events a) = ag_tools a"
  by (simp_all add: take_run_def reduce_events_messages)

lemma finishRun_simps [simp]:
  "ag_messages (finishRun a) = ag_messages a" "ag_steeringQueue (finishRun a) = ag_steeringQueue a"
  "ag_followUpQueue (finishRun a) = ag_followUpQueue a" "ag_tools (finishRun a) = ag_tools a"
  "ag_errorMessage (finishRun a) = ag_errorMessage a"
  by (simp_all add: finishRun_def)

lemma start_run_simps [simp]:
  "ag_messages (start_run a) = ag_messages a" "ag_steeringQueue (start_run a) = ag_steeringQueue a"
  "ag_followUpQueue (start_run a) = ag_followUpQueue a" "ag_tools (start_run a) = ag_tools a"
  "ag_model (start_run a) = ag_model a" "ag_activeRun (start_run a) = Some False"
  by (simp_all add: start_run_def)

section \<open>The life of a run\<close>

definition idle :: "'x agent \<Rightarrow> bool" where
  "idle a = (ag_activeRun a = None \<and> \<not> ag_isStreaming a \<and> ag_streamingMessage a = None \<and> ag_pendingToolCalls a = {})"

lemma finishRun_idle [simp]: "idle (finishRun a)"
  by (simp add: finishRun_def idle_def)

definition failed_last :: "string \<Rightarrow> 'x agent \<Rightarrow> bool" where
  "failed_last text a =
     (\<exists>m. ag_messages a \<noteq> [] \<and> last (ag_messages a) = AssistantMessage m \<and>
       am_errorMessage m = Some text \<and> am_stopReason m \<in> {StopError, StopAborted})"

lemma failed_last_finish [simp]: "failed_last text (finishRun a) = failed_last text a"
  by (simp add: failed_last_def)

lemma handleRunFailure_last: "failed_last text (handleRunFailure now text aborted a)"
  by (simp add: handleRunFailure_def Let_def reduce_event_def failed_last_def split: option.split)

lemma handleRunFailure_error: "text \<noteq> [] \<Longrightarrow> ag_errorMessage (handleRunFailure now text aborted a) = Some text"
  by (simp add: handleRunFailure_def Let_def reduce_event_def)

text \<open>The life of a run.  An idle agent that runs any executor, one that fails or is aborted included, is idle again once
  it has settled: not streaming, no message in progress, no tool call pending, ready for the next prompt; a failure is
  the last message of the transcript, with its text, and the text is the error of the agent.  A busy agent refuses
  and nothing changes.\<close>

theorem run_lifecycle:
  "(case runWithLifecycle now executor a of
      Inl e \<Rightarrow> e = AlreadyProcessing \<and> ag_activeRun a \<noteq> None
    | Inr None \<Rightarrow> ag_activeRun a = None \<and> executor (start_run a) = None
    | Inr (Some a') \<Rightarrow> ag_activeRun a = None \<and> idle a' \<and>
        (case executor (start_run a) of
           Some (Inl text, _) \<Rightarrow> failed_last text a' \<and> (text = [] \<or> ag_errorMessage a' = Some text)
         | Some (Inr _, b) \<Rightarrow> ag_messages a' = ag_messages b
         | None \<Rightarrow> False))"
  using handleRunFailure_error
  by (auto simp: runWithLifecycle_def handleRunFailure_last split: option.split sum.split prod.split)

lemma run_outcome:
  assumes "runWithLifecycle now (\<lambda>a. settle_run (outcome a) a) a = Inr (Some a')" and "\<exists>r. outcome (start_run a) = Inr r"
  obtains newMessages w events where "outcome (start_run a) = Inr (Some (newMessages, (w, events)))"
    and "a' = finishRun (take_run w events (start_run a))"
  using assms by (auto simp: runWithLifecycle_def settle_run_def split: if_splits option.splits sum.splits prod.splits)

section \<open>What the operations of the agent do to its transcript\<close>

lemma prompt_run:
  assumes "runPromptMessages h now prompts skip a = Inr (Some a')"
  obtains newMessages w events where
    "runAgentLoop (createLoopConfig h) prompts (createContextSnapshot (start_run a)) (ag_model a) (loop_reasoning (start_run a))
      (run_world skip (start_run a), []) = Some (newMessages, (w, events))"
    and "a' = finishRun (take_run w events (start_run a))"
  using assms unfolding runPromptMessages_def by (rule run_outcome) auto

text \<open>C23: Prompting the agent.  A prompt to an idle agent runs the loop on a copy of its transcript; when the run has
  returned, the transcript of the agent is the old one followed by exactly the messages the loop returned, the
  queues are those the run left, and the agent is idle.\<close>

theorem prompt_extends_transcript:
  assumes "prompt h now input a = Inr (Some a')"
  shows "\<exists>newMessages w events.
    runAgentLoop (createLoopConfig h) (normalizePromptInput now input) (createContextSnapshot a) (ag_model a) (loop_reasoning a)
      (run_world False (start_run a), []) = Some (newMessages, (w, events)) \<and>
    ag_messages a' = ag_messages a @ newMessages \<and> ag_steeringQueue a' = aw_steering w \<and> ag_followUpQueue a' = aw_followUp w \<and> idle a'"
proof -
  from assms have "runPromptMessages h now (normalizePromptInput now input) False a = Inr (Some a')"
    by (simp add: prompt_def split: if_splits)
  then obtain newMessages w events where run:
    "runAgentLoop (createLoopConfig h) (normalizePromptInput now input) (createContextSnapshot (start_run a)) (ag_model a)
      (loop_reasoning (start_run a)) (run_world False (start_run a), []) = Some (newMessages, (w, events))"
    and a': "a' = finishRun (take_run w events (start_run a))"
    by (rule prompt_run)
  have "ended_messages events = newMessages" by (rule prompt_reports [OF run])
  moreover have "createContextSnapshot (start_run a) = createContextSnapshot a" "loop_reasoning (start_run a) = loop_reasoning a"
    by (simp_all add: createContextSnapshot_def loop_reasoning_def start_run_def)
  ultimately show ?thesis using run a' by auto
qed

text \<open>Hooks and tools that take nothing from the queues.\<close>

definition queued_world :: "'x agent_world \<Rightarrow> agent_message multiset" where
  "queued_world w = mset (mq_messages (aw_steering w)) + mset (mq_messages (aw_followUp w))"

definition queued_agent :: "'x agent \<Rightarrow> agent_message multiset" where
  "queued_agent a = mset (mq_messages (ag_steeringQueue a)) + mset (mq_messages (ag_followUpQueue a))"

definition hooks_only_queue :: "'x agent_hooks \<Rightarrow> 'x agent_world agent_tool set \<Rightarrow> bool" where
  "hooks_only_queue h tools = hooks_respect (createLoopConfig h) (\<lambda>w w'. queued_world w \<subseteq># queued_world w') tools"

lemma drain_queued: "drain q = (ms, q') \<Longrightarrow> mset (mq_messages q) = mset ms + mset (mq_messages q')"
  by (drule pq.contents_take) simp

lemma agent_keeps_queued: "hooks_only_queue h tools \<Longrightarrow> keeps_queued (createLoopConfig h) queued_world tools"
  by (auto simp: keeps_queued_def hooks_only_queue_def createLoopConfig_def getSteeringMessages_def getFollowUpMessages_def
      queued_world_def drain_queued split: if_splits prod.splits)

lemma queued_world_simps [simp]:
  "queued_world (run_world skip a) = queued_agent a" "queued_agent (start_run a) = queued_agent a"
  "queued_agent (finishRun (take_run w events a)) = queued_world w"
  by (simp_all add: queued_world_def run_world_def queued_agent_def)

text \<open>What the agent holds: its transcript and its queues.\<close>

definition holds :: "'x agent \<Rightarrow> agent_message multiset" where
  "holds a = mset (ag_messages a) + queued_agent a"

lemma run_prompts_held:
  assumes "hooks_only_queue h tools" and "set (ag_tools a) \<subseteq> tools" and "runPromptMessages h now prompts skip a = Inr (Some a')"
  shows "mset prompts + holds a \<subseteq># holds a'"
proof -
  obtain newMessages w events where run:
    "runAgentLoop (createLoopConfig h) prompts (createContextSnapshot (start_run a)) (ag_model a)
      (loop_reasoning (start_run a)) (run_world skip (start_run a), []) = Some (newMessages, (w, events))"
    and a': "a' = finishRun (take_run w events (start_run a))"
    using assms(3) by (rule prompt_run)
  have tools: "set (ctx_tools (createContextSnapshot (start_run a))) \<subseteq> tools"
    using assms(2) by (simp add: createContextSnapshot_def)
  have "ended_messages events = newMessages" by (rule prompt_reports [OF run])
  with prompts_and_queued_not_lost [OF agent_keeps_queued [OF assms(1)] tools run] a' show ?thesis
    by (simp add: holds_def add.left_commute add.assoc)
qed

lemma run_from_transcript_held:
  assumes "hooks_only_queue h tools" and "set (ag_tools a) \<subseteq> tools"
    and "runWithLifecycle now (\<lambda>a. settle_run (f a) a) a = Inr (Some a')" and "\<exists>r. f (start_run a) = Inr r"
    and "f = (\<lambda>a. runAgentLoopContinue (createLoopConfig h) (createContextSnapshot a) (ag_model a) (loop_reasoning a) (run_world False a, [])) \<or>
      f = (\<lambda>a. runAgentLoopResume (createLoopConfig h) (createContextSnapshot a) (ag_model a) (loop_reasoning a) (run_world False a, []))"
  shows "holds a \<subseteq># holds a'"
proof -
  obtain newMessages w events where run: "f (start_run a) = Inr (Some (newMessages, (w, events)))"
    and a': "a' = finishRun (take_run w events (start_run a))"
    using assms(3,4) by (rule run_outcome)
  have tools: "set (ctx_tools (createContextSnapshot (start_run a))) \<subseteq> tools"
    using assms(2) by (simp add: createContextSnapshot_def)
  define st where "st = (run_world False (start_run a), [] :: agent_event list)"
  have runs: "runAgentLoopContinue (createLoopConfig h) (createContextSnapshot (start_run a)) (ag_model a) (loop_reasoning (start_run a)) st =
        Inr (Some (newMessages, (w, events))) \<or>
      runAgentLoopResume (createLoopConfig h) (createContextSnapshot (start_run a)) (ag_model a) (loop_reasoning (start_run a)) st =
        Inr (Some (newMessages, (w, events)))"
    using run assms(5) by (auto simp: st_def)
  then have "ended_messages events = newMessages" unfolding st_def by (auto intro: continue_reports resume_reports)
  moreover from queued_not_lost [OF agent_keeps_queued [OF assms(1)] tools runs]
  have "queued_agent a \<subseteq># mset newMessages + queued_world w" by (simp add: st_def)
  ultimately show ?thesis using a' by (simp add: holds_def add.left_commute add.assoc)
qed

lemma drain_holds:
  assumes "drain (ag_steeringQueue a) = (batch, q)"
  shows "holds a = mset batch + holds (a\<lparr>ag_steeringQueue := q\<rparr>)"
  using drain_queued [OF assms] by (simp add: holds_def queued_agent_def ac_simps)

lemma steering_prompts_held:
  assumes "hooks_only_queue h tools" and "steering_prompts h batch a = (prompts, a1)"
  shows "mset batch + holds a \<subseteq># mset prompts + holds a1" and "ag_tools a1 = ag_tools a"
proof -
  obtain extras w where e: "ah_onSteeringBatch h batch (run_world False a) = (extras, w)" by (rule prod.exhaust)
  have "\<forall>ms w. queued_world w \<subseteq># queued_world (snd (ah_onSteeringBatch h ms w))"
    using assms(1) unfolding hooks_only_queue_def hooks_respect_def createLoopConfig_def by simp
  then have "queued_world (run_world False a) \<subseteq># queued_world (snd (ah_onSteeringBatch h batch (run_world False a)))" by blast
  then have w: "queued_agent a \<subseteq># queued_world w" by (simp add: e)
  have a1: "ag_messages a1 = ag_messages a" "queued_agent a1 = queued_world w" "mset batch \<subseteq># mset prompts" "ag_tools a1 = ag_tools a"
    using assms(2) e by (auto simp: steering_prompts_def queued_agent_def queued_world_def split: sum.splits)
  show "ag_tools a1 = ag_tools a" by (fact a1(4))
  show "mset batch + holds a \<subseteq># mset prompts + holds a1"
    using w a1 by (auto simp: holds_def intro!: subset_mset.add_mono)
qed

lemma continue_held:
  assumes "hooks_only_queue h tools" and "set (ag_tools a) \<subseteq> tools" and "continue_agent h now (\<lambda>a. a) a = Inr (Some a')"
  shows "holds a \<subseteq># holds a'"
proof (cases "is_assistant (last (ag_messages a))")
  case False
  let ?f = "\<lambda>a. runAgentLoopContinue (createLoopConfig h) (createContextSnapshot a) (ag_model a) (loop_reasoning a) (run_world False a, [])"
  have ex: "\<exists>r. ?f (start_run a) = Inr r"
    using False assms(3) by (auto simp: continue_agent_def runAgentLoopContinue_def createContextSnapshot_def split: if_splits)
  have life: "runWithLifecycle now (\<lambda>a. settle_run (?f a) a) a = Inr (Some a')"
    using False assms(3) by (simp add: continue_agent_def runContinuation_def split: if_splits)
  show ?thesis by (rule run_from_transcript_held [where f = ?f, OF assms(1,2) life ex disjI1 [OF refl]])
next
  case True
  obtain batch q where d: "drain (ag_steeringQueue a) = (batch, q)" by (rule prod.exhaust)
  show ?thesis
  proof (cases "batch = []")
    case False
    obtain prompts a1 where p: "steering_prompts h batch (a\<lparr>ag_steeringQueue := q\<rparr>) = (prompts, a1)" by (rule prod.exhaust)
    have "runPromptMessages h now prompts True a1 = Inr (Some a')"
      using assms(3) True d False p by (simp add: continue_agent_def split: if_splits)
    moreover note sp = steering_prompts_held [OF assms(1) p]
    ultimately have "mset prompts + holds a1 \<subseteq># holds a'"
      using assms(1,2) by (intro run_prompts_held [of h tools]) simp_all
    with sp(1) drain_holds [OF d] show ?thesis by (metis subset_mset.order_trans)
  next
    case True2: True
    obtain queued q' where d2: "drain (ag_followUpQueue a) = (queued, q')" by (rule prod.exhaust)
    let ?a1 = "a\<lparr>ag_steeringQueue := q, ag_followUpQueue := q'\<rparr>"
    have "runPromptMessages h now queued False ?a1 = Inr (Some a')"
      using assms(3) True d True2 d2 by (auto simp: continue_agent_def split: if_splits)
    then have "mset queued + holds ?a1 \<subseteq># holds a'" using assms(1,2) by (intro run_prompts_held [of h tools]) simp_all
    moreover have "holds a = mset queued + holds ?a1"
      using drain_queued [OF d] drain_queued [OF d2] True2 by (simp add: holds_def queued_agent_def ac_simps)
    ultimately show ?thesis by simp
  qed
qed

lemma resume_held:
  assumes "hooks_only_queue h tools" and "set (ag_tools a) \<subseteq> tools" and "resumePendingToolCalls h now a = Inr (Some (resumed, a'))"
  shows "holds a \<subseteq># holds a'"
proof (cases "getPendingToolCalls a = None")
  case True
  with assms(3) show ?thesis by (auto simp: resumePendingToolCalls_def split: if_splits)
next
  case False
  let ?f = "\<lambda>a. runAgentLoopResume (createLoopConfig h) (createContextSnapshot a) (ag_model a) (loop_reasoning a) (run_world False a, [])"
  have ex: "\<exists>r. ?f (start_run a) = Inr r"
    using False by (auto simp: getPendingToolCalls_def runAgentLoopResume_def createContextSnapshot_def)
  have life: "runWithLifecycle now (\<lambda>a. settle_run (?f a) a) a = Inr (Some a')"
    using False assms(3)
    by (cases "runWithLifecycle now (\<lambda>a. settle_run (?f a) a) a") (auto simp: resumePendingToolCalls_def split: if_splits)
  show ?thesis by (rule run_from_transcript_held [where f = ?f, OF assms(1,2) life ex disjI2 [OF refl]])
qed

text \<open>C22: The agent loses no message.  Whatever was in the transcript or in a queue of the agent before a prompt, a continuation
  or a resumption is in its transcript or in a queue when the run has returned, as often as before; so are the
  messages of the prompt.  Hooks and tools may queue messages but not take them, and nothing else runs the agent while
  \<^verbatim>\<open>continue\<close> awaits its steering hook.\<close>

theorem agent_loses_no_message:
  assumes "hooks_only_queue h tools" and "set (ag_tools a) \<subseteq> tools"
  shows "(prompt h now input a = Inr (Some a') \<longrightarrow> mset (normalizePromptInput now input) + holds a \<subseteq># holds a') \<and>
    (continue_agent h now (\<lambda>a. a) a = Inr (Some a') \<longrightarrow> holds a \<subseteq># holds a') \<and>
    (resumePendingToolCalls h now a = Inr (Some (resumed, a')) \<longrightarrow> holds a \<subseteq># holds a')"
  using run_prompts_held [OF assms] continue_held [OF assms] resume_held [OF assms]
  by (simp add: prompt_def)

text \<open>Continuing can lose the drained messages.  \<^verbatim>\<open>continue\<close> drains the steering queue before it marks the agent as
  busy, and awaits in between (even when no steering hook is set); if another prompt starts in that time, the
  continuation is refused and the drained messages are neither queued nor in the transcript.\<close>

theorem continue_can_lose_steering:
  assumes "ag_activeRun a = None" and "ag_messages a \<noteq> []" and "is_assistant (last (ag_messages a))"
    and "drain (ag_steeringQueue a) = (batch, q)" and "batch \<noteq> []"
    and "steering_prompts h batch (a\<lparr>ag_steeringQueue := q\<rparr>) = (batch, a\<lparr>ag_steeringQueue := q\<rparr>)"
  shows "continue_agent h now start_run a = Inl AlreadyProcessing \<and>
    holds a = mset batch + holds (start_run (a\<lparr>ag_steeringQueue := q\<rparr>))"
proof -
  have "holds (start_run (a\<lparr>ag_steeringQueue := q\<rparr>)) = holds (a\<lparr>ag_steeringQueue := q\<rparr>)"
    by (simp add: holds_def)
  with drain_holds [OF assms(4)] assms show ?thesis
    by (simp add: continue_agent_def runPromptMessages_def runWithLifecycle_def)
qed

definition agent_ok :: "'x agent \<Rightarrow> bool" where
  "agent_ok a = (ag_activeRun a = None \<longrightarrow> idle a)"

lemma lifecycle_ok: "runWithLifecycle now executor a = Inr (Some a') \<Longrightarrow> agent_ok a'"
  by (auto simp: runWithLifecycle_def agent_ok_def split: if_splits option.splits sum.splits)

lemma prompt_messages_ok: "runPromptMessages h now ms skip a = Inr (Some a') \<Longrightarrow> agent_ok a'"
  unfolding runPromptMessages_def by (rule lifecycle_ok)

lemma continue_ok: "continue_agent h now meanwhile a = Inr (Some a') \<Longrightarrow> agent_ok a'"
  by (auto simp: continue_agent_def runContinuation_def split: if_splits prod.splits intro: prompt_messages_ok lifecycle_ok)

lemma resume_ok: "agent_ok a \<Longrightarrow> resumePendingToolCalls h now a = Inr (Some (b, a')) \<Longrightarrow> agent_ok a'"
  unfolding resumePendingToolCalls_def
  by (auto simp: map_sum_def intro: lifecycle_ok split: if_splits sum.splits)

text \<open>C37: The state of the agent stays consistent.  An agent without an active run shows no trace of one (it is not
  streaming, has no message in progress and no pending calls): this holds for a new agent and is kept by every
  operation that settles, successful or not.\<close>

theorem agent_stays_consistent:
  "agent_ok (new_agent i m1 m2 ext) \<and>
   (agent_ok a \<longrightarrow>
     agent_ok (steer m a) \<and> agent_ok (followUp m a) \<and> agent_ok (clearAllQueues a) \<and> agent_ok (abort_agent a) \<and>
     agent_ok (set_steeringMode mode a) \<and> agent_ok (set_followUpMode mode a) \<and>
     (\<forall>a'. reset_agent a = Inr a' \<longrightarrow> agent_ok a') \<and>
     (\<forall>a'. runWithLifecycle now executor a = Inr (Some a') \<longrightarrow> agent_ok a') \<and>
     (\<forall>a'. prompt h now input a = Inr (Some a') \<longrightarrow> agent_ok a') \<and>
     (\<forall>a'. continue_agent h now meanwhile a = Inr (Some a') \<longrightarrow> agent_ok a') \<and>
     (\<forall>b a'. resumePendingToolCalls h now a = Inr (Some (b, a')) \<longrightarrow> agent_ok a'))"
proof (intro conjI impI allI)
  show "agent_ok (new_agent i m1 m2 ext)" by (simp add: agent_ok_def idle_def new_agent_def)
  assume ok: "agent_ok a"
  show "agent_ok (steer m a)" "agent_ok (followUp m a)" "agent_ok (clearAllQueues a)" "agent_ok (abort_agent a)"
    "agent_ok (set_steeringMode mode a)" "agent_ok (set_followUpMode mode a)"
    using ok by (simp_all add: agent_ok_def idle_def steer_def followUp_def clearAllQueues_def clearSteeringQueue_def
        clearFollowUpQueue_def abort_agent_def set_steeringMode_def set_followUpMode_def)
  show "agent_ok a'" if "reset_agent a = Inr a'" for a'
    using that by (auto simp: reset_agent_def agent_ok_def idle_def clearSteeringQueue_def clearFollowUpQueue_def split: if_splits)
  show "agent_ok a'" if "runWithLifecycle now executor a = Inr (Some a')" for a' using that by (rule lifecycle_ok)
  show "agent_ok a'" if "prompt h now input a = Inr (Some a')" for a'
    using that by (auto simp: prompt_def intro: prompt_messages_ok split: if_splits)
  show "agent_ok a'" if "continue_agent h now meanwhile a = Inr (Some a')" for a' using that by (rule continue_ok)
  show "agent_ok a'" if "resumePendingToolCalls h now a = Inr (Some (b, a'))" for b a' using ok that by (rule resume_ok)
qed

section \<open>An agent with queued messages\<close>

definition calm_hooks :: "unit agent_hooks" where
  "calm_hooks = \<lparr>ah_convertToLlm = defaultConvertToLlm, ah_transformContext = Pair, ah_suppressAssistantText = False,
     ah_streamFunction = (\<lambda>m r c w. ([], turn_message [] StopStop, w)),
     ah_beforeToolCall = (\<lambda>am c args ctx. Pair (Inr None)), ah_afterToolCall = (\<lambda>am c args r e ctx. Pair (Inr None)),
     ah_resolveToolAvailability = (\<lambda>n c. Pair (Inr None)), ah_onToolBatchCompleted = (\<lambda>rs c w. w),
     ah_shouldStopAfterTurn = (\<lambda>t. Pair False), ah_prepareNextTurn = None, ah_prepareNextTurnWithContext = None,
     ah_prepareInitialTurnWithContext = (\<lambda>c. Pair None), ah_onSteeringBatch = (\<lambda>ms. Pair (Inr [])),
     ah_toolExecution = Parallel, ah_now = (\<lambda>w. 0), ah_schedule = (\<lambda>n w. [])\<rparr>"

abbreviation noted :: "string \<Rightarrow> agent_message" where
  "noted s \<equiv> OtherMessage s JNull"

definition calm_agent :: "unit agent" where
  "calm_agent = followUp (noted ''later'') (steer (noted ''soon'') (new_agent
     \<lparr>in_systemPrompt = None, in_model = None, in_thinkingLevel = None, in_tools = None,
      in_messages = Some [AssistantMessage (turn_message [] StopStop)]\<rparr> None None ()))"

lemma calm_hooks_only_queue: "hooks_only_queue calm_hooks {}"
  by (auto simp: hooks_only_queue_def hooks_respect_def createLoopConfig_def calm_hooks_def prepare_next_def update_tools_def)

definition calm_config :: "unit agent_world loop_config" where
  "calm_config = createLoopConfig calm_hooks"

lemma calm_config_simps [simp]:
  "cfg_aborted calm_config w = aw_aborted w" "cfg_suppressAssistantText calm_config = False"
  "cfg_transformContext calm_config ms = Pair ms" "cfg_convertToLlm calm_config = defaultConvertToLlm"
  "cfg_stream calm_config m r c w = ([], turn_message [] StopStop, w)"
  "cfg_prepareInitialTurn calm_config c = Pair None" "cfg_prepareNextTurn calm_config t = Pair None"
  "cfg_shouldStopAfterTurn calm_config t = Pair False" "cfg_getSteeringMessages calm_config = getSteeringMessages"
  "cfg_getFollowUpMessages calm_config = getFollowUpMessages" "cfg_onSteeringBatch calm_config ms = Pair (Inr [])"
  by (simp_all add: calm_config_def createLoopConfig_def calm_hooks_def prepare_next_def fun_eq_iff)

lemma calm_run:
  "\<exists>a'. prompt calm_hooks 0 (PromptMessages [noted ''now'']) calm_agent = Inr (Some a')"
  by (simp add: prompt_def runPromptMessages_def runWithLifecycle_def settle_run_def calm_config_def [symmetric]
      runAgentLoop_def runLoop_def run_loop.simps [of calm_config] loop_defs Let_def message_tool_calls_def
      calm_agent_def new_agent_def steer_def followUp_def enqueue_def new_queue_def with_default_def createContextSnapshot_def
      run_world_def start_run_def getSteeringMessages_def getFollowUpMessages_def drain_def turn_message_def
      normalizePromptInput_def List.map_filter_simps)

theorem prompt_extends_transcript_witness:
  "\<exists>a' newMessages. prompt calm_hooks 0 (PromptMessages [noted ''now'']) calm_agent = Inr (Some a') \<and>
     ag_messages a' = ag_messages calm_agent @ newMessages \<and> idle a'"
  using calm_run prompt_extends_transcript by blast

theorem agent_loses_no_message_witness:
  "\<exists>a'. prompt calm_hooks 0 (PromptMessages [noted ''now'']) calm_agent = Inr (Some a') \<and>
     {#noted ''now'', noted ''soon'', noted ''later''#} \<subseteq># holds a'"
proof -
  obtain a' where run: "prompt calm_hooks 0 (PromptMessages [noted ''now'']) calm_agent = Inr (Some a')" using calm_run by blast
  have "set (ag_tools calm_agent) \<subseteq> {}" by (simp add: calm_agent_def steer_def followUp_def new_agent_def with_default_def)
  from agent_loses_no_message [OF calm_hooks_only_queue this] run
  have "mset (normalizePromptInput 0 (PromptMessages [noted ''now''])) + holds calm_agent \<subseteq># holds a'" by blast
  moreover have "{#noted ''now'', noted ''soon'', noted ''later''#} \<subseteq>#
      mset (normalizePromptInput 0 (PromptMessages [noted ''now''])) + holds calm_agent"
    by (simp add: holds_def queued_agent_def calm_agent_def steer_def followUp_def new_agent_def with_default_def
        enqueue_def new_queue_def normalizePromptInput_def)
  ultimately show ?thesis using run subset_mset.order_trans by blast
qed

theorem continue_can_lose_steering_witness:
  "continue_agent calm_hooks 0 start_run calm_agent = Inl AlreadyProcessing \<and>
   \<not> noted ''soon'' \<in># holds (start_run (calm_agent\<lparr>ag_steeringQueue := new_queue OneAtATime\<rparr>))"
proof -
  have "drain (ag_steeringQueue calm_agent) = ([noted ''soon''], new_queue OneAtATime)"
    by (simp add: calm_agent_def steer_def followUp_def new_agent_def with_default_def enqueue_def new_queue_def drain_def)
  moreover have "steering_prompts calm_hooks [noted ''soon''] (calm_agent\<lparr>ag_steeringQueue := new_queue OneAtATime\<rparr>) =
      ([noted ''soon''], calm_agent\<lparr>ag_steeringQueue := new_queue OneAtATime\<rparr>)"
    by (simp add: steering_prompts_def calm_hooks_def run_world_def calm_agent_def steer_def followUp_def new_agent_def with_default_def)
  ultimately have "continue_agent calm_hooks 0 start_run calm_agent = Inl AlreadyProcessing"
    using continue_can_lose_steering [of calm_agent "[noted ''soon'']" "new_queue OneAtATime" calm_hooks 0]
    by (simp add: calm_agent_def steer_def followUp_def new_agent_def with_default_def)
  then show ?thesis
    by (simp add: holds_def queued_agent_def calm_agent_def steer_def followUp_def new_agent_def with_default_def
        enqueue_def new_queue_def turn_message_def)
qed

theorem agent_stays_consistent_witness:
  "agent_ok calm_agent \<and> (\<exists>a'. prompt calm_hooks 0 (PromptMessages [noted ''now'']) calm_agent = Inr (Some a') \<and> agent_ok a')"
proof -
  have ok: "agent_ok calm_agent"
    by (simp add: agent_ok_def idle_def calm_agent_def steer_def followUp_def new_agent_def)
  obtain a' where run: "prompt calm_hooks 0 (PromptMessages [noted ''now'']) calm_agent = Inr (Some a')" using calm_run by blast
  have "\<forall>a'. prompt calm_hooks 0 (PromptMessages [noted ''now'']) calm_agent = Inr (Some a') \<longrightarrow> agent_ok a'"
    using agent_stays_consistent [where h = calm_hooks and now = 0 and input = "PromptMessages [noted ''now'']", THEN conjunct2, THEN mp, OF ok]
    by blast
  with ok run show ?thesis by blast
qed

theorem queue_first_in_first_out_witness:
  "\<exists>delivered q'. pq.history [Some (noted ''a''), Some (noted ''b''), None, Some (noted ''c''), None] (new_queue OneAtATime) = (delivered, q') \<and>
     [noted ''a'', noted ''b'', noted ''c''] = delivered @ mq_messages q'"
proof -
  obtain delivered q' where run:
    "pq.history [Some (noted ''a''), Some (noted ''b''), None, Some (noted ''c''), None] (new_queue OneAtATime) = (delivered, q')"
    by (rule prod.exhaust)
  with queue_first_in_first_out [THEN conjunct1, THEN mp, OF run] show ?thesis
    by (simp add: new_queue_def List.map_filter_simps)
qed

end
