(* ===== verification/Transform_Messages.thy ===== *)
theory Transform_Messages
  imports Session_Types "HOL-Library.Sublist"
begin

text \<open>
  What a provider is sent, \<^verbatim>\<open>packages/ai/src/api/transform-messages.ts\<close>: system messages, images a model cannot
  see, thinking and tool calls of other models, and results for calls that have none.  The content of a message is
  never null here, so the normalization of null content is the identity.
\<close>

section \<open>System messages and cache boundaries\<close>

definition system_text :: "user_content \<Rightarrow> string" where
  "system_text c =
     (case c of
        ContentString s \<Rightarrow> s
      | ContentBlocks bs \<Rightarrow> js_join [CHR 0x0A] (List.map_filter (\<lambda>b. case b of TextBlock t \<Rightarrow> Some (tc_text t) | ImageBlock _ \<Rightarrow> None) bs))"

fun system_content :: "agent_message \<Rightarrow> user_content option" where
  "system_content (SystemMessage c _) = Some c"
| "system_content _ = None"

definition splitSystemMessages :: "agent_message list \<Rightarrow> string option \<Rightarrow> string \<times> agent_message list" where
  "splitSystemMessages messages systemPrompt =
     (case systemPrompt of
        Some (c # cs) \<Rightarrow> (c # cs, messages)
      | _ \<Rightarrow>
          let systemMessages = List.map_filter system_content messages
          in if systemMessages = [] then ([], messages)
             else (js_join [CHR 0x0A, CHR 0x0A] (map system_text systemMessages),
                   filter (\<lambda>m. system_content m = None) messages))"

record cache_options =
  co_volatileFrom :: "jsnum option"
  co_sourceIndices :: "jsnum list option"

definition valid_index :: "jsnum \<Rightarrow> bool" where
  "valid_index n = (case js_int n of Some i \<Rightarrow> 0 \<le> i | None \<Rightarrow> False)"

definition index_value :: "jsnum \<Rightarrow> int" where
  "index_value n = (case js_int n of Some i \<Rightarrow> i | None \<Rightarrow> 0)"

definition no_prompt :: "string option \<Rightarrow> bool" where
  "no_prompt systemPrompt = (case systemPrompt of Some s \<Rightarrow> s = [] | None \<Rightarrow> True)"

definition cacheMessageSources :: "agent_message list \<Rightarrow> cache_options \<Rightarrow> string option \<Rightarrow> int list option" where
  "cacheMessageSources messages options systemPrompt =
     (let sources = (\<lambda>indices. List.map_filter
        (\<lambda>(m, i). if no_prompt systemPrompt \<and> system_content m \<noteq> None then None else Some i) (zip messages indices))
      in case co_volatileFrom options of
        None \<Rightarrow> None
      | Some v \<Rightarrow>
          if \<not> valid_index v then None
          else (case co_sourceIndices options of
            Some indices \<Rightarrow>
              if length indices \<noteq> length messages \<or> list_ex (\<lambda>n. \<not> valid_index n) indices then None
              else Some (sources (map index_value indices))
          | None \<Rightarrow> Some (sources (map int [0..<length messages]))))"

fun find_index :: "('a \<Rightarrow> bool) \<Rightarrow> 'a list \<Rightarrow> nat option" where
  "find_index p [] = None"
| "find_index p (x # xs) = (if p x then Some 0 else map_option Suc (find_index p xs))"

definition cacheSafePrefix :: "int list list \<Rightarrow> int \<Rightarrow> nat" where
  "cacheSafePrefix sources volatileFrom =
     (case find_index (\<lambda>group. list_ex (\<lambda>i. i < 0 \<or> i \<ge> volatileFrom) group) sources of
        Some i \<Rightarrow> i
      | None \<Rightarrow> length sources)"

section \<open>Images\<close>

definition NON_VISION_USER_IMAGE_PLACEHOLDER :: string where
  "NON_VISION_USER_IMAGE_PLACEHOLDER = ''(image omitted: model does not support images)''"

definition NON_VISION_TOOL_IMAGE_PLACEHOLDER :: string where
  "NON_VISION_TOOL_IMAGE_PLACEHOLDER = ''(tool image omitted: model does not support images)''"

definition plain_text :: "string \<Rightarrow> text_content" where
  "plain_text s = \<lparr>tc_text = s, tc_textSignature = None\<rparr>"

fun replace_images :: "string \<Rightarrow> bool \<Rightarrow> content_block list \<Rightarrow> content_block list" where
  "replace_images placeholder previous [] = []"
| "replace_images placeholder previous (ImageBlock _ # bs) =
     (if previous then replace_images placeholder True bs
      else TextBlock (plain_text placeholder) # replace_images placeholder True bs)"
| "replace_images placeholder previous (TextBlock t # bs) =
     TextBlock t # replace_images placeholder (tc_text t = placeholder) bs"

definition replaceImagesWithPlaceholder :: "content_block list \<Rightarrow> string \<Rightarrow> content_block list" where
  "replaceImagesWithPlaceholder content placeholder = replace_images placeholder False content"

record target_model =
  tm_id :: string
  tm_api :: string
  tm_provider :: string
  tm_input :: "string list"

definition downgrade_message :: "agent_message \<Rightarrow> agent_message" where
  "downgrade_message m =
     (case m of
        UserMessage (ContentBlocks bs) t \<Rightarrow>
          UserMessage (ContentBlocks (replaceImagesWithPlaceholder bs NON_VISION_USER_IMAGE_PLACEHOLDER)) t
      | ToolResultMessage r \<Rightarrow>
          ToolResultMessage (r\<lparr>tr_content := replaceImagesWithPlaceholder (tr_content r) NON_VISION_TOOL_IMAGE_PLACEHOLDER\<rparr>)
      | _ \<Rightarrow> m)"

definition downgradeUnsupportedImages :: "agent_message list \<Rightarrow> target_model \<Rightarrow> agent_message list" where
  "downgradeUnsupportedImages messages model =
     (if ''image'' \<in> set (tm_input model) then messages else map downgrade_message messages)"

section \<open>The first pass\<close>

text \<open>Whether \<^verbatim>\<open>trim\<close> leaves nothing, on the UTF-8 bytes of a string: the white space and line terminators of JavaScript.\<close>

fun blank :: "string \<Rightarrow> bool" where
  "blank [] = True"
| "blank (c # cs) =
     (let b = (of_char c :: nat)
      in if b \<in> {9, 10, 11, 12, 13, 32} then blank cs
         else (case cs of
           d # ds \<Rightarrow>
             let b2 = (of_char d :: nat)
             in if b = 0xC2 \<and> b2 = 0xA0 then blank ds
                else (case ds of
                  e # es \<Rightarrow>
                    let b3 = (of_char e :: nat)
                    in if b = 0xEF \<and> b2 = 0xBB \<and> b3 = 0xBF \<or> b = 0xE1 \<and> b2 = 0x9A \<and> b3 = 0x80 \<or>
                          b = 0xE2 \<and> b2 = 0x80 \<and> (0x80 \<le> b3 \<and> b3 \<le> 0x8A \<or> b3 \<in> {0xA8, 0xA9, 0xAF}) \<or>
                          b = 0xE2 \<and> b2 = 0x81 \<and> b3 = 0x9F \<or> b = 0xE3 \<and> b2 = 0x80 \<and> b3 = 0x80
                       then blank es else False
                | [] \<Rightarrow> False)
         | [] \<Rightarrow> False))"

text \<open>The optional normalization of ids.\<close>

type_synonym normalizer = "(string \<Rightarrow> target_model \<Rightarrow> assistant_message \<Rightarrow> string) option"

definition same_model :: "target_model \<Rightarrow> assistant_message \<Rightarrow> bool" where
  "same_model model a = (am_provider a = tm_provider model \<and> am_api a = tm_api model \<and> am_model a = tm_id model)"

definition transform_thinking :: "bool \<Rightarrow> thinking_content \<Rightarrow> assistant_block list" where
  "transform_thinking isSameModel t =
     (if tk_redacted t = Some True then (if isSameModel then [AssistantThinking t] else [])
      else if isSameModel \<and> (case tk_thinkingSignature t of Some s \<Rightarrow> s \<noteq> [] | None \<Rightarrow> False) then [AssistantThinking t]
      else if blank (tk_thinking t) then []
      else if isSameModel then [AssistantThinking t]
      else [AssistantText (plain_text (tk_thinking t))])"

definition normalized_id :: "target_model \<Rightarrow> normalizer \<Rightarrow> assistant_message \<Rightarrow> string \<Rightarrow> string" where
  "normalized_id model norm_id a i =
     (if same_model model a then i else (case norm_id of Some f \<Rightarrow> f i model a | None \<Rightarrow> i))"

definition transform_call :: "target_model \<Rightarrow> normalizer \<Rightarrow> assistant_message \<Rightarrow> tool_call \<Rightarrow> tool_call" where
  "transform_call model norm_id a c =
     (let c1 = (if \<not> same_model model a \<and> (case call_thoughtSignature c of Some s \<Rightarrow> s \<noteq> [] | None \<Rightarrow> False)
                then c\<lparr>call_thoughtSignature := None\<rparr> else c)
      in if normalized_id model norm_id a (call_id c) \<noteq> call_id c
         then c1\<lparr>call_id := normalized_id model norm_id a (call_id c)\<rparr> else c1)"

text \<open>The blocks of an assistant message, with the ids recorded on the way.\<close>

fun transform_blocks ::
    "target_model \<Rightarrow> normalizer \<Rightarrow> assistant_message \<Rightarrow> (string \<rightharpoonup> string) \<Rightarrow> assistant_block list \<Rightarrow>
     (string \<rightharpoonup> string) \<times> assistant_block list" where
  "transform_blocks model norm_id a ids [] = (ids, [])"
| "transform_blocks model norm_id a ids (AssistantThinking t # bs) =
     (let (ids', rest) = transform_blocks model norm_id a ids bs
      in (ids', transform_thinking (same_model model a) t @ rest))"
| "transform_blocks model norm_id a ids (AssistantText t # bs) =
     (let (ids', rest) = transform_blocks model norm_id a ids bs
      in (ids', AssistantText (if same_model model a then t else plain_text (tc_text t)) # rest))"
| "transform_blocks model norm_id a ids (AssistantToolCall c # bs) =
     (let n = normalized_id model norm_id a (call_id c);
          ids1 = (if n \<noteq> call_id c then ids(call_id c \<mapsto> n) else ids);
          (ids', rest) = transform_blocks model norm_id a ids1 bs
      in (ids', AssistantToolCall (transform_call model norm_id a c) # rest))"

fun first_pass :: "target_model \<Rightarrow> normalizer \<Rightarrow> (string \<rightharpoonup> string) \<Rightarrow> agent_message list \<Rightarrow> agent_message list" where
  "first_pass model norm_id ids [] = []"
| "first_pass model norm_id ids (ToolResultMessage r # ms) =
     ToolResultMessage
       (case ids (tr_toolCallId r) of
          Some n \<Rightarrow> if n \<noteq> [] \<and> n \<noteq> tr_toolCallId r then r\<lparr>tr_toolCallId := n\<rparr> else r
        | None \<Rightarrow> r) # first_pass model norm_id ids ms"
| "first_pass model norm_id ids (AssistantMessage a # ms) =
     (let (ids', content) = transform_blocks model norm_id a ids (am_content a)
      in AssistantMessage (a\<lparr>am_content := content\<rparr>) # first_pass model norm_id ids' ms)"
| "first_pass model norm_id ids (m # ms) = m # first_pass model norm_id ids ms"

section \<open>The second pass\<close>

record pass_state =
  ps_result :: "agent_message list"
  ps_indices :: "int option list"
  ps_pendingToolCalls :: "tool_call list"
  ps_existingToolResultIds :: "string set"

definition synthetic_result :: "nat \<Rightarrow> tool_call \<Rightarrow> agent_message" where
  "synthetic_result now c = ToolResultMessage
     \<lparr>tr_toolCallId = call_id c, tr_toolName = call_name c, tr_content = [TextBlock (plain_text ''No result provided'')],
      tr_details = None, tr_usage = None, tr_addedToolNames = None, tr_isError = True, tr_timestamp = now\<rparr>"

definition insertSyntheticToolResults :: "nat \<Rightarrow> pass_state \<Rightarrow> pass_state" where
  "insertSyntheticToolResults now s =
     (if ps_pendingToolCalls s \<noteq> [] then
        let missing = filter (\<lambda>c. call_id c \<notin> ps_existingToolResultIds s) (ps_pendingToolCalls s)
        in \<lparr>ps_result = ps_result s @ map (synthetic_result now) missing,
            ps_indices = ps_indices s @ map (\<lambda>_. Some (-1)) missing,
            ps_pendingToolCalls = [], ps_existingToolResultIds = {}\<rparr>
      else s)"

definition push_message :: "agent_message \<Rightarrow> int option \<Rightarrow> pass_state \<Rightarrow> pass_state" where
  "push_message m i s = s\<lparr>ps_result := ps_result s @ [m], ps_indices := ps_indices s @ [i]\<rparr>"

definition failed_message :: "assistant_message \<Rightarrow> bool" where
  "failed_message a = (am_stopReason a = StopError \<or> am_stopReason a = StopAborted)"

definition pass_message :: "nat \<Rightarrow> agent_message \<Rightarrow> int option \<Rightarrow> pass_state \<Rightarrow> pass_state" where
  "pass_message now m i s =
     (case m of
        AssistantMessage a \<Rightarrow>
          let s1 = insertSyntheticToolResults now s
          in if failed_message a then s1
             else let s2 = (if message_tool_calls a \<noteq> []
                     then s1\<lparr>ps_pendingToolCalls := message_tool_calls a, ps_existingToolResultIds := {}\<rparr> else s1)
                  in push_message m i s2
      | ToolResultMessage r \<Rightarrow>
          push_message m i (s\<lparr>ps_existingToolResultIds := insert (tr_toolCallId r) (ps_existingToolResultIds s)\<rparr>)
      | UserMessage _ _ \<Rightarrow> push_message m i (insertSyntheticToolResults now s)
      | _ \<Rightarrow> push_message m i s)"

text \<open>An index beyond the given ones reads as \<^verbatim>\<open>undefined\<close>.\<close>

fun second_pass :: "nat \<Rightarrow> int list \<Rightarrow> nat \<Rightarrow> agent_message list \<Rightarrow> pass_state \<Rightarrow> pass_state" where
  "second_pass now indices i [] s = insertSyntheticToolResults now s"
| "second_pass now indices i (m # ms) s =
     second_pass now indices (Suc i) ms (pass_message now m (js_index indices (int i)) s)"

definition initial_pass :: pass_state where
  "initial_pass = \<lparr>ps_result = [], ps_indices = [], ps_pendingToolCalls = [], ps_existingToolResultIds = {}\<rparr>"

definition transformed :: "agent_message list \<Rightarrow> target_model \<Rightarrow> normalizer \<Rightarrow> agent_message list" where
  "transformed messages model norm_id = first_pass model norm_id Map.empty (downgradeUnsupportedImages messages model)"

definition transformMessages ::
    "nat \<Rightarrow> agent_message list \<Rightarrow> target_model \<Rightarrow> normalizer \<Rightarrow> int list option \<Rightarrow> agent_message list \<times> int option list option" where
  "transformMessages now messages model norm_id sourceIndices =
     (let s = second_pass now (case sourceIndices of Some is \<Rightarrow> is | None \<Rightarrow> []) 0 (transformed messages model norm_id) initial_pass
      in (ps_result s, map_option (\<lambda>_. ps_indices s) sourceIndices))"

text \<open>How an adapter puts the three together, \<^verbatim>\<open>buildParams\<close> of \<^verbatim>\<open>anthropic-messages.ts\<close>: the sources are resolved before the
  system messages are taken out.\<close>

definition prepare_messages ::
    "nat \<Rightarrow> agent_message list \<Rightarrow> string option \<Rightarrow> cache_options \<Rightarrow> target_model \<Rightarrow> normalizer \<Rightarrow>
     string \<times> agent_message list \<times> int option list option" where
  "prepare_messages now messages systemPrompt options model norm_id =
     (let sourceIndices = cacheMessageSources messages options systemPrompt;
          (mergedSystemPrompt, cleanMessages) = splitSystemMessages messages systemPrompt
      in (mergedSystemPrompt, transformMessages now cleanMessages model norm_id sourceIndices))"

section \<open>Every call is answered\<close>

text \<open>Whether a call is answered before the next message of an assistant or a user.\<close>

fun answered_in :: "string \<Rightarrow> agent_message list \<Rightarrow> bool" where
  "answered_in i [] = False"
| "answered_in i (ToolResultMessage r # ms) = (tr_toolCallId r = i \<or> answered_in i ms)"
| "answered_in i (AssistantMessage _ # ms) = False"
| "answered_in i (UserMessage _ _ # ms) = False"
| "answered_in i (_ # ms) = answered_in i ms"

fun calls_answered :: "agent_message list \<Rightarrow> bool" where
  "calls_answered [] = True"
| "calls_answered (AssistantMessage a # ms) =
     (list_all (\<lambda>c. answered_in (call_id c) ms) (message_tool_calls a) \<and> calls_answered ms)"
| "calls_answered (_ # ms) = calls_answered ms"

text \<open>What the second pass appends, given the calls that wait and the results they have.\<close>

definition missing_results :: "nat \<Rightarrow> tool_call list \<Rightarrow> string set \<Rightarrow> agent_message list" where
  "missing_results now pending existing = map (synthetic_result now) (filter (\<lambda>c. call_id c \<notin> existing) pending)"

fun pass_output :: "nat \<Rightarrow> tool_call list \<Rightarrow> string set \<Rightarrow> agent_message list \<Rightarrow> agent_message list" where
  "pass_output now pending existing [] = missing_results now pending existing"
| "pass_output now pending existing (AssistantMessage a # ms) =
     missing_results now pending existing @
     (if failed_message a then pass_output now [] {} ms
      else AssistantMessage a # pass_output now (message_tool_calls a) {} ms)"
| "pass_output now pending existing (ToolResultMessage r # ms) =
     ToolResultMessage r # pass_output now pending (insert (tr_toolCallId r) existing) ms"
| "pass_output now pending existing (UserMessage c t # ms) =
     missing_results now pending existing @ UserMessage c t # pass_output now [] {} ms"
| "pass_output now pending existing (m # ms) = m # pass_output now pending existing ms"

lemma missing_none [simp]: "missing_results now [] existing = []"
  by (simp add: missing_results_def)

lemma pass_output_idle: "pass_output now [] existing ms = pass_output now [] {} ms"
proof (induction ms arbitrary: existing)
  case (Cons m ms)
  then show ?case by (cases m) (simp_all, metis)
qed simp

lemma insert_result: "ps_result (insertSyntheticToolResults now s) =
    ps_result s @ missing_results now (ps_pendingToolCalls s) (ps_existingToolResultIds s)"
  by (simp add: insertSyntheticToolResults_def missing_results_def Let_def)

lemma insert_pending [simp]: "ps_pendingToolCalls (insertSyntheticToolResults now s) = []"
  by (simp add: insertSyntheticToolResults_def Let_def)

lemma second_pass_output:
  "ps_result (second_pass now indices i ms s) =
     ps_result s @ pass_output now (ps_pendingToolCalls s) (ps_existingToolResultIds s) ms"
proof (induction ms arbitrary: i s)
  case Nil
  then show ?case by (simp add: insert_result)
next
  case (Cons m ms)
  note idle = pass_output_idle [of now "ps_existingToolResultIds (insertSyntheticToolResults now s)" ms]
  show ?case
    by (cases m) (simp_all add: Cons.IH pass_message_def push_message_def insert_result idle Let_def)
qed

lemma answered_append: "answered_in i (map (synthetic_result now) cs @ ms) = ((\<exists>c \<in> set cs. call_id c = i) \<or> answered_in i ms)"
  by (induction cs) (auto simp: synthetic_result_def)

lemma calls_synthetic: "calls_answered (map (synthetic_result now) cs @ ms) = calls_answered ms"
  by (induction cs) (auto simp: synthetic_result_def)

lemma pass_output_answers:
  "calls_answered (pass_output now pending existing ms) \<and>
   (\<forall>c \<in> set pending. call_id c \<in> existing \<or> answered_in (call_id c) (pass_output now pending existing ms))"
proof (induction ms arbitrary: pending existing)
  case Nil
  have "calls_answered (map (synthetic_result now) cs @ [])" for cs by (subst calls_synthetic) simp
  then show ?case using answered_append [of _ now _ "[]"] by (auto simp: missing_results_def)
next
  case (Cons m ms)
  note simps = missing_results_def answered_append calls_synthetic list_all_iff
  show ?case
  proof (cases m)
    case (ToolResultMessage r)
    with Cons.IH [of pending "insert (tr_toolCallId r) existing"] show ?thesis by auto
  next
    case (AssistantMessage a)
    with Cons.IH [of "message_tool_calls a" "{}"] Cons.IH [of "[]" "{}"] show ?thesis by (auto simp: simps)
  next
    case (UserMessage c t)
    with Cons.IH [of "[]" "{}"] show ?thesis by (auto simp: simps)
  qed (use Cons.IH [of pending existing] in auto)
qed

lemma pass_output_not_failed: "AssistantMessage a \<in> set (pass_output now p e ms) \<Longrightarrow> \<not> failed_message a"
  by (induction now p e ms rule: pass_output.induct) (auto simp: missing_results_def synthetic_result_def split: if_splits)

lemma transform_output:
  "fst (transformMessages now messages model norm_id sourceIndices) = pass_output now [] {} (transformed messages model norm_id)"
  by (simp add: transformMessages_def second_pass_output initial_pass_def Let_def)

text \<open>C27: Every tool call sent to a provider has a result.  In what the transformation returns, each call of an assistant message
  is answered by a result before the next message of an assistant or a user, by the given result or by an error that
  says there is none; and no failed or aborted response is sent.\<close>

theorem transformed_calls_answered:
  "calls_answered (fst (transformMessages now messages model norm_id sourceIndices)) \<and>
   (\<forall>a. AssistantMessage a \<in> set (fst (transformMessages now messages model norm_id sourceIndices)) \<longrightarrow> \<not> failed_message a)"
  using pass_output_answers pass_output_not_failed by (auto simp: transform_output)

lemma pass_output_set: "m \<in> set (pass_output now pending existing ms) \<Longrightarrow> m \<in> set ms \<or> (\<exists>c. m = synthetic_result now c)"
  by (induction now pending existing ms rule: pass_output.induct) (auto simp: missing_results_def split: if_splits)

section \<open>What a model can take\<close>

definition has_image :: "content_block list \<Rightarrow> bool" where
  "has_image bs = list_ex (\<lambda>b. case b of ImageBlock _ \<Rightarrow> True | TextBlock _ \<Rightarrow> False) bs"

definition portable_block :: "assistant_block \<Rightarrow> bool" where
  "portable_block b =
     (case b of
        AssistantThinking _ \<Rightarrow> False
      | AssistantText t \<Rightarrow> tc_textSignature t = None
      | AssistantToolCall c \<Rightarrow> call_thoughtSignature c \<in> {None, Some []})"

definition presentable :: "target_model \<Rightarrow> agent_message \<Rightarrow> bool" where
  "presentable model m =
     (case m of
        UserMessage (ContentBlocks bs) _ \<Rightarrow> ''image'' \<in> set (tm_input model) \<or> \<not> has_image bs
      | ToolResultMessage r \<Rightarrow> ''image'' \<in> set (tm_input model) \<or> \<not> has_image (tr_content r)
      | AssistantMessage a \<Rightarrow> same_model model a \<or> list_all portable_block (am_content a)
      | _ \<Rightarrow> True)"

lemma replace_images_none: "\<not> has_image (replace_images placeholder previous bs)"
  by (induction placeholder previous bs rule: replace_images.induct) (auto simp: has_image_def)

lemma replace_images_id: "\<not> has_image bs \<Longrightarrow> replace_images placeholder previous bs = bs"
  by (induction placeholder previous bs rule: replace_images.induct) (auto simp: has_image_def)

lemma portable_blocks:
  "\<not> same_model model a \<Longrightarrow> list_all portable_block (snd (transform_blocks model norm_id a ids bs))"
proof (induction model norm_id a ids bs rule: transform_blocks.induct)
  case (2 model norm_id a ids t bs)
  then show ?case
    by (auto simp: transform_thinking_def portable_block_def plain_text_def split: prod.split)
next
  case (4 model norm_id a ids c bs)
  have "portable_block (AssistantToolCall (transform_call model norm_id a c))"
    using "4.prems" by (auto simp: portable_block_def transform_call_def Let_def split: option.splits)
  with 4 show ?case by (auto simp: Let_def split: prod.split)
qed (auto simp: portable_block_def plain_text_def split: prod.split)

lemma same_model_content [simp]: "same_model model (a\<lparr>am_content := bs\<rparr>) = same_model model a"
  by (simp add: same_model_def)

lemma downgraded_presentable: "m \<in> set (downgradeUnsupportedImages ms model) \<Longrightarrow> (\<forall>a. m \<noteq> AssistantMessage a) \<Longrightarrow> presentable model m"
  by (auto simp: downgradeUnsupportedImages_def downgrade_message_def presentable_def replaceImagesWithPlaceholder_def
      replace_images_none split: if_splits agent_message.splits user_content.splits)

lemma first_pass_presentable:
  assumes "\<forall>m \<in> set ms. (\<forall>a. m \<noteq> AssistantMessage a) \<longrightarrow> presentable model m"
  shows "\<forall>m \<in> set (first_pass model norm_id ids ms). presentable model m"
  using assms
proof (induction model norm_id ids ms rule: first_pass.induct)
  case (3 model norm_id ids a ms)
  obtain ids' content where t: "transform_blocks model norm_id a ids (am_content a) = (ids', content)" by (rule prod.exhaust)
  have "presentable model (AssistantMessage (a\<lparr>am_content := content\<rparr>))"
    using portable_blocks [of model a norm_id ids "am_content a"] t by (auto simp: presentable_def)
  with 3 t show ?case by (simp add: Let_def)
qed (auto simp: presentable_def split: option.split)

section \<open>Transforming twice\<close>

lemma pass_output_id:
  "calls_answered ms \<Longrightarrow> \<forall>c \<in> set pending. call_id c \<in> existing \<or> answered_in (call_id c) ms \<Longrightarrow>
   \<forall>a. AssistantMessage a \<in> set ms \<longrightarrow> \<not> failed_message a \<Longrightarrow> pass_output now pending existing ms = ms"
proof (induction now pending existing ms rule: pass_output.induct)
  case (2 now pending existing a ms)
  then show ?case by (auto simp: missing_results_def list_all_iff)
next
  case (3 now pending existing r ms)
  then show ?case by (simp, metis)
qed (auto simp: missing_results_def)

lemma no_normalizer: "normalized_id model None a i = i"
  by (simp add: normalized_id_def)

lemma transform_call_twice:
  "transform_call model None b (transform_call model norm_id a c) = transform_call model norm_id a c"
  if "same_model model b = same_model model a"
  using that by (auto simp: transform_call_def no_normalizer Let_def split: option.splits)

lemma blocks_twice:
  "same_model model b = same_model model a \<Longrightarrow>
   transform_blocks model None b none (snd (transform_blocks model norm_id a ids bs)) =
     (none, snd (transform_blocks model norm_id a ids bs))"
proof (induction model norm_id a ids bs arbitrary: none rule: transform_blocks.induct)
  case (2 model norm_id a ids t bs)
  then show ?case
    by (auto simp: transform_thinking_def plain_text_def split: prod.splits)
next
  case (4 model norm_id a ids c bs)
  then show ?case
    by (auto simp: Let_def no_normalizer transform_call_twice split: prod.splits)
qed (auto simp: plain_text_def split: prod.splits)

definition settled_message :: "target_model \<Rightarrow> agent_message \<Rightarrow> bool" where
  "settled_message model m = (first_pass model None Map.empty [m] = [m])"

lemma first_pass_settled: "m \<in> set (first_pass model norm_id ids ms) \<Longrightarrow> settled_message model m"
proof (induction model norm_id ids ms rule: first_pass.induct)
  case (3 model norm_id ids a ms)
  obtain ids' content where t: "transform_blocks model norm_id a ids (am_content a) = (ids', content)" by (rule prod.exhaust)
  have "transform_blocks model None (a\<lparr>am_content := content\<rparr>) Map.empty content = (Map.empty, content)"
    using blocks_twice [of model "a\<lparr>am_content := content\<rparr>" a Map.empty norm_id ids "am_content a"] t by simp
  then have "settled_message model (AssistantMessage (a\<lparr>am_content := content\<rparr>))" by (simp add: settled_message_def)
  with 3 t show ?case by auto
qed (auto simp: settled_message_def)

lemma no_normalizer_ids: "fst (transform_blocks model None a ids bs) = ids"
proof (induction bs arbitrary: ids)
  case (Cons b bs)
  then show ?case by (cases b) (simp_all add: no_normalizer split_beta)
qed simp

lemma first_pass_id: "\<forall>m \<in> set ms. settled_message model m \<Longrightarrow> first_pass model None Map.empty ms = ms"
proof (induction ms)
  case (Cons m ms)
  then have m: "first_pass model None Map.empty [m] = [m]" by (simp add: settled_message_def)
  show ?case
  proof (cases m)
    case (AssistantMessage a)
    with m Cons no_normalizer_ids [of model a Map.empty "am_content a"] show ?thesis by (auto split: prod.splits)
  qed (use m Cons in auto)
qed simp

lemma downgrade_id: "\<forall>m \<in> set ms. presentable model m \<Longrightarrow> downgradeUnsupportedImages ms model = ms"
proof -
  assume p: "\<forall>m \<in> set ms. presentable model m"
  have "downgrade_message m = m" if "presentable model m" "''image'' \<notin> set (tm_input model)" for m
    using that by (cases m)
      (auto simp: downgrade_message_def presentable_def replaceImagesWithPlaceholder_def replace_images_id split: user_content.splits)
  with p show "downgradeUnsupportedImages ms model = ms"
    by (simp add: downgradeUnsupportedImages_def map_idI)
qed

lemma transformed_presentable_settled:
  assumes "m \<in> set (pass_output now [] {} (transformed messages model norm_id))"
  shows "presentable model m \<and> settled_message model m"
proof -
  consider "m \<in> set (transformed messages model norm_id)" | c where "m = synthetic_result now c"
    using pass_output_set [OF assms] by blast
  then show ?thesis
  proof cases
    case 1
    then show ?thesis
      using first_pass_presentable downgraded_presentable first_pass_settled unfolding transformed_def by blast
  next
    case (2 c)
    then show ?thesis by (simp add: presentable_def settled_message_def synthetic_result_def has_image_def)
  qed
qed

text \<open>C29: A provider gets only what its model can take.  If the model takes no images, no user message and no tool
  result contains one; messages of other models contain no thinking and no signatures.\<close>

theorem transformed_presentable:
  "list_all (presentable model) (fst (transformMessages now messages model norm_id sourceIndices))"
  unfolding list_all_iff transform_output using transformed_presentable_settled by blast

text \<open>Transforming again changes nothing.  What was transformed for a model is its own transformation for that model: no
  result is added twice, no placeholder is repeated, nothing more is dropped.\<close>

theorem transform_idempotent:
  "transformMessages now' (fst (transformMessages now messages model norm_id sourceIndices)) model None None =
     (fst (transformMessages now messages model norm_id sourceIndices), None)"
proof -
  let ?out = "pass_output now [] {} (transformed messages model norm_id)"
  have "transformed ?out model None = ?out"
    using transformed_presentable_settled by (simp add: transformed_def downgrade_id first_pass_id)
  moreover have "pass_output now' [] {} ?out = ?out"
  proof (rule pass_output_id)
    show "calls_answered ?out" using pass_output_answers by blast
    show "\<forall>a. AssistantMessage a \<in> set ?out \<longrightarrow> \<not> failed_message a" using pass_output_not_failed by blast
  qed simp
  ultimately show ?thesis
    by (simp add: transform_output transformMessages_def second_pass_output initial_pass_def)
qed

section \<open>Where the messages come from\<close>

definition missing_pairs :: "nat \<Rightarrow> tool_call list \<Rightarrow> string set \<Rightarrow> (agent_message \<times> int option) list" where
  "missing_pairs now pending existing = map (\<lambda>m. (m, Some (- 1))) (missing_results now pending existing)"

text \<open>The second pass on messages that carry their index.\<close>

fun pass_pairs ::
    "nat \<Rightarrow> tool_call list \<Rightarrow> string set \<Rightarrow> (agent_message \<times> int option) list \<Rightarrow> (agent_message \<times> int option) list" where
  "pass_pairs now pending existing [] = missing_pairs now pending existing"
| "pass_pairs now pending existing ((AssistantMessage a, n) # ms) =
     missing_pairs now pending existing @
     (if failed_message a then pass_pairs now [] {} ms
      else (AssistantMessage a, n) # pass_pairs now (message_tool_calls a) {} ms)"
| "pass_pairs now pending existing ((ToolResultMessage r, n) # ms) =
     (ToolResultMessage r, n) # pass_pairs now pending (insert (tr_toolCallId r) existing) ms"
| "pass_pairs now pending existing ((UserMessage c t, n) # ms) =
     missing_pairs now pending existing @ (UserMessage c t, n) # pass_pairs now [] {} ms"
| "pass_pairs now pending existing (m # ms) = m # pass_pairs now pending existing ms"

lemma missing_pairs_none [simp]: "missing_pairs now [] existing = []"
  by (simp add: missing_pairs_def)

lemma missing_pairs_fst: "map fst (missing_pairs now pending existing) = missing_results now pending existing"
  by (simp add: missing_pairs_def comp_def)

lemma missing_pairs_snd: "(m, n) \<in> set (missing_pairs now pending existing) \<Longrightarrow> n = Some (- 1) \<and> (\<exists>c. m = synthetic_result now c)"
  by (auto simp: missing_pairs_def missing_results_def)

lemma pass_pairs_fst: "map fst (pass_pairs now pending existing xs) = pass_output now pending existing (map fst xs)"
  by (induction now pending existing xs rule: pass_pairs.induct) (simp_all add: missing_pairs_fst)

lemma pass_pairs_idle: "pass_pairs now [] existing xs = pass_pairs now [] {} xs"
proof (induction xs arbitrary: existing)
  case (Cons x xs)
  then show ?case by (cases x; cases "fst x") (simp_all, metis)
qed simp

definition with_indices :: "int list \<Rightarrow> nat \<Rightarrow> agent_message list \<Rightarrow> (agent_message \<times> int option) list" where
  "with_indices indices i ms = zip ms (map (\<lambda>k. js_index indices (int k)) [i..<i + length ms])"

lemma with_indices_simps [simp]:
  "with_indices indices i [] = []"
  "with_indices indices i (m # ms) = (m, js_index indices (int i)) # with_indices indices (Suc i) ms"
  by (simp_all add: with_indices_def upt_conv_Cons del: upt_Suc)

lemma insert_indices: "ps_indices (insertSyntheticToolResults now s) =
    ps_indices s @ map snd (missing_pairs now (ps_pendingToolCalls s) (ps_existingToolResultIds s))"
  by (simp add: insertSyntheticToolResults_def missing_pairs_def missing_results_def Let_def comp_def)

lemma second_pass_indices:
  "ps_indices (second_pass now indices i ms s) =
     ps_indices s @ map snd (pass_pairs now (ps_pendingToolCalls s) (ps_existingToolResultIds s) (with_indices indices i ms))"
proof (induction ms arbitrary: i s)
  case Nil
  then show ?case by (simp add: insert_indices)
next
  case (Cons m ms)
  note idle = pass_pairs_idle [of now "ps_existingToolResultIds (insertSyntheticToolResults now s)"
      "with_indices indices (Suc i) ms"]
  show ?case
    by (cases m) (simp_all add: Cons.IH pass_message_def push_message_def insert_indices idle Let_def)
qed

lemma with_indices_fst: "map fst (with_indices indices i ms) = ms"
  by (simp add: with_indices_def)

lemma transform_pairs:
  "transformMessages now messages model norm_id (Some indices) =
     (map fst (pass_pairs now [] {} (with_indices indices 0 (transformed messages model norm_id))),
      Some (map snd (pass_pairs now [] {} (with_indices indices 0 (transformed messages model norm_id)))))"
  by (simp add: transformMessages_def second_pass_output second_pass_indices initial_pass_def Let_def pass_pairs_fst with_indices_fst)

lemma first_pass_length [simp]: "length (first_pass model norm_id ids ms) = length ms"
  by (induction model norm_id ids ms rule: first_pass.induct) (auto split: prod.splits)

lemma transformed_length [simp]: "length (transformed messages model norm_id) = length messages"
  by (simp add: transformed_def downgradeUnsupportedImages_def)

definition sent_pair :: "agent_message \<times> int option \<Rightarrow> bool" where
  "sent_pair p = (case fst p of AssistantMessage a \<Rightarrow> \<not> failed_message a | _ \<Rightarrow> True)"

lemma missing_pairs_dropped [simp]: "filter (\<lambda>p. snd p \<noteq> Some (- 1)) (missing_pairs now pending existing) = []"
  by (simp add: missing_pairs_def filter_empty_conv)

lemma pass_pairs_kept:
  assumes "\<forall>p \<in> set xs. snd p \<noteq> Some (- 1)"
  shows "filter (\<lambda>p. snd p \<noteq> Some (- 1)) (pass_pairs now pending existing xs) = filter sent_pair xs"
  using assms
  by (induction now pending existing xs rule: pass_pairs.induct) (auto simp: sent_pair_def)

lemma pass_pairs_added:
  assumes "\<forall>p \<in> set xs. snd p \<noteq> Some (- 1)" "(m, Some (- 1)) \<in> set (pass_pairs now pending existing xs)"
  shows "\<exists>c. m = synthetic_result now c"
  using assms
  by (induction now pending existing xs rule: pass_pairs.induct) (auto dest: missing_pairs_snd split: if_splits)

lemma with_indices_all: "length indices = length ms \<Longrightarrow> with_indices indices 0 ms = zip ms (map Some indices)"
  by (rule nth_equalityI) (auto simp: with_indices_def js_index_def)

text \<open>The transformation keeps track of its sources.  Given an index for each message, what it returns pairs up as the
  transformed messages with their indices, in order and without the failed responses, and between them synthetic
  results with the index -1.\<close>

theorem transform_tracks_sources:
  fixes indices :: "int list"
  assumes "length indices = length messages" "\<forall>i \<in> set indices. 0 \<le> i"
    and "transformMessages now messages model norm_id (Some indices) = (out, Some sources)"
  shows "length sources = length out \<and>
    filter (\<lambda>p. snd p \<noteq> Some (- 1)) (zip out sources) =
      filter sent_pair (zip (transformed messages model norm_id) (map Some indices)) \<and>
    (\<forall>m. (m, Some (- 1)) \<in> set (zip out sources) \<longrightarrow> (\<exists>c. m = synthetic_result now c))"
proof -
  let ?xs = "with_indices indices 0 (transformed messages model norm_id)"
  have xs: "?xs = zip (transformed messages model norm_id) (map Some indices)"
    using assms(1) by (simp add: with_indices_all)
  have out: "out = map fst (pass_pairs now [] {} ?xs)" "sources = map snd (pass_pairs now [] {} ?xs)"
    using assms(3) by (simp_all add: transform_pairs)
  have "\<forall>p \<in> set ?xs. snd p \<noteq> Some (- 1)"
    using assms(2) unfolding xs by (fastforce dest!: set_zip_rightD)
  from pass_pairs_kept [OF this] pass_pairs_added [OF this] show ?thesis
    by (simp add: out zip_map_fst_snd xs)
qed

section \<open>What a provider may cache\<close>

definition safe_pair :: "int \<Rightarrow> agent_message \<times> int option \<Rightarrow> bool" where
  "safe_pair v p = (case snd p of Some i \<Rightarrow> 0 \<le> i \<and> i < v | None \<Rightarrow> False)"

definition groups :: "int option list \<Rightarrow> int list list" where
  "groups sources = map (\<lambda>n. case n of Some i \<Rightarrow> [i] | None \<Rightarrow> []) sources"

lemma find_index_length: "(case find_index p xs of Some i \<Rightarrow> i | None \<Rightarrow> length xs) = length (takeWhile (\<lambda>x. \<not> p x) xs)"
  by (induction xs) (auto split: option.splits)

lemma cacheSafePrefix_length:
  assumes "None \<notin> snd ` set ps"
  shows "cacheSafePrefix (groups (map snd ps)) v = length (takeWhile (safe_pair v) ps)"
proof -
  let ?unsafe = "\<lambda>group. list_ex (\<lambda>i. i < 0 \<or> i \<ge> v) group"
  let ?group = "\<lambda>p. case snd p of Some i \<Rightarrow> [i] | None \<Rightarrow> []"
  have "safe_pair v p = (\<not> ?unsafe (?group p))" if "p \<in> set ps" for p
    using assms that by (cases "snd p") (auto simp: safe_pair_def image_iff)
  then have "takeWhile (safe_pair v) ps = takeWhile (\<lambda>p. \<not> ?unsafe (?group p)) ps"
    by (rule takeWhile_cong [OF refl])
  then show ?thesis
    by (simp add: cacheSafePrefix_def find_index_length groups_def takeWhile_map comp_def)
qed

lemma missing_pairs_unsafe: "p \<in> set (missing_pairs now pending existing) \<Longrightarrow> \<not> safe_pair v p"
  by (cases p) (auto dest: missing_pairs_snd simp: safe_pair_def)

lemma missing_cut: "missing_pairs now pending existing \<noteq> [] \<Longrightarrow>
    takeWhile (safe_pair v) (missing_pairs now pending existing @ xs) = []"
  using missing_pairs_unsafe [of "hd (missing_pairs now pending existing)" now pending existing v]
  by (cases "missing_pairs now pending existing") auto

lemma pass_pairs_unsafe:
  "\<forall>p \<in> set xs. \<not> safe_pair v p \<Longrightarrow> p \<in> set (pass_pairs now pending existing xs) \<Longrightarrow> \<not> safe_pair v p"
  by (induction now pending existing xs rule: pass_pairs.induct) (auto dest: missing_pairs_unsafe split: if_splits)

text \<open>As long as nothing synthetic and nothing volatile has come, the pass has only seen what the two inputs share.\<close>

lemma safe_prefix_shared:
  assumes "\<forall>p \<in> set rest. \<not> safe_pair v p"
  shows "prefix (takeWhile (safe_pair v) (pass_pairs now pending existing (shared @ rest)))
    (pass_pairs now' pending existing (shared @ rest'))"
proof (induction shared arbitrary: pending existing)
  case Nil
  have "takeWhile (safe_pair v) (pass_pairs now pending existing rest) = []"
    using pass_pairs_unsafe [OF assms] by (metis hd_in_set takeWhile_eq_Nil_iff)
  then show ?case by simp
next
  case (Cons p shared)
  obtain m n where p: "p = (m, n)" by (rule prod.exhaust)
  have same: "missing_pairs now pending existing = [] \<Longrightarrow> missing_pairs now' pending existing = []"
    by (simp add: missing_pairs_def missing_results_def)
  show ?case
  proof (cases m)
    case (AssistantMessage a)
    with Cons.IH [of "message_tool_calls a" "{}"] Cons.IH [of "[]" "{}"] same p show ?thesis
      by (cases "missing_pairs now pending existing = []") (simp_all add: missing_cut)
  next
    case (UserMessage c t)
    with Cons.IH [of "[]" "{}"] same p show ?thesis
      by (cases "missing_pairs now pending existing = []") (simp_all add: missing_cut)
  next
    case (ToolResultMessage r)
    with Cons.IH [of pending "insert (tr_toolCallId r) existing"] p show ?thesis by simp
  qed (use Cons.IH [of pending existing] p in simp_all)
qed

lemma first_pass_append:
  "\<exists>ids'. \<forall>bs. first_pass model norm_id ids (as @ bs) = first_pass model norm_id ids as @ first_pass model norm_id ids' bs"
proof (induction model norm_id ids as rule: first_pass.induct)
  case (3 model norm_id ids a ms)
  obtain ids1 content where "transform_blocks model norm_id a ids (am_content a) = (ids1, content)" by (rule prod.exhaust)
  with 3 show ?case by simp
qed auto

lemma transformed_append:
  "\<exists>rest. \<forall>bs. transformed (as @ bs) model norm_id = transformed as model norm_id @ rest bs"
proof -
  obtain ids where "\<forall>bs. first_pass model norm_id Map.empty (downgradeUnsupportedImages as model @ bs) =
      first_pass model norm_id Map.empty (downgradeUnsupportedImages as model) @ first_pass model norm_id ids bs"
    using first_pass_append by blast
  moreover have "downgradeUnsupportedImages (as @ bs) model =
      downgradeUnsupportedImages as model @ downgradeUnsupportedImages bs model" for bs
    by (simp add: downgradeUnsupportedImages_def)
  ultimately show ?thesis by (auto simp: transformed_def)
qed

definition kept_here :: "string option \<Rightarrow> agent_message \<Rightarrow> bool" where
  "kept_here systemPrompt m = (\<not> (no_prompt systemPrompt \<and> system_content m \<noteq> None))"

lemma split_messages: "snd (splitSystemMessages messages systemPrompt) = filter (kept_here systemPrompt) messages"
proof (cases "no_prompt systemPrompt")
  case True
  have "List.map_filter system_content messages = [] \<Longrightarrow> filter (\<lambda>m. system_content m = None) messages = messages"
    by (auto simp: map_filter_def filter_empty_conv intro!: filter_True)
  moreover have "kept_here systemPrompt = (\<lambda>m. system_content m = None)"
    using True by (auto simp: kept_here_def)
  ultimately show ?thesis
    using True by (auto simp: splitSystemMessages_def no_prompt_def Let_def split: option.splits list.splits)
next
  case False
  then show ?thesis
    by (auto simp: splitSystemMessages_def kept_here_def no_prompt_def split: option.splits list.splits)
qed

definition volatile_options :: "nat \<Rightarrow> cache_options" where
  "volatile_options v = \<lparr>co_volatileFrom = Some (JsInt (int v)), co_sourceIndices = None\<rparr>"

definition indexed :: "string option \<Rightarrow> agent_message list \<Rightarrow> (agent_message \<times> nat) list" where
  "indexed systemPrompt messages = filter (kept_here systemPrompt \<circ> fst) (zip messages [0..<length messages])"

lemma indexed_messages: "map fst (indexed systemPrompt messages) = snd (splitSystemMessages messages systemPrompt)"
proof -
  have "map fst (filter (P \<circ> fst) (zip xs ys)) = filter P xs" if "length xs = length ys" for P and xs :: "agent_message list" and ys :: "nat list"
    using that by (induction xs ys rule: list_induct2) auto
  then show ?thesis by (simp add: indexed_def split_messages)
qed

lemma indexed_sources:
  "cacheMessageSources messages (volatile_options v) systemPrompt = Some (map (int \<circ> snd) (indexed systemPrompt messages))"
proof -
  have "List.map_filter (\<lambda>(m, i). if no_prompt systemPrompt \<and> system_content m \<noteq> None then None else Some i)
      (zip ms (map int is)) = map (int \<circ> snd) (filter (kept_here systemPrompt \<circ> fst) (zip ms is))" for ms "is"
    by (induction ms "is" rule: list_induct2') (auto simp: kept_here_def map_filter_simps)
  then show ?thesis
    by (simp add: cacheMessageSources_def volatile_options_def valid_index_def indexed_def Let_def comp_def)
qed

lemma indexed_split:
  "\<exists>rest. indexed systemPrompt messages = indexed systemPrompt (take v messages) @ rest \<and> (\<forall>p \<in> set rest. v \<le> snd p)"
proof -
  let ?k = "length (take v messages)"
  let ?rest = "filter (kept_here systemPrompt \<circ> fst) (zip (drop v messages) [?k..<length messages])"
  have "[0..<length messages] = [0..<?k] @ [?k..<length messages]"
    using upt_add_eq_append [of 0 ?k "length messages - ?k"] by simp
  then have "zip messages [0..<length messages] =
      zip (take v messages) [0..<?k] @ zip (drop v messages) [?k..<length messages]"
    by (metis append_take_drop_id length_upt minus_nat.diff_0 zip_append)
  then have "indexed systemPrompt messages = indexed systemPrompt (take v messages) @ ?rest"
    by (simp add: indexed_def)
  moreover have "v \<le> snd p" if "p \<in> set ?rest" for p
  proof -
    have "(fst p, snd p) \<in> set (zip (drop v messages) [?k..<length messages])" using that by simp
    from set_zip_leftD [OF this] set_zip_rightD [OF this] show ?thesis by (cases "v \<le> length messages") auto
  qed
  ultimately show ?thesis by blast
qed

text \<open>The pairs the second pass gets in a request.\<close>

definition request_pairs ::
    "string option \<Rightarrow> agent_message list \<Rightarrow> target_model \<Rightarrow> normalizer \<Rightarrow> (agent_message \<times> int option) list" where
  "request_pairs systemPrompt messages model norm_id =
     zip (transformed (map fst (indexed systemPrompt messages)) model norm_id)
       (map (\<lambda>p. Some (int (snd p))) (indexed systemPrompt messages))"

lemma prepare_pairs:
  "snd (prepare_messages now messages systemPrompt (volatile_options v) model norm_id) =
     (let ps = pass_pairs now [] {} (request_pairs systemPrompt messages model norm_id)
      in (map fst ps, Some (map snd ps)))"
proof -
  have "with_indices (map (int \<circ> snd) (indexed systemPrompt messages)) 0
      (transformed (snd (splitSystemMessages messages systemPrompt)) model norm_id) =
    request_pairs systemPrompt messages model norm_id"
    by (simp add: with_indices_all request_pairs_def comp_def flip: indexed_messages)
  then show ?thesis
    by (simp add: prepare_messages_def indexed_sources transform_pairs split_beta Let_def)
qed

lemma request_pairs_split:
  "\<exists>shared. \<forall>messages'. take v messages' = take v messages \<longrightarrow>
     (\<exists>rest. request_pairs systemPrompt messages' model norm_id = shared @ rest \<and> (\<forall>p \<in> set rest. \<not> safe_pair (int v) p))"
proof -
  let ?kept = "indexed systemPrompt (take v messages)"
  obtain later where later: "\<And>bs. transformed (map fst ?kept @ bs) model norm_id = transformed (map fst ?kept) model norm_id @ later bs"
    using transformed_append by metis
  let ?shared = "zip (transformed (map fst ?kept) model norm_id) (map (\<lambda>p. Some (int (snd p))) ?kept)"
  show ?thesis
  proof (rule exI [of _ ?shared], intro allI impI)
    fix messages' assume same: "take v messages' = take v messages"
    obtain new where new: "indexed systemPrompt messages' = ?kept @ new" "\<forall>p \<in> set new. v \<le> snd p"
      using indexed_split [of systemPrompt messages' v] same by auto
    let ?rest = "zip (later (map fst new)) (map (\<lambda>p. Some (int (snd p))) new)"
    have "request_pairs systemPrompt messages' model norm_id = ?shared @ ?rest"
      by (simp add: request_pairs_def new(1) later)
    moreover have "\<not> safe_pair (int v) p" if "p \<in> set ?rest" for p
    proof (cases p)
      case (Pair m n)
      with that new(2) show ?thesis by (fastforce simp: safe_pair_def dest!: set_zip_rightD)
    qed
    ultimately show "\<exists>rest. request_pairs systemPrompt messages' model norm_id = ?shared @ rest \<and>
        (\<forall>p \<in> set rest. \<not> safe_pair (int v) p)" by blast
  qed
qed

lemma request_pairs_known: "None \<notin> snd ` set (pass_pairs now [] {} (request_pairs systemPrompt messages model norm_id))"
proof -
  have known: "None \<notin> snd ` set (pass_pairs now p e xs)" if "None \<notin> snd ` set xs" for p e xs
    using that by (induction now p e xs rule: pass_pairs.induct) (auto dest: missing_pairs_snd split: if_splits)
  show ?thesis by (rule known) (auto simp: request_pairs_def dest!: set_zip_rightD)
qed


section \<open>A request\<close>

definition sample_target :: target_model where
  "sample_target = \<lparr>tm_id = ''m'', tm_api = ''a'', tm_provider = ''p'', tm_input = [''text'']\<rparr>"

definition sample_usage :: usage where
  "sample_usage = \<lparr>usage_input = 0, usage_output = 0, usage_cacheRead = 0, usage_cacheWrite = 0, usage_cacheWrite1h = None,
     usage_reasoning = None, usage_totalTokens = 0,
     usage_cost = \<lparr>cost_input = 0, cost_output = 0, cost_cacheRead = 0, cost_cacheWrite = 0, cost_total = 0\<rparr>\<rparr>"

definition sample_turn :: assistant_message where
  "sample_turn = \<lparr>am_content = [AssistantToolCall \<lparr>call_id = ''c|1'', call_name = ''read'', call_arguments = JNull,
       call_thoughtSignature = Some ''s'', call_namespace = None\<rparr>],
     am_api = ''other'', am_provider = ''p'', am_model = ''m'', am_responseModel = None, am_responseId = None,
     am_diagnostics = None, am_usage = sample_usage, am_stopReason = StopToolUse, am_deferred = None, am_errorMessage = None,
     am_rawStopReason = None, am_endTurn = None, am_timestamp = 2\<rparr>"

definition sample_normalizer :: normalizer where
  "sample_normalizer = Some (\<lambda>i model a. filter (\<lambda>c. c \<noteq> CHR ''|'') i)"

definition sample_history :: "agent_message list" where
  "sample_history = [UserMessage (ContentString ''q'') 1, AssistantMessage sample_turn]"

lemmas sample_request_defs = sample_target_def sample_turn_def sample_normalizer_def sample_history_def
  map_filter_simps transformed_def downgradeUnsupportedImages_def downgrade_message_def same_model_def normalized_id_def transform_call_def
  message_tool_calls_def failed_message_def pass_message_def push_message_def insertSyntheticToolResults_def initial_pass_def
  synthetic_result_def js_index_def plain_text_def

theorem transformed_calls_answered_witness:
  "calls_answered (fst (transformMessages 9 sample_history sample_target sample_normalizer None)) \<and>
   \<not> failed_message (sample_turn\<lparr>am_content := [AssistantToolCall \<lparr>call_id = ''c1'', call_name = ''read'', call_arguments = JNull,
       call_thoughtSignature = None, call_namespace = None\<rparr>]\<rparr>)"
proof -
  have "AssistantMessage (sample_turn\<lparr>am_content := [AssistantToolCall \<lparr>call_id = ''c1'', call_name = ''read'', call_arguments = JNull,
       call_thoughtSignature = None, call_namespace = None\<rparr>]\<rparr>) \<in>
      set (fst (transformMessages 9 sample_history sample_target sample_normalizer None))"
    by (simp add: transformMessages_def sample_request_defs Let_def)
  with transformed_calls_answered [of 9 sample_history sample_target sample_normalizer None] show ?thesis by blast
qed

definition sent_turn :: assistant_message where
  "sent_turn = sample_turn\<lparr>am_content := [AssistantToolCall \<lparr>call_id = ''c1'', call_name = ''read'', call_arguments = JNull,
     call_thoughtSignature = None, call_namespace = None\<rparr>]\<rparr>"

definition sample_missing :: agent_message where
  "sample_missing = synthetic_result 9 \<lparr>call_id = ''c1'', call_name = ''read'', call_arguments = JNull,
     call_thoughtSignature = None, call_namespace = None\<rparr>"

lemma sample_transform:
  "transformMessages 9 sample_history sample_target sample_normalizer (Some [0, 1]) =
     ([UserMessage (ContentString ''q'') 1, AssistantMessage sent_turn, sample_missing], Some [Some 0, Some 1, Some (- 1)])"
  by (simp add: transformMessages_def sample_request_defs sent_turn_def sample_missing_def Let_def)

theorem transform_tracks_sources_witness:
  "\<exists>c. sample_missing = synthetic_result 9 c"
proof -
  have "(sample_missing, Some (- 1)) \<in> set (zip [UserMessage (ContentString ''q'') 1, AssistantMessage sent_turn, sample_missing]
      [Some 0, Some 1, Some (- 1 :: int)])"
    by simp
  with transform_tracks_sources [OF _ _ sample_transform] show ?thesis by (simp add: sample_history_def)
qed

lemma sample_prepare:
  "snd (prepare_messages 9 (sample_history @ [UserMessage (ContentString t) 5]) None (volatile_options 2) sample_target sample_normalizer) =
     ([UserMessage (ContentString ''q'') 1, AssistantMessage sent_turn, sample_missing, UserMessage (ContentString t) 5],
      Some [Some 0, Some 1, Some (- 1), Some 2])"
  by (simp add: prepare_messages_def splitSystemMessages_def cacheMessageSources_def volatile_options_def valid_index_def no_prompt_def
      transformMessages_def sample_request_defs sent_turn_def sample_missing_def map_filter_simps upt_rec Let_def)


end
