(* ===== verification/Session_Json.thy ===== *)
theory Session_Json
  imports Session_Types Json_Text "HOL-Library.Monad_Syntax"
begin

text \<open>
  The records of a session as the JSON objects they are in JavaScript, with the property names of
  \<^verbatim>\<open>packages/ai/src/types.ts\<close>, \<^verbatim>\<open>packages/agent/src/harness/messages.ts\<close> and
  \<^verbatim>\<open>packages/agent/src/harness/session/types.ts\<close>.  An undefined property is absent.  Each type has its object
  (\<open>print\<close>), the view of an object as a value of the type (\<open>read\<close>, a cast of the source), and the law that the view of the
  object of a value is the value (the locale \<open>json_view\<close>).
\<close>

type_synonym json_fields = "(string \<times> json) list"

text \<open>Reading a property; \<^verbatim>\<open>undefined\<close> is \<open>None\<close>.\<close>

fun get_prop :: "string \<Rightarrow> json_fields \<Rightarrow> json option" where
  "get_prop k [] = None"
| "get_prop k ((q, j) # ps) = (if q = k then Some j else get_prop k ps)"

lemma get_prop_map_of: "get_prop k ps = map_of ps k"
  by (induction k ps rule: get_prop.induct) auto

section \<open>Views\<close>

definition print_list :: "('a \<Rightarrow> json) \<Rightarrow> 'a list \<Rightarrow> json" where
  "print_list print xs = JArr (map print xs)"

fun read_all :: "(json \<Rightarrow> 'a option) \<Rightarrow> json list \<Rightarrow> 'a list option" where
  "read_all read [] = Some []"
| "read_all read (j # js) = Option.bind (read j) (\<lambda>x. map_option ((#) x) (read_all read js))"

fun read_list :: "(json \<Rightarrow> 'a option) \<Rightarrow> json \<Rightarrow> 'a list option" where
  "read_list read (JArr js) = read_all read js"
| "read_list read _ = None"

text \<open>A property that may be absent, and one that may be null.\<close>

definition opt_field :: "string \<Rightarrow> ('a \<Rightarrow> json) \<Rightarrow> 'a option \<Rightarrow> json_fields" where
  "opt_field k print v = (case v of None \<Rightarrow> [] | Some x \<Rightarrow> [(k, print x)])"

definition read_opt :: "(json \<Rightarrow> 'a option) \<Rightarrow> json option \<Rightarrow> 'a option option" where
  "read_opt read v = (case v of None \<Rightarrow> Some None | Some j \<Rightarrow> map_option Some (read j))"

definition opt_read :: "string \<Rightarrow> (json \<Rightarrow> 'a option) \<Rightarrow> json_fields \<Rightarrow> 'a option option" where
  "opt_read k read ps = read_opt read (get_prop k ps)"

definition req_read :: "string \<Rightarrow> (json \<Rightarrow> 'a option) \<Rightarrow> json_fields \<Rightarrow> 'a option" where
  "req_read k read ps = Option.bind (get_prop k ps) read"

definition print_null :: "('a \<Rightarrow> json) \<Rightarrow> 'a option \<Rightarrow> json" where
  "print_null print v = (case v of None \<Rightarrow> JNull | Some x \<Rightarrow> print x)"

definition read_null :: "(json \<Rightarrow> 'a option) \<Rightarrow> json \<Rightarrow> 'a option option" where
  "read_null read j = (if j = JNull then Some None else map_option Some (read j))"

fun json_object :: "json \<Rightarrow> json_fields option" where
  "json_object (JObj ps) = Some ps"
| "json_object _ = None"

definition first_of :: "'a option \<Rightarrow> 'a option \<Rightarrow> 'a option" where
  "first_of v other = (case v of None \<Rightarrow> other | Some _ \<Rightarrow> v)"

lemma first_of_None [simp]: "first_of v None = v"
  by (simp add: first_of_def split: option.split)

lemma get_prop_opt_field [simp]:
  "get_prop q (opt_field k print v) = (if k = q then map_option print v else None)"
  "get_prop q (opt_field k print v @ ps) = (if k = q then first_of (map_option print v) (get_prop q ps) else get_prop q ps)"
  by (auto simp: opt_field_def first_of_def split: option.splits)

declare opt_read_def [simp] req_read_def [simp]

locale json_view =
  fixes print :: "'a \<Rightarrow> json" and read :: "json \<Rightarrow> 'a option" and ok :: "'a \<Rightarrow> bool"
  assumes read_print [simp]: "ok x \<Longrightarrow> read (print x) = Some x"
begin

lemma read_all_print: "list_all ok xs \<Longrightarrow> read_all read (map print xs) = Some xs"
  by (induction xs) auto

lemma read_list_print [simp]: "list_all ok xs \<Longrightarrow> read_list read (print_list print xs) = Some xs"
  by (simp add: print_list_def read_all_print)

lemma read_opt_print [simp]: "pred_option ok v \<Longrightarrow> read_opt read (map_option print v) = Some v"
  by (cases v) (auto simp: read_opt_def)

lemma read_null_print: "pred_option ok v \<Longrightarrow> \<forall>x. print x \<noteq> JNull \<Longrightarrow> read_null read (print_null print v) = Some v"
  by (cases v) (auto simp: read_null_def print_null_def)

end

lemma pred_option_True [simp]: "pred_option (\<lambda>_. True) v"
  by (cases v) auto

lemma list_all_True [simp]: "list_all (\<lambda>_. True) xs"
  by (simp add: list_all_iff)

section \<open>Basic values\<close>

fun read_str :: "json \<Rightarrow> string option" where
  "read_str (JStr s) = Some s"
| "read_str _ = None"

fun read_bool :: "json \<Rightarrow> bool option" where
  "read_bool (JBool b) = Some b"
| "read_bool _ = None"

definition print_int :: "int \<Rightarrow> json" where
  "print_int i = JNum (JsInt i)"

definition read_int :: "json \<Rightarrow> int option" where
  "read_int j = (case j of JNum x \<Rightarrow> js_int x | _ \<Rightarrow> None)"

definition print_nat :: "nat \<Rightarrow> json" where
  "print_nat n = JNum (JsInt (int n))"

definition read_nat :: "json \<Rightarrow> nat option" where
  "read_nat j = Option.bind (read_int j) (\<lambda>i. if 0 \<le> i then Some (nat i) else None)"

definition print_any :: "json \<Rightarrow> json" where
  "print_any j = j"

definition read_any :: "json \<Rightarrow> json option" where
  "read_any j = Some j"

text \<open>A price is exact in the model and a double in JSON; it survives if the double has its value.\<close>

definition integral :: "rat \<Rightarrow> bool" where
  "integral r = (snd (quotient_of r) = 1)"

definition print_price :: "number_format \<Rightarrow> rat \<Rightarrow> json" where
  "print_price nf r = JNum (if integral r then JsInt (fst (quotient_of r)) else JsFrac (nf_bits nf r))"

definition read_price :: "number_format \<Rightarrow> json \<Rightarrow> rat option" where
  "read_price nf j =
     (case j of
        JNum (JsInt i) \<Rightarrow> Some (of_int i)
      | JNum JsNegZero \<Rightarrow> Some 0
      | JNum (JsFrac b) \<Rightarrow> Some (nf_rat nf b)
      | _ \<Rightarrow> None)"

definition ok_price :: "number_format \<Rightarrow> rat \<Rightarrow> bool" where
  "ok_price nf r = (integral r \<or> nf_rat nf (nf_bits nf r) = r)"

definition read_enum :: "('a \<Rightarrow> string) \<Rightarrow> 'a list \<Rightarrow> json \<Rightarrow> 'a option" where
  "read_enum name xs j = (case j of JStr s \<Rightarrow> find (\<lambda>x. name x = s) xs | _ \<Rightarrow> None)"

interpretation str_view: json_view JStr read_str "\<lambda>_. True"
  by unfold_locales simp

interpretation bool_view: json_view JBool read_bool "\<lambda>_. True"
  by unfold_locales simp

interpretation int_view: json_view print_int read_int "\<lambda>_. True"
  by unfold_locales (simp add: print_int_def read_int_def)

interpretation nat_view: json_view print_nat read_nat "\<lambda>_. True"
  by unfold_locales (simp add: print_nat_def read_nat_def read_int_def)

interpretation any_view: json_view print_any read_any "\<lambda>_. True"
  by unfold_locales (simp add: print_any_def read_any_def)

interpretation strs_view: json_view "print_list JStr" "read_list read_str" "\<lambda>_. True"
  by unfold_locales simp

interpretation anys_view: json_view "print_list print_any" "read_list read_any" "\<lambda>_. True"
  by unfold_locales simp

lemma read_null_str [simp]: "read_null read_str (print_null JStr v) = Some v"
  by (rule str_view.read_null_print) simp_all

interpretation price_view: json_view "print_price nf" "read_price nf" "ok_price nf" for nf
proof unfold_locales
  fix r assume "ok_price nf r"
  moreover have "of_int (fst (quotient_of r)) = r" if "integral r"
    using that quotient_of_div [of r "fst (quotient_of r)" 1] by (metis div_by_1 integral_def of_int_1 prod.collapse)
  ultimately show "read_price nf (print_price nf r) = Some r" by (auto simp: print_price_def read_price_def ok_price_def)
qed

section \<open>Messages\<close>

definition fields_cost :: "number_format \<Rightarrow> usage_cost \<Rightarrow> json_fields" where
  "fields_cost nf x =
     [(''input'', (print_price nf) (cost_input x))] @
     [(''output'', (print_price nf) (cost_output x))] @
     [(''cacheRead'', (print_price nf) (cost_cacheRead x))] @
     [(''cacheWrite'', (print_price nf) (cost_cacheWrite x))] @
     [(''total'', (print_price nf) (cost_total x))]"

definition take_cost :: "number_format \<Rightarrow> json_fields \<Rightarrow> usage_cost option" where
  "take_cost nf ps = do {
     v0 \<leftarrow> req_read ''input'' (read_price nf) ps;
     v1 \<leftarrow> req_read ''output'' (read_price nf) ps;
     v2 \<leftarrow> req_read ''cacheRead'' (read_price nf) ps;
     v3 \<leftarrow> req_read ''cacheWrite'' (read_price nf) ps;
     v4 \<leftarrow> req_read ''total'' (read_price nf) ps;
     Some \<lparr>cost_input = v0, cost_output = v1, cost_cacheRead = v2, cost_cacheWrite = v3, cost_total = v4\<rparr> }"

definition ok_cost :: "number_format \<Rightarrow> usage_cost \<Rightarrow> bool" where
  "ok_cost nf x = (ok_price nf (cost_input x) \<and> ok_price nf (cost_output x) \<and> ok_price nf (cost_cacheRead x) \<and> ok_price nf (cost_cacheWrite x) \<and> ok_price nf (cost_total x))"

lemma take_cost [simp]: "ok_cost nf x \<Longrightarrow> take_cost nf (fields_cost nf x @ ps) = Some x"
  by (cases x) (simp add: take_cost_def fields_cost_def ok_cost_def)

lemma take_cost_skip [simp]: "k \<notin> set [''input'', ''output'', ''cacheRead'', ''cacheWrite'', ''total''] \<Longrightarrow> take_cost nf ((k, j) # ps) = take_cost nf ps"
  by (simp add: take_cost_def)

definition print_cost :: "number_format \<Rightarrow> usage_cost \<Rightarrow> json" where
  "print_cost nf x = JObj (fields_cost nf x)"

definition read_cost :: "number_format \<Rightarrow> json \<Rightarrow> usage_cost option" where
  "read_cost nf j = Option.bind (json_object j) (take_cost nf)"

interpretation cost_view: json_view "print_cost nf" "read_cost nf" "ok_cost nf" for nf
  using take_cost [where ps = "[]"] by unfold_locales (simp add: print_cost_def read_cost_def)

definition fields_usage :: "number_format \<Rightarrow> usage \<Rightarrow> json_fields" where
  "fields_usage nf x =
     [(''input'', print_int (usage_input x))] @
     [(''output'', print_int (usage_output x))] @
     [(''cacheRead'', print_int (usage_cacheRead x))] @
     [(''cacheWrite'', print_int (usage_cacheWrite x))] @
     opt_field ''cacheWrite1h'' print_int (usage_cacheWrite1h x) @
     opt_field ''reasoning'' print_int (usage_reasoning x) @
     [(''totalTokens'', print_int (usage_totalTokens x))] @
     [(''cost'', (print_cost nf) (usage_cost x))]"

definition take_usage :: "number_format \<Rightarrow> json_fields \<Rightarrow> usage option" where
  "take_usage nf ps = do {
     v0 \<leftarrow> req_read ''input'' read_int ps;
     v1 \<leftarrow> req_read ''output'' read_int ps;
     v2 \<leftarrow> req_read ''cacheRead'' read_int ps;
     v3 \<leftarrow> req_read ''cacheWrite'' read_int ps;
     v4 \<leftarrow> opt_read ''cacheWrite1h'' read_int ps;
     v5 \<leftarrow> opt_read ''reasoning'' read_int ps;
     v6 \<leftarrow> req_read ''totalTokens'' read_int ps;
     v7 \<leftarrow> req_read ''cost'' (read_cost nf) ps;
     Some \<lparr>usage_input = v0, usage_output = v1, usage_cacheRead = v2, usage_cacheWrite = v3, usage_cacheWrite1h = v4, usage_reasoning = v5, usage_totalTokens = v6, usage_cost = v7\<rparr> }"

definition ok_usage :: "number_format \<Rightarrow> usage \<Rightarrow> bool" where
  "ok_usage nf x = (ok_cost nf (usage_cost x))"

lemma take_usage [simp]: "ok_usage nf x \<Longrightarrow> get_prop ''cacheWrite1h'' ps = None \<Longrightarrow> get_prop ''reasoning'' ps = None \<Longrightarrow> take_usage nf (fields_usage nf x @ ps) = Some x"
  by (cases x) (simp add: take_usage_def fields_usage_def ok_usage_def)

lemma take_usage_skip [simp]: "k \<notin> set [''input'', ''output'', ''cacheRead'', ''cacheWrite'', ''cacheWrite1h'', ''reasoning'', ''totalTokens'', ''cost''] \<Longrightarrow> take_usage nf ((k, j) # ps) = take_usage nf ps"
  by (simp add: take_usage_def)

definition print_usage :: "number_format \<Rightarrow> usage \<Rightarrow> json" where
  "print_usage nf x = JObj (fields_usage nf x)"

definition read_usage :: "number_format \<Rightarrow> json \<Rightarrow> usage option" where
  "read_usage nf j = Option.bind (json_object j) (take_usage nf)"

interpretation usage_view: json_view "print_usage nf" "read_usage nf" "ok_usage nf" for nf
  using take_usage [where ps = "[]"] by unfold_locales (simp add: print_usage_def read_usage_def)

fun stopReason_name :: "stop_reason \<Rightarrow> string" where
  "stopReason_name StopPending = ''pending''"
| "stopReason_name StopStop = ''stop''"
| "stopReason_name StopLength = ''length''"
| "stopReason_name StopToolUse = ''toolUse''"
| "stopReason_name StopError = ''error''"
| "stopReason_name StopAborted = ''aborted''"
| "stopReason_name StopDeferred = ''deferred''"

definition print_stopReason :: "stop_reason \<Rightarrow> json" where
  "print_stopReason x = JStr (stopReason_name x)"

definition read_stopReason :: "json \<Rightarrow> stop_reason option" where
  "read_stopReason = read_enum stopReason_name [StopPending, StopStop, StopLength, StopToolUse, StopError, StopAborted, StopDeferred]"

interpretation stopReason_view: json_view print_stopReason read_stopReason "\<lambda>_. True"
proof unfold_locales
  show "read_stopReason (print_stopReason x) = Some x" for x
    by (cases x) (simp_all add: print_stopReason_def read_stopReason_def read_enum_def)
qed

definition fields_deferred :: "deferred_handle \<Rightarrow> json_fields" where
  "fields_deferred x =
     [(''provider'', JStr (dh_provider x))] @
     [(''modelId'', JStr (dh_modelId x))] @
     [(''api'', JStr (dh_api x))] @
     [(''id'', JStr (dh_id x))] @
     opt_field ''expiresAt'' print_int (dh_expiresAt x) @
     opt_field ''pollAfterMs'' print_int (dh_pollAfterMs x) @
     opt_field ''data'' print_any (dh_data x)"

definition take_deferred :: "json_fields \<Rightarrow> deferred_handle option" where
  "take_deferred ps = do {
     v0 \<leftarrow> req_read ''provider'' read_str ps;
     v1 \<leftarrow> req_read ''modelId'' read_str ps;
     v2 \<leftarrow> req_read ''api'' read_str ps;
     v3 \<leftarrow> req_read ''id'' read_str ps;
     v4 \<leftarrow> opt_read ''expiresAt'' read_int ps;
     v5 \<leftarrow> opt_read ''pollAfterMs'' read_int ps;
     v6 \<leftarrow> opt_read ''data'' read_any ps;
     Some \<lparr>dh_provider = v0, dh_modelId = v1, dh_api = v2, dh_id = v3, dh_expiresAt = v4, dh_pollAfterMs = v5, dh_data = v6\<rparr> }"

lemma take_deferred [simp]: "get_prop ''expiresAt'' ps = None \<Longrightarrow> get_prop ''pollAfterMs'' ps = None \<Longrightarrow> get_prop ''data'' ps = None \<Longrightarrow> take_deferred (fields_deferred x @ ps) = Some x"
  by (cases x) (simp add: take_deferred_def fields_deferred_def)

lemma take_deferred_skip [simp]: "k \<notin> set [''provider'', ''modelId'', ''api'', ''id'', ''expiresAt'', ''pollAfterMs'', ''data''] \<Longrightarrow> take_deferred ((k, j) # ps) = take_deferred ps"
  by (simp add: take_deferred_def)

definition print_deferred :: "deferred_handle \<Rightarrow> json" where
  "print_deferred x = JObj (fields_deferred x)"

definition read_deferred :: "json \<Rightarrow> deferred_handle option" where
  "read_deferred j = Option.bind (json_object j) take_deferred"

interpretation deferred_view: json_view print_deferred read_deferred "\<lambda>_. True"
  using take_deferred [where ps = "[]"] by unfold_locales (simp add: print_deferred_def read_deferred_def)

definition fields_textContent :: "text_content \<Rightarrow> json_fields" where
  "fields_textContent x =
     [(''text'', JStr (tc_text x))] @
     opt_field ''textSignature'' JStr (tc_textSignature x)"

definition take_textContent :: "json_fields \<Rightarrow> text_content option" where
  "take_textContent ps = do {
     v0 \<leftarrow> req_read ''text'' read_str ps;
     v1 \<leftarrow> opt_read ''textSignature'' read_str ps;
     Some \<lparr>tc_text = v0, tc_textSignature = v1\<rparr> }"

lemma take_textContent [simp]: "get_prop ''textSignature'' ps = None \<Longrightarrow> take_textContent (fields_textContent x @ ps) = Some x"
  by (cases x) (simp add: take_textContent_def fields_textContent_def)

lemma take_textContent_skip [simp]: "k \<notin> set [''text'', ''textSignature''] \<Longrightarrow> take_textContent ((k, j) # ps) = take_textContent ps"
  by (simp add: take_textContent_def)

definition fields_imageContent :: "image_content \<Rightarrow> json_fields" where
  "fields_imageContent x =
     [(''data'', JStr (ic_data x))] @
     [(''mimeType'', JStr (ic_mimeType x))]"

definition take_imageContent :: "json_fields \<Rightarrow> image_content option" where
  "take_imageContent ps = do {
     v0 \<leftarrow> req_read ''data'' read_str ps;
     v1 \<leftarrow> req_read ''mimeType'' read_str ps;
     Some \<lparr>ic_data = v0, ic_mimeType = v1\<rparr> }"

lemma take_imageContent [simp]: "take_imageContent (fields_imageContent x @ ps) = Some x"
  by (cases x) (simp add: take_imageContent_def fields_imageContent_def)

lemma take_imageContent_skip [simp]: "k \<notin> set [''data'', ''mimeType''] \<Longrightarrow> take_imageContent ((k, j) # ps) = take_imageContent ps"
  by (simp add: take_imageContent_def)

definition fields_thinkingContent :: "thinking_content \<Rightarrow> json_fields" where
  "fields_thinkingContent x =
     [(''thinking'', JStr (tk_thinking x))] @
     opt_field ''thinkingSignature'' JStr (tk_thinkingSignature x) @
     opt_field ''redacted'' JBool (tk_redacted x)"

definition take_thinkingContent :: "json_fields \<Rightarrow> thinking_content option" where
  "take_thinkingContent ps = do {
     v0 \<leftarrow> req_read ''thinking'' read_str ps;
     v1 \<leftarrow> opt_read ''thinkingSignature'' read_str ps;
     v2 \<leftarrow> opt_read ''redacted'' read_bool ps;
     Some \<lparr>tk_thinking = v0, tk_thinkingSignature = v1, tk_redacted = v2\<rparr> }"

lemma take_thinkingContent [simp]: "get_prop ''thinkingSignature'' ps = None \<Longrightarrow> get_prop ''redacted'' ps = None \<Longrightarrow> take_thinkingContent (fields_thinkingContent x @ ps) = Some x"
  by (cases x) (simp add: take_thinkingContent_def fields_thinkingContent_def)

lemma take_thinkingContent_skip [simp]: "k \<notin> set [''thinking'', ''thinkingSignature'', ''redacted''] \<Longrightarrow> take_thinkingContent ((k, j) # ps) = take_thinkingContent ps"
  by (simp add: take_thinkingContent_def)

definition fields_toolCall :: "tool_call \<Rightarrow> json_fields" where
  "fields_toolCall x =
     [(''id'', JStr (call_id x))] @
     [(''name'', JStr (call_name x))] @
     [(''arguments'', print_any (call_arguments x))] @
     opt_field ''thoughtSignature'' JStr (call_thoughtSignature x) @
     opt_field ''namespace'' JStr (call_namespace x)"

definition take_toolCall :: "json_fields \<Rightarrow> tool_call option" where
  "take_toolCall ps = do {
     v0 \<leftarrow> req_read ''id'' read_str ps;
     v1 \<leftarrow> req_read ''name'' read_str ps;
     v2 \<leftarrow> req_read ''arguments'' read_any ps;
     v3 \<leftarrow> opt_read ''thoughtSignature'' read_str ps;
     v4 \<leftarrow> opt_read ''namespace'' read_str ps;
     Some \<lparr>call_id = v0, call_name = v1, call_arguments = v2, call_thoughtSignature = v3, call_namespace = v4\<rparr> }"

lemma take_toolCall [simp]: "get_prop ''thoughtSignature'' ps = None \<Longrightarrow> get_prop ''namespace'' ps = None \<Longrightarrow> take_toolCall (fields_toolCall x @ ps) = Some x"
  by (cases x) (simp add: take_toolCall_def fields_toolCall_def)

lemma take_toolCall_skip [simp]: "k \<notin> set [''id'', ''name'', ''arguments'', ''thoughtSignature'', ''namespace''] \<Longrightarrow> take_toolCall ((k, j) # ps) = take_toolCall ps"
  by (simp add: take_toolCall_def)

text \<open>A tagged object: the tag first, then its fields.\<close>

definition tagged :: "string \<Rightarrow> string \<Rightarrow> json_fields \<Rightarrow> json" where
  "tagged key tag ps = JObj ((key, JStr tag) # ps)"

definition read_tag :: "string \<Rightarrow> json \<Rightarrow> (string \<times> json_fields) option" where
  "read_tag key j =
     (case j of
        JObj ps \<Rightarrow> map_option (\<lambda>s. (s, ps)) (Option.bind (get_prop key ps) read_str)
      | _ \<Rightarrow> None)"

lemma read_tag_tagged [simp]: "read_tag key (tagged key tag ps) = Some (tag, (key, JStr tag) # ps)"
  by (simp add: read_tag_def tagged_def)

fun print_block :: "content_block \<Rightarrow> json" where
  "print_block (TextBlock t) = tagged ''type'' ''text'' (fields_textContent t)"
| "print_block (ImageBlock i) = tagged ''type'' ''image'' (fields_imageContent i)"

definition read_block :: "json \<Rightarrow> content_block option" where
  "read_block j = do {
     (tag, ps) \<leftarrow> read_tag ''type'' j;
     if tag = ''text'' then map_option TextBlock (take_textContent ps)
     else if tag = ''image'' then map_option ImageBlock (take_imageContent ps)
     else None }"

interpretation block_view: json_view print_block read_block "\<lambda>_. True"
proof unfold_locales
  show "read_block (print_block b) = Some b" for b
    using take_textContent [where ps = "[]"] take_imageContent [where ps = "[]"]
    by (cases b) (simp_all add: read_block_def)
qed

fun print_assistantBlock :: "assistant_block \<Rightarrow> json" where
  "print_assistantBlock (AssistantText t) = tagged ''type'' ''text'' (fields_textContent t)"
| "print_assistantBlock (AssistantThinking t) = tagged ''type'' ''thinking'' (fields_thinkingContent t)"
| "print_assistantBlock (AssistantToolCall c) = tagged ''type'' ''toolCall'' (fields_toolCall c)"

definition read_assistantBlock :: "json \<Rightarrow> assistant_block option" where
  "read_assistantBlock j = do {
     (tag, ps) \<leftarrow> read_tag ''type'' j;
     if tag = ''text'' then map_option AssistantText (take_textContent ps)
     else if tag = ''thinking'' then map_option AssistantThinking (take_thinkingContent ps)
     else if tag = ''toolCall'' then map_option AssistantToolCall (take_toolCall ps)
     else None }"

interpretation assistantBlock_view: json_view print_assistantBlock read_assistantBlock "\<lambda>_. True"
proof unfold_locales
  show "read_assistantBlock (print_assistantBlock b) = Some b" for b
    using take_textContent [where ps = "[]"] take_thinkingContent [where ps = "[]"] take_toolCall [where ps = "[]"]
    by (cases b) (simp_all add: read_assistantBlock_def)
qed

fun print_content :: "user_content \<Rightarrow> json" where
  "print_content (ContentString s) = JStr s"
| "print_content (ContentBlocks bs) = print_list print_block bs"

definition read_content :: "json \<Rightarrow> user_content option" where
  "read_content j = (case j of JStr s \<Rightarrow> Some (ContentString s) | _ \<Rightarrow> map_option ContentBlocks (read_list read_block j))"

interpretation content_view: json_view print_content read_content "\<lambda>_. True"
proof unfold_locales
  show "read_content (print_content c) = Some c" for c
    using block_view.read_list_print [where xs = "case c of ContentBlocks bs \<Rightarrow> bs | _ \<Rightarrow> []"]
    by (cases c) (simp_all add: read_content_def print_list_def)
qed

definition fields_assistant :: "number_format \<Rightarrow> assistant_message \<Rightarrow> json_fields" where
  "fields_assistant nf x =
     [(''content'', (print_list print_assistantBlock) (am_content x))] @
     [(''api'', JStr (am_api x))] @
     [(''provider'', JStr (am_provider x))] @
     [(''model'', JStr (am_model x))] @
     opt_field ''responseModel'' JStr (am_responseModel x) @
     opt_field ''responseId'' JStr (am_responseId x) @
     opt_field ''diagnostics'' (print_list print_any) (am_diagnostics x) @
     [(''usage'', (print_usage nf) (am_usage x))] @
     [(''stopReason'', print_stopReason (am_stopReason x))] @
     opt_field ''deferred'' print_deferred (am_deferred x) @
     opt_field ''errorMessage'' JStr (am_errorMessage x) @
     opt_field ''rawStopReason'' JStr (am_rawStopReason x) @
     opt_field ''endTurn'' JBool (am_endTurn x) @
     [(''timestamp'', print_nat (am_timestamp x))]"

definition take_assistant :: "number_format \<Rightarrow> json_fields \<Rightarrow> assistant_message option" where
  "take_assistant nf ps = do {
     v0 \<leftarrow> req_read ''content'' (read_list read_assistantBlock) ps;
     v1 \<leftarrow> req_read ''api'' read_str ps;
     v2 \<leftarrow> req_read ''provider'' read_str ps;
     v3 \<leftarrow> req_read ''model'' read_str ps;
     v4 \<leftarrow> opt_read ''responseModel'' read_str ps;
     v5 \<leftarrow> opt_read ''responseId'' read_str ps;
     v6 \<leftarrow> opt_read ''diagnostics'' (read_list read_any) ps;
     v7 \<leftarrow> req_read ''usage'' (read_usage nf) ps;
     v8 \<leftarrow> req_read ''stopReason'' read_stopReason ps;
     v9 \<leftarrow> opt_read ''deferred'' read_deferred ps;
     v10 \<leftarrow> opt_read ''errorMessage'' read_str ps;
     v11 \<leftarrow> opt_read ''rawStopReason'' read_str ps;
     v12 \<leftarrow> opt_read ''endTurn'' read_bool ps;
     v13 \<leftarrow> req_read ''timestamp'' read_nat ps;
     Some \<lparr>am_content = v0, am_api = v1, am_provider = v2, am_model = v3, am_responseModel = v4, am_responseId = v5, am_diagnostics = v6, am_usage = v7, am_stopReason = v8, am_deferred = v9, am_errorMessage = v10, am_rawStopReason = v11, am_endTurn = v12, am_timestamp = v13\<rparr> }"

definition ok_assistant :: "number_format \<Rightarrow> assistant_message \<Rightarrow> bool" where
  "ok_assistant nf x = (ok_usage nf (am_usage x))"

lemma take_assistant [simp]: "ok_assistant nf x \<Longrightarrow> get_prop ''responseModel'' ps = None \<Longrightarrow> get_prop ''responseId'' ps = None \<Longrightarrow> get_prop ''diagnostics'' ps = None \<Longrightarrow> get_prop ''deferred'' ps = None \<Longrightarrow> get_prop ''errorMessage'' ps = None \<Longrightarrow> get_prop ''rawStopReason'' ps = None \<Longrightarrow> get_prop ''endTurn'' ps = None \<Longrightarrow> take_assistant nf (fields_assistant nf x @ ps) = Some x"
  by (cases x) (simp add: take_assistant_def fields_assistant_def ok_assistant_def)

lemma take_assistant_skip [simp]: "k \<notin> set [''content'', ''api'', ''provider'', ''model'', ''responseModel'', ''responseId'', ''diagnostics'', ''usage'', ''stopReason'', ''deferred'', ''errorMessage'', ''rawStopReason'', ''endTurn'', ''timestamp''] \<Longrightarrow> take_assistant nf ((k, j) # ps) = take_assistant nf ps"
  by (simp add: take_assistant_def)

definition fields_toolResult :: "number_format \<Rightarrow> tool_result_message \<Rightarrow> json_fields" where
  "fields_toolResult nf x =
     [(''toolCallId'', JStr (tr_toolCallId x))] @
     [(''toolName'', JStr (tr_toolName x))] @
     [(''content'', (print_list print_block) (tr_content x))] @
     opt_field ''details'' print_any (tr_details x) @
     opt_field ''usage'' (print_usage nf) (tr_usage x) @
     opt_field ''addedToolNames'' (print_list JStr) (tr_addedToolNames x) @
     [(''isError'', JBool (tr_isError x))] @
     [(''timestamp'', print_nat (tr_timestamp x))]"

definition take_toolResult :: "number_format \<Rightarrow> json_fields \<Rightarrow> tool_result_message option" where
  "take_toolResult nf ps = do {
     v0 \<leftarrow> req_read ''toolCallId'' read_str ps;
     v1 \<leftarrow> req_read ''toolName'' read_str ps;
     v2 \<leftarrow> req_read ''content'' (read_list read_block) ps;
     v3 \<leftarrow> opt_read ''details'' read_any ps;
     v4 \<leftarrow> opt_read ''usage'' (read_usage nf) ps;
     v5 \<leftarrow> opt_read ''addedToolNames'' (read_list read_str) ps;
     v6 \<leftarrow> req_read ''isError'' read_bool ps;
     v7 \<leftarrow> req_read ''timestamp'' read_nat ps;
     Some \<lparr>tr_toolCallId = v0, tr_toolName = v1, tr_content = v2, tr_details = v3, tr_usage = v4, tr_addedToolNames = v5, tr_isError = v6, tr_timestamp = v7\<rparr> }"

definition ok_toolResult :: "number_format \<Rightarrow> tool_result_message \<Rightarrow> bool" where
  "ok_toolResult nf x = (pred_option (ok_usage nf) (tr_usage x))"

lemma take_toolResult [simp]: "ok_toolResult nf x \<Longrightarrow> get_prop ''details'' ps = None \<Longrightarrow> get_prop ''usage'' ps = None \<Longrightarrow> get_prop ''addedToolNames'' ps = None \<Longrightarrow> take_toolResult nf (fields_toolResult nf x @ ps) = Some x"
  by (cases x) (simp add: take_toolResult_def fields_toolResult_def ok_toolResult_def)

lemma take_toolResult_skip [simp]: "k \<notin> set [''toolCallId'', ''toolName'', ''content'', ''details'', ''usage'', ''addedToolNames'', ''isError'', ''timestamp''] \<Longrightarrow> take_toolResult nf ((k, j) # ps) = take_toolResult nf ps"
  by (simp add: take_toolResult_def)

definition fields_bashExecution :: "bash_execution_message \<Rightarrow> json_fields" where
  "fields_bashExecution x =
     [(''command'', JStr (be_command x))] @
     [(''output'', JStr (be_output x))] @
     opt_field ''exitCode'' print_int (be_exitCode x) @
     [(''cancelled'', JBool (be_cancelled x))] @
     [(''truncated'', JBool (be_truncated x))] @
     opt_field ''fullOutputPath'' JStr (be_fullOutputPath x) @
     [(''timestamp'', print_nat (be_timestamp x))] @
     opt_field ''excludeFromContext'' JBool (be_excludeFromContext x)"

definition take_bashExecution :: "json_fields \<Rightarrow> bash_execution_message option" where
  "take_bashExecution ps = do {
     v0 \<leftarrow> req_read ''command'' read_str ps;
     v1 \<leftarrow> req_read ''output'' read_str ps;
     v2 \<leftarrow> opt_read ''exitCode'' read_int ps;
     v3 \<leftarrow> req_read ''cancelled'' read_bool ps;
     v4 \<leftarrow> req_read ''truncated'' read_bool ps;
     v5 \<leftarrow> opt_read ''fullOutputPath'' read_str ps;
     v6 \<leftarrow> req_read ''timestamp'' read_nat ps;
     v7 \<leftarrow> opt_read ''excludeFromContext'' read_bool ps;
     Some \<lparr>be_command = v0, be_output = v1, be_exitCode = v2, be_cancelled = v3, be_truncated = v4, be_fullOutputPath = v5, be_timestamp = v6, be_excludeFromContext = v7\<rparr> }"

lemma take_bashExecution [simp]: "get_prop ''exitCode'' ps = None \<Longrightarrow> get_prop ''fullOutputPath'' ps = None \<Longrightarrow> get_prop ''excludeFromContext'' ps = None \<Longrightarrow> take_bashExecution (fields_bashExecution x @ ps) = Some x"
  by (cases x) (simp add: take_bashExecution_def fields_bashExecution_def)

lemma take_bashExecution_skip [simp]: "k \<notin> set [''command'', ''output'', ''exitCode'', ''cancelled'', ''truncated'', ''fullOutputPath'', ''timestamp'', ''excludeFromContext''] \<Longrightarrow> take_bashExecution ((k, j) # ps) = take_bashExecution ps"
  by (simp add: take_bashExecution_def)

definition fields_customMessage :: "custom_message \<Rightarrow> json_fields" where
  "fields_customMessage x =
     [(''customType'', JStr (cm_customType x))] @
     [(''content'', print_content (cm_content x))] @
     [(''display'', JBool (cm_display x))] @
     opt_field ''details'' print_any (cm_details x) @
     [(''timestamp'', print_nat (cm_timestamp x))]"

definition take_customMessage :: "json_fields \<Rightarrow> custom_message option" where
  "take_customMessage ps = do {
     v0 \<leftarrow> req_read ''customType'' read_str ps;
     v1 \<leftarrow> req_read ''content'' read_content ps;
     v2 \<leftarrow> req_read ''display'' read_bool ps;
     v3 \<leftarrow> opt_read ''details'' read_any ps;
     v4 \<leftarrow> req_read ''timestamp'' read_nat ps;
     Some \<lparr>cm_customType = v0, cm_content = v1, cm_display = v2, cm_details = v3, cm_timestamp = v4\<rparr> }"

lemma take_customMessage [simp]: "get_prop ''details'' ps = None \<Longrightarrow> take_customMessage (fields_customMessage x @ ps) = Some x"
  by (cases x) (simp add: take_customMessage_def fields_customMessage_def)

lemma take_customMessage_skip [simp]: "k \<notin> set [''customType'', ''content'', ''display'', ''details'', ''timestamp''] \<Longrightarrow> take_customMessage ((k, j) # ps) = take_customMessage ps"
  by (simp add: take_customMessage_def)

definition fields_branchSummary :: "branch_summary_message \<Rightarrow> json_fields" where
  "fields_branchSummary x =
     [(''summary'', JStr (bs_summary x))] @
     [(''fromId'', JStr (bs_fromId x))] @
     [(''timestamp'', print_nat (bs_timestamp x))]"

definition take_branchSummary :: "json_fields \<Rightarrow> branch_summary_message option" where
  "take_branchSummary ps = do {
     v0 \<leftarrow> req_read ''summary'' read_str ps;
     v1 \<leftarrow> req_read ''fromId'' read_str ps;
     v2 \<leftarrow> req_read ''timestamp'' read_nat ps;
     Some \<lparr>bs_summary = v0, bs_fromId = v1, bs_timestamp = v2\<rparr> }"

lemma take_branchSummary [simp]: "take_branchSummary (fields_branchSummary x @ ps) = Some x"
  by (cases x) (simp add: take_branchSummary_def fields_branchSummary_def)

lemma take_branchSummary_skip [simp]: "k \<notin> set [''summary'', ''fromId'', ''timestamp''] \<Longrightarrow> take_branchSummary ((k, j) # ps) = take_branchSummary ps"
  by (simp add: take_branchSummary_def)

definition fields_compactionSummary :: "compaction_summary_message \<Rightarrow> json_fields" where
  "fields_compactionSummary x =
     [(''summary'', JStr (cs_summary x))] @
     [(''tokensBefore'', print_int (cs_tokensBefore x))] @
     [(''timestamp'', print_nat (cs_timestamp x))]"

definition take_compactionSummary :: "json_fields \<Rightarrow> compaction_summary_message option" where
  "take_compactionSummary ps = do {
     v0 \<leftarrow> req_read ''summary'' read_str ps;
     v1 \<leftarrow> req_read ''tokensBefore'' read_int ps;
     v2 \<leftarrow> req_read ''timestamp'' read_nat ps;
     Some \<lparr>cs_summary = v0, cs_tokensBefore = v1, cs_timestamp = v2\<rparr> }"

lemma take_compactionSummary [simp]: "take_compactionSummary (fields_compactionSummary x @ ps) = Some x"
  by (cases x) (simp add: take_compactionSummary_def fields_compactionSummary_def)

lemma take_compactionSummary_skip [simp]: "k \<notin> set [''summary'', ''tokensBefore'', ''timestamp''] \<Longrightarrow> take_compactionSummary ((k, j) # ps) = take_compactionSummary ps"
  by (simp add: take_compactionSummary_def)

definition plain_fields :: "user_content \<Rightarrow> nat \<Rightarrow> json_fields" where
  "plain_fields c t = [(''content'', print_content c), (''timestamp'', print_nat t)]"

definition take_plain :: "(user_content \<Rightarrow> nat \<Rightarrow> 'a) \<Rightarrow> json_fields \<Rightarrow> 'a option" where
  "take_plain f ps = do {
     c \<leftarrow> req_read ''content'' read_content ps;
     t \<leftarrow> req_read ''timestamp'' read_nat ps;
     Some (f c t) }"

lemma take_plain [simp]: "take_plain f ((''role'', j) # plain_fields c t) = Some (f c t)"
  by (simp add: take_plain_def plain_fields_def)

definition known_roles :: "string list" where
  "known_roles = [''system'', ''user'', ''assistant'', ''toolResult'', ''bashExecution'', ''custom'', ''branchSummary'', ''compactionSummary'']"

text \<open>A message of another role is an object with that role.\<close>

fun print_message :: "number_format \<Rightarrow> agent_message \<Rightarrow> json" where
  "print_message nf (SystemMessage c t) = tagged ''role'' ''system'' (plain_fields c t)"
| "print_message nf (UserMessage c t) = tagged ''role'' ''user'' (plain_fields c t)"
| "print_message nf (AssistantMessage m) = tagged ''role'' ''assistant'' (fields_assistant nf m)"
| "print_message nf (ToolResultMessage m) = tagged ''role'' ''toolResult'' (fields_toolResult nf m)"
| "print_message nf (BashExecutionMessage m) = tagged ''role'' ''bashExecution'' (fields_bashExecution m)"
| "print_message nf (CustomMessage m) = tagged ''role'' ''custom'' (fields_customMessage m)"
| "print_message nf (BranchSummaryMessage m) = tagged ''role'' ''branchSummary'' (fields_branchSummary m)"
| "print_message nf (CompactionSummaryMessage m) = tagged ''role'' ''compactionSummary'' (fields_compactionSummary m)"
| "print_message nf (OtherMessage r j) = j"

definition read_message :: "number_format \<Rightarrow> json \<Rightarrow> agent_message option" where
  "read_message nf j = do {
     (role, ps) \<leftarrow> read_tag ''role'' j;
     if role = ''system'' then take_plain SystemMessage ps
     else if role = ''user'' then take_plain UserMessage ps
     else if role = ''assistant'' then map_option AssistantMessage (take_assistant nf ps)
     else if role = ''toolResult'' then map_option ToolResultMessage (take_toolResult nf ps)
     else if role = ''bashExecution'' then map_option BashExecutionMessage (take_bashExecution ps)
     else if role = ''custom'' then map_option CustomMessage (take_customMessage ps)
     else if role = ''branchSummary'' then map_option BranchSummaryMessage (take_branchSummary ps)
     else if role = ''compactionSummary'' then map_option CompactionSummaryMessage (take_compactionSummary ps)
     else Some (OtherMessage role j) }"

fun ok_message :: "number_format \<Rightarrow> agent_message \<Rightarrow> bool" where
  "ok_message nf (AssistantMessage m) = ok_assistant nf m"
| "ok_message nf (ToolResultMessage m) = ok_toolResult nf m"
| "ok_message nf (OtherMessage r j) = (r \<notin> set known_roles \<and> (\<exists>ps. read_tag ''role'' j = Some (r, ps)))"
| "ok_message nf _ = True"

interpretation message_view: json_view "print_message nf" "read_message nf" "ok_message nf" for nf
proof unfold_locales
  note takes = take_assistant [where ps = "[]"] take_toolResult [where ps = "[]"] take_bashExecution [where ps = "[]"]
    take_customMessage [where ps = "[]"] take_branchSummary [where ps = "[]"] take_compactionSummary [where ps = "[]"]
  show "read_message nf (print_message nf m) = Some m" if "ok_message nf m" for m
    using that takes by (cases m) (auto simp: read_message_def known_roles_def)
qed

section \<open>Entries\<close>

fun payload_name :: "entry_type \<Rightarrow> string" where
  "payload_name MessageType = ''message''"
| "payload_name ModelChangeType = ''model_change''"
| "payload_name ThinkingLevelType = ''thinking_level_change''"
| "payload_name ActiveToolsType = ''active_tools_change''"
| "payload_name CompactionType = ''compaction''"
| "payload_name BranchSummaryType = ''branch_summary''"
| "payload_name CustomType = ''custom''"

fun payload_fields :: "number_format \<Rightarrow> entry_payload \<Rightarrow> json_fields" where
  "payload_fields nf (MessagePayload m terminate) =
     (''message'', print_message nf m) # opt_field ''terminate'' JBool (if terminate then Some True else None)"
| "payload_fields nf (ModelChangePayload provider modelId) = [(''provider'', JStr provider), (''modelId'', JStr modelId)]"
| "payload_fields nf (ThinkingLevelPayload level) = [(''thinkingLevel'', JStr level)]"
| "payload_fields nf (ActiveToolsPayload names) = [(''activeToolNames'', print_list JStr names)]"
| "payload_fields nf (CompactionPayload summary retainedTail tokensBefore details u) =
     [(''summary'', JStr summary), (''retainedTail'', print_list (print_message nf) retainedTail),
      (''tokensBefore'', print_int tokensBefore)] @ opt_field ''details'' print_any details @ opt_field ''usage'' (print_usage nf) u"
| "payload_fields nf (BranchSummaryPayload fromId summary details u) =
     [(''fromId'', JStr fromId), (''summary'', JStr summary)] @
     opt_field ''details'' print_any details @ opt_field ''usage'' (print_usage nf) u"
| "payload_fields nf (CustomPayload customType data) = (''customType'', JStr customType) # opt_field ''data'' print_any data"

definition take_payload :: "number_format \<Rightarrow> string \<Rightarrow> json_fields \<Rightarrow> entry_payload option" where
  "take_payload nf name ps =
     (if name = ''message'' then do {
        m \<leftarrow> req_read ''message'' (read_message nf) ps;
        t \<leftarrow> opt_read ''terminate'' read_bool ps;
        Some (MessagePayload m (t = Some True)) }
      else if name = ''model_change'' then do {
        p \<leftarrow> req_read ''provider'' read_str ps; m \<leftarrow> req_read ''modelId'' read_str ps; Some (ModelChangePayload p m) }
      else if name = ''thinking_level_change'' then map_option ThinkingLevelPayload (req_read ''thinkingLevel'' read_str ps)
      else if name = ''active_tools_change'' then map_option ActiveToolsPayload (req_read ''activeToolNames'' (read_list read_str) ps)
      else if name = ''compaction'' then do {
        s \<leftarrow> req_read ''summary'' read_str ps; r \<leftarrow> req_read ''retainedTail'' (read_list (read_message nf)) ps;
        n \<leftarrow> req_read ''tokensBefore'' read_int ps; d \<leftarrow> opt_read ''details'' read_any ps; u \<leftarrow> opt_read ''usage'' (read_usage nf) ps;
        Some (CompactionPayload s r n d u) }
      else if name = ''branch_summary'' then do {
        f \<leftarrow> req_read ''fromId'' read_str ps; s \<leftarrow> req_read ''summary'' read_str ps;
        d \<leftarrow> opt_read ''details'' read_any ps; u \<leftarrow> opt_read ''usage'' (read_usage nf) ps;
        Some (BranchSummaryPayload f s d u) }
      else if name = ''custom'' then do {
        t \<leftarrow> req_read ''customType'' read_str ps; d \<leftarrow> opt_read ''data'' read_any ps; Some (CustomPayload t d) }
      else None)"

fun ok_payload :: "number_format \<Rightarrow> entry_payload \<Rightarrow> bool" where
  "ok_payload nf (MessagePayload m _) = ok_message nf m"
| "ok_payload nf (CompactionPayload _ retainedTail _ _ u) = (list_all (ok_message nf) retainedTail \<and> pred_option (ok_usage nf) u)"
| "ok_payload nf (BranchSummaryPayload _ _ _ u) = pred_option (ok_usage nf) u"
| "ok_payload nf _ = True"

text \<open>The optional properties of payloads do not occur among what surrounds them.\<close>

definition no_payload_keys :: "json_fields \<Rightarrow> bool" where
  "no_payload_keys ps = list_all (\<lambda>k. get_prop k ps = None) [''terminate'', ''details'', ''usage'', ''data'']"

lemma take_payload [simp]:
  "ok_payload nf p \<Longrightarrow> no_payload_keys ps \<Longrightarrow> take_payload nf (payload_name (payload_type p)) (payload_fields nf p @ ps) = Some p"
  by (cases p) (simp_all add: take_payload_def no_payload_keys_def)

lemma take_payload_skip [simp]:
  "k = ''id'' \<or> k = ''type'' \<Longrightarrow> take_payload nf name ((k, j) # ps) = take_payload nf name ps"
  by (elim disjE) (simp_all add: take_payload_def)

definition fields_provisioned :: "number_format \<Rightarrow> provisioned_entry \<Rightarrow> json_fields" where
  "fields_provisioned nf p =
     [(''id'', JStr (prov_id p)), (''type'', JStr (payload_name (payload_type (prov_payload p))))] @ payload_fields nf (prov_payload p)"

definition take_provisioned :: "number_format \<Rightarrow> json_fields \<Rightarrow> provisioned_entry option" where
  "take_provisioned nf ps = do {
     i \<leftarrow> req_read ''id'' read_str ps;
     t \<leftarrow> req_read ''type'' read_str ps;
     p \<leftarrow> take_payload nf t ps;
     Some \<lparr>prov_id = i, prov_payload = p\<rparr> }"

definition print_provisioned :: "number_format \<Rightarrow> provisioned_entry \<Rightarrow> json" where
  "print_provisioned nf p = JObj (fields_provisioned nf p)"

definition read_provisioned :: "number_format \<Rightarrow> json \<Rightarrow> provisioned_entry option" where
  "read_provisioned nf j = Option.bind (json_object j) (take_provisioned nf)"

definition ok_provisioned :: "number_format \<Rightarrow> provisioned_entry \<Rightarrow> bool" where
  "ok_provisioned nf p = ok_payload nf (prov_payload p)"

interpretation provisioned_view: json_view "print_provisioned nf" "read_provisioned nf" "ok_provisioned nf" for nf
proof unfold_locales
  show "read_provisioned nf (print_provisioned nf p) = Some p" if "ok_provisioned nf p" for p
    using that take_payload [of nf "prov_payload p" "[]"]
    by (simp add: read_provisioned_def print_provisioned_def take_provisioned_def fields_provisioned_def ok_provisioned_def no_payload_keys_def)
qed

definition entry_tail :: "entry \<Rightarrow> json_fields" where
  "entry_tail e = [(''parentId'', print_null JStr (entry_parentId e)), (''seq'', print_nat (entry_seq e)), (''timestamp'', print_nat (entry_timestamp e))]"

definition entry_fields :: "number_format \<Rightarrow> entry \<Rightarrow> json_fields" where
  "entry_fields nf e =
     [(''id'', JStr (entry_id e)), (''type'', JStr (payload_name (entry_kind e)))] @ payload_fields nf (entry_payload e) @ entry_tail e"

definition take_entry :: "number_format \<Rightarrow> json_fields \<Rightarrow> entry option" where
  "take_entry nf ps = do {
     i \<leftarrow> req_read ''id'' read_str ps;
     t \<leftarrow> req_read ''type'' read_str ps;
     p \<leftarrow> take_payload nf t ps;
     parent \<leftarrow> req_read ''parentId'' (read_null read_str) ps;
     n \<leftarrow> req_read ''seq'' read_nat ps;
     time \<leftarrow> req_read ''timestamp'' read_nat ps;
     Some \<lparr>entry_id = i, entry_seq = n, entry_parentId = parent, entry_timestamp = time, entry_payload = p\<rparr> }"

lemma payload_fields_other [simp]:
  "k \<in> {''parentId'', ''seq'', ''timestamp'', ''id'', ''type'', ''kind'', ''lane''} \<Longrightarrow> get_prop k (payload_fields nf p @ ps) = get_prop k ps"
  by (elim insertE emptyE; cases p) simp_all

lemma take_entry_fields: "ok_payload nf (entry_payload e) \<Longrightarrow> take_entry nf (entry_fields nf e) = Some e"
  using take_payload [of nf "entry_payload e" "entry_tail e"]
  by (simp add: take_entry_def entry_fields_def entry_tail_def no_payload_keys_def)

section \<open>Lane records\<close>

definition fields_runIntent :: "number_format \<Rightarrow> run_intent \<Rightarrow> json_fields" where
  "fields_runIntent nf x =
     [(''originalPrompt'', (print_list (print_message nf)) (run_originalPrompt x))] @
     [(''initialMessages'', (print_list (print_provisioned nf)) (run_initialMessages x))] @
     opt_field ''systemPromptOverride'' JStr (run_systemPromptOverride x) @
     opt_field ''resumeData'' print_any (run_resumeData x)"

definition take_runIntent :: "number_format \<Rightarrow> json_fields \<Rightarrow> run_intent option" where
  "take_runIntent nf ps = do {
     v0 \<leftarrow> req_read ''originalPrompt'' (read_list (read_message nf)) ps;
     v1 \<leftarrow> req_read ''initialMessages'' (read_list (read_provisioned nf)) ps;
     v2 \<leftarrow> opt_read ''systemPromptOverride'' read_str ps;
     v3 \<leftarrow> opt_read ''resumeData'' read_any ps;
     Some \<lparr>run_originalPrompt = v0, run_initialMessages = v1, run_systemPromptOverride = v2, run_resumeData = v3\<rparr> }"

definition ok_runIntent :: "number_format \<Rightarrow> run_intent \<Rightarrow> bool" where
  "ok_runIntent nf x = (list_all (ok_message nf) (run_originalPrompt x) \<and> list_all (ok_provisioned nf) (run_initialMessages x))"

lemma take_runIntent [simp]: "ok_runIntent nf x \<Longrightarrow> get_prop ''systemPromptOverride'' ps = None \<Longrightarrow> get_prop ''resumeData'' ps = None \<Longrightarrow> take_runIntent nf (fields_runIntent nf x @ ps) = Some x"
  by (cases x) (simp add: take_runIntent_def fields_runIntent_def ok_runIntent_def)

lemma take_runIntent_skip [simp]: "k \<notin> set [''originalPrompt'', ''initialMessages'', ''systemPromptOverride'', ''resumeData''] \<Longrightarrow> take_runIntent nf ((k, j) # ps) = take_runIntent nf ps"
  by (simp add: take_runIntent_def)

definition fields_navigation :: "navigation_intent \<Rightarrow> json_fields" where
  "fields_navigation x =
     [(''targetId'', (print_null JStr) (nav_targetId x))] @
     [(''summarize'', JBool (nav_summarize x))] @
     opt_field ''customInstructions'' JStr (nav_customInstructions x) @
     opt_field ''label'' JStr (nav_label x) @
     opt_field ''summaryEntryId'' JStr (nav_summaryEntryId x)"

definition take_navigation :: "json_fields \<Rightarrow> navigation_intent option" where
  "take_navigation ps = do {
     v0 \<leftarrow> req_read ''targetId'' (read_null read_str) ps;
     v1 \<leftarrow> req_read ''summarize'' read_bool ps;
     v2 \<leftarrow> opt_read ''customInstructions'' read_str ps;
     v3 \<leftarrow> opt_read ''label'' read_str ps;
     v4 \<leftarrow> opt_read ''summaryEntryId'' read_str ps;
     Some \<lparr>nav_targetId = v0, nav_summarize = v1, nav_customInstructions = v2, nav_label = v3, nav_summaryEntryId = v4\<rparr> }"

lemma take_navigation [simp]: "get_prop ''customInstructions'' ps = None \<Longrightarrow> get_prop ''label'' ps = None \<Longrightarrow> get_prop ''summaryEntryId'' ps = None \<Longrightarrow> take_navigation (fields_navigation x @ ps) = Some x"
  by (cases x) (simp add: take_navigation_def fields_navigation_def)

lemma take_navigation_skip [simp]: "k \<notin> set [''targetId'', ''summarize'', ''customInstructions'', ''label'', ''summaryEntryId''] \<Longrightarrow> take_navigation ((k, j) # ps) = take_navigation ps"
  by (simp add: take_navigation_def)

fun print_intent :: "number_format \<Rightarrow> operation_intent \<Rightarrow> json" where
  "print_intent nf (RunIntent r) = tagged ''kind'' ''run'' (fields_runIntent nf r)"
| "print_intent nf (CompactionIntent instructions resultEntryId) =
     tagged ''kind'' ''compaction'' (opt_field ''customInstructions'' JStr instructions @ [(''resultEntryId'', JStr resultEntryId)])"
| "print_intent nf (NavigationIntent n) = tagged ''kind'' ''navigation'' (fields_navigation n)"

definition read_intent :: "number_format \<Rightarrow> json \<Rightarrow> operation_intent option" where
  "read_intent nf j = do {
     (kind, ps) \<leftarrow> read_tag ''kind'' j;
     if kind = ''run'' then map_option RunIntent (take_runIntent nf ps)
     else if kind = ''compaction'' then do {
       c \<leftarrow> opt_read ''customInstructions'' read_str ps; r \<leftarrow> req_read ''resultEntryId'' read_str ps; Some (CompactionIntent c r) }
     else if kind = ''navigation'' then map_option NavigationIntent (take_navigation ps)
     else None }"

fun ok_intent :: "number_format \<Rightarrow> operation_intent \<Rightarrow> bool" where
  "ok_intent nf (RunIntent r) = ok_runIntent nf r"
| "ok_intent nf _ = True"

interpretation intent_view: json_view "print_intent nf" "read_intent nf" "ok_intent nf" for nf
proof unfold_locales
  show "read_intent nf (print_intent nf i) = Some i" if "ok_intent nf i" for i
    using that take_runIntent [where ps = "[]"] take_navigation [where ps = "[]"] by (cases i) (simp_all add: read_intent_def)
qed

fun outcome_name :: "operation_outcome \<Rightarrow> string" where
  "outcome_name Completed = ''completed''"
| "outcome_name Aborted = ''aborted''"
| "outcome_name Failed = ''failed''"
| "outcome_name Declined = ''declined''"

definition print_outcome :: "operation_outcome \<Rightarrow> json" where
  "print_outcome x = JStr (outcome_name x)"

definition read_outcome :: "json \<Rightarrow> operation_outcome option" where
  "read_outcome = read_enum outcome_name [Completed, Aborted, Failed, Declined]"

interpretation outcome_view: json_view print_outcome read_outcome "\<lambda>_. True"
proof unfold_locales
  show "read_outcome (print_outcome x) = Some x" for x
    by (cases x) (simp_all add: print_outcome_def read_outcome_def read_enum_def)
qed

fun step_name :: "step_kind \<Rightarrow> string" where
  "step_name AssistantStep = ''assistant''"
| "step_name BranchSummaryStep = ''branch_summary''"
| "step_name CompactionStep = ''compaction''"

definition print_step :: "step_kind \<Rightarrow> json" where
  "print_step x = JStr (step_name x)"

definition read_step :: "json \<Rightarrow> step_kind option" where
  "read_step = read_enum step_name [AssistantStep, BranchSummaryStep, CompactionStep]"

interpretation step_view: json_view print_step read_step "\<lambda>_. True"
proof unfold_locales
  show "read_step (print_step x) = Some x" for x
    by (cases x) (simp_all add: print_step_def read_step_def read_enum_def)
qed

fun replay_name :: "replay_mode \<Rightarrow> string" where
  "replay_name ReplayNever = ''never''"
| "replay_name ReplaySafe = ''safe''"

definition print_replay :: "replay_mode \<Rightarrow> json" where
  "print_replay x = JStr (replay_name x)"

definition read_replay :: "json \<Rightarrow> replay_mode option" where
  "read_replay = read_enum replay_name [ReplayNever, ReplaySafe]"

interpretation replay_view: json_view print_replay read_replay "\<lambda>_. True"
proof unfold_locales
  show "read_replay (print_replay x) = Some x" for x
    by (cases x) (simp_all add: print_replay_def read_replay_def read_enum_def)
qed

fun queue_name :: "queue_kind \<Rightarrow> string" where
  "queue_name SteerQueue = ''steer''"
| "queue_name FollowUpQueue = ''followUp''"
| "queue_name NextRunQueue = ''nextRun''"

definition print_queue :: "queue_kind \<Rightarrow> json" where
  "print_queue x = JStr (queue_name x)"

definition read_queue :: "json \<Rightarrow> queue_kind option" where
  "read_queue = read_enum queue_name [SteerQueue, FollowUpQueue, NextRunQueue]"

interpretation queue_view: json_view print_queue read_queue "\<lambda>_. True"
proof unfold_locales
  show "read_queue (print_queue x) = Some x" for x
    by (cases x) (simp_all add: print_queue_def read_queue_def read_enum_def)
qed

text \<open>A compaction reason is any value; the three valid ones are told apart.\<close>

fun print_reason :: "compaction_reason \<Rightarrow> json" where
  "print_reason Manual = JStr ''manual''"
| "print_reason Threshold = JStr ''threshold''"
| "print_reason Overflow = JStr ''overflow''"
| "print_reason (InvalidReason j) = j"

definition read_reason :: "json \<Rightarrow> compaction_reason option" where
  "read_reason j = Some
     (if j = JStr ''manual'' then Manual else if j = JStr ''threshold'' then Threshold
      else if j = JStr ''overflow'' then Overflow else InvalidReason j)"

definition ok_reason :: "compaction_reason \<Rightarrow> bool" where
  "ok_reason r = (\<forall>j. r = InvalidReason j \<longrightarrow> j \<notin> {JStr ''manual'', JStr ''threshold'', JStr ''overflow''})"

interpretation reason_view: json_view print_reason read_reason ok_reason
proof unfold_locales
  show "read_reason (print_reason r) = Some r" if "ok_reason r" for r
    using that by (cases r) (auto simp: read_reason_def ok_reason_def)
qed

definition fields_stepAttempt :: "step_attempt \<Rightarrow> json_fields" where
  "fields_stepAttempt x =
     [(''runId'', JStr (sa_runId x))] @
     [(''step'', print_step (sa_step x))] @
     [(''attempt'', print_int (sa_attempt x))] @
     [(''resultEntryId'', JStr (sa_resultEntryId x))] @
     opt_field ''compactionReason'' print_reason (sa_compactionReason x)"

definition take_stepAttempt :: "json_fields \<Rightarrow> step_attempt option" where
  "take_stepAttempt ps = do {
     v0 \<leftarrow> req_read ''runId'' read_str ps;
     v1 \<leftarrow> req_read ''step'' read_step ps;
     v2 \<leftarrow> req_read ''attempt'' read_int ps;
     v3 \<leftarrow> req_read ''resultEntryId'' read_str ps;
     v4 \<leftarrow> opt_read ''compactionReason'' read_reason ps;
     Some \<lparr>sa_runId = v0, sa_step = v1, sa_attempt = v2, sa_resultEntryId = v3, sa_compactionReason = v4\<rparr> }"

definition ok_stepAttempt :: "step_attempt \<Rightarrow> bool" where
  "ok_stepAttempt x = (pred_option (ok_reason) (sa_compactionReason x))"

lemma take_stepAttempt [simp]: "ok_stepAttempt x \<Longrightarrow> get_prop ''compactionReason'' ps = None \<Longrightarrow> take_stepAttempt (fields_stepAttempt x @ ps) = Some x"
  by (cases x) (simp add: take_stepAttempt_def fields_stepAttempt_def ok_stepAttempt_def)

lemma take_stepAttempt_skip [simp]: "k \<notin> set [''runId'', ''step'', ''attempt'', ''resultEntryId'', ''compactionReason''] \<Longrightarrow> take_stepAttempt ((k, j) # ps) = take_stepAttempt ps"
  by (simp add: take_stepAttempt_def)

definition fields_toolStarted :: "tool_started \<Rightarrow> json_fields" where
  "fields_toolStarted x =
     [(''runId'', JStr (ts_runId x))] @
     [(''assistantEntryId'', JStr (ts_assistantEntryId x))] @
     [(''toolIndex'', print_int (ts_toolIndex x))] @
     [(''toolCallId'', JStr (ts_toolCallId x))] @
     [(''toolName'', JStr (ts_toolName x))] @
     [(''effectiveArgs'', print_any (ts_effectiveArgs x))] @
     [(''resultEntryId'', JStr (ts_resultEntryId x))] @
     [(''replay'', print_replay (ts_replay x))]"

definition take_toolStarted :: "json_fields \<Rightarrow> tool_started option" where
  "take_toolStarted ps = do {
     v0 \<leftarrow> req_read ''runId'' read_str ps;
     v1 \<leftarrow> req_read ''assistantEntryId'' read_str ps;
     v2 \<leftarrow> req_read ''toolIndex'' read_int ps;
     v3 \<leftarrow> req_read ''toolCallId'' read_str ps;
     v4 \<leftarrow> req_read ''toolName'' read_str ps;
     v5 \<leftarrow> req_read ''effectiveArgs'' read_any ps;
     v6 \<leftarrow> req_read ''resultEntryId'' read_str ps;
     v7 \<leftarrow> req_read ''replay'' read_replay ps;
     Some \<lparr>ts_runId = v0, ts_assistantEntryId = v1, ts_toolIndex = v2, ts_toolCallId = v3, ts_toolName = v4, ts_effectiveArgs = v5, ts_resultEntryId = v6, ts_replay = v7\<rparr> }"

lemma take_toolStarted [simp]: "take_toolStarted (fields_toolStarted x @ ps) = Some x"
  by (cases x) (simp add: take_toolStarted_def fields_toolStarted_def)

lemma take_toolStarted_skip [simp]: "k \<notin> set [''runId'', ''assistantEntryId'', ''toolIndex'', ''toolCallId'', ''toolName'', ''effectiveArgs'', ''resultEntryId'', ''replay''] \<Longrightarrow> take_toolStarted ((k, j) # ps) = take_toolStarted ps"
  by (simp add: take_toolStarted_def)

fun step_cause_name :: "step_usage_cause \<Rightarrow> string" where
  "step_cause_name AssistantCause = ''assistant''"
| "step_cause_name CompactionCause = ''compaction''"
| "step_cause_name BranchSummaryCause = ''branch_summary''"
| "step_cause_name DeferredFetchCause = ''deferred_fetch''"

fun cause_fields :: "usage_cause \<Rightarrow> json_fields" where
  "cause_fields (StepUsage c runId entryId attempt stopReason) =
     [(''cause'', JStr (step_cause_name c)), (''runId'', JStr runId), (''entryId'', JStr entryId), (''attempt'', print_int attempt),
      (''stopReason'', print_stopReason stopReason)]"
| "cause_fields (ToolUsage runId entryId toolCallId) =
     [(''cause'', JStr ''tool''), (''runId'', JStr runId), (''entryId'', JStr entryId), (''toolCallId'', JStr toolCallId)]"
| "cause_fields (HookUsage runId entryId) = [(''cause'', JStr ''hook''), (''runId'', JStr runId), (''entryId'', JStr entryId)]"
| "cause_fields (AdjustmentUsage runId entryId details) =
     (''cause'', JStr ''adjustment'') # opt_field ''runId'' JStr runId @ opt_field ''entryId'' JStr entryId @ opt_field ''details'' print_any details"

definition take_cause :: "json_fields \<Rightarrow> usage_cause option" where
  "take_cause ps = do {
     c \<leftarrow> req_read ''cause'' read_str ps;
     if c = ''tool'' then do {
       r \<leftarrow> req_read ''runId'' read_str ps; e \<leftarrow> req_read ''entryId'' read_str ps; t \<leftarrow> req_read ''toolCallId'' read_str ps;
       Some (ToolUsage r e t) }
     else if c = ''hook'' then do {
       r \<leftarrow> req_read ''runId'' read_str ps; e \<leftarrow> req_read ''entryId'' read_str ps; Some (HookUsage r e) }
     else if c = ''adjustment'' then do {
       r \<leftarrow> opt_read ''runId'' read_str ps; e \<leftarrow> opt_read ''entryId'' read_str ps; d \<leftarrow> opt_read ''details'' read_any ps;
       Some (AdjustmentUsage r e d) }
     else do {
       s \<leftarrow> read_enum step_cause_name [AssistantCause, CompactionCause, BranchSummaryCause, DeferredFetchCause] (JStr c);
       r \<leftarrow> req_read ''runId'' read_str ps; e \<leftarrow> req_read ''entryId'' read_str ps; a \<leftarrow> req_read ''attempt'' read_int ps;
       t \<leftarrow> req_read ''stopReason'' read_stopReason ps;
       Some (StepUsage s r e a t) } }"

definition read_failure :: "json \<Rightarrow> (string \<times> string) option" where
  "read_failure j = do {
     ps \<leftarrow> json_object j; c \<leftarrow> req_read ''code'' read_str ps; m \<leftarrow> req_read ''message'' read_str ps; Some (c, m) }"

definition print_failure :: "string \<times> string \<Rightarrow> json" where
  "print_failure e = JObj [(''code'', JStr (fst e)), (''message'', JStr (snd e))]"

interpretation failure_view: json_view print_failure read_failure "\<lambda>_. True"
  by unfold_locales (simp add: print_failure_def read_failure_def)

fun record_name :: "record_type \<Rightarrow> string" where
  "record_name OperationStartedType = ''operation_started''"
| "record_name AbortRequestedType = ''abort_requested''"
| "record_name OperationFinishedType = ''operation_finished''"
| "record_name StepAttemptType = ''step_attempt''"
| "record_name ToolStartedType = ''tool_started''"
| "record_name QueueEnqueuedType = ''queue_enqueued''"
| "record_name QueueCancelledType = ''queue_cancelled''"
| "record_name WriteDeferredType = ''write_deferred''"
| "record_name UsageType = ''usage''"

fun body_fields :: "number_format \<Rightarrow> record_body \<Rightarrow> json_fields" where
  "body_fields nf (OperationStarted sourceLeafId intent) =
     [(''sourceLeafId'', print_null JStr sourceLeafId), (''intent'', print_intent nf intent)]"
| "body_fields nf (AbortRequested runId) = [(''runId'', JStr runId)]"
| "body_fields nf (OperationFinished runId outcome err) =
     [(''runId'', JStr runId), (''outcome'', print_outcome outcome)] @ opt_field ''error'' print_failure err"
| "body_fields nf (StepAttempt a) = fields_stepAttempt a"
| "body_fields nf (ToolStarted t) = fields_toolStarted t"
| "body_fields nf (QueueEnqueued q runId target) =
     (''queue'', print_queue q) # opt_field ''runId'' JStr runId @ [(''target'', print_provisioned nf target)]"
| "body_fields nf (QueueCancelled runId entryId) = opt_field ''runId'' JStr runId @ [(''entryId'', JStr entryId)]"
| "body_fields nf (WriteDeferred runId target) = [(''runId'', JStr runId), (''target'', print_provisioned nf target)]"
| "body_fields nf (UsageRecord u cause) = (''usage'', print_usage nf u) # cause_fields cause"

definition take_body :: "number_format \<Rightarrow> string \<Rightarrow> json_fields \<Rightarrow> record_body option" where
  "take_body nf name ps =
     (if name = ''operation_started'' then do {
        l \<leftarrow> req_read ''sourceLeafId'' (read_null read_str) ps; i \<leftarrow> req_read ''intent'' (read_intent nf) ps; Some (OperationStarted l i) }
      else if name = ''abort_requested'' then map_option AbortRequested (req_read ''runId'' read_str ps)
      else if name = ''operation_finished'' then do {
        r \<leftarrow> req_read ''runId'' read_str ps; f \<leftarrow> req_read ''outcome'' read_outcome ps; e \<leftarrow> opt_read ''error'' read_failure ps;
        Some (OperationFinished r f e) }
      else if name = ''step_attempt'' then map_option StepAttempt (take_stepAttempt ps)
      else if name = ''tool_started'' then map_option ToolStarted (take_toolStarted ps)
      else if name = ''queue_enqueued'' then do {
        q \<leftarrow> req_read ''queue'' read_queue ps; r \<leftarrow> opt_read ''runId'' read_str ps; t \<leftarrow> req_read ''target'' (read_provisioned nf) ps;
        Some (QueueEnqueued q r t) }
      else if name = ''queue_cancelled'' then do {
        r \<leftarrow> opt_read ''runId'' read_str ps; e \<leftarrow> req_read ''entryId'' read_str ps; Some (QueueCancelled r e) }
      else if name = ''write_deferred'' then do {
        r \<leftarrow> req_read ''runId'' read_str ps; t \<leftarrow> req_read ''target'' (read_provisioned nf) ps; Some (WriteDeferred r t) }
      else if name = ''usage'' then do {
        u \<leftarrow> req_read ''usage'' (read_usage nf) ps; c \<leftarrow> take_cause ps; Some (UsageRecord u c) }
      else None)"

fun ok_body :: "number_format \<Rightarrow> record_body \<Rightarrow> bool" where
  "ok_body nf (OperationStarted _ intent) = ok_intent nf intent"
| "ok_body nf (StepAttempt a) = ok_stepAttempt a"
| "ok_body nf (QueueEnqueued _ _ target) = ok_provisioned nf target"
| "ok_body nf (WriteDeferred _ target) = ok_provisioned nf target"
| "ok_body nf (UsageRecord u _) = ok_usage nf u"
| "ok_body nf _ = True"

definition no_body_keys :: "json_fields \<Rightarrow> bool" where
  "no_body_keys ps = list_all (\<lambda>k. get_prop k ps = None) [''error'', ''compactionReason'', ''runId'', ''entryId'', ''details'']"

lemma take_cause_fields: "no_body_keys ps \<Longrightarrow> take_cause (cause_fields c @ ps) = Some c"
proof (cases c)
  case (StepUsage s r e a t)
  assume "no_body_keys ps"
  with StepUsage show ?thesis by (cases s) (simp_all add: take_cause_def read_enum_def)
qed (simp_all add: take_cause_def no_body_keys_def)

lemma take_cause_skip: "take_cause ((''usage'', j) # ps) = take_cause ps"
  by (simp add: take_cause_def cong: if_cong)

lemma take_body [simp]:
  assumes "ok_body nf b" "no_body_keys ps"
  shows "take_body nf (record_name (body_type b)) (body_fields nf b @ ps) = Some b"
proof (cases b)
  case (StepAttempt a)
  with assms show ?thesis by (simp add: take_body_def no_body_keys_def)
next
  case (ToolStarted t)
  with assms show ?thesis by (simp add: take_body_def)
next
  case (UsageRecord u c)
  with assms show ?thesis by (simp add: take_body_def take_cause_fields take_cause_skip)
qed (use assms in \<open>simp_all add: take_body_def no_body_keys_def\<close>)

lemma take_body_skip [simp]:
  assumes "k \<in> {''id'', ''lane'', ''type''}"
  shows "take_body nf name ((k, j) # ps) = take_body nf name ps"
proof -
  have "take_cause ((k, j) # ps) = take_cause ps" using assms by (elim insertE emptyE) (simp_all add: take_cause_def cong: if_cong)
  then show ?thesis using assms by (elim insertE emptyE) (simp_all add: take_body_def cong: if_cong)
qed

definition record_tail :: "lane_record \<Rightarrow> json_fields" where
  "record_tail r = [(''seq'', print_nat (rec_seq r)), (''timestamp'', print_nat (rec_timestamp r))]"

definition record_fields :: "number_format \<Rightarrow> lane_record \<Rightarrow> json_fields" where
  "record_fields nf r =
     [(''id'', JStr (rec_id r)), (''lane'', JStr (rec_lane r)), (''type'', JStr (record_name (rec_kind r)))] @
     body_fields nf (rec_body r) @ record_tail r"

definition take_record :: "number_format \<Rightarrow> json_fields \<Rightarrow> lane_record option" where
  "take_record nf ps = do {
     i \<leftarrow> req_read ''id'' read_str ps;
     l \<leftarrow> req_read ''lane'' read_str ps;
     t \<leftarrow> req_read ''type'' read_str ps;
     b \<leftarrow> take_body nf t ps;
     n \<leftarrow> req_read ''seq'' read_nat ps;
     time \<leftarrow> req_read ''timestamp'' read_nat ps;
     Some \<lparr>rec_id = i, rec_seq = n, rec_lane = l, rec_timestamp = time, rec_body = b\<rparr> }"

lemma body_fields_other [simp]:
  assumes "k \<in> {''seq'', ''timestamp'', ''id'', ''type'', ''lane'', ''kind''}"
  shows "get_prop k (body_fields nf b @ ps) = get_prop k ps"
proof (cases b)
  case (UsageRecord u c)
  with assms show ?thesis by (elim insertE emptyE; cases c) simp_all
qed (use assms in \<open>(elim insertE emptyE; simp add: fields_stepAttempt_def fields_toolStarted_def)+\<close>)

lemma take_record_fields: "ok_body nf (rec_body r) \<Longrightarrow> take_record nf (record_fields nf r) = Some r"
  using take_body [of nf "rec_body r" "record_tail r"]
  by (simp add: take_record_def record_fields_def record_tail_def no_body_keys_def)

end
