(* ===== verification/Jsonl_Codec.thy ===== *)
theory Jsonl_Codec
  imports Session_State Session_Json
begin

text \<open>
  The line format of a session file, \<^verbatim>\<open>packages/agent/src/harness/session/jsonl/codec.ts\<close> with its
  \<^verbatim>\<open>errors.ts\<close> and \<^verbatim>\<open>types.ts\<close>.  A line is an object; decoding checks the properties a storage relies on and passes
  the others on unchecked.  The cast of a checked object to \<^verbatim>\<open>Entry\<close> or \<^verbatim>\<open>LaneRecord\<close> is its view
  (\<open>typed_mutation\<close>).  Shown: an encoded mutation decodes to itself, and a line cut off anywhere is a syntax error.
\<close>

section \<open>Checks\<close>

datatype decode_error = SyntaxError | SchemaError

type_synonym 'a decode_result = "decode_error + 'a"

definition parseObject :: "number_format \<Rightarrow> string \<Rightarrow> json_fields decode_result" where
  "parseObject nf line =
     (case JSON_parse nf line of
        None \<Rightarrow> Inl SyntaxError
      | Some j \<Rightarrow> (case json_object j of None \<Rightarrow> Inl SchemaError | Some ps \<Rightarrow> Inr ps))"

definition requireString :: "json option \<Rightarrow> string decode_result" where
  "requireString v = (case v of Some (JStr s) \<Rightarrow> Inr s | _ \<Rightarrow> Inl SchemaError)"

definition safe_number :: "json option \<Rightarrow> int option" where
  "safe_number v = (case v of Some (JNum x) \<Rightarrow> if js_is_safe_integer x then js_int x else None | _ \<Rightarrow> None)"

definition requireSequence :: "json option \<Rightarrow> nat decode_result" where
  "requireSequence v = (case safe_number v of Some n \<Rightarrow> if n \<le> 0 then Inl SchemaError else Inr (nat n) | None \<Rightarrow> Inl SchemaError)"

definition requireTimestamp :: "json option \<Rightarrow> nat decode_result" where
  "requireTimestamp v = (case safe_number v of Some n \<Rightarrow> if n < 0 then Inl SchemaError else Inr (nat n) | None \<Rightarrow> Inl SchemaError)"

definition requireNullableId :: "json option \<Rightarrow> string option decode_result" where
  "requireNullableId v =
     (case v of Some JNull \<Rightarrow> Inr None | Some (JStr s) \<Rightarrow> Inr (Some s) | _ \<Rightarrow> Inl SchemaError)"

text \<open>A property that must be absent or a string.\<close>

definition optionalString :: "json option \<Rightarrow> string option decode_result" where
  "optionalString v = (case v of None \<Rightarrow> Inr None | Some (JStr s) \<Rightarrow> Inr (Some s) | Some _ \<Rightarrow> Inl SchemaError)"

section \<open>Headers\<close>

record jsonl_header =
  h_id :: string
  h_createdAt :: nat
  h_cwd :: string
  h_parentSessionId :: "string option"
  h_legacyParentSessionPath :: "string option"
  h_metadata :: "json_fields option"

record jsonl_metadata =
  jm_id :: string
  jm_createdAt :: nat
  jm_cwd :: string
  jm_path :: string
  jm_modifiedAt :: nat
  jm_sourceFormat :: nat
  jm_parentSessionId :: "string option"
  jm_legacyParentSessionPath :: "string option"
  jm_metadata :: "json_fields option"

definition decodeHeader :: "number_format \<Rightarrow> string \<Rightarrow> jsonl_header decode_result" where
  "decodeHeader nf line =
     rbind (parseObject nf line) (\<lambda>value.
     rbind (rcheck SchemaError (get_prop ''kind'' value = Some (JStr ''header''))) (\<lambda>_.
     rbind (rcheck SchemaError (get_prop ''version'' value = Some (JNum (JsInt 4)))) (\<lambda>_.
     rbind (optionalString (get_prop ''parentSessionId'' value)) (\<lambda>parentSessionId.
     rbind (optionalString (get_prop ''legacyParentSessionPath'' value)) (\<lambda>legacyParentSessionPath.
     rbind (rcheck SchemaError (\<not> (parentSessionId \<noteq> None \<and> legacyParentSessionPath \<noteq> None))) (\<lambda>_.
     rbind (case get_prop ''metadata'' value of
              None \<Rightarrow> Inr None
            | Some j \<Rightarrow> (case json_object j of None \<Rightarrow> Inl SchemaError | Some ps \<Rightarrow> Inr (Some ps))) (\<lambda>metadata.
     rbind (requireString (get_prop ''id'' value)) (\<lambda>i.
     rbind (requireTimestamp (get_prop ''createdAt'' value)) (\<lambda>createdAt.
     rbind (requireString (get_prop ''cwd'' value)) (\<lambda>cwd.
     Inr \<lparr>h_id = i, h_createdAt = createdAt, h_cwd = cwd, h_parentSessionId = parentSessionId,
          h_legacyParentSessionPath = legacyParentSessionPath, h_metadata = metadata\<rparr>))))))))))"

definition parseHeader :: "number_format \<Rightarrow> string \<Rightarrow> jsonl_header decode_result" where
  "parseHeader nf line = decodeHeader nf line"

definition header_fields :: "jsonl_header \<Rightarrow> json_fields" where
  "header_fields h =
     [(''kind'', JStr ''header''), (''version'', JNum (JsInt 4)), (''id'', JStr (h_id h)), (''createdAt'', print_nat (h_createdAt h)),
      (''cwd'', JStr (h_cwd h))] @
     opt_field ''parentSessionId'' JStr (h_parentSessionId h) @
     opt_field ''legacyParentSessionPath'' JStr (h_legacyParentSessionPath h) @
     opt_field ''metadata'' JObj (h_metadata h)"

definition encodeHeader :: "number_format \<Rightarrow> jsonl_header \<Rightarrow> string" where
  "encodeHeader nf h = JSON_stringify nf (JObj (header_fields h)) @ [CHR 0x0A]"

definition metadataFromHeader :: "jsonl_header \<Rightarrow> string \<Rightarrow> nat \<Rightarrow> jsonl_metadata" where
  "metadataFromHeader h path modifiedAt =
     \<lparr>jm_id = h_id h, jm_createdAt = h_createdAt h, jm_cwd = h_cwd h, jm_path = path, jm_modifiedAt = modifiedAt, jm_sourceFormat = 4,
      jm_parentSessionId = h_parentSessionId h, jm_legacyParentSessionPath = h_legacyParentSessionPath h, jm_metadata = h_metadata h\<rparr>"

section \<open>Mutations\<close>

text \<open>A decoded mutation; entries and records are still the objects they were read as.\<close>

datatype raw_mutation =
    RawEntry "string option" json_fields
  | RawRecord json_fields
  | RawLane nat string "string option"
  | RawName nat "string option"
  | RawLabel nat string "string option"

definition ENTRY_TYPES :: "string list" where
  "ENTRY_TYPES = [''message'', ''model_change'', ''thinking_level_change'', ''active_tools_change'', ''compaction'', ''branch_summary'', ''custom'']"

definition RECORD_TYPES :: "string list" where
  "RECORD_TYPES = [''operation_started'', ''abort_requested'', ''operation_finished'', ''step_attempt'', ''tool_started'',
     ''queue_enqueued'', ''queue_cancelled'', ''write_deferred'', ''usage'']"

definition OPERATION_KINDS :: "string list" where
  "OPERATION_KINDS = [''run'', ''compaction'', ''navigation'']"

definition without :: "string list \<Rightarrow> json_fields \<Rightarrow> json_fields" where
  "without ks ps = filter (\<lambda>(k, _). k \<notin> set ks) ps"

definition with_props :: "json_fields \<Rightarrow> json_fields \<Rightarrow> json_fields" where
  "with_props ps qs = foldl (\<lambda>ob (k, v). AList.update k v ob) ps qs"

definition parseEntryMutation :: "json_fields \<Rightarrow> nat \<Rightarrow> raw_mutation decode_result" where
  "parseEntryMutation value seq =
     rbind (case get_prop ''lane'' value of None \<Rightarrow> Inr None | Some j \<Rightarrow> rbind (requireString (Some j)) (\<lambda>l. Inr (Some l))) (\<lambda>lane.
     rbind (requireString (get_prop ''id'' value)) (\<lambda>i.
     rbind (requireString (get_prop ''type'' value)) (\<lambda>type.
     rbind (rcheck SchemaError (type \<in> set ENTRY_TYPES)) (\<lambda>_.
     rbind (requireNullableId (get_prop ''parentId'' value)) (\<lambda>parentId.
     rbind (requireTimestamp (get_prop ''timestamp'' value)) (\<lambda>timestamp.
     rbind (if type = ''custom'' then rbind (requireString (get_prop ''customType'' value)) (\<lambda>_. Inr ()) else Inr ()) (\<lambda>_.
     Inr (RawEntry lane (with_props (without [''kind'', ''lane''] value)
       [(''id'', JStr i), (''type'', JStr type), (''parentId'', print_null JStr parentId), (''seq'', print_nat seq),
        (''timestamp'', print_nat timestamp)])))))))))"

definition parseRecordMutation :: "json_fields \<Rightarrow> nat \<Rightarrow> raw_mutation decode_result" where
  "parseRecordMutation value seq =
     rbind (requireString (get_prop ''id'' value)) (\<lambda>i.
     rbind (requireString (get_prop ''lane'' value)) (\<lambda>lane.
     rbind (requireString (get_prop ''type'' value)) (\<lambda>type.
     rbind (rcheck SchemaError (type \<in> set RECORD_TYPES)) (\<lambda>_.
     rbind (requireTimestamp (get_prop ''timestamp'' value)) (\<lambda>timestamp.
     rbind (if type = ''operation_started'' then
              (case Option.bind (get_prop ''intent'' value) json_object of
                 None \<Rightarrow> Inl SchemaError
               | Some intent \<Rightarrow> rbind (requireString (get_prop ''kind'' intent)) (\<lambda>k. rcheck SchemaError (k \<in> set OPERATION_KINDS)))
            else Inr ()) (\<lambda>_.
     rbind (if type = ''operation_finished'' then rbind (requireString (get_prop ''runId'' value)) (\<lambda>_. Inr ()) else Inr ()) (\<lambda>_.
     Inr (RawRecord (with_props (without [''kind''] value)
       [(''id'', JStr i), (''lane'', JStr lane), (''type'', JStr type), (''seq'', print_nat seq), (''timestamp'', print_nat timestamp)])))))))))"

definition parseLaneMutation :: "json_fields \<Rightarrow> nat \<Rightarrow> raw_mutation decode_result" where
  "parseLaneMutation value seq =
     rbind (requireString (get_prop ''lane'' value)) (\<lambda>lane.
     rbind (requireNullableId (get_prop ''leafId'' value)) (\<lambda>leafId.
     Inr (RawLane seq lane leafId)))"

definition parseFactMutation :: "json_fields \<Rightarrow> nat \<Rightarrow> raw_mutation decode_result" where
  "parseFactMutation value seq =
     (if get_prop ''fact'' value = Some (JStr ''name'') then
        rbind (optionalString (get_prop ''name'' value)) (\<lambda>name. Inr (RawName seq name))
      else if get_prop ''fact'' value = Some (JStr ''label'') then
        rbind (optionalString (get_prop ''label'' value)) (\<lambda>label.
        rbind (requireString (get_prop ''targetId'' value)) (\<lambda>targetId. Inr (RawLabel seq targetId label)))
      else Inl SchemaError)"

definition decodeMutation :: "number_format \<Rightarrow> string \<Rightarrow> raw_mutation decode_result" where
  "decodeMutation nf line =
     rbind (parseObject nf line) (\<lambda>value.
     rbind (requireSequence (get_prop ''seq'' value)) (\<lambda>seq.
       if get_prop ''kind'' value = Some (JStr ''entry'') then parseEntryMutation value seq
       else if get_prop ''kind'' value = Some (JStr ''record'') then parseRecordMutation value seq
       else if get_prop ''kind'' value = Some (JStr ''lane'') then parseLaneMutation value seq
       else if get_prop ''kind'' value = Some (JStr ''fact'') then parseFactMutation value seq
       else Inl SchemaError))"

definition parseMutation :: "number_format \<Rightarrow> string \<Rightarrow> raw_mutation decode_result" where
  "parseMutation nf line = decodeMutation nf line"

fun mutation_fields :: "number_format \<Rightarrow> session_mutation \<Rightarrow> json_fields" where
  "mutation_fields nf (EntryMutation lane e) = (''kind'', JStr ''entry'') # opt_field ''lane'' JStr lane @ entry_fields nf e"
| "mutation_fields nf (RecordMutation r) = (''kind'', JStr ''record'') # record_fields nf r"
| "mutation_fields nf (LaneMutation seq lane leafId) =
     [(''kind'', JStr ''lane''), (''seq'', print_nat seq), (''lane'', JStr lane), (''leafId'', print_null JStr leafId)]"
| "mutation_fields nf (NameMutation seq name) =
     [(''kind'', JStr ''fact''), (''seq'', print_nat seq), (''fact'', JStr ''name'')] @ opt_field ''name'' JStr name"
| "mutation_fields nf (LabelMutation seq targetId label) =
     [(''kind'', JStr ''fact''), (''seq'', print_nat seq), (''fact'', JStr ''label''), (''targetId'', JStr targetId)] @
     opt_field ''label'' JStr label"

definition mutation_line :: "number_format \<Rightarrow> session_mutation \<Rightarrow> string" where
  "mutation_line nf m = JSON_stringify nf (JObj (mutation_fields nf m))"

definition encodeMutation :: "number_format \<Rightarrow> session_mutation \<Rightarrow> string" where
  "encodeMutation nf m = mutation_line nf m @ [CHR 0x0A]"

text \<open>The casts \<^verbatim>\<open>as unknown as Entry\<close> and \<^verbatim>\<open>as unknown as LaneRecord\<close>: \<open>None\<close> for an object that is not one.\<close>

fun typed_mutation :: "number_format \<Rightarrow> raw_mutation \<Rightarrow> session_mutation option" where
  "typed_mutation nf (RawEntry lane ps) = map_option (EntryMutation lane) (take_entry nf ps)"
| "typed_mutation nf (RawRecord ps) = map_option RecordMutation (take_record nf ps)"
| "typed_mutation nf (RawLane seq lane leafId) = Some (LaneMutation seq lane leafId)"
| "typed_mutation nf (RawName seq name) = Some (NameMutation seq name)"
| "typed_mutation nf (RawLabel seq targetId label) = Some (LabelMutation seq targetId label)"

section \<open>Lines read back\<close>

fun ok_mutation :: "number_format \<Rightarrow> session_mutation \<Rightarrow> bool" where
  "ok_mutation nf (EntryMutation lane e) = (ok_payload nf (entry_payload e) \<and> int (entry_timestamp e) \<le> max_safe_integer)"
| "ok_mutation nf (RecordMutation r) = (ok_body nf (rec_body r) \<and> int (rec_timestamp r) \<le> max_safe_integer)"
| "ok_mutation nf _ = True"

text \<open>A mutation a file can hold: its values survive JSON, and its sequence number is a safe positive integer.\<close>

definition storable :: "number_format \<Rightarrow> session_mutation \<Rightarrow> bool" where
  "storable nf m = (ok_mutation nf m \<and> wf_json nf (JObj (mutation_fields nf m)) \<and>
     0 < mutation_seq m \<and> int (mutation_seq m) \<le> max_safe_integer)"

lemma get_prop_keys: "get_prop k ps = None \<Longrightarrow> k \<notin> fst ` set ps"
  by (simp add: get_prop_map_of map_of_eq_None_iff)

lemma without_id: "\<forall>k \<in> set ks. get_prop k ps = None \<Longrightarrow> without ks ps = ps"
proof -
  assume "\<forall>k \<in> set ks. get_prop k ps = None"
  then have "\<forall>p \<in> set ps. fst p \<notin> set ks" by (metis get_prop_keys image_eqI)
  then show "without ks ps = ps" by (auto simp: without_def intro!: filter_True)
qed

lemma with_props_id: "\<forall>(k, v) \<in> set qs. get_prop k ps = Some v \<Longrightarrow> with_props ps qs = ps"
proof -
  have upd: "get_prop k ps = Some v \<Longrightarrow> AList.update k v ps = ps" for k v and ps :: json_fields
    by (induction k ps rule: get_prop.induct) (auto split: if_splits)
  show "\<forall>(k, v) \<in> set qs. get_prop k ps = Some v \<Longrightarrow> with_props ps qs = ps"
    unfolding with_props_def by (induction qs) (auto simp: upd)
qed

lemma requireString_JStr [simp]: "requireString (Some (JStr s)) = Inr s"
  by (simp add: requireString_def)

lemma safe_nat: "int n \<le> max_safe_integer \<Longrightarrow> safe_number (Some (print_nat n)) = Some (int n)"
  by (simp add: safe_number_def print_nat_def js_is_safe_integer_def max_safe_integer_def)

lemma requireTimestamp_nat [simp]: "int n \<le> max_safe_integer \<Longrightarrow> requireTimestamp (Some (print_nat n)) = Inr n"
  by (simp add: requireTimestamp_def safe_nat)

lemma requireSequence_nat [simp]:
  "int n \<le> max_safe_integer \<Longrightarrow> 0 < n \<Longrightarrow> requireSequence (Some (print_nat n)) = Inr n"
  by (simp add: requireSequence_def safe_nat)

lemma requireNullableId_print [simp]: "requireNullableId (Some (print_null JStr v)) = Inr v"
  by (cases v) (simp_all add: requireNullableId_def print_null_def)

lemma optionalString_print [simp]: "optionalString (map_option JStr v) = Inr v"
  by (cases v) (simp_all add: optionalString_def)

lemma entry_fields_props:
  "get_prop ''id'' (entry_fields nf e) = Some (JStr (entry_id e))"
  "get_prop ''type'' (entry_fields nf e) = Some (JStr (payload_name (entry_kind e)))"
  "get_prop ''parentId'' (entry_fields nf e) = Some (print_null JStr (entry_parentId e))"
  "get_prop ''seq'' (entry_fields nf e) = Some (print_nat (entry_seq e))"
  "get_prop ''timestamp'' (entry_fields nf e) = Some (print_nat (entry_timestamp e))"
  "get_prop ''kind'' (entry_fields nf e) = None"
  "get_prop ''lane'' (entry_fields nf e) = None"
  by (simp_all add: entry_fields_def entry_tail_def)

lemma record_fields_props:
  "get_prop ''id'' (record_fields nf r) = Some (JStr (rec_id r))"
  "get_prop ''lane'' (record_fields nf r) = Some (JStr (rec_lane r))"
  "get_prop ''type'' (record_fields nf r) = Some (JStr (record_name (rec_kind r)))"
  "get_prop ''seq'' (record_fields nf r) = Some (print_nat (rec_seq r))"
  "get_prop ''timestamp'' (record_fields nf r) = Some (print_nat (rec_timestamp r))"
  "get_prop ''kind'' (record_fields nf r) = None"
  by (simp_all add: record_fields_def record_tail_def)

lemma entry_custom: "entry_kind e = CustomType \<Longrightarrow> \<exists>t. get_prop ''customType'' (entry_fields nf e) = Some (JStr t)"
  by (cases "entry_payload e") (simp_all add: entry_fields_def)

lemma payload_name_known: "payload_name t \<in> set ENTRY_TYPES"
  by (cases t) (simp_all add: ENTRY_TYPES_def)

lemma record_name_known: "record_name t \<in> set RECORD_TYPES"
  by (cases t) (simp_all add: RECORD_TYPES_def)

lemma payload_name_custom: "payload_name t = ''custom'' \<longleftrightarrow> t = CustomType"
  by (cases t) simp_all

lemma parse_entry:
  assumes "int (entry_timestamp e) \<le> max_safe_integer"
  shows "parseEntryMutation (mutation_fields nf (EntryMutation lane e)) (entry_seq e) = Inr (RawEntry lane (entry_fields nf e))"
proof -
  let ?fs = "mutation_fields nf (EntryMutation lane e)"
  have props: "get_prop k ?fs = get_prop k (entry_fields nf e)" if "k \<noteq> ''kind''" "k \<noteq> ''lane''" for k
    using that by simp
  have lane: "get_prop ''lane'' ?fs = map_option JStr lane" by (simp add: entry_fields_props)
  have lane_read: "(case map_option JStr lane of None \<Rightarrow> Inr None | Some j \<Rightarrow> rbind (requireString (Some j)) (\<lambda>l. Inr (Some l))) = Inr lane"
    by (cases lane) simp_all
  have "without [''kind'', ''lane''] ?fs = entry_fields nf e"
    using without_id [of "[''kind'', ''lane'']" "entry_fields nf e"]
    by (cases lane) (simp_all add: without_def opt_field_def entry_fields_props)
  moreover have "with_props (entry_fields nf e) [(''id'', JStr (entry_id e)), (''type'', JStr (payload_name (entry_kind e))),
      (''parentId'', print_null JStr (entry_parentId e)), (''seq'', print_nat (entry_seq e)),
      (''timestamp'', print_nat (entry_timestamp e))] = entry_fields nf e"
    by (rule with_props_id) (simp add: entry_fields_props)
  moreover have "(if payload_name (entry_kind e) = ''custom''
      then rbind (requireString (get_prop ''customType'' ?fs)) (\<lambda>_. Inr ()) else Inr ()) = Inr ()"
    using entry_custom [of e nf] by (auto simp: payload_name_custom)
  ultimately show ?thesis
    unfolding parseEntryMutation_def lane using assms lane_read
    by (simp add: props entry_fields_props payload_name_known del: mutation_fields.simps)
qed

lemma intent_object:
  "\<exists>ps. json_object (print_intent nf i) = Some ps \<and>
    (\<exists>k \<in> set OPERATION_KINDS. get_prop ''kind'' ps = Some (JStr k))"
  by (cases i) (simp_all add: tagged_def OPERATION_KINDS_def)

lemma record_name_started: "record_name t = ''operation_started'' \<longleftrightarrow> t = OperationStartedType"
  by (cases t) simp_all

lemma record_name_finished: "record_name t = ''operation_finished'' \<longleftrightarrow> t = OperationFinishedType"
  by (cases t) simp_all

lemma record_started: "rec_kind r = OperationStartedType \<Longrightarrow>
    \<exists>ps k. Option.bind (get_prop ''intent'' (record_fields nf r)) json_object = Some ps \<and>
      get_prop ''kind'' ps = Some (JStr k) \<and> k \<in> set OPERATION_KINDS"
  using intent_object [of nf] by (cases "rec_body r") (fastforce simp: record_fields_def)+

lemma record_finished: "rec_kind r = OperationFinishedType \<Longrightarrow> \<exists>i. get_prop ''runId'' (record_fields nf r) = Some (JStr i)"
  by (cases "rec_body r") (simp_all add: record_fields_def)

lemma parse_record:
  assumes "int (rec_timestamp r) \<le> max_safe_integer"
  shows "parseRecordMutation (mutation_fields nf (RecordMutation r)) (rec_seq r) = Inr (RawRecord (record_fields nf r))"
proof -
  let ?fs = "mutation_fields nf (RecordMutation r)"
  have props: "get_prop k ?fs = get_prop k (record_fields nf r)" if "k \<noteq> ''kind''" for k
    using that by simp
  have "without [''kind''] ?fs = record_fields nf r"
    using without_id [of "[''kind'']" "record_fields nf r"] by (simp add: without_def record_fields_props)
  moreover have "with_props (record_fields nf r) [(''id'', JStr (rec_id r)), (''lane'', JStr (rec_lane r)),
      (''type'', JStr (record_name (rec_kind r))), (''seq'', print_nat (rec_seq r)), (''timestamp'', print_nat (rec_timestamp r))] =
      record_fields nf r"
    by (rule with_props_id) (simp add: record_fields_props)
  ultimately show ?thesis
    unfolding parseRecordMutation_def using assms record_started [of r nf] record_finished [of r nf]
    by (auto simp: props record_fields_props record_name_known record_name_started record_name_finished simp del: mutation_fields.simps)
qed

lemma parseObject_line: "wf_json nf (JObj (mutation_fields nf m)) \<Longrightarrow> parseObject nf (mutation_line nf m) = Inr (mutation_fields nf m)"
  by (simp add: parseObject_def mutation_line_def JSON_roundtrip)

lemma mutation_props:
  "get_prop ''seq'' (mutation_fields nf m) = Some (print_nat (mutation_seq m))"
  "get_prop ''kind'' (mutation_fields nf m) = Some (JStr (case m of EntryMutation _ _ \<Rightarrow> ''entry'' | RecordMutation _ \<Rightarrow> ''record''
     | LaneMutation _ _ _ \<Rightarrow> ''lane'' | _ \<Rightarrow> ''fact''))"
  by (cases m; simp add: entry_fields_props record_fields_props)+

lemma mutation_read_back:
  assumes "storable nf m"
  shows "\<exists>raw. parseMutation nf (mutation_line nf m) = Inr raw \<and> typed_mutation nf raw = Some m"
proof -
  note line = parseObject_line [of nf m] mutation_props [of nf m]
  show ?thesis
  proof (cases m)
    case (EntryMutation lane e)
    with assms line parse_entry [of e nf lane] take_entry_fields [of nf e] show ?thesis
      by (simp add: parseMutation_def decodeMutation_def storable_def del: mutation_fields.simps)
  next
    case (RecordMutation r)
    with assms line parse_record [of r nf] take_record_fields [of nf r] show ?thesis
      by (simp add: parseMutation_def decodeMutation_def storable_def del: mutation_fields.simps)
  next
    case (LaneMutation seq lane leafId)
    with assms line show ?thesis
      by (simp add: parseMutation_def decodeMutation_def storable_def parseLaneMutation_def)
  next
    case (NameMutation seq name)
    with assms line show ?thesis
      by (simp add: parseMutation_def decodeMutation_def storable_def parseFactMutation_def)
  next
    case (LabelMutation seq targetId label)
    with assms line show ?thesis
      by (simp add: parseMutation_def decodeMutation_def storable_def parseFactMutation_def)
  qed
qed

definition storable_header :: "number_format \<Rightarrow> jsonl_header \<Rightarrow> bool" where
  "storable_header nf h = (wf_json nf (JObj (header_fields h)) \<and> int (h_createdAt h) \<le> max_safe_integer \<and>
     (h_parentSessionId h = None \<or> h_legacyParentSessionPath h = None))"

definition header_line :: "number_format \<Rightarrow> jsonl_header \<Rightarrow> string" where
  "header_line nf h = JSON_stringify nf (JObj (header_fields h))"

lemma header_read_back:
  assumes "storable_header nf h"
  shows "parseHeader nf (header_line nf h) = Inr h"
proof -
  have props: "get_prop ''kind'' (header_fields h) = Some (JStr ''header'')"
    "get_prop ''version'' (header_fields h) = Some (JNum (JsInt 4))"
    "get_prop ''id'' (header_fields h) = Some (JStr (h_id h))" "get_prop ''cwd'' (header_fields h) = Some (JStr (h_cwd h))"
    "get_prop ''createdAt'' (header_fields h) = Some (print_nat (h_createdAt h))"
    "get_prop ''parentSessionId'' (header_fields h) = map_option JStr (h_parentSessionId h)"
    "get_prop ''legacyParentSessionPath'' (header_fields h) = map_option JStr (h_legacyParentSessionPath h)"
    "get_prop ''metadata'' (header_fields h) = map_option JObj (h_metadata h)"
    by (simp_all add: header_fields_def)
  have "parseObject nf (header_line nf h) = Inr (header_fields h)"
    using assms by (simp add: parseObject_def header_line_def JSON_roundtrip storable_header_def)
  moreover have "(case map_option JObj (h_metadata h) of None \<Rightarrow> Inr None
      | Some j \<Rightarrow> (case json_object j of None \<Rightarrow> Inl SchemaError | Some ps \<Rightarrow> Inr (Some ps))) = Inr (h_metadata h)"
    by (cases "h_metadata h") simp_all
  moreover have "\<lparr>h_id = h_id h, h_createdAt = h_createdAt h, h_cwd = h_cwd h, h_parentSessionId = h_parentSessionId h,
      h_legacyParentSessionPath = h_legacyParentSessionPath h, h_metadata = h_metadata h\<rparr> = h"
    by (cases h) simp
  ultimately show ?thesis
    using assms by (auto simp: parseHeader_def decodeHeader_def props storable_header_def)
qed

text \<open>Cutting a line off leaves a syntax error, which is what the recovery of a torn write looks for.\<close>

lemma cut_line_syntax_error:
  "storable nf m \<Longrightarrow> mutation_line nf m = p @ q \<Longrightarrow> q \<noteq> [] \<Longrightarrow> parseMutation nf p = Inl SyntaxError"
  using JSON_prefix_error [of nf "mutation_fields nf m" p q]
  by (simp add: parseMutation_def decodeMutation_def parseObject_def mutation_line_def storable_def)

lemma line_no_newline: "storable nf m \<Longrightarrow> CHR 0x0A \<notin> set (mutation_line nf m)"
  using JSON_no_newline [of nf "JObj (mutation_fields nf m)"] by (simp add: storable_def mutation_line_def JSON_stringify_def)

lemma header_no_newline: "storable_header nf h \<Longrightarrow> CHR 0x0A \<notin> set (header_line nf h)"
  using JSON_no_newline [of nf "JObj (header_fields h)"] by (simp add: storable_header_def header_line_def JSON_stringify_def)

lemma line_nonempty: "mutation_line nf m \<noteq> []" "header_line nf h \<noteq> []"
  by (simp_all add: mutation_line_def header_line_def JSON_stringify_def)

text \<open>C34: A line is read as what was written, or not at all.  The line of a mutation whose values survive JSON decodes to that
  mutation, it contains no line break, and every proper prefix of it is a syntax error.\<close>

theorem mutation_line_roundtrip:
  assumes "storable nf m"
  shows "(\<exists>raw. parseMutation nf (mutation_line nf m) = Inr raw \<and> typed_mutation nf raw = Some m) \<and>
    CHR 0x0A \<notin> set (mutation_line nf m) \<and>
    (\<forall>p q. mutation_line nf m = p @ q \<and> q \<noteq> [] \<longrightarrow> parseMutation nf p = Inl SyntaxError)"
  using mutation_read_back [OF assms] line_no_newline [OF assms] cut_line_syntax_error [OF assms] by blast

section \<open>Samples\<close>

definition sample_format :: number_format where
  "sample_format = \<lparr>nf_text = (\<lambda>_. ''0.5''), nf_value = (\<lambda>_. JsFrac 0x3FE0000000000000), nf_bits = (\<lambda>_. 0x3FE0000000000000), nf_rat = (\<lambda>_. 1 / 2)\<rparr>"

definition sample_header :: jsonl_header where
  "sample_header = \<lparr>h_id = ''s'', h_createdAt = 5, h_cwd = ''/w'', h_parentSessionId = None, h_legacyParentSessionPath = None,
     h_metadata = Some [(''k'', JNull)]\<rparr>"

definition sample_name :: "string \<Rightarrow> session_mutation" where
  "sample_name n = NameMutation 1 (Some n)"

lemmas small_integer = parse_safe_integer [where rest = "[]", simplified]

lemma sample_header_storable: "storable_header sample_format sample_header"
  by (simp add: storable_header_def sample_header_def header_fields_def opt_field_def max_safe_integer_def print_nat_def small_integer)

lemma sample_name_storable: "storable sample_format (sample_name n)"
  by (simp add: storable_def sample_name_def opt_field_def max_safe_integer_def print_nat_def small_integer)

definition half_dollar :: usage where
  "half_dollar = \<lparr>usage_input = 3, usage_output = 4, usage_cacheRead = 0, usage_cacheWrite = 0, usage_cacheWrite1h = None,
     usage_reasoning = Some 1, usage_totalTokens = 7,
     usage_cost = \<lparr>cost_input = 0, cost_output = 1 / 2, cost_cacheRead = 0, cost_cacheWrite = 0, cost_total = 1 / 2\<rparr>\<rparr>"

text \<open>An entry with a price that is not an integer.\<close>

definition sample_priced :: session_mutation where
  "sample_priced = EntryMutation (Some ''main'') \<lparr>entry_id = ''a'', entry_seq = 1, entry_parentId = None, entry_timestamp = 9,
     entry_payload = BranchSummaryPayload ''x'' ''left'' None (Some half_dollar)\<rparr>"

lemma half_number: "parse_number sample_format ''0.5'' = Some (JNum (JsFrac 0x3FE0000000000000), [])"
  by code_simp

lemma sample_priced_storable: "storable sample_format sample_priced"
proof -
  have half: "integral (1 / 2) = False" "integral 0 = True" "quotient_of 0 = (0, 1)" by (code_simp, code_simp, code_simp)
  have fmt: "nf_text sample_format = (\<lambda>_. ''0.5'')" "nf_bits sample_format = (\<lambda>_. 0x3FE0000000000000)" "nf_rat sample_format = (\<lambda>_. 1 / 2)"
    by (simp_all add: sample_format_def)
  show ?thesis
    by (simp add: storable_def sample_priced_def half_dollar_def entry_fields_def entry_tail_def opt_field_def print_usage_def
        fields_usage_def print_cost_def fields_cost_def print_price_def ok_usage_def ok_cost_def ok_price_def half fmt half_number
        print_null_def print_int_def print_nat_def max_safe_integer_def small_integer)
qed

theorem mutation_line_roundtrip_witness:
  "\<exists>raw. parseMutation sample_format (mutation_line sample_format sample_priced) = Inr raw \<and>
     typed_mutation sample_format raw = Some sample_priced"
  using mutation_line_roundtrip [OF sample_priced_storable] by blast

end
