(* ===== verification/Jsonl_Storage.thy ===== *)
theory Jsonl_Storage
  imports Jsonl_Codec Session_Storage
begin

text \<open>
  The session storage on a file, \<^verbatim>\<open>packages/agent/src/harness/session/jsonl/storage.ts\<close>.  A file system is the
  text of its files and what will go wrong: an operation may fail, and a write or append may fail after a part of its text has
  reached the file.  An operation of the storage returns its result and the storage with the file system after it, also when it
  fails.  Operations that are started concurrently are queued by \<^verbatim>\<open>enqueue\<close>, so one runs after the other.
\<close>

section \<open>File systems\<close>

datatype fault = Fails | FailsAfter nat

record file_system =
  fs_files :: "string \<rightharpoonup> string"
  fs_mtime :: "string \<Rightarrow> nat"
  fs_faults :: "fault option list"

definition take_fault :: "file_system \<Rightarrow> fault option \<times> file_system" where
  "take_fault fs = (case fs_faults fs of [] \<Rightarrow> (None, fs) | f # r \<Rightarrow> (f, fs\<lparr>fs_faults := r\<rparr>))"

definition put_file :: "string \<Rightarrow> string \<Rightarrow> file_system \<Rightarrow> file_system" where
  "put_file path content fs = fs\<lparr>fs_files := (fs_files fs)(path \<mapsto> content)\<rparr>"

definition file_text :: "file_system \<Rightarrow> string \<Rightarrow> string" where
  "file_text fs path = (case fs_files fs path of Some t \<Rightarrow> t | None \<Rightarrow> [])"

text \<open>The results come as \<^verbatim>\<open>fileResult\<close> turns them into errors of the session.\<close>

definition readTextFile :: "string \<Rightarrow> file_system \<Rightarrow> string session_result \<times> file_system" where
  "readTextFile path fs0 =
     (case take_fault fs0 of
        (Some _, fs) \<Rightarrow> (Inl StorageError, fs)
      | (None, fs) \<Rightarrow> (case fs_files fs path of None \<Rightarrow> (Inl NotFound, fs) | Some t \<Rightarrow> (Inr t, fs)))"

definition writeFile :: "string \<Rightarrow> string \<Rightarrow> file_system \<Rightarrow> unit session_result \<times> file_system" where
  "writeFile path content fs0 =
     (case take_fault fs0 of
        (Some Fails, fs) \<Rightarrow> (Inl StorageError, fs)
      | (Some (FailsAfter n), fs) \<Rightarrow> (Inl StorageError, put_file path (take n content) fs)
      | (None, fs) \<Rightarrow> (Inr (), put_file path content fs))"

definition appendFile :: "string \<Rightarrow> string \<Rightarrow> file_system \<Rightarrow> unit session_result \<times> file_system" where
  "appendFile path content fs0 =
     (case take_fault fs0 of
        (Some Fails, fs) \<Rightarrow> (Inl StorageError, fs)
      | (Some (FailsAfter n), fs) \<Rightarrow> (Inl StorageError, put_file path (file_text fs path @ take n content) fs)
      | (None, fs) \<Rightarrow> (Inr (), put_file path (file_text fs path @ content) fs))"

definition renameFile :: "string \<Rightarrow> string \<Rightarrow> file_system \<Rightarrow> unit session_result \<times> file_system" where
  "renameFile source destination fs0 =
     (case take_fault fs0 of
        (Some _, fs) \<Rightarrow> (Inl StorageError, fs)
      | (None, fs) \<Rightarrow>
          (case fs_files fs source of
             None \<Rightarrow> (Inl NotFound, fs)
           | Some t \<Rightarrow> (Inr (), fs\<lparr>fs_files := (fs_files fs)(source := None, destination \<mapsto> t)\<rparr>)))"

definition removeFile :: "string \<Rightarrow> file_system \<Rightarrow> unit session_result \<times> file_system" where
  "removeFile path fs0 =
     (case take_fault fs0 of
        (Some _, fs) \<Rightarrow> (Inl StorageError, fs)
      | (None, fs) \<Rightarrow> (Inr (), fs\<lparr>fs_files := (fs_files fs)(path := None)\<rparr>))"

definition fileInfo :: "string \<Rightarrow> file_system \<Rightarrow> nat session_result \<times> file_system" where
  "fileInfo path fs0 =
     (case take_fault fs0 of
        (Some _, fs) \<Rightarrow> (Inl StorageError, fs)
      | (None, fs) \<Rightarrow> (if fs_files fs path = None then (Inl NotFound, fs) else (Inr (fs_mtime fs path), fs)))"

definition publishFileAtomically ::
    "string \<Rightarrow> (string \<Rightarrow> file_system \<Rightarrow> ('e + unit) \<times> file_system) \<Rightarrow> (session_error \<Rightarrow> 'e) \<Rightarrow> file_system \<Rightarrow> ('e + unit) \<times> file_system" where
  "publishFileAtomically destination populate wrap fs =
     (let tempPath = destination @ ''.tmp''
      in case fbind (populate tempPath fs) (\<lambda>_ fs1. apfst (map_sum wrap id) (renameFile tempPath destination fs1)) of
           (Inr u, fs2) \<Rightarrow> (Inr u, fs2)
         | (Inl e, fs2) \<Rightarrow> (Inl e, snd (removeFile tempPath fs2)))"

section \<open>The storage\<close>

record jsonl_storage =
  jl_fs :: file_system
  jl_metadata :: jsonl_metadata
  jl_state :: session_state

definition new_jsonl_storage :: "file_system \<Rightarrow> jsonl_metadata \<Rightarrow> jsonl_storage" where
  "new_jsonl_storage fs metadata = \<lparr>jl_fs = fs, jl_metadata = metadata, jl_state = initial_state\<rparr>"

definition jsonl_create :: "number_format \<Rightarrow> string \<Rightarrow> jsonl_header \<Rightarrow> file_system \<Rightarrow> jsonl_storage session_result \<times> file_system" where
  "jsonl_create nf path header fs =
     fbind (writeFile path (encodeHeader nf header) fs) (\<lambda>_ fs1.
     fbind (fileInfo path fs1) (\<lambda>mtime fs2.
       (Inr (new_jsonl_storage fs2 (metadataFromHeader header path mtime)), fs2)))"

definition appendMutation :: "number_format \<Rightarrow> session_mutation \<Rightarrow> jsonl_storage \<Rightarrow> unit session_result \<times> jsonl_storage" where
  "appendMutation nf m st =
     (case appendFile (jm_path (jl_metadata st)) (encodeMutation nf m) (jl_fs st) of (r, fs) \<Rightarrow> (r, st\<lparr>jl_fs := fs\<rparr>))"

definition applyToState :: "session_mutation \<Rightarrow> jsonl_storage \<Rightarrow> unit session_result \<times> jsonl_storage" where
  "applyToState m st =
     (case applyMutation (jl_state st) m of Inl e \<Rightarrow> (Inl e, st) | Inr s \<Rightarrow> (Inr (), st\<lparr>jl_state := s\<rparr>))"

text \<open>What every writing operation ends with: the file first, then the state.\<close>

definition commit :: "number_format \<Rightarrow> session_mutation \<Rightarrow> jsonl_storage \<Rightarrow> unit session_result \<times> jsonl_storage" where
  "commit nf m st = fbind (appendMutation nf m st) (\<lambda>_. applyToState m)"

definition jl_check :: "'a session_result \<Rightarrow> jsonl_storage \<Rightarrow> 'a session_result \<times> jsonl_storage" where
  "jl_check r st = (r, st)"

definition jl_createLane :: "number_format \<Rightarrow> string \<Rightarrow> string option \<Rightarrow> jsonl_storage \<Rightarrow> unit session_result \<times> jsonl_storage" where
  "jl_createLane nf lane target st =
     fbind (jl_check (validateNewLane (jl_state st) lane) st) (\<lambda>_ st.
     fbind (jl_check (validateTarget (jl_state st) target) st) (\<lambda>_ st.
     commit nf (LaneMutation (nextSequence (jl_state st)) lane target) st))"

definition jl_moveLane :: "number_format \<Rightarrow> string \<Rightarrow> string option \<Rightarrow> jsonl_storage \<Rightarrow> unit session_result \<times> jsonl_storage" where
  "jl_moveLane nf lane to st =
     fbind (jl_check (requireLane (jl_state st) lane) st) (\<lambda>_ st.
     fbind (jl_check (validateTarget (jl_state st) to) st) (\<lambda>_ st.
     commit nf (LaneMutation (nextSequence (jl_state st)) lane to) st))"

definition jl_appendEntry ::
    "number_format \<Rightarrow> nat \<Rightarrow> provisioned_entry \<Rightarrow> string \<Rightarrow> jsonl_storage \<Rightarrow> entry session_result \<times> jsonl_storage" where
  "jl_appendEntry nf now newEntry lane st =
     fbind (jl_check (requireLane (jl_state st) lane) st) (\<lambda>parentId st.
     fbind (jl_check (validateUnusedId (jl_state st) (prov_id newEntry)) st) (\<lambda>_ st.
       let e = \<lparr>entry_id = prov_id newEntry, entry_seq = nextSequence (jl_state st), entry_parentId = parentId,
                entry_timestamp = now, entry_payload = prov_payload newEntry\<rparr>
       in fbind (commit nf (EntryMutation (Some lane) e) st) (\<lambda>_ st. (Inr e, st))))"

definition jl_appendRecord ::
    "number_format \<Rightarrow> nat \<Rightarrow> new_record \<Rightarrow> jsonl_storage \<Rightarrow> lane_record session_result \<times> jsonl_storage" where
  "jl_appendRecord nf now newRecord st =
     fbind (jl_check (requireLane (jl_state st) (new_lane newRecord)) st) (\<lambda>_ st.
     fbind (jl_check (validateUnusedId (jl_state st) (new_id newRecord)) st) (\<lambda>_ st.
     fbind (jl_check (findOpenOperations (jl_state st) (new_lane newRecord) (Some (JsInt 1))) st) (\<lambda>current st.
       if body_type (new_body newRecord) = OperationStartedType \<and> current \<noteq> [] then (Inl StorageError, st)
       else
         let r = \<lparr>rec_id = new_id newRecord, rec_seq = nextSequence (jl_state st), rec_lane = new_lane newRecord,
                  rec_timestamp = now, rec_body = new_body newRecord\<rparr>
         in fbind (commit nf (RecordMutation r) st) (\<lambda>_ st. (Inr r, st)))))"

definition jl_setName :: "number_format \<Rightarrow> string option \<Rightarrow> jsonl_storage \<Rightarrow> unit session_result \<times> jsonl_storage" where
  "jl_setName nf name st = commit nf (NameMutation (nextSequence (jl_state st)) name) st"

definition jl_setLabel :: "number_format \<Rightarrow> string \<Rightarrow> string option \<Rightarrow> jsonl_storage \<Rightarrow> unit session_result \<times> jsonl_storage" where
  "jl_setLabel nf i label st =
     fbind (jl_check (validateTarget (jl_state st) (Some i)) st) (\<lambda>_ st.
     commit nf (LabelMutation (nextSequence (jl_state st)) i label) st)"

section \<open>Loading\<close>

text \<open>\<open>UntypedEntry\<close>: the file holds an object that is not of the type it is cast to, where the model ends.\<close>

datatype load_error = LoadError session_error | UntypedEntry

datatype replay_result =
    ReplayFailed load_error
  | ReplayTorn session_state "string list"
  | Replayed session_state

definition applied :: "session_state session_result \<Rightarrow> (session_state \<Rightarrow> replay_result) \<Rightarrow> replay_result" where
  "applied r k = (case r of Inl e \<Rightarrow> ReplayFailed (LoadError e) | Inr s \<Rightarrow> k s)"

fun replay_lines :: "number_format \<Rightarrow> string list \<Rightarrow> session_state \<Rightarrow> string list \<Rightarrow> replay_result" where
  "replay_lines nf prefix s [] = Replayed s"
| "replay_lines nf prefix s (line # lines) =
     (case parseMutation nf line of
        Inl e \<Rightarrow> if lines = [] \<and> e = SyntaxError then ReplayTorn s prefix else ReplayFailed (LoadError InvalidEntry)
      | Inr raw \<Rightarrow>
          (case typed_mutation nf raw of
             None \<Rightarrow> ReplayFailed UntypedEntry
           | Some m \<Rightarrow> applied (applyMutation s m) (\<lambda>s'. replay_lines nf (prefix @ [line]) s' lines)))"

definition physical_lines :: "string \<Rightarrow> string list" where
  "physical_lines content =
     (let ls = js_split (CHR 0x0A) content in if ls \<noteq> [] \<and> last ls = [] then butlast ls else ls)"

definition ends_with_newline :: "string \<Rightarrow> bool" where
  "ends_with_newline s = (s \<noteq> [] \<and> last s = CHR 0x0A)"

definition lift_load :: "'a session_result \<times> file_system \<Rightarrow> (load_error + 'a) \<times> file_system" where
  "lift_load = apfst (map_sum LoadError id)"

definition jsonl_load :: "number_format \<Rightarrow> string \<Rightarrow> file_system \<Rightarrow> (load_error + jsonl_storage) \<times> file_system" where
  "jsonl_load nf path fs =
     fbind (lift_load (readTextFile path fs)) (\<lambda>content fs1.
       let lines = physical_lines content
       in if lines = [] \<or> hd lines = [] then (Inl (LoadError InvalidEntry), fs1)
          else (case parseHeader nf (hd lines) of
            Inl _ \<Rightarrow> (Inl (LoadError InvalidEntry), fs1)
          | Inr header \<Rightarrow>
              fbind (lift_load (fileInfo path fs1)) (\<lambda>mtime fs2.
                let opened = (\<lambda>s fs'. \<lparr>jl_fs = fs', jl_metadata = metadataFromHeader header path mtime, jl_state = s\<rparr>)
                in case replay_lines nf [hd lines] initial_state (tl lines) of
                     ReplayFailed e \<Rightarrow> (Inl e, fs2)
                   | ReplayTorn s prefix \<Rightarrow>
                       fbind (publishFileAtomically path
                         (\<lambda>tempPath fs'. lift_load (writeFile tempPath (js_join [CHR 0x0A] prefix @ [CHR 0x0A]) fs')) LoadError fs2)
                         (\<lambda>_ fs3. (Inr (opened s fs3), fs3))
                   | Replayed s \<Rightarrow>
                       if ends_with_newline content then (Inr (opened s fs2), fs2)
                       else fbind (lift_load (appendFile path [CHR 0x0A] fs2)) (\<lambda>_ fs3. (Inr (opened s fs3), fs3)))))"

fun append_all :: "number_format \<Rightarrow> session_mutation list \<Rightarrow> jsonl_storage \<Rightarrow> unit session_result \<times> jsonl_storage" where
  "append_all nf [] st = (Inr (), st)"
| "append_all nf (m # ms) st =
     fbind (appendMutation nf m st) (\<lambda>_ st1.
     fbind (applyToState m st1) (\<lambda>_ st2. append_all nf ms st2))"

definition jsonl_fork ::
    "number_format \<Rightarrow> string \<Rightarrow> jsonl_header \<Rightarrow> fork_options \<Rightarrow> session_state \<Rightarrow> file_system \<Rightarrow> (load_error + jsonl_storage) \<times> file_system" where
  "jsonl_fork nf path header options s fs =
     (case createForkMutations s options of
        Inl e \<Rightarrow> (Inl (LoadError e), fs)
      | Inr mutations \<Rightarrow>
          fbind (publishFileAtomically path
            (\<lambda>tempPath fs'. lift_load
              (fbind (jsonl_create nf tempPath header fs') (\<lambda>st fs1.
                 (case append_all nf mutations st of (r, st') \<Rightarrow> (r, jl_fs st'))))) LoadError fs)
            (\<lambda>_ fs1. jsonl_load nf path fs1))"

section \<open>What a file holds\<close>

definition file_content :: "number_format \<Rightarrow> jsonl_header \<Rightarrow> session_mutation list \<Rightarrow> string" where
  "file_content nf h ms = encodeHeader nf h @ concat (map (encodeMutation nf) ms)"

definition replay :: "session_mutation list \<Rightarrow> session_state session_result" where
  "replay ms = rfold applyMutation initial_state ms"

text \<open>The file is the header and the mutations that make up the state.\<close>

definition file_holds :: "number_format \<Rightarrow> jsonl_header \<Rightarrow> session_mutation list \<Rightarrow> session_state \<Rightarrow> string \<Rightarrow> bool" where
  "file_holds nf h ms s content = (storable_header nf h \<and> list_all (storable nf) ms \<and> replay ms = Inr s \<and> content = file_content nf h ms)"

definition durable :: "number_format \<Rightarrow> jsonl_header \<Rightarrow> session_mutation list \<Rightarrow> jsonl_storage \<Rightarrow> bool" where
  "durable nf h ms st = (file_holds nf h ms (jl_state st) (file_text (jl_fs st) (jm_path (jl_metadata st))) \<and>
     fs_files (jl_fs st) (jm_path (jl_metadata st)) \<noteq> None)"

lemma split_line: "CHR 0x0A \<notin> set l \<Longrightarrow> js_split (CHR 0x0A) (l @ CHR 0x0A # t) = l # js_split (CHR 0x0A) t"
  by (induction l) auto

lemma split_lines:
  "\<forall>l \<in> set ls. CHR 0x0A \<notin> set l \<Longrightarrow> CHR 0x0A \<notin> set t \<Longrightarrow>
   js_split (CHR 0x0A) (concat (map (\<lambda>l. l @ [CHR 0x0A]) ls) @ t) = ls @ [t]"
  by (induction ls) (simp_all add: split_line js_split_plain)

lemma join_lines: "ls \<noteq> [] \<Longrightarrow> js_join [CHR 0x0A] ls @ [CHR 0x0A] = concat (map (\<lambda>l. l @ [CHR 0x0A]) ls)"
  by (induction ls) (auto simp: js_join_Cons)

lemma content_lines: "file_content nf h ms = concat (map (\<lambda>l. l @ [CHR 0x0A]) (header_line nf h # map (mutation_line nf) ms))"
  by (simp add: file_content_def encodeHeader_def encodeMutation_def [abs_def] header_line_def comp_def)

lemma content_physical_lines:
  assumes "storable_header nf h" "list_all (storable nf) ms" "CHR 0x0A \<notin> set t"
  shows "physical_lines (file_content nf h ms @ t) = header_line nf h # map (mutation_line nf) ms @ (if t = [] then [] else [t])"
proof -
  have "js_split (CHR 0x0A) (file_content nf h ms @ t) = (header_line nf h # map (mutation_line nf) ms) @ [t]"
    unfolding content_lines using assms
    by (intro split_lines) (auto simp: header_no_newline line_no_newline list_all_iff)
  then show ?thesis by (simp add: physical_lines_def Let_def)
qed

lemma content_join:
  "js_join [CHR 0x0A] (header_line nf h # map (mutation_line nf) ms) @ [CHR 0x0A] = file_content nf h ms"
  by (simp add: join_lines content_lines del: list.map concat.simps)

lemma content_ends: "ends_with_newline (file_content nf h ms)"
  by (cases ms rule: rev_cases) (simp_all add: ends_with_newline_def file_content_def encodeHeader_def encodeMutation_def)

lemma content_snoc: "file_content nf h (ms @ [m]) = file_content nf h ms @ encodeMutation nf m"
  by (simp add: file_content_def)

lemma replay_encoded:
  assumes "list_all (storable nf) ms" "rfold applyMutation s ms = Inr s'"
  shows "replay_lines nf prefix s (map (mutation_line nf) ms @ rest) = replay_lines nf (prefix @ map (mutation_line nf) ms) s' rest"
  using assms
proof (induction ms arbitrary: s prefix)
  case (Cons m ms)
  then obtain s1 where "applyMutation s m = Inr s1" "rfold applyMutation s1 ms = Inr s'" by auto
  with Cons mutation_read_back [of nf m] show ?case by (auto simp: applied_def)
qed simp

lemma replay_snoc: "replay (ms @ [m]) = rbind (replay ms) (\<lambda>s. applyMutation s m)"
  by (cases "replay ms") (auto simp: replay_def rfold_append rbind_def split: sum.split)

section \<open>Loading what was written\<close>

definition faultless :: "file_system \<Rightarrow> bool" where
  "faultless fs = (fs_faults fs = [])"

lemma take_fault_none [simp]: "faultless fs \<Longrightarrow> take_fault fs = (None, fs)"
  by (simp add: take_fault_def faultless_def)

lemma put_file_simps [simp]:
  "faultless (put_file path c fs) = faultless fs" "fs_files (put_file path c fs) = (fs_files fs)(path \<mapsto> c)"
  "fs_mtime (put_file path c fs) = fs_mtime fs"
  by (simp_all add: put_file_def faultless_def)

definition opened_storage :: "jsonl_header \<Rightarrow> string \<Rightarrow> file_system \<Rightarrow> session_state \<Rightarrow> jsonl_storage" where
  "opened_storage h path fs s = \<lparr>jl_fs = fs, jl_metadata = metadataFromHeader h path (fs_mtime fs path), jl_state = s\<rparr>"

lemma load_start:
  assumes "faultless fs" "fs_files fs path = Some content" "storable_header nf h" "list_all (storable nf) ms" "replay ms = Inr s"
    and "physical_lines content = header_line nf h # map (mutation_line nf) ms @ rest"
  shows "jsonl_load nf path fs =
    (case replay_lines nf (header_line nf h # map (mutation_line nf) ms) s rest of
       ReplayFailed e \<Rightarrow> (Inl e, fs)
     | ReplayTorn s' prefix \<Rightarrow>
         fbind (publishFileAtomically path
           (\<lambda>tempPath fs'. lift_load (writeFile tempPath (js_join [CHR 0x0A] prefix @ [CHR 0x0A]) fs')) LoadError fs)
           (\<lambda>_ fs3. (Inr (opened_storage h path fs3 s'\<lparr>jl_metadata := metadataFromHeader h path (fs_mtime fs path)\<rparr>), fs3))
     | Replayed s' \<Rightarrow>
         if ends_with_newline content then (Inr (opened_storage h path fs s'), fs)
         else fbind (lift_load (appendFile path [CHR 0x0A] fs))
           (\<lambda>_ fs3. (Inr (opened_storage h path fs3 s'\<lparr>jl_metadata := metadataFromHeader h path (fs_mtime fs path)\<rparr>), fs3)))"
proof -
  have "replay_lines nf [header_line nf h] initial_state (map (mutation_line nf) ms @ rest) =
      replay_lines nf (header_line nf h # map (mutation_line nf) ms) s rest"
    using replay_encoded [of nf ms initial_state s "[header_line nf h]"] assms(4,5) by (simp add: replay_def)
  then show ?thesis
    using assms header_read_back [of nf h] line_nonempty(2) [of nf h]
    by (simp add: jsonl_load_def readTextFile_def fileInfo_def lift_load_def opened_storage_def Let_def
        del: replay_lines.simps split: replay_result.split)
qed

text \<open>A last line that is no JSON is dropped.\<close>

lemma load_bad_tail:
  assumes "faultless fs" "file_holds nf h ms s (file_content nf h ms)" "fs_files fs path = Some content"
    and "physical_lines content = header_line nf h # map (mutation_line nf) ms @ [t]" "parseMutation nf t = Inl SyntaxError"
  shows "\<exists>fs'. jsonl_load nf path fs = (Inr (opened_storage h path fs' s), fs') \<and> faultless fs' \<and>
    fs_files fs' path = Some (file_content nf h ms)"
proof -
  let ?tmp = "path @ ''.tmp''" and ?c = "file_content nf h ms"
  let ?fs' = "(put_file ?tmp ?c fs)\<lparr>fs_files := (fs_files (put_file ?tmp ?c fs))(?tmp := None, path \<mapsto> ?c)\<rparr>"
  have "jsonl_load nf path fs = (Inr (opened_storage h path ?fs' s), ?fs')"
    using load_start [of fs path content nf h ms s "[t]"] assms content_join [of nf h ms]
    by (simp add: file_holds_def publishFileAtomically_def writeFile_def renameFile_def lift_load_def opened_storage_def Let_def)
  then show ?thesis using assms(1) by (auto simp: faultless_def put_file_def)
qed

lemma load_complete:
  assumes "faultless fs" "file_holds nf h ms s content" "fs_files fs path = Some content"
  shows "jsonl_load nf path fs = (Inr (opened_storage h path fs s), fs)"
  using load_start [of fs path content nf h ms s "[]"] content_physical_lines [of nf h ms "[]"] assms content_ends
  by (simp add: file_holds_def)

lemma load_torn:
  assumes "faultless fs" "file_holds nf h ms s content" "fs_files fs path = Some (content @ t)"
    and "storable nf m" "mutation_line nf m = t @ q" "t \<noteq> []" "q \<noteq> []"
  shows "\<exists>fs'. jsonl_load nf path fs = (Inr (opened_storage h path fs' s), fs') \<and> faultless fs' \<and> fs_files fs' path = Some content"
proof -
  have c: "content = file_content nf h ms" using assms(2) by (simp add: file_holds_def)
  have "CHR 0x0A \<notin> set t" using line_no_newline [OF assms(4)] assms(5) by simp
  then have "physical_lines (content @ t) = header_line nf h # map (mutation_line nf) ms @ [t]"
    using content_physical_lines [of nf h ms t] assms(2,6) by (simp add: file_holds_def)
  from load_bad_tail [OF assms(1) _ assms(3) this cut_line_syntax_error [OF assms(4,5,7)]] assms(2) show ?thesis by (simp add: c)
qed

lemma load_unterminated:
  assumes "faultless fs" "file_holds nf h ms s content" "fs_files fs path = Some (content @ mutation_line nf m)"
    and "storable nf m" "applyMutation s m = Inr s'"
  shows "\<exists>fs'. jsonl_load nf path fs = (Inr (opened_storage h path fs' s'), fs') \<and> faultless fs' \<and>
    fs_files fs' path = Some (file_content nf h (ms @ [m]))"
proof -
  have nl: "CHR 0x0A \<notin> set (mutation_line nf m)" using line_no_newline assms(4) by blast
  have last: "\<not> ends_with_newline (file_content nf h ms @ mutation_line nf m)"
    using nl line_nonempty(1) [of nf m] by (auto simp: ends_with_newline_def dest: last_in_set)
  obtain raw where raw: "parseMutation nf (mutation_line nf m) = Inr raw" "typed_mutation nf raw = Some m"
    using mutation_read_back [OF assms(4)] by blast
  let ?fs' = "put_file path (file_content nf h (ms @ [m])) fs"
  have "jsonl_load nf path fs = (Inr (opened_storage h path ?fs' s'), ?fs')"
    using load_start [of fs path "content @ mutation_line nf m" nf h ms s "[mutation_line nf m]"]
      content_physical_lines [of nf h ms "mutation_line nf m"] assms nl last raw line_nonempty(1) [of nf m]
    by (simp add: file_holds_def applied_def appendFile_def lift_load_def opened_storage_def file_text_def content_snoc encodeMutation_def)
  then show ?thesis using assms(1) by auto
qed

section \<open>Writing\<close>

lemma append_success:
  "appendFile path c fs = (Inr (), fs') \<Longrightarrow>
   fs_files fs' = (fs_files fs)(path \<mapsto> file_text fs path @ c) \<and> fs_mtime fs' = fs_mtime fs"
  by (auto simp: appendFile_def take_fault_def put_file_def file_text_def split: list.splits option.splits fault.splits)

lemma write_success:
  "writeFile path c fs = (Inr (), fs') \<Longrightarrow> fs_files fs' = (fs_files fs)(path \<mapsto> c) \<and> fs_mtime fs' = fs_mtime fs"
  by (auto simp: writeFile_def take_fault_def put_file_def split: list.splits option.splits fault.splits)

lemma info_success:
  "fileInfo path fs = (Inr t, fs') \<Longrightarrow> fs_files fs' = fs_files fs \<and> fs_mtime fs' = fs_mtime fs \<and> t = fs_mtime fs path"
  by (auto simp: fileInfo_def take_fault_def split: list.splits option.splits if_splits)

lemma commit_success:
  assumes "commit nf m st = (Inr (), st')"
  shows "applyMutation (jl_state st) m = Inr (jl_state st')" "jl_metadata st' = jl_metadata st"
    "fs_files (jl_fs st') = (fs_files (jl_fs st))(jm_path (jl_metadata st) \<mapsto>
       file_text (jl_fs st) (jm_path (jl_metadata st)) @ encodeMutation nf m)"
proof -
  obtain r fs1 where a: "appendFile (jm_path (jl_metadata st)) (encodeMutation nf m) (jl_fs st) = (r, fs1)" by (rule prod.exhaust)
  with assms have r: "r = Inr ()" by (cases r) (auto simp: commit_def appendMutation_def)
  with assms a obtain s1 where s1: "applyMutation (jl_state st) m = Inr s1" "st' = st\<lparr>jl_fs := fs1, jl_state := s1\<rparr>"
    by (cases "applyMutation (jl_state st) m") (auto simp: commit_def appendMutation_def applyToState_def)
  with append_success [of "jm_path (jl_metadata st)" "encodeMutation nf m" "jl_fs st" fs1] a r
  show "applyMutation (jl_state st) m = Inr (jl_state st')" "jl_metadata st' = jl_metadata st"
    "fs_files (jl_fs st') = (fs_files (jl_fs st))(jm_path (jl_metadata st) \<mapsto>
       file_text (jl_fs st) (jm_path (jl_metadata st)) @ encodeMutation nf m)"
    by simp_all
qed

lemma commit_durable:
  assumes "commit nf m st = (Inr (), st')" "durable nf h ms st" "storable nf m"
  shows "durable nf h (ms @ [m]) st'"
  using assms(2,3) commit_success [OF assms(1)]
  by (simp add: durable_def file_holds_def file_text_def content_snoc replay_snoc)

text \<open>One rule per operation that writes, with the mutation it writes.\<close>

inductive jsonl_write :: "number_format \<Rightarrow> jsonl_storage \<Rightarrow> session_mutation \<Rightarrow> jsonl_storage \<Rightarrow> bool" for nf where
  write_createLane: "jl_createLane nf lane target st = (Inr (), st') \<Longrightarrow>
    jsonl_write nf st (LaneMutation (nextSequence (jl_state st)) lane target) st'"
| write_moveLane: "jl_moveLane nf lane target st = (Inr (), st') \<Longrightarrow>
    jsonl_write nf st (LaneMutation (nextSequence (jl_state st)) lane target) st'"
| write_appendEntry: "jl_appendEntry nf now p lane st = (Inr e, st') \<Longrightarrow> jsonl_write nf st (EntryMutation (Some lane) e) st'"
| write_appendRecord: "jl_appendRecord nf now r st = (Inr x, st') \<Longrightarrow> jsonl_write nf st (RecordMutation x) st'"
| write_setName: "jl_setName nf name st = (Inr (), st') \<Longrightarrow> jsonl_write nf st (NameMutation (nextSequence (jl_state st)) name) st'"
| write_setLabel: "jl_setLabel nf i label st = (Inr (), st') \<Longrightarrow>
    jsonl_write nf st (LabelMutation (nextSequence (jl_state st)) i label) st'"

inductive jsonl_writes :: "number_format \<Rightarrow> jsonl_storage \<Rightarrow> session_mutation list \<Rightarrow> jsonl_storage \<Rightarrow> bool" for nf where
  writes_none: "jsonl_writes nf st [] st"
| writes_more: "jsonl_writes nf st ms st1 \<Longrightarrow> jsonl_write nf st1 m st2 \<Longrightarrow> jsonl_writes nf st (ms @ [m]) st2"

lemmas jl_ops = jl_createLane_def jl_moveLane_def jl_appendEntry_def jl_appendRecord_def jl_setName_def jl_setLabel_def
  jl_check_def

lemma write_commits: "jsonl_write nf st m st' \<Longrightarrow> commit nf m st = (Inr (), st')"
  by (induction rule: jsonl_write.induct) (auto simp: jl_ops fbind_Inr Let_def split: if_splits)

lemma writes_durable:
  "jsonl_writes nf st ms st' \<Longrightarrow> durable nf h ms0 st \<Longrightarrow> list_all (storable nf) ms \<Longrightarrow>
   durable nf h (ms0 @ ms) st' \<and> jl_metadata st' = jl_metadata st"
proof (induction rule: jsonl_writes.induct)
  case (writes_more st ms st1 m st2)
  have "commit nf m st1 = (Inr (), st2)" using writes_more.hyps(2) by (rule write_commits)
  with writes_more show ?case
    using commit_durable [of nf m st1 st2 h "ms0 @ ms"] commit_success(2) by auto
qed simp

lemma create_durable:
  assumes "jsonl_create nf path h fs = (Inr st, fs')" "storable_header nf h"
  shows "durable nf h [] st \<and> jm_path (jl_metadata st) = path"
proof -
  from assms(1) obtain fs1 t where fs1: "writeFile path (encodeHeader nf h) fs = (Inr (), fs1)" "fileInfo path fs1 = (Inr t, fs')"
      "st = new_jsonl_storage fs' (metadataFromHeader h path t)"
    by (auto simp: jsonl_create_def fbind_Inr)
  with write_success [OF fs1(1)] info_success [OF fs1(2)] assms(2) show ?thesis
    by (simp add: durable_def file_holds_def file_text_def replay_def file_content_def new_jsonl_storage_def metadataFromHeader_def)
qed

text \<open>A restart: a file system with the same files that works again.\<close>

definition restarted :: "file_system \<Rightarrow> file_system" where
  "restarted fs = fs\<lparr>fs_faults := []\<rparr>"

lemma restarted_simps [simp]: "faultless (restarted fs)" "fs_files (restarted fs) = fs_files fs" "fs_mtime (restarted fs) = fs_mtime fs"
  by (simp_all add: restarted_def faultless_def)

lemma durable_file: "durable nf h ms st \<Longrightarrow> fs_files (jl_fs st) (jm_path (jl_metadata st)) = Some (file_content nf h ms)"
  by (auto simp: durable_def file_holds_def file_text_def split: option.splits)

lemma durable_load:
  assumes "durable nf h ms st"
  shows "jsonl_load nf (jm_path (jl_metadata st)) (restarted (jl_fs st)) =
    (Inr (opened_storage h (jm_path (jl_metadata st)) (restarted (jl_fs st)) (jl_state st)), restarted (jl_fs st))"
  using assms durable_file [OF assms]
  by (intro load_complete [of _ nf h ms _ "file_content nf h ms"]) (auto simp: durable_def file_holds_def)


text \<open>A crash in the middle of an append.\<close>

definition crashed :: "number_format \<Rightarrow> jsonl_storage \<Rightarrow> session_mutation \<Rightarrow> nat \<Rightarrow> file_system" where
  "crashed nf st m k =
     put_file (jm_path (jl_metadata st)) (file_text (jl_fs st) (jm_path (jl_metadata st)) @ take k (encodeMutation nf m)) (restarted (jl_fs st))"

text \<open>C6: A write is all or nothing.  If the process dies while the line of a mutation is appended, with any part of the
  line in the file, opening the session gives the state before the mutation, or the state after it if the line was written
  up to its line break, and leaves a file that holds this state and can be appended to.\<close>

theorem crash_recovery:
  assumes "durable nf h ms st" "storable nf m" "applyMutation (jl_state st) m = Inr s'"
  shows "\<exists>st' ms'. jsonl_load nf (jm_path (jl_metadata st)) (crashed nf st m k) = (Inr st', jl_fs st') \<and> durable nf h ms' st' \<and>
    jl_state st' = (if k < length (mutation_line nf m) then jl_state st else s') \<and>
    ms' = (if k < length (mutation_line nf m) then ms else ms @ [m])"
proof -
  let ?path = "jm_path (jl_metadata st)" and ?line = "mutation_line nf m" and ?content = "file_content nf h ms"
  have holds: "file_holds nf h ms (jl_state st) ?content" and cont: "file_text (jl_fs st) ?path = ?content"
    using assms(1) by (auto simp: durable_def file_holds_def)
  have grown: "file_holds nf h (ms @ [m]) s' (file_content nf h (ms @ [m]))"
    using holds assms(2,3) by (simp add: file_holds_def replay_snoc)
  have fin: "durable nf h ms1 (opened_storage h ?path fs1 s1)"
    if "file_holds nf h ms1 s1 (file_content nf h ms1)" "fs_files fs1 ?path = Some (file_content nf h ms1)" for ms1 fs1 s1
    using that by (simp add: durable_def opened_storage_def metadataFromHeader_def file_text_def)
  have opened: "jl_fs (opened_storage h ?path fs1 s1) = fs1" "jl_state (opened_storage h ?path fs1 s1) = s1" for fs1 s1
    by (simp_all add: opened_storage_def)
  have fs: "fs_files (crashed nf st m k) ?path = Some (?content @ take k (encodeMutation nf m))" "faultless (crashed nf st m k)"
    by (simp_all add: crashed_def cont)
  consider "k = 0" | "0 < k" "k < length ?line" | "k = length ?line" | "length ?line < k" by linarith
  then show ?thesis
  proof cases
    case 1
    with fs load_complete [OF fs(2) holds, of ?path] fin [OF holds] opened line_nonempty(1) [of nf m] show ?thesis by auto
  next
    case 2
    then have "fs_files (crashed nf st m k) ?path = Some (?content @ take k ?line)" using fs by (simp add: encodeMutation_def)
    moreover have "take k ?line \<noteq> []" "drop k ?line \<noteq> []" using 2 line_nonempty(1) [of nf m] by auto
    ultimately obtain fs' where "jsonl_load nf ?path (crashed nf st m k) = (Inr (opened_storage h ?path fs' (jl_state st)), fs')"
        "fs_files fs' ?path = Some ?content"
      using load_torn [OF fs(2) holds _ assms(2), of ?path "take k ?line" "drop k ?line"] by auto
    with 2 fin [OF holds] opened show ?thesis by auto
  next
    case 3
    then have "fs_files (crashed nf st m k) ?path = Some (?content @ ?line)" using fs by (simp add: encodeMutation_def)
    from load_unterminated [OF fs(2) holds this assms(2,3)] obtain fs' where
        "jsonl_load nf ?path (crashed nf st m k) = (Inr (opened_storage h ?path fs' s'), fs')"
        "fs_files fs' ?path = Some (file_content nf h (ms @ [m]))"
      by blast
    with 3 fin [OF grown] opened show ?thesis by auto
  next
    case 4
    then have "fs_files (crashed nf st m k) ?path = Some (file_content nf h (ms @ [m]))"
      using fs by (simp add: encodeMutation_def content_snoc)
    with 4 load_complete [OF fs(2) grown] fin [OF grown] opened show ?thesis by auto
  qed
qed

section \<open>The same as in memory\<close>

definition in_memory :: "jsonl_storage \<Rightarrow> memory_storage" where
  "in_memory st =
     \<lparr>ms_metadata = \<lparr>md_id = jm_id (jl_metadata st), md_createdAt = jm_createdAt (jl_metadata st),
        md_parentSessionId = jm_parentSessionId (jl_metadata st)\<rparr>,
      ms_state = jl_state st\<rparr>"

lemma in_memory_state [simp]: "ms_state (in_memory st) = jl_state st"
  by (simp add: in_memory_def)

text \<open>An operation on the file agrees with one in memory: the same error and nothing changed, or the same result and state.\<close>

definition agrees :: "jsonl_storage \<Rightarrow> 'a session_result \<times> jsonl_storage \<Rightarrow> (memory_storage \<times> 'a) session_result \<Rightarrow> bool" where
  "agrees st res mem =
     (case mem of
        Inl e \<Rightarrow> res = (Inl e, st)
      | Inr (ms, a) \<Rightarrow> fst res = Inr a \<and> in_memory (snd res) = ms \<and> faultless (jl_fs (snd res)))"

definition no_value :: "memory_storage session_result \<Rightarrow> (memory_storage \<times> unit) session_result" where
  "no_value r = map_sum id (\<lambda>ms. (ms, ())) r"

lemma commit_faultless:
  assumes "faultless (jl_fs st)" "applyMutation (jl_state st) m = Inr s'"
  shows "\<exists>st'. commit nf m st = (Inr (), st') \<and> in_memory st' = (in_memory st)\<lparr>ms_state := s'\<rparr> \<and> faultless (jl_fs st')"
  using assms by (simp add: commit_def appendMutation_def applyToState_def appendFile_def in_memory_def)

lemma commit_agrees:
  assumes "faultless (jl_fs st)" "\<exists>s'. applyMutation (jl_state st) m = Inr s'"
  shows "agrees st (commit nf m st) (no_value (mem_apply (in_memory st) m))"
proof -
  from assms(2) obtain s' where "applyMutation (jl_state st) m = Inr s'" by blast
  with commit_faultless [OF assms(1) this, of nf] show ?thesis by (auto simp: agrees_def no_value_def mem_apply_def)
qed

text \<open>What the operations check beforehand is all that a mutation can fail on.\<close>

lemma checked_lane:
  "validateTarget s target = Inr () \<Longrightarrow> \<exists>s'. applyMutation s (LaneMutation (nextSequence s) lane target) = Inr s'"
  by (auto simp: applyMutation_def applyLane_def validateTarget_def nextSequence_def split: option.splits)

lemma checked_label:
  "validateTarget s (Some i) = Inr () \<Longrightarrow> \<exists>s'. applyMutation s (LabelMutation (nextSequence s) i label) = Inr s'"
  by (auto simp: applyMutation_def applyLabel_def validateTarget_def nextSequence_def)

lemma checked_name: "\<exists>s'. applyMutation s (NameMutation (nextSequence s) name) = Inr s'"
  by (simp add: applyMutation_def applyName_def nextSequence_def)

lemma checked_entry:
  assumes "wf_state s" "requireLane s lane = Inr parentId" "validateUnusedId s (entry_id e) = Inr ()"
    and "entry_parentId e = parentId" "entry_seq e = nextSequence s"
  shows "\<exists>s'. applyMutation s (EntryMutation (Some lane) e) = Inr s'"
proof -
  have "hasEntry s i" if "parentId = Some i" for i
    using requireLane_known assms(1,2) that hasEntry_iff wf_parts(1) by blast
  moreover have "map_of (ss_lanes s) lane = Some parentId" using assms(2) by (simp add: requireLane_def split: option.splits)
  ultimately show ?thesis
    using assms by (auto simp: applyMutation_def applyEntry_def validateUnusedId_def nextSequence_def split: option.splits)
qed

lemma checked_record:
  assumes "requireLane s (rec_lane r) = Inr leaf" "validateUnusedId s (rec_id r) = Inr ()" "rec_seq r = nextSequence s"
  shows "\<exists>s'. applyMutation s (RecordMutation r) = Inr s'"
  using assms by (auto simp: applyMutation_def applyRecord_def requireLane_def validateUnusedId_def nextSequence_def split: option.splits)

lemma createLane_agrees:
  assumes "faultless (jl_fs st)"
  shows "agrees st (jl_createLane nf lane target st) (no_value (mem_createLane (in_memory st) lane target))"
proof (cases "validateNewLane (jl_state st) lane = Inr () \<and> validateTarget (jl_state st) target = Inr ()")
  case True
  with commit_agrees [OF assms checked_lane] show ?thesis by (simp add: jl_createLane_def mem_createLane_def jl_check_def)
next
  case False
  then show ?thesis
    by (cases "validateNewLane (jl_state st) lane"; cases "validateTarget (jl_state st) target")
      (auto simp: jl_createLane_def mem_createLane_def jl_check_def agrees_def no_value_def)
qed

lemma moveLane_agrees:
  assumes "faultless (jl_fs st)"
  shows "agrees st (jl_moveLane nf lane target st) (no_value (mem_moveLane (in_memory st) lane target))"
proof (cases "validateTarget (jl_state st) target = Inr ()")
  case True
  with commit_agrees [OF assms checked_lane] show ?thesis
    by (cases "requireLane (jl_state st) lane") (simp_all add: jl_moveLane_def mem_moveLane_def jl_check_def agrees_def no_value_def)
next
  case False
  then show ?thesis
    by (cases "requireLane (jl_state st) lane"; cases "validateTarget (jl_state st) target")
      (auto simp: jl_moveLane_def mem_moveLane_def jl_check_def agrees_def no_value_def)
qed

lemma setName_agrees: "faultless (jl_fs st) \<Longrightarrow> agrees st (jl_setName nf name st) (no_value (mem_setName (in_memory st) name))"
  using commit_agrees [OF _ checked_name] by (simp add: jl_setName_def mem_setName_def)

lemma setLabel_agrees:
  assumes "faultless (jl_fs st)"
  shows "agrees st (jl_setLabel nf i label st) (no_value (mem_setLabel (in_memory st) i label))"
proof (cases "validateTarget (jl_state st) (Some i)")
  case (Inr u)
  with commit_agrees [OF assms checked_label] show ?thesis by (simp add: jl_setLabel_def mem_setLabel_def jl_check_def)
qed (simp add: jl_setLabel_def mem_setLabel_def jl_check_def agrees_def no_value_def)

lemma commit_with:
  assumes "faultless (jl_fs st)" "\<exists>s'. applyMutation (jl_state st) m = Inr s'"
  shows "agrees st (fbind (commit nf m st) (\<lambda>_ st. (Inr x, st))) (rbind (mem_apply (in_memory st) m) (\<lambda>ms. Inr (ms, x)))"
proof -
  from assms(2) obtain s' where s': "applyMutation (jl_state st) m = Inr s'" by blast
  with commit_faultless [OF assms(1) s', of nf] show ?thesis by (auto simp: agrees_def mem_apply_def)
qed

lemma appendEntry_agrees:
  assumes "faultless (jl_fs st)" "wf_state (jl_state st)"
  shows "agrees st (jl_appendEntry nf now p lane st) (mem_appendEntry now (in_memory st) p lane)"
proof (cases "requireLane (jl_state st) lane")
  case (Inr parentId)
  show ?thesis
  proof (cases "validateUnusedId (jl_state st) (prov_id p)")
    case (Inr u)
    have "\<exists>s'. applyMutation (jl_state st) (EntryMutation (Some lane) \<lparr>entry_id = prov_id p, entry_seq = nextSequence (jl_state st),
        entry_parentId = parentId, entry_timestamp = now, entry_payload = prov_payload p\<rparr>) = Inr s'"
      using Inr \<open>requireLane (jl_state st) lane = Inr parentId\<close> assms(2) by (intro checked_entry) simp_all
    from commit_with [OF assms(1) this] Inr \<open>requireLane (jl_state st) lane = Inr parentId\<close> show ?thesis
      by (simp add: jl_appendEntry_def mem_appendEntry_def jl_check_def Let_def)
  qed (use Inr in \<open>simp add: jl_appendEntry_def mem_appendEntry_def jl_check_def agrees_def\<close>)
qed (simp add: jl_appendEntry_def mem_appendEntry_def jl_check_def agrees_def)

lemma appendRecord_agrees:
  assumes "faultless (jl_fs st)"
  shows "agrees st (jl_appendRecord nf now r st) (mem_appendRecord now (in_memory st) r)"
proof (cases "requireLane (jl_state st) (new_lane r)")
  case lane: (Inr leaf)
  show ?thesis
  proof (cases "validateUnusedId (jl_state st) (new_id r)")
    case unused: (Inr u)
    show ?thesis
    proof (cases "findOpenOperations (jl_state st) (new_lane r) (Some (JsInt 1))")
      case current: (Inr current)
      have "\<exists>s'. applyMutation (jl_state st) (RecordMutation \<lparr>rec_id = new_id r, rec_seq = nextSequence (jl_state st),
          rec_lane = new_lane r, rec_timestamp = now, rec_body = new_body r\<rparr>) = Inr s'"
        using lane unused by (intro checked_record) simp_all
      from commit_with [OF assms this] lane unused current show ?thesis
      proof (cases "body_type (new_body r) = OperationStartedType \<and> current \<noteq> []")
        case True
        with lane unused current show ?thesis by (simp add: jl_appendRecord_def mem_appendRecord_def jl_check_def agrees_def)
      qed (auto simp: jl_appendRecord_def mem_appendRecord_def jl_check_def Let_def)
    qed (use lane unused in \<open>simp add: jl_appendRecord_def mem_appendRecord_def jl_check_def agrees_def\<close>)
  qed (use lane in \<open>simp add: jl_appendRecord_def mem_appendRecord_def jl_check_def agrees_def\<close>)
qed (simp add: jl_appendRecord_def mem_appendRecord_def jl_check_def agrees_def)

text \<open>C33: On a file system that works, the storage on a file does what the storage in memory does: each of its operations
  fails with the same error, leaving state and file alone, or gives the same result and the same state.\<close>

theorem jsonl_refines_memory:
  assumes "faultless (jl_fs st)" "wf_state (jl_state st)"
  shows "agrees st (jl_createLane nf lane target st) (no_value (mem_createLane (in_memory st) lane target)) \<and>
    agrees st (jl_moveLane nf lane target st) (no_value (mem_moveLane (in_memory st) lane target)) \<and>
    agrees st (jl_appendEntry nf now p lane st) (mem_appendEntry now (in_memory st) p lane) \<and>
    agrees st (jl_appendRecord nf now r st) (mem_appendRecord now (in_memory st) r) \<and>
    agrees st (jl_setName nf name st) (no_value (mem_setName (in_memory st) name)) \<and>
    agrees st (jl_setLabel nf i label st) (no_value (mem_setLabel (in_memory st) i label))"
  using createLane_agrees [OF assms(1)] moveLane_agrees [OF assms(1)] appendEntry_agrees [OF assms] appendRecord_agrees [OF assms(1)]
    setName_agrees [OF assms(1)] setLabel_agrees [OF assms(1)] by blast

section \<open>The contract of a storage\<close>

definition completed :: "unit session_result \<times> jsonl_storage \<Rightarrow> jsonl_storage session_result" where
  "completed res = (case res of (Inl e, _) \<Rightarrow> Inl e | (Inr _, st) \<Rightarrow> Inr st)"

definition completed_with :: "'a session_result \<times> jsonl_storage \<Rightarrow> (jsonl_storage \<times> 'a) session_result" where
  "completed_with res = (case res of (Inl e, _) \<Rightarrow> Inl e | (Inr a, st) \<Rightarrow> Inr (st, a))"

lemma completed_Inr [simp]: "completed res = Inr st \<longleftrightarrow> res = (Inr (), st)"
  by (cases res; cases "fst res") (auto simp: completed_def)

lemma completed_with_Inr [simp]: "completed_with res = Inr (st, a) \<longleftrightarrow> res = (Inr a, st)"
  by (cases res; cases "fst res") (auto simp: completed_with_def)

definition jsonl_ops :: "number_format \<Rightarrow> jsonl_storage storage_ops" where
  "jsonl_ops nf = \<lparr>
     so_getMetadata = (\<lambda>st. ms_metadata (in_memory st)),
     so_getLanes = (\<lambda>st. getLanes (jl_state st)),
     so_createLane = (\<lambda>st lane target. completed (jl_createLane nf lane target st)),
     so_moveLane = (\<lambda>st lane to. completed (jl_moveLane nf lane to st)),
     so_appendEntry = (\<lambda>now st p lane. completed_with (jl_appendEntry nf now p lane st)),
     so_appendRecord = (\<lambda>now st r. completed_with (jl_appendRecord nf now r st)),
     so_getEntry = (\<lambda>st. getEntry (jl_state st)),
     so_findEntries = (\<lambda>st. findEntries (jl_state st)),
     so_findEntriesOnBranch = (\<lambda>st. findEntriesOnBranch (jl_state st)),
     so_findRecords = (\<lambda>st. findRecords (jl_state st)),
     so_findOpenOperations = (\<lambda>st. findOpenOperations (jl_state st)),
     so_getLog = (\<lambda>st. getLog (jl_state st)),
     so_getName = (\<lambda>st. getName (jl_state st)),
     so_setName = (\<lambda>st name. completed (jl_setName nf name st)),
     so_getLabel = (\<lambda>st. getLabel (jl_state st)),
     so_setLabel = (\<lambda>st i label. completed (jl_setLabel nf i label st)),
     so_getStats = (\<lambda>st. getStats (jl_state st))\<rparr>"

interpretation jl: session_storage "jsonl_ops nf" jl_state for nf
proof (unfold_locales, goal_cases)
  case (1 now st p lane st' e)
  then show ?case by (auto simp: jsonl_ops_def jl_ops fbind_Inr Let_def dest: commit_success(1))
next
  case (2 now st r st' x)
  then show ?case
    by (auto simp: jsonl_ops_def jl_ops fbind_Inr Let_def intro: open_limit_one dest: commit_success(1) split: if_splits)
next
  case (3 st lane target st')
  then show ?case by (auto simp: jsonl_ops_def jl_ops fbind_Inr validateNewLane_def dest: commit_success(1))
next
  case (4 st lane to st')
  then show ?case
    by (auto simp: jsonl_ops_def jl_ops fbind_Inr requireLane_def dest: commit_success(1) split: option.splits)
next
  case (5 st name st')
  then show ?case by (auto simp: jsonl_ops_def jl_ops dest: commit_success(1))
next
  case (6 st i label st')
  then show ?case by (auto simp: jsonl_ops_def jl_ops fbind_Inr dest: commit_success(1))
qed (simp_all add: jsonl_ops_def getLanes_def getName_def getLabel_def getStats_def)

lemma jsonl_storage_invariant:
  "storage_reachable (jsonl_ops nf) st0 st \<Longrightarrow> jl_state st0 = initial_state \<Longrightarrow> wf_state (jl_state st) \<and> single_open (jl_state st)"
  using jl.reachable_invariant [of nf st0 st] wf_initial single_open_no_records [of initial_state]
  by (simp add: initial_parts)

section \<open>Files change as a whole\<close>

lemma take_fault_files [simp]: "take_fault fs = (f, fs') \<Longrightarrow> fs_files fs' = fs_files fs"
  by (auto simp: take_fault_def split: list.splits)

lemma rename_files:
  "renameFile a b fs = (r, fs') \<Longrightarrow>
   (case r of Inl _ \<Rightarrow> fs_files fs' = fs_files fs
    | Inr _ \<Rightarrow> (\<exists>t. fs_files fs a = Some t \<and> fs_files fs' = (fs_files fs)(a := None, b \<mapsto> t)))"
  by (auto simp: renameFile_def split: prod.splits option.splits)

lemma remove_files: "removeFile a fs = (r, fs') \<Longrightarrow> fs_files fs' = fs_files fs \<or> fs_files fs' = (fs_files fs)(a := None)"
  by (auto simp: removeFile_def split: prod.splits option.splits)

text \<open>Publishing replaces a file by a complete one, or leaves it as it was.\<close>

lemma publish_atomic:
  assumes pop: "\<And>r fs1. populate (path @ ''.tmp'') fs = (r, fs1) \<Longrightarrow>
      (\<forall>p. p \<noteq> path @ ''.tmp'' \<longrightarrow> fs_files fs1 p = fs_files fs p) \<and>
      (\<forall>u. r = Inr u \<longrightarrow> fs_files fs1 (path @ ''.tmp'') = Some content)"
    and pub: "publishFileAtomically path populate wrap fs = (r, fs')"
  shows "(\<forall>p. p \<noteq> path \<longrightarrow> p \<noteq> path @ ''.tmp'' \<longrightarrow> fs_files fs' p = fs_files fs p) \<and>
    fs_files fs' path = (case r of Inl _ \<Rightarrow> fs_files fs path | Inr _ \<Rightarrow> Some content)"
proof -
  let ?tmp = "path @ ''.tmp''"
  obtain r1 fs1 where p1: "populate ?tmp fs = (r1, fs1)" by (rule prod.exhaust)
  obtain r2 fs2 where p2: "renameFile ?tmp path fs1 = (r2, fs2)" by (rule prod.exhaust)
  note kept = pop [OF p1]
  have removed: "fs_files (snd (removeFile ?tmp f)) p = fs_files f p" if "p \<noteq> ?tmp" for f p
    using remove_files [of ?tmp f] that by (cases "removeFile ?tmp f") (metis fun_upd_other snd_conv)
  show ?thesis
  proof (cases r1)
    case (Inl e)
    then show ?thesis using pub p1 kept removed by (auto simp: publishFileAtomically_def Let_def)
  next
    case (Inr u)
    show ?thesis
    proof (cases r2)
      case (Inl e)
      with \<open>r1 = Inr u\<close> show ?thesis
        using pub p1 p2 kept removed rename_files [OF p2] by (auto simp: publishFileAtomically_def Let_def)
    next
      case (Inr v)
      with \<open>r1 = Inr u\<close> show ?thesis
        using pub p1 p2 kept rename_files [OF p2] by (auto simp: publishFileAtomically_def Let_def)
    qed
  qed
qed

section \<open>Forks\<close>

lemma append_files:
  "appendFile path c fs = (r, fs') \<Longrightarrow>
   (\<forall>p. p \<noteq> path \<longrightarrow> fs_files fs' p = fs_files fs p) \<and> (\<forall>u. r = Inr u \<longrightarrow> fs_files fs' path = Some (file_text fs path @ c))"
  by (auto simp: appendFile_def file_text_def put_file_def split: prod.splits option.splits fault.splits)

lemma write_files:
  "writeFile path c fs = (r, fs') \<Longrightarrow>
   (\<forall>p. p \<noteq> path \<longrightarrow> fs_files fs' p = fs_files fs p) \<and> (\<forall>u. r = Inr u \<longrightarrow> fs_files fs' path = Some c)"
  by (auto simp: writeFile_def put_file_def split: prod.splits option.splits fault.splits)

lemma info_files: "fileInfo path fs = (r, fs') \<Longrightarrow> fs_files fs' = fs_files fs"
  by (auto simp: fileInfo_def split: prod.splits option.splits if_splits)

lemma read_files: "readTextFile path fs = (r, fs') \<Longrightarrow> fs_files fs' = fs_files fs \<and> (\<forall>t. r = Inr t \<longrightarrow> fs_files fs path = Some t)"
  by (auto simp: readTextFile_def split: prod.splits option.splits)

lemma append_all_files:
  "append_all nf ms st = (r, st') \<Longrightarrow> fs_files (jl_fs st) (jm_path (jl_metadata st)) = Some c \<Longrightarrow>
   (\<forall>p. p \<noteq> jm_path (jl_metadata st) \<longrightarrow> fs_files (jl_fs st') p = fs_files (jl_fs st) p) \<and>
   (\<forall>u. r = Inr u \<longrightarrow> fs_files (jl_fs st') (jm_path (jl_metadata st)) = Some (c @ concat (map (encodeMutation nf) ms)))"
proof (induction ms arbitrary: st c)
  case (Cons m ms)
  obtain r1 fs1 where a: "appendFile (jm_path (jl_metadata st)) (encodeMutation nf m) (jl_fs st) = (r1, fs1)" by (rule prod.exhaust)
  note files = append_files [OF a]
  show ?case
  proof (cases r1)
    case (Inl e)
    with Cons.prems(1) a files show ?thesis by (auto simp: appendMutation_def)
  next
    case (Inr u)
    then have c: "fs_files fs1 (jm_path (jl_metadata st)) = Some (c @ encodeMutation nf m)"
      using files Cons.prems(2) by (simp add: file_text_def)
    show ?thesis
    proof (cases "applyMutation (jl_state st) m")
      case (Inl e)
      with Cons.prems(1) a Inr files show ?thesis by (auto simp: appendMutation_def applyToState_def)
    next
      case (Inr s1)
      with Cons.prems(1) a \<open>r1 = Inr u\<close> have "append_all nf ms (st\<lparr>jl_fs := fs1, jl_state := s1\<rparr>) = (r, st')"
        by (simp add: appendMutation_def applyToState_def)
      from Cons.IH [OF this] c files show ?thesis by auto
    qed
  qed
qed auto

lemma append_all_faultless:
  "faultless (jl_fs st) \<Longrightarrow> rfold applyMutation (jl_state st) ms = Inr s \<Longrightarrow>
   \<exists>st'. append_all nf ms st = (Inr (), st') \<and> faultless (jl_fs st') \<and> jl_state st' = s"
  by (induction ms arbitrary: st) (auto simp: appendMutation_def applyToState_def appendFile_def)

definition fork_file :: "number_format \<Rightarrow> jsonl_header \<Rightarrow> session_mutation list \<Rightarrow> string \<Rightarrow> file_system \<Rightarrow> (load_error + unit) \<times> file_system" where
  "fork_file nf header mutations tempPath fs = lift_load
     (fbind (jsonl_create nf tempPath header fs) (\<lambda>st fs1. (case append_all nf mutations st of (r, st') \<Rightarrow> (r, jl_fs st'))))"

lemma fork_file_files:
  assumes "fork_file nf h ms tmp fs = (r, fs1)"
  shows "(\<forall>p. p \<noteq> tmp \<longrightarrow> fs_files fs1 p = fs_files fs p) \<and> (\<forall>u. r = Inr u \<longrightarrow> fs_files fs1 tmp = Some (file_content nf h ms))"
proof -
  obtain r1 f1 where w: "writeFile tmp (encodeHeader nf h) fs = (r1, f1)" by (rule prod.exhaust)
  obtain r2 f2 where i: "fileInfo tmp f1 = (r2, f2)" by (rule prod.exhaust)
  note files = write_files [OF w] info_files [OF i]
  show ?thesis
  proof (cases r1)
    case (Inl e)
    with assms w files show ?thesis by (auto simp: fork_file_def jsonl_create_def lift_load_def)
  next
    case r1: (Inr u)
    show ?thesis
    proof (cases r2)
      case (Inl e)
      with assms w i r1 files show ?thesis by (auto simp: fork_file_def jsonl_create_def lift_load_def)
    next
      case (Inr t)
      let ?st = "new_jsonl_storage f2 (metadataFromHeader h tmp t)"
      obtain r3 st3 where a: "append_all nf ms ?st = (r3, st3)" by (rule prod.exhaust)
      have "jl_fs ?st = f2" "jm_path (jl_metadata ?st) = tmp" by (simp_all add: new_jsonl_storage_def metadataFromHeader_def)
      with append_all_files [OF a, of "encodeHeader nf h"] files r1
      have "(\<forall>p. p \<noteq> tmp \<longrightarrow> fs_files (jl_fs st3) p = fs_files fs p) \<and>
          (\<forall>u. r3 = Inr u \<longrightarrow> fs_files (jl_fs st3) tmp = Some (file_content nf h ms))"
        by (auto simp: file_content_def)
      with assms w i r1 Inr a show ?thesis by (cases r3) (auto simp: fork_file_def jsonl_create_def lift_load_def)
    qed
  qed
qed

lemma load_keeps_complete:
  assumes "file_holds nf h ms s content" "fs_files fs path = Some content" "jsonl_load nf path fs = (r, fs')"
  shows "fs_files fs' = fs_files fs \<and> (\<forall>st. r = Inr st \<longrightarrow> jl_state st = s)"
proof -
  obtain r1 f1 where rd: "readTextFile path fs = (r1, f1)" by (rule prod.exhaust)
  obtain r2 f2 where i: "fileInfo path f1 = (r2, f2)" by (rule prod.exhaust)
  note files = read_files [OF rd] info_files [OF i]
  from assms(1) have holds: "storable_header nf h" "list_all (storable nf) ms" "replay ms = Inr s" "content = file_content nf h ms"
    by (auto simp: file_holds_def)
  note lines = content_physical_lines [OF holds(1,2), of "[]", simplified]
  have replayed: "replay_lines nf [header_line nf h] initial_state (map (mutation_line nf) ms) = Replayed s"
    using replay_encoded [of nf ms initial_state s "[header_line nf h]" "[]"] holds by (simp add: replay_def)
  show ?thesis
  proof (cases r1)
    case (Inl e)
    with assms(3) rd files show ?thesis by (auto simp: jsonl_load_def lift_load_def)
  next
    case r1: (Inr t)
    with files assms(2) holds have t: "t = file_content nf h ms" by simp
    show ?thesis
    proof (cases r2)
      case (Inl e)
      with assms(3) rd i r1 t files lines line_nonempty(2) [of nf h] header_read_back [OF holds(1)] show ?thesis
        by (auto simp: jsonl_load_def lift_load_def Let_def)
    next
      case (Inr time)
      with assms(3) rd i r1 t files lines line_nonempty(2) [of nf h] header_read_back [OF holds(1)] replayed content_ends [of nf h ms]
      show ?thesis by (auto simp: jsonl_load_def lift_load_def Let_def)
    qed
  qed
qed

lemma fork_unfold:
  "createForkMutations s options = Inr ms \<Longrightarrow>
   jsonl_fork nf path h options s fs =
     fbind (publishFileAtomically path (fork_file nf h ms) LoadError fs) (\<lambda>_ fs1. jsonl_load nf path fs1)"
  by (simp add: jsonl_fork_def fork_file_def [abs_def])

lemma fork_file_faultless:
  assumes "faultless fs" "replay ms = Inr s"
  shows "\<exists>fs1. fork_file nf h ms tmp fs = (Inr (), fs1) \<and> faultless fs1"
proof -
  let ?st = "new_jsonl_storage (put_file tmp (encodeHeader nf h) fs) (metadataFromHeader h tmp (fs_mtime fs tmp))"
  have "rfold applyMutation (jl_state ?st) ms = Inr s" using assms(2) by (simp add: replay_def new_jsonl_storage_def)
  from append_all_faultless [OF _ this, of nf] obtain st' where "append_all nf ms ?st = (Inr (), st')" "faultless (jl_fs st')"
    using assms(1) by (auto simp: new_jsonl_storage_def)
  then show ?thesis
    using assms(1) by (simp add: fork_file_def jsonl_create_def writeFile_def fileInfo_def lift_load_def)
qed

lemma publish_faultless:
  assumes "populate (path @ ''.tmp'') fs = (Inr (), fs1)" "faultless fs1" "fs_files fs1 (path @ ''.tmp'') = Some content"
  shows "\<exists>fs2. publishFileAtomically path populate wrap fs = (Inr (), fs2) \<and> faultless fs2"
proof -
  have "faultless (fs1\<lparr>fs_files := f\<rparr>)" for f using assms(2) by (simp add: faultless_def)
  with assms show ?thesis by (simp add: publishFileAtomically_def renameFile_def Let_def)
qed

lemma fork_published:
  assumes "faultless fs" "replay ms = Inr s"
  shows "\<exists>fs2. publishFileAtomically path (fork_file nf h ms) LoadError fs = (Inr (), fs2) \<and> faultless fs2"
proof -
  obtain fs1 where fs1: "fork_file nf h ms (path @ ''.tmp'') fs = (Inr (), fs1)" "faultless fs1"
    using fork_file_faultless [OF assms] by blast
  with fork_file_files [OF fs1(1)] show ?thesis by (intro publish_faultless) auto
qed

text \<open>C35: A fork appears as a whole or not at all.  Whatever fails while a session is forked to a file, the destination keeps what it had
  or holds the complete fork, every other file but the temporary one is untouched, and a fork that is returned has the
  state of the copied mutations; on a working file system it is returned.\<close>

theorem fork_all_or_nothing:
  assumes "wf_state s" "createForkMutations s options = Inr ms" "storable_header nf h" "list_all (storable nf) ms"
    and "jsonl_fork nf path h options s fs = (r, fs')"
  shows "(\<forall>p. p \<noteq> path \<longrightarrow> p \<noteq> path @ ''.tmp'' \<longrightarrow> fs_files fs' p = fs_files fs p) \<and>
    fs_files fs' path \<in> {fs_files fs path, Some (file_content nf h ms)} \<and>
    (\<forall>st. r = Inr st \<longrightarrow> replay ms = Inr (jl_state st) \<and> fs_files fs' path = Some (file_content nf h ms)) \<and>
    (faultless fs \<longrightarrow> (\<exists>st. r = Inr st))"
proof -
  obtain copied lanes where "fork_selection s options = Inr (copied, lanes)"
    using assms(2) by (auto simp: createForkMutations_def)
  from fork_replay [OF assms(1) this assms(2)] obtain s' where s': "replay ms = Inr s'" unfolding replay_def by blast
  then have holds: "file_holds nf h ms s' (file_content nf h ms)" using assms(3,4) by (simp add: file_holds_def)
  obtain r1 fs1 where pub: "publishFileAtomically path (fork_file nf h ms) LoadError fs = (r1, fs1)" by (rule prod.exhaust)
  note files = publish_atomic [OF fork_file_files pub]
  have fork: "fbind (r1, fs1) (\<lambda>_ fs1. jsonl_load nf path fs1) = (r, fs')"
    using assms(5) by (simp add: fork_unfold [OF assms(2)] pub)
  have ok: "r1 = Inr () \<and> faultless fs1" if "faultless fs"
    using fork_published [OF that s', of path nf h] pub by auto
  show ?thesis
  proof (cases r1)
    case (Inl e)
    with fork files ok show ?thesis by auto
  next
    case (Inr u)
    then have path: "fs_files fs1 path = Some (file_content nf h ms)" using files by simp
    from fork Inr have load: "jsonl_load nf path fs1 = (r, fs')" by simp
    from load_keeps_complete [OF holds path load] load_complete [OF _ holds path] load files path s' ok show ?thesis by auto
  qed
qed

section \<open>A session on a file\<close>

definition empty_fs :: "fault option list \<Rightarrow> file_system" where
  "empty_fs faults = \<lparr>fs_files = Map.empty, fs_mtime = (\<lambda>_. 7), fs_faults = faults\<rparr>"

definition sample_file :: "fault option list \<Rightarrow> jsonl_storage" where
  "sample_file faults =
     new_jsonl_storage (put_file ''f'' (encodeHeader sample_format sample_header) (empty_fs faults)) (metadataFromHeader sample_header ''f'' 7)"

lemma sample_created: "jsonl_create sample_format ''f'' sample_header (empty_fs []) = (Inr (sample_file []), jl_fs (sample_file []))"
  by (simp add: jsonl_create_def writeFile_def fileInfo_def take_fault_def empty_fs_def put_file_def sample_file_def new_jsonl_storage_def)

lemma sample_durable: "durable sample_format sample_header [] (sample_file [])"
  using create_durable [OF sample_created sample_header_storable] by simp

lemma sample_renames: "applyMutation (jl_state (sample_file f)) (sample_name n) = Inr (initial_state\<lparr>ss_sequence := 1, ss_name := Some n,
    ss_log := [NameItem 1 (Some n)]\<rparr>)"
  by (simp add: applyMutation_def applyName_def sample_name_def sample_file_def new_jsonl_storage_def initial_state_def)


theorem crash_recovery_witness:
  "\<exists>st'. jsonl_load sample_format ''f'' (crashed sample_format (sample_file []) (sample_name ''n'') 9) = (Inr st', jl_fs st') \<and>
     ss_name (jl_state st') = None"
proof -
  have "9 < length (mutation_line sample_format (sample_name ''n''))"
    by (simp add: mutation_line_def sample_name_def JSON_stringify_def json_string_def quote_def opt_field_def js_join_Cons json_escape_def Let_def)
  moreover have "ss_name (jl_state (sample_file [])) = None" "jm_path (jl_metadata (sample_file [])) = ''f''"
    by (simp_all add: sample_file_def new_jsonl_storage_def initial_state_def metadataFromHeader_def)
  ultimately show ?thesis
    using crash_recovery [OF sample_durable sample_name_storable [of "''n''"] sample_renames [of "[]" "''n''"], of 9] by auto
qed

lemma sample_file_ok: "faultless (jl_fs (sample_file []))"
  by (simp add: sample_file_def new_jsonl_storage_def faultless_def put_file_def empty_fs_def)

theorem jsonl_refines_memory_witness:
  "agrees (sample_file []) (jl_setName sample_format (Some ''n'') (sample_file []))
     (no_value (mem_setName (in_memory (sample_file [])) (Some ''n'')))"
  using jsonl_refines_memory [OF sample_file_ok] wf_initial by (simp add: sample_file_def new_jsonl_storage_def)

theorem fork_all_or_nothing_witness:
  "\<exists>st fs'. jsonl_fork sample_format ''g'' sample_header ForkTree initial_state (jl_fs (sample_file [])) = (Inr st, fs') \<and>
     fs_files fs' ''f'' = Some (encodeHeader sample_format sample_header)"
proof -
  have ms: "createForkMutations initial_state ForkTree = Inr [LaneMutation 1 ''main'' None]"
    by (simp add: createForkMutations_def fork_selection_def findEntries_def all_entries_query_def ordered_def getLanes_def
        initial_state_def Let_def)
  have st: "list_all (storable sample_format) [LaneMutation 1 ''main'' None]"
    by (simp add: storable_def print_null_def print_nat_def max_safe_integer_def small_integer)
  obtain r fs' where fork: "jsonl_fork sample_format ''g'' sample_header ForkTree initial_state (jl_fs (sample_file [])) = (r, fs')"
    by (rule prod.exhaust)
  have "fs_files (jl_fs (sample_file [])) ''f'' = Some (encodeHeader sample_format sample_header)"
    by (simp add: sample_file_def new_jsonl_storage_def put_file_def)
  with fork_all_or_nothing [OF wf_initial ms sample_header_storable st fork] sample_file_ok fork show ?thesis by auto
qed

text \<open>The renaming that an append of nine characters left behind, and the one that was acknowledged after it.\<close>

definition after_failure :: jsonl_storage where
  "after_failure = snd (jl_setName sample_format (Some ''a'') (sample_file [Some (FailsAfter 9)]))"

definition after_retry :: jsonl_storage where
  "after_retry = snd (jl_setName sample_format (Some ''b'') after_failure)"

lemma mixed_line: "parseMutation sample_format (take 9 (mutation_line sample_format (sample_name ''a'')) @
    mutation_line sample_format (sample_name ''b'')) = Inl SyntaxError"
  by code_simp

lemma sample_file_simps:
  "jl_state (sample_file f) = initial_state" "jm_path (jl_metadata (sample_file f)) = ''f''"
  "file_text (jl_fs (sample_file f)) ''f'' = encodeHeader sample_format sample_header"
  by (simp_all add: sample_file_def new_jsonl_storage_def metadataFromHeader_def file_text_def)

lemma sample_setName: "jl_setName sample_format (Some n) st = commit sample_format (sample_name n) st" if "jl_state st = initial_state"
  using that by (simp add: jl_setName_def sample_name_def nextSequence_def initial_parts)

lemma first_fails:
  "jl_setName sample_format (Some ''a'') (sample_file [Some (FailsAfter 9)]) = (Inl StorageError, (sample_file [])\<lparr>jl_fs :=
     put_file ''f'' (encodeHeader sample_format sample_header @ take 9 (encodeMutation sample_format (sample_name ''a''))) (jl_fs (sample_file []))\<rparr>)"
  by (simp add: sample_setName sample_file_simps commit_def appendMutation_def appendFile_def take_fault_def)
    (simp add: sample_file_def new_jsonl_storage_def put_file_def empty_fs_def file_text_def)

text \<open>A write that failed halfway can take a later one with it.  An append fails after part of its line has reached
  the file (a full disk); the storage reports the error and stays usable.  The next operation succeeds, but its line starts behind
  the rest of the failed one: after a restart the mixed line counts as a torn tail and is dropped, and the name that was
  acknowledged is gone.\<close>

theorem partial_append_loses_later_write:
  "fst (jl_setName sample_format (Some ''a'') (sample_file [Some (FailsAfter 9)])) = Inl StorageError \<and>
   fst (jl_setName sample_format (Some ''b'') after_failure) = Inr () \<and>
   ss_name (jl_state after_retry) = Some ''b'' \<and>
   map_sum id (\<lambda>st. ss_name (jl_state st)) (fst (jsonl_load sample_format ''f'' (restarted (jl_fs after_retry)))) = Inr None"
proof -
  let ?mixed = "take 9 (mutation_line sample_format (sample_name ''a'')) @ mutation_line sample_format (sample_name ''b'')"
  let ?content = "file_content sample_format sample_header [] @ ?mixed @ [CHR 0x0A]"
  have failed: "jl_state after_failure = initial_state" "faultless (jl_fs after_failure)" "jm_path (jl_metadata after_failure) = ''f''"
    by (simp_all add: after_failure_def first_fails sample_file_simps)
      (simp add: sample_file_def new_jsonl_storage_def put_file_def empty_fs_def faultless_def)
  have nine: "9 \<le> length (mutation_line sample_format (sample_name ''a''))"
    by code_simp
  have left: "file_text (jl_fs after_failure) ''f'' @ encodeMutation sample_format (sample_name ''b'') = ?content"
    using nine by (simp add: after_failure_def first_fails file_text_def file_content_def encodeMutation_def)
  obtain s' where s': "applyMutation (jl_state after_failure) (sample_name ''b'') = Inr s'" "ss_name s' = Some ''b''"
    using sample_renames [of "[]" "''b''"] by (simp add: failed sample_file_simps)
  from commit_faultless [OF failed(2) s'(1), of sample_format] obtain st2 where
      st2: "commit sample_format (sample_name ''b'') after_failure = (Inr (), st2)"
    by blast
  note committed = commit_success [OF st2]
  have retry: "jl_setName sample_format (Some ''b'') after_failure = (Inr (), st2)" "after_retry = st2"
    using st2 by (simp_all add: after_retry_def sample_setName failed)
  have nl: "CHR 0x0A \<notin> set ?mixed"
    using line_no_newline [OF sample_name_storable] by (auto dest: in_set_takeD)
  have "physical_lines ?content = [header_line sample_format sample_header, ?mixed]"
  proof -
    have "js_split (CHR 0x0A) (file_content sample_format sample_header [] @ ?mixed) = [header_line sample_format sample_header, ?mixed]"
      using split_lines [of "[header_line sample_format sample_header]" ?mixed] nl header_no_newline [OF sample_header_storable]
      by (simp add: content_lines)
    with js_split_snoc [of "CHR 0x0A" "file_content sample_format sample_header [] @ ?mixed"] show ?thesis
      by (simp add: physical_lines_def Let_def)
  qed
  moreover have "file_holds sample_format sample_header [] initial_state (file_content sample_format sample_header [])"
    by (simp add: file_holds_def sample_header_storable replay_def)
  moreover have "fs_files (restarted (jl_fs st2)) ''f'' = Some ?content" using committed(3) left by (simp add: failed)
  ultimately obtain fs' where
      "jsonl_load sample_format ''f'' (restarted (jl_fs st2)) = (Inr (opened_storage sample_header ''f'' fs' initial_state), fs')"
    using load_bad_tail [of "restarted (jl_fs st2)" sample_format sample_header "[]" initial_state "''f''" ?content ?mixed] mixed_line
    by auto
  with retry committed(1) s' show ?thesis
    by (simp add: first_fails opened_storage_def initial_state_def)
qed

end
