(* ===== verification/Edit_Diff.thy ===== *)
theory Edit_Diff
  imports Truncate "HOL-Library.Sublist" "HOL-Library.Multiset"
begin

text \<open>
  Text handling of the edit tool (\<^verbatim>\<open>packages/agent/src/harness/tools/edit-diff.ts\<close>): line endings,
  the fuzzy view of a text, and its lines.  Texts are UTF-16 code unit lists.  The Unicode
  normal form NFKC rests on tables that are not part of the repository; it is the argument
  \<open>nfkc\<close> of every definition that uses it.
\<close>

section \<open>Operations of JavaScript strings\<close>

definition CR :: code_unit where
  "CR = 0x0D"

definition LF :: code_unit where
  "LF = 0x0A"

text \<open>\<^verbatim>\<open>String.indexOf\<close>; \<open>None\<close> is the result \<^verbatim>\<open>-1\<close>.\<close>

fun indexOf :: "'a list \<Rightarrow> 'a list \<Rightarrow> nat option" where
  "indexOf [] t = (if t = [] then Some 0 else None)"
| "indexOf (c # s) t = (if prefix t (c # s) then Some 0 else map_option Suc (indexOf s t))"

text \<open>\<^verbatim>\<open>String.split\<close> at a string; an empty separator splits into code units.\<close>

function split_string :: "'a list \<Rightarrow> 'a list \<Rightarrow> 'a list list" where
  "split_string s t =
     (if t = [] then map (\<lambda>c. [c]) s
      else (case indexOf s t of
              None \<Rightarrow> [s]
            | Some i \<Rightarrow> take i s # split_string (drop (i + length t) s) t))"
  by pat_completeness auto

text \<open>\<^verbatim>\<open>substring(0, i)\<close> and \<^verbatim>\<open>substring(i)\<close>, which clamp their argument to the string.\<close>

definition substring_to :: "'a list \<Rightarrow> int \<Rightarrow> 'a list" where
  "substring_to s i = take (nat i) s"

definition substring_from :: "'a list \<Rightarrow> int \<Rightarrow> 'a list" where
  "substring_from s i = drop (nat i) s"

text \<open>\<^verbatim>\<open>Array.slice(i, j)\<close> and \<^verbatim>\<open>String.slice(i, j)\<close> of indices that are not negative.\<close>

definition slice_list :: "'a list \<Rightarrow> nat \<Rightarrow> nat \<Rightarrow> 'a list" where
  "slice_list xs i j = take (j - i) (drop i xs)"

text \<open>White space and line terminators of ECMAScript, which \<^verbatim>\<open>trimEnd\<close> removes.\<close>

definition is_js_space :: "code_unit \<Rightarrow> bool" where
  "is_js_space c =
     (c \<in> {0x09, 0x0A, 0x0B, 0x0C, 0x0D, 0x20, 0xA0, 0x1680, 0x2028, 0x2029, 0x202F, 0x205F, 0x3000, 0xFEFF}
      \<or> (0x2000 \<le> c \<and> c \<le> 0x200A))"

definition trimEnd :: "js_string \<Rightarrow> js_string" where
  "trimEnd s = rev (dropWhile is_js_space (rev s))"

text \<open>Most characters are decided by one comparison when the model is evaluated.\<close>

lemma is_js_space_code [code]:
  "is_js_space c = (if 0x20 < c \<and> c < 0x80 then False else
     c \<in> {0x09, 0x0A, 0x0B, 0x0C, 0x0D, 0x20, 0xA0, 0x1680, 0x2028, 0x2029, 0x202F, 0x205F, 0x3000, 0xFEFF}
      \<or> (0x2000 \<le> c \<and> c \<le> 0x200A))"
proof (cases "0x20 < c \<and> c < 0x80")
  case True
  then have "32 < unat c" "unat c < 128" by (simp_all add: word_less_nat_alt)
  then have "\<not> is_js_space c" by (auto simp: is_js_space_def word_le_nat_alt)
  with True show ?thesis by simp
next
  case False
  show ?thesis unfolding is_js_space_def if_not_P[OF False] by (rule refl)
qed

section \<open>Line endings\<close>

datatype line_ending = CRLF_Ending | LF_Ending

definition detectLineEnding :: "js_string \<Rightarrow> line_ending" where
  "detectLineEnding content =
     (let crlfIdx = indexOf content [CR, LF]; lfIdx = indexOf content [LF]
      in case lfIdx of
           None \<Rightarrow> LF_Ending
         | Some l \<Rightarrow> (case crlfIdx of
             None \<Rightarrow> LF_Ending
           | Some c \<Rightarrow> if c < l then CRLF_Ending else LF_Ending))"

fun replace_crlf :: "js_string \<Rightarrow> js_string" where
  "replace_crlf (c # d # s) = (if c = CR \<and> d = LF then LF # replace_crlf s else c # replace_crlf (d # s))"
| "replace_crlf s = s"

definition normalizeToLF :: "js_string \<Rightarrow> js_string" where
  "normalizeToLF s = map (\<lambda>c. if c = CR then LF else c) (replace_crlf s)"

definition restoreLineEndings :: "js_string \<Rightarrow> line_ending \<Rightarrow> js_string" where
  "restoreLineEndings s ending =
     (if ending = CRLF_Ending then concat (map (\<lambda>c. if c = LF then [CR, LF] else [c]) s) else s)"

definition BOM :: code_unit where
  "BOM = 0xFEFF"

definition stripBom :: "js_string \<Rightarrow> js_string \<times> js_string" where
  "stripBom content = (if prefix [BOM] content then ([BOM], drop 1 content) else ([], content))"

section \<open>The fuzzy view\<close>

definition ascii_quotes :: "code_unit \<Rightarrow> code_unit" where
  "ascii_quotes c =
     (if c \<in> {0x2018, 0x2019, 0x201A, 0x201B} then 0x27
      else if c \<in> {0x201C, 0x201D, 0x201E, 0x201F} then 0x22 else c)"

definition ascii_dash :: "code_unit \<Rightarrow> code_unit" where
  "ascii_dash c = (if c \<in> {0x2010, 0x2011, 0x2012, 0x2013, 0x2014, 0x2015, 0x2212} then 0x2D else c)"

definition ascii_space :: "code_unit \<Rightarrow> code_unit" where
  "ascii_space c =
     (if c \<in> {0xA0, 0x202F, 0x205F, 0x3000} \<or> (0x2002 \<le> c \<and> c \<le> 0x200A) then 0x20 else c)"

definition normalizeForFuzzyMatch :: "(js_string \<Rightarrow> js_string) \<Rightarrow> js_string \<Rightarrow> js_string" where
  "normalizeForFuzzyMatch nfkc s =
     map ascii_space (map ascii_dash (map ascii_quotes
       (js_join [LF] (map trimEnd (js_split LF (nfkc s))))))"

section \<open>Lines and spans\<close>

text \<open>All matches of \<^verbatim>\<open>/[^\n]*\n|[^\n]+/g\<close>.\<close>

fun splitLinesWithEndings :: "js_string \<Rightarrow> js_string list" where
  "splitLinesWithEndings [] = []"
| "splitLinesWithEndings (c # s) =
     (if c = LF then [LF] # splitLinesWithEndings s
      else (case splitLinesWithEndings s of [] \<Rightarrow> [[c]] | l # ls \<Rightarrow> (c # l) # ls))"

record line_span =
  span_start :: int
  span_end :: int

record text_replacement =
  matchIndex :: int
  matchLength :: int
  newText :: js_string

record matched_edit = text_replacement +
  editIndex :: nat

fun spans_from :: "int \<Rightarrow> js_string list \<Rightarrow> line_span list" where
  "spans_from offset [] = []"
| "spans_from offset (l # ls) =
     \<lparr>span_start = offset, span_end = offset + int (length l)\<rparr> # spans_from (offset + int (length l)) ls"

definition getLineSpans :: "js_string \<Rightarrow> line_span list" where
  "getLineSpans content = spans_from 0 (splitLinesWithEndings content)"

section \<open>Errors\<close>

text \<open>
  The errors the module throws.  The paths and numbers are those their messages print.
\<close>

datatype edit_error =
    NotFoundError js_string nat nat
  | DuplicateError js_string nat nat int
  | EmptyOldTextError js_string nat nat
  | NoChangeError js_string nat
  | OverlapError js_string nat nat
  | RangeOutsideError
  | LineCountError

section \<open>Replacing spans\<close>

fun find_line :: "line_span list \<Rightarrow> int \<Rightarrow> nat \<Rightarrow> nat option" where
  "find_line [] p i = None"
| "find_line (l # ls) p i = (if span_start l \<le> p \<and> p < span_end l then Some i else find_line ls p (Suc i))"

fun extend_line :: "line_span list \<Rightarrow> int \<Rightarrow> nat \<Rightarrow> nat" where
  "extend_line [] p i = i"
| "extend_line (l # ls) p i = (if span_end l < p then extend_line ls p (Suc i) else i)"

definition getReplacementLineRange ::
  "line_span list \<Rightarrow> 'a text_replacement_scheme \<Rightarrow> edit_error + (nat \<times> nat)" where
  "getReplacementLineRange ls r =
     (let replacementStart = matchIndex r; replacementEnd = matchIndex r + matchLength r
      in case find_line ls replacementStart 0 of
           None \<Rightarrow> Inl RangeOutsideError
         | Some startLine \<Rightarrow>
             (let endLine = extend_line (drop startLine ls) replacementEnd startLine
              in if length ls \<le> endLine then Inl RangeOutsideError else Inr (startLine, endLine + 1)))"

definition replace_span :: "int \<Rightarrow> 'a text_replacement_scheme \<Rightarrow> js_string \<Rightarrow> js_string" where
  "replace_span offset r result =
     (let i = matchIndex r - offset
      in substring_to result i @ newText r @ substring_from result (i + matchLength r))"

definition applyReplacements :: "js_string \<Rightarrow> 'a text_replacement_scheme list \<Rightarrow> int \<Rightarrow> js_string" where
  "applyReplacements content rs offset = foldr (replace_span offset) rs content"

record 'a line_group =
  startLine :: nat
  endLine :: nat
  replacements :: "'a list"

definition add_to_groups ::
  "line_span list \<Rightarrow> 'a text_replacement_scheme line_group list \<Rightarrow> 'a text_replacement_scheme
     \<Rightarrow> edit_error + 'a text_replacement_scheme line_group list" where
  "add_to_groups baseLines groups r =
     rbind (getReplacementLineRange baseLines r)
       (\<lambda>(s, e).
          if groups \<noteq> [] \<and> s < endLine (last groups) then
            (let current = last groups
             in Inr (butlast groups @
                  [current\<lparr>endLine := max (endLine current) e, replacements := replacements current @ [r]\<rparr>]))
          else Inr (groups @ [\<lparr>startLine = s, endLine = e, replacements = [r]\<rparr>]))"

definition emit_group ::
  "js_string list \<Rightarrow> js_string \<Rightarrow> line_span list \<Rightarrow> nat \<times> js_string \<Rightarrow> 'a text_replacement_scheme line_group
     \<Rightarrow> nat \<times> js_string" where
  "emit_group originalLines baseContent baseLines acc g =
     (let (originalLineIndex, result) = acc;
          groupStartOffset = span_start (baseLines ! startLine g);
          groupEndOffset = span_end (baseLines ! (endLine g - 1))
      in (endLine g,
          result @ concat (slice_list originalLines originalLineIndex (startLine g))
            @ applyReplacements (slice_list baseContent (nat groupStartOffset) (nat groupEndOffset))
                (replacements g) groupStartOffset))"

definition applyReplacementsPreservingUnchangedLines ::
  "js_string \<Rightarrow> js_string \<Rightarrow> 'a text_replacement_scheme list \<Rightarrow> edit_error + js_string" where
  "applyReplacementsPreservingUnchangedLines originalContent baseContent rs =
     (let originalLines = splitLinesWithEndings originalContent; baseLines = getLineSpans baseContent
      in if length originalLines \<noteq> length baseLines then Inl LineCountError
         else
           rbind (rfold (add_to_groups baseLines) [] (sort_key matchIndex rs))
             (\<lambda>groups.
                let (originalLineIndex, result) =
                      foldl (emit_group originalLines baseContent baseLines) (0, []) groups
                in Inr (result @ concat (drop originalLineIndex originalLines))))"

section \<open>Finding the old text\<close>

record fuzzy_match =
  found :: bool
  fm_index :: int
  fm_matchLength :: nat
  usedFuzzyMatch :: bool
  contentForReplacement :: js_string

definition fuzzyFindText :: "(js_string \<Rightarrow> js_string) \<Rightarrow> js_string \<Rightarrow> js_string \<Rightarrow> fuzzy_match" where
  "fuzzyFindText nfkc content old =
     (case indexOf content old of
        Some i \<Rightarrow> \<lparr>found = True, fm_index = int i, fm_matchLength = length old, usedFuzzyMatch = False,
                    contentForReplacement = content\<rparr>
      | None \<Rightarrow>
          (let fuzzyContent = normalizeForFuzzyMatch nfkc content; fuzzyOldText = normalizeForFuzzyMatch nfkc old
           in case indexOf fuzzyContent fuzzyOldText of
                None \<Rightarrow> \<lparr>found = False, fm_index = - 1, fm_matchLength = 0, usedFuzzyMatch = False,
                           contentForReplacement = content\<rparr>
              | Some i \<Rightarrow> \<lparr>found = True, fm_index = int i, fm_matchLength = length fuzzyOldText,
                             usedFuzzyMatch = True, contentForReplacement = fuzzyContent\<rparr>))"

definition countOccurrences :: "(js_string \<Rightarrow> js_string) \<Rightarrow> js_string \<Rightarrow> js_string \<Rightarrow> int" where
  "countOccurrences nfkc content old =
     int (length (split_string (normalizeForFuzzyMatch nfkc content) (normalizeForFuzzyMatch nfkc old))) - 1"

section \<open>Applying edits\<close>

record edit =
  oldText :: js_string
  edit_newText :: js_string

definition normalize_edit :: "edit \<Rightarrow> edit" where
  "normalize_edit e = \<lparr>oldText = normalizeToLF (oldText e), edit_newText = normalizeToLF (edit_newText e)\<rparr>"

fun check_old_texts :: "js_string \<Rightarrow> nat \<Rightarrow> nat \<Rightarrow> edit list \<Rightarrow> edit_error + unit" where
  "check_old_texts path totalEdits i [] = Inr ()"
| "check_old_texts path totalEdits i (e # es) =
     (if oldText e = [] then Inl (EmptyOldTextError path i totalEdits) else check_old_texts path totalEdits (Suc i) es)"

definition match_edit ::
  "(js_string \<Rightarrow> js_string) \<Rightarrow> js_string \<Rightarrow> js_string \<Rightarrow> nat \<Rightarrow> nat \<Rightarrow> edit \<Rightarrow> edit_error + matched_edit" where
  "match_edit nfkc base path totalEdits i e =
     (let m = fuzzyFindText nfkc base (oldText e); occurrences = countOccurrences nfkc base (oldText e)
      in if \<not> found m then Inl (NotFoundError path i totalEdits)
         else if 1 < occurrences then Inl (DuplicateError path i totalEdits occurrences)
         else Inr \<lparr>matchIndex = fm_index m, matchLength = int (fm_matchLength m), newText = edit_newText e,
                   editIndex = i\<rparr>)"

fun match_edits ::
  "(js_string \<Rightarrow> js_string) \<Rightarrow> js_string \<Rightarrow> js_string \<Rightarrow> nat \<Rightarrow> nat \<Rightarrow> edit list \<Rightarrow> edit_error + matched_edit list" where
  "match_edits nfkc base path totalEdits i [] = Inr []"
| "match_edits nfkc base path totalEdits i (e # es) =
     rbind (match_edit nfkc base path totalEdits i e)
       (\<lambda>m. rbind (match_edits nfkc base path totalEdits (Suc i) es) (\<lambda>ms. Inr (m # ms)))"

fun check_disjoint :: "js_string \<Rightarrow> matched_edit list \<Rightarrow> edit_error + unit" where
  "check_disjoint path (previous # current # ms) =
     (if matchIndex current < matchIndex previous + matchLength previous then
        Inl (OverlapError path (editIndex previous) (editIndex current))
      else check_disjoint path (current # ms))"
| "check_disjoint path ms = Inr ()"

definition applyEditsToNormalizedContent ::
  "(js_string \<Rightarrow> js_string) \<Rightarrow> js_string \<Rightarrow> edit list \<Rightarrow> js_string \<Rightarrow> edit_error + (js_string \<times> js_string)" where
  "applyEditsToNormalizedContent nfkc normalizedContent edits path =
     (let normalizedEdits = map normalize_edit edits;
          totalEdits = length normalizedEdits
      in rbind (check_old_texts path totalEdits 0 normalizedEdits)
         (\<lambda>_. let fuzzy = list_ex (\<lambda>e. usedFuzzyMatch (fuzzyFindText nfkc normalizedContent (oldText e))) normalizedEdits;
                  base = (if fuzzy then normalizeForFuzzyMatch nfkc normalizedContent else normalizedContent)
              in rbind (match_edits nfkc base path totalEdits 0 normalizedEdits)
                 (\<lambda>ms. let matchedEdits = sort_key matchIndex ms
                       in rbind (check_disjoint path matchedEdits)
                          (\<lambda>_. rbind
                             (if fuzzy then applyReplacementsPreservingUnchangedLines normalizedContent base matchedEdits
                              else Inr (applyReplacements base matchedEdits 0))
                             (\<lambda>newContent.
                                if normalizedContent = newContent then Inl (NoChangeError path totalEdits)
                                else Inr (normalizedContent, newContent))))))"

lemma indexOf_prefix: "indexOf s t = Some i \<Longrightarrow> i + length t \<le> length s \<and> prefix t (drop i s)"
  by (induction s arbitrary: i) (auto split: if_splits dest: prefix_length_le)

termination split_string
proof (relation "measure (length \<circ> fst)")
  show "wf (measure (length \<circ> fst :: 'a list \<times> 'a list \<Rightarrow> nat))" by simp
next
  fix s t :: "'a list" and i
  assume "t \<noteq> []" "indexOf s t = Some i"
  with indexOf_prefix[of s t i] show "((drop (i + length t) s, t), s, t) \<in> measure (length \<circ> fst)"
    by (cases t) auto
qed

declare split_string.simps [simp del]

section \<open>Searching and splitting\<close>

lemma indexOf_split: "indexOf s t = Some i \<Longrightarrow> s = take i s @ t @ drop (i + length t) s"
  by (metis add.commute append_eq_conv_conj append_take_drop_id drop_drop indexOf_prefix prefix_def)

lemma indexOf_None: "indexOf s t = None \<longleftrightarrow> (\<forall>a b. s \<noteq> a @ t @ b)"
proof (induction s)
  case (Cons c s)
  show ?case
  proof (cases "prefix t (c # s)")
    case True
    then show ?thesis by (auto simp: prefix_def) (metis append_Nil)
  next
    case False
    have "(\<forall>a b. c # s \<noteq> a @ t @ b) \<longleftrightarrow> (\<forall>a b. s \<noteq> a @ t @ b)"
    proof (intro iffI allI notI)
      fix a b assume "\<forall>a b. c # s \<noteq> a @ t @ b" "s = a @ t @ b"
      then show False by (metis append_Cons)
    next
      fix a b assume h: "\<forall>a b. s \<noteq> a @ t @ b" "c # s = a @ t @ b"
      with False show False by (cases a) (auto simp: prefix_def)
    qed
    with False Cons show ?thesis by simp
  qed
qed auto

lemma indexOf_first:
  "\<exists>i. indexOf (a @ t @ b) t = Some i \<and> i \<le> length a"
proof (induction a)
  case Nil
  have "prefix t (t @ b)" by simp
  then show ?case by (cases "t @ b") auto
next
  case (Cons c a)
  then show ?case by auto
qed

lemma split_string_nonempty: "t \<noteq> [] \<Longrightarrow> split_string s t \<noteq> []"
  by (subst split_string.simps) (auto split: option.split)

lemma split_string_two:
  assumes "t \<noteq> []"
  shows "2 \<le> length (split_string (a @ t @ b) t)"
proof -
  obtain i where i: "indexOf (a @ t @ b) t = Some i" using indexOf_first by blast
  have "split_string (a @ t @ b) t =
    take i (a @ t @ b) # split_string (drop (i + length t) (a @ t @ b)) t"
    using assms by (subst split_string.simps) (simp add: i)
  moreover have "1 \<le> length (split_string (drop (i + length t) (a @ t @ b)) t)"
    using split_string_nonempty[OF assms] by (simp add: Suc_le_eq)
  ultimately show ?thesis by simp
qed

lemma split_string_three:
  assumes "t \<noteq> []"
  shows "3 \<le> length (split_string (a @ t @ m @ t @ b) t)"
proof -
  let ?s = "a @ t @ m @ t @ b"
  obtain i where i: "indexOf ?s t = Some i" "i \<le> length a" using indexOf_first by blast
  then have "drop (i + length t) ?s = drop (i + length t) (a @ t @ m) @ t @ b" by simp
  moreover have "split_string ?s t = take i ?s # split_string (drop (i + length t) ?s) t"
    using assms by (subst split_string.simps) (simp add: i)
  ultimately have "split_string ?s t = take i ?s # split_string (drop (i + length t) (a @ t @ m) @ t @ b) t"
    by simp
  with split_string_two[OF assms, of "drop (i + length t) (a @ t @ m)" b] show ?thesis by simp
qed

section \<open>Trimming every line\<close>

definition trim_lines :: "js_string \<Rightarrow> js_string" where
  "trim_lines s = js_join [LF] (map trimEnd (js_split LF s))"

lemma LF_space: "is_js_space LF"
  by (simp add: is_js_space_def LF_def)

lemma trimEnd_Nil [simp]: "trimEnd [] = []"
  by (simp add: trimEnd_def)

lemma trimEnd_Cons: "trimEnd (c # s) = (if is_js_space c \<and> trimEnd s = [] then [] else c # trimEnd s)"
  by (simp add: trimEnd_def dropWhile_append)

lemma trimEnd_subset: "set (trimEnd s) \<subseteq> set s"
  by (induction s) (auto simp: trimEnd_Cons)

lemma trim_lines_Nil [simp]: "trim_lines [] = []"
  by (simp add: trim_lines_def)

lemma trim_lines_first: "LF \<notin> set l \<Longrightarrow>
  (js_join [LF] (map trimEnd (l # ls)) = [] \<or> hd (js_join [LF] (map trimEnd (l # ls))) = LF) \<longleftrightarrow> trimEnd l = []"
  using trimEnd_subset[of l] by (cases "trimEnd l") (auto simp: js_join_Cons)

lemma trim_lines_Cons:
  "trim_lines (c # s) =
     (if c = LF then LF # trim_lines s
      else if is_js_space c \<and> (trim_lines s = [] \<or> hd (trim_lines s) = LF) then trim_lines s
      else c # trim_lines s)"
proof (cases "c = LF")
  case True
  then show ?thesis by (simp add: trim_lines_def js_join_Cons)
next
  case False
  obtain l ls where ls: "js_split LF s = l # ls" by (cases "js_split LF s") auto
  with js_split_lines[of l LF s] have "LF \<notin> set l" by simp
  from trim_lines_first[OF this, of ls] have
    "(trim_lines s = [] \<or> hd (trim_lines s) = LF) \<longleftrightarrow> trimEnd l = []"
    by (simp add: trim_lines_def ls)
  with False show ?thesis
    by (auto simp: trim_lines_def ls trimEnd_Cons js_join_Cons)
qed

lemma trim_lines_append: "\<exists>w. trim_lines (a @ b) = trim_lines a @ w @ trim_lines b"
proof (induction a)
  case (Cons c a)
  then obtain w where w: "trim_lines (a @ b) = trim_lines a @ w @ trim_lines b" by blast
  show ?case
  proof (cases "trim_lines a = []")
    case True
    with w show ?thesis
      by (simp add: trim_lines_Cons LF_space)
  next
    case False
    with w show ?thesis by (auto simp: trim_lines_Cons)
  qed
qed auto

lemma trim_lines_twice:
  "\<exists>a' m' b'. trim_lines (a @ t @ m @ t @ b) = a' @ trim_lines t @ m' @ trim_lines t @ b'"
proof -
  obtain w1 where "trim_lines (a @ t @ m @ t @ b) = trim_lines a @ w1 @ trim_lines (t @ m @ t @ b)"
    using trim_lines_append by blast
  moreover obtain w2 where "trim_lines (t @ m @ t @ b) = trim_lines t @ w2 @ trim_lines (m @ t @ b)"
    using trim_lines_append by blast
  moreover obtain w3 where "trim_lines (m @ t @ b) = trim_lines m @ w3 @ trim_lines (t @ b)"
    using trim_lines_append by blast
  moreover obtain w4 where "trim_lines (t @ b) = trim_lines t @ w4 @ trim_lines b"
    using trim_lines_append by blast
  ultimately show ?thesis by (metis append.assoc)
qed

lemma trim_lines_Nil_iff: "trim_lines s = [] \<longleftrightarrow> LF \<notin> set s \<and> list_all is_js_space s"
  by (induction s) (auto simp: trim_lines_Cons)

section \<open>Replacing from left to right\<close>

text \<open>
  The reference for \<^verbatim>\<open>applyReplacements\<close>: \<open>c\<close> is the part of the text from position \<open>p\<close> on, and each
  replacement is made once, from left to right.  The code goes from right to left, so that earlier positions stay valid.
\<close>

fun weave :: "int \<Rightarrow> js_string \<Rightarrow> 'a text_replacement_scheme list \<Rightarrow> js_string" where
  "weave p c [] = c"
| "weave p c (r # rs) =
     take (nat (matchIndex r - p)) c @ newText r
       @ weave (matchIndex r + matchLength r) (drop (nat (matchIndex r + matchLength r - p)) c) rs"

text \<open>Replacements in order and without overlap between two positions.\<close>

fun ordered_between :: "int \<Rightarrow> int \<Rightarrow> 'a text_replacement_scheme list \<Rightarrow> bool" where
  "ordered_between p q [] = (p \<le> q)"
| "ordered_between p q (r # rs) =
     (p \<le> matchIndex r \<and> 0 \<le> matchLength r \<and> ordered_between (matchIndex r + matchLength r) q rs)"

lemma ordered_between_le: "ordered_between p q rs \<Longrightarrow> p \<le> q"
  by (induction rs arbitrary: p) fastforce+

lemma ordered_between_mono: "ordered_between p q rs \<Longrightarrow> p' \<le> p \<Longrightarrow> q \<le> q' \<Longrightarrow> ordered_between p' q' rs"
  by (induction rs arbitrary: p p') auto

lemma ordered_between_bounds:
  "ordered_between p q rs \<Longrightarrow> r \<in> set rs \<Longrightarrow> p \<le> matchIndex r \<and> 0 \<le> matchLength r \<and> matchIndex r + matchLength r \<le> q"
  by (induction rs arbitrary: p) (auto dest: ordered_between_le, fastforce+)

lemma ordered_between_append:
  "ordered_between p q (rs @ rs') \<longleftrightarrow> (\<exists>m. ordered_between p m rs \<and> ordered_between m q rs')"
proof (induction rs arbitrary: p)
  case Nil
  show ?case by (auto intro: ordered_between_mono dest: ordered_between_le)
qed auto

lemma nat_diff_split: "nat (i - (p + int n)) = nat (i - p) - n"
  by arith

lemma nat_diff_small: "p + int n \<le> i \<Longrightarrow> n \<le> nat (i - p)"
  by arith

lemma replace_shift:
  assumes "p + int (length w) \<le> matchIndex r" "0 \<le> matchLength r"
  shows "replace_span p r (w @ c) = w @ replace_span (p + int (length w)) r c"
  using assms nat_diff_small[of p "length w" "matchIndex r"]
    nat_diff_small[of p "length w" "matchIndex r + matchLength r"]
  by (simp add: replace_span_def substring_to_def substring_from_def Let_def diff_add_eq nat_diff_split)

lemma applyReplacements_shift:
  "\<forall>r \<in> set rs. p + int (length w) \<le> matchIndex r \<and> 0 \<le> matchLength r \<Longrightarrow>
   foldr (replace_span p) rs (w @ c) = w @ foldr (replace_span (p + int (length w))) rs c"
  by (induction rs) (auto simp: replace_shift)

lemma applyReplacements_weave:
  "ordered_between p (p + int (length c)) rs \<Longrightarrow> applyReplacements c rs p = weave p c rs"
proof (induction rs arbitrary: p c)
  case (Cons r rs)
  let ?k = "nat (matchIndex r + matchLength r - p)"
  from Cons.prems have k: "p \<le> matchIndex r" "0 \<le> matchLength r"
    and rs: "ordered_between (matchIndex r + matchLength r) (p + int (length c)) rs" by auto
  from ordered_between_le[OF rs] k have len: "length (take ?k c) = ?k" by simp
  have pk: "p + int ?k = matchIndex r + matchLength r" using k by simp
  have dk: "matchIndex r + matchLength r + int (length (drop ?k c)) = p + int (length c)"
    using k ordered_between_le[OF rs] by simp
  have bs: "\<forall>x \<in> set rs. p + int (length (take ?k c)) \<le> matchIndex x \<and> 0 \<le> matchLength x"
    using ordered_between_bounds[OF rs] by (simp only: len pk) blast
  have "foldr (replace_span p) rs c = foldr (replace_span p) rs (take ?k c @ drop ?k c)" by simp
  also have "\<dots> = take ?k c @ foldr (replace_span (matchIndex r + matchLength r)) rs (drop ?k c)"
    using applyReplacements_shift[OF bs, of "drop ?k c"] by (simp only: len pk)
  also have "foldr (replace_span (matchIndex r + matchLength r)) rs (drop ?k c)
      = weave (matchIndex r + matchLength r) (drop ?k c) rs"
    using Cons.IH[of "matchIndex r + matchLength r" "drop ?k c", unfolded dk] rs
    by (simp only: applyReplacements_def)
  finally have "applyReplacements c (r # rs) p = replace_span p r (take ?k c @ weave (matchIndex r + matchLength r) (drop ?k c) rs)"
    by (simp add: applyReplacements_def)
  moreover have "nat (matchIndex r - p) \<le> ?k" using k by simp
  ultimately show ?case
    using k len by (simp add: replace_span_def substring_to_def substring_from_def Let_def diff_add_eq)
qed (simp add: applyReplacements_def)

lemma weave_prefix:
  "ordered_between (p + int (length w)) q rs \<Longrightarrow> weave p (w @ c) rs = w @ weave (p + int (length w)) c rs"
  by (cases rs) (auto simp: nat_diff_split nat_diff_small)

lemma weave_append:
  "ordered_between p (p + int (length c)) rs \<Longrightarrow> ordered_between (p + int (length c)) q rs' \<Longrightarrow>
   weave p (c @ c') (rs @ rs') = weave p c rs @ weave (p + int (length c)) c' rs'"
proof (induction rs arbitrary: p c)
  case Nil
  then show ?case using weave_prefix by simp
next
  case (Cons r rs)
  let ?k = "nat (matchIndex r + matchLength r - p)"
  from Cons.prems have k: "p \<le> matchIndex r" "0 \<le> matchLength r"
    and rs: "ordered_between (matchIndex r + matchLength r) (p + int (length c)) rs" by auto
  from ordered_between_le[OF rs] k have "?k \<le> length c" "nat (matchIndex r - p) \<le> length c" by auto
  moreover have dk: "matchIndex r + matchLength r + int (length (drop ?k c)) = p + int (length c)"
    using k ordered_between_le[OF rs] by simp
  ultimately show ?case
    using Cons.IH[of "matchIndex r + matchLength r" "drop ?k c", unfolded dk, OF rs Cons.prems(2)] by simp
qed

section \<open>Matched edits\<close>

text \<open>The text \<open>t\<close> stands at the place of a replacement; \<open>c\<close> is the text from position \<open>p\<close> on.\<close>

definition occurs_at :: "int \<Rightarrow> js_string \<Rightarrow> 'a text_replacement_scheme \<Rightarrow> js_string \<Rightarrow> bool" where
  "occurs_at p c r t =
     (p \<le> matchIndex r \<and> matchIndex r - p \<le> int (length c) \<and> matchLength r = int (length t)
       \<and> prefix t (drop (nat (matchIndex r - p)) c))"

lemma occurs_at_drop:
  assumes "occurs_at p c r t" "p \<le> p'" "p' \<le> matchIndex r"
  shows "occurs_at p' (drop (nat (p' - p)) c) r t"
proof -
  have "nat (matchIndex r - p') + nat (p' - p) = nat (matchIndex r - p)" using assms by simp
  moreover have "matchIndex r - p' \<le> int (length c - nat (p' - p))" using assms by (auto simp: occurs_at_def)
  ultimately show ?thesis using assms by (simp add: occurs_at_def)
qed

lemma weave_pieces:
  assumes "ordered_between p (p + int (length c)) (map snd ps)"
    and "\<forall>x \<in> set ps. occurs_at p c (snd x) (f (fst x)) \<and> newText (snd x) = h (fst x)"
  shows "\<exists>g gs. length gs = length ps
    \<and> c = g @ concat (map (\<lambda>(e, x). f e @ x) (zip (map fst ps) gs))
    \<and> weave p c (map snd ps) = g @ concat (map (\<lambda>(e, x). h e @ x) (zip (map fst ps) gs))"
  using assms
proof (induction ps arbitrary: p c)
  case Nil
  show ?case by (intro exI[of _ c] exI[of _ "[]"]) simp
next
  case (Cons x ps)
  let ?i = "nat (matchIndex (snd x) - p)" and ?t = "f (fst x)"
  let ?q = "matchIndex (snd x) + matchLength (snd x)" and ?d = "drop (nat (matchIndex (snd x) + matchLength (snd x) - p)) c"
  from Cons.prems have x: "p \<le> matchIndex (snd x)" "matchLength (snd x) = int (length ?t)" "prefix ?t (drop ?i c)"
    "newText (snd x) = h (fst x)"
    and rs: "ordered_between ?q (p + int (length c)) (map snd ps)" by (auto simp: occurs_at_def)
  have q: "nat (?q - p) = ?i + length ?t" using x by simp
  have len: "?q + int (length ?d) = p + int (length c)" using ordered_between_le[OF rs] x by simp
  have "\<forall>y \<in> set ps. occurs_at ?q ?d (snd y) (f (fst y)) \<and> newText (snd y) = h (fst y)"
  proof (intro ballI conjI)
    fix y assume y: "y \<in> set ps"
    with ordered_between_bounds[OF rs, of "snd y"] have "?q \<le> matchIndex (snd y)" by simp
    with y Cons.prems(2) x show "occurs_at ?q ?d (snd y) (f (fst y))" by (intro occurs_at_drop) auto
    from y Cons.prems(2) show "newText (snd y) = h (fst y)" by simp
  qed
  from Cons.IH[of ?q ?d, unfolded len, OF rs this] obtain g gs where g: "length gs = length ps"
    "?d = g @ concat (map (\<lambda>(e, x). f e @ x) (zip (map fst ps) gs))"
    "weave ?q ?d (map snd ps) = g @ concat (map (\<lambda>(e, x). h e @ x) (zip (map fst ps) gs))" by auto
  from x(3) obtain z where z: "drop ?i c = ?t @ z" by (auto simp: prefix_def)
  have "?d = drop (length ?t) (drop ?i c)" unfolding q by (simp add: add.commute)
  with z have "drop ?i c = ?t @ ?d" by simp
  then have c: "c = take ?i c @ ?t @ ?d" by (metis append_take_drop_id)
  show ?case
  proof (intro exI[of _ "take ?i c"] exI[of _ "g # gs"] conjI)
    show "length (g # gs) = length (x # ps)" using g by simp
    show "c = take ?i c @ concat (map (\<lambda>(e, x). f e @ x) (zip (map fst (x # ps)) (g # gs)))"
      by (subst c) (simp add: g(2))
    show "weave p c (map snd (x # ps)) = take ?i c @ concat (map (\<lambda>(e, x). h e @ x) (zip (map fst (x # ps)) (g # gs)))"
      using g(3) x(4) by simp
  qed
qed

lemma map_snd_sort: "map snd (sort_key (f \<circ> snd) ps) = sort_key f (map snd ps)"
proof (induction ps)
  case (Cons p ps)
  have "map snd (insort_key (f \<circ> snd) p qs) = insort_key f (snd p) (map snd qs)" for qs
    by (induction qs) auto
  with Cons show ?case by (simp add: comp_def)
qed simp

lemma check_old_texts_ok: "check_old_texts path n i es = Inr () \<longleftrightarrow> (\<forall>e \<in> set es. oldText e \<noteq> [])"
  by (induction es arbitrary: i) auto

lemma check_disjoint_ok:
  "check_disjoint path ms = Inr () \<Longrightarrow> sorted (map matchIndex ms) \<Longrightarrow>
   \<forall>m \<in> set ms. p \<le> matchIndex m \<and> 0 \<le> matchLength m \<and> matchIndex m + matchLength m \<le> q \<Longrightarrow> p \<le> q \<Longrightarrow>
   ordered_between p q ms"
proof (induction path ms arbitrary: p rule: check_disjoint.induct)
  case (1 path previous current ms)
  then show ?case by (auto split: if_splits)
qed auto

lemma match_edits_ok:
  "match_edits nfkc base path n i es = Inr ms \<Longrightarrow>
   list_all2 (\<lambda>e m. \<exists>j. match_edit nfkc base path n j e = Inr m) es ms"
  by (induction es arbitrary: i ms) (auto simp: rbind_Inr)

section \<open>Exact edits\<close>

lemma indexOf_sublist: "(\<exists>i. indexOf s t = Some i) \<longleftrightarrow> sublist t s"
  using indexOf_None[of s t] by (auto simp: sublist_def)

lemma fuzzyFindText_exact:
  "indexOf c t = Some i \<Longrightarrow> fuzzyFindText nfkc c t =
     \<lparr>found = True, fm_index = int i, fm_matchLength = length t, usedFuzzyMatch = False, contentForReplacement = c\<rparr>"
  by (simp add: fuzzyFindText_def)

lemma indexOf_occurs: "indexOf c t = Some i \<Longrightarrow> matchIndex r = int i \<Longrightarrow> matchLength r = int (length t) \<Longrightarrow> occurs_at 0 c r t"
  using indexOf_prefix[of c t i] by (simp add: occurs_at_def)

lemma occurs_at_bounds:
  "occurs_at 0 c r t \<Longrightarrow> 0 \<le> matchIndex r \<and> 0 \<le> matchLength r \<and> matchIndex r + matchLength r \<le> int (length c)"
  by (auto simp: occurs_at_def dest!: prefix_length_le)

text \<open>A successful call, taken apart: the edits, the text they are matched in and the matches in order.\<close>

definition needs_fuzzy :: "(js_string \<Rightarrow> js_string) \<Rightarrow> js_string \<Rightarrow> edit list \<Rightarrow> bool" where
  "needs_fuzzy nfkc content edits =
     list_ex (\<lambda>e. usedFuzzyMatch (fuzzyFindText nfkc content (oldText e))) (map normalize_edit edits)"

definition edit_base :: "(js_string \<Rightarrow> js_string) \<Rightarrow> js_string \<Rightarrow> edit list \<Rightarrow> js_string" where
  "edit_base nfkc content edits =
     (if needs_fuzzy nfkc content edits then normalizeForFuzzyMatch nfkc content else content)"

lemma applyEdits_ok:
  assumes "applyEditsToNormalizedContent nfkc content edits path = Inr (b, new)"
  obtains ms where
    "b = content" "new \<noteq> content"
    "\<forall>e \<in> set (map normalize_edit edits). oldText e \<noteq> []"
    "match_edits nfkc (edit_base nfkc content edits) path (length edits) 0 (map normalize_edit edits) = Inr ms"
    "check_disjoint path (sort_key matchIndex ms) = Inr ()"
    "(if needs_fuzzy nfkc content edits
      then applyReplacementsPreservingUnchangedLines content (edit_base nfkc content edits) (sort_key matchIndex ms)
      else Inr (applyReplacements (edit_base nfkc content edits) (sort_key matchIndex ms) 0)) = Inr new"
  using assms
  by (auto simp: applyEditsToNormalizedContent_def Let_def edit_base_def needs_fuzzy_def check_old_texts_ok
      split: if_splits)

lemma match_edit_ok:
  assumes "match_edit nfkc base path n j e = Inr m" "oldText e \<noteq> []"
  shows "newText m = edit_newText e \<and> countOccurrences nfkc base (oldText e) \<le> 1
    \<and> (occurs_at 0 base m (oldText e)
       \<or> (indexOf base (oldText e) = None
          \<and> occurs_at 0 (normalizeForFuzzyMatch nfkc base) m (normalizeForFuzzyMatch nfkc (oldText e))))"
  using assms
  by (auto simp: match_edit_def fuzzyFindText_def Let_def intro!: indexOf_occurs split: if_splits option.splits)

lemma matched_pieces:
  fixes es :: "edit list" and base :: js_string
  assumes "list_all2 (\<lambda>e m. occurs_at 0 base m (f e) \<and> newText m = edit_newText e) es ms"
    and "check_disjoint path (sort_key matchIndex ms) = Inr ()"
  shows "ordered_between 0 (int (length base)) (sort_key matchIndex ms)
    \<and> (\<exists>g pieces. mset (map fst pieces) = mset es
      \<and> base = g @ concat (map (\<lambda>(e, x). f e @ x) pieces)
      \<and> weave 0 base (sort_key matchIndex ms) = g @ concat (map (\<lambda>(e, x). edit_newText e @ x) pieces))"
proof -
  let ?ps = "sort_key (matchIndex \<circ> snd) (zip es ms)"
  have len: "length es = length ms" using assms(1) by (rule list_all2_lengthD)
  then have snds: "map snd ?ps = sort_key matchIndex ms" by (simp only: map_snd_sort map_snd_zip)
  have each: "\<forall>x \<in> set ?ps. occurs_at 0 base (snd x) (f (fst x)) \<and> newText (snd x) = edit_newText (fst x)"
    using assms(1) by (auto simp: list_all2_iff)
  have bounds: "\<forall>m \<in> set (sort_key matchIndex ms).
      0 \<le> matchIndex m \<and> 0 \<le> matchLength m \<and> matchIndex m + matchLength m \<le> int (length base)"
  proof
    fix m assume "m \<in> set (sort_key matchIndex ms)"
    then obtain e where "occurs_at 0 base m (f e)"
      using assms(1) by (auto simp: list_all2_conv_all_nth in_set_conv_nth)
    then show "0 \<le> matchIndex m \<and> 0 \<le> matchLength m \<and> matchIndex m + matchLength m \<le> int (length base)"
      by (rule occurs_at_bounds)
  qed
  have ordered: "ordered_between 0 (int (length base)) (sort_key matchIndex ms)"
    by (rule check_disjoint_ok[OF assms(2) _ bounds]) simp_all
  with each snds have "\<exists>g gs. length gs = length ?ps
    \<and> base = g @ concat (map (\<lambda>(e, x). f e @ x) (zip (map fst ?ps) gs))
    \<and> weave 0 base (map snd ?ps) = g @ concat (map (\<lambda>(e, x). edit_newText e @ x) (zip (map fst ?ps) gs))"
    by (intro weave_pieces) (simp_all only: add_0)
  then obtain g gs where g: "length gs = length ?ps"
    "base = g @ concat (map (\<lambda>(e, x). f e @ x) (zip (map fst ?ps) gs))"
    "weave 0 base (sort_key matchIndex ms) = g @ concat (map (\<lambda>(e, x). edit_newText e @ x) (zip (map fst ?ps) gs))"
    unfolding snds by blast
  have "mset (map fst ?ps) = mset (map fst (zip es ms))" by (simp only: mset_map mset_sort)
  then have "mset (map fst (zip (map fst ?ps) gs)) = mset es" using g(1) len by (simp del: mset_map)
  with g ordered show ?thesis by blast
qed


text \<open>C7: Exact edits are made at once.  When every old text stands in the file and the call succeeds, the file is
  cut at the old texts, each exactly once and in some order, and the new content has the new texts in their
  places and every other character as it was: no edit sees the result of another.\<close>

theorem exact_edits_applied:
  assumes "applyEditsToNormalizedContent nfkc content edits path = Inr (base, new)"
    and "\<forall>e \<in> set edits. sublist (normalizeToLF (oldText e)) content"
  shows "\<exists>g pieces. mset (map fst pieces) = mset (map normalize_edit edits)
    \<and> content = g @ concat (map (\<lambda>(e, x). oldText e @ x) pieces)
    \<and> new = g @ concat (map (\<lambda>(e, x). edit_newText e @ x) pieces)"
proof -
  from assms(2) have exact: "\<exists>i. indexOf content (oldText e) = Some i" if "e \<in> set (map normalize_edit edits)" for e
    using that by (auto simp: indexOf_sublist normalize_edit_def)
  have nf: "\<not> needs_fuzzy nfkc content edits"
  proof
    assume "needs_fuzzy nfkc content edits"
    then obtain e where e: "e \<in> set (map normalize_edit edits)" "usedFuzzyMatch (fuzzyFindText nfkc content (oldText e))"
      by (auto simp: needs_fuzzy_def list_ex_iff)
    from exact[OF e(1)] obtain i where "indexOf content (oldText e) = Some i" by blast
    with e(2) show False by (simp add: fuzzyFindText_exact)
  qed
  from applyEdits_ok[OF assms(1)] obtain ms where
    ne: "\<forall>e \<in> set (map normalize_edit edits). oldText e \<noteq> []"
    and ms: "match_edits nfkc content path (length edits) 0 (map normalize_edit edits) = Inr ms"
    and d: "check_disjoint path (sort_key matchIndex ms) = Inr ()"
    and new: "applyReplacements content (sort_key matchIndex ms) 0 = new"
    using nf by (simp add: edit_base_def) blast
  have "list_all2 (\<lambda>e m. occurs_at 0 content m (oldText e) \<and> newText m = edit_newText e) (map normalize_edit edits) ms"
  proof (rule list.rel_mono_strong[OF match_edits_ok[OF ms]])
    fix e m assume e: "e \<in> set (map normalize_edit edits)" "\<exists>j. match_edit nfkc content path (length edits) j e = Inr m"
    with match_edit_ok[of nfkc content path "length edits" _ e m] exact[OF e(1)] ne
    show "occurs_at 0 content m (oldText e) \<and> newText m = edit_newText e" by fastforce
  qed
  from matched_pieces[OF this d] new show ?thesis
    using applyReplacements_weave[of 0 content "sort_key matchIndex ms"] by simp
qed

section \<open>Ambiguous old texts\<close>

definition ascii :: "js_string \<Rightarrow> bool" where
  "ascii s = list_all (\<lambda>u. u < 0x80) s"

text \<open>The normal form leaves ASCII text alone.\<close>

definition nfkc_ascii :: "(js_string \<Rightarrow> js_string) \<Rightarrow> bool" where
  "nfkc_ascii nfkc = (\<forall>s. ascii s \<longrightarrow> nfkc s = s)"

lemma ascii_unit: "u < 0x80 \<Longrightarrow> ascii_space (ascii_dash (ascii_quotes u)) = u"
proof -
  assume u: "u < 0x80"
  have "\<not> 0x2002 \<le> u"
  proof
    assume "0x2002 \<le> u"
    from le_less_trans[OF this u] show False by simp
  qed
  with u show ?thesis by (auto simp: ascii_quotes_def ascii_dash_def ascii_space_def)
qed

lemma trim_lines_subset: "set (trim_lines s) \<subseteq> set s"
  by (induction s) (auto simp: trim_lines_Cons)

lemma trim_lines_idem: "trim_lines (trim_lines s) = trim_lines s"
  by (induction s) (auto simp: trim_lines_Cons)

lemma fuzzy_ascii:
  assumes "nfkc_ascii nfkc" "ascii s"
  shows "normalizeForFuzzyMatch nfkc s = trim_lines s"
proof -
  have "map (\<lambda>u. ascii_space (ascii_dash (ascii_quotes u))) (trim_lines s) = trim_lines s"
    using trim_lines_subset[of s] assms(2) by (auto simp: ascii_def list_all_iff ascii_unit intro!: map_idI)
  with assms show ?thesis by (simp add: normalizeForFuzzyMatch_def nfkc_ascii_def trim_lines_def comp_def)
qed

lemma ascii_trim_lines: "ascii s \<Longrightarrow> ascii (trim_lines s)"
  using trim_lines_subset[of s] by (auto simp: ascii_def list_all_iff)

lemma count_twice:
  assumes "nfkc_ascii nfkc" "ascii (a @ t @ m @ t @ b)" "trim_lines t \<noteq> []"
  shows "2 \<le> countOccurrences nfkc (a @ t @ m @ t @ b) t"
proof -
  have t: "ascii t" using assms(2) by (simp add: ascii_def)
  obtain a' m' b' where "trim_lines (a @ t @ m @ t @ b) = a' @ trim_lines t @ m' @ trim_lines t @ b'"
    using trim_lines_twice by blast
  with split_string_three[OF assms(3), of a' m' b'] show ?thesis
    by (simp add: countOccurrences_def fuzzy_ascii[OF assms(1)] assms(2) t)
qed

lemma count_trimmed:
  assumes "nfkc_ascii nfkc" "ascii s"
  shows "countOccurrences nfkc (trim_lines s) t = countOccurrences nfkc s t"
  using assms by (simp add: countOccurrences_def fuzzy_ascii ascii_trim_lines trim_lines_idem)

lemma match_edits_member:
  "match_edits nfkc base path n i es = Inr ms \<Longrightarrow> e \<in> set es \<Longrightarrow> \<exists>j m. match_edit nfkc base path n j e = Inr m"
  by (induction es arbitrary: i ms) auto

text \<open>C30: An ambiguous edit is never made.  When the old text of an edit is not blank and stands at two places of an ASCII
  file that do not overlap, the call fails, whatever the other edits are.\<close>

theorem ambiguous_edit_rejected:
  assumes "nfkc_ascii nfkc" and "ascii content" and "e \<in> set edits"
    and "normalizeToLF (oldText e) = t" and "trim_lines t \<noteq> []" and "content = a @ t @ m @ t @ b"
  shows "\<exists>err. applyEditsToNormalizedContent nfkc content edits path = Inl err"
proof (rule ccontr)
  assume "\<nexists>err. applyEditsToNormalizedContent nfkc content edits path = Inl err"
  then obtain b' new where ok: "applyEditsToNormalizedContent nfkc content edits path = Inr (b', new)"
    by (cases "applyEditsToNormalizedContent nfkc content edits path") auto
  let ?base = "edit_base nfkc content edits" and ?e = "normalize_edit e"
  from applyEdits_ok[OF ok] obtain ms where
    ms: "match_edits nfkc ?base path (length edits) 0 (map normalize_edit edits) = Inr ms"
    and ne: "oldText ?e \<noteq> []" using assms(3) by auto
  from match_edits_member[OF ms, of ?e] assms(3) obtain j r where
    "match_edit nfkc ?base path (length edits) j ?e = Inr r" by auto
  from match_edit_ok[OF this ne] have "countOccurrences nfkc ?base t \<le> 1"
    using assms(4) by (simp add: normalize_edit_def)
  moreover have "countOccurrences nfkc ?base t = countOccurrences nfkc content t"
    using assms(1,2) by (simp add: edit_base_def fuzzy_ascii count_trimmed)
  moreover have "2 \<le> countOccurrences nfkc content t"
    using count_twice assms by blast
  ultimately show False by simp
qed

lemma split_string_empty: "split_string s [] = map (\<lambda>c. [c]) s"
  by (subst split_string.simps) simp

text \<open>An old text of spaces is counted once for every character of the file.\<close>

lemma blank_count:
  assumes "nfkc_ascii nfkc" "ascii content" "ascii t" "trim_lines t = []"
  shows "countOccurrences nfkc content t = int (length (trim_lines content)) - 1"
  using assms by (simp add: countOccurrences_def fuzzy_ascii split_string_empty)

lemma nfkc_ascii_id: "nfkc_ascii (\<lambda>s. s)"
  by (simp add: nfkc_ascii_def)

text \<open>A file of three characters in which a space occurs once: an edit of it is refused as a duplicate.\<close>

lemma blank_old_text_refused:
  "applyEditsToNormalizedContent (\<lambda>s. s) (ascii_units ''a b'')
     [\<lparr>oldText = ascii_units '' '', edit_newText = ascii_units ''-''\<rparr>] path = Inl (DuplicateError path 0 1 2)"
  by code_simp

text \<open>A file with no two spaces in a row: an edit of two spaces inserts at the start of the file.\<close>

lemma blank_old_text_inserts:
  "applyEditsToNormalizedContent (\<lambda>s. s) (ascii_units ''ab'')
     [\<lparr>oldText = ascii_units ''  '', edit_newText = ascii_units ''-''\<rparr>] path
   = Inr (ascii_units ''ab'', ascii_units ''-ab'')"
  by code_simp

section \<open>Concrete edits\<close>

text \<open>A part of the normal form: the wide forms of the ASCII characters.\<close>

definition nfkc_wide :: "js_string \<Rightarrow> js_string" where
  "nfkc_wide s = map (\<lambda>c. if 0xFF01 \<le> c \<and> c \<le> 0xFF5E then c - 0xFEE0 else c) s"

lemma nfkc_wide_ascii: "nfkc_ascii nfkc_wide"
proof -
  have "\<not> 0xFF01 \<le> u" if u: "u < 0x80" for u :: code_unit
  proof
    assume "0xFF01 \<le> u"
    from le_less_trans[OF this u] show False by simp
  qed
  then show ?thesis by (auto simp: nfkc_ascii_def nfkc_wide_def ascii_def list_all_iff intro!: map_idI)
qed

definition swap_edits :: "edit list" where
  "swap_edits = [\<lparr>oldText = ascii_units ''two'', edit_newText = ascii_units ''one''\<rparr>,
                 \<lparr>oldText = ascii_units ''one'', edit_newText = ascii_units ''two''\<rparr>]"

theorem exact_edits_applied_witness:
  "applyEditsToNormalizedContent nfkc_wide (ascii_units ''one two'') swap_edits []
     = Inr (ascii_units ''one two'', ascii_units ''two one'')
   \<and> (\<exists>g pieces. mset (map fst pieces) = mset (map normalize_edit swap_edits)
      \<and> ascii_units ''one two'' = g @ concat (map (\<lambda>(e, x). oldText e @ x) pieces)
      \<and> ascii_units ''two one'' = g @ concat (map (\<lambda>(e, x). edit_newText e @ x) pieces))"
proof -
  have ok: "applyEditsToNormalizedContent nfkc_wide (ascii_units ''one two'') swap_edits []
     = Inr (ascii_units ''one two'', ascii_units ''two one'')" by code_simp
  have "\<forall>e \<in> set swap_edits. sublist (normalizeToLF (oldText e)) (ascii_units ''one two'')" by code_simp
  from ok exact_edits_applied[OF ok this] show ?thesis by blast
qed

theorem ambiguous_edit_rejected_witness:
  "\<exists>err. applyEditsToNormalizedContent nfkc_wide (ascii_units ''one two one'') swap_edits [] = Inl err"
proof (rule ambiguous_edit_rejected[OF nfkc_wide_ascii])
  show "ascii (ascii_units ''one two one'')" by code_simp
  show "\<lparr>oldText = ascii_units ''one'', edit_newText = ascii_units ''two''\<rparr> \<in> set swap_edits"
    by (simp add: swap_edits_def)
  show "normalizeToLF (oldText \<lparr>oldText = ascii_units ''one'', edit_newText = ascii_units ''two''\<rparr>) = ascii_units ''one''"
    by code_simp
  show "trim_lines (ascii_units ''one'') \<noteq> []" by code_simp
  show "ascii_units ''one two one'' = [] @ ascii_units ''one'' @ ascii_units '' two '' @ ascii_units ''one'' @ []"
    by code_simp
qed

end
