(* ===== verification/Edit_Fuzzy.thy ===== *)
theory Edit_Fuzzy
  imports Edit_Diff
begin

text \<open>
  The fuzzy path of \<^verbatim>\<open>applyEditsToNormalizedContent\<close> in \<^verbatim>\<open>harness/tools/edit-diff.ts\<close>: the line counts of the normalized
  view, the lines a replacement touches, their groups, what is written back, and when it fails; at the end line endings.
\<close>

section \<open>Line counts of the fuzzy view\<close>

text \<open>
  The normal form works line by line: a line feed is a boundary it neither moves nor produces, and a text that is
  not empty has a normal form that is not empty.
\<close>

definition nfkc_lines :: "(js_string \<Rightarrow> js_string) \<Rightarrow> bool" where
  "nfkc_lines nfkc =
     ((\<forall>a b. nfkc (a @ LF # b) = nfkc a @ LF # nfkc b) \<and> (\<forall>a. LF \<notin> set a \<longrightarrow> LF \<notin> set (nfkc a))
      \<and> (\<forall>a. nfkc a = [] \<longleftrightarrow> a = []))"

lemma js_split_nfkc:
  assumes "nfkc_lines nfkc"
  shows "js_split LF (nfkc s) = map nfkc (js_split LF s)"
proof (induction s rule: length_induct)
  case (1 s)
  show ?case
  proof (cases "LF \<in> set s")
    case True
    then obtain a b where s: "s = a @ LF # b" "LF \<notin> set a" by (meson split_list_first)
    from s assms have "nfkc s = nfkc a @ LF # nfkc b" "LF \<notin> set (nfkc a)" by (auto simp: nfkc_lines_def)
    with s 1 show ?thesis by (simp add: js_split_append)
  next
    case False
    with assms show ?thesis by (simp add: js_split_plain nfkc_lines_def)
  qed
qed

lemma js_split_map: "\<forall>c \<in> set s. f c = sep \<longleftrightarrow> c = sep \<Longrightarrow> js_split sep (map f s) = map (map f) (js_split sep s)"
  by (induction s) (auto split: list.splits)

lemma ascii_LF: "ascii_space (ascii_dash (ascii_quotes c)) = LF \<longleftrightarrow> c = LF"
  by (auto simp: ascii_quotes_def ascii_dash_def ascii_space_def LF_def)

lemma js_split_fuzzy:
  assumes "nfkc_lines nfkc"
  shows "js_split LF (normalizeForFuzzyMatch nfkc s) =
    map (\<lambda>l. map (\<lambda>c. ascii_space (ascii_dash (ascii_quotes c))) (trimEnd (nfkc l))) (js_split LF s)"
proof -
  have "LF \<notin> set (trimEnd l)" if "l \<in> set (js_split LF (nfkc s))" for l
    using js_split_lines[OF that] trimEnd_subset[of l] by blast
  then have "js_split LF (js_join [LF] (map trimEnd (js_split LF (nfkc s)))) = map trimEnd (js_split LF (nfkc s))"
    by (intro js_split_join) auto
  then show ?thesis
    using assms by (simp add: normalizeForFuzzyMatch_def comp_def js_split_map ascii_LF js_split_nfkc)
qed

lemma length_splitLines:
  "length (splitLinesWithEndings s) = length (js_split LF s) - (if last (js_split LF s) = [] then 1 else 0)"
proof (induction s)
  case (Cons c s)
  have "splitLinesWithEndings s = [] \<longleftrightarrow> js_split LF s = [[]]"
    by (cases s) (auto split: list.splits)
  moreover have "length (js_split LF s) \<ge> 1" by (simp add: Suc_le_eq)
  ultimately show ?case using Cons
    by (cases "js_split LF s") (auto split: list.splits if_splits)
qed simp

text \<open>The file ends in a line without a line feed that is blank after normalization, but not empty.\<close>

definition blank_tail :: "(js_string \<Rightarrow> js_string) \<Rightarrow> js_string \<Rightarrow> bool" where
  "blank_tail nfkc s = (let l = last (js_split LF s) in l \<noteq> [] \<and> trimEnd (nfkc l) = [])"

lemma fuzzy_line_count:
  assumes "nfkc_lines nfkc"
  shows "length (splitLinesWithEndings s) = length (splitLinesWithEndings (normalizeForFuzzyMatch nfkc s))
    \<longleftrightarrow> \<not> blank_tail nfkc s"
proof -
  have "nfkc [] = []" using assms by (simp add: nfkc_lines_def)
  moreover have "1 \<le> length (js_split LF s)" by (simp add: Suc_le_eq)
  ultimately show ?thesis
    by (auto simp: length_splitLines js_split_fuzzy[OF assms] blank_tail_def Let_def last_map)
qed

lemma length_getLineSpans [simp]: "length (getLineSpans s) = length (splitLinesWithEndings s)"
proof -
  have "length (spans_from p ls) = length ls" for p ls by (induction ls arbitrary: p) auto
  then show ?thesis by (simp add: getLineSpans_def)
qed

section \<open>Lines a replacement touches\<close>

text \<open>The position at which line \<open>i\<close> starts.\<close>

definition line_offset :: "js_string list \<Rightarrow> nat \<Rightarrow> int" where
  "line_offset ls i = int (length (concat (take i ls)))"

text \<open>Line \<open>i\<close> holds the first character of the replaced span, or starts inside of it.\<close>

definition touches :: "js_string list \<Rightarrow> 'a text_replacement_scheme \<Rightarrow> nat \<Rightarrow> bool" where
  "touches ls r i =
     (line_offset ls i \<le> matchIndex r \<and> matchIndex r < line_offset ls (Suc i)
      \<or> matchIndex r < line_offset ls i \<and> line_offset ls i < matchIndex r + matchLength r)"

lemma concat_splitLines: "concat (splitLinesWithEndings s) = s"
  by (induction s) (auto split: list.splits)

lemma splitLines_nonempty: "[] \<notin> set (splitLinesWithEndings s)"
  by (induction s) (auto split: list.splits)

lemma line_offset_0 [simp]: "line_offset ls 0 = 0"
  by (simp add: line_offset_def)

lemma line_offset_Suc: "i < length ls \<Longrightarrow> line_offset ls (Suc i) = line_offset ls i + int (length (ls ! i))"
  by (simp add: line_offset_def take_Suc_conv_app_nth)

lemma line_offset_mono: "i \<le> j \<Longrightarrow> line_offset ls i \<le> line_offset ls j"
  unfolding line_offset_def by (metis concat_append le_add_diff_inverse length_append of_nat_le_iff le_add1 take_add)

lemma line_offset_less:
  assumes "[] \<notin> set ls" "i < j" "j \<le> length ls"
  shows "line_offset ls i < line_offset ls j"
proof -
  have "ls ! i \<noteq> []" using assms by (metis nth_mem order_less_le_trans)
  with assms line_offset_Suc[of i ls] have "line_offset ls i < line_offset ls (Suc i)" by simp
  also have "\<dots> \<le> line_offset ls j" using assms by (intro line_offset_mono) simp
  finally show ?thesis .
qed

lemma line_offset_cancel: "[] \<notin> set ls \<Longrightarrow> i \<le> length ls \<Longrightarrow> line_offset ls i < line_offset ls j \<Longrightarrow> i < j"
  using line_offset_mono[of j i ls] by (meson linorder_not_le)

lemma nth_spans_from:
  "i < length ls \<Longrightarrow> spans_from p ls ! i = \<lparr>span_start = p + line_offset ls i, span_end = p + line_offset ls (Suc i)\<rparr>"
proof (induction ls arbitrary: p i)
  case (Cons l ls)
  then show ?case by (cases i) (auto simp: line_offset_def)
qed simp

lemma nth_getLineSpans:
  "i < length (splitLinesWithEndings s) \<Longrightarrow> getLineSpans s ! i =
     \<lparr>span_start = line_offset (splitLinesWithEndings s) i, span_end = line_offset (splitLinesWithEndings s) (Suc i)\<rparr>"
  by (simp add: getLineSpans_def nth_spans_from)

lemma find_line_Some:
  "find_line ls p i = Some j \<Longrightarrow> i \<le> j \<and> j < i + length ls \<and> span_start (ls ! (j - i)) \<le> p \<and> p < span_end (ls ! (j - i))"
proof (induction ls arbitrary: i)
  case (Cons l ls)
  then show ?case by (fastforce split: if_splits simp: nth_Cons')
qed simp

lemma find_line_None: "find_line (spans_from q ls) p i = None \<Longrightarrow> p < q \<or> q + int (length (concat ls)) \<le> p"
  by (induction ls arbitrary: q i) (force split: if_splits)+

lemma extend_line_bounds:
  assumes "extend_line ls q i = e"
  shows "i \<le> e \<and> e \<le> i + length ls \<and> (\<forall>k. i \<le> k \<longrightarrow> k < e \<longrightarrow> span_end (ls ! (k - i)) < q)
    \<and> (e < i + length ls \<longrightarrow> q \<le> span_end (ls ! (e - i)))"
  using assms
proof (induction ls arbitrary: i)
  case (Cons l ls)
  show ?case
  proof (cases "span_end l < q")
    case True
    with Cons.prems have e: "extend_line ls q (Suc i) = e" by simp
    from Cons.IH[OF e] True show ?thesis by (auto simp: nth_Cons' Suc_le_eq)
  next
    case False
    with Cons.prems show ?thesis by auto
  qed
qed auto

lemma line_range:
  fixes base :: js_string
  defines "bs \<equiv> splitLinesWithEndings base"
  assumes "getReplacementLineRange (getLineSpans base) r = Inr (s, e)"
  shows "s < e \<and> e \<le> length bs \<and> line_offset bs s \<le> matchIndex r \<and> matchIndex r < line_offset bs (Suc s)
    \<and> matchIndex r + matchLength r \<le> line_offset bs e \<and> (Suc s < e \<longrightarrow> line_offset bs (e - 1) < matchIndex r + matchLength r)"
proof -
  let ?q = "matchIndex r + matchLength r"
  from assms obtain e' where s: "find_line (getLineSpans base) (matchIndex r) 0 = Some s"
    and e': "extend_line (drop s (getLineSpans base)) ?q s = e'" "e = Suc e'" "e' < length bs"
    by (auto simp: getReplacementLineRange_def Let_def split: option.splits if_splits)
  from find_line_Some[OF s] have s': "s < length bs" "line_offset bs s \<le> matchIndex r" "matchIndex r < line_offset bs (Suc s)"
    by (auto simp: nth_getLineSpans bs_def)
  have nth: "span_end (getLineSpans base ! k) = line_offset bs (Suc k)" if "k < length bs" for k
    using that by (simp add: nth_getLineSpans bs_def)
  from extend_line_bounds[OF e'(1)] s' e'(3) have b: "s \<le> e'" "?q \<le> span_end (getLineSpans base ! e')"
    "\<And>k. s \<le> k \<Longrightarrow> k < e' \<Longrightarrow> span_end (getLineSpans base ! k) < ?q"
    by (auto simp: bs_def)
  then have b: "s \<le> e'" "?q \<le> line_offset bs (Suc e')" "\<And>k. s \<le> k \<Longrightarrow> k < e' \<Longrightarrow> line_offset bs (Suc k) < ?q"
    using e'(3) by (auto simp: nth less_trans)
  have "line_offset bs (e - 1) < ?q" if "Suc s < e"
    using b(3)[of "e' - 1"] that e'(2) by simp
  with b s' e' show ?thesis by auto
qed

lemma line_range_exists:
  fixes base :: js_string
  assumes "0 \<le> matchIndex r" "matchIndex r < int (length base)" "0 \<le> matchLength r" "matchIndex r + matchLength r \<le> int (length base)"
  shows "\<exists>s e. getReplacementLineRange (getLineSpans base) r = Inr (s, e)"
proof -
  let ?bs = "splitLinesWithEndings base" and ?q = "matchIndex r + matchLength r"
  have end_off: "line_offset ?bs (length ?bs) = int (length base)" by (simp add: line_offset_def concat_splitLines)
  obtain s where s: "find_line (getLineSpans base) (matchIndex r) 0 = Some s"
    using find_line_None[of 0 ?bs "matchIndex r" 0] assms
    by (cases "find_line (getLineSpans base) (matchIndex r) 0") (auto simp: getLineSpans_def concat_splitLines)
  then have s': "s < length ?bs" using find_line_Some[OF s] by simp
  let ?e = "extend_line (drop s (getLineSpans base)) ?q s"
  have "?e < length ?bs"
  proof (rule ccontr)
    assume "\<not> ?e < length ?bs"
    with extend_line_bounds[of "drop s (getLineSpans base)" ?q s, OF refl] s'
    have "span_end (drop s (getLineSpans base) ! (length ?bs - 1 - s)) < ?q" by auto
    moreover have "span_end (drop s (getLineSpans base) ! (length ?bs - 1 - s)) = line_offset ?bs (length ?bs)"
      using s' by (cases "length ?bs") (simp_all add: nth_getLineSpans)
    ultimately show False using end_off assms(4) by simp
  qed
  with s show ?thesis by (simp add: getReplacementLineRange_def Let_def)
qed

lemma touches_range:
  fixes base :: js_string
  defines "bs \<equiv> splitLinesWithEndings base"
  assumes "getReplacementLineRange (getLineSpans base) r = Inr (s, e)" "i < length bs"
  shows "touches bs r i \<longleftrightarrow> s \<le> i \<and> i < e"
proof -
  note range = line_range[OF assms(2), folded bs_def]
  have ne: "[] \<notin> set bs" by (simp add: bs_def splitLines_nonempty)
  consider "i < s" | "i = s" | "s < i" "i < e" | "e \<le> i" by linarith
  then show ?thesis
  proof cases
    case 1
    then have "line_offset bs (Suc i) \<le> matchIndex r" using line_offset_mono[of "Suc i" s bs] range by auto
    moreover have "line_offset bs i \<le> line_offset bs (Suc i)" by (intro line_offset_mono) simp
    ultimately show ?thesis using 1 by (auto simp: touches_def)
  next
    case 2
    then show ?thesis using range by (auto simp: touches_def)
  next
    case 3
    then have "line_offset bs (Suc s) \<le> line_offset bs i" "line_offset bs i \<le> line_offset bs (e - 1)"
      by (auto intro: line_offset_mono)
    then show ?thesis using 3 range by (auto simp: touches_def)
  next
    case 4
    then have "line_offset bs e \<le> line_offset bs i" "line_offset bs (Suc s) \<le> line_offset bs i"
      using range by (auto intro: line_offset_mono)
    then show ?thesis using 4 range by (auto simp: touches_def)
  qed
qed

section \<open>Groups of touched lines\<close>

text \<open>Groups between two lines: in order, disjoint, each with the replacements that touch exactly its lines.\<close>

fun groups_between :: "js_string list \<Rightarrow> nat \<Rightarrow> nat \<Rightarrow> 'a text_replacement_scheme line_group list \<Rightarrow> bool" where
  "groups_between bs p q [] = (p \<le> q)"
| "groups_between bs p q (g # gs) =
     (p \<le> startLine g \<and> startLine g < endLine g
      \<and> ordered_between (line_offset bs (startLine g)) (line_offset bs (endLine g)) (replacements g)
      \<and> (\<forall>i < length bs. (startLine g \<le> i \<and> i < endLine g) \<longleftrightarrow> (\<exists>r \<in> set (replacements g). touches bs r i))
      \<and> groups_between bs (endLine g) q gs)"

lemma groups_between_le: "groups_between bs p q gs \<Longrightarrow> p \<le> q"
  by (induction gs arbitrary: p) fastforce+

lemma groups_between_append:
  "groups_between bs p q (gs @ gs') \<longleftrightarrow> (\<exists>m. groups_between bs p m gs \<and> groups_between bs m q gs')"
proof (induction gs arbitrary: p)
  case Nil
  have "groups_between bs p q gs'" if "p \<le> m" "groups_between bs m q gs'" for m
    using that by (cases gs') auto
  then show ?case by auto
qed auto

lemma groups_between_last:
  "groups_between bs p q gs \<Longrightarrow> gs \<noteq> [] \<Longrightarrow> endLine (last gs) \<le> s \<Longrightarrow> groups_between bs p s gs"
  by (induction gs arbitrary: p) (auto split: if_splits)

lemma ordered_between_upper:
  "ordered_between p q rs \<Longrightarrow> p \<le> q' \<Longrightarrow> \<forall>r \<in> set rs. matchIndex r + matchLength r \<le> q' \<Longrightarrow> ordered_between p q' rs"
  by (induction rs arbitrary: p) auto

lemma ordered_between_snoc:
  "ordered_between p q (rs @ [r]) \<longleftrightarrow>
     ordered_between p (matchIndex r) rs \<and> 0 \<le> matchLength r \<and> matchIndex r + matchLength r \<le> q"
  by (auto simp: ordered_between_append intro: ordered_between_mono)

lemma single_group:
  fixes base :: js_string
  defines "bs \<equiv> splitLinesWithEndings base"
  assumes "getReplacementLineRange (getLineSpans base) r = Inr (s, e)" "0 \<le> matchLength r" "q \<le> s"
  shows "groups_between bs q (length bs) [\<lparr>startLine = s, endLine = e, replacements = [r]\<rparr>]"
  using line_range[OF assms(2), folded bs_def] touches_range[OF assms(2), folded bs_def] assms(3,4) by simp

lemma merged_group:
  fixes base :: js_string
  defines "bs \<equiv> splitLinesWithEndings base"
  assumes "getReplacementLineRange (getLineSpans base) r = Inr (s, e)"
    and g: "groups_between bs q (length bs) [g]" "replacements g \<noteq> []"
    and o: "ordered_between 0 (matchIndex r) (replacements g)" "0 \<le> matchLength r"
    and "s < endLine g"
  shows "groups_between bs q (length bs) [g\<lparr>endLine := max (endLine g) e, replacements := replacements g @ [r]\<rparr>]"
proof -
  note range = line_range[OF assms(2), folded bs_def]
  have ne: "[] \<notin> set bs" by (simp add: bs_def splitLines_nonempty)
  let ?s = "startLine g" and ?e = "max (endLine g) e"
  from g have og: "ordered_between (line_offset bs ?s) (line_offset bs (endLine g)) (replacements g)" by simp
  obtain x where x: "x \<in> set (replacements g)" using g(2) by (meson list.set_sel(1))
  with ordered_between_bounds[OF og] ordered_between_bounds[OF o(1)] have low: "line_offset bs ?s \<le> matchIndex r"
    by fastforce
  then have "line_offset bs ?s < line_offset bs (Suc s)" using range by simp
  with line_offset_cancel[OF ne, of ?s "Suc s"] g have s: "?s \<le> s" by simp
  have "ordered_between (line_offset bs ?s) (matchIndex r) (replacements g)"
    using ordered_between_upper[OF og low] ordered_between_bounds[OF o(1)] by blast
  moreover have "matchIndex r + matchLength r \<le> line_offset bs ?e"
    using range line_offset_mono[of e ?e bs] by simp
  ultimately have "ordered_between (line_offset bs ?s) (line_offset bs ?e) (replacements g @ [r])"
    using o(2) by (simp add: ordered_between_snoc)
  moreover have "(?s \<le> i \<and> i < ?e) \<longleftrightarrow> (\<exists>x \<in> set (replacements g @ [r]). touches bs x i)" if i: "i < length bs" for i
  proof -
    have "(\<exists>x \<in> set (replacements g @ [r]). touches bs x i) \<longleftrightarrow> (?s \<le> i \<and> i < endLine g) \<or> (s \<le> i \<and> i < e)"
      using touches_range[OF assms(2), folded bs_def, OF i] g(1) i by auto
    with s assms(7) range show ?thesis by auto
  qed
  ultimately show ?thesis using g range by (simp add: max.strict_coboundedI1)
qed

lemma add_to_groups_ok:
  fixes base :: js_string
  defines "bs \<equiv> splitLinesWithEndings base"
  assumes "add_to_groups (getLineSpans base) gs r = Inr gs'"
    and "groups_between bs 0 (length bs) gs" "\<forall>g \<in> set gs. replacements g \<noteq> []"
    and "ordered_between 0 q (concat (map replacements gs) @ [r])"
  shows "groups_between bs 0 (length bs) gs' \<and> (\<forall>g \<in> set gs'. replacements g \<noteq> [])
    \<and> concat (map replacements gs') = concat (map replacements gs) @ [r]"
proof -
  from assms(2) obtain s e where range: "getReplacementLineRange (getLineSpans base) r = Inr (s, e)"
    by (auto simp: add_to_groups_def)
  from assms(5) have o: "ordered_between 0 (matchIndex r) (concat (map replacements gs))" "0 \<le> matchLength r"
    by (auto simp: ordered_between_snoc)
  show ?thesis
  proof (cases "gs \<noteq> [] \<and> s < endLine (last gs)")
    case True
    let ?g = "last gs" and ?bl = "butlast gs"
    let ?g' = "?g\<lparr>endLine := max (endLine ?g) e, replacements := replacements ?g @ [r]\<rparr>"
    have gs: "gs = ?bl @ [?g]" using True by simp
    then have gs': "gs' = ?bl @ [?g']" using assms(2) True range by (simp add: add_to_groups_def Let_def)
    obtain m where m: "groups_between bs 0 m ?bl" "groups_between bs m (length bs) [?g]"
      using assms(3) gs groups_between_append by metis
    have reps: "concat (map replacements gs) = concat (map replacements ?bl) @ replacements ?g"
      by (subst gs) simp
    with o(1) obtain k where "ordered_between 0 k (concat (map replacements ?bl))"
      "ordered_between k (matchIndex r) (replacements ?g)"
      by (auto simp: ordered_between_append)
    then have "ordered_between 0 (matchIndex r) (replacements ?g)"
      by (meson order.refl ordered_between_le ordered_between_mono)
    from merged_group[OF range, folded bs_def, OF m(2) _ this o(2)] True assms(4)
    have "groups_between bs m (length bs) [?g']" by simp
    with m(1) have "groups_between bs 0 (length bs) gs'" unfolding gs' groups_between_append by blast
    moreover have "\<forall>g \<in> set gs'. replacements g \<noteq> []" using assms(4) gs' by (auto dest: in_set_butlastD)
    ultimately show ?thesis using reps gs' by simp
  next
    case False
    then have gs': "gs' = gs @ [\<lparr>startLine = s, endLine = e, replacements = [r]\<rparr>]"
      using assms(2) range by (auto simp: add_to_groups_def)
    have "groups_between bs 0 s gs"
      using False groups_between_last[OF assms(3)] by (cases "gs = []") auto
    with single_group[OF range o(2), of s, folded bs_def] have "groups_between bs 0 (length bs) gs'"
      unfolding gs' groups_between_append by blast
    with gs' assms(4) show ?thesis by simp
  qed
qed

lemma grouping_ok:
  fixes base :: js_string
  defines "bs \<equiv> splitLinesWithEndings base"
  assumes "rfold (add_to_groups (getLineSpans base)) gs rs = Inr gs'"
    and "groups_between bs 0 (length bs) gs" "\<forall>g \<in> set gs. replacements g \<noteq> []"
    and "ordered_between 0 q (concat (map replacements gs) @ rs)"
  shows "groups_between bs 0 (length bs) gs' \<and> concat (map replacements gs') = concat (map replacements gs) @ rs"
  using assms(2-)
proof (induction rs arbitrary: gs)
  case (Cons r rs)
  from Cons.prems(1) obtain gs1 where gs1: "add_to_groups (getLineSpans base) gs r = Inr gs1"
    "rfold (add_to_groups (getLineSpans base)) gs1 rs = Inr gs'" by auto
  from Cons.prems(4) have "\<exists>q'. ordered_between 0 q' (concat (map replacements gs) @ [r])"
    using ordered_between_append[of 0 q "concat (map replacements gs) @ [r]" rs] by auto
  with add_to_groups_ok[OF gs1(1), folded bs_def, OF Cons.prems(2,3)] have
    "groups_between bs 0 (length bs) gs1" "\<forall>g \<in> set gs1. replacements g \<noteq> []"
    "concat (map replacements gs1) = concat (map replacements gs) @ [r]" by blast+
  with Cons.IH[OF gs1(2)] Cons.prems(4) show ?case by simp
qed simp

section \<open>Writing the groups back\<close>

text \<open>
  What the last loop of \<^verbatim>\<open>applyReplacementsPreservingUnchangedLines\<close> writes from line \<open>i\<close> on: the lines \<open>ls\<close> outside of the
  groups, and the lines \<open>bs\<close> of the base inside of them with their replacements made.
\<close>

fun emitted :: "js_string list \<Rightarrow> js_string list \<Rightarrow> nat \<Rightarrow> 'a text_replacement_scheme line_group list \<Rightarrow> js_string" where
  "emitted ls bs i [] = concat (drop i ls)"
| "emitted ls bs i (g # gs) =
     concat (slice_list ls i (startLine g))
       @ weave (line_offset bs (startLine g)) (concat (slice_list bs (startLine g) (endLine g))) (replacements g)
       @ emitted ls bs (endLine g) gs"

lemma slice_split: "i \<le> j \<Longrightarrow> drop i xs = slice_list xs i j @ drop j xs"
  unfolding slice_list_def by (metis append_take_drop_id drop_drop le_add_diff_inverse2)

lemma length_slice_concat:
  "i \<le> j \<Longrightarrow> line_offset ls i + int (length (concat (slice_list ls i j))) = line_offset ls j"
proof -
  assume "i \<le> j"
  then have "take j ls = take i ls @ slice_list ls i j"
    unfolding slice_list_def by (metis le_add_diff_inverse take_add)
  then show ?thesis by (simp add: line_offset_def)
qed

lemma slice_concat:
  assumes "i \<le> j"
  shows "slice_list (concat ls) (nat (line_offset ls i)) (nat (line_offset ls j)) = concat (slice_list ls i j)"
proof -
  have "concat ls = concat (take i ls) @ concat (slice_list ls i j) @ concat (drop j ls)"
    using slice_split[OF assms, of ls] by (metis append_take_drop_id concat_append)
  moreover have "nat (line_offset ls j) - nat (line_offset ls i) = length (concat (slice_list ls i j))"
    using length_slice_concat[OF assms, of ls] by (simp add: line_offset_def)
  ultimately show ?thesis
    by (metis append_eq_conv_conj line_offset_def nat_int slice_list_def)
qed

lemma group_text:
  fixes base :: js_string
  defines "bs \<equiv> splitLinesWithEndings base"
  assumes "groups_between bs p (length bs) (g # gs)"
  shows "applyReplacements (slice_list base (nat (span_start (getLineSpans base ! startLine g)))
      (nat (span_end (getLineSpans base ! (endLine g - 1))))) (replacements g) (span_start (getLineSpans base ! startLine g))
    = weave (line_offset bs (startLine g)) (concat (slice_list bs (startLine g) (endLine g))) (replacements g)"
proof -
  from assms groups_between_le[of bs "endLine g" "length bs" gs]
  have g: "startLine g < endLine g" "endLine g \<le> length bs"
    "ordered_between (line_offset bs (startLine g)) (line_offset bs (endLine g)) (replacements g)" by auto
  then have spans: "span_start (getLineSpans base ! startLine g) = line_offset bs (startLine g)"
    "span_end (getLineSpans base ! (endLine g - 1)) = line_offset bs (endLine g)"
    by (simp_all add: nth_getLineSpans bs_def less_le_trans[OF g(1,2)[unfolded bs_def]])
  have "slice_list base (nat (line_offset bs (startLine g))) (nat (line_offset bs (endLine g)))
      = concat (slice_list bs (startLine g) (endLine g))"
    using slice_concat[of "startLine g" "endLine g" bs] g(1) by (simp add: bs_def concat_splitLines)
  with applyReplacements_weave[of "line_offset bs (startLine g)" "concat (slice_list bs (startLine g) (endLine g))"]
    length_slice_concat[of "startLine g" "endLine g" bs] g show ?thesis by (simp only: spans)
qed

lemma emit_groups:
  fixes base :: js_string
  defines "bs \<equiv> splitLinesWithEndings base"
  assumes "groups_between bs p (length bs) gs"
  shows "(let (i, result) = foldl (emit_group ls base (getLineSpans base)) (p, acc) gs in result @ concat (drop i ls))
    = acc @ emitted ls bs p gs"
  using assms(2)
proof (induction gs arbitrary: p acc)
  case (Cons g gs)
  from group_text[of base p g gs, folded bs_def, OF Cons.prems] have "emit_group ls base (getLineSpans base) (p, acc) g =
    (endLine g, acc @ concat (slice_list ls p (startLine g))
      @ weave (line_offset bs (startLine g)) (concat (slice_list bs (startLine g) (endLine g))) (replacements g))"
    by (simp add: emit_group_def Let_def)
  with Cons show ?case by simp
qed simp

lemma groups_ordered:
  "groups_between bs p q gs \<Longrightarrow> ordered_between (line_offset bs p) (line_offset bs q) (concat (map replacements gs))"
proof (induction gs arbitrary: p)
  case Nil
  then show ?case by (simp add: line_offset_mono)
next
  case (Cons g gs)
  then have "ordered_between (line_offset bs p) (line_offset bs (endLine g)) (replacements g)"
    by (auto intro: ordered_between_mono line_offset_mono)
  with Cons show ?case by (auto simp: ordered_between_append)
qed

lemma emitted_base:
  assumes "groups_between bs p (length bs) gs"
  shows "weave (line_offset bs p) (concat (drop p bs)) (concat (map replacements gs)) = emitted bs bs p gs"
  using assms
proof (induction gs arbitrary: p)
  case (Cons g gs)
  let ?s = "startLine g" and ?e = "endLine g"
  from Cons.prems have g: "p \<le> ?s" "?s < ?e" "groups_between bs ?e (length bs) gs"
    "ordered_between (line_offset bs ?s) (line_offset bs ?e) (replacements g)" by auto
  note o = groups_ordered[OF g(3)]
  have all: "ordered_between (line_offset bs ?s) (line_offset bs (length bs)) (replacements g @ concat (map replacements gs))"
    using g(4) o by (auto simp: ordered_between_append)
  have "concat (drop p bs) = concat (slice_list bs p ?s) @ concat (slice_list bs ?s ?e) @ concat (drop ?e bs)"
    using slice_split[OF g(1), of bs] slice_split[of ?s ?e bs] g(2) by simp
  moreover note off = length_slice_concat[OF g(1), of bs] length_slice_concat[OF less_imp_le[OF g(2)], of bs]
  ultimately show ?case
    using weave_prefix[of "line_offset bs p" "concat (slice_list bs p ?s)", unfolded off, OF all]
      weave_append[of "line_offset bs ?s" "concat (slice_list bs ?s ?e)", unfolded off, OF g(4) o]
      Cons.IH[OF g(3)] by simp
qed simp

definition covered :: "'a text_replacement_scheme line_group list \<Rightarrow> nat \<Rightarrow> bool" where
  "covered gs i = (\<exists>g \<in> set gs. startLine g \<le> i \<and> i < endLine g)"

lemma slice_nth: "j \<le> length xs \<Longrightarrow> slice_list xs i j = map ((!) xs) [i..<j]"
  by (rule nth_equalityI) (auto simp: slice_list_def)

lemma concat_single: "s < e \<Longrightarrow> concat (map (\<lambda>k. if k = s then w else []) [s..<e]) = w"
proof -
  assume "s < e"
  then have "[s..<e] = s # [Suc s..<e]" by (rule upt_conv_Cons)
  moreover have "map (\<lambda>k. if k = s then w else []) [Suc s..<e] = map (\<lambda>k. []) [Suc s..<e]" by (rule map_cong) auto
  ultimately show ?thesis by (simp add: concat_eq_Nil_conv del: map_eq_conv) 
qed

lemma groups_covered_from: "groups_between bs p q gs \<Longrightarrow> covered gs i \<Longrightarrow> p \<le> i"
  by (induction gs arbitrary: p) (fastforce simp: covered_def)+

lemma emitted_lines:
  assumes "groups_between bs p n gs"
  shows "\<exists>P. \<forall>ls. length ls = n \<longrightarrow> emitted ls bs p gs = concat (map (\<lambda>i. if covered gs i then P i else ls ! i) [p..<n])"
  using assms
proof (induction gs arbitrary: p)
  case Nil
  have "drop p ls = map ((!) ls) [p..<n]" if "length ls = n" for ls :: "js_string list"
    using that by (intro nth_equalityI) auto
  then show ?case by (simp add: covered_def)
next
  case (Cons g gs)
  let ?s = "startLine g" and ?e = "endLine g"
  let ?w = "weave (line_offset bs ?s) (concat (slice_list bs ?s ?e)) (replacements g)"
  from Cons.prems have g: "p \<le> ?s" "?s < ?e" "groups_between bs ?e n gs" by auto
  from groups_between_le[OF g(3)] have en: "?e \<le> n" .
  from Cons.IH[OF g(3)] obtain P where
    P: "\<And>ls. length ls = n \<Longrightarrow> emitted ls bs ?e gs = concat (map (\<lambda>i. if covered gs i then P i else ls ! i) [?e..<n])" by blast
  let ?P = "\<lambda>i. if i < ?e then (if i = ?s then ?w else []) else P i"
  have cov: "covered (g # gs) i \<longleftrightarrow> (if i < ?e then ?s \<le> i else covered gs i)" for i
  proof -
    have "covered (g # gs) i \<longleftrightarrow> (?s \<le> i \<and> i < ?e) \<or> covered gs i" by (simp add: covered_def)
    with groups_covered_from[OF g(3), of i] g(2) show ?thesis by auto
  qed
  have "emitted ls bs p (g # gs) = concat (map (\<lambda>i. if covered (g # gs) i then ?P i else ls ! i) [p..<n])"
    if ls: "length ls = n" for ls
  proof -
    let ?f = "\<lambda>i. if covered (g # gs) i then ?P i else ls ! i"
    have "[p..<n] = [p..<?s] @ [?s..<?e] @ [?e..<n]"
      using g en by (metis le_add_diff_inverse less_imp_le order.trans upt_add_eq_append)
    moreover have "map ?f [p..<?s] = slice_list ls p ?s"
      using g en ls by (subst slice_nth) (auto simp: cov)
    moreover have "map ?f [?s..<?e] = map (\<lambda>k. if k = ?s then ?w else []) [?s..<?e]"
      by (rule map_cong) (auto simp: cov)
    moreover have "map ?f [?e..<n] = map (\<lambda>i. if covered gs i then P i else ls ! i) [?e..<n]"
      by (rule map_cong) (auto simp: cov)
    ultimately show ?thesis using P[OF ls] concat_single[OF g(2), of ?w] by (simp del: map_eq_conv)
  qed
  then show ?case by (intro exI[of _ ?P]) blast
qed

section \<open>Fuzzy edits\<close>

lemma sort_key_sorted: "sorted (map f xs) \<Longrightarrow> sort_key f xs = xs"
  by (induction xs) (auto simp: insort_is_Cons)

lemma covered_touches:
  "i < length bs \<Longrightarrow> groups_between bs p q gs \<Longrightarrow>
   covered gs i \<longleftrightarrow> (\<exists>r \<in> set (concat (map replacements gs)). touches bs r i)"
proof (induction gs arbitrary: p)
  case (Cons g gs)
  have "covered (g # gs) i \<longleftrightarrow> (startLine g \<le> i \<and> i < endLine g) \<or> covered gs i" by (simp add: covered_def)
  with Cons.IH[of "endLine g"] Cons.prems show ?case by (simp add: bex_Un del: set_concat)
qed (simp add: covered_def)

lemma preserving_ok:
  fixes rs :: "matched_edit list"
  assumes "applyReplacementsPreservingUnchangedLines original base rs = Inr new"
    and "sorted (map matchIndex rs)" "ordered_between 0 q rs"
  shows "length (splitLinesWithEndings original) = length (splitLinesWithEndings base)
    \<and> (\<exists>P. new = concat (map (\<lambda>i. if \<exists>r \<in> set rs. touches (splitLinesWithEndings base) r i then P i
                                 else splitLinesWithEndings original ! i) [0..<length (splitLinesWithEndings base)])
         \<and> weave 0 base rs = concat (map (\<lambda>i. if \<exists>r \<in> set rs. touches (splitLinesWithEndings base) r i then P i
                                 else splitLinesWithEndings base ! i) [0..<length (splitLinesWithEndings base)]))"
proof -
  let ?ls = "splitLinesWithEndings original" and ?bs = "splitLinesWithEndings base"
  have sorted: "sort_key matchIndex rs = rs" using assms(2) by (rule sort_key_sorted)
  from assms(1) obtain gs where len: "length ?ls = length ?bs"
    and gs: "rfold (add_to_groups (getLineSpans base)) [] rs = Inr gs"
    and new: "(let (i, result) = foldl (emit_group ?ls base (getLineSpans base)) (0, []) gs in result @ concat (drop i ?ls)) = new"
    by (auto simp: applyReplacementsPreservingUnchangedLines_def Let_def sorted case_prod_unfold split: if_splits)
  from grouping_ok[OF gs] assms(3) have g: "groups_between ?bs 0 (length ?bs) gs" "concat (map replacements gs) = rs"
    by auto
  have new': "new = emitted ?ls ?bs 0 gs"
    using emit_groups[OF g(1), of ?ls "[]"] new by simp
  have base': "weave 0 base rs = emitted ?bs ?bs 0 gs"
    using emitted_base[OF g(1)] g(2) by (simp add: concat_splitLines)
  have cov: "covered gs i \<longleftrightarrow> (\<exists>r \<in> set rs. touches ?bs r i)" if "i < length ?bs" for i
    using covered_touches[OF that g(1)] g(2) by simp
  from emitted_lines[OF g(1)] obtain P where P: "\<And>ls. length ls = length ?bs \<Longrightarrow>
    emitted ls ?bs 0 gs = concat (map (\<lambda>i. if covered gs i then P i else ls ! i) [0..<length ?bs])" by blast
  have "emitted ls ?bs 0 gs = concat (map (\<lambda>i. if \<exists>r \<in> set rs. touches ?bs r i then P i else ls ! i) [0..<length ?bs])"
    if "length ls = length ?bs" for ls
    unfolding P[OF that] by (intro arg_cong[of _ _ concat] map_cong) (auto simp: cov)
  from this[OF len] this[OF refl] show ?thesis
    by (intro conjI len exI[of _ P]) (simp_all only: new' base')
qed

text \<open>C8: A fuzzy edit rewrites only the lines it touches.  When an old text is only found in the normalized view of the
  file and the call succeeds, the old texts stand in that view without overlap and \<open>edited\<close> is the view with
  the new texts in their places; the new content has, line by line, what \<open>edited\<close> has for the lines a match touches, and
  the bytes of the file for every other line.\<close>

theorem fuzzy_edits_keep_lines:
  assumes "applyEditsToNormalizedContent nfkc content edits path = Inr (b, new)"
    and "needs_fuzzy nfkc content edits"
    and "view = normalizeForFuzzyMatch nfkc content" and "normalizeForFuzzyMatch nfkc view = view"
  shows "\<exists>ms edited P g pieces.
    match_edits nfkc view path (length edits) 0 (map normalize_edit edits) = Inr ms
    \<and> mset (map fst pieces) = mset (map normalize_edit edits)
    \<and> view = g @ concat (map (\<lambda>(e, x). (if sublist (oldText e) view then oldText e
                                        else normalizeForFuzzyMatch nfkc (oldText e)) @ x) pieces)
    \<and> edited = g @ concat (map (\<lambda>(e, x). edit_newText e @ x) pieces)
    \<and> edited = concat (map (\<lambda>i. if \<exists>m \<in> set ms. touches (splitLinesWithEndings view) m i then P i
                               else splitLinesWithEndings view ! i) [0..<length (splitLinesWithEndings view)])
    \<and> new = concat (map (\<lambda>i. if \<exists>m \<in> set ms. touches (splitLinesWithEndings view) m i then P i
                            else splitLinesWithEndings content ! i) [0..<length (splitLinesWithEndings content)])"
proof -
  let ?f = "\<lambda>e. if sublist (oldText e) view then oldText e else normalizeForFuzzyMatch nfkc (oldText e)"
  from applyEdits_ok[OF assms(1)] obtain ms where
    ne: "\<forall>e \<in> set (map normalize_edit edits). oldText e \<noteq> []"
    and ms: "match_edits nfkc view path (length edits) 0 (map normalize_edit edits) = Inr ms"
    and d: "check_disjoint path (sort_key matchIndex ms) = Inr ()"
    and new: "applyReplacementsPreservingUnchangedLines content view (sort_key matchIndex ms) = Inr new"
    using assms(2,3) by (simp add: edit_base_def) blast
  have "list_all2 (\<lambda>e m. occurs_at 0 view m (?f e) \<and> newText m = edit_newText e) (map normalize_edit edits) ms"
  proof (rule list.rel_mono_strong[OF match_edits_ok[OF ms]])
    fix e m assume e: "e \<in> set (map normalize_edit edits)" "\<exists>j. match_edit nfkc view path (length edits) j e = Inr m"
    then obtain j where j: "match_edit nfkc view path (length edits) j e = Inr m" by blast
    show "occurs_at 0 view m (?f e) \<and> newText m = edit_newText e"
    proof (cases "indexOf view (oldText e)")
      case None
      then have "\<not> sublist (oldText e) view" using indexOf_sublist[of view "oldText e"] by simp
      with j None assms(4) show ?thesis
        by (auto simp: match_edit_def fuzzyFindText_def Let_def intro!: indexOf_occurs split: if_splits option.splits)
    next
      case (Some i)
      then have "sublist (oldText e) view" using indexOf_sublist[of view "oldText e"] by auto
      with j Some show ?thesis
        by (auto simp: match_edit_def fuzzyFindText_def Let_def intro!: indexOf_occurs split: if_splits)
    qed
  qed
  from matched_pieces[OF this d] obtain g pieces where
    o: "ordered_between 0 (int (length view)) (sort_key matchIndex ms)"
    and p: "mset (map fst pieces) = mset (map normalize_edit edits)"
      "view = g @ concat (map (\<lambda>(e, x). ?f e @ x) pieces)"
      "weave 0 view (sort_key matchIndex ms) = g @ concat (map (\<lambda>(e, x). edit_newText e @ x) pieces)" by blast
  from preserving_ok[OF new _ o] obtain P where len: "length (splitLinesWithEndings content) = length (splitLinesWithEndings view)"
    and P: "new = concat (map (\<lambda>i. if \<exists>r \<in> set ms. touches (splitLinesWithEndings view) r i then P i
                                 else splitLinesWithEndings content ! i) [0..<length (splitLinesWithEndings view)])"
      "weave 0 view (sort_key matchIndex ms) = concat (map (\<lambda>i. if \<exists>r \<in> set ms. touches (splitLinesWithEndings view) r i then P i
                                 else splitLinesWithEndings view ! i) [0..<length (splitLinesWithEndings view)])"
    by auto
  show ?thesis
    by (intro exI[of _ ms] exI[of _ "weave 0 view (sort_key matchIndex ms)"] exI[of _ P] exI[of _ g] exI[of _ pieces] conjI)
      (use ms p P len in auto)
qed

section \<open>When a fuzzy edit fails\<close>

lemma grouping_total:
  fixes base :: js_string and rs :: "'a text_replacement_scheme list"
  assumes "\<forall>r \<in> set rs. 0 \<le> matchIndex r \<and> matchIndex r < int (length base) \<and> 0 \<le> matchLength r
    \<and> matchIndex r + matchLength r \<le> int (length base)"
  shows "\<exists>gs'. rfold (add_to_groups (getLineSpans base)) gs rs = Inr gs'"
  using assms
proof (induction rs arbitrary: gs)
  case (Cons r rs)
  from Cons.prems line_range_exists[of r base] obtain s e where
    "getReplacementLineRange (getLineSpans base) r = Inr (s, e)" by auto
  then obtain gs1 where "add_to_groups (getLineSpans base) gs r = Inr gs1"
    by (cases "gs \<noteq> [] \<and> s < endLine (last gs)") (auto simp: add_to_groups_def Let_def)
  with Cons show ?case by simp
qed simp

lemma preserving_total:
  fixes base :: js_string and rs :: "matched_edit list"
  assumes "length (splitLinesWithEndings original) = length (splitLinesWithEndings base)"
    and "\<forall>r \<in> set rs. 0 \<le> matchIndex r \<and> matchIndex r < int (length base) \<and> 0 \<le> matchLength r
    \<and> matchIndex r + matchLength r \<le> int (length base)"
  shows "\<exists>new. applyReplacementsPreservingUnchangedLines original base rs = Inr new"
  using grouping_total[of "sort_key matchIndex rs" base "[]"] assms
  by (auto simp: applyReplacementsPreservingUnchangedLines_def Let_def case_prod_unfold)

lemma indexOf_inside: "indexOf s t = Some i \<Longrightarrow> s \<noteq> [] \<Longrightarrow> i < length s"
  using indexOf_prefix[of s t i]
  by (cases t; cases s) auto

lemma match_edit_inside:
  assumes "match_edit nfkc view path n j e = Inr m" "normalizeForFuzzyMatch nfkc view = view" "view \<noteq> []"
  shows "0 \<le> matchIndex m \<and> matchIndex m < int (length view) \<and> 0 \<le> matchLength m
    \<and> matchIndex m + matchLength m \<le> int (length view)"
  using assms indexOf_inside[of view] indexOf_prefix[of view]
  by (fastforce simp: match_edit_def fuzzyFindText_def Let_def split: if_splits option.splits)

text \<open>A fuzzy edit fails inside the tool exactly when the file ends in a blank line without a line feed.  Let the normal
  form work line by line and the normalized view of the file be stable and not empty.  Once the old texts are
  found there, each once and without overlap, the call ends with the internal error about line counts when the file ends
  in white space after its last line feed; otherwise it returns the new content, or reports that nothing changed.\<close>

theorem fuzzy_edit_blank_tail:
  assumes "nfkc_lines nfkc" and "needs_fuzzy nfkc content edits"
    and "view = normalizeForFuzzyMatch nfkc content" and "normalizeForFuzzyMatch nfkc view = view" and "view \<noteq> []"
    and "\<forall>e \<in> set edits. normalizeToLF (oldText e) \<noteq> []"
    and "match_edits nfkc view path (length edits) 0 (map normalize_edit edits) = Inr ms"
    and "check_disjoint path (sort_key matchIndex ms) = Inr ()"
  shows "if blank_tail nfkc content
    then applyEditsToNormalizedContent nfkc content edits path = Inl LineCountError
    else applyEditsToNormalizedContent nfkc content edits path = Inl (NoChangeError path (length edits))
      \<or> (\<exists>new. applyEditsToNormalizedContent nfkc content edits path = Inr (content, new))"
proof -
  let ?ms = "sort_key matchIndex ms"
  have nf: "list_ex (\<lambda>e. usedFuzzyMatch (fuzzyFindText nfkc content (oldText e))) (map normalize_edit edits)"
    using assms(2) by (simp add: needs_fuzzy_def)
  have "check_old_texts path (length edits) 0 (map normalize_edit edits) = Inr ()"
    using assms(6) by (auto simp: check_old_texts_ok normalize_edit_def)
  then have eq: "applyEditsToNormalizedContent nfkc content edits path =
    rbind (applyReplacementsPreservingUnchangedLines content view ?ms)
      (\<lambda>new. if content = new then Inl (NoChangeError path (length edits)) else Inr (content, new))"
    using nf assms(3,7,8) by (simp add: applyEditsToNormalizedContent_def Let_def cong: if_cong)
  show ?thesis
  proof (cases "blank_tail nfkc content")
    case True
    with fuzzy_line_count[OF assms(1), of content] have
      "length (splitLinesWithEndings content) \<noteq> length (splitLinesWithEndings view)" by (simp add: assms(3))
    then have "applyReplacementsPreservingUnchangedLines content view ?ms = Inl LineCountError"
      by (simp add: applyReplacementsPreservingUnchangedLines_def)
    with eq True show ?thesis by simp
  next
    case False
    with fuzzy_line_count[OF assms(1), of content] have
      len: "length (splitLinesWithEndings content) = length (splitLinesWithEndings view)" by (simp add: assms(3))
    have "0 \<le> matchIndex m \<and> matchIndex m < int (length view) \<and> 0 \<le> matchLength m
        \<and> matchIndex m + matchLength m \<le> int (length view)" if "m \<in> set ms" for m
    proof -
      from match_edits_ok[OF assms(7)] that obtain e j where "match_edit nfkc view path (length edits) j e = Inr m"
        by (auto simp: list_all2_conv_all_nth in_set_conv_nth)
      with match_edit_inside assms(4,5) show ?thesis by blast
    qed
    then obtain new where "applyReplacementsPreservingUnchangedLines content view ?ms = Inr new"
      using preserving_total[OF len, of ?ms] by auto
    with eq False show ?thesis by auto
  qed
qed

section \<open>Line endings\<close>

text \<open>Every line feed of the text follows a carriage return, and every carriage return precedes one.\<close>

fun all_crlf :: "js_string \<Rightarrow> bool" where
  "all_crlf [] = True"
| "all_crlf (c # s) =
     (if c = CR then (case s of [] \<Rightarrow> False | d # s' \<Rightarrow> d = LF \<and> all_crlf s') else c \<noteq> LF \<and> all_crlf s)"

lemma CR_LF [simp]: "CR \<noteq> LF" "LF \<noteq> CR"
  by (simp_all add: CR_def LF_def)

lemma replace_crlf_no_cr: "CR \<notin> set s \<Longrightarrow> replace_crlf s = s"
  by (induction s rule: replace_crlf.induct) auto

lemma normalizeToLF_plain: "CR \<notin> set s \<Longrightarrow> normalizeToLF s = s"
  by (auto simp: normalizeToLF_def replace_crlf_no_cr intro!: map_idI)

lemma normalizeToLF_no_cr: "CR \<notin> set (normalizeToLF s)"
  by (auto simp: normalizeToLF_def)

lemma normalizeToLF_crlf: "all_crlf s \<Longrightarrow> restoreLineEndings (normalizeToLF s) CRLF_Ending = s"
proof (induction s rule: replace_crlf.induct)
  case (1 c d s)
  then show ?case by (auto simp: normalizeToLF_def restoreLineEndings_def split: if_splits)
qed (auto simp: normalizeToLF_def restoreLineEndings_def split: if_splits)

lemma restored_crlf: "CR \<notin> set s \<Longrightarrow> all_crlf (restoreLineEndings s CRLF_Ending)"
  by (induction s) (auto simp: restoreLineEndings_def)

lemma restored_view: "CR \<notin> set s \<Longrightarrow> normalizeToLF (restoreLineEndings s e) = s"
proof (cases "e = CRLF_Ending")
  case True
  assume "CR \<notin> set s"
  then have "normalizeToLF (restoreLineEndings s CRLF_Ending) = s"
  proof (induction s)
    case (Cons c s)
    then show ?case
      by (cases s) (auto simp: normalizeToLF_def restoreLineEndings_def)
  qed (simp add: normalizeToLF_def restoreLineEndings_def)
  with True show ?thesis by simp
qed (simp add: restoreLineEndings_def normalizeToLF_plain)

lemma indexOf_single: "x \<notin> set a \<Longrightarrow> indexOf (a @ x # b) [x] = Some (length a)"
  by (induction a) auto

lemma indexOf_pair: "x \<notin> set a \<Longrightarrow> indexOf (a @ x # y # b) [x, y] = Some (length a)"
  by (induction a) auto

lemma all_crlf_first:
  "all_crlf s \<Longrightarrow> CR \<notin> set s \<and> LF \<notin> set s \<or> (\<exists>a b. s = a @ CR # LF # b \<and> CR \<notin> set a \<and> LF \<notin> set a)"
proof (induction s)
  case (Cons c s)
  show ?case
  proof (cases "c = CR")
    case True
    with Cons.prems obtain b where "c # s = [] @ CR # LF # b" by (auto split: list.splits)
    then show ?thesis by (metis empty_iff list.set(1))
  next
    case False
    with Cons consider "CR \<notin> set s" "LF \<notin> set s" | a b where "s = a @ CR # LF # b" "CR \<notin> set a" "LF \<notin> set a" by auto
    then show ?thesis
    proof cases
      case 2
      with False Cons.prems show ?thesis by (intro disjI2 exI[of _ "c # a"] exI[of _ b]) auto
    qed (use False Cons.prems in auto)
  qed
qed simp

lemma detect_crlf: "all_crlf s \<Longrightarrow> LF \<in> set s \<Longrightarrow> detectLineEnding s = CRLF_Ending"
proof -
  assume "all_crlf s" "LF \<in> set s"
  with all_crlf_first obtain a b where s: "s = a @ CR # LF # b" "CR \<notin> set a" "LF \<notin> set a" by blast
  have "indexOf s [CR, LF] = Some (length a)" unfolding s(1) by (rule indexOf_pair[OF s(2)])
  moreover have "indexOf s [LF] = Some (Suc (length a))"
    using indexOf_single[of LF "a @ [CR]" b] s by simp
  ultimately show ?thesis by (simp add: detectLineEnding_def)
qed

lemma detect_plain: "CR \<notin> set s \<Longrightarrow> detectLineEnding s = LF_Ending"
proof -
  assume "CR \<notin> set s"
  then have "indexOf s [CR, LF] = None" by (auto simp: indexOf_None)
  then show ?thesis by (simp add: detectLineEnding_def split: option.split)
qed

text \<open>Line endings come back.  A file whose lines all end the same way, all in CR LF or all in LF, is what
  \<^verbatim>\<open>restoreLineEndings\<close> makes of its normalized text and the ending detected in it.\<close>

theorem line_endings_restored:
  assumes "all_crlf s \<or> CR \<notin> set s"
  shows "restoreLineEndings (normalizeToLF s) (detectLineEnding s) = s"
proof (cases "CR \<in> set s")
  case True
  with assms all_crlf_first[of s] have "all_crlf s" "LF \<in> set s" by auto
  then show ?thesis by (simp add: detect_crlf normalizeToLF_crlf)
next
  case False
  then show ?thesis by (simp add: detect_plain normalizeToLF_plain restoreLineEndings_def)
qed

section \<open>A file with a typographic quote\<close>

lemma nfkc_wide_lines: "nfkc_lines nfkc_wide"
proof -
  have "c - 0xFEE0 \<noteq> LF" if "0xFF01 \<le> c" for c :: code_unit
  proof
    assume "c - 0xFEE0 = LF"
    then have "c = 0xFEEA" by (simp add: LF_def diff_eq_eq)
    with that show False by simp
  qed
  then show ?thesis by (auto simp: nfkc_lines_def nfkc_wide_def LF_def)
qed

text \<open>A file with a typographic quote in one line and a trailing space in the next, and an edit that has the ASCII quote.\<close>

definition quoted_file :: js_string where
  "quoted_file = [0x61, 0x2019, 0x73, LF, 0x62, 0x20, LF]"

definition quote_edits :: "edit list" where
  "quote_edits = [\<lparr>oldText = [0x61, 0x27, 0x73], edit_newText = [0x63]\<rparr>]"

definition quoted_view :: js_string where
  "quoted_view = [0x61, 0x27, 0x73, LF, 0x62, LF]"

theorem fuzzy_edits_keep_lines_witness:
  "applyEditsToNormalizedContent nfkc_wide quoted_file quote_edits [] = Inr (quoted_file, [0x63, LF, 0x62, 0x20, LF])
   \<and> (\<exists>ms edited P g pieces.
    match_edits nfkc_wide quoted_view [] (length quote_edits) 0 (map normalize_edit quote_edits) = Inr ms
    \<and> mset (map fst pieces) = mset (map normalize_edit quote_edits)
    \<and> quoted_view = g @ concat (map (\<lambda>(e, x). (if sublist (oldText e) quoted_view then oldText e
                                        else normalizeForFuzzyMatch nfkc_wide (oldText e)) @ x) pieces)
    \<and> edited = g @ concat (map (\<lambda>(e, x). edit_newText e @ x) pieces)
    \<and> edited = concat (map (\<lambda>i. if \<exists>m \<in> set ms. touches (splitLinesWithEndings quoted_view) m i then P i
                               else splitLinesWithEndings quoted_view ! i) [0..<length (splitLinesWithEndings quoted_view)])
    \<and> [0x63, LF, 0x62, 0x20, LF] =
        concat (map (\<lambda>i. if \<exists>m \<in> set ms. touches (splitLinesWithEndings quoted_view) m i then P i
                            else splitLinesWithEndings quoted_file ! i) [0..<length (splitLinesWithEndings quoted_file)]))"
proof -
  have ok: "applyEditsToNormalizedContent nfkc_wide quoted_file quote_edits [] = Inr (quoted_file, [0x63, LF, 0x62, 0x20, LF])"
    by code_simp
  have "needs_fuzzy nfkc_wide quoted_file quote_edits" "quoted_view = normalizeForFuzzyMatch nfkc_wide quoted_file"
    "normalizeForFuzzyMatch nfkc_wide quoted_view = quoted_view" by code_simp+
  from fuzzy_edits_keep_lines[OF ok this] ok show ?thesis by (intro conjI)
qed

text \<open>The same file with a space after its last line feed.\<close>

theorem fuzzy_edit_blank_tail_witness:
  "applyEditsToNormalizedContent nfkc_wide (quoted_file @ [0x20]) quote_edits [] = Inl LineCountError"
proof -
  let ?m = "\<lparr>matchIndex = 0, matchLength = 3, newText = [0x63], editIndex = 0\<rparr>"
  have h: "needs_fuzzy nfkc_wide (quoted_file @ [0x20]) quote_edits"
    "quoted_view = normalizeForFuzzyMatch nfkc_wide (quoted_file @ [0x20])"
    "normalizeForFuzzyMatch nfkc_wide quoted_view = quoted_view" "quoted_view \<noteq> []"
    "\<forall>e \<in> set quote_edits. normalizeToLF (oldText e) \<noteq> []"
    "match_edits nfkc_wide quoted_view [] (length quote_edits) 0 (map normalize_edit quote_edits) = Inr [?m]"
    "check_disjoint [] (sort_key matchIndex [?m]) = Inr ()" by code_simp+
  have "blank_tail nfkc_wide (quoted_file @ [0x20])" by code_simp
  with fuzzy_edit_blank_tail[OF nfkc_wide_lines h] show ?thesis by simp
qed

theorem line_endings_restored_witness:
  "restoreLineEndings (normalizeToLF [0x61, CR, LF, 0x62]) (detectLineEnding [0x61, CR, LF, 0x62]) = [0x61, CR, LF, 0x62]"
proof (rule line_endings_restored)
  show "all_crlf [0x61, CR, LF, 0x62] \<or> CR \<notin> set [0x61, CR, LF, 0x62]" by code_simp
qed

end
