(* ===== verification/Edit_Display.thy ===== *)
theory Edit_Display
  imports Edit_Diff
begin

text \<open>
  The diff that the edit tool shows (\<^verbatim>\<open>generateDiffString\<close> of \<^verbatim>\<open>harness/tools/edit-diff.ts\<close>).  The parts of the change come
  from \<^verbatim>\<open>Diff.diffLines\<close> of the package \<^verbatim>\<open>diff\<close>, which is the argument \<open>diffLines\<close>.
\<close>

section \<open>Rows\<close>

record diff_part =
  part_value :: js_string
  part_added :: bool
  part_removed :: bool

datatype diff_row =
    AddedRow nat js_string
  | RemovedRow nat js_string
  | ContextRow nat js_string
  | GapRow

definition padStart :: "js_string \<Rightarrow> nat \<Rightarrow> js_string" where
  "padStart s width = replicate (width - length s) 0x20 @ s"

fun render_row :: "nat \<Rightarrow> diff_row \<Rightarrow> js_string" where
  "render_row width (AddedRow n line) = [0x2B] @ padStart (ascii_units (nat_to_string n)) width @ [0x20] @ line"
| "render_row width (RemovedRow n line) = [0x2D] @ padStart (ascii_units (nat_to_string n)) width @ [0x20] @ line"
| "render_row width (ContextRow n line) = [0x20] @ padStart (ascii_units (nat_to_string n)) width @ [0x20] @ line"
| "render_row width GapRow = [0x20] @ padStart [] width @ ascii_units '' ...''"

section \<open>The loop over the parts\<close>

record diff_state =
  diff_output :: "diff_row list"
  oldLineNum :: nat
  newLineNum :: nat
  lastWasChange :: bool
  firstChangedLine :: "nat option"

definition is_change :: "diff_part \<Rightarrow> bool" where
  "is_change p = (part_added p \<or> part_removed p)"

definition raw_lines :: "js_string \<Rightarrow> js_string list" where
  "raw_lines v = (let raw = js_split LF v in if last raw = [] then butlast raw else raw)"

definition push_added :: "diff_state \<Rightarrow> js_string \<Rightarrow> diff_state" where
  "push_added st line =
     st\<lparr>diff_output := diff_output st @ [AddedRow (newLineNum st) line], newLineNum := newLineNum st + 1\<rparr>"

definition push_removed :: "diff_state \<Rightarrow> js_string \<Rightarrow> diff_state" where
  "push_removed st line =
     st\<lparr>diff_output := diff_output st @ [RemovedRow (oldLineNum st) line], oldLineNum := oldLineNum st + 1\<rparr>"

definition push_context :: "diff_state \<Rightarrow> js_string \<Rightarrow> diff_state" where
  "push_context st line =
     st\<lparr>diff_output := diff_output st @ [ContextRow (oldLineNum st) line],
        oldLineNum := oldLineNum st + 1, newLineNum := newLineNum st + 1\<rparr>"

definition skip_lines :: "nat \<Rightarrow> diff_state \<Rightarrow> diff_state" where
  "skip_lines k st = st\<lparr>oldLineNum := oldLineNum st + k, newLineNum := newLineNum st + k\<rparr>"

definition push_gap :: "nat \<Rightarrow> diff_state \<Rightarrow> diff_state" where
  "push_gap k st = skip_lines k (st\<lparr>diff_output := diff_output st @ [GapRow]\<rparr>)"

definition change_part :: "diff_part \<Rightarrow> diff_state \<Rightarrow> diff_state" where
  "change_part p st =
     (let st1 = (if firstChangedLine st = None then st\<lparr>firstChangedLine := Some (newLineNum st)\<rparr> else st);
          st2 = foldl (if part_added p then push_added else push_removed) st1 (raw_lines (part_value p))
      in st2\<lparr>lastWasChange := True\<rparr>)"

definition context_part :: "nat \<Rightarrow> diff_part \<Rightarrow> bool \<Rightarrow> diff_state \<Rightarrow> diff_state" where
  "context_part contextLines p hasTrailingChange st =
     (let raw = raw_lines (part_value p); hasLeadingChange = lastWasChange st;
          st1 =
            (if hasLeadingChange \<and> hasTrailingChange then
               (if length raw \<le> contextLines * 2 then foldl push_context st raw
                else
                  (let leadingLines = take contextLines raw; trailingLines = drop (length raw - contextLines) raw;
                       skippedLines = length raw - length leadingLines - length trailingLines
                   in foldl push_context (push_gap skippedLines (foldl push_context st leadingLines)) trailingLines))
             else if hasLeadingChange then
               (let shownLines = take contextLines raw; skippedLines = length raw - length shownLines;
                    st' = foldl push_context st shownLines
                in if 0 < skippedLines then push_gap skippedLines st' else st')
             else if hasTrailingChange then
               (let skippedLines = length raw - contextLines;
                    st' = (if 0 < skippedLines then push_gap skippedLines st else st)
                in foldl push_context st' (drop skippedLines raw))
             else skip_lines (length raw) st)
      in st1\<lparr>lastWasChange := False\<rparr>)"

fun diff_loop :: "nat \<Rightarrow> diff_part list \<Rightarrow> diff_state \<Rightarrow> diff_state" where
  "diff_loop contextLines [] st = st"
| "diff_loop contextLines (p # ps) st =
     diff_loop contextLines ps
       (if is_change p then change_part p st
        else context_part contextLines p (case ps of [] \<Rightarrow> False | q # _ \<Rightarrow> is_change q) st)"

definition diff_start :: diff_state where
  "diff_start = \<lparr>diff_output = [], oldLineNum = 1, newLineNum = 1, lastWasChange = False, firstChangedLine = None\<rparr>"

definition generateDiffString ::
  "(js_string \<Rightarrow> js_string \<Rightarrow> diff_part list) \<Rightarrow> js_string \<Rightarrow> js_string \<Rightarrow> nat \<Rightarrow> js_string \<times> nat option" where
  "generateDiffString diffLines oldContent newContent contextLines =
     (let maxLineNum = max (length (js_split LF oldContent)) (length (js_split LF newContent));
          lineNumWidth = length (nat_to_string maxLineNum);
          st = diff_loop contextLines (diffLines oldContent newContent) diff_start
      in (js_join [LF] (map (render_row lineNumWidth) (diff_output st)), firstChangedLine st))"

section \<open>What the rows show\<close>

text \<open>A row shows the line of its number: of the new text for an addition, of the old text otherwise.\<close>

fun row_shows :: "js_string list \<Rightarrow> js_string list \<Rightarrow> diff_row \<Rightarrow> bool" where
  "row_shows olds news (AddedRow n line) = (0 < n \<and> n \<le> length news \<and> news ! (n - 1) = line)"
| "row_shows olds news (RemovedRow n line) = (0 < n \<and> n \<le> length olds \<and> olds ! (n - 1) = line)"
| "row_shows olds news (ContextRow n line) = (0 < n \<and> n \<le> length olds \<and> olds ! (n - 1) = line)"
| "row_shows olds news GapRow = True"

definition added_lines :: "diff_row list \<Rightarrow> js_string list" where
  "added_lines rows = concat (map (\<lambda>r. case r of AddedRow n l \<Rightarrow> [l] | _ \<Rightarrow> []) rows)"

definition removed_lines :: "diff_row list \<Rightarrow> js_string list" where
  "removed_lines rows = concat (map (\<lambda>r. case r of RemovedRow n l \<Rightarrow> [l] | _ \<Rightarrow> []) rows)"

text \<open>The texts agree before the first changed line; without one they agree altogether.\<close>

definition agree_before :: "nat option \<Rightarrow> js_string list \<Rightarrow> js_string list \<Rightarrow> bool" where
  "agree_before c olds news =
     (case c of
        None \<Rightarrow> olds = news
      | Some n \<Rightarrow> 0 < n \<and> n \<le> Suc (length olds) \<and> n \<le> Suc (length news) \<and> take (n - 1) olds = take (n - 1) news)"

text \<open>
  The invariant of the loop: \<open>olds\<close> and \<open>news\<close> are the lines of the parts behind it.
\<close>

definition diff_inv :: "js_string list \<Rightarrow> js_string list \<Rightarrow> diff_state \<Rightarrow> bool" where
  "diff_inv olds news st =
     (oldLineNum st = Suc (length olds) \<and> newLineNum st = Suc (length news)
      \<and> (\<forall>r \<in> set (diff_output st). row_shows olds news r) \<and> agree_before (firstChangedLine st) olds news)"

lemma row_shows_append: "row_shows olds news r \<Longrightarrow> row_shows (olds @ xs) (news @ ys) r"
  by (cases r) (auto simp: nth_append)

lemma agree_before_append:
  "agree_before c olds news \<Longrightarrow> xs = ys \<or> c \<noteq> None \<Longrightarrow> agree_before c (olds @ xs) (news @ ys)"
  by (cases c) (auto simp: agree_before_def)

lemma skip_lines_inv: "diff_inv olds news st \<Longrightarrow> diff_inv (olds @ ls) (news @ ls) (skip_lines (length ls) st)"
  using agree_before_append[of "firstChangedLine st" olds news ls ls]
  by (auto simp: diff_inv_def skip_lines_def row_shows_append)

lemma push_gap_inv: "diff_inv olds news st \<Longrightarrow> diff_inv (olds @ ls) (news @ ls) (push_gap (length ls) st)"
  unfolding push_gap_def by (rule skip_lines_inv) (auto simp: diff_inv_def)

lemma push_context_inv:
  "diff_inv olds news st \<Longrightarrow> diff_inv (olds @ ls) (news @ ls) (foldl push_context st ls)"
proof (induction ls arbitrary: olds news st)
  case (Cons l ls)
  have "diff_inv (olds @ [l]) (news @ [l]) (push_context st l)"
    using Cons.prems agree_before_append[of "firstChangedLine st" olds news "[l]" "[l]"]
    by (auto simp: diff_inv_def push_context_def row_shows_append nth_append)
  from Cons.IH[OF this] show ?case by simp
qed simp

lemma push_added_inv:
  "diff_inv olds news st \<Longrightarrow> firstChangedLine st \<noteq> None \<Longrightarrow> diff_inv olds (news @ ls) (foldl push_added st ls)"
proof (induction ls arbitrary: news st)
  case (Cons l ls)
  have "diff_inv olds (news @ [l]) (push_added st l)"
    using Cons.prems agree_before_append[of "firstChangedLine st" olds news "[]" "[l]"] row_shows_append[of olds news _ "[]" "[l]"]
    by (auto simp: diff_inv_def push_added_def nth_append)
  from Cons.IH[OF this] Cons.prems(2) show ?case by (simp add: push_added_def)
qed simp

lemma push_removed_inv:
  "diff_inv olds news st \<Longrightarrow> firstChangedLine st \<noteq> None \<Longrightarrow> diff_inv (olds @ ls) news (foldl push_removed st ls)"
proof (induction ls arbitrary: olds st)
  case (Cons l ls)
  have "diff_inv (olds @ [l]) news (push_removed st l)"
    using Cons.prems agree_before_append[of "firstChangedLine st" olds news "[l]" "[]"] row_shows_append[of olds news _ "[l]" "[]"]
    by (auto simp: diff_inv_def push_removed_def nth_append)
  from Cons.IH[OF this] Cons.prems(2) show ?case by (simp add: push_removed_def)
qed simp

lemma change_part_inv:
  assumes "diff_inv olds news st"
  shows "diff_inv (if part_added p then olds else olds @ raw_lines (part_value p))
    (if part_added p then news @ raw_lines (part_value p) else news) (change_part p st)"
proof -
  let ?st = "if firstChangedLine st = None then st\<lparr>firstChangedLine := Some (newLineNum st)\<rparr> else st"
  have st: "diff_inv olds news ?st" "firstChangedLine ?st \<noteq> None"
    using assms by (auto simp: diff_inv_def agree_before_def)
  have last: "diff_inv a b (s\<lparr>lastWasChange := x\<rparr>) \<longleftrightarrow> diff_inv a b s" for a b s x
    by (simp add: diff_inv_def)
  show ?thesis
    using push_added_inv[OF st] push_removed_inv[OF st] by (simp add: change_part_def Let_def last)
qed

lemma context_part_inv:
  assumes "diff_inv olds news st"
  shows "diff_inv (olds @ raw_lines (part_value p)) (news @ raw_lines (part_value p)) (context_part k p trailing st)"
proof -
  let ?raw = "raw_lines (part_value p)"
  have last: "diff_inv a b (s\<lparr>lastWasChange := x\<rparr>) \<longleftrightarrow> diff_inv a b s" for a b s x
    by (simp add: diff_inv_def)
  note plain = push_context_inv[OF assms]
  consider (all) "lastWasChange st" "trailing" "length ?raw \<le> k * 2" | (both) "lastWasChange st" "trailing" "k * 2 < length ?raw"
    | (leading) "lastWasChange st" "\<not> trailing" | (trailing) "\<not> lastWasChange st" "trailing"
    | (none) "\<not> lastWasChange st" "\<not> trailing" by linarith
  then show ?thesis
  proof cases
    case all
    then show ?thesis using plain by (simp add: context_part_def Let_def last)
  next
    case both
    let ?l = "take k ?raw" and ?m = "drop k (take (length ?raw - k) ?raw)" and ?t = "drop (length ?raw - k) ?raw"
    have raw: "?raw = ?l @ ?m @ ?t"
      using both(3) by (metis append_take_drop_id append.assoc diff_le_self le_diff_conv2 min.absorb1 mult_2_right order.strict_implies_order take_take add_leD1)
    have "length ?m = length ?raw - length ?l - length ?t" using both(3) by simp
    with push_context_inv[OF push_gap_inv[OF push_context_inv[OF assms, of ?l], of ?m], of ?t] raw both show ?thesis
      by (simp add: context_part_def Let_def last)
  next
    case leading
    let ?s = "drop k ?raw"
    have "length ?raw - length (take k ?raw) = length ?s" by simp
    with push_gap_inv[OF push_context_inv[OF assms, of "take k ?raw"], of ?s] push_context_inv[OF assms, of "take k ?raw"] leading
    show ?thesis by (auto simp: context_part_def Let_def last)
  next
    case trailing
    let ?s = "take (length ?raw - k) ?raw"
    have "length ?s = length ?raw - k" by simp
    with push_context_inv[OF push_gap_inv[OF assms, of ?s], of "drop (length ?raw - k) ?raw"] plain trailing
    show ?thesis by (auto simp: context_part_def Let_def last)
  next
    case none
    then show ?thesis using skip_lines_inv[OF assms, of ?raw] by (simp add: context_part_def Let_def last)
  qed
qed

definition old_parts :: "diff_part list \<Rightarrow> js_string list" where
  "old_parts ps = concat (map (raw_lines \<circ> part_value) (filter (\<lambda>p. \<not> part_added p) ps))"

definition new_parts :: "diff_part list \<Rightarrow> js_string list" where
  "new_parts ps = concat (map (raw_lines \<circ> part_value) (filter (\<lambda>p. \<not> part_removed p) ps))"

lemma diff_loop_inv:
  "diff_inv olds news st \<Longrightarrow> \<forall>p \<in> set ps. \<not> (part_added p \<and> part_removed p) \<Longrightarrow>
   diff_inv (olds @ old_parts ps) (news @ new_parts ps) (diff_loop k ps st)"
proof (induction k ps st arbitrary: olds news rule: diff_loop.induct)
  case (2 k p ps st)
  let ?raw = "raw_lines (part_value p)"
  let ?st = "if is_change p then change_part p st
    else context_part k p (case ps of [] \<Rightarrow> False | q # _ \<Rightarrow> is_change q) st"
  have "diff_inv (if part_added p then olds else olds @ ?raw) (if part_removed p then news else news @ ?raw) ?st"
    using change_part_inv[OF 2(2), of p] context_part_inv[OF 2(2), of p] 2(3) by (auto simp: is_change_def)
  from 2(1)[OF this] 2(3) show ?case by (auto simp: old_parts_def new_parts_def)
qed (simp add: old_parts_def new_parts_def)

lemma added_lines_simps [simp]:
  "added_lines [] = []" "added_lines (AddedRow n l # rs) = l # added_lines rs"
  "added_lines (RemovedRow n l # rs) = added_lines rs" "added_lines (ContextRow n l # rs) = added_lines rs"
  "added_lines (GapRow # rs) = added_lines rs" "added_lines (rs @ rs') = added_lines rs @ added_lines rs'"
  by (simp_all add: added_lines_def)

lemma removed_lines_simps [simp]:
  "removed_lines [] = []" "removed_lines (AddedRow n l # rs) = removed_lines rs"
  "removed_lines (RemovedRow n l # rs) = l # removed_lines rs" "removed_lines (ContextRow n l # rs) = removed_lines rs"
  "removed_lines (GapRow # rs) = removed_lines rs" "removed_lines (rs @ rs') = removed_lines rs @ removed_lines rs'"
  by (simp_all add: removed_lines_def)

text \<open>The lines a state shows as added and as removed.\<close>

definition shown_changes :: "diff_state \<Rightarrow> js_string list \<times> js_string list" where
  "shown_changes st = (added_lines (diff_output st), removed_lines (diff_output st))"

lemma shown_pushes:
  "shown_changes (foldl push_context st ls) = shown_changes st"
  "shown_changes (push_gap n st) = shown_changes st"
  "shown_changes (skip_lines n st) = shown_changes st"
  "shown_changes (foldl push_added st ls) = (fst (shown_changes st) @ ls, snd (shown_changes st))"
  "shown_changes (foldl push_removed st ls) = (fst (shown_changes st), snd (shown_changes st) @ ls)"
  "shown_changes (st\<lparr>lastWasChange := b\<rparr>) = shown_changes st"
  "shown_changes (st\<lparr>firstChangedLine := c\<rparr>) = shown_changes st"
proof -
  show "shown_changes (foldl push_context st ls) = shown_changes st"
    by (induction ls arbitrary: st) (auto simp: shown_changes_def push_context_def)
  show "shown_changes (foldl push_added st ls) = (fst (shown_changes st) @ ls, snd (shown_changes st))"
    by (induction ls arbitrary: st) (auto simp: shown_changes_def push_added_def)
  show "shown_changes (foldl push_removed st ls) = (fst (shown_changes st), snd (shown_changes st) @ ls)"
    by (induction ls arbitrary: st) (auto simp: shown_changes_def push_removed_def)
qed (auto simp: shown_changes_def push_gap_def skip_lines_def)

lemma diff_loop_shown:
  "shown_changes (diff_loop k ps st) =
     (fst (shown_changes st) @ concat (map (raw_lines \<circ> part_value) (filter part_added ps)),
      snd (shown_changes st) @ concat (map (raw_lines \<circ> part_value) (filter (\<lambda>p. part_removed p \<and> \<not> part_added p) ps)))"
proof (induction k ps st rule: diff_loop.induct)
  case (2 k p ps st)
  have "shown_changes (change_part p st) =
    (if part_added p then (fst (shown_changes st) @ raw_lines (part_value p), snd (shown_changes st))
     else (fst (shown_changes st), snd (shown_changes st) @ raw_lines (part_value p)))"
    by (simp add: change_part_def Let_def shown_pushes)
  moreover have "shown_changes (context_part k p b st) = shown_changes st" for b
    by (simp add: context_part_def Let_def shown_pushes)
  ultimately show ?case using 2 by (auto simp: is_change_def)
qed simp

text \<open>
  What \<^verbatim>\<open>diffLines\<close> documents: its parts cut the two texts at line boundaries, the parts that are not
  added are the old text, those that are not removed the new one, and no part is both.
\<close>

definition line_diff :: "(js_string \<Rightarrow> js_string \<Rightarrow> diff_part list) \<Rightarrow> js_string \<Rightarrow> js_string \<Rightarrow> bool" where
  "line_diff diffLines old new =
     (raw_lines old = old_parts (diffLines old new) \<and> raw_lines new = new_parts (diffLines old new)
      \<and> list_all (\<lambda>p. \<not> (part_added p \<and> part_removed p)) (diffLines old new))"

text \<open>C31: The diff of an edit tells the truth.  For parts that cut the texts into lines, every row with a line
  number shows the line of that number, of the new text for an addition and of the old text otherwise; every added and
  every removed line has its row, in order; and before the reported first changed line the texts have the same lines.\<close>

theorem diff_rows_faithful:
  assumes "line_diff diffLines old new" and "st = diff_loop contextLines (diffLines old new) diff_start"
  shows "generateDiffString diffLines old new contextLines =
      (js_join [LF] (map (render_row (length (nat_to_string (max (length (js_split LF old)) (length (js_split LF new))))))
         (diff_output st)), firstChangedLine st)
    \<and> (\<forall>r \<in> set (diff_output st). row_shows (raw_lines old) (raw_lines new) r)
    \<and> added_lines (diff_output st) = concat (map (raw_lines \<circ> part_value) (filter part_added (diffLines old new)))
    \<and> removed_lines (diff_output st) = concat (map (raw_lines \<circ> part_value) (filter part_removed (diffLines old new)))
    \<and> agree_before (firstChangedLine st) (raw_lines old) (raw_lines new)"
proof -
  have start: "diff_inv [] [] diff_start" by (simp add: diff_inv_def diff_start_def agree_before_def)
  have np: "\<forall>p \<in> set (diffLines old new). \<not> (part_added p \<and> part_removed p)"
    using assms(1) by (simp add: line_diff_def list_all_iff)
  have "diff_inv (raw_lines old) (raw_lines new) st"
    using diff_loop_inv[OF start np, of contextLines] assms by (simp add: line_diff_def)
  moreover have "filter (\<lambda>p. part_removed p \<and> \<not> part_added p) (diffLines old new) = filter part_removed (diffLines old new)"
    using np by (auto intro: filter_cong)
  with diff_loop_shown[of contextLines "diffLines old new" diff_start] have
    "added_lines (diff_output st) = concat (map (raw_lines \<circ> part_value) (filter part_added (diffLines old new)))"
    "removed_lines (diff_output st) = concat (map (raw_lines \<circ> part_value) (filter part_removed (diffLines old new)))"
    by (simp_all add: shown_changes_def assms(2) diff_start_def)
  ultimately show ?thesis
    using assms(2) by (simp add: generateDiffString_def Let_def diff_inv_def)
qed

text \<open>A diff that replaces the whole text.\<close>

definition replace_all :: "js_string \<Rightarrow> js_string \<Rightarrow> diff_part list" where
  "replace_all old new =
     [\<lparr>part_value = old, part_added = False, part_removed = True\<rparr>, \<lparr>part_value = new, part_added = True, part_removed = False\<rparr>]"

theorem diff_rows_faithful_witness:
  "let old = ascii_units ''a''; new = ascii_units ''b'' @ [LF]; st = diff_loop 4 (replace_all old new) diff_start
   in generateDiffString replace_all old new 4 = (ascii_units ''-1 a'' @ [LF] @ ascii_units ''+1 b'', Some 1)
    \<and> (\<forall>r \<in> set (diff_output st). row_shows (raw_lines old) (raw_lines new) r)
    \<and> agree_before (firstChangedLine st) (raw_lines old) (raw_lines new)"
proof -
  have h: "line_diff replace_all (ascii_units ''a'') (ascii_units ''b'' @ [LF])"
    "generateDiffString replace_all (ascii_units ''a'') (ascii_units ''b'' @ [LF]) 4
       = (ascii_units ''-1 a'' @ [LF] @ ascii_units ''+1 b'', Some 1)" by code_simp+
  from diff_rows_faithful[OF h(1) refl, of 4] h(2) show ?thesis by (simp add: Let_def)
qed

end
