(* ===== verification/Virtual_Path.thy ===== *)
theory Virtual_Path
  imports Edit_Diff
begin

text \<open>
  The virtual paths of the browser file system (\<^verbatim>\<open>packages/agent/src/harness/env/opfs/virtual-path.ts\<close>).
\<close>

section \<open>Paths and segments\<close>

definition SLASH :: code_unit where
  "SLASH = 0x2F"

definition DOT :: code_unit where
  "DOT = 0x2E"

definition trim :: "js_string \<Rightarrow> js_string" where
  "trim s = trimEnd (dropWhile is_js_space s)"

definition add_segment :: "js_string list \<Rightarrow> js_string \<Rightarrow> js_string list" where
  "add_segment segments raw =
     (let segment = trim raw
      in if segment = [] \<or> segment = [DOT] then segments
         else if segment = [DOT, DOT] then butlast segments
         else segments @ [segment])"

text \<open>The recursive call for the base has an absolute argument, so it does not recur again.\<close>

definition collect_segments :: "js_string list \<Rightarrow> js_string \<Rightarrow> js_string list" where
  "collect_segments base input = foldl add_segment base (js_split SLASH input)"

definition splitToSegments :: "js_string \<Rightarrow> js_string \<Rightarrow> js_string list" where
  "splitToSegments input cwd =
     collect_segments
       (if prefix [SLASH] input then [] else collect_segments [] (if prefix [SLASH] cwd then cwd else SLASH # cwd))
       input"

definition path_of :: "js_string list \<Rightarrow> js_string" where
  "path_of segments = SLASH # js_join [SLASH] segments"

definition normalizeVirtualPath :: "js_string \<Rightarrow> js_string \<Rightarrow> js_string" where
  "normalizeVirtualPath input cwd = path_of (splitToSegments input cwd)"

definition joinVirtualPath :: "js_string list \<Rightarrow> js_string" where
  "joinVirtualPath parts =
     (let cleaned = filter (\<lambda>p. p \<noteq> []) parts
      in if list_ex (prefix [SLASH]) cleaned
         then normalizeVirtualPath (js_join [SLASH] (dropWhile (\<lambda>p. \<not> prefix [SLASH] p) cleaned)) [SLASH]
         else js_join [SLASH] (splitToSegments (js_join [SLASH] cleaned) [SLASH]))"

definition splitVirtualPath :: "js_string \<Rightarrow> js_string list" where
  "splitVirtualPath absolute = splitToSegments absolute [SLASH]"

section \<open>Normal forms\<close>

definition valid_segment :: "js_string \<Rightarrow> bool" where
  "valid_segment s = (s \<noteq> [] \<and> s \<noteq> [DOT] \<and> s \<noteq> [DOT, DOT] \<and> SLASH \<notin> set s \<and> trim s = s)"

definition valid_segments :: "js_string list \<Rightarrow> bool" where
  "valid_segments ss = list_all valid_segment ss"

lemma trimEnd_idem: "trimEnd (trimEnd s) = trimEnd s"
  by (induction s) (auto simp: trimEnd_Cons)

lemma trimEnd_prefix: "prefix (trimEnd s) s"
  by (induction s) (auto simp: trimEnd_Cons)

lemma trim_idem: "trim (trim s) = trim s"
proof (cases "trim s")
  case (Cons c t)
  then have "dropWhile is_js_space s \<noteq> []" by (metis list.distinct(1) trimEnd_Nil trim_def)
  then have "\<not> is_js_space (hd (dropWhile is_js_space s))" by (rule hd_dropWhile)
  moreover have "hd (dropWhile is_js_space s) = c"
    using trimEnd_prefix[of "dropWhile is_js_space s"] Cons by (auto simp: trim_def prefix_def)
  ultimately have "dropWhile is_js_space (trim s) = trim s" using Cons by simp
  then show ?thesis by (simp add: trim_def[of "trim s"]) (simp add: trim_def trimEnd_idem)
qed (simp add: trim_def)

lemma trim_subset: "set (trim s) \<subseteq> set s"
  unfolding trim_def using trimEnd_subset set_dropWhileD by fast

lemma add_segment_valid:
  "valid_segments segments \<Longrightarrow> SLASH \<notin> set raw \<Longrightarrow> valid_segments (add_segment segments raw)"
  using trim_subset[of raw]
  by (auto simp: add_segment_def Let_def valid_segments_def valid_segment_def trim_idem list_all_iff dest: in_set_butlastD)

lemma foldl_add_valid:
  "valid_segments base \<Longrightarrow> \<forall>r \<in> set raws. SLASH \<notin> set r \<Longrightarrow> valid_segments (foldl add_segment base raws)"
  by (induction raws arbitrary: base) (auto simp: add_segment_valid)

lemma collect_segments_valid: "valid_segments base \<Longrightarrow> valid_segments (collect_segments base input)"
  unfolding collect_segments_def by (rule foldl_add_valid) (auto dest: js_split_lines)

lemma valid_segments_Nil [simp]: "valid_segments []"
  by (simp add: valid_segments_def)

lemma splitToSegments_valid: "valid_segments (splitToSegments input cwd)"
  by (simp add: splitToSegments_def collect_segments_valid)

lemma foldl_add_segments: "valid_segments ss \<Longrightarrow> foldl add_segment base ss = base @ ss"
  by (induction ss arbitrary: base) (auto simp: valid_segments_def valid_segment_def add_segment_def Let_def)

lemma add_empty_segment [simp]: "add_segment segments [] = segments"
  by (simp add: add_segment_def trim_def)

lemma js_split_join_slash:
  "valid_segments ss \<Longrightarrow> ss \<noteq> [] \<Longrightarrow> js_split SLASH (js_join [SLASH] ss) = ss"
  by (rule js_split_join) (auto simp: valid_segments_def valid_segment_def list_all_iff)

lemma split_path_of: "valid_segments ss \<Longrightarrow> splitVirtualPath (path_of ss) = ss"
  by (cases "ss = []") (simp_all add: splitVirtualPath_def splitToSegments_def path_of_def collect_segments_def
      js_split_join_slash foldl_add_segments)

lemma split_absolute: "prefix [SLASH] p \<Longrightarrow> splitToSegments p cwd = splitVirtualPath p"
  by (simp add: splitVirtualPath_def splitToSegments_def)

lemma path_of_absolute [simp]: "prefix [SLASH] (path_of ss)"
  by (simp add: path_of_def)

lemma split_normalized: "splitVirtualPath (normalizeVirtualPath input cwd) = splitToSegments input cwd"
  by (simp add: normalizeVirtualPath_def split_path_of splitToSegments_valid)

lemma segments_normalized [simp]: "splitToSegments (normalizeVirtualPath input cwd) cwd' = splitToSegments input cwd"
  by (simp add: normalizeVirtualPath_def split_absolute split_path_of splitToSegments_valid)

lemma normalize_path_of: "valid_segments ss \<Longrightarrow> normalizeVirtualPath (path_of ss) cwd = path_of ss"
  by (simp add: normalizeVirtualPath_def split_absolute split_path_of)

lemma normalize_idem: "normalizeVirtualPath (normalizeVirtualPath input cwd) cwd' = normalizeVirtualPath input cwd"
  by (simp add: normalizeVirtualPath_def[of input cwd] normalize_path_of splitToSegments_valid)

lemma path_of_inj: "valid_segments ss \<Longrightarrow> valid_segments ts \<Longrightarrow> path_of ss = path_of ts \<longleftrightarrow> ss = ts"
  by (metis split_path_of)

end
