(* ===== verification/Opfs_Files.thy ===== *)
theory Opfs_Files
  imports Virtual_Path "HOL-Library.AList"
begin

text \<open>
  The browser file system over the origin private file system
  (\<^verbatim>\<open>packages/agent/src/harness/env/opfs/file-system.ts\<close>).  The handles of the File System Standard are modelled by the
  tree they address: a list of entries, each with the segments of its path.  A call of the standard may also fail for a
  reason of its own, which is the next element of the list of faults.
\<close>

section \<open>The tree behind the handles\<close>

datatype dom_fault =
    NotAllowedError | SecurityError | NoModificationAllowedError | InvalidStateError | NotSupportedError | TypeErrorFault
  | AbortError | QuotaExceededError

text \<open>An exception of the standard: the three that the state of the tree causes, or a fault.\<close>

datatype dom_error = DomNotFound | DomTypeMismatch | DomInvalidModification | DomFault dom_fault

datatype opfs_node = FileNode "byte list" nat | DirNode

type_synonym segments = "js_string list"

record opfs =
  entries :: "(segments \<times> opfs_node) list"
  clock :: nat
  has_move :: bool
  faults :: "dom_fault option list"

definition node_at :: "opfs \<Rightarrow> segments \<Rightarrow> opfs_node option" where
  "node_at w p = (if p = [] then Some DirNode else map_of (entries w) p)"

definition put_node :: "segments \<Rightarrow> opfs_node \<Rightarrow> opfs \<Rightarrow> opfs" where
  "put_node p n w = w\<lparr>entries := AList.update p n (entries w)\<rparr>"

definition dom_call :: "opfs \<Rightarrow> (dom_error + unit) \<times> opfs" where
  "dom_call w =
     (case faults w of
        [] \<Rightarrow> (Inr (), w)
      | None # fs \<Rightarrow> (Inr (), w\<lparr>faults := fs\<rparr>)
      | Some e # fs \<Rightarrow> (Inl (DomFault e), w\<lparr>faults := fs\<rparr>))"

definition getDirectoryHandle :: "segments \<Rightarrow> js_string \<Rightarrow> bool \<Rightarrow> opfs \<Rightarrow> (dom_error + segments) \<times> opfs" where
  "getDirectoryHandle dir name create w0 =
     fbind (dom_call w0) (\<lambda>_ w.
       case node_at w (dir @ [name]) of
         Some DirNode \<Rightarrow> (Inr (dir @ [name]), w)
       | Some (FileNode d t) \<Rightarrow> (Inl DomTypeMismatch, w)
       | None \<Rightarrow> if create then (Inr (dir @ [name]), put_node (dir @ [name]) DirNode w) else (Inl DomNotFound, w))"

definition getFileHandle :: "segments \<Rightarrow> js_string \<Rightarrow> bool \<Rightarrow> opfs \<Rightarrow> (dom_error + segments) \<times> opfs" where
  "getFileHandle dir name create w0 =
     fbind (dom_call w0) (\<lambda>_ w.
       case node_at w (dir @ [name]) of
         Some DirNode \<Rightarrow> (Inl DomTypeMismatch, w)
       | Some (FileNode d t) \<Rightarrow> (Inr (dir @ [name]), w)
       | None \<Rightarrow> if create then (Inr (dir @ [name]), put_node (dir @ [name]) (FileNode [] (clock w)) w)
                 else (Inl DomNotFound, w))"

definition getFile :: "segments \<Rightarrow> opfs \<Rightarrow> (dom_error + byte list \<times> nat) \<times> opfs" where
  "getFile h w0 =
     fbind (dom_call w0) (\<lambda>_ w.
       case node_at w h of Some (FileNode d t) \<Rightarrow> (Inr (d, t), w) | _ \<Rightarrow> (Inl DomNotFound, w))"

text \<open>
  \<^verbatim>\<open>createWritable\<close>, \<^verbatim>\<open>write\<close> and \<^verbatim>\<open>close\<close>: the data goes to a swap file, and \<^verbatim>\<open>close\<close> puts it in the place of the file.
\<close>

definition write_through :: "segments \<Rightarrow> byte list \<Rightarrow> opfs \<Rightarrow> (dom_error + unit) \<times> opfs" where
  "write_through h data w0 =
     fbind (dom_call w0) (\<lambda>_ w1. fbind (dom_call w1) (\<lambda>_ w2. fbind (dom_call w2) (\<lambda>_ w3.
       (Inr (), put_node h (FileNode data (clock w3)) w3))))"

definition is_child :: "segments \<Rightarrow> segments \<Rightarrow> bool" where
  "is_child dir p = (p \<noteq> [] \<and> butlast p = dir)"

definition removeEntry :: "segments \<Rightarrow> js_string \<Rightarrow> bool \<Rightarrow> opfs \<Rightarrow> (dom_error + unit) \<times> opfs" where
  "removeEntry dir name recursive w0 =
     fbind (dom_call w0) (\<lambda>_ w.
       let p = dir @ [name]
       in case node_at w p of
            None \<Rightarrow> (Inl DomNotFound, w)
          | Some (FileNode d t) \<Rightarrow> (Inr (), w\<lparr>entries := filter (\<lambda>e. fst e \<noteq> p) (entries w)\<rparr>)
          | Some DirNode \<Rightarrow>
              if \<not> recursive \<and> list_ex (\<lambda>e. is_child p (fst e)) (entries w) then (Inl DomInvalidModification, w)
              else (Inr (), w\<lparr>entries := filter (\<lambda>e. \<not> prefix p (fst e)) (entries w)\<rparr>))"

definition move_entry :: "segments \<Rightarrow> segments \<Rightarrow> opfs \<Rightarrow> (dom_error + unit) \<times> opfs" where
  "move_entry source destination w0 =
     fbind (dom_call w0) (\<lambda>_ w.
       case (node_at w source, node_at w destination) of
         (Some (FileNode d t), Some DirNode) \<Rightarrow> (Inl DomTypeMismatch, w)
       | (Some (FileNode d t), _) \<Rightarrow>
           (Inr (), put_node destination (FileNode d t) (w\<lparr>entries := filter (\<lambda>e. fst e \<noteq> source) (entries w)\<rparr>))
       | _ \<Rightarrow> (Inl DomNotFound, w))"

section \<open>Errors\<close>

datatype file_code = Aborted | NotFoundCode | PermissionDenied | NotDirectory | IsDirectory | Invalid | NotSupported | Unknown

fun opfsErrorCode :: "dom_error \<Rightarrow> file_code" where
  "opfsErrorCode DomNotFound = NotFoundCode"
| "opfsErrorCode (DomFault NotAllowedError) = PermissionDenied"
| "opfsErrorCode (DomFault SecurityError) = PermissionDenied"
| "opfsErrorCode (DomFault NoModificationAllowedError) = PermissionDenied"
| "opfsErrorCode (DomFault InvalidStateError) = NotSupported"
| "opfsErrorCode (DomFault NotSupportedError) = NotSupported"
| "opfsErrorCode (DomFault TypeErrorFault) = Invalid"
| "opfsErrorCode DomInvalidModification = Invalid"
| "opfsErrorCode e = Unknown"

text \<open>What an operation may throw before it is turned into a result: an exception of the standard, or a \<^verbatim>\<open>FileError\<close>.\<close>

datatype thrown = Dom dom_error | Failure file_code

fun toFileError :: "thrown \<Rightarrow> file_code" where
  "toFileError (Dom e) = opfsErrorCode e"
| "toFileError (Failure c) = c"

definition splitPath :: "js_string \<Rightarrow> js_string \<Rightarrow> thrown + segments \<times> js_string" where
  "splitPath path cwd =
     (let ss = splitVirtualPath (normalizeVirtualPath path cwd)
      in if ss = [] then Inl (Failure Invalid) else Inr (butlast ss, last ss))"

definition lift_dom :: "(dom_error + 'a) \<times> opfs \<Rightarrow> (thrown + 'a) \<times> opfs" where
  "lift_dom r = apfst (map_sum Dom id) r"

text \<open>The \<^verbatim>\<open>catch\<close> around an operation.\<close>

definition caught :: "(thrown \<Rightarrow> file_code) \<Rightarrow> (thrown + 'a) \<times> opfs \<Rightarrow> (file_code + 'a) \<times> opfs" where
  "caught handler r = apfst (map_sum handler id) r"

section \<open>Resolving paths\<close>

fun resolveDirectoryBySegments :: "segments \<Rightarrow> segments \<Rightarrow> bool \<Rightarrow> opfs \<Rightarrow> (dom_error + segments) \<times> opfs" where
  "resolveDirectoryBySegments handle [] create w = (Inr handle, w)"
| "resolveDirectoryBySegments handle (s # ss) create w =
     fbind (getDirectoryHandle handle s create w) (\<lambda>h w. resolveDirectoryBySegments h ss create w)"

definition resolveDirectory :: "js_string \<Rightarrow> js_string \<Rightarrow> opfs \<Rightarrow> (thrown + segments) \<times> opfs" where
  "resolveDirectory cwd path w =
     lift_dom (resolveDirectoryBySegments [] (splitVirtualPath (normalizeVirtualPath path cwd)) False w)"

definition resolveDirectoryOrCreate :: "js_string \<Rightarrow> js_string \<Rightarrow> bool \<Rightarrow> opfs \<Rightarrow> (thrown + segments) \<times> opfs" where
  "resolveDirectoryOrCreate cwd path create w =
     lift_dom (resolveDirectoryBySegments [] (splitVirtualPath (normalizeVirtualPath path cwd)) create w)"

definition resolveFileHandle :: "js_string \<Rightarrow> js_string \<Rightarrow> bool \<Rightarrow> opfs \<Rightarrow> (thrown + segments) \<times> opfs" where
  "resolveFileHandle cwd path create w =
     fbind (splitPath path cwd, w) (\<lambda>(parentSegments, name) w.
     fbind (lift_dom (resolveDirectoryBySegments [] parentSegments create w)) (\<lambda>parent w.
       lift_dom (getFileHandle parent name create w)))"

datatype node_kind = FileKind | DirectoryKind | SymlinkKind

definition probeKind :: "js_string \<Rightarrow> js_string \<Rightarrow> opfs \<Rightarrow> (thrown + node_kind) \<times> opfs" where
  "probeKind cwd path w =
     (let absolute = normalizeVirtualPath path cwd
      in if splitVirtualPath absolute = [] then (Inr DirectoryKind, w)
         else
           fbind (splitPath absolute [SLASH], w) (\<lambda>(parentSegments, name) w.
           fbind (lift_dom (resolveDirectoryBySegments [] parentSegments False w)) (\<lambda>parent w.
             case getFileHandle parent name False w of
               (Inr _, w) \<Rightarrow> (Inr FileKind, w)
             | (Inl DomTypeMismatch, w) \<Rightarrow> (Inr DirectoryKind, w)
             | (Inl DomNotFound, w) \<Rightarrow>
                 (case getDirectoryHandle parent name False w of
                    (Inr _, w) \<Rightarrow> (Inr DirectoryKind, w)
                  | (Inl DomTypeMismatch, w) \<Rightarrow> (Inr FileKind, w)
                  | (Inl e, w) \<Rightarrow> (Inl (Dom e), w))
             | (Inl e, w) \<Rightarrow> (Inl (Dom e), w))))"

section \<open>Operations of the file system\<close>

text \<open>
  \<^verbatim>\<open>Blob.text\<close> decodes UTF-8 and drops a byte order mark; \<open>lossy\<close> decodes bytes that are not UTF-8.
\<close>

definition blob_text :: "(byte list \<Rightarrow> js_string) \<Rightarrow> byte list \<Rightarrow> js_string" where
  "blob_text lossy bs =
     (let body = (if prefix [0xEF, 0xBB, 0xBF] bs then drop 3 bs else bs)
      in case utf8_decode body of Some s \<Rightarrow> s | None \<Rightarrow> lossy body)"

datatype write_content = TextContent js_string | BytesContent "byte list"

fun content_bytes :: "write_content \<Rightarrow> byte list" where
  "content_bytes (TextContent s) = utf8_encode s"
| "content_bytes (BytesContent bs) = bs"

record file_info =
  info_name :: js_string
  info_path :: js_string
  info_kind :: node_kind
  info_size :: nat
  info_mtimeMs :: nat

definition fileInfoOf :: "js_string \<Rightarrow> node_kind \<Rightarrow> nat \<Rightarrow> nat \<Rightarrow> file_info" where
  "fileInfoOf path kind nbytes mtimeMs =
     (let ss = splitVirtualPath path
      in \<lparr>info_name = (if ss = [] then [SLASH] else last ss), info_path = path, info_kind = kind,
          info_size = nbytes, info_mtimeMs = mtimeMs\<rparr>)"

definition opfs_absolutePath :: "js_string \<Rightarrow> js_string \<Rightarrow> file_code + js_string" where
  "opfs_absolutePath cwd path = Inr (normalizeVirtualPath path cwd)"

definition opfs_joinPath :: "js_string list \<Rightarrow> file_code + js_string" where
  "opfs_joinPath parts = Inr (joinVirtualPath parts)"

fun read_error :: "thrown \<Rightarrow> file_code" where
  "read_error (Dom (DomFault AbortError)) = Aborted"
| "read_error (Dom DomTypeMismatch) = IsDirectory"
| "read_error e = toFileError e"

definition opfs_readBinaryFile :: "js_string \<Rightarrow> js_string \<Rightarrow> bool \<Rightarrow> opfs \<Rightarrow> (file_code + byte list) \<times> opfs" where
  "opfs_readBinaryFile cwd path aborted w =
     (let absolute = normalizeVirtualPath path cwd
      in if aborted then (Inl Aborted, w)
         else caught read_error
           (fbind (resolveFileHandle cwd absolute False w) (\<lambda>h w.
            fbind (lift_dom (getFile h w)) (\<lambda>(d, t) w. (Inr d, w)))))"

definition opfs_readTextFile ::
  "(byte list \<Rightarrow> js_string) \<Rightarrow> js_string \<Rightarrow> js_string \<Rightarrow> bool \<Rightarrow> opfs \<Rightarrow> (file_code + js_string) \<times> opfs" where
  "opfs_readTextFile lossy cwd path aborted w =
     (let absolute = normalizeVirtualPath path cwd
      in if aborted then (Inl Aborted, w)
         else caught read_error
           (fbind (resolveFileHandle cwd absolute False w) (\<lambda>h w.
            fbind (lift_dom (getFile h w)) (\<lambda>(d, t) w. (Inr (blob_text lossy d), w)))))"

definition strip_cr :: "js_string \<Rightarrow> js_string" where
  "strip_cr raw = (if raw \<noteq> [] \<and> last raw = CR then butlast raw else raw)"

text \<open>The loop stops once \<^verbatim>\<open>maxLines\<close> lines are there; \<^verbatim>\<open>split\<close> gives at least one line.\<close>

definition text_lines :: "nat option \<Rightarrow> js_string \<Rightarrow> js_string list" where
  "text_lines maxLines whole =
     (case maxLines of
        Some n \<Rightarrow> if n = 0 then [] else map strip_cr (take n (js_split LF whole))
      | None \<Rightarrow>
          (let ls = map strip_cr (js_split LF whole)
           in if ls \<noteq> [] \<and> last ls = [] then butlast ls else ls))"

definition opfs_readTextLines ::
  "(byte list \<Rightarrow> js_string) \<Rightarrow> js_string \<Rightarrow> js_string \<Rightarrow> nat option \<Rightarrow> bool \<Rightarrow> opfs \<Rightarrow> (file_code + js_string list) \<times> opfs" where
  "opfs_readTextLines lossy cwd path maxLines aborted w =
     fbind (opfs_readTextFile lossy cwd (normalizeVirtualPath path cwd) aborted w) (\<lambda>whole w. (Inr (text_lines maxLines whole), w))"

fun write_error :: "thrown \<Rightarrow> file_code" where
  "write_error (Dom (DomFault AbortError)) = Aborted"
| "write_error e = toFileError e"

definition opfs_writeFile :: "js_string \<Rightarrow> js_string \<Rightarrow> write_content \<Rightarrow> bool \<Rightarrow> opfs \<Rightarrow> (file_code + unit) \<times> opfs" where
  "opfs_writeFile cwd path content aborted w =
     (let absolute = normalizeVirtualPath path cwd
      in if aborted then (Inl Aborted, w)
         else caught write_error
           (fbind (splitPath absolute [SLASH], w) (\<lambda>(parentSegments, name) w.
            fbind (lift_dom (resolveDirectoryBySegments [] parentSegments True w)) (\<lambda>parent w.
            fbind (lift_dom (getFileHandle parent name True w)) (\<lambda>h w.
              lift_dom (write_through h (content_bytes content) w))))))"

text \<open>
  With \<^verbatim>\<open>keepExistingData\<close> the swap file starts as a copy of the file, and after the call of \<^verbatim>\<open>seek\<close> the content is
  written at its end.
\<close>

definition opfs_appendFile :: "js_string \<Rightarrow> js_string \<Rightarrow> write_content \<Rightarrow> opfs \<Rightarrow> (file_code + unit) \<times> opfs" where
  "opfs_appendFile cwd path content w =
     (let absolute = normalizeVirtualPath path cwd
      in caught toFileError
           (fbind (splitPath absolute [SLASH], w) (\<lambda>(parentSegments, name) w.
            fbind (lift_dom (resolveDirectoryBySegments [] parentSegments True w)) (\<lambda>parent w.
            fbind (lift_dom (getFileHandle parent name True w)) (\<lambda>h w.
            fbind (lift_dom (getFile h w)) (\<lambda>(existing, t) w.
            fbind (lift_dom (dom_call w)) (\<lambda>_ w.
              lift_dom (write_through h (existing @ content_bytes content) w))))))))"

text \<open>The copy of \<^verbatim>\<open>renameFile\<close>, for a browser without \<^verbatim>\<open>move\<close> and for a \<^verbatim>\<open>move\<close> that is rejected.\<close>

definition copy_and_remove ::
  "segments \<Rightarrow> segments \<times> js_string \<Rightarrow> segments \<times> js_string \<Rightarrow> opfs \<Rightarrow> (thrown + unit) \<times> opfs" where
  "copy_and_remove h source destination w =
     fbind (lift_dom (getFile h w)) (\<lambda>(bytes, t) w.
     fbind (lift_dom (getFileHandle (fst destination) (snd destination) True w)) (\<lambda>h' w.
     fbind (lift_dom (write_through h' bytes w)) (\<lambda>_ w.
       lift_dom (removeEntry (fst source) (snd source) False w))))"

definition opfs_renameFile :: "js_string \<Rightarrow> js_string \<Rightarrow> js_string \<Rightarrow> opfs \<Rightarrow> (file_code + unit) \<times> opfs" where
  "opfs_renameFile cwd sourcePath destinationPath w =
     (let source = normalizeVirtualPath sourcePath cwd; destination = normalizeVirtualPath destinationPath cwd
      in caught toFileError
           (fbind (splitPath source [SLASH], w) (\<lambda>(sParent, sName) w.
            fbind (splitPath destination [SLASH], w) (\<lambda>(dParent, dName) w.
            fbind (lift_dom (resolveDirectoryBySegments [] sParent False w)) (\<lambda>sourceParent w.
            fbind (lift_dom (resolveDirectoryBySegments [] dParent False w)) (\<lambda>destinationParent w.
            fbind (lift_dom (getFileHandle sourceParent sName False w)) (\<lambda>sourceHandle w.
              if has_move w then
                (case move_entry sourceHandle (destinationParent @ [dName]) w of
                   (Inr _, w) \<Rightarrow> (Inr (), w)
                 | (Inl _, w) \<Rightarrow> copy_and_remove sourceHandle (sourceParent, sName) (destinationParent, dName) w)
              else copy_and_remove sourceHandle (sourceParent, sName) (destinationParent, dName) w)))))))"

definition opfs_fileInfo :: "js_string \<Rightarrow> js_string \<Rightarrow> opfs \<Rightarrow> (file_code + file_info) \<times> opfs" where
  "opfs_fileInfo cwd path w =
     (let absolute = normalizeVirtualPath path cwd
      in caught toFileError
           (fbind (probeKind cwd absolute w) (\<lambda>kind w.
              if kind = FileKind then
                fbind (resolveFileHandle cwd absolute False w) (\<lambda>h w.
                fbind (lift_dom (getFile h w)) (\<lambda>(d, t) w. (Inr (fileInfoOf absolute FileKind (length d) t), w)))
              else (Inr (fileInfoOf absolute DirectoryKind 0 0), w))))"

definition child_info :: "js_string \<Rightarrow> segments \<times> opfs_node \<Rightarrow> file_info" where
  "child_info absolute e =
     (let childPath = joinVirtualPath [absolute, last (fst e)]
      in case snd e of
           FileNode d t \<Rightarrow> fileInfoOf childPath FileKind (length d) t
         | DirNode \<Rightarrow> fileInfoOf childPath DirectoryKind 0 0)"

text \<open>The loop over the children asks every file for its size and time.\<close>

fun list_children :: "js_string \<Rightarrow> (segments \<times> opfs_node) list \<Rightarrow> opfs \<Rightarrow> (dom_error + file_info list) \<times> opfs" where
  "list_children absolute [] w = (Inr [], w)"
| "list_children absolute (e # es) w =
     fbind (if snd e = DirNode then (Inr (), w) else dom_call w) (\<lambda>_ w.
     fbind (list_children absolute es w) (\<lambda>infos w. (Inr (child_info absolute e # infos), w)))"

fun list_error :: "thrown \<Rightarrow> file_code" where
  "list_error (Dom DomTypeMismatch) = NotDirectory"
| "list_error e = toFileError e"

definition opfs_listDir :: "js_string \<Rightarrow> js_string \<Rightarrow> opfs \<Rightarrow> (file_code + file_info list) \<times> opfs" where
  "opfs_listDir cwd path w =
     (let absolute = normalizeVirtualPath path cwd
      in caught list_error
           (fbind (resolveDirectory cwd absolute w) (\<lambda>dir w.
            fbind (lift_dom (dom_call w)) (\<lambda>_ w.
              lift_dom (list_children absolute (filter (\<lambda>e. is_child dir (fst e)) (entries w)) w)))))"

definition opfs_exists :: "js_string \<Rightarrow> js_string \<Rightarrow> opfs \<Rightarrow> (file_code + bool) \<times> opfs" where
  "opfs_exists cwd path w =
     (case probeKind cwd (normalizeVirtualPath path cwd) w of
        (Inr _, w) \<Rightarrow> (Inr True, w)
      | (Inl (Dom DomNotFound), w) \<Rightarrow> (Inr False, w)
      | (Inl e, w) \<Rightarrow> (Inl (toFileError e), w))"

definition opfs_canonicalPath :: "js_string \<Rightarrow> js_string \<Rightarrow> opfs \<Rightarrow> (file_code + js_string) \<times> opfs" where
  "opfs_canonicalPath cwd path w =
     (let absolute = normalizeVirtualPath path cwd
      in fbind (opfs_exists cwd absolute w) (\<lambda>existence w. if existence then (Inr absolute, w) else (Inl NotFoundCode, w)))"

definition opfs_createDir :: "js_string \<Rightarrow> js_string \<Rightarrow> bool \<Rightarrow> opfs \<Rightarrow> (file_code + unit) \<times> opfs" where
  "opfs_createDir cwd path recursive w =
     (let absolute = normalizeVirtualPath path cwd
      in caught toFileError
           (if recursive then fbind (resolveDirectoryOrCreate cwd absolute True w) (\<lambda>_ w. (Inr (), w))
            else
              fbind (splitPath absolute [SLASH], w) (\<lambda>(parentSegments, name) w.
              fbind (lift_dom (resolveDirectoryBySegments [] parentSegments False w)) (\<lambda>parent w.
              fbind (lift_dom (getDirectoryHandle parent name True w)) (\<lambda>_ w. (Inr (), w))))))"

definition opfs_remove :: "js_string \<Rightarrow> js_string \<Rightarrow> bool \<Rightarrow> bool \<Rightarrow> opfs \<Rightarrow> (file_code + unit) \<times> opfs" where
  "opfs_remove cwd path recursive force w =
     (let absolute = normalizeVirtualPath path cwd
      in caught toFileError
           (fbind (splitPath absolute [SLASH], w) (\<lambda>(parentSegments, name) w.
            fbind (lift_dom (resolveDirectoryBySegments [] parentSegments False w)) (\<lambda>parent w.
              case removeEntry parent name recursive w of
                (Inr u, w) \<Rightarrow> (Inr u, w)
              | (Inl DomNotFound, w) \<Rightarrow> if force then (Inr (), w) else (Inl (Failure NotFoundCode), w)
              | (Inl DomTypeMismatch, w) \<Rightarrow> (Inl (Failure NotDirectory), w)
              | (Inl e, w) \<Rightarrow> (Inl (Dom e), w)))))"

text \<open>The temporary objects; \<open>uuid\<close> is the result of \<^verbatim>\<open>crypto.randomUUID\<close>.\<close>

definition TEMP_ROOT :: js_string where
  "TEMP_ROOT = ascii_units ''/state/tmp''"

definition opfs_createTempDir :: "js_string \<Rightarrow> js_string \<Rightarrow> js_string \<Rightarrow> opfs \<Rightarrow> (file_code + js_string) \<times> opfs" where
  "opfs_createTempDir cwd pre uuid w =
     (let dir = joinVirtualPath [TEMP_ROOT, pre @ uuid]
      in fbind (opfs_createDir cwd dir True w) (\<lambda>_ w. (Inr dir, w)))"

definition opfs_createTempFile ::
  "js_string \<Rightarrow> js_string \<Rightarrow> js_string \<Rightarrow> js_string \<Rightarrow> js_string \<Rightarrow> opfs \<Rightarrow> (file_code + js_string) \<times> opfs" where
  "opfs_createTempFile cwd pre suf uuid uuid' w =
     fbind (opfs_createTempDir cwd (ascii_units ''tmp-'') uuid w) (\<lambda>dir w.
       let file = joinVirtualPath [dir, pre @ uuid' @ suf]
       in fbind (opfs_writeFile cwd file (TextContent []) False w) (\<lambda>_ w. (Inr file, w)))"

section \<open>Well-formed trees\<close>

text \<open>Every path has one entry, the root has none, and the parent of an entry is a directory.\<close>

definition wf_opfs :: "opfs \<Rightarrow> bool" where
  "wf_opfs w =
     (distinct (map fst (entries w)) \<and> list_all (\<lambda>e. fst e \<noteq> [] \<and> node_at w (butlast (fst e)) = Some DirNode) (entries w))"

named_theorems opfs_simps

lemma node_at_root [simp]: "node_at w [] = Some DirNode"
  by (simp add: node_at_def)

lemma node_at_put: "p \<noteq> [] \<Longrightarrow> node_at (put_node p n w) q = (if q = p then Some n else node_at w q)"
  by (auto simp: node_at_def put_node_def update_conv)

lemma node_at_entries: "entries w' = entries w \<Longrightarrow> node_at w' = node_at w"
  by (auto simp: node_at_def fun_eq_iff)

lemma wf_opfs_entries: "entries w' = entries w \<Longrightarrow> wf_opfs w' = wf_opfs w"
  using node_at_entries[of w' w] by (simp add: wf_opfs_def)

lemma dom_call_entries: "dom_call w = (r, w') \<Longrightarrow> entries w' = entries w \<and> clock w' = clock w \<and> has_move w' = has_move w"
  by (auto simp: dom_call_def split: list.splits option.splits)

lemma dom_call_node: "dom_call w = (r, w') \<Longrightarrow> node_at w' = node_at w"
  using dom_call_entries node_at_entries by blast

lemma dom_call_quiet [simp]: "faults w = [] \<Longrightarrow> dom_call w = (Inr (), w)"
  by (simp add: dom_call_def)

lemma wf_opfs_iff:
  "wf_opfs w \<longleftrightarrow> distinct (map fst (entries w)) \<and> [] \<notin> fst ` set (entries w)
     \<and> (\<forall>p. p \<noteq> [] \<longrightarrow> node_at w p \<noteq> None \<longrightarrow> node_at w (butlast p) = Some DirNode)"
proof -
  have "p \<noteq> [] \<Longrightarrow> node_at w p \<noteq> None \<longleftrightarrow> p \<in> fst ` set (entries w)" for p
    by (simp add: node_at_def map_of_eq_None_iff)
  then show ?thesis by (auto simp: wf_opfs_def list_all_iff image_iff) (metis fst_conv)+
qed

lemma wf_parent: "wf_opfs w \<Longrightarrow> node_at w (p @ [n]) = Some x \<Longrightarrow> node_at w p = Some DirNode"
  by (auto simp: wf_opfs_iff)

lemma wf_prefix:
  assumes "wf_opfs w" "node_at w p = Some x" "strict_prefix q p"
  shows "node_at w q = Some DirNode"
  using assms(2,3)
proof (induction p arbitrary: x rule: rev_induct)
  case (snoc n p)
  from wf_parent[OF assms(1) snoc.prems(1)] have p: "node_at w p = Some DirNode" .
  show ?case
  proof (cases "q = p")
    case False
    with snoc.prems(2) have "strict_prefix q p" by (auto simp: strict_prefix_def prefix_snoc)
    with snoc.IH[OF p] show ?thesis by blast
  qed (simp add: p)
qed simp

lemma wf_below_file: "wf_opfs w \<Longrightarrow> node_at w p = Some (FileNode d t) \<Longrightarrow> strict_prefix p q \<Longrightarrow> node_at w q = None"
  using wf_prefix[of w q _ p] by (cases "node_at w q") auto

lemma wf_put:
  assumes "wf_opfs w" "p \<noteq> []" "node_at w (butlast p) = Some DirNode" "n = DirNode \<or> (\<forall>q. strict_prefix p q \<longrightarrow> node_at w q = None)"
  shows "wf_opfs (put_node p n w)"
  unfolding wf_opfs_iff
proof (intro conjI allI impI)
  show "distinct (map fst (entries (put_node p n w)))" "[] \<notin> fst ` set (entries (put_node p n w))"
    using assms(1,2) by (auto simp: wf_opfs_iff put_node_def distinct_update AList.dom_update)
next
  fix q assume q: "q \<noteq> []" "node_at (put_node p n w) q \<noteq> None"
  show "node_at (put_node p n w) (butlast q) = Some DirNode"
  proof (cases "q = p")
    case True
    then have "butlast q \<noteq> p" using q(1) by (metis append_butlast_last_id not_Cons_self2 append_self_conv)
    with True assms show ?thesis by (simp add: node_at_put)
  next
    case False
    with q assms(2) have nq: "node_at w q \<noteq> None" by (simp add: node_at_put)
    with q(1) assms(1) have b: "node_at w (butlast q) = Some DirNode" by (simp add: wf_opfs_iff)
    have "strict_prefix (butlast q) q" using q(1) by (metis append_butlast_last_id strict_prefix_simps(2) prefixI strict_prefix_def append_self_conv not_Cons_self2)
    with b nq assms(2,4) show ?thesis by (auto simp: node_at_put)
  qed
qed

lemma node_at_filter:
  "node_at (w\<lparr>entries := filter (\<lambda>e. K (fst e)) (entries w)\<rparr>) q = (if q = [] \<or> K q then node_at w q else None)"
proof -
  have "map_of (filter (\<lambda>e. K (fst e)) es) q = (if K q then map_of es q else None)" for es :: "(segments \<times> opfs_node) list"
    by (induction es) auto
  then show ?thesis by (auto simp: node_at_def)
qed

lemma wf_filter:
  assumes "wf_opfs w" "\<And>q. q \<noteq> [] \<Longrightarrow> node_at w q \<noteq> None \<Longrightarrow> K q \<Longrightarrow> butlast q = [] \<or> K (butlast q)"
  shows "wf_opfs (w\<lparr>entries := filter (\<lambda>e. K (fst e)) (entries w)\<rparr>)"
  unfolding wf_opfs_iff
proof (intro conjI allI impI)
  show "distinct (map fst (entries (w\<lparr>entries := filter (\<lambda>e. K (fst e)) (entries w)\<rparr>)))"
    using assms(1) by (simp add: wf_opfs_iff distinct_map_filter)
  show "[] \<notin> fst ` set (entries (w\<lparr>entries := filter (\<lambda>e. K (fst e)) (entries w)\<rparr>))"
    using assms(1) by (auto simp: wf_opfs_iff)
next
  fix q assume "q \<noteq> []" "node_at (w\<lparr>entries := filter (\<lambda>e. K (fst e)) (entries w)\<rparr>) q \<noteq> None"
  with assms(2)[of q] assms(1) show "node_at (w\<lparr>entries := filter (\<lambda>e. K (fst e)) (entries w)\<rparr>) (butlast q) = Some DirNode"
    unfolding node_at_filter by (auto simp: wf_opfs_iff split: if_splits)
qed

section \<open>Resolving\<close>

text \<open>Only directories on the way to \<open>p\<close> have been created.\<close>

definition grown :: "segments \<Rightarrow> opfs \<Rightarrow> opfs \<Rightarrow> bool" where
  "grown p w w' = (wf_opfs w' \<and> clock w' = clock w \<and> has_move w' = has_move w
     \<and> (\<forall>q. node_at w' q = node_at w q \<or> node_at w q = None \<and> node_at w' q = Some DirNode \<and> prefix q p))"

lemma grown_refl: "wf_opfs w' \<Longrightarrow> entries w' = entries w \<Longrightarrow> clock w' = clock w \<Longrightarrow> has_move w' = has_move w \<Longrightarrow> grown p w w'"
  using node_at_entries[of w' w] by (simp add: grown_def)

lemma grown_trans: "grown p w w' \<Longrightarrow> grown p' w' w'' \<Longrightarrow> prefix p p' \<Longrightarrow> grown p' w w''"
  unfolding grown_def by (metis prefix_order.trans)

lemma dom_call_grows: "wf_opfs w \<Longrightarrow> dom_call w = (r, w') \<Longrightarrow> grown p w w'"
  using dom_call_entries[of w r w'] wf_opfs_entries[of w' w] by (intro grown_refl) simp_all

lemma fbind_cases:
  assumes "fbind r k = (x, s')"
  obtains (fail) e where "r = (Inl e, s')" "x = Inl e" | (run) a s where "r = (Inr a, s)" "k a s = (x, s')"
  using assms by (cases r; cases "fst r") (auto simp: fbind_def)

lemma getDirectoryHandle_effect:
  assumes "wf_opfs w" "node_at w dir = Some DirNode" "getDirectoryHandle dir n create w = (r, w')"
  shows "grown (dir @ [n]) w w' \<and> (\<forall>h. r = Inr h \<longrightarrow> h = dir @ [n] \<and> node_at w' h = Some DirNode)
    \<and> (\<not> create \<longrightarrow> entries w' = entries w)"
  using assms(3) unfolding getDirectoryHandle_def
proof (cases rule: fbind_cases)
  case (fail e)
  then show ?thesis using dom_call_grows[OF assms(1) fail(1)] dom_call_entries[OF fail(1)] by simp
next
  case (run u v)
  have v: "wf_opfs v" "node_at v = node_at w" "clock v = clock w" "has_move v = has_move w" "entries v = entries w"
    using dom_call_entries[OF run(1)] assms(1) wf_opfs_entries[of v w] node_at_entries[of v w] by simp_all
  have "wf_opfs (put_node (dir @ [n]) DirNode v)"
    using v assms(2) by (intro wf_put) auto
  then have "grown (dir @ [n]) w (put_node (dir @ [n]) DirNode v)" if "node_at w (dir @ [n]) = None"
    using that v by (auto simp: grown_def node_at_put) (simp_all add: put_node_def v)
  with run(2) v assms(1) show ?thesis
    by (auto simp: node_at_put grown_refl split: option.splits opfs_node.splits if_splits)
qed

lemma resolve_effect:
  "wf_opfs w \<Longrightarrow> node_at w dir = Some DirNode \<Longrightarrow> resolveDirectoryBySegments dir ss create w = (r, w') \<Longrightarrow>
   grown (dir @ ss) w w' \<and> (\<forall>h. r = Inr h \<longrightarrow> h = dir @ ss \<and> node_at w' h = Some DirNode)
    \<and> (\<not> create \<longrightarrow> entries w' = entries w)"
proof (induction ss arbitrary: dir w)
  case Nil
  then show ?case by (auto simp: grown_refl)
next
  case (Cons s ss)
  from Cons.prems(3) show ?case unfolding resolveDirectoryBySegments.simps
  proof (cases rule: fbind_cases)
    case (fail e)
    from getDirectoryHandle_effect[OF Cons.prems(1,2) fail(1)] fail(2) show ?thesis
      by (auto simp: grown_def)
  next
    case (run h v)
    from getDirectoryHandle_effect[OF Cons.prems(1,2) run(1)] have v: "grown (dir @ [s]) w v" "h = dir @ [s]"
      "node_at v h = Some DirNode" "\<not> create \<longrightarrow> entries v = entries w" by auto
    from v(1) have "wf_opfs v" by (simp add: grown_def)
    from Cons.IH[OF this v(3) run(2)] v grown_trans[OF v(1), of "dir @ s # ss" w'] show ?thesis by simp
  qed
qed

lemma getFileHandle_effect:
  assumes "wf_opfs w" "node_at w dir = Some DirNode" "getFileHandle dir n create w = (r, w')"
  shows "wf_opfs w' \<and> clock w' = clock w \<and> has_move w' = has_move w
    \<and> (\<forall>q. q \<noteq> dir @ [n] \<longrightarrow> node_at w' q = node_at w q)
    \<and> (node_at w' (dir @ [n]) = node_at w (dir @ [n])
       \<or> create \<and> node_at w (dir @ [n]) = None \<and> node_at w' (dir @ [n]) = Some (FileNode [] (clock w)) \<and> r = Inr (dir @ [n]))
    \<and> (\<forall>h. r = Inr h \<longrightarrow> h = dir @ [n] \<and> (\<exists>d t. node_at w' h = Some (FileNode d t)))
    \<and> (\<not> create \<longrightarrow> entries w' = entries w)"
  using assms(3) unfolding getFileHandle_def
proof (cases rule: fbind_cases)
  case (fail e)
  then show ?thesis
    using dom_call_entries[OF fail(1)] wf_opfs_entries[of w' w] node_at_entries[of w' w] assms(1) by simp
next
  case (run u v)
  have v: "wf_opfs v" "node_at v = node_at w" "clock v = clock w" "has_move v = has_move w" "entries v = entries w"
    using dom_call_entries[OF run(1)] assms(1) wf_opfs_entries[of v w] node_at_entries[of v w] by simp_all
  have none: "node_at v q = None" if "node_at v (dir @ [n]) = None" "strict_prefix (dir @ [n]) q" for q
    using wf_prefix[OF v(1), of q _ "dir @ [n]"] that by (cases "node_at v q") auto
  have put: "wf_opfs (put_node (dir @ [n]) (FileNode [] (clock v)) v)" if "node_at v (dir @ [n]) = None"
    using v assms(2) none[OF that] by (intro wf_put) auto
  show ?thesis
  proof (cases "node_at v (dir @ [n])")
    case None
    with run(2) v put show ?thesis
      by (auto simp: node_at_put split: if_splits) (simp_all add: put_node_def v)
  next
    case (Some x)
    with run(2) v show ?thesis by (cases x) auto
  qed
qed

lemma getFile_effect:
  assumes "getFile h w = (r, w')"
  shows "entries w' = entries w \<and> clock w' = clock w \<and> has_move w' = has_move w
    \<and> (\<forall>d t. r = Inr (d, t) \<longrightarrow> node_at w h = Some (FileNode d t))"
  using assms unfolding getFile_def
proof (cases rule: fbind_cases)
  case (fail e)
  then show ?thesis using dom_call_entries[OF fail(1)] by simp
next
  case (run u v)
  then show ?thesis
    using dom_call_entries[OF run(1)] dom_call_node[OF run(1)] by (auto split: option.splits opfs_node.splits)
qed

lemma write_through_effect:
  assumes "write_through h d w = (r, w')"
  shows "clock w' = clock w \<and> has_move w' = has_move w
    \<and> (case r of Inl e \<Rightarrow> entries w' = entries w
       | Inr u \<Rightarrow> entries w' = AList.update h (FileNode d (clock w)) (entries w))"
proof -
  have "dom_call w = (x, v) \<Longrightarrow> entries v = entries w \<and> clock v = clock w \<and> has_move v = has_move w" for x v w
    using dom_call_entries by blast
  then show ?thesis
    using assms unfolding write_through_def put_node_def
    by (fastforce elim!: fbind_cases)
qed

lemma write_through_put:
  assumes "wf_opfs w" "node_at w h = Some (FileNode d0 t0)" "write_through h d w = (r, w')"
  shows "wf_opfs w' \<and> (case r of Inl e \<Rightarrow> node_at w' = node_at w
    | Inr u \<Rightarrow> node_at w' = (node_at w)(h \<mapsto> FileNode d (clock w)))"
proof (cases r)
  case (Inl e)
  with write_through_effect[OF assms(3)] have "entries w' = entries w" by simp
  with Inl node_at_entries[of w' w] wf_opfs_entries[of w' w] assms(1) show ?thesis by simp
next
  case (Inr u)
  have h: "h \<noteq> []" using assms(2) by (auto simp: node_at_def)
  have e: "entries w' = entries (put_node h (FileNode d (clock w)) w)"
    using write_through_effect[OF assms(3)] Inr by (simp add: put_node_def)
  have "node_at w (butlast h) = Some DirNode" using assms(1,2) h by (auto simp: wf_opfs_iff)
  then have "wf_opfs (put_node h (FileNode d (clock w)) w)"
    using wf_below_file[OF assms(1,2)] h by (intro wf_put[OF assms(1)]) auto
  with e h Inr node_at_entries[OF e] wf_opfs_entries[OF e] show ?thesis
    by (auto simp: node_at_put fun_eq_iff)
qed

lemma removeEntry_effect:
  assumes "wf_opfs w" "removeEntry dir n recursive w = (r, w')"
  shows "wf_opfs w' \<and> clock w' = clock w \<and> has_move w' = has_move w
    \<and> (case r of Inl e \<Rightarrow> node_at w' = node_at w
       | Inr u \<Rightarrow> (\<forall>q. node_at w' q = (if prefix (dir @ [n]) q then None else node_at w q)))"
  using assms(2) unfolding removeEntry_def
proof (cases rule: fbind_cases)
  case (fail e)
  then show ?thesis
    using dom_call_entries[OF fail(1)] wf_opfs_entries[of w' w] node_at_entries[of w' w] assms(1) by simp
next
  case (run u v)
  let ?p = "dir @ [n]"
  have v: "wf_opfs v" "node_at v = node_at w" "clock v = clock w" "has_move v = has_move w"
    using dom_call_entries[OF run(1)] assms(1) wf_opfs_entries[of v w] node_at_entries[of v w] by simp_all
  have pre: "prefix ?p q \<Longrightarrow> q \<noteq> []" for q by (auto simp: prefix_def)
  show ?thesis
  proof (cases "node_at v ?p")
    case None
    with run(2) v show ?thesis by auto
  next
    case (Some x)
    show ?thesis
    proof (cases x)
      case (FileNode d t)
      with Some run(2) have w': "r = Inr ()" "w' = v\<lparr>entries := filter (\<lambda>e. fst e \<noteq> ?p) (entries v)\<rparr>" by (auto simp: Let_def)
      have below: "node_at v q = None" if "strict_prefix ?p q" for q
        using wf_below_file[OF v(1)] Some FileNode that by blast
      have "wf_opfs w'" unfolding w'
      proof (rule wf_filter[OF v(1), of "\<lambda>q. q \<noteq> ?p"])
        fix q assume "q \<noteq> []" "node_at v q \<noteq> None" "q \<noteq> ?p"
        with below[of q] show "butlast q = [] \<or> butlast q \<noteq> ?p"
          by (metis append_butlast_last_id prefixI strict_prefix_def)
      qed
      moreover have "node_at w' q = (if prefix ?p q then None else node_at w q)" for q
        using node_at_filter[of "\<lambda>q. q \<noteq> ?p" v q] below[of q] v(2) pre[of q] w' by (auto simp: strict_prefix_def)
      ultimately show ?thesis using w' v by simp
    next
      case DirNode
      show ?thesis
      proof (cases "\<not> recursive \<and> list_ex (\<lambda>e. is_child ?p (fst e)) (entries v)")
        case True
        with Some DirNode run(2) v show ?thesis by (auto simp: Let_def)
      next
        case False
        with Some DirNode run(2) have w': "r = Inr ()" "w' = v\<lparr>entries := filter (\<lambda>e. \<not> prefix ?p (fst e)) (entries v)\<rparr>"
          by (auto simp: Let_def)
        have "wf_opfs w'" unfolding w'
        proof (rule wf_filter[OF v(1), of "\<lambda>q. \<not> prefix ?p q"])
          fix q assume "q \<noteq> []" "node_at v q \<noteq> None" "\<not> prefix ?p q"
          then show "butlast q = [] \<or> \<not> prefix ?p (butlast q)"
            by (metis append_butlast_last_id prefix_append prefix_order.trans prefixI)
        qed
        moreover have "node_at w' q = (if prefix ?p q then None else node_at w q)" for q
          using node_at_filter[of "\<lambda>q. \<not> prefix ?p q" v q] v(2) pre[of q] w' by auto
        ultimately show ?thesis using w' v by simp
      qed
    qed
  qed
qed

end
