(* ===== verification/Opfs_Effects.thy ===== *)
theory Opfs_Effects
  imports Opfs_Files
begin

text \<open>
  What the operations of the browser file system do to the tree when any call of the platform may fail: a write replaces
  the contents at once or leaves them, a rename never loses the data, and every sequence of calls keeps the tree
  well-formed.
\<close>

section \<open>What the operations do\<close>

lemma lift_dom_iff [simp]:
  "lift_dom r = (Inr a, w) \<longleftrightarrow> r = (Inr a, w)"
  "lift_dom r = (Inl e, w) \<longleftrightarrow> (\<exists>d. r = (Inl d, w) \<and> e = Dom d)"
  "lift_dom (x, w) = (map_sum Dom id x, w)"
  by (auto simp: lift_dom_def apfst_def map_prod_def map_sum_def split: prod.splits sum.splits)

lemma caught_iff [simp]:
  "caught f r = (Inr a, w) \<longleftrightarrow> r = (Inr a, w)"
  "caught f r = (Inl c, w) \<longleftrightarrow> (\<exists>e. r = (Inl e, w) \<and> c = f e)"
  by (auto simp: caught_def apfst_def map_prod_def map_sum_def split: prod.splits sum.splits)

lemma caught_snd: "caught f r = (x, w) \<Longrightarrow> \<exists>y. r = (y, w) \<and> x = map_sum f id y"
  by (cases r) (auto simp: caught_def)

lemma splitPath_normalized:
  "splitPath (normalizeVirtualPath path cwd) cwd' =
     (let p = splitToSegments path cwd in if p = [] then Inl (Failure Invalid) else Inr (butlast p, last p))"
  by (simp add: splitPath_def normalize_idem split_normalized)

text \<open>Only \<open>p\<close> and directories above it differ, and those are new.\<close>

definition only_at :: "segments \<Rightarrow> opfs \<Rightarrow> opfs \<Rightarrow> bool" where
  "only_at p w w' =
     (\<forall>q. q \<noteq> p \<longrightarrow> node_at w' q = node_at w q \<or> node_at w q = None \<and> node_at w' q = Some DirNode \<and> strict_prefix q p)"

lemma only_at_refl: "node_at w' = node_at w \<Longrightarrow> only_at p w w'"
  by (simp add: only_at_def)

lemma only_at_trans: "only_at p w w' \<Longrightarrow> only_at p w' w'' \<Longrightarrow> only_at p w w''"
  unfolding only_at_def by metis

lemma grown_only_at: "grown (butlast p) w w' \<Longrightarrow> p \<noteq> [] \<Longrightarrow> only_at p w w' \<and> node_at w' p = node_at w p"
proof -
  assume g: "grown (butlast p) w w'" "p \<noteq> []"
  have sp: "strict_prefix q p" if "prefix q (butlast p)" for q
    using that g(2) by (metis append_butlast_last_id prefix_append prefix_order.le_less_trans prefixI strict_prefix_def
        append_self_conv not_Cons_self2)
  then have "\<not> prefix p (butlast p)" by blast
  with g sp show ?thesis unfolding grown_def only_at_def by blast
qed

text \<open>The steps that writing, appending and the copy of a rename share: resolve the parent, open the file.\<close>

lemma open_for_write:
  assumes "wf_opfs w" "p \<noteq> []"
    and "fbind (lift_dom (resolveDirectoryBySegments [] (butlast p) True w)) (\<lambda>parent w.
      fbind (lift_dom (getFileHandle parent (last p) True w)) k) = (r, w')"
  obtains
    (fail) "\<exists>e. r = Inl e" "wf_opfs w'" "only_at p w w'" "node_at w' p = node_at w p"
  | (opened) v d t where "k p v = (r, w')" "wf_opfs v" "only_at p w v" "clock v = clock w"
      "node_at v p = Some (FileNode d t)" "node_at w p = Some (FileNode d t) \<or> node_at w p = None \<and> d = []"
  using assms(3)
proof (cases rule: fbind_cases)
  case (fail e)
  then obtain d where d: "resolveDirectoryBySegments [] (butlast p) True w = (Inl d, w')" by auto
  from resolve_effect[OF assms(1) _ d] have "grown (butlast p) w w'" by simp
  with grown_only_at[OF this assms(2)] fail(2) that(1) show ?thesis by (simp add: grown_def)
next
  case (run h v)
  from run(1) have "resolveDirectoryBySegments [] (butlast p) True w = (Inr h, v)" by simp
  from resolve_effect[OF assms(1) _ this] have v: "grown (butlast p) w v" "h = butlast p" "node_at v h = Some DirNode" by auto
  have pe: "butlast p @ [last p] = p" using assms(2) by simp
  from v(1) have wfv: "wf_opfs v" "clock v = clock w" by (auto simp: grown_def)
  note va = grown_only_at[OF v(1) assms(2)]
  from run(2) show ?thesis
  proof (cases rule: fbind_cases)
    case (fail e)
    then obtain d where d: "getFileHandle h (last p) True v = (Inl d, w')" by auto
    from getFileHandle_effect[OF wfv(1) v(3) d] v(2) pe have e: "wf_opfs w'" "\<forall>q. q \<noteq> p \<longrightarrow> node_at w' q = node_at v q"
      "node_at w' p = node_at v p" by auto
    then have "only_at p v w'" by (simp add: only_at_def)
    with e va only_at_trans fail(2) that(1) show ?thesis by auto
  next
    case (run h' u)
    from run(1) have "getFileHandle h (last p) True v = (Inr h', u)" by simp
    from getFileHandle_effect[OF wfv(1) v(3) this] v(2) pe have e: "wf_opfs u" "\<forall>q. q \<noteq> p \<longrightarrow> node_at u q = node_at v q"
      "h' = p" "\<exists>d t. node_at u p = Some (FileNode d t)" "clock u = clock v"
      "node_at u p = node_at v p \<or> node_at v p = None \<and> node_at u p = Some (FileNode [] (clock v))" by auto
    then obtain d t where dt: "node_at u p = Some (FileNode d t)" by blast
    have "only_at p v u" using e(2) by (simp add: only_at_def)
    with va only_at_trans have "only_at p w u" by blast
    from that(2)[of u d t, OF _ e(1) this _ dt] run(2) e dt va wfv show ?thesis by auto
  qed
qed

lemma opfs_write_effect:
  assumes "wf_opfs w" and "opfs_writeFile cwd path content aborted w = (r, w')" and "p = splitToSegments path cwd"
  shows "wf_opfs w' \<and> only_at p w w' \<and>
    (case r of
       Inr u \<Rightarrow> node_at w' p = Some (FileNode (content_bytes content) (clock w))
     | Inl e \<Rightarrow> node_at w' p = node_at w p \<or> node_at w p = None \<and> (\<exists>t. node_at w' p = Some (FileNode [] t)))"
proof (cases "aborted \<or> p = []")
  case True
  then have "w' = w" "\<exists>e. r = Inl e"
    using assms(2,3) by (auto simp: opfs_writeFile_def Let_def splitPath_normalized caught_def split: if_splits)
  with assms(1) show ?thesis by (auto simp: only_at_refl)
next
  case False
  from caught_snd[OF assms(2)[unfolded opfs_writeFile_def Let_def if_not_P[OF conjunct1[OF False[unfolded de_Morgan_disj]]]]]
  obtain y where y: "fbind (lift_dom (resolveDirectoryBySegments [] (butlast p) True w)) (\<lambda>parent w.
      fbind (lift_dom (getFileHandle parent (last p) True w)) (\<lambda>h w. lift_dom (write_through h (content_bytes content) w))) = (y, w')"
    and r: "r = map_sum write_error id y"
    using False assms(3) by (auto simp: splitPath_normalized Let_def)
  from False have "p \<noteq> []" by simp
  from assms(1) this y show ?thesis
  proof (cases rule: open_for_write)
    case fail
    then show ?thesis using r by auto
  next
    case (opened v d t)
    from opened(1) obtain z where z: "write_through p (content_bytes content) v = (z, w')" "y = map_sum Dom id z"
      by (cases "write_through p (content_bytes content) v") auto
    from write_through_put[OF opened(2,5) z(1)] have "wf_opfs w'" "only_at p v w'"
      by (auto simp: only_at_def split: sum.splits)
    with only_at_trans[OF opened(3)] write_through_put[OF opened(2,5) z(1)] opened z(2) r show ?thesis
      by (cases z) auto
  qed
qed

text \<open>C14: A write in the browser is atomic.  Whatever call of the platform fails, a write leaves a well-formed tree in which only the
  file and missing directories above it differ.  A write that reports success has stored exactly its bytes; one that
  reports an error has left the old content, or an empty file where there was none.\<close>

theorem opfs_write_atomic:
  assumes "wf_opfs w" and "opfs_writeFile cwd path content aborted w = (r, w')" and "p = splitToSegments path cwd"
  shows "wf_opfs w' \<and> only_at p w w' \<and>
    (case r of
       Inr u \<Rightarrow> node_at w' p = Some (FileNode (content_bytes content) (clock w))
     | Inl e \<Rightarrow> node_at w' p = node_at w p \<or> node_at w p = None \<and> (\<exists>t. node_at w' p = Some (FileNode [] t)))"
  using assms by (rule opfs_write_effect)

lemma opfs_append_effect:
  assumes "wf_opfs w" "opfs_appendFile cwd path content w = (r, w')" "p = splitToSegments path cwd"
  shows "wf_opfs w' \<and> only_at p w w' \<and>
    (case r of
       Inr u \<Rightarrow> (\<exists>d. (d = [] \<and> node_at w p = None \<or> (\<exists>t. node_at w p = Some (FileNode d t)))
                     \<and> node_at w' p = Some (FileNode (d @ content_bytes content) (clock w)))
     | Inl e \<Rightarrow> node_at w' p = node_at w p \<or> node_at w p = None \<and> (\<exists>t. node_at w' p = Some (FileNode [] t)))"
proof (cases "p = []")
  case True
  then have "w' = w" "\<exists>e. r = Inl e"
    using assms(2,3) by (auto simp: opfs_appendFile_def Let_def splitPath_normalized caught_def split: if_splits)
  with assms(1) show ?thesis by (auto simp: only_at_refl)
next
  case False
  from caught_snd[OF assms(2)[unfolded opfs_appendFile_def Let_def]]
  obtain y where y: "fbind (lift_dom (resolveDirectoryBySegments [] (butlast p) True w)) (\<lambda>parent w.
      fbind (lift_dom (getFileHandle parent (last p) True w)) (\<lambda>h w.
      fbind (lift_dom (getFile h w)) (\<lambda>(existing, t) w.
      fbind (lift_dom (dom_call w)) (\<lambda>_ w. lift_dom (write_through h (existing @ content_bytes content) w))))) = (y, w')"
    and r: "r = map_sum toFileError id y"
    using False assms(3) by (auto simp: splitPath_normalized Let_def)
  from assms(1) False y show ?thesis
  proof (cases rule: open_for_write)
    case fail
    then show ?thesis using r by auto
  next
    case (opened v d t)
    have quiet: "wf_opfs w' \<and> only_at p w w' \<and> node_at w' p = Some (FileNode d t)" if "entries w' = entries v"
      using that opened wf_opfs_entries[OF that] node_at_entries[OF that] only_at_trans[OF opened(3), of w'] only_at_refl by simp
    have old: "node_at w p = Some (FileNode d t) \<or> node_at w p = None \<and> d = []" by (rule opened(6))
    from opened(1) show ?thesis
    proof (cases rule: fbind_cases)
      case (fail e)
      then have "entries w' = entries v" using getFile_effect[of p v _ w'] by auto
      with quiet fail(2) r old show ?thesis by auto
    next
      case (run a u)
      obtain d' t' where a: "a = (d', t')" by (cases a) simp
      from getFile_effect[of p v "Inr a" u] run(1) a opened(5) have u: "entries u = entries v" "clock u = clock v" "d' = d" by auto
      from run(2)[unfolded a] have "fbind (lift_dom (dom_call u)) (\<lambda>_ w. lift_dom (write_through p (d @ content_bytes content) w)) = (y, w')"
        using u(3) by simp
      then show ?thesis
      proof (cases rule: fbind_cases)
        case (fail e)
        then have "entries w' = entries v" using dom_call_entries[of u _ w'] u by auto
        with quiet fail(2) r old show ?thesis by auto
      next
        case (run b x)
        from run(1) have x: "entries x = entries v" "clock x = clock v" using dom_call_entries[of u _ x] u by auto
        obtain z where z: "write_through p (d @ content_bytes content) x = (z, w')" "y = map_sum Dom id z"
          using run(2) by (cases "write_through p (d @ content_bytes content) x") auto
        have xs: "wf_opfs x" "node_at x p = Some (FileNode d t)" "node_at x = node_at v"
          using wf_opfs_entries[OF x(1)] node_at_entries[OF x(1)] opened by auto
        from write_through_put[OF xs(1,2) z(1)] have "wf_opfs w'" "only_at p v w'"
          by (auto simp: only_at_def xs(3) split: sum.splits)
        with only_at_trans[OF opened(3)] write_through_put[OF xs(1,2) z(1)] xs x(2) opened z(2) r old show ?thesis
          by (cases z) auto
      qed
    qed
  qed
qed

lemma getFileHandle_open:
  assumes "wf_opfs w" "node_at w dir = Some DirNode" "getFileHandle dir n False w = (r, w')"
  shows "entries w' = entries w \<and> clock w' = clock w \<and> has_move w' = has_move w
    \<and> (\<forall>h. r = Inr h \<longrightarrow> h = dir @ [n] \<and> (\<exists>d t. node_at w h = Some (FileNode d t)))"
  using getFileHandle_effect[OF assms] node_at_entries[of w' w] by auto

section \<open>Renaming\<close>

lemma move_effect:
  assumes "wf_opfs w" "node_at w p = Some (FileNode b t)" "q \<noteq> []" "node_at w (butlast q) = Some DirNode"
    and "move_entry p q w = (r, w')"
  shows "wf_opfs w' \<and> (case r of Inl e \<Rightarrow> entries w' = entries w \<and> clock w' = clock w
    | Inr u \<Rightarrow> node_at w' = (node_at w)(p := None, q \<mapsto> FileNode b t))"
  using assms(5) unfolding move_entry_def
proof (cases rule: fbind_cases)
  case (fail e)
  then show ?thesis using dom_call_entries[OF fail(1)] wf_opfs_entries[of w' w] assms(1) by simp
next
  case (run u v)
  have ve: "entries v = entries w" "clock v = clock w" using dom_call_entries[OF run(1)] by auto
  have v: "wf_opfs v" "node_at v = node_at w" using wf_opfs_entries[OF ve(1)] node_at_entries[OF ve(1)] assms(1) by auto
  let ?v = "v\<lparr>entries := filter (\<lambda>e. fst e \<noteq> p) (entries v)\<rparr>"
  have p: "p \<noteq> []" using assms(2) by (auto simp: node_at_def)
  have nv: "node_at ?v x = (if x = p then None else node_at w x)" for x
    using node_at_filter[of "\<lambda>x. x \<noteq> p" v x] p v(2) by auto
  show ?thesis
  proof (cases "node_at w q = Some DirNode")
    case True
    with run(2) v assms(2) ve show ?thesis by auto
  next
    case False
    with run(2) v assms(2) have w': "r = Inr ()" "w' = put_node q (FileNode b t) ?v"
      by (auto split: option.splits opfs_node.splits)
    have below: "node_at w x = None" if "strict_prefix q x" for x
      using wf_prefix[OF assms(1), of x _ q] that False by (cases "node_at w x") auto
    have "wf_opfs ?v"
    proof (rule wf_filter[OF v(1), of "\<lambda>x. x \<noteq> p"])
      fix x assume x: "x \<noteq> []" "node_at v x \<noteq> None" "x \<noteq> p"
      then have "node_at v (butlast x) = Some DirNode" using v(1) by (simp add: wf_opfs_iff)
      with assms(2) v(2) show "butlast x = [] \<or> butlast x \<noteq> p" by auto
    qed
    then have "wf_opfs w'" unfolding w'
      using assms(2-4) below by (intro wf_put) (auto simp: nv)
    with w' assms(3) show ?thesis by (auto simp: node_at_put nv fun_eq_iff)
  qed
qed

lemma copy_effect:
  assumes "wf_opfs w" "node_at w p = Some (FileNode b t)" "p \<noteq> []" "q \<noteq> []" "node_at w (butlast q) = Some DirNode" "p \<noteq> q"
    and "copy_and_remove p (butlast p, last p) (butlast q, last q) w = (r, w')"
  shows "wf_opfs w' \<and> (\<forall>x. x \<noteq> p \<longrightarrow> x \<noteq> q \<longrightarrow> node_at w' x = node_at w x)
    \<and> (case r of
         Inl e \<Rightarrow> node_at w' p = Some (FileNode b t)
       | Inr u \<Rightarrow> node_at w' p = None \<and> (\<exists>t'. node_at w' q = Some (FileNode b t')))"
  using assms(7) unfolding copy_and_remove_def
proof (cases rule: fbind_cases)
  case (fail e)
  then have "entries w' = entries w" using getFile_effect[of p w _ w'] by auto
  with assms fail wf_opfs_entries[of w' w] node_at_entries[of w' w] show ?thesis by simp
next
  case (run a v)
  have ps: "butlast p @ [last p] = p" "butlast q @ [last q] = q" using assms(3,4) by auto
  obtain b0 t0 where a0: "a = (b0, t0)" by (cases a)
  from run(1) have "getFile p w = (Inr (b0, t0), v)" using a0 by simp
  from getFile_effect[OF this] assms(2) a0 have ve: "entries v = entries w" and a: "a = (b, t0)" by simp_all
  have v: "wf_opfs v" "node_at v = node_at w" using wf_opfs_entries[OF ve] node_at_entries[OF ve] assms(1) by auto
  from run(2)[unfolded a] have "fbind (lift_dom (getFileHandle (butlast q) (last q) True v)) (\<lambda>h' w.
     fbind (lift_dom (write_through h' b w)) (\<lambda>_ w. lift_dom (removeEntry (butlast p) (last p) False w))) = (r, w')" by simp
  then show ?thesis
  proof (cases rule: fbind_cases)
    case (fail e)
    then obtain d where "getFileHandle (butlast q) (last q) True v = (Inl d, w')" by auto
    from getFileHandle_effect[OF v(1) _ this] assms v ps fail(2) show ?thesis by auto
  next
    case (run h u)
    from run(1) have "getFileHandle (butlast q) (last q) True v = (Inr h, u)" by simp
    from getFileHandle_effect[OF v(1) _ this] assms v ps obtain d' t' where u: "wf_opfs u" "h = q"
      "node_at u q = Some (FileNode d' t')" "\<forall>x. x \<noteq> q \<longrightarrow> node_at u x = node_at w x" by auto
    from run(2) show ?thesis
    proof (cases rule: fbind_cases)
      case (fail e)
      then obtain d where "write_through q b u = (Inl d, w')" using u(2) by auto
      from write_through_put[OF u(1,3) this] u assms fail(2) show ?thesis by auto
    next
      case (run c x)
      from run(1) u(2) have "write_through q b u = (Inr c, x)" by simp
      from write_through_put[OF u(1,3) this] u(4) have x: "wf_opfs x" "node_at x = (node_at u)(q \<mapsto> FileNode b (clock u))" by auto
      have xp: "node_at x p = Some (FileNode b t)" using x(2) u(4) assms(2,6) by simp
      obtain z where z: "removeEntry (butlast p) (last p) False x = (z, w')" "r = map_sum Dom id z"
        using run(2) by (cases "removeEntry (butlast p) (last p) False x") auto
      have nopre: "\<not> prefix p q"
        using wf_below_file[OF x(1) xp, of q] assms(6) x(2) by (auto simp: strict_prefix_def)
      have below: "node_at w y = None" if "prefix p y" "y \<noteq> p" for y
        using wf_below_file[OF assms(1,2), of y] that by (auto simp: strict_prefix_def)
      from removeEntry_effect[OF x(1) z(1)] ps xp x(2) u(4) nopre below z(2) show ?thesis
        by (cases z) (auto simp: assms(6))
    qed
  qed
qed

lemma rename_resolved:
  assumes "wf_opfs w" "opfs_renameFile cwd source destination w = (r, w')"
    and "p = splitToSegments source cwd" "q = splitToSegments destination cwd"
  obtains
    (fail) "\<exists>e. r = Inl e" "entries w' = entries w" "clock w' = clock w"
  | (opened) v b t y where "p \<noteq> []" "q \<noteq> []" "entries v = entries w" "clock v = clock w" "has_move v = has_move w"
      "node_at w p = Some (FileNode b t)" "node_at w (butlast q) = Some DirNode"
      "(if has_move v then
          (case move_entry p q v of
             (Inr _, w) \<Rightarrow> (Inr (), w)
           | (Inl _, w) \<Rightarrow> copy_and_remove p (butlast p, last p) (butlast q, last q) w)
        else copy_and_remove p (butlast p, last p) (butlast q, last q) v) = (y, w')"
      "r = map_sum toFileError id y"
proof (cases "p = [] \<or> q = []")
  case True
  then have "w' = w \<and> (\<exists>e. r = Inl e)"
    using assms(2-4) by (cases "p = []") (auto simp: opfs_renameFile_def Let_def splitPath_normalized caught_def split: if_splits)
  with that(1) show ?thesis by simp
next
  case False
  let ?kk = "\<lambda>sp dp h w. if has_move w then
          (case move_entry h (dp @ [last q]) w of
             (Inr _, w) \<Rightarrow> (Inr (), w)
           | (Inl _, w) \<Rightarrow> copy_and_remove h (sp, last p) (dp, last q) w)
        else copy_and_remove h (sp, last p) (dp, last q) w"
  from caught_snd[OF assms(2)[unfolded opfs_renameFile_def Let_def]] obtain y where
    y: "fbind (lift_dom (resolveDirectoryBySegments [] (butlast p) False w)) (\<lambda>sp w.
        fbind (lift_dom (resolveDirectoryBySegments [] (butlast q) False w)) (\<lambda>dp w.
        fbind (lift_dom (getFileHandle sp (last p) False w)) (\<lambda>h w. ?kk sp dp h w))) = (y, w')"
    and r: "r = map_sum toFileError id y"
    using False assms(3,4) by (auto simp: splitPath_normalized Let_def)
  have pq: "butlast p @ [last p] = p" "butlast q @ [last q] = q" using False by auto
  from y show ?thesis
  proof (cases rule: fbind_cases)
    case (fail e)
    then obtain d where "resolveDirectoryBySegments [] (butlast p) False w = (Inl d, w')" by auto
    from resolve_effect[OF assms(1) _ this] fail(2) r that(1) show ?thesis by (auto simp: grown_def)
  next
    case (run sp w1)
    from run(1) have "resolveDirectoryBySegments [] (butlast p) False w = (Inr sp, w1)" by simp
    from resolve_effect[OF assms(1) _ this] have w1: "sp = butlast p" "entries w1 = entries w" "clock w1 = clock w"
      "has_move w1 = has_move w" "wf_opfs w1" by (auto simp: grown_def)
    note n1 = node_at_entries[OF w1(2)]
    from run(2) show ?thesis
    proof (cases rule: fbind_cases)
      case (fail e)
      then obtain d where "resolveDirectoryBySegments [] (butlast q) False w1 = (Inl d, w')" by auto
      from resolve_effect[OF w1(5) _ this] fail(2) r w1 that(1) show ?thesis by (auto simp: grown_def)
    next
      case (run dp w2)
      from run(1) have "resolveDirectoryBySegments [] (butlast q) False w1 = (Inr dp, w2)" by simp
      from resolve_effect[OF w1(5) _ this] w1 have w2: "dp = butlast q" "node_at w2 dp = Some DirNode" "entries w2 = entries w" "clock w2 = clock w"
        "has_move w2 = has_move w" "wf_opfs w2" by (auto simp: grown_def)
      note n2 = node_at_entries[OF w2(3)]
      have sp: "node_at w2 sp = Some DirNode"
        using resolve_effect[OF assms(1) _ \<open>resolveDirectoryBySegments [] (butlast p) False w = (Inr sp, w1)\<close>] n1 n2 by auto
      from run(2) show ?thesis
      proof (cases rule: fbind_cases)
        case (fail e)
        then obtain d where "getFileHandle sp (last p) False w2 = (Inl d, w')" by auto
        from getFileHandle_open[OF w2(6) sp this] fail(2) r w2 that(1) show ?thesis by auto
      next
        case (run h w3)
        from run(1) have "getFileHandle sp (last p) False w2 = (Inr h, w3)" by simp
        from getFileHandle_open[OF w2(6) sp this] w1(1) pq w2 n2 obtain b t where
          w3: "h = p" "entries w3 = entries w" "clock w3 = clock w" "has_move w3 = has_move w" "node_at w p = Some (FileNode b t)" by auto
        have bq: "node_at w (butlast q) = Some DirNode" using w2(1,2) n2 by simp
        have "(if has_move w3 then
          (case move_entry p q w3 of (Inr _, w) \<Rightarrow> (Inr (), w)
           | (Inl _, w) \<Rightarrow> copy_and_remove p (butlast p, last p) (butlast q, last q) w)
          else copy_and_remove p (butlast p, last p) (butlast q, last q) w3) = (y, w')"
          using run(2) by (simp only: w1(1) w2(1) w3(1) pq)
        from that(2)[OF _ _ w3(2-5) bq this r] False show ?thesis by blast
      qed
    qed
  qed
qed

lemma opfs_rename_effect:
  assumes "wf_opfs w" and "opfs_renameFile cwd source destination w = (r, w')"
    and "p = splitToSegments source cwd" and "q = splitToSegments destination cwd" and "p \<noteq> q"
    and "node_at w p = Some (FileNode b t)"
  shows "wf_opfs w' \<and> (\<forall>x. x \<noteq> p \<longrightarrow> x \<noteq> q \<longrightarrow> node_at w' x = node_at w x)
    \<and> (case r of
         Inl e \<Rightarrow> node_at w' p = Some (FileNode b t)
       | Inr u \<Rightarrow> node_at w' p = None \<and> (\<exists>t'. node_at w' q = Some (FileNode b t')))"
  using assms(1-4)
proof (cases rule: rename_resolved)
  case fail
  with assms wf_opfs_entries[of w' w] node_at_entries[of w' w] show ?thesis by auto
next
  case (opened v b' t' y)
  have v: "wf_opfs v" "node_at v = node_at w"
    using wf_opfs_entries[OF opened(3)] node_at_entries[OF opened(3)] assms(1) by auto
  then have vp: "node_at v p = Some (FileNode b t)" "node_at v (butlast q) = Some DirNode" using opened(7) assms(6) by auto
  have copied: "wf_opfs w' \<and> (\<forall>x. x \<noteq> p \<longrightarrow> x \<noteq> q \<longrightarrow> node_at w' x = node_at w x)
    \<and> (case y of Inl e \<Rightarrow> node_at w' p = Some (FileNode b t)
       | Inr u \<Rightarrow> node_at w' p = None \<and> (\<exists>t'. node_at w' q = Some (FileNode b t')))"
    if "copy_and_remove p (butlast p, last p) (butlast q, last q) u = (y, w')" "entries u = entries v" for u
    using copy_effect[of u p b t q y w'] wf_opfs_entries[OF that(2)] node_at_entries[OF that(2)] v vp opened(1,2) assms(5) that(1) by simp
  show ?thesis
  proof (cases "has_move v")
    case True
    obtain z u where z: "move_entry p q v = (z, u)" by (cases "move_entry p q v")
    note move = move_effect[OF v(1) vp(1) opened(2) vp(2) z]
    show ?thesis
    proof (cases z)
      case (Inl e)
      with copied[of u] opened(8,9) True z move show ?thesis by (cases y) auto
    next
      case (Inr c)
      with opened(8,9) True z move v assms(5) show ?thesis by auto
    qed
  next
    case False
    with copied[of v] opened(8,9) show ?thesis by (cases y) auto
  qed
qed

text \<open>C15: A rename loses no data.  Whatever call of the platform fails, with or without \<^verbatim>\<open>move\<close>, renaming a file to another path
  leaves a well-formed tree in which no third path differs.  A rename that reports success has the content under the new
  path only; one that reports an error still has it under the old path.\<close>

theorem opfs_rename_keeps_data:
  assumes "wf_opfs w" and "opfs_renameFile cwd source destination w = (r, w')"
    and "p = splitToSegments source cwd" and "q = splitToSegments destination cwd" and "p \<noteq> q"
    and "node_at w p = Some (FileNode b t)"
  shows "wf_opfs w' \<and> (\<forall>x. x \<noteq> p \<longrightarrow> x \<noteq> q \<longrightarrow> node_at w' x = node_at w x)
    \<and> (case r of
         Inl e \<Rightarrow> node_at w' p = Some (FileNode b t)
       | Inr u \<Rightarrow> node_at w' p = None \<and> (\<exists>t'. node_at w' q = Some (FileNode b t')))"
  using assms by (rule opfs_rename_effect)

section \<open>Calls that do not fail\<close>

lemma getDirectoryHandle_quiet:
  "faults w = [] \<Longrightarrow> node_at w (dir @ [n]) = Some DirNode \<Longrightarrow> getDirectoryHandle dir n create w = (Inr (dir @ [n]), w)"
  by (simp add: getDirectoryHandle_def)

lemma resolve_quiet:
  "faults w = [] \<Longrightarrow> wf_opfs w \<Longrightarrow> node_at w (dir @ ss) = Some DirNode \<Longrightarrow>
   resolveDirectoryBySegments dir ss create w = (Inr (dir @ ss), w)"
proof (induction ss arbitrary: dir)
  case (Cons s ss)
  have "node_at w (dir @ [s]) = Some DirNode"
  proof (cases "ss = []")
    case False
    then have "strict_prefix (dir @ [s]) (dir @ s # ss)" by (auto simp: strict_prefix_def)
    with wf_prefix[OF Cons.prems(2,3)] show ?thesis by blast
  qed (use Cons.prems(3) in simp)
  with Cons.IH[of "dir @ [s]"] Cons.prems show ?case by (simp add: getDirectoryHandle_quiet)
qed simp

lemma getFileHandle_quiet:
  "faults w = [] \<Longrightarrow> node_at w (dir @ [n]) = Some (FileNode d t) \<Longrightarrow> getFileHandle dir n create w = (Inr (dir @ [n]), w)"
  by (simp add: getFileHandle_def)

lemma resolveFile_quiet:
  assumes "faults w = []" "wf_opfs w" "node_at w (splitToSegments path cwd) = Some (FileNode d t)"
  shows "resolveFileHandle cwd (normalizeVirtualPath path cwd) False w = (Inr (splitToSegments path cwd), w)"
proof -
  let ?p = "splitToSegments path cwd"
  have p: "?p \<noteq> []" using assms(3) by (auto simp: node_at_def)
  then have "node_at w (butlast ?p) = Some DirNode" using assms(2,3) by (auto simp: wf_opfs_iff)
  with assms p show ?thesis
    by (simp add: resolveFileHandle_def splitPath_normalized Let_def resolve_quiet getFileHandle_quiet[where d = d and t = t])
qed

lemma read_quiet:
  assumes "faults w = []" "wf_opfs w" "node_at w (splitToSegments path cwd) = Some (FileNode d t)"
  shows "opfs_readBinaryFile cwd path False w = (Inr d, w)" "opfs_readTextFile lossy cwd path False w = (Inr (blob_text lossy d), w)"
  using resolveFile_quiet[OF assms] assms
  by (simp_all add: opfs_readBinaryFile_def opfs_readTextFile_def Let_def getFile_def caught_def)

text \<open>Renaming a file to its own path removes it in a browser without \<^verbatim>\<open>move\<close>.\<close>

lemma self_rename_removes:
  assumes "faults w = []" "\<not> has_move w" "wf_opfs w" "p = splitToSegments path cwd" "node_at w p = Some (FileNode b t)"
  shows "\<exists>w'. opfs_renameFile cwd path path w = (Inr (), w') \<and> node_at w' p = None"
proof -
  have p: "p \<noteq> []" using assms(5) by (auto simp: node_at_def)
  then have bl: "butlast p @ [last p] = p" by simp
  have par: "node_at w (butlast p) = Some DirNode" using assms(3,5) p by (auto simp: wf_opfs_iff)
  let ?w = "put_node p (FileNode b (clock w)) w"
  have w1: "write_through p b w = (Inr (), ?w)" using assms(1) by (simp add: write_through_def)
  have f: "faults ?w = []" "node_at ?w p = Some (FileNode b (clock w))" using assms(1) p by (simp_all add: put_node_def node_at_put[unfolded put_node_def])
  obtain w' where w': "removeEntry (butlast p) (last p) False ?w = (Inr (), w')"
    using f bl by (simp add: removeEntry_def Let_def)
  have "wf_opfs ?w" using write_through_put[OF assms(3,5) w1] by simp
  from removeEntry_effect[OF this w'] bl have "node_at w' p = None" by simp
  moreover have "copy_and_remove p (butlast p, last p) (butlast p, last p) w = (Inr (), w')"
    using assms(1,5) bl w1 w' by (simp add: copy_and_remove_def getFile_def getFileHandle_quiet[where d = b and t = t])
  then have "opfs_renameFile cwd path path w = (Inr (), w')"
    using assms p par bl by (simp add: opfs_renameFile_def splitPath_normalized Let_def resolve_quiet
        getFileHandle_quiet[where d = b and t = t] caught_def)
  ultimately show ?thesis by blast
qed

section \<open>Sequences of operations\<close>

lemma copy_wf:
  assumes "wf_opfs w" "node_at w p = Some (FileNode b t)" "q \<noteq> []" "node_at w (butlast q) = Some DirNode"
    and "copy_and_remove p (butlast p, last p) (butlast q, last q) w = (r, w')"
  shows "wf_opfs w'"
  using assms(5) unfolding copy_and_remove_def
proof (cases rule: fbind_cases)
  case (fail e)
  then have "entries w' = entries w" using getFile_effect[of p w _ w'] by auto
  with assms(1) show ?thesis using wf_opfs_entries[of w' w] by simp
next
  case (run a v)
  obtain b0 t0 where a: "a = (b0, t0)" by (cases a)
  from run(1) a have ve: "entries v = entries w" using getFile_effect[of p w "Inr a" v] by simp
  have v: "wf_opfs v" "node_at v = node_at w" using wf_opfs_entries[OF ve] node_at_entries[OF ve] assms(1) by auto
  from run(2) a have "fbind (lift_dom (getFileHandle (butlast q) (last q) True v)) (\<lambda>h' w.
     fbind (lift_dom (write_through h' b0 w)) (\<lambda>_ w. lift_dom (removeEntry (butlast p) (last p) False w))) = (r, w')" by simp
  then show ?thesis
  proof (cases rule: fbind_cases)
    case (fail e)
    then obtain d where "getFileHandle (butlast q) (last q) True v = (Inl d, w')" by auto
    from getFileHandle_effect[OF v(1) _ this] assms(4) v(2) show ?thesis by simp
  next
    case (run h u)
    from run(1) have "getFileHandle (butlast q) (last q) True v = (Inr h, u)" by simp
    from getFileHandle_effect[OF v(1) _ this] assms(4) v(2) obtain d' t' where u: "wf_opfs u" "node_at u h = Some (FileNode d' t')" by auto
    from run(2) show ?thesis
    proof (cases rule: fbind_cases)
      case (fail e)
      then obtain d where "write_through h b0 u = (Inl d, w')" by auto
      from write_through_put[OF u this] show ?thesis by simp
    next
      case (run c x)
      from run(1) have "write_through h b0 u = (Inr c, x)" by simp
      from write_through_put[OF u this] have "wf_opfs x" by simp
      moreover obtain z where "removeEntry (butlast p) (last p) False x = (z, w')"
        using run(2) by (cases "removeEntry (butlast p) (last p) False x") auto
      ultimately show ?thesis using removeEntry_effect[of x "butlast p" "last p" False z w'] by simp
    qed
  qed
qed

lemma opfs_rename_wf:
  assumes "wf_opfs w" "opfs_renameFile cwd source destination w = (r, w')"
  shows "wf_opfs w'"
  using assms refl refl
proof (cases rule: rename_resolved)
  case fail
  with assms(1) wf_opfs_entries[of w' w] show ?thesis by simp
next
  case (opened v b t y)
  let ?p = "splitToSegments source cwd" and ?q = "splitToSegments destination cwd"
  have v: "wf_opfs v" "node_at v = node_at w"
    using wf_opfs_entries[OF opened(3)] node_at_entries[OF opened(3)] assms(1) by auto
  have vp: "node_at v ?p = Some (FileNode b t)" "node_at v (butlast ?q) = Some DirNode" using opened(6,7) v(2) by auto
  have copied: "wf_opfs w'"
    if "copy_and_remove ?p (butlast ?p, last ?p) (butlast ?q, last ?q) u = (y, w')" "entries u = entries v" for u
    using copy_wf[of u ?p b t ?q y w'] wf_opfs_entries[OF that(2)] node_at_entries[OF that(2)] v vp opened(2) that(1) by simp
  show ?thesis
  proof (cases "has_move v")
    case True
    obtain z u where z: "move_entry ?p ?q v = (z, u)" by (cases "move_entry ?p ?q v")
    note move = move_effect[OF v(1) vp(1) opened(2) vp(2) z]
    show ?thesis
    proof (cases z)
      case (Inl e)
      with copied[of u] opened(8) True z move show ?thesis by auto
    next
      case (Inr c)
      with opened(8) True z move show ?thesis by auto
    qed
  next
    case False
    with copied[of v] opened(8) show ?thesis by auto
  qed
qed

lemma opfs_remove_effect:
  assumes "wf_opfs w" "opfs_remove cwd path recursive force w = (r, w')" "p = splitToSegments path cwd"
  shows "wf_opfs w' \<and> (case r of Inl e \<Rightarrow> node_at w' = node_at w
    | Inr u \<Rightarrow> (\<forall>q. node_at w' q = (if prefix p q then None else node_at w q)))"
proof (cases "p = []")
  case True
  then show ?thesis
    using assms by (auto simp: opfs_remove_def Let_def splitPath_normalized caught_def split: if_splits)
next
  case False
  then have bl: "butlast p @ [last p] = p" by simp
  from caught_snd[OF assms(2)[unfolded opfs_remove_def Let_def]] obtain y where
    y: "fbind (lift_dom (resolveDirectoryBySegments [] (butlast p) False w)) (\<lambda>parent w.
          case removeEntry parent (last p) recursive w of
            (Inr u, w) \<Rightarrow> (Inr u, w)
          | (Inl DomNotFound, w) \<Rightarrow> if force then (Inr (), w) else (Inl (Failure NotFoundCode), w)
          | (Inl DomTypeMismatch, w) \<Rightarrow> (Inl (Failure NotDirectory), w)
          | (Inl e, w) \<Rightarrow> (Inl (Dom e), w)) = (y, w')"
    and r: "r = map_sum toFileError id y"
    using False assms(3) by (auto simp: splitPath_normalized Let_def)
  from y show ?thesis
  proof (cases rule: fbind_cases)
    case (fail e)
    then obtain d where "resolveDirectoryBySegments [] (butlast p) False w = (Inl d, w')" by auto
    from resolve_effect[OF assms(1) _ this] have "entries w' = entries w" by simp
    with assms(1) wf_opfs_entries[of w' w] node_at_entries[of w' w] fail(2) r show ?thesis by simp
  next
    case (run h v)
    from run(1) have "resolveDirectoryBySegments [] (butlast p) False w = (Inr h, v)" by simp
    from resolve_effect[OF assms(1) _ this] have h: "h = butlast p" and ve: "entries v = entries w" by auto
    have v: "wf_opfs v" "node_at v = node_at w" using wf_opfs_entries[OF ve] node_at_entries[OF ve] assms(1) by auto
    obtain z u where z: "removeEntry (butlast p) (last p) recursive v = (z, u)" by (cases "removeEntry (butlast p) (last p) recursive v")
    note eff = removeEntry_effect[OF v(1) z]
    show ?thesis
    proof (cases z)
      case (Inr c)
      with run(2) h z eff v bl r show ?thesis by auto
    next
      case (Inl e)
      show ?thesis
      proof (cases "e = DomNotFound \<and> force")
        case True
        have none: "node_at u p = None"
          using z Inl True bl by (auto simp: removeEntry_def Let_def dom_call_def split: list.splits option.splits opfs_node.splits if_splits elim!: fbind_cases)
        moreover have "node_at u = node_at w" using eff Inl v(2) by simp
        moreover have "node_at w q = None" if "prefix p q" for q
        proof (cases "node_at w q")
          case (Some x)
          with wf_prefix[OF assms(1), of q x p] that none calculation show ?thesis by (cases "p = q") (auto simp: strict_prefix_def)
        qed
        ultimately show ?thesis using run(2) h z eff Inl True r by auto
      next
        case False
        with run(2) h z eff v Inl r show ?thesis by (cases e) (auto split: if_splits)
      qed
    qed
  qed
qed

datatype opfs_call =
    CallWrite js_string write_content bool
  | CallAppend js_string write_content
  | CallRename js_string js_string
  | CallCreateDir js_string bool
  | CallRemove js_string bool bool
  | CallWait nat

fun opfs_step :: "js_string \<Rightarrow> opfs_call \<Rightarrow> opfs \<Rightarrow> opfs" where
  "opfs_step cwd (CallWrite path content aborted) w = snd (opfs_writeFile cwd path content aborted w)"
| "opfs_step cwd (CallAppend path content) w = snd (opfs_appendFile cwd path content w)"
| "opfs_step cwd (CallRename source destination) w = snd (opfs_renameFile cwd source destination w)"
| "opfs_step cwd (CallCreateDir path recursive) w = snd (opfs_createDir cwd path recursive w)"
| "opfs_step cwd (CallRemove path recursive force) w = snd (opfs_remove cwd path recursive force w)"
| "opfs_step cwd (CallWait n) w = w\<lparr>clock := clock w + n\<rparr>"

definition empty_opfs :: "bool \<Rightarrow> dom_fault option list \<Rightarrow> opfs" where
  "empty_opfs move fs = \<lparr>entries = [], clock = 0, has_move = move, faults = fs\<rparr>"

lemma opfs_createDir_effect:
  assumes "wf_opfs w" "opfs_createDir cwd path recursive w = (r, w')" "p = splitToSegments path cwd"
  shows "grown p w w' \<and> (\<forall>u. r = Inr u \<longrightarrow> node_at w' p = Some DirNode)"
proof (cases recursive)
  case True
  with assms(2,3) obtain x where x: "resolveDirectoryBySegments [] p True w = (x, w')" "r = map_sum (toFileError \<circ> Dom) (\<lambda>_. ()) x"
    by (cases "resolveDirectoryBySegments [] p True w"; cases "fst (resolveDirectoryBySegments [] p True w)")
      (auto simp: opfs_createDir_def Let_def resolveDirectoryOrCreate_def normalize_idem split_normalized caught_def)
  from resolve_effect[OF assms(1) _ x(1)] x(2) show ?thesis by (cases x) auto
next
  case False
  show ?thesis
  proof (cases "p = []")
    case True
    with False assms show ?thesis
      by (auto simp: opfs_createDir_def Let_def splitPath_normalized caught_def grown_refl split: if_splits)
  next
    case pn: False
    then have bl: "butlast p @ [last p] = p" by simp
    from caught_snd[OF assms(2)[unfolded opfs_createDir_def Let_def]] obtain y where
      y: "fbind (lift_dom (resolveDirectoryBySegments [] (butlast p) False w)) (\<lambda>parent w.
            fbind (lift_dom (getDirectoryHandle parent (last p) True w)) (\<lambda>_ w. (Inr (), w))) = (y, w')"
      and r: "r = map_sum toFileError id y"
      using False pn assms(3) by (auto simp: splitPath_normalized Let_def)
    from y show ?thesis
    proof (cases rule: fbind_cases)
      case (fail e)
      then obtain d where "resolveDirectoryBySegments [] (butlast p) False w = (Inl d, w')" by auto
      from resolve_effect[OF assms(1) _ this] have w': "entries w' = entries w" "wf_opfs w'" "clock w' = clock w" "has_move w' = has_move w"
        by (auto simp: grown_def)
      from fail(2) r grown_refl[OF w'(2,1,3,4)] show ?thesis by auto
    next
      case (run h v)
      from run(1) have "resolveDirectoryBySegments [] (butlast p) False w = (Inr h, v)" by simp
      from resolve_effect[OF assms(1) _ this] have v: "h = butlast p" "node_at v h = Some DirNode" "entries v = entries w"
        "wf_opfs v" "clock v = clock w" "has_move v = has_move w" by (auto simp: grown_def)
      obtain z where z: "getDirectoryHandle (butlast p) (last p) True v = (z, w')" "y = map_sum Dom (\<lambda>_. ()) z"
        using run(2) v(1) by (cases "getDirectoryHandle (butlast p) (last p) True v"; cases "fst (getDirectoryHandle (butlast p) (last p) True v)") auto
      from getDirectoryHandle_effect[OF v(4) _ z(1)] v bl have "grown p v w'" "\<forall>h. z = Inr h \<longrightarrow> node_at w' p = Some DirNode" by auto
      moreover from this(1) v node_at_entries[OF v(3)] have "grown p w w'" by (simp add: grown_def)
      ultimately show ?thesis using z(2) r by (cases z) auto
    qed
  qed
qed

lemma opfs_step_wf: "wf_opfs w \<Longrightarrow> wf_opfs (opfs_step cwd c w)"
proof (cases c)
  case (CallWrite path content aborted)
  assume "wf_opfs w"
  with CallWrite show ?thesis
    using opfs_write_effect[of w cwd path content aborted "fst (opfs_writeFile cwd path content aborted w)"
        "snd (opfs_writeFile cwd path content aborted w)"] by simp
next
  case (CallAppend path content)
  assume "wf_opfs w"
  with CallAppend show ?thesis
    using opfs_append_effect[of w cwd path content "fst (opfs_appendFile cwd path content w)" "snd (opfs_appendFile cwd path content w)"] by simp
next
  case (CallRename s d)
  assume "wf_opfs w"
  with CallRename show ?thesis
    using opfs_rename_wf[of w cwd s d "fst (opfs_renameFile cwd s d w)" "snd (opfs_renameFile cwd s d w)"] by simp
next
  case (CallCreateDir path rec)
  assume "wf_opfs w"
  with CallCreateDir show ?thesis
    using opfs_createDir_effect[of w cwd path rec "fst (opfs_createDir cwd path rec w)" "snd (opfs_createDir cwd path rec w)"]
    by (simp add: grown_def)
next
  case (CallRemove path rec force)
  assume "wf_opfs w"
  with CallRemove show ?thesis
    using opfs_remove_effect[of w cwd path rec force "fst (opfs_remove cwd path rec force w)" "snd (opfs_remove cwd path rec force w)"] by simp
next
  case (CallWait n)
  assume "wf_opfs w"
  with CallWait show ?thesis using wf_opfs_entries[of "w\<lparr>clock := clock w + n\<rparr>" w] by simp
qed

text \<open>C17: The tree stays a tree.  Starting from an empty file system, after any sequence of writes, appends, renames, directory
  creations and removals, with any of their platform calls failing at any point, every path has at most one node and the parent of every
  node is a directory.\<close>

theorem opfs_tree_invariant:
  "wf_opfs (fold (opfs_step cwd) calls (empty_opfs move fs))"
proof -
  have "wf_opfs w \<Longrightarrow> wf_opfs (fold (opfs_step cwd) calls w)" for w
    by (induction calls arbitrary: w) (simp_all add: opfs_step_wf)
  moreover have "wf_opfs (empty_opfs move fs)" by (simp add: empty_opfs_def wf_opfs_def)
  ultimately show ?thesis by blast
qed

section \<open>Concrete runs\<close>

definition one_file :: "dom_fault option list \<Rightarrow> opfs" where
  "one_file fs =
     \<lparr>entries = [([ascii_units ''a''], DirNode), ([ascii_units ''a'', ascii_units ''f''], FileNode [1] 0)],
      clock = 5, has_move = False, faults = fs\<rparr>"

theorem opfs_write_atomic_witness:
  "let p = [ascii_units ''a'', ascii_units ''f'']; w = one_file [None, None, None, Some QuotaExceededError];
       (r, w') = opfs_writeFile [SLASH] (ascii_units ''/a/f'') (BytesContent [2]) False w
   in r = Inl Unknown \<and> wf_opfs w' \<and> only_at p w w' \<and> node_at w' p = Some (FileNode [1] 0)"
proof -
  let ?w = "one_file [None, None, None, Some QuotaExceededError]"
  have wf: "wf_opfs ?w" by code_simp
  have run: "opfs_writeFile [SLASH] (ascii_units ''/a/f'') (BytesContent [2]) False ?w = (Inl Unknown, one_file [])"
    and p: "[ascii_units ''a'', ascii_units ''f''] = splitToSegments (ascii_units ''/a/f'') [SLASH]"
    and n: "node_at ?w [ascii_units ''a'', ascii_units ''f''] = Some (FileNode [1] 0)" by code_simp+
  from opfs_write_atomic[OF wf run p] n show ?thesis by (simp add: run)
qed

theorem opfs_rename_keeps_data_witness:
  "let w = one_file (replicate 7 None @ [Some NoModificationAllowedError]);
       (r, w') = opfs_renameFile [SLASH] (ascii_units ''/a/f'') (ascii_units ''/g'') w
   in r = Inl PermissionDenied \<and> wf_opfs w' \<and> node_at w' [ascii_units ''a'', ascii_units ''f''] = Some (FileNode [1] 0)"
proof -
  let ?w = "one_file (replicate 7 None @ [Some NoModificationAllowedError])"
  let ?w' = "\<lparr>entries = entries ?w @ [([ascii_units ''g''], FileNode [1] 5)], clock = 5, has_move = False, faults = []\<rparr>"
  have wf: "wf_opfs ?w" by code_simp
  have run: "opfs_renameFile [SLASH] (ascii_units ''/a/f'') (ascii_units ''/g'') ?w = (Inl PermissionDenied, ?w')"
    and p: "[ascii_units ''a'', ascii_units ''f''] = splitToSegments (ascii_units ''/a/f'') [SLASH]"
    and q: "[ascii_units ''g''] = splitToSegments (ascii_units ''/g'') [SLASH]"
    and d: "[ascii_units ''a'', ascii_units ''f''] \<noteq> [ascii_units ''g'']"
    and n: "node_at ?w [ascii_units ''a'', ascii_units ''f''] = Some (FileNode [1] 0)" by code_simp+
  from opfs_rename_keeps_data[OF wf run p q d n] show ?thesis by (simp add: run)
qed

end
