(* ===== verification/Opfs_Storage.thy ===== *)
theory Opfs_Storage
  imports Opfs_Effects
begin

text \<open>
  The synchronous state of the browser (\<^verbatim>\<open>packages/agent/src/harness/env/opfs/storage.ts\<close>): a mirror in memory
  that answers reads at once, and a queue of the same changes for the asynchronous file system.
\<close>

section \<open>The mirror\<close>

record mirror_file =
  mf_data :: "byte list"
  mf_mtimeMs :: nat

datatype persist =
    PersistWrite js_string js_string
  | PersistAppend js_string js_string
  | PersistCreateDir js_string bool
  | PersistRename js_string js_string
  | PersistMoveDir js_string js_string "(js_string \<times> mirror_file) list"
  | PersistRemove js_string bool

record backend =
  files :: "(js_string \<times> mirror_file) list"
  dirs :: "js_string list"
  queue :: "persist list"
  lastQueueError :: "file_code option"

datatype errno = ENOENT | EEXIST | EISDIR | ENOTDIR | ENOTEMPTY | EPERM

definition add_dir :: "js_string \<Rightarrow> backend \<Rightarrow> backend" where
  "add_dir p m = m\<lparr>dirs := (if p \<in> set (dirs m) then dirs m else dirs m @ [p])\<rparr>"

definition delete_dir :: "js_string \<Rightarrow> backend \<Rightarrow> backend" where
  "delete_dir p m = m\<lparr>dirs := removeAll p (dirs m)\<rparr>"

definition set_file :: "js_string \<Rightarrow> mirror_file \<Rightarrow> backend \<Rightarrow> backend" where
  "set_file p f m = m\<lparr>files := AList.update p f (files m)\<rparr>"

definition delete_file :: "js_string \<Rightarrow> backend \<Rightarrow> backend" where
  "delete_file p m = m\<lparr>files := AList.delete p (files m)\<rparr>"

definition has_file :: "backend \<Rightarrow> js_string \<Rightarrow> bool" where
  "has_file m p = (map_of (files m) p \<noteq> None)"

definition has_dir :: "backend \<Rightarrow> js_string \<Rightarrow> bool" where
  "has_dir m p = (p \<in> set (dirs m))"

definition enqueue_task :: "persist \<Rightarrow> backend \<Rightarrow> backend" where
  "enqueue_task x m = m\<lparr>queue := queue m @ [x]\<rparr>"

section \<open>Hydration\<close>

text \<open>The nesting of directories is bounded by the longest path, which is the fuel.\<close>

fun hydrate_children ::
  "(segments \<Rightarrow> backend \<Rightarrow> opfs \<Rightarrow> (dom_error + backend) \<times> opfs) \<Rightarrow> (segments \<times> opfs_node) list \<Rightarrow> backend \<Rightarrow> opfs
     \<Rightarrow> (dom_error + backend) \<times> opfs" where
  "hydrate_children hydrate [] m w = (Inr m, w)"
| "hydrate_children hydrate ((p, FileNode d t) # es) m w =
     fbind (getFile p w) (\<lambda>(d, t) w.
       hydrate_children hydrate es (set_file (path_of p) \<lparr>mf_data = d, mf_mtimeMs = t\<rparr> m) w)"
| "hydrate_children hydrate ((p, DirNode) # es) m w = fbind (hydrate p m w) (\<lambda>m w. hydrate_children hydrate es m w)"

primrec hydrateDirectory :: "nat \<Rightarrow> segments \<Rightarrow> backend \<Rightarrow> opfs \<Rightarrow> (dom_error + backend) \<times> opfs" where
  "hydrateDirectory 0 dir m w = (Inr m, w)"
| "hydrateDirectory (Suc n) dir m w =
     fbind (dom_call w) (\<lambda>_ w.
       hydrate_children (hydrateDirectory n) (filter (\<lambda>e. is_child dir (fst e)) (entries w)) (add_dir (path_of dir) m) w)"

definition depth :: "opfs \<Rightarrow> nat" where
  "depth w = foldr max (map (length \<circ> fst) (entries w)) 0"

definition hydrateScope :: "js_string \<Rightarrow> backend \<Rightarrow> opfs \<Rightarrow> (dom_error + backend) \<times> opfs" where
  "hydrateScope scope m w =
     (let ss = splitVirtualPath (normalizeVirtualPath scope [SLASH])
      in case resolveDirectoryBySegments [] ss False w of
           (Inl _, w) \<Rightarrow> (Inr m, w)
         | (Inr h, w) \<Rightarrow> hydrateDirectory (Suc (depth w)) h m w)"

definition empty_backend :: backend where
  "empty_backend = \<lparr>files = [], dirs = [], queue = [], lastQueueError = None\<rparr>"

fun hydrate_scopes :: "js_string list \<Rightarrow> backend \<Rightarrow> opfs \<Rightarrow> (dom_error + backend) \<times> opfs" where
  "hydrate_scopes [] m w = (Inr m, w)"
| "hydrate_scopes (scope # scopes) m w = fbind (hydrateScope scope m w) (\<lambda>m w. hydrate_scopes scopes m w)"

definition create_backend :: "js_string list \<Rightarrow> opfs \<Rightarrow> (dom_error + backend) \<times> opfs" where
  "create_backend hydrateScopes w = hydrate_scopes hydrateScopes empty_backend w"

section \<open>Bookkeeping\<close>

definition ensureDirPath :: "js_string \<Rightarrow> backend \<Rightarrow> backend" where
  "ensureDirPath path m =
     snd (foldl (\<lambda>(current, m) segment. (current @ SLASH # segment, add_dir (current @ SLASH # segment) m))
       ([], add_dir [SLASH] m) (splitVirtualPath path))"

definition parentOf :: "js_string \<Rightarrow> js_string" where
  "parentOf path = path_of (butlast (splitVirtualPath path))"

definition assertParentExists :: "backend \<Rightarrow> js_string \<Rightarrow> errno + unit" where
  "assertParentExists m path =
     (let parent = parentOf path in if parent \<noteq> [SLASH] \<and> \<not> has_dir m parent then Inl ENOENT else Inr ())"

definition assertFileTarget :: "backend \<Rightarrow> js_string \<Rightarrow> errno + unit" where
  "assertFileTarget m path = (if has_dir m path then Inl EISDIR else Inr ())"

record dir_child =
  child_name :: js_string
  child_isFile :: bool
  child_isDirectory :: bool

definition rest_below :: "js_string \<Rightarrow> js_string \<Rightarrow> js_string option" where
  "rest_below path key =
     (let pre = (if path = [SLASH] then [SLASH] else path @ [SLASH])
      in if prefix pre key then
           (let rest = drop (length pre) key in if SLASH \<in> set rest \<or> rest = [] then None else Some rest)
         else None)"

definition childrenOf :: "backend \<Rightarrow> js_string \<Rightarrow> dir_child list" where
  "childrenOf m path =
     (let fs = foldl (\<lambda>ns key. case rest_below path key of
                 None \<Rightarrow> ns
               | Some rest \<Rightarrow> AList.update rest \<lparr>child_name = rest, child_isFile = True, child_isDirectory = False\<rparr> ns)
               [] (map fst (files m));
          ds = foldl (\<lambda>ns key. if key = [SLASH] then ns else (case rest_below path key of
                 None \<Rightarrow> ns
               | Some rest \<Rightarrow> AList.update rest \<lparr>child_name = rest, child_isFile = False, child_isDirectory = True\<rparr> ns))
               fs (dirs m)
      in map snd ds)"

section \<open>The operations\<close>

definition existsSync :: "backend \<Rightarrow> js_string \<Rightarrow> bool" where
  "existsSync m path = (let absolute = normalizeVirtualPath path [SLASH] in has_file m absolute \<or> has_dir m absolute)"

definition readTextFileSync :: "(byte list \<Rightarrow> js_string) \<Rightarrow> backend \<Rightarrow> js_string \<Rightarrow> errno + js_string" where
  "readTextFileSync lossy m path =
     (let absolute = normalizeVirtualPath path [SLASH]
      in case map_of (files m) absolute of
           Some f \<Rightarrow> Inr (blob_text lossy (mf_data f))
         | None \<Rightarrow> if has_dir m absolute then Inl EISDIR else Inl ENOENT)"

definition readTextLinesSync ::
  "(byte list \<Rightarrow> js_string) \<Rightarrow> backend \<Rightarrow> js_string \<Rightarrow> nat option \<Rightarrow> errno + js_string list" where
  "readTextLinesSync lossy m path maxLines =
     (if maxLines = Some 0 then Inr []
      else rbind (readTextFileSync lossy m path) (\<lambda>whole. Inr (text_lines maxLines whole)))"

definition writeTextFileSync :: "nat \<Rightarrow> js_string \<Rightarrow> js_string \<Rightarrow> bool \<Rightarrow> backend \<Rightarrow> errno + backend" where
  "writeTextFileSync now path data wx m =
     (let absolute = normalizeVirtualPath path [SLASH]
      in rbind (if wx then Inr () else assertFileTarget m absolute) (\<lambda>_.
         rbind (assertParentExists m absolute) (\<lambda>_.
           if wx \<and> (has_file m absolute \<or> has_dir m absolute) then Inl EEXIST
           else Inr (enqueue_task (PersistWrite absolute data)
                  (set_file absolute \<lparr>mf_data = utf8_encode data, mf_mtimeMs = now\<rparr> (delete_dir absolute m))))))"

definition appendTextFileSync :: "nat \<Rightarrow> js_string \<Rightarrow> js_string \<Rightarrow> backend \<Rightarrow> errno + backend" where
  "appendTextFileSync now path data m =
     (let absolute = normalizeVirtualPath path [SLASH]
      in rbind (assertFileTarget m absolute) (\<lambda>_.
         rbind (assertParentExists m absolute) (\<lambda>_.
           let merged = (case map_of (files m) absolute of Some f \<Rightarrow> mf_data f @ utf8_encode data | None \<Rightarrow> utf8_encode data)
           in Inr (enqueue_task (PersistAppend absolute data) (set_file absolute \<lparr>mf_data = merged, mf_mtimeMs = now\<rparr> m)))))"

definition mkdirSync :: "js_string \<Rightarrow> bool \<Rightarrow> backend \<Rightarrow> errno + backend" where
  "mkdirSync path recursive m =
     (let absolute = normalizeVirtualPath path [SLASH]
      in if has_file m absolute then Inl EEXIST
         else if recursive then Inr (enqueue_task (PersistCreateDir absolute True) (ensureDirPath absolute m))
         else
           rbind (assertParentExists m absolute) (\<lambda>_.
             if has_dir m absolute then Inl EEXIST
             else Inr (enqueue_task (PersistCreateDir absolute False) (add_dir absolute m))))"

definition readdirSync :: "backend \<Rightarrow> js_string \<Rightarrow> errno + dir_child list" where
  "readdirSync m path =
     (let absolute = normalizeVirtualPath path [SLASH]
      in if has_file m absolute then Inl ENOTDIR
         else if \<not> has_dir m absolute then Inl ENOENT
         else Inr (childrenOf m absolute))"

record file_stat =
  stat_size :: nat
  stat_mtimeMs :: nat
  stat_isFile :: bool
  stat_isDirectory :: bool

definition statSync :: "backend \<Rightarrow> js_string \<Rightarrow> errno + file_stat" where
  "statSync m path =
     (let absolute = normalizeVirtualPath path [SLASH]
      in case map_of (files m) absolute of
           Some f \<Rightarrow> Inr \<lparr>stat_size = length (mf_data f), stat_mtimeMs = mf_mtimeMs f, stat_isFile = True, stat_isDirectory = False\<rparr>
         | None \<Rightarrow>
             if has_dir m absolute then Inr \<lparr>stat_size = 0, stat_mtimeMs = 0, stat_isFile = False, stat_isDirectory = True\<rparr>
             else Inl ENOENT)"

text \<open>The directory branch of \<^verbatim>\<open>renameSync\<close>: files first, one after the other, then directories.\<close>

definition move_file :: "js_string \<Rightarrow> js_string \<Rightarrow> backend \<times> (js_string \<times> mirror_file) list \<Rightarrow> js_string
    \<Rightarrow> backend \<times> (js_string \<times> mirror_file) list" where
  "move_file from to acc key =
     (let (m, moved) = acc
      in case map_of (files m) key of
           None \<Rightarrow> acc
         | Some f \<Rightarrow>
             (let target = to @ drop (length from) key
              in (set_file target f (delete_file key m), AList.update target f moved)))"

definition move_dir :: "js_string \<Rightarrow> js_string \<Rightarrow> backend \<Rightarrow> js_string \<Rightarrow> backend" where
  "move_dir from to m dir =
     (if prefix (from @ [SLASH]) dir then add_dir (to @ drop (length from) dir) (delete_dir dir m) else m)"

definition rename_directory :: "js_string \<Rightarrow> js_string \<Rightarrow> backend \<Rightarrow> backend" where
  "rename_directory from to m0 =
     (let movedFilePaths = filter (\<lambda>key. key = from \<or> prefix (from @ [SLASH]) key) (map fst (files m0));
          m1 = ensureDirPath to (delete_dir from (delete_dir to m0));
          (m2, movedFiles) = foldl (move_file from to) (m1, []) movedFilePaths;
          m3 = foldl (move_dir from to) m2 (dirs m2)
      in enqueue_task (PersistMoveDir from to movedFiles) m3)"

definition renameSync :: "js_string \<Rightarrow> js_string \<Rightarrow> backend \<Rightarrow> errno + backend" where
  "renameSync source destination m =
     (let from = normalizeVirtualPath source [SLASH]; to = normalizeVirtualPath destination [SLASH]
      in if map_of (files m) from = None \<and> \<not> has_dir m from then Inl ENOENT
         else
           rbind (assertParentExists m to) (\<lambda>_.
             case map_of (files m) from of
               Some f \<Rightarrow>
                 if has_dir m to then Inl EISDIR
                 else Inr (enqueue_task (PersistRename from to) (set_file to f (delete_file from m)))
             | None \<Rightarrow>
                 if has_file m to then Inl ENOTDIR
                 else if has_dir m to \<and> childrenOf m to \<noteq> [] then Inl ENOTEMPTY
                 else Inr (rename_directory from to m)))"

definition rmSync :: "js_string \<Rightarrow> bool \<Rightarrow> bool \<Rightarrow> backend \<Rightarrow> errno + backend" where
  "rmSync path recursive force m =
     (let absolute = normalizeVirtualPath path [SLASH]; pre = absolute @ [SLASH];
          isDirectory = (has_dir m absolute \<or> list_ex (prefix pre) (dirs m) \<or> list_ex (prefix pre) (map fst (files m)))
      in if absolute = [SLASH] then Inl EPERM
         else
           rbind (if has_file m absolute then Inr (delete_file absolute m)
                  else if isDirectory then
                    (if \<not> recursive then Inl EISDIR
                     else Inr (m\<lparr>files := filter (\<lambda>e. \<not> prefix pre (fst e)) (files m),
                                 dirs := filter (\<lambda>d. d \<noteq> absolute \<and> \<not> prefix pre d) (dirs m)\<rparr>))
                  else if \<not> force then Inl ENOENT else Inr m)
             (\<lambda>m. Inr (enqueue_task (PersistRemove absolute recursive) m)))"

definition canonicalizeSync :: "js_string \<Rightarrow> js_string" where
  "canonicalizeSync path = normalizeVirtualPath path [SLASH]"

definition fileRevisionSync :: "backend \<Rightarrow> js_string \<Rightarrow> js_string option" where
  "fileRevisionSync m path =
     (let absolute = normalizeVirtualPath path [SLASH]
      in case map_of (files m) absolute of
           Some f \<Rightarrow> Some (ascii_units (nat_to_string (length (mf_data f)) @ '':'' @ nat_to_string (mf_mtimeMs f)))
         | None \<Rightarrow> if has_dir m absolute then Some (ascii_units ''0:0'') else None)"

section \<open>Writing through\<close>

fun write_moved :: "(js_string \<times> mirror_file) list \<Rightarrow> opfs \<Rightarrow> (file_code + unit) \<times> opfs" where
  "write_moved [] w = (Inr (), w)"
| "write_moved ((target, f) # fs) w =
     fbind (opfs_writeFile [SLASH] target (BytesContent (mf_data f)) False w) (\<lambda>_ w. write_moved fs w)"

fun run_persist :: "persist \<Rightarrow> opfs \<Rightarrow> (file_code + unit) \<times> opfs" where
  "run_persist (PersistWrite path data) w = opfs_writeFile [SLASH] path (TextContent data) False w"
| "run_persist (PersistAppend path data) w = opfs_appendFile [SLASH] path (TextContent data) w"
| "run_persist (PersistCreateDir path recursive) w = opfs_createDir [SLASH] path recursive w"
| "run_persist (PersistRename from to) w = opfs_renameFile [SLASH] from to w"
| "run_persist (PersistMoveDir from to movedFiles) w =
     fbind (opfs_createDir [SLASH] to True w) (\<lambda>_ w.
     fbind (write_moved movedFiles w) (\<lambda>_ w. opfs_remove [SLASH] from True True w))"
| "run_persist (PersistRemove path recursive) w = opfs_remove [SLASH] path recursive True w"

text \<open>The chain of promises: the tasks in their order, each error noted and the next task run all the same.\<close>

fun drain_queue :: "persist list \<Rightarrow> file_code option \<Rightarrow> opfs \<Rightarrow> file_code option \<times> opfs" where
  "drain_queue [] err w = (err, w)"
| "drain_queue (x # xs) err w =
     (case run_persist x w of (Inl e, w) \<Rightarrow> drain_queue xs (Some e) w | (Inr _, w) \<Rightarrow> drain_queue xs err w)"

definition flush :: "backend \<Rightarrow> opfs \<Rightarrow> (file_code + unit) \<times> backend \<times> opfs" where
  "flush m w =
     (case drain_queue (queue m) (lastQueueError m) w of
        (err, w) \<Rightarrow> (case err of None \<Rightarrow> Inr () | Some e \<Rightarrow> Inl e, m\<lparr>queue := [], lastQueueError := None\<rparr>, w))"

section \<open>Paths as texts\<close>

lemma path_of_snoc: "p \<noteq> [] \<Longrightarrow> path_of (p @ [n]) = path_of p @ SLASH # n"
  by (simp add: path_of_def js_join_two)

lemma path_of_root: "valid_segments p \<Longrightarrow> path_of p = [SLASH] \<longleftrightarrow> p = []"
  using path_of_inj[of p "[]"] by (simp add: path_of_def)

lemma valid_butlast: "valid_segments p \<Longrightarrow> valid_segments (butlast p)"
  by (auto simp: valid_segments_def list_all_iff dest: in_set_butlastD)

lemma valid_prefix: "valid_segments q \<Longrightarrow> prefix p q \<Longrightarrow> valid_segments p"
  by (auto simp: valid_segments_def prefix_def)

lemma parentOf_path: "valid_segments p \<Longrightarrow> parentOf (path_of p) = path_of (butlast p)"
  by (simp add: parentOf_def split_path_of)

lemma path_below:
  assumes "valid_segments p" "valid_segments q" "p \<noteq> []"
  shows "prefix (path_of p @ [SLASH]) (path_of q) \<longleftrightarrow> strict_prefix p q"
proof
  assume "prefix (path_of p @ [SLASH]) (path_of q)"
  then obtain r where r: "js_join [SLASH] q = js_join [SLASH] p @ SLASH # r" by (auto simp: prefix_def path_of_def)
  then have "q \<noteq> []" by auto
  with r assms js_split_join_slash have "q = p @ js_split SLASH r" by (metis js_split_sep)
  then show "strict_prefix p q" by (auto simp: strict_prefix_def)
next
  assume "strict_prefix p q"
  then obtain r where "q = p @ r" "r \<noteq> []" by (auto simp: strict_prefix_def prefix_def)
  with js_join_two[OF assms(3), of r "[SLASH]"] show "prefix (path_of p @ [SLASH]) (path_of q)"
    by (simp add: path_of_def)
qed

section \<open>The mirror and the tree\<close>

definition data_of :: "opfs_node option \<Rightarrow> byte list option" where
  "data_of n = (case n of Some (FileNode d t) \<Rightarrow> Some d | _ \<Rightarrow> None)"

text \<open>
  Below the scope the mirror and the tree agree, and the scope is a directory.  Paths of the tree that no text addresses (a
  name with a space at its end) are left out.
\<close>

definition mirrors :: "segments \<Rightarrow> backend \<Rightarrow> opfs \<Rightarrow> bool" where
  "mirrors sc m w =
     (valid_segments sc \<and> node_at w sc = Some DirNode
      \<and> (\<forall>p. valid_segments p \<longrightarrow> prefix sc p \<longrightarrow>
           map_option mf_data (map_of (files m) (path_of p)) = data_of (node_at w p)
           \<and> (has_dir m (path_of p) \<longleftrightarrow> node_at w p = Some DirNode)))"

text \<open>Every key of the mirror is the text of a path.\<close>

definition mirror_keys :: "backend \<Rightarrow> bool" where
  "mirror_keys m = (\<forall>k \<in> fst ` set (files m) \<union> set (dirs m). \<exists>p. valid_segments p \<and> k = path_of p)"

lemma mirrors_at:
  assumes "mirrors sc m w" "valid_segments p" "prefix sc p"
  shows "map_of (files m) (path_of p) = None \<longleftrightarrow> data_of (node_at w p) = None"
    "map_of (files m) (path_of p) = Some f \<Longrightarrow> \<exists>t. node_at w p = Some (FileNode (mf_data f) t)"
    "has_file m (path_of p) \<longleftrightarrow> (\<exists>d t. node_at w p = Some (FileNode d t))"
    "has_dir m (path_of p) \<longleftrightarrow> node_at w p = Some DirNode"
proof -
  from assms have f: "map_option mf_data (map_of (files m) (path_of p)) = data_of (node_at w p)"
    and d: "has_dir m (path_of p) \<longleftrightarrow> node_at w p = Some DirNode" by (auto simp: mirrors_def)
  show "map_of (files m) (path_of p) = None \<longleftrightarrow> data_of (node_at w p) = None"
    using f by (metis option.map_disc_iff)
  show "map_of (files m) (path_of p) = Some f \<Longrightarrow> \<exists>t. node_at w p = Some (FileNode (mf_data f) t)"
    using f by (auto simp: data_of_def split: option.splits opfs_node.splits)
  show "has_file m (path_of p) \<longleftrightarrow> (\<exists>d t. node_at w p = Some (FileNode d t))"
    using f by (cases "map_of (files m) (path_of p)") (auto simp: has_file_def data_of_def split: option.splits opfs_node.splits)
  show "has_dir m (path_of p) \<longleftrightarrow> node_at w p = Some DirNode" by (rule d)
qed

text \<open>The parent check of the mirror is the one of the tree.\<close>

lemma assertParent_tree:
  assumes "mirrors sc m w" "valid_segments p" "strict_prefix sc p" "assertParentExists m (path_of p) = Inr ()"
  shows "node_at w (butlast p) = Some DirNode"
proof (cases "butlast p = []")
  case False
  have sc: "prefix sc (butlast p)"
    using assms(3) by (metis append_butlast_last_id prefix_snoc strict_prefix_def prefix_bot.extremum_unique)
  from False assms(2,4) have "has_dir m (path_of (butlast p))"
    by (auto simp: assertParentExists_def Let_def parentOf_path path_of_root valid_butlast split: if_splits)
  with mirrors_at(4)[OF assms(1) valid_butlast[OF assms(2)] sc] show ?thesis by simp
qed simp

text \<open>Replacing one node.\<close>

lemma mirrors_put:
  assumes "mirrors sc m w" "valid_segments p" "strict_prefix sc p"
    and "\<And>q. q \<noteq> p \<Longrightarrow> node_at w' q = node_at w q"
    and "\<And>k. k \<noteq> path_of p \<Longrightarrow> map_of (files m') k = map_of (files m) k \<and> has_dir m' k = has_dir m k"
    and "map_option mf_data (map_of (files m') (path_of p)) = data_of (node_at w' p)"
    and "has_dir m' (path_of p) \<longleftrightarrow> node_at w' p = Some DirNode"
  shows "mirrors sc m' w'"
proof -
  have "path_of q \<noteq> path_of p" if "valid_segments q" "q \<noteq> p" for q
    using that path_of_inj assms(2) by blast
  moreover have "sc \<noteq> p" using assms(3) by auto
  ultimately show ?thesis using assms unfolding mirrors_def by metis
qed

section \<open>Persisting without faults\<close>

lemma quiet_put [simp]: "faults (put_node p n w) = faults w" "clock (put_node p n w) = clock w" "has_move (put_node p n w) = has_move w"
  by (simp_all add: put_node_def)

lemma getFileHandle_create_quiet:
  "faults w = [] \<Longrightarrow> node_at w (dir @ [n]) \<noteq> Some DirNode \<Longrightarrow>
   \<exists>w'. getFileHandle dir n True w = (Inr (dir @ [n]), w') \<and> faults w' = []"
  by (auto simp: getFileHandle_def split: option.splits opfs_node.splits)

lemma write_through_quiet: "faults w = [] \<Longrightarrow> \<exists>w'. write_through h d w = (Inr (), w') \<and> faults w' = []"
  by (simp add: write_through_def)

lemma path_segments [simp]: "valid_segments p \<Longrightarrow> splitToSegments (path_of p) cwd = p"
  by (simp add: split_absolute split_path_of)

lemma normalize_path_of' [simp]: "valid_segments p \<Longrightarrow> normalizeVirtualPath (path_of p) cwd = path_of p"
  by (rule normalize_path_of)

lemma splitPath_path_of: "valid_segments p \<Longrightarrow> p \<noteq> [] \<Longrightarrow> splitPath (path_of p) cwd = Inr (butlast p, last p)"
  using splitPath_normalized[of "path_of p" cwd cwd] by (simp add: Let_def)

lemma write_quiet:
  assumes "faults w = []" "wf_opfs w" "valid_segments p" "p \<noteq> []" "node_at w (butlast p) = Some DirNode" "node_at w p \<noteq> Some DirNode"
  shows "\<exists>w'. opfs_writeFile cwd (path_of p) c False w = (Inr (), w') \<and> faults w' = []"
proof -
  have p: "butlast p @ [last p] = p" using assms(4) by simp
  from getFileHandle_create_quiet[OF assms(1), of "butlast p" "last p"] p assms(6) obtain w1 where
    w1: "getFileHandle (butlast p) (last p) True w = (Inr p, w1)" "faults w1 = []" by auto
  from write_through_quiet[OF w1(2)] obtain w2 where "write_through p (content_bytes c) w1 = (Inr (), w2)" "faults w2 = []" by blast
  with w1 assms show ?thesis
    by (simp add: opfs_writeFile_def Let_def splitPath_path_of resolve_quiet caught_def)
qed

lemma append_quiet:
  assumes "faults w = []" "wf_opfs w" "valid_segments p" "p \<noteq> []" "node_at w (butlast p) = Some DirNode" "node_at w p \<noteq> Some DirNode"
  shows "\<exists>w'. opfs_appendFile cwd (path_of p) c w = (Inr (), w') \<and> faults w' = []"
proof -
  have p: "butlast p @ [last p] = p" using assms(4) by simp
  from getFileHandle_create_quiet[OF assms(1), of "butlast p" "last p"] p assms(6) obtain w1 where
    w1: "getFileHandle (butlast p) (last p) True w = (Inr p, w1)" "faults w1 = []" by auto
  from getFileHandle_effect[OF assms(2,5) w1(1)] p obtain d t where "node_at w1 p = Some (FileNode d t)" by auto
  with w1 have g: "getFile p w1 = (Inr (d, t), w1)" by (simp add: getFile_def)
  from write_through_quiet[OF w1(2)] obtain w2 where "write_through p (d @ content_bytes c) w1 = (Inr (), w2)" "faults w2 = []" by blast
  with w1 g assms show ?thesis
    by (simp add: opfs_appendFile_def Let_def splitPath_path_of resolve_quiet caught_def)
qed

lemma only_at_parent:
  assumes "wf_opfs w" "only_at p w w'" "node_at w (butlast p) = Some DirNode" "p \<noteq> []" "q \<noteq> p"
  shows "node_at w' q = node_at w q"
proof -
  have "node_at w q = Some DirNode" if "strict_prefix q p"
  proof (cases "q = butlast p")
    case False
    with that assms(4) have "strict_prefix q (butlast p)"
      by (metis append_butlast_last_id prefix_snoc strict_prefix_def)
    with wf_prefix[OF assms(1,3)] show ?thesis by blast
  qed (simp add: assms(3))
  with assms(2,5) show ?thesis unfolding only_at_def by fastforce
qed

section \<open>Each operation, mirrored and persisted\<close>

text \<open>The step of the simulation: the tasks that the operation has queued succeed and restore the agreement.\<close>

definition write_through_ok :: "segments \<Rightarrow> backend \<Rightarrow> persist list \<Rightarrow> opfs \<Rightarrow> bool" where
  "write_through_ok sc m xs w =
     (\<exists>w'. drain_queue xs None w = (None, w') \<and> mirrors sc m w' \<and> wf_opfs w' \<and> faults w' = [])"

lemma has_dir_simps [simp]:
  "has_dir (set_file k f m) = has_dir m" "has_dir (delete_file k m) = has_dir m" "has_dir (enqueue_task x m) = has_dir m"
  "has_dir (delete_dir k m) k' \<longleftrightarrow> has_dir m k' \<and> k' \<noteq> k" "has_dir (add_dir k m) k' \<longleftrightarrow> k' = k \<or> has_dir m k'"
  by (auto simp: has_dir_def set_file_def delete_file_def enqueue_task_def delete_dir_def add_dir_def fun_eq_iff)

lemma files_simps [simp]:
  "map_of (files (set_file k f m)) = (map_of (files m))(k \<mapsto> f)"
  "map_of (files (delete_file k m)) = (map_of (files m))(k := None)"
  "files (enqueue_task x m) = files m" "files (delete_dir k m) = files m" "files (add_dir k m) = files m"
  by (simp_all add: set_file_def delete_file_def enqueue_task_def delete_dir_def add_dir_def update_conv' delete_conv')

lemma queue_simps [simp]:
  "queue (set_file k f m) = queue m" "queue (delete_file k m) = queue m" "queue (enqueue_task x m) = queue m @ [x]"
  "queue (delete_dir k m) = queue m" "queue (add_dir k m) = queue m"
  by (simp_all add: set_file_def delete_file_def enqueue_task_def delete_dir_def add_dir_def)

lemma mirrors_enqueue [simp]: "mirrors sc (enqueue_task x m) w = mirrors sc m w"
  by (simp add: mirrors_def)

lemma write_step:
  assumes "mirrors sc m w" "wf_opfs w" "faults w = []" "valid_segments p" "strict_prefix sc p"
    and "writeTextFileSync now (path_of p) d wx m = Inr m'"
  shows "\<exists>x. queue m' = queue m @ [x] \<and> write_through_ok sc m' [x] w"
proof -
  have sc: "prefix sc p" "p \<noteq> []" using assms(5) by (auto simp: strict_prefix_def)
  from assms(4,6) have par: "assertParentExists m (path_of p) = Inr ()" and nd: "\<not> has_dir m (path_of p)"
    and m': "m' = enqueue_task (PersistWrite (path_of p) d) (set_file (path_of p) \<lparr>mf_data = utf8_encode d, mf_mtimeMs = now\<rparr> (delete_dir (path_of p) m))"
    by (auto simp: writeTextFileSync_def Let_def assertFileTarget_def split: if_splits)
  note parent = assertParent_tree[OF assms(1,4,5) par]
  from mirrors_at(4)[OF assms(1,4) sc(1)] nd have "node_at w p \<noteq> Some DirNode" by simp
  from write_quiet[OF assms(3,2,4) sc(2) parent this] obtain w' where
    w': "opfs_writeFile [SLASH] (path_of p) (TextContent d) False w = (Inr (), w')" "faults w' = []" by blast
  from opfs_write_effect[OF assms(2) w'(1) refl] assms(4) have e: "wf_opfs w'" "only_at p w w'"
    "node_at w' p = Some (FileNode (utf8_encode d) (clock w))" by auto
  have "mirrors sc m' w'"
    by (rule mirrors_put[OF assms(1,4,5)]) (use only_at_parent[OF assms(2) e(2) parent sc(2)] e(3) nd in \<open>auto simp: m' data_of_def\<close>)
  with w' e show ?thesis by (auto simp: m' write_through_ok_def)
qed

lemma append_step:
  assumes "mirrors sc m w" "wf_opfs w" "faults w = []" "valid_segments p" "strict_prefix sc p"
    and "appendTextFileSync now (path_of p) d m = Inr m'"
  shows "\<exists>x. queue m' = queue m @ [x] \<and> write_through_ok sc m' [x] w"
proof -
  have sc: "prefix sc p" "p \<noteq> []" using assms(5) by (auto simp: strict_prefix_def)
  let ?d = "case map_of (files m) (path_of p) of Some f \<Rightarrow> mf_data f @ utf8_encode d | None \<Rightarrow> utf8_encode d"
  from assms(4,6) have par: "assertParentExists m (path_of p) = Inr ()" and nd: "\<not> has_dir m (path_of p)"
    and m': "m' = enqueue_task (PersistAppend (path_of p) d) (set_file (path_of p) \<lparr>mf_data = ?d, mf_mtimeMs = now\<rparr> m)"
    by (auto simp: appendTextFileSync_def Let_def assertFileTarget_def split: if_splits)
  note parent = assertParent_tree[OF assms(1,4,5) par]
  from mirrors_at(4)[OF assms(1,4) sc(1)] nd have "node_at w p \<noteq> Some DirNode" by simp
  from append_quiet[OF assms(3,2,4) sc(2) parent this] obtain w' where
    w': "opfs_appendFile [SLASH] (path_of p) (TextContent d) w = (Inr (), w')" "faults w' = []" by blast
  from opfs_append_effect[OF assms(2) w'(1) refl] assms(4) obtain d0 where e: "wf_opfs w'" "only_at p w w'"
    "d0 = [] \<and> node_at w p = None \<or> (\<exists>t. node_at w p = Some (FileNode d0 t))"
    "node_at w' p = Some (FileNode (d0 @ utf8_encode d) (clock w))" by auto
  have d: "?d = d0 @ utf8_encode d"
  proof (cases "map_of (files m) (path_of p)")
    case None
    with mirrors_at(1)[OF assms(1,4) sc(1)] e(3) show ?thesis by (auto simp: data_of_def)
  next
    case (Some f)
    from mirrors_at(2)[OF assms(1,4) sc(1) Some] e(3) Some show ?thesis by auto
  qed
  have "mirrors sc m' w'"
    by (rule mirrors_put[OF assms(1,4,5)]) (use only_at_parent[OF assms(2) e(2) parent sc(2)] e(4) nd d in \<open>auto simp: m' data_of_def\<close>)
  with w' e show ?thesis by (auto simp: m' write_through_ok_def)
qed

subsection \<open>Directories\<close>

lemma ensureDirPath_ok:
  assumes "valid_segments p"
  shows "has_dir (ensureDirPath (path_of p) m) k \<longleftrightarrow> has_dir m k \<or> (\<exists>q. prefix q p \<and> k = path_of q)"
    "files (ensureDirPath (path_of p) m) = files m" "queue (ensureDirPath (path_of p) m) = queue m"
proof -
  let ?step = "\<lambda>(current, m) segment. (current @ SLASH # segment, add_dir (current @ SLASH # segment) m)"
  have "fst (foldl ?step ([], add_dir [SLASH] m) p) = (if p = [] then [] else path_of p)
    \<and> (\<forall>k. has_dir (snd (foldl ?step ([], add_dir [SLASH] m) p)) k \<longleftrightarrow> has_dir m k \<or> (\<exists>q. prefix q p \<and> k = path_of q))
    \<and> files (snd (foldl ?step ([], add_dir [SLASH] m) p)) = files m
    \<and> queue (snd (foldl ?step ([], add_dir [SLASH] m) p)) = queue m" for p
  proof (induction p rule: rev_induct)
    case Nil
    show ?case by (auto simp: path_of_def)
  next
    case (snoc s p)
    have "(if p = [] then [] else path_of p) @ SLASH # s = path_of (p @ [s])"
      using path_of_snoc[of p s] by (simp add: path_of_def)
    with snoc show ?case by (auto simp: case_prod_beta prefix_snoc)
  qed
  from this[of p] assms show "has_dir (ensureDirPath (path_of p) m) k \<longleftrightarrow> has_dir m k \<or> (\<exists>q. prefix q p \<and> k = path_of q)"
    "files (ensureDirPath (path_of p) m) = files m" "queue (ensureDirPath (path_of p) m) = queue m"
    by (simp_all add: ensureDirPath_def split_path_of)
qed

lemma resolve_create_quiet:
  "faults w = [] \<Longrightarrow> wf_opfs w \<Longrightarrow> node_at w dir = Some DirNode \<Longrightarrow>
   \<forall>q d t. prefix q (dir @ ss) \<longrightarrow> node_at w q \<noteq> Some (FileNode d t) \<Longrightarrow>
   \<exists>w'. resolveDirectoryBySegments dir ss True w = (Inr (dir @ ss), w') \<and> faults w' = []"
proof (induction ss arbitrary: dir w)
  case (Cons s ss)
  have "prefix (dir @ [s]) (dir @ s # ss)" by simp
  then have nf: "node_at w (dir @ [s]) \<noteq> Some (FileNode d t)" for d t using Cons.prems(4) by blast
  then obtain v where v: "getDirectoryHandle dir s True w = (Inr (dir @ [s]), v)" "faults v = []"
    using Cons.prems(1) by (cases "node_at w (dir @ [s])"; cases "the (node_at w (dir @ [s]))") (auto simp: getDirectoryHandle_def)
  from getDirectoryHandle_effect[OF Cons.prems(2,3) v(1)] have g: "grown (dir @ [s]) w v" "node_at v (dir @ [s]) = Some DirNode" by auto
  then have "wf_opfs v" by (simp add: grown_def)
  moreover have "node_at v q \<noteq> Some (FileNode d t)" if "prefix q ((dir @ [s]) @ ss)" for q d t
    using g(1) Cons.prems(4) that unfolding grown_def
    by (metis append.assoc append_Cons append_Nil opfs_node.distinct(1) option.inject)
  ultimately show ?case using Cons.IH[OF v(2) _ g(2)] v by auto
qed simp

lemma mkdir_recursive_step:
  assumes "mirrors sc m w" "wf_opfs w" "faults w = []" "valid_segments p" "strict_prefix sc p"
    and "\<forall>q. prefix q p \<longrightarrow> \<not> has_file m (path_of q)"
    and "mkdirSync (path_of p) True m = Inr m'"
  shows "\<exists>x. queue m' = queue m @ [x] \<and> write_through_ok sc m' [x] w"
proof -
  from assms(4,7) have m': "m' = enqueue_task (PersistCreateDir (path_of p) True) (ensureDirPath (path_of p) m)"
    by (auto simp: mkdirSync_def Let_def split: if_splits)
  have sc: "prefix sc p" using assms(5) by (simp add: strict_prefix_def)
  have nf: "node_at w q \<noteq> Some (FileNode d t)" if q: "prefix q p" for q d t
  proof (cases "prefix sc q")
    case True
    with mirrors_at(3)[OF assms(1) valid_prefix[OF assms(4) q]] assms(6) q show ?thesis by blast
  next
    case False
    with q sc have "strict_prefix q sc" by (metis prefix_same_cases strict_prefix_def prefix_order.eq_iff)
    with wf_prefix[OF assms(2), of sc DirNode q] assms(1) show ?thesis by (simp add: mirrors_def)
  qed
  from resolve_create_quiet[OF assms(3,2), of "[]" p] nf obtain w' where
    w': "resolveDirectoryBySegments [] p True w = (Inr p, w')" "faults w' = []" by auto
  then have run: "opfs_createDir [SLASH] (path_of p) True w = (Inr (), w')"
    using assms(4) by (simp add: opfs_createDir_def Let_def resolveDirectoryOrCreate_def split_path_of caught_def)
  from resolve_effect[OF assms(2) _ w'(1)] have g: "grown p w w'" "node_at w' p = Some DirNode" by auto
  then have wf: "wf_opfs w'" by (simp add: grown_def)
  have pre: "node_at w' q = Some DirNode" if "prefix q p" for q
    using wf_prefix[OF wf g(2), of q] g(2) that by (cases "q = p") (auto simp: strict_prefix_def)
  have other: "node_at w' q = node_at w q" if "\<not> prefix q p" for q using g(1) that by (auto simp: grown_def)
  have "mirrors sc m' w'" unfolding mirrors_def
  proof (intro conjI allI impI)
    show "valid_segments sc" "node_at w' sc = Some DirNode" using assms(1) pre[OF sc] by (auto simp: mirrors_def)
  next
    fix q assume q: "valid_segments q" "prefix sc q"
    note at = mirrors_at[OF assms(1) q]
    have inj: "(\<exists>r. prefix r p \<and> path_of q = path_of r) \<longleftrightarrow> prefix q p"
      using path_of_inj[OF q(1)] valid_prefix[OF assms(4)] by blast
    show "map_option mf_data (map_of (files m') (path_of q)) = data_of (node_at w' q)"
    proof (cases "prefix q p")
      case True
      with assms(6) have "map_of (files m) (path_of q) = None" by (simp add: has_file_def)
      with pre[OF True] show ?thesis by (simp add: m' ensureDirPath_ok[OF assms(4)] data_of_def)
    next
      case False
      with other assms(1) q show ?thesis by (simp add: m' ensureDirPath_ok[OF assms(4)] mirrors_def)
    qed
    show "has_dir m' (path_of q) \<longleftrightarrow> node_at w' q = Some DirNode"
      using at(4) pre[of q] other[of q] inj by (auto simp: m' ensureDirPath_ok[OF assms(4)])
  qed
  with run w' wf show ?thesis by (auto simp: m' write_through_ok_def ensureDirPath_ok[OF assms(4)])
qed

lemma mkdir_step:
  assumes "mirrors sc m w" "wf_opfs w" "faults w = []" "valid_segments p" "strict_prefix sc p"
    and "mkdirSync (path_of p) False m = Inr m'"
  shows "\<exists>x. queue m' = queue m @ [x] \<and> write_through_ok sc m' [x] w"
proof -
  have sc: "prefix sc p" "p \<noteq> []" using assms(5) by (auto simp: strict_prefix_def)
  then have bl: "butlast p @ [last p] = p" by simp
  from assms(4,6) have par: "assertParentExists m (path_of p) = Inr ()" and nd: "\<not> has_dir m (path_of p)" "\<not> has_file m (path_of p)"
    and m': "m' = enqueue_task (PersistCreateDir (path_of p) False) (add_dir (path_of p) m)"
    by (auto simp: mkdirSync_def Let_def split: if_splits)
  note parent = assertParent_tree[OF assms(1,4,5) par]
  have none: "node_at w p = None"
  proof (cases "node_at w p")
    case (Some x)
    with mirrors_at(3,4)[OF assms(1,4) sc(1)] nd show ?thesis by (cases x) auto
  qed
  let ?w = "put_node p DirNode w"
  have run: "opfs_createDir [SLASH] (path_of p) False w = (Inr (), ?w)"
    using assms(2-4) sc parent none bl
    by (simp add: opfs_createDir_def Let_def splitPath_path_of resolve_quiet getDirectoryHandle_def caught_def)
  have "wf_opfs ?w" using assms(2) sc parent by (intro wf_put) auto
  moreover have "mirrors sc m' ?w"
    by (rule mirrors_put[OF assms(1,4,5)]) (use nd sc in \<open>auto simp: m' node_at_put data_of_def has_file_def\<close>)
  ultimately show ?thesis using run assms(3) by (auto simp: m' write_through_ok_def)
qed

subsection \<open>Renaming and removing\<close>

lemma remove_file_quiet:
  "faults w = [] \<Longrightarrow> node_at w (dir @ [n]) = Some (FileNode d t) \<Longrightarrow> \<exists>w'. removeEntry dir n r w = (Inr (), w') \<and> faults w' = []"
  by (simp add: removeEntry_def Let_def)

lemma copy_quiet:
  assumes "faults w = []" "wf_opfs w" "node_at w p = Some (FileNode b t)" "p \<noteq> []" "q \<noteq> []"
    and "node_at w (butlast q) = Some DirNode" "node_at w q \<noteq> Some DirNode" "p \<noteq> q"
  shows "\<exists>w'. copy_and_remove p (butlast p, last p) (butlast q, last q) w = (Inr (), w') \<and> faults w' = []"
proof -
  have pq: "butlast p @ [last p] = p" "butlast q @ [last q] = q" using assms(4,5) by auto
  from getFileHandle_create_quiet[OF assms(1), of "butlast q" "last q"] pq assms(7) obtain w1 where
    w1: "getFileHandle (butlast q) (last q) True w = (Inr q, w1)" "faults w1 = []" by auto
  from getFileHandle_effect[OF assms(2,6) w1(1)] pq obtain d u where
    e: "wf_opfs w1" "node_at w1 q = Some (FileNode d u)" "node_at w1 p = node_at w p" using assms(8) by auto
  from write_through_quiet[OF w1(2)] obtain w2 where w2: "write_through q b w1 = (Inr (), w2)" "faults w2 = []" by blast
  from write_through_put[OF e(1,2) w2(1)] e(3) assms(3,8) have "node_at w2 (butlast p @ [last p]) = Some (FileNode b t)" using pq by simp
  from remove_file_quiet[OF w2(2) this] obtain w3 where "removeEntry (butlast p) (last p) False w2 = (Inr (), w3)" "faults w3 = []" by blast
  with assms(1,3) w1 w2 show ?thesis by (simp add: copy_and_remove_def getFile_def)
qed

lemma rename_quiet:
  assumes "faults w = []" "wf_opfs w" "valid_segments p" "valid_segments q" "node_at w p = Some (FileNode b t)" "q \<noteq> []"
    and "node_at w (butlast q) = Some DirNode" "node_at w q \<noteq> Some DirNode" "p \<noteq> q"
  shows "\<exists>w'. opfs_renameFile cwd (path_of p) (path_of q) w = (Inr (), w') \<and> faults w' = []"
proof -
  have p: "p \<noteq> []" using assms(5) by (auto simp: node_at_def)
  then have pq: "butlast p @ [last p] = p" "butlast q @ [last q] = q" using assms(6) by auto
  have par: "node_at w (butlast p) = Some DirNode" using assms(2,5) p by (auto simp: wf_opfs_iff)
  obtain w' where w': "copy_and_remove p (butlast p, last p) (butlast q, last q) w = (Inr (), w')" "faults w' = []"
    using copy_quiet[OF assms(1,2,5) p assms(6-9)] by blast
  obtain v where v: "move_entry p q w = (Inr (), v)" "faults v = []"
    using assms(1,5,8) by (cases "node_at w q"; cases "the (node_at w q)") (auto simp: move_entry_def)
  show ?thesis
    using assms p pq par w' v
    by (cases "has_move w") (simp_all add: opfs_renameFile_def Let_def splitPath_path_of resolve_quiet
        getFileHandle_quiet[where d = b and t = t] caught_def)
qed

lemma rename_step:
  assumes "mirrors sc m w" "wf_opfs w" "faults w = []" "valid_segments p" "strict_prefix sc p" "valid_segments q" "strict_prefix sc q"
    and "p \<noteq> q" "has_file m (path_of p)" "renameSync (path_of p) (path_of q) m = Inr m'"
  shows "\<exists>x. queue m' = queue m @ [x] \<and> write_through_ok sc m' [x] w"
proof -
  have sc: "prefix sc p" "prefix sc q" "p \<noteq> []" "q \<noteq> []" using assms(5,7) by (auto simp: strict_prefix_def)
  from assms(9) obtain f where f: "map_of (files m) (path_of p) = Some f" by (auto simp: has_file_def)
  with assms(4,6,10) have par: "assertParentExists m (path_of q) = Inr ()" and nd: "\<not> has_dir m (path_of q)"
    and m': "m' = enqueue_task (PersistRename (path_of p) (path_of q)) (set_file (path_of q) f (delete_file (path_of p) m))"
    by (auto simp: renameSync_def Let_def split: if_splits)
  note parent = assertParent_tree[OF assms(1,6,7) par]
  from mirrors_at(2)[OF assms(1,4) sc(1) f] obtain t where p: "node_at w p = Some (FileNode (mf_data f) t)" by blast
  from mirrors_at(4)[OF assms(1,6) sc(2)] nd have q: "node_at w q \<noteq> Some DirNode" by simp
  from rename_quiet[OF assms(3,2,4,6) p sc(4) parent q assms(8)] obtain w' where
    w': "opfs_renameFile [SLASH] (path_of p) (path_of q) w = (Inr (), w')" "faults w' = []" by blast
  from opfs_rename_effect[OF assms(2) w'(1) refl refl] assms(4,6,8) p obtain t' where e: "wf_opfs w'"
    "\<And>x. x \<noteq> p \<Longrightarrow> x \<noteq> q \<Longrightarrow> node_at w' x = node_at w x" "node_at w' p = None" "node_at w' q = Some (FileNode (mf_data f) t')" by auto
  have inj: "path_of x = path_of p \<longleftrightarrow> x = p" "path_of x = path_of q \<longleftrightarrow> x = q" if "valid_segments x" for x
    using path_of_inj that assms(4,6) by auto
  have "mirrors sc m' w'" unfolding mirrors_def
  proof (intro conjI allI impI)
    show "valid_segments sc" using assms(1) by (simp add: mirrors_def)
    show "node_at w' sc = Some DirNode" using assms(1,5,7) e(2)[of sc] by (auto simp: mirrors_def)
  next
    fix x assume x: "valid_segments x" "prefix sc x"
    have "\<not> has_dir m (path_of p)" using mirrors_at(4)[OF assms(1,4) sc(1)] p by simp
    with assms(1) x inj[OF x(1)] inj(1)[OF assms(6)] assms(8) e nd show
      "map_option mf_data (map_of (files m') (path_of x)) = data_of (node_at w' x)"
      "has_dir m' (path_of x) \<longleftrightarrow> node_at w' x = Some DirNode"
      by (auto simp: m' mirrors_def data_of_def)
  qed
  with w' e(1) show ?thesis by (auto simp: m' write_through_ok_def)
qed

lemma remove_quiet:
  assumes "faults w = []" "wf_opfs w" "valid_segments p" "p \<noteq> []" "node_at w (butlast p) = Some DirNode"
    and "node_at w p = Some DirNode \<Longrightarrow> recursive"
  shows "\<exists>w'. opfs_remove cwd (path_of p) recursive True w = (Inr (), w') \<and> faults w' = []"
proof -
  have bl: "butlast p @ [last p] = p" using assms(4) by simp
  show ?thesis
  proof (cases "node_at w p")
    case None
    then have "removeEntry (butlast p) (last p) recursive w = (Inl DomNotFound, w)" using assms(1) bl by (simp add: removeEntry_def)
    with assms show ?thesis by (simp add: opfs_remove_def Let_def splitPath_path_of resolve_quiet caught_def)
  next
    case (Some x)
    then obtain w' where "removeEntry (butlast p) (last p) recursive w = (Inr (), w')" "faults w' = []"
      using assms(1,6) bl by (cases x) (auto simp: removeEntry_def Let_def)
    with assms show ?thesis by (simp add: opfs_remove_def Let_def splitPath_path_of resolve_quiet caught_def)
  qed
qed

lemma rm_step:
  assumes "mirrors sc m w" "wf_opfs w" "faults w = []" "valid_segments p" "strict_prefix sc p"
    and "assertParentExists m (path_of p) = Inr ()" "rmSync (path_of p) recursive force m = Inr m'"
  shows "\<exists>x. queue m' = queue m @ [x] \<and> write_through_ok sc m' [x] w"
proof -
  have sc: "prefix sc p" "p \<noteq> []" using assms(5) by (auto simp: strict_prefix_def)
  note parent = assertParent_tree[OF assms(1,4,5,6)]
  note at = mirrors_at[OF assms(1,4) sc(1)]
  let ?pre = "path_of p @ [SLASH]"
  let ?m = "if has_file m (path_of p) then delete_file (path_of p) m
    else if has_dir m (path_of p) \<or> list_ex (prefix ?pre) (dirs m) \<or> list_ex (prefix ?pre) (map fst (files m))
    then m\<lparr>files := filter (\<lambda>e. \<not> prefix ?pre (fst e)) (files m), dirs := filter (\<lambda>d. d \<noteq> path_of p \<and> \<not> prefix ?pre d) (dirs m)\<rparr>
    else m"
  from assms(4,7) have m': "m' = enqueue_task (PersistRemove (path_of p) recursive) ?m"
    and rec: "has_dir m (path_of p) \<Longrightarrow> \<not> has_file m (path_of p) \<Longrightarrow> recursive"
    by (auto simp: rmSync_def Let_def split: if_splits)
  have "node_at w p = Some DirNode \<Longrightarrow> recursive" using rec at by auto
  from remove_quiet[OF assms(3,2,4) sc(2) parent this] obtain w' where
    w': "opfs_remove [SLASH] (path_of p) recursive True w = (Inr (), w')" "faults w' = []" by blast
  from opfs_remove_effect[OF assms(2) w'(1) refl] assms(4) have e: "wf_opfs w'"
    "\<And>q. node_at w' q = (if prefix p q then None else node_at w q)" by auto
  have fl: "map_of (filter (\<lambda>e. \<not> prefix ?pre (fst e)) fs) k = (if prefix ?pre k then None else map_of fs k)"
    for fs :: "(js_string \<times> mirror_file) list" and k by (induction fs) auto
  have "mirrors sc ?m w'" unfolding mirrors_def
  proof (intro conjI allI impI)
    show "valid_segments sc" using assms(1) by (simp add: mirrors_def)
    show "node_at w' sc = Some DirNode" using assms(1,5) e(2)[of sc] by (auto simp: mirrors_def strict_prefix_def)
  next
    fix x assume x: "valid_segments x" "prefix sc x"
    have mx: "map_option mf_data (map_of (files m) (path_of x)) = data_of (node_at w x)"
      "has_dir m (path_of x) \<longleftrightarrow> node_at w x = Some DirNode" using assms(1) x by (auto simp: mirrors_def)
    have inj: "path_of x = path_of p \<longleftrightarrow> x = p" using path_of_inj x(1) assms(4) by blast
    note below = path_below[OF assms(4) x(1) sc(2)]
    have gone: "node_at w x = None" if "node_at w p \<noteq> Some DirNode" "strict_prefix p x"
      using wf_prefix[OF assms(2), of x _ p] that by (cases "node_at w x") auto
    have none: "node_at w x = None" if "node_at w p = None" "prefix p x"
      using gone that by (cases "x = p") (auto simp: strict_prefix_def)
    consider (is_file) "has_file m (path_of p)"
      | (is_dir) "\<not> has_file m (path_of p)"
          "has_dir m (path_of p) \<or> list_ex (prefix ?pre) (dirs m) \<or> list_ex (prefix ?pre) (map fst (files m))"
      | (missing) "\<not> has_file m (path_of p)"
          "\<not> (has_dir m (path_of p) \<or> list_ex (prefix ?pre) (dirs m) \<or> list_ex (prefix ?pre) (map fst (files m)))" by blast
    then have "map_option mf_data (map_of (files ?m) (path_of x)) = data_of (node_at w' x)
      \<and> (has_dir ?m (path_of x) \<longleftrightarrow> node_at w' x = Some DirNode)"
    proof cases
      case is_file
      then have np: "node_at w p \<noteq> Some DirNode" using at(3) by auto
      then have "\<not> has_dir m (path_of p)" using at(4) by simp
      with is_file mx inj gone[OF np] e(2)[of x] show ?thesis by (auto simp: data_of_def strict_prefix_def)
    next
      case is_dir
      have "has_dir ?m (path_of x) \<longleftrightarrow> has_dir m (path_of x) \<and> \<not> prefix p x"
        using is_dir inj below by (auto simp: has_dir_def strict_prefix_def)
      moreover have "map_of (files ?m) (path_of x) = (if prefix p x then None else map_of (files m) (path_of x))"
        using is_dir inj below fl by (auto simp: has_file_def strict_prefix_def)
      ultimately show ?thesis using mx e(2)[of x] by (auto simp: data_of_def)
    next
      case missing
      then have "node_at w p = None" using at(3,4) by (cases "node_at w p"; cases "the (node_at w p)") auto
      with missing mx none e(2)[of x] show ?thesis by (auto simp: data_of_def)
    qed
    then show "map_option mf_data (map_of (files ?m) (path_of x)) = data_of (node_at w' x)"
      "has_dir ?m (path_of x) \<longleftrightarrow> node_at w' x = Some DirNode" by auto
  qed
  with w' e(1) show ?thesis by (auto simp: m' write_through_ok_def)
qed

section \<open>Sequences of operations and the flush\<close>

datatype sync_call =
    SyncWrite js_string js_string bool
  | SyncAppend js_string js_string
  | SyncMkdir js_string bool
  | SyncRename js_string js_string
  | SyncRm js_string bool bool

fun run_sync :: "nat \<Rightarrow> sync_call \<Rightarrow> backend \<Rightarrow> errno + backend" where
  "run_sync now (SyncWrite path data wx) m = writeTextFileSync now path data wx m"
| "run_sync now (SyncAppend path data) m = appendTextFileSync now path data m"
| "run_sync now (SyncMkdir path recursive) m = mkdirSync path recursive m"
| "run_sync now (SyncRename source destination) m = renameSync source destination m"
| "run_sync now (SyncRm path recursive force) m = rmSync path recursive force m"

text \<open>A call that throws leaves the backend as it is.\<close>

definition sync_exec :: "sync_call \<Rightarrow> nat \<times> backend \<Rightarrow> nat \<times> backend" where
  "sync_exec c = (\<lambda>(now, m). (Suc now, case run_sync now c m of Inl e \<Rightarrow> m | Inr m' \<Rightarrow> m'))"

definition segments_in :: "js_string \<Rightarrow> segments" where
  "segments_in path = splitToSegments path [SLASH]"

text \<open>
  The calls for which the write-through does what the mirror does: below the scope, no recursive directory through a file, no
  rename of a directory or of a file to itself, no removal below a missing directory.
\<close>

fun plain_call :: "segments \<Rightarrow> backend \<Rightarrow> sync_call \<Rightarrow> bool" where
  "plain_call sc m (SyncWrite path data wx) = strict_prefix sc (segments_in path)"
| "plain_call sc m (SyncAppend path data) = strict_prefix sc (segments_in path)"
| "plain_call sc m (SyncMkdir path recursive) =
     (strict_prefix sc (segments_in path)
      \<and> (recursive \<longrightarrow> list_all (\<lambda>q. \<not> has_file m (path_of q)) (prefixes (segments_in path))))"
| "plain_call sc m (SyncRename source destination) =
     (strict_prefix sc (segments_in source) \<and> strict_prefix sc (segments_in destination)
      \<and> segments_in source \<noteq> segments_in destination \<and> \<not> has_dir m (path_of (segments_in source)))"
| "plain_call sc m (SyncRm path recursive force) =
     (strict_prefix sc (segments_in path) \<and> is_ok (assertParentExists m (path_of (segments_in path))))"

fun plain_calls :: "segments \<Rightarrow> nat \<times> backend \<Rightarrow> sync_call list \<Rightarrow> bool" where
  "plain_calls sc s [] = True"
| "plain_calls sc s (c # cs) = (plain_call sc (snd s) c \<and> plain_calls sc (sync_exec c s) cs)"

lemma normalize_slash: "normalizeVirtualPath path [SLASH] = path_of (segments_in path)"
  by (simp add: normalizeVirtualPath_def segments_in_def)

lemma segments_in_valid [simp]: "valid_segments (segments_in path)"
  by (simp add: segments_in_def splitToSegments_valid)

lemma segments_in_path [simp]: "valid_segments p \<Longrightarrow> segments_in (path_of p) = p"
  by (simp add: segments_in_def)

lemma sync_paths:
  "writeTextFileSync now path d wx m = writeTextFileSync now (path_of (segments_in path)) d wx m"
  "appendTextFileSync now path d m = appendTextFileSync now (path_of (segments_in path)) d m"
  "mkdirSync path recursive m = mkdirSync (path_of (segments_in path)) recursive m"
  "renameSync source destination m = renameSync (path_of (segments_in source)) (path_of (segments_in destination)) m"
  "rmSync path recursive force m = rmSync (path_of (segments_in path)) recursive force m"
  by (simp_all add: writeTextFileSync_def appendTextFileSync_def mkdirSync_def renameSync_def rmSync_def normalize_slash Let_def)

lemma plain_step:
  assumes "mirrors sc m w" "wf_opfs w" "faults w = []" "plain_call sc m c" "run_sync now c m = Inr m'"
  shows "\<exists>x. queue m' = queue m @ [x] \<and> write_through_ok sc m' [x] w"
proof (cases c)
  case (SyncWrite path data wx)
  with assms write_step[OF assms(1-3), of "segments_in path"] show ?thesis by (simp add: sync_paths(1)[of now path])
next
  case (SyncAppend path data)
  with assms append_step[OF assms(1-3), of "segments_in path"] show ?thesis by (simp add: sync_paths(2)[of now path])
next
  case (SyncMkdir path recursive)
  show ?thesis
  proof (cases recursive)
    case True
    with SyncMkdir assms mkdir_recursive_step[OF assms(1-3), of "segments_in path"] show ?thesis
      by (simp add: sync_paths(3)[of path] list_all_iff)
  next
    case False
    with SyncMkdir assms mkdir_step[OF assms(1-3), of "segments_in path"] show ?thesis by (simp add: sync_paths(3)[of path])
  qed
next
  case (SyncRename source destination)
  have "has_file m (path_of (segments_in source))"
    using assms(4,5) SyncRename by (auto simp: renameSync_def normalize_slash Let_def has_file_def split: if_splits)
  with SyncRename assms rename_step[OF assms(1-3), of "segments_in source" "segments_in destination"] show ?thesis
    by (simp add: sync_paths(4)[of source])
next
  case (SyncRm path recursive force)
  have "assertParentExists m (path_of (segments_in path)) = Inr ()"
    using assms(4) SyncRm by (auto simp: is_ok_def split: sum.splits)
  with SyncRm assms rm_step[OF assms(1-3), of "segments_in path"] show ?thesis by (simp add: sync_paths(5)[of path])
qed

lemma drain_append: "drain_queue (xs @ ys) err w = (case drain_queue xs err w of (e, w) \<Rightarrow> drain_queue ys e w)"
  by (induction xs arbitrary: err w) (auto split: prod.splits sum.splits)

lemma run_sync_error: "run_sync now c m = Inr m' \<Longrightarrow> lastQueueError m' = lastQueueError m"
proof -
  have e: "lastQueueError (ensureDirPath p m) = lastQueueError m" for p m
  proof -
    have "lastQueueError (snd (foldl (\<lambda>(current, m) segment. (current @ SLASH # segment, add_dir (current @ SLASH # segment) m)) (c, m) ss))
        = lastQueueError m" for c m ss
      by (induction ss arbitrary: c m) (auto simp: add_dir_def)
    then show ?thesis by (simp add: ensureDirPath_def) (simp add: add_dir_def)
  qed
  have mf: "lastQueueError (fst (foldl (move_file a b) (m, acc) ks)) = lastQueueError m" for a b m acc ks
    by (induction ks arbitrary: m acc) (auto simp: move_file_def set_file_def delete_file_def Let_def split: option.splits)
  have md: "lastQueueError (foldl (move_dir a b) m ds) = lastQueueError m" for a b m ds
    by (induction ds arbitrary: m) (auto simp: move_dir_def add_dir_def delete_dir_def)
  have rd: "lastQueueError (rename_directory a b m) = lastQueueError m" for a b m
    using mf md by (simp add: rename_directory_def Let_def case_prod_unfold enqueue_task_def e delete_dir_def)
  assume "run_sync now c m = Inr m'"
  then show ?thesis
    by (cases c) (auto simp: writeTextFileSync_def appendTextFileSync_def mkdirSync_def renameSync_def rmSync_def Let_def rd e
        enqueue_task_def set_file_def delete_file_def delete_dir_def add_dir_def split: if_splits option.splits)
qed

lemma sync_runs:
  assumes "plain_calls sc s cs" "drain_queue (queue (snd s)) None w = (None, v)" "mirrors sc (snd s) v" "wf_opfs v" "faults v = []"
  shows "\<exists>w'. drain_queue (queue (snd (fold sync_exec cs s))) None w = (None, w') \<and> mirrors sc (snd (fold sync_exec cs s)) w'
    \<and> wf_opfs w' \<and> faults w' = [] \<and> lastQueueError (snd (fold sync_exec cs s)) = lastQueueError (snd s)"
  using assms
proof (induction cs arbitrary: s v)
  case (Cons c cs)
  obtain now m where s: "s = (now, m)" by (cases s)
  show ?case
  proof (cases "run_sync now c m")
    case (Inl e)
    then have "sync_exec c s = (Suc now, m)" by (simp add: sync_exec_def s)
    with Cons.IH[of "(Suc now, m)" v] Cons.prems s show ?thesis by simp
  next
    case (Inr m')
    then have s': "sync_exec c s = (Suc now, m')" by (simp add: sync_exec_def s)
    from Cons.prems s have "mirrors sc m v" "plain_call sc m c" by auto
    from plain_step[OF this(1) Cons.prems(4,5) this(2) Inr] obtain x v' where x: "queue m' = queue m @ [x]"
      "drain_queue [x] None v = (None, v')" "mirrors sc m' v'" "wf_opfs v'" "faults v' = []" by (auto simp: write_through_ok_def)
    have "drain_queue (queue m') None w = (None, v')" using x(1,2) Cons.prems(2) s by (simp only: drain_append snd_conv prod.case)
    with Cons.IH[of "(Suc now, m')" v'] Cons.prems(1) s' x run_sync_error[OF Inr] s show ?thesis by simp
  qed
qed auto


section \<open>Hydration restores the mirror\<close>

text \<open>Names as the platform allows them: not empty and without a slash.\<close>

definition named :: "segments \<Rightarrow> bool" where
  "named p = list_all (\<lambda>s. s \<noteq> [] \<and> SLASH \<notin> set s) p"

definition named_tree :: "opfs \<Rightarrow> bool" where
  "named_tree w = list_all (\<lambda>e. named (fst e)) (entries w)"

lemma valid_named: "valid_segments p \<Longrightarrow> named p"
  by (auto simp: valid_segments_def named_def valid_segment_def list_all_iff)

lemma named_path_inj:
  assumes "named p" "named q"
  shows "path_of p = path_of q \<longleftrightarrow> p = q"
proof -
  have join: "js_split SLASH (js_join [SLASH] p) = p" if "named p" "p \<noteq> []" for p
    using that by (intro js_split_join) (auto simp: named_def list_all_iff)
  have "js_join [SLASH] p \<noteq> []" if "named p" "p \<noteq> []" for p
    using that by (cases p) (auto simp: named_def js_join_Cons)
  then show ?thesis using join assms by (cases "p = []"; cases "q = []") (auto simp: path_of_def, metis+)
qed

text \<open>What reading a directory with everything below adds to the mirror.\<close>

definition hydrated :: "opfs \<Rightarrow> (segments \<Rightarrow> bool) \<Rightarrow> backend \<Rightarrow> backend \<Rightarrow> bool" where
  "hydrated w S m m' =
     (\<forall>p. named p \<longrightarrow>
        map_of (files m') (path_of p) =
          (case node_at w p of
             Some (FileNode d t) \<Rightarrow> if S p then Some \<lparr>mf_data = d, mf_mtimeMs = t\<rparr> else map_of (files m) (path_of p)
           | _ \<Rightarrow> map_of (files m) (path_of p))
        \<and> (has_dir m' (path_of p) \<longleftrightarrow> has_dir m (path_of p) \<or> S p \<and> node_at w p = Some DirNode))"

lemma hydrated_trans: "hydrated w S m m' \<Longrightarrow> hydrated w S' m' m'' \<Longrightarrow> hydrated w (\<lambda>p. S p \<or> S' p) m m''"
  unfolding hydrated_def by (auto split: option.splits opfs_node.splits)

lemma hydrated_cong: "hydrated w S m m' \<Longrightarrow> (\<And>p. node_at w p \<noteq> None \<Longrightarrow> S p \<longleftrightarrow> S' p) \<Longrightarrow> hydrated w S' m m'"
  unfolding hydrated_def by (auto split: option.splits opfs_node.splits)

text \<open>The same reading without the calls that may fail.\<close>

fun hydrate_tree :: "nat \<Rightarrow> opfs \<Rightarrow> segments \<Rightarrow> backend \<Rightarrow> backend" where
  "hydrate_tree 0 w dir m = m"
| "hydrate_tree (Suc n) w dir m =
     foldl (\<lambda>m e. case snd e of
              FileNode d t \<Rightarrow> set_file (path_of (fst e)) \<lparr>mf_data = d, mf_mtimeMs = t\<rparr> m
            | DirNode \<Rightarrow> hydrate_tree n w (fst e) m)
       (add_dir (path_of dir) m) (filter (\<lambda>e. is_child dir (fst e)) (entries w))"

lemma hydrate_quiet:
  assumes "wf_opfs w" "faults w = []"
  shows "hydrateDirectory n dir m w = (Inr (hydrate_tree n w dir m), w)"
proof (induction n arbitrary: dir m)
  case (Suc n)
  have node: "node_at w p = Some x" if "(p, x) \<in> set (entries w)" for p x
    using assms(1) that by (force simp: wf_opfs_iff node_at_def intro: map_of_is_SomeI)
  have "hydrate_children (hydrateDirectory n) es m w =
      (Inr (foldl (\<lambda>m e. case snd e of
              FileNode d t \<Rightarrow> set_file (path_of (fst e)) \<lparr>mf_data = d, mf_mtimeMs = t\<rparr> m
            | DirNode \<Rightarrow> hydrate_tree n w (fst e) m) m es), w)" if "set es \<subseteq> set (entries w)" for es m
    using that
  proof (induction es arbitrary: m)
    case (Cons e es)
    then show ?case
      by (cases e; cases "snd e") (auto simp: assms(2) getFile_def dom_call_def node Suc.IH)
  qed simp
  with assms(2) show ?case by (simp add: dom_call_def)
qed simp

lemma hydrate_directory:
  assumes "wf_opfs w" "named_tree w"
  shows "node_at w dir = Some DirNode \<Longrightarrow> named dir \<Longrightarrow> (\<And>q. prefix dir q \<Longrightarrow> node_at w q \<noteq> None \<Longrightarrow> length q < length dir + n) \<Longrightarrow>
    hydrated w (prefix dir) m (hydrate_tree n w dir m)"
proof (induction n arbitrary: dir m)
  case 0
  from 0(3)[of dir] 0(1) show ?case by simp
next
  case (Suc n)
  let ?cs = "filter (\<lambda>e. is_child dir (fst e)) (entries w)"
  let ?f = "\<lambda>m e. case snd e of
              FileNode d t \<Rightarrow> set_file (path_of (fst e)) \<lparr>mf_data = d, mf_mtimeMs = t\<rparr> m
            | DirNode \<Rightarrow> hydrate_tree n w (fst e) m"
  have node: "node_at w (fst e) = Some (snd e)" "named (fst e)" "fst e \<noteq> []" if "e \<in> set (entries w)" for e
    using assms that by (auto simp: wf_opfs_iff named_tree_def list_all_iff node_at_def image_iff intro: map_of_is_SomeI)
  have one: "hydrated w (prefix (fst e)) m (?f m e)" if e: "e \<in> set ?cs" for m e
  proof (cases "snd e")
    case (FileNode d t)
    have ne: "node_at w (fst e) = Some (FileNode d t)" "named (fst e)" using node e FileNode by auto
    have "p = fst e" if "prefix (fst e) p" "node_at w p \<noteq> None" for p
      using wf_below_file[OF assms(1) ne(1), of p] that by (auto simp: strict_prefix_def)
    with ne show ?thesis
      by (auto simp: hydrated_def FileNode named_path_inj split: option.splits opfs_node.splits)
  next
    case DirNode
    have ne: "node_at w (fst e) = Some DirNode" "named (fst e)" using node e DirNode by auto
    have len: "length (fst e) = Suc (length dir)" "prefix dir (fst e)" using e node(3)[of e] by (auto simp: is_child_def prefix_def)
      (metis append_butlast_last_id)
    have "hydrated w (prefix (fst e)) m (hydrate_tree n w (fst e) m)"
      using Suc.prems(3) len by (intro Suc.IH[OF ne]) (metis add_Suc_right add_Suc prefix_order.trans)
    with DirNode show ?thesis by simp
  qed
  have fold: "hydrated w (\<lambda>p. \<exists>e \<in> set cs. prefix (fst e) p) m (foldl ?f m cs)" if "set cs \<subseteq> set ?cs" for m cs
    using that
  proof (induction cs arbitrary: m)
    case Nil
    show ?case by (auto simp: hydrated_def split: option.splits opfs_node.splits)
  next
    case (Cons e cs)
    from hydrated_trans[OF one[of e m] Cons.IH[of "?f m e"]] Cons.prems show ?case
      by (simp add: hydrated_def)
  qed
  have start: "hydrated w (\<lambda>p. p = dir) m (add_dir (path_of dir) m)"
    using Suc.prems(1,2) by (auto simp: hydrated_def named_path_inj split: option.splits opfs_node.splits)
  have child: "p = dir \<or> (\<exists>e \<in> set ?cs. prefix (fst e) p) \<longleftrightarrow> prefix dir p" if p: "node_at w p \<noteq> None" for p
  proof
    assume "p = dir \<or> (\<exists>e \<in> set ?cs. prefix (fst e) p)"
    then show "prefix dir p"
      by (auto simp: is_child_def) (metis append_butlast_last_id prefix_order.trans prefixI)
  next
    assume pre: "prefix dir p"
    show "p = dir \<or> (\<exists>e \<in> set ?cs. prefix (fst e) p)"
    proof (cases "p = dir")
      case False
      with pre obtain s r where ps: "p = dir @ s # r" by (metis append_Nil2 neq_Nil_conv prefix_def)
      let ?c = "dir @ [s]"
      have "prefix ?c p" by (simp add: ps)
      then have "node_at w ?c \<noteq> None" using p wf_prefix[OF assms(1), of p _ ?c] by (cases "?c = p") (auto simp: strict_prefix_def)
      then obtain x where "(?c, x) \<in> set (entries w)" by (auto simp: node_at_def dest: map_of_SomeD)
      with \<open>prefix ?c p\<close> show ?thesis by (force simp: is_child_def)
    qed simp
  qed
  from hydrated_trans[OF start fold[of ?cs]] have "hydrated w (\<lambda>p. p = dir \<or> (\<exists>e \<in> set ?cs. prefix (fst e) p)) m
      (foldl ?f (add_dir (path_of dir) m) ?cs)" by simp
  from hydrated_cong[OF this, of "prefix dir"] child show ?case by simp
qed

lemma depth_bound: "p \<in> fst ` set (entries w) \<Longrightarrow> length p \<le> depth w"
proof -
  have "x \<in> set xs \<Longrightarrow> x \<le> foldr max xs (0::nat)" for x xs by (induction xs) auto
  then show "p \<in> fst ` set (entries w) \<Longrightarrow> length p \<le> depth w" unfolding depth_def by force
qed

lemma create_mirrors:
  assumes "wf_opfs w" and "named_tree w" and "faults w = []" and "sc = segments_in scope" and "node_at w sc = Some DirNode"
  shows "\<exists>m. create_backend [scope] w = (Inr m, w) \<and> mirrors sc m w"
proof -
  let ?m = "hydrate_tree (Suc (depth w)) w sc empty_backend"
  have sc: "valid_segments sc" by (simp add: assms(4))
  have "resolveDirectoryBySegments [] sc False w = (Inr sc, w)"
    using resolve_quiet[OF assms(3,1), of "[]" sc False] assms(5) by simp
  then have b: "create_backend [scope] w = (Inr ?m, w)"
    using assms(4) by (simp add: create_backend_def hydrateScope_def Let_def normalize_slash split_path_of
        hydrate_quiet[OF assms(1,3)]
        del: hydrateDirectory.simps hydrate_tree.simps)
  have "length q < length sc + Suc (depth w)" if "node_at w q \<noteq> None" for q
  proof (cases "q = []")
    case False
    with that have "q \<in> fst ` set (entries w)" by (auto simp: node_at_def map_of_eq_None_iff)
    from depth_bound[OF this] show ?thesis by simp
  qed simp
  from hydrate_directory[OF assms(1,2,5) valid_named[OF sc], of "Suc (depth w)" empty_backend] this
  have "hydrated w (prefix sc) empty_backend ?m" by blast
  with sc assms(5) have "mirrors sc ?m w"
    unfolding mirrors_def hydrated_def
    by (auto simp: valid_named empty_backend_def has_dir_def data_of_def split: option.splits opfs_node.splits)
  with b show ?thesis by blast
qed

text \<open>C16: A restart finds what was flushed.  When the scope is a directory of a well-formed tree, creating a backend reads the
  whole scope: mirror and tree agree below it, with the contents of all files and with all directories.\<close>

theorem hydration_mirrors:
  assumes "wf_opfs w" and "named_tree w" and "faults w = []" and "sc = segments_in scope" and "node_at w sc = Some DirNode"
  shows "\<exists>m. create_backend [scope] w = (Inr m, w) \<and> mirrors sc m w"
  using assms by (rule create_mirrors)

section \<open>Where the write-through goes another way\<close>

definition fresh_backend :: backend where
  "fresh_backend = \<lparr>files = [], dirs = [[SLASH]], queue = [], lastQueueError = None\<rparr>"

lemma fresh_backend_created: "create_backend [[SLASH]] (empty_opfs False []) = (Inr fresh_backend, empty_opfs False [])"
  by code_simp

definition run_calls :: "sync_call list \<Rightarrow> opfs \<Rightarrow> backend \<times> (file_code + unit) \<times> opfs" where
  "run_calls calls w =
     (let m = snd (fold sync_exec calls (1, fresh_backend))
      in case flush m w of (r, m', w') \<Rightarrow> (m', r, w'))"

text \<open>A directory moved into itself: the mirror has the file at its new place, the tree has lost it.\<close>

lemma moved_into_itself:
  "let (m, r, w) = run_calls
        [SyncMkdir (ascii_units ''/a'') False, SyncWrite (ascii_units ''/a/f'') [] False,
         SyncRename (ascii_units ''/a'') (ascii_units ''/a/b'')] (empty_opfs False [])
   in r = Inr () \<and> existsSync m (ascii_units ''/a/b/f'') \<and> entries w = []"
  by code_simp

text \<open>A directory with an empty one in it is renamed: the tree lacks the empty one.\<close>

lemma empty_directory_lost:
  "let (m, r, w) = run_calls
        [SyncMkdir (ascii_units ''/a'') False, SyncMkdir (ascii_units ''/a/e'') False,
         SyncRename (ascii_units ''/a'') (ascii_units ''/b'')] (empty_opfs False [])
   in r = Inr () \<and> existsSync m (ascii_units ''/b/e'') \<and> entries w = [([ascii_units ''b''], DirNode)]"
  by code_simp

text \<open>A file renamed to itself: the mirror has it, the tree has lost it.\<close>

lemma renamed_to_itself:
  "let (m, r, w) = run_calls
        [SyncWrite (ascii_units ''/f'') [] False, SyncRename (ascii_units ''/f'') (ascii_units ''/f'')] (empty_opfs False [])
   in r = Inr () \<and> existsSync m (ascii_units ''/f'') \<and> entries w = []"
  by code_simp

text \<open>A forced removal below a missing directory: the call succeeds, the flush fails.\<close>

lemma forced_removal_fails_flush:
  "let (m, r, w) = run_calls [SyncRm (ascii_units ''/a/f'') False True] (empty_opfs False [])
   in is_ok (run_sync 1 (SyncRm (ascii_units ''/a/f'') False True) fresh_backend)
     \<and> r = Inl NotFoundCode"
  by code_simp

text \<open>A directory created through a file: the mirror holds a file and a directory under one path.\<close>

lemma directory_through_file:
  "let (m, r, w) = run_calls
        [SyncWrite (ascii_units ''/f'') [] False, SyncMkdir (ascii_units ''/f/d'') True] (empty_opfs False [])
   in has_file m (ascii_units ''/f'') \<and> has_dir m (ascii_units ''/f'') \<and> r = Inl Unknown"
  by code_simp

text \<open>Of two failures the flush reports the second.\<close>

lemma flush_reports_last_error:
  assumes "run_persist x w = (Inl e, w1)" "run_persist y w1 = (Inl e', w2)" "queue m = [x, y]"
  shows "fst (flush m w) = Inl e'"
  using assms by (simp add: flush_def)

section \<open>Concrete runs of the mirror\<close>


theorem hydration_mirrors_witness:
  "\<exists>m. create_backend [ascii_units ''/a''] (one_file []) = (Inr m, one_file []) \<and> mirrors [ascii_units ''a''] m (one_file [])"
  by (rule hydration_mirrors) code_simp+

end
