(* ===== verification/Mutation_Queue.thy ===== *)
theory Mutation_Queue
  imports Prelude
begin

text \<open>
  The queue that serializes mutations of one file (\<^verbatim>\<open>packages/agent/src/harness/tools/file-mutation-queue.ts\<close>).  The calls
  of \<^verbatim>\<open>withFileMutationQueue\<close> on one environment are numbered in their order; their pieces of code between two
  \<^verbatim>\<open>await\<close>s are the steps, which interleave freely.  The function of a call reads a file and writes it back, as the
  tools that edit files do.
\<close>

section \<open>State\<close>

text \<open>
  How far a call has come: its registration waits for its turn, it has found its key, it waits for the queue it found
  (the call whose chained queue that is), its function runs, before or after it has read the file, and it has
  ended, with its write done (\<open>Returned\<close>, also when it throws after that because the call was aborted) or without
  (\<open>Thrown\<close>).  A registration that throws ends the call.
\<close>

datatype ('k, 'v) call_phase =
    Registering
  | KeyFound 'k
  | Waiting 'k "nat option"
  | Running 'k "nat option"
  | HasRead 'k "nat option" 'v
  | HasWritten 'k "nat option"
  | Returned 'k "nat option"
  | Thrown 'k "nat option"
  | Rejected

record ('k, 'v) mutation_call =
  call_update :: "'v \<Rightarrow> 'v option"
  call_phase :: "('k, 'v) call_phase"

record ('k, 'v) mutation_state =
  mq_calls :: "('k, 'v) mutation_call list"
  mq_queues :: "('k \<times> nat) list"
  mq_store :: "'k \<Rightarrow> 'v"

definition phase_of :: "('k, 'v) mutation_state \<Rightarrow> nat \<Rightarrow> ('k, 'v) call_phase" where
  "phase_of s i = (if i < length (mq_calls s) then call_phase (mq_calls s ! i) else Registering)"

definition set_phase :: "nat \<Rightarrow> ('k, 'v) call_phase \<Rightarrow> ('k, 'v) mutation_state \<Rightarrow> ('k, 'v) mutation_state" where
  "set_phase i p s = s\<lparr>mq_calls := (mq_calls s)[i := (mq_calls s ! i)\<lparr>call_phase := p\<rparr>]\<rparr>"

fun registered :: "('k, 'v) call_phase \<Rightarrow> bool" where
  "registered Registering = False"
| "registered (KeyFound k) = False"
| "registered _ = True"

text \<open>
  The promise \<^verbatim>\<open>chainedQueue\<close> of a call: the queue the call found, followed by the promise it resolves when its function
  has ended.  A call finds only queues of calls before it.
\<close>

fun released :: "('k, 'v) call_phase \<Rightarrow> bool" where
  "released (Returned k q) = True"
| "released (Thrown k q) = True"
| "released _ = False"

fun found_queue :: "('k, 'v) call_phase \<Rightarrow> nat option" where
  "found_queue (Waiting k q) = q"
| "found_queue (Running k q) = q"
| "found_queue (HasRead k q v) = q"
| "found_queue (HasWritten k q) = q"
| "found_queue (Returned k q) = q"
| "found_queue (Thrown k q) = q"
| "found_queue _ = None"

function chained_resolved :: "('k, 'v) mutation_state \<Rightarrow> nat \<Rightarrow> bool" where
  "chained_resolved s i =
     (released (phase_of s i)
      \<and> (case found_queue (phase_of s i) of None \<Rightarrow> True | Some j \<Rightarrow> if j < i then chained_resolved s j else False))"
  by auto
termination by (relation "measure snd") (auto split: if_splits)

definition current_resolved :: "('k, 'v) mutation_state \<Rightarrow> nat option \<Rightarrow> bool" where
  "current_resolved s q = (case q of None \<Rightarrow> True | Some j \<Rightarrow> chained_resolved s j)"

section \<open>Steps\<close>

datatype ('k, 'v) mutation_step =
    Call "'v \<Rightarrow> 'v option"
  | FindKey nat "'k option"
  | Register nat
  | Start nat
  | ReadFile nat
  | WriteFile nat
  | Finish nat
  | Throw nat

text \<open>\<^verbatim>\<open>state.registration\<close>: a registration runs when those of all earlier calls are settled.\<close>

definition registration_turn :: "('k, 'v) mutation_state \<Rightarrow> nat \<Rightarrow> bool" where
  "registration_turn s i = (i < length (mq_calls s) \<and> list_all (\<lambda>c. registered (call_phase c)) (take i (mq_calls s)))"

text \<open>The code from the key to the new queue runs without an \<^verbatim>\<open>await\<close>.\<close>

definition register :: "nat \<Rightarrow> 'k \<Rightarrow> ('k, 'v) mutation_state \<Rightarrow> ('k, 'v) mutation_state" where
  "register i k s =
     set_phase i (Waiting k (map_of (mq_queues s) k)) (s\<lparr>mq_queues := (k, i) # filter (\<lambda>e. fst e \<noteq> k) (mq_queues s)\<rparr>)"

text \<open>The \<^verbatim>\<open>finally\<close>: the next queue is released, and the map forgets the queue if no other call has joined it.\<close>

definition finish_call :: "nat \<Rightarrow> 'k \<Rightarrow> ('k, 'v) call_phase \<Rightarrow> ('k, 'v) mutation_state \<Rightarrow> ('k, 'v) mutation_state" where
  "finish_call i k p s =
     (let s = set_phase i p s
      in if map_of (mq_queues s) k = Some i then s\<lparr>mq_queues := filter (\<lambda>e. fst e \<noteq> k) (mq_queues s)\<rparr> else s)"

fun mq_step :: "('k, 'v) mutation_step \<Rightarrow> ('k, 'v) mutation_state \<Rightarrow> ('k, 'v) mutation_state option" where
  "mq_step (Call f) s = Some (s\<lparr>mq_calls := mq_calls s @ [\<lparr>call_update = f, call_phase = Registering\<rparr>]\<rparr>)"
| "mq_step (FindKey i k) s =
     (if registration_turn s i \<and> phase_of s i = Registering
      then Some (set_phase i (case k of None \<Rightarrow> Rejected | Some k \<Rightarrow> KeyFound k) s) else None)"
| "mq_step (Register i) s =
     (case phase_of s i of KeyFound k \<Rightarrow> Some (register i k s) | _ \<Rightarrow> None)"
| "mq_step (Start i) s =
     (case phase_of s i of
        Waiting k q \<Rightarrow> if current_resolved s q then Some (set_phase i (Running k q) s) else None
      | _ \<Rightarrow> None)"
| "mq_step (ReadFile i) s =
     (case phase_of s i of Running k q \<Rightarrow> Some (set_phase i (HasRead k q (mq_store s k)) s) | _ \<Rightarrow> None)"
| "mq_step (WriteFile i) s =
     (case phase_of s i of
        HasRead k q v \<Rightarrow>
          (case call_update (mq_calls s ! i) v of
             None \<Rightarrow> Some (finish_call i k (Thrown k q) s)
           | Some v' \<Rightarrow> Some (set_phase i (HasWritten k q) (s\<lparr>mq_store := (mq_store s)(k := v')\<rparr>)))
      | _ \<Rightarrow> None)"
| "mq_step (Finish i) s =
     (case phase_of s i of HasWritten k q \<Rightarrow> Some (finish_call i k (Returned k q) s) | _ \<Rightarrow> None)"
| "mq_step (Throw i) s =
     (case phase_of s i of Running k q \<Rightarrow> Some (finish_call i k (Thrown k q) s) | _ \<Rightarrow> None)"

definition mq_start :: "('k \<Rightarrow> 'v) \<Rightarrow> ('k, 'v) mutation_state" where
  "mq_start store = \<lparr>mq_calls = [], mq_queues = [], mq_store = store\<rparr>"

inductive mq_reachable :: "('k \<Rightarrow> 'v) \<Rightarrow> ('k, 'v) mutation_state \<Rightarrow> bool" for store where
  start: "mq_reachable store (mq_start store)"
| step: "mq_reachable store s \<Longrightarrow> mq_step x s = Some s' \<Longrightarrow> mq_reachable store s'"

fun mq_run :: "('k, 'v) mutation_step list \<Rightarrow> ('k, 'v) mutation_state \<Rightarrow> ('k, 'v) mutation_state option" where
  "mq_run [] s = Some s"
| "mq_run (x # xs) s = Option.bind (mq_step x s) (mq_run xs)"

section \<open>The invariant\<close>

fun key_of :: "('k, 'v) call_phase \<Rightarrow> 'k option" where
  "key_of (Waiting k q) = Some k"
| "key_of (Running k q) = Some k"
| "key_of (HasRead k q v) = Some k"
| "key_of (HasWritten k q) = Some k"
| "key_of (Returned k q) = Some k"
| "key_of (Thrown k q) = Some k"
| "key_of _ = None"

fun active :: "('k, 'v) call_phase \<Rightarrow> bool" where
  "active (Running k q) = True"
| "active (HasRead k q v) = True"
| "active (HasWritten k q) = True"
| "active _ = False"

definition started :: "('k, 'v) call_phase \<Rightarrow> bool" where
  "started p = (active p \<or> released p)"

text \<open>
  Registrations proceed in order; a queue that a call found belongs to the last call before it with the same key, or
  there was none that still ran; a function starts after all before it have ended; the map holds the last call of
  a key as long as it has not ended.
\<close>

definition ordered_phases :: "(nat \<Rightarrow> ('k, 'v) call_phase) \<Rightarrow> bool" where
  "ordered_phases p = (\<forall>i j. i < j \<longrightarrow> p j \<noteq> Registering \<longrightarrow> registered (p i))"

definition chain_ok :: "(nat \<Rightarrow> ('k, 'v) call_phase) \<Rightarrow> nat \<Rightarrow> 'k \<Rightarrow> nat option \<Rightarrow> bool" where
  "chain_ok p i k q =
     (case q of
        None \<Rightarrow> \<forall>j < i. key_of (p j) = Some k \<longrightarrow> released (p j)
      | Some q \<Rightarrow> q < i \<and> key_of (p q) = Some k \<and> (\<forall>j. q < j \<longrightarrow> j < i \<longrightarrow> key_of (p j) \<noteq> Some k))"

definition chained_phases :: "(nat \<Rightarrow> ('k, 'v) call_phase) \<Rightarrow> bool" where
  "chained_phases p = (\<forall>i k. key_of (p i) = Some k \<longrightarrow> chain_ok p i k (found_queue (p i)))"

definition serial_phases :: "(nat \<Rightarrow> ('k, 'v) call_phase) \<Rightarrow> bool" where
  "serial_phases p = (\<forall>i j. j < i \<longrightarrow> started (p i) \<longrightarrow> key_of (p j) = key_of (p i) \<longrightarrow> released (p j))"

definition queue_ok :: "(nat \<Rightarrow> ('k, 'v) call_phase) \<Rightarrow> 'k \<Rightarrow> nat option \<Rightarrow> bool" where
  "queue_ok p k q =
     (case q of
        None \<Rightarrow> \<forall>j. key_of (p j) = Some k \<longrightarrow> released (p j)
      | Some q \<Rightarrow> key_of (p q) = Some k \<and> \<not> released (p q) \<and> (\<forall>j > q. key_of (p j) \<noteq> Some k))"

definition queued_phases :: "(nat \<Rightarrow> ('k, 'v) call_phase) \<Rightarrow> ('k \<rightharpoonup> nat) \<Rightarrow> bool" where
  "queued_phases p m = (\<forall>k. queue_ok p k (m k))"

definition mq_inv :: "('k, 'v) mutation_state \<Rightarrow> bool" where
  "mq_inv s =
     (ordered_phases (phase_of s) \<and> chained_phases (phase_of s) \<and> serial_phases (phase_of s)
      \<and> queued_phases (phase_of s) (map_of (mq_queues s)))"

lemma phase_set [simp]: "i < length (mq_calls s) \<Longrightarrow> phase_of (set_phase i p s) = (phase_of s)(i := p)"
  by (auto simp: phase_of_def set_phase_def)

lemma phase_more [simp]:
  "phase_of (s\<lparr>mq_queues := q\<rparr>) = phase_of s" "phase_of (s\<lparr>mq_store := r\<rparr>) = phase_of s"
  by (auto simp: phase_of_def)

lemma set_phase_more [simp]:
  "mq_queues (set_phase i p s) = mq_queues s" "mq_store (set_phase i p s) = mq_store s"
  "length (mq_calls (set_phase i p s)) = length (mq_calls s)"
  by (auto simp: set_phase_def)

lemma phase_in_range: "phase_of s i \<noteq> Registering \<Longrightarrow> i < length (mq_calls s)"
  by (auto simp: phase_of_def split: if_splits)

lemma phase_call [simp]:
  "phase_of (s\<lparr>mq_calls := mq_calls s @ [\<lparr>call_update = f, call_phase = Registering\<rparr>]\<rparr>) = phase_of s"
  by (auto simp: phase_of_def nth_append fun_eq_iff)

lemma map_of_without: "map_of (filter (\<lambda>e. fst e \<noteq> k) xs) = (map_of xs)(k := None)"
  by (induction xs) auto

lemma registered_key: "key_of p = Some k \<Longrightarrow> registered p"
  by (cases p) auto

lemma started_key: "started p \<Longrightarrow> \<exists>k. key_of p = Some k"
  by (cases p) (auto simp: started_def)

lemma chain_ok_mono:
  assumes "chain_ok p i k q" "\<And>j. j < i \<Longrightarrow> key_of (p' j) = key_of (p j)" "\<And>j. j < i \<Longrightarrow> released (p j) \<Longrightarrow> released (p' j)"
  shows "chain_ok p' i k q"
  using assms by (cases q) (auto simp: chain_ok_def)

lemma chained_mono:
  assumes "chained_phases p" "\<And>j. key_of (p' j) = key_of (p j)" "\<And>j. found_queue (p' j) = found_queue (p j)"
    and "\<And>j. released (p j) \<Longrightarrow> released (p' j)"
  shows "chained_phases p'"
  unfolding chained_phases_def
proof (intro allI impI)
  fix i k assume "key_of (p' i) = Some k"
  with assms(1,2) have "chain_ok p i k (found_queue (p i))" by (simp add: chained_phases_def)
  with assms show "chain_ok p' i k (found_queue (p' i))" by (simp add: chain_ok_mono[of p])
qed

lemma queue_ok_cong:
  assumes "queue_ok p k q" "\<And>j. key_of (p' j) = key_of (p j)" "\<And>j. key_of (p j) = Some k \<Longrightarrow> released (p' j) = released (p j)"
  shows "queue_ok p' k q"
  using assms by (cases q) (auto simp: queue_ok_def)

text \<open>Changes that keep the key and the found queue of a call and do not release it.\<close>

lemma inv_advance:
  assumes "mq_inv s" "i < length (mq_calls s)" "key_of (phase_of s i) = Some k"
    and "key_of p = Some k" "found_queue p = found_queue (phase_of s i)" "\<not> released (phase_of s i)" "\<not> released p"
    and "\<forall>j < i. key_of (phase_of s j) = Some k \<longrightarrow> released (phase_of s j)"
  shows "mq_inv (set_phase i p s)"
proof -
  let ?p = "phase_of s" and ?p' = "(phase_of s)(i := p)"
  from assms(1) have inv: "ordered_phases ?p" "chained_phases ?p" "serial_phases ?p" "queued_phases ?p (map_of (mq_queues s))"
    by (simp_all add: mq_inv_def)
  have same: "key_of (?p' j) = key_of (?p j)" "found_queue (?p' j) = found_queue (?p j)" "released (?p' j) = released (?p j)" for j
    using assms(3-7) by auto
  have "?p i \<noteq> Registering" using assms(3) by auto
  then have "ordered_phases ?p'"
    using inv(1) registered_key[OF assms(4)] by (auto simp: ordered_phases_def)
  moreover have "chained_phases ?p'" using same by (intro chained_mono[OF inv(2)]) blast+
  moreover have "serial_phases ?p'"
    unfolding serial_phases_def
  proof (intro allI impI)
    fix a j assume a: "j < a" "started (?p' a)" "key_of (?p' j) = key_of (?p' a)"
    show "released (?p' j)"
    proof (cases "a = i")
      case True
      with a assms(3,8) same show ?thesis by metis
    next
      case False
      with a inv(3) same show ?thesis unfolding serial_phases_def by (metis fun_upd_other)
    qed
  qed
  moreover have "queued_phases ?p' (map_of (mq_queues s))"
    using inv(4) same queue_ok_cong[of ?p _ _ ?p'] unfolding queued_phases_def by blast
  ultimately show ?thesis by (simp add: mq_inv_def assms(2))
qed

lemma inv_finish:
  assumes "mq_inv s" "i < length (mq_calls s)" "active (phase_of s i)" "key_of (phase_of s i) = Some k"
    and "key_of p = Some k" "found_queue p = found_queue (phase_of s i)" "released p"
  shows "mq_inv (finish_call i k p s)"
proof -
  let ?p = "phase_of s" and ?p' = "(phase_of s)(i := p)" and ?m = "map_of (mq_queues s)"
  let ?m' = "if ?m k = Some i then ?m(k := None) else ?m"
  from assms(1) have inv: "ordered_phases ?p" "chained_phases ?p" "serial_phases ?p" "queued_phases ?p ?m"
    by (simp_all add: mq_inv_def)
  have same: "key_of (?p' j) = key_of (?p j)" "found_queue (?p' j) = found_queue (?p j)" "released (?p j) \<Longrightarrow> released (?p' j)"
    "started (?p' j) = started (?p j)" "key_of (?p j) \<noteq> Some k \<Longrightarrow> released (?p' j) = released (?p j)" for j
    using assms(3-7) by (auto simp: started_def)
  have act: "?p i \<noteq> Registering" "\<not> released (?p i)" "started (?p i)"
    using assms(3) by (cases "?p i"; simp add: started_def)+
  then have o: "ordered_phases ?p'"
    using inv(1) registered_key[OF assms(5)] by (auto simp: ordered_phases_def)
  have c: "chained_phases ?p'" using same(1-3) by (intro chained_mono[OF inv(2)]) blast+
  have s: "serial_phases ?p'" using inv(3) unfolding serial_phases_def same(1,4) using same(3) by blast
  have before: "\<forall>j < i. key_of (?p j) = Some k \<longrightarrow> released (?p j)"
    using inv(3) assms(4) act(3) unfolding serial_phases_def by metis
  have "queue_ok ?p' k' (?m' k')" for k'
  proof (cases "k' = k")
    case False
    have "queue_ok ?p k' (?m k')" using inv(4) by (simp add: queued_phases_def)
    from this same(1) have "queue_ok ?p' k' (?m k')"
      by (rule queue_ok_cong) (metis False same(5) option.inject)
    with False show ?thesis by simp
  next
    case True
    have q: "queue_ok ?p k (?m k)" using inv(4) by (simp add: queued_phases_def)
    show ?thesis
    proof (cases "?m k = Some i")
      case i: True
      have "released (?p' j)" if "key_of (?p j) = Some k" for j
      proof (cases j i rule: linorder_cases)
        case less
        with that before same(3) show ?thesis by blast
      next
        case greater
        with that q i show ?thesis by (simp add: queue_ok_def)
      qed (use assms(7) in simp)
      then have "\<forall>j. key_of (?p' j) = Some k \<longrightarrow> released (?p' j)" using same(1) by metis
      with i True show ?thesis by (simp add: queue_ok_def)
    next
      case False
      with q act(2) assms(4) obtain l where l: "?m k = Some l" "l \<noteq> i" by (auto simp: queue_ok_def split: option.splits)
      with q True show ?thesis by (simp add: queue_ok_def) (metis assms(4,5))
    qed
  qed
  then have q: "queued_phases ?p' ?m'" by (simp add: queued_phases_def)
  show ?thesis using o c s q assms(2) by (auto simp: mq_inv_def finish_call_def Let_def map_of_without)
qed

lemma inv_register:
  assumes "mq_inv s" "phase_of s i = KeyFound k"
  shows "mq_inv (register i k s)"
proof -
  let ?p = "phase_of s" and ?m = "map_of (mq_queues s)"
  let ?w = "Waiting k (?m k) :: ('a, 'b) call_phase"
  let ?p' = "?p(i := ?w)"
  from assms(1) have inv: "ordered_phases ?p" "chained_phases ?p" "serial_phases ?p" "queued_phases ?p ?m"
    by (simp_all add: mq_inv_def)
  have i: "i < length (mq_calls s)" using assms(2) by (intro phase_in_range) simp
  have later: "?p j = Registering" if "i < j" for j
    using inv(1) assms(2) that unfolding ordered_phases_def by (metis registered.simps(2))
  have keyed: "j < i" if "key_of (?p j) = Some k'" for j k'
    using that later[of j] assms(2) by (cases j i rule: linorder_cases) auto
  have "ordered_phases ?p'" using inv(1) assms(2) by (auto simp: ordered_phases_def)
  moreover have "chain_ok ?p' j k' (found_queue (?p' j))" if j: "key_of (?p' j) = Some k'" for j k'
  proof (cases "j = i")
    case True
    have "queue_ok ?p k (?m k)" using inv(4) by (simp add: queued_phases_def)
    with keyed have "chain_ok ?p i k (?m k)" by (cases "?m k") (auto simp: queue_ok_def chain_ok_def)
    with True j show ?thesis by (auto intro: chain_ok_mono)
  next
    case False
    with j have "key_of (?p j) = Some k'" by simp
    with keyed inv(2) have "chain_ok ?p j k' (found_queue (?p j))" "j < i" by (auto simp: chained_phases_def)
    with False show ?thesis by (auto intro: chain_ok_mono)
  qed
  then have "chained_phases ?p'" by (simp add: chained_phases_def)
  moreover have "serial_phases ?p'"
    unfolding serial_phases_def
  proof (intro allI impI)
    fix a j assume a: "j < a" "started (?p' a)" "key_of (?p' j) = key_of (?p' a)"
    then have "a \<noteq> i" by (auto simp: started_def)
    with a(2) started_key[of "?p a"] keyed have "a < i" by auto
    with a inv(3) show "released (?p' j)" by (simp add: serial_phases_def)
  qed
  moreover have "queue_ok ?p' k' ((?m(k \<mapsto> i)) k')" for k'
  proof (cases "k' = k")
    case True
    then show ?thesis using later by (auto simp: queue_ok_def)
  next
    case False
    have "queue_ok ?p k' (?m k')" using inv(4) by (simp add: queued_phases_def)
    with False assms(2) show ?thesis by (cases "?m k'") (auto simp: queue_ok_def)
  qed
  then have "queued_phases ?p' (?m(k \<mapsto> i))" by (simp add: queued_phases_def)
  ultimately show ?thesis using i by (simp add: mq_inv_def register_def map_of_without)
qed

lemma phase_turn: "registration_turn s i \<Longrightarrow> j < i \<Longrightarrow> registered (phase_of s j)"
  by (auto simp: registration_turn_def phase_of_def list_all_length)

lemma resolved_ends: "chained_resolved s i \<Longrightarrow> released (phase_of s i)"
  by (subst (asm) chained_resolved.simps) simp

lemma inv_found:
  assumes "mq_inv s" "key_of (phase_of s i) = Some k" "current_resolved s (found_queue (phase_of s i))" "j < i"
    "key_of (phase_of s j) = Some k"
  shows "released (phase_of s j)"
proof -
  have c: "chain_ok (phase_of s) i k (found_queue (phase_of s i))"
    using assms(1,2) by (simp add: mq_inv_def chained_phases_def)
  show ?thesis
  proof (cases "found_queue (phase_of s i)")
    case None
    with c assms(4,5) show ?thesis by (simp add: chain_ok_def)
  next
    case (Some q)
    with assms(3) have r: "released (phase_of s q)" by (auto simp: current_resolved_def dest: resolved_ends)
    from Some c have q: "key_of (phase_of s q) = Some k" "j \<le> q" using assms(4,5) by (auto simp: chain_ok_def) (meson not_le)
    show ?thesis
    proof (cases "j = q")
      case False
      with q have "j < q" by simp
      then show ?thesis using assms(1,5) q r unfolding mq_inv_def serial_phases_def started_def by metis
    qed (use r in simp)
  qed
qed

lemma inv_step:
  assumes "mq_inv s" "mq_step x s = Some s'"
  shows "mq_inv s'"
proof (cases x)
  case (Call f)
  with assms show ?thesis by (auto simp: mq_inv_def)
next
  case (FindKey i k)
  then have turn: "registration_turn s i" "phase_of s i = Registering" and i: "i < length (mq_calls s)"
    and s': "s' = set_phase i (case k of None \<Rightarrow> Rejected | Some k \<Rightarrow> KeyFound k) s"
    using assms(2) by (auto simp: registration_turn_def split: if_splits)
  let ?p = "phase_of s" and ?x = "case k of None \<Rightarrow> Rejected | Some k \<Rightarrow> KeyFound k"
  have x: "key_of ?x = None" "found_queue ?x = None" "\<not> released ?x" "\<not> started ?x" by (auto simp: started_def split: option.splits)
  have same: "key_of ((?p(i := ?x)) j) = key_of (?p j)" "found_queue ((?p(i := ?x)) j) = found_queue (?p j)"
    "released ((?p(i := ?x)) j) = released (?p j)" "started ((?p(i := ?x)) j) = started (?p j)" for j
    using turn(2) x by (auto simp: started_def)
  from assms(1) have inv: "ordered_phases ?p" "chained_phases ?p" "serial_phases ?p" "queued_phases ?p (map_of (mq_queues s))"
    by (simp_all add: mq_inv_def)
  have "ordered_phases (?p(i := ?x))"
    using inv(1) turn phase_turn[OF turn(1)] unfolding ordered_phases_def by (metis fun_upd_apply registered.simps(1))
  moreover have "chained_phases (?p(i := ?x))" using same by (intro chained_mono[OF inv(2)]) blast+
  moreover have "serial_phases (?p(i := ?x))" using inv(3) unfolding serial_phases_def same .
  moreover have "queued_phases (?p(i := ?x)) (map_of (mq_queues s))"
    using inv(4) same queue_ok_cong[of ?p _ _ "?p(i := ?x)"] unfolding queued_phases_def by blast
  ultimately show ?thesis by (simp add: s' mq_inv_def i)
next
  case (Register i)
  with assms show ?thesis by (auto intro: inv_register split: call_phase.splits)
next
  case (Start i)
  then obtain k q where p: "phase_of s i = Waiting k q" "current_resolved s q" "s' = set_phase i (Running k q) s"
    using assms(2) by (auto split: call_phase.splits if_splits)
  have "released (phase_of s j)" if "j < i" "key_of (phase_of s j) = Some k" for j
    using inv_found[OF assms(1), of i k j] p that by simp
  with p show ?thesis using assms(1) phase_in_range[of s i] by (auto intro!: inv_advance[of s i k])
next
  case (ReadFile i)
  then obtain k q where p: "phase_of s i = Running k q" "s' = set_phase i (HasRead k q (mq_store s k)) s"
    using assms(2) by (auto split: call_phase.splits)
  have "\<forall>j < i. key_of (phase_of s j) = Some k \<longrightarrow> released (phase_of s j)"
    using assms(1) p(1) unfolding mq_inv_def serial_phases_def started_def by (metis active.simps(1) key_of.simps(2))
  with p show ?thesis using assms(1) phase_in_range[of s i] by (auto intro!: inv_advance[of s i k])
next
  case (WriteFile i)
  then obtain k q v where p: "phase_of s i = HasRead k q v" using assms(2) by (auto split: call_phase.splits)
  have i: "i < length (mq_calls s)" using p phase_in_range[of s i] by simp
  show ?thesis
  proof (cases "call_update (mq_calls s ! i) v")
    case None
    with WriteFile p assms i show ?thesis by (auto intro!: inv_finish)
  next
    case (Some v')
    let ?s = "s\<lparr>mq_store := (mq_store s)(k := v')\<rparr>"
    have "\<forall>j < i. key_of (phase_of s j) = Some k \<longrightarrow> released (phase_of s j)"
      using assms(1) p unfolding mq_inv_def serial_phases_def started_def by (metis active.simps(2) key_of.simps(3))
    moreover have "mq_inv ?s" using assms(1) by (simp add: mq_inv_def)
    ultimately have "mq_inv (set_phase i (HasWritten k q) ?s)" using p i by (intro inv_advance[of ?s i k]) simp_all
    with WriteFile p Some assms(2) show ?thesis by simp
  qed
next
  case (Finish i)
  with assms phase_in_range[of s i] show ?thesis by (auto intro!: inv_finish split: call_phase.splits)
next
  case (Throw i)
  with assms phase_in_range[of s i] show ?thesis by (auto intro!: inv_finish split: call_phase.splits)
qed

lemma inv_start: "mq_inv (mq_start store)"
  by (auto simp: mq_inv_def mq_start_def phase_of_def ordered_phases_def chained_phases_def serial_phases_def queued_phases_def
      queue_ok_def started_def)

lemma reachable_inv: "mq_reachable store s \<Longrightarrow> mq_inv s"
  by (induction rule: mq_reachable.induct) (auto intro: inv_start inv_step)

section \<open>One function at a time, in the order of the calls\<close>

text \<open>C10: Mutations of one file do not overlap.  In every reachable state, a function whose file has the key of an earlier call
  runs only after that call has ended, so at most one function per file is between its start and its end, and functions
  of one file run in the order of the calls, however the calls interleave.\<close>

theorem mutations_serialized:
  assumes "mq_reachable store s" and "i < j" and "started (phase_of s j)" and "key_of (phase_of s i) = key_of (phase_of s j)"
  shows "released (phase_of s i)"
  using reachable_inv[OF assms(1)] assms(2-) unfolding mq_inv_def serial_phases_def by metis

lemma at_most_one_active:
  assumes "mq_inv s" "active (phase_of s i)" "active (phase_of s j)" "key_of (phase_of s i) = key_of (phase_of s j)"
  shows "i = j"
proof -
  have "\<not> (active p \<and> released p)" for p :: "('a, 'b) call_phase" by (cases p) auto
  with assms show ?thesis unfolding mq_inv_def serial_phases_def started_def by (metis linorder_neqE_nat)
qed

section \<open>No update is lost\<close>

fun wrote :: "'k \<Rightarrow> ('k, 'v) call_phase \<Rightarrow> bool" where
  "wrote k (HasWritten k' q) = (k' = k)"
| "wrote k (Returned k' q) = (k' = k)"
| "wrote k _ = False"

definition effect :: "'k \<Rightarrow> ('k, 'v) mutation_call \<Rightarrow> 'v \<Rightarrow> 'v" where
  "effect k c v = (if wrote k (call_phase c) then (case call_update c v of None \<Rightarrow> v | Some v' \<Rightarrow> v') else v)"

definition store_inv :: "('k \<Rightarrow> 'v) \<Rightarrow> ('k, 'v) mutation_state \<Rightarrow> bool" where
  "store_inv store s =
     ((\<forall>k. mq_store s k = fold (effect k) (mq_calls s) (store k))
      \<and> (\<forall>i k q v. phase_of s i = HasRead k q v \<longrightarrow> v = mq_store s k))"

lemma fold_replace:
  "i < length cs \<Longrightarrow> fold (effect k) (cs[i := c]) v = fold (effect k) (drop (Suc i) cs) (effect k c (fold (effect k) (take i cs) v))"
  by (simp add: upd_conv_take_nth_drop)

lemma fold_split:
  "i < length cs \<Longrightarrow> fold (effect k) cs v = fold (effect k) (drop (Suc i) cs) (effect k (cs ! i) (fold (effect k) (take i cs) v))"
  using fold_replace[of i cs k "cs ! i" v] by simp

lemma fold_quiet: "\<forall>c \<in> set cs. \<not> wrote k (call_phase c) \<Longrightarrow> fold (effect k) cs v = v"
  by (induction cs arbitrary: v) (auto simp: effect_def)

lemma fold_set_phase:
  assumes "i < length (mq_calls s)" "\<And>k. wrote k p = wrote k (phase_of s i)"
  shows "fold (effect k) (mq_calls (set_phase i p s)) v = fold (effect k) (mq_calls s) v"
proof -
  have "effect k ((mq_calls s ! i)\<lparr>call_phase := p\<rparr>) = effect k (mq_calls s ! i)"
    using assms by (auto simp: effect_def fun_eq_iff phase_of_def)
  then show ?thesis
    using assms(1) by (simp add: set_phase_def fold_replace fold_split[of i "mq_calls s" k v])
qed

lemma store_set_phase:
  assumes "store_inv store s" "i < length (mq_calls s)" "\<And>k. wrote k p = wrote k (phase_of s i)"
    and "\<And>k q v. p = HasRead k q v \<Longrightarrow> v = mq_store s k"
  shows "store_inv store (set_phase i p s)"
  using assms(1,4) unfolding store_inv_def fold_set_phase[OF assms(2,3)] by (auto simp: assms(2))

lemma store_queues [simp]: "store_inv store (s\<lparr>mq_queues := q\<rparr>) = store_inv store s"
  by (simp add: store_inv_def)

lemma store_finish:
  assumes "store_inv store s" "i < length (mq_calls s)" "\<And>k. wrote k p = wrote k (phase_of s i)" "released p"
  shows "store_inv store (finish_call i k p s)"
proof -
  have "store_inv store (set_phase i p s)" using assms by (intro store_set_phase) auto
  then show ?thesis by (simp add: finish_call_def Let_def)
qed

lemma wrote_key: "wrote k p \<Longrightarrow> key_of p = Some k \<and> started p"
  by (cases p) (auto simp: started_def)

lemma store_write:
  assumes "store_inv store s" "mq_inv s" "phase_of s i = HasRead k q v" "call_update (mq_calls s ! i) v = Some v'"
  shows "store_inv store (set_phase i (HasWritten k q) (s\<lparr>mq_store := (mq_store s)(k := v')\<rparr>))"
proof -
  let ?s = "s\<lparr>mq_store := (mq_store s)(k := v')\<rparr>" and ?cs = "mq_calls s"
  have i: "i < length ?cs" using assms(3) phase_in_range[of s i] by simp
  have later: "\<not> wrote k (call_phase c)" if c: "c \<in> set (drop (Suc i) ?cs)" for c
  proof
    assume w: "wrote k (call_phase c)"
    from c obtain n where n: "n < length (drop (Suc i) ?cs)" "c = drop (Suc i) ?cs ! n" by (auto simp: in_set_conv_nth)
    then have p: "phase_of s (Suc i + n) = call_phase c" by (auto simp: phase_of_def)
    from assms(2) have "serial_phases (phase_of s)" by (simp add: mq_inv_def)
    then have "released (phase_of s i)"
      using wrote_key[OF w] assms(3) p unfolding serial_phases_def by (metis key_of.simps(3) less_add_Suc1 add_Suc)
    with assms(3) show False by simp
  qed
  have old: "mq_store s k' = fold (effect k') ?cs (store k')" "v = mq_store s k" for k'
    using assms(1,3) by (auto simp: store_inv_def)
  have here: "effect k' (?cs ! i) x = x" for k' x using assms(3) i by (simp add: effect_def phase_of_def)
  have v: "fold (effect k) (take i ?cs) (store k) = v"
    using old fold_split[OF i, of k "store k"] fold_quiet[OF ballI[OF later]] here by simp
  have "fold (effect k') (mq_calls (set_phase i (HasWritten k q) ?s)) (store k') = mq_store ?s k'" for k'
  proof (cases "k' = k")
    case True
    with v assms(4) fold_quiet[OF ballI[OF later]] show ?thesis
      by (simp add: set_phase_def fold_replace[OF i]) (simp add: effect_def)
  next
    case False
    then have "effect k' ((?cs ! i)\<lparr>call_phase := HasWritten k q\<rparr>) x = x" for x by (simp add: effect_def)
    with False old(1)[of k'] show ?thesis by (simp add: set_phase_def fold_replace[OF i] fold_split[OF i, of k'] here)
  qed
  moreover have "j = i" if "phase_of s j = HasRead k q' w" for j q' w
    using at_most_one_active[OF assms(2), of j i] that assms(3) by simp
  ultimately show ?thesis using assms(1) i unfolding store_inv_def by (auto split: if_splits)
qed

lemma store_step:
  assumes "store_inv store s" "mq_inv s" "mq_step x s = Some s'"
  shows "store_inv store s'"
proof (cases x)
  case (Call f)
  with assms(1,3) show ?thesis by (auto simp: store_inv_def effect_def)
next
  case (FindKey i k)
  with assms show ?thesis
    by (auto simp: registration_turn_def intro!: store_set_phase split: if_splits option.splits)
next
  case (Register i)
  then obtain k where "phase_of s i = KeyFound k" "s' = register i k s" using assms(3) by (auto split: call_phase.splits)
  with assms(1) phase_in_range[of s i] show ?thesis unfolding register_def by (auto intro!: store_set_phase)
next
  case (WriteFile i)
  then obtain k q v where p: "phase_of s i = HasRead k q v" using assms(3) by (auto split: call_phase.splits)
  show ?thesis
  proof (cases "call_update (mq_calls s ! i) v")
    case None
    with WriteFile p assms phase_in_range[of s i] show ?thesis by (auto intro!: store_finish)
  next
    case (Some v')
    with WriteFile p assms store_write[OF assms(1,2) p Some] show ?thesis by simp
  qed
qed (use assms phase_in_range[of s] in \<open>auto intro!: store_set_phase store_finish split: call_phase.splits if_splits\<close>)

lemma reachable_store: "mq_reachable store s \<Longrightarrow> store_inv store s"
proof (induction rule: mq_reachable.induct)
  case start
  show ?case by (simp add: store_inv_def mq_start_def phase_of_def)
next
  case (step s x s')
  then show ?case using store_step reachable_inv by blast
qed

text \<open>C11: No update of a file is lost.  In every reachable state the content of every file is what its updates give one after
  the other in the order of the calls, starting from the initial content: each function that has written read the result
  of the one before it.\<close>

theorem no_lost_update:
  assumes "mq_reachable store s"
  shows "mq_store s k = fold (effect k) (mq_calls s) (store k)"
  using reachable_store[OF assms] by (simp add: store_inv_def)

section \<open>Every call ends\<close>

fun phase_rank :: "('k, 'v) call_phase \<Rightarrow> nat" where
  "phase_rank Registering = 6"
| "phase_rank (KeyFound k) = 5"
| "phase_rank (Waiting k q) = 4"
| "phase_rank (Running k q) = 3"
| "phase_rank (HasRead k q v) = 2"
| "phase_rank (HasWritten k q) = 1"
| "phase_rank _ = 0"

definition remaining :: "('k, 'v) mutation_state \<Rightarrow> nat" where
  "remaining s = (\<Sum>c \<leftarrow> mq_calls s. phase_rank (call_phase c))"

fun is_call :: "('k, 'v) mutation_step \<Rightarrow> bool" where
  "is_call (Call f) = True"
| "is_call _ = False"

lemma remaining_set:
  assumes "i < length (mq_calls s)" "phase_rank p < phase_rank (phase_of s i)"
  shows "remaining (set_phase i p s) < remaining s"
proof -
  have "(\<Sum>c \<leftarrow> cs[i := c']. phase_rank (call_phase c)) + phase_rank (call_phase (cs ! i))
      = (\<Sum>c \<leftarrow> cs. phase_rank (call_phase c)) + phase_rank (call_phase c')" if "i < length cs" for cs c'
    using that by (induction cs arbitrary: i) (auto simp: nth_Cons split: nat.splits)
  from this[OF assms(1), of "(mq_calls s ! i)\<lparr>call_phase := p\<rparr>"] assms show ?thesis
    by (simp add: remaining_def set_phase_def phase_of_def)
qed

lemma remaining_more [simp]: "remaining (s\<lparr>mq_queues := q\<rparr>) = remaining s" "remaining (s\<lparr>mq_store := r\<rparr>) = remaining s"
  by (simp_all add: remaining_def)

lemma remaining_step:
  assumes "mq_step x s = Some s'" "\<not> is_call x"
  shows "remaining s' < remaining s \<and> length (mq_calls s') = length (mq_calls s)"
proof -
  have set: "remaining (set_phase i p t) < remaining s"
    if "remaining t = remaining s" "phase_of t = phase_of s" "mq_calls t = mq_calls s" "phase_rank p < phase_rank (phase_of s i)"
      "i < length (mq_calls s)" for i p t
    using remaining_set[of i t p] that by simp
  have fin: "remaining (finish_call i k p s) < remaining s"
    if "phase_rank p < phase_rank (phase_of s i)" "i < length (mq_calls s)" for i k p
    using set[of s p i] that by (simp add: finish_call_def Let_def)
  have len: "length (mq_calls (finish_call i k p s)) = length (mq_calls s)" for i k p by (simp add: finish_call_def Let_def)
  show ?thesis
    using assms phase_in_range[of s]
    by (cases x) (auto simp: register_def registration_turn_def len intro!: set fin split: call_phase.splits if_splits option.splits)
qed

lemma inv_resolved:
  assumes "mq_inv s" "released (phase_of s i)"
  shows "chained_resolved s i"
  using assms(2)
proof (induction i rule: less_induct)
  case (less i)
  obtain k where k: "key_of (phase_of s i) = Some k" using started_key[of "phase_of s i"] less.prems by (auto simp: started_def)
  show ?case
  proof (cases "found_queue (phase_of s i)")
    case None
    with less.prems show ?thesis by (subst chained_resolved.simps) simp
  next
    case (Some q)
    from assms(1) k Some have q: "q < i" "key_of (phase_of s q) = Some k"
      unfolding mq_inv_def chained_phases_def chain_ok_def by fastforce+
    then have "released (phase_of s q)"
      using assms(1) less.prems k unfolding mq_inv_def serial_phases_def started_def by metis
    with less q Some show ?thesis by (subst chained_resolved.simps) simp
  qed
qed

lemma some_step:
  assumes "mq_inv s" "i < length (mq_calls s)" "phase_rank (phase_of s i) \<noteq> 0"
  shows "\<exists>x. \<not> is_call x \<and> mq_step x s \<noteq> None"
proof -
  let ?P = "\<lambda>i. i < length (mq_calls s) \<and> phase_rank (phase_of s i) \<noteq> 0"
  define l where "l = (LEAST i. ?P i)"
  have l: "l < length (mq_calls s)" "phase_rank (phase_of s l) \<noteq> 0" using LeastI[of ?P i] assms(2,3) by (simp_all add: l_def)
  have before: "phase_rank (phase_of s j) = 0" if "j < l" for j
    using not_less_Least[of j ?P] that l(1) unfolding l_def by auto
  show ?thesis
  proof (cases "phase_of s l")
    case Registering
    have "registered (phase_of s j)" if "j < l" for j using before[OF that] by (cases "phase_of s j") auto
    then have "registration_turn s l" using l(1) by (auto simp: registration_turn_def list_all_length phase_of_def)
    with Registering show ?thesis by (intro exI[of _ "FindKey l None"]) simp
  next
    case (KeyFound k)
    then show ?thesis by (intro exI[of _ "Register l"]) simp
  next
    case (Waiting k q)
    have "chained_resolved s j" if "q = Some j" for j
    proof -
      from assms(1) Waiting that have "chain_ok (phase_of s) l k (Some j)"
        unfolding mq_inv_def chained_phases_def by (metis found_queue.simps(1) key_of.simps(1))
      then have "j < l" "key_of (phase_of s j) = Some k" by (simp_all add: chain_ok_def)
      then have "released (phase_of s j)" using before[of j] by (cases "phase_of s j") auto
      with assms(1) show ?thesis by (rule inv_resolved)
    qed
    then have "current_resolved s q" by (simp add: current_resolved_def split: option.splits)
    with Waiting show ?thesis by (intro exI[of _ "Start l"]) simp
  next
    case (Running k q)
    then show ?thesis by (intro exI[of _ "ReadFile l"]) simp
  next
    case (HasRead k q v)
    then show ?thesis by (intro exI[of _ "WriteFile l"]) (simp split: option.splits)
  next
    case (HasWritten k q)
    then show ?thesis by (intro exI[of _ "Finish l"]) simp
  qed (use l(2) in simp_all)
qed

lemma run_bound:
  "mq_run xs s = Some s' \<Longrightarrow> \<forall>x \<in> set xs. \<not> is_call x \<Longrightarrow> length xs + remaining s' \<le> remaining s"
proof (induction xs arbitrary: s)
  case (Cons x xs)
  then obtain t where t: "mq_step x s = Some t" "mq_run xs t = Some s'" by (cases "mq_step x s") auto
  from Cons.IH[OF t(2)] remaining_step[OF t(1)] Cons.prems(2) show ?case by fastforce
qed simp

lemma run_reachable: "mq_run xs s = Some s' \<Longrightarrow> mq_reachable store s \<Longrightarrow> mq_reachable store s'"
proof (induction xs arbitrary: s)
  case (Cons x xs)
  then obtain t where "mq_step x s = Some t" "mq_run xs t = Some s'" by (cases "mq_step x s") auto
  with Cons show ?case using mq_reachable.step by blast
qed simp

lemma remaining_bound: "remaining s \<le> 6 * length (mq_calls s)"
proof -
  have r: "phase_rank p \<le> 6" for p :: "('a, 'b) call_phase" by (cases p) auto
  have "(\<Sum>c \<leftarrow> cs. phase_rank (call_phase c)) \<le> 6 * length cs" for cs :: "('a, 'b) mutation_call list"
    by (induction cs) (use r in \<open>auto intro: order_trans[OF add_mono]\<close>)
  then show ?thesis by (simp add: remaining_def)
qed

lemma run_drains:
  assumes "mq_reachable store s" and "mq_run xs s = Some s'" and "\<forall>x \<in> set xs. \<not> is_call x"
  shows "length xs \<le> 6 * length (mq_calls s)"
    and "(\<forall>x. \<not> is_call x \<longrightarrow> mq_step x s' = None) \<longrightarrow>
           (\<forall>i < length (mq_calls s'). released (phase_of s' i) \<or> phase_of s' i = Rejected) \<and> mq_queues s' = []"
proof -
  show "length xs \<le> 6 * length (mq_calls s)" using run_bound[OF assms(2,3)] remaining_bound[of s] by simp
  have inv: "mq_inv s'" using reachable_inv run_reachable[OF assms(2,1)] by blast
  show "(\<forall>x. \<not> is_call x \<longrightarrow> mq_step x s' = None) \<longrightarrow>
           (\<forall>i < length (mq_calls s'). released (phase_of s' i) \<or> phase_of s' i = Rejected) \<and> mq_queues s' = []"
  proof
    assume stuck: "\<forall>x. \<not> is_call x \<longrightarrow> mq_step x s' = None"
    have ended: "released (phase_of s' i) \<or> phase_of s' i = Rejected" if "i < length (mq_calls s')" for i
      using some_step[OF inv that] stuck by (cases "phase_of s' i") auto
    have "map_of (mq_queues s') k = None" for k
    proof (rule ccontr)
      assume "map_of (mq_queues s') k \<noteq> None"
      then obtain q where "queue_ok (phase_of s') k (Some q)" using inv unfolding mq_inv_def queued_phases_def by (metis not_None_eq)
      then have q: "key_of (phase_of s' q) = Some k" "\<not> released (phase_of s' q)" by (simp_all add: queue_ok_def)
      then have "q < length (mq_calls s')" using phase_in_range[of s' q] by (cases "phase_of s' q") auto
      with ended[of q] q show False by auto
    qed
    then have "mq_queues s' = []" by (metis list.exhaust map_of_eq_empty_iff fun_eq_iff)
    with ended show "(\<forall>i < length (mq_calls s'). released (phase_of s' i) \<or> phase_of s' i = Rejected) \<and> mq_queues s' = []"
      by blast
  qed
qed

text \<open>C18: The queue drains.  From every reachable state, however the steps are scheduled, a run without new calls takes at most
  six steps per call, and when it can go no further every call has ended, by returning, by throwing or because its key
  could not be found, and the map of queues is empty again.  So a function that throws and a key that cannot be
  found block no other call, and no entry stays behind.\<close>

theorem queue_drains:
  assumes "mq_reachable store s" and "mq_run xs s = Some s'" and "\<forall>x \<in> set xs. \<not> is_call x"
  shows "length xs \<le> 6 * length (mq_calls s) \<and>
    ((\<forall>x. \<not> is_call x \<longrightarrow> mq_step x s' = None) \<longrightarrow>
       (\<forall>i < length (mq_calls s'). released (phase_of s' i) \<or> phase_of s' i = Rejected) \<and> mq_queues s' = [])"
  using run_drains[OF assms] by blast

section \<open>A concrete run\<close>

text \<open>Two calls for one file, the second of them registered while the function of the first has read but not written.\<close>

definition two_calls :: "(nat, nat) mutation_step list" where
  "two_calls =
     [Call (\<lambda>v. Some (v + 1)), Call (\<lambda>v. Some (v * 10)), FindKey 0 (Some 7), Register 0, Start 0, ReadFile 0, FindKey 1 (Some 7),
      Register 1, WriteFile 0, Finish 0, Start 1, ReadFile 1, WriteFile 1]"

definition after_two :: "(nat, nat) mutation_state" where
  "after_two = the (mq_run two_calls (mq_start (\<lambda>_. 0)))"

lemmas mq_eval = two_calls_def mq_start_def phase_of_def set_phase_def registration_turn_def register_def finish_call_def current_resolved_def
  chained_resolved.simps Let_def

lemma after_two_reachable: "mq_reachable (\<lambda>_. 0) after_two"
proof -
  have "mq_run two_calls (mq_start (\<lambda>_. 0)) = Some after_two" by (simp add: after_two_def mq_eval)
  then show ?thesis using run_reachable mq_reachable.start by blast
qed

theorem mutations_serialized_witness: "released (phase_of after_two 0) \<and> active (phase_of after_two 1)"
proof -
  have "started (phase_of after_two 1)" "key_of (phase_of after_two 0) = key_of (phase_of after_two 1)" "active (phase_of after_two 1)"
    by (simp_all add: after_two_def mq_eval started_def)
  with mutations_serialized[OF after_two_reachable, of 0 1] show ?thesis by simp
qed

theorem no_lost_update_witness: "mq_store after_two 7 = 10"
  using no_lost_update[OF after_two_reachable, of 7] by (simp add: after_two_def mq_eval effect_def)

theorem queue_drains_witness:
  "\<exists>s. mq_run [Finish 1] after_two = Some s \<and> length (mq_calls s) = 2 \<and> length [Finish 1 :: (nat, nat) mutation_step] \<le> 6 * length (mq_calls after_two)"
proof -
  obtain s where s: "mq_run [Finish 1] after_two = Some s" "length (mq_calls s) = 2" by (simp add: after_two_def mq_eval)
  with queue_drains[OF after_two_reachable s(1)] show ?thesis by simp
qed

end
