(* ===== verification/File_Tools.thy ===== *)
theory File_Tools
  imports Opfs_Effects Edit_Display
begin

text \<open>
  The tools of the harness that write and edit files (\<^verbatim>\<open>packages/agent/src/harness/tools/edit.ts\<close>, \<^verbatim>\<open>write.ts\<close>,
  \<^verbatim>\<open>path-utils.ts\<close>, the key of \<^verbatim>\<open>file-mutation-queue.ts\<close>), over any environment, and on the file system of the browser.
\<close>

section \<open>The environment of a tool\<close>

text \<open>The operations of \<^verbatim>\<open>ExecutionEnv\<close> that the tools call; the boolean is the abort signal at the time of the call.\<close>

record 'w tool_env =
  env_absolutePath :: "js_string \<Rightarrow> bool \<Rightarrow> file_code + js_string"
  env_canonicalPath :: "js_string \<Rightarrow> 'w \<Rightarrow> (file_code + js_string) \<times> 'w"
  env_exists :: "js_string \<Rightarrow> bool \<Rightarrow> 'w \<Rightarrow> (file_code + bool) \<times> 'w"
  env_fileInfo :: "js_string \<Rightarrow> bool \<Rightarrow> 'w \<Rightarrow> (file_code + file_info) \<times> 'w"
  env_readTextFile :: "js_string \<Rightarrow> bool \<Rightarrow> 'w \<Rightarrow> (file_code + js_string) \<times> 'w"
  env_readBinaryFile :: "js_string \<Rightarrow> bool \<Rightarrow> 'w \<Rightarrow> (file_code + byte list) \<times> 'w"
  env_writeFile :: "js_string \<Rightarrow> write_content \<Rightarrow> bool \<Rightarrow> 'w \<Rightarrow> (file_code + unit) \<times> 'w"

datatype tool_error =
    OperationAborted
  | FileFailure file_code
  | EditAccess js_string file_code
  | PathNotFile js_string
  | EditRejected edit_error
  | EditsMissing
  | OffsetBeyondEnd int nat

definition getOrThrow :: "(file_code + 'a) \<times> 'w \<Rightarrow> (tool_error + 'a) \<times> 'w" where
  "getOrThrow r = apfst (map_sum FileFailure id) r"

section \<open>Paths\<close>

definition unicode_space :: "code_unit \<Rightarrow> bool" where
  "unicode_space c = (c = 0xA0 \<or> 0x2000 \<le> c \<and> c \<le> 0x200A \<or> c = 0x202F \<or> c = 0x205F \<or> c = 0x3000)"

definition normalizeToolPath :: "js_string \<Rightarrow> js_string" where
  "normalizeToolPath path =
     (let normalized = map (\<lambda>c. if unicode_space c then 0x20 else c) path
      in if prefix [0x40] normalized then drop 1 normalized else normalized)"

definition resolveToolPath :: "'w tool_env \<Rightarrow> js_string \<Rightarrow> bool \<Rightarrow> tool_error + js_string" where
  "resolveToolPath env path signal = map_sum FileFailure id (env_absolutePath env (normalizeToolPath path) signal)"

text \<open>The key under which a mutation is queued; a failing lookup rejects the registration.\<close>

definition getMutationQueueKey :: "'w tool_env \<Rightarrow> js_string \<Rightarrow> 'w \<Rightarrow> (tool_error + js_string) \<times> 'w" where
  "getMutationQueueKey env path w =
     fbind (getOrThrow (env_absolutePath env path False, w)) (\<lambda>absolutePath w.
       case env_canonicalPath env absolutePath w of
         (Inr k, w) \<Rightarrow> (Inr k, w)
       | (Inl c, w) \<Rightarrow> if c = NotFoundCode \<or> c = NotSupported then (Inr absolutePath, w) else (Inl (FileFailure c), w))"

definition withFileMutationQueue :: "'w tool_env \<Rightarrow> js_string \<Rightarrow> ('w \<Rightarrow> (tool_error + 'a) \<times> 'w) \<Rightarrow> 'w \<Rightarrow> (tool_error + 'a) \<times> 'w" where
  "withFileMutationQueue env path fn w = fbind (getMutationQueueKey env path w) (\<lambda>key w. fn w)"

section \<open>Writing\<close>

definition unless_aborted :: "bool \<Rightarrow> ('w \<Rightarrow> (tool_error + 'a) \<times> 'w) \<Rightarrow> 'w \<Rightarrow> (tool_error + 'a) \<times> 'w" where
  "unless_aborted signal fn w = (if signal then (Inl OperationAborted, w) else fn w)"

text \<open>The signal is read several times during a call; \<open>signal i\<close> is what the reading number \<open>i\<close> gives.\<close>

definition write_execute :: "'w tool_env \<Rightarrow> (nat \<Rightarrow> bool) \<Rightarrow> js_string \<Rightarrow> js_string \<Rightarrow> 'w \<Rightarrow> (tool_error + js_string) \<times> 'w" where
  "write_execute env signal path content w =
     fbind (resolveToolPath env path (signal 0), w) (\<lambda>absolutePath.
     withFileMutationQueue env absolutePath
       (unless_aborted (signal 1) (\<lambda>w.
        fbind (getOrThrow (env_writeFile env absolutePath (TextContent content) (signal 2) w)) (\<lambda>_.
        unless_aborted (signal 3) (\<lambda>w.
          (Inr (ascii_units ''Successfully wrote '' @ ascii_units (nat_to_string (length content)) @ ascii_units '' bytes to '' @ path), w))))))"

section \<open>Editing\<close>

record edit_details =
  ed_text :: js_string
  ed_diff :: js_string
  ed_patch :: js_string
  ed_firstChangedLine :: "nat option"

definition editAccessError :: "js_string \<Rightarrow> (file_code + 'a) \<times> 'w \<Rightarrow> (tool_error + 'a) \<times> 'w" where
  "editAccessError path r = apfst (map_sum (EditAccess path) id) r"

text \<open>What \<^verbatim>\<open>edit\<close> makes of the text of the file: the text it shows the diff against, the new one, and what it writes.\<close>

definition edited_text ::
  "(js_string \<Rightarrow> js_string) \<Rightarrow> js_string \<Rightarrow> edit list \<Rightarrow> js_string \<Rightarrow> edit_error + js_string \<times> js_string \<times> js_string" where
  "edited_text nfkc path edits whole =
     (let (bom, content) = stripBom whole; originalEnding = detectLineEnding content
      in rbind (applyEditsToNormalizedContent nfkc (normalizeToLF content) edits path) (\<lambda>(baseContent, newContent).
           Inr (baseContent, newContent, bom @ restoreLineEndings newContent originalEnding)))"

text \<open>The package \<^verbatim>\<open>diff\<close> is a parameter twice, for \<^verbatim>\<open>diffLines\<close> and, with the path, for \<^verbatim>\<open>generateUnifiedPatch\<close>.\<close>

definition edit_execute ::
  "(js_string \<Rightarrow> js_string) \<Rightarrow> (js_string \<Rightarrow> js_string \<Rightarrow> diff_part list) \<Rightarrow> (js_string \<Rightarrow> js_string \<Rightarrow> js_string \<Rightarrow> js_string) \<Rightarrow>
    'w tool_env \<Rightarrow> (nat \<Rightarrow> bool) \<Rightarrow> js_string \<Rightarrow> edit list \<Rightarrow> 'w \<Rightarrow> (tool_error + edit_details) \<times> 'w" where
  "edit_execute nfkc diffLines unifiedPatch env signal path edits w =
     (if edits = [] then (Inl EditsMissing, w)
      else
        fbind (resolveToolPath env path (signal 0), w) (\<lambda>absolutePath.
        withFileMutationQueue env absolutePath
          (unless_aborted (signal 1) (\<lambda>w.
           fbind (editAccessError path (env_fileInfo env absolutePath (signal 2) w)) (\<lambda>info w.
             if info_kind info \<noteq> FileKind \<and> info_kind info \<noteq> SymlinkKind then (Inl (PathNotFile path), w)
             else
               fbind (editAccessError path (env_readTextFile env absolutePath (signal 3) w)) (\<lambda>whole.
               unless_aborted (signal 4) (\<lambda>w.
               fbind (map_sum EditRejected id (edited_text nfkc path edits whole), w) (\<lambda>(baseContent, newContent, finalContent).
               unless_aborted (signal 5) (\<lambda>w.
               fbind (editAccessError path (env_writeFile env absolutePath (TextContent finalContent) (signal 6) w)) (\<lambda>_.
               unless_aborted (signal 7) (\<lambda>w.
                 let (diff, first) = generateDiffString diffLines baseContent newContent 4
                 in (Inr \<lparr>ed_text = ascii_units ''Successfully replaced '' @ ascii_units (nat_to_string (length edits))
                                     @ ascii_units '' block(s) in '' @ path @ ascii_units ''.'',
                          ed_diff = diff, ed_patch = unifiedPatch path baseContent newContent, ed_firstChangedLine = first\<rparr>, w))))))))))))"

section \<open>What the tools do to files\<close>

text \<open>
  The contract of an environment: reading and asking change no file, a text is decoded from the bytes of the file, and a
  write stores its bytes, or fails and leaves the file as it was, or empty where there was none.
\<close>

locale tool_files =
  fixes env :: "'w tool_env"
    and valid :: "'w \<Rightarrow> bool"
    and bytes_at :: "'w \<Rightarrow> 'f \<Rightarrow> byte list option"
    and file_of :: "js_string \<Rightarrow> 'f"
    and decode :: "byte list \<Rightarrow> js_string"
  assumes canonical_keeps: "valid w \<Longrightarrow> env_canonicalPath env p w = (r, w') \<Longrightarrow> valid w' \<and> bytes_at w' = bytes_at w"
    and info_keeps: "valid w \<Longrightarrow> env_fileInfo env p a w = (i, w') \<Longrightarrow> valid w' \<and> bytes_at w' = bytes_at w"
    and read_text: "valid w \<Longrightarrow> env_readTextFile env p a w = (s, w') \<Longrightarrow>
      valid w' \<and> bytes_at w' = bytes_at w \<and> (\<forall>x. s = Inr x \<longrightarrow> (\<exists>d. bytes_at w (file_of p) = Some d \<and> x = decode d))"
    and write_file: "valid w \<Longrightarrow> env_writeFile env p c a w = (u, w') \<Longrightarrow>
      valid w' \<and>
      (case u of
         Inr _ \<Rightarrow> bytes_at w' = (bytes_at w)(file_of p \<mapsto> content_bytes c)
       | Inl _ \<Rightarrow> bytes_at w' = bytes_at w \<or> bytes_at w (file_of p) = None \<and> bytes_at w' = (bytes_at w)(file_of p \<mapsto> []))"
begin

lemma key_keeps:
  assumes "valid w" "getMutationQueueKey env p w = (r, w')"
  shows "valid w' \<and> bytes_at w' = bytes_at w"
  using assms canonical_keeps[of w]
  by (auto simp: getMutationQueueKey_def getOrThrow_def fbind_def split: prod.splits sum.splits if_splits)

lemma write_tool_effect:
  assumes "valid w" "write_execute env signal path content w = (r, w')"
  shows "valid w' \<and>
    (bytes_at w' = bytes_at w \<and> (\<exists>e. r = Inl e)
     \<or> (\<exists>a. resolveToolPath env path (signal 0) = Inr a \<and>
          (bytes_at w' = (bytes_at w)(file_of a \<mapsto> utf8_encode content) \<and> (r = Inl OperationAborted \<or> (\<exists>t. r = Inr t))
           \<or> bytes_at w (file_of a) = None \<and> bytes_at w' = (bytes_at w)(file_of a \<mapsto> []) \<and> (\<exists>e. r = Inl e))))"
proof (cases "resolveToolPath env path (signal 0)")
  case (Inr a)
  obtain k w1 where k: "getMutationQueueKey env a w = (k, w1)" by fastforce
  note k1 = key_keeps[OF assms(1) k]
  obtain u w2 where u: "env_writeFile env a (TextContent content) (signal 2) w1 = (u, w2)" by fastforce
  from write_file[OF _ u] k1 have w2: "valid w2 \<and>
      (case u of
         Inr _ \<Rightarrow> bytes_at w2 = (bytes_at w)(file_of a \<mapsto> utf8_encode content)
       | Inl _ \<Rightarrow> bytes_at w2 = bytes_at w \<or> bytes_at w (file_of a) = None \<and> bytes_at w2 = (bytes_at w)(file_of a \<mapsto> []))" by (cases u) auto
  show ?thesis
    using assms(2) Inr k1 w2
    by (auto simp: write_execute_def withFileMutationQueue_def k fbind_def unless_aborted_def u getOrThrow_def
        split: sum.splits if_splits)
next
  case (Inl e)
  with assms show ?thesis by (simp add: write_execute_def) blast
qed

lemma edit_tool_effect:
  assumes "valid w" "edit_execute nfkc diffLines unifiedPatch env signal path edits w = (r, w')"
  shows "valid w' \<and>
    (bytes_at w' = bytes_at w \<and> (\<exists>e. r = Inl e)
     \<or> (\<exists>a d base new final.
          resolveToolPath env path (signal 0) = Inr a \<and> bytes_at w (file_of a) = Some d \<and>
          edited_text nfkc path edits (decode d) = Inr (base, new, final) \<and>
          bytes_at w' = (bytes_at w)(file_of a \<mapsto> utf8_encode final) \<and> (r = Inl OperationAborted \<or> (\<exists>x. r = Inr x))))"
proof (cases "resolveToolPath env path (signal 0)")
  case (Inr a)
  obtain k w1 where k: "getMutationQueueKey env a w = (k, w1)" by fastforce
  note k1 = key_keeps[OF assms(1) k]
  obtain i w2 where i: "env_fileInfo env a (signal 2) w1 = (i, w2)" by fastforce
  with k1 info_keeps[of w1] have w2: "valid w2" "bytes_at w2 = bytes_at w" by auto
  obtain s w3 where s: "env_readTextFile env a (signal 3) w2 = (s, w3)" by fastforce
  from read_text[OF w2(1) s] w2(2) have w3: "valid w3" "bytes_at w3 = bytes_at w"
    "\<forall>x. s = Inr x \<longrightarrow> (\<exists>d. bytes_at w (file_of a) = Some d \<and> x = decode d)" by simp_all
  show ?thesis
  proof (cases "\<exists>whole base new final. s = Inr whole \<and> edited_text nfkc path edits whole = Inr (base, new, final)")
    case True
    then obtain whole base new final where e: "s = Inr whole" "edited_text nfkc path edits whole = Inr (base, new, final)" by blast
    with w3(3) obtain d where d: "bytes_at w (file_of a) = Some d" "whole = decode d" by blast
    obtain u w4 where u: "env_writeFile env a (TextContent final) (signal 6) w3 = (u, w4)" by fastforce
    from write_file[OF w3(1) u] w3(2) d(1) have w4: "valid w4 \<and>
      (case u of Inr _ \<Rightarrow> bytes_at w4 = (bytes_at w)(file_of a \<mapsto> utf8_encode final) | Inl _ \<Rightarrow> bytes_at w4 = bytes_at w)"
      by (simp split: sum.splits)
    show ?thesis
      using assms Inr k1 w2 w3(1,2) w4 d e(2)
      by (auto simp: edit_execute_def withFileMutationQueue_def k fbind_def unless_aborted_def i s e(1) u editAccessError_def
          split: sum.splits if_splits prod.splits)
  next
    case False
    then consider (read) c where "s = Inl c" | (edit) whole e where "s = Inr whole" "edited_text nfkc path edits whole = Inl e"
      by (cases s) (auto, metis prod_cases3 sum.exhaust)
    then have "bytes_at w' = bytes_at w \<and> valid w' \<and> (\<exists>e. r = Inl e)"
      using assms Inr k1 w2 w3(1,2)
      by cases (auto simp: edit_execute_def withFileMutationQueue_def k fbind_def unless_aborted_def i s editAccessError_def
          split: sum.splits if_splits prod.splits)
    then show ?thesis by blast
  qed
qed (use assms in \<open>auto simp: edit_execute_def split: if_splits\<close>)

end

section \<open>The file system of the browser as an environment\<close>

definition opfs_env :: "(byte list \<Rightarrow> js_string) \<Rightarrow> js_string \<Rightarrow> opfs tool_env" where
  "opfs_env lossy cwd =
     \<lparr>env_absolutePath = (\<lambda>p signal. opfs_absolutePath cwd p),
      env_canonicalPath = opfs_canonicalPath cwd,
      env_exists = (\<lambda>p signal. opfs_exists cwd p),
      env_fileInfo = (\<lambda>p signal. opfs_fileInfo cwd p),
      env_readTextFile = opfs_readTextFile lossy cwd,
      env_readBinaryFile = opfs_readBinaryFile cwd,
      env_writeFile = opfs_writeFile cwd\<rparr>"

definition opfs_bytes :: "opfs \<Rightarrow> segments \<Rightarrow> byte list option" where
  "opfs_bytes w p = (case node_at w p of Some (FileNode d t) \<Rightarrow> Some d | _ \<Rightarrow> None)"

text \<open>Operations that only ask leave the entries of the tree alone.\<close>

lemma keeps_fbind:
  assumes "entries (snd r) = E" "\<And>a w. entries w = E \<Longrightarrow> entries (snd (k a w)) = E"
  shows "entries (snd (fbind r k)) = E"
  using assms by (cases r) (auto simp: fbind_def split: sum.splits)

lemma keeps_dom: "entries (snd (dom_call w)) = entries w"
  by (simp add: dom_call_def split: list.splits option.splits)

lemma keeps_directory: "entries (snd (getDirectoryHandle dir n False w)) = entries w"
  unfolding getDirectoryHandle_def by (rule keeps_fbind) (auto simp: keeps_dom split: option.splits opfs_node.splits)

lemma keeps_file: "entries (snd (getFileHandle dir n False w)) = entries w"
  unfolding getFileHandle_def by (rule keeps_fbind) (auto simp: keeps_dom split: option.splits opfs_node.splits)

lemma keeps_getFile: "entries (snd (getFile h w)) = entries w"
  unfolding getFile_def by (rule keeps_fbind) (auto simp: keeps_dom split: option.splits opfs_node.splits)

lemma keeps_lift [simp]: "snd (lift_dom r) = snd r" "snd (caught f r') = snd r'"
  by (simp_all add: lift_dom_def caught_def)

lemma keeps_resolve: "entries (snd (resolveDirectoryBySegments dir ss False w)) = entries w"
  by (induction ss arbitrary: dir w) (auto intro!: keeps_fbind simp: keeps_directory)

lemma keeps_resolveFile: "entries (snd (resolveFileHandle cwd path False w)) = entries w"
  unfolding resolveFileHandle_def
  by (intro keeps_fbind) (auto simp: keeps_resolve keeps_file intro!: keeps_fbind split: prod.splits)

lemma keeps_probe: "entries (snd (probeKind cwd path w)) = entries w"
proof -
  have *: "entries (snd (case getFileHandle p n False w of
         (Inr _, w) \<Rightarrow> (Inr FileKind, w)
       | (Inl DomTypeMismatch, w) \<Rightarrow> (Inr DirectoryKind, w)
       | (Inl DomNotFound, w) \<Rightarrow>
           (case getDirectoryHandle p n False w of
              (Inr _, w) \<Rightarrow> (Inr DirectoryKind, w)
            | (Inl DomTypeMismatch, w) \<Rightarrow> (Inr FileKind, w)
            | (Inl e, w) \<Rightarrow> (Inl (Dom e), w))
       | (Inl e, w) \<Rightarrow> (Inl (Dom e), w))) = entries w" for p n w
    using keeps_file[of p n w] keeps_directory[of p n "snd (getFileHandle p n False w)"]
    by (auto split: prod.splits sum.splits dom_error.splits)
  show ?thesis
    unfolding probeKind_def Let_def
    by (auto intro!: keeps_fbind simp: * keeps_resolve split: prod.splits)
qed

lemma keeps_read:
  "entries (snd (opfs_readTextFile lossy cwd path a w)) = entries w" "entries (snd (opfs_readBinaryFile cwd path a w)) = entries w"
  by (auto simp: opfs_readTextFile_def opfs_readBinaryFile_def Let_def keeps_resolveFile keeps_getFile intro!: keeps_fbind)

lemma keeps_info: "entries (snd (opfs_fileInfo cwd path w)) = entries w"
  by (auto simp: opfs_fileInfo_def Let_def keeps_resolveFile keeps_getFile keeps_probe intro!: keeps_fbind)

lemma keeps_exists: "entries (snd (opfs_exists cwd path w)) = entries w"
  using keeps_probe[of cwd "normalizeVirtualPath path cwd" w]
  by (auto simp: opfs_exists_def split: prod.splits sum.splits thrown.splits dom_error.splits)

lemma keeps_canonical: "entries (snd (opfs_canonicalPath cwd path w)) = entries w"
  by (auto simp: opfs_canonicalPath_def Let_def keeps_exists intro!: keeps_fbind)

lemma kept_bytes:
  assumes "entries w' = entries w" "wf_opfs w"
  shows "wf_opfs w' \<and> opfs_bytes w' = opfs_bytes w"
  using assms node_at_entries[of w' w] wf_opfs_entries[of w' w] by (simp add: opfs_bytes_def fun_eq_iff)

lemma getFile_result:
  assumes "getFile h w = (Inr (d, t), w')"
  shows "node_at w h = Some (FileNode d t)"
proof -
  obtain s where s: "dom_call w = (Inr (), s)"
    "(case node_at s h of Some (FileNode d t) \<Rightarrow> (Inr (d, t), s) | _ \<Rightarrow> (Inl DomNotFound, s)) = (Inr (d, t), w')"
    using assms by (auto simp: getFile_def fbind_Inr)
  then have "node_at s h = Some (FileNode d t)" by (auto split: option.splits opfs_node.splits)
  with dom_call_node[OF s(1)] show ?thesis by simp
qed

lemma handle_result:
  "getDirectoryHandle dir n c w = (Inr h, w') \<Longrightarrow> h = dir @ [n]" "getFileHandle dir n c w = (Inr h, w') \<Longrightarrow> h = dir @ [n]"
  unfolding getDirectoryHandle_def getFileHandle_def fbind_Inr
  by (elim exE conjE; auto split: option.splits opfs_node.splits if_splits)+

lemma resolve_result: "resolveDirectoryBySegments dir ss c w = (Inr h, w') \<Longrightarrow> h = dir @ ss"
  by (induction ss arbitrary: dir w) (simp, fastforce simp: fbind_Inr dest: handle_result)

lemma resolveFile_result:
  assumes "resolveFileHandle cwd path False w = (Inr h, w')"
  shows "h = splitToSegments path cwd"
proof -
  have "splitPath path cwd = Inr (p, n) \<Longrightarrow> p @ [n] = splitToSegments path cwd" for p n
    by (auto simp: splitPath_def Let_def split_normalized split: if_splits)
  with assms show ?thesis
    by (auto simp: resolveFileHandle_def fbind_Inr dest!: resolve_result handle_result)
qed

lemma read_text_result:
  assumes "opfs_readTextFile lossy cwd path a w = (Inr s, w')"
  shows "\<exists>d. opfs_bytes w (splitToSegments path cwd) = Some d \<and> s = blob_text lossy d"
proof -
  let ?p = "normalizeVirtualPath path cwd"
  from assms obtain h v d t where h: "resolveFileHandle cwd ?p False w = (Inr h, v)" "getFile h v = (Inr (d, t), w')" "s = blob_text lossy d"
    by (auto simp: opfs_readTextFile_def Let_def fbind_Inr split: if_splits)
  have "entries v = entries w" using keeps_resolveFile[of cwd ?p w] h(1) by simp
  then have "node_at v = node_at w" by (rule node_at_entries)
  with getFile_result[OF h(2)] resolveFile_result[OF h(1)] h(3) show ?thesis by (simp add: opfs_bytes_def)
qed

lemma write_result:
  assumes "wf_opfs w" "opfs_writeFile cwd path content a w = (r, w')" "p = splitToSegments path cwd"
  shows "case r of
         Inr _ \<Rightarrow> opfs_bytes w' = (opfs_bytes w)(p \<mapsto> content_bytes content)
       | Inl _ \<Rightarrow> opfs_bytes w' = opfs_bytes w \<or> opfs_bytes w p = None \<and> opfs_bytes w' = (opfs_bytes w)(p \<mapsto> [])"
proof -
  note e = opfs_write_effect[OF assms]
  then have "opfs_bytes w' q = opfs_bytes w q" if "q \<noteq> p" for q
    using that by (auto simp: only_at_def opfs_bytes_def split: option.splits)
  then have upd: "opfs_bytes w' = (opfs_bytes w)(p := opfs_bytes w' p)" by auto
  have p: "case r of Inr _ \<Rightarrow> opfs_bytes w' p = Some (content_bytes content)
     | Inl _ \<Rightarrow> opfs_bytes w' p = opfs_bytes w p \<or> opfs_bytes w p = None \<and> opfs_bytes w' p = Some []"
    using e by (auto simp: opfs_bytes_def split: sum.splits)
  show ?thesis
  proof (cases r)
    case (Inl e)
    with p show ?thesis using upd by (simp, metis fun_upd_triv)
  next
    case (Inr u)
    with p show ?thesis using upd by simp
  qed
qed

interpretation opfs_tools: tool_files "opfs_env lossy cwd" wf_opfs opfs_bytes "\<lambda>p. splitToSegments p cwd" "blob_text lossy"
proof
  fix w p a r s i c u w' assume w: "wf_opfs w"
  show "env_canonicalPath (opfs_env lossy cwd) p w = (r, w') \<Longrightarrow> wf_opfs w' \<and> opfs_bytes w' = opfs_bytes w"
    using keeps_canonical[of cwd p w] kept_bytes[OF _ w, of w'] by (simp add: opfs_env_def)
  show "env_fileInfo (opfs_env lossy cwd) p a w = (i, w') \<Longrightarrow> wf_opfs w' \<and> opfs_bytes w' = opfs_bytes w"
    using keeps_info[of cwd p w] kept_bytes[OF _ w, of w'] by (simp add: opfs_env_def)
  show "env_readTextFile (opfs_env lossy cwd) p a w = (s, w') \<Longrightarrow> wf_opfs w' \<and> opfs_bytes w' = opfs_bytes w \<and>
      (\<forall>x. s = Inr x \<longrightarrow> (\<exists>d. opfs_bytes w (splitToSegments p cwd) = Some d \<and> x = blob_text lossy d))"
    using keeps_read(1)[of lossy cwd p a w] kept_bytes[OF _ w, of w'] read_text_result[of lossy cwd p a w] by (auto simp: opfs_env_def)
  show "env_writeFile (opfs_env lossy cwd) p c a w = (u, w') \<Longrightarrow> wf_opfs w' \<and>
      (case u of
         Inl _ \<Rightarrow> opfs_bytes w' = opfs_bytes w \<or>
           opfs_bytes w (splitToSegments p cwd) = None \<and> opfs_bytes w' = (opfs_bytes w)(splitToSegments p cwd \<mapsto> [])
       | Inr _ \<Rightarrow> opfs_bytes w' = (opfs_bytes w)(splitToSegments p cwd \<mapsto> content_bytes c))"
    using write_result[OF w _ refl, of cwd p c a u w'] opfs_write_effect[OF w _ refl, of cwd p c a u w'] by (simp add: opfs_env_def)
qed

text \<open>C9: An edit in the browser is made completely or not at all.  Whatever call of the platform fails and whenever the user
  aborts, after the tool has run either no file has changed and an error is reported, or exactly one file has changed, the one
  the path names, from bytes for whose text all edits applied to the result of these edits.  The second case is reported as
  success, or as aborted when the signal came after the write.\<close>

theorem edit_tool_atomic:
  assumes "wf_opfs w" and "edit_execute nfkc diffLines unifiedPatch (opfs_env lossy cwd) signal path edits w = (r, w')"
    and "p = splitToSegments (normalizeToolPath path) cwd"
  shows "wf_opfs w' \<and>
    (opfs_bytes w' = opfs_bytes w \<and> (\<exists>e. r = Inl e)
     \<or> (\<exists>d base new final.
          opfs_bytes w p = Some d \<and> edited_text nfkc path edits (blob_text lossy d) = Inr (base, new, final) \<and>
          opfs_bytes w' = (opfs_bytes w)(p \<mapsto> utf8_encode final) \<and> (r = Inl OperationAborted \<or> (\<exists>x. r = Inr x))))"
proof -
  have a: "resolveToolPath (opfs_env lossy cwd) path (signal 0) = Inr (normalizeVirtualPath (normalizeToolPath path) cwd)"
    by (simp add: resolveToolPath_def opfs_env_def opfs_absolutePath_def)
  from opfs_tools.edit_tool_effect[OF assms(1,2)] show ?thesis unfolding assms(3) a by auto
qed

text \<open>The same for the tool that writes: a new file can be left empty when its write fails.\<close>

lemma write_tool_atomic:
  assumes "wf_opfs w" "write_execute (opfs_env lossy cwd) signal path content w = (r, w')"
    and "p = splitToSegments (normalizeToolPath path) cwd"
  shows "wf_opfs w' \<and>
    (opfs_bytes w' = opfs_bytes w \<and> (\<exists>e. r = Inl e)
     \<or> opfs_bytes w' = (opfs_bytes w)(p \<mapsto> utf8_encode content) \<and> (r = Inl OperationAborted \<or> (\<exists>t. r = Inr t))
     \<or> opfs_bytes w p = None \<and> opfs_bytes w' = (opfs_bytes w)(p \<mapsto> []) \<and> (\<exists>e. r = Inl e))"
proof -
  have a: "resolveToolPath (opfs_env lossy cwd) path (signal 0) = Inr (normalizeVirtualPath (normalizeToolPath path) cwd)"
    by (simp add: resolveToolPath_def opfs_env_def opfs_absolutePath_def)
  from opfs_tools.write_tool_effect[OF assms(1,2)] show ?thesis unfolding assms(3) a by auto
qed

section \<open>A concrete edit\<close>

definition note_tree :: opfs where
  "note_tree = \<lparr>entries = [([[0x66]], FileNode [0x61] 1)], clock = 5, has_move = False, faults = []\<rparr>"

lemma note_steps:
  "opfs_absolutePath [SLASH] (normalizeToolPath [0x66]) = Inr [0x2F, 0x66]" "opfs_absolutePath [SLASH] [0x2F, 0x66] = Inr [0x2F, 0x66]"
  "opfs_canonicalPath [SLASH] [0x2F, 0x66] note_tree = (Inr [0x2F, 0x66], note_tree)"
  "opfs_fileInfo [SLASH] [0x2F, 0x66] note_tree =
     (Inr \<lparr>info_name = [0x66], info_path = [0x2F, 0x66], info_kind = FileKind, info_size = 1, info_mtimeMs = 1\<rparr>, note_tree)"
  "opfs_writeFile [SLASH] [0x2F, 0x66] content False note_tree =
     (Inr (), note_tree\<lparr>entries := [([[0x66]], FileNode (content_bytes content) 5)]\<rparr>)"
  "splitToSegments [0x2F, 0x66] [SLASH] = [[0x66]]"
  "wf_opfs note_tree"
  "splitToSegments (normalizeToolPath [0x66]) [SLASH] = [[0x66]]"
  by code_simp+

lemma note_text: "blob_text lossy [0x61] = [0x61]"
proof -
  have "utf8_encode [0x61] = [0x61]" by (simp add: utf8_encode_def scalar_bytes_def u8_def is_high_def is_low_def)
  moreover have "well_formed [0x61]" by (simp add: is_high_def is_low_def)
  ultimately have "utf8_decode [0x61] = Some [0x61]" using utf8_roundtrip[of "[0x61]"] by simp
  then show ?thesis by (simp add: blob_text_def)
qed

lemma note_read: "opfs_readTextFile lossy [SLASH] [0x2F, 0x66] False note_tree = (Inr [0x61], note_tree)"
  using read_quiet(2)[of note_tree "[0x2F, 0x66]" "[SLASH]" "[0x61]" 1 lossy] note_steps(6,7)
  by (simp add: note_text) (simp add: note_tree_def node_at_def)

lemma note_edited:
  "edited_text id [0x66] [\<lparr>oldText = [0x61], edit_newText = [0x62]\<rparr>] [0x61] = Inr ([0x61], [0x62], [0x62])"
  by code_simp

theorem edit_tool_atomic_witness:
  "\<exists>x w'. edit_execute id (\<lambda>a b. []) (\<lambda>p a b. []) (opfs_env (\<lambda>b. []) [SLASH]) (\<lambda>i. False) [0x66] [\<lparr>oldText = [0x61], edit_newText = [0x62]\<rparr>]
       note_tree = (Inr x, w') \<and> wf_opfs w' \<and> opfs_bytes w' [[0x66]] = Some (utf8_encode [0x62])"
proof -
  let ?e = "[\<lparr>oldText = [0x61], edit_newText = [0x62]\<rparr>] :: edit list"
  obtain diff first where diff: "generateDiffString (\<lambda>a b. []) [0x61] [0x62] 4 = (diff, first)" by fastforce
  obtain x w' where run: "edit_execute id (\<lambda>a b. []) (\<lambda>p a b. []) (opfs_env (\<lambda>b. []) [SLASH]) (\<lambda>i. False) [0x66] ?e note_tree = (Inr x, w')"
    by (simp add: edit_execute_def resolveToolPath_def withFileMutationQueue_def getMutationQueueKey_def getOrThrow_def editAccessError_def
        unless_aborted_def opfs_env_def note_steps note_read note_edited diff)
  from edit_tool_atomic[OF note_steps(7) run refl] note_steps(8)
  have "wf_opfs w'" "\<exists>d base new final. opfs_bytes note_tree [[0x66]] = Some d \<and> edited_text id [0x66] ?e (blob_text (\<lambda>b. []) d) = Inr (base, new, final)
      \<and> opfs_bytes w' = (opfs_bytes note_tree)([[0x66]] \<mapsto> utf8_encode final)"
    by auto
  moreover have "opfs_bytes note_tree [[0x66]] = Some [0x61]" by (simp add: opfs_bytes_def node_at_def note_tree_def)
  ultimately show ?thesis using run by (auto simp: note_text note_edited)
qed

end
