(* ===== verification/Read_Tool.thy ===== *)
theory Read_Tool
  imports File_Tools
begin

text \<open>
  Images in the output of the tool that reads files (\<^verbatim>\<open>packages/agent/src/harness/tools/image.ts\<close>): what counts as an image,
  and Base64.
\<close>

unbundle bit_operations_syntax

section \<open>Bytes of a buffer\<close>

text \<open>\<^verbatim>\<open>buffer[i] ?? 0\<close>: beyond the end a byte reads as zero.\<close>

definition byte_or_zero :: "byte list \<Rightarrow> nat \<Rightarrow> nat" where
  "byte_or_zero buffer i = (if i < length buffer then unat (buffer ! i) else 0)"

definition readUint16LE :: "byte list \<Rightarrow> nat \<Rightarrow> nat" where
  "readUint16LE buffer i = byte_or_zero buffer i + byte_or_zero buffer (i + 1) * 0x100"

definition readUint32BE :: "byte list \<Rightarrow> nat \<Rightarrow> nat" where
  "readUint32BE buffer i =
     byte_or_zero buffer i * 0x1000000 + byte_or_zero buffer (i + 1) * 0x10000 + byte_or_zero buffer (i + 2) * 0x100
     + byte_or_zero buffer (i + 3)"

definition readUint32LE :: "byte list \<Rightarrow> nat \<Rightarrow> nat" where
  "readUint32LE buffer i =
     byte_or_zero buffer i + byte_or_zero buffer (i + 1) * 0x100 + byte_or_zero buffer (i + 2) * 0x10000
     + byte_or_zero buffer (i + 3) * 0x1000000"

definition startsWithBytes :: "byte list \<Rightarrow> byte list \<Rightarrow> bool" where
  "startsWithBytes buffer bytes = (length bytes \<le> length buffer \<and> take (length bytes) buffer = bytes)"

definition startsWithAscii :: "byte list \<Rightarrow> nat \<Rightarrow> string \<Rightarrow> bool" where
  "startsWithAscii buffer i s =
     (i + length s \<le> length buffer \<and> take (length s) (drop i buffer) = map (\<lambda>c. word_of_nat (of_char c)) s)"

section \<open>Kinds of images\<close>

definition PNG_SIGNATURE :: "byte list" where
  "PNG_SIGNATURE = [0x89, 0x50, 0x4E, 0x47, 0x0D, 0x0A, 0x1A, 0x0A]"

definition isPng :: "byte list \<Rightarrow> bool" where
  "isPng buffer = (16 \<le> length buffer \<and> readUint32BE buffer (length PNG_SIGNATURE) = 13 \<and> startsWithAscii buffer 12 ''IHDR'')"

text \<open>The walk over the chunks of a PNG; every chunk is longer than its header.\<close>

function animated_from :: "byte list \<Rightarrow> nat \<Rightarrow> bool" where
  "animated_from buffer i =
     (if i + 8 \<le> length buffer then
        (if startsWithAscii buffer (i + 4) ''acTL'' then True
         else if startsWithAscii buffer (i + 4) ''IDAT'' then False
         else
           (let nextOffset = i + 8 + readUint32BE buffer i + 4
            in if nextOffset \<le> i \<or> nextOffset > length buffer then False else animated_from buffer nextOffset))
      else False)"
  by pat_completeness auto
termination by (relation "measure (\<lambda>(buffer, i). length buffer - i)") auto

definition isAnimatedPng :: "byte list \<Rightarrow> bool" where
  "isAnimatedPng buffer = animated_from buffer (length PNG_SIGNATURE)"

definition isBmp :: "byte list \<Rightarrow> bool" where
  "isBmp buffer =
     (let declaredFileSize = readUint32LE buffer 2; pixelDataOffset = readUint32LE buffer 10; dibHeaderSize = readUint32LE buffer 14;
          valid_depth = (\<lambda>colorPlanes bitsPerPixel. colorPlanes = 1 \<and> bitsPerPixel \<in> {1, 4, 8, 16, 24, 32::nat})
      in if length buffer < 26 then False
         else if declaredFileSize \<noteq> 0 \<and> declaredFileSize < 26 then False
         else if pixelDataOffset < 14 + dibHeaderSize then False
         else if declaredFileSize \<noteq> 0 \<and> pixelDataOffset \<ge> declaredFileSize then False
         else if dibHeaderSize = 12 then valid_depth (readUint16LE buffer 22) (readUint16LE buffer 24)
         else if 40 \<le> dibHeaderSize \<and> dibHeaderSize \<le> 124 then
           (if length buffer < 30 then False else valid_depth (readUint16LE buffer 26) (readUint16LE buffer 28))
         else False)"

datatype image_type = ImageJpeg | ImagePng | ImageGif | ImageWebp | ImageBmp

definition detectSupportedImageMimeType :: "byte list \<Rightarrow> image_type option" where
  "detectSupportedImageMimeType buffer =
     (if startsWithBytes buffer [0xFF, 0xD8, 0xFF] then
        (if 3 < length buffer \<and> buffer ! 3 = 0xF7 then None else Some ImageJpeg)
      else if startsWithBytes buffer PNG_SIGNATURE then (if isPng buffer \<and> \<not> isAnimatedPng buffer then Some ImagePng else None)
      else if startsWithAscii buffer 0 ''GIF'' then Some ImageGif
      else if startsWithAscii buffer 0 ''RIFF'' \<and> startsWithAscii buffer 8 ''WEBP'' then Some ImageWebp
      else if startsWithAscii buffer 0 ''BM'' \<and> isBmp buffer then Some ImageBmp
      else None)"

section \<open>Base64\<close>

definition base64_alphabet :: string where
  "base64_alphabet = ''ABCDEFGHIJKLMNOPQRSTUVWXYZabcdefghijklmnopqrstuvwxyz0123456789+/''"

definition base64_char :: "byte \<Rightarrow> char" where
  "base64_char b = base64_alphabet ! unat b"

text \<open>One round of the loop; \<^verbatim>\<open>second\<close> and \<^verbatim>\<open>third\<close> are \<^verbatim>\<open>undefined\<close> beyond the end.\<close>

definition base64_round :: "byte \<Rightarrow> byte option \<Rightarrow> byte option \<Rightarrow> string" where
  "base64_round first second third =
     [base64_char (drop_bit 2 first),
      base64_char (push_bit 4 (first AND 0x03) OR drop_bit 4 (case second of None \<Rightarrow> 0 | Some b \<Rightarrow> b)),
      (case second of
         None \<Rightarrow> CHR ''=''
       | Some b \<Rightarrow> base64_char (push_bit 2 (b AND 0x0F) OR drop_bit 6 (case third of None \<Rightarrow> 0 | Some c \<Rightarrow> c))),
      (case third of None \<Rightarrow> CHR ''='' | Some c \<Rightarrow> base64_char (c AND 0x3F))]"

fun encodeBase64 :: "byte list \<Rightarrow> string" where
  "encodeBase64 [] = []"
| "encodeBase64 [a] = base64_round a None None"
| "encodeBase64 [a, b] = base64_round a (Some b) None"
| "encodeBase64 (a # b # c # bytes) = base64_round a (Some b) (Some c) @ encodeBase64 bytes"

text \<open>The decoding of RFC 4648: four characters give three bytes, padding stands for missing ones.\<close>

definition base64_value :: "char \<Rightarrow> nat option" where
  "base64_value x = (case find (\<lambda>i. base64_alphabet ! i = x) [0..<64] of None \<Rightarrow> None | Some i \<Rightarrow> Some i)"

fun decode_base64 :: "string \<Rightarrow> byte list option" where
  "decode_base64 [] = Some []"
| "decode_base64 (w # x # y # z # rest) =
     (case (base64_value w, base64_value x) of
        (Some i, Some j) \<Rightarrow>
          if y = CHR ''='' \<and> z = CHR ''='' \<and> rest = [] then Some [word_of_nat (i * 4 + j div 16)]
          else
            (case base64_value y of
               None \<Rightarrow> None
             | Some k \<Rightarrow>
                 if z = CHR ''='' \<and> rest = [] then Some [word_of_nat (i * 4 + j div 16), word_of_nat (j mod 16 * 16 + k div 4)]
                 else
                   (case (base64_value z, decode_base64 rest) of
                      (Some l, Some bytes) \<Rightarrow>
                        Some (word_of_nat (i * 4 + j div 16) # word_of_nat (j mod 16 * 16 + k div 4) # word_of_nat (k mod 4 * 64 + l) # bytes)
                    | _ \<Rightarrow> None))
      | _ \<Rightarrow> None)"
| "decode_base64 _ = None"

lemma alphabet_length: "length base64_alphabet = 64"
  by (simp add: base64_alphabet_def)

lemma alphabet_distinct: "distinct base64_alphabet" "CHR ''='' \<notin> set base64_alphabet"
  by (simp_all add: base64_alphabet_def)

lemma base64_value_char:
  assumes "unat b < 64"
  shows "base64_value (base64_char b) = Some (unat b)" "base64_char b \<noteq> CHR ''=''"
proof -
  have "find (\<lambda>i. base64_alphabet ! i = base64_alphabet ! unat b) [0..<64] = Some (unat b)"
    using assms alphabet_distinct(1) alphabet_length
    by (auto simp: find_Some_iff nth_eq_iff_index_eq intro!: exI[of _ "unat b"])
  then show "base64_value (base64_char b) = Some (unat b)" by (simp add: base64_value_def base64_char_def)
  show "base64_char b \<noteq> CHR ''=''"
    using assms alphabet_distinct(2) alphabet_length by (metis base64_char_def nth_mem)
qed

lemma unat_and_mask: "unat (b AND 0x03 :: byte) = unat b mod 4" "unat (b AND 0x0F :: byte) = unat b mod 16" "unat (b AND 0x3F :: byte) = unat b mod 64"
proof -
  have "b AND 0x03 = take_bit 2 b" "b AND 0x0F = take_bit 4 b" "b AND 0x3F = take_bit 6 b"
    by (simp_all add: take_bit_eq_mask mask_eq_exp_minus_1)
  then show "unat (b AND 0x03) = unat b mod 4" "unat (b AND 0x0F) = unat b mod 16" "unat (b AND 0x3F) = unat b mod 64"
    by (simp_all add: take_bit_eq_mod unat_mod_distrib)
qed

lemma unat_drop:
  "unat (drop_bit 2 b :: byte) = unat b div 4" "unat (drop_bit 4 b :: byte) = unat b div 16" "unat (drop_bit 6 b :: byte) = unat b div 64"
  by (simp_all add: drop_bit_eq_div unat_div_distrib)

lemma sextet_values:
  "unat (push_bit 4 (a AND 0x03) OR drop_bit 4 b :: byte) = unat a mod 4 * 16 + unat b div 16"
  "unat (push_bit 2 (b AND 0x0F) OR drop_bit 6 c :: byte) = unat b mod 16 * 4 + unat c div 64"
proof -
  have apart: "\<not> bit (push_bit k x) n \<or> \<not> bit (drop_bit m y) n" if "8 \<le> m + k" for k m n and x y :: byte
    using that by (cases "n < k") (auto simp: bit_push_bit_iff bit_drop_bit_eq dest: bit_imp_le_length)
  have small: "unat x < 256" for x :: byte using unsigned_less[of x] by simp
  have "push_bit 4 (a AND 0x03) OR drop_bit 4 b = push_bit 4 (a AND 0x03) + drop_bit 4 b"
    by (rule disjunctive_add[symmetric]) (rule apart, simp)
  moreover have "push_bit 4 (a AND 0x03) = (a AND 0x03) * 16" by (simp add: push_bit_eq_mult)
  moreover have "unat ((a AND 0x03) * 16) = unat a mod 4 * 16" by (simp add: unat_word_ariths unat_and_mask)
  ultimately show "unat (push_bit 4 (a AND 0x03) OR drop_bit 4 b :: byte) = unat a mod 4 * 16 + unat b div 16"
    using small[of b] by (simp add: unat_word_ariths(1) unat_drop)
  have "push_bit 2 (b AND 0x0F) OR drop_bit 6 c = push_bit 2 (b AND 0x0F) + drop_bit 6 c"
    by (rule disjunctive_add[symmetric]) (rule apart, simp)
  moreover have "push_bit 2 (b AND 0x0F) = (b AND 0x0F) * 4" by (simp add: push_bit_eq_mult)
  moreover have "unat ((b AND 0x0F) * 4) = unat b mod 16 * 4" by (simp add: unat_word_ariths unat_and_mask)
  ultimately show "unat (push_bit 2 (b AND 0x0F) OR drop_bit 6 c :: byte) = unat b mod 16 * 4 + unat c div 64"
    using small[of c] by (simp add: unat_word_ariths(1) unat_drop)
qed

text \<open>Decoding gives the bytes back, so an image arrives as it was read.\<close>

lemma base64_roundtrip: "decode_base64 (encodeBase64 bytes) = Some bytes"
proof (induction bytes rule: encodeBase64.induct)
  case 1
  show ?case by simp
next
  case (2 a)
  have "unat a < 256" using unsigned_less[of a] by simp
  moreover have "push_bit 4 (a AND 0x03) = push_bit 4 (a AND 0x03) OR drop_bit 4 (0 :: byte)" by simp
  ultimately show ?case
    using sextet_values(1)[of a 0] by (simp add: base64_round_def base64_value_char unat_drop)
next
  case (3 a b)
  have "unat a < 256" "unat b < 256" using unsigned_less[of a] unsigned_less[of b] by simp_all
  then show ?case
    using sextet_values(1)[of a b] sextet_values(2)[of b 0] by (simp add: base64_round_def base64_value_char unat_drop)
next
  case (4 a b c bytes)
  have "unat a < 256" "unat b < 256" "unat c < 256" using unsigned_less[of a] unsigned_less[of b] unsigned_less[of c] by simp_all
  with 4 show ?case
    using sextet_values(1)[of a b] sextet_values(2)[of b c] by (simp add: base64_round_def base64_value_char unat_drop unat_and_mask)
qed

text \<open>
  The tool that reads files (\<^verbatim>\<open>packages/agent/src/harness/tools/read.ts\<close> and the path variants of \<^verbatim>\<open>path-utils.ts\<close>): a page of
  the lines of a file with a notice how to go on.
\<close>

section \<open>Slices\<close>

definition slice_at :: "nat \<Rightarrow> int \<Rightarrow> nat" where
  "slice_at n i = (if i < 0 then nat (int n + i) else min (nat i) n)"

definition js_slice :: "'a list \<Rightarrow> int \<Rightarrow> int \<Rightarrow> 'a list" where
  "js_slice xs i j = take (slice_at (length xs) j - slice_at (length xs) i) (drop (slice_at (length xs) i) xs)"

section \<open>A page\<close>

datatype page_notice =
    LineTooLong nat nat
  | ShowingLines nat nat nat truncated_by
  | MoreLines int int
  | EndOfFile

record text_page =
  pg_content :: js_string
  pg_notice :: page_notice
  pg_truncation :: "truncation_result option"

text \<open>The offset of the next page, counted from one, if the notice gives one.\<close>

fun next_offset :: "page_notice \<Rightarrow> int option" where
  "next_offset (ShowingLines a b n by) = Some (int b + 1)"
| "next_offset (MoreLines remaining next) = Some next"
| "next_offset _ = None"

definition start_line :: "int option \<Rightarrow> nat" where
  "start_line offset = (case offset of None \<Rightarrow> 0 | Some i \<Rightarrow> if i = 0 then 0 else nat (max 0 (i - 1)))"

definition end_line :: "js_string list \<Rightarrow> nat \<Rightarrow> int \<Rightarrow> int" where
  "end_line allLines start limit = min (int start + limit) (int (length allLines))"

definition read_page :: "bool \<Rightarrow> js_string list \<Rightarrow> nat \<Rightarrow> int option \<Rightarrow> text_page" where
  "read_page rb allLines start limit =
     (let chosen = (case limit of
            Some l \<Rightarrow> js_slice allLines (int start) (end_line allLines start l)
          | None \<Rightarrow> drop start allLines);
          userLimited = map_option (\<lambda>l. end_line allLines start l - int start) limit;
          truncation = truncateHead rb (js_join [newline] chosen) \<lparr>to_maxLines = None, to_maxBytes = None\<rparr>
      in if tn_firstLineExceedsLimit truncation then
           \<lparr>pg_content = [], pg_notice = LineTooLong (start + 1) (length (utf8_encode (allLines ! start))),
            pg_truncation = Some truncation\<rparr>
         else if tn_truncated truncation then
           \<lparr>pg_content = tn_content truncation,
            pg_notice = ShowingLines (start + 1) (start + tn_outputLines truncation) (length allLines)
              (the (tn_truncatedBy truncation)),
            pg_truncation = Some truncation\<rparr>
         else
           \<lparr>pg_content = tn_content truncation,
            pg_notice = (case userLimited of
                Some n \<Rightarrow>
                  if int start + n < int (length allLines)
                  then MoreLines (int (length allLines) - (int start + n)) (int start + n + 1) else EndOfFile
              | None \<Rightarrow> EndOfFile),
            pg_truncation = None\<rparr>)"

definition num_units :: "int \<Rightarrow> js_string" where
  "num_units n = ascii_units (int_to_string n)"

definition page_text :: "js_string \<Rightarrow> text_page \<Rightarrow> js_string" where
  "page_text path page =
     (case pg_notice page of
        LineTooLong n bytes \<Rightarrow>
          ascii_units ''[Line '' @ num_units (int n) @ ascii_units '' is '' @ formatSize bytes @ ascii_units '', exceeds ''
          @ formatSize DEFAULT_MAX_BYTES @ ascii_units '' limit. Use bash: sed -n '' @ [0x27] @ num_units (int n) @ ascii_units ''p''
          @ [0x27] @ ascii_units '' '' @ path @ ascii_units '' | head -c '' @ num_units (int DEFAULT_MAX_BYTES) @ ascii_units '']''
      | ShowingLines a b lines by \<Rightarrow>
          pg_content page @ [newline, newline] @ ascii_units ''[Showing lines '' @ num_units (int a) @ ascii_units ''-'' @ num_units (int b)
          @ ascii_units '' of '' @ num_units (int lines)
          @ (if by = ByLines then [] else ascii_units '' ('' @ formatSize DEFAULT_MAX_BYTES @ ascii_units '' limit)'')
          @ ascii_units ''. Use offset='' @ num_units (int b + 1) @ ascii_units '' to continue.]''
      | MoreLines remaining next \<Rightarrow>
          pg_content page @ [newline, newline] @ ascii_units ''['' @ num_units remaining
          @ ascii_units '' more lines in file. Use offset='' @ num_units next @ ascii_units '' to continue.]''
      | EndOfFile \<Rightarrow> pg_content page)"

section \<open>The path\<close>

fun narrow_space :: "js_string \<Rightarrow> js_string" where
  "narrow_space (a # b # c # d # s) =
     (if a = 0x20 \<and> b \<in> {0x41, 0x61, 0x50, 0x70} \<and> c \<in> {0x4D, 0x6D} \<and> d = 0x2E then 0x202F # b # c # d # narrow_space s
      else a # narrow_space (b # c # d # s))"
| "narrow_space s = s"

definition curly_quote :: "js_string \<Rightarrow> js_string" where
  "curly_quote s = map (\<lambda>c. if c = 0x27 then 0x2019 else c) s"

fun first_existing :: "'w tool_env \<Rightarrow> bool \<Rightarrow> js_string \<Rightarrow> js_string list \<Rightarrow> 'w \<Rightarrow> (tool_error + js_string) \<times> 'w" where
  "first_existing env signal resolved [] w = (Inr resolved, w)"
| "first_existing env signal resolved (v # vs) w =
     fbind (getOrThrow (env_exists env v signal w)) (\<lambda>b w. if b then (Inr v, w) else first_existing env signal resolved vs w)"

text \<open>A set iterates over its elements in the order of their first insertion; \<open>nfd\<close> is the Unicode normal form.\<close>

definition resolveReadToolPath ::
  "(js_string \<Rightarrow> js_string) \<Rightarrow> 'w tool_env \<Rightarrow> js_string \<Rightarrow> bool \<Rightarrow> 'w \<Rightarrow> (tool_error + js_string) \<times> 'w" where
  "resolveReadToolPath nfd env path signal w =
     fbind (resolveToolPath env path signal, w) (\<lambda>resolved w.
       first_existing env signal resolved
         (rev (remdups (rev [resolved, narrow_space resolved, nfd resolved, curly_quote resolved, curly_quote (nfd resolved)]))) w)"

section \<open>The tool\<close>

datatype processed_image = ImageConverted js_string js_string "js_string list" | ImageRefused js_string

datatype read_result =
    TextResult js_string "truncation_result option"
  | ImageResult js_string js_string js_string

fun image_name :: "image_type \<Rightarrow> string" where
  "image_name ImageJpeg = ''image/jpeg''"
| "image_name ImagePng = ''image/png''"
| "image_name ImageGif = ''image/gif''"
| "image_name ImageWebp = ''image/webp''"
| "image_name ImageBmp = ''image/bmp''"

text \<open>\<open>imageProcessor\<close> is the conversion that may be injected.\<close>

definition read_image :: "(byte list \<Rightarrow> image_type \<Rightarrow> processed_image) option \<Rightarrow> byte list \<Rightarrow> image_type \<Rightarrow> read_result" where
  "read_image imageProcessor bytes mimeType =
     (let header = (\<lambda>m. ascii_units ''Read image file ['' @ m @ ascii_units '']''); name = ascii_units (image_name mimeType)
      in case imageProcessor of
           Some process \<Rightarrow>
             (case process bytes mimeType of
                ImageRefused message \<Rightarrow> TextResult (header name @ [newline] @ message) None
              | ImageConverted data m hints \<Rightarrow>
                  ImageResult (header m @ (if hints \<noteq> [] then [newline] @ js_join [newline] hints else [])) data m)
         | None \<Rightarrow>
             if mimeType = ImageBmp then
               TextResult (header name @ [newline] @ ascii_units ''[Image omitted: configure an imageProcessor to convert BMP images.]'') None
             else ImageResult (header name) (ascii_units (encodeBase64 bytes)) name)"

definition read_text_page :: "bool \<Rightarrow> js_string \<Rightarrow> js_string \<Rightarrow> int option \<Rightarrow> int option \<Rightarrow> tool_error + read_result" where
  "read_text_page rb textContent path offset limit =
     (let allLines = js_split newline textContent; start = start_line offset
      in if start \<ge> length allLines then Inl (OffsetBeyondEnd (the offset) (length allLines))
         else
           (let page = read_page rb allLines start limit
            in Inr (TextResult (page_text path page) (pg_truncation page))))"

definition read_execute ::
  "bool \<Rightarrow> (byte list \<Rightarrow> js_string) \<Rightarrow> (js_string \<Rightarrow> js_string) \<Rightarrow> (byte list \<Rightarrow> image_type \<Rightarrow> processed_image) option \<Rightarrow> 'w tool_env
     \<Rightarrow> (nat \<Rightarrow> bool) \<Rightarrow> js_string \<Rightarrow> int option \<Rightarrow> int option \<Rightarrow> 'w \<Rightarrow> (tool_error + read_result) \<times> 'w" where
  "read_execute rb lossy nfd imageProcessor env signal path offset limit w =
     fbind (resolveReadToolPath nfd env path (signal 0) w) (\<lambda>absolutePath w.
     fbind (getOrThrow (env_readBinaryFile env absolutePath (signal 1) w)) (\<lambda>bytes w.
       (case detectSupportedImageMimeType bytes of
          Some mimeType \<Rightarrow> Inr (read_image imageProcessor bytes mimeType)
        | None \<Rightarrow> read_text_page rb (blob_text lossy bytes) path offset limit, w)))"

section \<open>Following the notices reads the whole file\<close>

lemma truncated_head:
  fixes rb content options
  defines "r \<equiv> truncateHead rb content options" and "lines \<equiv> splitLinesForCounting content"
  shows "tn_truncated r \<longleftrightarrow> \<not> (length lines \<le> resolved_maxLines options \<and> byte_length content \<le> resolved_maxBytes options)"
    and "tn_firstLineExceedsLimit r \<longleftrightarrow> tn_truncated r \<and> byte_length (hd lines) > resolved_maxBytes options"
    and "tn_truncated r \<Longrightarrow> tn_outputLines r \<le> length lines"
proof -
  show "tn_truncated r \<longleftrightarrow> \<not> (length lines \<le> resolved_maxLines options \<and> byte_length content \<le> resolved_maxBytes options)"
    by (auto simp: r_def lines_def truncateHead_def Let_def utf8ByteLength_eq split: prod.splits)
  show "tn_firstLineExceedsLimit r \<longleftrightarrow> tn_truncated r \<and> byte_length (hd lines) > resolved_maxBytes options"
    by (auto simp: r_def lines_def truncateHead_def Let_def utf8ByteLength_eq split: prod.splits)
  assume t: "tn_truncated r"
  obtain out count reason where loop:
    "head_loop rb (resolved_maxLines options) (resolved_maxBytes options) 0 lines [] 0 = (out, count, reason)" by (metis prod_cases3)
  from head_loop_keeps[of rb "resolved_maxLines options" "resolved_maxBytes options" "[]" lines out count reason] loop
  have "length out \<le> length lines" by (auto simp: joined_bytes_def)
  with loop t show "tn_outputLines r \<le> length lines"
    by (auto simp: r_def lines_def truncateHead_def Let_def utf8ByteLength_eq split: if_splits)
qed

lemma counted_lines:
  assumes "sel \<noteq> []" "\<forall>l \<in> set sel. newline \<notin> set l"
  shows "splitLinesForCounting (js_join [newline] sel) =
    (if js_join [newline] sel = [] then [] else if length sel > 1 \<and> last sel = [] then butlast sel else sel)"
proof -
  let ?t = "js_join [newline] sel"
  have split: "js_split newline ?t = sel" using assms by (rule js_split_join)
  have "last ?t = newline \<longleftrightarrow> length sel > 1 \<and> last sel = []" if ne: "?t \<noteq> []"
  proof
    assume "last ?t = newline"
    moreover obtain xs y where "?t = xs @ [y]" using ne by (cases ?t rule: rev_cases) auto
    ultimately have xs: "?t = xs @ [newline]" by simp
    have "sel = js_split newline xs @ [[]]" using split unfolding xs js_split_snoc by simp
    moreover have "js_split newline xs \<noteq> []" by simp
    ultimately show "length sel > 1 \<and> last sel = []" by (cases "js_split newline xs") auto
  next
    assume "length sel > 1 \<and> last sel = []"
    then obtain ls where "sel = ls @ [[]]" "ls \<noteq> []" by (cases sel rule: rev_cases) auto
    then show "last ?t = newline" by (simp add: js_join_two)
  qed
  with split show ?thesis unfolding splitLinesForCounting_def by auto
qed

lemma page_cases:
  assumes "start < length ls" "\<forall>l \<in> set ls. newline \<notin> set l \<and> byte_length l \<le> DEFAULT_MAX_BYTES"
    and "\<forall>l. limit = Some l \<longrightarrow> 0 < l" and "p = read_page rb ls start limit"
  obtains (final) "pg_notice p = EndOfFile" "pg_content p = js_join [newline] (drop start ls)"
  | (go) k where "0 < k" "start + k < length ls" "next_offset (pg_notice p) = Some (int (start + k) + 1)"
      "pg_content p = js_join [newline] (take k (drop start ls))"
proof -
  define m where "m = (case limit of None \<Rightarrow> length ls - start | Some l \<Rightarrow> min (nat l) (length ls - start))"
  define sel where "sel = take m (drop start ls)"
  define r where "r = truncateHead rb (js_join [newline] sel) \<lparr>to_maxLines = None, to_maxBytes = None\<rparr>"
  define lines where "lines = splitLinesForCounting (js_join [newline] sel)"
  have m: "0 < m" "start + m \<le> length ls" using assms(1,3) by (auto simp: m_def split: option.splits)
  have sel: "sel \<noteq> []" "\<forall>l \<in> set sel. newline \<notin> set l" "length sel = m" "\<forall>l \<in> set sel. byte_length l \<le> DEFAULT_MAX_BYTES"
    using m assms(1,2) by (auto simp: sel_def dest: in_set_takeD in_set_dropD)
  have chosen: "(case limit of Some l \<Rightarrow> js_slice ls (int start) (end_line ls start l) | None \<Rightarrow> drop start ls) = sel"
    using assms(1,3) by (auto simp: sel_def m_def js_slice_def slice_at_def end_line_def nat_add_distrib min_def split: option.splits)
  have limited: "map_option (\<lambda>l. end_line ls start l - int start) limit = (case limit of None \<Rightarrow> None | Some _ \<Rightarrow> Some (int m))"
    using assms(1,3) by (auto simp: m_def end_line_def min_def split: option.splits)
  have bounds: "resolved_maxLines \<lparr>to_maxLines = None, to_maxBytes = None\<rparr> = DEFAULT_MAX_LINES"
    "resolved_maxBytes \<lparr>to_maxLines = None, to_maxBytes = None\<rparr> = DEFAULT_MAX_BYTES"
    by (simp_all add: resolved_maxLines_def resolved_maxBytes_def)
  note t = truncated_head[of rb "js_join [newline] sel" "\<lparr>to_maxLines = None, to_maxBytes = None\<rparr>", folded r_def lines_def, unfolded bounds]
  note h = head_keeps[of rb "js_join [newline] sel" "\<lparr>to_maxLines = None, to_maxBytes = None\<rparr>", folded r_def lines_def, unfolded bounds]
  have counted: "lines = (if js_join [newline] sel = [] then [] else if length sel > 1 \<and> last sel = [] then butlast sel else sel)"
    unfolding lines_def using sel(1,2) by (rule counted_lines)
  have p: "p = (if tn_firstLineExceedsLimit r then
           \<lparr>pg_content = [], pg_notice = LineTooLong (start + 1) (length (utf8_encode (ls ! start))), pg_truncation = Some r\<rparr>
         else if tn_truncated r then
           \<lparr>pg_content = tn_content r,
            pg_notice = ShowingLines (start + 1) (start + tn_outputLines r) (length ls) (the (tn_truncatedBy r)), pg_truncation = Some r\<rparr>
         else
           \<lparr>pg_content = tn_content r,
            pg_notice = (case limit of
                Some _ \<Rightarrow>
                  if int start + int m < int (length ls)
                  then MoreLines (int (length ls) - (int start + int m)) (int start + int m + 1) else EndOfFile
              | None \<Rightarrow> EndOfFile),
            pg_truncation = None\<rparr>)"
    unfolding assms(4) read_page_def Let_def chosen limited r_def[symmetric] by (simp split: option.split)
  show thesis
  proof (cases "tn_truncated r")
    case False
    with t(2) have "\<not> tn_firstLineExceedsLimit r" by simp
    with False h p have c: "pg_content p = js_join [newline] sel" by simp
    show thesis
    proof (cases "limit \<noteq> None \<and> start + m < length ls")
      case True
      with False \<open>\<not> tn_firstLineExceedsLimit r\<close> p have "next_offset (pg_notice p) = Some (int (start + m) + 1)" by auto
      with True m c show thesis by (intro go[of m]) (simp_all add: sel_def)
    next
      case last: False
      with False \<open>\<not> tn_firstLineExceedsLimit r\<close> p m have "pg_notice p = EndOfFile" by (auto split: option.splits)
      moreover have "sel = drop start ls" using last m(2) by (auto simp: sel_def m_def)
      ultimately show thesis using c by (intro final) simp_all
    qed
  next
    case True
    have "butlast sel \<noteq> []" if "Suc 0 < length sel" using that by (cases sel rule: rev_cases) auto
    then have "lines \<noteq> []" using True t(1) counted sel(1) by (auto simp: DEFAULT_MAX_LINES_def split: if_splits)
    then have hd: "hd lines = hd sel" using counted sel(1) by (auto split: if_splits) (metis butlast.simps(2) hd_Cons_tl list.sel(1) list.size(3,4) One_nat_def less_irrefl)
    then have hb: "byte_length (hd lines) \<le> DEFAULT_MAX_BYTES" using sel(1,4) by simp
    then have fl: "\<not> tn_firstLineExceedsLimit r" using t(2) by simp
    let ?k = "tn_outputLines r"
    have pre: "prefix lines sel" using counted by (auto split: if_splits intro: prefixeq_butlast)
    have k: "?k \<le> length lines" using t(3) True by simp
    have c: "tn_content r = js_join [newline] (take ?k lines)" using h True by simp
    have "0 < ?k"
    proof (rule ccontr)
      assume "\<not> 0 < ?k"
      with h True \<open>lines \<noteq> []\<close> have "length (utf8_encode (js_join [newline] (take 1 lines))) > DEFAULT_MAX_BYTES"
        by (auto simp: DEFAULT_MAX_LINES_def)
      moreover have "take 1 lines = [hd lines]" using \<open>lines \<noteq> []\<close> by (cases lines) auto
      ultimately show False using hb by simp
    qed
    moreover have "?k < length sel"
    proof (rule ccontr)
      assume "\<not> ?k < length sel"
      with k have "length lines = length sel" using prefix_length_le[OF pre] by simp
      with pre have "lines = sel" by (auto simp: prefix_def)
      with k \<open>\<not> ?k < length sel\<close> have l: "lines = sel" "?k = length sel" by simp_all
      with c h have "byte_length (js_join [newline] sel) \<le> DEFAULT_MAX_BYTES" "length lines \<le> DEFAULT_MAX_LINES" by simp_all
      with t(1) True show False by simp
    qed
    moreover have "take ?k lines = take ?k (drop start ls)"
      using pre k \<open>?k < length sel\<close> sel(3) by (auto simp: prefix_def sel_def take_take) (metis (no_types, lifting) append_take_drop_id diff_is_0_eq min.absorb1 sel_def take0 take_append take_take append_Nil2 less_imp_le_nat)
    ultimately show thesis using True fl p c m(2) sel(3) by (intro go[of ?k]) simp_all
  qed
qed

text \<open>A reader that goes on where the notice says, as the description of the tool asks the model to do.\<close>

fun read_on :: "bool \<Rightarrow> nat \<Rightarrow> js_string list \<Rightarrow> int option \<Rightarrow> int \<Rightarrow> js_string list option" where
  "read_on rb 0 ls limit offset = None"
| "read_on rb (Suc n) ls limit offset =
     (if start_line (Some offset) \<ge> length ls then None
      else
        (let page = read_page rb ls (start_line (Some offset)) limit
         in case next_offset (pg_notice page) of
              Some next \<Rightarrow> map_option (\<lambda>pieces. pg_content page # pieces) (read_on rb n ls limit next)
            | None \<Rightarrow> if pg_notice page = EndOfFile then Some [pg_content page] else None))"

lemma read_on_covers:
  assumes "\<forall>l \<in> set ls. newline \<notin> set l \<and> byte_length l \<le> DEFAULT_MAX_BYTES" "\<forall>l. limit = Some l \<longrightarrow> 0 < l"
  shows "start < length ls \<Longrightarrow> length ls \<le> start + n \<Longrightarrow>
    \<exists>pieces. read_on rb n ls limit (int start + 1) = Some pieces \<and> pieces \<noteq> [] \<and> js_join [newline] pieces = js_join [newline] (drop start ls)"
proof (induction n arbitrary: start)
  case (Suc n)
  have s: "start_line (Some (int start + 1)) = start" by (simp add: start_line_def)
  let ?p = "read_page rb ls start limit"
  from Suc.prems(1) assms refl[of ?p] show ?case
  proof (cases rule: page_cases)
    case final
    with s Suc.prems(1) show ?thesis by simp
  next
    case (go k)
    then obtain pieces where pieces: "read_on rb n ls limit (int (start + k) + 1) = Some pieces" "pieces \<noteq> []"
      "js_join [newline] pieces = js_join [newline] (drop (start + k) ls)"
      using Suc.IH[of "start + k"] Suc.prems(2) by auto
    have "drop start ls = take k (drop start ls) @ drop (start + k) ls" by (metis append_take_drop_id drop_drop add.commute)
    moreover have "take k (drop start ls) \<noteq> []" "drop (start + k) ls \<noteq> []" using go(1,2) by auto
    ultimately have "js_join [newline] (drop start ls) = pg_content ?p @ [newline] @ js_join [newline] pieces"
      using go(4) pieces(3) js_join_two by metis
    with s Suc.prems(1) go(3) pieces show ?thesis by (simp add: js_join_Cons)
  qed
qed simp

text \<open>C19: Reading on reads everything.  If no line of a text is longer than the byte limit, then starting at the first line and going on
  at the offset each notice names, with any positive limit of lines per page or none, ends after at most as many pages as
  there are lines, without an offset beyond the end, and the pages joined by line breaks are the text.\<close>

theorem reading_on_covers:
  assumes "\<forall>l \<in> set (js_split newline content). length (utf8_encode l) \<le> DEFAULT_MAX_BYTES" and "\<forall>l. limit = Some l \<longrightarrow> 0 < l"
  shows "\<exists>pieces. read_on runtimeBuffer (length (js_split newline content)) (js_split newline content) limit 1 = Some pieces
    \<and> js_join [newline] pieces = content"
  using read_on_covers[of "js_split newline content" limit 0 "length (js_split newline content)" runtimeBuffer] assms
    js_split_lines[of _ newline content]
  by (auto simp: js_join_split)

theorem reading_on_covers_witness:
  "\<exists>pieces. read_on False 3 [[], [], []] (Some 2) 1 = Some pieces \<and> js_join [newline] pieces = [newline, newline]"
proof -
  have "js_split newline [newline, newline] = [[], [], []]" by simp
  with reading_on_covers[of "[newline, newline]" "Some 2" False] show ?thesis by (simp add: numeral_3_eq_3)
qed

end
