(* ===== verification/Shell_Capture.thy ===== *)
theory Shell_Capture
  imports File_Tools
begin

text \<open>
  Capturing the output of a shell command in bounded memory (\<^verbatim>\<open>packages/agent/src/harness/utils/shell-output.ts\<close>).
\<close>

unbundle bit_operations_syntax

section \<open>Text\<close>

text \<open>
  Only characters of the basic plane are dropped, and no surrogates, so that the filter on characters is one on code units.
\<close>

definition printable_unit :: "code_unit \<Rightarrow> bool" where
  "printable_unit c =
     (if c = 0x09 \<or> c = 0x0A \<or> c = 0x0D then True else if c \<le> 0x1F then False else if 0xFFF9 \<le> c \<and> c \<le> 0xFFFB then False else True)"

definition sanitizeBinaryOutput :: "js_string \<Rightarrow> js_string" where
  "sanitizeBinaryOutput str = filter printable_unit str"

definition continuation_byte :: "byte \<Rightarrow> bool" where
  "continuation_byte b = (b AND 0xC0 = 0x80)"

definition trimToLastUtf8Bytes :: "(byte list \<Rightarrow> js_string) \<Rightarrow> js_string \<Rightarrow> nat \<Rightarrow> js_string" where
  "trimToLastUtf8Bytes lossy s maxBytes =
     (let bytes = utf8_encode s
      in if length bytes \<le> maxBytes then s
         else blob_text lossy (dropWhile continuation_byte (drop (length bytes - maxBytes) bytes)))"

section \<open>The capture\<close>

text \<open>The chain of writes to the file of the full output, in their order.\<close>

datatype output_write = CreateOutput js_string | AppendOutput js_string

record capture =
  tailOutput :: js_string
  totalBytes :: nat
  completedLines :: nat
  hasOpenLine :: bool
  currentLineBytes :: nat
  writeChain :: "output_write list"
  fullOutputRequested :: bool
  captureError :: bool

definition capture_start :: capture where
  "capture_start = \<lparr>tailOutput = [], totalBytes = 0, completedLines = 0, hasOpenLine = False, currentLineBytes = 0,
     writeChain = [], fullOutputRequested = False, captureError = False\<rparr>"

definition appendFullOutput :: "js_string \<Rightarrow> capture \<Rightarrow> capture" where
  "appendFullOutput s c =
     (if \<not> fullOutputRequested c \<or> captureError c then c else c\<lparr>writeChain := writeChain c @ [AppendOutput s]\<rparr>)"

definition ensureFullOutputFile :: "js_string \<Rightarrow> capture \<Rightarrow> capture" where
  "ensureFullOutputFile initialContent c =
     (if fullOutputRequested c \<or> captureError c then c
      else c\<lparr>fullOutputRequested := True, writeChain := writeChain c @ [CreateOutput initialContent]\<rparr>)"

definition total_lines :: "capture \<Rightarrow> nat" where
  "total_lines c = completedLines c + (if hasOpenLine c then 1 else 0)"

record capture_progress =
  cp_output :: js_string
  cp_truncation :: truncation_result
  cp_lastLineBytes :: nat

definition createProgress :: "bool \<Rightarrow> capture \<Rightarrow> capture_progress" where
  "createProgress rb c =
     (let tailTruncation = truncateTail rb (tailOutput c) \<lparr>to_maxLines = None, to_maxBytes = None\<rparr>;
          truncated = (total_lines c > DEFAULT_MAX_LINES \<or> totalBytes c > DEFAULT_MAX_BYTES);
          truncation = tailTruncation\<lparr>tn_truncated := truncated,
            tn_truncatedBy := (if truncated then
                Some (case tn_truncatedBy tailTruncation of Some by \<Rightarrow> by
                      | None \<Rightarrow> if totalBytes c > DEFAULT_MAX_BYTES then ByBytes else ByLines)
              else None),
            tn_totalLines := total_lines c, tn_totalBytes := totalBytes c\<rparr>
      in \<lparr>cp_output = (if truncated then tn_content truncation else tailOutput c), cp_truncation = truncation,
          cp_lastLineBytes = currentLineBytes c\<rparr>)"

definition maxOutputBytes :: nat where
  "maxOutputBytes = DEFAULT_MAX_BYTES * 2"

text \<open>The part of \<^verbatim>\<open>onChunk\<close> that counts.\<close>

definition count_chunk :: "js_string \<Rightarrow> capture \<Rightarrow> capture" where
  "count_chunk s c =
     (let textBytes = length (utf8_encode s); lines = js_split newline s; trailingText = last lines;
          c = c\<lparr>totalBytes := totalBytes c + textBytes, completedLines := completedLines c + (length lines - 1)\<rparr>
      in if newline \<in> set s then c\<lparr>currentLineBytes := length (utf8_encode trailingText), hasOpenLine := trailingText \<noteq> []\<rparr>
         else if s \<noteq> [] then c\<lparr>currentLineBytes := currentLineBytes c + textBytes, hasOpenLine := True\<rparr>
         else c)"

definition record_chunk :: "(byte list \<Rightarrow> js_string) \<Rightarrow> js_string \<Rightarrow> capture \<Rightarrow> capture" where
  "record_chunk lossy s c0 =
     (let c1 = count_chunk s c0;
          c2 = c1\<lparr>tailOutput := tailOutput c1 @ s\<rparr>;
          c3 = (if (totalBytes c2 > DEFAULT_MAX_BYTES \<or> total_lines c2 > DEFAULT_MAX_LINES) \<and> \<not> fullOutputRequested c2
                then ensureFullOutputFile (tailOutput c2) c2
                else if fullOutputRequested c2 then appendFullOutput s c2 else c2)
      in c3\<lparr>tailOutput := trimToLastUtf8Bytes lossy (tailOutput c3) maxOutputBytes\<rparr>)"

definition chunk_text :: "js_string \<Rightarrow> js_string" where
  "chunk_text chunk = filter (\<lambda>c. c \<noteq> 0x0D) (sanitizeBinaryOutput chunk)"

text \<open>\<open>throws\<close> says for which texts the listener of the caller throws, which is the only way the code can fail here.\<close>

definition onChunk :: "(byte list \<Rightarrow> js_string) \<Rightarrow> (js_string \<Rightarrow> bool) \<Rightarrow> js_string \<Rightarrow> capture \<Rightarrow> capture" where
  "onChunk lossy throws chunk c =
     (let s = chunk_text chunk; c = record_chunk lossy s c
      in if throws s then c\<lparr>captureError := True\<rparr> else c)"

section \<open>Running a command\<close>

datatype execution_code = ExecAborted | ExecTimeout | ExecShellUnavailable | ExecSpawnError | ExecCallbackError | ExecUnknown

text \<open>
  The operations of the environment on a world: \<open>create\<close> makes a temporary file and returns its path, \<open>appendTo\<close> appends to one.
  An error of them becomes an execution error of code unknown.
\<close>

fun run_writes ::
  "('w \<Rightarrow> (file_code + js_string) \<times> 'w) \<Rightarrow> (js_string \<Rightarrow> js_string \<Rightarrow> 'w \<Rightarrow> (file_code + unit) \<times> 'w) \<Rightarrow> js_string option \<Rightarrow> output_write list
     \<Rightarrow> 'w \<Rightarrow> (execution_code + js_string option) \<times> 'w" where
  "run_writes create appendTo path [] w = (Inr path, w)"
| "run_writes create appendTo path (CreateOutput s # xs) w =
     (case create w of
        (Inl _, w) \<Rightarrow> (Inl ExecUnknown, w)
      | (Inr p, w) \<Rightarrow>
          (case appendTo p s w of (Inl _, w) \<Rightarrow> (Inl ExecUnknown, w) | (Inr _, w) \<Rightarrow> run_writes create appendTo (Some p) xs w))"
| "run_writes create appendTo None (AppendOutput s # xs) w = (Inl ExecUnknown, w)"
| "run_writes create appendTo (Some p) (AppendOutput s # xs) w =
     (case appendTo p s w of (Inl _, w) \<Rightarrow> (Inl ExecUnknown, w) | (Inr _, w) \<Rightarrow> run_writes create appendTo (Some p) xs w)"

record capture_result =
  cr_progress :: capture_progress
  cr_fullOutputPath :: "js_string option"
  cr_exitCode :: "int option"
  cr_cancelled :: bool
  cr_executionError :: "execution_code option"

text \<open>\<open>chunks\<close> and \<open>outcome\<close> are what the command writes and how \<^verbatim>\<open>exec\<close> ends; \<open>aborted\<close> is the signal at the end.\<close>

definition executeShellWithCapture ::
  "bool \<Rightarrow> (byte list \<Rightarrow> js_string) \<Rightarrow> (js_string \<Rightarrow> bool) \<Rightarrow> ('w \<Rightarrow> (file_code + js_string) \<times> 'w) \<Rightarrow>
    (js_string \<Rightarrow> js_string \<Rightarrow> 'w \<Rightarrow> (file_code + unit) \<times> 'w) \<Rightarrow> bool \<Rightarrow> bool \<Rightarrow> js_string list \<Rightarrow> execution_code + int
    \<Rightarrow> 'w \<Rightarrow> (execution_code + capture_result) \<times> 'w" where
  "executeShellWithCapture rb lossy throws create appendTo returnExecutionErrors aborted chunks outcome w =
     (let c = fold (onChunk lossy throws) chunks capture_start;
          c = (if tn_truncated (cp_truncation (createProgress rb c)) \<and> \<not> fullOutputRequested c
               then ensureFullOutputFile (tailOutput c) c else c)
      in case run_writes create appendTo None (writeChain c) w of
           (Inl e, w) \<Rightarrow> (Inl e, w)
         | (Inr path, w) \<Rightarrow>
             (if captureError c then Inl ExecUnknown
              else
                (let progress = createProgress rb c;
                     result = (\<lambda>code cancelled err. \<lparr>cr_progress = progress, cr_fullOutputPath = path, cr_exitCode = code,
                                 cr_cancelled = cancelled, cr_executionError = err\<rparr>)
                 in case outcome of
                      Inl e \<Rightarrow>
                        if e = ExecAborted \<or> aborted then Inr (result None True None)
                        else if returnExecutionErrors then Inr (result None False (Some e))
                        else Inl e
                    | Inr code \<Rightarrow> Inr (result (if aborted then None else Some code) aborted None)), w))"

section \<open>Cutting at a character\<close>

lemma u8_eq: "n < 256 \<Longrightarrow> (k = u8 n) = (unat k = n)"
  by (auto simp: u8_def unat_of_nat)

lemma continuation_u8: "n < 256 \<Longrightarrow> continuation_byte (u8 n) \<longleftrightarrow> 0x80 \<le> n \<and> n < 0xC0"
proof -
  assume n: "n < 256"
  have "(b AND 0xC0 = 0x80) = (drop_bit 6 b = 2)" for b :: byte
  proof -
    have "(0xC0 :: byte) = NOT (mask 6)" by (simp add: mask_eq_exp_minus_1)
    moreover have "b AND NOT (mask 6) = push_bit 6 (drop_bit 6 b)"
      by (rule bit_word_eqI) (auto simp: bit_and_iff bit_not_iff bit_mask_iff bit_push_bit_iff bit_drop_bit_eq)
    ultimately have "b AND 0xC0 = push_bit 6 (drop_bit 6 b)" by simp
    moreover have "(0x80 :: byte) = push_bit 6 2" by (simp add: push_bit_eq_mult)
    moreover have "drop_bit 6 (push_bit 6 (drop_bit 6 b)) = drop_bit 6 b"
      by (rule bit_word_eqI) (auto simp: bit_push_bit_iff bit_drop_bit_eq dest: bit_imp_le_length)
    moreover have "drop_bit 6 (push_bit 6 2 :: byte) = 2" by (simp add: push_bit_eq_mult)
    ultimately show ?thesis by metis
  qed
  then have "continuation_byte (u8 n) \<longleftrightarrow> unat (drop_bit 6 (u8 n) :: byte) = 2"
    unfolding continuation_byte_def by (simp add: word_unat_eq_iff)
  also have "\<dots> \<longleftrightarrow> n div 64 = 2" using n by (simp add: drop_bit_eq_div unat_div_distrib u8_def unat_of_nat)
  also have "\<dots> \<longleftrightarrow> 0x80 \<le> n \<and> n < 0xC0" by auto
  finally show ?thesis .
qed

lemma scalar_bytes_shape:
  assumes "x < 0x110000"
  shows "\<exists>b cs. scalar_bytes x = b # cs \<and> \<not> continuation_byte b \<and> list_all continuation_byte cs \<and> length cs \<le> 3"
proof -
  have c: "continuation_byte (u8 (0x80 + y mod 0x40))" for y by (simp add: continuation_u8)
  consider "x < 0x80" | "0x80 \<le> x" "x < 0x800" | "0x800 \<le> x" "x < 0x10000" | "0x10000 \<le> x" by linarith
  then show ?thesis
  proof cases
    case 1
    then show ?thesis by (simp add: scalar_bytes_def continuation_u8)
  next
    case 2
    then have "x div 0x40 < 0x20" by simp
    with 2 c show ?thesis by (simp add: scalar_bytes_def continuation_u8)
  next
    case 3
    then have "x div 0x1000 < 0x10" by simp
    with 3 c show ?thesis by (simp add: scalar_bytes_def continuation_u8)
  next
    case 4
    from assms have "x div 0x40000 < 8" by simp
    with 4 c show ?thesis by (simp add: scalar_bytes_def continuation_u8)
  qed
qed

lemma scalars_bound: "x \<in> set (scalars us) \<Longrightarrow> x < 0x110000"
  using scalars_are_scalar[of us] by (auto simp: list_all_iff is_scalar_def)

lemma unit_bound: "unat (u :: code_unit) < 0x110000"
proof -
  have "unat u < 2 ^ LENGTH(16)" by (rule unsigned_less)
  then show ?thesis by simp
qed

lemma encode_starts: "utf8_encode s = b # bs \<Longrightarrow> \<not> continuation_byte b"
proof -
  assume e: "utf8_encode s = b # bs"
  then obtain x xs where x: "scalars s = x # xs" by (cases "scalars s") (auto simp: utf8_encode_def)
  have "x < 0x110000" using scalars_bound[of x s] x by simp
  from scalar_bytes_shape[OF this] e x show ?thesis by (auto simp: utf8_encode_def)
qed

text \<open>One character in front: its first byte does not continue one, the others do.\<close>

lemma cut_step:
  assumes "utf8_encode s = e @ utf8_encode s'" "s = ch @ s'" "clean_seam ch s'" "e = b # cs" "\<not> continuation_byte b"
    and "list_all continuation_byte cs" "length cs \<le> 3" "well_formed s" "well_formed s'"
    and IH: "\<And>n. n \<le> byte_length s' \<Longrightarrow> \<exists>a t. s' = a @ t \<and> well_formed t \<and> clean_seam a t \<and>
      dropWhile continuation_byte (drop n (utf8_encode s')) = utf8_encode t \<and> byte_length s' \<le> byte_length t + n + 3"
    and n: "n \<le> byte_length s"
  shows "\<exists>a t. s = a @ t \<and> well_formed t \<and> clean_seam a t \<and>
    dropWhile continuation_byte (drop n (utf8_encode s)) = utf8_encode t \<and> byte_length s \<le> byte_length t + n + 3"
proof -
  consider "n = 0" | "0 < n" "n < length e" | "length e \<le> n" by linarith
  then show ?thesis
  proof cases
    case 1
    with assms(1,4,5,8) show ?thesis by (intro exI[of _ "[]"] exI[of _ s]) (simp add: clean_seam_def)
  next
    case 2
    have "dropWhile continuation_byte (utf8_encode s') = utf8_encode s'"
      using encode_starts[of s'] by (cases "utf8_encode s'") auto
    moreover have "\<forall>x \<in> set (drop n e). continuation_byte x"
      using 2 assms(4,6) by (cases n) (auto simp: list_all_iff dest: in_set_dropD)
    ultimately have "dropWhile continuation_byte (drop n (utf8_encode s)) = utf8_encode s'"
      using 2 assms(1) by (simp add: dropWhile_append2)
    moreover have "byte_length s = length e + byte_length s'" using assms(1) by simp
    ultimately show ?thesis using 2 assms(2-4,7,9) by (intro exI[of _ ch] exI[of _ s']) simp
  next
    case 3
    have len: "byte_length s = length e + byte_length s'" using assms(1) by simp
    with n 3 have "n - length e \<le> byte_length s'" by simp
    from IH[OF this] obtain a t where at: "s' = a @ t" "well_formed t" "clean_seam a t"
      "dropWhile continuation_byte (drop (n - length e) (utf8_encode s')) = utf8_encode t" "byte_length s' \<le> byte_length t + (n - length e) + 3"
      by blast
    have "clean_seam (ch @ a) t" using at(1,3) assms(3) by (cases a) (auto simp: clean_seam_def)
    with at len 3 assms(1,2) show ?thesis by (intro exI[of _ "ch @ a"] exI[of _ t]) simp
  qed
qed

lemma cut_at_char:
  "well_formed s \<Longrightarrow> n \<le> byte_length s \<Longrightarrow>
   \<exists>a t. s = a @ t \<and> well_formed t \<and> clean_seam a t \<and>
     dropWhile continuation_byte (drop n (utf8_encode s)) = utf8_encode t \<and> byte_length s \<le> byte_length t + n + 3"
proof (induction s arbitrary: n rule: well_formed.induct)
  case 1
  then show ?case by (simp add: clean_seam_def)
next
  case (2 u)
  then have seam: "clean_seam [u] []" "utf8_encode [u] = scalar_bytes (unat u) @ utf8_encode []" by (auto simp: clean_seam_def utf8_encode_def)
  have "unat u < 0x110000" by (rule unit_bound)
  from scalar_bytes_shape[OF this] obtain b cs where b: "scalar_bytes (unat u) = b # cs" "\<not> continuation_byte b" "list_all continuation_byte cs" "length cs \<le> 3"
    by blast
  show ?case using seam b 2 by (intro cut_step[of "[u]" _ "[]" "[u]" b cs]) (auto simp: clean_seam_def)
next
  case (3 u v us)
  show ?case
  proof (cases "is_high u \<and> is_low v")
    case True
    let ?x = "join_surrogates u v"
    have seam: "clean_seam [u, v] us" "utf8_encode (u # v # us) = scalar_bytes ?x @ utf8_encode us"
      using True low_not_high[of v] by (auto simp: clean_seam_def utf8_encode_def)
    have "?x < 0x110000" using scalars_bound[of ?x "[u, v]"] True by simp
    from scalar_bytes_shape[OF this] obtain b cs where b: "scalar_bytes ?x = b # cs" "\<not> continuation_byte b" "list_all continuation_byte cs" "length cs \<le> 3"
      by blast
    have wf: "well_formed us" using 3(3) True by simp
    show ?thesis by (rule cut_step[OF seam(2) _ seam(1) b 3(3) wf 3(1)[OF True wf] 3(4)]) simp_all
  next
    case False
    with 3(3) have plain: "\<not> is_high u" "\<not> is_low u" "well_formed (v # us)" by (auto split: if_splits)
    have seam: "clean_seam [u] (v # us)" "utf8_encode (u # v # us) = scalar_bytes (unat u) @ utf8_encode (v # us)"
      using plain by (auto simp: clean_seam_def utf8_encode_def)
    have "unat u < 0x110000" by (rule unit_bound)
    from scalar_bytes_shape[OF this] obtain b cs where b: "scalar_bytes (unat u) = b # cs" "\<not> continuation_byte b" "list_all continuation_byte cs" "length cs \<le> 3"
      by blast
    show ?thesis by (rule cut_step[OF seam(2) _ seam(1) b 3(3) plain(3) 3(2)[OF False plain(3)] 3(4)]) simp_all
  qed
qed

section \<open>Decoding drops a byte order mark\<close>

lemma scalar_bytes_bom:
  assumes "prefix [0xEF, 0xBB, 0xBF] (scalar_bytes x @ r)" "x < 0x110000"
  shows "x = 0xFEFF"
proof -
  consider "x < 0x80" | "0x80 \<le> x" "x < 0x800" | "0x800 \<le> x" "x < 0x10000" | "0x10000 \<le> x" by linarith
  then show ?thesis
  proof cases
    case 1
    with assms show ?thesis by (simp add: scalar_bytes_def u8_eq)
  next
    case 2
    then have "x div 0x40 < 0x20" by simp
    with 2 assms show ?thesis by (simp add: scalar_bytes_def u8_eq)
  next
    case 3
    then have "x div 0x1000 < 0x10" by simp
    with 3 assms have "x div 0x1000 = 15" "x div 0x40 mod 0x40 = 0x3B" "x mod 0x40 = 0x3F" by (simp_all add: scalar_bytes_def u8_eq)
    moreover from this(1) have "x div 0x40 div 0x40 = 15" by (simp add: div_mult2_eq[symmetric])
    ultimately have "x div 0x40 = 15 * 0x40 + 0x3B" by (metis div_mult_mod_eq)
    with \<open>x mod 0x40 = 0x3F\<close> show ?thesis using div_mult_mod_eq[of x "0x40"] by simp
  next
    case 4
    from assms(2) have "x div 0x40000 < 8" by simp
    with 4 assms show ?thesis by (simp add: scalar_bytes_def u8_eq)
  qed
qed

lemma encode_bom: "utf8_encode (BOM # s) = [0xEF, 0xBB, 0xBF] @ utf8_encode s"
proof -
  have "scalars (BOM # s) = 0xFEFF # scalars s"
    by (cases s) (auto simp: BOM_def is_high_def is_low_def)
  then show ?thesis by (simp add: utf8_encode_def scalar_bytes_def u8_def)
qed

lemma starts_with_bom:
  assumes "prefix [0xEF, 0xBB, 0xBF] (utf8_encode s)"
  shows "prefix [BOM] s"
proof (cases s)
  case (Cons u us)
  then have "scalars s \<noteq> []" by (cases us) auto
  then obtain x xs where x: "scalars s = x # xs" by (cases "scalars s") auto
  with assms scalars_bound[of x s] have "x = 0xFEFF"
    by (intro scalar_bytes_bom[of x "concat (map scalar_bytes xs)"]) (simp_all add: utf8_encode_def)
  moreover have "join_surrogates u v \<noteq> 0xFEFF" for v by (simp add: join_surrogates_def)
  ultimately have "unat u = 0xFEFF" using x Cons by (cases us) (auto split: if_splits)
  then have "u = BOM" by (simp add: BOM_def word_unat_eq_iff)
  with Cons show ?thesis by simp
qed (use assms in simp)

text \<open>What is read back from an encoded text: all of it but a byte order mark at its start.\<close>

lemma blob_text_encode:
  assumes "well_formed s"
  shows "blob_text lossy (utf8_encode s) = (if prefix [BOM] s then drop 1 s else s)"
proof (cases "prefix [BOM] s")
  case True
  then obtain t where t: "s = BOM # t" by (cases s) auto
  have "well_formed t" using assms t by (cases t) (auto simp: BOM_def is_high_def is_low_def)
  then have "utf8_decode (utf8_encode t) = Some t" by (simp add: utf8_roundtrip)
  with t show ?thesis by (simp add: blob_text_def encode_bom)
next
  case False
  with starts_with_bom[of s] have "\<not> prefix [0xEF, 0xBB, 0xBF] (utf8_encode s)" by blast
  moreover have "utf8_decode (utf8_encode s) = Some s" using assms by (simp add: utf8_roundtrip)
  ultimately show ?thesis using False by (simp add: blob_text_def)
qed

lemma trim_keeps_suffix:
  assumes "well_formed s" "t = trimToLastUtf8Bytes lossy s maxBytes"
  obtains a where "s = a @ t" "clean_seam a t" "well_formed t" "a = [] \<or> maxBytes \<le> byte_length t + 6"
proof (cases "byte_length s \<le> maxBytes")
  case True
  with assms show thesis by (intro that[of "[]"]) (simp_all add: trimToLastUtf8Bytes_def clean_seam_def)
next
  case False
  then have n: "byte_length s - maxBytes \<le> byte_length s" by simp
  from cut_at_char[OF assms(1) n] obtain a t' where a: "s = a @ t'" "well_formed t'" "clean_seam a t'"
    "dropWhile continuation_byte (drop (byte_length s - maxBytes) (utf8_encode s)) = utf8_encode t'"
    "byte_length s \<le> byte_length t' + (byte_length s - maxBytes) + 3" by blast
  then have mb: "maxBytes \<le> byte_length t' + 3" using False by linarith
  from a(4) False assms(2) have t: "t = (if prefix [BOM] t' then drop 1 t' else t')"
    using blob_text_encode[OF a(2)] by (simp add: trimToLastUtf8Bytes_def)
  show thesis
  proof (cases "prefix [BOM] t'")
    case bom: True
    then obtain x where x: "t' = BOM # x" by (cases t') auto
    with t have tx: "t = x" by simp
    have "clean_seam (a @ [BOM]) x" by (simp add: clean_seam_def BOM_def is_high_def)
    moreover have "well_formed x" using a(2) x by (cases x) (auto simp: BOM_def is_high_def is_low_def)
    moreover have "maxBytes \<le> byte_length x + 6" using mb x by (simp add: encode_bom)
    ultimately show thesis using a(1) x tx by (intro that[of "a @ [BOM]"]) simp_all
  next
    case False
    with t a(1-3) mb show thesis by (intro that[of a]) simp_all
  qed
qed

section \<open>A long enough tail is truncated like the whole\<close>

lemma wf_last:
  assumes "well_formed y" "y \<noteq> []"
  obtains (unit) y1 u where "y = y1 @ [u]" "\<not> is_high u" "\<not> is_low u" "well_formed y1"
  | (pair) y1 h l where "y = y1 @ [h, l]" "is_high h" "is_low l" "well_formed y1"
proof -
  from assms have "(\<exists>y1 u. y = y1 @ [u] \<and> \<not> is_high u \<and> \<not> is_low u \<and> well_formed y1)
      \<or> (\<exists>y1 h l. y = y1 @ [h, l] \<and> is_high h \<and> is_low l \<and> well_formed y1)"
  proof (induction y rule: well_formed.induct)
    case (3 u v us)
    show ?case
    proof (cases "is_high u \<and> is_low v")
      case True
      show ?thesis
      proof (cases "us = []")
        case False
        with 3 True obtain y1 where "well_formed y1" "(\<exists>u. us = y1 @ [u] \<and> \<not> is_high u \<and> \<not> is_low u) \<or> (\<exists>h l. us = y1 @ [h, l] \<and> is_high h \<and> is_low l)" by auto
        with True show ?thesis by (metis append_Cons well_formed.simps(3))
      qed (use True in \<open>auto intro: exI[of _ "[]"]\<close>)
    next
      case False
      with 3 obtain y1 where y1: "well_formed y1" "(\<exists>w. v # us = y1 @ [w] \<and> \<not> is_high w \<and> \<not> is_low w) \<or> (\<exists>h l. v # us = y1 @ [h, l] \<and> is_high h \<and> is_low l)"
        by auto
      have "\<not> is_high u" "\<not> is_low u" using 3(3) False by (auto split: if_splits)
      then have "well_formed (u # y1)" using y1(1) by (cases y1) auto
      with y1(2) show ?thesis by (metis append_Cons)
    qed
  qed auto
  then show thesis using unit pair by blast
qed

lemma byte_length_snoc:
  "\<not> is_high u \<Longrightarrow> \<not> is_low u \<Longrightarrow> byte_length (y @ [u]) = byte_length y + byte_length [u]"
  "is_high h \<Longrightarrow> is_low l \<Longrightarrow> byte_length (y @ [h, l]) = byte_length y + 4"
  using utf8_encode_append[of y "[u]"] utf8_encode_append[of y "[h, l]"] pair_bytes[of h l] high_not_low[of h]
  by (auto simp: clean_seam_def)

lemma suffix_loop_more:
  "well_formed y \<Longrightarrow> outputBytes + byte_length y > maxBytes \<Longrightarrow> outputBytes \<le> maxBytes \<Longrightarrow>
   suffix_loop maxBytes (rev y @ z) outputBytes kept needs = suffix_loop maxBytes (rev y) outputBytes kept needs"
proof (induction "length y" arbitrary: y outputBytes kept rule: less_induct)
  case less
  then have "y \<noteq> []" by auto
  from less.prems(1) this show ?case
  proof (cases rule: wf_last)
    case (unit y1 u)
    let ?b = "if unat u \<le> 0x7f then 1 else if unat u \<le> 0x7ff then 2 else (3 :: nat)"
    have b: "byte_length y = byte_length y1 + ?b"
      using byte_length_snoc(1)[OF unit(2,3)] unit unit_bytes[of u] by simp
    show ?thesis
    proof (cases "outputBytes + ?b > maxBytes")
      case True
      with unit show ?thesis by (simp add: Let_def)
    next
      case False
      with less.hyps[of y1 "outputBytes + ?b" "u # kept"] less.prems b unit show ?thesis by (simp add: Let_def)
    qed
  next
    case (pair y1 h l)
    have b: "byte_length y = byte_length y1 + 4" using byte_length_snoc(2)[OF pair(2,3)] pair(1) by simp
    show ?thesis
    proof (cases "outputBytes + 4 > maxBytes")
      case True
      with pair show ?thesis by (simp add: Let_def)
    next
      case False
      with less.hyps[of y1 "outputBytes + 4" "h # l # kept"] less.prems b pair show ?thesis by (simp add: Let_def)
    qed
  qed
qed

lemma from_end_more:
  "well_formed y \<Longrightarrow> byte_length y > maxBytes \<Longrightarrow> truncateStringToBytesFromEnd (x @ y) maxBytes = truncateStringToBytesFromEnd y maxBytes"
  using suffix_loop_more[of y maxBytes 0 "rev x" "[]" False] by (simp add: truncateStringToBytesFromEnd_def)

lemma tail_loop_more:
  assumes "well_formed y" "clean_seam x y"
  shows "joined_bytes (y # rev as @ out) > maxBytes \<Longrightarrow>
    tail_loop rb maxLines maxBytes (as @ (x @ y) # before) out (joined_bytes out) = tail_loop rb maxLines maxBytes (as @ [y]) out (joined_bytes out)"
proof (induction as arbitrary: out)
  case Nil
  have "byte_length (x @ y) = byte_length x + byte_length y" using utf8_encode_append[OF assms(2)] by simp
  with Nil from_end_more[OF assms(1), of maxBytes x] show ?case
    by (auto simp: joined_bytes_simps utf8ByteLength_eq Let_def split: if_splits)
next
  case (Cons a as)
  have "joined_bytes (a # out) = joined_bytes out + (byte_length a + (if out \<noteq> [] then 1 else 0))"
    by (simp add: joined_bytes_simps)
  with Cons.IH[of "a # out"] Cons.prems show ?case by (simp add: utf8ByteLength_eq Let_def)
qed

lemma js_split_glue:
  "js_split sep (a @ t) = butlast (js_split sep a) @ (last (js_split sep a) @ hd (js_split sep t)) # tl (js_split sep t)"
proof (induction a)
  case (Cons c a)
  obtain l ls where s: "js_split sep a = l # ls" by (cases "js_split sep a") auto
  with Cons show ?case by (auto split: list.splits)
qed (auto simp: list.sel)

lemma wf_newline: "well_formed (x @ newline # r) \<Longrightarrow> well_formed x \<and> well_formed r"
proof -
  assume w: "well_formed (x @ newline # r)"
  have "clean_seam x (newline # r)" "\<not> is_high newline" "\<not> is_low newline" by (simp_all add: clean_seam_def)
  with w have "well_formed x \<and> well_formed (newline # r)" by (simp add: well_formed_append)
  then show ?thesis by (cases r) auto
qed

lemma first_line:
  assumes "js_split sep t = y # post"
  shows "t = y \<and> post = [] \<or> (\<exists>r. t = y @ sep # r \<and> post = js_split sep r)"
  using assms
proof (induction t arbitrary: y post)
  case (Cons c t)
  show ?case
  proof (cases "c = sep")
    case False
    obtain l ls where "js_split sep t = l # ls" by (cases "js_split sep t") auto
    with Cons.IH[OF this] Cons.prems False show ?thesis by auto
  qed (use Cons.prems in auto)
qed auto

text \<open>The lines of a text and of a suffix of it differ only in front of the end of one line.\<close>

lemma suffix_lines:
  assumes "s = a @ t" "clean_seam a t" "well_formed t" "t \<noteq> []"
  obtains before x y post where "splitLinesForCounting s = before @ (x @ y) # post" "splitLinesForCounting t = y # post"
    "well_formed y" "clean_seam x y"
proof -
  obtain y post where t: "js_split newline t = y # post" by (cases "js_split newline t") auto
  let ?x = "last (js_split newline a)" and ?b = "butlast (js_split newline a)"
  have s: "js_split newline s = ?b @ (?x @ y) # post" using js_split_glue[of newline a t] t assms(1) by simp
  have nl: "newline \<notin> set y" using js_split_lines[of y newline t] t by simp
  from first_line[OF t] consider (one) "t = y" "post = []" | (several) r where "t = y @ newline # r" "post = js_split newline r" by blast
  then have y: "well_formed y \<and> (y \<noteq> [] \<longrightarrow> hd y = hd t) \<and> (last t = newline \<longrightarrow> post \<noteq> [])"
  proof cases
    case one
    have "last t \<noteq> newline" using nl one(1) assms(4) last_in_set by metis
    with one assms(3) show ?thesis by blast
  next
    case several
    with assms(3) wf_newline[of y r] show ?thesis by auto
  qed
  have "clean_seam ?x y"
  proof (cases "?x = [] \<or> y = []")
    case False
    have "a = js_join [newline] (?b @ [?x])" by (simp add: js_join_split)
    moreover have "last (js_join [newline] (ls @ [z])) = last z" if "z \<noteq> []" for ls z
      using that by (cases "ls = []") (auto simp: js_join_snoc)
    ultimately have "last a = last ?x" using False by metis
    moreover have "a \<noteq> []" using False by (auto simp: js_join_split)
    ultimately show ?thesis using assms(2,4) y False by (auto simp: clean_seam_def)
  qed (auto simp: clean_seam_def)
  show thesis
  proof (cases "last t = newline")
    case True
    with y have "post \<noteq> []" by simp
    with True s t assms(1,4) y \<open>clean_seam ?x y\<close> show thesis
      by (intro that[of ?b ?x y "butlast post"]) (auto simp: splitLinesForCounting_def Let_def butlast_append)
  next
    case False
    with s t assms(1,4) y \<open>clean_seam ?x y\<close> show thesis
      by (intro that[of ?b ?x y post]) (auto simp: splitLinesForCounting_def Let_def)
  qed
qed

lemma tail_of_suffix:
  assumes "s = a @ t" "clean_seam a t" "well_formed t" "byte_length t > resolved_maxBytes options + 1"
  shows "truncateTail rb s options =
    (truncateTail rb t options)\<lparr>tn_totalLines := length (splitLinesForCounting s), tn_totalBytes := byte_length s\<rparr>"
proof -
  let ?maxLines = "resolved_maxLines options" and ?maxBytes = "resolved_maxBytes options"
  have "t \<noteq> []" using assms(4) by auto
  from assms(1-3) this obtain before x y post where l: "splitLinesForCounting s = before @ (x @ y) # post"
    "splitLinesForCounting t = y # post" "well_formed y" "clean_seam x y" by (rule suffix_lines)
  have "byte_length t \<le> joined_bytes (y # post) + 1"
  proof -
    let ?J = "js_join [newline] (y # post)" and ?P = "t \<noteq> [] \<and> last t = newline"
    have e: "t = ?J @ (if ?P then [newline] else [])" using split_lines_content[of t] unfolding l(2) .
    have "t = ?J @ [newline] \<or> t = ?J"
    proof (cases ?P)
      case True
      show ?thesis using e[unfolded if_P[OF True]] by (rule disjI1)
    next
      case False
      show ?thesis using e[unfolded if_not_P[OF False] append_Nil2] by (rule disjI2)
    qed
    then show ?thesis unfolding joined_bytes_def using byte_length_newline[of ?J "[]"] by (elim disjE) simp_all
  qed
  with assms(4) have j: "joined_bytes (y # rev (rev post) @ []) > ?maxBytes" by simp
  have loop: "tail_loop rb ?maxLines ?maxBytes (rev (splitLinesForCounting s)) [] 0 = tail_loop rb ?maxLines ?maxBytes (rev (splitLinesForCounting t)) [] 0"
    using tail_loop_more[OF l(3,4) j, of rb ?maxLines "rev before"] l(1,2) by (simp add: joined_bytes_simps)
  have "byte_length s = byte_length a + byte_length t" using utf8_encode_append[OF assms(2)] assms(1) by simp
  with assms(4) have "byte_length s > ?maxBytes" "byte_length t > ?maxBytes" by simp_all
  with loop show ?thesis
    by (simp add: truncateTail_def Let_def utf8ByteLength_eq split: prod.splits)
qed

section \<open>What the capture knows\<close>

definition capture_inv :: "js_string \<Rightarrow> capture \<Rightarrow> bool" where
  "capture_inv S c =
     (well_formed S \<and> totalBytes c = byte_length S \<and> completedLines c = length (js_split newline S) - 1
      \<and> hasOpenLine c = (last (js_split newline S) \<noteq> []) \<and> currentLineBytes c = byte_length (last (js_split newline S))
      \<and> (\<exists>a. S = a @ tailOutput c \<and> clean_seam a (tailOutput c) \<and> well_formed (tailOutput c)
            \<and> (a = [] \<or> maxOutputBytes \<le> byte_length (tailOutput c) + 6)))"

lemma counted_total: "capture_inv S c \<Longrightarrow> total_lines c = length (splitLinesForCounting S)"
proof (cases "S = []")
  case False
  assume inv: "capture_inv S c"
  have "last S = newline \<longleftrightarrow> last (js_split newline S) = []"
  proof (cases S rule: rev_cases)
    case (snoc xs x)
    show ?thesis
    proof (cases "x = newline")
      case True
      with snoc show ?thesis by (simp add: js_split_snoc)
    next
      case x: False
      have "js_split newline [x] = [[x]]" using x by simp
      with snoc js_split_glue[of newline xs "[x]"] x show ?thesis by simp
    qed
  qed (use False in simp)
  moreover have "js_split newline S \<noteq> []" by simp
  ultimately show ?thesis using inv False
    by (auto simp: total_lines_def capture_inv_def splitLinesForCounting_def Let_def)
qed (auto simp: total_lines_def capture_inv_def splitLinesForCounting_def)

lemma clean_wf: "well_formed x \<Longrightarrow> well_formed y \<Longrightarrow> clean_seam x y \<and> well_formed (x @ y)"
proof -
  assume w: "well_formed x" "well_formed y"
  have "clean_seam x y"
  proof (cases "x = []")
    case False
    from w(1) False show ?thesis
    proof (cases rule: wf_last)
      case (pair y1 h l)
      then show ?thesis using low_not_high[of l] by (simp add: clean_seam_def)
    qed (simp add: clean_seam_def)
  qed (simp add: clean_seam_def)
  with w well_formed_append show ?thesis by blast
qed

lemma count_chunk_effect:
  assumes "capture_inv S c" "well_formed s" "c' = count_chunk s c"
  shows "totalBytes c' = byte_length (S @ s)" "completedLines c' = length (js_split newline (S @ s)) - 1"
    "hasOpenLine c' = (last (js_split newline (S @ s)) \<noteq> [])" "currentLineBytes c' = byte_length (last (js_split newline (S @ s)))"
    "tailOutput c' = tailOutput c" "writeChain c' = writeChain c" "fullOutputRequested c' = fullOutputRequested c" "captureError c' = captureError c"
proof -
  obtain y post where y: "js_split newline s = y # post" by (cases "js_split newline s") auto
  have glue: "js_split newline (S @ s) = butlast (js_split newline S) @ (last (js_split newline S) @ y) # post"
    using js_split_glue[of newline S s] y by simp
  have wS: "well_formed S" using assms(1) by (simp add: capture_inv_def)
  have b: "byte_length (S @ s) = byte_length S + byte_length s"
    using clean_wf[OF wS assms(2)] utf8_encode_append[of S s] by simp
  from first_line[OF y] have nl: "newline \<in> set s \<longleftrightarrow> post \<noteq> []"
    using js_split_lines[of y newline s] y by (auto dest: sym)
  have one: "s = y" if "post = []" using first_line[OF y] that by (auto dest: sym)
  have lb: "byte_length (last (js_split newline S) @ s) = byte_length (last (js_split newline S)) + byte_length s"
  proof -
    have "S = js_join [newline] (butlast (js_split newline S) @ [last (js_split newline S)])" by (simp add: js_join_split)
    moreover have "js_join [newline] (ls @ [z]) = z \<or> (\<exists>p. js_join [newline] (ls @ [z]) = p @ newline # z)" for ls and z :: js_string
      by (cases "ls = []") (auto simp: js_join_snoc)
    ultimately have "S = last (js_split newline S) \<or> (\<exists>p. S = p @ newline # last (js_split newline S))" by metis
    then have "well_formed (last (js_split newline S))" using wS wf_newline by metis
    from clean_wf[OF this assms(2)] utf8_encode_append show ?thesis by simp
  qed
  show "totalBytes c' = byte_length (S @ s)" "completedLines c' = length (js_split newline (S @ s)) - 1"
    "hasOpenLine c' = (last (js_split newline (S @ s)) \<noteq> [])" "currentLineBytes c' = byte_length (last (js_split newline (S @ s)))"
    "tailOutput c' = tailOutput c" "writeChain c' = writeChain c" "fullOutputRequested c' = fullOutputRequested c" "captureError c' = captureError c"
    using assms(1) b nl one lb unfolding assms(3) glue count_chunk_def Let_def y capture_inv_def
    by (auto simp: glue)
qed

definition over_limit :: "js_string \<Rightarrow> bool" where
  "over_limit S = (length (splitLinesForCounting S) > DEFAULT_MAX_LINES \<or> byte_length S > DEFAULT_MAX_BYTES)"

text \<open>The writes hold the whole output as soon as it is over a limit, unless a listener has thrown.\<close>

definition writes_inv :: "js_string \<Rightarrow> capture \<Rightarrow> bool" where
  "writes_inv S c =
     (\<not> captureError c \<longrightarrow>
        fullOutputRequested c = over_limit S
        \<and> (if over_limit S then \<exists>s xs. writeChain c = CreateOutput s # map AppendOutput xs \<and> s @ concat xs = S
            \<and> well_formed s \<and> list_all well_formed xs else writeChain c = []))"

lemma over_limit_grows:
  assumes "well_formed S" "well_formed s" "over_limit S"
  shows "over_limit (S @ s)"
proof -
  have "byte_length S \<le> byte_length (S @ s)" using clean_wf[OF assms(1,2)] utf8_encode_append[of S s] by simp
  moreover have "length (splitLinesForCounting S) \<le> length (splitLinesForCounting (S @ s))"
  proof (cases "s = [] \<or> S = []")
    case False
    obtain y post where y: "js_split newline s = y # post" by (cases "js_split newline s") auto
    then have "length (js_split newline (S @ s)) = length (js_split newline S) + length post"
      using js_split_glue[of newline S s] by (simp add: Suc_diff_1[symmetric] del: Suc_diff_1)
    moreover have "post \<noteq> []" if "last s = newline"
      using first_line[OF y] that False js_split_lines[of y newline s] y last_in_set[of s] by (auto dest: sym)
    ultimately show ?thesis using False by (auto simp: splitLinesForCounting_def Let_def) (cases post; simp)+
  qed (auto simp: splitLinesForCounting_def)
  ultimately show ?thesis using assms(3) by (auto simp: over_limit_def)
qed

lemma record_effect:
  assumes "capture_inv S c" "writes_inv S c" "well_formed s"
  shows "capture_inv (S @ s) (record_chunk lossy s c) \<and> writes_inv (S @ s) (record_chunk lossy s c)
    \<and> captureError (record_chunk lossy s c) = captureError c"
proof -
  define c1 where "c1 = count_chunk s c"
  define c2 where "c2 = c1\<lparr>tailOutput := tailOutput c1 @ s\<rparr>"
  define c3 where "c3 = (if (totalBytes c2 > DEFAULT_MAX_BYTES \<or> total_lines c2 > DEFAULT_MAX_LINES) \<and> \<not> fullOutputRequested c2
                then ensureFullOutputFile (tailOutput c2) c2
                else if fullOutputRequested c2 then appendFullOutput s c2 else c2)"
  define t where "t = trimToLastUtf8Bytes lossy (tailOutput c2) maxOutputBytes"
  note k = count_chunk_effect[OF assms(1,3) c1_def]
  obtain a where a: "S = a @ tailOutput c" "clean_seam a (tailOutput c)" "well_formed (tailOutput c)"
    "a = [] \<or> maxOutputBytes \<le> byte_length (tailOutput c) + 6" and wS: "well_formed S"
    using assms(1) by (auto simp: capture_inv_def)
  have w2: "well_formed (tailOutput c2)" "well_formed (S @ s)"
    using clean_wf a(3) wS assms(3) by (auto simp: c2_def k(5))
  obtain a' where a': "tailOutput c2 = a' @ t" "clean_seam a' t" "well_formed t" "a' = [] \<or> maxOutputBytes \<le> byte_length t + 6"
    using trim_keeps_suffix[OF w2(1) t_def] by metis
  have S: "S @ s = (a @ a') @ t" using a(1) a'(1) by (simp add: c2_def k(5))
  have seam: "clean_seam (a @ a') t"
  proof (cases "a' = []")
    case True
    with a' have t: "t = tailOutput c @ s" by (simp add: c2_def k(5))
    have "well_formed a" using wS a(1,2) well_formed_append by blast
    with True t w2(1) clean_wf[of a t] a'(3) show ?thesis by simp
  next
    case False
    with a'(2) show ?thesis by (auto simp: clean_seam_def)
  qed
  have long: "a @ a' = [] \<or> maxOutputBytes \<le> byte_length t + 6"
  proof (cases "a' = []")
    case True
    with a' have t: "t = tailOutput c @ s" by (simp add: c2_def k(5))
    then have "byte_length (tailOutput c) \<le> byte_length t"
      using clean_wf[OF a(3) assms(3)] utf8_encode_append[of "tailOutput c" s] by simp
    with True a(4) show ?thesis by auto
  qed (use a'(4) in blast)
  have same: "totalBytes c3 = totalBytes c1" "completedLines c3 = completedLines c1" "hasOpenLine c3 = hasOpenLine c1"
    "currentLineBytes c3 = currentLineBytes c1" "tailOutput c3 = tailOutput c2" "captureError c3 = captureError c"
    by (auto simp: c3_def c2_def ensureFullOutputFile_def appendFullOutput_def k(8))
  have r: "record_chunk lossy s c = c3\<lparr>tailOutput := t\<rparr>"
    unfolding record_chunk_def Let_def c1_def[symmetric] c2_def[symmetric] c3_def[symmetric] by (simp add: same(5) t_def)
  have inv: "capture_inv (S @ s) (c3\<lparr>tailOutput := t\<rparr>)"
    using w2(2) k(1-4) S seam a'(3) long by (auto simp: capture_inv_def same)
  then have lines: "total_lines c2 = length (splitLinesForCounting (S @ s))"
    using counted_total[OF inv] by (simp add: total_lines_def same c2_def)
  have limit: "(totalBytes c2 > DEFAULT_MAX_BYTES \<or> total_lines c2 > DEFAULT_MAX_LINES) = over_limit (S @ s)"
    using lines k(1) by (auto simp: over_limit_def c2_def)
  have whole: "tailOutput c2 = S @ s" if "\<not> over_limit S"
  proof -
    have "byte_length (tailOutput c) \<le> byte_length S" using utf8_encode_append[OF a(2)] a(1) by simp
    with that a(4) have "a = []" by (auto simp: over_limit_def maxOutputBytes_def DEFAULT_MAX_BYTES_def)
    with a(1) show ?thesis by (simp add: c2_def k(5))
  qed
  have "writes_inv (S @ s) (c3\<lparr>tailOutput := t\<rparr>)"
  proof (cases "captureError c \<or> \<not> over_limit (S @ s)")
    case True
    then show ?thesis
      using assms(2) over_limit_grows[OF wS assms(3)] k(6-8) limit same(6) by (auto simp: writes_inv_def c3_def c2_def)
  next
    case new: False
    show ?thesis
    proof (cases "over_limit S")
      case True
      with assms(2) new obtain s0 xs where w: "writeChain c = CreateOutput s0 # map AppendOutput xs" "s0 @ concat xs = S" "fullOutputRequested c"
        "well_formed s0" "list_all well_formed xs"
        by (auto simp: writes_inv_def)
      have "writeChain c3 = CreateOutput s0 # map AppendOutput (xs @ [s])" "fullOutputRequested c3"
        using w new k(6-8) by (simp_all add: c3_def c2_def appendFullOutput_def)
      moreover have "s0 @ concat (xs @ [s]) = S @ s" "list_all well_formed (xs @ [s])" using w(2,5) assms(3) by simp_all
      ultimately have "\<exists>s' xs'. writeChain c3 = CreateOutput s' # map AppendOutput xs' \<and> s' @ concat xs' = S @ s
          \<and> well_formed s' \<and> list_all well_formed xs'" using w(4) by blast
      with new \<open>fullOutputRequested c3\<close> show ?thesis by (simp add: writes_inv_def)
    next
      case False
      with assms(2) new have w: "writeChain c = []" "\<not> fullOutputRequested c" by (auto simp: writes_inv_def)
      have f: "writeChain c2 = []" "\<not> fullOutputRequested c2" "\<not> captureError c2" using w new k(6-8) by (simp_all add: c2_def)
      then have "c3 = ensureFullOutputFile (tailOutput c2) c2" using limit new by (simp add: c3_def)
      then have "writeChain c3 = CreateOutput (S @ s) # map AppendOutput []" "fullOutputRequested c3"
        using f unfolding whole[OF False] by (simp_all add: ensureFullOutputFile_def)
      moreover have "(S @ s) @ concat [] = S @ s" "list_all well_formed []" by simp_all
      ultimately have "\<exists>s' xs'. writeChain c3 = CreateOutput s' # map AppendOutput xs' \<and> s' @ concat xs' = S @ s
          \<and> well_formed s' \<and> list_all well_formed xs'" using w2(2) by blast
      with new \<open>fullOutputRequested c3\<close> show ?thesis by (simp add: writes_inv_def)
    qed
  qed
  with inv r same(6) show ?thesis by simp
qed

section \<open>The capture shows what truncating the whole output would show\<close>

lemma filter_wf:
  assumes "\<And>u. is_high u \<or> is_low u \<Longrightarrow> p u"
  shows "well_formed us \<Longrightarrow> well_formed (filter p us)"
proof (induction us rule: well_formed.induct)
  case (3 u v us)
  show ?case
  proof (cases "is_high u \<and> is_low v")
    case True
    with 3 assms show ?thesis by simp
  next
    case False
    with 3 have "\<not> is_high u" "\<not> is_low u" "well_formed (filter p (v # us))" by (auto split: if_splits)
    then show ?thesis using well_formed_Cons[of u "filter p (v # us)"] by simp
  qed
qed auto

lemma chunk_text_wf: "well_formed chunk \<Longrightarrow> well_formed (chunk_text chunk)"
proof -
  have big: "0xD800 \<le> unat u \<and> unat u < 0xE000" if "is_high u \<or> is_low u" for u using that by (auto simp: is_high_def is_low_def)
  have "printable_unit u" if "is_high u \<or> is_low u" for u
    using big[OF that] by (auto simp: printable_unit_def word_le_nat_alt word_unat_eq_iff)
  moreover have "u \<noteq> 0x0D" if "is_high u \<or> is_low u" for u using big[OF that] by (auto simp: word_unat_eq_iff)
  ultimately show "well_formed chunk \<Longrightarrow> well_formed (chunk_text chunk)"
    unfolding chunk_text_def sanitizeBinaryOutput_def by (intro filter_wf) auto
qed

lemma fold_capture:
  assumes "list_all well_formed chunks"
  shows "capture_inv S c \<Longrightarrow> writes_inv S c \<Longrightarrow>
    capture_inv (S @ concat (map chunk_text chunks)) (fold (onChunk lossy throws) chunks c)
    \<and> writes_inv (S @ concat (map chunk_text chunks)) (fold (onChunk lossy throws) chunks c)
    \<and> (captureError (fold (onChunk lossy throws) chunks c) \<longleftrightarrow> captureError c \<or> list_ex (throws \<circ> chunk_text) chunks)"
  using assms
proof (induction chunks arbitrary: S c)
  case (Cons x chunks)
  let ?s = "chunk_text x"
  have w: "well_formed ?s" using Cons.prems(3) chunk_text_wf by simp
  note e = record_effect[OF Cons.prems(1,2) w, of lossy]
  have "capture_inv (S @ ?s) (onChunk lossy throws x c)" "writes_inv (S @ ?s) (onChunk lossy throws x c)"
    "captureError (onChunk lossy throws x c) = (captureError c \<or> throws ?s)"
    using e by (auto simp: onChunk_def Let_def capture_inv_def writes_inv_def)
  with Cons.IH[of "S @ ?s" "onChunk lossy throws x c"] Cons.prems(3) show ?case by (simp add: disj_assoc)
qed simp

abbreviation default_limits :: truncation_options where
  "default_limits \<equiv> \<lparr>to_maxLines = None, to_maxBytes = None\<rparr>"

lemma default_bounds [simp]: "resolved_maxLines default_limits = DEFAULT_MAX_LINES" "resolved_maxBytes default_limits = DEFAULT_MAX_BYTES"
  by (simp_all add: resolved_maxLines_def resolved_maxBytes_def)

lemma tail_fields:
  "tn_truncated (truncateTail rb S default_limits) = over_limit S"
  "tn_truncatedBy (truncateTail rb S default_limits) = None \<longleftrightarrow> \<not> over_limit S"
  "tn_totalLines (truncateTail rb S default_limits) = length (splitLinesForCounting S)"
  "tn_totalBytes (truncateTail rb S default_limits) = byte_length S"
  "\<not> over_limit S \<Longrightarrow> tn_content (truncateTail rb S default_limits) = S"
  by (auto simp: truncateTail_def Let_def over_limit_def utf8ByteLength_eq split: prod.splits)

lemma progress_exact:
  assumes "capture_inv S c"
  shows "cp_truncation (createProgress rb c) = truncateTail rb S default_limits"
    and "cp_output (createProgress rb c) = tn_content (truncateTail rb S default_limits)"
proof -
  have n: "total_lines c = length (splitLinesForCounting S)" "totalBytes c = byte_length S"
    using counted_total[OF assms] assms by (simp_all add: capture_inv_def)
  then have o: "(total_lines c > DEFAULT_MAX_LINES \<or> totalBytes c > DEFAULT_MAX_BYTES) = over_limit S" by (auto simp: over_limit_def)
  obtain a where a: "S = a @ tailOutput c" "clean_seam a (tailOutput c)" "well_formed (tailOutput c)"
    "a = [] \<or> maxOutputBytes \<le> byte_length (tailOutput c) + 6" using assms by (auto simp: capture_inv_def)
  have t: "truncateTail rb S default_limits =
      (truncateTail rb (tailOutput c) default_limits)\<lparr>tn_totalLines := total_lines c, tn_totalBytes := totalBytes c\<rparr>"
  proof (cases "a = []")
    case True
    with a(1) have "tailOutput c = S" by simp
    then show ?thesis using tail_fields(3,4)[of rb S] n by simp
  next
    case False
    with a(4) have "byte_length (tailOutput c) > resolved_maxBytes default_limits + 1"
      by (simp add: maxOutputBytes_def DEFAULT_MAX_BYTES_def)
    from tail_of_suffix[OF a(1-3) this] n show ?thesis by simp
  qed
  define T where "T = truncateTail rb (tailOutput c) default_limits"
  have f: "tn_truncated T = over_limit S" "tn_truncatedBy T = None \<longleftrightarrow> \<not> over_limit S"
    using tail_fields(1,2)[of rb S] unfolding t T_def by simp_all
  have p: "cp_truncation (createProgress rb c) = T\<lparr>tn_truncated := over_limit S,
            tn_truncatedBy := (if over_limit S then
                Some (case tn_truncatedBy T of Some by \<Rightarrow> by | None \<Rightarrow> if totalBytes c > DEFAULT_MAX_BYTES then ByBytes else ByLines)
              else None),
            tn_totalLines := total_lines c, tn_totalBytes := totalBytes c\<rparr>"
    unfolding createProgress_def Let_def o T_def by simp
  have "T\<lparr>tn_truncated := tn_truncated T, tn_truncatedBy := tn_truncatedBy T\<rparr> = T" by simp
  with p f show c: "cp_truncation (createProgress rb c) = truncateTail rb S default_limits"
    unfolding t T_def[symmetric] by (cases "tn_truncatedBy T") simp_all
  have "tailOutput c = S" if "\<not> over_limit S"
  proof -
    have "byte_length (tailOutput c) \<le> byte_length S" using utf8_encode_append[OF a(2)] a(1) by simp
    with that a(4) have "a = []" by (auto simp: over_limit_def maxOutputBytes_def DEFAULT_MAX_BYTES_def)
    with a(1) show ?thesis by simp
  qed
  moreover have "cp_output (createProgress rb c) = (if over_limit S then tn_content (cp_truncation (createProgress rb c)) else tailOutput c)"
    unfolding createProgress_def Let_def o by simp
  ultimately show "cp_output (createProgress rb c) = tn_content (truncateTail rb S default_limits)"
    using tail_fields(5)[of S rb] c by simp
qed

section \<open>The file with the full output\<close>

locale output_files =
  fixes create :: "'w \<Rightarrow> (file_code + js_string) \<times> 'w"
    and appendTo :: "js_string \<Rightarrow> js_string \<Rightarrow> 'w \<Rightarrow> (file_code + unit) \<times> 'w"
    and valid :: "'w \<Rightarrow> bool"
    and stored :: "'w \<Rightarrow> js_string \<Rightarrow> byte list option"
  assumes create_empty: "valid w \<Longrightarrow> create w = (Inr p, w') \<Longrightarrow> valid w' \<and> stored w' p = Some []"
    and append_at_end: "valid w \<Longrightarrow> stored w p = Some d \<Longrightarrow> appendTo p s w = (Inr u, w') \<Longrightarrow> valid w' \<and> stored w' p = Some (d @ utf8_encode s)"
begin

lemma appends_stored:
  "valid w \<Longrightarrow> stored w p = Some d \<Longrightarrow> run_writes create appendTo (Some p) (map AppendOutput xs) w = (Inr r, w') \<Longrightarrow>
   r = Some p \<and> valid w' \<and> stored w' p = Some (d @ concat (map utf8_encode xs))"
proof (induction xs arbitrary: w d)
  case (Cons x xs)
  obtain y v where a: "appendTo p x w = (y, v)" by fastforce
  with Cons.prems(3) obtain u where "y = Inr u" by (cases y) auto
  with a append_at_end[OF Cons.prems(1,2), of x u v] Cons.IH[of v "d @ utf8_encode x"] Cons.prems(3) show ?case by simp
qed simp

lemma writes_stored:
  assumes "valid w" "run_writes create appendTo None (CreateOutput s # map AppendOutput xs) w = (Inr r, w')"
  shows "\<exists>p. r = Some p \<and> stored w' p = Some (utf8_encode s @ concat (map utf8_encode xs))"
proof -
  obtain y v where c: "create w = (y, v)" by fastforce
  with assms(2) obtain p where y: "y = Inr p" by (cases y) auto
  obtain z v' where a: "appendTo p s v = (z, v')" by fastforce
  with c y assms(2) obtain u where "z = Inr u" by (cases z) auto
  with c y a create_empty[OF assms(1), of p v] append_at_end[of v p "[]" s u v'] assms(2) appends_stored[of v' p "utf8_encode s" xs r w']
  show ?thesis by simp
qed

end

lemma encode_concat:
  "well_formed s \<Longrightarrow> list_all well_formed xs \<Longrightarrow> utf8_encode (s @ concat xs) = utf8_encode s @ concat (map utf8_encode xs)"
proof (induction xs rule: rev_induct)
  case (snoc x xs)
  then have w: "well_formed (s @ concat xs)" "well_formed x"
  proof -
    have "list_all well_formed ys \<Longrightarrow> well_formed t \<Longrightarrow> well_formed (t @ concat ys)" for t ys
      by (induction ys arbitrary: t) (use clean_wf in \<open>fastforce simp: append_assoc[symmetric] simp del: append_assoc\<close>)+
    with snoc.prems show "well_formed (s @ concat xs)" "well_formed x" by simp_all
  qed
  have "utf8_encode ((s @ concat xs) @ x) = utf8_encode (s @ concat xs) @ utf8_encode x"
    using clean_wf[OF w] by (intro utf8_encode_append) blast
  with snoc show ?case by simp
qed simp

text \<open>Temporary files of the browser, with the identifiers the platform draws.\<close>

definition opfs_stored :: "js_string \<Rightarrow> opfs \<Rightarrow> js_string \<Rightarrow> byte list option" where
  "opfs_stored cwd w p = opfs_bytes w (splitToSegments p cwd)"

interpretation opfs_output: output_files "opfs_createTempFile cwd pre suf uuid uuid'" "\<lambda>p s. opfs_appendFile cwd p (TextContent s)" wf_opfs
  "opfs_stored cwd"
proof
  fix w p w' d s u assume w: "wf_opfs w"
  {
    assume "opfs_createTempFile cwd pre suf uuid uuid' w = (Inr p, w')"
    then obtain dir v where d: "opfs_createTempDir cwd (ascii_units ''tmp-'') uuid w = (Inr dir, v)"
      and f: "opfs_writeFile cwd p (TextContent []) False v = (Inr (), w')"
      by (auto simp: opfs_createTempFile_def fbind_Inr Let_def)
    from d obtain x where "opfs_createDir cwd x True w = (Inr (), v)" by (auto simp: opfs_createTempDir_def fbind_Inr Let_def)
    from opfs_createDir_effect[OF w this refl] have v: "wf_opfs v" by (auto simp: grown_def)
    from opfs_write_effect[OF v f refl] show "wf_opfs w' \<and> opfs_stored cwd w' p = Some []"
      by (auto simp: opfs_stored_def opfs_bytes_def)
  }
  assume "opfs_stored cwd w p = Some d" "opfs_appendFile cwd p (TextContent s) w = (Inr u, w')"
  with opfs_append_effect[OF w this(2) refl] show "wf_opfs w' \<and> opfs_stored cwd w' p = Some (d @ utf8_encode s)"
    by (auto simp: opfs_stored_def opfs_bytes_def split: option.splits opfs_node.splits)
qed



section \<open>The result of the shell tool\<close>

text \<open>
  What \<^verbatim>\<open>packages/agent/src/harness/tools/bash.ts\<close> makes of a capture: the text it returns, or the one it throws.
  \<open>timeout\<close> is the timeout of the call as a text.
\<close>

datatype bash_outcome =
    BashResult js_string "(truncation_result \<times> js_string option) option"
  | BashFailure js_string
  | BashError execution_code

definition path_or_undefined :: "js_string option \<Rightarrow> js_string" where
  "path_or_undefined path = (case path of None \<Rightarrow> ascii_units ''undefined'' | Some p \<Rightarrow> p)"

definition nat_units :: "nat \<Rightarrow> js_string" where
  "nat_units n = ascii_units (nat_to_string n)"

definition bash_output :: "capture_result \<Rightarrow> js_string" where
  "bash_output r =
     (let progress = cr_progress r; t = cp_truncation progress;
          full = ascii_units ''. Full output: '' @ path_or_undefined (cr_fullOutputPath r) @ ascii_units '']'';
          startLine = tn_totalLines t - tn_outputLines t + 1; endLine = tn_totalLines t;
          range = ascii_units ''[Showing lines '' @ nat_units startLine @ ascii_units ''-'' @ nat_units endLine @ ascii_units '' of '' @ nat_units endLine
      in if \<not> tn_truncated t then cp_output progress
         else
           cp_output progress @ [newline, newline]
           @ (if tn_lastLinePartial t then
                ascii_units ''[Showing last '' @ formatSize (tn_outputBytes t) @ ascii_units '' of line '' @ nat_units endLine
                @ ascii_units '' (line is '' @ formatSize (cp_lastLineBytes progress) @ ascii_units '')'' @ full
              else if tn_truncatedBy t = Some ByLines then range @ full
              else range @ ascii_units '' ('' @ formatSize DEFAULT_MAX_BYTES @ ascii_units '' limit)'' @ full))"

definition appendStatus :: "js_string \<Rightarrow> js_string \<Rightarrow> js_string" where
  "appendStatus outputText status = (if outputText \<noteq> [] then outputText @ [newline, newline] else []) @ status"

definition bash_result :: "js_string \<Rightarrow> capture_result \<Rightarrow> bash_outcome" where
  "bash_result timeout r =
     (let outputText = bash_output r; t = cp_truncation (cr_progress r)
      in if cr_cancelled r then BashFailure (appendStatus outputText (ascii_units ''Command aborted''))
         else if cr_executionError r = Some ExecTimeout then
           BashFailure (appendStatus outputText (ascii_units ''Command timed out after '' @ timeout @ ascii_units '' seconds''))
         else
           (case cr_executionError r of
              Some e \<Rightarrow> BashError e
            | None \<Rightarrow>
                (case cr_exitCode r of
                   Some code \<Rightarrow>
                     if code \<noteq> 0 then
                       BashFailure (appendStatus outputText (ascii_units ''Command exited with code '' @ ascii_units (int_to_string code)))
                     else BashResult (if outputText \<noteq> [] then outputText else ascii_units ''(no output)'')
                            (if tn_truncated t then Some (t, cr_fullOutputPath r) else None)
                 | None \<Rightarrow> BashResult (if outputText \<noteq> [] then outputText else ascii_units ''(no output)'')
                            (if tn_truncated t then Some (t, cr_fullOutputPath r) else None))))"

text \<open>Only a command that ended by itself with code zero is a success.\<close>

lemma bash_success:
  assumes "executeShellWithCapture rb lossy throws create appendTo True aborted chunks outcome w = (Inr r, w')"
    and "bash_result timeout r = BashResult s details"
  shows "outcome = Inr 0 \<and> \<not> aborted"
  using assms
  by (auto simp: executeShellWithCapture_def bash_result_def Let_def split: prod.splits sum.splits if_splits option.splits)

end
