(* ===== verification/Spec2Isabelle.thy ===== *)
theory Spec2Isabelle
  imports Lane_Reducer Cbor_Roundtrip Truncate Branch_Summary Agent Transform_Messages Jsonl_Storage Edit_Fuzzy Edit_Display Opfs_Storage Mutation_Queue
    Read_Tool Shell_Capture
begin

text \<open>
  A verification of the core of pi, a coding agent: the durable session of \<^verbatim>\<open>packages/agent\<close> with
  what it feeds to a model, the agent loop that calls models and tools, the retry of provider calls of \<^verbatim>\<open>packages/ai\<close>, and the wire format of
  \<^verbatim>\<open>packages/protocol\<close>.

  \<^bold>\<open>The program.\<close>  A session is a tree of entries (messages, changes of model, thinking level and tools,
  compactions, branch summaries, custom entries), lanes that point to leaves of the tree, and per lane a log of
  records that tell how runs, compactions and navigations proceed.  All of it is one log of mutations: a storage
  assigns sequence numbers and appends, \<^verbatim>\<open>SessionState\<close> replays.  The facade \<^verbatim>\<open>Session\<close>
  checks payloads and offers queries and appends per lane.  The reducer reads the records of a lane back into the
  state of its operation after a restart.  The context of a branch is the list of messages a model sees; when it
  grows too long, a compaction cuts it, has the old part summarized by a provider, with retries, and stores summary
  and retained tail as an entry; leaving a branch can store a summary of it in the same way.  Output of tools is
  truncated to lines and bytes.  The agent loop alternates responses of the model and tool batches, takes steering and
  follow-up messages from queues, and resumes calls that a crash left without results.  Between client and server, messages are CBOR values in length-prefixed frames.

  \<^bold>\<open>The theories\<close>, with the sources they follow (under \<^verbatim>\<open>packages/\<close>):

  \<^item> \<^verbatim>\<open>Prelude\<close>: results with errors (\<open>rbind\<close>, \<open>rcheck\<close>, \<open>rfold\<close>), association
    lists as JavaScript maps, JavaScript numbers, splitting and joining, decimal text.
  \<^item> \<^verbatim>\<open>Session_Types\<close>: messages, entries, records, queries, log items
    (\<^verbatim>\<open>agent/src/harness/session/types.ts\<close>, \<^verbatim>\<open>ai/src/types.ts\<close>, \<^verbatim>\<open>agent/src/types.ts\<close>).
  \<^item> \<^verbatim>\<open>Session_State\<close>: \<^verbatim>\<open>session/state.ts\<close>, one definition per method of the class and a record for
    its fields.  Shown: the invariant \<open>wf_state\<close> of every replayed state, the exact results of the walk to the root and of
    the queries, open operations, and that the mutations of a fork replay to a well-formed copy.
  \<^item> \<^verbatim>\<open>Session_Storage\<close>: \<^verbatim>\<open>session/memory.ts\<close>.  The storage interface is the locale
    \<open>session_storage\<close>; the in-memory storage interprets it.  Shown: every reachable storage is well-formed with at
    most one open operation per lane, appends extend the branch, and the repository keeps all of this.
  \<^item> \<^verbatim>\<open>Json_Text\<close>, \<^verbatim>\<open>Session_Json\<close>, \<^verbatim>\<open>Jsonl_Codec\<close>, \<^verbatim>\<open>Jsonl_Storage\<close>: JSON text and
    \<^verbatim>\<open>session/jsonl\<close>; the types of the session as objects are the locale \<open>json_view\<close>, interpreted on each of them.  Shown: lines read
    back, what was acknowledged survives a restart, a crash during a write leaves all or nothing of it, the storage does
    what the one in memory does (it interprets \<open>session_storage\<close> too), forks are published as a whole.
  \<^item> \<^verbatim>\<open>Js_Value\<close>, \<^verbatim>\<open>Session_Facade\<close>: \<^verbatim>\<open>session/session.ts\<close>; values live in a heap, and the
    payload check accepts exactly the images of finite JSON trees.
  \<^item> \<^verbatim>\<open>Session_Context\<close>: \<^verbatim>\<open>session/context.ts\<close> and \<^verbatim>\<open>harness/messages.ts\<close>.
  \<^item> \<^verbatim>\<open>Lane_Reducer\<close>: \<^verbatim>\<open>harness/reducer.ts\<close>; which logs are accepted and what the reduced state says.
  \<^item> \<^verbatim>\<open>Compaction\<close>: \<^verbatim>\<open>harness/compaction/compaction.ts\<close> and \<^verbatim>\<open>utils.ts\<close> up to the
    preparation; where the cut falls, that nothing is lost, and two cuts that miss their purpose.
  \<^item> \<^verbatim>\<open>Retry\<close>: \<^verbatim>\<open>ai/src/utils/retry.ts\<close>; the patterns of transient errors and the trace of the loop.
  \<^item> \<^verbatim>\<open>Summaries\<close>: prompts, requests and \<^verbatim>\<open>compact\<close> (here \<open>compact_op\<close>).
  \<^item> \<^verbatim>\<open>Branch_Summary\<close>: \<^verbatim>\<open>harness/compaction/branch-summarization.ts\<close>, over the views of the facade.
  \<^item> \<^verbatim>\<open>Agent_Loop\<close>, \<^verbatim>\<open>Agent_Run\<close>: \<^verbatim>\<open>agent/src/agent-loop.ts\<close>; the first holds the loop, the
    second what a run returns: calls paired with their results, turns bracketed in the events, that a run ends when
    provider and queues do, and that resumption settles what was pending.
  \<^item> \<^verbatim>\<open>Agent_Delivery\<close>, \<^verbatim>\<open>Agent\<close>: the messages a run reports and takes from queues, and
    \<^verbatim>\<open>agent/src/agent.ts\<close>, the class around the loop; its transcript follows the loop, it loses no message, and
    it is idle after every run.
  \<^item> \<^verbatim>\<open>Transform_Messages\<close>: \<^verbatim>\<open>ai/src/api/transform-messages.ts\<close>; every call sent has a result, a model gets only
    what it can take, transforming twice is transforming once, and the cached prefix does not depend on what is volatile.
  \<^item> \<^verbatim>\<open>Truncate\<close>: \<^verbatim>\<open>harness/utils/truncate.ts\<close>; the longest prefix or suffix within the limits.
  \<^item> \<^verbatim>\<open>Edit_Diff\<close>, \<^verbatim>\<open>Edit_Fuzzy\<close>, \<^verbatim>\<open>Edit_Display\<close>: \<^verbatim>\<open>harness/tools/edit-diff.ts\<close>; exact edits are
    made at once and ambiguous ones refused, a fuzzy edit leaves the lines it does not touch alone, and the diff shows
    what it says.
  \<^item> \<^verbatim>\<open>Virtual_Path\<close>, \<^verbatim>\<open>Opfs_Files\<close>, \<^verbatim>\<open>Opfs_Effects\<close>, \<^verbatim>\<open>Opfs_Storage\<close>: the files of the browser,
    \<^verbatim>\<open>harness/env/opfs\<close>.  Paths have a normal form; writes are atomic, renames lose nothing and the tree stays a tree
    although any call of the platform may fail; the mirror in memory and the tree agree after a flush and after a
    restart, with the calls for which they do not.
  \<^item> \<^verbatim>\<open>Mutation_Queue\<close>: \<^verbatim>\<open>harness/tools/file-mutation-queue.ts\<close>, its calls as interleaved steps; one function per
    file at a time, no lost update, and the queue drains.
  \<^item> \<^verbatim>\<open>File_Tools\<close>, \<^verbatim>\<open>Read_Tool\<close>: \<^verbatim>\<open>harness/tools\<close>, the tools edit, write and read with \<^verbatim>\<open>path-utils.ts\<close> and
    \<^verbatim>\<open>image.ts\<close>.  What the tools need of an environment is the locale \<open>tool_files\<close>, which the files of the browser interpret.
    Shown: an edit changes its file as a whole or not at all and no other file, following the notices of read
    gives the whole file, and base64 reads back.
  \<^item> \<^verbatim>\<open>Shell_Capture\<close>: \<^verbatim>\<open>harness/utils/shell-output.ts\<close> and the result of \<^verbatim>\<open>harness/tools/bash.ts\<close>; although only a
    bounded tail is kept in memory, the result is the truncation of the whole output, and the file holds all of it.  The
    locale \<open>output_files\<close> is what it needs of an environment.
  \<^item> \<^verbatim>\<open>Framing\<close>: \<^verbatim>\<open>protocol/src/framing.ts\<close>; the incremental decoder with its block buffer
    refines the splitting of the whole stream.
  \<^item> \<^verbatim>\<open>Utf8\<close>, \<^verbatim>\<open>Cbor\<close>, \<^verbatim>\<open>Cbor_Roundtrip\<close>: \<^verbatim>\<open>protocol/src/cbor\<close>; what the encoder accepts
    and that the decoder gives it back.

  This theory joins the components: an appended message reaches the context, a compaction replaces a prefix of the
  context by its summary, and values survive framing, chunking and decoding.

  \<^bold>\<open>State, errors, loops.\<close>  A class is a record and its methods functions that return the new record; a
  \<^verbatim>\<open>throw\<close> is the left side of a sum; promises are resolved in the order of the source, since every storage
  call of these components is awaited before the next.  Loops are structural recursion or have a measure (the walk
  to the root: the entries not visited; the retry loop: the attempts left; CBOR: the configured depth; JSON: two units of fuel per character, which is shown to be enough).  The loops of
  the frame decoder and of \<^verbatim>\<open>collectEntriesForBranchSummary\<close>, which the source does not bound, and the agent loop are partial functions with
  \<open>None\<close> for a loop that does not end, and are shown to return, the agent loop if the configuration uses up a budget.  Bytes are \<open>8 word\<close>, code units
  \<open>16 word\<close>; a string of a session stands for its UTF-8 bytes.  JavaScript numbers are integers, the
  special values, or the bits of another double.

  \<^bold>\<open>Parameters.\<close>  The deep equality of typebox (reducer), the provider and its signal (summaries), the
  decimal text of numbers that are not integers, clocks and identifiers, the Unicode normal forms, the line diff of the edit tool, the
  image processor of the read tool and the decoding of bytes that are not UTF-8.  For the agent loop the provider stream, the tools with the validation of
  their arguments, the queues and the hooks are functions on a world of any type; they do not change the arrays of
  messages they are handed, and only hooks whose errors the loop catches fail.  The concurrent executions of a
  parallel batch are units that run in any order.

  The file system of sessions is the text of its files and a list of what will fail, that of the browser a tree of bytes with such a list; the nearest double of a decimal text and the text of a double
  are parameters.

  \<^bold>\<open>Not modelled\<close>: the repository of session files, the SQLite storage, the typebox schemas, sockets, servers
  and clients, the event streams around the agent loop, the harness that drives the agent and the Node environment, listeners, the
  schemas of the tools, the repair of arguments and the throttled updates of bash, provider clients, the terminal
  application and its user interface, the memory, MCP and browser packages.
\<close>

section \<open>From an append to the context\<close>

definition lane_branch :: "session_state \<Rightarrow> string \<Rightarrow> entry list" where
  "lane_branch s lane = (case requireLane s lane of Inr (Some i) \<Rightarrow> rev (branch_path s i) | _ \<Rightarrow> [])"

lemma local_no_options: "local_options no_options"
  by (simp add: local_options_def no_options_def)

lemma appended_branch:
  assumes "wf_state (ms_state st)" and "appendMessageToLane memory_ops now newId h st lane m = Inr (st', i)"
  shows "\<exists>e. entry_payload e = MessagePayload (snd m) False \<and>
    lane_branch (ms_state st') lane = lane_branch (ms_state st) lane @ [e]"
proof -
  obtain e where e: "so_appendEntry memory_ops now st \<lparr>prov_id = newId, prov_payload = MessagePayload (snd m) False\<rparr> lane
      = Inr (st', e)"
    using assms(2) by (auto simp: appendMessageToLane_def alloc_def mem.commitEntry_ok)
  from mem.appended_at_leaf(1) [OF assms(1) e] have "requireLane (ms_state st') lane = Inr (Some newId)"
    by (simp add: mem.getLeafIdForLane_eq)
  moreover note mem.appendEntry_law [OF e] mem.appendEntry_branch [OF assms(1) e]
  ultimately show ?thesis
    by (intro exI [of _ e]) (auto simp: lane_branch_def split: option.split)
qed

text \<open>C36: A message appended to a lane reaches the model.  Once \<^verbatim>\<open>appendMessage\<close> has succeeded on a lane of an
  in-memory session, the context built from the branch of the lane has the messages it had before, followed by the
  new one, unless that is the placeholder of a deferred answer.\<close>

theorem appended_message_in_context:
  assumes "wf_state (ms_state st)" and "tree_appendMessage (session_view memory_ops lane) now newId h st m = Inr (st', i)"
    and "\<forall>a. snd m = AssistantMessage a \<longrightarrow> am_stopReason a \<noteq> StopDeferred"
  shows "cx_messages (buildSessionContext (lane_branch (ms_state st') lane) no_options) =
    cx_messages (buildSessionContext (lane_branch (ms_state st) lane) no_options) @ [snd m]"
proof -
  from appended_branch [OF assms(1), of now newId h lane m st' i] assms(2) obtain e where
    e: "entry_payload e = MessagePayload (snd m) False" "lane_branch (ms_state st') lane = lane_branch (ms_state st) lane @ [e]"
    by (auto simp: session_view_def)
  have "entry_messages no_options e = [snd m]"
    using e(1) assms(3) by (auto simp: entry_messages_def sessionEntryToContextMessages_def split: agent_message.split)
  with e context_grows [OF local_no_options, of e] show ?thesis by simp
qed

theorem appended_message_in_context_witness:
  "\<exists>st' i. tree_appendMessage (session_view memory_ops ''main'') 30 ''m'' sample_heap sample_storage sample_user = Inr (st', i) \<and>
     cx_messages (buildSessionContext (lane_branch (ms_state st') ''main'') no_options) =
     cx_messages (buildSessionContext (lane_branch (ms_state sample_storage) ''main'') no_options) @ [snd sample_user]"
proof -
  obtain st' i where ok: "tree_appendMessage (session_view memory_ops ''main'') 30 ''m'' sample_heap sample_storage sample_user
      = Inr (st', i)" using sample_message_append by blast
  have "wf_state (ms_state sample_storage)" by (simp add: sample_storage_def sample_wf)
  from appended_message_in_context [OF this ok] ok show ?thesis by (simp add: sample_user_def)
qed

section \<open>From a compaction to the context\<close>

text \<open>Entries whose message the context and a compaction read the same way: no deferred placeholder and no empty
  branch summary.\<close>

definition settled :: "entry \<Rightarrow> bool" where
  "settled e =
     (case entry_payload e of
        MessagePayload (AssistantMessage a) _ \<Rightarrow> am_stopReason a \<noteq> StopDeferred
      | BranchSummaryPayload _ summary _ _ \<Rightarrow> summary \<noteq> []
      | _ \<Rightarrow> True)"

lemma settled_messages:
  "settled e \<Longrightarrow> entry_kind e \<noteq> CompactionType \<Longrightarrow>
   entry_messages no_options e = (case getMessageFromEntryForCompaction e of None \<Rightarrow> [] | Some m \<Rightarrow> [m])"
  by (auto simp: settled_def entry_messages_def sessionEntryToContextMessages_def getMessageFromEntryForCompaction_def
      getMessageFromEntry_def no_options_def split: entry_payload.splits agent_message.splits)

lemma concat_options: "concat (map (\<lambda>e. case f e of None \<Rightarrow> [] | Some m \<Rightarrow> [m]) es) = List.map_filter f es"
  by (induction es) (auto simp: List.map_filter_simps split: option.split)

lemma settled_context:
  assumes "list_all settled es" and "no_compaction es"
  shows "concat (map (entry_messages no_options) es) = List.map_filter getMessageFromEntryForCompaction es"
proof -
  have "map (entry_messages no_options) es =
      map (\<lambda>e. case getMessageFromEntryForCompaction e of None \<Rightarrow> [] | Some m \<Rightarrow> [m]) es"
    using assms by (intro map_cong refl settled_messages) (auto simp: list_all_iff no_compaction_def)
  then show ?thesis by (simp only: concat_options)
qed

lemma retained_messages:
  "List.map_filter getMessageFromEntryForCompaction (map (\<lambda>(i, m). retained_entry c i m) (enumerate n ms)) = ms"
  by (induction ms arbitrary: n)
    (auto simp: List.map_filter_simps retained_entry_def getMessageFromEntryForCompaction_def getMessageFromEntry_def)

lemma context_splits:
  assumes "list_all settled path"
  shows "\<exists>pre. cx_messages (buildSessionContext path no_options) =
    pre @ List.map_filter getMessageFromEntryForCompaction (compactable_entries path (compaction_index path (length path)))"
proof (cases rule: compaction_cases [of path])
  case 1
  with assms have "cx_messages (buildSessionContext path no_options) = List.map_filter getMessageFromEntryForCompaction path"
    by (simp add: buildSessionContext_messages [OF local_no_options] defaultTransform_none settled_context)
  with 1 show ?thesis by (simp add: compaction_index_none compactable_entries_def)
next
  case (2 before c post)
  then obtain summary tail tokens details u where c: "entry_payload c = CompactionPayload summary tail tokens details u"
    by (cases "entry_payload c") auto
  have index: "compaction_index path (length path) = Some (length before)"
    using compaction_index_last [OF 2(2,3), of "length post" before] 2(1) by simp
  have "compactable_entries path (Some (length before)) =
      map (\<lambda>(i, m). retained_entry c i m) (enumerate 0 tail) @ post"
    by (simp add: compactable_entries_def 2(1) compaction_tail_def c)
  moreover have "cx_messages (buildSessionContext path no_options) =
      createCompactionSummaryMessage summary tokens (entry_timestamp c) # tail @ List.map_filter getMessageFromEntryForCompaction post"
    using context_after_compaction [OF local_no_options c 2(3), of before] assms 2(1,3) by (simp add: settled_context)
  ultimately show ?thesis by (simp add: index map_filter_append retained_messages)
qed



section \<open>A deferred answer in a compaction\<close>

definition deferred_entry :: entry where
  "deferred_entry = payload_entry (MessagePayload (AssistantMessage (silent_assistant\<lparr>am_stopReason := StopDeferred\<rparr>)) False)"

text \<open>Compaction brings back what the context leaves out.  The placeholder of a deferred answer is no message of the
  context of a branch, but a compaction retains it like any other message, and the context after the compaction has it.\<close>

theorem deferred_answer_resurfaces:
  "\<exists>prep. prepareCompaction (\<lambda>_. []) [picture_entry ''a'', picture_entry ''b'', deferred_entry] small_budget = Some prep \<and>
     cx_messages (buildSessionContext [picture_entry ''a'', picture_entry ''b'', deferred_entry] no_options) = [picture, picture] \<and>
     cx_messages (buildSessionContext [picture_entry ''a'', picture_entry ''b'', deferred_entry,
         payload_entry (CompactionPayload summary (prep_retainedTail prep) 0 None None)] no_options) =
       [createCompactionSummaryMessage summary 0 0, picture, AssistantMessage (silent_assistant\<lparr>am_stopReason := StopDeferred\<rparr>)]"
proof -
  let ?path = "[picture_entry ''a'', picture_entry ''b'', deferred_entry]"
  let ?deferred = "AssistantMessage (silent_assistant\<lparr>am_stopReason := StopDeferred\<rparr>)"
  have d: "entry_kind deferred_entry = MessageType" "entry_message deferred_entry = Some ?deferred" "valid_cut deferred_entry"
      "getMessageFromEntryForCompaction deferred_entry = Some ?deferred"
    by (simp_all add: deferred_entry_def payload_entry_def entry_message_def valid_cut_def
        getMessageFromEntryForCompaction_def getMessageFromEntry_def)
  have "findCutPoint (\<lambda>_. []) ?path 0 (Suc (Suc (Suc 0))) 1 =
      \<lparr>cp_firstKeptEntryIndex = 1, cp_turnStartIndex = None, cp_isSplitTurn = False\<rparr>"
    by (simp add: findCutPoint_def findValidCutPoints_def upt_conv_Cons d)
      (simp add: silent_assistant_def Let_def ESTIMATED_IMAGE_CHARS_def)
  then have "map_option prep_retainedTail (prepareCompaction (\<lambda>_. []) ?path small_budget) = Some [picture, ?deferred]"
    by (simp add: prepareCompaction_def Let_def small_budget_def compactable_entries_def messages_between_def
        upt_conv_Cons List.map_filter_def d)
  then obtain prep where p: "prepareCompaction (\<lambda>_. []) ?path small_budget = Some prep" "prep_retainedTail prep = [picture, ?deferred]"
    by auto
  have before: "cx_messages (buildSessionContext ?path no_options) = [picture, picture]"
    by (simp add: buildSessionContext_messages [OF local_no_options] defaultTransform_none no_compaction_def d
        entry_messages_def sessionEntryToContextMessages_def)
      (simp add: deferred_entry_def picture_entry_def payload_entry_def)
  have "cx_messages (buildSessionContext (?path @ [payload_entry (CompactionPayload summary (prep_retainedTail prep) 0 None None)])
      no_options) = [createCompactionSummaryMessage summary 0 0, picture, ?deferred]"
    using context_after_compaction [OF local_no_options, of _ summary "[picture, ?deferred]" 0 None None "[]" ?path] p(2)
    by (simp add: payload_entry_def no_compaction_def)
  with p before show ?thesis by auto
qed

section \<open>From values to the wire and back\<close>

definition frame_bytes :: "byte list \<Rightarrow> byte list" where
  "frame_bytes p = (case encodeFrame p of Inr f \<Rightarrow> f | Inl _ \<Rightarrow> [])"

text \<open>C25: Values survive the wire.  Values the encoder accepts, each framed, sent as one stream of bytes and received in
  chunks cut anywhere, come out of a fresh frame decoder in order, and each payload decodes to the finite tree of its
  value; the stream then ends cleanly.\<close>

theorem values_survive_the_wire:
  assumes "new_decoder frameOptions = Inr d"
    and "list_all2 (\<lambda>(h, v) p. wf_cbor_heap h \<and> wf_val v \<and> encodeCbor h v options = Inr p \<and> length p \<le> fd_maxFrameLength d) vs ps"
    and "concat chunks = concat (map frame_bytes ps)"
  shows "\<exists>d' ts. push_all d chunks = Some (d', ps, None) \<and> snd (decoder_end d') = Inr () \<and>
    map (\<lambda>p. decodeCbor p options) ps = map Inr ts \<and> list_all2 (\<lambda>(h, v) t. cbor_denotes h v t) vs ts"
proof -
  have "\<forall>p \<in> set ps. length p \<le> fd_maxFrameLength d"
    using assms(2) by (auto simp: list_all2_conv_all_nth in_set_conv_nth split_beta)
  from frames_decoded [OF assms(1) this, of chunks] assms(3) obtain d' where
    "push_all d chunks = Some (d', ps, None)" "snd (decoder_end d') = Inr ()" by (auto simp: frame_bytes_def [abs_def])
  moreover have "\<exists>ts. map (\<lambda>p. decodeCbor p options) ps = map Inr ts \<and> list_all2 (\<lambda>(h, v) t. cbor_denotes h v t) vs ts"
    using assms(2)
  proof (induction rule: list_all2_induct)
    case (Cons x xs p ps)
    obtain h v where "x = (h, v)" by (cases x)
    with Cons.hyps encode_decode obtain t where "cbor_denotes h v t" "decodeCbor p options = Inr t" by blast
    moreover obtain ts where "map (\<lambda>p. decodeCbor p options) ps = map Inr ts" "list_all2 (\<lambda>(h, v) t. cbor_denotes h v t) xs ts"
      using Cons.IH by blast
    ultimately show ?case using \<open>x = (h, v)\<close> by (intro exI [of _ "t # ts"]) simp
  qed simp
  ultimately show ?thesis by blast
qed

theorem values_survive_the_wire_witness:
  "\<exists>d d' ts. new_decoder None = Inr d \<and>
     push_all d (map (\<lambda>b. [b]) (frame_bytes sample_cbor_bytes)) = Some (d', [sample_cbor_bytes], None) \<and>
     list_all2 (\<lambda>(h, v) t. cbor_denotes h v t) [(sample_cbor_heap, CvRef 0)] ts"
proof -
  obtain d where d: "new_decoder None = Inr d" "fd_maxFrameLength d = DEFAULT_MAX_FRAME_LENGTH" using sample_decoder by blast
  have "list_all2 (\<lambda>(h, v) p. wf_cbor_heap h \<and> wf_val v \<and> encodeCbor h v sample_cbor_options = Inr p \<and>
      length p \<le> fd_maxFrameLength d) [(sample_cbor_heap, CvRef 0)] [sample_cbor_bytes]"
    by (simp add: sample_cbor_heap_wf sample_cbor_encoded wf_val_def d(2))
      (simp add: DEFAULT_MAX_FRAME_LENGTH_def sample_cbor_bytes_def)
  moreover have "concat (map (\<lambda>b. [b]) (frame_bytes sample_cbor_bytes)) = concat (map frame_bytes [sample_cbor_bytes])"
    by simp
  ultimately show ?thesis using values_survive_the_wire [OF d(1)] d(1) by blast
qed

end
